(* ===== verification/Xinu_Prelude.thy ===== *)
theory Xinu_Prelude
  imports Main "HOL-Library.Monad_Syntax"
begin

text \<open>
  Shared ground of the development: the C integer types of include/kernel.h as integers with
  their wrap-around written out, the universal return values, the C loop as a combinator over
  computations that may fault or not return, generic lemmas on lists, and the theorem
  collections that the component theories fill.

  A computation that can leave the defined behaviour of C (an index outside an array) or that
  can run forever has an option type: None is "fault or no return", Some x is "returns x".
\<close>

section \<open>C integers and return values\<close>

definition i32 :: "int \<Rightarrow> int" where
  "i32 x = (x + 2147483648) mod 4294967296 - 2147483648"

definition i16 :: "int \<Rightarrow> int" where
  "i16 x = (x + 32768) mod 65536 - 32768"

definition u32 :: "int \<Rightarrow> int" where
  "u32 x = x mod 4294967296"

definition u16 :: "int \<Rightarrow> int" where
  "u16 x = x mod 65536"

definition u8 :: "int \<Rightarrow> int" where
  "u8 x = x mod 256"

abbreviation OK :: int where "OK \<equiv> 1"
abbreviation SYSERR :: int where "SYSERR \<equiv> -1"
abbreviation TIMEOUT :: int where "TIMEOUT \<equiv> -3"

abbreviation INT_MAX :: int where "INT_MAX \<equiv> 2147483647"
abbreviation INT_MIN :: int where "INT_MIN \<equiv> -2147483648"

named_theorems c_int \<open>C integer conversions that are the identity on values in range\<close>

lemma i32_id [c_int]: "INT_MIN \<le> x \<Longrightarrow> x \<le> INT_MAX \<Longrightarrow> i32 x = x"
  by (simp add: i32_def)

lemma i32_high: "2147483648 \<le> x \<Longrightarrow> x < 4294967296 \<Longrightarrow> i32 x = x - 4294967296"
proof -
  assume x: "2147483648 \<le> x" "x < 4294967296"
  have "(x + 2147483648) mod 4294967296 = (x + 2147483648 - 4294967296) mod 4294967296"
    by (simp only: minus_mod_self2)
  also have "\<dots> = x + 2147483648 - 4294967296" using x by (intro mod_pos_pos_trivial) simp_all
  finally show ?thesis by (simp add: i32_def)
qed

lemma i32_SYSERR: "0 \<le> x \<Longrightarrow> x < 4294967296 \<Longrightarrow> i32 x = SYSERR \<longleftrightarrow> x = u32 SYSERR"
  using i32_id[of x] i32_high[of x] by (cases "x < 2147483648") (auto simp: u32_def)

lemma i16_id [c_int]: "-32768 \<le> x \<Longrightarrow> x \<le> 32767 \<Longrightarrow> i16 x = x"
  by (simp add: i16_def)

lemma u32_id [c_int]: "0 \<le> x \<Longrightarrow> x < 4294967296 \<Longrightarrow> u32 x = x"
  by (simp add: u32_def)

lemma u16_id [c_int]: "0 \<le> x \<Longrightarrow> x < 65536 \<Longrightarrow> u16 x = x"
  by (simp add: u16_def)

lemma u8_id [c_int]: "0 \<le> x \<Longrightarrow> x < 256 \<Longrightarrow> u8 x = x"
  by (simp add: u8_def)

lemma i32_range: "INT_MIN \<le> i32 x" "i32 x \<le> INT_MAX"
proof -
  have "0 \<le> (x + 2147483648) mod 4294967296" "(x + 2147483648) mod 4294967296 < 4294967296"
    by simp_all
  then show "INT_MIN \<le> i32 x" "i32 x \<le> INT_MAX"
    unfolding i32_def by linarith+
qed

lemma u32_range: "0 \<le> u32 x" "u32 x < 4294967296"
  by (simp_all add: u32_def)

lemma u16_range: "0 \<le> u16 x" "u16 x < 65536"
  by (simp_all add: u16_def)

lemma u8_range: "0 \<le> u8 x" "u8 x < 256"
  by (simp_all add: u8_def)

section \<open>The C loop\<close>

text \<open>
  One iteration of a C loop either goes on with a new loop state (Inl) or leaves the loop with a
  result (Inr: the condition failed, a break, a return); it may also fault. A loop that never
  leaves has the value None.
\<close>

partial_function (option) c_loop :: "('s \<Rightarrow> ('s + 'r) option) \<Rightarrow> 's \<Rightarrow> 'r option" where
  "c_loop f s =
     Option.bind (f s) (\<lambda>x. case x of Inl t \<Rightarrow> c_loop f t | Inr r \<Rightarrow> Some r)"

declare c_loop.simps [code]

definition c_while :: "('s \<Rightarrow> bool) \<Rightarrow> ('s \<Rightarrow> 's option) \<Rightarrow> 's \<Rightarrow> 's option" where
  "c_while b c = c_loop (\<lambda>s. if b s then map_option Inl (c s) else Some (Inr s))"

lemma c_loop_Inl: "f s = Some (Inl t) \<Longrightarrow> c_loop f s = c_loop f t"
  by (subst c_loop.simps) simp

lemma c_loop_Inr: "f s = Some (Inr r) \<Longrightarrow> c_loop f s = Some r"
  by (subst c_loop.simps) simp

lemma c_loop_None: "f s = None \<Longrightarrow> c_loop f s = None"
  by (subst c_loop.simps) simp

lemma c_while_step: "b s \<Longrightarrow> c s = Some t \<Longrightarrow> c_while b c s = c_while b c t"
  unfolding c_while_def by (rule c_loop_Inl) simp

lemma c_while_stop: "\<not> b s \<Longrightarrow> c_while b c s = Some s"
  unfolding c_while_def by (rule c_loop_Inr) simp

lemma c_while_fault: "b s \<Longrightarrow> c s = None \<Longrightarrow> c_while b c s = None"
  unfolding c_while_def by (rule c_loop_None) simp

text \<open>Total correctness of a loop: an invariant, a measure that each iteration decreases.\<close>

lemma c_loop_total:
  assumes "P s"
    and "\<And>s. P s \<Longrightarrow> (\<exists>t. f s = Some (Inl t) \<and> P t \<and> (m t :: nat) < m s) \<or>
           (\<exists>r. f s = Some (Inr r) \<and> Q r)"
  shows "\<exists>r. c_loop f s = Some r \<and> Q r"
  using assms(1)
proof (induction "m s" arbitrary: s rule: less_induct)
  case less
  from assms(2)[OF less.prems] show ?case
  proof
    assume "\<exists>t. f s = Some (Inl t) \<and> P t \<and> m t < m s"
    then obtain t where t: "f s = Some (Inl t)" "P t" "m t < m s" by blast
    from less.hyps[OF t(3) t(2)] t(1) show ?thesis by (simp add: c_loop_Inl)
  next
    assume "\<exists>r. f s = Some (Inr r) \<and> Q r"
    then show ?thesis using c_loop_Inr by metis
  qed
qed

text \<open>Partial correctness: what every iteration keeps and the exit turns into the result.\<close>

lemma c_loop_inv:
  assumes "c_loop f s = Some r" "P s"
    and step: "\<And>s t. P s \<Longrightarrow> f s = Some (Inl t) \<Longrightarrow> P t" "\<And>s r. P s \<Longrightarrow> f s = Some (Inr r) \<Longrightarrow> Q r"
  shows "Q r"
proof -
  have "f = f \<longrightarrow> P s \<longrightarrow> Q r"
  proof (rule c_loop.raw_induct[of "\<lambda>g s r. g = f \<longrightarrow> P s \<longrightarrow> Q r", OF _ assms(1)], intro impI)
    fix lp g s r
    assume IH: "\<And>g s r. lp g s = Some r \<Longrightarrow> g = f \<longrightarrow> P s \<longrightarrow> Q r" and gf: "g = f" and P: "P s"
      and b: "Option.bind (g s) (\<lambda>x. case x of Inl t \<Rightarrow> lp g t | Inr r \<Rightarrow> Some r) = Some r"
    then obtain x where x: "f s = Some x" "(case x of Inl t \<Rightarrow> lp f t | Inr r \<Rightarrow> Some r) = Some r"
      by (auto simp: bind_eq_Some_conv)
    show "Q r"
    proof (cases x)
      case (Inl t)
      then show ?thesis using IH[of f t r] x step(1)[OF P] by simp
    next
      case (Inr r')
      then show ?thesis using x step(2)[OF P] by simp
    qed
  qed
  then show ?thesis using assms(2) by blast
qed

lemma c_while_total:
  assumes "P s"
    and "\<And>s. P s \<Longrightarrow> b s \<Longrightarrow> \<exists>t. c s = Some t \<and> P t \<and> (m t :: nat) < m s"
  shows "\<exists>t. c_while b c s = Some t \<and> P t \<and> \<not> b t"
  unfolding c_while_def
proof (rule c_loop_total[where P = P and m = m, OF assms(1)])
  fix s assume P: "P s"
  show "(\<exists>t. (if b s then map_option Inl (c s) else Some (Inr s)) = Some (Inl t) \<and> P t \<and> m t < m s) \<or>
    (\<exists>r. (if b s then map_option Inl (c s) else Some (Inr s)) = Some (Inr r) \<and> P r \<and> \<not> b r)"
    using P assms(2)[OF P] by (cases "b s") auto
qed

text \<open>A search loop stops at the first index that satisfies P, or at N.\<close>

lemma scan_first:
  assumes "k \<le> N"
  shows "\<exists>i. c_loop (\<lambda>i. Some (if i < N then (if P i then Inr i else Inl (i + 1)) else Inr N)) k = Some i \<and>
    k \<le> i \<and> i \<le> (N :: int) \<and> (\<forall>j. k \<le> j \<and> j < i \<longrightarrow> \<not> P j) \<and> (i < N \<longrightarrow> P i)"
  using assms
proof (induction "nat (N - k)" arbitrary: k)
  case 0
  then have "k = N" by simp
  then show ?case by (intro exI[of _ N]) (auto simp: c_loop_Inr)
next
  case (Suc d)
  then have k: "k < N" and dk: "d = nat (N - (k + 1))" by simp_all
  show ?case
  proof (cases "P k")
    case True
    then show ?thesis using k by (intro exI[of _ k]) (auto simp: c_loop_Inr)
  next
    case False
    obtain i where i: "c_loop (\<lambda>i. Some (if i < N then (if P i then Inr i else Inl (i + 1)) else Inr N)) (k + 1) = Some i"
      "k + 1 \<le> i" "i \<le> N" "\<forall>j. k + 1 \<le> j \<and> j < i \<longrightarrow> \<not> P j" "i < N \<longrightarrow> P i"
      using Suc.hyps(1)[of "k + 1"] dk k by auto
    have "\<forall>j. k \<le> j \<and> j < i \<longrightarrow> \<not> P j"
    proof (intro allI impI)
      fix j assume "k \<le> j \<and> j < i"
      then show "\<not> P j" using i(4) False by (cases "j = k") auto
    qed
    then show ?thesis using i k False by (intro exI[of _ i]) (simp add: c_loop_Inl)
  qed
qed

section \<open>Lists\<close>

lemma last_in_Cons: "last (a # xs) \<in> set (a # xs)"
  by (rule last_in_set) simp

lemma hd_append_singleton: "hd (xs @ [a]) \<in> set (xs @ [a])"
  by (cases xs) auto

lemma distinct_le_card:
  assumes "distinct xs" "set xs \<subseteq> {0..<n :: int}"
  shows "length xs \<le> nat n"
proof -
  have "card (set xs) \<le> card {0..<n}"
    using assms(2) by (rule card_mono[rotated]) simp
  then show ?thesis using assms(1) by (simp add: distinct_card)
qed

end
