(* ===== verification/Kernel_State.thy ===== *)
theory Kernel_State
  imports Xinu_Prelude
begin

text \<open>
  The global state of the Xinu kernel: one record field per global or function-static variable
  of system/*.c, one record per C struct. Arrays are functions on int; an access whose index the
  code has not checked goes through a checked accessor that is None outside the array.
\<close>

section \<open>Sizes and constants\<close>

definition NPROC :: int where "NPROC = 100"
definition NSEM :: int where "NSEM = 100"
definition NFUT :: int where "NFUT = 20"
definition NQENT :: int where "NQENT = NPROC + 4 + NSEM + NSEM + NFUT + NFUT"
definition EMPTY :: int where "EMPTY = -1"
definition MAXKEY :: int where "MAXKEY = 2147483647"
definition MINKEY :: int where "MINKEY = -2147483648"
definition NULLPROC :: int where "NULLPROC = 0"
definition QUANTUM :: int where "QUANTUM = 2"

section \<open>Structures\<close>

datatype prstate_t = PR_FREE | PR_CURR | PR_READY | PR_RECV | PR_SLEEP | PR_SUSP | PR_WAIT | PR_RECTIM

record procent =
  prstate :: prstate_t
  prprio :: int
  prstkptr :: int
  prstkbase :: int
  prstklen :: int
  prname :: string
  prsem :: int
  prparent :: int
  prmsg :: int
  prhasmsg :: bool
  prdesc :: "int \<Rightarrow> int"

record qentry =
  qkey :: int
  qnext :: int
  qprev :: int

record defer_t =
  ndefers :: int
  attempt :: bool

datatype sstate_t = S_FREE | S_USED

record sentry =
  sstate :: sstate_t
  scount :: int
  squeue :: int

text \<open>Word-addressed memory with the heap variables of meminit.c; memlist is the address of the
  list header, a struct memblk whose mnext is the word at its address and whose mlength is the
  word four bytes up.\<close>

record hst =
  mem :: "int \<Rightarrow> int"
  memlist :: int
  minheap :: int
  maxheap :: int

record bpentry =
  bpnext :: int
  bpsem :: int
  bpsize :: int

datatype ptstate_t = PT_FREE | PT_LIMBO | PT_ALLOC

record ptentry =
  ptssem :: int
  ptrsem :: int
  ptstate :: ptstate_t
  ptmaxcnt :: int
  ptseq :: int
  pthead :: int
  pttail :: int

record kst =
  queuetab :: "int \<Rightarrow> qentry"
  nextqid :: int
  proctab :: "int \<Rightarrow> procent"
  nextpid :: int
  prcount :: int
  currpid :: int
  readylist :: int
  sleepq :: int
  preempt :: int
  Defer :: defer_t
  semtab :: "int \<Rightarrow> sentry"
  nextsem :: int
  clktime :: int
  clkticks :: int
  heap :: hst
  halted :: bool
  buftab :: "int \<Rightarrow> bpentry"
  nbpools :: int
  porttab :: "int \<Rightarrow> ptentry"
  ptfree :: int
  ptnextid :: int
  marks :: "int \<Rightarrow> int"
  nmarks :: int
  mkmutex :: int

section \<open>Access to the tables\<close>

definition isbadpid :: "kst \<Rightarrow> int \<Rightarrow> bool" where
  "isbadpid s x \<longleftrightarrow> x < 0 \<or> x \<ge> NPROC \<or> prstate (proctab s x) = PR_FREE"

definition isbadsem :: "int \<Rightarrow> bool" where
  "isbadsem x \<longleftrightarrow> x < 0 \<or> x \<ge> NSEM"

definition isbadqid :: "int \<Rightarrow> bool" where
  "isbadqid x \<longleftrightarrow> x < 0 \<or> x \<ge> NQENT - 1"

definition proc_at :: "kst \<Rightarrow> int \<Rightarrow> procent option" where
  "proc_at s p = (if 0 \<le> p \<and> p < NPROC then Some (proctab s p) else None)"

definition upd_proc :: "int \<Rightarrow> (procent \<Rightarrow> procent) \<Rightarrow> kst \<Rightarrow> kst" where
  "upd_proc p f s = s\<lparr>proctab := (proctab s)(p := f (proctab s p))\<rparr>"

definition set_state :: "int \<Rightarrow> prstate_t \<Rightarrow> kst \<Rightarrow> kst" where
  "set_state p st s = upd_proc p (\<lambda>e. e\<lparr>prstate := st\<rparr>) s"

definition upd_sem :: "int \<Rightarrow> (sentry \<Rightarrow> sentry) \<Rightarrow> kst \<Rightarrow> kst" where
  "upd_sem i f s = s\<lparr>semtab := (semtab s)(i := f (semtab s i))\<rparr>"

definition q_at :: "kst \<Rightarrow> int \<Rightarrow> qentry option" where
  "q_at s i = (if 0 \<le> i \<and> i < NQENT then Some (queuetab s i) else None)"

definition upd_q :: "int \<Rightarrow> (qentry \<Rightarrow> qentry) \<Rightarrow> kst \<Rightarrow> kst option" where
  "upd_q i f s =
     (if 0 \<le> i \<and> i < NQENT then Some (s\<lparr>queuetab := (queuetab s)(i := f (queuetab s i))\<rparr>) else None)"

definition set_qnext :: "int \<Rightarrow> int \<Rightarrow> kst \<Rightarrow> kst option" where
  "set_qnext i v = upd_q i (\<lambda>e. e\<lparr>qnext := v\<rparr>)"

definition set_qprev :: "int \<Rightarrow> int \<Rightarrow> kst \<Rightarrow> kst option" where
  "set_qprev i v = upd_q i (\<lambda>e. e\<lparr>qprev := v\<rparr>)"

definition set_qkey :: "int \<Rightarrow> int \<Rightarrow> kst \<Rightarrow> kst option" where
  "set_qkey i v = upd_q i (\<lambda>e. e\<lparr>qkey := v\<rparr>)"

lemmas xinu_sizes = NPROC_def NSEM_def NFUT_def NQENT_def EMPTY_def MAXKEY_def MINKEY_def

lemmas table_updates = upd_proc_def set_state_def upd_sem_def upd_q_def set_qnext_def
  set_qprev_def set_qkey_def q_at_def proc_at_def

lemma set_state_frame [simp]:
  "queuetab (set_state p st s) = queuetab s" "nextqid (set_state p st s) = nextqid s"
  "semtab (set_state p st s) = semtab s" "currpid (set_state p st s) = currpid s"
  "readylist (set_state p st s) = readylist s" "sleepq (set_state p st s) = sleepq s"
  "Defer (set_state p st s) = Defer s" "prcount (set_state p st s) = prcount s"
  "heap (set_state p st s) = heap s" "halted (set_state p st s) = halted s"
  "nextsem (set_state p st s) = nextsem s"
  "proctab (set_state p st s) = (proctab s)(p := (proctab s p)\<lparr>prstate := st\<rparr>)"
  by (simp_all add: table_updates)

lemma upd_sem_frame [simp]:
  "queuetab (upd_sem i f s) = queuetab s" "nextqid (upd_sem i f s) = nextqid s"
  "proctab (upd_sem i f s) = proctab s" "currpid (upd_sem i f s) = currpid s"
  "readylist (upd_sem i f s) = readylist s" "sleepq (upd_sem i f s) = sleepq s"
  "Defer (upd_sem i f s) = Defer s" "prcount (upd_sem i f s) = prcount s"
  "heap (upd_sem i f s) = heap s" "halted (upd_sem i f s) = halted s"
  "nextsem (upd_sem i f s) = nextsem s"
  "semtab (upd_sem i f s) = (semtab s)(i := f (semtab s i))"
  by (simp_all add: table_updates)

lemma upd_proc_frame [simp]:
  "queuetab (upd_proc p f s) = queuetab s" "nextqid (upd_proc p f s) = nextqid s"
  "semtab (upd_proc p f s) = semtab s" "currpid (upd_proc p f s) = currpid s"
  "readylist (upd_proc p f s) = readylist s" "sleepq (upd_proc p f s) = sleepq s"
  "Defer (upd_proc p f s) = Defer s" "prcount (upd_proc p f s) = prcount s"
  "heap (upd_proc p f s) = heap s" "halted (upd_proc p f s) = halted s"
  "nextsem (upd_proc p f s) = nextsem s"
  "proctab (upd_proc p f s) = (proctab s)(p := f (proctab s p))"
  by (simp_all add: table_updates)

lemma isbadpid_range: "\<not> isbadpid s p \<Longrightarrow> 0 \<le> p \<and> p < NPROC \<and> prstate (proctab s p) \<noteq> PR_FREE"
  by (simp add: isbadpid_def)

lemma isbadpid_cong: "proctab t = proctab s \<Longrightarrow> isbadpid t p = isbadpid s p"
  by (simp add: isbadpid_def)

end
