(* ===== verification/Queues.thy ===== *)
theory Queues
  imports Kernel_State
begin

text \<open>
  The queue component (include/queue.h, system/queue.c, getitem.c, insert.c, insertd.c,
  newqueue.c): doubly linked lists of processes inside the array queuetab, whose entries below
  NPROC are the processes and whose further entries are pairs of head and tail nodes.
\<close>

section \<open>Operations\<close>

definition queuehead :: "int \<Rightarrow> int" where "queuehead q = q"
definition queuetail :: "int \<Rightarrow> int" where "queuetail q = q + 1"

definition firstid :: "int \<Rightarrow> kst \<Rightarrow> int option" where
  "firstid q s = map_option qnext (q_at s (queuehead q))"

definition lastid :: "int \<Rightarrow> kst \<Rightarrow> int option" where
  "lastid q s = map_option qprev (q_at s (queuetail q))"

definition isempty :: "int \<Rightarrow> kst \<Rightarrow> bool option" where
  "isempty q s = map_option (\<lambda>f. f \<ge> NPROC) (firstid q s)"

definition nonempty :: "int \<Rightarrow> kst \<Rightarrow> bool option" where
  "nonempty q s = map_option (\<lambda>f. f < NPROC) (firstid q s)"

definition firstkey :: "int \<Rightarrow> kst \<Rightarrow> int option" where
  "firstkey q s = do { f \<leftarrow> firstid q s; e \<leftarrow> q_at s f; Some (qkey e) }"

definition lastkey :: "int \<Rightarrow> kst \<Rightarrow> int option" where
  "lastkey q s = do { f \<leftarrow> lastid q s; e \<leftarrow> q_at s f; Some (qkey e) }"

definition getitem :: "int \<Rightarrow> kst \<Rightarrow> (int \<times> kst) option" where
  "getitem pid s = do {
     e \<leftarrow> q_at s pid;
     let next = qnext e;
     let prev = qprev e;
     s \<leftarrow> set_qnext prev next s;
     s \<leftarrow> set_qprev next prev s;
     Some (pid, s) }"

definition getfirst :: "int \<Rightarrow> kst \<Rightarrow> (int \<times> kst) option" where
  "getfirst q s = do {
     b \<leftarrow> isempty q s;
     if b then Some (EMPTY, s)
     else do { e \<leftarrow> q_at s (queuehead q); getitem (qnext e) s } }"

definition getlast :: "int \<Rightarrow> kst \<Rightarrow> (int \<times> kst) option" where
  "getlast q s = do {
     b \<leftarrow> isempty q s;
     if b then Some (EMPTY, s)
     else do { e \<leftarrow> q_at s (queuetail q); getitem (qprev e) s } }"

definition enqueue :: "int \<Rightarrow> int \<Rightarrow> kst \<Rightarrow> (int \<times> kst) option" where
  "enqueue pid q s =
     (if isbadqid q \<or> isbadpid s pid then Some (SYSERR, s)
      else do {
        let tail = queuetail q;
        t \<leftarrow> q_at s tail;
        let prev = qprev t;
        s \<leftarrow> set_qnext pid tail s;
        s \<leftarrow> set_qprev pid prev s;
        s \<leftarrow> set_qnext prev pid s;
        s \<leftarrow> set_qprev tail pid s;
        Some (pid, s) })"

definition dequeue :: "int \<Rightarrow> kst \<Rightarrow> (int \<times> kst) option" where
  "dequeue q s =
     (if isbadqid q then Some (SYSERR, s)
      else do {
        b \<leftarrow> isempty q s;
        if b then Some (EMPTY, s)
        else do {
          (pid, s) \<leftarrow> getfirst q s;
          s \<leftarrow> set_qprev pid EMPTY s;
          s \<leftarrow> set_qnext pid EMPTY s;
          Some (pid, s) } })"

definition insert_scan :: "int \<Rightarrow> kst \<Rightarrow> int \<Rightarrow> (int + int) option" where
  "insert_scan key s cur = do {
     e \<leftarrow> q_at s cur;
     Some (if qkey e \<ge> key then Inl (qnext e) else Inr cur) }"

definition insert_q :: "int \<Rightarrow> int \<Rightarrow> int \<Rightarrow> kst \<Rightarrow> (int \<times> kst) option" where
  "insert_q pid q key s =
     (if isbadqid q \<or> isbadpid s pid then Some (SYSERR, s)
      else do {
        cur \<leftarrow> firstid q s;
        cur \<leftarrow> c_loop (insert_scan key s) cur;
        e \<leftarrow> q_at s cur;
        let prev = qprev e;
        s \<leftarrow> set_qnext pid cur s;
        s \<leftarrow> set_qprev pid prev s;
        s \<leftarrow> set_qkey pid key s;
        s \<leftarrow> set_qnext prev pid s;
        s \<leftarrow> set_qprev cur pid s;
        Some (OK, s) })"

definition insertd_scan :: "int \<Rightarrow> kst \<Rightarrow> int \<times> int \<times> int \<Rightarrow> (int \<times> int \<times> int + int \<times> int \<times> int) option" where
  "insertd_scan q s = (\<lambda>(prev, next, key).
     if next \<noteq> queuetail q then do {
       e \<leftarrow> q_at s next;
       Some (if qkey e \<le> key then Inl (next, qnext e, i32 (key - qkey e)) else Inr (prev, next, key)) }
     else Some (Inr (prev, next, key)))"

definition insertd :: "int \<Rightarrow> int \<Rightarrow> int \<Rightarrow> kst \<Rightarrow> (int \<times> kst) option" where
  "insertd pid q key s =
     (if isbadqid q \<or> isbadpid s pid then Some (SYSERR, s)
      else do {
        h \<leftarrow> q_at s (queuehead q);
        (prev, next, key) \<leftarrow> c_loop (insertd_scan q s) (queuehead q, qnext h, key);
        s \<leftarrow> set_qnext pid next s;
        s \<leftarrow> set_qprev pid prev s;
        s \<leftarrow> set_qkey pid key s;
        s \<leftarrow> set_qnext prev pid s;
        s \<leftarrow> set_qprev next pid s;
        if next \<noteq> queuetail q then do {
          e \<leftarrow> q_at s next;
          s \<leftarrow> set_qkey next (i32 (qkey e - key)) s;
          Some (OK, s) }
        else Some (OK, s) })"

definition newqueue :: "kst \<Rightarrow> (int \<times> kst) option" where
  "newqueue s =
     (let q = nextqid s in
      if q > NQENT then Some (SYSERR, s)
      else do {
        let s = s\<lparr>nextqid := i16 (nextqid s + 2)\<rparr>;
        s \<leftarrow> set_qnext (queuehead q) (queuetail q) s;
        s \<leftarrow> set_qprev (queuehead q) EMPTY s;
        s \<leftarrow> set_qkey (queuehead q) MAXKEY s;
        s \<leftarrow> set_qnext (queuetail q) EMPTY s;
        s \<leftarrow> set_qprev (queuetail q) (queuehead q) s;
        s \<leftarrow> set_qkey (queuetail q) MINKEY s;
        Some (q, s) })"

end
