(* ===== verification/Queue_Lists.thy ===== *)
theory Queue_Lists
  imports Queues
begin

text \<open>
  The list abstraction of the process queues. A segment of queuetab is linked when the next and
  previous indices of neighbours agree; a queue with head node q has the contents xs when
  q, xs, q+1 is a linked segment between sentinel keys. queues_wf states this for every
  allocated queue at once, with a ghost map L from queue ids to contents, no process being on two
  queues. Each operation of Queues is shown to return, without leaving queuetab, and to act on L
  as the list operation it stands for.
\<close>

section \<open>Linked segments\<close>

fun linked :: "(int \<Rightarrow> qentry) \<Rightarrow> int list \<Rightarrow> bool" where
  "linked qt [] \<longleftrightarrow> True"
| "linked qt [x] \<longleftrightarrow> True"
| "linked qt (x # y # zs) \<longleftrightarrow> qnext (qt x) = y \<and> qprev (qt y) = x \<and> linked qt (y # zs)"

lemma linked_split:
  "linked qt (xs @ x # y # ys) \<longleftrightarrow>
     linked qt (xs @ [x]) \<and> qnext (qt x) = y \<and> qprev (qt y) = x \<and> linked qt (y # ys)"
  by (induction qt xs rule: linked.induct) auto

lemma linked_cong:
  assumes "\<And>x. x \<in> set (butlast l) \<Longrightarrow> qnext (qt' x) = qnext (qt x)"
    and "\<And>x. x \<in> set (tl l) \<Longrightarrow> qprev (qt' x) = qprev (qt x)"
  shows "linked qt' l = linked qt l"
  using assms
proof (induction qt l rule: linked.induct)
  case (3 qt x y zs)
  have "linked qt' (y # zs) = linked qt (y # zs)"
  proof (rule "3.IH")
    fix u assume "u \<in> set (butlast (y # zs))"
    then show "qnext (qt' u) = qnext (qt u)" using "3.prems"(1) by (cases zs) auto
  next
    fix u assume "u \<in> set (tl (y # zs))"
    then show "qprev (qt' u) = qprev (qt u)" using "3.prems"(2) by auto
  qed
  then show ?case using "3.prems" by simp
qed simp_all

definition unlink :: "(int \<Rightarrow> qentry) \<Rightarrow> int \<Rightarrow> int \<Rightarrow> (int \<Rightarrow> qentry)" where
  "unlink qt a b = (let qt1 = qt(a := (qt a)\<lparr>qnext := b\<rparr>) in qt1(b := (qt1 b)\<lparr>qprev := a\<rparr>))"

definition link :: "(int \<Rightarrow> qentry) \<Rightarrow> int \<Rightarrow> int \<Rightarrow> int \<Rightarrow> (int \<Rightarrow> qentry)" where
  "link qt p a b = (let
     qt1 = qt(p := (qt p)\<lparr>qnext := b\<rparr>); qt2 = qt1(p := (qt1 p)\<lparr>qprev := a\<rparr>);
     qt3 = qt2(a := (qt2 a)\<lparr>qnext := p\<rparr>)
     in qt3(b := (qt3 b)\<lparr>qprev := p\<rparr>))"

definition same_keys :: "(int \<Rightarrow> qentry) \<Rightarrow> (int \<Rightarrow> qentry) \<Rightarrow> bool" where
  "same_keys qt qt' \<longleftrightarrow> (\<forall>i. qkey (qt' i) = qkey (qt i))"

lemma unlink_keys [simp]: "qkey (unlink qt a b i) = qkey (qt i)"
  by (simp add: unlink_def Let_def)

lemma link_keys [simp]: "qkey (link qt p a b i) = qkey (qt i)"
  by (simp add: link_def Let_def)

lemma linked_unlink:
  assumes "linked qt (xs @ a # p # b # ys)" "distinct (xs @ a # p # b # ys)"
  shows "linked (unlink qt a b) (xs @ a # b # ys)"
proof -
  from assms(1) have l: "linked qt (xs @ [a])" "linked qt (b # ys)"
    using linked_split[of qt xs a p "b # ys"] linked_split[of qt "[]" p b ys] by auto
  have "linked (unlink qt a b) (xs @ [a]) = linked qt (xs @ [a])"
    by (rule linked_cong) (use assms(2) in \<open>cases xs; auto simp: unlink_def Let_def\<close>)+
  moreover have "linked (unlink qt a b) (b # ys) = linked qt (b # ys)"
    by (rule linked_cong) (use assms(2) in \<open>auto simp: unlink_def Let_def dest: in_set_butlastD split: if_splits\<close>)
  ultimately show ?thesis
    using l assms(2) by (subst linked_split) (auto simp: unlink_def Let_def)
qed

lemma linked_link:
  assumes "linked qt (xs @ a # b # ys)" "distinct (xs @ a # b # ys)" "p \<notin> set (xs @ a # b # ys)"
  shows "linked (link qt p a b) (xs @ a # p # b # ys)"
proof -
  from assms(1) have l: "linked qt (xs @ [a])" "linked qt (b # ys)"
    using linked_split[of qt xs a b ys] by auto
  have "linked (link qt p a b) (xs @ [a]) = linked qt (xs @ [a])"
    by (rule linked_cong) (use assms(2,3) in \<open>cases xs; auto simp: link_def Let_def\<close>)+
  moreover have "linked (link qt p a b) (b # ys) = linked qt (b # ys)"
    by (rule linked_cong) (use assms(2,3) in \<open>auto simp: link_def Let_def dest: in_set_butlastD split: if_splits\<close>)
  ultimately show ?thesis
    using l assms(2,3) by (subst linked_split) (auto simp: link_def Let_def)
qed

section \<open>One queue\<close>

definition is_queue :: "(int \<Rightarrow> qentry) \<Rightarrow> int \<Rightarrow> int list \<Rightarrow> bool" where
  "is_queue qt q xs \<longleftrightarrow>
     linked qt (q # xs @ [q + 1]) \<and> distinct xs \<and> set xs \<subseteq> {0..<NPROC} \<and>
     NPROC \<le> q \<and> q + 1 < NQENT \<and>
     qkey (qt q) = MAXKEY \<and> qkey (qt (q + 1)) = MINKEY \<and>
     qprev (qt q) = EMPTY \<and> qnext (qt (q + 1)) = EMPTY"

definition q_nodes :: "int \<Rightarrow> int list \<Rightarrow> int set" where
  "q_nodes q xs = {q, q + 1} \<union> set xs"

text \<open>The neighbours of the position between us and vs in the queue q.\<close>

definition q_before :: "int \<Rightarrow> int list \<Rightarrow> int" where
  "q_before q us = last (q # us)"

definition q_after :: "int \<Rightarrow> int list \<Rightarrow> int" where
  "q_after q vs = hd (vs @ [q + 1])"

lemma q_path_split:
  "q # us @ vs @ [q + 1] = butlast (q # us) @ q_before q us # q_after q vs # tl (vs @ [q + 1])"
  unfolding q_before_def q_after_def
  by (metis append_Cons append_butlast_last_id append_is_Nil_conv append_assoc append_Nil
      list.collapse list.distinct(1))

lemma q_path_split_mid:
  "q # (us @ p # vs) @ [q + 1] =
     butlast (q # us) @ q_before q us # p # q_after q vs # tl (vs @ [q + 1])"
  unfolding q_before_def q_after_def
  by (metis append_Cons append_butlast_last_id append_is_Nil_conv append_assoc append_Nil
      list.collapse list.distinct(1))

lemma q_before_in: "q_before q us \<in> insert q (set us)"
  unfolding q_before_def using last_in_set[of "q # us"] by auto

lemma q_after_in: "q_after q vs \<in> insert (q + 1) (set vs)"
  unfolding q_after_def by (cases vs) auto

lemma is_queueD:
  assumes "is_queue qt q xs"
  shows "distinct (q # xs @ [q + 1])" "set xs \<subseteq> {0..<NPROC}" "0 \<le> q" "q + 1 < NQENT"
    "NPROC \<le> q" "q_nodes q xs \<subseteq> {0..<NQENT}" "distinct xs"
proof -
  show "distinct (q # xs @ [q + 1])" "set xs \<subseteq> {0..<NPROC}" "0 \<le> q" "q + 1 < NQENT"
    "NPROC \<le> q" "distinct xs"
    using assms by (auto simp: is_queue_def NPROC_def)
  then show "q_nodes q xs \<subseteq> {0..<NQENT}"
    by (auto simp: q_nodes_def)
qed

lemma is_queue_cong:
  assumes "\<And>i. i \<in> q_nodes q xs \<Longrightarrow> qt' i = qt i"
  shows "is_queue qt' q xs = is_queue qt q xs"
proof -
  have "linked qt' (q # xs @ [q + 1]) = linked qt (q # xs @ [q + 1])"
  proof (rule linked_cong)
    fix x assume "x \<in> set (butlast (q # xs @ [q + 1]))"
    then have "x \<in> q_nodes q xs" by (auto simp: q_nodes_def butlast_append)
    then show "qnext (qt' x) = qnext (qt x)" by (simp add: assms)
  next
    fix x assume "x \<in> set (tl (q # xs @ [q + 1]))"
    then have "x \<in> q_nodes q xs" by (auto simp: q_nodes_def)
    then show "qprev (qt' x) = qprev (qt x)" by (simp add: assms)
  qed
  moreover have "qt' q = qt q" "qt' (q + 1) = qt (q + 1)"
    using assms by (simp_all add: q_nodes_def)
  ultimately show ?thesis by (simp add: is_queue_def)
qed

lemma is_queue_links:
  assumes "is_queue qt q (us @ p # vs)"
  shows "qnext (qt p) = q_after q vs" "qprev (qt p) = q_before q us"
proof -
  have "linked qt (butlast (q # us) @ q_before q us # p # q_after q vs # tl (vs @ [q + 1]))"
    using assms unfolding is_queue_def q_path_split_mid by blast
  then show "qnext (qt p) = q_after q vs" "qprev (qt p) = q_before q us"
    using linked_split[of qt "butlast (q # us)" "q_before q us" p]
      linked_split[of qt "[]" p "q_after q vs"] by auto
qed

lemma is_queue_adjacent:
  assumes "is_queue qt q (us @ vs)"
  shows "qnext (qt (q_before q us)) = q_after q vs" "qprev (qt (q_after q vs)) = q_before q us"
proof -
  have "linked qt (butlast (q # us) @ q_before q us # q_after q vs # tl (vs @ [q + 1]))"
    using assms unfolding is_queue_def append_assoc q_path_split by blast
  then show "qnext (qt (q_before q us)) = q_after q vs" "qprev (qt (q_after q vs)) = q_before q us"
    using linked_split[of qt "butlast (q # us)" "q_before q us"] by auto
qed

lemma is_queue_unlink:
  assumes "is_queue qt q (us @ p # vs)"
  shows "is_queue (unlink qt (q_before q us) (q_after q vs)) q (us @ vs)"
proof -
  let ?a = "q_before q us" and ?b = "q_after q vs"
  have d: "distinct (q # (us @ p # vs) @ [q + 1])" using is_queueD(1)[OF assms] .
  have "linked (unlink qt ?a ?b) (q # us @ vs @ [q + 1])"
    unfolding q_path_split
  proof (rule linked_unlink)
    show "linked qt (butlast (q # us) @ ?a # p # ?b # tl (vs @ [q + 1]))"
      using assms unfolding is_queue_def q_path_split_mid by blast
    show "distinct (butlast (q # us) @ ?a # p # ?b # tl (vs @ [q + 1]))"
      using d unfolding q_path_split_mid .
  qed
  moreover have "?a \<noteq> q + 1" "?b \<noteq> q"
    using q_before_in[of q us] q_after_in[of q vs] d by auto
  ultimately show ?thesis
    using assms by (auto simp: is_queue_def unlink_def Let_def)
qed

lemma is_queue_link:
  assumes "is_queue qt q (us @ vs)" "p \<notin> set (us @ vs)" "0 \<le> p" "p < NPROC"
  shows "is_queue (link qt p (q_before q us) (q_after q vs)) q (us @ p # vs)"
proof -
  let ?a = "q_before q us" and ?b = "q_after q vs"
  have d: "distinct (q # (us @ vs) @ [q + 1])" using is_queueD(1)[OF assms(1)] .
  have np: "p \<notin> set (q # us @ vs @ [q + 1])"
    using assms(2-4) is_queueD(5)[OF assms(1)] by auto
  have "linked (link qt p ?a ?b) (q # (us @ p # vs) @ [q + 1])"
    unfolding q_path_split_mid
  proof (rule linked_link)
    show "linked qt (butlast (q # us) @ ?a # ?b # tl (vs @ [q + 1]))"
      using assms(1) unfolding is_queue_def append_assoc q_path_split by blast
    show "distinct (butlast (q # us) @ ?a # ?b # tl (vs @ [q + 1]))"
      using d unfolding append_assoc q_path_split .
    show "p \<notin> set (butlast (q # us) @ ?a # ?b # tl (vs @ [q + 1]))"
      using np unfolding q_path_split .
  qed
  moreover have "?a \<noteq> q + 1" "?b \<noteq> q" "p \<noteq> q" "p \<noteq> q + 1"
    using q_before_in[of q us] q_after_in[of q vs] d np by auto
  ultimately show ?thesis
    using assms d by (auto simp: is_queue_def link_def Let_def)
qed

lemma is_queue_set_keys:
  assumes "is_queue qt q xs"
    and "\<And>i. qnext (qt' i) = qnext (qt i)" "\<And>i. qprev (qt' i) = qprev (qt i)"
    and "qkey (qt' q) = qkey (qt q)" "qkey (qt' (q + 1)) = qkey (qt (q + 1))"
  shows "is_queue qt' q xs"
proof -
  have "linked qt' (q # xs @ [q + 1]) = linked qt (q # xs @ [q + 1])"
    by (rule linked_cong) (simp_all add: assms)
  then show ?thesis using assms by (simp add: is_queue_def)
qed

section \<open>All queues\<close>

definition qid_ok :: "int \<Rightarrow> int \<Rightarrow> bool" where
  "qid_ok n q \<longleftrightarrow> NPROC \<le> q \<and> q < n \<and> even q"

definition queues_wf :: "(int \<Rightarrow> qentry) \<Rightarrow> int \<Rightarrow> (int \<Rightarrow> int list) \<Rightarrow> bool" where
  "queues_wf qt n L \<longleftrightarrow>
     even n \<and> NPROC \<le> n \<and> n \<le> NQENT \<and>
     (\<forall>q. qid_ok n q \<longrightarrow> is_queue qt q (L q)) \<and>
     (\<forall>q q'. qid_ok n q \<longrightarrow> qid_ok n q' \<longrightarrow> q \<noteq> q' \<longrightarrow> set (L q) \<inter> set (L q') = {})"

definition off_queues :: "int \<Rightarrow> (int \<Rightarrow> int list) \<Rightarrow> int \<Rightarrow> bool" where
  "off_queues n L p \<longleftrightarrow> (\<forall>q. qid_ok n q \<longrightarrow> p \<notin> set (L q))"

lemma queues_wfD:
  assumes "queues_wf qt n L" "qid_ok n q"
  shows "is_queue qt q (L q)" "\<not> isbadqid q" "0 \<le> q" "q + 1 < NQENT" "distinct (L q)"
    "set (L q) \<subseteq> {0..<NPROC}"
proof -
  show q: "is_queue qt q (L q)" using assms by (simp add: queues_wf_def)
  show "0 \<le> q" "q + 1 < NQENT" "distinct (L q)" "set (L q) \<subseteq> {0..<NPROC}"
    using is_queueD[OF q] by simp_all
  then show "\<not> isbadqid q" by (simp add: isbadqid_def)
qed

lemma queues_wf_disjoint:
  "queues_wf qt n L \<Longrightarrow> qid_ok n q \<Longrightarrow> qid_ok n q' \<Longrightarrow> q \<noteq> q' \<Longrightarrow> p \<in> set (L q) \<Longrightarrow> p \<notin> set (L q')"
  by (auto simp: queues_wf_def)

text \<open>Nodes of different queues are disjoint, so that work on one queue leaves the others.\<close>

lemma q_nodes_disjoint:
  assumes "queues_wf qt n L" "qid_ok n q" "qid_ok n q'" "q \<noteq> q'"
  shows "q_nodes q (L q) \<inter> q_nodes q' (L q') = {}"
proof -
  have "set (L q) \<inter> set (L q') = {}" using assms by (simp add: queues_wf_def)
  moreover have "set (L q) \<subseteq> {0..<NPROC}" "set (L q') \<subseteq> {0..<NPROC}"
    using queues_wfD(6) assms by blast+
  moreover have "q \<noteq> q' + 1" "q + 1 \<noteq> q'" "NPROC \<le> q" "NPROC \<le> q'"
    using assms(2,3) by (auto simp: qid_ok_def)
  ultimately show ?thesis using assms(4) by (auto simp: q_nodes_def)
qed

lemma queues_wf_update:
  assumes wf: "queues_wf qt n L" and q: "qid_ok n q"
    and new: "is_queue qt' q ys"
    and sub: "\<And>x. x \<in> set ys \<Longrightarrow> x \<in> set (L q) \<or> off_queues n L x"
    and frame: "\<And>i. i \<notin> q_nodes q (L q) \<Longrightarrow> i \<notin> q_nodes q ys \<Longrightarrow> qt' i = qt i"
  shows "queues_wf qt' n (L(q := ys))"
proof -
  have ys: "x \<notin> set (L q')" if "x \<in> set ys" "qid_ok n q'" "q' \<noteq> q" for x q'
    using sub[OF that(1)] that queues_wf_disjoint[OF wf q that(2)] by (auto simp: off_queues_def)
  have "is_queue qt' q' (L q')" if q': "qid_ok n q'" "q' \<noteq> q" for q'
  proof -
    have "is_queue qt' q' (L q') = is_queue qt q' (L q')"
    proof (rule is_queue_cong)
      fix i assume i: "i \<in> q_nodes q' (L q')"
      have 1: "i \<notin> q_nodes q (L q)"
        using q_nodes_disjoint[OF wf q q'(1)] q'(2) i by auto
      have r: "set ys \<subseteq> {0..<NPROC}" using is_queueD(2)[OF new] .
      have "NPROC \<le> q'" using q'(1) by (simp add: qid_ok_def)
      then have "i \<notin> set ys" using i ys[OF _ q'] r by (auto simp: q_nodes_def)
      with 1 have "i \<notin> q_nodes q ys" by (simp add: q_nodes_def)
      then show "qt' i = qt i" using 1 frame by blast
    qed
    then show ?thesis using queues_wfD(1)[OF wf q'(1)] by simp
  qed
  moreover have "set ys \<inter> set (L q') = {}" if "qid_ok n q'" "q' \<noteq> q" for q'
    using ys that by blast
  ultimately show ?thesis
    using wf new by (auto simp: queues_wf_def)
qed

section \<open>The operations on well-formed queues\<close>

lemma in_tab: "i \<in> q_nodes q xs \<Longrightarrow> is_queue qt q xs \<Longrightarrow> 0 \<le> i \<and> i < NQENT"
  using is_queueD(6) by fastforce

lemma q_before_node: "q_before q us \<in> q_nodes q (us @ vs)"
  using q_before_in[of q us] by (auto simp: q_nodes_def)

lemma q_after_node: "q_after q vs \<in> q_nodes q (us @ vs)"
  using q_after_in[of q vs] by (auto simp: q_nodes_def)

lemma proc_in_tab: "0 \<le> p \<Longrightarrow> p < NPROC \<Longrightarrow> 0 \<le> p \<and> p < NQENT"
  by (simp add: xinu_sizes)

lemma getitem_eq:
  assumes "is_queue (queuetab s) q (us @ p # vs)"
  shows "getitem p s =
    Some (p, s\<lparr>queuetab := unlink (queuetab s) (q_before q us) (q_after q vs)\<rparr>)"
proof -
  note l = is_queue_links[OF assms]
  have "0 \<le> q_before q us \<and> q_before q us < NQENT"
    using in_tab[OF q_before_node[of q us "p # vs"] assms] .
  moreover have "0 \<le> q_after q vs \<and> q_after q vs < NQENT"
    using in_tab[OF q_after_node[of q vs "us @ [p]"]] assms by simp
  moreover have "0 \<le> p \<and> p < NQENT"
    using in_tab[of p q "us @ p # vs"] assms by (simp add: q_nodes_def)
  ultimately show ?thesis
    using l by (simp add: getitem_def table_updates unlink_def Let_def)
qed

lemma getitem_wf:
  assumes "queues_wf (queuetab s) (nextqid s) L" "qid_ok (nextqid s) q" "p \<in> set (L q)"
  shows "\<exists>qt. getitem p s = Some (p, s\<lparr>queuetab := qt\<rparr>) \<and>
    queues_wf qt (nextqid s) (L(q := remove1 p (L q))) \<and> same_keys (queuetab s) qt"
proof -
  obtain us vs where L: "L q = us @ p # vs" "p \<notin> set us"
    using split_list_first[OF assms(3)] by blast
  have iq: "is_queue (queuetab s) q (us @ p # vs)"
    using queues_wfD(1)[OF assms(1,2)] L by simp
  let ?qt = "unlink (queuetab s) (q_before q us) (q_after q vs)"
  have "queues_wf ?qt (nextqid s) (L(q := us @ vs))"
  proof (rule queues_wf_update[OF assms(1,2)])
    show "is_queue ?qt q (us @ vs)" using is_queue_unlink[OF iq] .
    show "x \<in> set (L q) \<or> off_queues (nextqid s) L x" if "x \<in> set (us @ vs)" for x
      using that L by auto
    show "?qt i = queuetab s i" if "i \<notin> q_nodes q (L q)" "i \<notin> q_nodes q (us @ vs)" for i
      using that(2) q_before_node[of q us vs] q_after_node[of q vs us]
      by (auto simp: unlink_def Let_def)
  qed
  moreover have "remove1 p (L q) = us @ vs" using L by (simp add: remove1_append)
  ultimately show ?thesis
    using getitem_eq[OF iq] by (auto simp: same_keys_def)
qed

lemma firstid_wf:
  assumes "is_queue (queuetab s) q xs"
  shows "firstid q s = Some (hd (xs @ [q + 1]))"
proof -
  have "qnext (queuetab s q) = q_after q xs"
    using is_queue_adjacent(1)[of "queuetab s" q "[]" xs] assms by (simp add: q_before_def)
  then show ?thesis
    using is_queueD(3,4)[OF assms] by (simp add: firstid_def queuehead_def q_at_def q_after_def)
qed

lemma lastid_wf:
  assumes "is_queue (queuetab s) q xs"
  shows "lastid q s = Some (last (q # xs))"
proof -
  have "qprev (queuetab s (q + 1)) = q_before q xs"
    using is_queue_adjacent(2)[of "queuetab s" q xs "[]"] assms by (simp add: q_after_def)
  then show ?thesis
    using is_queueD(3,4)[OF assms] by (simp add: lastid_def queuetail_def q_at_def q_before_def)
qed

lemma isempty_wf:
  assumes "is_queue (queuetab s) q xs"
  shows "isempty q s = Some (xs = [])" "nonempty q s = Some (xs \<noteq> [])"
proof -
  have "NPROC \<le> q" "set xs \<subseteq> {0..<NPROC}" using is_queueD[OF assms] by auto
  then show "isempty q s = Some (xs = [])" "nonempty q s = Some (xs \<noteq> [])"
    by (cases xs; simp add: isempty_def nonempty_def firstid_wf[OF assms])+
qed

lemma firstkey_wf:
  assumes "is_queue (queuetab s) q xs"
  shows "firstkey q s = Some (case xs of [] \<Rightarrow> MINKEY | x # _ \<Rightarrow> qkey (queuetab s x))"
proof (cases xs)
  case Nil
  then show ?thesis using assms is_queueD(3,4)[OF assms]
    by (simp add: firstkey_def firstid_wf[OF assms] q_at_def is_queue_def)
next
  case (Cons x ys)
  then have "0 \<le> x \<and> x < NQENT" using in_tab[OF _ assms, of x] by (simp add: q_nodes_def)
  then show ?thesis using Cons by (simp add: firstkey_def firstid_wf[OF assms] q_at_def)
qed

lemma getfirst_wf:
  assumes "queues_wf (queuetab s) (nextqid s) L" "qid_ok (nextqid s) q"
  shows "L q = [] \<Longrightarrow> getfirst q s = Some (EMPTY, s)"
    and "L q = p # ps \<Longrightarrow> \<exists>qt. getfirst q s = Some (p, s\<lparr>queuetab := qt\<rparr>) \<and>
      queues_wf qt (nextqid s) (L(q := ps)) \<and> same_keys (queuetab s) qt"
proof -
  note iq = queues_wfD(1)[OF assms]
  show "getfirst q s = Some (EMPTY, s)" if "L q = []"
    using that by (simp add: getfirst_def isempty_wf[OF iq])
  assume L: "L q = p # ps"
  have "q_at s (queuehead q) = Some (queuetab s q)" "qnext (queuetab s q) = p"
    using firstid_wf[OF iq] L queues_wfD(3,4)[OF assms]
    by (simp_all add: firstid_def queuehead_def q_at_def)
  then have "getfirst q s = getitem p s"
    using L by (simp add: getfirst_def isempty_wf[OF iq])
  then show "\<exists>qt. getfirst q s = Some (p, s\<lparr>queuetab := qt\<rparr>) \<and>
      queues_wf qt (nextqid s) (L(q := ps)) \<and> same_keys (queuetab s) qt"
    using getitem_wf[OF assms, of p] L by simp
qed

lemma getlast_wf:
  assumes "queues_wf (queuetab s) (nextqid s) L" "qid_ok (nextqid s) q"
  shows "L q = [] \<Longrightarrow> getlast q s = Some (EMPTY, s)"
    and "L q = ps @ [p] \<Longrightarrow> \<exists>qt. getlast q s = Some (p, s\<lparr>queuetab := qt\<rparr>) \<and>
      queues_wf qt (nextqid s) (L(q := ps)) \<and> same_keys (queuetab s) qt"
proof -
  note iq = queues_wfD(1)[OF assms]
  show "getlast q s = Some (EMPTY, s)" if "L q = []"
    using that by (simp add: getlast_def isempty_wf[OF iq])
  assume L: "L q = ps @ [p]"
  have "q_at s (queuetail q) = Some (queuetab s (q + 1))" "qprev (queuetab s (q + 1)) = p"
    using lastid_wf[OF iq] L queues_wfD(3,4)[OF assms]
    by (simp_all add: lastid_def queuetail_def q_at_def)
  then have "getlast q s = getitem p s"
    using L by (simp add: getlast_def isempty_wf[OF iq])
  moreover have "remove1 p (ps @ [p]) = ps"
    using queues_wfD(5)[OF assms] L by (simp add: remove1_append)
  ultimately show "\<exists>qt. getlast q s = Some (p, s\<lparr>queuetab := qt\<rparr>) \<and>
      queues_wf qt (nextqid s) (L(q := ps)) \<and> same_keys (queuetab s) qt"
    using getitem_wf[OF assms, of p] L by simp
qed

text \<open>A node on no queue may hold any links.\<close>

lemma queues_wf_off:
  assumes "queues_wf qt n L" "off_queues n L p" "p < NPROC" "\<And>i. i \<noteq> p \<Longrightarrow> qt' i = qt i"
  shows "queues_wf qt' n L"
proof -
  have "is_queue qt' q (L q)" if q: "qid_ok n q" for q
  proof -
    have "p \<notin> q_nodes q (L q)" using assms(2,3) q by (auto simp: q_nodes_def off_queues_def qid_ok_def)
    then have "is_queue qt' q (L q) = is_queue qt q (L q)"
      by (intro is_queue_cong) (metis assms(4))
    then show ?thesis using queues_wfD(1)[OF assms(1) q] by simp
  qed
  then show ?thesis using assms(1) by (simp add: queues_wf_def)
qed

lemma off_queues_removed:
  assumes "queues_wf qt n L" "qid_ok n q" "L q = us @ p # vs"
  shows "off_queues n (L(q := us @ vs)) p"
proof -
  have "p \<notin> set us" "p \<notin> set vs" using queues_wfD(5)[OF assms(1,2)] assms(3) by auto
  moreover have "p \<notin> set (L q')" if "qid_ok n q'" "q' \<noteq> q" for q'
    using queues_wf_disjoint[OF assms(1,2) that(1), of p] that(2) assms(3) by auto
  ultimately show ?thesis by (auto simp: off_queues_def)
qed

lemma dequeue_wf:
  assumes "queues_wf (queuetab s) (nextqid s) L" "qid_ok (nextqid s) q"
  shows "L q = [] \<Longrightarrow> dequeue q s = Some (EMPTY, s)"
    and "L q = p # ps \<Longrightarrow> \<exists>qt. dequeue q s = Some (p, s\<lparr>queuetab := qt\<rparr>) \<and>
      queues_wf qt (nextqid s) (L(q := ps)) \<and> same_keys (queuetab s) qt"
proof -
  note iq = queues_wfD(1)[OF assms] and nb = queues_wfD(2)[OF assms]
  show "dequeue q s = Some (EMPTY, s)" if "L q = []"
    using that nb by (simp add: dequeue_def isempty_wf[OF iq])
  assume L: "L q = p # ps"
  obtain qt where qt: "getfirst q s = Some (p, s\<lparr>queuetab := qt\<rparr>)"
    "queues_wf qt (nextqid s) (L(q := ps))" "same_keys (queuetab s) qt"
    using getfirst_wf(2)[OF assms L] by blast
  have p: "0 \<le> p" "p < NPROC" using queues_wfD(6)[OF assms] L by auto
  have "off_queues (nextqid s) (L(q := ps)) p"
    using off_queues_removed[OF assms, of "[]" p ps] L by simp
  moreover define qt2 where "qt2 = qt(p := (qt p)\<lparr>qprev := EMPTY, qnext := EMPTY\<rparr>)"
  ultimately have "queues_wf qt2 (nextqid s) (L(q := ps))"
    using queues_wf_off[OF qt(2) _ p(2), of qt2] by simp
  moreover have "same_keys (queuetab s) qt2" using qt(3) by (simp add: same_keys_def qt2_def)
  moreover have "dequeue q s = Some (p, s\<lparr>queuetab := qt2\<rparr>)"
    using nb L qt(1) proc_in_tab[OF p]
    by (simp add: dequeue_def isempty_wf[OF iq] table_updates qt2_def)
  ultimately show "\<exists>qt. dequeue q s = Some (p, s\<lparr>queuetab := qt\<rparr>) \<and>
      queues_wf qt (nextqid s) (L(q := ps)) \<and> same_keys (queuetab s) qt" by blast
qed

text \<open>Linking a process into a queue, with a key of its own.\<close>

definition link_key :: "(int \<Rightarrow> qentry) \<Rightarrow> int \<Rightarrow> int \<Rightarrow> int \<Rightarrow> int \<Rightarrow> (int \<Rightarrow> qentry)" where
  "link_key qt p a b k = (let qt1 = link qt p a b in qt1(p := (qt1 p)\<lparr>qkey := k\<rparr>))"

lemma queues_wf_keys:
  assumes "queues_wf qt n L"
    and "\<And>i. qnext (qt' i) = qnext (qt i)" "\<And>i. qprev (qt' i) = qprev (qt i)"
    and "\<And>i. NPROC \<le> i \<Longrightarrow> qkey (qt' i) = qkey (qt i)"
  shows "queues_wf qt' n L"
  using assms(1) is_queue_set_keys[where qt' = qt' and qt = qt, OF _ assms(2,3)] assms(4)
  by (auto simp: queues_wf_def qid_ok_def)

lemma queues_wf_link:
  assumes wf: "queues_wf qt n L" "qid_ok n q" and L: "L q = us @ vs"
    and p: "off_queues n L p" "0 \<le> p" "p < NPROC"
  shows "queues_wf (link qt p (q_before q us) (q_after q vs)) n (L(q := us @ p # vs))"
proof (rule queues_wf_update[OF wf])
  have "p \<notin> set (L q)" using p(1) wf(2) by (simp add: off_queues_def)
  then show "is_queue (link qt p (q_before q us) (q_after q vs)) q (us @ p # vs)"
    using is_queue_link[of qt q us vs p] queues_wfD(1)[OF wf] L p by simp
  show "x \<in> set (L q) \<or> off_queues n L x" if "x \<in> set (us @ p # vs)" for x
    using that L p(1) by auto
  show "link qt p (q_before q us) (q_after q vs) i = qt i"
    if "i \<notin> q_nodes q (L q)" "i \<notin> q_nodes q (us @ p # vs)" for i
    using that q_before_node[of q us vs] q_after_node[of q vs us] L
    by (auto simp: link_def Let_def q_nodes_def)
qed

lemma queues_wf_link_key:
  assumes "queues_wf qt n L" "qid_ok n q" "L q = us @ vs"
    "off_queues n L p" "0 \<le> p" "p < NPROC"
  shows "queues_wf (link_key qt p (q_before q us) (q_after q vs) k) n (L(q := us @ p # vs))"
  by (rule queues_wf_keys[OF queues_wf_link[OF assms]])
    (use assms(6) in \<open>auto simp: link_key_def Let_def\<close>)

lemma link_key_keys: "qkey (link_key qt p a b k i) = (if i = p then k else qkey (qt i))"
  by (simp add: link_key_def Let_def)

lemma enqueue_wf:
  assumes wf: "queues_wf (queuetab s) (nextqid s) L" "qid_ok (nextqid s) q"
    and p: "\<not> isbadpid s p" "off_queues (nextqid s) L p"
  shows "\<exists>qt. enqueue p q s = Some (p, s\<lparr>queuetab := qt\<rparr>) \<and>
      queues_wf qt (nextqid s) (L(q := L q @ [p])) \<and> same_keys (queuetab s) qt"
proof -
  note iq = queues_wfD(1)[OF wf] and nb = queues_wfD(2)[OF wf]
  have pr: "0 \<le> p" "p < NPROC" using isbadpid_range[OF p(1)] by auto
  let ?a = "q_before q (L q)"
  have a: "qprev (queuetab s (q + 1)) = ?a" "0 \<le> ?a \<and> ?a < NQENT"
    using is_queue_adjacent(2)[of "queuetab s" q "L q" "[]"] iq
      in_tab[OF q_before_node[of q "L q" "[]"]] by (simp_all add: q_after_def)
  have "enqueue p q s = Some (p, s\<lparr>queuetab := link (queuetab s) p ?a (q + 1)\<rparr>)"
    using nb p(1) a proc_in_tab[OF pr] queues_wfD(3,4)[OF wf]
    by (simp add: enqueue_def table_updates queuetail_def link_def Let_def)
  moreover have "queues_wf (link (queuetab s) p ?a (q + 1)) (nextqid s) (L(q := L q @ [p]))"
    using queues_wf_link[OF wf, of "L q" "[]" p] p(2) pr by (simp add: q_after_def)
  moreover have "same_keys (queuetab s) (link (queuetab s) p ?a (q + 1))"
    by (simp add: same_keys_def)
  ultimately show ?thesis by blast
qed

section \<open>Ordered insertion\<close>

text \<open>insert.c walks past every entry whose key is at least the new one: descending order, and
  first come first served among equals. The tail's MINKEY ends the walk.\<close>

definition ins_desc :: "(int \<Rightarrow> int) \<Rightarrow> int \<Rightarrow> int \<Rightarrow> int list \<Rightarrow> int list" where
  "ins_desc kf k p xs =
     takeWhile (\<lambda>x. k \<le> kf x) xs @ p # dropWhile (\<lambda>x. k \<le> kf x) xs"

abbreviation keys :: "kst \<Rightarrow> int \<Rightarrow> int" where
  "keys s \<equiv> \<lambda>x. qkey (queuetab s x)"

lemma insert_scan_wf:
  assumes "is_queue (queuetab s) q (us @ vs)" "MINKEY < k"
  shows "c_loop (insert_scan k s) (q_after q vs) =
    Some (q_after q (dropWhile (\<lambda>x. k \<le> keys s x) vs))"
  using assms(1)
proof (induction vs arbitrary: us)
  case Nil
  have "insert_scan k s (q + 1) = Some (Inr (q + 1))"
    using Nil assms(2) is_queueD(3,4)[OF Nil] by (simp add: insert_scan_def q_at_def is_queue_def)
  then show ?case by (simp add: q_after_def c_loop_Inr)
next
  case (Cons v vs)
  have v: "q_at s v = Some (queuetab s v)"
    using in_tab[of v q "us @ v # vs"] Cons.prems by (simp add: q_nodes_def q_at_def)
  show ?case
  proof (cases "k \<le> keys s v")
    case True
    have "qnext (queuetab s v) = q_after q vs" using is_queue_links(1)[OF Cons.prems] .
    then have "insert_scan k s v = Some (Inl (q_after q vs))"
      using True v by (simp add: insert_scan_def)
    moreover have "is_queue (queuetab s) q ((us @ [v]) @ vs)" using Cons.prems by simp
    ultimately show ?thesis
      using True Cons.IH[of "us @ [v]"] by (simp add: q_after_def c_loop_Inl)
  next
    case False
    then have "insert_scan k s v = Some (Inr v)" using v by (simp add: insert_scan_def)
    then show ?thesis using False by (simp add: q_after_def c_loop_Inr)
  qed
qed

lemma link_key_eq:
  assumes "p \<noteq> a" "p \<noteq> b" "a \<noteq> b"
  shows "link_key qt p a b k =
    qt(p := (qt p)\<lparr>qnext := b, qprev := a, qkey := k\<rparr>, a := (qt a)\<lparr>qnext := p\<rparr>, b := (qt b)\<lparr>qprev := p\<rparr>)"
  using assms by (auto simp: link_key_def link_def Let_def fun_eq_iff)

lemma q_between_distinct:
  assumes "is_queue qt q (us @ vs)" "p \<notin> set (us @ vs)" "p < NPROC"
  shows "p \<noteq> q_before q us" "p \<noteq> q_after q vs" "q_before q us \<noteq> q_after q vs"
    "0 \<le> q_before q us \<and> q_before q us < NQENT" "0 \<le> q_after q vs \<and> q_after q vs < NQENT"
proof -
  have d: "distinct (q # (us @ vs) @ [q + 1])" and q: "NPROC \<le> q" using is_queueD[OF assms(1)] by auto
  show "p \<noteq> q_before q us" using q_before_in[of q us] assms(2,3) q by auto
  show "p \<noteq> q_after q vs" using q_after_in[of q vs] assms(2,3) q by auto
  show "q_before q us \<noteq> q_after q vs" using q_before_in[of q us] q_after_in[of q vs] d by auto
  show "0 \<le> q_before q us \<and> q_before q us < NQENT"
    using in_tab[OF q_before_node assms(1)] .
  show "0 \<le> q_after q vs \<and> q_after q vs < NQENT"
    using in_tab[OF q_after_node assms(1)] .
qed

lemma insert_q_wf:
  assumes wf: "queues_wf (queuetab s) (nextqid s) L" "qid_ok (nextqid s) q"
    and p: "\<not> isbadpid s p" "off_queues (nextqid s) L p" and k: "MINKEY < k"
  shows "\<exists>qt. insert_q p q k s = Some (OK, s\<lparr>queuetab := qt\<rparr>) \<and>
      queues_wf qt (nextqid s) (L(q := ins_desc (keys s) k p (L q))) \<and>
      (\<forall>i. qkey (qt i) = (if i = p then k else keys s i))"
proof -
  note iq = queues_wfD(1)[OF wf] and nb = queues_wfD(2)[OF wf]
  have pr: "0 \<le> p" "p < NPROC" using isbadpid_range[OF p(1)] by auto
  define us where "us = takeWhile (\<lambda>x. k \<le> keys s x) (L q)"
  define vs where "vs = dropWhile (\<lambda>x. k \<le> keys s x) (L q)"
  have L: "L q = us @ vs" by (simp add: us_def vs_def)
  have iq': "is_queue (queuetab s) q (us @ vs)" using iq L by simp
  have "p \<notin> set (L q)" using p(2) wf(2) by (simp add: off_queues_def)
  then have np: "p \<notin> set (us @ vs)" using L by simp
  let ?a = "q_before q us" and ?b = "q_after q vs"
  note d = q_between_distinct[OF iq' np pr(2)]
  have "firstid q s = Some (q_after q (L q))"
    using firstid_wf[OF iq] by (simp add: q_after_def)
  moreover have "c_loop (insert_scan k s) (q_after q (L q)) = Some ?b"
    using insert_scan_wf[of s q "[]" "L q"] iq k by (simp add: vs_def)
  moreover have "qprev (queuetab s ?b) = ?a" using is_queue_adjacent(2)[OF iq'] .
  ultimately have "insert_q p q k s = Some (OK, s\<lparr>queuetab := link_key (queuetab s) p ?a ?b k\<rparr>)"
    using nb p(1) d proc_in_tab[OF pr]
    by (simp add: insert_q_def table_updates link_key_eq Let_def)
  moreover have "queues_wf (link_key (queuetab s) p ?a ?b k) (nextqid s)
      (L(q := ins_desc (keys s) k p (L q)))"
    using queues_wf_link_key[OF wf L p(2) pr] by (simp add: ins_desc_def us_def vs_def)
  ultimately show ?thesis by (auto simp: link_key_keys)
qed

lemma ins_desc_set: "set (ins_desc kf k p xs) = insert p (set xs)"
  unfolding ins_desc_def
  by (metis set_append list.set(2) Un_insert_right takeWhile_dropWhile_id)

lemma ins_desc_cong:
  "(\<And>x. x \<in> set xs \<Longrightarrow> kf x = kf' x) \<Longrightarrow> ins_desc kf k p xs = ins_desc kf' k p xs"
  unfolding ins_desc_def by (metis (no_types, lifting) dropWhile_cong takeWhile_cong)

text \<open>Insertion keeps a list sorted by descending key.\<close>

definition desc :: "(int \<Rightarrow> int) \<Rightarrow> int list \<Rightarrow> bool" where
  "desc kf xs \<longleftrightarrow> sorted_wrt (\<lambda>x y. kf y \<le> kf x) xs"

lemma ins_desc_sorted:
  assumes "desc kf xs" "kf p = k"
  shows "desc kf (ins_desc kf k p xs)"
proof -
  let ?t = "takeWhile (\<lambda>x. k \<le> kf x) xs" and ?d = "dropWhile (\<lambda>x. k \<le> kf x) xs"
  have s: "sorted_wrt (\<lambda>x y. kf y \<le> kf x) (?t @ ?d)"
    using assms(1) by (simp add: desc_def)
  have t: "k \<le> kf x" if "x \<in> set ?t" for x
    using set_takeWhileD[OF that] by simp
  have "kf y \<le> k" if "y \<in> set ?d" for y
  proof (cases ?d)
    case Nil
    with that show ?thesis by simp
  next
    case (Cons z zs)
    then have "\<not> k \<le> kf z" using hd_dropWhile[of "\<lambda>x. k \<le> kf x" xs] by simp
    moreover have "kf y \<le> kf z" using s that Cons by (auto simp: sorted_wrt_append)
    ultimately show ?thesis by simp
  qed
  then show ?thesis
    using s t assms(2) by (fastforce simp: desc_def ins_desc_def sorted_wrt_append)
qed

section \<open>Delta lists\<close>

text \<open>In the sleep queue a key is the delay after the previous entry. insertd.c walks on while the
  entry's delay fits into what is left of the new delay.\<close>

fun delta_split :: "(int \<Rightarrow> int) \<Rightarrow> int \<Rightarrow> int list \<Rightarrow> int list \<times> int list \<times> int" where
  "delta_split kf k [] = ([], [], k)"
| "delta_split kf k (x # xs) =
     (if kf x \<le> k
      then (case delta_split kf (i32 (k - kf x)) xs of (us, vs, k') \<Rightarrow> (x # us, vs, k'))
      else ([], x # xs, k))"

lemma delta_split_append: "delta_split kf k xs = (us, vs, k') \<Longrightarrow> xs = us @ vs"
  by (induction kf k xs arbitrary: us k' rule: delta_split.induct)
    (auto split: if_splits prod.splits)

lemma insertd_scan_wf:
  assumes "is_queue (queuetab s) q (us @ vs)" "delta_split (keys s) k vs = (ws, zs, k')"
  shows "c_loop (insertd_scan q s) (q_before q us, q_after q vs, k) =
    Some (q_before q (us @ ws), q_after q zs, k')"
  using assms
proof (induction vs arbitrary: us k ws)
  case Nil
  then show ?case
    by (simp add: c_loop_Inr insertd_scan_def q_after_def queuetail_def)
next
  case (Cons v vs)
  have v: "q_at s v = Some (queuetab s v)"
    using in_tab[of v q "us @ v # vs"] Cons.prems(1) by (simp add: q_nodes_def q_at_def)
  have vq: "v \<noteq> queuetail q"
    using is_queueD(1)[OF Cons.prems(1)] by (auto simp: queuetail_def)
  have aft: "q_after q (v # vs) = v" by (simp add: q_after_def)
  show ?case
  proof (cases "keys s v \<le> k")
    case True
    obtain ws' where ws': "delta_split (keys s) (i32 (k - keys s v)) vs = (ws', zs, k')" "ws = v # ws'"
      using Cons.prems(2) True by (auto split: prod.splits)
    have "qnext (queuetab s v) = q_after q vs" using is_queue_links(1)[OF Cons.prems(1)] .
    then have "insertd_scan q s (q_before q us, v, k) = Some (Inl (v, q_after q vs, i32 (k - keys s v)))"
      using True v vq by (simp add: insertd_scan_def)
    moreover have "is_queue (queuetab s) q ((us @ [v]) @ vs)" using Cons.prems(1) by simp
    moreover have "q_before q (us @ [v]) = v" by (simp add: q_before_def)
    ultimately show ?thesis
      using Cons.IH[of "us @ [v]", OF _ ws'(1)] ws'(2) by (simp add: aft c_loop_Inl)
  next
    case False
    then have "insertd_scan q s (q_before q us, v, k) = Some (Inr (q_before q us, v, k))"
      using v vq by (simp add: insertd_scan_def)
    then show ?thesis using False Cons.prems(2) by (auto simp: aft c_loop_Inr)
  qed
qed

definition insertd_keys :: "(int \<Rightarrow> int) \<Rightarrow> int \<Rightarrow> int \<Rightarrow> int list \<Rightarrow> int \<Rightarrow> int" where
  "insertd_keys kf k' p vs i =
     (if i = p then k' else if vs \<noteq> [] \<and> i = hd vs then i32 (kf i - k') else kf i)"

lemma insertd_wf:
  assumes wf: "queues_wf (queuetab s) (nextqid s) L" "qid_ok (nextqid s) q"
    and p: "\<not> isbadpid s p" "off_queues (nextqid s) L p"
    and sp: "delta_split (keys s) k (L q) = (us, vs, k')"
  shows "\<exists>qt. insertd p q k s = Some (OK, s\<lparr>queuetab := qt\<rparr>) \<and>
      queues_wf qt (nextqid s) (L(q := us @ p # vs)) \<and>
      (\<forall>i. qkey (qt i) = insertd_keys (keys s) k' p vs i)"
proof -
  note iq = queues_wfD(1)[OF wf] and nb = queues_wfD(2)[OF wf]
  have pr: "0 \<le> p" "p < NPROC" using isbadpid_range[OF p(1)] by auto
  have L: "L q = us @ vs" using delta_split_append[OF sp] .
  have iq': "is_queue (queuetab s) q (us @ vs)" using iq L by simp
  have "p \<notin> set (L q)" using p(2) wf(2) by (simp add: off_queues_def)
  then have np: "p \<notin> set (us @ vs)" using L by simp
  let ?a = "q_before q us" and ?b = "q_after q vs"
  note d = q_between_distinct[OF iq' np pr(2)]
  let ?qt = "link_key (queuetab s) p ?a ?b k'"
  have "qnext (queuetab s q) = q_after q (L q)"
    using is_queue_adjacent(1)[of "queuetab s" q "[]" "L q"] iq by (simp add: q_before_def)
  moreover have "c_loop (insertd_scan q s) (q, q_after q (L q), k) = Some (?a, ?b, k')"
    using insertd_scan_wf[of s q "[]" "L q"] iq sp by (simp add: q_before_def)
  moreover have "0 \<le> q \<and> q < NQENT" using queues_wfD(3,4)[OF wf] by simp
  ultimately have eq: "insertd p q k s = (if ?b \<noteq> q + 1
      then Some (OK, s\<lparr>queuetab := ?qt(?b := (?qt ?b)\<lparr>qkey := i32 (qkey (?qt ?b) - k')\<rparr>)\<rparr>)
      else Some (OK, s\<lparr>queuetab := ?qt\<rparr>))"
    using nb p(1) d proc_in_tab[OF pr]
    by (simp add: insertd_def table_updates link_key_eq queuehead_def queuetail_def)
  have wf1: "queues_wf ?qt (nextqid s) (L(q := us @ p # vs))"
    using queues_wf_link_key[OF wf L p(2) pr] .
  show ?thesis
  proof (cases vs)
    case Nil
    then show ?thesis
      using eq wf1 by (auto simp: q_after_def link_key_keys insertd_keys_def)
  next
    case (Cons v vs')
    then have b: "?b = v" by (simp add: q_after_def)
    have v: "v < NPROC" "v \<noteq> p" "v \<noteq> q + 1"
      using queues_wfD(6)[OF wf] L Cons np is_queueD(1)[OF iq'] by auto
    let ?qt2 = "?qt(v := (?qt v)\<lparr>qkey := i32 (qkey (?qt v) - k')\<rparr>)"
    have "queues_wf ?qt2 (nextqid s) (L(q := us @ p # vs))"
      by (rule queues_wf_keys[OF wf1]) (use v in auto)
    moreover have "insertd p q k s = Some (OK, s\<lparr>queuetab := ?qt2\<rparr>)"
      using eq v b by simp
    ultimately show ?thesis
      using v Cons b by (auto simp: link_key_keys insertd_keys_def)
  qed
qed

section \<open>Allocation of queues\<close>

lemma newqueue_wf:
  assumes wf: "queues_wf (queuetab s) (nextqid s) L" and room: "nextqid s < NQENT"
  shows "\<exists>qt. newqueue s = Some (nextqid s, s\<lparr>nextqid := nextqid s + 2, queuetab := qt\<rparr>) \<and>
      queues_wf qt (nextqid s + 2) (L(nextqid s := [])) \<and>
      (\<forall>i < NPROC. qkey (qt i) = keys s i)"
proof -
  let ?q = "nextqid s"
  have n: "even ?q" "NPROC \<le> ?q" "even NQENT" using wf by (auto simp: queues_wf_def xinu_sizes)
  then have lt: "?q + 1 < NQENT" using room by presburger
  define qt where "qt = (queuetab s)
    (?q := (queuetab s ?q)\<lparr>qnext := ?q + 1, qprev := EMPTY, qkey := MAXKEY\<rparr>,
     ?q + 1 := (queuetab s (?q + 1))\<lparr>qnext := EMPTY, qprev := ?q, qkey := MINKEY\<rparr>)"
  have fr: "qt i = queuetab s i" if "i \<noteq> ?q" "i \<noteq> ?q + 1" for i using that by (simp add: qt_def)
  have "newqueue s = Some (?q, s\<lparr>nextqid := ?q + 2, queuetab := qt\<rparr>)"
    using lt n(2) by (simp add: newqueue_def table_updates queuehead_def queuetail_def qt_def
        c_int xinu_sizes Let_def)
  moreover have "is_queue qt ?q []"
    using lt n(2) by (simp add: is_queue_def qt_def)
  moreover have "is_queue qt q (L q)" if q: "qid_ok ?q q" for q
  proof -
    have "is_queue qt q (L q) = is_queue (queuetab s) q (L q)"
    proof (rule is_queue_cong)
      fix i assume i: "i \<in> q_nodes q (L q)"
      have "q + 1 < ?q" using q n by (auto simp: qid_ok_def) presburger
      then have "i < ?q" using i q queues_wfD(6)[OF wf q] n by (auto simp: q_nodes_def qid_ok_def)
      then show "qt i = queuetab s i" by (simp add: fr)
    qed
    then show ?thesis using queues_wfD(1)[OF wf q] by simp
  qed
  moreover have "qid_ok (?q + 2) q \<longleftrightarrow> qid_ok ?q q \<or> q = ?q" for q
    using n by (auto simp: qid_ok_def) presburger
  moreover have "?q + 2 \<le> NQENT" using lt by simp
  moreover have "\<forall>i < NPROC. qkey (qt i) = keys s i" using n(2) fr by simp
  ultimately show ?thesis using wf by (auto simp: queues_wf_def)
qed

lemma newqueue_overrun:
  assumes "nextqid s = NQENT"
  shows "newqueue s = None"
  using assms by (simp add: newqueue_def table_updates queuehead_def)

end
