(* ===== verification/Scheduler.thy ===== *)
theory Scheduler
  imports Queue_Lists
begin

text \<open>
  Process scheduling (system/resched.c, resched2.c, ready.c, yield.c, chprio.c, getprio.c,
  getpid.c, resume.c, suspend.c). resched is modelled up to ctxsw: its result is the state in
  which the chosen process runs. The code of a system call after a call of resched runs when the
  caller is next chosen; where that code does more than restore the interrupt mask and return a
  constant, the call returns Blocked and a separate definition holds the rest. disable and restore
  of the interrupt mask bracket each call, which is why a call, up to ctxsw, is one atomic step.
\<close>

datatype outcome = Ret int | Blocked

definition outcome_of :: "kst \<Rightarrow> (kst \<Rightarrow> int \<times> kst) \<Rightarrow> kst \<Rightarrow> outcome \<times> kst" where
  "outcome_of s rest t =
     (if currpid t = currpid s then (case rest t of (r, t') \<Rightarrow> (Ret r, t')) else (Blocked, t))"

section \<open>Rescheduling\<close>

definition dispatch :: "kst \<Rightarrow> kst option" where
  "dispatch s = do {
     (pid, s) \<leftarrow> dequeue (readylist s) s;
     _ \<leftarrow> proc_at s pid;
     Some ((set_state pid PR_CURR s)\<lparr>currpid := pid, preempt := QUANTUM\<rparr>) }"

definition resched :: "kst \<Rightarrow> kst option" where
  "resched s =
     (if ndefers (Defer s) > 0 then Some (s\<lparr>Defer := (Defer s)\<lparr>attempt := True\<rparr>\<rparr>)
      else do {
        ptold \<leftarrow> proc_at s (currpid s);
        if prstate ptold = PR_CURR then do {
          k \<leftarrow> firstkey (readylist s) s;
          if prprio ptold > k then Some s
          else do {
            (_, s) \<leftarrow> insert_q (currpid s) (readylist s) (prprio ptold)
                        (set_state (currpid s) PR_READY s);
            dispatch s } }
        else dispatch s })"

definition DEFER_START :: int where "DEFER_START = 1"
definition DEFER_STOP :: int where "DEFER_STOP = 2"

definition resched_cntl :: "int \<Rightarrow> kst \<Rightarrow> (int \<times> kst) option" where
  "resched_cntl d s =
     (if d = DEFER_START then
        (let n = ndefers (Defer s);
             s = s\<lparr>Defer := (Defer s)\<lparr>ndefers := i32 (n + 1)\<rparr>\<rparr>
         in Some (OK, if n = 0 then s\<lparr>Defer := (Defer s)\<lparr>attempt := False\<rparr>\<rparr> else s))
      else if d = DEFER_STOP then
        (if ndefers (Defer s) \<le> 0 then Some (SYSERR, s)
         else
           (let s = s\<lparr>Defer := (Defer s)\<lparr>ndefers := ndefers (Defer s) - 1\<rparr>\<rparr> in
            if ndefers (Defer s) = 0 \<and> attempt (Defer s)
            then do { s \<leftarrow> resched s; Some (OK, s) }
            else Some (OK, s)))
      else Some (SYSERR, s))"

text \<open>resched2.c: the variant that first sets the state of the calling process.\<close>

definition resched2 :: "prstate_t \<Rightarrow> kst \<Rightarrow> kst option" where
  "resched2 st s =
     (if ndefers (Defer s) > 0 then Some (s\<lparr>Defer := (Defer s)\<lparr>attempt := True\<rparr>\<rparr>)
      else do {
        _ \<leftarrow> proc_at s (currpid s);
        let s = set_state (currpid s) st s;
        let prio = prprio (proctab s (currpid s));
        if st = PR_CURR \<or> st = PR_READY then do {
          k \<leftarrow> firstkey (readylist s) s;
          if prio > k then Some s
          else do {
            (_, s) \<leftarrow> insert_q (currpid s) (readylist s) prio (set_state (currpid s) PR_READY s);
            dispatch s } }
        else dispatch s })"

definition ready :: "int \<Rightarrow> kst \<Rightarrow> (int \<times> kst) option" where
  "ready pid s =
     (if isbadpid s pid then Some (SYSERR, s)
      else do {
        let s = set_state pid PR_READY s;
        (_, s) \<leftarrow> insert_q pid (readylist s) (prprio (proctab s pid)) s;
        s \<leftarrow> resched s;
        Some (OK, s) })"

section \<open>System calls on processes\<close>

definition getpid :: "kst \<Rightarrow> int" where
  "getpid s = currpid s"

definition yield :: "kst \<Rightarrow> (int \<times> kst) option" where
  "yield s = do { s \<leftarrow> resched s; Some (OK, s) }"

definition chprio :: "int \<Rightarrow> int \<Rightarrow> kst \<Rightarrow> int \<times> kst" where
  "chprio pid newprio s =
     (if isbadpid s pid then (SYSERR, s)
      else (prprio (proctab s pid), upd_proc pid (\<lambda>e. e\<lparr>prprio := newprio\<rparr>) s))"

definition getprio :: "int \<Rightarrow> kst \<Rightarrow> int \<times> kst" where
  "getprio pid s =
     (if isbadpid s pid then (SYSERR, s) else (i32 (u32 (prprio (proctab s pid))), s))"

definition resume :: "int \<Rightarrow> kst \<Rightarrow> (int \<times> kst) option" where
  "resume pid s =
     (if isbadpid s pid then Some (SYSERR, s)
      else if prstate (proctab s pid) \<noteq> PR_SUSP then Some (SYSERR, s)
      else do {
        let prio = prprio (proctab s pid);
        (_, s) \<leftarrow> ready pid s;
        Some (prio, s) })"

definition suspend_rest :: "int \<Rightarrow> kst \<Rightarrow> int \<times> kst" where
  "suspend_rest pid s = (prprio (proctab s pid), s)"

definition suspend :: "int \<Rightarrow> kst \<Rightarrow> (outcome \<times> kst) option" where
  "suspend pid s =
     (if isbadpid s pid \<or> pid = NULLPROC then Some (Ret SYSERR, s)
      else if prstate (proctab s pid) \<noteq> PR_CURR \<and> prstate (proctab s pid) \<noteq> PR_READY
      then Some (Ret SYSERR, s)
      else if prstate (proctab s pid) = PR_READY then do {
        (_, s) \<leftarrow> getitem pid s;
        let s = set_state pid PR_SUSP s;
        (case suspend_rest pid s of (r, s) \<Rightarrow> Some (Ret r, s)) }
      else do {
        t \<leftarrow> resched (set_state pid PR_SUSP s);
        Some (outcome_of s (suspend_rest pid) t) })"

end
