(* ===== verification/Semaphores.thy ===== *)
theory Semaphores
  imports Scheduler
begin

text \<open>
  Counting semaphores (include/semaphore.h, system/semcreate.c, wait.c, signal.c, signaln.c,
  semreset.c, semdelete.c, semcount.c). A negative count is the number of processes on the
  semaphore's queue.
\<close>

definition newsem_iter :: "int \<times> kst \<Rightarrow> (int \<times> kst + int \<times> kst) option" where
  "newsem_iter = (\<lambda>(i, s).
     if i < NSEM then
       (let sem = nextsem s;
            s = s\<lparr>nextsem := nextsem s + 1\<rparr>;
            s = (if nextsem s \<ge> NSEM then s\<lparr>nextsem := 0\<rparr> else s)
        in if sstate (semtab s sem) = S_FREE
           then Some (Inr (sem, upd_sem sem (\<lambda>e. e\<lparr>sstate := S_USED\<rparr>) s))
           else Some (Inl (i + 1, s)))
     else Some (Inr (SYSERR, s)))"

definition newsem :: "kst \<Rightarrow> (int \<times> kst) option" where
  "newsem s = c_loop newsem_iter (0, s)"

definition semcreate :: "int \<Rightarrow> kst \<Rightarrow> (int \<times> kst) option" where
  "semcreate count s =
     (if count < 0 then Some (SYSERR, s)
      else do {
        (sem, s) \<leftarrow> newsem s;
        if sem = SYSERR then Some (SYSERR, s)
        else Some (sem, upd_sem sem (\<lambda>e. e\<lparr>scount := count\<rparr>) s) })"

definition wait :: "int \<Rightarrow> kst \<Rightarrow> (int \<times> kst) option" where
  "wait sem s =
     (if isbadsem sem then Some (SYSERR, s)
      else if sstate (semtab s sem) = S_FREE then Some (SYSERR, s)
      else
        (let s = upd_sem sem (\<lambda>e. e\<lparr>scount := i32 (scount e - 1)\<rparr>) s in
         if scount (semtab s sem) < 0 then do {
           _ \<leftarrow> proc_at s (currpid s);
           let s = upd_proc (currpid s) (\<lambda>e. e\<lparr>prstate := PR_WAIT, prsem := sem\<rparr>) s;
           (_, s) \<leftarrow> enqueue (currpid s) (squeue (semtab s sem)) s;
           s \<leftarrow> resched s;
           Some (OK, s) }
         else Some (OK, s)))"

definition sem_inc :: "int \<Rightarrow> kst \<Rightarrow> kst" where
  "sem_inc sem = upd_sem sem (\<lambda>e. e\<lparr>scount := i32 (scount e + 1)\<rparr>)"

definition signal :: "int \<Rightarrow> kst \<Rightarrow> (int \<times> kst) option" where
  "signal sem s =
     (if isbadsem sem then Some (SYSERR, s)
      else if sstate (semtab s sem) = S_FREE then Some (SYSERR, s)
      else if scount (semtab s sem) < 0 then do {
        let s = sem_inc sem s;
        (pid, s) \<leftarrow> dequeue (squeue (semtab s sem)) s;
        (_, s) \<leftarrow> ready pid s;
        Some (OK, s) }
      else Some (OK, sem_inc sem s))"

definition signaln_body :: "int \<Rightarrow> int \<times> kst \<Rightarrow> (int \<times> kst) option" where
  "signaln_body sem = (\<lambda>(count, s).
     if scount (semtab s sem) < 0 then do {
       let s = sem_inc sem s;
       (pid, s) \<leftarrow> dequeue (squeue (semtab s sem)) s;
       (_, s) \<leftarrow> ready pid s;
       Some (count - 1, s) }
     else Some (count - 1, sem_inc sem s))"

definition signaln :: "int \<Rightarrow> int \<Rightarrow> kst \<Rightarrow> (int \<times> kst) option" where
  "signaln sem count s =
     (if isbadsem sem \<or> count < 0 then Some (SYSERR, s)
      else if sstate (semtab s sem) = S_FREE then Some (SYSERR, s)
      else do {
        (_, s) \<leftarrow> resched_cntl DEFER_START s;
        (_, s) \<leftarrow> c_while (\<lambda>(count, s). count > 0) (signaln_body sem) (count, s);
        (_, s) \<leftarrow> resched_cntl DEFER_STOP s;
        Some (OK, s) })"

definition semdelete_iter :: "int \<Rightarrow> kst \<Rightarrow> (kst + kst) option" where
  "semdelete_iter sem s =
     (if scount (semtab s sem) < 0 then do {
        let s = sem_inc sem s;
        (pid, s) \<leftarrow> getfirst (squeue (semtab s sem)) s;
        (_, s) \<leftarrow> ready pid s;
        Some (Inl s) }
      else Some (Inr (sem_inc sem s)))"

definition semdelete :: "int \<Rightarrow> kst \<Rightarrow> (int \<times> kst) option" where
  "semdelete sem s =
     (if isbadsem sem then Some (SYSERR, s)
      else if sstate (semtab s sem) = S_FREE then Some (SYSERR, s)
      else do {
        let s = upd_sem sem (\<lambda>e. e\<lparr>sstate := S_FREE\<rparr>) s;
        (_, s) \<leftarrow> resched_cntl DEFER_START s;
        s \<leftarrow> c_loop (semdelete_iter sem) s;
        (_, s) \<leftarrow> resched_cntl DEFER_STOP s;
        Some (OK, s) })"

definition semreset_iter :: "int \<Rightarrow> kst \<Rightarrow> (kst + kst) option" where
  "semreset_iter semqueue s = do {
     (pid, s) \<leftarrow> getfirst semqueue s;
     if pid \<noteq> EMPTY then do { (_, s) \<leftarrow> ready pid s; Some (Inl s) }
     else Some (Inr s) }"

definition semreset :: "int \<Rightarrow> int \<Rightarrow> kst \<Rightarrow> (int \<times> kst) option" where
  "semreset sem count s =
     (if count < 0 \<or> isbadsem sem \<or> sstate (semtab s sem) = S_FREE then Some (SYSERR, s)
      else do {
        let semqueue = squeue (semtab s sem);
        (_, s) \<leftarrow> resched_cntl DEFER_START s;
        s \<leftarrow> c_loop (semreset_iter semqueue) s;
        let s = upd_sem sem (\<lambda>e. e\<lparr>scount := count\<rparr>) s;
        (_, s) \<leftarrow> resched_cntl DEFER_STOP s;
        Some (OK, s) })"

definition semcount :: "int \<Rightarrow> kst \<Rightarrow> int" where
  "semcount semid s =
     (if isbadsem semid \<or> sstate (semtab s semid) = S_FREE then SYSERR
      else scount (semtab s semid))"

end
