(* ===== verification/Messages.thy ===== *)
theory Messages
  imports Semaphores
begin

text \<open>
  Message passing and the clock: send.c, receive.c, recvclr.c, recvtime.c, sleep.c, unsleep.c,
  wakeup.c of system/ and the clock interrupt handlers of both platforms. receive and recvtime
  are split at their call of resched.
\<close>

section \<open>The sleep queue\<close>

definition unsleep :: "int \<Rightarrow> kst \<Rightarrow> (int \<times> kst) option" where
  "unsleep pid s =
     (if isbadpid s pid then Some (SYSERR, s)
      else if prstate (proctab s pid) \<noteq> PR_SLEEP \<and> prstate (proctab s pid) \<noteq> PR_RECTIM
      then Some (SYSERR, s)
      else do {
        e \<leftarrow> q_at s pid;
        let pidnext = qnext e;
        s \<leftarrow> (if pidnext < NPROC then do {
                 n \<leftarrow> q_at s pidnext;
                 set_qkey pidnext (i32 (qkey n + qkey e)) s }
               else Some s);
        (_, s) \<leftarrow> getitem pid s;
        Some (OK, s) })"

definition wakeup_iter :: "kst \<Rightarrow> (kst + kst) option" where
  "wakeup_iter s = do {
     b \<leftarrow> nonempty (sleepq s) s;
     k \<leftarrow> (if b then firstkey (sleepq s) s else Some 0);
     if b \<and> k \<le> 0 then do {
       (pid, s) \<leftarrow> dequeue (sleepq s) s;
       (_, s) \<leftarrow> ready pid s;
       Some (Inl s) }
     else Some (Inr s) }"

definition wakeup :: "kst \<Rightarrow> kst option" where
  "wakeup s = do {
     (_, s) \<leftarrow> resched_cntl DEFER_START s;
     s \<leftarrow> c_loop wakeup_iter s;
     (_, s) \<leftarrow> resched_cntl DEFER_STOP s;
     Some s }"

definition sleepms :: "int \<Rightarrow> kst \<Rightarrow> (int \<times> kst) option" where
  "sleepms delay s =
     (if delay = 0 then yield s
      else do {
        (r, s) \<leftarrow> insertd (currpid s) (sleepq s) (i32 delay) s;
        if r = SYSERR then Some (SYSERR, s)
        else do {
          _ \<leftarrow> proc_at s (currpid s);
          s \<leftarrow> resched (set_state (currpid s) PR_SLEEP s);
          Some (OK, s) } })"

definition MAXSECONDS :: int where "MAXSECONDS = 4294967"

definition sleep :: "int \<Rightarrow> kst \<Rightarrow> (int \<times> kst) option" where
  "sleep delay s =
     (if delay > MAXSECONDS then Some (SYSERR, s)
      else do { (_, s) \<leftarrow> sleepms (u32 (1000 * delay)) s; Some (OK, s) })"

section \<open>Messages\<close>

definition send :: "int \<Rightarrow> int \<Rightarrow> kst \<Rightarrow> (int \<times> kst) option" where
  "send pid msg s =
     (if isbadpid s pid then Some (SYSERR, s)
      else if prhasmsg (proctab s pid) then Some (SYSERR, s)
      else do {
        let s = upd_proc pid (\<lambda>e. e\<lparr>prmsg := msg, prhasmsg := True\<rparr>) s;
        if prstate (proctab s pid) = PR_RECV then do { (_, s) \<leftarrow> ready pid s; Some (OK, s) }
        else if prstate (proctab s pid) = PR_RECTIM then do {
          (_, s) \<leftarrow> unsleep pid s;
          (_, s) \<leftarrow> ready pid s;
          Some (OK, s) }
        else Some (OK, s) })"

definition receive_rest :: "kst \<Rightarrow> int \<times> kst" where
  "receive_rest s =
     (prmsg (proctab s (currpid s)), upd_proc (currpid s) (\<lambda>e. e\<lparr>prhasmsg := False\<rparr>) s)"

definition receive :: "kst \<Rightarrow> (outcome \<times> kst) option" where
  "receive s = do {
     prptr \<leftarrow> proc_at s (currpid s);
     if \<not> prhasmsg prptr then do {
       t \<leftarrow> resched (set_state (currpid s) PR_RECV s);
       Some (outcome_of s receive_rest t) }
     else (case receive_rest s of (r, s) \<Rightarrow> Some (Ret r, s)) }"

definition recvclr :: "kst \<Rightarrow> (int \<times> kst) option" where
  "recvclr s = do {
     prptr \<leftarrow> proc_at s (currpid s);
     if prhasmsg prptr
     then Some (prmsg prptr, upd_proc (currpid s) (\<lambda>e. e\<lparr>prhasmsg := False\<rparr>) s)
     else Some (OK, s) }"

definition recvtime_rest :: "kst \<Rightarrow> int \<times> kst" where
  "recvtime_rest s =
     (if prhasmsg (proctab s (currpid s))
      then (prmsg (proctab s (currpid s)), upd_proc (currpid s) (\<lambda>e. e\<lparr>prhasmsg := False\<rparr>) s)
      else (u32 TIMEOUT, s))"

definition recvtime :: "int \<Rightarrow> kst \<Rightarrow> (outcome \<times> kst) option" where
  "recvtime maxwait s =
     (if maxwait < 0 then Some (Ret (u32 SYSERR), s)
      else do {
        prptr \<leftarrow> proc_at s (currpid s);
        if \<not> prhasmsg prptr then do {
          (r, s) \<leftarrow> insertd (currpid s) (sleepq s) maxwait s;
          if r = SYSERR then Some (Ret (u32 SYSERR), s)
          else do {
            t \<leftarrow> resched (set_state (currpid s) PR_RECTIM s);
            Some (outcome_of s recvtime_rest t) } }
        else (case recvtime_rest s of (r, s) \<Rightarrow> Some (Ret r, s)) })"

section \<open>The clock interrupt\<close>

definition CLKTICKS_PER_SEC :: int where "CLKTICKS_PER_SEC = 1000"

definition dec_firstkey :: "kst \<Rightarrow> (int \<times> kst) option" where
  "dec_firstkey s = do {
     f \<leftarrow> firstid (sleepq s) s;
     e \<leftarrow> q_at s f;
     s \<leftarrow> set_qkey f (i32 (qkey e - 1)) s;
     Some (i32 (qkey e - 1), s) }"

text \<open>system/platform/arm-qemu/clkhandler.c\<close>

definition clkhandler :: "kst \<Rightarrow> kst option" where
  "clkhandler s = do {
     let s = s\<lparr>clkticks := u32 (clkticks s + 1)\<rparr>;
     let s = (if CLKTICKS_PER_SEC = clkticks s
              then s\<lparr>clktime := u32 (clktime s + 1), clkticks := 0\<rparr> else s);
     b \<leftarrow> nonempty (sleepq s) s;
     (k, s) \<leftarrow> (if b then dec_firstkey s else Some (1, s));
     if b \<and> k \<le> 0 then wakeup s else resched s }"

text \<open>system/platform/arm-bbb/clkhandler.c; irq is the overflow flag the handler reads from the
  timer's status register, and the static counter count1000 is kept in clkticks. wakeup may switch
  context, and then the decrement of the preemption counter waits for the interrupted process.\<close>

definition clkhandler_bbb_rest :: "kst \<Rightarrow> kst option" where
  "clkhandler_bbb_rest s =
     (let s = s\<lparr>preempt := u32 (preempt s - 1)\<rparr>
      in if preempt s = 0 then resched (s\<lparr>preempt := QUANTUM\<rparr>) else Some s)"

definition clkhandler_bbb :: "bool \<Rightarrow> kst \<Rightarrow> (outcome \<times> kst) option" where
  "clkhandler_bbb irq s =
     (if \<not> irq then Some (Ret OK, s)
      else do {
        let s = s\<lparr>clkticks := u32 (clkticks s - 1)\<rparr>;
        let s = (if clkticks s = 0
                 then s\<lparr>clktime := u32 (clktime s + 1), clkticks := 1000\<rparr> else s);
        e \<leftarrow> isempty (sleepq s) s;
        t \<leftarrow> (if \<not> e then do {
                 (k, t) \<leftarrow> dec_firstkey s;
                 if k = 0 then wakeup t else Some t }
               else Some s);
        if currpid t = currpid s
        then do { t \<leftarrow> clkhandler_bbb_rest t; Some (Ret OK, t) }
        else Some (Blocked, t) })"

end
