(* ===== verification/Heap.thy ===== *)
theory Heap
  imports Kernel_State
begin

text \<open>
  The heap (include/memory.h, system/getmem.c, freemem.c, getstk.c, meminit.c): a list of free
  blocks threaded through the free memory itself, in the order of their addresses. A struct memblk
  is two words: mnext at the block's address and mlength four bytes up.
\<close>

section \<open>Operations\<close>

definition NULL :: int where "NULL = 0"

definition roundmb :: "int \<Rightarrow> int" where
  "roundmb x = u32 (7 + x) - u32 (7 + x) mod 8"

definition truncmb :: "int \<Rightarrow> int" where
  "truncmb x = u32 x - u32 x mod 8"

definition mnext :: "hst \<Rightarrow> int \<Rightarrow> int" where
  "mnext h p = mem h p"

definition mlength :: "hst \<Rightarrow> int \<Rightarrow> int" where
  "mlength h p = mem h (p + 4)"

definition set_mnext :: "int \<Rightarrow> int \<Rightarrow> hst \<Rightarrow> hst" where
  "set_mnext p v h = h\<lparr>mem := (mem h)(p := v)\<rparr>"

definition set_mlength :: "int \<Rightarrow> int \<Rightarrow> hst \<Rightarrow> hst" where
  "set_mlength p v h = h\<lparr>mem := (mem h)(p + 4 := v)\<rparr>"

definition sub_total :: "int \<Rightarrow> hst \<Rightarrow> hst" where
  "sub_total n h = set_mlength (memlist h) (u32 (mlength h (memlist h) - n)) h"

definition getmem_iter :: "int \<Rightarrow> hst \<Rightarrow> int \<times> int \<Rightarrow> (int \<times> int + int \<times> hst) option" where
  "getmem_iter nbytes h = (\<lambda>(prev, cur).
     if cur \<noteq> NULL then
       (if mlength h cur = nbytes then
          (let h = set_mnext prev (mnext h cur) h in Some (Inr (cur, sub_total nbytes h)))
        else if mlength h cur > nbytes then
          (let leftover = u32 (cur + nbytes);
               h = set_mnext prev leftover h;
               h = set_mnext leftover (mnext h cur) h;
               h = set_mlength leftover (u32 (mlength h cur - nbytes)) h
           in Some (Inr (cur, sub_total nbytes h)))
        else Some (Inl (cur, mnext h cur)))
     else Some (Inr (u32 SYSERR, h)))"

definition getmem :: "int \<Rightarrow> hst \<Rightarrow> (int \<times> hst) option" where
  "getmem nbytes h =
     (if nbytes = 0 then Some (u32 SYSERR, h)
      else
        (let nbytes = roundmb nbytes in
         c_loop (getmem_iter nbytes h) (memlist h, mnext h (memlist h))))"

definition freemem_walk :: "int \<Rightarrow> hst \<Rightarrow> int \<times> int \<Rightarrow> (int \<times> int + int \<times> int) option" where
  "freemem_walk block h = (\<lambda>(prev, next).
     if next \<noteq> NULL \<and> next < block then Some (Inl (next, mnext h next)) else Some (Inr (prev, next)))"

definition freemem :: "int \<Rightarrow> int \<Rightarrow> hst \<Rightarrow> (int \<times> hst) option" where
  "freemem blkaddr nbytes h =
     (if nbytes = 0 \<or> blkaddr < minheap h \<or> blkaddr > maxheap h then Some (SYSERR, h)
      else do {
        let nbytes = roundmb nbytes;
        let block = blkaddr;
        (prev, next) \<leftarrow> c_loop (freemem_walk block h) (memlist h, mnext h (memlist h));
        let top = (if prev = memlist h then NULL else u32 (prev + mlength h prev));
        if prev \<noteq> memlist h \<and> block < top \<or> next \<noteq> NULL \<and> u32 (block + nbytes) > next
        then Some (SYSERR, h)
        else
          (let h = set_mlength (memlist h) (u32 (mlength h (memlist h) + nbytes)) h;
               (block, h) =
                 (if top = block
                  then (prev, set_mlength prev (u32 (mlength h prev + nbytes)) h)
                  else (block, set_mnext prev block (set_mlength block nbytes (set_mnext block next h))));
               h = (if u32 (block + mlength h block) = next
                    then (let h = set_mlength block (u32 (mlength h block + mlength h next)) h
                          in set_mnext block (mnext h next) h)
                    else h)
           in Some (OK, h)) })"

definition getstk_iter :: "int \<Rightarrow> hst \<Rightarrow> int \<times> int \<times> int \<times> int \<Rightarrow>
    (int \<times> int \<times> int \<times> int + int \<times> int) option" where
  "getstk_iter nbytes h = (\<lambda>(prev, cur, fits, fitsprev).
     if cur \<noteq> NULL then
       (let (fits, fitsprev) = (if mlength h cur \<ge> nbytes then (cur, prev) else (fits, fitsprev))
        in Some (Inl (cur, mnext h cur, fits, fitsprev)))
     else Some (Inr (fits, fitsprev)))"

definition getstk :: "int \<Rightarrow> hst \<Rightarrow> (int \<times> hst) option" where
  "getstk nbytes h =
     (if nbytes = 0 then Some (u32 SYSERR, h)
      else do {
        let nbytes = roundmb nbytes;
        (fits, fitsprev) \<leftarrow>
          c_loop (getstk_iter nbytes h) (memlist h, mnext h (memlist h), NULL, NULL);
        if fits = NULL then Some (u32 SYSERR, h)
        else
          (let (fits, h) =
             (if nbytes = mlength h fits then (fits, set_mnext fitsprev (mnext h fits) h)
              else (let h = set_mlength fits (u32 (mlength h fits - nbytes)) h
                    in (u32 (fits + mlength h fits), h)))
           in Some (u32 (fits + nbytes - 4), sub_total nbytes h)) })"

definition freestk :: "int \<Rightarrow> int \<Rightarrow> hst \<Rightarrow> (int \<times> hst) option" where
  "freestk p len = freemem (u32 (p - roundmb len + 4)) (roundmb len)"

text \<open>end_addr is the address of the linker symbol end, max_addr the constant MAXADDR.\<close>

definition meminit :: "int \<Rightarrow> int \<Rightarrow> hst \<Rightarrow> hst" where
  "meminit end_addr max_addr h =
     (let h = h\<lparr>minheap := end_addr, maxheap := max_addr\<rparr>;
          h = set_mnext (memlist h) (minheap h) h;
          memptr = mnext h (memlist h);
          h = set_mnext memptr NULL h
      in set_mlength memptr (u32 (maxheap h - minheap h)) h)"

section \<open>The free list\<close>

fun chain :: "hst \<Rightarrow> int \<Rightarrow> (int \<times> int) list \<Rightarrow> bool" where
  "chain h p [] \<longleftrightarrow> mnext h p = NULL"
| "chain h p ((a, l) # bs) \<longleftrightarrow> mnext h p = a \<and> mlength h a = l \<and> chain h a bs"

text \<open>Blocks in order, at least one unit long, aligned, inside [lo, hi), and never adjacent:
  neighbours have been coalesced.\<close>

fun blocks_ok :: "int \<Rightarrow> int \<Rightarrow> (int \<times> int) list \<Rightarrow> bool" where
  "blocks_ok lo hi [] \<longleftrightarrow> True"
| "blocks_ok lo hi ((a, l) # bs) \<longleftrightarrow>
     lo \<le> a \<and> 8 \<le> l \<and> a mod 8 = 0 \<and> l mod 8 = 0 \<and> a + l \<le> hi \<and> blocks_ok (a + l + 1) hi bs"

definition arena_ok :: "hst \<Rightarrow> bool" where
  "arena_ok h \<longleftrightarrow> 0 < memlist h \<and> memlist h + 8 \<le> minheap h \<and> minheap h \<le> maxheap h \<and>
     maxheap h < 4294967296 \<and> minheap h mod 8 = 0 \<and> maxheap h mod 8 = 0"

definition heap_wf :: "hst \<Rightarrow> (int \<times> int) list \<Rightarrow> bool" where
  "heap_wf h bs \<longleftrightarrow> arena_ok h \<and> chain h (memlist h) bs \<and> blocks_ok (minheap h) (maxheap h) bs"

definition span :: "int \<times> int \<Rightarrow> int set" where
  "span b = {fst b ..< fst b + snd b}"

definition avail :: "(int \<times> int) list \<Rightarrow> int set" where
  "avail bs = (\<Union>b\<in>set bs. span b)"

lemma mult8_add: "x mod 8 = 0 \<Longrightarrow> y mod 8 = 0 \<Longrightarrow> (x + y) mod 8 = (0 :: int)"
  by presburger

lemma mult8_diff: "x mod 8 = 0 \<Longrightarrow> y mod 8 = 0 \<Longrightarrow> (x - y) mod 8 = (0 :: int)"
  by presburger

lemma mult8_gap: "x mod 8 = 0 \<Longrightarrow> y mod 8 = 0 \<Longrightarrow> x < y \<Longrightarrow> 8 \<le> y - (x :: int)"
  by presburger

section \<open>Words of the free list\<close>

lemma set_fields [simp]:
  "memlist (set_mnext p v h) = memlist h" "minheap (set_mnext p v h) = minheap h"
  "maxheap (set_mnext p v h) = maxheap h" "memlist (set_mlength p v h) = memlist h"
  "minheap (set_mlength p v h) = minheap h" "maxheap (set_mlength p v h) = maxheap h"
  "memlist (sub_total n h) = memlist h" "minheap (sub_total n h) = minheap h"
  "maxheap (sub_total n h) = maxheap h"
  by (simp_all add: set_mnext_def set_mlength_def sub_total_def)

lemma arena_frame [simp]:
  "arena_ok (set_mnext p v h) = arena_ok h" "arena_ok (set_mlength p v h) = arena_ok h"
  "arena_ok (sub_total n h) = arena_ok h"
  by (simp_all add: arena_ok_def)

definition node :: "hst \<Rightarrow> int \<Rightarrow> bool" where
  "node h x \<longleftrightarrow> x = memlist h \<or> minheap h \<le> x \<and> x mod 8 = 0"

lemma node_frame [simp]:
  "node (set_mnext p v h) = node h" "node (set_mlength p v h) = node h" "node (sub_total n h) = node h"
  by (simp_all add: node_def fun_eq_iff)

text \<open>The mnext word of one node is never the mlength word of another.\<close>

lemma node_sep:
  assumes "arena_ok h" "node h x" "node h y"
  shows "x \<noteq> y + 4"
proof -
  have "x mod 8 = 0 \<Longrightarrow> y mod 8 = 0 \<Longrightarrow> x \<noteq> y + 4" by presburger
  then show ?thesis using assms unfolding node_def arena_ok_def by linarith
qed

lemma node_memlist [simp]: "node h (memlist h)"
  by (simp add: node_def)

lemma mnext_set [simp]: "mnext (set_mnext p v h) q = (if q = p then v else mnext h q)"
  by (simp add: mnext_def set_mnext_def)

lemma mlength_set [simp]: "mlength (set_mlength p v h) q = (if q = p then v else mlength h q)"
  by (simp add: mlength_def set_mlength_def)

lemma mlength_set_mnext:
  "arena_ok h \<Longrightarrow> node h p \<Longrightarrow> node h q \<Longrightarrow> mlength (set_mnext p v h) q = mlength h q"
  using node_sep[of h p q] by (simp add: mlength_def set_mnext_def)

lemma mnext_set_mlength:
  "arena_ok h \<Longrightarrow> node h p \<Longrightarrow> node h q \<Longrightarrow> mnext (set_mlength p v h) q = mnext h q"
  using node_sep[of h q p] by (simp add: mnext_def set_mlength_def)

lemma mnext_sub_total: "arena_ok h \<Longrightarrow> node h q \<Longrightarrow> mnext (sub_total n h) q = mnext h q"
  by (simp add: sub_total_def mnext_set_mlength)

lemma mlength_sub_total: "q \<noteq> memlist h \<Longrightarrow> mlength (sub_total n h) q = mlength h q"
  by (simp add: sub_total_def)

lemmas heap_words = mlength_set_mnext mnext_set_mlength mnext_sub_total mlength_sub_total

section \<open>Segments of the list\<close>

fun seg :: "hst \<Rightarrow> int \<Rightarrow> (int \<times> int) list \<Rightarrow> bool" where
  "seg h p [] \<longleftrightarrow> True"
| "seg h p ((a, l) # bs) \<longleftrightarrow> mnext h p = a \<and> mlength h a = l \<and> seg h a bs"

definition prev_of :: "int \<Rightarrow> (int \<times> int) list \<Rightarrow> int" where
  "prev_of p us = (if us = [] then p else fst (last us))"

lemma prev_of_simps [simp]: "prev_of p [] = p" "prev_of p (u # us) = prev_of (fst u) us"
  by (simp_all add: prev_of_def)

lemma chain_append: "chain h p (us @ vs) \<longleftrightarrow> seg h p us \<and> chain h (prev_of p us) vs"
  by (induction h p us rule: seg.induct) auto

lemma seg_append: "seg h p (us @ vs) \<longleftrightarrow> seg h p us \<and> seg h (prev_of p us) vs"
  by (induction h p us rule: seg.induct) auto

lemma chain_mnext: "chain h p bs \<Longrightarrow> mnext h p = (case bs of [] \<Rightarrow> NULL | b # _ \<Rightarrow> fst b)"
  by (cases bs) auto

lemma chain_cong:
  assumes "mnext h' q = mnext h p"
    and "\<And>b. b \<in> set bs \<Longrightarrow> mnext h' (fst b) = mnext h (fst b) \<and> mlength h' (fst b) = mlength h (fst b)"
  shows "chain h' q bs = chain h p bs"
  using assms
proof (induction h p bs arbitrary: q rule: chain.induct)
  case (2 h p a l bs)
  have "mnext h' a = mnext h a" "mlength h' a = mlength h a" using 2(3)[of "(a, l)"] by simp_all
  moreover have "chain h' a bs = chain h a bs" using 2(1,3) calculation by simp
  ultimately show ?case using 2(2) by simp
qed simp

text \<open>A segment does not read the mnext word of its last node.\<close>

lemma seg_cong:
  assumes "\<And>x. x \<in> set (p # map fst bs) \<Longrightarrow> x \<noteq> prev_of p bs \<Longrightarrow> mnext h' x = mnext h x"
    and "\<And>b. b \<in> set bs \<Longrightarrow> mlength h' (fst b) = mlength h (fst b)"
    and "distinct (p # map fst bs)"
  shows "seg h' p bs = seg h p bs"
  using assms
proof (induction h p bs rule: seg.induct)
  case (2 h p a l bs)
  have "prev_of a bs \<in> set (a # map fst bs)" by (auto simp: prev_of_def)
  then have "p \<noteq> prev_of a bs" using 2(4) by auto
  then have "mnext h' p = mnext h p" using 2(2)[of p] by simp
  moreover have "seg h' a bs = seg h a bs"
    using 2(1) 2(2-4) by auto
  moreover have "mlength h' a = mlength h a" using 2(3)[of "(a, l)"] by simp
  ultimately show ?case by simp
qed simp

section \<open>Order of the blocks\<close>

definition end_of :: "int \<Rightarrow> (int \<times> int) list \<Rightarrow> int" where
  "end_of lo us = (if us = [] then lo else fst (last us) + snd (last us) + 1)"

lemma end_of_simps [simp]: "end_of lo [] = lo" "end_of lo ((a, l) # us) = end_of (a + l + 1) us"
  by (simp_all add: end_of_def)

lemma blocks_append: "blocks_ok lo hi (us @ vs) \<longleftrightarrow> blocks_ok lo hi us \<and> blocks_ok (end_of lo us) hi vs"
  by (induction lo hi us rule: blocks_ok.induct) auto

lemma blocks_mono: "blocks_ok lo hi bs \<Longrightarrow> lo' \<le> lo \<Longrightarrow> blocks_ok lo' hi bs"
  by (cases bs) auto

lemma blocks_in:
  assumes "blocks_ok lo hi bs" "b \<in> set bs"
  shows "lo \<le> fst b" "8 \<le> snd b" "fst b mod 8 = 0" "snd b mod 8 = 0" "fst b + snd b \<le> hi"
  using assms by (induction lo hi bs rule: blocks_ok.induct) auto

lemma blocks_before:
  assumes "blocks_ok lo hi us" "b \<in> set us"
  shows "fst b + snd b < end_of lo us" "fst b < end_of lo us"
proof -
  obtain us1 us2 where us: "us = us1 @ b # us2" using split_list[OF assms(2)] by blast
  have b2: "blocks_ok (fst b + snd b + 1) hi us2"
    using assms(1) unfolding us blocks_append by (cases b) simp
  have "end_of lo us = end_of (fst b + snd b + 1) us2" by (simp add: us end_of_def)
  moreover have "fst b + snd b + 1 \<le> end_of (fst b + snd b + 1) us2"
    using blocks_in(1,2)[OF b2, of "last us2"] by (cases "us2 = []") (auto simp: end_of_def)
  ultimately show "fst b + snd b < end_of lo us" by simp
  then show "fst b < end_of lo us" using blocks_in(2)[OF assms] by simp
qed

lemma blocks_end_ge: "blocks_ok lo hi us \<Longrightarrow> lo \<le> end_of lo us"
  using blocks_before(1)[of lo hi us "hd us"] blocks_in(1,2)[of lo hi us "hd us"] by (cases us) force+

lemma blocks_distinct:
  "blocks_ok lo hi bs \<Longrightarrow> distinct (map fst bs)"
proof (induction lo hi bs rule: blocks_ok.induct)
  case (2 lo hi a l bs)
  then have "a \<noteq> fst b" if "b \<in> set bs" for b
    using blocks_in(1)[of "a + l + 1" hi bs b] that by auto
  then show ?case using 2 by auto
qed simp

section \<open>Splitting and rebuilding the list\<close>

lemma heap_split:
  assumes wf: "heap_wf h (us @ vs)"
  defines "prev \<equiv> prev_of (memlist h) us"
  shows "arena_ok h" "seg h (memlist h) us" "chain h prev vs" "node h prev"
    "blocks_ok (minheap h) (maxheap h) us" "blocks_ok (end_of (minheap h) us) (maxheap h) vs"
    "distinct (memlist h # map fst us)" "prev < end_of (minheap h) us"
    "\<And>b. b \<in> set us \<Longrightarrow> node h (fst b) \<and> fst b \<le> prev \<and> fst b \<noteq> memlist h \<and> 0 < fst b"
    "\<And>b. b \<in> set vs \<Longrightarrow> node h (fst b) \<and> prev < fst b \<and> 0 < fst b"
proof -
  show ar: "arena_ok h" and "seg h (memlist h) us" "chain h prev vs"
    using wf by (simp_all add: heap_wf_def chain_append prev_def)
  show b: "blocks_ok (minheap h) (maxheap h) us" "blocks_ok (end_of (minheap h) us) (maxheap h) vs"
    using wf by (simp_all add: heap_wf_def blocks_append)
  have in_us: "minheap h \<le> fst b \<and> fst b mod 8 = 0" if "b \<in> set us" for b
    using blocks_in(1,3)[OF b(1) that] by simp
  have lo: "memlist h < minheap h" "0 < minheap h" using ar by (simp_all add: arena_ok_def)
  show pn: "node h prev" using in_us[of "last us"] by (auto simp: prev_def prev_of_def node_def)
  show pe: "prev < end_of (minheap h) us"
    using blocks_before(2)[OF b(1), of "last us"] lo by (auto simp: prev_def prev_of_def)
  show "distinct (memlist h # map fst us)"
    using blocks_distinct[OF b(1)] in_us lo by fastforce
  show "node h (fst b) \<and> fst b \<le> prev \<and> fst b \<noteq> memlist h \<and> 0 < fst b" if bu: "b \<in> set us" for b
  proof -
    have "us \<noteq> []" using bu by auto
    then have us: "us = butlast us @ [last us]" by simp
    have "fst b \<le> fst (last us)"
    proof (cases "b = last us")
      case False
      then have bb: "b \<in> set (butlast us)" using bu us by (metis Un_iff empty_iff insert_iff list.set(1) list.set(2) set_append)
      have "blocks_ok (minheap h) (maxheap h) (butlast us @ [last us])" using b(1) us by simp
      then have "blocks_ok (minheap h) (maxheap h) (butlast us)"
        "blocks_ok (end_of (minheap h) (butlast us)) (maxheap h) [last us]"
        unfolding blocks_append by blast+
      then show ?thesis
        using blocks_before(2)[OF _ bb] blocks_in(1)[of _ _ "[last us]" "last us"] by fastforce
    qed simp
    then show ?thesis using in_us[OF bu] lo \<open>us \<noteq> []\<close> by (auto simp: prev_def prev_of_def node_def)
  qed
  show "node h (fst b) \<and> prev < fst b \<and> 0 < fst b" if "b \<in> set vs" for b
    using blocks_in(1,3)[OF b(2) that] blocks_end_ge[OF b(1)] pe lo by (auto simp: node_def)
qed

lemma splice:
  assumes wf: "heap_wf h (us @ old)"
    and fr: "memlist h' = memlist h" "minheap h' = minheap h" "maxheap h' = maxheap h"
    and nx: "\<And>x. node h x \<Longrightarrow> x < prev_of (memlist h) us \<Longrightarrow> mnext h' x = mnext h x"
    and ln: "\<And>x. node h x \<Longrightarrow> x \<noteq> memlist h \<Longrightarrow> x \<le> prev_of (memlist h) us \<Longrightarrow> mlength h' x = mlength h x"
    and new: "chain h' (prev_of (memlist h) us) new" "blocks_ok (end_of (minheap h) us) (maxheap h) new"
  shows "heap_wf h' (us @ new)"
proof -
  note s = heap_split[OF wf]
  have le: "x \<in> set (memlist h # map fst us) \<Longrightarrow> node h x \<and> x \<le> prev_of (memlist h) us" for x
  proof -
    assume "x \<in> set (memlist h # map fst us)"
    then consider "x = memlist h" | b where "b \<in> set us" "x = fst b" by auto
    then show "node h x \<and> x \<le> prev_of (memlist h) us"
    proof cases
      case 1
      have "memlist h \<le> prev_of (memlist h) us"
        using blocks_in(1)[OF s(5), of "last us"] s(1) by (cases "us = []") (auto simp: prev_of_def arena_ok_def)
      then show ?thesis using 1 by simp
    next
      case 2
      then show ?thesis using s(9) by blast
    qed
  qed
  have "seg h' (memlist h) us = seg h (memlist h) us"
  proof (rule seg_cong[OF _ _ s(7)])
    show "mnext h' x = mnext h x" if "x \<in> set (memlist h # map fst us)" "x \<noteq> prev_of (memlist h) us" for x
      using nx le[OF that(1)] that(2) by simp
    show "mlength h' (fst b) = mlength h (fst b)" if "b \<in> set us" for b
      using ln s(9)[OF that] by blast
  qed
  then have "chain h' (memlist h) (us @ new)" using s(2) new(1) by (simp add: chain_append)
  moreover have "arena_ok h'" using s(1) fr by (simp add: arena_ok_def)
  ultimately show ?thesis using s(5) new(2) fr by (simp add: heap_wf_def blocks_append)
qed

section \<open>getmem is first fit\<close>

lemma roundmb_spec:
  assumes "0 < n" "n \<le> 4294967288"
  shows "roundmb n mod 8 = 0" "n \<le> roundmb n" "roundmb n < n + 8" "8 \<le> roundmb n" "roundmb n \<le> 4294967288"
proof -
  have u: "u32 (7 + n) = 7 + n" using assms by (intro u32_id) simp_all
  have "0 \<le> (7 + n) mod 8" "(7 + n) mod 8 < 8" by simp_all
  then show "n \<le> roundmb n" "roundmb n < n + 8" unfolding roundmb_def u by linarith+
  show m: "roundmb n mod 8 = 0" unfolding roundmb_def u by presburger
  show "8 \<le> roundmb n" "roundmb n \<le> 4294967288"
    using m \<open>n \<le> roundmb n\<close> \<open>roundmb n < n + 8\<close> assms by presburger+
qed

lemma roundmb_id:
  assumes "0 \<le> n" "n \<le> 4294967288" "n mod 8 = 0"
  shows "roundmb n = n"
proof -
  have "(7 + n) mod 8 = 7" using assms(3) by presburger
  moreover have "u32 (7 + n) = 7 + n" using assms by (intro u32_id) simp_all
  ultimately show ?thesis by (simp add: roundmb_def)
qed

fun carve :: "int \<Rightarrow> (int \<times> int) list \<Rightarrow> (int \<times> (int \<times> int) list) option" where
  "carve n [] = None"
| "carve n ((a, l) # bs) =
     (if l = n then Some (a, bs)
      else if n < l then Some (a, (a + n, l - n) # bs)
      else map_option (\<lambda>(r, cs). (r, (a, l) # cs)) (carve n bs))"

lemma carve_None: "carve n bs = None \<longleftrightarrow> (\<forall>b\<in>set bs. snd b < n)"
  by (induction n bs rule: carve.induct) auto

lemma carve_Some:
  assumes "carve n bs = Some (r, cs)"
  shows "\<exists>us l vs. bs = us @ (r, l) # vs \<and> (\<forall>b\<in>set us. snd b < n) \<and> n \<le> l \<and>
    cs = us @ (if l = n then vs else (r + n, l - n) # vs)"
  using assms
proof (induction n bs arbitrary: cs rule: carve.induct)
  case (2 n a l bs)
  show ?case
  proof (cases "n \<le> l")
    case True
    then show ?thesis using 2(2)
      by (intro exI[of "\<lambda>us. \<exists>l vs. P us l vs" "[]" for P] exI[of "\<lambda>x. \<exists>vs. P x vs" l for P] exI[of _ bs])
        (auto split: if_splits)
  next
    case False
    then obtain cs' where cs': "carve n bs = Some (r, cs')" "cs = (a, l) # cs'"
      using 2(2) by auto
    obtain us l' vs where "bs = us @ (r, l') # vs" "\<forall>b\<in>set us. snd b < n" "n \<le> l'"
      "cs' = us @ (if l' = n then vs else (r + n, l' - n) # vs)"
      using 2(1)[OF _ _ cs'(1)] False by auto
    then show ?thesis using False cs'(2)
      by (intro exI[of "\<lambda>us. \<exists>l vs. P us l vs" "(a, l) # us" for P] exI[of "\<lambda>x. \<exists>vs. P x vs" l' for P] exI[of _ vs]) auto
  qed
qed simp

lemma getmem_skip:
  assumes "seg h p us" "\<forall>b\<in>set us. snd b < n \<and> fst b \<noteq> NULL"
  shows "c_loop (getmem_iter n h) (p, mnext h p) =
    c_loop (getmem_iter n h) (prev_of p us, mnext h (prev_of p us))"
  using assms
proof (induction h p us rule: seg.induct)
  case (2 h p a l bs)
  have "getmem_iter n h (p, mnext h p) = Some (Inl (a, mnext h a))"
    using 2(2,3) by (simp add: getmem_iter_def)
  then show ?case using 2 by (simp add: c_loop_Inl)
qed simp

text \<open>A block in the list, and what surrounds it.\<close>

lemma heap_block:
  assumes wf: "heap_wf h (us @ (r, l) # vs)"
  defines "p \<equiv> prev_of (memlist h) us"
  shows "arena_ok h" "node h p" "mnext h p = r" "mlength h r = l" "chain h r vs"
    "node h r" "p < r" "0 < r" "memlist h < r" "minheap h \<le> r"
    "end_of (minheap h) us \<le> r" "8 \<le> l" "r mod 8 = 0" "l mod 8 = 0" "r + l \<le> maxheap h"
    "blocks_ok (r + l + 1) (maxheap h) vs" "maxheap h < 4294967296"
    "\<And>b. b \<in> set vs \<Longrightarrow> node h (fst b) \<and> fst b \<noteq> memlist h \<and> p \<noteq> fst b \<and> r + l < fst b"
proof -
  note s = heap_split[OF wf]
  show ar: "arena_ok h" "node h p" using s by (simp_all add: p_def)
  show "mnext h p = r" "mlength h r = l" "chain h r vs" using s(3) by (simp_all add: p_def)
  show nr: "node h r" "p < r" "0 < r" using s(10)[of "(r, l)"] by (simp_all add: p_def)
  show rb: "end_of (minheap h) us \<le> r" "8 \<le> l" "r mod 8 = 0" "l mod 8 = 0" "r + l \<le> maxheap h"
    "blocks_ok (r + l + 1) (maxheap h) vs" using s(6) by simp_all
  show top: "maxheap h < 4294967296" using ar by (simp add: arena_ok_def)
  show ge: "minheap h \<le> r" using rb(1) blocks_end_ge[OF s(5)] by simp
  then show lo: "memlist h < r" using ar by (simp add: arena_ok_def)
  show "node h (fst b) \<and> fst b \<noteq> memlist h \<and> p \<noteq> fst b \<and> r + l < fst b" if "b \<in> set vs" for b
    using s(10)[of b] that blocks_in(1)[OF rb(6) that] rb(2) lo nr(2) by auto
qed

text \<open>The three ways in which a block is used: all of it, its low end, its high end.\<close>

lemma unlink_block:
  assumes wf: "heap_wf h (us @ (r, l) # vs)"
  shows "heap_wf (sub_total n (set_mnext (prev_of (memlist h) us) (mnext h r) h)) (us @ vs)"
proof (rule splice[OF wf])
  let ?p = "prev_of (memlist h) us"
  let ?h = "sub_total n (set_mnext ?p (mnext h r) h)"
  note b = heap_block[OF wf]
  show "mnext ?h x = mnext h x" if "node h x" "x < ?p" for x
    using that b(1,2) by (simp add: heap_words)
  show "mlength ?h x = mlength h x" if "node h x" "x \<noteq> memlist h" "x \<le> ?p" for x
    using that b(1,2) by (simp add: heap_words)
  have "chain ?h ?p vs = chain h r vs"
  proof (rule chain_cong)
    show "mnext ?h ?p = mnext h r" using b(1,2) by (simp add: heap_words)
    show "mnext ?h (fst v) = mnext h (fst v) \<and> mlength ?h (fst v) = mlength h (fst v)" if "v \<in> set vs" for v
      using b(1,2) b(18)[OF that] by (auto simp: heap_words)
  qed
  then show "chain ?h ?p vs" using b(5) by simp
  show "blocks_ok (end_of (minheap h) us) (maxheap h) vs" using b(11,12,16) blocks_mono by fastforce
qed simp_all

lemma take_low:
  assumes wf: "heap_wf h (us @ (r, l) # vs)" and n: "8 \<le> n" "n mod 8 = 0" "n < l"
  defines "q \<equiv> r + n"
  shows "heap_wf (sub_total n (set_mlength q (l - n) (set_mnext q (mnext h r) (set_mnext (prev_of (memlist h) us) q h))))
    (us @ (q, l - n) # vs)"
proof (rule splice[OF wf])
  let ?p = "prev_of (memlist h) us"
  let ?h = "sub_total n (set_mlength q (l - n) (set_mnext q (mnext h r) (set_mnext ?p q h)))"
  note b = heap_block[OF wf]
  have q8: "q mod 8 = 0" unfolding q_def by (rule mult8_add[OF b(13) n(2)])
  have q: "q \<noteq> memlist h" "?p < q" "?p \<noteq> q" "minheap h \<le> q"
    using b(7,9,10) n(1) unfolding q_def by linarith+
  have qn: "node h q" using q(4) q8 by (simp add: node_def)
  have mq: "mnext ?h x = (if x = q then mnext h r else if x = ?p then q else mnext h x)" if "node h x" for x
    using that b(1,2) qn by (simp add: heap_words)
  have lq: "mlength ?h x = (if x = q then l - n else mlength h x)" if "node h x" "x \<noteq> memlist h" for x
    using that b(1,2) qn by (simp add: heap_words)
  show "mnext ?h x = mnext h x" if "node h x" "x < ?p" for x
    using that mq[OF that(1)] q(2) by simp
  show "mlength ?h x = mlength h x" if "node h x" "x \<noteq> memlist h" "x \<le> ?p" for x
    using that lq[OF that(1,2)] q(2) by simp
  have "chain ?h q vs = chain h r vs"
  proof (rule chain_cong)
    show "mnext ?h q = mnext h r" using mq[OF qn] by simp
    show "mnext ?h (fst v) = mnext h (fst v) \<and> mlength ?h (fst v) = mlength h (fst v)" if "v \<in> set vs" for v
      using mq[of "fst v"] lq[of "fst v"] b(18)[OF that] n(3) by (auto simp: q_def)
  qed
  then show "chain ?h ?p ((q, l - n) # vs)"
    using b(5) mq[OF b(2)] lq[OF qn q(1)] q(3) by simp
  show "blocks_ok (end_of (minheap h) us) (maxheap h) ((q, l - n) # vs)"
    using b(11,15,16) n q8 mult8_gap[OF n(2) b(14) n(3)] mult8_diff[OF b(14) n(2)] by (simp add: q_def)
qed simp_all

lemma take_high:
  assumes wf: "heap_wf h (us @ (r, l) # vs)" and n: "8 \<le> n" "n mod 8 = 0" "n < l"
  shows "heap_wf (sub_total n (set_mlength r (l - n) h)) (us @ (r, l - n) # vs)"
proof (rule splice[OF wf])
  let ?p = "prev_of (memlist h) us" and ?h = "sub_total n (set_mlength r (l - n) h)"
  note b = heap_block[OF wf]
  have mq: "mnext ?h x = mnext h x" if "node h x" for x
    using that b(1,6) by (simp add: heap_words)
  have lq: "mlength ?h x = (if x = r then l - n else mlength h x)" if "node h x" "x \<noteq> memlist h" for x
    using that by (simp add: heap_words)
  show "mnext ?h x = mnext h x" if "node h x" "x < ?p" for x
    using mq[OF that(1)] .
  show "mlength ?h x = mlength h x" if "node h x" "x \<noteq> memlist h" "x \<le> ?p" for x
    using that lq[OF that(1,2)] b(7) by simp
  have "chain ?h r vs = chain h r vs"
  proof (rule chain_cong)
    show "mnext ?h r = mnext h r" using mq[OF b(6)] .
    show "mnext ?h (fst v) = mnext h (fst v) \<and> mlength ?h (fst v) = mlength h (fst v)" if "v \<in> set vs" for v
      using mq[of "fst v"] lq[of "fst v"] b(18)[OF that] b(12) by auto
  qed
  then show "chain ?h ?p ((r, l - n) # vs)"
    using b(3,5,9) mq[OF b(2)] lq[OF b(6)] by simp
  have "blocks_ok (r + (l - n) + 1) (maxheap h) vs" using blocks_mono[OF b(16)] n by simp
  then show "blocks_ok (end_of (minheap h) us) (maxheap h) ((r, l - n) # vs)"
    using b(11,13,15) n mult8_gap[OF n(2) b(14) n(3)] mult8_diff[OF b(14) n(2)] by simp
qed simp_all

text \<open>The refinement: on the list of blocks getmem is carve.\<close>

lemma getmem_refines:
  assumes wf: "heap_wf h bs" and n: "0 < n" "n \<le> 4294967288"
  shows "carve (roundmb n) bs = None \<Longrightarrow> getmem n h = Some (u32 SYSERR, h)"
    and "carve (roundmb n) bs = Some (r, cs) \<Longrightarrow> \<exists>h'. getmem n h = Some (r, h') \<and> heap_wf h' cs \<and>
      minheap h' = minheap h \<and> maxheap h' = maxheap h \<and> memlist h' = memlist h"
proof -
  let ?n = "roundmb n" and ?M = "memlist h"
  note rn = roundmb_spec[OF n]
  have gm: "getmem n h = c_loop (getmem_iter ?n h) (?M, mnext h ?M)"
    using n by (simp add: getmem_def Let_def)
  show "getmem n h = Some (u32 SYSERR, h)" if c: "carve ?n bs = None"
  proof -
    have wf': "heap_wf h (bs @ [])" using wf by simp
    note s = heap_split[OF wf']
    have "\<forall>b\<in>set bs. snd b < ?n \<and> fst b \<noteq> NULL"
      using c s(9) by (fastforce simp: carve_None NULL_def)
    note sk = getmem_skip[OF s(2) this]
    have "mnext h (prev_of ?M bs) = NULL" using s(3) by simp
    then have "getmem_iter ?n h (prev_of ?M bs, mnext h (prev_of ?M bs)) = Some (Inr (u32 SYSERR, h))"
      by (simp add: getmem_iter_def)
    then show ?thesis using gm sk by (simp add: c_loop_Inr)
  qed
  assume "carve ?n bs = Some (r, cs)"
  then obtain us l vs where bs: "bs = us @ (r, l) # vs" "\<forall>b\<in>set us. snd b < ?n" "?n \<le> l"
    "cs = us @ (if l = ?n then vs else (r + ?n, l - ?n) # vs)"
    using carve_Some by blast
  have wf': "heap_wf h (us @ (r, l) # vs)" using wf bs(1) by simp
  let ?p = "prev_of ?M us" and ?q = "r + ?n"
  note b = heap_block[OF wf']
  have "\<forall>b\<in>set us. snd b < ?n \<and> fst b \<noteq> NULL"
    using bs(2) heap_split(9)[OF wf'] by (fastforce simp: NULL_def)
  note sk = getmem_skip[OF heap_split(2)[OF wf'] this]
  show "\<exists>h'. getmem n h = Some (r, h') \<and> heap_wf h' cs \<and>
      minheap h' = minheap h \<and> maxheap h' = maxheap h \<and> memlist h' = memlist h"
  proof (cases "l = ?n")
    case True
    let ?h = "sub_total ?n (set_mnext ?p (mnext h r) h)"
    have "getmem_iter ?n h (?p, r) = Some (Inr (r, ?h))"
      using b(4,8) True by (simp add: getmem_iter_def NULL_def Let_def)
    then have "getmem n h = Some (r, ?h)" using gm sk b(3) by (simp add: c_loop_Inr)
    then show ?thesis using unlink_block[OF wf', of ?n] True bs(4) by auto
  next
    case False
    then have lt: "?n < l" using bs(3) by simp
    have u: "u32 ?q = ?q" "u32 (l - ?n) = l - ?n"
      using lt b(8,15,17) rn(4) by (auto intro!: u32_id)
    let ?h1 = "set_mnext ?p ?q h"
    let ?h2 = "set_mnext ?q (mnext ?h1 r) ?h1"
    let ?h = "sub_total ?n (set_mlength ?q (l - ?n) (set_mnext ?q (mnext h r) ?h1))"
    have "node h ?q" using mult8_add[OF b(13) rn(1)] b(10) rn(4) by (simp add: node_def)
    then have ml: "mlength ?h1 r = l" "mlength ?h2 r = l" "mnext ?h1 r = mnext h r"
      using b(1,2,4,6) b(7)[THEN less_imp_neq] by (simp_all add: heap_words)
    then have "getmem_iter ?n h (?p, r) = Some (Inr (r, ?h))"
      using b(4,8) lt u by (simp add: getmem_iter_def NULL_def Let_def)
    then have "getmem n h = Some (r, ?h)" using gm sk b(3) by (simp add: c_loop_Inr)
    then show ?thesis using take_low[OF wf' rn(4,1) lt] False bs(4) by auto
  qed
qed

text \<open>Rounding up wraps to zero for requests above 0xFFFFFFF8: the first free block is returned and
  nothing is taken off the list.\<close>

lemma getmem_huge:
  assumes wf: "heap_wf h ((a, l) # bs)" and n: "4294967288 < n" "n < 4294967296"
  shows "\<exists>h'. getmem n h = Some (a, h') \<and> heap_wf h' ((a, l) # bs)"
proof -
  have "u32 (7 + n) = (7 + n - 4294967296) mod 4294967296" by (simp only: u32_def minus_mod_self2)
  also have "\<dots> = 7 + n - 4294967296" using n by (intro mod_pos_pos_trivial) simp_all
  finally have rz: "roundmb n = 0" using n by (simp add: roundmb_def)
  let ?M = "memlist h"
  have wf': "heap_wf h ([] @ (a, l) # bs)" using wf by simp
  note b = heap_block[OF wf', simplified]
  let ?h = "sub_total 0 (set_mlength a l (set_mnext a (mnext h a) (set_mnext ?M a h)))"
  have eq: "mem ?h x = mem h x" if "x \<noteq> ?M + 4" for x
    using that b(3,4) by (simp add: sub_total_def set_mnext_def set_mlength_def mnext_def mlength_def)
  have ml: "mlength (set_mnext ?M a h) a = l" "mnext (set_mnext ?M a h) a = mnext h a"
    "mlength (set_mnext a (mnext h a) (set_mnext ?M a h)) a = l"
    using b(1,2,4,6,9) by (simp_all add: heap_words)
  have "u32 a = a" "u32 l = l" using b(8,12,15,17) by (auto intro!: u32_id)
  then have "getmem_iter 0 h (?M, a) = Some (Inr (a, ?h))"
    using b(4,8,12) ml by (simp add: getmem_iter_def NULL_def Let_def)
  then have g: "getmem n h = Some (a, ?h)"
    using n rz b(3) by (simp add: getmem_def Let_def c_loop_Inr)
  have "chain ?h ?M ((a, l) # bs) = chain h ?M ((a, l) # bs)"
  proof (rule chain_cong)
    have "?M \<noteq> ?M + 4" by simp
    then show "mnext ?h ?M = mnext h ?M" using eq unfolding mnext_def by blast
    fix v assume v: "v \<in> set ((a, l) # bs)"
    have "node h (fst v)" "fst v \<noteq> ?M" using b(6,9) b(18)[of v] v by auto
    then show "mnext ?h (fst v) = mnext h (fst v) \<and> mlength ?h (fst v) = mlength h (fst v)"
      using eq[of "fst v"] eq[of "fst v + 4"] node_sep[OF b(1), of "fst v" ?M] by (simp add: mnext_def mlength_def)
  qed
  then have "heap_wf ?h ((a, l) # bs)" using wf by (simp add: heap_wf_def)
  then show ?thesis using g by blast
qed

end
