(* ===== verification/Processes.thy ===== *)
theory Processes
  imports Messages Heap
begin

text \<open>
  Creation and removal of processes (system/create.c, kill.c, exit.c, userret.c, close.c) and the
  start of the system (sysinit and nulluser of system/initialize.c, bufinit.c, clkinit.c, for the
  QEMU platform). The close operation of a device driver is a parameter, dvclose. kill is split
  at its call of send: if the message wakes the parent, the rest of kill runs when the killer is
  next scheduled.
\<close>

section \<open>Creation\<close>

definition newpid_iter :: "int \<times> kst \<Rightarrow> (int \<times> kst + int \<times> kst) option" where
  "newpid_iter = (\<lambda>(i, s).
     if i < NPROC then
       (let s = s\<lparr>nextpid := nextpid s mod NPROC\<rparr> in
        do {
          e \<leftarrow> proc_at s (nextpid s);
          if prstate e = PR_FREE
          then Some (Inr (nextpid s, s\<lparr>nextpid := nextpid s + 1\<rparr>))
          else Some (Inl (i + 1, s\<lparr>nextpid := nextpid s + 1\<rparr>)) })
     else Some (Inr (SYSERR, s)))"

definition newpid :: "kst \<Rightarrow> (int \<times> kst) option" where
  "newpid s = c_loop newpid_iter (0, s)"

definition MINSTK :: int where "MINSTK = 400"
definition PNMLEN :: nat where "PNMLEN = 16"
definition STACKMAGIC :: int where "STACKMAGIC = 168471209"
definition SERIAL0 :: int where "SERIAL0 = 11"
definition CPSR_INIT :: int where "CPSR_INIT = 351"

definition roundew :: "int \<Rightarrow> int" where
  "roundew x = u32 (x + 3) - u32 (x + 3) mod 4"

definition push :: "int \<Rightarrow> int \<times> hst \<Rightarrow> int \<times> hst" where
  "push v = (\<lambda>(sp, h). let sp = u32 (sp - 4) in (sp, h\<lparr>mem := (mem h)(sp := v)\<rparr>))"

text \<open>The initial stack of a process: the arguments after the fourth, the procedure, eight zeros,
  the first four arguments (zero where there are fewer), the return address and the status word.
  INITRET stands for the address of userret.\<close>

definition arg_word :: "int list \<Rightarrow> nat \<Rightarrow> int" where
  "arg_word args i = (if i < length args then args ! i else 0)"

definition init_stack :: "int \<Rightarrow> int \<Rightarrow> int list \<Rightarrow> int \<times> hst \<Rightarrow> int \<times> hst" where
  "init_stack INITRET procaddr args sh =
     (let sh = fold push (rev (drop 4 args)) sh;
          sh = push procaddr sh;
          sh = fold push (replicate 8 0) sh;
          sh = fold push (map (arg_word args) [3, 2, 1, 0]) sh;
          sh = push INITRET sh
      in push CPSR_INIT sh)"

definition create :: "int \<Rightarrow> int \<Rightarrow> int \<Rightarrow> int \<Rightarrow> string \<Rightarrow> int list \<Rightarrow> kst \<Rightarrow> (int \<times> kst) option" where
  "create INITRET procaddr ssize priority name args s =
     (let ssize = (if ssize < MINSTK then MINSTK else ssize);
          ssize = roundew ssize
      in do {
        (saddr, h) \<leftarrow> getstk ssize (heap s);
        let s = s\<lparr>heap := h\<rparr>;
        if saddr = u32 SYSERR then Some (SYSERR, s)
        else do {
          (pid, s) \<leftarrow> newpid s;
          if pid = SYSERR \<or> priority < 1 then Some (SYSERR, s)
          else
            (let s = s\<lparr>prcount := i32 (prcount s + 1)\<rparr>;
                 s = upd_proc pid (\<lambda>e. e\<lparr>prstate := PR_SUSP, prprio := priority, prstkbase := saddr,
                       prstklen := ssize, prname := take (PNMLEN - 1) name, prsem := -1,
                       prparent := getpid s, prhasmsg := False,
                       prdesc := (prdesc e)(0 := SERIAL0, 1 := SERIAL0, 2 := SERIAL0)\<rparr>) s;
                 h = (heap s)\<lparr>mem := (mem (heap s))(saddr := STACKMAGIC)\<rparr>;
                 (sp, h) = init_stack INITRET procaddr args (saddr, h);
                 s = upd_proc pid (\<lambda>e. e\<lparr>prstkptr := sp\<rparr>) (s\<lparr>heap := h\<rparr>)
             in Some (pid, s)) } })"

section \<open>Removal\<close>

definition NDEVS :: int where "NDEVS = 13"

definition isbaddev :: "int \<Rightarrow> bool" where
  "isbaddev f \<longleftrightarrow> f < 0 \<or> f \<ge> NDEVS"

definition close :: "(int \<Rightarrow> kst \<Rightarrow> (int \<times> kst) option) \<Rightarrow> int \<Rightarrow> kst \<Rightarrow> (int \<times> kst) option" where
  "close dvclose descrp s =
     (if isbaddev descrp then Some (SYSERR, s) else dvclose descrp s)"

text \<open>What follows a resched, when the caller goes on at once.\<close>

definition kill_free :: "int \<Rightarrow> kst \<Rightarrow> (outcome \<times> kst) option" where
  "kill_free pid s = Some (Ret OK, set_state pid PR_FREE s)"

definition kill_sleeper :: "int \<Rightarrow> kst \<Rightarrow> (outcome \<times> kst) option" where
  "kill_sleeper pid s = do { (_, s) \<leftarrow> unsleep pid s; kill_free pid s }"

definition kill_queued :: "int \<Rightarrow> kst \<Rightarrow> (outcome \<times> kst) option" where
  "kill_queued pid s = do { (_, s) \<leftarrow> getitem pid s; kill_free pid s }"

text \<open>The part of kill after the message to the parent.\<close>

definition kill_rest :: "(int \<Rightarrow> kst \<Rightarrow> (int \<times> kst) option) \<Rightarrow> int \<Rightarrow> kst \<Rightarrow> (outcome \<times> kst) option" where
  "kill_rest dvclose pid s = do {
     (_, s) \<leftarrow> close dvclose (prdesc (proctab s pid) 0) s;
     (_, s) \<leftarrow> close dvclose (prdesc (proctab s pid) 1) s;
     (_, s) \<leftarrow> close dvclose (prdesc (proctab s pid) 2) s;
     (_, h) \<leftarrow> freestk (prstkbase (proctab s pid)) (prstklen (proctab s pid)) (heap s);
     let s = s\<lparr>heap := h\<rparr>;
     (case prstate (proctab s pid) of
        PR_CURR \<Rightarrow> do {
          t \<leftarrow> resched (set_state pid PR_FREE s);
          if currpid t = currpid s then kill_sleeper pid t else Some (Blocked, t) }
      | PR_SLEEP \<Rightarrow> kill_sleeper pid s
      | PR_RECTIM \<Rightarrow> kill_sleeper pid s
      | PR_WAIT \<Rightarrow>
          (if isbadsem (prsem (proctab s pid)) then None
           else kill_queued pid (sem_inc (prsem (proctab s pid)) s))
      | PR_READY \<Rightarrow> kill_queued pid s
      | _ \<Rightarrow> kill_free pid s) }"

definition kill :: "(int \<Rightarrow> kst \<Rightarrow> (int \<times> kst) option) \<Rightarrow> int \<Rightarrow> kst \<Rightarrow> (outcome \<times> kst) option" where
  "kill dvclose pid s =
     (if isbadpid s pid \<or> pid = NULLPROC \<or> prstate (proctab s pid) = PR_FREE
      then Some (Ret SYSERR, s)
      else
        (let s = s\<lparr>prcount := i32 (prcount s - 1)\<rparr> in
         if prcount s \<le> 1 then Some (Blocked, s\<lparr>halted := True\<rparr>)
         else do {
           (_, t) \<leftarrow> send (prparent (proctab s pid)) pid s;
           if currpid t = currpid s then kill_rest dvclose pid t
           else Some (Blocked, t) }))"

definition userret :: "(int \<Rightarrow> kst \<Rightarrow> (int \<times> kst) option) \<Rightarrow> kst \<Rightarrow> (outcome \<times> kst) option" where
  "userret dvclose s = kill dvclose (getpid s) s"

definition exit :: "(int \<Rightarrow> kst \<Rightarrow> (int \<times> kst) option) \<Rightarrow> kst \<Rightarrow> (outcome \<times> kst) option" where
  "exit dvclose s = kill dvclose (getpid s) s"

section \<open>The start of the system\<close>

definition NULLSTK :: int where "NULLSTK = 8192"
definition INITSTK :: int where "INITSTK = 65536"
definition INITPRIO :: int where "INITPRIO = 20"

definition bufinit :: "kst \<Rightarrow> int \<times> kst" where
  "bufinit s = (OK, s\<lparr>nbpools := 0\<rparr>)"

text \<open>The part of clkinit that sets kernel variables; the timer hardware is not modelled.\<close>

definition clkinit :: "kst \<Rightarrow> kst option" where
  "clkinit s = do {
     (q, s) \<leftarrow> newqueue s;
     Some (s\<lparr>sleepq := q, preempt := QUANTUM, clktime := 0\<rparr>) }"

definition free_procs :: "(int \<Rightarrow> procent) \<Rightarrow> (int \<Rightarrow> procent)" where
  "free_procs pt = (\<lambda>i. if 0 \<le> i \<and> i < NPROC
     then (pt i)\<lparr>prstate := PR_FREE, prname := [], prstkbase := NULL, prprio := 0\<rparr> else pt i)"

definition init_sem :: "int \<times> kst \<Rightarrow> (int \<times> kst) option" where
  "init_sem = (\<lambda>(i, s). do {
     let s = upd_sem i (\<lambda>e. e\<lparr>sstate := S_FREE, scount := 0\<rparr>) s;
     (q, s) \<leftarrow> newqueue s;
     Some (i + 1, upd_sem i (\<lambda>e. e\<lparr>squeue := q\<rparr>) s) })"

definition sysinit :: "int \<Rightarrow> int \<Rightarrow> kst \<Rightarrow> kst option" where
  "sysinit end_addr max_addr s = do {
     let s = s\<lparr>heap := meminit end_addr max_addr (heap s)\<rparr>;
     let s = s\<lparr>prcount := 1, Defer := (Defer s)\<lparr>ndefers := 0\<rparr>, proctab := free_procs (proctab s)\<rparr>;
     let s = upd_proc NULLPROC (\<lambda>e. e\<lparr>prstate := PR_CURR, prprio := 0, prname := ''prnull''\<rparr>) s;
     (stk, h) \<leftarrow> getstk NULLSTK (heap s);
     let s = upd_proc NULLPROC (\<lambda>e. e\<lparr>prstkbase := stk, prstklen := NULLSTK, prstkptr := 0\<rparr>) (s\<lparr>heap := h\<rparr>);
     let s = s\<lparr>currpid := NULLPROC\<rparr>;
     (_, s) \<leftarrow> c_while (\<lambda>(i, s). i < NSEM) init_sem (0, s);
     let s = snd (bufinit s);
     (q, s) \<leftarrow> newqueue s;
     clkinit (s\<lparr>readylist := q\<rparr>) }"

text \<open>The null process creates and resumes the main process, then loops.\<close>

definition nulluser :: "int \<Rightarrow> int \<Rightarrow> int \<Rightarrow> int \<Rightarrow> kst \<Rightarrow> kst option" where
  "nulluser INITRET main end_addr max_addr s = do {
     s \<leftarrow> sysinit end_addr max_addr s;
     (pid, s) \<leftarrow> create INITRET main INITSTK INITPRIO ''Main process'' [] s;
     (_, s) \<leftarrow> resume pid s;
     Some s }"

end
