(* ===== verification/Delta_Lists.thy ===== *)
theory Delta_Lists
  imports Queue_Lists
begin

text \<open>
  What the keys of the sleep queue mean. due gives each sleeping process the number of
  milliseconds it has left, the sum of the keys up to its own. Inserting with insertd.c gives the
  new process the delay asked for and changes no other one; removing with unsleep.c changes no
  other one; a clock tick takes one from all of them.
\<close>

fun due :: "(int \<Rightarrow> int) \<Rightarrow> int \<Rightarrow> int list \<Rightarrow> (int \<times> int) list" where
  "due kf a [] = []"
| "due kf a (x # xs) = (x, a + kf x) # due kf (a + kf x) xs"

definition delays_ok :: "(int \<Rightarrow> int) \<Rightarrow> int list \<Rightarrow> bool" where
  "delays_ok kf xs \<longleftrightarrow> (\<forall>x\<in>set xs. 0 \<le> kf x) \<and> sum_list (map kf xs) \<le> INT_MAX"

lemma due_append: "due kf a (xs @ ys) = due kf a xs @ due kf (a + sum_list (map kf xs)) ys"
  by (induction xs arbitrary: a) (simp_all add: add.assoc)

lemma due_cong: "(\<And>x. x \<in> set xs \<Longrightarrow> kf' x = kf x) \<Longrightarrow> due kf' a xs = due kf a xs"
  by (induction xs arbitrary: a) simp_all

lemma due_fst [simp]: "map fst (due kf a xs) = xs"
  by (induction xs arbitrary: a) simp_all

lemma due_fst_set: "(x, d) \<in> set (due kf a xs) \<Longrightarrow> x \<in> set xs"
  using due_fst[of kf a xs] by (metis image_eqI fst_conv set_map)

lemma due_shift: "due kf (a + b) xs = map (\<lambda>(x, d). (x, d + b)) (due kf a xs)"
  by (induction xs arbitrary: a) (simp_all add: algebra_simps, metis add.commute add.left_commute)

lemma sum_list_nonneg_keys: "(\<forall>x\<in>set xs. 0 \<le> kf x) \<Longrightarrow> 0 \<le> sum_list (map kf xs :: int list)"
  by (induction xs) auto

lemma due_ge:
  assumes "\<forall>x\<in>set xs. 0 \<le> kf x" "(x, d) \<in> set (due kf a xs)"
  shows "a \<le> d" "d \<le> a + sum_list (map kf xs)"
  using assms by (induction xs arbitrary: a) (fastforce dest: sum_list_nonneg_keys)+

lemma delays_ok_append:
  "delays_ok kf (xs @ ys) \<Longrightarrow> delays_ok kf xs"
  "delays_ok kf (xs @ ys) \<Longrightarrow> delays_ok kf ys"
  using sum_list_nonneg_keys[of xs kf] sum_list_nonneg_keys[of ys kf] by (auto simp: delays_ok_def)

lemma delays_ok_key:
  assumes "delays_ok kf xs" "x \<in> set xs"
  shows "0 \<le> kf x" "kf x \<le> INT_MAX"
proof -
  obtain us vs where xs: "xs = us @ x # vs" using split_list[OF assms(2)] by blast
  show "0 \<le> kf x" using assms by (simp add: delays_ok_def)
  show "kf x \<le> INT_MAX"
    using assms(1) sum_list_nonneg_keys[of us kf] sum_list_nonneg_keys[of vs kf] xs
    by (simp add: delays_ok_def)
qed

lemma delays_ok_cong:
  assumes "\<And>x. x \<in> set xs \<Longrightarrow> kf' x = kf x"
  shows "delays_ok kf' xs = delays_ok kf xs"
proof -
  have "map kf' xs = map kf xs" using assms by simp
  then have "sum_list (map kf' xs) = sum_list (map kf xs)" by (rule arg_cong)
  then show ?thesis using assms unfolding delays_ok_def by auto
qed

lemma delays_ok_dec:
  assumes "delays_ok kf (x # xs)" "distinct (x # xs)" "1 \<le> kf x"
  shows "delays_ok (kf(x := kf x - 1)) (x # xs)"
proof -
  have "map (kf(x := kf x - 1)) xs = map kf xs" using assms(2) by auto
  then have "sum_list (map (kf(x := kf x - 1)) xs) = sum_list (map kf xs)" by (rule arg_cong)
  moreover have "\<forall>y\<in>set xs. (kf(x := kf x - 1)) y = kf y" using assms(2) by auto
  ultimately show ?thesis using assms(1,3) unfolding delays_ok_def by simp
qed

section \<open>Insertion\<close>

text \<open>The walk of insertd.c, without wrap-around.\<close>

lemma delta_split_spec:
  assumes "delays_ok kf xs" "0 \<le> k" "k \<le> INT_MAX" "delta_split kf k xs = (us, vs, k')"
  shows "xs = us @ vs" "k' = k - sum_list (map kf us)" "0 \<le> k'" "k' \<le> INT_MAX"
    "vs \<noteq> [] \<longrightarrow> k' < kf (hd vs)"
proof -
  show "xs = us @ vs" using delta_split_append[OF assms(4)] .
  have "k' = k - sum_list (map kf us) \<and> 0 \<le> k' \<and> k' \<le> INT_MAX \<and> (vs \<noteq> [] \<longrightarrow> k' < kf (hd vs))"
    using assms
  proof (induction kf k xs arbitrary: us k' rule: delta_split.induct)
    case (1 kf k)
    then show ?case by simp
  next
    case (2 kf k x xs)
    have d: "delays_ok kf xs" "0 \<le> kf x"
      using delays_ok_append(2)[of kf "[x]" xs] 2(2) by (simp_all add: delays_ok_def)
    show ?case
    proof (cases "kf x \<le> k")
      case True
      have i: "i32 (k - kf x) = k - kf x" using True d(2) 2(3,4) by (simp add: i32_id)
      obtain us' where us': "delta_split kf (k - kf x) xs = (us', vs, k')" "us = x # us'"
        using 2(5) True i by (auto split: prod.splits)
      then show ?thesis using 2(1)[OF True d(1)] i True d(2) 2(4) by auto
    next
      case False
      then show ?thesis using 2(3-5) by auto
    qed
  qed
  then show "k' = k - sum_list (map kf us)" "0 \<le> k'" "k' \<le> INT_MAX" "vs \<noteq> [] \<longrightarrow> k' < kf (hd vs)"
    by blast+
qed

lemma insertd_due:
  assumes d: "delays_ok kf xs" and k: "0 \<le> k" "k \<le> INT_MAX" and dist: "distinct xs" "p \<notin> set xs"
    and sp: "delta_split kf k xs = (us, vs, k')"
  shows "due (insertd_keys kf k' p vs) 0 (us @ p # vs) =
      filter (\<lambda>(x, t). t \<le> k) (due kf 0 xs) @ (p, k) # filter (\<lambda>(x, t). k < t) (due kf 0 xs)"
    "delays_ok (insertd_keys kf k' p vs) (us @ p # vs)"
proof -
  let ?kf = "insertd_keys kf k' p vs" and ?S = "sum_list (map kf us)"
  note s = delta_split_spec[OF d k sp]
  have nn: "\<forall>x\<in>set us. 0 \<le> kf x" "\<forall>x\<in>set vs. 0 \<le> kf x" using d s(1) by (auto simp: delays_ok_def)
  have us: "?kf x = kf x" if "x \<in> set us" for x
    using that s(1) dist by (cases vs) (auto simp: insertd_keys_def)
  have "map ?kf us = map kf us" using us by simp
  then have sus: "sum_list (map ?kf us) = sum_list (map kf us)" by (rule arg_cong)
  have kp: "?kf p = k'" by (simp add: insertd_keys_def)
  have le: "t \<le> k" if "(x, t) \<in> set (due kf 0 us)" for x t
    using due_ge(2)[OF nn(1) that] s(2,3) by simp
  have du: "due kf 0 xs = due kf 0 us @ due kf ?S vs" using s(1) by (simp add: due_append)
  have f1: "filter (\<lambda>(x, t). t \<le> k) (due kf 0 us) = due kf 0 us"
    "filter (\<lambda>(x, t). k < t) (due kf 0 us) = []"
    using le by (auto simp: filter_id_conv) (fastforce simp: filter_empty_conv)
  have vs: "due ?kf k vs = due kf ?S vs \<and> (\<forall>(x, t)\<in>set (due kf ?S vs). k < t) \<and>
      sum_list (map ?kf vs) = sum_list (map kf vs) - (if vs = [] then 0 else k') \<and> (\<forall>x\<in>set vs. 0 \<le> ?kf x)"
  proof (cases vs)
    case (Cons v ws)
    have "kf v \<le> INT_MAX" using delays_ok_key(2)[OF d, of v] s(1) Cons by simp
    then have "i32 (kf v - k') = kf v - k'" using s(3-5) Cons by (simp add: i32_id)
    then have v: "?kf v = kf v - k'" using Cons dist(2) s(1) by (auto simp: insertd_keys_def)
    have ws: "?kf x = kf x" if "x \<in> set ws" for x
      using that Cons dist s(1) by (auto simp: insertd_keys_def)
    have "map ?kf ws = map kf ws" using ws by simp
    then have wm: "sum_list (map ?kf ws) = sum_list (map kf ws)" by (rule arg_cong)
    have "due ?kf (k + ?kf v) ws = due kf (?S + kf v) ws"
      using due_cong[of ws ?kf kf, OF ws] v s(2) by (simp add: add.commute)
    moreover have "k < t" if "(x, t) \<in> set (due kf (?S + kf v) ws)" for x t
      using due_ge(1)[OF _ that] nn(2) Cons s(2,5) by simp
    ultimately show ?thesis
      using Cons v s(2,5) wm nn(2) ws by auto
  qed simp
  have f2: "filter (\<lambda>(x, t). t \<le> k) (due kf ?S vs) = []"
    "filter (\<lambda>(x, t). k < t) (due kf ?S vs) = due kf ?S vs"
    using vs by (fastforce simp: filter_empty_conv filter_id_conv)+
  show "due ?kf 0 (us @ p # vs) =
      filter (\<lambda>(x, t). t \<le> k) (due kf 0 xs) @ (p, k) # filter (\<lambda>(x, t). k < t) (due kf 0 xs)"
    using vs s(2) kp sus due_cong[of us ?kf kf, OF us] by (simp add: due_append du f1 f2)
  show "delays_ok ?kf (us @ p # vs)"
    using vs nn(1) us kp s(1-4) d k sus by (auto simp: delays_ok_def)
qed

section \<open>Removal\<close>

definition unsleep_keys :: "(int \<Rightarrow> int) \<Rightarrow> int \<Rightarrow> int list \<Rightarrow> int \<Rightarrow> int" where
  "unsleep_keys kf p vs i = (if vs \<noteq> [] \<and> i = hd vs then i32 (kf i + kf p) else kf i)"

lemma unsleep_due:
  assumes d: "delays_ok kf (us @ p # vs)" and dist: "distinct (us @ p # vs)"
  shows "due (unsleep_keys kf p vs) 0 (us @ vs) = filter (\<lambda>(x, t). x \<noteq> p) (due kf 0 (us @ p # vs))"
    "delays_ok (unsleep_keys kf p vs) (us @ vs)"
proof -
  let ?kf = "unsleep_keys kf p vs" and ?S = "sum_list (map kf us)"
  have nn: "\<forall>x\<in>set us. 0 \<le> kf x" "\<forall>x\<in>set vs. 0 \<le> kf x" "0 \<le> kf p" using d by (auto simp: delays_ok_def)
  have us: "?kf x = kf x" if "x \<in> set us" for x
    using that dist by (cases vs) (auto simp: unsleep_keys_def)
  have "map ?kf us = map kf us" using us by simp
  then have sus: "sum_list (map ?kf us) = sum_list (map kf us)" by (rule arg_cong)
  have vs: "due ?kf ?S vs = due kf (?S + kf p) vs \<and>
      sum_list (map ?kf vs) = sum_list (map kf vs) + (if vs = [] then 0 else kf p) \<and> (\<forall>x\<in>set vs. 0 \<le> ?kf x)"
  proof (cases vs)
    case (Cons v ws)
    have "kf p + kf v \<le> INT_MAX"
      using delays_ok_append(2)[OF d] Cons sum_list_nonneg_keys[of ws kf] by (simp add: delays_ok_def)
    then have v: "?kf v = kf v + kf p" using Cons nn by (simp add: unsleep_keys_def i32_id)
    have ws: "?kf x = kf x" if "x \<in> set ws" for x
      using that Cons dist by (auto simp: unsleep_keys_def)
    have "map ?kf ws = map kf ws" using ws by simp
    then have wm: "sum_list (map ?kf ws) = sum_list (map kf ws)" by (rule arg_cong)
    have "due ?kf (?S + ?kf v) ws = due kf (?S + kf p + kf v) ws"
      using due_cong[of ws ?kf kf, OF ws] v by (simp add: algebra_simps)
    then show ?thesis using Cons v wm nn ws by auto
  qed simp
  have "x \<noteq> p" if "(x, t) \<in> set (due kf 0 us) \<union> set (due kf (?S + kf p) vs)" for x t
    using that due_fst_set[of x t kf] dist by auto
  then have f: "filter (\<lambda>(x, t). x \<noteq> p) (due kf 0 us) = due kf 0 us"
    "filter (\<lambda>(x, t). x \<noteq> p) (due kf (?S + kf p) vs) = due kf (?S + kf p) vs"
    by (auto simp: filter_id_conv)
  show "due ?kf 0 (us @ vs) = filter (\<lambda>(x, t). x \<noteq> p) (due kf 0 (us @ p # vs))"
    using vs due_cong[of us ?kf kf, OF us] by (simp add: due_append f sus)
  show "delays_ok ?kf (us @ vs)"
    using vs nn(1,3) us d sus by (auto simp: delays_ok_def)
qed

section \<open>The tick\<close>

lemma tick_due:
  assumes "distinct (x # xs)"
  shows "due (kf(x := kf x - 1)) 0 (x # xs) = map (\<lambda>(y, t). (y, t - 1)) (due kf 0 (x # xs))"
proof -
  have "due (kf(x := kf x - 1)) (kf x - 1) xs = due kf (kf x - 1) xs"
    using assms by (intro due_cong) auto
  also have "\<dots> = map (\<lambda>(y, t). (y, t + - 1)) (due kf (kf x) xs)"
    using due_shift[of kf "kf x" "- 1" xs] by simp
  finally show ?thesis by simp
qed

text \<open>The leading entries without a delay of their own are the ones that are due.\<close>

lemma due_now:
  assumes "\<forall>x\<in>set xs. 0 \<le> kf x"
  shows "filter (\<lambda>(x, t). t \<le> a) (due kf a xs) = due kf a (takeWhile (\<lambda>x. kf x \<le> 0) xs)"
    "filter (\<lambda>(x, t). a < t) (due kf a xs) = due kf a (dropWhile (\<lambda>x. kf x \<le> 0) xs)"
  using assms
proof (induction xs)
  case (Cons x xs)
  {
    case 1
    show ?case
    proof (cases "kf x \<le> 0")
      case True
      then have "kf x = 0" using 1 by force
      then show ?thesis using Cons.IH(1) 1 by simp
    next
      case False
      have "\<not> t \<le> a" if "(y, t) \<in> set (due kf (a + kf x) xs)" for y t
        using due_ge(1)[OF _ that] 1 False by simp
      then show ?thesis using False by (fastforce simp: filter_empty_conv)
    qed
  next
    case 2
    show ?case
    proof (cases "kf x \<le> 0")
      case True
      then have "kf x = 0" using 2 by force
      then show ?thesis using Cons.IH(2) 2 by simp
    next
      case False
      have "a < t" if "(y, t) \<in> set (due kf (a + kf x) xs)" for y t
        using due_ge(1)[OF _ that] 2 False by simp
      then show ?thesis using False by (fastforce simp: filter_id_conv)
    qed
  }
qed simp_all

lemma tick_due_split:
  assumes d: "delays_ok kf (x # xs)" and x: "1 \<le> kf x" and dist: "distinct (x # xs)"
  defines "kf' \<equiv> kf(x := kf x - 1)"
  shows "takeWhile (\<lambda>y. kf' y \<le> 0) (x # xs) = map fst (filter (\<lambda>(y, t). t \<le> 1) (due kf 0 (x # xs)))"
    "due kf' 0 (dropWhile (\<lambda>y. kf' y \<le> 0) (x # xs)) =
      map (\<lambda>(y, t). (y, t - 1)) (filter (\<lambda>(y, t). 1 < t) (due kf 0 (x # xs)))"
proof -
  have nn: "\<forall>y\<in>set (x # xs). 0 \<le> kf' y"
    using d x by (auto simp: delays_ok_def kf'_def)
  have td: "due kf' 0 (x # xs) = map (\<lambda>(y, t). (y, t - 1)) (due kf 0 (x # xs))"
    unfolding kf'_def by (rule tick_due[OF dist])
  have le: "filter (\<lambda>(y, t). t \<le> 0) (map (\<lambda>(y, t). (y, t - 1)) ds) =
      map (\<lambda>(y, t). (y, t - 1)) (filter (\<lambda>(y, t). t \<le> 1) (ds :: (int \<times> int) list))"
    "filter (\<lambda>(y, t). 0 < t) (map (\<lambda>(y, t). (y, t - 1)) ds) =
      map (\<lambda>(y, t). (y, t - 1)) (filter (\<lambda>(y, t). 1 < t) ds)" for ds
    by (induction ds) auto
  have fs: "map fst (map (\<lambda>(y, t). (y, t - 1)) ds) = map fst (ds :: (int \<times> int) list)" for ds
    by (induction ds) auto
  have "map fst (due kf' 0 (takeWhile (\<lambda>y. kf' y \<le> 0) (x # xs))) =
      map fst (filter (\<lambda>(y, t). t \<le> 1) (due kf 0 (x # xs)))"
    using due_now(1)[OF nn, of 0] unfolding td le(1) by (metis fs)
  then show "takeWhile (\<lambda>y. kf' y \<le> 0) (x # xs) = map fst (filter (\<lambda>(y, t). t \<le> 1) (due kf 0 (x # xs)))"
    by (simp only: due_fst)
  show "due kf' 0 (dropWhile (\<lambda>y. kf' y \<le> 0) (x # xs)) =
      map (\<lambda>(y, t). (y, t - 1)) (filter (\<lambda>(y, t). 1 < t) (due kf 0 (x # xs)))"
    using due_now(2)[OF nn, of 0] unfolding td le(2) by simp
qed

end
