(* ===== verification/Kernel_Inv.thy ===== *)
theory Kernel_Inv
  imports Messages Delta_Lists
begin

text \<open>
  The invariant of the kernel's process and queue tables. The ghost map L gives each queue's
  contents. kinv0 says that every process stands where its state says it stands; it holds also
  in the middle of a call, when the caller has left the state PR_CURR. kinv adds that the current
  process is PR_CURR. sems_ok relates counts and queues of the semaphores.
\<close>

section \<open>The invariant\<close>

definition semq :: "kst \<Rightarrow> int \<Rightarrow> int" where
  "semq s i = squeue (semtab s i)"

lemma semq_update [simp]:
  "semq (s\<lparr>queuetab := qt\<rparr>) = semq s" "semq (s\<lparr>proctab := pt\<rparr>) = semq s"
  "semq (s\<lparr>currpid := c\<rparr>) = semq s" "semq (s\<lparr>preempt := n\<rparr>) = semq s"
  "semq (s\<lparr>Defer := d\<rparr>) = semq s" "semq (s\<lparr>clkticks := n\<rparr>) = semq s"
  "semq (s\<lparr>clktime := n\<rparr>) = semq s" "semq (s\<lparr>nextsem := n\<rparr>) = semq s"
  "semq (set_state p st s) = semq s" "semq (upd_proc p f s) = semq s"
  by (simp_all add: semq_def fun_eq_iff)

definition tables_ok :: "kst \<Rightarrow> bool" where
  "tables_ok s \<longleftrightarrow>
     qid_ok (nextqid s) (readylist s) \<and> qid_ok (nextqid s) (sleepq s) \<and> readylist s \<noteq> sleepq s \<and>
     (\<forall>i. 0 \<le> i \<and> i < NSEM \<longrightarrow>
        qid_ok (nextqid s) (semq s i) \<and> semq s i \<noteq> readylist s \<and> semq s i \<noteq> sleepq s) \<and>
     (\<forall>i j. 0 \<le> i \<and> i < NSEM \<and> 0 \<le> j \<and> j < NSEM \<and> semq s i = semq s j \<longrightarrow> i = j)"

definition placed :: "kst \<Rightarrow> (int \<Rightarrow> int list) \<Rightarrow> int \<Rightarrow> procent \<Rightarrow> bool" where
  "placed s L p e \<longleftrightarrow>
     (prstate e = PR_READY \<longleftrightarrow> p \<in> set (L (readylist s))) \<and>
     (prstate e = PR_SLEEP \<or> prstate e = PR_RECTIM \<longleftrightarrow> p \<in> set (L (sleepq s))) \<and>
     (\<forall>i. 0 \<le> i \<and> i < NSEM \<longrightarrow>
        (p \<in> set (L (semq s i)) \<longleftrightarrow> prstate e = PR_WAIT \<and> prsem e = i)) \<and>
     (prstate e = PR_WAIT \<longrightarrow> 0 \<le> prsem e \<and> prsem e < NSEM)"

definition queues_used :: "kst \<Rightarrow> (int \<Rightarrow> int list) \<Rightarrow> bool" where
  "queues_used s L \<longleftrightarrow> (\<forall>q. qid_ok (nextqid s) q \<longrightarrow> L q \<noteq> [] \<longrightarrow>
     q = readylist s \<or> q = sleepq s \<or> (\<exists>i. 0 \<le> i \<and> i < NSEM \<and> q = semq s i))"

definition procs_ok :: "kst \<Rightarrow> bool" where
  "procs_ok s \<longleftrightarrow>
     (\<forall>p. 0 \<le> p \<and> p < NPROC \<longrightarrow> -32768 \<le> prprio (proctab s p) \<and> prprio (proctab s p) \<le> 32767) \<and>
     (prstate (proctab s NULLPROC) = PR_CURR \<or> prstate (proctab s NULLPROC) = PR_READY) \<and>
     0 \<le> currpid s \<and> currpid s < NPROC \<and>
     (\<forall>p. 0 \<le> p \<and> p < NPROC \<and> prstate (proctab s p) = PR_CURR \<longrightarrow> p = currpid s)"

definition kinv0 :: "kst \<Rightarrow> (int \<Rightarrow> int list) \<Rightarrow> bool" where
  "kinv0 s L \<longleftrightarrow>
     queues_wf (queuetab s) (nextqid s) L \<and> tables_ok s \<and> queues_used s L \<and>
     (\<forall>p. 0 \<le> p \<and> p < NPROC \<longrightarrow> placed s L p (proctab s p)) \<and>
     desc (keys s) (L (readylist s)) \<and> procs_ok s"

definition kinv :: "kst \<Rightarrow> (int \<Rightarrow> int list) \<Rightarrow> bool" where
  "kinv s L \<longleftrightarrow> kinv0 s L \<and> prstate (proctab s (currpid s)) = PR_CURR"

definition sem_ok :: "kst \<Rightarrow> (int \<Rightarrow> int list) \<Rightarrow> int \<Rightarrow> bool" where
  "sem_ok s L i \<longleftrightarrow>
     INT_MIN \<le> scount (semtab s i) \<and> scount (semtab s i) \<le> INT_MAX \<and>
     (if sstate (semtab s i) = S_USED then length (L (semq s i)) = nat (- scount (semtab s i))
      else L (semq s i) = [])"

definition sems_ok :: "kst \<Rightarrow> (int \<Rightarrow> int list) \<Rightarrow> bool" where
  "sems_ok s L \<longleftrightarrow> (\<forall>i. 0 \<le> i \<and> i < NSEM \<longrightarrow> sem_ok s L i)"

text \<open>Scheduling touches nothing but the queue links, the process states, the current process,
  the time slice and the deferral record; and it puts nobody to sleep and keeps the delays of
  those asleep.\<close>

definition asleep :: "kst \<Rightarrow> int \<Rightarrow> bool" where
  "asleep s p \<longleftrightarrow> prstate (proctab s p) = PR_SLEEP \<or> prstate (proctab s p) = PR_RECTIM"

definition sched_rest :: "kst \<Rightarrow> kst" where
  "sched_rest s = s\<lparr>queuetab := (\<lambda>_. \<lparr>qkey = 0, qnext = 0, qprev = 0\<rparr>),
     proctab := (\<lambda>p. (proctab s p)\<lparr>prstate := PR_FREE\<rparr>),
     currpid := 0, preempt := 0, Defer := \<lparr>ndefers = 0, attempt = False\<rparr>\<rparr>"

definition sched_eq :: "kst \<Rightarrow> kst \<Rightarrow> bool" where
  "sched_eq s t \<longleftrightarrow> sched_rest t = sched_rest s \<and>
     (\<forall>p. asleep t p \<longrightarrow> asleep s p \<and> keys t p = keys s p)"

lemma sched_eq_refl [simp]: "sched_eq s s"
  by (simp add: sched_eq_def)

lemma sched_eq_trans: "sched_eq s t \<Longrightarrow> sched_eq t u \<Longrightarrow> sched_eq s u"
  by (simp add: sched_eq_def)

lemma sched_eqD:
  assumes "sched_eq s t"
  shows "nextqid t = nextqid s" "nextpid t = nextpid s" "prcount t = prcount s"
    "readylist t = readylist s" "sleepq t = sleepq s" "semtab t = semtab s" "nextsem t = nextsem s"
    "clktime t = clktime s" "clkticks t = clkticks s" "heap t = heap s" "halted t = halted s"
    "buftab t = buftab s" "nbpools t = nbpools s" "porttab t = porttab s" "ptfree t = ptfree s"
    "ptnextid t = ptnextid s" "semq t = semq s"
    "(proctab t p)\<lparr>prstate := PR_FREE\<rparr> = (proctab s p)\<lparr>prstate := PR_FREE\<rparr>"
proof -
  have e: "sched_rest t = sched_rest s" using assms by (simp add: sched_eq_def)
  show "nextqid t = nextqid s" using arg_cong[OF e, of nextqid] by (simp add: sched_rest_def)
  show "nextpid t = nextpid s" using arg_cong[OF e, of nextpid] by (simp add: sched_rest_def)
  show "prcount t = prcount s" using arg_cong[OF e, of prcount] by (simp add: sched_rest_def)
  show "readylist t = readylist s" using arg_cong[OF e, of readylist] by (simp add: sched_rest_def)
  show "sleepq t = sleepq s" using arg_cong[OF e, of sleepq] by (simp add: sched_rest_def)
  show st: "semtab t = semtab s" using arg_cong[OF e, of semtab] by (simp add: sched_rest_def)
  show "nextsem t = nextsem s" using arg_cong[OF e, of nextsem] by (simp add: sched_rest_def)
  show "clktime t = clktime s" using arg_cong[OF e, of clktime] by (simp add: sched_rest_def)
  show "clkticks t = clkticks s" using arg_cong[OF e, of clkticks] by (simp add: sched_rest_def)
  show "heap t = heap s" using arg_cong[OF e, of heap] by (simp add: sched_rest_def)
  show "halted t = halted s" using arg_cong[OF e, of halted] by (simp add: sched_rest_def)
  show "buftab t = buftab s" using arg_cong[OF e, of buftab] by (simp add: sched_rest_def)
  show "nbpools t = nbpools s" using arg_cong[OF e, of nbpools] by (simp add: sched_rest_def)
  show "porttab t = porttab s" using arg_cong[OF e, of porttab] by (simp add: sched_rest_def)
  show "ptfree t = ptfree s" using arg_cong[OF e, of ptfree] by (simp add: sched_rest_def)
  show "ptnextid t = ptnextid s" using arg_cong[OF e, of ptnextid] by (simp add: sched_rest_def)
  show "semq t = semq s" using st by (simp add: semq_def fun_eq_iff)
  show "(proctab t p)\<lparr>prstate := PR_FREE\<rparr> = (proctab s p)\<lparr>prstate := PR_FREE\<rparr>"
    using arg_cong[OF e, of "\<lambda>s. proctab s p"] by (simp add: sched_rest_def)
qed

lemma sched_eq_proc:
  assumes "sched_eq s t"
  shows "prprio (proctab t p) = prprio (proctab s p)" "prmsg (proctab t p) = prmsg (proctab s p)"
    "prhasmsg (proctab t p) = prhasmsg (proctab s p)" "prsem (proctab t p) = prsem (proctab s p)"
    "prparent (proctab t p) = prparent (proctab s p)"
    "prstkbase (proctab t p) = prstkbase (proctab s p)" "prstklen (proctab t p) = prstklen (proctab s p)"
    "prdesc (proctab t p) = prdesc (proctab s p)"
proof -
  note e = sched_eqD(18)[OF assms, of p]
  show "prprio (proctab t p) = prprio (proctab s p)" using arg_cong[OF e, of prprio] by simp
  show "prmsg (proctab t p) = prmsg (proctab s p)" using arg_cong[OF e, of prmsg] by simp
  show "prhasmsg (proctab t p) = prhasmsg (proctab s p)" using arg_cong[OF e, of prhasmsg] by simp
  show "prsem (proctab t p) = prsem (proctab s p)" using arg_cong[OF e, of prsem] by simp
  show "prparent (proctab t p) = prparent (proctab s p)" using arg_cong[OF e, of prparent] by simp
  show "prstkbase (proctab t p) = prstkbase (proctab s p)" using arg_cong[OF e, of prstkbase] by simp
  show "prstklen (proctab t p) = prstklen (proctab s p)" using arg_cong[OF e, of prstklen] by simp
  show "prdesc (proctab t p) = prdesc (proctab s p)" using arg_cong[OF e, of prdesc] by simp
qed

lemma sched_eq_asleep: "sched_eq s t \<Longrightarrow> asleep t p \<Longrightarrow> asleep s p \<and> keys t p = keys s p"
  by (simp add: sched_eq_def)

lemma sched_eq_set_state [simp]:
  "st \<noteq> PR_SLEEP \<Longrightarrow> st \<noteq> PR_RECTIM \<Longrightarrow> sched_eq s (set_state p st s)"
  by (auto simp: sched_eq_def sched_rest_def asleep_def table_updates fun_eq_iff)

lemma sched_eq_fields [simp]:
  "sched_eq s (s\<lparr>currpid := c\<rparr>)" "sched_eq s (s\<lparr>preempt := n\<rparr>)" "sched_eq s (s\<lparr>Defer := d\<rparr>)"
  by (simp_all add: sched_eq_def sched_rest_def asleep_def)

lemma sched_eq_queuetab:
  "(\<And>p. asleep s p \<Longrightarrow> qkey (qt p) = keys s p) \<Longrightarrow> sched_eq s (s\<lparr>queuetab := qt\<rparr>)"
  by (simp add: sched_eq_def sched_rest_def asleep_def)

text \<open>The sleep queue between clock ticks.\<close>

definition sleep_ok :: "kst \<Rightarrow> (int \<Rightarrow> int list) \<Rightarrow> bool" where
  "sleep_ok s L \<longleftrightarrow> delays_ok (keys s) (L (sleepq s))"

lemma sleep_ok_frame [simp]:
  "sleep_ok (upd_sem i f s) L = sleep_ok s L" "sleep_ok (s\<lparr>Defer := d\<rparr>) L = sleep_ok s L"
  "sleep_ok (s\<lparr>nextsem := n\<rparr>) L = sleep_ok s L" "sleep_ok (upd_proc p g s) L = sleep_ok s L"
  by (simp_all add: sleep_ok_def table_updates)

section \<open>Moving one process\<close>

text \<open>The shape of every scheduling step: one process gets a new table entry, the queues change
  only by that process.\<close>

lemma kinv0_move:
  assumes k: "kinv0 s L" and p: "0 \<le> p" "p < NPROC"
    and wf: "queues_wf qt (nextqid s) L'"
    and L': "\<And>q. set (L' q) - {p} = set (L q) - {p}"
    and used: "\<And>q. qid_ok (nextqid s) q \<Longrightarrow> p \<in> set (L' q) \<Longrightarrow> q = readylist s \<or> q = sleepq s \<or>
      (\<exists>i. 0 \<le> i \<and> i < NSEM \<and> q = semq s i)"
    and pl: "placed s L' p e"
    and srt: "desc (\<lambda>x. qkey (qt x)) (L' (readylist s))"
    and ok: "procs_ok (s\<lparr>proctab := (proctab s)(p := e)\<rparr>)"
  shows "kinv0 (s\<lparr>queuetab := qt, proctab := (proctab s)(p := e)\<rparr>) L'"
proof -
  let ?t = "s\<lparr>queuetab := qt, proctab := (proctab s)(p := e)\<rparr>"
  have sq: "semq ?t = semq s" by (simp add: semq_def fun_eq_iff)
  have other: "x \<in> set (L' q) \<longleftrightarrow> x \<in> set (L q)" if "x \<noteq> p" for x q
    using L'[of q] that by blast
  have "placed ?t L' x (proctab ?t x)" if "0 \<le> x" "x < NPROC" for x
  proof (cases "x = p")
    case True
    then show ?thesis using pl by (simp add: placed_def sq)
  next
    case False
    have "placed s L x (proctab s x)" using k that by (simp add: kinv0_def)
    then show ?thesis using False other[OF False] by (simp add: placed_def sq)
  qed
  moreover have "queues_used ?t L'"
    unfolding queues_used_def
  proof (intro allI impI)
    fix q assume q: "qid_ok (nextqid ?t) q" "L' q \<noteq> []"
    then obtain x where x: "x \<in> set (L' q)" by (cases "L' q") auto
    show "q = readylist ?t \<or> q = sleepq ?t \<or> (\<exists>i. 0 \<le> i \<and> i < NSEM \<and> q = semq ?t i)"
    proof (cases "x = p")
      case True
      then show ?thesis using used[of q] q x by (simp add: sq)
    next
      case False
      then have "L q \<noteq> []" using x other by auto
      then show ?thesis using k q by (simp add: kinv0_def queues_used_def sq)
    qed
  qed
  moreover have "tables_ok ?t" using k by (simp add: kinv0_def tables_ok_def sq)
  moreover have "procs_ok ?t" using ok by (simp add: procs_ok_def)
  ultimately show ?thesis using wf srt by (simp add: kinv0_def)
qed

lemma kinv0_cong:
  assumes "kinv0 s L"
    and "queuetab t = queuetab s" "nextqid t = nextqid s" "readylist t = readylist s"
    "sleepq t = sleepq s" "semq t = semq s" "currpid t = currpid s"
    "\<And>p. prstate (proctab t p) = prstate (proctab s p)"
    "\<And>p. prprio (proctab t p) = prprio (proctab s p)"
    "\<And>p. prstate (proctab s p) = PR_WAIT \<Longrightarrow> prsem (proctab t p) = prsem (proctab s p)"
  shows "kinv0 t L"
proof -
  have "placed t L p (proctab t p) = placed s L p (proctab s p)" for p
    using assms by (auto simp: placed_def)
  then show ?thesis
    using assms by (simp add: kinv0_def tables_ok_def queues_used_def procs_ok_def)
qed

lemma kinv0D:
  assumes "kinv0 s L"
  shows "queues_wf (queuetab s) (nextqid s) L" "qid_ok (nextqid s) (readylist s)"
    "qid_ok (nextqid s) (sleepq s)" "readylist s \<noteq> sleepq s"
    "0 \<le> i \<Longrightarrow> i < NSEM \<Longrightarrow> qid_ok (nextqid s) (semq s i) \<and> semq s i \<noteq> readylist s \<and> semq s i \<noteq> sleepq s"
    "0 \<le> p \<Longrightarrow> p < NPROC \<Longrightarrow> placed s L p (proctab s p)"
    "desc (keys s) (L (readylist s))" "procs_ok s"
    "0 \<le> currpid s" "currpid s < NPROC"
    "0 \<le> i \<Longrightarrow> i < NSEM \<Longrightarrow> 0 \<le> j \<Longrightarrow> j < NSEM \<Longrightarrow> semq s i = semq s j \<Longrightarrow> i = j"
  using assms by (auto simp: kinv0_def tables_ok_def procs_ok_def)

lemma kinv0_prio: "kinv0 s L \<Longrightarrow> 0 \<le> p \<Longrightarrow> p < NPROC \<Longrightarrow> MINKEY < prprio (proctab s p)"
  by (force simp: kinv0_def procs_ok_def MINKEY_def)

lemma kinv0_off:
  assumes "kinv0 s L" "0 \<le> p" "p < NPROC"
    and "prstate (proctab s p) \<in> {PR_FREE, PR_CURR, PR_RECV, PR_SUSP}"
  shows "off_queues (nextqid s) L p"
  unfolding off_queues_def
proof (intro allI impI notI)
  fix q assume q: "qid_ok (nextqid s) q" "p \<in> set (L q)"
  have "L q \<noteq> []" using q(2) by auto
  moreover have "queues_used s L" using assms(1) by (simp add: kinv0_def)
  ultimately have "q = readylist s \<or> q = sleepq s \<or> (\<exists>i. 0 \<le> i \<and> i < NSEM \<and> q = semq s i)"
    using q(1) unfolding queues_used_def by blast
  moreover have pl: "placed s L p (proctab s p)" using kinv0D(6)[OF assms(1-3)] .
  have st: "prstate (proctab s p) \<notin> {PR_READY, PR_SLEEP, PR_RECTIM, PR_WAIT}"
    using assms(4) by (cases "prstate (proctab s p)") simp_all
  have "p \<notin> set (L (readylist s))" "p \<notin> set (L (sleepq s))"
    "\<And>i. 0 \<le> i \<Longrightarrow> i < NSEM \<Longrightarrow> p \<notin> set (L (semq s i))"
    using pl st by (simp_all add: placed_def)
  ultimately show False using q(2) by (elim disjE exE conjE) simp_all
qed

lemma kinv0_member:
  assumes "kinv0 s L" "qid_ok (nextqid s) q" "p \<in> set (L q)"
  shows "0 \<le> p" "p < NPROC" "prstate (proctab s p) \<noteq> PR_FREE" "\<not> isbadpid s p"
proof -
  show r: "0 \<le> p" "p < NPROC" using queues_wfD(6)[OF kinv0D(1)[OF assms(1)] assms(2)] assms(3) by auto
  show f: "prstate (proctab s p) \<noteq> PR_FREE"
    using kinv0_off[OF assms(1) r] assms(2,3) by (auto simp: off_queues_def)
  show "\<not> isbadpid s p" using r f by (simp add: isbadpid_def)
qed

lemma placed_off:
  assumes "off_queues (nextqid s) L p" "tables_ok s"
    and "prstate e \<notin> {PR_READY, PR_SLEEP, PR_RECTIM, PR_WAIT}"
  shows "placed s L p e"
  using assms by (auto simp: placed_def off_queues_def tables_ok_def)

lemma desc_cong: "(\<And>x. x \<in> set xs \<Longrightarrow> kf x = kf' x) \<Longrightarrow> desc kf xs = desc kf' xs"
  unfolding desc_def
  by (rule iffI; erule sorted_wrt_mono_rel[rotated]; simp)

lemma desc_tl: "desc kf (x # xs) \<Longrightarrow> desc kf xs"
  by (simp add: desc_def)

lemma asleep_iff:
  assumes "kinv0 s L" "0 \<le> p" "p < NPROC"
  shows "asleep s p \<longleftrightarrow> p \<in> set (L (sleepq s))"
  using kinv0D(6)[OF assms] by (simp add: placed_def asleep_def)

lemma asleep_member:
  assumes "kinv0 s L" "p \<in> set (L (sleepq s))"
  shows "asleep s p"
  using asleep_iff[OF assms(1)] kinv0_member(1,2)[OF assms(1) kinv0D(3)[OF assms(1)] assms(2)] assms(2)
  by blast

text \<open>Scheduling leaves the delays of those asleep.\<close>

lemma sched_eq_due:
  assumes "sched_eq s t" "kinv0 t L'" "L' (sleepq s) = L (sleepq s)"
  shows "due (keys t) 0 (L' (sleepq t)) = due (keys s) 0 (L (sleepq s))"
    "sleep_ok s L \<Longrightarrow> sleep_ok t L'"
proof -
  have sl: "sleepq t = sleepq s" using sched_eqD(5)[OF assms(1)] .
  have ks: "keys t x = keys s x" if "x \<in> set (L' (sleepq t))" for x
    using sched_eq_asleep[OF assms(1) asleep_member[OF assms(2) that]] by blast
  show "due (keys t) 0 (L' (sleepq t)) = due (keys s) 0 (L (sleepq s))"
    using due_cong[of "L' (sleepq t)" "keys t" "keys s", OF ks] assms(3) sl by simp
  have "map (keys t) (L' (sleepq t)) = map (keys s) (L (sleepq s))"
    using ks assms(3) sl by simp
  then show "sleep_ok s L \<Longrightarrow> sleep_ok t L'"
    unfolding sleep_ok_def delays_ok_def using ks assms(3) sl by metis
qed

text \<open>Into the ready list.\<close>

lemma insert_ready:
  assumes k: "kinv0 s L" and p: "\<not> isbadpid s p" "off_queues (nextqid s) L p"
  shows "\<exists>t. insert_q p (readylist s) (prprio (proctab s p)) (set_state p PR_READY s) = Some (OK, t) \<and>
    kinv0 t (L(readylist s := ins_desc (keys s) (prprio (proctab s p)) p (L (readylist s)))) \<and>
    sched_eq s t \<and> currpid t = currpid s \<and> Defer t = Defer s \<and>
    proctab t = (proctab s)(p := (proctab s p)\<lparr>prstate := PR_READY\<rparr>) \<and>
    (\<forall>i. keys t i = (if i = p then prprio (proctab s p) else keys s i))"
proof -
  let ?s1 = "set_state p PR_READY s" and ?r = "readylist s" and ?k = "prprio (proctab s p)"
  let ?L' = "L(?r := ins_desc (keys s) ?k p (L ?r))"
  have pr: "0 \<le> p" "p < NPROC" using isbadpid_range[OF p(1)] by auto
  have "\<not> isbadpid ?s1 p" using p(1) by (simp add: isbadpid_def)
  then obtain qt where qt: "insert_q p ?r ?k ?s1 = Some (OK, ?s1\<lparr>queuetab := qt\<rparr>)"
    "queues_wf qt (nextqid s) ?L'" "\<And>i. qkey (qt i) = (if i = p then ?k else keys s i)"
    using insert_q_wf[of ?s1 L ?r p ?k] kinv0D(1,2)[OF k] p(2) kinv0_prio[OF k pr] by auto
  have np: "p \<notin> set (L q)" if "qid_ok (nextqid s) q" for q
    using p(2) that by (simp add: off_queues_def)
  have "kinv0 (s\<lparr>queuetab := qt, proctab := (proctab s)(p := (proctab s p)\<lparr>prstate := PR_READY\<rparr>)\<rparr>) ?L'"
  proof (rule kinv0_move[OF k pr qt(2)])
    show "set (?L' q) - {p} = set (L q) - {p}" for q by (simp add: ins_desc_set)
    show "q = ?r \<or> q = sleepq s \<or> (\<exists>i. 0 \<le> i \<and> i < NSEM \<and> q = semq s i)"
      if "qid_ok (nextqid s) q" "p \<in> set (?L' q)" for q
      using that np[OF that(1)] by (auto split: if_splits)
    show "placed s ?L' p ((proctab s p)\<lparr>prstate := PR_READY\<rparr>)"
      using np kinv0D(3-5)[OF k] by (simp add: placed_def ins_desc_set)
    have "desc (\<lambda>x. qkey (qt x)) (L ?r)"
      using kinv0D(7)[OF k] np[OF kinv0D(2)[OF k]] desc_cong[of "L ?r" "\<lambda>x. qkey (qt x)" "keys s"]
      by (metis qt(3))
    moreover have "ins_desc (\<lambda>x. qkey (qt x)) ?k p (L ?r) = ins_desc (keys s) ?k p (L ?r)"
      using np[OF kinv0D(2)[OF k]] by (intro ins_desc_cong) (metis qt(3))
    ultimately show "desc (\<lambda>x. qkey (qt x)) (?L' ?r)"
      using ins_desc_sorted[of "\<lambda>x. qkey (qt x)" "L ?r" p ?k] qt(3) by simp
    show "procs_ok (s\<lparr>proctab := (proctab s)(p := (proctab s p)\<lparr>prstate := PR_READY\<rparr>)\<rparr>)"
      using kinv0D(8)[OF k] by (auto simp: procs_ok_def)
  qed
  moreover have "?s1\<lparr>queuetab := qt\<rparr> =
      s\<lparr>queuetab := qt, proctab := (proctab s)(p := (proctab s p)\<lparr>prstate := PR_READY\<rparr>)\<rparr>"
    by (simp add: table_updates)
  moreover have "sched_eq s (?s1\<lparr>queuetab := qt\<rparr>)"
    using qt(3) by (intro sched_eq_trans[OF sched_eq_set_state sched_eq_queuetab])
      (auto simp: asleep_def split: if_splits)
  ultimately show ?thesis using qt(1,3) by (intro exI[of _ "?s1\<lparr>queuetab := qt\<rparr>"]) auto
qed

text \<open>Out of the ready list, onto the processor.\<close>

lemma dispatch_ok:
  assumes k: "kinv0 s L" and L: "L (readylist s) = p # ps"
    and nc: "\<And>x. 0 \<le> x \<Longrightarrow> x < NPROC \<Longrightarrow> prstate (proctab s x) \<noteq> PR_CURR"
  shows "\<exists>t. dispatch s = Some t \<and> kinv t (L(readylist s := ps)) \<and> sched_eq s t \<and> currpid t = p \<and>
    preempt t = QUANTUM \<and> Defer t = Defer s \<and>
    proctab t = (proctab s)(p := (proctab s p)\<lparr>prstate := PR_CURR\<rparr>) \<and> keys t = keys s"
proof -
  let ?r = "readylist s"
  let ?e = "(proctab s p)\<lparr>prstate := PR_CURR\<rparr>" and ?L' = "L(readylist s := ps)"
  have p: "0 \<le> p" "p < NPROC" using kinv0_member[OF k kinv0D(2)[OF k], of p] L by simp_all
  obtain qt where qt: "dequeue ?r s = Some (p, s\<lparr>queuetab := qt\<rparr>)"
    "queues_wf qt (nextqid s) ?L'" "same_keys (queuetab s) qt"
    using dequeue_wf(2)[OF kinv0D(1,2)[OF k] L] by blast
  let ?s = "s\<lparr>currpid := p, preempt := QUANTUM\<rparr>"
  let ?t = "?s\<lparr>queuetab := qt, proctab := (proctab s)(p := ?e)\<rparr>"
  have d: "dispatch s = Some ?t"
    using qt(1) p by (simp add: dispatch_def table_updates)
  have ks: "kinv0 ?s L"
  proof -
    have "procs_ok ?s" using kinv0D(8)[OF k] nc p by (auto simp: procs_ok_def)
    moreover have "semq ?s = semq s" by (simp add: semq_def fun_eq_iff)
    ultimately show ?thesis using k by (simp add: kinv0_def tables_ok_def queues_used_def placed_def)
  qed
  have off: "off_queues (nextqid s) ?L' p"
    using off_queues_removed[OF kinv0D(1,2)[OF k], of "[]" p ps] L by simp
  have "kinv0 (?s\<lparr>queuetab := qt, proctab := (proctab ?s)(p := ?e)\<rparr>) ?L'"
  proof (rule kinv0_move[OF ks p])
    show "queues_wf qt (nextqid ?s) ?L'" using qt(2) by simp
    show "set (?L' q) - {p} = set (L q) - {p}" for q using L by auto
    show "q = readylist ?s \<or> q = sleepq ?s \<or> (\<exists>i. 0 \<le> i \<and> i < NSEM \<and> q = semq ?s i)"
      if "qid_ok (nextqid ?s) q" "p \<in> set (?L' q)" for q
      using that off unfolding off_queues_def by simp
    show "placed ?s ?L' p ?e"
      by (rule placed_off) (use off ks in \<open>simp_all add: kinv0_def\<close>)
    have "desc (keys s) ps" using kinv0D(7)[OF k] L by (simp add: desc_tl)
    then show "desc (\<lambda>x. qkey (qt x)) (?L' (readylist ?s))"
      using qt(3) by (simp add: same_keys_def)
    show "procs_ok (?s\<lparr>proctab := (proctab ?s)(p := ?e)\<rparr>)"
      using kinv0D(8)[OF k] nc p by (auto simp: procs_ok_def)
  qed
  then have "kinv ?t ?L'" by (simp add: kinv_def)
  moreover have "sched_eq s ?t"
    using qt(3) by (auto simp: sched_eq_def sched_rest_def asleep_def same_keys_def fun_eq_iff)
  ultimately show ?thesis using d qt(3) by (auto simp: same_keys_def)
qed

section \<open>The scheduler, abstractly\<close>

text \<open>Who runs after resched: the current process stays when its priority is above every ready
  key; otherwise it joins the ready list (if it is still eligible) and the head of that list
  runs.\<close>

definition first_prio :: "kst \<Rightarrow> (int \<Rightarrow> int list) \<Rightarrow> int" where
  "first_prio s L = (case L (readylist s) of [] \<Rightarrow> MINKEY | x # _ \<Rightarrow> keys s x)"

definition stays :: "kst \<Rightarrow> (int \<Rightarrow> int list) \<Rightarrow> bool" where
  "stays s L \<longleftrightarrow> prstate (proctab s (currpid s)) = PR_CURR \<and>
     first_prio s L < prprio (proctab s (currpid s))"

definition resched_list :: "kst \<Rightarrow> (int \<Rightarrow> int list) \<Rightarrow> int list" where
  "resched_list s L =
     (if prstate (proctab s (currpid s)) = PR_CURR
      then ins_desc (keys s) (prprio (proctab s (currpid s))) (currpid s) (L (readylist s))
      else L (readylist s))"

definition resched_L :: "kst \<Rightarrow> (int \<Rightarrow> int list) \<Rightarrow> (int \<Rightarrow> int list)" where
  "resched_L s L = (if stays s L then L else L(readylist s := tl (resched_list s L)))"

definition resched_pid :: "kst \<Rightarrow> (int \<Rightarrow> int list) \<Rightarrow> int" where
  "resched_pid s L = (if stays s L then currpid s else hd (resched_list s L))"

definition resched_state :: "kst \<Rightarrow> (int \<Rightarrow> int list) \<Rightarrow> int \<Rightarrow> prstate_t" where
  "resched_state s L p =
     (if p = resched_pid s L then PR_CURR
      else if p = currpid s \<and> prstate (proctab s p) = PR_CURR then PR_READY
      else prstate (proctab s p))"

lemma null_ready:
  assumes "kinv0 s L" "prstate (proctab s (currpid s)) \<noteq> PR_CURR"
  shows "NULLPROC \<in> set (L (readylist s))" "prstate (proctab s NULLPROC) = PR_READY"
proof -
  have n: "0 \<le> NULLPROC" "NULLPROC < NPROC" by (simp_all add: NULLPROC_def NPROC_def)
  show st: "prstate (proctab s NULLPROC) = PR_READY"
    using kinv0D(8)[OF assms(1)] assms(2) n by (auto simp: procs_ok_def)
  show "NULLPROC \<in> set (L (readylist s))"
    using kinv0D(6)[OF assms(1) n] st by (simp add: placed_def)
qed

lemma no_curr:
  assumes "kinv0 s L" "prstate (proctab s (currpid s)) \<noteq> PR_CURR" "0 \<le> x" "x < NPROC"
  shows "prstate (proctab s x) \<noteq> PR_CURR"
  using kinv0D(8)[OF assms(1)] assms(2-4) by (auto simp: procs_ok_def)

lemma resched_ok:
  assumes k: "kinv0 s L" and nd: "ndefers (Defer s) \<le> 0"
  shows "\<exists>t. resched s = Some t \<and> kinv t (resched_L s L) \<and> sched_eq s t \<and> Defer t = Defer s \<and>
    currpid t = resched_pid s L \<and> (\<forall>p. prstate (proctab t p) = resched_state s L p)"
proof -
  let ?c = "currpid s" and ?r = "readylist s"
  have c: "proc_at s ?c = Some (proctab s ?c)" "0 \<le> ?c" "?c < NPROC"
    using kinv0D(9,10)[OF k] by (simp_all add: proc_at_def)
  show ?thesis
  proof (cases "prstate (proctab s ?c) = PR_CURR")
    case False
    then have ns: "\<not> stays s L" "resched_list s L = L ?r" by (simp_all add: stays_def resched_list_def)
    obtain p ps where L: "L ?r = p # ps" using null_ready(1)[OF k False] by (cases "L ?r") auto
    obtain t where t: "dispatch s = Some t" "kinv t (L(?r := ps))" "sched_eq s t" "currpid t = p"
      "Defer t = Defer s" "proctab t = (proctab s)(p := (proctab s p)\<lparr>prstate := PR_CURR\<rparr>)"
      using dispatch_ok[OF k L no_curr[OF k False]] by blast
    have "resched s = Some t" using t(1) nd c False by (simp add: resched_def)
    moreover have "resched_state s L x = prstate (proctab t x)" for x
      using ns L False t(6) by (auto simp: resched_state_def resched_pid_def)
    ultimately show ?thesis using t ns L by (simp add: resched_L_def resched_pid_def)
  next
    case True
    have fk: "firstkey ?r s = Some (first_prio s L)"
      using firstkey_wf[OF queues_wfD(1)[OF kinv0D(1,2)[OF k]]] by (simp add: first_prio_def)
    show ?thesis
    proof (cases "stays s L")
      case st: True
      then have "resched s = Some s" using nd c True fk by (simp add: resched_def stays_def)
      moreover have "kinv s L" using k True by (simp add: kinv_def)
      ultimately show ?thesis
        using st True by (auto simp: resched_L_def resched_pid_def resched_state_def)
    next
      case False
      let ?k = "prprio (proctab s ?c)"
      let ?L1 = "L(?r := ins_desc (keys s) ?k ?c (L ?r))"
      have nb: "\<not> isbadpid s ?c" using c True by (simp add: isbadpid_def)
      have off: "off_queues (nextqid s) L ?c" using kinv0_off[OF k c(2,3)] True by simp
      obtain u where u: "insert_q ?c ?r ?k (set_state ?c PR_READY s) = Some (OK, u)" "kinv0 u ?L1"
        "sched_eq s u" "currpid u = ?c" "Defer u = Defer s"
        "proctab u = (proctab s)(?c := (proctab s ?c)\<lparr>prstate := PR_READY\<rparr>)"
        using insert_ready[OF k nb off] by blast
      have ru: "readylist u = ?r" using sched_eqD(4)[OF u(3)] .
      have rl: "resched_list s L = ins_desc (keys s) ?k ?c (L ?r)"
        using True by (simp add: resched_list_def)
      obtain p ps where P: "resched_list s L = p # ps" "?L1 (readylist u) = p # ps"
        unfolding rl ru by (cases "ins_desc (keys s) ?k ?c (L ?r)") (auto simp: ins_desc_def)
      have uc: "prstate (proctab u (currpid u)) \<noteq> PR_CURR" by (simp add: u(4,6))
      obtain t where t: "dispatch u = Some t" "kinv t (?L1(readylist u := ps))" "sched_eq u t"
        "currpid t = p" "Defer t = Defer u"
        "proctab t = (proctab u)(p := (proctab u p)\<lparr>prstate := PR_CURR\<rparr>)"
        using dispatch_ok[OF u(2) P(2) no_curr[OF u(2) uc]] by blast
      have "resched s = Some t"
        using nd c True fk False u(1) t(1) by (simp add: resched_def stays_def)
      moreover have "kinv t (resched_L s L)"
        using t(2) False P(1) by (simp add: resched_L_def ru)
      moreover have "resched_state s L x = prstate (proctab t x)" for x
        using t(6) u(6) False True P(1) by (simp add: resched_state_def resched_pid_def)
      ultimately show ?thesis
        using t u False P(1) sched_eq_trans[OF u(3) t(3)] by (simp add: resched_pid_def)
    qed
  qed
qed

lemma resched_deferred:
  "ndefers (Defer s) > 0 \<Longrightarrow> resched s = Some (s\<lparr>Defer := (Defer s)\<lparr>attempt := True\<rparr>\<rparr>)"
  by (simp add: resched_def)

lemma resched_L_other: "q \<noteq> readylist s \<Longrightarrow> resched_L s L q = L q"
  by (simp add: resched_L_def)

section \<open>ready\<close>

text \<open>A process that is off the queues, whatever its state field still says, counts as detached:
  with PR_SUSP in its place the invariant holds. That is what ready expects.\<close>

definition detached :: "kst \<Rightarrow> (int \<Rightarrow> int list) \<Rightarrow> int \<Rightarrow> bool" where
  "detached s L p \<longleftrightarrow> kinv0 (set_state p PR_SUSP s) L \<and> \<not> isbadpid s p \<and> p \<noteq> currpid s"

definition enlist :: "kst \<Rightarrow> (int \<Rightarrow> int list) \<Rightarrow> int \<Rightarrow> (int \<Rightarrow> int list)" where
  "enlist s L p =
     L(readylist s := ins_desc (keys s) (prprio (proctab s p)) p (L (readylist s)))"

lemma set_state_twice [simp]: "set_state p a (set_state p b s) = set_state p a s"
  by (simp add: table_updates)

lemma detached_insert:
  assumes d: "detached s L p"
  shows "\<exists>t. insert_q p (readylist s) (prprio (proctab s p)) (set_state p PR_READY s) = Some (OK, t) \<and>
    kinv0 t (enlist s L p) \<and> sched_eq s t \<and> currpid t = currpid s \<and> Defer t = Defer s \<and>
    proctab t = (proctab s)(p := (proctab s p)\<lparr>prstate := PR_READY\<rparr>) \<and>
    (\<forall>i. keys t i = (if i = p then prprio (proctab s p) else keys s i))"
proof -
  let ?s = "set_state p PR_SUSP s"
  have k: "kinv0 ?s L" and b: "\<not> isbadpid s p" using d by (auto simp: detached_def)
  have nb: "\<not> isbadpid ?s p" using b by (simp add: isbadpid_def)
  have "0 \<le> p" "p < NPROC" using b by (auto simp: isbadpid_def)
  then have off: "off_queues (nextqid ?s) L p" using kinv0_off[OF k] by simp
  obtain t where t: "insert_q p (readylist ?s) (prprio (proctab ?s p)) (set_state p PR_READY ?s) = Some (OK, t)"
    "kinv0 t (enlist s L p)" "sched_eq ?s t" "currpid t = currpid s" "Defer t = Defer s"
    "proctab t = (proctab s)(p := (proctab s p)\<lparr>prstate := PR_READY\<rparr>)"
    "\<And>i. keys t i = (if i = p then prprio (proctab s p) else keys s i)"
    using insert_ready[OF k nb off] by (auto simp: enlist_def)
  moreover have "sched_eq s t" using sched_eq_trans[OF sched_eq_set_state t(3)] by simp
  ultimately show ?thesis by auto
qed

lemma ready_deferred:
  assumes d: "detached s L p" and nd: "ndefers (Defer s) > 0"
  shows "\<exists>t. ready p s = Some (OK, t) \<and> kinv0 t (enlist s L p) \<and> sched_eq s t \<and>
    currpid t = currpid s \<and> Defer t = (Defer s)\<lparr>attempt := True\<rparr> \<and>
    proctab t = (proctab s)(p := (proctab s p)\<lparr>prstate := PR_READY\<rparr>) \<and>
    (\<forall>i. keys t i = (if i = p then prprio (proctab s p) else keys s i))"
proof -
  obtain u where u: "insert_q p (readylist s) (prprio (proctab s p)) (set_state p PR_READY s) = Some (OK, u)"
    "kinv0 u (enlist s L p)" "sched_eq s u" "currpid u = currpid s" "Defer u = Defer s"
    "proctab u = (proctab s)(p := (proctab s p)\<lparr>prstate := PR_READY\<rparr>)"
    "\<And>i. keys u i = (if i = p then prprio (proctab s p) else keys s i)"
    using detached_insert[OF d] by blast
  let ?t = "u\<lparr>Defer := (Defer u)\<lparr>attempt := True\<rparr>\<rparr>"
  have "ready p s = Some (OK, ?t)"
    using d u(1) resched_deferred[of u] nd u(5) by (simp add: ready_def detached_def)
  moreover have "kinv0 ?t (enlist s L p)"
    by (rule kinv0_cong[OF u(2)]) simp_all
  moreover have "sched_eq s ?t" using sched_eq_trans[OF u(3)] by simp
  ultimately show ?thesis using u(4-7) by (intro exI[of _ ?t]) simp
qed

lemma ready_ok:
  assumes d: "detached s L p" and nd: "ndefers (Defer s) \<le> 0"
  shows "\<exists>u t. insert_q p (readylist s) (prprio (proctab s p)) (set_state p PR_READY s) = Some (OK, u) \<and>
    kinv0 u (enlist s L p) \<and> sched_eq s u \<and>
    proctab u = (proctab s)(p := (proctab s p)\<lparr>prstate := PR_READY\<rparr>) \<and> currpid u = currpid s \<and>
    ready p s = Some (OK, t) \<and> kinv t (resched_L u (enlist s L p)) \<and> sched_eq s t \<and>
    Defer t = Defer s \<and> currpid t = resched_pid u (enlist s L p) \<and>
    (\<forall>x. prstate (proctab t x) = resched_state u (enlist s L p) x)"
proof -
  obtain u where u: "insert_q p (readylist s) (prprio (proctab s p)) (set_state p PR_READY s) = Some (OK, u)"
    "kinv0 u (enlist s L p)" "sched_eq s u" "currpid u = currpid s" "Defer u = Defer s"
    "proctab u = (proctab s)(p := (proctab s p)\<lparr>prstate := PR_READY\<rparr>)"
    using detached_insert[OF d] by blast
  obtain t where t: "resched u = Some t" "kinv t (resched_L u (enlist s L p))" "sched_eq u t"
    "Defer t = Defer u" "currpid t = resched_pid u (enlist s L p)"
    "\<And>x. prstate (proctab t x) = resched_state u (enlist s L p) x"
    using resched_ok[OF u(2)] nd u(5) by auto
  have "ready p s = Some (OK, t)"
    using d u(1) t(1) by (simp add: ready_def detached_def)
  then show ?thesis
    using u t sched_eq_trans[OF u(3) t(3)] by (intro exI[of _ u] exI[of _ t]) simp
qed

end
