(* ===== verification/Kernel_Calls.thy ===== *)
theory Kernel_Calls
  imports Kernel_Inv
begin

text \<open>
  The contracts of the system calls on semaphores, messages, sleeping and suspension: from a state
  that satisfies the kernel invariant, each call returns or blocks, without leaving the tables, in
  a state that satisfies it again, and with the stated effect on the queues.
\<close>

section \<open>The invariant between and inside calls\<close>

definition kmid :: "kst \<Rightarrow> (int \<Rightarrow> int list) \<Rightarrow> bool" where
  "kmid s L \<longleftrightarrow> kinv0 s L \<and> sems_ok s L \<and> sleep_ok s L \<and> 0 \<le> nextsem s \<and> nextsem s < NSEM"

definition kok :: "kst \<Rightarrow> (int \<Rightarrow> int list) \<Rightarrow> bool" where
  "kok s L \<longleftrightarrow> kmid s L \<and> prstate (proctab s (currpid s)) = PR_CURR \<and> ndefers (Defer s) = 0"

named_theorems kernel_facts \<open>consequences of the kernel invariant\<close>

lemma kmidD [kernel_facts]:
  assumes "kmid s L"
  shows "kinv0 s L" "sems_ok s L" "0 \<le> nextsem s" "nextsem s < NSEM"
    "queues_wf (queuetab s) (nextqid s) L" "0 \<le> currpid s" "currpid s < NPROC"
    "qid_ok (nextqid s) (readylist s)" "qid_ok (nextqid s) (sleepq s)" "readylist s \<noteq> sleepq s"
    "sleep_ok s L"
  using assms kinv0D[of s L] by (simp_all add: kmid_def)

lemma kokD [kernel_facts]:
  assumes "kok s L"
  shows "kmid s L" "kinv s L" "ndefers (Defer s) = 0" "prstate (proctab s (currpid s)) = PR_CURR"
    "kinv0 s L" "\<not> isbadpid s (currpid s)" "off_queues (nextqid s) L (currpid s)"
proof -
  show k: "kmid s L" "kinv s L" "ndefers (Defer s) = 0" "prstate (proctab s (currpid s)) = PR_CURR"
    "kinv0 s L"
    using assms by (simp_all add: kok_def kmid_def kinv_def)
  show "\<not> isbadpid s (currpid s)" using kmidD(6,7)[OF k(1)] k(4) by (simp add: isbadpid_def)
  show "off_queues (nextqid s) L (currpid s)"
    using kinv0_off[OF k(5) kmidD(6,7)[OF k(1)]] k(4) by simp
qed

lemma semq_ok:
  assumes "kmid s L" "0 \<le> i" "i < NSEM"
  shows "qid_ok (nextqid s) (semq s i)" "semq s i \<noteq> readylist s" "semq s i \<noteq> sleepq s"
    "sem_ok s L i"
  using kinv0D(5)[OF kmidD(1)[OF assms(1)] assms(2,3)] kmidD(2)[OF assms(1)] assms(2,3)
  by (simp_all add: sems_ok_def)

lemma not_isbadsem: "\<not> isbadsem i \<longleftrightarrow> 0 \<le> i \<and> i < NSEM"
  by (auto simp: isbadsem_def)

text \<open>A queue never holds more than the process table.\<close>

lemma queue_len:
  assumes "kmid s L" "qid_ok (nextqid s) q"
  shows "length (L q) \<le> 100"
  using distinct_le_card[of "L q" NPROC] queues_wfD(5,6)[OF kmidD(5)[OF assms(1)] assms(2)]
  by (simp add: NPROC_def)

lemma scount_min:
  assumes "kmid s L" "0 \<le> i" "i < NSEM" "sstate (semtab s i) = S_USED"
  shows "-100 \<le> scount (semtab s i)"
  using semq_ok[OF assms(1-3)] queue_len[OF assms(1) semq_ok(1)[OF assms(1-3)]] assms(4)
  by (simp add: sem_ok_def)

lemma sems_ok_cong:
  assumes "sems_ok s L" "semtab t = semtab s"
    and "\<And>i. 0 \<le> i \<Longrightarrow> i < NSEM \<Longrightarrow> L' (semq s i) = L (semq s i)"
  shows "sems_ok t L'"
proof -
  have "semq t = semq s" using assms(2) by (simp add: semq_def fun_eq_iff)
  then show ?thesis using assms by (simp add: sems_ok_def sem_ok_def)
qed

lemma kmid_sched:
  assumes "kmid s L" "kinv0 t L'" "sched_eq s t"
    and "\<And>i. 0 \<le> i \<Longrightarrow> i < NSEM \<Longrightarrow> L' (semq s i) = L (semq s i)"
    and "L' (sleepq s) = L (sleepq s)"
  shows "kmid t L'"
  using assms(1,2) sched_eq_due(2)[OF assms(3,2,5) kmidD(11)[OF assms(1)]] sems_ok_cong[OF kmidD(2)[OF assms(1)] sched_eqD(6)[OF assms(3)] assms(4)]
    sched_eqD(7)[OF assms(3)] by (simp add: kmid_def)

lemma resched_kok:
  assumes k: "kmid s L" and nd: "ndefers (Defer s) = 0"
  shows "\<exists>t. resched s = Some t \<and> kok t (resched_L s L) \<and> sched_eq s t \<and> Defer t = Defer s \<and>
    currpid t = resched_pid s L \<and> (\<forall>p. prstate (proctab t p) = resched_state s L p)"
proof -
  obtain t where t: "resched s = Some t" "kinv t (resched_L s L)" "sched_eq s t" "Defer t = Defer s"
    "currpid t = resched_pid s L" "\<And>p. prstate (proctab t p) = resched_state s L p"
    using resched_ok[OF kmidD(1)[OF k]] nd by auto
  have "kmid t (resched_L s L)"
    using kmid_sched[OF k _ t(3)] t(2) resched_L_other semq_ok(2)[OF k] kmidD(10)[OF k] by (simp add: kinv_def)
  then have "kok t (resched_L s L)"
    using t(2,4) nd by (simp add: kok_def kinv_def)
  then show ?thesis using t by blast
qed

lemma resched_pid_state:
  assumes k: "kinv0 s L"
  shows "prstate (proctab s (resched_pid s L)) \<in> {PR_CURR, PR_READY}"
proof (cases "stays s L")
  case True
  then show ?thesis by (simp add: resched_pid_def stays_def)
next
  case False
  have ne: "resched_list s L \<noteq> []"
    using null_ready(1)[OF k] by (auto simp: resched_list_def ins_desc_def)
  have pid: "resched_pid s L = hd (resched_list s L)" using False by (simp add: resched_pid_def)
  have "x \<in> set (resched_list s L) \<Longrightarrow> prstate (proctab s x) \<in> {PR_CURR, PR_READY}" for x
  proof -
    assume "x \<in> set (resched_list s L)"
    then have x: "x \<in> set (L (readylist s)) \<or> x = currpid s \<and> prstate (proctab s x) = PR_CURR"
      by (auto simp: resched_list_def ins_desc_set split: if_splits)
    then show ?thesis
      using kinv0D(6)[OF k, of x] kinv0_member(1,2)[OF k kinv0D(2)[OF k], of x]
      by (auto simp: placed_def)
  qed
  then show ?thesis using hd_in_set[OF ne] by (simp add: pid)
qed

text \<open>The current process gives up PR_CURR: it takes a new table entry, and possibly a place on a
  queue other than the ready list.\<close>

lemma block_current:
  assumes k: "kok s L" and nn: "currpid s \<noteq> NULLPROC"
    and wf: "queues_wf qt (nextqid s) (L(q := us @ currpid s # vs))" "L q = us @ vs"
    and q: "q = sleepq s \<and> prstate e \<in> {PR_SLEEP, PR_RECTIM} \<or>
            (\<exists>i. 0 \<le> i \<and> i < NSEM \<and> q = semq s i \<and> prstate e = PR_WAIT \<and> prsem e = i)"
    and ks: "\<And>i. i \<in> set (L (readylist s)) \<Longrightarrow> qkey (qt i) = keys s i"
    and e: "prprio e = prprio (proctab s (currpid s))"
  shows "kinv0 (s\<lparr>queuetab := qt, proctab := (proctab s)(currpid s := e)\<rparr>)
           (L(q := us @ currpid s # vs))"
proof (rule kinv0_move[OF kokD(5)[OF k] kmidD(6,7)[OF kokD(1)[OF k]] wf(1)])
  let ?c = "currpid s" and ?L = "L(q := us @ currpid s # vs)"
  note k0 = kokD(5)[OF k] and off = kokD(7)[OF k]
  have nr: "q \<noteq> readylist s"
    using q kinv0D(4)[OF k0] semq_ok(2)[OF kokD(1)[OF k]] by (elim disjE exE conjE) auto
  show "set (?L q') - {?c} = set (L q') - {?c}" for q' using wf(2) by auto
  show "q' = readylist s \<or> q' = sleepq s \<or> (\<exists>i. 0 \<le> i \<and> i < NSEM \<and> q' = semq s i)"
    if "qid_ok (nextqid s) q'" "?c \<in> set (?L q')" for q'
    using that off q by (auto simp: off_queues_def split: if_splits)
  have nin: "?c \<notin> set (L q')" if "qid_ok (nextqid s) q'" for q'
    using off that by (simp add: off_queues_def)
  show "placed s ?L ?c e"
    using q
  proof
    assume "q = sleepq s \<and> prstate e \<in> {PR_SLEEP, PR_RECTIM}"
    then show ?thesis using nin kinv0D(2-5)[OF k0] by (auto simp: placed_def)
  next
    assume "\<exists>i. 0 \<le> i \<and> i < NSEM \<and> q = semq s i \<and> prstate e = PR_WAIT \<and> prsem e = i"
    then obtain i where i: "0 \<le> i" "i < NSEM" "q = semq s i" "prstate e = PR_WAIT" "prsem e = i"
      by blast
    have "?c \<in> set (?L (semq s j)) \<longleftrightarrow> i = j" if "0 \<le> j" "j < NSEM" for j
      using kinv0D(11)[OF k0 that i(1,2)] kinv0D(5)[OF k0 that] nin i(3) by auto
    then show ?thesis
      using nin kinv0D(2-4)[OF k0] kinv0D(5)[OF k0 i(1,2)] i by (simp add: placed_def)
  qed
  show "desc (\<lambda>x. qkey (qt x)) (?L (readylist s))"
    using kinv0D(7)[OF k0] desc_cong[of "L (readylist s)" "\<lambda>x. qkey (qt x)" "keys s"] ks nr by simp
  show "procs_ok (s\<lparr>proctab := (proctab s)(?c := e)\<rparr>)"
    using kinv0D(8)[OF k0] e q nn by (auto simp: procs_ok_def)
qed

text \<open>The same for the states that stand on no queue.\<close>

lemma block_off:
  assumes k: "kok s L" and nn: "currpid s \<noteq> NULLPROC" and st: "st \<in> {PR_RECV, PR_SUSP}"
  shows "kmid (set_state (currpid s) st s) L"
proof -
  let ?c = "currpid s" and ?e = "(proctab s (currpid s))\<lparr>prstate := st\<rparr>"
  note k0 = kokD(5)[OF k] and off = kokD(7)[OF k]
  have "kinv0 (s\<lparr>queuetab := queuetab s, proctab := (proctab s)(?c := ?e)\<rparr>) L"
  proof (rule kinv0_move[OF k0 kmidD(6,7)[OF kokD(1)[OF k]] kmidD(5)[OF kokD(1)[OF k]]])
    show "q = readylist s \<or> q = sleepq s \<or> (\<exists>i. 0 \<le> i \<and> i < NSEM \<and> q = semq s i)"
      if "qid_ok (nextqid s) q" "?c \<in> set (L q)" for q
      using that off by (simp add: off_queues_def)
    show "placed s L ?c ?e"
      by (rule placed_off[OF off]) (use k0 st in \<open>auto simp: kinv0_def\<close>)
    show "desc (keys s) (L (readylist s))" using kinv0D(7)[OF k0] .
    show "procs_ok (s\<lparr>proctab := (proctab s)(?c := ?e)\<rparr>)"
      using kinv0D(8)[OF k0] st nn by (auto simp: procs_ok_def)
  qed simp
  then have "kinv0 (set_state ?c st s) L" by (simp add: table_updates)
  then show ?thesis using kmid_sched[OF kokD(1)[OF k]] st by auto
qed

section \<open>Taking a process off a queue\<close>

text \<open>A process that waits, on a semaphore or in the sleep queue, is neither the current nor the
  null process; taken off its queue it is ready to be handed to ready.\<close>

lemma waiting_not_current:
  assumes "kinv0 s L" "q = sleepq s \<or> (\<exists>i. 0 \<le> i \<and> i < NSEM \<and> q = semq s i)" "p \<in> set (L q)"
  shows "prstate (proctab s p) \<in> {PR_SLEEP, PR_RECTIM, PR_WAIT}" "p \<noteq> NULLPROC"
    "0 \<le> p" "p < NPROC" "\<not> isbadpid s p"
proof -
  have q: "qid_ok (nextqid s) q" using assms(2) kinv0D(3,5)[OF assms(1)] by auto
  show r: "0 \<le> p" "p < NPROC" "\<not> isbadpid s p" using kinv0_member[OF assms(1) q assms(3)] by auto
  show st: "prstate (proctab s p) \<in> {PR_SLEEP, PR_RECTIM, PR_WAIT}"
    using kinv0D(6)[OF assms(1) r(1,2)] assms(2,3) by (auto simp: placed_def)
  have "prstate (proctab s NULLPROC) = PR_CURR \<or> prstate (proctab s NULLPROC) = PR_READY"
    using kinv0D(8)[OF assms(1)] by (simp add: procs_ok_def)
  then show "p \<noteq> NULLPROC" using st by auto
qed

lemma detach:
  assumes k: "kinv0 s L" and q: "q = sleepq s \<or> (\<exists>i. 0 \<le> i \<and> i < NSEM \<and> q = semq s i)"
    and L: "L q = us @ p # vs" and np: "p \<noteq> currpid s"
    and wf: "queues_wf qt (nextqid s) (L(q := us @ vs))"
    and ks: "\<And>i. i \<in> set (L (readylist s)) \<Longrightarrow> qkey (qt i) = keys s i"
  shows "detached (s\<lparr>queuetab := qt\<rparr>) (L(q := us @ vs)) p"
proof -
  let ?L = "L(q := us @ vs)" and ?e = "(proctab s p)\<lparr>prstate := PR_SUSP\<rparr>"
  have qq: "qid_ok (nextqid s) q" using q kinv0D(3,5)[OF k] by auto
  have pin: "p \<in> set (L q)" using L by simp
  note w = waiting_not_current[OF k q pin]
  have nr: "q \<noteq> readylist s"
    using q kinv0D(4)[OF k] kinv0D(5)[OF k] by (elim disjE exE conjE) auto
  have off: "off_queues (nextqid s) ?L p"
    using off_queues_removed[OF kinv0D(1)[OF k] qq L] .
  have "kinv0 (s\<lparr>queuetab := qt, proctab := (proctab s)(p := ?e)\<rparr>) ?L"
  proof (rule kinv0_move[OF k w(3,4) wf])
    show "set (?L q') - {p} = set (L q') - {p}" for q' using L by auto
    show "q' = readylist s \<or> q' = sleepq s \<or> (\<exists>i. 0 \<le> i \<and> i < NSEM \<and> q' = semq s i)"
      if "qid_ok (nextqid s) q'" "p \<in> set (?L q')" for q'
      using that off unfolding off_queues_def by blast
    show "placed s ?L p ?e"
      by (rule placed_off[OF off]) (use k in \<open>simp_all add: kinv0_def\<close>)
    show "desc (\<lambda>x. qkey (qt x)) (?L (readylist s))"
      using kinv0D(7)[OF k] desc_cong[of "L (readylist s)" "\<lambda>x. qkey (qt x)" "keys s"] ks nr by simp
    show "procs_ok (s\<lparr>proctab := (proctab s)(p := ?e)\<rparr>)"
      using kinv0D(8)[OF k] w(2) by (auto simp: procs_ok_def)
  qed
  moreover have "set_state p PR_SUSP (s\<lparr>queuetab := qt\<rparr>) =
      s\<lparr>queuetab := qt, proctab := (proctab s)(p := ?e)\<rparr>"
    by (simp add: table_updates)
  ultimately show ?thesis using w(5) np by (simp add: detached_def isbadpid_def)
qed

text \<open>The effect of ready on a detached process: it joins the ready list, then the scheduler
  decides.\<close>

definition made_ready :: "kst \<Rightarrow> (int \<Rightarrow> int list) \<Rightarrow> int \<Rightarrow> kst \<Rightarrow> bool" where
  "made_ready s L p t \<longleftrightarrow> (\<exists>u. kmid u (enlist s L p) \<and> sched_eq s u \<and>
     proctab u = (proctab s)(p := (proctab s p)\<lparr>prstate := PR_READY\<rparr>) \<and> currpid u = currpid s \<and>
     keys u = (keys s)(p := prprio (proctab s p)) \<and>
     resched u = Some t \<and> kok t (resched_L u (enlist s L p)) \<and> sched_eq s t \<and> Defer t = Defer s \<and>
     currpid t = resched_pid u (enlist s L p) \<and>
     (\<forall>x. prstate (proctab t x) = resched_state u (enlist s L p) x))"

lemma ready_kok:
  assumes d: "detached s L p" and sm: "sems_ok s L" "0 \<le> nextsem s" "nextsem s < NSEM"
    and nd: "ndefers (Defer s) = 0" and sl: "sleep_ok s L"
  shows "\<exists>t. ready p s = Some (OK, t) \<and> made_ready s L p t"
proof -
  obtain u where u: "insert_q p (readylist s) (prprio (proctab s p)) (set_state p PR_READY s) = Some (OK, u)"
    "kinv0 u (enlist s L p)" "sched_eq s u" "currpid u = currpid s" "Defer u = Defer s"
    "proctab u = (proctab s)(p := (proctab s p)\<lparr>prstate := PR_READY\<rparr>)"
    "\<And>i. keys u i = (if i = p then prprio (proctab s p) else keys s i)"
    using detached_insert[OF d] by blast
  have rl: "readylist u = readylist s" "semq u = semq s" "semtab u = semtab s" "nextsem u = nextsem s"
    using sched_eqD(4,6,7,17)[OF u(3)] by simp_all
  have "enlist s L p (semq s i) = L (semq s i)" if "0 \<le> i" "i < NSEM" for i
    using kinv0D(5)[OF u(2) that] rl by (simp add: enlist_def)
  moreover have "sleep_ok u (enlist s L p)"
    using sched_eq_due(2)[OF u(3,2) _ sl] kinv0D(4)[OF u(2)] sched_eqD(4,5)[OF u(3)]
    by (simp add: enlist_def)
  ultimately have m: "kmid u (enlist s L p)"
    using u(2) sems_ok_cong[OF sm(1) rl(3)] sm(2,3) rl(4) by (simp add: kmid_def)
  obtain t where t: "resched u = Some t" "kok t (resched_L u (enlist s L p))" "sched_eq u t"
    "Defer t = Defer u" "currpid t = resched_pid u (enlist s L p)"
    "\<And>x. prstate (proctab t x) = resched_state u (enlist s L p) x"
    using resched_kok[OF m] nd u(5) by auto
  have ks: "keys u = (keys s)(p := prprio (proctab s p))"
    using u(7) by (simp add: fun_eq_iff)
  have "ready p s = Some (OK, t)"
    using d u(1) t(1) by (simp add: ready_def detached_def)
  then show ?thesis
    unfolding made_ready_def using m u(3-6) ks t sched_eq_trans[OF u(3) t(3)]
    by (intro exI[of _ t] exI[of _ u] conjI) simp_all
qed

text \<open>What a caller can rely on: the process is ready or runs, every other queue is as it was, and
  the kernel invariant holds.\<close>

lemma made_readyD:
  assumes r: "made_ready s L p t"
  shows "\<exists>L'. kok t L' \<and> (\<forall>q. q \<noteq> readylist s \<longrightarrow> L' q = L q)"
    "prstate (proctab t p) = PR_READY \<or> prstate (proctab t p) = PR_CURR"
    "sched_eq s t" "Defer t = Defer s"
    "\<And>x. x \<noteq> p \<Longrightarrow> prstate (proctab s x) \<notin> {PR_CURR, PR_READY} \<Longrightarrow>
       prstate (proctab t x) = prstate (proctab s x)"
proof -
  obtain u where u: "sched_eq s u" "currpid u = currpid s" "kmid u (enlist s L p)"
    "proctab u = (proctab s)(p := (proctab s p)\<lparr>prstate := PR_READY\<rparr>)"
    "kok t (resched_L u (enlist s L p))" "currpid t = resched_pid u (enlist s L p)"
    "\<And>x. prstate (proctab t x) = resched_state u (enlist s L p) x"
    using r unfolding made_ready_def by blast
  have rl: "readylist u = readylist s" using sched_eqD(4)[OF u(1)] .
  show "\<exists>L'. kok t L' \<and> (\<forall>q. q \<noteq> readylist s \<longrightarrow> L' q = L q)"
    using u(5) by (intro exI[of _ "resched_L u (enlist s L p)"]) (simp add: resched_L_other rl enlist_def)
  show "prstate (proctab t p) = PR_READY \<or> prstate (proctab t p) = PR_CURR"
    using u(4,7) by (simp add: resched_state_def)
  show "sched_eq s t" "Defer t = Defer s" using r unfolding made_ready_def by blast+
  fix x assume x: "x \<noteq> p" "prstate (proctab s x) \<notin> {PR_CURR, PR_READY}"
  have "x \<noteq> resched_pid u (enlist s L p)"
    using resched_pid_state[OF kmidD(1)[OF u(3)]] u(4) x by auto
  then show "prstate (proctab t x) = prstate (proctab s x)"
    using u(4,7) x by (auto simp: resched_state_def)
qed

section \<open>Semaphores\<close>

lemma semq_upd_sem [simp]:
  "(\<And>e. squeue (f e) = squeue e) \<Longrightarrow> semq (upd_sem i f s) = semq s"
  by (simp add: semq_def fun_eq_iff)

text \<open>Changing the count or the state of one semaphore.\<close>

lemma kinv0_upd_sem:
  assumes "kinv0 s L" "\<And>e. squeue (f e) = squeue e"
  shows "kinv0 (upd_sem i f s) L"
  by (rule kinv0_cong[OF assms(1)]) (use assms(2) in simp_all)

lemma kmid_upd_sem:
  assumes k: "kmid s L" and sq: "\<And>e. squeue (f e) = squeue e" and i: "sem_ok (upd_sem i f s) L i"
  shows "kmid (upd_sem i f s) L"
proof -
  have "sem_ok (upd_sem i f s) L j" if "0 \<le> j" "j < NSEM" for j
    using semq_ok(4)[OF k that] i by (cases "j = i") (auto simp: sem_ok_def sq semq_upd_sem[OF sq] split: if_splits)
  then show ?thesis
    using k kinv0_upd_sem[OF kmidD(1)[OF k] sq] by (simp add: kmid_def sems_ok_def)
qed

lemma wait_available:
  assumes k: "kok s L" and i: "\<not> isbadsem i" "sstate (semtab s i) = S_USED" "scount (semtab s i) > 0"
  shows "wait i s = Some (OK, upd_sem i (\<lambda>e. e\<lparr>scount := scount e - 1\<rparr>) s)"
    "kok (upd_sem i (\<lambda>e. e\<lparr>scount := scount e - 1\<rparr>) s) L"
proof -
  let ?f = "\<lambda>e. e\<lparr>scount := scount e - 1\<rparr>" and ?g = "\<lambda>e. e\<lparr>scount := i32 (scount e - 1)\<rparr>"
  note m = kokD(1)[OF k] and r = i(1)[unfolded not_isbadsem]
  have so: "sem_ok s L i" using semq_ok(4)[OF m] r by blast
  then have "i32 (scount (semtab s i) - 1) = scount (semtab s i) - 1"
    using i(3) by (intro i32_id) (simp_all add: sem_ok_def)
  then have "upd_sem i ?g s = upd_sem i ?f s" by (simp add: table_updates)
  then show "wait i s = Some (OK, upd_sem i ?f s)"
    using i by (simp add: wait_def Let_def)
  have "sem_ok (upd_sem i ?f s) L i" using so i(2,3) by (simp add: sem_ok_def)
  then have "kmid (upd_sem i ?f s) L" using kmid_upd_sem[OF m] by simp
  then show "kok (upd_sem i ?f s) L" using kokD(3,4)[OF k] by (simp add: kok_def)
qed

lemma wait_blocks:
  assumes k: "kok s L" and i: "\<not> isbadsem i" "sstate (semtab s i) = S_USED" "scount (semtab s i) \<le> 0"
    and nn: "currpid s \<noteq> NULLPROC"
  shows "\<exists>u t. kmid u (L(semq s i := L (semq s i) @ [currpid s])) \<and>
    semtab u = (semtab s)(i := (semtab s i)\<lparr>scount := scount (semtab s i) - 1\<rparr>) \<and>
    proctab u = (proctab s)(currpid s := (proctab s (currpid s))\<lparr>prstate := PR_WAIT, prsem := i\<rparr>) \<and>
    currpid u = currpid s \<and> keys u = keys s \<and>
    wait i s = Some (OK, t) \<and> resched u = Some t \<and>
    kok t (resched_L u (L(semq s i := L (semq s i) @ [currpid s]))) \<and> sched_eq u t \<and>
    currpid t = resched_pid u (L(semq s i := L (semq s i) @ [currpid s])) \<and>
    (\<forall>x. prstate (proctab t x) =
       resched_state u (L(semq s i := L (semq s i) @ [currpid s])) x)"
proof -
  let ?c = "currpid s" and ?q = "semq s i" and ?L = "L(semq s i := L (semq s i) @ [currpid s])"
  let ?f = "\<lambda>e. e\<lparr>scount := scount e - 1\<rparr>"
  let ?e = "(proctab s (currpid s))\<lparr>prstate := PR_WAIT, prsem := i\<rparr>"
  note m = kokD(1)[OF k] and r = i(1)[unfolded not_isbadsem]
  have so: "sem_ok s L i" and qq: "qid_ok (nextqid s) ?q" using semq_ok[OF m] r by blast+
  have ic: "i32 (scount (semtab s i) - 1) = scount (semtab s i) - 1"
    using i(3) scount_min[OF m _ _ i(2)] r by (intro i32_id) force+
  let ?s1 = "upd_proc ?c (\<lambda>e. e\<lparr>prstate := PR_WAIT, prsem := i\<rparr>) (upd_sem i ?f s)"
  have "\<not> isbadpid ?s1 ?c" using kokD(6)[OF k] by (simp add: isbadpid_def)
  then obtain qt where qt: "enqueue ?c ?q ?s1 = Some (?c, ?s1\<lparr>queuetab := qt\<rparr>)"
    "queues_wf qt (nextqid s) ?L" "same_keys (queuetab s) qt"
    using enqueue_wf[of ?s1 L ?q ?c] kmidD(5)[OF m] qq kokD(7)[OF k] by auto
  let ?u = "?s1\<lparr>queuetab := qt\<rparr>"
  have sq: "semq ?u = semq s" by simp
  have "kinv0 (s\<lparr>queuetab := qt, proctab := (proctab s)(?c := ?e)\<rparr>) ?L"
  proof (rule block_current[OF k nn _ _ _ _ , of qt ?q "L ?q" "[]"])
    show "queues_wf qt (nextqid s) ?L" "L ?q = L ?q @ []" using qt(2) by simp_all
    show "?q = sleepq s \<and> prstate ?e \<in> {PR_SLEEP, PR_RECTIM} \<or>
        (\<exists>ia. 0 \<le> ia \<and> ia < NSEM \<and> ?q = semq s ia \<and> prstate ?e = PR_WAIT \<and> prsem ?e = ia)"
      using r by auto
    show "qkey (qt x) = keys s x" for x using qt(3) by (simp add: same_keys_def)
  qed simp
  then have "kinv0 (upd_sem i ?f (s\<lparr>queuetab := qt, proctab := (proctab s)(?c := ?e)\<rparr>)) ?L"
    by (rule kinv0_upd_sem) simp
  also have "upd_sem i ?f (s\<lparr>queuetab := qt, proctab := (proctab s)(?c := ?e)\<rparr>) = ?u"
    by (simp add: table_updates)
  finally have ku: "kinv0 ?u ?L" .
  have "sem_ok ?u ?L j" if j: "0 \<le> j" "j < NSEM" for j
  proof (cases "j = i")
    case True
    then show ?thesis using so i(2,3) sq scount_min[OF m _ _ i(2)] r by (simp add: sem_ok_def)
  next
    case False
    then have "semq s j \<noteq> ?q" using kinv0D(11)[OF kmidD(1)[OF m] j] r by blast
    then show ?thesis using semq_ok(4)[OF m j] False sq by (simp add: sem_ok_def)
  qed
  moreover have "sleep_ok ?u ?L"
    using kmidD(11)[OF m] qt(3) semq_ok(3)[OF m, THEN not_sym] r
    by (simp add: sleep_ok_def same_keys_def table_updates)
  ultimately have mu: "kmid ?u ?L"
    using ku m by (simp add: kmid_def sems_ok_def table_updates)
  have nd: "ndefers (Defer ?u) = 0" using kokD(3)[OF k] by simp
  obtain t where t: "resched ?u = Some t" "kok t (resched_L ?u ?L)" "sched_eq ?u t"
    "currpid t = resched_pid ?u ?L" "\<And>p. prstate (proctab t p) = resched_state ?u ?L p"
    using resched_kok[OF mu nd] by blast
  have "upd_sem i (\<lambda>e. e\<lparr>scount := i32 (scount e - 1)\<rparr>) s = upd_sem i ?f s"
    using ic by (simp add: table_updates)
  moreover have "squeue (semtab ?s1 i) = ?q" by (simp add: semq_def)
  ultimately have "wait i s = Some (OK, t)"
    using i qt(1) t(1) kmidD(6,7)[OF m] by (simp add: wait_def Let_def proc_at_def)
  then show ?thesis
    using mu t qt(3) by (intro exI[of _ ?u] exI[of _ t]) (simp add: same_keys_def)
qed

lemma signal_none:
  assumes k: "kok s L" and i: "\<not> isbadsem i" "sstate (semtab s i) = S_USED"
    "0 \<le> scount (semtab s i)" "scount (semtab s i) < INT_MAX"
  shows "signal i s = Some (OK, upd_sem i (\<lambda>e. e\<lparr>scount := scount e + 1\<rparr>) s)"
    "kok (upd_sem i (\<lambda>e. e\<lparr>scount := scount e + 1\<rparr>) s) L"
proof -
  let ?f = "\<lambda>e. e\<lparr>scount := scount e + 1\<rparr>"
  note m = kokD(1)[OF k] and r = i(1)[unfolded not_isbadsem]
  have so: "sem_ok s L i" using semq_ok(4)[OF m] r by blast
  have "i32 (scount (semtab s i) + 1) = scount (semtab s i) + 1"
    using i(3,4) by (intro i32_id) simp_all
  then have "sem_inc i s = upd_sem i ?f s" by (simp add: sem_inc_def table_updates)
  then show "signal i s = Some (OK, upd_sem i ?f s)"
    using i by (simp add: signal_def)
  have "sem_ok (upd_sem i ?f s) L i" using so i(2-4) by (simp add: sem_ok_def)
  then have "kmid (upd_sem i ?f s) L" using kmid_upd_sem[OF m] by simp
  then show "kok (upd_sem i ?f s) L" using kokD(3,4)[OF k] by (simp add: kok_def)
qed

text \<open>The head of a semaphore's queue, taken off it while the semaphore changes: this serves
  signal, signaln, semdelete and semreset.\<close>

lemma sem_release:
  assumes k: "kinv s L" and i: "0 \<le> i" "i < NSEM" and f: "\<And>e. squeue (f e) = squeue e"
    and L: "L (semq s i) = p # ps"
    and qt: "queues_wf qt (nextqid s) (L(semq s i := ps))" "same_keys (queuetab s) qt"
  shows "detached ((upd_sem i f s)\<lparr>queuetab := qt\<rparr>) (L(semq s i := ps)) p"
proof -
  have k0: "kinv0 s L" and c: "prstate (proctab s (currpid s)) = PR_CURR"
    using k by (simp_all add: kinv_def)
  have q: "semq s i = sleepq s \<or> (\<exists>j. 0 \<le> j \<and> j < NSEM \<and> semq s i = semq s j)" using i by auto
  have "p \<noteq> currpid s" using waiting_not_current(1)[OF k0 q, of p] L c by auto
  moreover have "kinv0 (upd_sem i f s) L" using kinv0_upd_sem[of s L f i, OF k0 f] .
  ultimately show ?thesis
    using detach[of "upd_sem i f s" L "semq s i" "[]" p ps qt] q L qt semq_upd_sem[of f i s] f
    by (simp add: same_keys_def)
qed

lemma sems_ok_release:
  assumes k: "kmid s L" and i: "0 \<le> i" "i < NSEM" "sstate (semtab s i) = S_USED" "scount (semtab s i) < 0"
    and L: "L (semq s i) = p # ps"
  shows "sems_ok ((upd_sem i (\<lambda>e. e\<lparr>scount := scount e + 1\<rparr>) s)\<lparr>queuetab := qt\<rparr>) (L(semq s i := ps))"
  unfolding sems_ok_def
proof (intro allI impI)
  fix j assume j: "0 \<le> j \<and> j < NSEM"
  let ?t = "(upd_sem i (\<lambda>e. e\<lparr>scount := scount e + 1\<rparr>) s)\<lparr>queuetab := qt\<rparr>"
  have sq: "semq ?t = semq s" by simp
  show "sem_ok ?t (L(semq s i := ps)) j"
  proof (cases "j = i")
    case True
    have "int (length ps) = - scount (semtab s i) - 1"
      using semq_ok(4)[OF k i(1,2)] i L by (simp add: sem_ok_def) arith
    then have "length ps = nat (- scount (semtab s i) - 1)" by linarith
    then show ?thesis using True semq_ok(4)[OF k i(1,2)] i L sq by (simp add: sem_ok_def)
  next
    case False
    then have "semq s j \<noteq> semq s i" using kinv0D(11)[OF kmidD(1)[OF k] _ _ i(1,2)] j by blast
    then show ?thesis using semq_ok(4)[OF k, of j] j False sq by (simp add: sem_ok_def)
  qed
qed

lemma sem_inc_eq:
  "INT_MIN \<le> scount (semtab s i) \<Longrightarrow> scount (semtab s i) < INT_MAX \<Longrightarrow>
     sem_inc i s = upd_sem i (\<lambda>e. e\<lparr>scount := scount e + 1\<rparr>) s"
  by (simp add: sem_inc_def table_updates i32_id)

lemma signal_wakes:
  assumes k: "kok s L" and i: "\<not> isbadsem i" "sstate (semtab s i) = S_USED" "scount (semtab s i) < 0"
    and L: "L (semq s i) = p # ps"
  shows "\<exists>qt t. signal i s = Some (OK, t) \<and> same_keys (queuetab s) qt \<and>
    made_ready ((upd_sem i (\<lambda>e. e\<lparr>scount := scount e + 1\<rparr>) s)\<lparr>queuetab := qt\<rparr>)
      (L(semq s i := ps)) p t"
proof -
  let ?f = "\<lambda>e. e\<lparr>scount := scount e + 1\<rparr>" and ?q = "semq s i"
  note m = kokD(1)[OF k] and r = i(1)[unfolded not_isbadsem]
  have so: "sem_ok s L i" and qq: "qid_ok (nextqid s) ?q" using semq_ok[OF m] r by blast+
  have inc: "sem_inc i s = upd_sem i ?f s" using sem_inc_eq so i(3) by (simp add: sem_ok_def)
  let ?L = "L(?q := ps)"
  obtain qt where qt: "dequeue ?q (upd_sem i ?f s) = Some (p, (upd_sem i ?f s)\<lparr>queuetab := qt\<rparr>)"
    "queues_wf qt (nextqid s) ?L" "same_keys (queuetab s) qt"
    using dequeue_wf(2)[of "upd_sem i ?f s" L ?q p ps] kmidD(5)[OF m] qq L by auto
  let ?v = "(upd_sem i ?f s)\<lparr>queuetab := qt\<rparr>"
  have d: "detached ?v ?L p"
    using sem_release[OF kokD(2)[OF k] _ _ _ L qt(2,3), of ?f] r by simp
  have sm: "sems_ok ?v ?L" using sems_ok_release[OF m _ _ i(2,3) L, of qt] r by simp
  have ns: "0 \<le> nextsem ?v" "nextsem ?v < NSEM" "ndefers (Defer ?v) = 0"
    using m kokD(3)[OF k] by (simp_all add: kmid_def table_updates)
  have "sleep_ok ?v ?L"
    using kmidD(11)[OF m] qt(3) semq_ok(3)[OF m, THEN not_sym] r
    by (simp add: sleep_ok_def same_keys_def table_updates)
  then obtain t where t: "ready p ?v = Some (OK, t)" "made_ready ?v ?L p t"
    using ready_kok[OF d sm ns] by blast
  have "squeue (semtab (upd_sem i ?f s) i) = ?q" by (simp add: semq_def)
  then have "signal i s = Some (OK, t)"
    using i qt(1) t(1) by (simp add: signal_def inc Let_def)
  then show ?thesis using t(2) qt(3) by blast
qed

text \<open>The calls that release several processes defer rescheduling. Inside the deferral the current
  process stays PR_CURR; only the queues and the released processes change. The semaphore that is
  released is out of order until the call is through, so sems_ok is not part of the loop
  invariant.\<close>

definition kdefer :: "kst \<Rightarrow> (int \<Rightarrow> int list) \<Rightarrow> bool" where
  "kdefer s L \<longleftrightarrow> kinv s L \<and> ndefers (Defer s) = 1 \<and> 0 \<le> nextsem s \<and> nextsem s < NSEM"

definition readied :: "kst \<Rightarrow> int set \<Rightarrow> (int \<Rightarrow> procent)" where
  "readied s P = (\<lambda>p. if p \<in> P then (proctab s p)\<lparr>prstate := PR_READY\<rparr> else proctab s p)"

definition same_but :: "kst \<Rightarrow> int \<Rightarrow> (int \<Rightarrow> int list) \<Rightarrow> (int \<Rightarrow> int list) \<Rightarrow> bool" where
  "same_but s q L L' \<longleftrightarrow> (\<forall>x. x \<noteq> readylist s \<longrightarrow> x \<noteq> q \<longrightarrow> L' x = L x)"

lemma readied_empty [simp]: "readied s {} = proctab s"
  by (simp add: readied_def)

lemma readied_trans: "proctab t = readied s P \<Longrightarrow> readied t Q = readied s (P \<union> Q)"
  by (auto simp: readied_def fun_eq_iff)

lemma readied_frame [simp]:
  "readied (s\<lparr>Defer := d\<rparr>) P = readied s P" "readied (upd_sem i f s) P = readied s P"
  "same_but (s\<lparr>Defer := d\<rparr>) q L L' = same_but s q L L'"
  "same_but (upd_sem i f s) q L L' = same_but s q L L'"
  by (simp_all add: readied_def same_but_def fun_eq_iff)

lemma release_gen:
  assumes k: "kdefer s L" and q: "q = sleepq s \<or> (\<exists>i. 0 \<le> i \<and> i < NSEM \<and> q = semq s i)"
    and L: "L q = p # ps"
    and qt: "queues_wf qt (nextqid s) (L(q := ps))" "same_keys (queuetab s) qt"
  shows "\<exists>t L'. ready p (s\<lparr>queuetab := qt\<rparr>) = Some (OK, t) \<and> kdefer t L' \<and>
    L' q = ps \<and> same_but s q L L' \<and> sched_eq s t \<and>
    currpid t = currpid s \<and> proctab t = readied s {p}"
proof -
  let ?v = "s\<lparr>queuetab := qt\<rparr>" and ?L = "L(q := ps)"
  have kk: "kinv s L" "kinv0 s L" and nd: "ndefers (Defer s) = 1"
    and c: "prstate (proctab s (currpid s)) = PR_CURR"
    using k by (simp_all add: kdefer_def kinv_def)
  have nc: "p \<noteq> currpid s" using waiting_not_current(1)[OF kk(2) q, of p] L c by auto
  have d: "detached ?v ?L p"
    using detach[OF kk(2) q, of "[]" p ps qt] L nc qt by (simp add: same_keys_def)
  obtain t where t: "ready p ?v = Some (OK, t)" "kinv0 t (enlist ?v ?L p)" "sched_eq ?v t"
    "currpid t = currpid s" "Defer t = (Defer s)\<lparr>attempt := True\<rparr>"
    "proctab t = (proctab s)(p := (proctab s p)\<lparr>prstate := PR_READY\<rparr>)"
    using ready_deferred[OF d] nd by auto
  have "kinv t (enlist ?v ?L p)" using t(2,4,6) c nc by (simp add: kinv_def)
  moreover have "nextsem t = nextsem s" using sched_eqD(7)[OF t(3)] by simp
  moreover have "q \<noteq> readylist s" using q kinv0D(4,5)[OF kk(2)] by (elim disjE exE) simp_all
  moreover have "sched_eq s t"
    using sched_eq_trans[OF sched_eq_queuetab t(3)] qt(2) by (simp add: same_keys_def)
  ultimately show ?thesis
    using t k by (intro exI[of _ t] exI[of _ "enlist ?v ?L p"])
      (simp add: kdefer_def enlist_def same_but_def readied_def fun_eq_iff)
qed

lemma release_one:
  assumes k: "kdefer s L" and i: "0 \<le> i" "i < NSEM" and f: "\<And>e. squeue (f e) = squeue e"
    and L: "L (semq s i) = p # ps"
    and qt: "queues_wf qt (nextqid s) (L(semq s i := ps))" "same_keys (queuetab s) qt"
  shows "\<exists>t L'. ready p ((upd_sem i f s)\<lparr>queuetab := qt\<rparr>) = Some (OK, t) \<and> kdefer t L' \<and>
    L' (semq s i) = ps \<and> same_but s (semq s i) L L' \<and> sched_eq (upd_sem i f s) t \<and>
    currpid t = currpid s \<and> proctab t = readied s {p}"
proof -
  have "kdefer (upd_sem i f s) L"
    using k kinv0_upd_sem[of s L f i, OF _ f] by (simp add: kdefer_def kinv_def)
  then show ?thesis
    using release_gen[of "upd_sem i f s" L "semq s i" p ps qt] i L qt semq_upd_sem[of f i s, OF f] by auto
qed

lemma defer_start:
  assumes "kinv s L" "ndefers (Defer s) = 0" "0 \<le> nextsem s" "nextsem s < NSEM"
  shows "\<exists>d. resched_cntl DEFER_START s = Some (OK, s\<lparr>Defer := d\<rparr>) \<and> kdefer (s\<lparr>Defer := d\<rparr>) L"
proof -
  let ?t = "s\<lparr>Defer := \<lparr>ndefers = 1, attempt = False\<rparr>\<rparr>"
  have "resched_cntl DEFER_START s = Some (OK, ?t)"
    using assms(2) by (simp add: resched_cntl_def Let_def i32_id)
  moreover have "kdefer ?t L"
    using assms kinv0_cong[of s L ?t] by (simp add: kdefer_def kinv_def)
  ultimately show ?thesis by blast
qed

lemma defer_stop:
  assumes k: "kdefer s L" and sm: "sems_ok s L" "sleep_ok s L"
  shows "\<exists>t L'. resched_cntl DEFER_STOP s = Some (OK, t) \<and> kok t L' \<and> sched_eq s t \<and>
    (\<forall>q. q \<noteq> readylist s \<longrightarrow> L' q = L q) \<and>
    (\<forall>x. prstate (proctab s x) \<notin> {PR_CURR, PR_READY} \<longrightarrow>
       prstate (proctab t x) = prstate (proctab s x)) \<and>
    (\<forall>x. prstate (proctab s x) \<in> {PR_CURR, PR_READY} \<longrightarrow>
       prstate (proctab t x) \<in> {PR_CURR, PR_READY})"
proof -
  let ?s = "s\<lparr>Defer := (Defer s)\<lparr>ndefers := 0\<rparr>\<rparr>"
  have m: "kmid ?s L" and c: "prstate (proctab s (currpid s)) = PR_CURR"
    using k kinv0_cong[of s L ?s] sems_ok_cong[OF sm(1), of ?s L] sm(2)
    by (simp_all add: kdefer_def kmid_def kinv_def sleep_ok_def)
  have nd: "ndefers (Defer s) = 1" using k by (simp add: kdefer_def)
  show ?thesis
  proof (cases "attempt (Defer s)")
    case False
    then have "resched_cntl DEFER_STOP s = Some (OK, ?s)"
      using nd by (simp add: resched_cntl_def DEFER_START_def DEFER_STOP_def Let_def)
    moreover have "kok ?s L" using m c by (simp add: kok_def)
    ultimately show ?thesis by (intro exI[of _ ?s] exI[of _ L]) simp
  next
    case True
    obtain t where t: "resched ?s = Some t" "kok t (resched_L ?s L)" "sched_eq ?s t"
      "\<And>p. prstate (proctab t p) = resched_state ?s L p"
      using resched_kok[OF m] by auto
    have "resched_cntl DEFER_STOP s = Some (OK, t)"
      using nd True t(1) by (simp add: resched_cntl_def DEFER_START_def DEFER_STOP_def Let_def)
    moreover have "sched_eq s t" using sched_eq_trans[OF sched_eq_fields(3) t(3)] .
    moreover have "prstate (proctab t x) = prstate (proctab s x)"
      if "prstate (proctab s x) \<notin> {PR_CURR, PR_READY}" for x
      using that t(4)[of x] resched_pid_state[OF kmidD(1)[OF m]] by (auto simp: resched_state_def)
    moreover have "prstate (proctab t x) \<in> {PR_CURR, PR_READY}"
      if "prstate (proctab s x) \<in> {PR_CURR, PR_READY}" for x
      using that t(4)[of x] by (auto simp: resched_state_def)
    ultimately show ?thesis
      using t(2) by (intro exI[of _ t] exI[of _ "resched_L ?s L"]) (simp add: resched_L_other)
  qed
qed

lemma kdeferD:
  assumes "kdefer s L"
  shows "kinv0 s L" "queues_wf (queuetab s) (nextqid s) L"
    "0 \<le> i \<Longrightarrow> i < NSEM \<Longrightarrow> qid_ok (nextqid s) (semq s i)" "\<not> isbadpid s (currpid s)"
proof -
  show k: "kinv0 s L" using assms by (simp add: kdefer_def kinv_def)
  show "queues_wf (queuetab s) (nextqid s) L" using kinv0D(1)[OF k] .
  show "0 \<le> i \<Longrightarrow> i < NSEM \<Longrightarrow> qid_ok (nextqid s) (semq s i)" using kinv0D(5)[OF k] by blast
  show "\<not> isbadpid s (currpid s)"
    using kinv0D(9,10)[OF k] assms by (simp add: kdefer_def kinv_def isbadpid_def)
qed

lemma same_but_trans:
  "same_but s q L L' \<Longrightarrow> readylist t = readylist s \<Longrightarrow> same_but t q L' L'' \<Longrightarrow> same_but s q L L''"
  by (simp add: same_but_def)

text \<open>One iteration of signaln.\<close>

lemma sched_eq_upd_sem:
  assumes "sched_eq s t"
  shows "sched_eq (upd_sem i f s) (upd_sem i f t)"
proof -
  have e: "sched_rest t = sched_rest s" using assms by (simp add: sched_eq_def)
  have "sched_rest (upd_sem i f u) = upd_sem i f (sched_rest u)" for u
    by (simp add: sched_rest_def table_updates)
  then show ?thesis using e assms by (simp add: sched_eq_def asleep_def)
qed

lemma upd_sem_comp: "upd_sem i g (upd_sem i f s) = upd_sem i (\<lambda>e. g (f e)) s"
  by (simp add: table_updates)

lemma upd_sem_same: "upd_sem i (\<lambda>e. e\<lparr>scount := scount e + 0\<rparr>) s = s"
  by (simp add: table_updates)

lemma signaln_step:
  assumes k: "kdefer s L" and i: "0 \<le> i" "i < NSEM"
    and len: "length (L (semq s i)) = nat (- scount (semtab s i))"
    and r: "INT_MIN \<le> scount (semtab s i)" "scount (semtab s i) < INT_MAX"
  shows "\<exists>t L'. signaln_body i (n, s) = Some (n - 1, t) \<and> kdefer t L' \<and>
    L' (semq s i) = drop 1 (L (semq s i)) \<and> same_but s (semq s i) L L' \<and>
    sched_eq (upd_sem i (\<lambda>e. e\<lparr>scount := scount e + 1\<rparr>) s) t \<and> currpid t = currpid s \<and>
    proctab t = readied s (set (take 1 (L (semq s i))))"
proof -
  let ?f = "\<lambda>e. e\<lparr>scount := scount e + 1\<rparr>" and ?q = "semq s i"
  have inc: "sem_inc i s = upd_sem i ?f s" using sem_inc_eq[of s i] r by simp
  show ?thesis
  proof (cases "scount (semtab s i) < 0")
    case False
    let ?t = "upd_sem i ?f s"
    have "L ?q = []" using len False by simp
    moreover have "kdefer ?t L"
      using k kinv0_upd_sem[OF kdeferD(1)[OF k], of ?f i]
      by (simp add: kdefer_def kinv_def table_updates)
    ultimately show ?thesis
      using False by (intro exI[of _ ?t] exI[of _ L]) (simp add: signaln_body_def inc same_but_def)
  next
    case True
    then have "L ?q \<noteq> []" using len by auto
    then obtain p ps where L: "L ?q = p # ps" by (cases "L ?q") auto
    obtain qt where qt: "dequeue ?q (upd_sem i ?f s) = Some (p, (upd_sem i ?f s)\<lparr>queuetab := qt\<rparr>)"
      "queues_wf qt (nextqid s) (L(?q := ps))" "same_keys (queuetab s) qt"
      using dequeue_wf(2)[of "upd_sem i ?f s" L ?q p ps] kdeferD(2)[OF k] kdeferD(3)[OF k i] L by auto
    obtain t L' where t: "ready p ((upd_sem i ?f s)\<lparr>queuetab := qt\<rparr>) = Some (OK, t)" "kdefer t L'"
      "L' ?q = ps" "same_but s ?q L L'" "sched_eq (upd_sem i ?f s) t" "currpid t = currpid s"
      "proctab t = readied s {p}"
      using release_one[OF k i _ L qt(2,3), of ?f] by auto
    have "squeue (semtab (upd_sem i ?f s) i) = ?q" by (simp add: semq_def)
    then have "signaln_body i (n, s) = Some (n - 1, t)"
      using True qt(1) t(1) by (simp add: signaln_body_def inc Let_def)
    then show ?thesis using t L by (intro exI[of _ t] exI[of _ L']) simp
  qed
qed

lemma signaln_loop:
  assumes "kdefer s L" and i: "0 \<le> i" "i < NSEM"
    and "length (L (semq s i)) = nat (- scount (semtab s i))"
    and "INT_MIN \<le> scount (semtab s i)" "scount (semtab s i) + int n \<le> INT_MAX"
  shows "\<exists>t L'. c_while (\<lambda>(count, s). count > 0) (signaln_body i) (int n, s) = Some (0, t) \<and>
    kdefer t L' \<and> L' (semq s i) = drop n (L (semq s i)) \<and> same_but s (semq s i) L L' \<and>
    sched_eq (upd_sem i (\<lambda>e. e\<lparr>scount := scount e + int n\<rparr>) s) t \<and> currpid t = currpid s \<and>
    proctab t = readied s (set (take n (L (semq s i))))"
  using assms(1,4-6)
proof (induction n arbitrary: s L)
  case 0
  then show ?case
    by (intro exI[of _ s] exI[of _ L]) (simp add: c_while_stop same_but_def upd_sem_same[simplified])
next
  case (Suc n)
  let ?q = "semq s i" and ?f = "\<lambda>e. e\<lparr>scount := scount e + 1\<rparr>"
  obtain t L' where t: "signaln_body i (int (Suc n), s) = Some (int (Suc n) - 1, t)" "kdefer t L'"
    "L' ?q = drop 1 (L ?q)" "same_but s ?q L L'" "sched_eq (upd_sem i ?f s) t"
    "currpid t = currpid s" "proctab t = readied s (set (take 1 (L ?q)))"
    using signaln_step[OF Suc.prems(1) i Suc.prems(2,3), of "int (Suc n)"] Suc.prems(4) by force
  have st: "scount (semtab t i) = scount (semtab s i) + 1" "semq t = semq s" "readylist t = readylist s"
    using sched_eqD(4,6,17)[OF t(5)] by simp_all
  have "length (L' (semq t i)) = nat (- scount (semtab t i))"
    using Suc.prems(2) st t(3) by simp
  then obtain u L'' where u: "c_while (\<lambda>(count, s). count > 0) (signaln_body i) (int n, t) = Some (0, u)"
    "kdefer u L''" "L'' ?q = drop n (L' ?q)" "same_but t ?q L' L''"
    "sched_eq (upd_sem i (\<lambda>e. e\<lparr>scount := scount e + int n\<rparr>) t) u" "currpid u = currpid t"
    "proctab u = readied t (set (take n (L' ?q)))"
    using Suc.IH[OF t(2)] Suc.prems(3,4) st by auto
  have "sched_eq (upd_sem i (\<lambda>e. e\<lparr>scount := scount e + int (Suc n)\<rparr>) s) u"
    using sched_eq_trans[OF sched_eq_upd_sem[OF t(5)] u(5)] by (simp add: upd_sem_comp add_ac)
  moreover have "c_while (\<lambda>(count, s). count > 0) (signaln_body i) (int (Suc n), s) = Some (0, u)"
    using c_while_step[of "\<lambda>(count, s). count > 0" "(int (Suc n), s)" "signaln_body i" "(int n, t)"] t(1) u(1)
    by simp
  moreover have "proctab u = readied s (set (take (Suc n) (L ?q)))"
    using u(7) readied_trans[OF t(7), of "set (take n (L' ?q))"] t(3) by (cases "L ?q") simp_all
  ultimately show ?case
    using u t st same_but_trans[OF t(4) st(3) u(4)]
    by (intro exI[of _ u] exI[of _ L'']) simp
qed

text \<open>The loops of semdelete and semreset empty the queue.\<close>

lemma semdelete_loop:
  assumes "kdefer s L" and i: "0 \<le> i" "i < NSEM"
    and "length (L (semq s i)) = nat (- scount (semtab s i))"
    and "INT_MIN \<le> scount (semtab s i)" "scount (semtab s i) < INT_MAX"
  shows "\<exists>t L' c. c_loop (semdelete_iter i) s = Some t \<and>
    kdefer t L' \<and> L' (semq s i) = [] \<and> same_but s (semq s i) L L' \<and> INT_MIN \<le> c \<and> c \<le> INT_MAX \<and>
    sched_eq (upd_sem i (\<lambda>e. e\<lparr>scount := c\<rparr>) s) t \<and> currpid t = currpid s \<and>
    proctab t = readied s (set (L (semq s i)))"
  using assms(1,4-6)
proof (induction "L (semq s i)" arbitrary: s L)
  case Nil
  let ?t = "upd_sem i (\<lambda>e. e\<lparr>scount := scount e + 1\<rparr>) s" and ?c = "scount (semtab s i) + 1"
  have "sem_inc i s = ?t" using sem_inc_eq[of s i] Nil by simp
  then have "c_loop (semdelete_iter i) s = Some ?t"
    using Nil by (intro c_loop_Inr) (simp add: semdelete_iter_def)
  moreover have "kdefer ?t L"
    using Nil.prems(1) kinv0_upd_sem[OF kdeferD(1)[OF Nil.prems(1)], of "\<lambda>e. e\<lparr>scount := scount e + 1\<rparr>" i]
    by (simp add: kdefer_def kinv_def table_updates)
  moreover have "upd_sem i (\<lambda>e. e\<lparr>scount := ?c\<rparr>) s = ?t" by (simp add: table_updates)
  ultimately show ?case
    using Nil by (intro exI[of _ ?t] exI[of _ L] exI[of _ ?c]) (simp add: same_but_def)
next
  case (Cons p ps)
  let ?q = "semq s i" and ?f = "\<lambda>e. e\<lparr>scount := scount e + 1\<rparr>"
  note k = Cons.prems(1) and L = Cons.hyps(2)[symmetric]
  have inc: "sem_inc i s = upd_sem i ?f s" using sem_inc_eq[of s i] Cons.prems(3,4) by simp
  have neg: "scount (semtab s i) < 0" using Cons.prems(2) L by (cases "scount (semtab s i) < 0") auto
  obtain qt where qt: "getfirst ?q (upd_sem i ?f s) = Some (p, (upd_sem i ?f s)\<lparr>queuetab := qt\<rparr>)"
    "queues_wf qt (nextqid s) (L(?q := ps))" "same_keys (queuetab s) qt"
    using getfirst_wf(2)[of "upd_sem i ?f s" L ?q p ps] kdeferD(2)[OF k] kdeferD(3)[OF k i] L by auto
  obtain t L' where t: "ready p ((upd_sem i ?f s)\<lparr>queuetab := qt\<rparr>) = Some (OK, t)" "kdefer t L'"
    "L' ?q = ps" "same_but s ?q L L'" "sched_eq (upd_sem i ?f s) t" "currpid t = currpid s"
    "proctab t = readied s {p}"
    using release_one[OF k i _ L qt(2,3), of ?f] by auto
  have st: "scount (semtab t i) = scount (semtab s i) + 1" "semq t = semq s" "readylist t = readylist s"
    using sched_eqD(4,6,17)[OF t(5)] by simp_all
  have "ps = L' (semq t i)" using t(3) st(2) by simp
  moreover have "length (L' (semq t i)) = nat (- scount (semtab t i))"
    using Cons.prems(2) st t(3) L neg by simp
  ultimately obtain u L'' c where u: "c_loop (semdelete_iter i) t = Some u"
    "kdefer u L''" "L'' (semq t i) = []" "same_but t (semq t i) L' L''" "INT_MIN \<le> c" "c \<le> INT_MAX"
    "sched_eq (upd_sem i (\<lambda>e. e\<lparr>scount := c\<rparr>) t) u" "currpid u = currpid t"
    "proctab u = readied t (set (L' (semq t i)))"
    using Cons.hyps(1)[OF _ t(2)] Cons.prems(3) st neg by auto
  have "squeue (semtab (upd_sem i ?f s) i) = ?q" by (simp add: semq_def)
  then have "semdelete_iter i s = Some (Inl t)"
    using neg qt(1) t(1) by (simp add: semdelete_iter_def inc Let_def)
  then have "c_loop (semdelete_iter i) s = Some u" using u(1) by (simp add: c_loop_Inl)
  moreover have "sched_eq (upd_sem i (\<lambda>e. e\<lparr>scount := c\<rparr>) s) u"
    using sched_eq_trans[OF sched_eq_upd_sem[OF t(5)] u(7)] by (simp add: upd_sem_comp)
  moreover have "proctab u = readied s (set (L ?q))"
    using u(9) readied_trans[OF t(7)] t(3) st(2) L by simp
  ultimately show ?case
    using u t st same_but_trans[OF t(4) st(3)]
    by (intro exI[of _ u] exI[of _ L''] exI[of _ c]) simp
qed

lemma semreset_loop:
  assumes "kdefer s L" and i: "0 \<le> i" "i < NSEM" and "q = semq s i"
  shows "\<exists>t L'. c_loop (semreset_iter q) s = Some t \<and>
    kdefer t L' \<and> L' q = [] \<and> same_but s q L L' \<and> sched_eq s t \<and> currpid t = currpid s \<and>
    proctab t = readied s (set (L q))"
  using assms(1,4)
proof (induction "L q" arbitrary: s L)
  case Nil
  have "getfirst q s = Some (EMPTY, s)"
    using getfirst_wf(1)[OF kdeferD(2)[OF Nil.prems(1)] kdeferD(3)[OF Nil.prems(1) i]] Nil by simp
  then have "c_loop (semreset_iter q) s = Some s"
    by (intro c_loop_Inr) (simp add: semreset_iter_def)
  then show ?case
    using Nil by (intro exI[of _ s] exI[of _ L]) (simp add: same_but_def)
next
  case (Cons p ps)
  note k = Cons.prems(1) and L = Cons.hyps(2)[symmetric] and q = Cons.prems(2)
  obtain qt where qt: "getfirst q s = Some (p, s\<lparr>queuetab := qt\<rparr>)"
    "queues_wf qt (nextqid s) (L(q := ps))" "same_keys (queuetab s) qt"
    using getfirst_wf(2)[of s L q p ps] kdeferD(2)[OF k] kdeferD(3)[OF k i] L q by auto
  have id: "upd_sem i id s = s" by (simp add: table_updates)
  obtain t L' where t: "ready p (s\<lparr>queuetab := qt\<rparr>) = Some (OK, t)" "kdefer t L'"
    "L' q = ps" "same_but s q L L'" "sched_eq s t" "currpid t = currpid s"
    "proctab t = readied s {p}"
    using release_one[OF k i, of id p ps qt] L qt(2,3) q id by auto
  have st: "semq t = semq s" "readylist t = readylist s" using sched_eqD(4,17)[OF t(5)] by simp_all
  obtain u L'' where u: "c_loop (semreset_iter q) t = Some u"
    "kdefer u L''" "L'' q = []" "same_but t q L' L''" "sched_eq t u" "currpid u = currpid t"
    "proctab u = readied t (set (L' q))"
    using Cons.hyps(1)[OF _ t(2)] t(3) st q by auto
  have "p \<noteq> EMPTY"
    using kinv0_member(1)[OF kdeferD(1)[OF k] kdeferD(3)[OF k i], of p] L q by (auto simp: EMPTY_def)
  then have "semreset_iter q s = Some (Inl t)"
    using qt(1) t(1) by (simp add: semreset_iter_def)
  then have "c_loop (semreset_iter q) s = Some u" using u(1) by (simp add: c_loop_Inl)
  moreover have "proctab u = readied s (set (L q))"
    using u(7) readied_trans[OF t(7)] t(3) L by simp
  ultimately show ?case
    using u t same_but_trans[OF t(4) st(2) u(4)] sched_eq_trans[OF t(5) u(5)]
    by (intro exI[of _ u] exI[of _ L'']) simp
qed

text \<open>The three calls.\<close>

lemma sems_ok_one:
  assumes sm: "sems_ok s L" and inj: "\<And>j. 0 \<le> j \<Longrightarrow> j < NSEM \<Longrightarrow> j \<noteq> i \<Longrightarrow> semq s j \<noteq> semq s i \<and> semq s j \<noteq> readylist s"
    and e: "semtab t = (semtab s)(i := e)" "semq t = semq s"
    and fr: "same_but s (semq s i) L L'"
    and i: "sem_ok t L' i"
  shows "sems_ok t L'"
  unfolding sems_ok_def
proof (intro allI impI)
  fix j assume j: "0 \<le> j \<and> j < NSEM"
  show "sem_ok t L' j"
  proof (cases "j = i")
    case False
    then have "L' (semq s j) = L (semq s j)" using fr inj[of j] j by (simp add: same_but_def)
    then show ?thesis using sm j False e by (simp add: sems_ok_def sem_ok_def)
  qed (use i in simp)
qed

lemma semq_inj:
  assumes "kinv0 s L" "0 \<le> i" "i < NSEM" "0 \<le> j" "j < NSEM" "j \<noteq> i"
  shows "semq s j \<noteq> semq s i \<and> semq s j \<noteq> readylist s"
  using kinv0D(5)[OF assms(1,4,5)] kinv0D(11)[OF assms(1,4,5,2,3)] assms(6) by blast

text \<open>The state after a deferred release: what the caller sees.\<close>

definition released :: "kst \<Rightarrow> (int \<Rightarrow> int list) \<Rightarrow> int \<Rightarrow> int set \<Rightarrow> int list \<Rightarrow> sentry \<Rightarrow> kst \<Rightarrow> (int \<Rightarrow> int list) \<Rightarrow> bool" where
  "released s L i P rest e t L' \<longleftrightarrow> kok t L' \<and> L' (semq s i) = rest \<and> same_but s (semq s i) L L' \<and>
     semtab t = (semtab s)(i := e) \<and>
     (\<forall>p\<in>P. prstate (proctab t p) \<in> {PR_CURR, PR_READY}) \<and>
     (\<forall>p. p \<notin> P \<and> prstate (proctab s p) \<notin> {PR_CURR, PR_READY} \<longrightarrow>
        prstate (proctab t p) = prstate (proctab s p)) \<and>
     (\<forall>p. prhasmsg (proctab t p) = prhasmsg (proctab s p))"

lemma released_stop:
  assumes k: "kdefer t L'" and sm: "sems_ok t L'" "sleep_ok t L'" and q: "L' (semq s i) = rest"
    and i: "semq s i \<noteq> readylist s" "readylist t = readylist s"
    and fr: "same_but s (semq s i) L L'" and e: "semtab t = (semtab s)(i := e)"
    and pt: "proctab t = readied s P"
  shows "\<exists>u L''. resched_cntl DEFER_STOP t = Some (OK, u) \<and> released s L i P rest e u L'' \<and> sched_eq t u"
proof -
  obtain u L'' where u: "resched_cntl DEFER_STOP t = Some (OK, u)" "kok u L''" "sched_eq t u"
    "\<And>q. q \<noteq> readylist t \<Longrightarrow> L'' q = L' q"
    "\<And>x. prstate (proctab t x) \<notin> {PR_CURR, PR_READY} \<Longrightarrow> prstate (proctab u x) = prstate (proctab t x)"
    "\<And>x. prstate (proctab t x) \<in> {PR_CURR, PR_READY} \<Longrightarrow> prstate (proctab u x) \<in> {PR_CURR, PR_READY}"
    using defer_stop[OF k sm] by blast
  have "same_but s (semq s i) L L''" using fr u(4) i(2) by (simp add: same_but_def)
  moreover have "prstate (proctab u p) \<in> {PR_CURR, PR_READY}" if "p \<in> P" for p
    using u(6)[of p] that by (simp add: pt readied_def)
  moreover have "prstate (proctab u p) = prstate (proctab s p)"
    if "p \<notin> P" "prstate (proctab s p) \<notin> {PR_CURR, PR_READY}" for p
    using u(5)[of p] that by (simp add: pt readied_def)
  moreover have "prhasmsg (proctab u p) = prhasmsg (proctab s p)" for p
    using sched_eq_proc(3)[OF u(3)] by (simp add: pt readied_def)
  ultimately show ?thesis
    using u(1-4) q i e sched_eqD(6)[OF u(3)]
    by (intro exI[of _ u] exI[of _ L'']) (simp add: released_def)
qed

lemma same_but_sleep:
  assumes k: "kmid s L" "0 \<le> i" "i < NSEM" and t: "kdefer t L'" "same_but s (semq s i) L L'"
    and u: "sched_eq u t" "sleepq u = sleepq s" "sleep_ok u L"
  shows "sleep_ok t L'"
proof (rule sched_eq_due(2)[OF u(1) kdeferD(1)[OF t(1)] _ u(3)])
  show "L' (sleepq u) = L (sleepq u)"
    using t(2) semq_ok(3)[OF k] kmidD(10)[OF k(1)] u(2) unfolding same_but_def by metis
qed

lemma signaln_ok:
  assumes k: "kok s L" and i: "\<not> isbadsem i" "sstate (semtab s i) = S_USED"
    and n: "0 \<le> n" "scount (semtab s i) + n \<le> INT_MAX"
  shows "\<exists>t L'. signaln i n s = Some (OK, t) \<and>
    released s L i (set (take (nat n) (L (semq s i)))) (drop (nat n) (L (semq s i)))
      ((semtab s i)\<lparr>scount := scount (semtab s i) + n\<rparr>) t L'"
proof -
  note m = kokD(1)[OF k] and r = i(1)[unfolded not_isbadsem]
  have so: "sem_ok s L i" using semq_ok(4)[OF m] r by blast
  let ?q = "semq s i" and ?P = "set (take (nat n) (L (semq s i)))"
  let ?e = "(semtab s i)\<lparr>scount := scount (semtab s i) + n\<rparr>"
  obtain d where d: "resched_cntl DEFER_START s = Some (OK, s\<lparr>Defer := d\<rparr>)" "kdefer (s\<lparr>Defer := d\<rparr>) L"
    using defer_start[OF kokD(2,3)[OF k] kmidD(3,4)[OF kokD(1)[OF k]]] by blast
  let ?s = "s\<lparr>Defer := d\<rparr>"
  obtain t L' where t: "c_while (\<lambda>(count, s). count > 0) (signaln_body i) (n, ?s) = Some (0, t)"
    "kdefer t L'" "L' ?q = drop (nat n) (L ?q)" "same_but s ?q L L'"
    "sched_eq (upd_sem i (\<lambda>e. e\<lparr>scount := scount e + n\<rparr>) ?s) t" "currpid t = currpid s"
    "proctab t = readied s ?P"
    using signaln_loop[OF d(2), of i "nat n"] so i(2) n r
    by (auto simp: sem_ok_def)
  have st: "semtab t = (semtab s)(i := ?e)" "semq t = semq s" "readylist t = readylist s"
    using sched_eqD(4,6,17)[OF t(5)] by simp_all
  have "sem_ok t L' i" using so i(2) n t(3) st by (simp add: sem_ok_def)
  then have sm: "sems_ok t L'"
    using sems_ok_one[OF kmidD(2)[OF m] semq_inj[OF kmidD(1)[OF m]] st(1,2) t(4)] r by blast
  have sl: "sleep_ok t L'"
    using same_but_sleep[OF m _ _ t(2,4,5)] r kmidD(11)[OF m] by simp
  obtain u L'' where u: "resched_cntl DEFER_STOP t = Some (OK, u)"
    "released s L i ?P (drop (nat n) (L ?q)) ?e u L''"
    using released_stop[OF t(2) sm sl t(3) semq_ok(2)[OF m] st(3) t(4) st(1) t(7)] r by blast
  have "signaln i n s = Some (OK, u)"
    using i n d(1) t(1) u(1) by (simp add: signaln_def)
  then show ?thesis using u(2) by blast
qed

lemma semdelete_ok:
  assumes k: "kok s L" and i: "\<not> isbadsem i" "sstate (semtab s i) = S_USED" "scount (semtab s i) < INT_MAX"
  shows "\<exists>t L' c. semdelete i s = Some (OK, t) \<and>
    released s L i (set (L (semq s i))) [] ((semtab s i)\<lparr>sstate := S_FREE, scount := c\<rparr>) t L'"
proof -
  note m = kokD(1)[OF k] and r = i(1)[unfolded not_isbadsem]
  have so: "sem_ok s L i" using semq_ok(4)[OF m] r by blast
  let ?q = "semq s i" and ?P = "set (L (semq s i))"
  let ?s1 = "upd_sem i (\<lambda>e. e\<lparr>sstate := S_FREE\<rparr>) s"
  have nd: "ndefers (Defer ?s1) = 0" using kokD(3)[OF k] by simp
  let ?s = "?s1\<lparr>Defer := \<lparr>ndefers = 1, attempt = False\<rparr>\<rparr>"
  have d: "resched_cntl DEFER_START ?s1 = Some (OK, ?s)"
    using nd by (simp add: resched_cntl_def Let_def i32_id)
  have "kinv0 ?s L" by (rule kinv0_cong[OF kokD(5)[OF k]]) simp_all
  then have kd: "kdefer ?s L"
    using k by (simp add: kdefer_def kinv_def kok_def kmid_def table_updates)
  obtain t L' c where t: "c_loop (semdelete_iter i) ?s = Some t"
    "kdefer t L'" "L' ?q = []" "same_but s ?q L L'" "INT_MIN \<le> c" "c \<le> INT_MAX"
    "sched_eq (upd_sem i (\<lambda>e. e\<lparr>scount := c\<rparr>) ?s) t" "currpid t = currpid s"
    "proctab t = readied s ?P"
    using semdelete_loop[OF kd, of i] so i(2,3) r
    by (auto simp: sem_ok_def)
  let ?e = "(semtab s i)\<lparr>sstate := S_FREE, scount := c\<rparr>"
  have st: "semtab t = (semtab s)(i := ?e)" "semq t = semq s" "readylist t = readylist s"
    using sched_eqD(4,6,17)[OF t(7)] by simp_all
  have "sem_ok t L' i" using t(3,5,6) st by (simp add: sem_ok_def)
  then have sm: "sems_ok t L'"
    using sems_ok_one[OF kmidD(2)[OF m] semq_inj[OF kmidD(1)[OF m]] st(1,2) t(4)] r by blast
  have sl: "sleep_ok t L'"
    using same_but_sleep[OF m _ _ t(2,4,7)] r kmidD(11)[OF m] by simp
  obtain u L'' where u: "resched_cntl DEFER_STOP t = Some (OK, u)" "released s L i ?P [] ?e u L''"
    using released_stop[OF t(2) sm sl t(3) semq_ok(2)[OF m] st(3) t(4) st(1) t(9)] r by blast
  have "semdelete i s = Some (OK, u)"
    using i d t(1) u(1) by (simp add: semdelete_def)
  then show ?thesis using u(2) by blast
qed

lemma semreset_ok:
  assumes k: "kok s L" and i: "\<not> isbadsem i" "sstate (semtab s i) = S_USED"
    and n: "0 \<le> n" "n \<le> INT_MAX"
  shows "\<exists>t L'. semreset i n s = Some (OK, t) \<and>
    released s L i (set (L (semq s i))) [] ((semtab s i)\<lparr>scount := n\<rparr>) t L'"
proof -
  note m = kokD(1)[OF k] and r = i(1)[unfolded not_isbadsem]
  let ?q = "semq s i" and ?P = "set (L (semq s i))"
  obtain d where d: "resched_cntl DEFER_START s = Some (OK, s\<lparr>Defer := d\<rparr>)" "kdefer (s\<lparr>Defer := d\<rparr>) L"
    using defer_start[OF kokD(2,3)[OF k] kmidD(3,4)[OF kokD(1)[OF k]]] by blast
  let ?s = "s\<lparr>Defer := d\<rparr>"
  obtain t1 L' where t1: "c_loop (semreset_iter ?q) ?s = Some t1"
    "kdefer t1 L'" "L' ?q = []" "same_but s ?q L L'" "sched_eq ?s t1" "proctab t1 = readied s ?P"
    using semreset_loop[OF d(2), of i ?q] r by auto
  let ?t = "upd_sem i (\<lambda>e. e\<lparr>scount := n\<rparr>) t1" and ?e = "(semtab s i)\<lparr>scount := n\<rparr>"
  have st: "semtab ?t = (semtab s)(i := ?e)" "semq ?t = semq s" "readylist ?t = readylist s"
    using sched_eqD(4,6,17)[OF t1(5)] by simp_all
  have kd: "kdefer ?t L'"
    using t1(2) kinv0_upd_sem[OF kdeferD(1)[OF t1(2)], of "\<lambda>e. e\<lparr>scount := n\<rparr>" i]
    by (simp add: kdefer_def kinv_def table_updates)
  have "sem_ok ?t L' i" using t1(3) st n i(2) by (simp add: sem_ok_def)
  then have sm: "sems_ok ?t L'"
    using sems_ok_one[OF kmidD(2)[OF m] semq_inj[OF kmidD(1)[OF m]] st(1,2) t1(4)] r by blast
  have pt: "proctab ?t = readied s ?P" using t1(6) by simp
  have sl: "sleep_ok ?t L'"
    using same_but_sleep[OF m _ _ t1(2,4,5)] r kmidD(11)[OF m] by simp
  obtain u L'' where u: "resched_cntl DEFER_STOP ?t = Some (OK, u)" "released s L i ?P [] ?e u L''"
    using released_stop[OF kd sm sl t1(3) semq_ok(2)[OF m] st(3) t1(4) st(1) pt] r by blast
  have "squeue (semtab s i) = ?q" by (simp add: semq_def)
  then have "semreset i n s = Some (OK, u)"
    using i n d(1) t1(1) u(1) by (simp add: semreset_def Let_def)
  then show ?thesis using u(2) by blast
qed

end
