(* ===== verification/Slot_Scan.thy ===== *)
theory Slot_Scan
  imports Xinu_Prelude
begin

text \<open>
  The search that Xinu uses for a free entry of a table: at most N entries are looked at, from a
  position that is kept between calls, around the end of the table. newsem (semcreate.c), newpid
  (create.c) and ptcreate share it.
\<close>

locale slot_scan =
  fixes iter :: "int \<times> 's \<Rightarrow> (int \<times> 's + int \<times> 's) option"
    and N :: int
    and good :: "'s \<Rightarrow> bool"
    and pos :: "'s \<Rightarrow> int"
    and free :: "'s \<Rightarrow> int \<Rightarrow> bool"
    and adv :: "'s \<Rightarrow> 's"
    and claim :: "'s \<Rightarrow> 's"
  assumes size: "0 < N"
    and pos_range: "good s \<Longrightarrow> 0 \<le> pos s \<and> pos s < N"
    and stop: "iter (N, s) = Some (Inr (SYSERR, s))"
    and hit: "good s \<Longrightarrow> i < N \<Longrightarrow> free s (pos s) \<Longrightarrow> iter (i, s) = Some (Inr (pos s, claim s))"
    and miss: "good s \<Longrightarrow> i < N \<Longrightarrow> \<not> free s (pos s) \<Longrightarrow> iter (i, s) = Some (Inl (i + 1, adv s))"
    and adv_good: "good s \<Longrightarrow> good (adv s)"
    and adv_pos: "good s \<Longrightarrow> pos (adv s) = (pos s + 1) mod N"
    and adv_free: "good s \<Longrightarrow> free (adv s) = free s"
begin

lemma adv_many:
  assumes "good s"
  shows "good ((adv ^^ k) s) \<and> pos ((adv ^^ k) s) = (pos s + int k) mod N \<and> free ((adv ^^ k) s) = free s"
proof (induction k)
  case 0
  then show ?case using assms pos_range[OF assms] by simp
next
  case (Suc k)
  have "((pos s + int k) mod N + 1) mod N = (pos s + int (Suc k)) mod N"
    by (simp add: mod_simps add_ac)
  then show ?case using Suc adv_good adv_pos adv_free by simp
qed

lemma scan_from:
  assumes g: "good s"
  shows "(\<exists>k < n. free s (pos ((adv ^^ k) s)) \<and>
      c_loop iter (N - int n, s) = Some (pos ((adv ^^ k) s), claim ((adv ^^ k) s))) \<or>
    (\<forall>k < n. \<not> free s (pos ((adv ^^ k) s))) \<and>
      c_loop iter (N - int n, s) = Some (SYSERR, (adv ^^ n) s)"
  using g
proof (induction n arbitrary: s)
  case 0
  have "c_loop iter (N, s) = Some (SYSERR, s)" by (rule c_loop_Inr) (rule stop)
  then show ?case by simp
next
  case (Suc n)
  show ?case
  proof (cases "free s (pos s)")
    case True
    then have "c_loop iter (N - int (Suc n), s) = Some (pos s, claim s)"
      by (intro c_loop_Inr hit Suc.prems) simp_all
    then show ?thesis using True by (intro disjI1 exI[of _ 0]) simp
  next
    case False
    have eq: "c_loop iter (N - int (Suc n), s) = c_loop iter (N - int n, adv s)"
      using miss[OF Suc.prems, of "N - int (Suc n)"] False by (intro c_loop_Inl) simp
    have sw: "(adv ^^ k) (adv s) = (adv ^^ Suc k) s" for k by (simp add: funpow_swap1)
    have all: "(\<forall>k < Suc n. \<not> free s (pos ((adv ^^ k) s))) \<longleftrightarrow>
        (\<forall>k < n. \<not> free s (pos ((adv ^^ Suc k) s)))"
      using False by (auto simp: less_Suc_eq_0_disj)
    show ?thesis
      using Suc.IH[OF adv_good[OF Suc.prems]] unfolding sw adv_free[OF Suc.prems] eq all by blast
  qed
qed

text \<open>The whole table is searched: the search fails only when no entry is free.\<close>

lemma scan:
  assumes g: "good s"
  shows "(\<exists>i k. 0 \<le> i \<and> i < N \<and> free s i \<and> pos ((adv ^^ k) s) = i \<and>
      c_loop iter (0, s) = Some (i, claim ((adv ^^ k) s))) \<or>
    (\<forall>i. 0 \<le> i \<and> i < N \<longrightarrow> \<not> free s i) \<and> c_loop iter (0, s) = Some (SYSERR, (adv ^^ nat N) s)"
proof -
  have n: "N - int (nat N) = 0" using size by simp
  have ir: "0 \<le> pos ((adv ^^ k) s) \<and> pos ((adv ^^ k) s) < N" for k
    using pos_range adv_many[OF g] by blast
  have "\<not> free s i" if a: "\<forall>k < nat N. \<not> free s (pos ((adv ^^ k) s))" and i: "0 \<le> i" "i < N" for i
  proof -
    define k where "k = nat ((i - pos s) mod N)"
    have k: "int k = (i - pos s) mod N" using size by (simp add: k_def)
    then have "pos ((adv ^^ k) s) = i"
      using adv_many[OF g, of k] i by (simp add: mod_simps)
    moreover have "k < nat N" using size by (simp add: k_def nat_less_iff)
    ultimately show ?thesis using a by blast
  qed
  then show ?thesis
    using scan_from[OF g, of "nat N"] ir unfolding n by blast
qed

end

end
