(* ===== verification/Process_Calls.thy ===== *)
theory Process_Calls
  imports Kernel_Calls Slot_Scan
begin

text \<open>
  Contracts, continued: creation of semaphores, messages, sleeping and the clock, suspension and
  priorities.
\<close>

section \<open>Creating semaphores\<close>

definition sem_free :: "kst \<Rightarrow> int \<Rightarrow> bool" where
  "sem_free s i \<longleftrightarrow> sstate (semtab s i) = S_FREE"

text \<open>newsem searches from nextsem, around the table.\<close>

lemma newsem_step:
  assumes "0 \<le> nextsem s" "nextsem s < NSEM" "i < NSEM"
  shows "newsem_iter (i, s) = (let s' = s\<lparr>nextsem := (nextsem s + 1) mod NSEM\<rparr> in
    if sem_free s (nextsem s)
    then Some (Inr (nextsem s, upd_sem (nextsem s) (\<lambda>e. e\<lparr>sstate := S_USED\<rparr>) s'))
    else Some (Inl (i + 1, s')))"
proof -
  have "nextsem s + 1 \<ge> NSEM \<Longrightarrow> nextsem s + 1 = NSEM" using assms(2) by simp
  then have m: "nextsem s + 1 \<ge> NSEM \<Longrightarrow> (nextsem s + 1) mod NSEM = 0" by simp
  have m': "nextsem s + 1 < NSEM \<Longrightarrow> (nextsem s + 1) mod NSEM = nextsem s + 1" using assms(1) by simp
  show ?thesis
    using assms(3) m m'
    by (cases "nextsem s + 1 \<ge> NSEM"; cases "sstate (semtab s (nextsem s)) = S_FREE")
      (simp_all add: newsem_iter_def sem_free_def Let_def not_le)
qed

definition sem_adv :: "kst \<Rightarrow> kst" where
  "sem_adv s = s\<lparr>nextsem := (nextsem s + 1) mod NSEM\<rparr>"

definition sem_claim :: "kst \<Rightarrow> kst" where
  "sem_claim s = upd_sem (nextsem s) (\<lambda>e. e\<lparr>sstate := S_USED\<rparr>) (sem_adv s)"

interpretation sem_scan: slot_scan newsem_iter NSEM "\<lambda>s. 0 \<le> nextsem s \<and> nextsem s < NSEM"
  nextsem sem_free sem_adv sem_claim
proof unfold_locales
  show "0 < NSEM" by (simp add: NSEM_def)
  show "newsem_iter (NSEM, s) = Some (Inr (SYSERR, s))" for s by (simp add: newsem_iter_def)
  show "newsem_iter (i, s) = Some (Inr (nextsem s, sem_claim s))"
    if "0 \<le> nextsem s \<and> nextsem s < NSEM" "i < NSEM" "sem_free s (nextsem s)" for s i
    using newsem_step[of s i] that by (simp add: sem_claim_def sem_adv_def Let_def)
  show "newsem_iter (i, s) = Some (Inl (i + 1, sem_adv s))"
    if "0 \<le> nextsem s \<and> nextsem s < NSEM" "i < NSEM" "\<not> sem_free s (nextsem s)" for s i
    using newsem_step[of s i] that by (simp add: sem_adv_def Let_def)
qed (simp_all add: sem_adv_def sem_free_def fun_eq_iff NSEM_def)

lemma newsem_spec:
  assumes "0 \<le> nextsem s" "nextsem s < NSEM"
  shows "(\<exists>i ns. 0 \<le> i \<and> i < NSEM \<and> sem_free s i \<and> 0 \<le> ns \<and> ns < NSEM \<and>
      newsem s = Some (i, upd_sem i (\<lambda>e. e\<lparr>sstate := S_USED\<rparr>) (s\<lparr>nextsem := ns\<rparr>))) \<or>
    ((\<forall>i. 0 \<le> i \<and> i < NSEM \<longrightarrow> \<not> sem_free s i) \<and> newsem s = Some (SYSERR, s))"
proof -
  have many: "(sem_adv ^^ k) s = s\<lparr>nextsem := (nextsem s + int k) mod NSEM\<rparr>" for k
    using assms by (induction k) (simp_all add: sem_adv_def mod_simps add_ac)
  have all: "(sem_adv ^^ nat NSEM) s = s" unfolding many using assms by (simp add: NSEM_def)
  have claim: "sem_claim (s\<lparr>nextsem := i\<rparr>) =
      upd_sem i (\<lambda>e. e\<lparr>sstate := S_USED\<rparr>) (s\<lparr>nextsem := (i + 1) mod NSEM\<rparr>)" for i
    by (simp add: sem_claim_def sem_adv_def table_updates)
  have r: "0 \<le> (i + 1) mod NSEM \<and> (i + 1) mod NSEM < NSEM" for i by (simp add: NSEM_def)
  have "(\<exists>i k. 0 \<le> i \<and> i < NSEM \<and> sem_free s i \<and> nextsem ((sem_adv ^^ k) s) = i \<and>
      newsem s = Some (i, sem_claim ((sem_adv ^^ k) s))) \<or>
    (\<forall>i. 0 \<le> i \<and> i < NSEM \<longrightarrow> \<not> sem_free s i) \<and> newsem s = Some (SYSERR, (sem_adv ^^ nat NSEM) s)"
    unfolding newsem_def by (rule sem_scan.scan) (use assms in simp)
  then show ?thesis
  proof (elim disjE exE conjE)
    fix i k assume i: "0 \<le> i" "i < NSEM" "sem_free s i" and k: "nextsem ((sem_adv ^^ k) s) = i"
      and e: "newsem s = Some (i, sem_claim ((sem_adv ^^ k) s))"
    have "(sem_adv ^^ k) s = s\<lparr>nextsem := i\<rparr>" using k unfolding many by simp
    then have "newsem s = Some (i, upd_sem i (\<lambda>e. e\<lparr>sstate := S_USED\<rparr>) (s\<lparr>nextsem := (i + 1) mod NSEM\<rparr>))"
      using e claim by simp
    then show ?thesis using i r[of i] by blast
  qed (simp add: all)
qed

lemma semcreate_ok:
  assumes k: "kok s L" and c: "0 \<le> c" "c \<le> INT_MAX"
  shows "(\<exists>i t. 0 \<le> i \<and> i < NSEM \<and> sem_free s i \<and> semcreate c s = Some (i, t) \<and> kok t L \<and>
      semtab t = (semtab s)(i := (semtab s i)\<lparr>sstate := S_USED, scount := c\<rparr>) \<and> currpid t = currpid s \<and> proctab t = proctab s \<and>
      t = s\<lparr>semtab := semtab t, nextsem := nextsem t\<rparr>) \<or>
    ((\<forall>i. 0 \<le> i \<and> i < NSEM \<longrightarrow> \<not> sem_free s i) \<and> semcreate c s = Some (SYSERR, s))"
proof -
  note m = kokD(1)[OF k]
  show ?thesis
    using newsem_spec[OF kmidD(3,4)[OF m]]
  proof (elim disjE exE conjE)
    fix i ns assume i: "0 \<le> i" "i < NSEM" "sem_free s i" and ns: "0 \<le> ns" "ns < NSEM"
      and e: "newsem s = Some (i, upd_sem i (\<lambda>e. e\<lparr>sstate := S_USED\<rparr>) (s\<lparr>nextsem := ns\<rparr>))"
    let ?f = "\<lambda>e. e\<lparr>sstate := S_USED, scount := c\<rparr>" and ?s = "s\<lparr>nextsem := ns\<rparr>"
    let ?t = "upd_sem i ?f ?s"
    have "kinv0 ?s L" by (rule kinv0_cong[OF kokD(5)[OF k]]) simp_all
    moreover have "sems_ok ?s L" using sems_ok_cong[OF kmidD(2)[OF m], of ?s L] by simp
    ultimately have ms: "kmid ?s L" using ns kmidD(11)[OF m] by (simp add: kmid_def)
    have so: "sem_ok s L i" using semq_ok(4)[OF m i(1,2)] .
    have "sem_ok ?t L i" using so i(3) c by (simp add: sem_ok_def sem_free_def)
    then have "kmid ?t L" using kmid_upd_sem[OF ms, of ?f i] by simp
    then have "kok ?t L" using kokD(3,4)[OF k] by (simp add: kok_def)
    moreover have "semcreate c s = Some (i, ?t)"
      using e c i(1) by (simp add: semcreate_def upd_sem_comp)
    moreover have "?t = s\<lparr>semtab := semtab ?t, nextsem := nextsem ?t\<rparr>" by (simp add: upd_sem_def)
    ultimately show ?thesis using i by (intro disjI1 exI[of _ i] exI[of _ ?t]) simp
  qed (use c in \<open>simp add: semcreate_def\<close>)
qed

text \<open>The error branches: a bad or free semaphore leaves the state as it was.\<close>

lemma sem_errors:
  assumes "isbadsem i \<or> sstate (semtab s i) = S_FREE"
  shows "wait i s = Some (SYSERR, s)" "signal i s = Some (SYSERR, s)" "signaln i n s = Some (SYSERR, s)"
    "semdelete i s = Some (SYSERR, s)" "semreset i n s = Some (SYSERR, s)" "semcount i s = SYSERR"
  using assms by (auto simp: wait_def signal_def signaln_def semdelete_def semreset_def semcount_def)

section \<open>Messages\<close>

lemma kok_upd_proc:
  assumes "kok s L" "\<And>e. prstate (f e) = prstate e" "\<And>e. prprio (f e) = prprio e" "\<And>e. prsem (f e) = prsem e"
  shows "kok (upd_proc p f s) L"
proof -
  have "kinv0 (upd_proc p f s) L"
    by (rule kinv0_cong[OF kokD(5)[OF assms(1)]]) (simp_all add: assms semq_def fun_eq_iff)
  moreover have "sems_ok (upd_proc p f s) L"
    using sems_ok_cong[OF kmidD(2)[OF kokD(1)[OF assms(1)]], of "upd_proc p f s" L] by simp
  moreover have "Defer (upd_proc p f s) = Defer s" by simp
  ultimately show ?thesis
    using assms by (auto simp: kok_def kmid_def)
qed

lemma resched_blocked:
  assumes "kmid u L" "prstate (proctab u (currpid u)) \<notin> {PR_CURR, PR_READY}"
    "currpid t = resched_pid u L"
  shows "currpid t \<noteq> currpid u"
  using resched_pid_state[OF kmidD(1)[OF assms(1)]] assms(2,3) by metis

text \<open>receive with a message waiting, and without.\<close>

lemma receive_has:
  assumes k: "kok s L" and m: "prhasmsg (proctab s (currpid s))"
  shows "receive s = Some (Ret (prmsg (proctab s (currpid s))), upd_proc (currpid s) (\<lambda>e. e\<lparr>prhasmsg := False\<rparr>) s)"
    "kok (upd_proc (currpid s) (\<lambda>e. e\<lparr>prhasmsg := False\<rparr>) s) L"
  using kmidD(6,7)[OF kokD(1)[OF k]] m kok_upd_proc[OF k, of "\<lambda>e. e\<lparr>prhasmsg := False\<rparr>" "currpid s"]
  by (simp_all add: receive_def receive_rest_def proc_at_def)

lemma receive_blocks:
  assumes k: "kok s L" and m: "\<not> prhasmsg (proctab s (currpid s))" and nn: "currpid s \<noteq> NULLPROC"
  shows "\<exists>t L'. receive s = Some (Blocked, t) \<and> kok t L' \<and> sched_eq s t \<and>
    prstate (proctab t (currpid s)) = PR_RECV \<and> currpid t \<noteq> currpid s \<and>
    (\<forall>q. q \<noteq> readylist s \<longrightarrow> L' q = L q) \<and>
    (\<forall>x. x \<noteq> currpid s \<and> prstate (proctab s x) \<notin> {PR_CURR, PR_READY} \<longrightarrow>
       prstate (proctab t x) = prstate (proctab s x))"
proof -
  let ?c = "currpid s" and ?u = "set_state (currpid s) PR_RECV s"
  have u: "kmid ?u L" using block_off[OF k nn, of PR_RECV] by simp
  obtain t where t: "resched ?u = Some t" "kok t (resched_L ?u L)" "sched_eq ?u t"
    "currpid t = resched_pid ?u L" "\<And>p. prstate (proctab t p) = resched_state ?u L p"
    using resched_kok[OF u] kokD(3)[OF k] by auto
  have nc: "currpid t \<noteq> ?c" using resched_blocked[OF u _ t(4)] by simp
  then have "receive s = Some (Blocked, t)"
    using m t(1) kmidD(6,7)[OF kokD(1)[OF k]]
    by (simp add: receive_def proc_at_def outcome_of_def)
  moreover have "sched_eq s t" using sched_eq_trans[OF sched_eq_set_state t(3)] by simp
  moreover have "prstate (proctab t ?c) = PR_RECV"
    using t(5)[of ?c] t(4) nc by (simp add: resched_state_def)
  moreover have "prstate (proctab t x) = prstate (proctab s x)"
    if "x \<noteq> ?c" "prstate (proctab s x) \<notin> {PR_CURR, PR_READY}" for x
    using that t(5)[of x] resched_pid_state[OF kmidD(1)[OF u]] by (auto simp: resched_state_def)
  ultimately show ?thesis
    using t(2) nc by (intro exI[of _ t] exI[of _ "resched_L ?u L"]) (simp add: resched_L_other)
qed

lemma recvclr_ok:
  assumes k: "kok s L"
  shows "\<exists>t. recvclr s = Some (if prhasmsg (proctab s (currpid s)) then prmsg (proctab s (currpid s)) else OK, t) \<and>
    kok t L \<and> \<not> prhasmsg (proctab t (currpid t))"
  using kmidD(6,7)[OF kokD(1)[OF k]] kok_upd_proc[OF k, of "\<lambda>e. e\<lparr>prhasmsg := False\<rparr>" "currpid s"] k
  by (simp add: recvclr_def proc_at_def)

lemma detach_off:
  assumes k: "kinv0 s L" and p: "0 \<le> p" "p < NPROC" and st: "prstate (proctab s p) \<in> {PR_RECV, PR_SUSP}"
    and nc: "p \<noteq> currpid s"
  shows "detached s L p"
proof -
  let ?e = "(proctab s p)\<lparr>prstate := PR_SUSP\<rparr>"
  have off: "off_queues (nextqid s) L p" using kinv0_off[OF k p] st by blast
  have nn: "p \<noteq> NULLPROC" using kinv0D(8)[OF k] st by (auto simp: procs_ok_def)
  have "kinv0 (s\<lparr>queuetab := queuetab s, proctab := (proctab s)(p := ?e)\<rparr>) L"
  proof (rule kinv0_move[OF k p kinv0D(1)[OF k]])
    show "q = readylist s \<or> q = sleepq s \<or> (\<exists>i. 0 \<le> i \<and> i < NSEM \<and> q = semq s i)"
      if "qid_ok (nextqid s) q" "p \<in> set (L q)" for q
      using that off by (simp add: off_queues_def)
    show "placed s L p ?e" by (rule placed_off[OF off]) (use k in \<open>simp_all add: kinv0_def\<close>)
    show "desc (keys s) (L (readylist s))" using kinv0D(7)[OF k] .
    show "procs_ok (s\<lparr>proctab := (proctab s)(p := ?e)\<rparr>)"
      using kinv0D(8)[OF k] nn by (auto simp: procs_ok_def)
  qed simp
  moreover have "set_state p PR_SUSP s = s\<lparr>queuetab := queuetab s, proctab := (proctab s)(p := ?e)\<rparr>"
    by (simp add: table_updates)
  ultimately show ?thesis using p st nc by (auto simp: detached_def isbadpid_def)
qed

text \<open>Taking a process out of the sleep queue, with its delay handed to the next one.\<close>

lemma unsleep_ok:
  assumes k: "kmid s L" and L: "L (sleepq s) = us @ p # vs" and nc: "p \<noteq> currpid s"
  shows "\<exists>qt. unsleep p s = Some (OK, s\<lparr>queuetab := qt\<rparr>) \<and>
    detached (s\<lparr>queuetab := qt\<rparr>) (L(sleepq s := us @ vs)) p \<and>
    sleep_ok (s\<lparr>queuetab := qt\<rparr>) (L(sleepq s := us @ vs)) \<and>
    due (\<lambda>x. qkey (qt x)) 0 (us @ vs) = filter (\<lambda>(x, t). x \<noteq> p) (due (keys s) 0 (us @ p # vs)) \<and>
    (\<forall>x. x \<notin> set (us @ vs) \<longrightarrow> qkey (qt x) = keys s x)"
proof -
  let ?q = "sleepq s"
  note k0 = kmidD(1)[OF k] and wf = kmidD(5)[OF k] and qq = kmidD(9)[OF k]
  have pin: "p \<in> set (L ?q)" using L by simp
  have pr: "0 \<le> p" "p < NPROC" "\<not> isbadpid s p" using kinv0_member[OF k0 qq pin] by auto
  have as: "prstate (proctab s p) = PR_SLEEP \<or> prstate (proctab s p) = PR_RECTIM"
    using asleep_member[OF k0 pin] by (simp add: asleep_def)
  have iq: "is_queue (queuetab s) ?q (us @ p # vs)" using queues_wfD(1)[OF wf qq] L by simp
  have nx: "qnext (queuetab s p) = q_after ?q vs" using is_queue_links(1)[OF iq] .
  have dis: "distinct (us @ p # vs)" using queues_wfD(5)[OF wf qq] L by simp
  have vr: "set vs \<subseteq> {0..<NPROC}" using queues_wfD(6)[OF wf qq] L by auto
  let ?qt = "if vs = [] then queuetab s
    else (queuetab s)(hd vs := (queuetab s (hd vs))\<lparr>qkey := i32 (keys s (hd vs) + keys s p)\<rparr>)"
  have wf1: "queues_wf ?qt (nextqid s) L"
    by (rule queues_wf_keys[OF wf]) (use vr in \<open>cases vs; auto\<close>)+
  have ks: "qkey (?qt x) = unsleep_keys (keys s) p vs x" for x
    by (simp add: unsleep_keys_def)
  have qp: "q_at s p = Some (queuetab s p)" using proc_in_tab[OF pr(1,2)] by (simp add: q_at_def)
  have step: "(if qnext (queuetab s p) < NPROC then do {
      n \<leftarrow> q_at s (qnext (queuetab s p));
      set_qkey (qnext (queuetab s p)) (i32 (qkey n + keys s p)) s } else Some s) = Some (s\<lparr>queuetab := ?qt\<rparr>)"
  proof (cases vs)
    case Nil
    then show ?thesis using is_queueD(5)[OF iq] by (simp add: nx q_after_def)
  next
    case (Cons v ws)
    then have "0 \<le> v" "v < NPROC" using vr by auto
    then show ?thesis using Cons proc_in_tab[of v] by (simp add: nx q_after_def table_updates)
  qed
  let ?s = "s\<lparr>queuetab := ?qt\<rparr>"
  obtain qt where qt: "getitem p ?s = Some (p, s\<lparr>queuetab := qt\<rparr>)"
    "queues_wf qt (nextqid s) (L(?q := us @ vs))" "same_keys ?qt qt"
    using getitem_wf[of ?s L ?q p] wf1 qq pin L dis by (auto simp: remove1_append)
  have kq: "qkey (qt x) = unsleep_keys (keys s) p vs x" for x
    using qt(3) ks by (simp add: same_keys_def)
  have "unsleep p s = Some (OK, s\<lparr>queuetab := qt\<rparr>)"
    using pr(3) as qp step qt(1) by (simp add: unsleep_def Let_def del: fun_upd_apply)
  moreover have d: "delays_ok (keys s) (us @ p # vs)"
    using kmidD(11)[OF k] L by (simp add: sleep_ok_def)
  have kqf: "(\<lambda>x. qkey (qt x)) = unsleep_keys (keys s) p vs" using kq by (simp add: fun_eq_iff)
  have "due (\<lambda>x. qkey (qt x)) 0 (us @ vs) = filter (\<lambda>(x, t). x \<noteq> p) (due (keys s) 0 (us @ p # vs))"
    "sleep_ok (s\<lparr>queuetab := qt\<rparr>) (L(?q := us @ vs))"
    using unsleep_due[OF d dis] by (simp_all add: kqf sleep_ok_def)
  moreover have other: "qkey (qt x) = keys s x" if "x \<notin> set (us @ vs)" for x
    using that by (cases vs) (auto simp: kq unsleep_keys_def)
  moreover have "detached (s\<lparr>queuetab := qt\<rparr>) (L(?q := us @ vs)) p"
  proof (rule detach[OF k0 _ L nc qt(2)])
    fix x assume "x \<in> set (L (readylist s))"
    then have "x \<notin> set (us @ vs)"
      using queues_wf_disjoint[OF wf kmidD(8)[OF k] qq kmidD(10)[OF k]] L by auto
    then show "qkey (qt x) = keys s x" by (rule other)
  qed simp
  ultimately show ?thesis by blast
qed

section \<open>Sending\<close>

lemma send_full:
  "isbadpid s p \<or> prhasmsg (proctab s p) \<Longrightarrow> send p m s = Some (SYSERR, s)"
  by (auto simp: send_def)

definition deposit :: "int \<Rightarrow> int \<Rightarrow> kst \<Rightarrow> kst" where
  "deposit p m = upd_proc p (\<lambda>e. e\<lparr>prmsg := m, prhasmsg := True\<rparr>)"

lemma deposit_frame [simp]:
  "queuetab (deposit p m s) = queuetab s" "currpid (deposit p m s) = currpid s"
  "readylist (deposit p m s) = readylist s" "sleepq (deposit p m s) = sleepq s"
  "Defer (deposit p m s) = Defer s" "nextqid (deposit p m s) = nextqid s"
  "nextsem (deposit p m s) = nextsem s" "semtab (deposit p m s) = semtab s"
  "semq (deposit p m s) = semq s"
  "proctab (deposit p m s) = (proctab s)(p := (proctab s p)\<lparr>prmsg := m, prhasmsg := True\<rparr>)"
  by (simp_all add: deposit_def)

lemma deposit_kok: "kok s L \<Longrightarrow> kok (deposit p m s) L"
  unfolding deposit_def by (rule kok_upd_proc) simp_all

lemma send_stores:
  assumes k: "kok s L" and p: "\<not> isbadpid s p" "\<not> prhasmsg (proctab s p)"
    and st: "prstate (proctab s p) \<noteq> PR_RECV" "prstate (proctab s p) \<noteq> PR_RECTIM"
  shows "send p m s = Some (OK, deposit p m s)" "kok (deposit p m s) L"
  using p st deposit_kok[OF k] by (simp_all add: send_def deposit_def Let_def)

lemma send_wakes_receiver:
  assumes k: "kok s L" and p: "\<not> isbadpid s p" "\<not> prhasmsg (proctab s p)"
    and st: "prstate (proctab s p) = PR_RECV"
  shows "\<exists>t. send p m s = Some (OK, t) \<and> made_ready (deposit p m s) L p t"
proof -
  let ?s = "deposit p m s"
  note ks = deposit_kok[OF k, of p m] and pr = isbadpid_range[OF p(1)]
  have nc: "p \<noteq> currpid s" using kokD(4)[OF k] st by auto
  have d: "detached ?s L p"
    using detach_off[OF kokD(5)[OF ks], of p] pr st nc by simp
  obtain t where t: "ready p ?s = Some (OK, t)" "made_ready ?s L p t"
    using ready_kok[OF d kmidD(2-4)[OF kokD(1)[OF ks]] kokD(3)[OF ks] kmidD(11)[OF kokD(1)[OF ks]]] by blast
  have "send p m s = Some (OK, t)"
    using p st t(1) by (simp add: send_def deposit_def Let_def)
  then show ?thesis using t(2) by blast
qed

lemma send_wakes_timed:
  assumes k: "kok s L" and p: "\<not> isbadpid s p" "\<not> prhasmsg (proctab s p)"
    and st: "prstate (proctab s p) = PR_RECTIM"
  shows "\<exists>us vs qt t. L (sleepq s) = us @ p # vs \<and> send p m s = Some (OK, t) \<and>
    made_ready ((deposit p m s)\<lparr>queuetab := qt\<rparr>) (L(sleepq s := us @ vs)) p t \<and>
    due (\<lambda>x. qkey (qt x)) 0 (us @ vs) = filter (\<lambda>(x, t). x \<noteq> p) (due (keys s) 0 (us @ p # vs))"
proof -
  let ?s = "deposit p m s"
  note ks = deposit_kok[OF k, of p m] and pr = isbadpid_range[OF p(1)]
  have nc: "p \<noteq> currpid s" using kokD(4)[OF k] st by auto
  have "p \<in> set (L (sleepq s))"
    using asleep_iff[OF kokD(5)[OF k], of p] pr st by (simp add: asleep_def)
  then obtain us vs where L: "L (sleepq s) = us @ p # vs" by (meson split_list)
  obtain qt where qt: "unsleep p ?s = Some (OK, ?s\<lparr>queuetab := qt\<rparr>)"
    "detached (?s\<lparr>queuetab := qt\<rparr>) (L(sleepq s := us @ vs)) p"
    "sleep_ok (?s\<lparr>queuetab := qt\<rparr>) (L(sleepq s := us @ vs))"
    "due (\<lambda>x. qkey (qt x)) 0 (us @ vs) = filter (\<lambda>(x, t). x \<noteq> p) (due (keys s) 0 (us @ p # vs))"
    using unsleep_ok[OF kokD(1)[OF ks], of us p vs] L nc by auto
  let ?v = "?s\<lparr>queuetab := qt\<rparr>" and ?L = "L(sleepq s := us @ vs)"
  have "sems_ok ?v ?L"
    using sems_ok_cong[OF kmidD(2)[OF kokD(1)[OF k]], of ?v ?L] semq_ok(3)[OF kokD(1)[OF k]] by simp
  then obtain t where t: "ready p ?v = Some (OK, t)" "made_ready ?v ?L p t"
    using ready_kok[OF qt(2) _ _ _ _ qt(3)] kmidD(3,4)[OF kokD(1)[OF k]] kokD(3)[OF k] by auto
  have "send p m s = Some (OK, t)"
    using p st t(1) qt(1) by (simp add: send_def deposit_def Let_def)
  then show ?thesis using L t(2) qt(4) by blast
qed

section \<open>Going to sleep\<close>

text \<open>The due list with a new process in it.\<close>

definition due_insert :: "int \<Rightarrow> int \<Rightarrow> (int \<times> int) list \<Rightarrow> (int \<times> int) list" where
  "due_insert p k ds = filter (\<lambda>(x, t). t \<le> k) ds @ (p, k) # filter (\<lambda>(x, t). k < t) ds"

definition sleepers :: "kst \<Rightarrow> (int \<Rightarrow> int list) \<Rightarrow> (int \<times> int) list" where
  "sleepers s L = due (keys s) 0 (L (sleepq s))"

lemma enter_sleep:
  assumes k: "kok s L" and nn: "currpid s \<noteq> NULLPROC" and d: "0 \<le> d" "d \<le> INT_MAX"
    and st: "st \<in> {PR_SLEEP, PR_RECTIM}"
  shows "\<exists>qt us vs. insertd (currpid s) (sleepq s) d s = Some (OK, s\<lparr>queuetab := qt\<rparr>) \<and>
    L (sleepq s) = us @ vs \<and>
    kmid (set_state (currpid s) st (s\<lparr>queuetab := qt\<rparr>)) (L(sleepq s := us @ currpid s # vs)) \<and>
    due (\<lambda>x. qkey (qt x)) 0 (us @ currpid s # vs) = due_insert (currpid s) d (sleepers s L)"
proof -
  let ?c = "currpid s" and ?q = "sleepq s"
  note m = kokD(1)[OF k] and k0 = kokD(5)[OF k]
  note wf = kmidD(5)[OF m] and qq = kmidD(9)[OF m] and off = kokD(7)[OF k]
  obtain us vs k' where sp: "delta_split (keys s) d (L ?q) = (us, vs, k')"
    by (metis prod_cases3)
  have ok: "delays_ok (keys s) (L ?q)" using kmidD(11)[OF m] by (simp add: sleep_ok_def)
  have L: "L ?q = us @ vs" using delta_split_append[OF sp] .
  obtain qt where qt: "insertd ?c ?q d s = Some (OK, s\<lparr>queuetab := qt\<rparr>)"
    "queues_wf qt (nextqid s) (L(?q := us @ ?c # vs))"
    "\<And>i. qkey (qt i) = insertd_keys (keys s) k' ?c vs i"
    using insertd_wf[OF wf qq kokD(6)[OF k] off sp] by blast
  have kf: "(\<lambda>x. qkey (qt x)) = insertd_keys (keys s) k' ?c vs" using qt(3) by (simp add: fun_eq_iff)
  have nin: "?c \<notin> set (L ?q)" "distinct (L ?q)"
    using off qq queues_wfD(5)[OF wf qq] by (simp_all add: off_queues_def)
  note du = insertd_due[OF ok d nin(2,1) sp]
  let ?u = "set_state ?c st (s\<lparr>queuetab := qt\<rparr>)"
  have "kinv0 (s\<lparr>queuetab := qt, proctab := (proctab s)(?c := (proctab s ?c)\<lparr>prstate := st\<rparr>)\<rparr>)
      (L(?q := us @ ?c # vs))"
  proof (rule block_current[OF k nn qt(2) L])
    show "qkey (qt i) = keys s i" if "i \<in> set (L (readylist s))" for i
    proof -
      have "i \<notin> set (L ?q)" using queues_wf_disjoint[OF wf kmidD(8)[OF m] qq kmidD(10)[OF m] that] .
      moreover have "i \<noteq> ?c" using off kmidD(8)[OF m] that by (auto simp: off_queues_def)
      ultimately show ?thesis using qt(3)[of i] L by (cases vs) (auto simp: insertd_keys_def)
    qed
  qed (use st in auto)
  then have "kinv0 ?u (L(?q := us @ ?c # vs))" by (simp add: table_updates)
  moreover have "sems_ok ?u (L(?q := us @ ?c # vs))"
    using sems_ok_cong[OF kmidD(2)[OF m], of ?u] semq_ok(3)[OF m] by simp
  moreover have "sleep_ok ?u (L(?q := us @ ?c # vs))"
    using du(2) by (simp add: sleep_ok_def kf)
  ultimately have "kmid ?u (L(?q := us @ ?c # vs))" using kmidD(3,4)[OF m] by (simp add: kmid_def)
  then show ?thesis
    using qt(1) L du(1) by (intro exI[of _ qt] exI[of _ us] exI[of _ vs]) (simp add: kf due_insert_def sleepers_def)
qed

text \<open>The effect, after the scheduler has chosen another process.\<close>

definition fell_asleep :: "kst \<Rightarrow> (int \<Rightarrow> int list) \<Rightarrow> prstate_t \<Rightarrow> int \<Rightarrow> kst \<Rightarrow> bool" where
  "fell_asleep s L st d t \<longleftrightarrow> (\<exists>L'. kok t L' \<and> sleepers t L' = due_insert (currpid s) d (sleepers s L) \<and>
     (\<forall>q. q \<noteq> readylist s \<and> q \<noteq> sleepq s \<longrightarrow> L' q = L q)) \<and>
     prstate (proctab t (currpid s)) = st \<and> currpid t \<noteq> currpid s \<and> semtab t = semtab s \<and>
     (\<forall>x. x \<noteq> currpid s \<and> prstate (proctab s x) \<notin> {PR_CURR, PR_READY} \<longrightarrow>
        prstate (proctab t x) = prstate (proctab s x)) \<and>
     (\<forall>x. (proctab t x)\<lparr>prstate := PR_FREE\<rparr> = (proctab s x)\<lparr>prstate := PR_FREE\<rparr>)"

lemma sleep_resched:
  assumes k: "kok s L" and nn: "currpid s \<noteq> NULLPROC" and d: "0 \<le> d" "d \<le> INT_MAX"
    and st: "st \<in> {PR_SLEEP, PR_RECTIM}"
  shows "\<exists>qt t. insertd (currpid s) (sleepq s) d s = Some (OK, s\<lparr>queuetab := qt\<rparr>) \<and>
    resched (set_state (currpid s) st (s\<lparr>queuetab := qt\<rparr>)) = Some t \<and> fell_asleep s L st d t"
proof -
  let ?c = "currpid s" and ?q = "sleepq s"
  obtain qt us vs where e: "insertd ?c ?q d s = Some (OK, s\<lparr>queuetab := qt\<rparr>)" "L ?q = us @ vs"
    "kmid (set_state ?c st (s\<lparr>queuetab := qt\<rparr>)) (L(?q := us @ ?c # vs))"
    "due (\<lambda>x. qkey (qt x)) 0 (us @ ?c # vs) = due_insert ?c d (sleepers s L)"
    using enter_sleep[OF assms] by blast
  let ?u = "set_state ?c st (s\<lparr>queuetab := qt\<rparr>)" and ?L = "L(?q := us @ ?c # vs)"
  obtain t where t: "resched ?u = Some t" "kok t (resched_L ?u ?L)" "sched_eq ?u t"
    "currpid t = resched_pid ?u ?L" "\<And>p. prstate (proctab t p) = resched_state ?u ?L p"
    using resched_kok[OF e(3)] kokD(3)[OF k] by auto
  have su: "prstate (proctab ?u (currpid ?u)) = st" "prstate (proctab ?u (currpid ?u)) \<notin> {PR_CURR, PR_READY}"
    using st by auto
  have nc: "currpid t \<noteq> ?c" using resched_blocked[OF e(3) su(2) t(4)] by simp
  have "sleepers t (resched_L ?u ?L) = sleepers ?u ?L"
    using sched_eq_due(1)[OF t(3) kokD(5)[OF t(2)], of ?L] kmidD(10)[OF e(3)]
    by (simp add: sleepers_def resched_L_other)
  moreover have "sleepers ?u ?L = due_insert ?c d (sleepers s L)"
    using e(4) by (simp add: sleepers_def)
  moreover have "prstate (proctab t x) = prstate (proctab s x)"
    if "x \<noteq> ?c" "prstate (proctab s x) \<notin> {PR_CURR, PR_READY}" for x
    using that t(5)[of x] resched_pid_state[OF kmidD(1)[OF e(3)]] by (auto simp: resched_state_def)
  moreover have "prstate (proctab t ?c) = st"
    using t(5)[of ?c] t(4) nc st by (auto simp: resched_state_def)
  moreover have "(proctab t x)\<lparr>prstate := PR_FREE\<rparr> = (proctab s x)\<lparr>prstate := PR_FREE\<rparr>" for x
    using sched_eqD(18)[OF t(3), of x] by simp
  ultimately have "fell_asleep s L st d t"
    unfolding fell_asleep_def
    using t(2) nc sched_eqD(6)[OF t(3)] by (auto simp: resched_L_other intro!: exI[of _ "resched_L ?u ?L"])
  then show ?thesis using e(1) t(1) by blast
qed

lemma sleepms_ok:
  assumes k: "kok s L" and nn: "currpid s \<noteq> NULLPROC" and d: "0 < d" "d \<le> INT_MAX"
  shows "\<exists>t. sleepms d s = Some (OK, t) \<and> fell_asleep s L PR_SLEEP d t"
proof -
  obtain qt t where t: "insertd (currpid s) (sleepq s) d s = Some (OK, s\<lparr>queuetab := qt\<rparr>)"
    "resched (set_state (currpid s) PR_SLEEP (s\<lparr>queuetab := qt\<rparr>)) = Some t" "fell_asleep s L PR_SLEEP d t"
    using sleep_resched[OF k nn _ d(2), of PR_SLEEP] d(1) by auto
  have "sleepms d s = Some (OK, t)"
    using d t(1,2) kmidD(6,7)[OF kokD(1)[OF k]] by (simp add: sleepms_def i32_id proc_at_def)
  then show ?thesis using t(3) by blast
qed

lemma sleep_ok_call:
  assumes k: "kok s L" and nn: "currpid s \<noteq> NULLPROC" and d: "0 < n" "n \<le> 2147483"
  shows "\<exists>t. sleep n s = Some (OK, t) \<and> fell_asleep s L PR_SLEEP (1000 * n) t"
proof -
  have "u32 (1000 * n) = 1000 * n" using d by (intro u32_id) simp_all
  moreover obtain t where "sleepms (1000 * n) s = Some (OK, t)" "fell_asleep s L PR_SLEEP (1000 * n) t"
    using sleepms_ok[OF k nn, of "1000 * n"] d by auto
  ultimately show ?thesis using d by (simp add: sleep_def MAXSECONDS_def)
qed

lemma recvtime_has:
  assumes k: "kok s L" and m: "prhasmsg (proctab s (currpid s))" and w: "0 \<le> w"
  shows "recvtime w s = Some (Ret (prmsg (proctab s (currpid s))), upd_proc (currpid s) (\<lambda>e. e\<lparr>prhasmsg := False\<rparr>) s)"
  using kmidD(6,7)[OF kokD(1)[OF k]] m w by (simp add: recvtime_def recvtime_rest_def proc_at_def)

lemma recvtime_blocks:
  assumes k: "kok s L" and m: "\<not> prhasmsg (proctab s (currpid s))" and nn: "currpid s \<noteq> NULLPROC"
    and w: "0 \<le> w" "w \<le> INT_MAX"
  shows "\<exists>t. recvtime w s = Some (Blocked, t) \<and> fell_asleep s L PR_RECTIM w t"
proof -
  obtain qt t where t: "insertd (currpid s) (sleepq s) w s = Some (OK, s\<lparr>queuetab := qt\<rparr>)"
    "resched (set_state (currpid s) PR_RECTIM (s\<lparr>queuetab := qt\<rparr>)) = Some t" "fell_asleep s L PR_RECTIM w t"
    using sleep_resched[OF k nn w, of PR_RECTIM] by auto
  have "currpid t \<noteq> currpid s" using t(3) by (simp add: fell_asleep_def)
  then have "recvtime w s = Some (Blocked, t)"
    using m w t(1,2) kmidD(6,7)[OF kokD(1)[OF k]] by (simp add: recvtime_def proc_at_def outcome_of_def)
  then show ?thesis using t(3) by blast
qed

section \<open>The clock\<close>

text \<open>wakeup takes the leading entries whose keys are not positive.\<close>

lemma wakeup_loop:
  assumes "kdefer s L"
  shows "\<exists>t L'. c_loop wakeup_iter s = Some t \<and> kdefer t L' \<and>
    L' (sleepq s) = dropWhile (\<lambda>x. keys s x \<le> 0) (L (sleepq s)) \<and> same_but s (sleepq s) L L' \<and>
    sched_eq s t \<and> currpid t = currpid s \<and>
    proctab t = readied s (set (takeWhile (\<lambda>x. keys s x \<le> 0) (L (sleepq s))))"
  using assms
proof (induction "L (sleepq s)" arbitrary: s L)
  case Nil
  let ?q = "sleepq s"
  note iq = queues_wfD(1)[OF kdeferD(2)[OF Nil.prems] kinv0D(3)[OF kdeferD(1)[OF Nil.prems]]]
  have "wakeup_iter s = Some (Inr s)"
    using isempty_wf(2)[OF iq] Nil.hyps by (simp add: wakeup_iter_def)
  then have "c_loop wakeup_iter s = Some s" by (rule c_loop_Inr)
  then show ?case
    using Nil by (intro exI[of _ s] exI[of _ L]) (simp add: same_but_def)
next
  case (Cons p ps)
  let ?q = "sleepq s"
  note k = Cons.prems and L = Cons.hyps(2)[symmetric]
  note k0 = kdeferD(1)[OF k] and wf = kdeferD(2)[OF k]
  note qq = kinv0D(3)[OF k0]
  note iq = queues_wfD(1)[OF wf qq]
  have ne: "nonempty ?q s = Some True" "firstkey ?q s = Some (keys s p)"
    using isempty_wf(2)[OF iq] firstkey_wf[OF iq] L by simp_all
  show ?case
  proof (cases "keys s p \<le> 0")
    case False
    then have "wakeup_iter s = Some (Inr s)" using ne by (simp add: wakeup_iter_def)
    then have "c_loop wakeup_iter s = Some s" by (rule c_loop_Inr)
    then show ?thesis
      using False L k by (intro exI[of _ s] exI[of _ L]) (simp add: same_but_def)
  next
    case True
    obtain qt where qt: "dequeue ?q s = Some (p, s\<lparr>queuetab := qt\<rparr>)"
      "queues_wf qt (nextqid s) (L(?q := ps))" "same_keys (queuetab s) qt"
      using dequeue_wf(2)[OF wf qq L] by blast
    obtain t L' where t: "ready p (s\<lparr>queuetab := qt\<rparr>) = Some (OK, t)" "kdefer t L'"
      "L' ?q = ps" "same_but s ?q L L'" "sched_eq s t" "currpid t = currpid s"
      "proctab t = readied s {p}"
      using release_gen[OF k _ L qt(2,3)] by auto
    have st: "sleepq t = ?q" "readylist t = readylist s" using sched_eqD(4,5)[OF t(5)] by simp_all
    have "wakeup_iter s = Some (Inl t)" using True ne qt(1) t(1) by (simp add: wakeup_iter_def)
    then have lp: "c_loop wakeup_iter s = c_loop wakeup_iter t" by (rule c_loop_Inl)
    have ks: "keys t x = keys s x" if "x \<in> set ps" for x
      using sched_eq_asleep[OF t(5) asleep_member[OF kdeferD(1)[OF t(2)]]] that t(3) st by simp
    have tw: "takeWhile (\<lambda>x. keys t x \<le> 0) ps = takeWhile (\<lambda>x. keys s x \<le> 0) ps"
      "dropWhile (\<lambda>x. keys t x \<le> 0) ps = dropWhile (\<lambda>x. keys s x \<le> 0) ps"
      using ks by (auto intro: takeWhile_cong dropWhile_cong)
    obtain u L'' where u: "c_loop wakeup_iter t = Some u" "kdefer u L''"
      "L'' ?q = dropWhile (\<lambda>x. keys t x \<le> 0) ps" "same_but t ?q L' L''" "sched_eq t u"
      "currpid u = currpid t" "proctab u = readied t (set (takeWhile (\<lambda>x. keys t x \<le> 0) ps))"
      using Cons.hyps(1)[OF _ t(2)] t(3) st by auto
    have "proctab u = readied s (set (takeWhile (\<lambda>x. keys s x \<le> 0) (L ?q)))"
      using u(7) readied_trans[OF t(7)] L True tw by simp
    then show ?thesis
      using lp u t L True tw same_but_trans[OF t(4) st(2) u(4)] sched_eq_trans[OF t(5) u(5)]
      by (intro exI[of _ u] exI[of _ L'']) simp
  qed
qed

definition woken :: "kst \<Rightarrow> (int \<Rightarrow> int list) \<Rightarrow> int list" where
  "woken s L = takeWhile (\<lambda>x. keys s x \<le> 0) (L (sleepq s))"

definition still_asleep :: "kst \<Rightarrow> (int \<Rightarrow> int list) \<Rightarrow> int list" where
  "still_asleep s L = dropWhile (\<lambda>x. keys s x \<le> 0) (L (sleepq s))"

text \<open>The effect of a clock interrupt, or of a plain resched, on everything but the ready list.\<close>

definition awakened :: "kst \<Rightarrow> (int \<Rightarrow> int list) \<Rightarrow> int set \<Rightarrow> int list \<Rightarrow> kst \<Rightarrow> bool" where
  "awakened s L W rest t \<longleftrightarrow> (\<exists>L'. kok t L' \<and> L' (sleepq s) = rest \<and> same_but s (sleepq s) L L' \<and>
       sleepers t L' = due (keys s) 0 rest) \<and>
     sched_eq s t \<and> (\<forall>p\<in>W. prstate (proctab t p) \<in> {PR_CURR, PR_READY}) \<and>
     (\<forall>p. p \<notin> W \<and> prstate (proctab s p) \<notin> {PR_CURR, PR_READY} \<longrightarrow>
        prstate (proctab t p) = prstate (proctab s p))"

lemma wakeup_ok:
  assumes k: "kinv s L" "sems_ok s L" "0 \<le> nextsem s" "nextsem s < NSEM" "ndefers (Defer s) = 0"
    and d: "delays_ok (keys s) (still_asleep s L)"
  shows "\<exists>t. wakeup s = Some t \<and> awakened s L (set (woken s L)) (still_asleep s L) t"
proof -
  obtain e where e: "resched_cntl DEFER_START s = Some (OK, s\<lparr>Defer := e\<rparr>)" "kdefer (s\<lparr>Defer := e\<rparr>) L"
    using defer_start[OF k(1,5,3,4)] by blast
  let ?s = "s\<lparr>Defer := e\<rparr>"
  obtain t L' where t: "c_loop wakeup_iter ?s = Some t" "kdefer t L'"
    "L' (sleepq s) = still_asleep s L" "same_but s (sleepq s) L L'" "sched_eq ?s t"
    "proctab t = readied s (set (woken s L))"
    using wakeup_loop[OF e(2)] by (auto simp: still_asleep_def woken_def)
  have st: "sleepq t = sleepq s" "readylist t = readylist s" "semtab t = semtab s" "sched_eq s t"
    using sched_eqD(4-6)[OF t(5)] sched_eq_trans[OF sched_eq_fields(3) t(5)] by simp_all
  have k0: "kinv0 s L" using k(1) by (simp add: kinv_def)
  have "L' (semq s i) = L (semq s i)" if "0 \<le> i" "i < NSEM" for i
    using t(4) kinv0D(5)[OF k0 that] by (simp add: same_but_def)
  then have sm: "sems_ok t L'" using sems_ok_cong[OF k(2) st(3)] by blast
  have ks: "keys t x = keys s x" if "x \<in> set (still_asleep s L)" for x
    using sched_eq_asleep[OF st(4) asleep_member[OF kdeferD(1)[OF t(2)]]] that t(3) st(1) by simp
  then have "map (keys t) (still_asleep s L) = map (keys s) (still_asleep s L)" by simp
  then have sl: "sleep_ok t L'"
    using d ks t(3) st(1) unfolding sleep_ok_def delays_ok_def by metis
  obtain u L'' where u: "resched_cntl DEFER_STOP t = Some (OK, u)" "kok u L''" "sched_eq t u"
    "\<And>q. q \<noteq> readylist t \<Longrightarrow> L'' q = L' q"
    "\<And>x. prstate (proctab t x) \<notin> {PR_CURR, PR_READY} \<Longrightarrow> prstate (proctab u x) = prstate (proctab t x)"
    "\<And>x. prstate (proctab t x) \<in> {PR_CURR, PR_READY} \<Longrightarrow> prstate (proctab u x) \<in> {PR_CURR, PR_READY}"
    using defer_stop[OF t(2) sm sl] by blast
  have w: "wakeup s = Some u" using e(1) t(1) u(1) by (simp add: wakeup_def)
  have L2: "L'' (sleepq s) = still_asleep s L"
    using u(4) t(3) kinv0D(4)[OF k0] st(2) by simp
  have "sleepers u L'' = due (keys t) 0 (still_asleep s L)"
    using sched_eq_due(1)[OF u(3) kokD(5)[OF u(2)], of L'] u(4) st kinv0D(4)[OF k0] t(3)
    by (simp add: sleepers_def)
  then have "sleepers u L'' = due (keys s) 0 (still_asleep s L)"
    using due_cong[of "still_asleep s L" "keys t" "keys s", OF ks] by simp
  moreover have "same_but s (sleepq s) L L''" using t(4) u(4) st(2) by (simp add: same_but_def)
  moreover have "prstate (proctab u p) \<in> {PR_CURR, PR_READY}" if "p \<in> set (woken s L)" for p
    using u(6)[of p] that by (simp add: t(6) readied_def)
  moreover have "prstate (proctab u p) = prstate (proctab s p)"
    if "p \<notin> set (woken s L)" "prstate (proctab s p) \<notin> {PR_CURR, PR_READY}" for p
    using u(5)[of p] that by (simp add: t(6) readied_def)
  ultimately have "awakened s L (set (woken s L)) (still_asleep s L) u"
    unfolding awakened_def using u(2) L2 sched_eq_trans[OF st(4) u(3)] by blast
  then show ?thesis using w by blast
qed

lemma resched_awakened:
  assumes k: "kok s L"
  shows "\<exists>t. resched s = Some t \<and> awakened s L {} (L (sleepq s)) t"
proof -
  note m = kokD(1)[OF k]
  obtain t where t: "resched s = Some t" "kok t (resched_L s L)" "sched_eq s t"
    "\<And>p. prstate (proctab t p) = resched_state s L p"
    using resched_kok[OF m kokD(3)[OF k]] by blast
  have sl: "resched_L s L (sleepq s) = L (sleepq s)" using kmidD(10)[OF m] by (simp add: resched_L_other)
  have "sleepers t (resched_L s L) = due (keys s) 0 (L (sleepq s))"
    using sched_eq_due(1)[OF t(3) kokD(5)[OF t(2)], of L] sl by (simp add: sleepers_def)
  moreover have "same_but s (sleepq s) L (resched_L s L)" by (simp add: same_but_def resched_L_other)
  moreover have "prstate (proctab t p) = prstate (proctab s p)"
    if "prstate (proctab s p) \<notin> {PR_CURR, PR_READY}" for p
    using that t(4)[of p] resched_pid_state[OF kmidD(1)[OF m]] by (auto simp: resched_state_def)
  ultimately have "awakened s L {} (L (sleepq s)) t"
    unfolding awakened_def using t(2,3) sl by blast
  then show ?thesis using t(1) by blast
qed

text \<open>The clock interrupt: the time of day advances, the first delay goes down by one, and the
  processes whose time has come are readied.\<close>

definition tick_time :: "kst \<Rightarrow> kst" where
  "tick_time s = (let s = s\<lparr>clkticks := u32 (clkticks s + 1)\<rparr> in
     if CLKTICKS_PER_SEC = clkticks s then s\<lparr>clktime := u32 (clktime s + 1), clkticks := 0\<rparr> else s)"

lemma tick_time_frame [simp]:
  "queuetab (tick_time s) = queuetab s" "proctab (tick_time s) = proctab s"
  "currpid (tick_time s) = currpid s" "readylist (tick_time s) = readylist s"
  "sleepq (tick_time s) = sleepq s" "nextqid (tick_time s) = nextqid s"
  "semtab (tick_time s) = semtab s" "nextsem (tick_time s) = nextsem s"
  "Defer (tick_time s) = Defer s" "semq (tick_time s) = semq s" "prcount (tick_time s) = prcount s"
  "heap (tick_time s) = heap s"
  by (simp_all add: tick_time_def Let_def semq_def fun_eq_iff)

lemma tick_time_kok: "kok s L \<Longrightarrow> kok (tick_time s) L"
  using kinv0_cong[of s L "tick_time s"] sems_ok_cong[of s L "tick_time s" L]
  by (simp add: kok_def kmid_def sleep_ok_def)

definition ticked :: "kst \<Rightarrow> (int \<Rightarrow> int list) \<Rightarrow> int \<Rightarrow> int" where
  "ticked s L x = (if L (sleepq s) \<noteq> [] \<and> x = hd (L (sleepq s)) then keys s x - 1 else keys s x)"

lemma clkhandler_tick:
  "clkhandler s = do {
     b \<leftarrow> nonempty (sleepq (tick_time s)) (tick_time s);
     (k, u) \<leftarrow> (if b then dec_firstkey (tick_time s) else Some (1, tick_time s));
     if b \<and> k \<le> 0 then wakeup u else resched u }"
  by (simp only: clkhandler_def tick_time_def Let_def)

lemma clkhandler_ok:
  assumes k: "kok s L"
  shows "\<exists>u t. clkhandler s = Some t \<and> keys u = ticked s L \<and> u = (tick_time s)\<lparr>queuetab := queuetab u\<rparr> \<and>
    awakened u L (set (woken u L)) (still_asleep u L) t"
proof -
  let ?s = "tick_time s" and ?q = "sleepq s"
  have ks: "kok ?s L" using tick_time_kok[OF k] .
  note m = kokD(1)[OF ks]
  note wf = kmidD(5)[OF m] and qq = kmidD(9)[OF m]
  note iq = queues_wfD(1)[OF wf qq, simplified]
  have ne: "nonempty ?q ?s = Some (L ?q \<noteq> [])" using isempty_wf(2)[of ?s ?q] iq by simp
  show ?thesis
  proof (cases "L ?q")
    case Nil
    obtain t where t: "resched ?s = Some t" "awakened ?s L {} (L (sleepq ?s)) t"
      using resched_awakened[OF ks] by blast
    have "clkhandler s = Some t"
      using ne Nil t(1) by (simp add: clkhandler_tick)
    then show ?thesis
      using t(2) Nil
      by (intro exI[of "\<lambda>u. \<exists>t. P u t" ?s for P] exI[of "\<lambda>t. P ?s t" t for P])
        (simp add: ticked_def woken_def still_asleep_def fun_eq_iff)
  next
    case (Cons x xs)
    have d: "delays_ok (keys s) (x # xs)" using kmidD(11)[OF m] Cons by (simp add: sleep_ok_def)
    have kx: "0 \<le> keys s x" "keys s x \<le> INT_MAX" using delays_ok_key[OF d, of x] by simp_all
    have dis: "distinct (x # xs)" "0 \<le> x" "x < NPROC"
      using queues_wfD(5,6)[OF wf qq] Cons by simp_all
    let ?qt = "(queuetab s)(x := (queuetab s x)\<lparr>qkey := keys s x - 1\<rparr>)"
    let ?u = "?s\<lparr>queuetab := ?qt\<rparr>"
    have ku: "keys ?u = ticked s L" using Cons by (auto simp: ticked_def fun_eq_iff)
    have df: "dec_firstkey ?s = Some (keys s x - 1, ?u)"
      using firstid_wf[of ?s ?q "L ?q"] iq Cons kx proc_in_tab[OF dis(2,3)]
      by (simp add: dec_firstkey_def table_updates i32_id)
    have "queues_wf ?qt (nextqid s) L"
      by (rule queues_wf_keys[of "queuetab s"]) (use wf dis in auto)
    moreover have "desc (\<lambda>y. qkey (?qt y)) (L (readylist s))"
    proof -
      have "x \<notin> set (L (readylist s))"
        using queues_wf_disjoint[OF wf qq kmidD(8)[OF m], of x] kmidD(10)[OF m] Cons by auto
      then have "qkey (?qt y) = keys s y" if "y \<in> set (L (readylist s))" for y using that by auto
      then have "desc (\<lambda>y. qkey (?qt y)) (L (readylist s)) = desc (keys s) (L (readylist s))"
        by (rule desc_cong)
      then show ?thesis using kinv0D(7)[OF kokD(5)[OF ks]] by simp
    qed
    moreover have "tables_ok ?u" "queues_used ?u L" "procs_ok ?u"
      "\<And>p. placed ?u L p (proctab s p) = placed ?s L p (proctab s p)"
      using kokD(5)[OF ks] by (simp_all add: kinv0_def tables_ok_def queues_used_def procs_ok_def placed_def)
    ultimately have k0: "kinv0 ?u L" using kokD(5)[OF ks] by (simp add: kinv0_def)
    have sm: "sems_ok ?u L" using sems_ok_cong[OF kmidD(2)[OF m], of ?u L] by simp
    have nd: "ndefers (Defer ?u) = 0" "0 \<le> nextsem ?u" "nextsem ?u < NSEM"
      "prstate (proctab ?u (currpid ?u)) = PR_CURR"
      using kokD(3,4)[OF ks] kmidD(3,4)[OF m] by simp_all
    have tl: "delays_ok (keys s) xs" using delays_ok_append(2)[of "keys s" "[x]" xs] d by simp
    have tk: "keys ?u y = keys s y" if "y \<in> set xs" for y using that dis(1) by auto
    have tl': "delays_ok (keys ?u) xs"
      using delays_ok_cong[of xs "keys ?u" "keys s", OF tk] tl by blast
    show ?thesis
    proof (cases "keys s x - 1 \<le> 0")
      case True
      have st: "still_asleep ?u L = dropWhile (\<lambda>y. keys ?u y \<le> 0) xs"
        using Cons True by (simp add: still_asleep_def)
      have "delays_ok (keys ?u) (still_asleep ?u L)"
        using delays_ok_append(2)[of "keys ?u" "takeWhile (\<lambda>y. keys ?u y \<le> 0) xs" "dropWhile (\<lambda>y. keys ?u y \<le> 0) xs"] tl'
        unfolding st takeWhile_dropWhile_id by blast
      then obtain t where t: "wakeup ?u = Some t" "awakened ?u L (set (woken ?u L)) (still_asleep ?u L) t"
        using wakeup_ok[of ?u L] k0 sm nd by (auto simp: kinv_def)
      have "clkhandler s = Some t"
        using ne Cons df True t(1) by (simp add: clkhandler_tick)
      then show ?thesis using t(2) ku by (intro exI[of "\<lambda>u. \<exists>t. P u t" ?u for P] exI[of "\<lambda>t. P ?u t" t for P]) simp
    next
      case False
      have e: "keys ?u = (keys s)(x := keys s x - 1)" by (simp add: fun_eq_iff)
      have "delays_ok (keys ?u) (x # xs)"
        unfolding e by (rule delays_ok_dec[OF d dis(1)]) (use False in simp)
      then have "kok ?u L"
        using k0 sm nd Cons by (simp add: kok_def kmid_def sleep_ok_def)
      then obtain t where t: "resched ?u = Some t" "awakened ?u L {} (L (sleepq ?u)) t"
        using resched_awakened by blast
      have "clkhandler s = Some t"
        using ne Cons df False t(1) by (simp add: clkhandler_tick)
      moreover have "woken ?u L = []" "still_asleep ?u L = L ?q"
        using Cons False by (simp_all add: woken_def still_asleep_def)
      ultimately show ?thesis using t(2) ku by (intro exI[of "\<lambda>u. \<exists>t. P u t" ?u for P] exI[of "\<lambda>t. P ?u t" t for P]) simp
    qed
  qed
qed

text \<open>In terms of the time left: one millisecond less for everybody, and those with one left are
  awake.\<close>

lemma clkhandler_due:
  assumes k: "kok s L" and pos: "L (sleepq s) = x # xs" "1 \<le> keys s x"
  shows "\<exists>t L'. clkhandler s = Some t \<and> kok t L' \<and>
    sleepers t L' = map (\<lambda>(p, d). (p, d - 1)) (filter (\<lambda>(p, d). 1 < d) (sleepers s L)) \<and>
    (\<forall>p d. (p, d) \<in> set (sleepers s L) \<and> d \<le> 1 \<longrightarrow> prstate (proctab t p) \<in> {PR_CURR, PR_READY}) \<and>
    (\<forall>q. q \<noteq> readylist s \<and> q \<noteq> sleepq s \<longrightarrow> L' q = L q)"
proof -
  obtain u t where u: "clkhandler s = Some t" "keys u = ticked s L" "u = (tick_time s)\<lparr>queuetab := queuetab u\<rparr>"
    "awakened u L (set (woken u L)) (still_asleep u L) t"
    using clkhandler_ok[OF k] by blast
  have fr: "sleepq u = sleepq s" "readylist u = readylist s"
    using arg_cong[OF u(3), of sleepq] arg_cong[OF u(3), of readylist] by simp_all
  obtain L' where L': "kok t L'" "same_but u (sleepq u) L L'" "sleepers t L' = due (keys u) 0 (still_asleep u L)"
    using u(4) unfolding awakened_def by blast
  have d: "delays_ok (keys s) (x # xs)"
    using kmidD(11)[OF kokD(1)[OF k]] pos(1) by (simp add: sleep_ok_def)
  have dis: "distinct (x # xs)"
    using queues_wfD(5)[OF kmidD(5)[OF kokD(1)[OF k]] kmidD(9)[OF kokD(1)[OF k]]] pos(1) by simp
  have ku: "qkey (queuetab u y) = ((keys s)(x := keys s x - 1)) y" for y
    using fun_cong[OF u(2), of y] pos(1) by (simp add: ticked_def)
  note sp = tick_due_split[OF d pos(2) dis]
  have kf: "keys u = (keys s)(x := keys s x - 1)" by (rule ext) (rule ku)
  have "still_asleep u L = dropWhile (\<lambda>y. ((keys s)(x := keys s x - 1)) y \<le> 0) (x # xs)"
    by (simp only: still_asleep_def ku fr pos(1))
  then have "sleepers t L' = map (\<lambda>(p, d). (p, d - 1)) (filter (\<lambda>(p, d). 1 < d) (sleepers s L))"
    unfolding L'(3) kf by (simp only: sp(2) sleepers_def pos(1))
  moreover have w: "woken u L = map fst (filter (\<lambda>(y, t). t \<le> 1) (sleepers s L))"
    by (simp only: woken_def sleepers_def ku fr pos(1) sp(1))
  have "prstate (proctab t p) \<in> {PR_CURR, PR_READY}" if "(p, d) \<in> set (sleepers s L)" "d \<le> 1" for p d
  proof -
    have "p \<in> set (woken u L)" unfolding w using that by force
    then show ?thesis using u(4) unfolding awakened_def by blast
  qed
  ultimately show ?thesis using u(1) L'(1,2) fr by (auto simp: same_but_def)
qed

section \<open>Suspension, resumption, priorities\<close>

lemma yield_ok: "kok s L \<Longrightarrow> \<exists>t L'. yield s = Some (OK, t) \<and> kok t L'"
  using resched_awakened by (fastforce simp: yield_def awakened_def)

lemma resume_ok:
  assumes k: "kok s L" and p: "0 \<le> p" "p < NPROC" "prstate (proctab s p) = PR_SUSP"
  shows "\<exists>t. resume p s = Some (prprio (proctab s p), t) \<and> made_ready s L p t"
proof -
  note m = kokD(1)[OF k]
  have nc: "p \<noteq> currpid s" using kokD(4)[OF k] p(3) by auto
  have d: "detached s L p" using detach_off[OF kokD(5)[OF k] p(1,2) _ nc] p(3) by simp
  obtain t where t: "ready p s = Some (OK, t)" "made_ready s L p t"
    using ready_kok[OF d kmidD(2-4)[OF m] kokD(3)[OF k] kmidD(11)[OF m]] by blast
  have "resume p s = Some (prprio (proctab s p), t)"
    using p t(1) by (simp add: resume_def isbadpid_def)
  then show ?thesis using t(2) by blast
qed

lemma resume_error:
  "isbadpid s p \<or> prstate (proctab s p) \<noteq> PR_SUSP \<Longrightarrow> resume p s = Some (SYSERR, s)"
  by (auto simp: resume_def)

lemma suspend_current:
  assumes k: "kok s L" and nn: "currpid s \<noteq> NULLPROC"
  shows "\<exists>t L'. suspend (currpid s) s = Some (Blocked, t) \<and> kok t L' \<and> sched_eq s t \<and>
    prstate (proctab t (currpid s)) = PR_SUSP \<and> (\<forall>q. q \<noteq> readylist s \<longrightarrow> L' q = L q)"
proof -
  let ?c = "currpid s" and ?u = "set_state (currpid s) PR_SUSP s"
  have u: "kmid ?u L" using block_off[OF k nn, of PR_SUSP] by simp
  obtain t where t: "resched ?u = Some t" "kok t (resched_L ?u L)" "sched_eq ?u t"
    "currpid t = resched_pid ?u L" "\<And>p. prstate (proctab t p) = resched_state ?u L p"
    using resched_kok[OF u] kokD(3)[OF k] by auto
  have nc: "currpid t \<noteq> ?c" using resched_blocked[OF u _ t(4)] by simp
  then have "suspend ?c s = Some (Blocked, t)"
    using t(1) kokD(4,6)[OF k] nn by (simp add: suspend_def outcome_of_def)
  moreover have "sched_eq s t" using sched_eq_trans[OF sched_eq_set_state t(3)] by simp
  moreover have "prstate (proctab t ?c) = PR_SUSP"
    using t(5)[of ?c] t(4) nc by (simp add: resched_state_def)
  ultimately show ?thesis
    using t(2) by (intro exI[of _ t] exI[of _ "resched_L ?u L"]) (simp add: resched_L_other)
qed

lemma suspend_ready:
  assumes k: "kok s L" and p: "0 \<le> p" "p < NPROC" "p \<noteq> NULLPROC" "prstate (proctab s p) = PR_READY"
  shows "\<exists>t. suspend p s = Some (Ret (prprio (proctab s p)), t) \<and>
    kok t (L(readylist s := remove1 p (L (readylist s)))) \<and> sched_eq s t \<and> currpid t = currpid s \<and>
    proctab t = (proctab s)(p := (proctab s p)\<lparr>prstate := PR_SUSP\<rparr>)"
proof -
  let ?r = "readylist s" and ?e = "(proctab s p)\<lparr>prstate := PR_SUSP\<rparr>"
  let ?L = "L(?r := remove1 p (L ?r))"
  note m = kokD(1)[OF k] and k0 = kokD(5)[OF k]
  note wf = kmidD(5)[OF m] and qq = kmidD(8)[OF m]
  have pin: "p \<in> set (L ?r)" using kinv0D(6)[OF k0 p(1,2)] p(4) by (simp add: placed_def)
  have nc: "p \<noteq> currpid s" using kokD(4)[OF k] p(4) by auto
  obtain qt where qt: "getitem p s = Some (p, s\<lparr>queuetab := qt\<rparr>)" "queues_wf qt (nextqid s) ?L"
    "same_keys (queuetab s) qt"
    using getitem_wf[OF wf qq pin] by blast
  let ?t = "s\<lparr>queuetab := qt, proctab := (proctab s)(p := ?e)\<rparr>"
  obtain us vs where sp: "L ?r = us @ p # vs" "p \<notin> set us" using split_list_first[OF pin] by blast
  have L': "remove1 p (L ?r) = us @ vs" using sp by (simp add: remove1_append)
  have off: "off_queues (nextqid s) ?L p" using off_queues_removed[OF wf qq sp(1)] L' by simp
  have "kinv0 ?t ?L"
  proof (rule kinv0_move[OF k0 p(1,2) qt(2)])
    show "set (?L q) - {p} = set (L q) - {p}" for q using sp L' by auto
    show "q = ?r \<or> q = sleepq s \<or> (\<exists>i. 0 \<le> i \<and> i < NSEM \<and> q = semq s i)"
      if "qid_ok (nextqid s) q" "p \<in> set (?L q)" for q
      using that off unfolding off_queues_def by blast
    show "placed s ?L p ?e" by (rule placed_off[OF off]) (use k0 in \<open>simp_all add: kinv0_def\<close>)
    have "desc (keys s) (us @ vs)"
      using kinv0D(7)[OF k0] sp(1) by (simp add: desc_def sorted_wrt_append)
    then show "desc (\<lambda>x. qkey (qt x)) (?L ?r)" using qt(3) L' by (simp add: same_keys_def)
    show "procs_ok (s\<lparr>proctab := (proctab s)(p := ?e)\<rparr>)"
      using kinv0D(8)[OF k0] p(3) by (auto simp: procs_ok_def)
  qed
  moreover have "set_state p PR_SUSP (s\<lparr>queuetab := qt\<rparr>) = ?t" by (simp add: table_updates)
  moreover have sq: "sched_eq s (set_state p PR_SUSP (s\<lparr>queuetab := qt\<rparr>))"
    using qt(3) by (intro sched_eq_trans[OF sched_eq_queuetab sched_eq_set_state]) (simp_all add: same_keys_def)
  ultimately have km: "kmid ?t ?L"
    using kmid_sched[OF m, of ?t ?L] semq_ok(2)[OF m] kmidD(10)[OF m] by simp
  then have "kok ?t ?L" using kokD(3,4)[OF k] nc by (simp add: kok_def)
  moreover have "suspend p s = Some (Ret (prprio (proctab s p)), ?t)"
    using p qt(1) by (simp add: suspend_def suspend_rest_def isbadpid_def table_updates)
  moreover have "sched_eq s ?t" using sq by (simp add: table_updates)
  ultimately show ?thesis by (intro exI[of _ ?t]) simp
qed

lemma suspend_error:
  "isbadpid s p \<or> p = NULLPROC \<or> prstate (proctab s p) \<notin> {PR_CURR, PR_READY} \<Longrightarrow>
     suspend p s = Some (Ret SYSERR, s)"
  by (auto simp: suspend_def)

lemma chprio_ok:
  assumes k: "kok s L" and pr: "-32768 \<le> n" "n \<le> 32767"
  shows "kok (snd (chprio p n s)) L"
proof (cases "isbadpid s p")
  case False
  let ?t = "upd_proc p (\<lambda>e. e\<lparr>prprio := n\<rparr>) s"
  note k0 = kokD(5)[OF k]
  have "kinv0 (s\<lparr>queuetab := queuetab s, proctab := (proctab s)(p := (proctab s p)\<lparr>prprio := n\<rparr>)\<rparr>) L"
  proof (rule kinv0_move[OF k0 _ _ kinv0D(1)[OF k0]])
    show "0 \<le> p" "p < NPROC" using isbadpid_range[OF False] by auto
    then have pl: "placed s L p (proctab s p)" using kinv0D(6)[OF k0] by blast
    then show "placed s L p ((proctab s p)\<lparr>prprio := n\<rparr>)" by (simp add: placed_def)
    show "q = readylist s \<or> q = sleepq s \<or> (\<exists>i. 0 \<le> i \<and> i < NSEM \<and> q = semq s i)"
      if q: "qid_ok (nextqid s) q" "p \<in> set (L q)" for q
    proof -
      have "L q \<noteq> []" using q(2) by auto
      then show ?thesis using k0 q(1) by (simp add: kinv0_def queues_used_def)
    qed
    show "desc (keys s) (L (readylist s))" using kinv0D(7)[OF k0] .
    show "procs_ok (s\<lparr>proctab := (proctab s)(p := (proctab s p)\<lparr>prprio := n\<rparr>)\<rparr>)"
      using kinv0D(8)[OF k0] pr by (simp add: procs_ok_def)
  qed simp
  then have "kinv0 ?t L" by (simp add: table_updates)
  moreover have "sems_ok ?t L"
    using sems_ok_cong[OF kmidD(2)[OF kokD(1)[OF k]], of ?t L] by simp
  ultimately have "kok ?t L" using k by (auto simp: kok_def kmid_def)
  then show ?thesis using False by (simp add: chprio_def)
qed (use k in \<open>simp add: chprio_def\<close>)

end
