(* ===== verification/Heap_Free.thy ===== *)
theory Heap_Free
  imports Heap
begin

text \<open>
  freemem puts a block back in its place and coalesces it with its neighbours; getstk carves from
  the top of the last block that fits. Both are shown to refine functions on the list of blocks.
\<close>

section \<open>freemem\<close>

definition join_next :: "int \<times> int \<Rightarrow> (int \<times> int) list \<Rightarrow> (int \<times> int) list" where
  "join_next b cs = (case cs of [] \<Rightarrow> [b]
     | c # cs' \<Rightarrow> if fst b + snd b = fst c then (fst b, snd b + snd c) # cs' else b # cs)"

fun put_back :: "int \<Rightarrow> int \<Rightarrow> (int \<times> int) list \<Rightarrow> (int \<times> int) list option" where
  "put_back b n [] = Some [(b, n)]"
| "put_back b n ((a, l) # bs) =
     (if a < b then
        (if b < a + l then None else map_option (join_next (a, l)) (put_back b n bs))
      else if b + n > a then None
      else Some (join_next (b, n) ((a, l) # bs)))"

lemma put_back_end:
  "\<forall>x\<in>set vs. b \<le> fst x \<Longrightarrow> put_back b n vs =
     (if vs \<noteq> [] \<and> b + n > fst (hd vs) then None else Some (join_next (b, n) vs))"
  by (cases vs) (auto simp: join_next_def)

lemma join_next_skip: "cs \<noteq> [] \<Longrightarrow> fst b + snd b < fst (hd cs) \<Longrightarrow> join_next b cs = b # cs"
  by (cases cs) (simp_all add: join_next_def)

lemma join_next_hd [simp]: "join_next b cs \<noteq> []" "fst (hd (join_next b cs)) = fst b"
  by (simp_all add: join_next_def split: list.splits)

lemma join_next_assoc:
  "a + l = b \<Longrightarrow> join_next (a, l) (join_next (b, n) vs) = join_next (a, l + n) vs"
  by (auto simp: join_next_def split: list.splits)

text \<open>Only the block before the place matters.\<close>

lemma put_back_split:
  assumes "blocks_ok lo hi (us @ (a, l) # vs)" "a < b" "\<forall>x\<in>set vs. b \<le> fst x"
  shows "put_back b n (us @ (a, l) # vs) =
    (if b < a + l \<or> vs \<noteq> [] \<and> b + n > fst (hd vs) then None
     else Some (us @ join_next (a, l) (join_next (b, n) vs)))"
  using assms(1)
proof (induction us arbitrary: lo)
  case Nil
  then show ?case using assms(2,3) put_back_end[of vs b n] by auto
next
  case (Cons u us)
  obtain c m where u: "u = (c, m)" by (cases u)
  have b: "8 \<le> m" "blocks_ok (c + m + 1) hi (us @ (a, l) # vs)" using Cons.prems u by simp_all
  have lt: "c + m < fst (hd (us @ (a, l) # vs))" using b(2) by (cases us) auto
  have ca: "c + m < a" using blocks_in(1)[OF b(2), of "(a, l)"] by simp
  have hd: "fst (hd (us @ join_next (a, l) (join_next (b, n) vs))) = fst (hd (us @ (a, l) # vs))"
    "us @ join_next (a, l) (join_next (b, n) vs) \<noteq> []"
    by (cases us; simp)+
  have "join_next (c, m) (us @ join_next (a, l) (join_next (b, n) vs)) =
      (c, m) # us @ join_next (a, l) (join_next (b, n) vs)"
    using lt hd join_next_skip by simp
  then show ?case using Cons.IH[OF b(2)] ca b(1) assms(2) u by simp
qed

lemma freemem_walk_ok:
  assumes "chain h p (us @ vs)" "\<forall>x\<in>set us. fst x < b \<and> fst x \<noteq> NULL" "vs \<noteq> [] \<longrightarrow> b \<le> fst (hd vs)"
  shows "c_loop (freemem_walk b h) (p, mnext h p) =
    Some (prev_of p us, case vs of [] \<Rightarrow> NULL | v # _ \<Rightarrow> fst v)"
  using assms
proof (induction us arbitrary: p)
  case Nil
  then have "freemem_walk b h (p, mnext h p) = Some (Inr (p, mnext h p))"
    by (cases vs) (auto simp: freemem_walk_def)
  then show ?case using Nil chain_mnext[of h p vs] by (simp add: c_loop_Inr)
next
  case (Cons u us)
  then have "freemem_walk b h (p, mnext h p) = Some (Inl (fst u, mnext h (fst u)))"
    by (cases u) (simp add: freemem_walk_def)
  then show ?case using Cons by (cases u) (simp add: c_loop_Inl)
qed

text \<open>The second half of freemem: the block x swallows the next one if it touches it.\<close>

definition merge_next :: "int \<Rightarrow> int \<Rightarrow> hst \<Rightarrow> hst" where
  "merge_next x next h =
     (if u32 (x + mlength h x) = next
      then (let h = set_mlength x (u32 (mlength h x + mlength h next)) h
            in set_mnext x (mnext h next) h)
      else h)"

lemma merge_frame [simp]:
  "memlist (merge_next x c h) = memlist h" "minheap (merge_next x c h) = minheap h"
  "maxheap (merge_next x c h) = maxheap h"
  by (simp_all add: merge_next_def Let_def)

lemma merge_chain:
  assumes ar: "arena_ok h" "node h x" "node h q" "q \<noteq> x" and c: "chain h q ((x, k) # vs)"
    and vs: "\<And>v. v \<in> set vs \<Longrightarrow> node h (fst v) \<and> x < fst v \<and> fst v \<noteq> q"
    and r: "0 < x + k" "x + k < 4294967296" "\<And>v. v \<in> set vs \<Longrightarrow> 0 \<le> snd v \<and> fst v + snd v < 4294967296"
    and x: "0 < x" "0 \<le> k" and dist: "distinct (map fst vs)"
  defines "h' \<equiv> merge_next x (case vs of [] \<Rightarrow> NULL | v # _ \<Rightarrow> fst v) h"
  shows "chain h' q (join_next (x, k) vs)"
    "\<And>y. node h y \<Longrightarrow> y \<noteq> x \<Longrightarrow> mnext h' y = mnext h y \<and> mlength h' y = mlength h y"
proof -
  have xk: "mlength h x = k" "mnext h q = x" "chain h x vs" using c by simp_all
  have u: "u32 (x + k) = x + k" using r by (intro u32_id) simp_all
  have fr: "mnext h' y = mnext h y \<and> mlength h' y = mlength h y" if "node h y" "y \<noteq> x" for y
    using that ar by (simp add: h'_def merge_next_def Let_def heap_words)
  then show "\<And>y. node h y \<Longrightarrow> y \<noteq> x \<Longrightarrow> mnext h' y = mnext h y \<and> mlength h' y = mlength h y" by blast
  show "chain h' q (join_next (x, k) vs)"
  proof (cases vs)
    case Nil
    have "h' = h" using u xk r(1) Nil by (simp add: h'_def merge_next_def NULL_def)
    then show ?thesis using c Nil by (simp add: join_next_def)
  next
    case (Cons v ws)
    obtain a l where v: "v = (a, l)" by (cases v)
    have al: "mnext h x = a" "mlength h a = l" "chain h a ws" using xk(3) Cons v by simp_all
    have na: "node h a" "x < a" "0 \<le> l" "a + l < 4294967296"
      using vs[of v] r(3)[of v] Cons v by simp_all
    show ?thesis
    proof (cases "x + k = a")
      case False
      then have "h' = h" using u xk Cons v by (simp add: h'_def merge_next_def)
      then show ?thesis using c Cons v False by (simp add: join_next_def)
    next
      case True
      have kl: "u32 (k + l) = k + l" using na True x by (intro u32_id) simp_all
      have "mlength h' x = k + l" "mnext h' x = mnext h a"
        using u xk Cons v al True kl ar na by (simp_all add: h'_def merge_next_def Let_def heap_words)
      moreover have "chain h' x ws = chain h a ws"
      proof (rule chain_cong)
        show "mnext h' x = mnext h a" by fact
        show "mnext h' (fst b) = mnext h (fst b) \<and> mlength h' (fst b) = mlength h (fst b)"
          if "b \<in> set ws" for b
          using fr[of "fst b"] vs[of b] that Cons by auto
      qed
      moreover have "mnext h' q = x" using fr[OF ar(3,4)] xk(2) by simp
      ultimately show ?thesis using True Cons v al(3) by (simp add: join_next_def)
    qed
  qed
qed

lemma blocks_join:
  assumes "lo \<le> x" "8 \<le> k" "x mod 8 = 0" "k mod 8 = 0" "x + k \<le> hi" "blocks_ok (x + k) hi vs"
  shows "blocks_ok lo hi (join_next (x, k) vs)"
proof (cases vs)
  case (Cons v ws)
  obtain a l where v: "v = (a, l)" by (cases v)
  have b: "x + k \<le> a" "8 \<le> l" "l mod 8 = 0" "a mod 8 = 0" "a + l \<le> hi" "blocks_ok (a + l + 1) hi ws"
    using assms(6) Cons v by simp_all
  show ?thesis
  proof (cases "x + k = a")
    case True
    then have "x + (k + l) + 1 = a + l + 1" by simp
    then have b6: "blocks_ok (x + (k + l) + 1) hi ws" using b(6) by (simp only:)
    have "x + (k + l) \<le> hi" using True b(5) by simp
    then show ?thesis using True assms(1-4) b(2) b6 Cons v mult8_add[OF assms(4) b(3)]
      by (simp add: join_next_def)
  next
    case False
    then show ?thesis using assms b Cons v by (simp add: join_next_def)
  qed
qed (use assms in \<open>simp add: join_next_def\<close>)

text \<open>The refinement. The block must lie inside the heap and be aligned, as the blocks that getmem
  and getstk hand out are; whether it overlaps the free list is what freemem finds out itself.\<close>

lemma freemem_split:
  assumes wf: "heap_wf h (us @ vs)"
    and us: "\<forall>x\<in>set us. fst x < b" and vs: "\<forall>x\<in>set vs. b \<le> fst x"
    and b: "minheap h \<le> b" "b mod 8 = 0" "8 \<le> n" "n mod 8 = 0" "b + n \<le> maxheap h"
  shows "\<exists>p. c_loop (freemem_walk b h) (memlist h, mnext h (memlist h)) =
      Some (prev_of (memlist h) us, case vs of [] \<Rightarrow> NULL | v # _ \<Rightarrow> fst v) \<and>
    (prev_of (memlist h) us = memlist h \<longleftrightarrow> us = []) \<and>
    put_back b n (us @ vs) =
      (if us \<noteq> [] \<and> b < fst (last us) + snd (last us) \<or> vs \<noteq> [] \<and> b + n > fst (hd vs) then None
       else Some (butlast us @ (if us = [] then join_next (b, n) vs
                                else join_next (last us) (join_next (b, n) vs))))"
proof -
  note s = heap_split[OF wf]
  have "chain h (memlist h) (us @ vs)" using wf by (simp add: heap_wf_def)
  moreover have "\<forall>x\<in>set us. fst x < b \<and> fst x \<noteq> NULL" using us s(9) by (fastforce simp: NULL_def)
  ultimately have w: "c_loop (freemem_walk b h) (memlist h, mnext h (memlist h)) =
      Some (prev_of (memlist h) us, case vs of [] \<Rightarrow> NULL | v # _ \<Rightarrow> fst v)"
    using freemem_walk_ok[of h "memlist h" us vs b] vs by simp
  have p: "prev_of (memlist h) us = memlist h \<longleftrightarrow> us = []"
    using s(9)[of "last us"] by (auto simp: prev_of_def)
  have "put_back b n (us @ vs) =
      (if us \<noteq> [] \<and> b < fst (last us) + snd (last us) \<or> vs \<noteq> [] \<and> b + n > fst (hd vs) then None
       else Some (butlast us @ (if us = [] then join_next (b, n) vs
                                else join_next (last us) (join_next (b, n) vs))))"
  proof (cases "us = []")
    case True
    then show ?thesis using put_back_end[OF vs] by simp
  next
    case False
    obtain a l where al: "last us = (a, l)" by (cases "last us")
    have e: "us = butlast us @ [(a, l)]" using False al by (metis append_butlast_last_id)
    have "blocks_ok (minheap h) (maxheap h) (butlast us @ (a, l) # vs)"
      using wf e unfolding heap_wf_def by (metis append.assoc append_Cons append_Nil)
    moreover have "a < b" using us False al last_in_set[OF False] by fastforce
    ultimately have "put_back b n (butlast us @ (a, l) # vs) =
      (if b < a + l \<or> vs \<noteq> [] \<and> b + n > fst (hd vs) then None
       else Some (butlast us @ join_next (a, l) (join_next (b, n) vs)))"
      using put_back_split vs by blast
    moreover have "butlast us @ (a, l) # vs = us @ vs" using e by (metis append.assoc append_Cons append_Nil)
    ultimately show ?thesis using False al by simp
  qed
  then show ?thesis using w p by blast
qed

lemma freemem_refines:
  assumes wf: "heap_wf h bs" and n: "0 < n" "n \<le> 4294967288"
    and b: "minheap h \<le> b" "b mod 8 = 0" "b + roundmb n \<le> maxheap h"
  shows "put_back b (roundmb n) bs = None \<Longrightarrow> freemem b n h = Some (SYSERR, h)"
    and "put_back b (roundmb n) bs = Some cs \<Longrightarrow> \<exists>h'. freemem b n h = Some (OK, h') \<and> heap_wf h' cs \<and>
      minheap h' = minheap h \<and> maxheap h' = maxheap h \<and> memlist h' = memlist h"
proof -
  let ?n = "roundmb n" and ?M = "memlist h"
  note rn = roundmb_spec[OF n]
  define us where "us = takeWhile (\<lambda>x. fst x < b) bs"
  define vs where "vs = dropWhile (\<lambda>x. fst x < b) bs"
  have bs: "bs = us @ vs" by (simp add: us_def vs_def)
  have usb: "\<forall>x\<in>set us. fst x < b" by (auto simp: us_def dest: set_takeWhileD)
  have wf': "heap_wf h (us @ vs)" using wf bs by simp
  note s = heap_split[OF wf']
  have vsb: "\<forall>x\<in>set vs. b \<le> fst x"
  proof
    fix x assume x: "x \<in> set vs"
    obtain v ws where v: "vs = v # ws" using x by (cases vs) auto
    have "\<not> fst v < b" using v by (simp add: vs_def dropWhile_eq_Cons_conv)
    moreover have "fst v \<le> fst x"
      using s(6) x v blocks_in(1)[of "fst v + snd v + 1" "maxheap h" ws x] by (cases v) auto
    ultimately show "b \<le> fst x" by simp
  qed
  let ?p = "prev_of ?M us" and ?c = "case vs of [] \<Rightarrow> NULL | v # _ \<Rightarrow> fst v"
  obtain w: "c_loop (freemem_walk b h) (?M, mnext h ?M) = Some (?p, ?c)"
    "?p = ?M \<longleftrightarrow> us = []"
    "put_back b ?n bs =
      (if us \<noteq> [] \<and> b < fst (last us) + snd (last us) \<or> vs \<noteq> [] \<and> b + ?n > fst (hd vs) then None
       else Some (butlast us @ (if us = [] then join_next (b, ?n) vs
                                else join_next (last us) (join_next (b, ?n) vs))))"
    using freemem_split[OF wf' usb vsb b(1,2) rn(4,1) b(3)] bs by auto
  have top: "maxheap h < 4294967296" "?M < minheap h" "0 < ?M" using s(1) by (simp_all add: arena_ok_def)
  have bn: "u32 (b + ?n) = b + ?n" using b top rn(4) by (intro u32_id) simp_all
  have last: "mlength h ?p = snd (last us)" "fst (last us) = ?p" "u32 (?p + mlength h ?p) = ?p + snd (last us)"
    "8 \<le> snd (last us)" "snd (last us) mod 8 = 0" "?p mod 8 = 0" "minheap h \<le> ?p" "?p + snd (last us) \<le> maxheap h"
    if "us \<noteq> []"
  proof -
    have e: "us = butlast us @ [last us]" using that by simp
    have "seg h ?M (butlast us @ [last us])" using s(2) e by simp
    then show l: "mlength h ?p = snd (last us)" "fst (last us) = ?p"
      using that by (cases "last us"; simp add: seg_append prev_of_def)+
    note bi = blocks_in[OF s(5) last_in_set[OF that]]
    show "8 \<le> snd (last us)" "snd (last us) mod 8 = 0" "?p mod 8 = 0" "minheap h \<le> ?p"
      "?p + snd (last us) \<le> maxheap h" using bi l(2) by simp_all
    then show "u32 (?p + mlength h ?p) = ?p + snd (last us)"
      unfolding l(1) using top by (intro u32_id) linarith+
  qed
  have test: "?p \<noteq> ?M \<and> b < (if ?p = ?M then NULL else u32 (?p + mlength h ?p)) \<or> ?c \<noteq> NULL \<and> u32 (b + ?n) > ?c \<longleftrightarrow>
      us \<noteq> [] \<and> b < fst (last us) + snd (last us) \<or> vs \<noteq> [] \<and> b + ?n > fst (hd vs)"
  proof -
    have "?c \<noteq> NULL \<longleftrightarrow> vs \<noteq> []" using s(10)[of "hd vs"] by (cases vs) (auto simp: NULL_def)
    moreover have "vs \<noteq> [] \<Longrightarrow> ?c = fst (hd vs)" by (cases vs) simp_all
    ultimately show ?thesis using w(2) last bn by auto
  qed
  have nz: "\<not> (n = 0 \<or> b < minheap h \<or> b > maxheap h)" using n b rn(4) by auto
  show "freemem b n h = Some (SYSERR, h)" if "put_back b ?n bs = None"
  proof -
    have "us \<noteq> [] \<and> b < fst (last us) + snd (last us) \<or> vs \<noteq> [] \<and> b + ?n > fst (hd vs)"
      using that w(3) by (auto split: if_splits)
    then show ?thesis using nz w(1) test by (simp add: freemem_def Let_def)
  qed
  show "\<exists>h'. freemem b n h = Some (OK, h') \<and> heap_wf h' cs \<and>
      minheap h' = minheap h \<and> maxheap h' = maxheap h \<and> memlist h' = memlist h"
    if c: "put_back b ?n bs = Some cs"
  proof -
    have ok: "\<not> (us \<noteq> [] \<and> b < fst (last us) + snd (last us) \<or> vs \<noteq> [] \<and> b + ?n > fst (hd vs))"
      and cs: "cs = butlast us @ (if us = [] then join_next (b, ?n) vs
                                else join_next (last us) (join_next (b, ?n) vs))"
      using c w(3) by (auto split: if_splits)
    have hdv: "vs \<noteq> [] \<Longrightarrow> b + ?n \<le> fst (hd vs)" using ok by auto
    have vin: "node h (fst v)" "fst v \<noteq> ?p" "?p < fst v" "b < fst v" "0 \<le> snd v" "fst v + snd v < 4294967296"
      if vv: "v \<in> set vs" for v
    proof -
      obtain v0 ws where v0: "vs = v0 # ws" using vv by (cases vs) auto
      have "fst v0 \<le> fst v"
        using s(6) vv v0 blocks_in(1)[of "fst v0 + snd v0 + 1" "maxheap h" ws v] by (cases v0) auto
      then show "b < fst v" using hdv v0 rn(4) by simp
      show "node h (fst v)" "fst v \<noteq> ?p" "?p < fst v" using s(10)[OF vv] by auto
      show "0 \<le> snd v" "fst v + snd v < 4294967296"
        using blocks_in(2,5)[OF s(6) vv] top by simp_all
    qed
    have bvs: "blocks_ok (b + ?n) (maxheap h) vs"
      using s(6) hdv by (cases vs) auto
    have dv: "distinct (map fst vs)" using blocks_distinct[OF s(6)] .
    let ?h1 = "set_mlength ?M (u32 (mlength h ?M + ?n)) h"
    show ?thesis
    proof (cases "us \<noteq> [] \<and> ?p + snd (last us) = b")
      case True
      then have ne: "us \<noteq> []" and adj: "?p + snd (last us) = b" by auto
      note l = last[OF ne]
      let ?us = "butlast us" and ?l = "snd (last us)" and ?q = "prev_of ?M (butlast us)"
      have e: "us = ?us @ [(?p, ?l)]"
        using ne l(2) by (metis append_butlast_last_id prod.collapse)
      have wf2: "heap_wf h (?us @ (?p, ?l) # vs)" using wf' e by (metis append.assoc append_Cons append_Nil)
      note s2 = heap_split[OF wf2]
      have qp: "?q < ?p" using s2(10)[of "(?p, ?l)"] by simp
      have pM: "?p \<noteq> ?M" using w(2) ne by blast
      let ?h2 = "set_mlength ?p (?l + ?n) ?h1"
      have ln: "u32 (?l + ?n) = ?l + ?n" using l(4,8) rn(4) adj b top(1) s(9)[OF last_in_set[OF ne]] l(2)
        by (intro u32_id) linarith+
      have "mlength ?h1 ?p = ?l" using pM l(1) by simp
      then have "freemem b n h = Some (OK, merge_next ?p ?c ?h2)"
        using nz w(1) test ok pM l(3) adj ln by (simp add: freemem_def merge_next_def Let_def)
      moreover have "heap_wf (merge_next ?p ?c ?h2) (?us @ join_next (?p, ?l + ?n) vs)"
      proof (rule splice[OF wf2])
        have m2: "mnext ?h2 y = mnext h y" if "node h y" for y
          using that s(1,4) by (simp add: heap_words)
        have l2: "mlength ?h2 y = mlength h y" if "y \<noteq> ?p" "y \<noteq> ?M" for y using that by simp
        have "chain ?h2 ?p vs = chain h ?p vs"
        proof (rule chain_cong)
          show "mnext ?h2 ?p = mnext h ?p" by (rule m2[OF s(4)])
          show "mnext ?h2 (fst v) = mnext h (fst v) \<and> mlength ?h2 (fst v) = mlength h (fst v)" if "v \<in> set vs" for v
            using m2[OF vin(1)[OF that]] l2[OF vin(2)[OF that]] s(10)[OF that] vin(1)[OF that] top
              blocks_in(1)[OF s(6) that] blocks_end_ge[OF s(5)] by force
        qed
        then have ch: "chain ?h2 ?q ((?p, ?l + ?n) # vs)"
          using s2(3) m2[OF s2(4)] by simp
        have mc: "chain (merge_next ?p ?c ?h2) ?q (join_next (?p, ?l + ?n) vs)"
          "\<And>y. node ?h2 y \<Longrightarrow> y \<noteq> ?p \<Longrightarrow>
             mnext (merge_next ?p ?c ?h2) y = mnext ?h2 y \<and> mlength (merge_next ?p ?c ?h2) y = mlength ?h2 y"
        proof -
          have c1: "arena_ok ?h2" "node ?h2 ?p" "node ?h2 ?q" "?q \<noteq> ?p" using s(1,4) s2(4) qp by simp_all
          have c2: "node ?h2 (fst v) \<and> ?p < fst v \<and> fst v \<noteq> ?q" if "v \<in> set vs" for v
            using vin[OF that] qp by simp
          have c3: "0 < ?p + (?l + ?n)" "?p + (?l + ?n) < 4294967296" "0 < ?p" "0 \<le> ?l + ?n"
            using adj b top rn(4) l s(9)[OF last_in_set[OF ne]] by linarith+
          have c4: "0 \<le> snd v \<and> fst v + snd v < 4294967296" if "v \<in> set vs" for v using vin(5,6)[OF that] by simp
          show "chain (merge_next ?p ?c ?h2) ?q (join_next (?p, ?l + ?n) vs)"
            by (rule merge_chain(1)[OF c1 ch c2 c3(1,2) c4 c3(3,4) dv])
          show "\<And>y. node ?h2 y \<Longrightarrow> y \<noteq> ?p \<Longrightarrow>
             mnext (merge_next ?p ?c ?h2) y = mnext ?h2 y \<and> mlength (merge_next ?p ?c ?h2) y = mlength ?h2 y"
            by (rule merge_chain(2)[OF c1 ch c2 c3(1,2) c4 c3(3,4) dv])
        qed
        show "chain (merge_next ?p ?c ?h2) ?q (join_next (?p, ?l + ?n) vs)" by (rule mc(1))
        show "mnext (merge_next ?p ?c ?h2) x = mnext h x" if "node h x" "x < ?q" for x
          using mc(2)[of x] m2[OF that(1)] that qp by simp
        show "mlength (merge_next ?p ?c ?h2) x = mlength h x" if "node h x" "x \<noteq> ?M" "x \<le> ?q" for x
          using mc(2)[of x] l2[of x] that qp by simp
        show "blocks_ok (end_of (minheap h) ?us) (maxheap h) (join_next (?p, ?l + ?n) vs)"
        proof (rule blocks_join)
          show "end_of (minheap h) ?us \<le> ?p" using s2(6) by simp
          show "8 \<le> ?l + ?n" "?p mod 8 = 0" "(?l + ?n) mod 8 = 0"
            using l rn(4) mult8_add[OF l(5) rn(1)] by simp_all
          show "?p + (?l + ?n) \<le> maxheap h" using adj b(3) by simp
          show "blocks_ok (?p + (?l + ?n)) (maxheap h) vs" using bvs adj by (simp add: add.assoc[symmetric])
        qed
      qed simp_all
      moreover have "cs = ?us @ join_next (?p, ?l + ?n) vs"
        using cs ne join_next_assoc[OF adj, of ?n vs] l(2) by (metis prod.collapse)
      ultimately show ?thesis by auto
    next
      case False
      have bp: "?p < b"
      proof (cases "us = []")
        case True
        then show ?thesis using top b by simp
      next
        case ne: False
        then show ?thesis using usb last(2)[OF ne] last_in_set[OF ne] by fastforce
      qed
      have bM: "b \<noteq> ?M" "node h b" "0 < b" using top b by (auto simp: node_def)
      have far: "us \<noteq> [] \<Longrightarrow> fst (last us) + snd (last us) < b" using ok False last(2) by fastforce
      let ?h2 = "set_mnext ?p b (set_mlength b ?n (set_mnext b ?c ?h1))"
      have tb: "(if ?p = ?M then NULL else u32 (?p + mlength h ?p)) \<noteq> b"
        using False w(2) last(3) bM(3) by (auto simp: NULL_def)
      have fm: "freemem b n h = Some (OK, merge_next b ?c ?h2)"
        using nz w(1) test ok tb by (simp add: freemem_def merge_next_def Let_def)
      have m2: "mnext ?h2 y = (if y = ?p then b else if y = b then ?c else mnext h y)" if "node h y" for y
        using that s(1,4) bM(2) by (simp add: heap_words)
      have l2: "mlength ?h2 y = (if y = b then ?n else mlength h y)" if "y \<noteq> ?M" "node h y" for y
        using that s(1,4) bM(2) by (simp add: heap_words)
      have cp: "?c = mnext h ?p" using chain_mnext[OF s(3)] by simp
      have "chain ?h2 b vs = chain h ?p vs"
      proof (rule chain_cong)
        show "mnext ?h2 b = mnext h ?p" using m2[OF bM(2)] bp cp by simp
        show "mnext ?h2 (fst v) = mnext h (fst v) \<and> mlength ?h2 (fst v) = mlength h (fst v)" if vv: "v \<in> set vs" for v
        proof -
          have "fst v \<noteq> ?M" using vin(4)[OF vv] top b by simp
          then show ?thesis
            using m2[OF vin(1)[OF vv]] l2[of "fst v"] vin(1)[OF vv] vin(2)[OF vv] vin(4)[OF vv] by simp
        qed
      qed
      then have ch: "chain ?h2 ?p ((b, ?n) # vs)"
        using s(3) m2[OF s(4)] l2[OF bM(1,2)] by simp
      have c1: "arena_ok ?h2" "node ?h2 b" "node ?h2 ?p" "?p \<noteq> b" using s(1,4) bM bp by simp_all
      have c2: "node ?h2 (fst v) \<and> b < fst v \<and> fst v \<noteq> ?p" if "v \<in> set vs" for v
        using vin[OF that] by simp
      have c3: "0 < b + ?n" "b + ?n < 4294967296" "0 < b" "0 \<le> ?n" using b top rn(4) bM by linarith+
      have c4: "0 \<le> snd v \<and> fst v + snd v < 4294967296" if "v \<in> set vs" for v using vin(5,6)[OF that] by simp
      note mc = merge_chain[OF c1 ch c2 c3(1,2) c4 c3(3,4) dv]
      have "heap_wf (merge_next b ?c ?h2) (us @ join_next (b, ?n) vs)"
      proof (rule splice[OF wf'])
        show "chain (merge_next b ?c ?h2) ?p (join_next (b, ?n) vs)" by (rule mc(1))
        show "mnext (merge_next b ?c ?h2) x = mnext h x" if "node h x" "x < ?p" for x
          using mc(2)[of x] m2[OF that(1)] that bp by simp
        show "mlength (merge_next b ?c ?h2) x = mlength h x" if "node h x" "x \<noteq> ?M" "x \<le> ?p" for x
          using mc(2)[of x] l2[OF that(2,1)] that bp by simp
        show "blocks_ok (end_of (minheap h) us) (maxheap h) (join_next (b, ?n) vs)"
        proof (rule blocks_join[OF _ rn(4) b(2) rn(1) b(3) bvs])
          show "end_of (minheap h) us \<le> b" using far b(1) by (cases "us = []") (simp_all add: end_of_def)
        qed
      qed simp_all
      moreover have "cs = us @ join_next (b, ?n) vs"
      proof (cases "us = []")
        case ne: False
        have "join_next (last us) (join_next (b, ?n) vs) = last us # join_next (b, ?n) vs"
          using far[OF ne] by (intro join_next_skip) simp_all
        then have "cs = butlast us @ last us # join_next (b, ?n) vs" using cs ne by simp
        also have "\<dots> = (butlast us @ [last us]) @ join_next (b, ?n) vs" by simp
        also have "\<dots> = us @ join_next (b, ?n) vs" by (simp only: append_butlast_last_id[OF ne])
        finally show ?thesis .
      next
        case True
        then show ?thesis using cs by simp
      qed
      ultimately have "heap_wf (merge_next b ?c ?h2) cs" by (simp only:)
      moreover have "minheap (merge_next b ?c ?h2) = minheap h" "maxheap (merge_next b ?c ?h2) = maxheap h"
        "memlist (merge_next b ?c ?h2) = memlist h" by simp_all
      ultimately show ?thesis using fm by blast
    qed
  qed
qed

section \<open>getstk is last fit, from the top\<close>

fun carve_top :: "int \<Rightarrow> (int \<times> int) list \<Rightarrow> (int \<times> (int \<times> int) list) option" where
  "carve_top n [] = None"
| "carve_top n ((a, l) # bs) = (case carve_top n bs of
     Some (r, cs) \<Rightarrow> Some (r, (a, l) # cs)
   | None \<Rightarrow> if n \<le> l then Some (a + l - n, if l = n then bs else (a, l - n) # bs) else None)"

lemma carve_top_None: "carve_top n bs = None \<longleftrightarrow> (\<forall>b\<in>set bs. snd b < n)"
  by (induction n bs rule: carve_top.induct) (auto split: option.splits)

lemma carve_top_Some:
  assumes "carve_top n bs = Some (r, cs)"
  shows "\<exists>us a l vs. bs = us @ (a, l) # vs \<and> (\<forall>b\<in>set vs. snd b < n) \<and> n \<le> l \<and> r = a + l - n \<and>
    cs = us @ (if l = n then vs else (a, l - n) # vs)"
  using assms
proof (induction n bs arbitrary: cs rule: carve_top.induct)
  case (2 n a l bs)
  show ?case
  proof (cases "carve_top n bs")
    case None
    then have "n \<le> l" "r = a + l - n" "cs = (if l = n then bs else (a, l - n) # bs)"
      using 2(2) by (auto split: if_splits)
    moreover have "\<forall>b\<in>set bs. snd b < n" using None carve_top_None by blast
    ultimately have "(a, l) # bs = [] @ (a, l) # bs \<and> (\<forall>b\<in>set bs. snd b < n) \<and> n \<le> l \<and> r = a + l - n \<and>
      cs = [] @ (if l = n then bs else (a, l - n) # bs)" by simp
    then show ?thesis by blast
  next
    case (Some x)
    then obtain cs' where cs': "carve_top n bs = Some (r, cs')" "cs = (a, l) # cs'"
      using 2(2) by (auto split: prod.splits)
    obtain us a' l' vs where "bs = us @ (a', l') # vs" "\<forall>b\<in>set vs. snd b < n" "n \<le> l'"
      "r = a' + l' - n" "cs' = us @ (if l' = n then vs else (a', l' - n) # vs)"
      using 2(1)[OF cs'(1)] by blast
    then have "(a, l) # bs = ((a, l) # us) @ (a', l') # vs \<and> (\<forall>b\<in>set vs. snd b < n) \<and> n \<le> l' \<and>
      r = a' + l' - n \<and> cs = ((a, l) # us) @ (if l' = n then vs else (a', l' - n) # vs)"
      using cs'(2) by simp
    then show ?thesis by blast
  qed
qed simp

lemma getstk_none:
  assumes "chain h p bs" "\<forall>b\<in>set bs. snd b < n \<and> fst b \<noteq> NULL"
  shows "c_loop (getstk_iter n h) (p, mnext h p, f, fp) = Some (f, fp)"
  using assms
proof (induction h p bs rule: chain.induct)
  case (1 h p)
  then show ?case by (simp add: c_loop_Inr getstk_iter_def)
next
  case (2 h p a l bs)
  then have "getstk_iter n h (p, mnext h p, f, fp) = Some (Inl (a, mnext h a, f, fp))"
    by (simp add: getstk_iter_def)
  then show ?case using 2 by (simp add: c_loop_Inl)
qed

lemma getstk_scan:
  assumes "chain h p (us @ (a, l) # vs)" "\<forall>b\<in>set us. fst b \<noteq> NULL" "n \<le> l" "a \<noteq> NULL"
    "\<forall>b\<in>set vs. snd b < n \<and> fst b \<noteq> NULL"
  shows "c_loop (getstk_iter n h) (p, mnext h p, f, fp) = Some (a, prev_of p us)"
  using assms(1,2)
proof (induction us arbitrary: p f fp)
  case Nil
  then have "getstk_iter n h (p, mnext h p, f, fp) = Some (Inl (a, mnext h a, a, p))"
    using assms(3,4) by (simp add: getstk_iter_def)
  then show ?case using Nil getstk_none[of h a vs n a p] assms(5) by (simp add: c_loop_Inl)
next
  case (Cons u us)
  obtain b m where u: "u = (b, m)" by (cases u)
  have "\<exists>f' fp'. getstk_iter n h (p, mnext h p, f, fp) = Some (Inl (b, mnext h b, f', fp'))"
    using Cons.prems u by (auto simp: getstk_iter_def)
  then show ?case using Cons u by (auto simp: c_loop_Inl)
qed

lemma getstk_refines:
  assumes wf: "heap_wf h bs" and n: "0 < n" "n \<le> 4294967288"
  shows "carve_top (roundmb n) bs = None \<Longrightarrow> getstk n h = Some (u32 SYSERR, h)"
    and "carve_top (roundmb n) bs = Some (r, cs) \<Longrightarrow>
      \<exists>h'. getstk n h = Some (r + roundmb n - 4, h') \<and> heap_wf h' cs \<and>
      minheap h' = minheap h \<and> maxheap h' = maxheap h \<and> memlist h' = memlist h"
proof -
  let ?n = "roundmb n" and ?M = "memlist h"
  note rn = roundmb_spec[OF n]
  have ch: "chain h ?M bs" using wf by (simp add: heap_wf_def)
  have nz: "\<forall>b\<in>set bs. fst b \<noteq> NULL"
    using heap_split(9)[of h bs "[]"] wf by (fastforce simp: NULL_def)
  show "getstk n h = Some (u32 SYSERR, h)" if c: "carve_top ?n bs = None"
  proof -
    have "\<forall>b\<in>set bs. snd b < ?n \<and> fst b \<noteq> NULL" using c nz by (auto simp: carve_top_None)
    then show ?thesis using getstk_none[OF ch] n by (simp add: getstk_def Let_def)
  qed
  assume "carve_top ?n bs = Some (r, cs)"
  then obtain us a l vs where bs: "bs = us @ (a, l) # vs" "\<forall>b\<in>set vs. snd b < ?n" "?n \<le> l"
    "r = a + l - ?n" "cs = us @ (if l = ?n then vs else (a, l - ?n) # vs)"
    using carve_top_Some by blast
  have wf': "heap_wf h (us @ (a, l) # vs)" using wf bs(1) by simp
  let ?p = "prev_of ?M us"
  note b = heap_block[OF wf']
  have sc: "c_loop (getstk_iter ?n h) (?M, mnext h ?M, NULL, NULL) = Some (a, ?p)"
    using getstk_scan[of h ?M us a l vs ?n] ch nz bs by simp
  have an: "a \<noteq> NULL" using b(8) by (simp add: NULL_def)
  show "\<exists>h'. getstk n h = Some (r + ?n - 4, h') \<and> heap_wf h' cs \<and>
      minheap h' = minheap h \<and> maxheap h' = maxheap h \<and> memlist h' = memlist h"
  proof (cases "l = ?n")
    case True
    let ?h = "sub_total ?n (set_mnext ?p (mnext h a) h)"
    have "u32 (a + ?n - 4) = a + ?n - 4" using b(8,15,17) rn(4) True by (intro u32_id) simp_all
    then have "getstk n h = Some (r + ?n - 4, ?h)"
      using n sc an b(4) True bs(4) by (simp add: getstk_def Let_def)
    then show ?thesis using unlink_block[OF wf', of ?n] True bs(5) by auto
  next
    case False
    then have lt: "?n < l" using bs(3) by simp
    have u: "u32 (l - ?n) = l - ?n" "u32 (a + (l - ?n)) = a + l - ?n" "u32 (a + l - 4) = a + l - 4"
      using lt b(8,12,15,17) rn(4) by (auto intro!: u32_id simp: add_diff_eq)
    let ?h = "sub_total ?n (set_mlength a (l - ?n) h)"
    have "getstk n h = Some (r + ?n - 4, ?h)"
      using n sc an b(4) False bs(4) u by (simp add: getstk_def Let_def)
    then show ?thesis using take_high[OF wf' rn(4,1) lt] False bs(5) by auto
  qed
qed

section \<open>The free memory as a set of addresses\<close>

lemma avail_simps [simp]:
  "avail [] = {}" "avail (b # bs) = span b \<union> avail bs" "avail (bs @ cs) = avail bs \<union> avail cs"
  by (auto simp: avail_def)

lemma avail_range: "blocks_ok lo hi bs \<Longrightarrow> avail bs \<subseteq> {lo..<hi}"
proof (induction lo hi bs rule: blocks_ok.induct)
  case (2 lo hi a l bs)
  then show ?case by (fastforce simp: span_def)
qed simp

lemma carve_avail:
  assumes "blocks_ok lo hi bs" "carve n bs = Some (r, cs)" "0 < n"
  shows "{r..<r + n} \<subseteq> avail bs" "avail cs = avail bs - {r..<r + n}" "lo \<le> r" "r mod 8 = 0"
    "r + n \<le> hi"
proof -
  obtain us l vs where bs: "bs = us @ (r, l) # vs" "n \<le> l"
    "cs = us @ (if l = n then vs else (r + n, l - n) # vs)" using carve_Some[OF assms(2)] by blast
  have b: "blocks_ok lo hi us" "blocks_ok (end_of lo us) hi ((r, l) # vs)"
    using assms(1) bs(1) by (simp_all add: blocks_append)
  have us: "avail us \<subseteq> {..<r}"
  proof
    fix x assume "x \<in> avail us"
    then obtain u where u: "u \<in> set us" "x \<in> span u" by (auto simp: avail_def)
    then show "x \<in> {..<r}" using blocks_before(1)[OF b(1) u(1)] b(2) by (simp add: span_def)
  qed
  have vs: "avail vs \<subseteq> {r + l + 1..<hi}" using b(2) avail_range by simp
  show "{r..<r + n} \<subseteq> avail bs" using bs by (auto simp: span_def)
  have e: "span (r, l) - {r..<r + n} = (if l = n then {} else span (r + n, l - n))"
    using bs(2) assms(3) by (auto simp: span_def)
  have d: "avail us - {r..<r + n} = avail us" "avail vs - {r..<r + n} = avail vs"
    using us vs bs(2) by fastforce+
  show "avail cs = avail bs - {r..<r + n}"
    unfolding bs(1,3) using e d by (auto simp: Un_Diff)
  show "lo \<le> r" "r mod 8 = 0" "r + n \<le> hi" using b blocks_end_ge[OF b(1)] bs(2) by simp_all
qed

lemma carve_top_avail:
  assumes "blocks_ok lo hi bs" "carve_top n bs = Some (r, cs)" "0 < n" "n mod 8 = 0"
  shows "{r..<r + n} \<subseteq> avail bs" "avail cs = avail bs - {r..<r + n}" "lo \<le> r" "r mod 8 = 0"
    "r + n \<le> hi"
proof -
  obtain us a l vs where bs: "bs = us @ (a, l) # vs" "n \<le> l" "r = a + l - n"
    "cs = us @ (if l = n then vs else (a, l - n) # vs)" using carve_top_Some[OF assms(2)] by blast
  have b: "blocks_ok lo hi us" "blocks_ok (end_of lo us) hi ((a, l) # vs)"
    using assms(1) bs(1) by (simp_all add: blocks_append)
  have us: "avail us \<subseteq> {..<a}"
  proof
    fix x assume "x \<in> avail us"
    then obtain u where u: "u \<in> set us" "x \<in> span u" by (auto simp: avail_def)
    then show "x \<in> {..<a}" using blocks_before(1)[OF b(1) u(1)] b(2) by (simp add: span_def)
  qed
  have vs: "avail vs \<subseteq> {a + l + 1..<hi}" using b(2) avail_range by simp
  show "{r..<r + n} \<subseteq> avail bs" using bs(1-3) by (auto simp: span_def)
  have e: "span (a, l) - {r..<r + n} = (if l = n then {} else span (a, l - n))"
    using bs(2,3) assms(3) by (auto simp: span_def)
  have d: "avail us - {r..<r + n} = avail us" "avail vs - {r..<r + n} = avail vs"
    using us vs bs(2,3) by fastforce+
  show "avail cs = avail bs - {r..<r + n}"
    unfolding bs(1,4) using e d by (auto simp: Un_Diff)
  have "(a + l) mod 8 = 0" using mult8_add b(2) by simp
  then show "r mod 8 = 0" unfolding bs(3) by (rule mult8_diff[OF _ assms(4)])
  show "lo \<le> r" "r + n \<le> hi" using b blocks_end_ge[OF b(1)] bs(2,3) by simp_all
qed

lemma join_next_avail: "0 \<le> snd b \<Longrightarrow> \<forall>c\<in>set cs. 0 \<le> snd c \<Longrightarrow> avail (join_next b cs) = span b \<union> avail cs"
  by (cases cs) (auto simp: join_next_def span_def)

lemma join_next_nonneg: "0 \<le> snd b \<Longrightarrow> \<forall>c\<in>set cs. 0 \<le> snd c \<Longrightarrow> \<forall>c\<in>set (join_next b cs). 0 \<le> snd c"
  by (cases cs) (auto simp: join_next_def)

lemma put_back_avail:
  assumes "blocks_ok lo hi bs" "put_back b n bs = Some cs" "0 < n"
  shows "avail cs = avail bs \<union> {b..<b + n}"
proof -
  have "avail cs = avail bs \<union> {b..<b + n} \<and> (\<forall>c\<in>set cs. 0 \<le> snd c)"
    using assms
  proof (induction b n bs arbitrary: lo cs rule: put_back.induct)
    case (1 b n)
    then show ?case by (auto simp: span_def)
  next
    case (2 b n a l bs)
    have bl: "blocks_ok (a + l + 1) hi bs" "0 \<le> l" using 2(2) by simp_all
    have nn: "\<forall>c\<in>set bs. 0 \<le> snd c" using blocks_in(2)[OF bl(1)] by fastforce
    show ?case
    proof (cases "a < b")
      case True
      then obtain cs' where cs': "put_back b n bs = Some cs'" "cs = join_next (a, l) cs'" "\<not> b < a + l"
        using 2(3) by (auto split: if_splits)
      have "avail cs' = avail bs \<union> {b..<b + n} \<and> (\<forall>c\<in>set cs'. 0 \<le> snd c)"
        using 2(1)[OF True cs'(3) bl(1) cs'(1) 2(4)] .
      then show ?thesis
        using cs'(2) bl(2) join_next_avail[of "(a, l)" cs'] join_next_nonneg[of "(a, l)" cs'] by auto
    next
      case False
      then have "cs = join_next (b, n) ((a, l) # bs)" using 2(3) by (auto split: if_splits)
      then show ?thesis using bl(2) nn 2(4) by (auto simp: join_next_def span_def)
    qed
  qed
  then show ?thesis by blast
qed

lemma put_back_defined:
  assumes "blocks_ok lo hi bs" "{b..<b + n} \<inter> avail bs = {}" "8 \<le> n"
  shows "put_back b n bs \<noteq> None"
  using assms
proof (induction b n bs arbitrary: lo rule: put_back.induct)
  case (2 b n a l bs)
  show ?case
  proof (cases "a < b")
    case True
    have "b \<notin> span (a, l)" using 2(3,4) by fastforce
    then have "\<not> b < a + l" using True by (simp add: span_def)
    then show ?thesis using 2(1)[OF True] 2(2-4) True by fastforce
  next
    case False
    have "a \<notin> {b..<b + n}" using 2(2,3) by (auto simp: span_def)
    then show ?thesis using False by simp
  qed
qed simp

end
