(* ===== verification/Allocator.thy ===== *)
theory Allocator
  imports Xinu_Prelude
begin

text \<open>
  The contract of a memory allocator, and what its clients get from it. The kernel hands out memory
  in two ways, getmem and getstk, which give the lowest and the highest word of a block; the
  contract is stated for several kinds of request at once. The client is a session: any sequence
  of requests and releases, with the list of the blocks that are out.
\<close>

text \<open>The blocks that are out and the free memory A tile the arena.\<close>

definition tiled :: "('k \<Rightarrow> int \<Rightarrow> int \<Rightarrow> int set) \<Rightarrow> int set \<Rightarrow> int set \<Rightarrow> ('k \<times> int \<times> int) list \<Rightarrow> bool" where
  "tiled region arena A out \<longleftrightarrow>
     A \<union> (\<Union>(k, r, n)\<in>set out. region k r n) = arena \<and>
     (\<forall>(k, r, n)\<in>set out. region k r n \<inter> A = {}) \<and>
     sorted_wrt (\<lambda>(k, r, n) (k', r', n'). region k r n \<inter> region k' r' n' = {}) out"

datatype 'k heap_cmd = Request 'k int | Return_block nat

fun run_cmds :: "('k \<Rightarrow> int \<Rightarrow> 'h \<Rightarrow> (int \<times> 'h) option) \<Rightarrow> ('k \<Rightarrow> int \<Rightarrow> int \<Rightarrow> 'h \<Rightarrow> (int \<times> 'h) option) \<Rightarrow> int \<Rightarrow>
    'k heap_cmd list \<Rightarrow> 'h \<times> ('k \<times> int \<times> int) list \<Rightarrow> ('h \<times> ('k \<times> int \<times> int) list) option" where
  "run_cmds alloc release refusal [] s = Some s"
| "run_cmds alloc release refusal (Request k n # cs) (h, out) = (case alloc k n h of
     None \<Rightarrow> None
   | Some (r, h') \<Rightarrow> run_cmds alloc release refusal cs (h', if r = refusal then out else (k, r, n) # out))"
| "run_cmds alloc release refusal (Return_block i # cs) (h, out) =
     (if i < length out then (case out ! i of (k, r, n) \<Rightarrow> (case release k r n h of
        None \<Rightarrow> None
      | Some (x, h') \<Rightarrow> run_cmds alloc release refusal cs (h', if x = OK then take i out @ drop (Suc i) out else out)))
      else run_cmds alloc release refusal cs (h, out))"

fun cmd_sizes :: "'k heap_cmd list \<Rightarrow> int list" where
  "cmd_sizes [] = []"
| "cmd_sizes (Request k n # cs) = n # cmd_sizes cs"
| "cmd_sizes (Return_block i # cs) = cmd_sizes cs"

lemma sorted_wrt_drop_nth:
  assumes "sorted_wrt P xs" "i < length xs"
  shows "sorted_wrt P (take i xs @ drop (Suc i) xs)"
proof -
  have "sorted_wrt P (take i xs @ xs ! i # drop (Suc i) xs)"
    using assms by (simp add: id_take_nth_drop[symmetric])
  then show ?thesis by (simp add: sorted_wrt_append)
qed

lemma tiled_return:
  assumes t: "tiled region arena A out" and i: "i < length out" "out ! i = (k, r, n)"
  shows "tiled region arena (A \<union> region k r n) (take i out @ drop (Suc i) out)"
proof -
  have e: "out = take i out @ (k, r, n) # drop (Suc i) out"
    using i by (metis id_take_nth_drop)
  let ?D = "\<lambda>(k, r, n) (k', r', n'). region k r n \<inter> region k' r' n' = {}"
  have s: "sorted_wrt ?D (take i out @ (k, r, n) # drop (Suc i) out)"
    using t e unfolding tiled_def by metis
  have d: "region k' r' n' \<inter> region k r n = {}" if "(k', r', n') \<in> set (take i out @ drop (Suc i) out)" for k' r' n'
    using that s by (fastforce simp: sorted_wrt_append)
  have so: "set out = insert (k, r, n) (set (take i out @ drop (Suc i) out))"
    using arg_cong[OF e, of set] by auto
  have "A \<union> region k r n \<union> (\<Union>(k, r, n)\<in>set (take i out @ drop (Suc i) out). region k r n) = arena"
    using t so unfolding tiled_def by auto
  moreover have "\<forall>(k', r', n')\<in>set (take i out @ drop (Suc i) out). region k' r' n' \<inter> (A \<union> region k r n) = {}"
    using t so d unfolding tiled_def by fastforce
  moreover have "sorted_wrt ?D (take i out @ drop (Suc i) out)"
    using s by (simp add: sorted_wrt_append)
  ultimately show ?thesis by (simp add: tiled_def)
qed

locale allocator =
  fixes holds :: "'h \<Rightarrow> int set \<Rightarrow> bool"
    and alloc :: "'k \<Rightarrow> int \<Rightarrow> 'h \<Rightarrow> (int \<times> 'h) option"
    and release :: "'k \<Rightarrow> int \<Rightarrow> int \<Rightarrow> 'h \<Rightarrow> (int \<times> 'h) option"
    and region :: "'k \<Rightarrow> int \<Rightarrow> int \<Rightarrow> int set"
    and usable :: "'k \<Rightarrow> int \<Rightarrow> int \<Rightarrow> bool"
    and size_ok :: "int \<Rightarrow> bool"
    and refusal :: int
  assumes alloc_law: "holds h A \<Longrightarrow> size_ok n \<Longrightarrow> \<exists>r h'. alloc k n h = Some (r, h') \<and>
      (r = refusal \<and> h' = h \<or>
       r \<noteq> refusal \<and> usable k r n \<and> region k r n \<subseteq> A \<and> holds h' (A - region k r n))"
    and release_law: "holds h A \<Longrightarrow> size_ok n \<Longrightarrow> usable k r n \<Longrightarrow> region k r n \<inter> A = {} \<Longrightarrow>
      \<exists>h'. release k r n h = Some (OK, h') \<and> holds h' (A \<union> region k r n)"
begin

definition session_ok :: "int set \<Rightarrow> 'h \<times> ('k \<times> int \<times> int) list \<Rightarrow> bool" where
  "session_ok arena s \<longleftrightarrow> (\<exists>A. holds (fst s) A \<and> tiled region arena A (snd s)) \<and>
     (\<forall>(k, r, n)\<in>set (snd s). size_ok n \<and> usable k r n)"

lemma request_ok:
  assumes s: "session_ok arena (h, out)" and n: "size_ok n"
  shows "\<exists>r h'. alloc k n h = Some (r, h') \<and> session_ok arena (h', if r = refusal then out else (k, r, n) # out)"
proof -
  obtain A where A: "holds h A" "tiled region arena A out" using s by (auto simp: session_ok_def)
  obtain r h' where r: "alloc k n h = Some (r, h')" "r = refusal \<and> h' = h \<or>
      r \<noteq> refusal \<and> usable k r n \<and> region k r n \<subseteq> A \<and> holds h' (A - region k r n)"
    using alloc_law[OF A(1) n] by blast
  show ?thesis
  proof (cases "r = refusal")
    case True
    then show ?thesis using r s by auto
  next
    case False
    have "tiled region arena (A - region k r n) ((k, r, n) # out)"
      using A(2) r(2) False unfolding tiled_def by fastforce
    then show ?thesis using r s n False by (auto simp: session_ok_def)
  qed
qed

lemma return_ok:
  assumes s: "session_ok arena (h, out)" and i: "i < length out" "out ! i = (k, r, n)"
  shows "\<exists>h'. release k r n h = Some (OK, h') \<and> session_ok arena (h', take i out @ drop (Suc i) out)"
proof -
  obtain A where A: "holds h A" "tiled region arena A out" using s by (auto simp: session_ok_def)
  have m: "(k, r, n) \<in> set out" using i by (metis nth_mem)
  then have "size_ok n" "usable k r n" "region k r n \<inter> A = {}"
    using s A(2) by (auto simp: session_ok_def tiled_def)
  then obtain h' where h': "release k r n h = Some (OK, h')" "holds h' (A \<union> region k r n)"
    using release_law[OF A(1)] by blast
  have "set (take i out @ drop (Suc i) out) \<subseteq> set out"
    by (auto dest: in_set_takeD in_set_dropD)
  then show ?thesis
    using h' tiled_return[OF A(2) i] s unfolding session_ok_def by fastforce
qed

text \<open>No request or release faults, no two blocks ever overlap, nothing is lost.\<close>

lemma run_ok:
  assumes "session_ok arena s" "list_all size_ok (cmd_sizes cs)"
  shows "\<exists>t. run_cmds alloc release refusal cs s = Some t \<and> session_ok arena t"
  using assms
proof (induction cs arbitrary: s)
  case (Cons c cs)
  obtain h out where s: "s = (h, out)" by (cases s)
  show ?case
  proof (cases c)
    case (Request k n)
    then obtain r h' where r: "alloc k n h = Some (r, h')"
      "session_ok arena (h', if r = refusal then out else (k, r, n) # out)"
      using request_ok[of arena h out n k] Cons.prems s by auto
    then show ?thesis using Cons.IH[OF r(2)] Cons.prems(2) s Request by simp
  next
    case (Return_block i)
    show ?thesis
    proof (cases "i < length out")
      case True
      obtain k r n where o: "out ! i = (k, r, n)" by (metis prod_cases3)
      obtain h' where h': "release k r n h = Some (OK, h')"
        "session_ok arena (h', take i out @ drop (Suc i) out)"
        using return_ok[OF _ True o, of arena h] Cons.prems(1) s by blast
      then show ?thesis using Cons.IH[OF h'(2)] Cons.prems(2) s Return_block True o by simp
    next
      case False
      then show ?thesis using Cons s Return_block by simp
    qed
  qed
qed simp

end

end
