(* ===== verification/Heap_Alloc.thy ===== *)
theory Heap_Alloc
  imports Heap_Free Allocator
begin

text \<open>
  The heap provides the allocator contract, for getmem with freemem and for getstk with freestk on
  the same free list. A request is at most 0xFFFFFFF8 bytes; the block that comes back has the
  rounded size.
\<close>

datatype heap_kind = Mem | Stk

fun heap_alloc :: "heap_kind \<Rightarrow> int \<Rightarrow> hst \<Rightarrow> (int \<times> hst) option" where
  "heap_alloc Mem n = getmem n"
| "heap_alloc Stk n = getstk n"

fun heap_release :: "heap_kind \<Rightarrow> int \<Rightarrow> int \<Rightarrow> hst \<Rightarrow> (int \<times> hst) option" where
  "heap_release Mem r n = freemem r n"
| "heap_release Stk r n = freestk r n"

text \<open>The address of the lowest word of a block.\<close>

fun block_base :: "heap_kind \<Rightarrow> int \<Rightarrow> int \<Rightarrow> int" where
  "block_base Mem r n = r"
| "block_base Stk r n = r + 4 - roundmb n"

definition heap_region :: "heap_kind \<Rightarrow> int \<Rightarrow> int \<Rightarrow> int set" where
  "heap_region k r n = {block_base k r n ..< block_base k r n + roundmb n}"

definition heap_usable :: "int \<Rightarrow> int \<Rightarrow> heap_kind \<Rightarrow> int \<Rightarrow> int \<Rightarrow> bool" where
  "heap_usable lo hi k r n \<longleftrightarrow> lo \<le> block_base k r n \<and> block_base k r n mod 8 = 0 \<and>
     block_base k r n + roundmb n \<le> hi \<and> 0 < lo \<and> hi < 4294967296"

definition heap_size_ok :: "int \<Rightarrow> bool" where
  "heap_size_ok n \<longleftrightarrow> 0 < n \<and> n \<le> 4294967288"

definition heap_holds :: "int \<Rightarrow> int \<Rightarrow> hst \<Rightarrow> int set \<Rightarrow> bool" where
  "heap_holds lo hi h A \<longleftrightarrow> minheap h = lo \<and> maxheap h = hi \<and> (\<exists>bs. heap_wf h bs \<and> avail bs = A)"

lemma heap_wf_facts:
  assumes "heap_wf h bs"
  shows "blocks_ok (minheap h) (maxheap h) bs" "0 < minheap h" "maxheap h < 4294967296"
  using assms by (auto simp: heap_wf_def arena_ok_def)

lemma heap_alloc_law:
  assumes h: "heap_holds lo hi h A" and n: "heap_size_ok n"
  shows "\<exists>r h'. heap_alloc k n h = Some (r, h') \<and>
    (r = u32 SYSERR \<and> h' = h \<or>
     r \<noteq> u32 SYSERR \<and> heap_usable lo hi k r n \<and> heap_region k r n \<subseteq> A \<and> heap_holds lo hi h' (A - heap_region k r n))"
proof -
  obtain bs where bs: "heap_wf h bs" "avail bs = A" and lh: "minheap h = lo" "maxheap h = hi"
    using h by (auto simp: heap_holds_def)
  have n': "0 < n" "n \<le> 4294967288" using n by (auto simp: heap_size_ok_def)
  note rn = roundmb_spec[OF n'] and f = heap_wf_facts[OF bs(1)]
  have u: "u32 SYSERR = 4294967295" by (simp add: u32_def)
  show ?thesis
  proof (cases k)
    case Mem
    show ?thesis
    proof (cases "carve (roundmb n) bs")
      case None
      then show ?thesis using getmem_refines(1)[OF bs(1) n'] Mem by simp
    next
      case (Some x)
      obtain r cs where x: "carve (roundmb n) bs = Some (r, cs)" using Some by (cases x) simp
      obtain h' where h': "getmem n h = Some (r, h')" "heap_wf h' cs" "minheap h' = lo" "maxheap h' = hi"
        using getmem_refines(2)[OF bs(1) n' x] lh by auto
      have "0 < roundmb n" using rn(4) by simp
      note a = carve_avail[OF f(1) x this]
      have "r \<noteq> u32 SYSERR" using a(5) f(3) rn(4) u by simp
      then show ?thesis
        using h' a bs(2) lh Mem f by (auto simp: heap_region_def heap_usable_def heap_holds_def)
    qed
  next
    case Stk
    show ?thesis
    proof (cases "carve_top (roundmb n) bs")
      case None
      then show ?thesis using getstk_refines(1)[OF bs(1) n'] Stk by simp
    next
      case (Some x)
      obtain r cs where x: "carve_top (roundmb n) bs = Some (r, cs)" using Some by (cases x) simp
      obtain h' where h': "getstk n h = Some (r + roundmb n - 4, h')" "heap_wf h' cs" "minheap h' = lo" "maxheap h' = hi"
        using getstk_refines(2)[OF bs(1) n' x] lh by auto
      have "0 < roundmb n" using rn(4) by simp
      note a = carve_top_avail[OF f(1) x this rn(1)]
      have "r + roundmb n - 4 \<noteq> u32 SYSERR" using a(5) f(3) u by simp
      then show ?thesis
        using h' a bs(2) lh Stk f by (auto simp: heap_region_def heap_usable_def heap_holds_def)
    qed
  qed
qed

lemma roundmb_twice: "0 < n \<Longrightarrow> n \<le> 4294967288 \<Longrightarrow> roundmb (roundmb n) = roundmb n"
  using roundmb_spec[of n] by (intro roundmb_id) simp_all

lemma freestk_is_freemem:
  assumes "heap_size_ok n" "heap_usable lo hi Stk r n"
  shows "freestk r n h = freemem (block_base Stk r n) (roundmb n) h"
proof -
  have "u32 (r - roundmb n + 4) = r + 4 - roundmb n"
    using assms roundmb_spec[of n] by (subst u32_id) (auto simp: heap_usable_def heap_size_ok_def)
  then show ?thesis by (simp add: freestk_def)
qed

lemma freemem_ok:
  assumes h: "heap_holds lo hi h A" and n: "0 < n" "n \<le> 4294967288"
    and b: "lo \<le> b" "b mod 8 = 0" "b + roundmb n \<le> hi" "{b..<b + roundmb n} \<inter> A = {}"
  shows "\<exists>h'. freemem b n h = Some (OK, h') \<and> heap_holds lo hi h' (A \<union> {b..<b + roundmb n})"
proof -
  obtain bs where bs: "heap_wf h bs" "avail bs = A" and lh: "minheap h = lo" "maxheap h = hi"
    using h by (auto simp: heap_holds_def)
  note rn = roundmb_spec[OF n] and f = heap_wf_facts[OF bs(1)]
  obtain cs where cs: "put_back b (roundmb n) bs = Some cs"
    using put_back_defined[OF f(1) _ rn(4)] b(4) bs(2) by blast
  obtain h' where h': "freemem b n h = Some (OK, h')" "heap_wf h' cs" "minheap h' = lo" "maxheap h' = hi"
    using freemem_refines(2)[OF bs(1) n _ b(2) _ cs] b(1,3) lh by auto
  have "avail cs = A \<union> {b..<b + roundmb n}"
    using put_back_avail[OF f(1) cs] rn(4) bs(2) by simp
  then show ?thesis using h' by (auto simp: heap_holds_def)
qed

lemma heap_release_law:
  assumes h: "heap_holds lo hi h A" and n: "heap_size_ok n" and us: "heap_usable lo hi k r n"
    and d: "heap_region k r n \<inter> A = {}"
  shows "\<exists>h'. heap_release k r n h = Some (OK, h') \<and> heap_holds lo hi h' (A \<union> heap_region k r n)"
proof -
  have n': "0 < n" "n \<le> 4294967288" using n by (auto simp: heap_size_ok_def)
  note rn = roundmb_spec[OF n']
  have n2: "0 < roundmb n" "roundmb n \<le> 4294967288" using rn(4,5) by simp_all
  show ?thesis
  proof (cases k)
    case Mem
    then show ?thesis
      using freemem_ok[OF h n', of r] us d by (simp add: heap_usable_def heap_region_def)
  next
    case Stk
    then show ?thesis
      using freemem_ok[OF h n2, of "block_base Stk r n"] us d roundmb_twice[OF n'] freestk_is_freemem[OF n, of lo hi r h]
      by (simp add: heap_usable_def heap_region_def)
  qed
qed

interpretation heap: allocator "heap_holds lo hi" heap_alloc heap_release heap_region
  "heap_usable lo hi" heap_size_ok "u32 SYSERR" for lo hi
  by unfold_locales (rule heap_alloc_law heap_release_law; assumption)+

end
