(* ===== verification/Proc_Life.thy ===== *)
theory Proc_Life
  imports Processes Process_Calls Heap_Alloc
begin

text \<open>
  The life of a process: what create and kill do to the tables and to the heap, and the state that
  sysinit leaves.
\<close>

section \<open>The heap and the kernel tables do not interfere\<close>

text \<open>The kernel invariant reads the queues, the process table, the semaphores and little else.\<close>

lemma kok_congD:
  assumes "kok s L" and e: "queuetab t = queuetab s" "nextqid t = nextqid s" "proctab t = proctab s"
    "currpid t = currpid s" "readylist t = readylist s" "sleepq t = sleepq s" "Defer t = Defer s"
    "semtab t = semtab s" "nextsem t = nextsem s"
  shows "kok t L"
proof -
  have sq: "semq t = semq s" using e(8) by (simp add: semq_def fun_eq_iff)
  have "kinv0 t L" by (rule kinv0_cong[OF kokD(5)[OF assms(1)]]) (simp_all add: e sq)
  moreover have "sems_ok t L"
    by (rule sems_ok_cong[OF kmidD(2)[OF kokD(1)[OF assms(1)]] e(8)]) simp
  moreover have "sleep_ok t L" using kmidD(11)[OF kokD(1)[OF assms(1)]] e by (simp add: sleep_ok_def)
  ultimately show ?thesis using assms(1) e by (simp add: kok_def kmid_def)
qed

lemma kok_frame:
  assumes "kok s L"
  shows "kok (s\<lparr>heap := h\<rparr>) L" "kok (s\<lparr>prcount := n\<rparr>) L" "kok (s\<lparr>nextpid := n\<rparr>) L" "kok (s\<lparr>halted := b\<rparr>) L"
  by (rule kok_congD[OF assms]; simp)+

text \<open>Writing to memory that is not on the free list.\<close>

lemma heap_wf_write:
  assumes wf: "heap_wf h bs" and lo: "\<And>x. x < minheap h \<Longrightarrow> m x = mem h x"
    and fr: "\<And>x. x \<in> avail bs \<Longrightarrow> m x = mem h x"
  shows "heap_wf (h\<lparr>mem := m\<rparr>) bs"
proof -
  let ?h = "h\<lparr>mem := m\<rparr>"
  have ar: "arena_ok h" using wf by (simp add: heap_wf_def)
  have M: "m (memlist h) = mem h (memlist h)" "m (memlist h + 4) = mem h (memlist h + 4)"
    using ar by (auto intro!: lo simp: arena_ok_def)
  have b: "m (fst b) = mem h (fst b)" "m (fst b + 4) = mem h (fst b + 4)" if "b \<in> set bs" for b
  proof -
    have "8 \<le> snd b" using blocks_in(2)[of "minheap h" "maxheap h" bs b] wf that by (simp add: heap_wf_def)
    then have "fst b \<in> span b" "fst b + 4 \<in> span b" by (simp_all add: span_def)
    then have "fst b \<in> avail bs" "fst b + 4 \<in> avail bs" using that by (auto simp: avail_def)
    then show "m (fst b) = mem h (fst b)" "m (fst b + 4) = mem h (fst b + 4)" using fr by blast+
  qed
  have "chain ?h (memlist h) bs = chain h (memlist h) bs"
    by (rule chain_cong) (use M b in \<open>simp_all add: mnext_def mlength_def\<close>)
  then show ?thesis using wf by (simp add: heap_wf_def arena_ok_def)
qed

lemma heap_holds_write:
  assumes "heap_holds lo hi h A" and "\<And>x. x < lo \<or> x \<in> A \<Longrightarrow> m x = mem h x"
  shows "heap_holds lo hi (h\<lparr>mem := m\<rparr>) A"
  using assms heap_wf_write[of h _ m] by (fastforce simp: heap_holds_def)

section \<open>The initial stack\<close>

definition words_at :: "(int \<Rightarrow> int) \<Rightarrow> int \<Rightarrow> int list \<Rightarrow> bool" where
  "words_at m sp ws \<longleftrightarrow> (\<forall>i < length ws. m (sp + 4 * int i) = ws ! i)"

text \<open>Everything pushed lies below the start and leaves the rest of the memory alone.\<close>

lemma push_words:
  assumes "words_at m sp ws" "4 \<le> sp" "sp < 4294967296"
  shows "push v (sp, h\<lparr>mem := m\<rparr>) = (sp - 4, h\<lparr>mem := m(sp - 4 := v)\<rparr>)"
    "words_at (m(sp - 4 := v)) (sp - 4) (v # ws)"
proof -
  have u: "u32 (sp - 4) = sp - 4" using assms(2,3) by (intro u32_id) simp_all
  then show "push v (sp, h\<lparr>mem := m\<rparr>) = (sp - 4, h\<lparr>mem := m(sp - 4 := v)\<rparr>)"
    by (simp add: push_def Let_def)
  show "words_at (m(sp - 4 := v)) (sp - 4) (v # ws)"
    unfolding words_at_def
  proof (intro allI impI)
    fix i assume i: "i < length (v # ws)"
    show "(m(sp - 4 := v)) (sp - 4 + 4 * int i) = (v # ws) ! i"
    proof (cases i)
      case (Suc j)
      have "sp - 4 + 4 * int i = sp + 4 * int j" using Suc by simp
      then show ?thesis using assms(1) i Suc by (simp add: words_at_def)
    qed simp
  qed
qed

lemma fold_push_words:
  assumes "words_at m sp ws" "4 * int (length vs) \<le> sp" "sp < 4294967296"
  shows "\<exists>m'. fold push vs (sp, h\<lparr>mem := m\<rparr>) = (sp - 4 * int (length vs), h\<lparr>mem := m'\<rparr>) \<and>
    words_at m' (sp - 4 * int (length vs)) (rev vs @ ws) \<and>
    (\<forall>x. x < sp - 4 * int (length vs) \<or> sp \<le> x \<longrightarrow> m' x = m x)"
  using assms
proof (induction vs arbitrary: sp m ws)
  case Nil
  then show ?case by (intro exI[of _ m]) simp
next
  case (Cons v vs)
  have b: "4 \<le> sp" "4 * int (length vs) \<le> sp - 4" "sp - 4 < 4294967296"
    and n: "sp - 4 - 4 * int (length vs) = sp - 4 * int (length (v # vs))" using Cons.prems by simp_all
  note p = push_words[OF Cons.prems(1) b(1) Cons.prems(3)]
  obtain m' where m': "fold push vs (sp - 4, h\<lparr>mem := m(sp - 4 := v)\<rparr>) = (sp - 4 * int (length (v # vs)), h\<lparr>mem := m'\<rparr>)"
    "words_at m' (sp - 4 * int (length (v # vs))) (rev vs @ v # ws)"
    "\<forall>x. x < sp - 4 * int (length (v # vs)) \<or> sp - 4 \<le> x \<longrightarrow> m' x = (m(sp - 4 := v)) x"
    using Cons.IH[OF p(2) b(2,3)] unfolding n by blast
  have "\<forall>x. x < sp - 4 * int (length (v # vs)) \<or> sp \<le> x \<longrightarrow> m' x = m x"
  proof (intro allI impI)
    fix x assume x: "x < sp - 4 * int (length (v # vs)) \<or> sp \<le> x"
    then have "m' x = (m(sp - 4 := v)) x" using m'(3) by auto
    then show "m' x = m x" using x by auto
  qed
  moreover have "fold push (v # vs) (sp, h\<lparr>mem := m\<rparr>) = (sp - 4 * int (length (v # vs)), h\<lparr>mem := m'\<rparr>)"
    using p(1)[of v h] m'(1) by simp
  moreover have "rev (v # vs) @ ws = rev vs @ v # ws" by simp
  ultimately show ?case using m'(2) by metis
qed

definition frame_words :: "int \<Rightarrow> int \<Rightarrow> int list \<Rightarrow> int list" where
  "frame_words INITRET procaddr args =
     [CPSR_INIT, INITRET] @ map (arg_word args) [0, 1, 2, 3] @ replicate 8 0 @ [procaddr] @ drop 4 args"

definition frame_size :: "int list \<Rightarrow> int" where
  "frame_size args = 4 * int (15 + length (drop 4 args))"

lemma init_stack_words:
  assumes "words_at m sp ws" "frame_size args \<le> sp" "sp < 4294967296"
  shows "\<exists>m'. init_stack INITRET procaddr args (sp, h\<lparr>mem := m\<rparr>) = (sp - frame_size args, h\<lparr>mem := m'\<rparr>) \<and>
    words_at m' (sp - frame_size args) (frame_words INITRET procaddr args @ ws) \<and>
    (\<forall>x. x < sp - frame_size args \<or> sp \<le> x \<longrightarrow> m' x = m x)"
proof -
  let ?vs = "rev (drop 4 args) @ [procaddr] @ replicate 8 0 @ map (arg_word args) [3, 2, 1, 0] @ [INITRET, CPSR_INIT]"
  have i: "init_stack INITRET procaddr args sh = fold push ?vs sh" for sh
    by (simp add: init_stack_def Let_def)
  have n: "4 * int (length ?vs) = frame_size args" by (simp add: frame_size_def)
  have r: "rev ?vs = frame_words INITRET procaddr args" by (simp add: frame_words_def)
  show ?thesis
    using fold_push_words[OF assms(1), of ?vs h] assms(2,3) unfolding i n r by blast
qed

section \<open>Process identifiers\<close>

definition pid_pos :: "kst \<Rightarrow> int" where
  "pid_pos s = nextpid s mod NPROC"

definition pid_free :: "kst \<Rightarrow> int \<Rightarrow> bool" where
  "pid_free s p \<longleftrightarrow> prstate (proctab s p) = PR_FREE"

definition pid_adv :: "kst \<Rightarrow> kst" where
  "pid_adv s = s\<lparr>nextpid := pid_pos s + 1\<rparr>"

interpretation pid_scan: slot_scan newpid_iter NPROC "\<lambda>s. True" pid_pos pid_free pid_adv pid_adv
proof unfold_locales
  show "0 < NPROC" by (simp add: NPROC_def)
  show "0 \<le> pid_pos s \<and> pid_pos s < NPROC" for s by (simp add: pid_pos_def NPROC_def)
  show "newpid_iter (NPROC, s) = Some (Inr (SYSERR, s))" for s by (simp add: newpid_iter_def)
  have r: "0 \<le> nextpid s mod NPROC \<and> nextpid s mod NPROC < NPROC" for s :: kst by (simp add: NPROC_def)
  show "newpid_iter (i, s) = Some (Inr (pid_pos s, pid_adv s))"
    if "i < NPROC" "pid_free s (pid_pos s)" for s i
    using that r[of s] by (simp add: newpid_iter_def pid_free_def pid_pos_def pid_adv_def proc_at_def Let_def)
  show "newpid_iter (i, s) = Some (Inl (i + 1, pid_adv s))"
    if "i < NPROC" "\<not> pid_free s (pid_pos s)" for s i
    using that r[of s] by (simp add: newpid_iter_def pid_free_def pid_pos_def pid_adv_def proc_at_def Let_def)
  show "pid_pos (pid_adv s) = (pid_pos s + 1) mod NPROC" for s by (simp add: pid_pos_def pid_adv_def)
qed (simp_all add: pid_adv_def pid_free_def fun_eq_iff)

lemma newpid_spec:
  "(\<exists>p n. 0 \<le> p \<and> p < NPROC \<and> pid_free s p \<and> newpid s = Some (p, s\<lparr>nextpid := n\<rparr>)) \<or>
   (\<forall>p. 0 \<le> p \<and> p < NPROC \<longrightarrow> \<not> pid_free s p) \<and> (\<exists>n. newpid s = Some (SYSERR, s\<lparr>nextpid := n\<rparr>))"
proof -
  have many: "\<exists>n. (pid_adv ^^ k) s = s\<lparr>nextpid := n\<rparr>" for k
  proof (induction k)
    case 0
    show ?case by (rule exI[of _ "nextpid s"]) simp
  next
    case (Suc k)
    then show ?case by (auto simp: pid_adv_def)
  qed
  have "(\<exists>p k. 0 \<le> p \<and> p < NPROC \<and> pid_free s p \<and> pid_pos ((pid_adv ^^ k) s) = p \<and>
      newpid s = Some (p, pid_adv ((pid_adv ^^ k) s))) \<or>
    (\<forall>p. 0 \<le> p \<and> p < NPROC \<longrightarrow> \<not> pid_free s p) \<and> newpid s = Some (SYSERR, (pid_adv ^^ nat NPROC) s)"
    unfolding newpid_def by (rule pid_scan.scan) simp
  then show ?thesis
  proof (elim disjE exE conjE)
    fix p k assume p: "0 \<le> p" "p < NPROC" "pid_free s p" and e: "newpid s = Some (p, pid_adv ((pid_adv ^^ k) s))"
    have "\<exists>n. newpid s = Some (p, s\<lparr>nextpid := n\<rparr>)" using many[of "Suc k"] e by auto
    then show ?thesis using p by blast
  qed (use many in auto)
qed

section \<open>create\<close>

definition new_entry :: "int \<Rightarrow> int \<Rightarrow> int \<Rightarrow> string \<Rightarrow> int \<Rightarrow> procent \<Rightarrow> int \<Rightarrow> procent" where
  "new_entry ssize priority saddr name parent e sp =
     e\<lparr>prstate := PR_SUSP, prprio := priority, prstkbase := saddr, prstklen := ssize,
       prname := take (PNMLEN - 1) name, prsem := -1, prparent := parent, prhasmsg := False,
       prdesc := (prdesc e)(0 := SERIAL0, 1 := SERIAL0, 2 := SERIAL0), prstkptr := sp\<rparr>"

text \<open>A free process table entry may be filled in.\<close>

lemma kok_new_process:
  assumes k: "kok s L" and p: "0 \<le> p" "p < NPROC" "prstate (proctab s p) = PR_FREE"
    and e: "prstate e = PR_SUSP" "-32768 \<le> prprio e" "prprio e \<le> 32767"
  shows "kok (s\<lparr>proctab := (proctab s)(p := e)\<rparr>) L"
proof -
  note k0 = kokD(5)[OF k] and m = kokD(1)[OF k]
  let ?t = "s\<lparr>proctab := (proctab s)(p := e)\<rparr>"
  have off: "off_queues (nextqid s) L p" using kinv0_off[OF k0 p(1,2)] p(3) by simp
  have nst: "prstate (proctab s NULLPROC) = PR_CURR \<or> prstate (proctab s NULLPROC) = PR_READY"
    using kinv0D(8)[OF k0] by (simp add: procs_ok_def)
  have np: "p \<noteq> NULLPROC" "p \<noteq> currpid s"
    using nst p(3) kokD(4)[OF k] by auto
  have "kinv0 (s\<lparr>queuetab := queuetab s, proctab := (proctab s)(p := e)\<rparr>) L"
  proof (rule kinv0_move[OF k0 p(1,2) kinv0D(1)[OF k0]])
    show "q = readylist s \<or> q = sleepq s \<or> (\<exists>i. 0 \<le> i \<and> i < NSEM \<and> q = semq s i)"
      if "qid_ok (nextqid s) q" "p \<in> set (L q)" for q
      using that off by (simp add: off_queues_def)
    have "tables_ok s" using k0 by (simp add: kinv0_def)
    moreover have "prstate e \<notin> {PR_READY, PR_SLEEP, PR_RECTIM, PR_WAIT}" using e(1) by simp
    ultimately show "placed s L p e" by (rule placed_off[OF off])
    show "desc (keys s) (L (readylist s))" using kinv0D(7)[OF k0] .
    show "procs_ok (s\<lparr>proctab := (proctab s)(p := e)\<rparr>)"
      using kinv0D(8)[OF k0] np e by (simp add: procs_ok_def)
  qed simp
  then have "kinv0 ?t L" by simp
  moreover have "sems_ok ?t L" using sems_ok_cong[OF kmidD(2)[OF m], of ?t L] by simp
  moreover have "sleep_ok ?t L" using kmidD(11)[OF m] by (simp add: sleep_ok_def)
  ultimately show ?thesis using k np by (simp add: kok_def kmid_def)
qed

definition stack_size :: "int \<Rightarrow> int" where
  "stack_size ssize = roundew (if ssize < MINSTK then MINSTK else ssize)"

lemma stack_size_spec:
  assumes "0 \<le> n" "n \<le> 4294967280"
  shows "400 \<le> stack_size n" "n \<le> stack_size n" "stack_size n \<le> 4294967288" "0 < stack_size n"
proof -
  let ?m = "if n < MINSTK then MINSTK else n"
  have m: "400 \<le> ?m" "?m \<le> 4294967280" "n \<le> ?m" using assms by (auto simp: MINSTK_def)
  have u: "u32 (?m + 3) = ?m + 3" using m by (intro u32_id) simp_all
  have "0 \<le> (?m + 3) mod 4" "(?m + 3) mod 4 < 4" by simp_all
  then have "?m \<le> roundew ?m" "roundew ?m \<le> ?m + 3" unfolding roundew_def u by linarith+
  then show "400 \<le> stack_size n" "n \<le> stack_size n" "stack_size n \<le> 4294967288" "0 < stack_size n"
    unfolding stack_size_def using m by linarith+
qed

text \<open>The three outcomes of create: no memory for the stack; memory but no process identifier or a
  priority below one, in which case the stack stays allocated; a new suspended process.\<close>

lemma create_no_memory:
  assumes "heap_holds lo hi (heap s) A" "0 \<le> n" "n \<le> 4294967280"
    and "getstk (stack_size n) (heap s) = Some (u32 SYSERR, heap s)"
  shows "create R f n prio name args s = Some (SYSERR, s)"
  using assms(4) by (simp add: create_def stack_size_def Let_def)

lemma create_leak:
  assumes k: "kok s L" and st: "getstk (stack_size n) (heap s) = Some (a, h)" "a \<noteq> u32 SYSERR"
    and bad: "prio < 1 \<or> (\<forall>p. 0 \<le> p \<and> p < NPROC \<longrightarrow> \<not> pid_free s p)"
  shows "\<exists>t. create R f n prio name args s = Some (SYSERR, t) \<and> heap t = h \<and> proctab t = proctab s \<and>
    prcount t = prcount s \<and> kok t L"
proof -
  let ?s = "s\<lparr>heap := h\<rparr>"
  have fr: "pid_free ?s = pid_free s" by (simp add: pid_free_def fun_eq_iff)
  obtain x m where e: "newpid ?s = Some (x, ?s\<lparr>nextpid := m\<rparr>)" "x = SYSERR \<or> pid_free s x"
    "x = SYSERR \<or> 0 \<le> x \<and> x < NPROC"
    using newpid_spec[of ?s] unfolding fr by blast
  have "x = SYSERR \<or> prio < 1" using bad e(2,3) by blast
  then have "create R f n prio name args s = Some (SYSERR, ?s\<lparr>nextpid := m\<rparr>)"
    using st e(1) by (auto simp: create_def stack_size_def Let_def)
  moreover have "kok (?s\<lparr>nextpid := m\<rparr>) L" using kok_frame(1,3) k by blast
  ultimately show ?thesis by (intro exI[of _ "?s\<lparr>nextpid := m\<rparr>"]) simp
qed

lemma create_ok:
  assumes k: "kok s L" and h: "heap_holds lo hi (heap s) A" and n: "0 \<le> n" "n \<le> 4294967280"
    and st: "getstk (stack_size n) (heap s) = Some (a, h')" "a \<noteq> u32 SYSERR"
    and pr: "1 \<le> prio" "prio \<le> 32767" and free: "\<exists>p. 0 \<le> p \<and> p < NPROC \<and> pid_free s p"
    and args: "frame_size args + 4 \<le> roundmb (stack_size n)"
  shows "\<exists>pid sp t. create R f n prio name args s = Some (pid, t) \<and>
    0 \<le> pid \<and> pid < NPROC \<and> pid_free s pid \<and>
    proctab t = (proctab s)(pid := new_entry (stack_size n) prio a name (currpid s) (proctab s pid) sp) \<and>
    prcount t = i32 (prcount s + 1) \<and> currpid t = currpid s \<and> kok t L \<and>
    heap_region Stk a (stack_size n) \<subseteq> A \<and>
    heap_holds lo hi (heap t) (A - heap_region Stk a (stack_size n)) \<and>
    words_at (mem (heap t)) sp (frame_words R f args @ [STACKMAGIC]) \<and>
    sp = a - frame_size args"
proof -
  let ?z = "stack_size n"
  note zs = stack_size_spec[OF n]
  have zo: "heap_size_ok ?z" using zs by (simp add: heap_size_ok_def)
  obtain u: "heap_usable lo hi Stk a ?z" "heap_region Stk a ?z \<subseteq> A" "heap_holds lo hi h' (A - heap_region Stk a ?z)"
    using heap_alloc_law[OF h zo, of Stk] st by auto
  note rz = roundmb_spec[of ?z]
  have a: "lo + roundmb ?z \<le> a + 4" "a + 4 \<le> hi" "0 < lo" "hi < 4294967296"
    using u(1) by (simp_all add: heap_usable_def)
  let ?s = "s\<lparr>heap := h'\<rparr>"
  have fr: "pid_free ?s = pid_free s" by (simp add: pid_free_def fun_eq_iff)
  obtain p m where p: "newpid ?s = Some (p, ?s\<lparr>nextpid := m\<rparr>)" "0 \<le> p" "p < NPROC" "pid_free s p"
    using newpid_spec[of ?s] free unfolding fr by blast
  define m0 where "m0 = (mem h')(a := STACKMAGIC)"
  have w0: "words_at m0 a [STACKMAGIC]" by (simp add: words_at_def m0_def)
  have fz: "frame_size args \<le> a" "a < 4294967296" using args a by simp_all
  obtain m1 where m1: "init_stack R f args (a, h'\<lparr>mem := m0\<rparr>) = (a - frame_size args, h'\<lparr>mem := m1\<rparr>)"
    "words_at m1 (a - frame_size args) (frame_words R f args @ [STACKMAGIC])"
    "\<forall>x. x < a - frame_size args \<or> a \<le> x \<longrightarrow> m1 x = m0 x"
    using init_stack_words[OF w0 fz, of R f h'] by blast
  let ?sp = "a - frame_size args"
  let ?e = "new_entry ?z prio a name (currpid s) (proctab s p) ?sp"
  let ?t = "s\<lparr>heap := h'\<lparr>mem := m1\<rparr>, nextpid := m, prcount := i32 (prcount s + 1),
      proctab := (proctab s)(p := ?e)\<rparr>"
  have "create R f n prio name args s = Some (p, ?t)"
    using st p(1,2) pr(1) m1(1)
    by (simp add: create_def stack_size_def[symmetric] Let_def getpid_def upd_proc_def m0_def new_entry_def)
  moreover have "kok ?t L"
  proof -
    have "kok (s\<lparr>proctab := (proctab s)(p := ?e)\<rparr>) L"
      by (rule kok_new_process[OF k p(2,3)]) (use p(4) pr in \<open>simp_all add: pid_free_def new_entry_def\<close>)
    then show ?thesis by (rule kok_congD) simp_all
  qed
  moreover have "heap_holds lo hi (h'\<lparr>mem := m1\<rparr>) (A - heap_region Stk a ?z)"
  proof (rule heap_holds_write[OF u(3)])
    fix x assume x: "x < lo \<or> x \<in> A - heap_region Stk a ?z"
    have "0 \<le> frame_size args" by (simp add: frame_size_def)
    then have "\<not> (?sp \<le> x \<and> x < a) \<and> x \<noteq> a"
      using x a args by (auto simp: heap_region_def)
    then show "m1 x = mem h' x" using m1(3) by (auto simp: m0_def)
  qed
  ultimately show ?thesis
    using p u(2) m1(2) by (intro exI[of _ p] exI[of _ ?sp] exI[of _ ?t]) simp
qed

end
