(* ===== verification/Proc_Kill.thy ===== *)
theory Proc_Kill
  imports Proc_Life
begin

text \<open>
  What kill does to a process in each state: the process leaves its queue, its stack goes back to
  the heap, its table entry is free, and the count of a semaphore that it waited for is put right.
\<close>

text \<open>A process off the queues may be freed.\<close>

lemma kinv0_freed:
  assumes k: "kinv0 (set_state p PR_SUSP s) L" and p: "0 \<le> p" "p < NPROC" "p \<noteq> NULLPROC"
  shows "kinv0 (set_state p PR_FREE s) L"
proof -
  let ?s = "set_state p PR_SUSP s" and ?e = "(proctab s p)\<lparr>prstate := PR_FREE\<rparr>"
  have off: "off_queues (nextqid s) L p" using kinv0_off[OF k p(1,2)] by simp
  have "kinv0 (?s\<lparr>queuetab := queuetab s, proctab := (proctab ?s)(p := ?e)\<rparr>) L"
  proof (rule kinv0_move[OF k p(1,2)])
    show "queues_wf (queuetab s) (nextqid ?s) L" using kinv0D(1)[OF k] by simp
    show "q = readylist ?s \<or> q = sleepq ?s \<or> (\<exists>i. 0 \<le> i \<and> i < NSEM \<and> q = semq ?s i)"
      if "qid_ok (nextqid ?s) q" "p \<in> set (L q)" for q
      using that off by (simp add: off_queues_def)
    have "tables_ok ?s" using k by (simp add: kinv0_def)
    then show "placed ?s L p ?e" using off by (intro placed_off) simp_all
    show "desc (\<lambda>x. qkey (queuetab s x)) (L (readylist ?s))" using kinv0D(7)[OF k] by simp
    show "procs_ok (?s\<lparr>proctab := (proctab ?s)(p := ?e)\<rparr>)"
      using kinv0D(8)[OF k] p(3) by (auto simp: procs_ok_def)
  qed simp
  then show ?thesis by (simp add: table_updates)
qed

text \<open>The common end of all cases: from a detached process to a free entry.\<close>

lemma freed_kok:
  assumes d: "detached s L p" "p \<noteq> NULLPROC" and sm: "sems_ok s L" "sleep_ok s L" "0 \<le> nextsem s" "nextsem s < NSEM"
    and c: "prstate (proctab s (currpid s)) = PR_CURR" "ndefers (Defer s) = 0"
  shows "kok (set_state p PR_FREE s) L"
proof -
  have p: "0 \<le> p" "p < NPROC" "p \<noteq> currpid s" "kinv0 (set_state p PR_SUSP s) L"
    using d(1) by (auto simp: detached_def isbadpid_def)
  have "kinv0 (set_state p PR_FREE s) L" using kinv0_freed[OF p(4,1,2) d(2)] .
  moreover have "sems_ok (set_state p PR_FREE s) L" using sems_ok_cong[OF sm(1)] by simp
  moreover have "sleep_ok (set_state p PR_FREE s) L" using sm(2) by (simp add: sleep_ok_def)
  ultimately show ?thesis using sm(3,4) c p(3) by (simp add: kok_def kmid_def)
qed

text \<open>Off the ready list.\<close>

lemma detach_ready:
  assumes k: "kok s L" and p: "0 \<le> p" "p < NPROC" "p \<noteq> NULLPROC" "prstate (proctab s p) = PR_READY"
  shows "\<exists>qt. getitem p s = Some (p, s\<lparr>queuetab := qt\<rparr>) \<and> same_keys (queuetab s) qt \<and>
    detached (s\<lparr>queuetab := qt\<rparr>) (L(readylist s := remove1 p (L (readylist s)))) p"
proof -
  let ?r = "readylist s" and ?L = "L(readylist s := remove1 p (L (readylist s)))"
  note m = kokD(1)[OF k] and k0 = kokD(5)[OF k]
  have pin: "p \<in> set (L ?r)" using kinv0D(6)[OF k0 p(1,2)] p(4) by (simp add: placed_def)
  obtain qt where qt: "getitem p s = Some (p, s\<lparr>queuetab := qt\<rparr>)" "same_keys (queuetab s) qt"
    using getitem_wf[OF kmidD(5)[OF m] kmidD(8)[OF m] pin] by blast
  obtain t where t: "suspend p s = Some (Ret (prprio (proctab s p)), t)" "kok t ?L"
    using suspend_ready[OF k p] by blast
  have "t = set_state p PR_SUSP (s\<lparr>queuetab := qt\<rparr>)"
    using t(1) qt(1) p by (simp add: suspend_def suspend_rest_def isbadpid_def)
  then have "kinv0 (set_state p PR_SUSP (s\<lparr>queuetab := qt\<rparr>)) ?L" using kokD(5)[OF t(2)] by simp
  moreover have "p \<noteq> currpid s" using kokD(4)[OF k] p(4) by auto
  ultimately show ?thesis using qt p by (auto simp: detached_def isbadpid_def)
qed

text \<open>Off a semaphore, whose count goes up by one.\<close>

lemma detach_waiting:
  assumes k: "kok s L" and i: "0 \<le> i" "i < NSEM" and L: "L (semq s i) = us @ p # vs"
    and u: "sstate (semtab s i) = S_USED"
  defines "u \<equiv> upd_sem i (\<lambda>e. e\<lparr>scount := scount e + 1\<rparr>) s"
  shows "\<exists>qt. getitem p (sem_inc i s) = Some (p, u\<lparr>queuetab := qt\<rparr>) \<and> same_keys (queuetab s) qt \<and>
    detached (u\<lparr>queuetab := qt\<rparr>) (L(semq s i := us @ vs)) p \<and>
    sems_ok (u\<lparr>queuetab := qt\<rparr>) (L(semq s i := us @ vs))"
proof -
  let ?q = "semq s i" and ?f = "\<lambda>e. e\<lparr>scount := scount e + 1\<rparr>" and ?L = "L(semq s i := us @ vs)"
  note m = kokD(1)[OF k] and k0 = kokD(5)[OF k]
  note so = semq_ok[OF m i] and wf = kmidD(5)[OF m]
  have cnt: "int (length (us @ p # vs)) = - scount (semtab s i)" "scount (semtab s i) < 0"
    using so(4) u L by (auto simp: sem_ok_def)
  have lo: "INT_MIN \<le> scount (semtab s i)" using so(4) by (simp add: sem_ok_def)
  have inc: "sem_inc i s = u" unfolding u_def using sem_inc_eq[of s i] lo cnt(2) by simp
  have dis: "distinct (us @ p # vs)" using queues_wfD(5)[OF wf so(1)] L by simp
  obtain qt where qt: "getitem p u = Some (p, u\<lparr>queuetab := qt\<rparr>)"
    "queues_wf qt (nextqid s) ?L" "same_keys (queuetab s) qt"
    using getitem_wf[of u L ?q p] wf so(1) L dis by (auto simp: u_def remove1_append)
  have su: "semq u = semq s" by (simp add: u_def)
  have q: "?q = sleepq u \<or> (\<exists>j. 0 \<le> j \<and> j < NSEM \<and> ?q = semq u j)" using i su by auto
  have ku: "kinv0 u L" unfolding u_def using kinv0_upd_sem[OF k0] by simp
  have pin: "p \<in> set (L ?q)" using L by simp
  have np: "p \<noteq> currpid s" using waiting_not_current(1)[OF ku q pin] kokD(4)[OF k] by (auto simp: u_def)
  have "detached (u\<lparr>queuetab := qt\<rparr>) ?L p"
    by (rule detach[OF ku q L]) (use np qt in \<open>simp_all add: u_def same_keys_def\<close>)
  moreover have "sem_ok (u\<lparr>queuetab := qt\<rparr>) ?L j" if j: "0 \<le> j" "j < NSEM" for j
  proof (cases "j = i")
    case True
    have "length (us @ vs) = nat (- scount (semtab s i) - 1)" using cnt(1) by simp
    then show ?thesis using True so(4) u su cnt(2) by (simp add: sem_ok_def u_def)
  next
    case False
    then have "semq s j \<noteq> ?q" using kinv0D(11)[OF k0 j i] by blast
    then show ?thesis using semq_ok(4)[OF m j] False su by (simp add: sem_ok_def u_def)
  qed
  ultimately show ?thesis using qt(1,3) inc by (auto simp: sems_ok_def)
qed

definition killed :: "kst \<Rightarrow> int \<Rightarrow> kst \<Rightarrow> bool" where
  "killed s p t \<longleftrightarrow> prstate (proctab t p) = PR_FREE \<and>
     (\<forall>x. x \<noteq> p \<longrightarrow> proctab t x = proctab s x) \<and> currpid t = currpid s \<and> (\<exists>L. kok t L)"

lemma killed_free:
  assumes "kok (set_state p PR_FREE t) L" "proctab t = proctab s" "currpid t = currpid s"
  shows "killed s p (set_state p PR_FREE t)"
  using assms by (auto simp: killed_def)

text \<open>The second half of kill, for a process that is not the caller.\<close>

lemma kill_other:
  assumes k: "kok s L" and p: "0 \<le> p" "p < NPROC" "p \<noteq> NULLPROC" "p \<noteq> currpid s" "prstate (proctab s p) \<noteq> PR_FREE"
    and w: "prstate (proctab s p) = PR_WAIT \<Longrightarrow> sstate (semtab s (prsem (proctab s p))) = S_USED"
    and io: "\<And>d u. dvclose d u = Some (OK, u)"
    and st: "freestk (prstkbase (proctab s p)) (prstklen (proctab s p)) (heap s) = Some (r, h)"
  shows "\<exists>t. kill_rest dvclose p s = Some (Ret OK, t) \<and> killed s p t \<and> heap t = h \<and> prcount t = prcount s \<and>
    (\<forall>i. scount (semtab t i) = scount (semtab s i) +
       (if prstate (proctab s p) = PR_WAIT \<and> i = prsem (proctab s p) then 1 else 0)) \<and>
    (\<forall>i. sstate (semtab t i) = sstate (semtab s i))"
proof -
  let ?s = "s\<lparr>heap := h\<rparr>" and ?e = "proctab s p"
  have ks: "kok ?s L" using kok_frame(1)[OF k] .
  note m = kokD(1)[OF ks] and k0 = kokD(5)[OF ks]
  have cl: "close dvclose d u = Some (if isbaddev d then SYSERR else OK, u)" for d u
    by (simp add: close_def io)
  note kr = kill_rest_def[of dvclose p s] cl st
  have nb: "\<not> isbadpid ?s p" using p by (simp add: isbadpid_def)
  note cur = kokD(4)[OF ks] kokD(3)[OF ks] kmidD(3,4)[OF m]
  consider "prstate ?e = PR_READY" | "prstate ?e = PR_WAIT" | "prstate ?e = PR_SLEEP \<or> prstate ?e = PR_RECTIM"
    | "prstate ?e = PR_RECV \<or> prstate ?e = PR_SUSP"
    using p(4,5) kokD(4)[OF k] kinv0D(8)[OF kokD(5)[OF k]] p(1,2)
    by (cases "prstate ?e") (auto simp: procs_ok_def)
  then show ?thesis
  proof cases
    case 1
    obtain qt where qt: "getitem p ?s = Some (p, ?s\<lparr>queuetab := qt\<rparr>)" "same_keys (queuetab s) qt"
      "detached (?s\<lparr>queuetab := qt\<rparr>) (L(readylist s := remove1 p (L (readylist s)))) p"
      using detach_ready[OF ks p(1-3)] 1 by auto
    let ?L = "L(readylist s := remove1 p (L (readylist s)))" and ?u = "?s\<lparr>queuetab := qt\<rparr>"
    have "sems_ok ?u ?L" using sems_ok_cong[OF kmidD(2)[OF m], of ?u ?L] semq_ok(2)[OF m] by simp
    moreover have "sleep_ok ?u ?L"
      using kmidD(11)[OF m] kmidD(10)[OF m] qt(2) by (simp add: sleep_ok_def same_keys_def)
    ultimately have "kok (set_state p PR_FREE ?u) ?L"
      using freed_kok[OF qt(3) p(3)] cur by simp
    then have "killed s p (set_state p PR_FREE ?u)" using killed_free[of p ?u ?L s] by simp
    moreover have "kill_rest dvclose p s = Some (Ret OK, set_state p PR_FREE ?u)"
      using 1 qt(1) by (simp add: kr kill_queued_def kill_free_def)
    ultimately show ?thesis using 1 by (intro exI[of _ "set_state p PR_FREE ?u"]) simp
  next
    case 2
    let ?i = "prsem ?e"
    have pl: "placed ?s L p ?e" using kinv0D(6)[OF k0 p(1,2)] by simp
    then have i: "0 \<le> ?i" "?i < NSEM" "p \<in> set (L (semq ?s ?i))" using 2 by (auto simp: placed_def)
    obtain us vs where L: "L (semq ?s ?i) = us @ p # vs" using i(3) by (meson split_list)
    let ?u0 = "upd_sem ?i (\<lambda>e. e\<lparr>scount := scount e + 1\<rparr>) ?s" and ?L = "L(semq ?s ?i := us @ vs)"
    obtain qt where qt: "getitem p (sem_inc ?i ?s) = Some (p, ?u0\<lparr>queuetab := qt\<rparr>)" "same_keys (queuetab s) qt"
      "detached (?u0\<lparr>queuetab := qt\<rparr>) ?L p" "sems_ok (?u0\<lparr>queuetab := qt\<rparr>) ?L"
      using detach_waiting[OF ks i(1,2) L] w[OF 2] by auto
    let ?u = "?u0\<lparr>queuetab := qt\<rparr>"
    have "sleep_ok ?u ?L"
      using kmidD(11)[OF m] semq_ok(3)[OF m i(1,2), THEN not_sym] qt(2) by (simp add: sleep_ok_def same_keys_def)
    then have "kok (set_state p PR_FREE ?u) ?L"
      using freed_kok[OF qt(3) p(3) qt(4)] cur by simp
    then have "killed s p (set_state p PR_FREE ?u)" using killed_free[of p ?u ?L s] by simp
    moreover have "kill_rest dvclose p s = Some (Ret OK, set_state p PR_FREE ?u)"
      using 2 i qt(1) by (simp add: kr kill_queued_def kill_free_def not_isbadsem[symmetric] isbadsem_def)
    ultimately show ?thesis using 2 by (intro exI[of _ "set_state p PR_FREE ?u"]) simp
  next
    case 3
    have "p \<in> set (L (sleepq ?s))"
      using asleep_iff[OF k0 p(1,2)] 3 by (simp add: asleep_def)
    then obtain us vs where L: "L (sleepq ?s) = us @ p # vs" by (meson split_list)
    let ?L = "L(sleepq ?s := us @ vs)"
    obtain qt where qt: "unsleep p ?s = Some (OK, ?s\<lparr>queuetab := qt\<rparr>)" "detached (?s\<lparr>queuetab := qt\<rparr>) ?L p"
      "sleep_ok (?s\<lparr>queuetab := qt\<rparr>) ?L"
      using unsleep_ok[OF m L] p(4) by auto
    let ?u = "?s\<lparr>queuetab := qt\<rparr>"
    have "sems_ok ?u ?L" using sems_ok_cong[OF kmidD(2)[OF m], of ?u ?L] semq_ok(3)[OF m] by simp
    then have "kok (set_state p PR_FREE ?u) ?L" using freed_kok[OF qt(2) p(3) _ qt(3)] cur by simp
    then have "killed s p (set_state p PR_FREE ?u)" using killed_free[of p ?u ?L s] by simp
    moreover have "kill_rest dvclose p s = Some (Ret OK, set_state p PR_FREE ?u)"
      using 3 qt(1) by (auto simp: kr kill_sleeper_def kill_free_def)
    ultimately show ?thesis using 3 by (intro exI[of _ "set_state p PR_FREE ?u"]) auto
  next
    case 4
    have "detached ?s L p" using detach_off[OF k0 p(1,2)] 4 p(4) by auto
    then have "kok (set_state p PR_FREE ?s) L"
      using freed_kok[OF _ p(3) kmidD(2)[OF m] kmidD(11)[OF m]] cur by simp
    then have "killed s p (set_state p PR_FREE ?s)" using killed_free[of p ?s L s] by simp
    moreover have "kill_rest dvclose p s = Some (Ret OK, set_state p PR_FREE ?s)"
      using 4 by (auto simp: kr kill_free_def)
    ultimately show ?thesis using 4 by (intro exI[of _ "set_state p PR_FREE ?s"]) auto
  qed
qed

text \<open>The second half of kill, for the caller itself: it gives up the processor and its table entry
  is free; the line after the call of resched is never reached.\<close>

lemma kill_self:
  assumes k: "kok s L" and nn: "currpid s \<noteq> NULLPROC"
    and io: "\<And>d u. dvclose d u = Some (OK, u)"
    and st: "freestk (prstkbase (proctab s (currpid s))) (prstklen (proctab s (currpid s))) (heap s) = Some (r, h)"
  shows "\<exists>t L'. kill_rest dvclose (currpid s) s = Some (Blocked, t) \<and> kok t L' \<and> heap t = h \<and>
    currpid t \<noteq> currpid s \<and> prstate (proctab t (currpid s)) = PR_FREE \<and> semtab t = semtab s \<and>
    (\<forall>x. x \<noteq> currpid s \<and> prstate (proctab s x) \<notin> {PR_CURR, PR_READY} \<longrightarrow>
       prstate (proctab t x) = prstate (proctab s x))"
proof -
  let ?s = "s\<lparr>heap := h\<rparr>" and ?c = "currpid s"
  let ?u = "set_state ?c PR_FREE ?s"
  have ks: "kok ?s L" using kok_frame(1)[OF k] .
  note m = kokD(1)[OF ks]
  have cl: "close dvclose d u = Some (if isbaddev d then SYSERR else OK, u)" for d u
    by (simp add: close_def io)
  have "kmid (set_state ?c PR_SUSP ?s) L" using block_off[OF ks, of PR_SUSP] nn by simp
  then have "kinv0 (set_state ?c PR_FREE ?s) L"
    using kinv0_freed[OF kmidD(1)] kmidD(6,7)[OF m] nn by simp
  moreover have "sems_ok ?u L" using sems_ok_cong[OF kmidD(2)[OF m]] by simp
  moreover have "sleep_ok ?u L" using kmidD(11)[OF m] by (simp add: sleep_ok_def)
  ultimately have u: "kmid ?u L" using kmidD(3,4)[OF m] by (simp add: kmid_def)
  obtain t where t: "resched ?u = Some t" "kok t (resched_L ?u L)" "sched_eq ?u t"
    "currpid t = resched_pid ?u L" "\<And>p. prstate (proctab t p) = resched_state ?u L p"
    using resched_kok[OF u] kokD(3)[OF k] by auto
  have nc: "currpid t \<noteq> ?c" using resched_blocked[OF u _ t(4)] by simp
  have "kill_rest dvclose ?c s = Some (Blocked, t)"
    using t(1) nc kokD(4)[OF k] by (simp add: kill_rest_def cl st)
  moreover have "prstate (proctab t ?c) = PR_FREE" using t(4,5) nc by (simp add: resched_state_def)
  moreover have "prstate (proctab t x) = prstate (proctab s x)"
    if "x \<noteq> ?c" "prstate (proctab s x) \<notin> {PR_CURR, PR_READY}" for x
  proof -
    have "x \<noteq> resched_pid ?u L" using resched_pid_state[OF kmidD(1)[OF u]] that by auto
    then show ?thesis using t(5)[of x] that(1) by (simp add: resched_state_def)
  qed
  ultimately show ?thesis using t(2) nc sched_eqD(6,10)[OF t(3)] by auto
qed

text \<open>kill as a whole: the parent is told, and is not woken because it does not wait for a
  message.\<close>

lemma kill_tells_parent:
  assumes k: "kok s L" and p: "0 \<le> p" "p < NPROC" "p \<noteq> NULLPROC" "prstate (proctab s p) \<noteq> PR_FREE"
    and pc: "2 < prcount s" "prcount s \<le> INT_MAX"
    and pr: "prstate (proctab s (prparent (proctab s p))) \<notin> {PR_RECV, PR_RECTIM} \<or>
      isbadpid s (prparent (proctab s p)) \<or> prhasmsg (proctab s (prparent (proctab s p)))"
  shows "\<exists>u. kill dvclose p s = kill_rest dvclose p u \<and> kok u L \<and> currpid u = currpid s \<and>
    heap u = heap s \<and> prcount u = prcount s - 1 \<and> semtab u = semtab s \<and>
    u = (s\<lparr>prcount := prcount s - 1\<rparr>)\<lparr>proctab := proctab u\<rparr> \<and>
    (\<forall>x. (proctab u x)\<lparr>prmsg := 0, prhasmsg := False\<rparr> = (proctab s x)\<lparr>prmsg := 0, prhasmsg := False\<rparr>) \<and>
    (\<forall>x. x \<noteq> prparent (proctab s p) \<longrightarrow> proctab u x = proctab s x) \<and>
    (\<not> isbadpid s (prparent (proctab s p)) \<longrightarrow> prhasmsg (proctab u (prparent (proctab s p))))"
proof -
  let ?s = "s\<lparr>prcount := prcount s - 1\<rparr>" and ?a = "prparent (proctab s p)"
  have ks: "kok ?s L" using kok_frame(2)[OF k] .
  have bad: "isbadpid ?s = isbadpid s" by (simp add: isbadpid_def fun_eq_iff)
  have i: "i32 (prcount s - 1) = prcount s - 1" using pc by (simp add: i32_id)
  show ?thesis
  proof (cases "isbadpid s ?a \<or> prhasmsg (proctab s ?a)")
    case True
    then have "send ?a p ?s = Some (SYSERR, ?s)" using send_full[of ?s ?a] bad by simp
    then have "kill dvclose p s = kill_rest dvclose p ?s"
      using p pc i by (simp add: kill_def isbadpid_def)
    then show ?thesis using ks True by (intro exI[of _ ?s]) auto
  next
    case False
    then have "send ?a p ?s = Some (OK, deposit ?a p ?s)" "kok (deposit ?a p ?s) L"
      using send_stores[OF ks, of ?a p] pr bad by auto
    moreover from this have "kill dvclose p s = kill_rest dvclose p (deposit ?a p ?s)"
      using p pc i by (simp add: kill_def isbadpid_def)
    moreover have "heap (deposit ?a p ?s) = heap s" "prcount (deposit ?a p ?s) = prcount s - 1"
      by (simp_all add: deposit_def)
    ultimately show ?thesis
      by (intro exI[of _ "deposit ?a p ?s"]) (auto simp: deposit_def table_updates)
  qed
qed

end
