(* ===== verification/Kernel_Demo.thy ===== *)
theory Kernel_Demo
  imports Proc_Kill
begin

text \<open>
  A concrete state of the running kernel, with a process in every state of the process table: it
  satisfies the kernel invariant, so the contracts of the system calls apply to it.
\<close>

section \<open>The state\<close>

definition demo_state :: "int \<Rightarrow> prstate_t" where
  "demo_state p = (if p = 0 then PR_READY else if p = 1 then PR_CURR else if p = 2 then PR_WAIT
     else if p = 3 then PR_RECV else if p = 4 then PR_SLEEP else if p = 5 then PR_SUSP
     else if p = 6 then PR_READY else if p = 7 then PR_RECTIM else PR_FREE)"

definition demo_prio :: "int \<Rightarrow> int" where
  "demo_prio p = (if p = 0 then 0 else if p = 1 then 30 else if p = 6 then 25 else 20)"

definition demo_proc :: "int \<Rightarrow> procent" where
  "demo_proc p = \<lparr>prstate = demo_state p, prprio = demo_prio p, prstkptr = 0,
     prstkbase = 12684 + 400 * p, prstklen = 400, prname = ''demo'', prsem = (if p = 2 then 0 else -1),
     prparent = 0, prmsg = 0, prhasmsg = False, prdesc = (\<lambda>_. SERIAL0)\<rparr>"

definition bare_queues :: "int \<Rightarrow> qentry" where
  "bare_queues i = (if i < NPROC then \<lparr>qkey = 0, qnext = EMPTY, qprev = EMPTY\<rparr>
     else if even i then \<lparr>qkey = MAXKEY, qnext = i + 1, qprev = EMPTY\<rparr>
     else \<lparr>qkey = MINKEY, qnext = EMPTY, qprev = i - 1\<rparr>)"

text \<open>Process 2 waits on semaphore 0 (queue 100), processes 6 and 0 are ready (queue 300),
  processes 4 and 7 sleep (queue 302).\<close>

definition demo_queues :: "int \<Rightarrow> qentry" where
  "demo_queues = bare_queues(
     100 := \<lparr>qkey = MAXKEY, qnext = 2, qprev = EMPTY\<rparr>,
     2 := \<lparr>qkey = 0, qnext = 101, qprev = 100\<rparr>,
     101 := \<lparr>qkey = MINKEY, qnext = EMPTY, qprev = 2\<rparr>,
     300 := \<lparr>qkey = MAXKEY, qnext = 6, qprev = EMPTY\<rparr>,
     6 := \<lparr>qkey = 25, qnext = 0, qprev = 300\<rparr>,
     0 := \<lparr>qkey = 0, qnext = 301, qprev = 6\<rparr>,
     301 := \<lparr>qkey = MINKEY, qnext = EMPTY, qprev = 0\<rparr>,
     302 := \<lparr>qkey = MAXKEY, qnext = 4, qprev = EMPTY\<rparr>,
     4 := \<lparr>qkey = 5, qnext = 7, qprev = 302\<rparr>,
     7 := \<lparr>qkey = 3, qnext = 303, qprev = 4\<rparr>,
     303 := \<lparr>qkey = MINKEY, qnext = EMPTY, qprev = 7\<rparr>)"

definition demo_sem :: "int \<Rightarrow> sentry" where
  "demo_sem i = \<lparr>sstate = (if i = 0 \<or> i = 1 then S_USED else S_FREE),
     scount = (if i = 0 then -1 else if i = 1 then 2 else 0), squeue = 100 + 2 * i\<rparr>"

text \<open>One free block [4096, 12288) at the bottom of the heap, the stacks above it.\<close>

definition demo_heap :: hst where
  "demo_heap = \<lparr>mem = (\<lambda>_. 0)(8 := 4096, 4096 := 0, 4100 := 8192), memlist = 8,
     minheap = 4096, maxheap = 65536\<rparr>"

definition demo :: kst where
  "demo = \<lparr>queuetab = demo_queues, nextqid = 304, proctab = demo_proc, nextpid = 8, prcount = 8,
     currpid = 1, readylist = 300, sleepq = 302, preempt = 2, Defer = \<lparr>ndefers = 0, attempt = False\<rparr>,
     semtab = demo_sem, nextsem = 2, clktime = 0, clkticks = 0, heap = demo_heap, halted = False,
     buftab = (\<lambda>_. \<lparr>bpnext = 0, bpsem = 0, bpsize = 0\<rparr>), nbpools = 0,
     porttab = (\<lambda>_. \<lparr>ptssem = 0, ptrsem = 0, ptstate = PT_FREE, ptmaxcnt = 0, ptseq = 0, pthead = 0, pttail = 0\<rparr>),
     ptfree = 0, ptnextid = 0, marks = (\<lambda>_. 0), nmarks = 0, mkmutex = 0\<rparr>"

definition demo_lists :: "int \<Rightarrow> int list" where
  "demo_lists = (\<lambda>_. [])(100 := [2], 300 := [6, 0], 302 := [4, 7])"

lemma demo_simps [simp]:
  "queuetab demo = demo_queues" "nextqid demo = 304" "proctab demo = demo_proc" "currpid demo = 1"
  "readylist demo = 300" "sleepq demo = 302" "Defer demo = \<lparr>ndefers = 0, attempt = False\<rparr>"
  "semtab demo = demo_sem" "nextsem demo = 2" "heap demo = demo_heap" "prcount demo = 8" "nextpid demo = 8"
  by (simp_all add: demo_def)

lemma demo_semq [simp]: "semq demo i = 100 + 2 * i"
  by (simp add: semq_def demo_sem_def)

section \<open>The invariant\<close>

lemma demo_queues_frame: "i \<notin> {0, 2, 4, 6, 7, 100, 101, 300, 301, 302, 303} \<Longrightarrow> demo_queues i = bare_queues i"
  by (simp add: demo_queues_def)

lemma demo_lists_frame: "q \<notin> {100, 300, 302} \<Longrightarrow> demo_lists q = []"
  by (simp add: demo_lists_def)

lemma demo_is_queue:
  assumes "qid_ok 304 q"
  shows "is_queue demo_queues q (demo_lists q)"
proof -
  have q: "100 \<le> q" "q < 304" "even q" using assms by (auto simp: qid_ok_def NPROC_def)
  show ?thesis
  proof (cases "q \<in> {100, 300, 302}")
    case True
    then show ?thesis
      by (auto simp: is_queue_def demo_lists_def demo_queues_def xinu_sizes)
  next
    case False
    then have "q \<notin> {101, 301, 303}" "q + 1 \<notin> {100, 101, 300, 301, 302, 303}" using q by auto
    then have "demo_queues q = bare_queues q" "demo_queues (q + 1) = bare_queues (q + 1)"
      using False q by (auto intro!: demo_queues_frame)
    then show ?thesis using False q by (simp add: is_queue_def demo_lists_frame bare_queues_def xinu_sizes)
  qed
qed

lemma demo_placed:
  assumes "0 \<le> p" "p < NPROC"
  shows "placed demo demo_lists p (demo_proc p)"
proof -
  have w: "p \<in> set (demo_lists (100 + 2 * i)) \<longleftrightarrow> demo_state p = PR_WAIT \<and> prsem (demo_proc p) = i"
    if "0 \<le> i" "i < NSEM" for i
  proof (cases "i = 0")
    case True
    then show ?thesis by (simp add: demo_lists_def demo_state_def demo_proc_def)
  next
    case False
    then have "demo_lists (100 + 2 * i) = []" using that by (intro demo_lists_frame) (auto simp: NSEM_def)
    then show ?thesis using False by (simp add: demo_state_def demo_proc_def)
  qed
  have s: "prstate (demo_proc p) = demo_state p" by (simp add: demo_proc_def)
  show ?thesis
    unfolding placed_def using w s
    by (auto simp: demo_lists_def demo_state_def demo_proc_def NSEM_def)
qed

lemma demo_kok: "kok demo demo_lists"
proof -
  have "queues_wf demo_queues 304 demo_lists"
    unfolding queues_wf_def using demo_is_queue
    by (auto simp: xinu_sizes demo_lists_def)
  moreover have "tables_ok demo"
    by (auto simp: tables_ok_def qid_ok_def xinu_sizes)
  moreover have "queues_used demo demo_lists"
    unfolding queues_used_def by (auto simp: demo_lists_def xinu_sizes intro: exI[of _ 0])
  moreover have "desc (\<lambda>x. qkey (demo_queues x)) (demo_lists 300)"
    by (simp add: desc_def demo_lists_def demo_queues_def)
  moreover have "procs_ok demo"
    by (auto simp: procs_ok_def demo_proc_def demo_prio_def demo_state_def xinu_sizes NULLPROC_def split: if_splits)
  ultimately have "kinv0 demo demo_lists" using demo_placed by (simp add: kinv0_def)
  moreover have "sems_ok demo demo_lists"
  proof -
    have "demo_lists (100 + 2 * i) = (if i = 0 then [2] else [])" if "0 \<le> i" "i < NSEM" for i
      using that by (auto simp: demo_lists_def NSEM_def)
    then show ?thesis by (simp add: sems_ok_def sem_ok_def) (simp add: demo_sem_def)
  qed
  moreover have "sleep_ok demo demo_lists"
    by (simp add: sleep_ok_def delays_ok_def demo_lists_def demo_queues_def)
  ultimately show ?thesis
    by (simp add: kok_def kmid_def NSEM_def demo_proc_def demo_state_def)
qed

lemma demo_procs:
  "demo_state 0 = PR_READY" "demo_state 1 = PR_CURR" "demo_state 2 = PR_WAIT" "demo_state 3 = PR_RECV"
  "demo_state 4 = PR_SLEEP" "demo_state 5 = PR_SUSP" "demo_state 6 = PR_READY" "demo_state 7 = PR_RECTIM"
  "8 \<le> p \<Longrightarrow> demo_state p = PR_FREE"
  by (simp_all add: demo_state_def)

lemma demo_entry [simp]:
  "prstate (demo_proc p) = demo_state p" "prhasmsg (demo_proc p) = False" "prprio (demo_proc p) = demo_prio p"
  "prparent (demo_proc p) = 0" "prstklen (demo_proc p) = 400" "prstkbase (demo_proc p) = 12684 + 400 * p"
  by (simp_all add: demo_proc_def)

lemma demo_heap_wf: "heap_wf demo_heap [(4096, 8192)]"
  by (simp add: heap_wf_def arena_ok_def demo_heap_def mnext_def mlength_def NULL_def)

lemma demo_heap_holds: "heap_holds 4096 65536 demo_heap {4096..<12288}"
proof -
  have "avail [(4096, 8192)] = {4096..<12288}" by (simp add: avail_def span_def)
  then show ?thesis using demo_heap_wf by (auto simp: heap_holds_def demo_heap_def)
qed

end
