(* ===== verification/Heap_Trip.thy ===== *)
theory Heap_Trip
  imports Heap_Alloc
begin

text \<open>
  The free list is determined by the addresses that are free, so freeing what was just allocated
  restores the list.
\<close>

lemma avail_head:
  assumes "blocks_ok lo hi ((a, l) # bs)"
  shows "a \<in> avail ((a, l) # bs)" "x \<in> avail ((a, l) # bs) \<Longrightarrow> a \<le> x"
    "a + l \<notin> avail ((a, l) # bs)" "avail ((a, l) # bs) - {a..<a + l} = avail bs"
    "a \<le> x \<Longrightarrow> x < a + l \<Longrightarrow> x \<in> avail ((a, l) # bs)"
  using assms avail_range[of "a + l + 1" hi bs] by (auto simp: span_def)

lemma blocks_unique:
  assumes "blocks_ok lo hi bs" "blocks_ok lo' hi' cs" "avail bs = avail cs"
  shows "bs = cs"
  using assms
proof (induction lo hi bs arbitrary: lo' cs rule: blocks_ok.induct)
  case (1 lo hi)
  then show ?case
  proof (cases cs)
    case (Cons c cs')
    then show ?thesis using 1 avail_head(1)[of lo' hi' "fst c" "snd c" cs'] by simp
  qed simp
next
  case (2 lo hi a l bs)
  obtain b m cs' where cs: "cs = (b, m) # cs'"
    using 2(4) avail_head(1)[OF 2(2)] by (cases cs) auto
  note c = 2(3)[unfolded cs]
  have ab: "a = b"
    using avail_head(1,2)[OF 2(2)] avail_head(1,2)[OF c] 2(4) cs by (metis order_antisym)
  have "\<not> l < m" using avail_head(3)[OF 2(2)] avail_head(5)[OF c, of "a + l"] 2(2,4) ab cs by auto
  moreover have "\<not> m < l" using avail_head(3)[OF c] avail_head(5)[OF 2(2), of "b + m"] c 2(4) ab cs by auto
  ultimately have lm: "l = m" by simp
  have "avail bs = avail cs'" using avail_head(4)[OF 2(2)] avail_head(4)[OF c] 2(4) ab lm cs by metis
  moreover have "blocks_ok (a + l + 1) hi bs" "blocks_ok (a + l + 1) hi' cs'"
    using 2(2) c ab lm by simp_all
  ultimately show ?case using 2(1) ab lm cs by blast
qed

lemma heap_holds_unique:
  assumes "heap_wf h bs" "heap_wf h' cs" "avail bs = avail cs"
  shows "bs = cs"
  using blocks_unique assms by (auto simp: heap_wf_def)

lemma heap_trip:
  assumes h: "heap_wf h bs" and n: "0 < n" "n \<le> 4294967288"
    and a: "heap_alloc k n h = Some (r, h')" "r \<noteq> u32 SYSERR"
  shows "\<exists>h''. heap_release k r n h' = Some (OK, h'') \<and> heap_wf h'' bs"
proof -
  have hh: "heap_holds (minheap h) (maxheap h) h (avail bs)" using h by (auto simp: heap_holds_def)
  have sz: "heap_size_ok n" using n by (simp add: heap_size_ok_def)
  have u: "heap_usable (minheap h) (maxheap h) k r n" "heap_region k r n \<subseteq> avail bs"
    "heap_holds (minheap h) (maxheap h) h' (avail bs - heap_region k r n)"
    using heap_alloc_law[OF hh sz, of k] a by auto
  obtain x h'' where x: "heap_release k r n h' = Some (x, h'')"
    "x = OK" "heap_holds (minheap h) (maxheap h) h'' (avail bs - heap_region k r n \<union> heap_region k r n)"
    using heap_release_law[OF u(3) sz u(1)] by auto
  moreover have "avail bs - heap_region k r n \<union> heap_region k r n = avail bs" using u(2) by blast
  ultimately obtain cs where cs: "heap_wf h'' cs" "avail cs = avail bs" by (auto simp: heap_holds_def)
  have "cs = bs" using heap_holds_unique[OF cs(1) h cs(2)] .
  then show ?thesis using x cs(1) by blast
qed

end
