(* ===== verification/Boot.thy ===== *)
theory Boot
  imports Proc_Kill Heap_Trip
begin

text \<open>
  System start-up: sysinit brings the tables from their static initial values to a state that
  satisfies the kernel invariant, with the null process running and every queue empty.
\<close>

definition boot_tables :: "kst \<Rightarrow> int \<Rightarrow> kst \<Rightarrow> bool" where
  "boot_tables s i t \<longleftrightarrow> 0 \<le> i \<and> i \<le> NSEM \<and> nextqid t = NPROC + 2 * i \<and>
     queues_wf (queuetab t) (nextqid t) (\<lambda>_. []) \<and>
     (\<forall>j. 0 \<le> j \<and> j < i \<longrightarrow> semtab t j = \<lparr>sstate = S_FREE, scount = 0, squeue = NPROC + 2 * j\<rparr>) \<and>
     t = s\<lparr>queuetab := queuetab t, nextqid := nextqid t, semtab := semtab t\<rparr>"

lemma newqueue_empty:
  assumes "queues_wf (queuetab s) (nextqid s) (\<lambda>_. [])" "nextqid s < NQENT"
  shows "\<exists>qt. newqueue s = Some (nextqid s, s\<lparr>nextqid := nextqid s + 2, queuetab := qt\<rparr>) \<and>
    queues_wf qt (nextqid s + 2) (\<lambda>_. [])"
proof -
  have "(\<lambda>_. [])(nextqid s := []) = (\<lambda>_. [] :: int list)" by auto
  then show ?thesis using newqueue_wf[OF assms] by auto
qed

lemma init_sem_step:
  assumes "boot_tables s i t" "i < NSEM"
  shows "\<exists>u. init_sem (i, t) = Some (i + 1, u) \<and> boot_tables s (i + 1) u"
proof -
  let ?t = "upd_sem i (\<lambda>e. e\<lparr>sstate := S_FREE, scount := 0\<rparr>) t"
  note b = assms(1)[unfolded boot_tables_def]
  have "nextqid t < NQENT" using b assms(2) by (simp add: xinu_sizes)
  then obtain qt where qt: "newqueue ?t = Some (nextqid t, ?t\<lparr>nextqid := nextqid t + 2, queuetab := qt\<rparr>)"
    "queues_wf qt (nextqid t + 2) (\<lambda>_. [])"
    using newqueue_empty[of ?t] b by auto
  let ?u = "upd_sem i (\<lambda>e. e\<lparr>squeue := nextqid t\<rparr>) (?t\<lparr>nextqid := nextqid t + 2, queuetab := qt\<rparr>)"
  have u: "init_sem (i, t) = Some (i + 1, ?u)" using qt(1) by (simp add: init_sem_def)
  have "semtab ?u i = \<lparr>sstate = S_FREE, scount = 0, squeue = NPROC + 2 * i\<rparr>"
    using b by simp
  moreover have "semtab ?u j = semtab t j" if "j < i" for j using that by simp
  moreover have "?u = s\<lparr>queuetab := queuetab ?u, nextqid := nextqid ?u, semtab := semtab ?u\<rparr>"
  proof -
    have t: "t = s\<lparr>queuetab := queuetab t, nextqid := nextqid t, semtab := semtab t\<rparr>" using b by blast
    show ?thesis by (subst (1) t) (simp add: table_updates)
  qed
  ultimately have "boot_tables s (i + 1) ?u"
    using b assms(2) qt(2) unfolding boot_tables_def
    by (auto simp: zless_add1_eq)
  then show ?thesis using u by blast
qed

lemma init_sems:
  assumes "boot_tables s 0 s"
  shows "\<exists>t. c_while (\<lambda>(i, s). i < NSEM) init_sem (0, s) = Some (NSEM, t) \<and> boot_tables s NSEM t"
proof -
  have "\<exists>r. c_while (\<lambda>(i, s). i < NSEM) init_sem (0, s) = Some r \<and> boot_tables s (fst r) (snd r) \<and>
      \<not> (case r of (i, s) \<Rightarrow> i < NSEM)"
  proof (rule c_while_total[where P = "\<lambda>r. boot_tables s (fst r) (snd r)" and m = "\<lambda>r. nat (NSEM - fst r)"])
    show "boot_tables s (fst (0, s)) (snd (0, s))" using assms by simp
    fix r assume r: "boot_tables s (fst r) (snd r)" "case r of (i, s) \<Rightarrow> i < NSEM"
    then obtain u where "init_sem (fst r, snd r) = Some (fst r + 1, u)" "boot_tables s (fst r + 1) u"
      using init_sem_step[of s "fst r" "snd r"] by auto
    then show "\<exists>t. init_sem r = Some t \<and> boot_tables s (fst t) (snd t) \<and> nat (NSEM - fst t) < nat (NSEM - fst r)"
      using r(2) by (auto simp: split_beta)
  qed
  then obtain r where r: "c_while (\<lambda>(i, s). i < NSEM) init_sem (0, s) = Some r"
    "boot_tables s (fst r) (snd r)" "\<not> fst r < NSEM" by (auto simp: split_beta)
  then have "fst r = NSEM" by (simp add: boot_tables_def)
  then show ?thesis using r(1,2) by (metis prod.collapse)
qed

definition boot_proc :: "int \<Rightarrow> procent \<Rightarrow> procent" where
  "boot_proc stk e = e\<lparr>prstate := PR_CURR, prprio := 0, prname := ''prnull'', prstkbase := stk,
     prstklen := NULLSTK, prstkptr := 0\<rparr>"

lemma boot_kok:
  assumes wf: "queues_wf (queuetab t) (nextqid t) (\<lambda>_. [])" "nextqid t = NPROC + 2 * NSEM + 4"
    and rl: "readylist t = NPROC + 2 * NSEM" "sleepq t = NPROC + 2 * NSEM + 2"
    and sm: "\<And>j. 0 \<le> j \<Longrightarrow> j < NSEM \<Longrightarrow> semtab t j = \<lparr>sstate = S_FREE, scount = 0, squeue = NPROC + 2 * j\<rparr>"
    and pt: "prstate (proctab t 0) = PR_CURR" "prprio (proctab t 0) = 0"
      "\<And>p. 0 < p \<Longrightarrow> p < NPROC \<Longrightarrow> prstate (proctab t p) = PR_FREE \<and> prprio (proctab t p) = 0"
    and c: "currpid t = NULLPROC" "ndefers (Defer t) = 0" "nextsem t = 0"
  shows "kok t (\<lambda>_. [])"
proof -
  have sq: "semq t i = NPROC + 2 * i" if "0 \<le> i" "i < NSEM" for i using sm that by (simp add: semq_def)
  have pr: "prprio (proctab t p) = 0" "prstate (proctab t p) = (if p = 0 then PR_CURR else PR_FREE)"
    if "0 \<le> p" "p < NPROC" for p using pt that by (cases "p = 0"; force)+
  have "tables_ok t" using wf(2) rl sq by (auto simp: tables_ok_def qid_ok_def xinu_sizes)
  moreover have "placed t (\<lambda>_. []) p (proctab t p)" if "0 \<le> p" "p < NPROC" for p
    using pr[OF that] by (simp add: placed_def)
  moreover have "procs_ok t" using pr c(1) by (auto simp: procs_ok_def NULLPROC_def NPROC_def split: if_splits)
  ultimately have "kinv0 t (\<lambda>_. [])" using wf(1) by (simp add: kinv0_def queues_used_def desc_def)
  moreover have "sems_ok t (\<lambda>_. [])" using sm by (simp add: sems_ok_def sem_ok_def)
  ultimately show ?thesis
    using c pt(1) by (simp add: kok_def kmid_def sleep_ok_def delays_ok_def NSEM_def NULLPROC_def)
qed

lemma meminit_wf:
  assumes a: "0 < memlist h" "memlist h + 8 \<le> lo" "lo + 8 \<le> hi" "hi < 4294967296" "lo mod 8 = 0" "hi mod 8 = 0"
  shows "heap_wf (meminit lo hi h) [(lo, hi - lo)]" "minheap (meminit lo hi h) = lo"
    "maxheap (meminit lo hi h) = hi" "memlist (meminit lo hi h) = memlist h"
proof -
  have d: "(hi - lo) mod 8 = 0" using mult8_diff[OF a(6,5)] .
  show "heap_wf (meminit lo hi h) [(lo, hi - lo)]" "minheap (meminit lo hi h) = lo"
    "maxheap (meminit lo hi h) = hi" "memlist (meminit lo hi h) = memlist h"
    using a d by (simp_all add: heap_wf_def arena_ok_def meminit_def Let_def set_mnext_def set_mlength_def
        mnext_def mlength_def u32_id)
qed


lemma carve_top_one: "n < l \<Longrightarrow> carve_top n [(a, l)] = Some (a + l - n, [(a, l - n)])"
  by simp

lemma boot_stack:
  assumes a: "0 < memlist h" "memlist h + 8 \<le> lo" "lo + 16384 \<le> hi" "hi < 4294967296" "lo mod 8 = 0" "hi mod 8 = 0"
  shows "\<exists>h'. getstk NULLSTK (meminit lo hi h) = Some (hi - 4, h') \<and> heap_holds lo hi h' {lo..<hi - NULLSTK}"
proof -
  have wf: "heap_wf (meminit lo hi h) [(lo, hi - lo)]" "minheap (meminit lo hi h) = lo" "maxheap (meminit lo hi h) = hi"
    using meminit_wf[of h lo hi] a by auto
  have r: "roundmb NULLSTK = 8192" by (simp add: roundmb_def NULLSTK_def u32_def)
  have c: "carve_top 8192 [(lo, hi - lo)] = Some (hi - 8192, [(lo, hi - lo - 8192)])"
    using carve_top_one[of 8192 "hi - lo" lo] a(3) by simp
  obtain h' where h': "getstk NULLSTK (meminit lo hi h) = Some (hi - 8192 + 8192 - 4, h')"
    "heap_wf h' [(lo, hi - lo - 8192)]" "minheap h' = lo" "maxheap h' = hi"
    using getstk_refines(2)[OF wf(1) _ _ c[folded r]] r wf(2,3) by (auto simp: NULLSTK_def)
  have "avail [(lo, hi - lo - 8192)] = {lo..<hi - NULLSTK}" by (simp add: avail_def span_def NULLSTK_def)
  then show ?thesis using h' by (auto simp: heap_holds_def)
qed

lemma free_procs_simps [simp]:
  "0 \<le> p \<Longrightarrow> p < NPROC \<Longrightarrow> free_procs pt p = (pt p)\<lparr>prstate := PR_FREE, prname := [], prstkbase := NULL, prprio := 0\<rparr>"
  by (simp add: free_procs_def)

lemma sysinit_ok:
  assumes a: "0 < memlist (heap s)" "memlist (heap s) + 8 \<le> lo" "lo + 16384 \<le> hi" "hi < 4294967296"
      "lo mod 8 = 0" "hi mod 8 = 0"
    and st: "nextqid s = NPROC" "nextsem s = 0"
  shows "\<exists>t. sysinit lo hi s = Some t \<and> kok t (\<lambda>_. []) \<and> currpid t = NULLPROC \<and> prcount t = 1 \<and>
    (\<forall>p. 0 < p \<and> p < NPROC \<longrightarrow> prstate (proctab t p) = PR_FREE) \<and>
    (\<forall>i. 0 \<le> i \<and> i < NSEM \<longrightarrow> sstate (semtab t i) = S_FREE) \<and>
    prprio (proctab t NULLPROC) = 0 \<and> heap_holds lo hi (heap t) {lo..<hi - NULLSTK} \<and> clktime t = 0"
proof -
  obtain h' where h': "getstk NULLSTK (meminit lo hi (heap s)) = Some (hi - 4, h')"
    "heap_holds lo hi h' {lo..<hi - NULLSTK}"
    using boot_stack[OF a] by blast
  define s1 where "s1 = upd_proc NULLPROC (\<lambda>e. e\<lparr>prstate := PR_CURR, prprio := 0, prname := ''prnull''\<rparr>)
    (s\<lparr>heap := meminit lo hi (heap s), prcount := 1, Defer := (Defer s)\<lparr>ndefers := 0\<rparr>, proctab := free_procs (proctab s)\<rparr>)"
  define s2 where "s2 = (upd_proc NULLPROC (\<lambda>e. e\<lparr>prstkbase := hi - 4, prstklen := NULLSTK, prstkptr := 0\<rparr>)
    (s1\<lparr>heap := h'\<rparr>))\<lparr>currpid := NULLPROC\<rparr>"
  have "boot_tables s2 0 s2"
    using st by (auto simp: boot_tables_def s2_def s1_def xinu_sizes queues_wf_def qid_ok_def)
  then obtain s3 where s3: "c_while (\<lambda>(i, s). i < NSEM) init_sem (0, s2) = Some (NSEM, s3)" "boot_tables s2 NSEM s3"
    using init_sems by blast
  note b = s3(2)[unfolded boot_tables_def]
  let ?s4 = "s3\<lparr>nbpools := 0\<rparr>"
  have n3: "nextqid s3 = NPROC + 2 * NSEM" using b by blast
  obtain q1 where q1: "newqueue ?s4 = Some (nextqid s3, ?s4\<lparr>nextqid := nextqid s3 + 2, queuetab := q1\<rparr>)"
    "queues_wf q1 (nextqid s3 + 2) (\<lambda>_. [])"
    using newqueue_empty[of ?s4] b n3 by (auto simp: xinu_sizes)
  let ?s5 = "?s4\<lparr>nextqid := nextqid s3 + 2, queuetab := q1, readylist := nextqid s3\<rparr>"
  obtain q2 where q2: "newqueue ?s5 = Some (nextqid s3 + 2, ?s5\<lparr>nextqid := nextqid s3 + 4, queuetab := q2\<rparr>)"
    "queues_wf q2 (nextqid s3 + 4) (\<lambda>_. [])"
    using newqueue_empty[of ?s5] q1(2) n3 by (auto simp: xinu_sizes)
  define t where "t = (?s5\<lparr>nextqid := nextqid s3 + 4, queuetab := q2\<rparr>)\<lparr>sleepq := nextqid s3 + 2, preempt := QUANTUM, clktime := 0\<rparr>"
  have run: "sysinit lo hi s = Some t"
    unfolding sysinit_def using h'(1) s3(1)[unfolded s2_def s1_def] q1(1) q2(1)
    by (simp add: Let_def bufinit_def clkinit_def t_def)
  have f3: "proctab s3 = proctab s2" "currpid s3 = currpid s2" "Defer s3 = Defer s2" "nextsem s3 = nextsem s2"
    "heap s3 = heap s2" "prcount s3 = prcount s2"
    using arg_cong[OF conjunct2[OF conjunct2[OF conjunct2[OF conjunct2[OF conjunct2[OF b]]]]], of proctab]
      arg_cong[OF conjunct2[OF conjunct2[OF conjunct2[OF conjunct2[OF conjunct2[OF b]]]]], of currpid]
      arg_cong[OF conjunct2[OF conjunct2[OF conjunct2[OF conjunct2[OF conjunct2[OF b]]]]], of Defer]
      arg_cong[OF conjunct2[OF conjunct2[OF conjunct2[OF conjunct2[OF conjunct2[OF b]]]]], of nextsem]
      arg_cong[OF conjunct2[OF conjunct2[OF conjunct2[OF conjunct2[OF conjunct2[OF b]]]]], of heap]
      arg_cong[OF conjunct2[OF conjunct2[OF conjunct2[OF conjunct2[OF conjunct2[OF b]]]]], of prcount]
    by simp_all
  have pt: "prstate (proctab t 0) = PR_CURR" "prprio (proctab t 0) = 0"
    "\<And>p. 0 < p \<Longrightarrow> p < NPROC \<Longrightarrow> prstate (proctab t p) = PR_FREE \<and> prprio (proctab t p) = 0"
    by (simp_all add: t_def f3(1) s2_def s1_def NULLPROC_def)
  have "kok t (\<lambda>_. [])"
  proof (rule boot_kok)
    show "queues_wf (queuetab t) (nextqid t) (\<lambda>_. [])" using q2(2) by (simp add: t_def)
    show "semtab t j = \<lparr>sstate = S_FREE, scount = 0, squeue = NPROC + 2 * j\<rparr>" if "0 \<le> j" "j < NSEM" for j
      using b that by (simp add: t_def)
  qed (use pt n3 st f3 in \<open>simp_all add: t_def s2_def s1_def\<close>)
  moreover have "heap t = h'" "prcount t = 1" "currpid t = NULLPROC" "clktime t = 0"
    using f3 by (simp_all add: t_def s2_def s1_def)
  ultimately show ?thesis using run pt h'(2) b by (auto simp: t_def NULLPROC_def)
qed

text \<open>The first call of create and resume: the main process takes over from the null process.\<close>

lemma getstk_one_block:
  assumes h: "heap_holds lo hi h {lo..<lo + l}" and l: "0 < l" and n: "0 < n" "n \<le> 4294967288" "roundmb n < l"
  shows "\<exists>h'. getstk n h = Some (lo + l - 4, h')"
proof -
  obtain bs where bs: "heap_wf h bs" "avail bs = {lo..<lo + l}" using h by (auto simp: heap_holds_def)
  have "bs \<noteq> []" using bs(2) l by (auto simp: avail_def)
  then obtain a m cs where c: "bs = (a, m) # cs" by (cases bs) auto
  note b = heap_wf_facts(1)[OF bs(1), unfolded c]
  have "a = lo" using avail_head(1,2)[OF b] bs(2) c l
    by (metis atLeastLessThan_iff less_add_same_cancel1 order_antisym order_refl)
  moreover have "m = l"
  proof -
    have "a + m \<notin> {lo..<lo + l}" using avail_head(3)[OF b] bs(2) c by (simp del: avail_simps)
    then have "l \<le> m" using \<open>a = lo\<close> b by simp
    moreover have "lo + l - 1 \<in> avail bs" using bs(2) l by simp
    moreover have "a + m - 1 \<in> avail bs" using avail_head(5)[OF b, of "a + m - 1"] b c by simp
    then have "a + m - 1 < lo + l" using bs(2) by simp
    ultimately show ?thesis using \<open>a = lo\<close> by simp
  qed
  moreover have "cs = []"
  proof (rule ccontr)
    assume "cs \<noteq> []"
    then obtain d k ds where d: "cs = (d, k) # ds" by (cases cs) auto
    have "d \<in> avail bs" using c d b by (simp add: span_def)
    then show False using bs(2) b d \<open>a = lo\<close> \<open>m = l\<close> by simp
  qed
  ultimately have "bs = [(lo, l)]" using c by simp
  then show ?thesis
    using getstk_refines(2)[OF bs(1) n(1,2), of "lo + l - roundmb n" "[(lo, l - roundmb n)]"] n(3) by auto
qed

lemma nulluser_ok:
  assumes a: "0 < memlist (heap s)" "memlist (heap s) + 8 \<le> lo" "lo + 131072 \<le> hi" "hi < 4294967296"
      "lo mod 8 = 0" "hi mod 8 = 0"
    and st: "nextqid s = NPROC" "nextsem s = 0"
  shows "\<exists>t L. nulluser INITRET main lo hi s = Some t \<and> kok t L \<and>
    currpid t \<noteq> NULLPROC \<and> prstate (proctab t NULLPROC) = PR_READY \<and> prcount t = 2 \<and>
    prname (proctab t (currpid t)) = ''Main process'' \<and> prprio (proctab t (currpid t)) = INITPRIO \<and>
    words_at (mem (heap t)) (prstkptr (proctab t (currpid t))) (frame_words INITRET main [] @ [STACKMAGIC])"
proof -
  obtain b where b: "sysinit lo hi s = Some b" "kok b (\<lambda>_. [])" "currpid b = NULLPROC" "prcount b = 1"
    "\<And>p. 0 < p \<Longrightarrow> p < NPROC \<Longrightarrow> prstate (proctab b p) = PR_FREE"
    "heap_holds lo hi (heap b) {lo..<hi - NULLSTK}" "prprio (proctab b NULLPROC) = 0"
    using sysinit_ok[of s lo hi] assms by auto
  have sz: "stack_size INITSTK = 65536" by (simp add: stack_size_def INITSTK_def MINSTK_def roundew_def u32_def)
  have rm: "roundmb 65536 = 65536" by (simp add: roundmb_def u32_def)
  have hb: "{lo..<hi - NULLSTK} = {lo..<lo + (hi - NULLSTK - lo)}" by simp
  obtain h' where h': "getstk (stack_size INITSTK) (heap b) = Some (hi - NULLSTK - 4, h')"
    using getstk_one_block[of lo hi "heap b" "hi - NULLSTK - lo" 65536] b(6) a sz rm
    by (auto simp: NULLSTK_def)
  have bnd: "hi - NULLSTK - 4 \<noteq> u32 SYSERR" using a by (simp add: NULLSTK_def u32_def)
  have free: "\<exists>p. 0 \<le> p \<and> p < NPROC \<and> pid_free b p"
    using b(5)[of 1] by (intro exI[of _ 1]) (simp add: pid_free_def NPROC_def)
  obtain pid sp c where c: "create INITRET main INITSTK INITPRIO ''Main process'' [] b = Some (pid, c)"
    "0 \<le> pid" "pid < NPROC" "pid_free b pid"
    "proctab c = (proctab b)(pid := new_entry (stack_size INITSTK) INITPRIO (hi - NULLSTK - 4) ''Main process''
       (currpid b) (proctab b pid) sp)"
    "prcount c = i32 (prcount b + 1)" "currpid c = currpid b" "kok c (\<lambda>_. [])"
    "words_at (mem (heap c)) sp (frame_words INITRET main [] @ [STACKMAGIC])"
    using create_ok[OF b(2,6) _ _ h' bnd, of INITPRIO "[]" INITRET main "''Main process''"] free sz rm
    by (simp add: INITSTK_def INITPRIO_def frame_size_def) blast
  have pn: "pid \<noteq> NULLPROC" using c(4) kokD(4)[OF b(2)] b(3) by (auto simp: pid_free_def)
  obtain t where t: "resume pid c = Some (prprio (proctab c pid), t)" "made_ready c (\<lambda>_. []) pid t"
    using resume_ok[OF c(8,2,3)] c(5) by (auto simp: new_entry_def)
  obtain u where u: "kmid u (enlist c (\<lambda>_. []) pid)" "sched_eq c u"
    "proctab u = (proctab c)(pid := (proctab c pid)\<lparr>prstate := PR_READY\<rparr>)" "currpid u = currpid c"
    "keys u = (keys c)(pid := prprio (proctab c pid))"
    "kok t (resched_L u (enlist c (\<lambda>_. []) pid))" "sched_eq c t"
    "currpid t = resched_pid u (enlist c (\<lambda>_. []) pid)"
    "\<And>x. prstate (proctab t x) = resched_state u (enlist c (\<lambda>_. []) pid) x"
    using t(2) unfolding made_ready_def by blast
  have rl: "readylist u = readylist c" using sched_eqD(4)[OF u(2)] .
  have en: "enlist c (\<lambda>_. []) pid (readylist u) = [pid]" by (simp add: enlist_def rl ins_desc_def)
  have kb: "keys u pid = INITPRIO" using u(5) c(5) by (simp add: new_entry_def fun_eq_iff)
  have n0: "prprio (proctab u NULLPROC) = 0" "prstate (proctab u NULLPROC) = PR_CURR"
    using u(3) c(5,7) pn b(3,7) kokD(4)[OF b(2)] by simp_all
  have cu: "currpid u = NULLPROC" using u(4) c(7) b(3) by simp
  have ns: "\<not> stays u (enlist c (\<lambda>_. []) pid)"
    using en kb n0 cu by (simp add: stays_def first_prio_def INITPRIO_def)
  have rp: "currpid t = pid"
    using u(8) ns en kb n0 cu by (simp add: resched_pid_def resched_list_def ins_desc_def INITPRIO_def)
  have "prstate (proctab t NULLPROC) = PR_READY"
    using u(9)[of NULLPROC] u(8) rp pn n0 cu by (simp add: resched_state_def)
  moreover have "nulluser INITRET main lo hi s = Some t"
    using b(1) c(1) t(1) by (simp add: nulluser_def)
  moreover have "(proctab t pid)\<lparr>prstate := PR_FREE\<rparr> = (proctab c pid)\<lparr>prstate := PR_FREE\<rparr>"
    using sched_eqD(18)[OF u(7)] .
  then have "prname (proctab t pid) = prname (proctab c pid)" "prprio (proctab t pid) = prprio (proctab c pid)"
    "prstkptr (proctab t pid) = prstkptr (proctab c pid)"
    by (metis (no_types) procent.select_convs(2,3,6) procent.surjective procent.update_convs(1))+
  ultimately show ?thesis
    using u(6) rp pn c(5,6,9) b(4) sched_eqD(3,10)[OF u(7)]
    by (intro exI[of _ t] exI[of _ "resched_L u (enlist c (\<lambda>_. []) pid)"])
      (simp add: new_entry_def PNMLEN_def i32_id)
qed

end
