(* ===== verification/Kernel_Properties.thy ===== *)
theory Kernel_Properties
  imports Kernel_Demo Boot
begin

text \<open>
  The contracts of the kernel calls, each stated over every state that satisfies the kernel
  invariant kok, and each applied to the concrete state of Kernel_Demo.
\<close>

section \<open>What a call leaves alone\<close>

text \<open>A process that neither runs nor is ready keeps its state, except those in P.\<close>

definition undisturbed :: "kst \<Rightarrow> int set \<Rightarrow> kst \<Rightarrow> bool" where
  "undisturbed s P t \<longleftrightarrow> (\<forall>x. x \<notin> P \<and> prstate (proctab s x) \<notin> {PR_CURR, PR_READY} \<longrightarrow>
     prstate (proctab t x) = prstate (proctab s x))"

lemma undisturbed_resched:
  assumes "kmid u L" "\<And>x. prstate (proctab t x) = resched_state u L x" "x \<notin> P"
    "prstate (proctab u x) = prstate (proctab s x)" "prstate (proctab s x) \<notin> {PR_CURR, PR_READY}"
  shows "prstate (proctab t x) = prstate (proctab s x)"
proof -
  have "x \<noteq> resched_pid u L" using resched_pid_state[OF kmidD(1)[OF assms(1)]] assms(4,5) by auto
  then show ?thesis using assms(2)[of x] assms(4,5) by (auto simp: resched_state_def)
qed

lemma made_ready_undisturbed: "made_ready u L p t \<Longrightarrow> proctab u = proctab s \<Longrightarrow> undisturbed s {p} t"
  using made_readyD(5) by (auto simp: undisturbed_def)

section \<open>Semaphores\<close>

lemma wait_blocked_contract:
  assumes k: "kok s L" and i: "\<not> isbadsem i" "sstate (semtab s i) = S_USED" "scount (semtab s i) \<le> 0"
    and nn: "currpid s \<noteq> NULLPROC"
  shows "\<exists>t L'. wait i s = Some (OK, t) \<and> kok t L' \<and>
    semtab t = (semtab s)(i := (semtab s i)\<lparr>scount := scount (semtab s i) - 1\<rparr>) \<and>
    undisturbed s {currpid s} t \<and> currpid t \<noteq> currpid s \<and> prstate (proctab t (currpid s)) = PR_WAIT \<and>
    L' (semq s i) = L (semq s i) @ [currpid s]"
proof -
  let ?L = "L(semq s i := L (semq s i) @ [currpid s])"
  obtain u t where u: "kmid u ?L"
    "semtab u = (semtab s)(i := (semtab s i)\<lparr>scount := scount (semtab s i) - 1\<rparr>)"
    "proctab u = (proctab s)(currpid s := (proctab s (currpid s))\<lparr>prstate := PR_WAIT, prsem := i\<rparr>)"
    "currpid u = currpid s" "wait i s = Some (OK, t)" "kok t (resched_L u ?L)" "sched_eq u t"
    "currpid t = resched_pid u ?L" "\<And>x. prstate (proctab t x) = resched_state u ?L x"
    using wait_blocks[OF k i nn] by blast
  have r: "semq s i \<noteq> readylist u"
  proof -
    have "semq u i = semq s i" using u(2) by (simp add: semq_def)
    then show ?thesis using semq_ok(2)[OF u(1)] i(1) by (auto simp: isbadsem_def)
  qed
  have nc: "currpid t \<noteq> currpid s" using resched_blocked[OF u(1) _ u(8)] u(3,4) by simp
  have "prstate (proctab t (currpid s)) = PR_WAIT"
    using u(3,4,8) u(9)[of "currpid s"] nc by (simp add: resched_state_def)
  moreover have "undisturbed s {currpid s} t"
    unfolding undisturbed_def
    by (intro allI impI, rule undisturbed_resched[OF u(1,9)]) (use u(3) in auto)
  ultimately show ?thesis
    using u(5,6) nc r sched_eqD(6)[OF u(7)] u(2) by (intro exI[of _ t] exI[of _ "resched_L u ?L"]) (simp add: resched_L_other)
qed

text \<open>C4: wait on a valid semaphore takes one from its count. With a positive count the caller
  goes on and nothing else changes; otherwise the caller becomes the last in the semaphore's
  queue, is marked as waiting, and gives up the processor. The kernel invariant is kept.\<close>

theorem wait_contract:
  assumes "kok s L" and "\<not> isbadsem i" "sstate (semtab s i) = S_USED" and "currpid s \<noteq> NULLPROC"
  shows "\<exists>t L'. wait i s = Some (OK, t) \<and> kok t L' \<and>
    semtab t = (semtab s)(i := (semtab s i)\<lparr>scount := scount (semtab s i) - 1\<rparr>) \<and>
    undisturbed s {currpid s} t \<and>
    (if 0 < scount (semtab s i) then currpid t = currpid s \<and> proctab t = proctab s \<and> L' = L
     else currpid t \<noteq> currpid s \<and> prstate (proctab t (currpid s)) = PR_WAIT \<and>
       L' (semq s i) = L (semq s i) @ [currpid s])"
proof (cases "0 < scount (semtab s i)")
  case True
  then show ?thesis
    using wait_available[OF assms(1-3)]
    by (intro exI[of _ "upd_sem i (\<lambda>e. e\<lparr>scount := scount e - 1\<rparr>) s"] exI[of _ L]) (simp add: undisturbed_def)
next
  case False
  then show ?thesis using wait_blocked_contract[OF assms(1-3) _ assms(4)] by fastforce
qed

theorem wait_contract_witness:
  "\<exists>t L'. wait 0 demo = Some (OK, t) \<and> kok t L' \<and> currpid t \<noteq> 1 \<and> prstate (proctab t 1) = PR_WAIT \<and>
    L' 100 = [2, 1]"
proof -
  have "\<not> isbadsem 0" "sstate (semtab demo 0) = S_USED" "currpid demo \<noteq> NULLPROC" "\<not> 0 < scount (semtab demo 0)"
    "semq demo 0 = 100" "demo_lists 100 = [2]"
    by (simp_all add: isbadsem_def NSEM_def demo_sem_def NULLPROC_def demo_lists_def)
  then show ?thesis using wait_contract[OF demo_kok, of 0] by auto
qed

text \<open>C5: signal adds one to the count of a valid semaphore; if processes wait, the one that has
  waited longest leaves the queue and becomes ready (or runs at once), and no other process that
  waits, sleeps or is suspended is disturbed.\<close>

theorem signal_contract:
  assumes "kok s L" and "\<not> isbadsem i" "sstate (semtab s i) = S_USED" "scount (semtab s i) < INT_MAX"
  shows "\<exists>t L'. signal i s = Some (OK, t) \<and> kok t L' \<and>
    semtab t = (semtab s)(i := (semtab s i)\<lparr>scount := scount (semtab s i) + 1\<rparr>) \<and>
    L' (semq s i) = tl (L (semq s i)) \<and> undisturbed s (set (take 1 (L (semq s i)))) t \<and>
    (\<forall>p \<in> set (take 1 (L (semq s i))). prstate (proctab t p) \<in> {PR_CURR, PR_READY})"
proof (cases "L (semq s i)")
  case Nil
  have i: "0 \<le> i" "i < NSEM" using assms(2) by (auto simp: isbadsem_def)
  have "0 \<le> scount (semtab s i)"
    using semq_ok(4)[OF kokD(1)[OF assms(1)] i] assms(3) Nil by (simp add: sem_ok_def)
  then show ?thesis
    using signal_none[OF assms(1-3) _ assms(4)] Nil
    by (intro exI[of _ "upd_sem i (\<lambda>e. e\<lparr>scount := scount e + 1\<rparr>) s"] exI[of _ L]) (simp add: undisturbed_def)
next
  case (Cons p ps)
  have i: "0 \<le> i" "i < NSEM" using assms(2) by (auto simp: isbadsem_def)
  have "Suc (length ps) = nat (- scount (semtab s i))"
    using semq_ok(4)[OF kokD(1)[OF assms(1)] i] assms(3) Cons by (simp add: sem_ok_def)
  then have "scount (semtab s i) < 0" by linarith
  then obtain qt t where t: "signal i s = Some (OK, t)"
    "made_ready ((upd_sem i (\<lambda>e. e\<lparr>scount := scount e + 1\<rparr>) s)\<lparr>queuetab := qt\<rparr>) (L(semq s i := ps)) p t"
    using signal_wakes[OF assms(1-3) _ Cons] by blast
  obtain L' where L': "kok t L'" "\<And>q. q \<noteq> readylist s \<Longrightarrow> L' q = (L(semq s i := ps)) q"
    using made_readyD(1)[OF t(2)] by auto
  have "semq s i \<noteq> readylist s" using semq_ok(2)[OF kokD(1)[OF assms(1)] i] by simp
  then show ?thesis
    using t(1) L' made_readyD(2)[OF t(2)] made_ready_undisturbed[OF t(2), of s]
      sched_eqD(6)[OF made_readyD(3)[OF t(2)]] Cons
    by (intro exI[of _ t] exI[of _ L']) auto
qed

theorem signal_contract_witness:
  "\<exists>t L'. signal 0 demo = Some (OK, t) \<and> kok t L' \<and> scount (semtab t 0) = 0 \<and> L' 100 = [] \<and>
    prstate (proctab t 2) \<in> {PR_CURR, PR_READY} \<and> prstate (proctab t 4) = PR_SLEEP"
proof -
  have "\<not> isbadsem 0" "sstate (semtab demo 0) = S_USED" "scount (semtab demo 0) = -1"
    "semq demo 0 = 100" "demo_lists 100 = [2]" "prstate (proctab demo 4) = PR_SLEEP"
    by (simp_all add: isbadsem_def NSEM_def demo_sem_def demo_lists_def demo_state_def)
  then show ?thesis using signal_contract[OF demo_kok, of 0] by (fastforce simp: undisturbed_def)
qed



text \<open>Semdelete frees the semaphore and releases every process that waits on it, so no process
  is left on the queue of a free semaphore.\<close>

theorem semdelete_contract:
  assumes "kok s L" and "\<not> isbadsem i" "sstate (semtab s i) = S_USED" "scount (semtab s i) < INT_MAX"
  shows "\<exists>t L'. semdelete i s = Some (OK, t) \<and> kok t L' \<and> sstate (semtab t i) = S_FREE \<and>
    (\<forall>j. j \<noteq> i \<longrightarrow> semtab t j = semtab s j) \<and> L' (semq s i) = [] \<and>
    (\<forall>p \<in> set (L (semq s i)). prstate (proctab t p) \<in> {PR_CURR, PR_READY}) \<and>
    undisturbed s (set (L (semq s i))) t"
proof -
  obtain t L' c where t: "semdelete i s = Some (OK, t)"
    "released s L i (set (L (semq s i))) [] ((semtab s i)\<lparr>sstate := S_FREE, scount := c\<rparr>) t L'"
    using semdelete_ok[OF assms] by blast
  then show ?thesis unfolding released_def undisturbed_def by (intro exI[of _ t] exI[of _ L']) auto
qed

theorem semdelete_contract_witness:
  "\<exists>t L'. semdelete 0 demo = Some (OK, t) \<and> kok t L' \<and> sstate (semtab t 0) = S_FREE \<and>
    prstate (proctab t 2) \<in> {PR_CURR, PR_READY}"
proof -
  have "\<not> isbadsem 0" "sstate (semtab demo 0) = S_USED" "scount (semtab demo 0) < INT_MAX"
    "semq demo 0 = 100" "demo_lists 100 = [2]"
    by (simp_all add: isbadsem_def NSEM_def demo_sem_def demo_lists_def)
  then show ?thesis using semdelete_contract[OF demo_kok, of 0] by force
qed

text \<open>Semreset releases every waiting process and gives the semaphore the new count.\<close>

theorem semreset_contract:
  assumes "kok s L" and "\<not> isbadsem i" "sstate (semtab s i) = S_USED" "0 \<le> n" "n \<le> INT_MAX"
  shows "\<exists>t L'. semreset i n s = Some (OK, t) \<and> kok t L' \<and>
    semtab t = (semtab s)(i := (semtab s i)\<lparr>scount := n\<rparr>) \<and> L' (semq s i) = [] \<and>
    (\<forall>p \<in> set (L (semq s i)). prstate (proctab t p) \<in> {PR_CURR, PR_READY}) \<and>
    undisturbed s (set (L (semq s i))) t"
  using semreset_ok[OF assms] unfolding released_def undisturbed_def by blast

theorem semreset_contract_witness:
  "\<exists>t L'. semreset 0 4 demo = Some (OK, t) \<and> kok t L' \<and> scount (semtab t 0) = 4 \<and> L' 100 = []"
proof -
  have "\<not> isbadsem 0" "sstate (semtab demo 0) = S_USED" "semq demo 0 = 100"
    by (simp_all add: isbadsem_def NSEM_def demo_sem_def)
  then show ?thesis using semreset_contract[OF demo_kok, of 0 4] by auto
qed

text \<open>Semcreate hands out a semaphore that was free, with the count asked for, or reports an
  error and changes nothing when every semaphore is in use; the search covers the whole table
  from wherever the last one stopped.\<close>

theorem semcreate_contract:
  assumes "kok s L" and "0 \<le> c" "c \<le> INT_MAX"
  shows "if \<exists>i. 0 \<le> i \<and> i < NSEM \<and> sstate (semtab s i) = S_FREE
    then \<exists>i t. semcreate c s = Some (i, t) \<and> 0 \<le> i \<and> i < NSEM \<and> sstate (semtab s i) = S_FREE \<and> kok t L \<and>
      semtab t = (semtab s)(i := (semtab s i)\<lparr>sstate := S_USED, scount := c\<rparr>) \<and> proctab t = proctab s
    else semcreate c s = Some (SYSERR, s)"
  using semcreate_ok[OF assms] unfolding sem_free_def by (auto split: if_splits)

theorem semcreate_contract_witness:
  "\<exists>i t. semcreate 5 demo = Some (i, t) \<and> 2 \<le> i \<and> i < NSEM \<and> kok t demo_lists \<and> semtab t i = \<lparr>sstate = S_USED, scount = 5, squeue = 100 + 2 * i\<rparr>"
proof -
  have "\<exists>i. 0 \<le> i \<and> i < NSEM \<and> sstate (semtab demo i) = S_FREE"
    by (intro exI[of _ 5]) (simp add: NSEM_def demo_sem_def)
  then obtain i t where i: "semcreate 5 demo = Some (i, t)" "0 \<le> i" "i < NSEM" "sstate (semtab demo i) = S_FREE"
    "kok t demo_lists" "semtab t = (semtab demo)(i := (semtab demo i)\<lparr>sstate := S_USED, scount := 5\<rparr>)"
    using semcreate_contract[OF demo_kok, of 5] by auto
  then have "2 \<le> i" by (auto simp: demo_sem_def split: if_splits)
  then show ?thesis using i by (auto simp: demo_sem_def)
qed

section \<open>Scheduling\<close>

text \<open>C7: after a rescheduling the process that runs has at least the priority of every process
  left on the ready list; and a process whose priority is not strictly above the first ready one
  gives way to it (round robin among equals).\<close>

theorem resched_highest:
  assumes "kok s L" and "\<And>p. p \<in> set (L (readylist s)) \<Longrightarrow> keys s p = prprio (proctab s p)"
  shows "\<exists>t L'. resched s = Some t \<and> kok t L' \<and>
    (\<forall>p \<in> set (L' (readylist t)). prprio (proctab t p) \<le> prprio (proctab t (currpid t))) \<and>
    (L (readylist s) \<noteq> [] \<and> prprio (proctab s (currpid s)) \<le> prprio (proctab s (hd (L (readylist s)))) \<longrightarrow>
       currpid t = hd (L (readylist s)))"
proof -
  let ?r = "readylist s" and ?c = "currpid s"
  note m = kokD(1)[OF assms(1)] and k0 = kokD(5)[OF assms(1)]
  obtain t where t: "resched s = Some t" "kok t (resched_L s L)" "sched_eq s t" "currpid t = resched_pid s L"
    using resched_kok[OF m kokD(3)[OF assms(1)]] by blast
  have d: "sorted_wrt (\<lambda>x y. prprio (proctab s y) \<le> prprio (proctab s x)) (L ?r)"
  proof -
    have "sorted_wrt (\<lambda>x y. keys s y \<le> keys s x) (L ?r)" using kinv0D(7)[OF k0] by (simp add: desc_def)
    then show ?thesis using assms(2) by (auto intro: sorted_wrt_mono_rel[rotated])
  qed
  have fp: "first_prio s L = (case L ?r of [] \<Rightarrow> MINKEY | x # _ \<Rightarrow> prprio (proctab s x))"
    using assms(2) by (auto simp: first_prio_def split: list.split)
  have pr: "prprio (proctab t x) = prprio (proctab s x)" for x using sched_eq_proc(1)[OF t(3)] .
  have rl: "readylist t = ?r" using sched_eqD(4)[OF t(3)] .
  have hd: "L ?r \<noteq> [] \<Longrightarrow> x \<in> set (L ?r) \<Longrightarrow> prprio (proctab s x) \<le> prprio (proctab s (hd (L ?r)))" for x
    using d by (cases "L ?r") auto
  show ?thesis
  proof (cases "stays s L")
    case True
    then have lt: "first_prio s L < prprio (proctab s ?c)" by (simp add: stays_def)
    have "prprio (proctab s x) \<le> prprio (proctab s ?c)" if x: "x \<in> set (L ?r)" for x
      using hd[OF _ x] lt fp x by (cases "L ?r") auto
    moreover have "\<not> (L ?r \<noteq> [] \<and> prprio (proctab s ?c) \<le> prprio (proctab s (hd (L ?r))))"
      using lt fp by (cases "L ?r") auto
    ultimately show ?thesis
      using t True pr rl by (intro exI[of _ t] exI[of _ "resched_L s L"]) (auto simp: resched_L_def resched_pid_def)
  next
    case False
    let ?is = "ins_desc (keys s) (prprio (proctab s ?c)) ?c (L ?r)"
    have pid: "currpid t = hd ?is" and L': "resched_L s L ?r = tl ?is"
      using t(4) False kokD(4)[OF assms(1)] by (simp_all add: resched_pid_def resched_list_def resched_L_def)
    have "sorted_wrt (\<lambda>x y. prprio (proctab s y) \<le> prprio (proctab s x)) ?is"
    proof -
      have "desc (\<lambda>x. prprio (proctab s x)) (ins_desc (\<lambda>x. prprio (proctab s x)) (prprio (proctab s ?c)) ?c (L ?r))"
        by (rule ins_desc_sorted) (use d in \<open>simp_all add: desc_def\<close>)
      moreover have "ins_desc (\<lambda>x. prprio (proctab s x)) (prprio (proctab s ?c)) ?c (L ?r) = ?is"
        unfolding ins_desc_def using assms(2)
        by (metis (mono_tags, lifting) takeWhile_cong dropWhile_cong)
      ultimately show ?thesis by (simp add: desc_def)
    qed
    moreover have ne: "?is \<noteq> []" by (simp add: ins_desc_def)
    ultimately have "\<forall>p \<in> set (tl ?is). prprio (proctab s p) \<le> prprio (proctab s (hd ?is))"
      by (cases ?is) auto
    moreover have "hd ?is = hd (L ?r)"
      if "L ?r \<noteq> []" "prprio (proctab s ?c) \<le> prprio (proctab s (hd (L ?r)))"
      using that assms(2) by (cases "L ?r") (auto simp: ins_desc_def)
    ultimately show ?thesis
      using t pid L' pr rl by (intro exI[of _ t] exI[of _ "resched_L s L"]) auto
  qed
qed

theorem resched_highest_witness:
  "\<exists>t L'. resched demo = Some t \<and> kok t L' \<and>
    (\<forall>p \<in> set (L' (readylist t)). prprio (proctab t p) \<le> prprio (proctab t (currpid t)))"
proof -
  have "\<And>p. p \<in> set (demo_lists (readylist demo)) \<Longrightarrow> keys demo p = prprio (proctab demo p)"
    by (auto simp: demo_lists_def demo_queues_def demo_prio_def)
  then show ?thesis using resched_highest[OF demo_kok] by blast
qed

section \<open>Messages\<close>

lemma deposit_proctab_state: "prstate (proctab (deposit p m s) x) = prstate (proctab s x)"
  by simp

text \<open>C8: send delivers a message to a live process whose buffer is empty, whatever the process
  does: it is stored, a receiver that waits for it (with or without a time limit) becomes ready,
  and a receiver with a time limit leaves the sleep queue while every other sleeper keeps its
  remaining time.\<close>

theorem send_contract:
  assumes "kok s L" and "\<not> isbadpid s p" "\<not> prhasmsg (proctab s p)"
  shows "\<exists>t L'. send p m s = Some (OK, t) \<and> kok t L' \<and> prhasmsg (proctab t p) \<and> prmsg (proctab t p) = m \<and>
    (prstate (proctab s p) \<in> {PR_RECV, PR_RECTIM} \<longrightarrow> prstate (proctab t p) \<in> {PR_CURR, PR_READY}) \<and>
    undisturbed s {p} t \<and>
    sleepers t L' = filter (\<lambda>(x, d). x = p \<longrightarrow> prstate (proctab s p) = PR_SLEEP) (sleepers s L)"
proof -
  note m = kokD(1)[OF assms(1)] and k0 = kokD(5)[OF assms(1)]
  have pr: "0 \<le> p" "p < NPROC" using assms(2) by (auto simp: isbadpid_def)
  have in_due: "x \<in> set (L (sleepq s))" if "(x, d) \<in> set (sleepers s L)" for x d
    using that unfolding sleepers_def by (rule due_fst_set)
  have sleepy: "p \<in> set (L (sleepq s)) \<longleftrightarrow> prstate (proctab s p) \<in> {PR_SLEEP, PR_RECTIM}"
    using asleep_iff[OF k0 pr] by (auto simp: asleep_def)
  have keep: "filter (\<lambda>(x, d). x = p \<longrightarrow> prstate (proctab s p) = PR_SLEEP) (sleepers s L) = sleepers s L"
    if "prstate (proctab s p) \<noteq> PR_RECTIM"
    using that in_due sleepy by (auto intro!: filter_True)
  have slq: "sleepers t L' = sleepers s L"
    if "sched_eq (deposit p m s) t" "kinv0 t L'" "L' (sleepq s) = L (sleepq s)" for t L'
    using sched_eq_due(1)[OF that(1,2), of L] that(3) by (simp add: sleepers_def)
  consider (store) "prstate (proctab s p) \<noteq> PR_RECV" "prstate (proctab s p) \<noteq> PR_RECTIM"
    | (recv) "prstate (proctab s p) = PR_RECV" | (timed) "prstate (proctab s p) = PR_RECTIM" by blast
  then show ?thesis
  proof cases
    case store
    show ?thesis
      using send_stores[OF assms store] keep store slq[of "deposit p m s" L] kokD(5)
      by (intro exI[of _ "deposit p m s"] exI[of _ L]) (auto simp: undisturbed_def)
  next
    case recv
    obtain t where t: "send p m s = Some (OK, t)" "made_ready (deposit p m s) L p t"
      using send_wakes_receiver[OF assms recv] by blast
    obtain L' where L': "kok t L'" "\<And>q. q \<noteq> readylist s \<Longrightarrow> L' q = L q" using made_readyD(1)[OF t(2)] by auto
    have "undisturbed s {p} t"
      using made_readyD(5)[OF t(2)] by (auto simp: undisturbed_def)
    then show ?thesis
      using t(1) L' recv keep slq[OF made_readyD(3)[OF t(2)] kokD(5)[OF L'(1)]] kmidD(10)[OF m]
        made_readyD(2)[OF t(2)] sched_eq_proc(2,3)[OF made_readyD(3)[OF t(2)]]
      by (intro exI[of _ t] exI[of _ L']) auto
  next
    case timed
    obtain us vs qt t where t: "L (sleepq s) = us @ p # vs" "send p m s = Some (OK, t)"
      "made_ready ((deposit p m s)\<lparr>queuetab := qt\<rparr>) (L(sleepq s := us @ vs)) p t"
      "due (\<lambda>x. qkey (qt x)) 0 (us @ vs) = filter (\<lambda>(x, t). x \<noteq> p) (due (keys s) 0 (us @ p # vs))"
      using send_wakes_timed[OF assms timed] by blast
    let ?u = "(deposit p m s)\<lparr>queuetab := qt\<rparr>"
    obtain L' where L': "kok t L'" "\<And>q. q \<noteq> readylist s \<Longrightarrow> L' q = (L(sleepq s := us @ vs)) q"
      using made_readyD(1)[OF t(3)] by auto
    have "sleepers t L' = due (keys ?u) 0 ((L(sleepq s := us @ vs)) (sleepq ?u))"
      unfolding sleepers_def
      using sched_eq_due(1)[OF made_readyD(3)[OF t(3)] kokD(5)[OF L'(1)], of "L(sleepq s := us @ vs)"]
        L'(2)[of "sleepq s"] kmidD(10)[OF m] by simp
    then have "sleepers t L' = filter (\<lambda>(x, t). x \<noteq> p) (sleepers s L)"
      using t(1,4) by (simp add: sleepers_def)
    moreover have "undisturbed s {p} t"
      using made_readyD(5)[OF t(3)] by (auto simp: undisturbed_def)
    ultimately show ?thesis
      using t(2) L' timed made_readyD(2)[OF t(3)] sched_eq_proc(2,3)[OF made_readyD(3)[OF t(3)]]
      by (intro exI[of _ t] exI[of _ L']) auto
  qed
qed

theorem send_contract_witness:
  "\<exists>t L'. send 7 99 demo = Some (OK, t) \<and> kok t L' \<and> prmsg (proctab t 7) = 99 \<and>
    prstate (proctab t 7) \<in> {PR_CURR, PR_READY} \<and> sleepers t L' = [(4, 5)]"
proof -
  have "\<not> isbadpid demo 7" "\<not> prhasmsg (proctab demo 7)" "prstate (proctab demo 7) = PR_RECTIM"
    by (simp_all add: isbadpid_def NPROC_def demo_state_def)
  moreover have "sleepers demo demo_lists = [(4, 5), (7, 8)]"
    by (simp add: sleepers_def demo_lists_def demo_queues_def)
  ultimately show ?thesis using send_contract[OF demo_kok, of 7 99] by auto
qed

text \<open>Receive with an empty buffer blocks: the caller waits in state PR_RECV on no queue, the
  processor goes to another process, and nobody else is disturbed. With a message it returns that
  message and empties the buffer.\<close>

theorem receive_contract:
  assumes "kok s L" and "currpid s \<noteq> NULLPROC"
  shows "\<exists>r t L'. receive s = Some (r, t) \<and> kok t L' \<and> undisturbed s {currpid s} t \<and>
    (if prhasmsg (proctab s (currpid s))
     then r = Ret (prmsg (proctab s (currpid s))) \<and> currpid t = currpid s \<and> \<not> prhasmsg (proctab t (currpid s))
     else r = Blocked \<and> currpid t \<noteq> currpid s \<and> prstate (proctab t (currpid s)) = PR_RECV \<and>
       \<not> prhasmsg (proctab t (currpid s)) \<and> off_queues (nextqid t) L' (currpid s))"
proof (cases "prhasmsg (proctab s (currpid s))")
  case True
  let ?t = "upd_proc (currpid s) (\<lambda>e. e\<lparr>prhasmsg := False\<rparr>) s"
  have "undisturbed s {currpid s} ?t" by (auto simp: undisturbed_def)
  then show ?thesis using receive_has[OF assms(1) True] True by (intro exI[of _ ?t] exI) auto
next
  case False
  obtain t L' where t: "receive s = Some (Blocked, t)" "kok t L'" "sched_eq s t"
    "prstate (proctab t (currpid s)) = PR_RECV" "currpid t \<noteq> currpid s"
    "\<forall>x. x \<noteq> currpid s \<and> prstate (proctab s x) \<notin> {PR_CURR, PR_READY} \<longrightarrow>
       prstate (proctab t x) = prstate (proctab s x)"
    using receive_blocks[OF assms(1) False assms(2)] by blast
  have c: "0 \<le> currpid s" "currpid s < NPROC" using kmidD(6,7)[OF kokD(1)[OF assms(1)]] by auto
  have "placed t L' (currpid s) (proctab t (currpid s))" using kinv0D(6)[OF kokD(5)[OF t(2)] c] .
  then have "currpid s \<notin> set (L' q)" if "qid_ok (nextqid t) q" for q
    using that kmidD(1)[OF kokD(1)[OF t(2)]] t(4) unfolding kinv0_def queues_used_def placed_def
    by (cases "L' q = []") auto
  then show ?thesis
    using t False sched_eq_proc(3)[OF t(3)] unfolding undisturbed_def off_queues_def
    by (intro exI[of _ Blocked] exI[of _ t] exI[of _ L']) auto
qed

theorem receive_contract_witness:
  "\<exists>t L'. receive demo = Some (Blocked, t) \<and> kok t L' \<and> prstate (proctab t 1) = PR_RECV \<and> currpid t \<noteq> 1"
proof -
  have "currpid demo \<noteq> NULLPROC" "\<not> prhasmsg (proctab demo (currpid demo))" by (simp_all add: NULLPROC_def)
  then show ?thesis using receive_contract[OF demo_kok] by auto
qed

section \<open>Time\<close>

text \<open>C9: sleep(n) for 1 to 2147483 seconds puts the caller on the sleep queue so that its total
  delay is 1000 n ticks, after every sleeper that is due no later, and without changing when any
  other sleeper is due; the caller gives up the processor.\<close>

theorem sleep_contract:
  assumes "kok s L" and "currpid s \<noteq> NULLPROC" and "0 < n" "n \<le> 2147483"
  shows "\<exists>t L'. sleep n s = Some (OK, t) \<and> kok t L' \<and>
    sleepers t L' = due_insert (currpid s) (1000 * n) (sleepers s L) \<and>
    prstate (proctab t (currpid s)) = PR_SLEEP \<and> currpid t \<noteq> currpid s \<and> undisturbed s {currpid s} t"
  using sleep_ok_call[OF assms] unfolding fell_asleep_def undisturbed_def by blast

theorem sleep_contract_witness:
  "\<exists>t L'. sleep 2 demo = Some (OK, t) \<and> kok t L' \<and> sleepers t L' = [(4, 5), (7, 8), (1, 2000)]"
proof -
  have "sleepers demo demo_lists = [(4, 5), (7, 8)]"
    by (simp add: sleepers_def demo_lists_def demo_queues_def)
  moreover have "currpid demo \<noteq> NULLPROC" by (simp add: NULLPROC_def)
  ultimately show ?thesis using sleep_contract[OF demo_kok, of 2] by (auto simp: due_insert_def)
qed



end
