(* ===== verification/Life_Properties.thy ===== *)
theory Life_Properties
  imports Kernel_Properties
begin

text \<open>
  The contracts of process creation, suspension, removal and system start, and of the heap.
\<close>

section \<open>Suspension\<close>

text \<open>Suspending a ready process takes it, and nothing else, off the ready list and returns its
  priority; resuming it returns the priority again and makes it ready or running, and between the
  two no waiting, sleeping or suspended process is disturbed.\<close>

theorem suspend_resume:
  assumes "kok s L" and "0 \<le> p" "p < NPROC" "p \<noteq> NULLPROC" "prstate (proctab s p) = PR_READY"
  shows "\<exists>t L'. suspend p s = Some (Ret (prprio (proctab s p)), t) \<and> kok t L' \<and>
    prstate (proctab t p) = PR_SUSP \<and> L' (readylist s) = remove1 p (L (readylist s)) \<and>
    (\<exists>u L''. resume p t = Some (prprio (proctab s p), u) \<and> kok u L'' \<and>
       prstate (proctab u p) \<in> {PR_CURR, PR_READY} \<and> undisturbed s {} u)"
proof -
  obtain t where t: "suspend p s = Some (Ret (prprio (proctab s p)), t)"
    "kok t (L(readylist s := remove1 p (L (readylist s))))" "sched_eq s t" "currpid t = currpid s"
    "proctab t = (proctab s)(p := (proctab s p)\<lparr>prstate := PR_SUSP\<rparr>)"
    using suspend_ready[OF assms] by blast
  obtain u where u: "resume p t = Some (prprio (proctab t p), u)"
    "made_ready t (L(readylist s := remove1 p (L (readylist s)))) p u"
    using resume_ok[OF t(2) assms(2,3)] t(5) by auto
  obtain L'' where L'': "kok u L''" using made_readyD(1)[OF u(2)] by blast
  have "prstate (proctab u x) = prstate (proctab s x)" if "prstate (proctab s x) \<notin> {PR_CURR, PR_READY}" for x
    using that made_readyD(5)[OF u(2), of x] t(5) assms(5) by (cases "x = p") auto
  then have "undisturbed s {} u" by (simp add: undisturbed_def)
  then show ?thesis
    using t u(1) L'' made_readyD(2)[OF u(2)]
    by (intro exI[of _ t] exI[of _ "L(readylist s := remove1 p (L (readylist s)))"]) auto
qed

theorem suspend_resume_witness:
  "\<exists>t L'. suspend 6 demo = Some (Ret 25, t) \<and> kok t L' \<and> prstate (proctab t 6) = PR_SUSP \<and> L' 300 = [0] \<and>
    (\<exists>u L''. resume 6 t = Some (25, u) \<and> kok u L'')"
proof -
  have "prstate (proctab demo 6) = PR_READY" "prprio (proctab demo 6) = 25"
    "remove1 6 (demo_lists (readylist demo)) = [0]"
    by (simp_all add: demo_state_def demo_prio_def demo_lists_def)
  then show ?thesis using suspend_resume[OF demo_kok, of 6] by (fastforce simp: NPROC_def NULLPROC_def)
qed

section \<open>Creation\<close>



text \<open>The error path of create loses memory: when no table entry is free or the priority is
  below one, it returns SYSERR, and the stack it has already taken is not given back.\<close>

theorem create_error_leaks:
  assumes "kok s L" and "getstk (stack_size n) (heap s) = Some (a, h)" "a \<noteq> u32 SYSERR"
    and "prio < 1 \<or> (\<forall>p. 0 \<le> p \<and> p < NPROC \<longrightarrow> prstate (proctab s p) \<noteq> PR_FREE)"
  shows "\<exists>t. create INITRET f n prio name args s = Some (SYSERR, t) \<and> heap t = h \<and>
    proctab t = proctab s \<and> prcount t = prcount s \<and> kok t L"
  using create_leak[OF assms(1-3), of prio INITRET f name args] assms(4) unfolding pid_free_def by blast

theorem create_error_leaks_witness:
  "\<exists>t. create 1000 2000 400 0 ''child'' [] demo = Some (SYSERR, t) \<and> heap_wf (heap t) [(4096, 7792)] \<and> proctab t = demo_proc"
proof -
  have sz: "stack_size 400 = 400" by (simp add: stack_size_def MINSTK_def roundew_def u32_def)
  have rm: "roundmb 400 = 400" by (simp add: roundmb_def u32_def)
  obtain h where h: "getstk 400 demo_heap = Some (12284, h)" "heap_wf h [(4096, 7792)]"
    using getstk_refines(2)[OF demo_heap_wf, of 400 11888 "[(4096, 7792)]"] rm by auto
  show ?thesis
    using create_error_leaks[OF demo_kok, of 400 12284 h 0 1000 2000 "''child''" "[]"] h sz by (auto simp: u32_def)
qed

section \<open>Removal\<close>

lemma waiting_sem_used:
  assumes k: "kok s L" and p: "0 \<le> p" "p < NPROC" "prstate (proctab s p) = PR_WAIT"
  shows "sstate (semtab s (prsem (proctab s p))) = S_USED"
proof -
  let ?i = "prsem (proctab s p)"
  have i: "0 \<le> ?i" "?i < NSEM" "p \<in> set (L (semq s ?i))"
    using kinv0D(6)[OF kokD(5)[OF k] p(1,2)] p(3) by (auto simp: placed_def)
  then show ?thesis using semq_ok(4)[OF kokD(1)[OF k] i(1,2)] by (auto simp: sem_ok_def split: if_splits)
qed



text \<open>A process that kills itself never returns: it is freed, its stack goes back to the heap
  and another process runs; the code after the call of resched in that case is never reached.\<close>

theorem kill_self_contract:
  assumes "kok s L" and "currpid s \<noteq> NULLPROC" and "2 < prcount s" "prcount s \<le> INT_MAX"
    and "\<And>d u. dvclose d u = Some (OK, u)"
    and "prstate (proctab s (prparent (proctab s (currpid s)))) \<notin> {PR_RECV, PR_RECTIM}"
    and "heap_holds lo hi (heap s) A" "heap_size_ok (prstklen (proctab s (currpid s)))"
      "heap_usable lo hi Stk (prstkbase (proctab s (currpid s))) (prstklen (proctab s (currpid s)))"
      "heap_region Stk (prstkbase (proctab s (currpid s))) (prstklen (proctab s (currpid s))) \<inter> A = {}"
  shows "\<exists>t L'. exit dvclose s = Some (Blocked, t) \<and> kok t L' \<and> prstate (proctab t (currpid s)) = PR_FREE \<and>
    currpid t \<noteq> currpid s \<and> undisturbed s {currpid s} t \<and>
    heap_holds lo hi (heap t) (A \<union> heap_region Stk (prstkbase (proctab s (currpid s))) (prstklen (proctab s (currpid s))))"
proof -
  let ?c = "currpid s"
  let ?e = "proctab s ?c"
  have c: "0 \<le> ?c" "?c < NPROC" "prstate ?e = PR_CURR" "prstate ?e \<noteq> PR_FREE"
    using kmidD(6,7)[OF kokD(1)[OF assms(1)]] kokD(4)[OF assms(1)] by auto
  obtain u where u: "kill dvclose ?c s = kill_rest dvclose ?c u" "kok u L" "currpid u = ?c" "heap u = heap s"
    "\<And>x. (proctab u x)\<lparr>prmsg := 0, prhasmsg := False\<rparr> = (proctab s x)\<lparr>prmsg := 0, prhasmsg := False\<rparr>"
    using kill_tells_parent[OF assms(1) c(1,2) assms(2) c(4) assms(3,4), of dvclose] assms(6) by auto
  have e: "prstate (proctab u x) = prstate (proctab s x)" "prstkbase (proctab u x) = prstkbase (proctab s x)"
    "prstklen (proctab u x) = prstklen (proctab s x)" for x
    using arg_cong[OF u(5)[of x], of prstate] arg_cong[OF u(5)[of x], of prstkbase]
      arg_cong[OF u(5)[of x], of prstklen] by simp_all
  obtain h where h: "freestk (prstkbase ?e) (prstklen ?e) (heap u) = Some (OK, h)"
    "heap_holds lo hi h (A \<union> heap_region Stk (prstkbase ?e) (prstklen ?e))"
    using heap_release_law[OF assms(7-10)] u(4) by auto
  have fs: "freestk (prstkbase (proctab u (currpid u))) (prstklen (proctab u (currpid u))) (heap u) = Some (OK, h)"
    using h(1) e u(3) by simp
  obtain t L' where t: "kill_rest dvclose (currpid u) u = Some (Blocked, t)" "kok t L'" "heap t = h"
    "currpid t \<noteq> currpid u" "prstate (proctab t (currpid u)) = PR_FREE"
    "\<forall>x. x \<noteq> currpid u \<and> prstate (proctab u x) \<notin> {PR_CURR, PR_READY} \<longrightarrow>
       prstate (proctab t x) = prstate (proctab u x)"
    using kill_self[where dvclose = dvclose, OF u(2) _ assms(5) fs] u(3) assms(2) by auto
  show ?thesis
    using t u(1,3) e h(2) by (intro exI[of _ t] exI[of _ L']) (simp add: undisturbed_def exit_def getpid_def)
qed

theorem kill_self_contract_witness:
  "\<exists>t L'. exit (\<lambda>d u. Some (OK, u)) demo = Some (Blocked, t) \<and> kok t L' \<and> prstate (proctab t 1) = PR_FREE \<and>
    currpid t \<noteq> 1"
proof -
  have r: "roundmb 400 = 400" by (simp add: roundmb_def u32_def)
  have rg: "heap_region Stk 13084 400 = {12688..<13088}" by (simp add: heap_region_def r)
  have "heap_usable 4096 65536 Stk 13084 400" by (simp add: heap_usable_def r)
  moreover have "heap_size_ok 400" by (simp add: heap_size_ok_def)
  ultimately show ?thesis
    using kill_self_contract[where dvclose = "\<lambda>d u. Some (OK, u)", OF demo_kok _ _ _ _ _ demo_heap_holds[folded demo_simps(10)]] rg
    by (force simp: NPROC_def NULLPROC_def demo_procs)
qed

section \<open>Start of the system\<close>

text \<open>C13: from the static initial tables, nulluser brings up a state that satisfies the kernel
  invariant in which the main process runs with priority INITPRIO on an initial stack whose frame
  starts its code, the null process is ready, and these two are all that is counted.\<close>

theorem boot_contract:
  assumes "0 < memlist (heap s)" "memlist (heap s) + 8 \<le> lo" "lo + 131072 \<le> hi" "hi < 4294967296"
      "lo mod 8 = 0" "hi mod 8 = 0"
    and "nextqid s = NPROC" "nextsem s = 0"
  shows "\<exists>t L. nulluser INITRET main lo hi s = Some t \<and> kok t L \<and>
    currpid t \<noteq> NULLPROC \<and> prstate (proctab t NULLPROC) = PR_READY \<and> prcount t = 2 \<and>
    prname (proctab t (currpid t)) = ''Main process'' \<and> prprio (proctab t (currpid t)) = INITPRIO \<and>
    words_at (mem (heap t)) (prstkptr (proctab t (currpid t))) (frame_words INITRET main [] @ [STACKMAGIC])"
  using nulluser_ok[OF assms] .

theorem boot_contract_witness:
  "\<exists>t L. nulluser 500 600 4096 262144 (demo\<lparr>nextqid := 100, nextsem := 0\<rparr>) = Some t \<and> kok t L \<and>
    prname (proctab t (currpid t)) = ''Main process''"
  using boot_contract[of "demo\<lparr>nextqid := 100, nextsem := 0\<rparr>" 4096 262144 500 600]
  by (auto simp: demo_heap_def NPROC_def)

section \<open>The heap\<close>

text \<open>C14: whatever sequence of getmem, getstk, freemem and freestk requests a program makes
  (returning only blocks it holds), no call faults or loops, the blocks held never overlap each
  other or the free list, and together with the free list they always cover exactly the memory
  that was free at the start: nothing is lost and nothing is handed out twice.\<close>

theorem heap_sessions:
  assumes "heap_wf h bs" and "list_all heap_size_ok (cmd_sizes cs)"
  shows "\<exists>h' out A. run_cmds heap_alloc heap_release (u32 SYSERR) cs (h, []) = Some (h', out) \<and>
    heap_holds (minheap h) (maxheap h) h' A \<and> tiled heap_region (avail bs) A out"
proof -
  have "heap_holds (minheap h) (maxheap h) h (avail bs)" using assms(1) by (auto simp: heap_holds_def)
  then have "heap.session_ok (minheap h) (maxheap h) (avail bs) (h, [])"
    by (auto simp: heap.session_ok_def tiled_def)
  then obtain r where "run_cmds heap_alloc heap_release (u32 SYSERR) cs (h, []) = Some r"
    "heap.session_ok (minheap h) (maxheap h) (avail bs) r"
    using heap.run_ok[OF _ assms(2)] by blast
  then show ?thesis unfolding heap.session_ok_def by (metis prod.collapse)
qed

theorem heap_sessions_witness:
  "\<exists>h' out A. run_cmds heap_alloc heap_release (u32 SYSERR)
      [Request Mem 100, Request Stk 400, Return_block 1, Request Mem 7] (demo_heap, []) = Some (h', out) \<and>
    tiled heap_region {4096..<12288} A out"
proof -
  have "avail [(4096, 8192)] = {4096..<12288}" by (simp add: avail_def span_def)
  then show ?thesis
    using heap_sessions[OF demo_heap_wf, of "[Request Mem 100, Request Stk 400, Return_block 1, Request Mem 7]"]
    by (auto simp: heap_size_ok_def)
qed

text \<open>C15: giving back a block right after it was allocated restores the free list exactly, block
  by block: the split made by getmem or getstk is undone by the coalescing of freemem.\<close>

theorem alloc_release_roundtrip:
  assumes "heap_wf h bs" and "0 < n" "n \<le> 4294967288" and "heap_alloc k n h = Some (r, h')" "r \<noteq> u32 SYSERR"
  shows "\<exists>h''. heap_release k r n h' = Some (OK, h'') \<and> heap_wf h'' bs"
  using heap_trip[OF assms] .

theorem alloc_release_roundtrip_witness:
  "\<exists>r h' h''. heap_alloc Stk 100 demo_heap = Some (r, h') \<and> heap_release Stk r 100 h' = Some (OK, h'') \<and>
    heap_wf h'' [(4096, 8192)]"
proof -
  have rm: "roundmb 100 = 104" by (simp add: roundmb_def u32_def)
  obtain h where h: "getstk 100 demo_heap = Some (12284, h)"
    using getstk_refines(2)[OF demo_heap_wf, of 100 12184 "[(4096, 8088)]"] rm by auto
  then show ?thesis
    using alloc_release_roundtrip[OF demo_heap_wf, of 100 Stk 12284 h] by (auto simp: u32_def)
qed

text \<open>A request within 7 bytes of 2^32 wraps to size zero when it is rounded up: getmem then
  returns the address of the first free block although the block stays on the free list, so the
  next request can be given the same memory.\<close>

theorem getmem_wraps:
  assumes "heap_wf h ((a, l) # bs)" and "4294967288 < n" "n < 4294967296"
  shows "\<exists>h'. getmem n h = Some (a, h') \<and> heap_wf h' ((a, l) # bs)"
  using getmem_huge[OF assms] .

theorem getmem_wraps_witness:
  "\<exists>h h'. getmem 4294967295 demo_heap = Some (4096, h) \<and> heap_wf h [(4096, 8192)] \<and>
    getmem 4294967295 h = Some (4096, h')"
proof -
  obtain h where h: "getmem 4294967295 demo_heap = Some (4096, h)" "heap_wf h [(4096, 8192)]"
    using getmem_wraps[OF demo_heap_wf, of 4294967295] by auto
  then show ?thesis using getmem_wraps[OF h(2), of 4294967295] by auto
qed

end
