(* ===== verification/Buffer_Pools.thy ===== *)
theory Buffer_Pools
  imports Life_Properties
begin

text \<open>
  Buffer pools (system/mkbufpool.c, getbuf.c, freebuf.c), the marks of system/mark.c, and the shape
  of a call that goes on after a call that may block: the part after the blocking call runs when
  the caller is next scheduled.
\<close>

section \<open>Continuing after a call that may switch\<close>

definition then_call :: "kst \<Rightarrow> (kst \<Rightarrow> (outcome \<times> kst) option) \<Rightarrow> kst \<Rightarrow> (outcome \<times> kst) option" where
  "then_call s rest t = (if currpid t = currpid s then rest t else Some (Blocked, t))"

definition as_ret :: "(int \<times> kst) option \<Rightarrow> (outcome \<times> kst) option" where
  "as_ret r = map_option (\<lambda>(v, t). (Ret v, t)) r"

section \<open>Words in memory\<close>

text \<open>A load through the null pointer is a fault.\<close>

definition load :: "int \<Rightarrow> kst \<Rightarrow> int option" where
  "load a s = (if a = NULL then None else Some (mem (heap s) a))"

definition store :: "int \<Rightarrow> int \<Rightarrow> kst \<Rightarrow> kst option" where
  "store a v s = (if a = NULL then None else Some (s\<lparr>heap := (heap s)\<lparr>mem := (mem (heap s))(a := v)\<rparr>\<rparr>))"

section \<open>Buffer pools\<close>

definition BP_MINB :: int where "BP_MINB = 8"
definition BP_MAXB :: int where "BP_MAXB = 8192"
definition BP_MAXN :: int where "BP_MAXN = 2048"
definition NBPOOLS :: int where "NBPOOLS = 20"

definition upd_bp :: "int \<Rightarrow> (bpentry \<Rightarrow> bpentry) \<Rightarrow> kst \<Rightarrow> kst" where
  "upd_bp p f s = s\<lparr>buftab := (buftab s)(p := f (buftab s p))\<rparr>"

text \<open>The loop that links the buffers; a buffer is named by its first word, its link.\<close>

definition link_buffers :: "int \<Rightarrow> int \<times> int \<times> kst \<Rightarrow> (int \<times> int \<times> kst + int \<times> kst) option" where
  "link_buffers bufsiz = (\<lambda>(numbufs, buf, s).
     if numbufs > 0 then do {
       s \<leftarrow> store buf (buf + bufsiz) s;
       Some (Inl (numbufs - 1, buf + bufsiz, s)) }
     else Some (Inr (buf, s)))"

definition mkbufpool :: "int \<Rightarrow> int \<Rightarrow> kst \<Rightarrow> (int \<times> kst) option" where
  "mkbufpool bufsiz numbufs s =
     (if bufsiz < BP_MINB \<or> bufsiz > BP_MAXB \<or> numbufs < 1 \<or> numbufs > BP_MAXN \<or> nbpools s \<ge> NBPOOLS
      then Some (SYSERR, s)
      else do {
        let bufsiz = (bufsiz + 3) - (bufsiz + 3) mod 4;
        (buf, h) \<leftarrow> getmem (u32 (numbufs * (bufsiz + 4))) (heap s);
        let s = s\<lparr>heap := h\<rparr>;
        if i32 buf = SYSERR then Some (SYSERR, s)
        else do {
          let poolid = nbpools s;
          let s = s\<lparr>nbpools := nbpools s + 1\<rparr>;
          let s = upd_bp poolid (\<lambda>e. e\<lparr>bpnext := buf, bpsize := bufsiz\<rparr>) s;
          (sem, s) \<leftarrow> semcreate numbufs s;
          let s = upd_bp poolid (\<lambda>e. e\<lparr>bpsem := sem\<rparr>) s;
          if sem = SYSERR then Some (SYSERR, s\<lparr>nbpools := nbpools s - 1\<rparr>)
          else do {
            (buf, s) \<leftarrow> c_loop (link_buffers (bufsiz + 4)) (numbufs - 1, buf, s);
            s \<leftarrow> store buf NULL s;
            Some (poolid, s) } } })"

definition getbuf_rest :: "int \<Rightarrow> kst \<Rightarrow> (outcome \<times> kst) option" where
  "getbuf_rest poolid s = do {
     let bufptr = bpnext (buftab s poolid);
     next \<leftarrow> load bufptr s;
     let s = upd_bp poolid (\<lambda>e. e\<lparr>bpnext := next\<rparr>) s;
     s \<leftarrow> store bufptr poolid s;
     Some (Ret (bufptr + 4), s) }"

definition getbuf :: "int \<Rightarrow> kst \<Rightarrow> (outcome \<times> kst) option" where
  "getbuf poolid s =
     (if poolid < 0 \<or> poolid \<ge> nbpools s then Some (Ret (u32 SYSERR), s)
      else do {
        (_, t) \<leftarrow> wait (bpsem (buftab s poolid)) s;
        then_call s (getbuf_rest poolid) t })"

definition freebuf :: "int \<Rightarrow> kst \<Rightarrow> (int \<times> kst) option" where
  "freebuf bufaddr s = do {
     let bufaddr = bufaddr - 4;
     poolid \<leftarrow> load bufaddr s;
     if poolid < 0 \<or> poolid \<ge> nbpools s then Some (SYSERR, s)
     else do {
       s \<leftarrow> store bufaddr (bpnext (buftab s poolid)) s;
       let s = upd_bp poolid (\<lambda>e. e\<lparr>bpnext := bufaddr\<rparr>) s;
       (_, s) \<leftarrow> signal (bpsem (buftab s poolid)) s;
       Some (OK, s) } }"

section \<open>Marks\<close>

definition MAXMARK :: int where "MAXMARK = 20"

definition markinit :: "kst \<Rightarrow> kst option" where
  "markinit s = do { (sem, s) \<leftarrow> semcreate 1 (s\<lparr>nmarks := 0\<rparr>); Some (s\<lparr>mkmutex := sem\<rparr>) }"

text \<open>The check of nmarks is made before the wait, the store after it; an index outside the array
  marks is a fault.\<close>

definition mark_rest :: "int \<Rightarrow> kst \<Rightarrow> (outcome \<times> kst) option" where
  "mark_rest loc s =
     (let n = nmarks s in
      do {
        s \<leftarrow> store loc n (s\<lparr>nmarks := n + 1\<rparr>);
        if 0 \<le> n \<and> n < MAXMARK then do {
          let s = s\<lparr>marks := (marks s)(n := loc)\<rparr>;
          (_, s) \<leftarrow> signal (mkmutex s) s;
          Some (Ret OK, s) }
        else None })"

definition mark :: "int \<Rightarrow> kst \<Rightarrow> (outcome \<times> kst) option" where
  "mark loc s = do {
     n \<leftarrow> load loc s;
     if n \<ge> 0 \<and> n < nmarks s \<and> marks s n = loc then Some (Ret OK, s)
     else if nmarks s \<ge> MAXMARK then Some (Ret SYSERR, s)
     else do {
       (_, t) \<leftarrow> wait (mkmutex s) s;
       then_call s (mark_rest loc) t } }"

section \<open>The free list of a pool\<close>

fun pool_chain :: "(int \<Rightarrow> int) \<Rightarrow> int \<Rightarrow> int list \<Rightarrow> bool" where
  "pool_chain m p [] \<longleftrightarrow> p = NULL"
| "pool_chain m p (b # bs) \<longleftrightarrow> p = b \<and> b \<noteq> NULL \<and> pool_chain m (m b) bs"

lemma pool_chain_cong: "(\<And>b. b \<in> set bs \<Longrightarrow> m' b = m b) \<Longrightarrow> pool_chain m' p bs = pool_chain m p bs"
  by (induction bs arbitrary: p) auto

lemma link_buffers_ok:
  assumes "0 < buf" "0 < sz"
  shows "\<exists>t. c_loop (link_buffers sz) (int k, buf, s) = Some (buf + int k * sz, t) \<and>
    t = s\<lparr>heap := (heap s)\<lparr>mem := mem (heap t)\<rparr>\<rparr> \<and>
    (\<forall>i < k. mem (heap t) (buf + int i * sz) = buf + int (Suc i) * sz) \<and>
    (\<forall>x. x < buf \<or> buf + int k * sz \<le> x \<longrightarrow> mem (heap t) x = mem (heap s) x)"
  using assms
proof (induction k arbitrary: buf s)
  case 0
  then show ?case by (subst c_loop_Inr) (auto simp: link_buffers_def)
next
  case (Suc k)
  let ?s = "s\<lparr>heap := (heap s)\<lparr>mem := (mem (heap s))(buf := buf + sz)\<rparr>\<rparr>"
  have st: "link_buffers sz (int (Suc k), buf, s) = Some (Inl (int k, buf + sz, ?s))"
    using Suc.prems by (simp add: link_buffers_def store_def NULL_def)
  have b: "0 < buf + sz" using Suc.prems by simp
  obtain t where t: "c_loop (link_buffers sz) (int k, buf + sz, ?s) = Some (buf + sz + int k * sz, t)"
    "t = ?s\<lparr>heap := (heap ?s)\<lparr>mem := mem (heap t)\<rparr>\<rparr>"
    "\<forall>i < k. mem (heap t) (buf + sz + int i * sz) = buf + sz + int (Suc i) * sz"
    "\<forall>x. x < buf + sz \<or> buf + sz + int k * sz \<le> x \<longrightarrow> mem (heap t) x = mem (heap ?s) x"
    using Suc.IH[OF b Suc.prems(2), of ?s] by blast
  have kz: "0 \<le> int k * sz" using Suc.prems by simp
  have "mem (heap t) (buf + int i * sz) = buf + int (Suc i) * sz" if "i < Suc k" for i
  proof (cases i)
    case 0
    then show ?thesis using t(4) Suc.prems by simp
  next
    case (Suc j)
    then have "buf + int i * sz = buf + sz + int j * sz" by (simp add: algebra_simps)
    then show ?thesis using t(3) that Suc by (simp add: algebra_simps)
  qed
  moreover have "mem (heap t) x = mem (heap s) x" if "x < buf \<or> buf + int (Suc k) * sz \<le> x" for x
  proof -
    have e: "buf + int (Suc k) * sz = buf + sz + int k * sz" by (simp add: algebra_simps)
    have "x \<noteq> buf" using that e kz Suc.prems(2) by linarith
    moreover have "x < buf + sz \<or> buf + sz + int k * sz \<le> x" using that e Suc.prems(2) by linarith
    ultimately show ?thesis using t(4) by auto
  qed
  moreover have "t = s\<lparr>heap := (heap s)\<lparr>mem := mem (heap t)\<rparr>\<rparr>" by (subst t(2)) simp
  moreover have "c_loop (link_buffers sz) (int (Suc k), buf, s) = Some (buf + int (Suc k) * sz, t)"
    unfolding c_loop_Inl[where f = "link_buffers sz", OF st] t(1) by (simp add: algebra_simps)
  ultimately show ?case by blast
qed

lemma chain_of_links:
  assumes "0 < sz" "0 < buf" "\<forall>i < k. m (buf + int i * sz) = buf + int (Suc i) * sz" "m (buf + int k * sz) = NULL"
  shows "pool_chain m buf (map (\<lambda>i. buf + int i * sz) [0..<Suc k])"
  using assms
proof (induction k arbitrary: buf)
  case 0
  then show ?case by (simp add: NULL_def)
next
  case (Suc k)
  have "\<forall>i < k. m (buf + sz + int i * sz) = buf + sz + int (Suc i) * sz"
  proof (intro allI impI)
    fix i assume "i < k"
    then have "m (buf + int (Suc i) * sz) = buf + int (Suc (Suc i)) * sz"
      using Suc.prems(3)[rule_format, of "Suc i"] by simp
    then show "m (buf + sz + int i * sz) = buf + sz + int (Suc i) * sz" by (simp add: algebra_simps)
  qed
  moreover have "m (buf + sz + int k * sz) = NULL" using Suc.prems(4) by (simp add: algebra_simps)
  ultimately have "pool_chain m (buf + sz) (map (\<lambda>i. buf + sz + int i * sz) [0..<Suc k])"
    using Suc.IH[of "buf + sz"] Suc.prems by simp
  moreover have "m buf = buf + sz" using Suc.prems(3) by force
  moreover have "map (\<lambda>i. buf + int i * sz) [0..<Suc (Suc k)] = buf # map (\<lambda>i. buf + sz + int i * sz) [0..<Suc k]"
    by (simp add: upt_conv_Cons map_Suc_upt[symmetric] algebra_simps del: upt_Suc)
  ultimately show ?case using Suc.prems(2) by (simp add: NULL_def del: upt_Suc map_upt_Suc)
qed

lemma kok_memory: "kok s L \<Longrightarrow> kok (s\<lparr>heap := h\<rparr>) L"
  using kok_frame(1) .

lemma kok_buftab:
  assumes "kok s L"
  shows "kok (upd_bp p f s) L" "kok (s\<lparr>nbpools := n\<rparr>) L"
  by (rule kok_congD[OF assms]; simp add: upd_bp_def)+

lemma load_store_simps [simp]:
  "a \<noteq> NULL \<Longrightarrow> load a s = Some (mem (heap s) a)"
  "a \<noteq> NULL \<Longrightarrow> store a v s = Some (s\<lparr>heap := (heap s)\<lparr>mem := (mem (heap s))(a := v)\<rparr>\<rparr>)"
  by (simp_all add: load_def store_def)

lemma upd_bp_simps [simp]:
  "heap (upd_bp p f s) = heap s" "currpid (upd_bp p f s) = currpid s" "semtab (upd_bp p f s) = semtab s"
  "nbpools (upd_bp p f s) = nbpools s" "buftab (upd_bp p f s) = (buftab s)(p := f (buftab s p))"
  "proctab (upd_bp p f s) = proctab s"
  by (simp_all add: upd_bp_def)

lemma upd_sem_memory [simp]:
  "buftab (upd_sem i f s) = buftab s" "nbpools (upd_sem i f s) = nbpools s"
  by (simp_all add: upd_sem_def)

definition pool_ok :: "kst \<Rightarrow> int \<Rightarrow> int list \<Rightarrow> bool" where
  "pool_ok s p bs \<longleftrightarrow> 0 \<le> p \<and> p < nbpools s \<and> pool_chain (mem (heap s)) (bpnext (buftab s p)) bs \<and> distinct bs \<and>
     (let i = bpsem (buftab s p) in \<not> isbadsem i \<and> sstate (semtab s i) = S_USED \<and> scount (semtab s i) = int (length bs))"

text \<open>The buffers linked, from the state in which the pool entry and its semaphore exist.\<close>

lemma pool_linked:
  assumes buf: "0 < buf" "8 < z" and k: "kok s L"
    and p: "bpnext (buftab s p) = buf" "bpsem (buftab s p) = i" "0 \<le> p" "p < nbpools s"
    and i: "\<not> isbadsem i" "sstate (semtab s i) = S_USED" "scount (semtab s i) = int (Suc m)"
  shows "\<exists>u. c_loop (link_buffers z) (int m, buf, s) = Some (buf + int m * z, u) \<and>
    (\<exists>v. store (buf + int m * z) NULL u = Some v \<and> kok v L \<and> nbpools v = nbpools s \<and>
      pool_ok v p (map (\<lambda>j. buf + int j * z) [0..<Suc m]))"
proof -
  have z: "0 < z" using buf(2) by simp
  obtain u where u: "c_loop (link_buffers z) (int m, buf, s) = Some (buf + int m * z, u)"
    "u = s\<lparr>heap := (heap s)\<lparr>mem := mem (heap u)\<rparr>\<rparr>"
    "\<forall>j < m. mem (heap u) (buf + int j * z) = buf + int (Suc j) * z"
    using link_buffers_ok[OF buf(1) z, of m s] by blast
  define a where "a = buf + int m * z"
  have mz: "0 \<le> int m * z" using z by simp
  have a: "a \<noteq> NULL" using buf(1) mz unfolding a_def NULL_def by linarith
  define v where "v = u\<lparr>heap := (heap u)\<lparr>mem := (mem (heap u))(a := NULL)\<rparr>\<rparr>"
  have st: "store a NULL u = Some v" using a by (simp add: v_def)
  have ku: "kok u L" by (subst u(2)) (rule kok_memory[OF k])
  have kv: "kok v L" unfolding v_def by (rule kok_memory[OF ku])
  have fu: "buftab u = buftab s" "nbpools u = nbpools s" "semtab u = semtab s" by (subst u(2), simp)+
  have fv: "buftab v = buftab s" "nbpools v = nbpools s" "semtab v = semtab s"
    "mem (heap v) = (mem (heap u))(a := NULL)" using fu by (simp_all add: v_def)
  let ?bs = "map (\<lambda>j. buf + int j * z) [0..<Suc m]"
  have "pool_chain (mem (heap v)) buf ?bs"
  proof (rule chain_of_links[OF z buf(1)])
    show "\<forall>j < m. mem (heap v) (buf + int j * z) = buf + int (Suc j) * z"
    proof (intro allI impI)
      fix j assume j: "j < m"
      then have "int j * z < int m * z" using z by (intro mult_strict_right_mono) auto
      then have "buf + int j * z \<noteq> a" unfolding a_def by linarith
      then show "mem (heap v) (buf + int j * z) = buf + int (Suc j) * z" using u(3) j fv(4) by simp
    qed
    show "mem (heap v) (buf + int m * z) = NULL" by (simp add: fv(4) a_def)
  qed
  moreover have "distinct ?bs"
  proof -
    have "inj_on (\<lambda>j. buf + int j * z) {0..<Suc m}" using z by (intro inj_onI) simp
    then show ?thesis by (simp add: distinct_map del: upt_Suc)
  qed
  ultimately have "pool_ok v p ?bs"
    using p i fv by (simp add: pool_ok_def Let_def del: upt_Suc)
  then show ?thesis using u(1) st kv fv(2) a_def by blast
qed

section \<open>A state with a pool\<close>

definition pool_demo :: kst where
  "pool_demo = demo\<lparr>heap := demo_heap\<lparr>mem := (mem demo_heap)(20000 := 20012, 20012 := 0)\<rparr>, nbpools := 1,
     buftab := (buftab demo)(0 := \<lparr>bpnext = 20000, bpsem = 1, bpsize = 8\<rparr>)\<rparr>"

lemma pool_demo_ok: "kok pool_demo demo_lists" "pool_ok pool_demo 0 [20000, 20012]"
proof -
  show "kok pool_demo demo_lists" by (rule kok_congD[OF demo_kok]) (simp_all add: pool_demo_def)
  show "pool_ok pool_demo 0 [20000, 20012]"
    by (simp add: pool_ok_def pool_demo_def NULL_def isbadsem_def NSEM_def demo_sem_def)
qed

lemma demo_getmem: "\<exists>h. getmem 24 demo_heap = Some (4096, h)"
proof -
  have "roundmb 24 = 24" by (simp add: roundmb_def u32_def)
  then show ?thesis using getmem_refines(2)[OF demo_heap_wf, of 24 4096 "[(4120, 8168)]"] by auto
qed

section \<open>Properties\<close>

text \<open>Mkbufpool with legal parameters, memory for the buffers and a free semaphore creates a pool
  whose free list links exactly the requested number of distinct buffers, laid out one after the
  other in the block taken from the heap, and whose semaphore counts them.\<close>

theorem mkbufpool_contract:
  assumes "kok s L" and "heap_holds lo hi (heap s) A"
    and "BP_MINB \<le> b" "b \<le> BP_MAXB" "1 \<le> n" "n \<le> BP_MAXN" "0 \<le> nbpools s" "nbpools s < NBPOOLS"
    and "getmem (n * ((b + 3) div 4 * 4 + 4)) (heap s) = Some (buf, h')" "buf \<noteq> u32 SYSERR"
    and "\<exists>i. 0 \<le> i \<and> i < NSEM \<and> sstate (semtab s i) = S_FREE"
  shows "\<exists>t. mkbufpool b n s = Some (nbpools s, t) \<and> kok t L \<and> nbpools t = nbpools s + 1 \<and>
    pool_ok t (nbpools s) (map (\<lambda>i. buf + int i * ((b + 3) div 4 * 4 + 4)) [0..<nat n]) \<and>
    (\<forall>i. 0 \<le> i \<and> i < n \<longrightarrow> {buf + i * ((b + 3) div 4 * 4 + 4) ..< buf + (i + 1) * ((b + 3) div 4 * 4 + 4)} \<subseteq> A)"
proof -
  define z where "z = (b + 3) div 4 * 4 + 4"
  note zd = z_def[symmetric]
  have lim: "8 \<le> b" "b \<le> 8192" "1 \<le> n" "n \<le> 2048" using assms(3-6) by (simp_all add: BP_MINB_def BP_MAXB_def BP_MAXN_def)
  have bz: "b + 3 - (b + 3) mod 4 = z - 4" by (simp add: z_def minus_mod_eq_div_mult)
  have z: "8 < z" "z \<le> 8200" using lim unfolding z_def by presburger+
  have nz: "0 < n * z" "n * z \<le> 2048 * 8200"
    using lim z by (simp, intro mult_mono) auto
  have sz: "heap_size_ok (n * z)" using nz by (simp add: heap_size_ok_def)
  have gm: "getmem (n * z) (heap s) = Some (buf, h')" using assms(9) unfolding zd .
  have us: "heap_usable lo hi Mem buf (n * z)" "heap_region Mem buf (n * z) \<subseteq> A"
    using heap_alloc_law[OF assms(2) sz, of Mem] gm assms(10) by auto
  have rg: "n * z \<le> roundmb (n * z)" using roundmb_spec[of "n * z"] nz by linarith
  have bp: "0 < buf" "buf < 4294967296" using us(1) nz rg by (auto simp: heap_usable_def)
  have nb: "i32 buf \<noteq> SYSERR" using i32_SYSERR[of buf] bp assms(10) by simp
  define p where "p = nbpools s"
  define s2 where "s2 = upd_bp p (\<lambda>e. e\<lparr>bpnext := buf, bpsize := z - 4\<rparr>) (s\<lparr>heap := h', nbpools := p + 1\<rparr>)"
  have k2: "kok s2 L" unfolding s2_def
  proof (rule kok_buftab(1))
    have "kok (s\<lparr>heap := h'\<rparr>) L" by (rule kok_memory[OF assms(1)])
    from kok_buftab(2)[OF this, of "p + 1"] show "kok (s\<lparr>heap := h', nbpools := p + 1\<rparr>) L" .
  qed
  have f2: "nbpools s2 = p + 1" "bpnext (buftab s2 p) = buf" "semtab s2 = semtab s"
    by (simp_all add: s2_def)
  obtain i t where t: "0 \<le> i" "i < NSEM" "semcreate n s2 = Some (i, t)" "kok t L"
    "semtab t = (semtab s2)(i := (semtab s2 i)\<lparr>sstate := S_USED, scount := n\<rparr>)"
    "t = s2\<lparr>semtab := semtab t, nextsem := nextsem t\<rparr>"
    using semcreate_ok[OF k2, of n] lim assms(11) by (auto simp: sem_free_def f2(3))
  define s3 where "s3 = upd_bp p (\<lambda>e. e\<lparr>bpsem := i\<rparr>) t"
  have ft: "nbpools t = p + 1" "bpnext (buftab t p) = buf" using f2 by (subst t(6), simp)+
  have f3: "bpnext (buftab s3 p) = buf" "bpsem (buftab s3 p) = i" "nbpools s3 = p + 1" "kok s3 L"
    using ft kok_buftab(1)[OF t(4)] by (simp_all add: s3_def)
  have i3: "\<not> isbadsem i" "sstate (semtab s3 i) = S_USED" "scount (semtab s3 i) = int (Suc (nat (n - 1)))"
    using t(1,2,5) lim by (simp_all add: s3_def isbadsem_def)
  have p0: "0 \<le> p" "p < nbpools s3" using assms(7) f3(3) by (simp_all add: p_def)
  obtain u v where u: "c_loop (link_buffers z) (int (nat (n - 1)), buf, s3) = Some (buf + int (nat (n - 1)) * z, u)"
    "store (buf + int (nat (n - 1)) * z) NULL u = Some v" "kok v L" "nbpools v = nbpools s3"
    "pool_ok v p (map (\<lambda>j. buf + int j * z) [0..<Suc (nat (n - 1))])"
    using pool_linked[OF bp(1) z(1) f3(4,1,2) p0 i3] by blast
  have k: "int (nat (n - 1)) = n - 1" "Suc (nat (n - 1)) = nat n" using lim by simp_all
  have nn: "\<not> (b < BP_MINB \<or> b > BP_MAXB \<or> n < 1 \<or> n > BP_MAXN \<or> nbpools s \<ge> NBPOOLS)"
    using assms(3-8) by linarith
  have u32z: "u32 (n * z) = n * z" using nz by (simp add: u32_id)
  have z4: "z - 4 + 4 = z" by simp
  have "mkbufpool b n s = Some (p, v)"
    unfolding mkbufpool_def if_not_P[OF nn] bz
    using gm nb t(1,3) u(1,2) unfolding k(1)
    by (simp add: Let_def u32z p_def[symmetric] s2_def[symmetric] s3_def[symmetric])
  moreover have "{buf + j * z ..< buf + (j + 1) * z} \<subseteq> A" if j: "0 \<le> j" "j < n" for j
  proof -
    have "0 \<le> j * z" "(j + 1) * z \<le> n * z" using j z by (simp, intro mult_right_mono) auto
    then have "{buf + j * z ..< buf + (j + 1) * z} \<subseteq> heap_region Mem buf (n * z)"
      using rg unfolding heap_region_def by auto
    then show ?thesis using us(2) by blast
  qed
  ultimately show ?thesis
    using u(3-5) f3(3) unfolding zd k(2) p_def by (intro exI[of _ v]) simp
qed

theorem mkbufpool_contract_witness:
  "\<exists>t. mkbufpool 8 2 demo = Some (0, t) \<and> kok t demo_lists \<and> pool_ok t 0 [4096, 4108]"
proof -
  have "\<exists>i. 0 \<le> i \<and> i < NSEM \<and> sstate (semtab demo i) = S_FREE"
    by (intro exI[of _ 2]) (simp add: demo_sem_def NSEM_def)
  then have "\<exists>t. mkbufpool 8 2 demo = Some (0, t) \<and> kok t demo_lists \<and>
    pool_ok t 0 (map (\<lambda>i. 4096 + int i * 12) [0..<nat 2])"
    using mkbufpool_contract[of demo demo_lists 4096 65536 "{4096..<12288}" 8 2 4096] demo_getmem demo_kok
      demo_heap_holds by (auto simp: BP_MINB_def BP_MAXB_def BP_MAXN_def NBPOOLS_def u32_def demo_def)
  moreover have "map (\<lambda>i. 4096 + int i * 12) [0..<nat 2] = [4096, 4108]" by (simp add: numeral_2_eq_2)
  ultimately show ?thesis by simp
qed

text \<open>C21: a buffer taken from a pool with free buffers is the first of its free list, carries the
  pool id in the word before the address returned, and giving it back restores the pool: the same
  free list, the same count, the kernel invariant kept throughout.\<close>

theorem getbuf_freebuf:
  assumes "kok s L" and "pool_ok s p (b # bs)" and "b \<noteq> NULL" "int (length bs) < 2147483646"
  shows "\<exists>t. getbuf p s = Some (Ret (b + 4), t) \<and> kok t L \<and> pool_ok t p bs \<and> mem (heap t) b = p \<and>
    (\<exists>u. freebuf (b + 4) t = Some (OK, u) \<and> kok u L \<and> pool_ok u p (b # bs) \<and> semtab u = semtab s)"
proof -
  define i where "i = bpsem (buftab s p)"
  define nx where "nx = mem (heap s) b"
  let ?m = "mem (heap s)"
  have a: "0 \<le> p" "p < nbpools s" "bpnext (buftab s p) = b" "pool_chain ?m nx bs" "b \<notin> set bs" "distinct bs"
    "\<not> isbadsem i" "sstate (semtab s i) = S_USED" "scount (semtab s i) = int (length bs) + 1"
    using assms(2) by (simp_all add: pool_ok_def Let_def i_def nx_def)
  have sp: "scount (semtab s i) > 0" using a(9) by linarith
  define s1 where "s1 = upd_sem i (\<lambda>e. e\<lparr>scount := scount e - 1\<rparr>) s"
  note w = wait_available[OF assms(1) a(7,8) sp, folded s1_def]
  have f1: "buftab s1 = buftab s" "nbpools s1 = nbpools s" "heap s1 = heap s" "currpid s1 = currpid s"
    "semtab s1 = (semtab s)(i := (semtab s i)\<lparr>scount := int (length bs)\<rparr>)"
    using a(9) by (simp_all add: s1_def upd_sem_def)
  define t where "t = (upd_bp p (\<lambda>e. e\<lparr>bpnext := nx\<rparr>) s1)\<lparr>heap := (heap s)\<lparr>mem := ?m(b := p)\<rparr>\<rparr>"
  have g: "getbuf p s = Some (Ret (b + 4), t)"
    using a(1-3) w(1) assms(3) f1 i_def nx_def
    by (simp add: getbuf_def then_call_def getbuf_rest_def t_def)
  have kt: "kok t L" unfolding t_def by (intro kok_memory kok_buftab(1) w(2))
  have ft: "nbpools t = nbpools s" "buftab t = (buftab s)(p := (buftab s p)\<lparr>bpnext := nx\<rparr>)"
    "mem (heap t) = ?m(b := p)" "semtab t = semtab s1" using f1 by (simp_all add: t_def)
  have st: "\<not> isbadsem i" "sstate (semtab t i) = S_USED" "scount (semtab t i) = int (length bs)"
    using a ft(4) f1(5) by simp_all
  have c: "pool_chain (m'(b := x)) nx bs" if "\<And>y. y \<in> set bs \<Longrightarrow> m' y = ?m y" for m' x
    using a(4,5) that by (subst pool_chain_cong[of bs _ ?m]) auto
  have pt: "pool_ok t p bs"
    using a(1,2,6) ft st c[of ?m p] i_def by (simp add: pool_ok_def Let_def)
  define t1 where "t1 = upd_bp p (\<lambda>e. e\<lparr>bpnext := b\<rparr>) (t\<lparr>heap := (heap t)\<lparr>mem := (mem (heap t))(b := nx)\<rparr>\<rparr>)"
  have k1: "kok t1 L" unfolding t1_def by (intro kok_memory kok_buftab(1) kt)
  have f2: "nbpools t1 = nbpools s" "buftab t1 p = (buftab s p)\<lparr>bpnext := b\<rparr>" "semtab t1 = semtab t"
    "mem (heap t1) = (?m(b := p))(b := nx)" using ft by (simp_all add: t1_def)
  have s2: "sstate (semtab t1 i) = S_USED" "0 \<le> scount (semtab t1 i)" "scount (semtab t1 i) < INT_MAX"
    using st f2(3) assms(4) by simp_all
  define u where "u = upd_sem i (\<lambda>e. e\<lparr>scount := scount e + 1\<rparr>) t1"
  note sg = signal_none[OF k1 st(1) s2, folded u_def]
  have fb: "freebuf (b + 4) t = Some (OK, u)"
    using a(1,2) assms(3) ft sg(1) i_def by (simp add: freebuf_def Let_def t1_def)
  have fu: "nbpools u = nbpools s" "buftab u = buftab t1" "mem (heap u) = mem (heap t1)"
    "semtab u = (semtab t)(i := (semtab t i)\<lparr>scount := int (length bs) + 1\<rparr>)"
    using f2 st by (simp_all add: u_def upd_sem_def)
  have su: "semtab u = semtab s" using fu(4) ft(4) f1(5) a(9) by (auto simp: fun_eq_iff)
  have "pool_ok u p (b # bs)"
    using a(1,2,5,6,7,8,9) assms(3) fu(1-3) f2(2,4) su c[of ?m nx] i_def
    by (simp add: pool_ok_def Let_def)
  then show ?thesis using g kt pt ft(3) fb sg(2) su by auto
qed

theorem getbuf_freebuf_witness:
  "\<exists>t u. getbuf 0 pool_demo = Some (Ret 20004, t) \<and> pool_ok t 0 [20012] \<and>
    freebuf 20004 t = Some (OK, u) \<and> pool_ok u 0 [20000, 20012]"
  using getbuf_freebuf[OF pool_demo_ok] by (auto simp: NULL_def)

end
