(* ===== verification/Kernel_Machine.thy ===== *)
theory Kernel_Machine
  imports Buffer_Pools
begin

text \<open>
  The kernel as a transition system: the running process makes a system call, a process that was
  switched out inside a call finishes it when it runs again, and the clock interrupts. The state
  is the kernel state and, for each process, the part of a call it still has to finish.
\<close>

section \<open>Calls\<close>

datatype kcall = Wait int | Signal int | Signaln int int | Semcreate int | Semdelete int | Semreset int int
  | Send int int | Receive | Recvclr | Recvtime int | Sleepms int | Sleep int | Yield
  | Resume int | Suspend int | Chprio int int

fun exec :: "kcall \<Rightarrow> kst \<Rightarrow> (outcome \<times> kst) option" where
  "exec (Wait i) s = as_ret (wait i s)"
| "exec (Signal i) s = as_ret (signal i s)"
| "exec (Signaln i n) s = as_ret (signaln i n s)"
| "exec (Semcreate n) s = as_ret (semcreate n s)"
| "exec (Semdelete i) s = as_ret (semdelete i s)"
| "exec (Semreset i n) s = as_ret (semreset i n s)"
| "exec (Send p m) s = as_ret (send p m s)"
| "exec Receive s = receive s"
| "exec Recvclr s = as_ret (recvclr s)"
| "exec (Recvtime n) s = recvtime n s"
| "exec (Sleepms n) s = as_ret (sleepms n s)"
| "exec (Sleep n) s = as_ret (sleep n s)"
| "exec Yield s = as_ret (yield s)"
| "exec (Resume p) s = as_ret (resume p s)"
| "exec (Suspend p) s = suspend p s"
| "exec (Chprio p n) s = Some (Ret (fst (chprio p n s)), snd (chprio p n s))"

text \<open>The arguments lie in the range of their C types and no count overflows. Delays up to the largest
  int are legal: a larger one turns negative on the way to the sleep queue.\<close>

fun legal :: "kst \<Rightarrow> kcall \<Rightarrow> bool" where
  "legal s (Signal i) \<longleftrightarrow> scount (semtab s i) < INT_MAX"
| "legal s (Signaln i n) \<longleftrightarrow> n < 0 \<or> scount (semtab s i) + n \<le> INT_MAX"
| "legal s (Semcreate n) \<longleftrightarrow> n \<le> INT_MAX"
| "legal s (Semdelete i) \<longleftrightarrow> scount (semtab s i) < INT_MAX"
| "legal s (Semreset i n) \<longleftrightarrow> n \<le> INT_MAX"
| "legal s (Recvtime n) \<longleftrightarrow> n \<le> INT_MAX"
| "legal s (Sleepms n) \<longleftrightarrow> 0 \<le> n \<and> n \<le> INT_MAX"
| "legal s (Sleep n) \<longleftrightarrow> 0 \<le> n \<and> n \<le> 2147483"
| "legal s (Chprio p n) \<longleftrightarrow> -32768 \<le> n \<and> n \<le> 32767"
| "legal s _ \<longleftrightarrow> True"

text \<open>What a call may do to the other processes: no message is lost, and a process that waits for a
  message goes on waiting until it has one.\<close>

definition msgs_kept :: "kst \<Rightarrow> kst \<Rightarrow> bool" where
  "msgs_kept s t \<longleftrightarrow> (\<forall>x. x \<noteq> currpid s \<longrightarrow>
     (prhasmsg (proctab s x) \<longrightarrow> prhasmsg (proctab t x)) \<and>
     (prstate (proctab s x) = PR_RECV \<longrightarrow> prstate (proctab t x) = PR_RECV \<or> prhasmsg (proctab t x)))"

lemma msgs_kept_refl [simp]: "msgs_kept s s"
  by (simp add: msgs_kept_def)

text \<open>The contract of a step: the invariant holds afterwards and messages are kept.\<close>

definition well :: "kst \<Rightarrow> (outcome \<times> kst) option \<Rightarrow> bool" where
  "well s r \<longleftrightarrow> (\<exists>v t L'. r = Some (v, t) \<and> kok t L' \<and> msgs_kept s t)"

lemma wellI: "r = Some (v, t) \<Longrightarrow> kok t L' \<Longrightarrow> msgs_kept s t \<Longrightarrow> well s r"
  unfolding well_def by blast

lemma well_retI: "r = Some (v, t) \<Longrightarrow> kok t L' \<Longrightarrow> msgs_kept s t \<Longrightarrow> well s (as_ret r)"
  unfolding well_def as_ret_def by auto

lemma well_same: "r = Some (v, s) \<Longrightarrow> kok s L \<Longrightarrow> well s (as_ret r)"
  by (erule well_retI) (assumption, rule msgs_kept_refl)

lemma waiting_state:
  assumes k: "kok s L" and i: "\<not> isbadsem i" and p: "p \<in> set (L (semq s i))"
  shows "prstate (proctab s p) = PR_WAIT"
proof -
  note m = kokD(1)[OF k] and r = i[unfolded not_isbadsem]
  have "0 \<le> p \<and> p < NPROC" using queues_wfD(6)[OF kmidD(5)[OF m] semq_ok(1)[OF m], of i] r p by fastforce
  then have "placed s L p (proctab s p)" using kinv0D(6)[OF kokD(5)[OF k]] by blast
  then show ?thesis using p r by (simp add: placed_def)
qed

lemma msgs_released:
  assumes k: "kok s L" "\<not> isbadsem i" and r: "released s L i P rest e t L'" "P \<subseteq> set (L (semq s i))"
  shows "msgs_kept s t"
proof -
  have "x \<notin> P" if "prstate (proctab s x) = PR_RECV" for x using waiting_state[OF k] r(2) that by auto
  then show ?thesis using r(1) unfolding msgs_kept_def released_def by auto
qed

lemma msgs_made_ready:
  assumes "made_ready u L p t" "\<And>x. prhasmsg (proctab s x) \<Longrightarrow> prhasmsg (proctab u x)"
    "\<And>x. prstate (proctab u x) = prstate (proctab s x)" "prstate (proctab s p) \<noteq> PR_RECV \<or> prhasmsg (proctab u p)"
  shows "msgs_kept s t"
proof -
  have h: "prhasmsg (proctab t x) = prhasmsg (proctab u x)" for x using sched_eq_proc(3)[OF made_readyD(3)[OF assms(1)]] .
  have "prstate (proctab t x) = PR_RECV \<or> prhasmsg (proctab t x)" if "prstate (proctab s x) = PR_RECV" for x
  proof (cases "x = p")
    case False
    then have "prstate (proctab t x) = prstate (proctab u x)" using made_readyD(5)[OF assms(1) False] that assms(3) by simp
    then show ?thesis using that assms(3) by simp
  next
    case True
    then show ?thesis using assms(4) that h by simp
  qed
  then show ?thesis using assms(2) h unfolding msgs_kept_def by blast
qed

lemma well_made_ready:
  assumes "r = Some (v, t)" "made_ready u L p t" "\<And>x. prhasmsg (proctab s x) \<Longrightarrow> prhasmsg (proctab u x)"
    "\<And>x. prstate (proctab u x) = prstate (proctab s x)" "prstate (proctab s p) \<noteq> PR_RECV \<or> prhasmsg (proctab u p)"
  shows "well s (as_ret r)"
proof -
  obtain L' where "kok t L'" using made_readyD(1)[OF assms(2)] by blast
  then show ?thesis using msgs_made_ready[OF assms(2-5)] assms(1) by (intro well_retI)
qed

lemma well_wait:
  assumes k: "kok s L" and nn: "currpid s \<noteq> NULLPROC"
  shows "well s (exec (Wait i) s)"
proof (cases "isbadsem i \<or> sstate (semtab s i) = S_FREE")
  case True
  show ?thesis unfolding exec.simps by (rule well_retI[OF sem_errors(1)[OF True] k]) simp
next
  case False
  then have i: "\<not> isbadsem i" "sstate (semtab s i) = S_USED" by (auto intro: sstate_t.exhaust[of "sstate (semtab s i)"])
  show ?thesis unfolding exec.simps
  proof (cases "0 < scount (semtab s i)")
    case True
    show "well s (as_ret (wait i s))"
      by (rule well_retI[OF wait_available[OF k i True]]) (simp add: msgs_kept_def)
  next
    case False
    then obtain u t where t: "wait i s = Some (OK, t)" "sched_eq u t" "kmid u (L(semq s i := L (semq s i) @ [currpid s]))"
      "kok t (resched_L u (L(semq s i := L (semq s i) @ [currpid s])))"
      "proctab u = (proctab s)(currpid s := (proctab s (currpid s))\<lparr>prstate := PR_WAIT, prsem := i\<rparr>)"
      "\<And>x. prstate (proctab t x) = resched_state u (L(semq s i := L (semq s i) @ [currpid s])) x"
      using wait_blocks[OF k i _ nn] by (metis not_less)
    have "msgs_kept s t"
      using undisturbed_resched[OF t(3,6), of _ "{currpid s}" s] sched_eq_proc(3)[OF t(2)] t(5)
      by (auto simp: msgs_kept_def)
    then show "well s (as_ret (wait i s))" by (rule well_retI[OF t(1,4)])
  qed
qed

lemma sem_cases:
  obtains "isbadsem i \<or> sstate (semtab s i) = S_FREE" | "\<not> isbadsem i" "sstate (semtab s i) = S_USED"
  by (cases "sstate (semtab s i)") auto

lemma well_signal:
  assumes k: "kok s L" and l: "legal s (Signal i)"
  shows "well s (exec (Signal i) s)"
proof (cases rule: sem_cases[of i s])
  case 1
  show ?thesis unfolding exec.simps by (rule well_retI[OF sem_errors(2)[OF 1] k]) simp
next
  case 2
  have so: "sem_ok s L i" using semq_ok(4)[OF kokD(1)[OF k]] 2(1)[unfolded not_isbadsem] by blast
  show ?thesis
  proof (cases "0 \<le> scount (semtab s i)")
    case True
    show ?thesis unfolding exec.simps
      by (rule well_retI[OF signal_none[OF k 2 True]]) (use l in \<open>simp_all add: msgs_kept_def\<close>)
  next
    case False
    then obtain p ps where p: "L (semq s i) = p # ps" using so 2(2) by (cases "L (semq s i)") (auto simp: sem_ok_def)
    have neg: "scount (semtab s i) < 0" using False by simp
    obtain qt t where t: "signal i s = Some (OK, t)"
      "made_ready ((upd_sem i (\<lambda>e. e\<lparr>scount := scount e + 1\<rparr>) s)\<lparr>queuetab := qt\<rparr>) (L(semq s i := ps)) p t"
      using signal_wakes[OF k 2 neg p] by blast
    have "prstate (proctab s p) = PR_WAIT" using waiting_state[OF k 2(1), of p] p by simp
    then show ?thesis unfolding exec.simps by (intro well_made_ready[OF t]) simp_all
  qed
qed

lemma well_released:
  assumes k: "kok s L" "\<not> isbadsem i" and t: "r = Some (v, t)" "released s L i P rest e t L'" "P \<subseteq> set (L (semq s i))"
  shows "well s (as_ret r)"
  using t(1) msgs_released[OF k t(2,3)] t(2) by (intro well_retI[where L' = L']) (simp_all add: released_def)

lemma well_signaln:
  assumes k: "kok s L" and l: "legal s (Signaln i n)"
  shows "well s (exec (Signaln i n) s)"
proof (cases rule: sem_cases[of i s])
  case 1
  show ?thesis unfolding exec.simps by (rule well_retI[OF sem_errors(3)[OF 1] k]) simp
next
  case 2
  show ?thesis
  proof (cases "n < 0")
    case True
    then have "signaln i n s = Some (SYSERR, s)" by (simp add: signaln_def)
    then show ?thesis unfolding exec.simps by (rule well_same[OF _ k])
  next
    case False
    then have n: "0 \<le> n" "scount (semtab s i) + n \<le> INT_MAX" using l by simp_all
    obtain t L' where t: "signaln i n s = Some (OK, t)"
      "released s L i (set (take (nat n) (L (semq s i)))) (drop (nat n) (L (semq s i)))
        ((semtab s i)\<lparr>scount := scount (semtab s i) + n\<rparr>) t L'" using signaln_ok[OF k 2 n] by blast
    show ?thesis unfolding exec.simps by (rule well_released[OF k 2(1) t set_take_subset])
  qed
qed

lemma well_semdelete:
  assumes k: "kok s L" and l: "legal s (Semdelete i)"
  shows "well s (exec (Semdelete i) s)"
proof (cases rule: sem_cases[of i s])
  case 1
  show ?thesis unfolding exec.simps by (rule well_retI[OF sem_errors(4)[OF 1] k]) simp
next
  case 2
  obtain t L' c where t: "semdelete i s = Some (OK, t)"
    "released s L i (set (L (semq s i))) [] ((semtab s i)\<lparr>sstate := S_FREE, scount := c\<rparr>) t L'"
    using semdelete_ok[OF k 2] l by auto
  show ?thesis unfolding exec.simps by (rule well_released[OF k 2(1) t]) simp
qed

lemma well_semreset:
  assumes k: "kok s L" and l: "legal s (Semreset i n)"
  shows "well s (exec (Semreset i n) s)"
proof (cases rule: sem_cases[of i s])
  case 1
  show ?thesis unfolding exec.simps by (rule well_retI[OF sem_errors(5)[OF 1] k]) simp
next
  case 2
  show ?thesis
  proof (cases "n < 0")
    case True
    then have "semreset i n s = Some (SYSERR, s)" by (simp add: semreset_def)
    then show ?thesis unfolding exec.simps by (rule well_same[OF _ k])
  next
    case False
    then have n: "0 \<le> n" "n \<le> INT_MAX" using l by simp_all
    obtain t L' where t: "semreset i n s = Some (OK, t)"
      "released s L i (set (L (semq s i))) [] ((semtab s i)\<lparr>scount := n\<rparr>) t L'" using semreset_ok[OF k 2 n] by blast
    show ?thesis unfolding exec.simps by (rule well_released[OF k 2(1) t]) simp
  qed
qed

lemma well_semcreate:
  assumes k: "kok s L" and l: "legal s (Semcreate n)"
  shows "well s (exec (Semcreate n) s)"
proof (cases "n < 0")
  case True
  then have "semcreate n s = Some (SYSERR, s)" by (simp add: semcreate_def)
  then show ?thesis unfolding exec.simps by (rule well_same[OF _ k])
next
  case False
  then have n: "0 \<le> n" "n \<le> INT_MAX" using l by simp_all
  from semcreate_ok[OF k n] show ?thesis
  proof (elim disjE exE conjE)
    fix i t assume t: "semcreate n s = Some (i, t)" "kok t L" "proctab t = proctab s"
    then show ?thesis unfolding exec.simps by (intro well_retI[OF t(1,2)]) (simp add: msgs_kept_def)
  next
    assume "semcreate n s = Some (SYSERR, s)"
    then show ?thesis unfolding exec.simps by (rule well_same[OF _ k])
  qed
qed

lemma well_send:
  assumes k: "kok s L"
  shows "well s (exec (Send p m) s)"
proof (cases "isbadpid s p \<or> prhasmsg (proctab s p)")
  case True
  then have "send p m s = Some (SYSERR, s)" by (auto simp: send_def)
  then show ?thesis unfolding exec.simps by (rule well_same[OF _ k])
next
  case False
  then have p: "\<not> isbadpid s p" "\<not> prhasmsg (proctab s p)" by simp_all
  consider (store) "prstate (proctab s p) \<noteq> PR_RECV" "prstate (proctab s p) \<noteq> PR_RECTIM"
    | (recv) "prstate (proctab s p) = PR_RECV" | (timed) "prstate (proctab s p) = PR_RECTIM" by blast
  then show ?thesis
  proof cases
    case store
    show ?thesis unfolding exec.simps by (rule well_retI[OF send_stores[OF k p store]]) (simp add: msgs_kept_def)
  next
    case recv
    obtain t where t: "send p m s = Some (OK, t)" "made_ready (deposit p m s) L p t"
      using send_wakes_receiver[OF k p recv] by blast
    show ?thesis unfolding exec.simps by (rule well_made_ready[OF t]) simp_all
  next
    case timed
    obtain us vs qt t where t: "send p m s = Some (OK, t)"
      "made_ready ((deposit p m s)\<lparr>queuetab := qt\<rparr>) (L(sleepq s := us @ vs)) p t"
      using send_wakes_timed[OF k p timed] by blast
    show ?thesis unfolding exec.simps by (rule well_made_ready[OF t]) simp_all
  qed
qed

lemma well_receive:
  assumes k: "kok s L" and nn: "currpid s \<noteq> NULLPROC"
  shows "well s (exec Receive s)"
proof (cases "prhasmsg (proctab s (currpid s))")
  case True
  show ?thesis unfolding exec.simps by (rule wellI[OF receive_has[OF k True]]) (simp add: msgs_kept_def)
next
  case False
  obtain t L' where t: "receive s = Some (Blocked, t)" "kok t L'" "sched_eq s t"
    "\<forall>x. x \<noteq> currpid s \<and> prstate (proctab s x) \<notin> {PR_CURR, PR_READY} \<longrightarrow> prstate (proctab t x) = prstate (proctab s x)"
    using receive_blocks[OF k False nn] by blast
  then show ?thesis unfolding exec.simps
    using sched_eq_proc(3)[OF t(3)] by (intro wellI[OF t(1,2)]) (auto simp: msgs_kept_def)
qed

lemma well_recvclr:
  assumes k: "kok s L"
  shows "well s (exec Recvclr s)"
  unfolding exec.simps recvclr_def using kmidD(6,7)[OF kokD(1)[OF k]]
    kok_upd_proc[OF k, of "\<lambda>e. e\<lparr>prhasmsg := False\<rparr>" "currpid s"] k
  by (auto simp: proc_at_def well_def as_ret_def msgs_kept_def)

lemma msgs_asleep: "fell_asleep s L st d t \<Longrightarrow> msgs_kept s t"
proof -
  assume f: "fell_asleep s L st d t"
  have "prhasmsg (proctab t x) = prhasmsg (proctab s x)" for x
  proof -
    have "(proctab t x)\<lparr>prstate := PR_FREE\<rparr> = (proctab s x)\<lparr>prstate := PR_FREE\<rparr>" using f by (simp add: fell_asleep_def)
    from arg_cong[OF this, of prhasmsg] show ?thesis by simp
  qed
  then show ?thesis using f by (auto simp: msgs_kept_def fell_asleep_def)
qed

lemma kok_asleep: "fell_asleep s L st d t \<Longrightarrow> \<exists>L'. kok t L'"
  by (auto simp: fell_asleep_def)

lemma well_recvtime:
  assumes k: "kok s L" and nn: "currpid s \<noteq> NULLPROC" and l: "legal s (Recvtime n)"
  shows "well s (exec (Recvtime n) s)"
proof (cases "n < 0")
  case True
  then show ?thesis unfolding exec.simps using k by (intro wellI[where L' = L and t = s]) (simp_all add: recvtime_def)
next
  case False
  show ?thesis
  proof (cases "prhasmsg (proctab s (currpid s))")
    case True
    have "kok (upd_proc (currpid s) (\<lambda>e. e\<lparr>prhasmsg := False\<rparr>) s) L" by (rule kok_upd_proc[OF k]) simp_all
    then show ?thesis unfolding exec.simps using recvtime_has[OF k True, of n] False
      by (intro wellI) (auto simp: msgs_kept_def)
  next
    case m: False
    obtain t where "recvtime n s = Some (Blocked, t)" "fell_asleep s L PR_RECTIM n t"
      using recvtime_blocks[OF k m nn, of n] False l by auto
    then show ?thesis unfolding exec.simps using kok_asleep msgs_asleep by (metis wellI)
  qed
qed

lemma well_yield:
  assumes k: "kok s L"
  shows "well s (exec Yield s)"
proof -
  obtain t where t: "resched s = Some t" "awakened s L {} (L (sleepq s)) t" using resched_awakened[OF k] by blast
  obtain L' where L': "kok t L'" using t(2) unfolding awakened_def by blast
  have sq: "sched_eq s t" "\<And>x. prstate (proctab s x) = PR_RECV \<Longrightarrow> prstate (proctab t x) = PR_RECV"
    using t(2) by (auto simp: awakened_def)
  have "msgs_kept s t" using sched_eq_proc(3)[OF sq(1)] sq(2) by (simp add: msgs_kept_def)
  then show ?thesis unfolding exec.simps using t(1) by (intro well_retI[OF _ L']) (simp_all add: yield_def)
qed

lemma well_sleepms:
  assumes k: "kok s L" and nn: "currpid s \<noteq> NULLPROC" and l: "legal s (Sleepms n)"
  shows "well s (exec (Sleepms n) s)"
proof (cases "n = 0")
  case True
  then show ?thesis using well_yield[OF k] by (simp add: sleepms_def)
next
  case False
  then obtain t where "sleepms n s = Some (OK, t)" "fell_asleep s L PR_SLEEP n t"
    using sleepms_ok[OF k nn, of n] l by auto
  then show ?thesis unfolding exec.simps using kok_asleep msgs_asleep by (metis well_retI)
qed

lemma well_sleep:
  assumes k: "kok s L" and nn: "currpid s \<noteq> NULLPROC" and l: "legal s (Sleep n)"
  shows "well s (exec (Sleep n) s)"
proof (cases "n = 0")
  case True
  then have "sleep n s = do { (_, s) \<leftarrow> yield s; Some (OK, s) }" by (simp add: sleep_def MAXSECONDS_def sleepms_def u32_def)
  then show ?thesis using well_yield[OF k] by (auto simp: well_def as_ret_def)
next
  case False
  then obtain t where "sleep n s = Some (OK, t)" "fell_asleep s L PR_SLEEP (1000 * n) t"
    using sleep_ok_call[OF k nn, of n] l by auto
  then show ?thesis unfolding exec.simps using kok_asleep msgs_asleep by (metis well_retI)
qed

lemma well_resume:
  assumes k: "kok s L"
  shows "well s (exec (Resume p) s)"
proof (cases "isbadpid s p \<or> prstate (proctab s p) \<noteq> PR_SUSP")
  case True
  show ?thesis unfolding exec.simps by (rule well_same[OF resume_error[OF True] k])
next
  case False
  then have p: "0 \<le> p" "p < NPROC" "prstate (proctab s p) = PR_SUSP" by (auto simp: isbadpid_def)
  obtain t where t: "resume p s = Some (prprio (proctab s p), t)" "made_ready s L p t" using resume_ok[OF k p] by blast
  show ?thesis unfolding exec.simps by (rule well_made_ready[OF t]) (use p in simp_all)
qed

lemma well_suspend:
  assumes k: "kok s L" and nn: "currpid s \<noteq> NULLPROC"
  shows "well s (exec (Suspend p) s)"
proof (cases "isbadpid s p \<or> p = NULLPROC \<or> prstate (proctab s p) \<notin> {PR_CURR, PR_READY}")
  case True
  show ?thesis unfolding exec.simps by (rule wellI[OF suspend_error[OF True] k]) simp
next
  case False
  then have p: "0 \<le> p" "p < NPROC" "p \<noteq> NULLPROC" "prstate (proctab s p) = PR_CURR \<or> prstate (proctab s p) = PR_READY"
    by (auto simp: isbadpid_def)
  show ?thesis
  proof (cases "prstate (proctab s p) = PR_READY")
    case True
    obtain t where t: "suspend p s = Some (Ret (prprio (proctab s p)), t)"
      "kok t (L(readylist s := remove1 p (L (readylist s))))" "sched_eq s t"
      "proctab t = (proctab s)(p := (proctab s p)\<lparr>prstate := PR_SUSP\<rparr>)"
      using suspend_ready[OF k p(1-3) True] by blast
    show ?thesis unfolding exec.simps by (rule wellI[OF t(1,2)]) (use t(4) True in \<open>simp add: msgs_kept_def\<close>)
  next
    case False
    then have c: "p = currpid s" using p kokD(5)[OF k] by (simp add: kinv0_def procs_ok_def)
    let ?c = "currpid s" and ?u = "set_state (currpid s) PR_SUSP s"
    have u: "kmid ?u L" using block_off[OF k nn, of PR_SUSP] by simp
    obtain t where t: "resched ?u = Some t" "kok t (resched_L ?u L)" "sched_eq ?u t"
      "currpid t = resched_pid ?u L" "\<And>p. prstate (proctab t p) = resched_state ?u L p"
      using resched_kok[OF u] kokD(3)[OF k] by auto
    have nc: "currpid t \<noteq> ?c" using resched_blocked[OF u _ t(4)] by simp
    then have "suspend ?c s = Some (Blocked, t)"
      using t(1) kokD(4,6)[OF k] nn by (simp add: suspend_def outcome_of_def)
    moreover have "msgs_kept s t"
      using undisturbed_resched[OF u t(5), of _ "{?c}" s] sched_eq_proc(3)[OF t(3)] by (auto simp: msgs_kept_def)
    ultimately show ?thesis unfolding exec.simps c using t(2) by (intro wellI)
  qed
qed

lemma well_chprio:
  assumes k: "kok s L" and l: "legal s (Chprio p n)"
  shows "well s (exec (Chprio p n) s)"
  unfolding exec.simps
  by (rule wellI[OF refl chprio_ok[OF k]]) (use l in \<open>auto simp: msgs_kept_def chprio_def\<close>)

lemma exec_well:
  assumes "kok s L" "currpid s \<noteq> NULLPROC" "legal s k"
  shows "well s (exec k s)"
  by (insert assms, cases k; hypsubst; rule well_wait well_signal well_signaln well_semcreate well_semdelete well_semreset well_send
      well_receive well_recvclr well_recvtime well_sleepms well_sleep well_yield well_resume well_suspend well_chprio; assumption)

lemma asleep_not_receiving:
  assumes k: "kok s L" and p: "p \<in> set (L (sleepq s))"
  shows "prstate (proctab s p) \<noteq> PR_RECV"
proof -
  note m = kokD(1)[OF k]
  have "0 \<le> p \<and> p < NPROC" using queues_wfD(6)[OF kmidD(5)[OF m] kmidD(9)[OF m]] p by auto
  then have "placed s L p (proctab s p)" using kinv0D(6)[OF kokD(5)[OF k]] by blast
  then show ?thesis using p by (auto simp: placed_def)
qed

lemma clock_well:
  assumes k: "kok s L"
  shows "\<exists>t L'. clkhandler s = Some t \<and> kok t L' \<and> msgs_kept s t"
proof -
  obtain u t where u: "clkhandler s = Some t" "u = (tick_time s)\<lparr>queuetab := queuetab u\<rparr>"
    "awakened u L (set (woken u L)) (still_asleep u L) t" using clkhandler_ok[OF k] by blast
  have fr: "sleepq u = sleepq s" "proctab u = proctab s"
    using arg_cong[OF u(2), of sleepq] arg_cong[OF u(2), of proctab] by simp_all
  have a: "sched_eq u t" "\<And>p. p \<notin> set (woken u L) \<Longrightarrow> prstate (proctab u p) \<notin> {PR_CURR, PR_READY} \<Longrightarrow>
      prstate (proctab t p) = prstate (proctab u p)" "\<exists>L'. kok t L'"
    using u(3) unfolding awakened_def by blast+
  have w: "set (woken u L) \<subseteq> set (L (sleepq s))" by (auto simp: woken_def fr(1) dest: set_takeWhileD)
  have "prstate (proctab t p) = PR_RECV" if "prstate (proctab s p) = PR_RECV" for p
  proof -
    have "p \<notin> set (woken u L)" using asleep_not_receiving[OF k] w that by blast
    then show ?thesis using a(2)[of p] that fr(2) by simp
  qed
  then have "msgs_kept s t" using sched_eq_proc(3)[OF a(1)] fr(2) by (simp add: msgs_kept_def)
  then show ?thesis using u(1) a(3) by blast
qed

section \<open>The transition system\<close>

datatype cont = Idle | In_receive | In_recvtime | In_suspend int

fun cont_of :: "kcall \<Rightarrow> cont" where
  "cont_of Receive = In_receive"
| "cont_of (Recvtime n) = In_recvtime"
| "cont_of (Suspend p) = In_suspend p"
| "cont_of _ = Idle"

fun finish :: "cont \<Rightarrow> kst \<Rightarrow> int \<times> kst" where
  "finish In_receive s = receive_rest s"
| "finish In_recvtime s = recvtime_rest s"
| "finish (In_suspend p) s = suspend_rest p s"
| "finish Idle s = (OK, s)"

inductive kstep :: "kst \<times> (int \<Rightarrow> cont) \<Rightarrow> kst \<times> (int \<Rightarrow> cont) \<Rightarrow> bool" where
  call: "c (currpid s) = Idle \<Longrightarrow> currpid s \<noteq> NULLPROC \<Longrightarrow> legal s k \<Longrightarrow> exec k s = Some (r, t) \<Longrightarrow>
    kstep (s, c) (t, c(currpid s := if r = Blocked then cont_of k else Idle))"
| return: "c (currpid s) \<noteq> Idle \<Longrightarrow> kstep (s, c) (snd (finish (c (currpid s)) s), c(currpid s := Idle))"
| tick: "c (currpid s) = Idle \<Longrightarrow> clkhandler s = Some t \<Longrightarrow> kstep (s, c) (t, c)"

inductive_cases kstep_cases: "kstep (s, c) m"

definition machine_ok :: "kst \<times> (int \<Rightarrow> cont) \<Rightarrow> bool" where
  "machine_ok m \<longleftrightarrow> (\<exists>L. kok (fst m) L) \<and>
     (\<forall>p. snd m p = In_receive \<longrightarrow> prstate (proctab (fst m) p) = PR_RECV \<or> prhasmsg (proctab (fst m) p))"

lemma receive_blocked_state:
  assumes "kok s L" "currpid s \<noteq> NULLPROC" "receive s = Some (Blocked, t)"
  shows "prstate (proctab t (currpid s)) = PR_RECV"
proof (cases "prhasmsg (proctab s (currpid s))")
  case True
  then show ?thesis using receive_has(1)[OF assms(1) True] assms(3) by simp
next
  case False
  then show ?thesis using receive_blocks[OF assms(1) False assms(2)] assms(3) by auto
qed

lemma finish_kok:
  assumes "kok s L"
  shows "kok (snd (finish c s)) L"
  using assms kok_upd_proc[OF assms, of "\<lambda>e. e\<lparr>prhasmsg := False\<rparr>" "currpid s"]
  by (cases c) (simp_all add: receive_rest_def recvtime_rest_def suspend_rest_def)

lemma finish_others:
  "x \<noteq> currpid s \<Longrightarrow> proctab (snd (finish c s)) x = proctab s x"
  by (cases c) (simp_all add: receive_rest_def recvtime_rest_def suspend_rest_def)

lemma kstep_ok: "kstep m m' \<Longrightarrow> machine_ok m \<Longrightarrow> machine_ok m'"
proof (induction rule: kstep.induct)
  case (call c s k r t)
  obtain L where L: "kok s L" using call.prems by (auto simp: machine_ok_def)
  obtain L' where t: "kok t L'" "msgs_kept s t"
    using exec_well[OF L call.hyps(2,3)] call.hyps(4) unfolding well_def by auto
  have "prstate (proctab t p) = PR_RECV \<or> prhasmsg (proctab t p)"
    if p: "(c(currpid s := if r = Blocked then cont_of k else Idle)) p = In_receive" for p
  proof (cases "p = currpid s")
    case True
    then have "r = Blocked" "k = Receive" using p by (auto split: if_splits elim: cont_of.elims)
    then show ?thesis using receive_blocked_state[OF L call.hyps(2)] call.hyps(4) True by simp
  next
    case False
    then have "c p = In_receive" using p by simp
    then have "prstate (proctab s p) = PR_RECV \<or> prhasmsg (proctab s p)" using call.prems by (simp add: machine_ok_def)
    then show ?thesis using t(2) False by (auto simp: msgs_kept_def)
  qed
  then show ?case using t(1) by (auto simp: machine_ok_def)
next
  case (return c s)
  obtain L where L: "kok s L" using return.prems by (auto simp: machine_ok_def)
  show ?case using finish_kok[OF L] finish_others[of _ s] return.prems unfolding machine_ok_def by auto
next
  case (tick c s t)
  obtain L where L: "kok s L" using tick.prems by (auto simp: machine_ok_def)
  obtain L' where t: "kok t L'" "msgs_kept s t" using clock_well[OF L] tick.hyps(2) by auto
  have "prstate (proctab t p) = PR_RECV \<or> prhasmsg (proctab t p)" if "c p = In_receive" for p
  proof -
    have "p \<noteq> currpid s" using that tick.hyps(1) by auto
    moreover have "prstate (proctab s p) = PR_RECV \<or> prhasmsg (proctab s p)" using tick.prems that by (simp add: machine_ok_def)
    ultimately show ?thesis using t(2) by (auto simp: msgs_kept_def)
  qed
  then show ?case using t(1) by (auto simp: machine_ok_def)
qed

lemma reachable_ok: "kstep\<^sup>*\<^sup>* m m' \<Longrightarrow> machine_ok m \<Longrightarrow> machine_ok m'"
  by (induction rule: rtranclp_induct) (auto intro: kstep_ok)

lemma machine_start: "kok s L \<Longrightarrow> machine_ok (s, \<lambda>_. Idle)"
  by (auto simp: machine_ok_def)

section \<open>A run on the sample state\<close>

text \<open>Process 1 waits for a message; process 6 runs, and sends it one; process 1 runs again, with the
  end of its call of receive still to do.\<close>

lemma demo_run:
  obtains t u where "receive demo = Some (Blocked, t)" "currpid t = 6" "send 1 42 t = Some (OK, u)" "currpid u = 1"
    "kstep\<^sup>*\<^sup>* (demo, \<lambda>_. Idle) (u, (\<lambda>_. Idle)(1 := In_receive))"
proof -
  have "do { (r, t) \<leftarrow> receive demo; (q, u) \<leftarrow> send 1 42 t; Some (r, q, currpid t, currpid u) } = Some (Blocked, OK, 6, 1)"
    by code_simp
  then obtain t u where t: "receive demo = Some (Blocked, t)" "currpid t = 6" "send 1 42 t = Some (OK, u)" "currpid u = 1"
    by (auto simp: bind_eq_Some_conv)
  have a: "kstep (demo, \<lambda>_. Idle) (t, (\<lambda>_. Idle)(currpid demo := if Blocked = Blocked then cont_of Receive else Idle))"
    by (rule kstep.call) (simp_all add: t NULLPROC_def)
  have b: "kstep (t, (\<lambda>_. Idle)(1 := In_receive))
      (u, ((\<lambda>_. Idle)(1 := In_receive))(currpid t := if Ret OK = Blocked then cont_of (Send 1 42) else Idle))"
    by (rule kstep.call) (simp_all add: t NULLPROC_def as_ret_def)
  have e: "((\<lambda>_. Idle)(1 := In_receive))(6 := Idle) = (\<lambda>_. Idle)((1 :: int) := In_receive)" by (simp add: fun_eq_iff)
  have "kstep\<^sup>*\<^sup>* (demo, \<lambda>_. Idle) (u, (\<lambda>_. Idle)(1 := In_receive))"
    using a b e t(2) by (auto intro: rtranclp.rtrancl_into_rtrancl)
  then show ?thesis using that t by blast
qed

section \<open>Properties\<close>

text \<open>C1: whatever calls the processes make and whenever the clock ticks, every state of the machine
  satisfies the kernel invariant: sound queues, every process in the one queue its state calls for,
  semaphore counts that match the waiting lists, delays in range.\<close>

theorem kernel_invariant:
  assumes "kok s0 L0" and "kstep\<^sup>*\<^sup>* (s0, \<lambda>_. Idle) (s, c)"
  shows "\<exists>L. kok s L"
  using reachable_ok[OF assms(2) machine_start[OF assms(1)]] by (simp add: machine_ok_def)

theorem kernel_invariant_witness: "\<exists>u L. kok u L \<and> currpid u = 1 \<and> kstep\<^sup>*\<^sup>* (demo, \<lambda>_. Idle) (u, (\<lambda>_. Idle)(1 := In_receive))"
  by (rule demo_run) (use kernel_invariant[OF demo_kok] in blast)

text \<open>C2: in every reachable state a legal call of the running process, and the clock handler, run to
  their end: no queue or table is indexed out of range, no loop runs for ever.\<close>

theorem kernel_no_fault:
  assumes "kok s0 L0" and "kstep\<^sup>*\<^sup>* (s0, \<lambda>_. Idle) (s, c)" and "currpid s \<noteq> NULLPROC" "legal s k"
  shows "(\<exists>r t. exec k s = Some (r, t)) \<and> (\<exists>t. clkhandler s = Some t)"
proof -
  obtain L where L: "kok s L" using reachable_ok[OF assms(2) machine_start[OF assms(1)]] by (auto simp: machine_ok_def)
  show ?thesis using exec_well[OF L assms(3,4)] clock_well[OF L] unfolding well_def by blast
qed

theorem kernel_no_fault_witness:
  "\<exists>u. kstep\<^sup>*\<^sup>* (demo, \<lambda>_. Idle) (u, (\<lambda>_. Idle)(1 := In_receive)) \<and> (\<exists>t. clkhandler u = Some t) \<and>
    (\<exists>r t. exec (Sleep 5) u = Some (r, t))"
proof (rule demo_run)
  fix t u assume u: "currpid u = 1" "kstep\<^sup>*\<^sup>* (demo, \<lambda>_. Idle) (u, (\<lambda>_. Idle)(1 := In_receive))"
  then show ?thesis using kernel_no_fault[OF demo_kok u(2), of "Sleep 5"] by (auto simp: NULLPROC_def)
qed

text \<open>C3: when a process that was blocked in receive runs again, there is a message for it, and the
  end of its call returns that message and empties the buffer.\<close>

theorem receive_delivers:
  assumes "kok s0 L0" and "kstep\<^sup>*\<^sup>* (s0, \<lambda>_. Idle) (s, c)" and "c (currpid s) = In_receive"
  shows "prhasmsg (proctab s (currpid s)) \<and> fst (finish (c (currpid s)) s) = prmsg (proctab s (currpid s)) \<and>
    \<not> prhasmsg (proctab (snd (finish (c (currpid s)) s)) (currpid s))"
proof -
  have ok: "machine_ok (s, c)" using reachable_ok[OF assms(2) machine_start[OF assms(1)]] .
  then obtain L where "kok s L" by (auto simp: machine_ok_def)
  then have "prstate (proctab s (currpid s)) = PR_CURR" using kokD(4) by blast
  then have "prhasmsg (proctab s (currpid s))" using ok assms(3) by (auto simp: machine_ok_def)
  then show ?thesis using assms(3) by (simp add: receive_rest_def)
qed

theorem receive_delivers_witness:
  "\<exists>u c. kstep\<^sup>*\<^sup>* (demo, \<lambda>_. Idle) (u, c) \<and> c (currpid u) = In_receive \<and> prhasmsg (proctab u 1)"
proof (rule demo_run)
  fix t u assume u: "currpid u = 1" "kstep\<^sup>*\<^sup>* (demo, \<lambda>_. Idle) (u, (\<lambda>_. Idle)(1 := In_receive))"
  then show ?thesis using receive_delivers[OF demo_kok u(2)] by (intro exI[of _ u] exI[of _ "(\<lambda>_. Idle)(1 := In_receive)"]) simp
qed

fun ticks :: "nat \<Rightarrow> kst \<Rightarrow> kst option" where
  "ticks 0 s = Some s"
| "ticks (Suc n) s = Option.bind (clkhandler s) (ticks n)"

lemma sleepers_nonempty:
  assumes "kok s L" "\<forall>(q, e) \<in> set (sleepers s L). 1 \<le> e" "(p, d) \<in> set (sleepers s L)"
  obtains x xs where "L (sleepq s) = x # xs" "1 \<le> keys s x"
proof (cases "L (sleepq s)")
  case Nil
  then show thesis using assms(3) by (simp add: sleepers_def)
next
  case (Cons x xs)
  then have "(x, keys s x) \<in> set (sleepers s L)" by (simp add: sleepers_def)
  then show thesis using assms(2) Cons that by blast
qed

lemma ticks_wake:
  assumes "kok s L" "\<forall>(q, e) \<in> set (sleepers s L). 1 \<le> e" "(p, int n + 1) \<in> set (sleepers s L)"
  shows "\<exists>t. ticks (Suc n) s = Some t \<and> prstate (proctab t p) \<in> {PR_CURR, PR_READY}"
  using assms
proof (induction n arbitrary: s L)
  case 0
  obtain x xs where x: "L (sleepq s) = x # xs" "1 \<le> keys s x" using sleepers_nonempty[OF 0] .
  obtain t L' where "clkhandler s = Some t"
    "\<forall>p d. (p, d) \<in> set (sleepers s L) \<and> d \<le> 1 \<longrightarrow> prstate (proctab t p) \<in> {PR_CURR, PR_READY}"
    using clkhandler_due[OF 0(1) x] by blast
  then show ?case using 0(3) by auto
next
  case (Suc n)
  obtain x xs where x: "L (sleepq s) = x # xs" "1 \<le> keys s x" using sleepers_nonempty[OF Suc.prems] .
  obtain t L' where t: "clkhandler s = Some t" "kok t L'"
    "sleepers t L' = map (\<lambda>(p, d). (p, d - 1)) (filter (\<lambda>(p, d). 1 < d) (sleepers s L))"
    using clkhandler_due[OF Suc.prems(1) x] by blast
  have "\<forall>(q, e) \<in> set (sleepers t L'). 1 \<le> e" unfolding t(3) by auto
  moreover have "(p, int n + 1) \<in> set (sleepers t L')" unfolding t(3) using Suc.prems(3) by force
  ultimately obtain u where "ticks (Suc n) t = Some u" "prstate (proctab u p) \<in> {PR_CURR, PR_READY}"
    using Suc.IH[OF t(2)] by blast
  then show ?case using t(1) by auto
qed



end
