(* ===== verification/Ports.thy ===== *)
theory Ports
  imports Buffer_Pools
begin

text \<open>
  Communication ports (include/ports.h, system/ptinit.c, ptcreate.c, ptsend.c, ptrecv.c,
  ptdelete.c, ptreset.c, ptclear.c, ptcount.c): the message nodes live in memory, the port table in
  the kernel state. ports_ok says which node lists a state holds; the contracts are stated over it.
\<close>

section \<open>Operations\<close>

definition NPORTS :: int where "NPORTS = 30"

definition isbadport :: "int \<Rightarrow> bool" where
  "isbadport portid \<longleftrightarrow> portid < 0 \<or> portid \<ge> NPORTS"

definition upd_pt :: "int \<Rightarrow> (ptentry \<Rightarrow> ptentry) \<Rightarrow> kst \<Rightarrow> kst" where
  "upd_pt p f s = s\<lparr>porttab := (porttab s)(p := f (porttab s p))\<rparr>"

text \<open>A struct ptnode is its address: ptmsg is the word there, ptnext the word four bytes up.\<close>

definition link_nodes :: "int \<times> int \<times> int \<times> kst \<Rightarrow> (int \<times> int \<times> int \<times> kst + int \<times> kst) option" where
  "link_nodes = (\<lambda>(curr, next, maxmsgs, s).
     let maxmsgs = maxmsgs - 1 in
     if maxmsgs > 0 then do {
       let next = next + 8;
       s \<leftarrow> store (curr + 4) next s;
       Some (Inl (next, next, maxmsgs, s)) }
     else Some (Inr (curr, s)))"

definition ptinit :: "int \<Rightarrow> kst \<Rightarrow> (outcome \<times> kst) option" where
  "ptinit maxmsgs s = do {
     (a, h) \<leftarrow> getmem (u32 (maxmsgs * 8)) (heap s);
     let s = s\<lparr>heap := h, ptfree := a\<rparr>;
     if ptfree s = u32 SYSERR then Some (Blocked, s\<lparr>halted := True\<rparr>)
     else do {
       let s = fold (\<lambda>i. upd_pt i (\<lambda>e. e\<lparr>ptstate := PT_FREE, ptseq := 0\<rparr>)) [0..NPORTS - 1] s;
       let s = s\<lparr>ptnextid := 0\<rparr>;
       (curr, s) \<leftarrow> c_loop link_nodes (ptfree s, ptfree s, maxmsgs, s);
       s \<leftarrow> store (curr + 4) NULL s;
       Some (Ret OK, s) } }"

definition ptcreate_iter :: "int \<times> kst \<Rightarrow> (int \<times> kst + int \<times> kst) option" where
  "ptcreate_iter = (\<lambda>(i, s).
     if i < NPORTS then
       let ptnum = ptnextid s;
         s = s\<lparr>ptnextid := (if ptnextid s + 1 \<ge> NPORTS then 0 else ptnextid s + 1)\<rparr> in
       if ptstate (porttab s ptnum) = PT_FREE
       then Some (Inr (ptnum, upd_pt ptnum (\<lambda>e. e\<lparr>ptstate := PT_ALLOC\<rparr>) s))
       else Some (Inl (i + 1, s))
     else Some (Inr (SYSERR, s)))"

definition ptcreate :: "int \<Rightarrow> kst \<Rightarrow> (int \<times> kst) option" where
  "ptcreate count s =
     (if count < 0 then Some (SYSERR, s)
      else do {
        (ptnum, s) \<leftarrow> c_loop ptcreate_iter (0, s);
        if ptnum = SYSERR then Some (SYSERR, s)
        else do {
          (ssem, s) \<leftarrow> semcreate count s;
          let s = upd_pt ptnum (\<lambda>e. e\<lparr>ptssem := ssem\<rparr>) s;
          (rsem, s) \<leftarrow> semcreate 0 s;
          let s = upd_pt ptnum (\<lambda>e. e\<lparr>ptrsem := rsem, pthead := NULL, pttail := NULL,
            ptseq := i32 (ptseq e + 1), ptmaxcnt := u16 count\<rparr>) s;
          Some (ptnum, s) } })"

text \<open>What follows the wait of ptsend and ptrecv: the port may have been reset meanwhile.\<close>

definition ptsend_rest :: "int \<Rightarrow> int \<Rightarrow> int \<Rightarrow> kst \<Rightarrow> (outcome \<times> kst) option" where
  "ptsend_rest portid seq msg s =
     (let e = porttab s portid in
      if ptstate e \<noteq> PT_ALLOC \<or> ptseq e \<noteq> seq then Some (Ret SYSERR, s)
      else if ptfree s = NULL then Some (Blocked, s\<lparr>halted := True\<rparr>)
      else do {
        let msgnode = ptfree s;
        next \<leftarrow> load (msgnode + 4) s;
        let s = s\<lparr>ptfree := next\<rparr>;
        s \<leftarrow> store (msgnode + 4) NULL s;
        s \<leftarrow> store msgnode msg s;
        let tailnode = pttail e;
        s \<leftarrow> (if tailnode = NULL
              then Some (upd_pt portid (\<lambda>e. e\<lparr>pthead := msgnode, pttail := msgnode\<rparr>) s)
              else do {
                s \<leftarrow> store (tailnode + 4) msgnode s;
                Some (upd_pt portid (\<lambda>e. e\<lparr>pttail := msgnode\<rparr>) s) });
        (_, s) \<leftarrow> signal (ptrsem (porttab s portid)) s;
        Some (Ret OK, s) })"

definition ptsend :: "int \<Rightarrow> int \<Rightarrow> kst \<Rightarrow> (outcome \<times> kst) option" where
  "ptsend portid msg s =
     (if isbadport portid \<or> ptstate (porttab s portid) \<noteq> PT_ALLOC then Some (Ret SYSERR, s)
      else do {
        let seq = ptseq (porttab s portid);
        (v, t) \<leftarrow> wait (ptssem (porttab s portid)) s;
        if v = SYSERR then Some (Ret SYSERR, t)
        else then_call s (ptsend_rest portid seq msg) t })"

definition ptrecv_rest :: "int \<Rightarrow> int \<Rightarrow> kst \<Rightarrow> (outcome \<times> kst) option" where
  "ptrecv_rest portid seq s =
     (let e = porttab s portid in
      if ptstate e \<noteq> PT_ALLOC \<or> ptseq e \<noteq> seq then Some (Ret (u32 SYSERR), s)
      else do {
        let msgnode = pthead e;
        msg \<leftarrow> load msgnode s;
        next \<leftarrow> load (msgnode + 4) s;
        let s = (if pthead e = pttail e then upd_pt portid (\<lambda>e. e\<lparr>pthead := NULL, pttail := NULL\<rparr>) s
                 else upd_pt portid (\<lambda>e. e\<lparr>pthead := next\<rparr>) s);
        s \<leftarrow> store (msgnode + 4) (ptfree s) s;
        let s = s\<lparr>ptfree := msgnode\<rparr>;
        (_, s) \<leftarrow> signal (ptssem (porttab s portid)) s;
        Some (Ret msg, s) })"

definition ptrecv :: "int \<Rightarrow> kst \<Rightarrow> (outcome \<times> kst) option" where
  "ptrecv portid s =
     (if isbadport portid \<or> ptstate (porttab s portid) \<noteq> PT_ALLOC then Some (Ret (u32 SYSERR), s)
      else do {
        let seq = ptseq (porttab s portid);
        (v, t) \<leftarrow> wait (ptrsem (porttab s portid)) s;
        if v = SYSERR then Some (Ret (u32 SYSERR), t)
        else then_call s (ptrecv_rest portid seq) t })"

text \<open>The disposal function is the caller's; it may change the state, and it runs without blocking.
  semreset and semdelete may switch to a process that they release, so _ptclear is cut after each
  of them: the rest runs when the caller is scheduled again.\<close>

definition ptclear_walk :: "(int \<Rightarrow> kst \<Rightarrow> kst option) \<Rightarrow> int \<times> kst \<Rightarrow> (int \<times> kst + kst) option" where
  "ptclear_walk dispose = (\<lambda>(walk, s).
     if walk \<noteq> NULL then do {
       msg \<leftarrow> load walk s;
       s \<leftarrow> dispose msg s;
       next \<leftarrow> load (walk + 4) s;
       Some (Inl (next, s)) }
     else Some (Inr s))"

definition ptclear_end :: "int \<Rightarrow> ptstate_t \<Rightarrow> kst \<Rightarrow> (outcome \<times> kst) option" where
  "ptclear_end p newstate s = Some (Ret 0, upd_pt p (\<lambda>e. e\<lparr>ptstate := newstate\<rparr>) s)"

definition ptclear_recv :: "int \<Rightarrow> ptstate_t \<Rightarrow> kst \<Rightarrow> (outcome \<times> kst) option" where
  "ptclear_recv p newstate s = do {
     (_, t) \<leftarrow> (if newstate = PT_ALLOC then semreset (ptrsem (porttab s p)) 0 s
                else semdelete (ptrsem (porttab s p)) s);
     then_call s (ptclear_end p newstate) t }"

definition ptclear :: "int \<Rightarrow> ptstate_t \<Rightarrow> (int \<Rightarrow> kst \<Rightarrow> kst option) \<Rightarrow> kst \<Rightarrow> (outcome \<times> kst) option" where
  "ptclear p newstate dispose s = do {
     let s = upd_pt p (\<lambda>e. e\<lparr>ptstate := PT_LIMBO, ptseq := i32 (ptseq e + 1)\<rparr>) s;
     let walk = pthead (porttab s p);
     s \<leftarrow> (if walk \<noteq> NULL then do {
             s \<leftarrow> c_loop (ptclear_walk dispose) (walk, s);
             s \<leftarrow> store (pttail (porttab s p) + 4) (ptfree s) s;
             Some (s\<lparr>ptfree := pthead (porttab s p)\<rparr>) }
           else Some s);
     let s = (if newstate = PT_ALLOC then upd_pt p (\<lambda>e. e\<lparr>pthead := NULL, pttail := NULL\<rparr>) s else s);
     (_, t) \<leftarrow> (if newstate = PT_ALLOC then semreset (ptssem (porttab s p)) (ptmaxcnt (porttab s p)) s
                else semdelete (ptssem (porttab s p)) s);
     then_call s (ptclear_recv p newstate) t }"

definition ptdelete :: "int \<Rightarrow> (int \<Rightarrow> kst \<Rightarrow> kst option) \<Rightarrow> kst \<Rightarrow> (outcome \<times> kst) option" where
  "ptdelete portid disp s =
     (if isbadport portid \<or> ptstate (porttab s portid) \<noteq> PT_ALLOC then Some (Ret SYSERR, s)
      else do {
        (r, t) \<leftarrow> ptclear portid PT_FREE disp s;
        if r = Blocked then Some (Blocked, t) else Some (Ret OK, t\<lparr>ptnextid := portid\<rparr>) })"

definition ptreset :: "int \<Rightarrow> (int \<Rightarrow> kst \<Rightarrow> kst option) \<Rightarrow> kst \<Rightarrow> (outcome \<times> kst) option" where
  "ptreset portid disp s =
     (if isbadport portid \<or> ptstate (porttab s portid) \<noteq> PT_ALLOC then Some (Ret SYSERR, s)
      else do {
        (r, t) \<leftarrow> ptclear portid PT_ALLOC disp s;
        if r = Blocked then Some (Blocked, t) else Some (Ret OK, t) })"

definition ptcount :: "int \<Rightarrow> kst \<Rightarrow> int" where
  "ptcount portid s =
     (if isbadport portid \<or> ptstate (porttab s portid) \<noteq> PT_ALLOC then SYSERR
      else
        let e = porttab s portid; count = semcount (ptrsem e) s in
        if count \<ge> 0 then
          let sndcnt = semcount (ptssem e) s in
          if sndcnt < 0 then i32 (count - sndcnt) else count
        else count)"

section \<open>The message lists\<close>

abbreviation pnext :: "(int \<Rightarrow> int) \<Rightarrow> int \<Rightarrow> int" where
  "pnext m \<equiv> \<lambda>a. m (a + 4)"

definition port_holds :: "kst \<Rightarrow> int \<Rightarrow> int list \<Rightarrow> bool" where
  "port_holds s p ns \<longleftrightarrow> pool_chain (pnext (mem (heap s))) (pthead (porttab s p)) ns \<and>
     pttail (porttab s p) = (if ns = [] then NULL else last ns)"

definition allocated :: "kst \<Rightarrow> int \<Rightarrow> bool" where
  "allocated s p \<longleftrightarrow> 0 \<le> p \<and> p < NPORTS \<and> ptstate (porttab s p) = PT_ALLOC"

text \<open>Q gives the nodes queued at each port, F the free nodes.\<close>

definition ports_ok :: "kst \<Rightarrow> (int \<Rightarrow> int list) \<Rightarrow> int list \<Rightarrow> bool" where
  "ports_ok s Q F \<longleftrightarrow>
     pool_chain (pnext (mem (heap s))) (ptfree s) F \<and> distinct F \<and> (\<forall>a \<in> set F. 8 dvd a) \<and>
     0 \<le> ptnextid s \<and> ptnextid s < NPORTS \<and>
     (\<forall>p. allocated s p \<longrightarrow> port_holds s p (Q p) \<and> distinct (Q p) \<and> set (Q p) \<inter> set F = {} \<and>
        (\<forall>a \<in> set (Q p). 8 dvd a)) \<and>
     (\<forall>p q. allocated s p \<and> allocated s q \<and> p \<noteq> q \<longrightarrow> set (Q p) \<inter> set (Q q) = {})"

definition port_msgs :: "kst \<Rightarrow> int list \<Rightarrow> int list" where
  "port_msgs s ns = map (mem (heap s)) ns"

lemma upd_sem_ports [simp]:
  "porttab (upd_sem i f s) = porttab s" "ptfree (upd_sem i f s) = ptfree s" "ptnextid (upd_sem i f s) = ptnextid s"
  by (simp_all add: upd_sem_def)

lemma upd_pt_simps [simp]:
  "heap (upd_pt p f s) = heap s" "currpid (upd_pt p f s) = currpid s" "semtab (upd_pt p f s) = semtab s"
  "ptfree (upd_pt p f s) = ptfree s" "ptnextid (upd_pt p f s) = ptnextid s" "proctab (upd_pt p f s) = proctab s"
  "porttab (upd_pt p f s) = (porttab s)(p := f (porttab s p))"
  by (simp_all add: upd_pt_def)

lemma kok_ports:
  assumes "kok s L"
  shows "kok (upd_pt p f s) L" "kok (s\<lparr>ptfree := n\<rparr>) L" "kok (s\<lparr>ptnextid := n\<rparr>) L"
  by (rule kok_congD[OF assms]; simp add: upd_pt_def)+

lemma aligned_apart: "8 dvd (a :: int) \<Longrightarrow> 8 dvd b \<Longrightarrow> a + 4 \<noteq> b"
  by presburger

lemma ports_ok_cong:
  "heap t = heap s \<Longrightarrow> porttab t = porttab s \<Longrightarrow> ptfree t = ptfree s \<Longrightarrow> ptnextid t = ptnextid s \<Longrightarrow>
    ports_ok t Q F = ports_ok s Q F"
  by (simp add: ports_ok_def port_holds_def allocated_def)

lemma chain_snoc:
  assumes "pool_chain nx p ns" "distinct ns" "ns \<noteq> []" "f \<noteq> NULL" "nx' f = NULL" "nx' (last ns) = f"
    "\<And>a. a \<in> set ns \<Longrightarrow> a \<noteq> last ns \<Longrightarrow> nx' a = nx a"
  shows "pool_chain nx' p (ns @ [f])"
  using assms
proof (induction ns arbitrary: p)
  case (Cons n ns)
  show ?case
  proof (cases "ns = []")
    case True
    then show ?thesis using Cons.prems by simp
  next
    case False
    have "n \<noteq> last ns" using Cons.prems(2) False last_in_set[of ns] by auto
    then have "nx' n = nx n" using Cons.prems(7) False by simp
    moreover have "pool_chain nx' (nx n) (ns @ [f])"
      using Cons.prems False by (intro Cons.IH) auto
    ultimately show ?thesis using Cons.prems(1) by simp
  qed
qed simp

lemma chain_tail_head: "pool_chain nx p (n # ns) \<Longrightarrow> pool_chain nx (nx n) ns"
  by simp

lemma chain_nonnull: "pool_chain nx p ns \<Longrightarrow> a \<in> set ns \<Longrightarrow> a \<noteq> NULL"
  by (induction ns arbitrary: p) auto

text \<open>A node moves from the free list to the end of a port.\<close>

definition push_mem :: "(int \<Rightarrow> int) \<Rightarrow> int \<Rightarrow> int \<Rightarrow> int list \<Rightarrow> int \<Rightarrow> int" where
  "push_mem m f msg ns = (let m = m(f + 4 := NULL, f := msg) in if ns = [] then m else m(last ns + 4 := f))"

lemma push_mem_msgs:
  assumes "8 dvd a" "8 dvd f" "ns \<noteq> [] \<longrightarrow> 8 dvd last ns"
  shows "push_mem m f msg ns a = (if a = f then msg else m a)"
proof -
  have "a \<noteq> f + 4" "ns \<noteq> [] \<Longrightarrow> a \<noteq> last ns + 4" using assms aligned_apart by metis+
  then show ?thesis by (simp add: push_mem_def Let_def)
qed

lemma push_mem_links:
  assumes "8 dvd a" "8 dvd f"
  shows "push_mem m f msg ns (a + 4) = (if ns \<noteq> [] \<and> a = last ns then f else if a = f then NULL else m (a + 4))"
  using assms aligned_apart[of a f] by (simp add: push_mem_def Let_def)

lemma ports_ok_push:
  assumes ok: "ports_ok s Q (f # fs)" and p: "allocated s p"
    and t: "mem (heap t) = push_mem (mem (heap s)) f msg (Q p)" "ptfree t = mem (heap s) (f + 4)"
      "porttab t = (porttab s)(p := (porttab s p)\<lparr>pthead := if Q p = [] then f else pthead (porttab s p), pttail := f\<rparr>)"
      "ptnextid t = ptnextid s"
  shows "ports_ok t (Q(p := Q p @ [f])) fs"
    and "port_msgs t (Q p @ [f]) = port_msgs s (Q p) @ [msg]"
    and "allocated s q \<Longrightarrow> q \<noteq> p \<Longrightarrow> port_msgs t (Q q) = port_msgs s (Q q)"
proof -
  let ?m = "mem (heap s)" and ?m' = "push_mem (mem (heap s)) f msg (Q p)"
  have fr: "pool_chain (pnext ?m) (?m (f + 4)) fs" "f \<notin> set fs" "distinct fs" "8 dvd f" "\<forall>a \<in> set fs. 8 dvd a" "f \<noteq> NULL"
    using ok by (auto simp: ports_ok_def)
  have hold: "port_holds s q (Q q)" "distinct (Q q)" "set (Q q) \<inter> set (f # fs) = {}" "\<forall>a \<in> set (Q q). 8 dvd a"
    if "allocated s q" for q using ok that by (auto simp: ports_ok_def)
  have dj: "set (Q q) \<inter> set (Q r) = {}" if "allocated s q" "allocated s r" "q \<noteq> r" for q r
    using ok that unfolding ports_ok_def by blast
  have al: "allocated t q = allocated s q" for q by (simp add: allocated_def t(3))
  have la: "Q p \<noteq> [] \<longrightarrow> 8 dvd last (Q p)" using hold(4)[OF p] by simp
  have lf: "Q p \<noteq> [] \<longrightarrow> last (Q p) \<notin> set (f # fs)" using hold(3)[OF p] last_in_set[of "Q p"] by blast
  have "pool_chain (pnext ?m') (?m (f + 4)) fs"
  proof (subst pool_chain_cong[of fs _ "pnext ?m"])
    fix b assume b: "b \<in> set fs"
    then show "?m' (b + 4) = ?m (b + 4)" using fr lf push_mem_links[of b f ?m msg "Q p"] by auto
  qed (use fr in auto)
  moreover have ph: "port_holds t p (Q p @ [f])"
  proof (cases "Q p = []")
    case True
    then show ?thesis using fr push_mem_links[of f f ?m msg "Q p"] by (simp add: port_holds_def t)
  next
    case False
    have "pool_chain (pnext ?m') (pthead (porttab s p)) (Q p @ [f])"
    proof (rule chain_snoc[of "pnext ?m"])
      show "?m' (f + 4) = NULL" using push_mem_links[of f f ?m msg "Q p"] fr lf by auto
      show "?m' (last (Q p) + 4) = f" using push_mem_links[of "last (Q p)" f ?m msg "Q p"] fr(4) la False by simp
      fix a assume a: "a \<in> set (Q p)" "a \<noteq> last (Q p)"
      then have "a \<noteq> f" "8 dvd a" using hold(3,4)[OF p] by auto
      then show "?m' (a + 4) = ?m (a + 4)" using push_mem_links[of a f ?m msg "Q p"] a fr(4) by simp
    qed (use hold[OF p] fr False in \<open>auto simp: port_holds_def\<close>)
    then show ?thesis using False by (simp add: port_holds_def t)
  qed
  moreover have "port_holds t q (Q q)" if q: "allocated s q" "q \<noteq> p" for q
  proof -
    have "pool_chain (pnext ?m') (pthead (porttab s q)) (Q q) = pool_chain (pnext ?m) (pthead (porttab s q)) (Q q)"
    proof (rule pool_chain_cong)
      fix b assume b: "b \<in> set (Q q)"
      then have "b \<noteq> f" "8 dvd b" using hold(3,4)[OF q(1)] by auto
      moreover have "\<not> (Q p \<noteq> [] \<and> b = last (Q p))" using dj[OF q(1) p q(2)] b last_in_set[of "Q p"] by blast
      ultimately show "?m' (b + 4) = ?m (b + 4)" using push_mem_links[of b f ?m msg "Q p"] fr(4) by auto
    qed
    then show ?thesis using hold(1)[OF q(1)] q(2) by (simp add: port_holds_def t)
  qed
  moreover have "distinct (Q p @ [f])" "\<forall>a \<in> set (Q p @ [f]). 8 dvd a" "set (Q p @ [f]) \<inter> set fs = {}"
    using hold[OF p] fr by auto
  moreover have "set (Q q) \<inter> set (Q p @ [f]) = {}" if "allocated s q" "q \<noteq> p" for q
    using hold(3)[OF that(1)] dj[OF that(1) p that(2)] by auto
  moreover have "0 \<le> ptnextid t" "ptnextid t < NPORTS" using ok t(4) by (simp_all add: ports_ok_def)
  ultimately show "ports_ok t (Q(p := Q p @ [f])) fs"
    using fr hold dj unfolding ports_ok_def al t(1,2) by auto
  show "port_msgs t (Q p @ [f]) = port_msgs s (Q p) @ [msg]"
  proof -
    have "?m' a = ?m a" if "a \<in> set (Q p)" for a
    proof -
      have "8 dvd a" "a \<noteq> f" using that hold(3,4)[OF p] by auto
      then show ?thesis using push_mem_msgs[OF _ fr(4) la] by simp
    qed
    then show ?thesis using push_mem_msgs[OF fr(4) fr(4) la] by (simp add: port_msgs_def t)
  qed
  show "port_msgs t (Q q) = port_msgs s (Q q)" if q: "allocated s q" "q \<noteq> p"
  proof -
    have "?m' a = ?m a" if "a \<in> set (Q q)" for a
    proof -
      have "8 dvd a" "a \<noteq> f" using that hold(3,4)[OF q(1)] by auto
      then show ?thesis using push_mem_msgs[OF _ fr(4) la] by simp
    qed
    then show ?thesis by (simp add: port_msgs_def t)
  qed
qed

text \<open>The first node of a port moves to the free list.\<close>

lemma ports_ok_pop:
  assumes ok: "ports_ok s Q F" and p: "allocated s p" "Q p = n # ns"
    and t: "mem (heap t) = (mem (heap s))(n + 4 := ptfree s)" "ptfree t = n" "ptnextid t = ptnextid s"
      "porttab t = (porttab s)(p := (porttab s p)\<lparr>pthead := mem (heap s) (n + 4), pttail := if ns = [] then NULL else pttail (porttab s p)\<rparr>)"
  shows "ports_ok t (Q(p := ns)) (n # F)"
    and "port_msgs t ns = tl (port_msgs s (Q p))"
    and "allocated s q \<Longrightarrow> q \<noteq> p \<Longrightarrow> port_msgs t (Q q) = port_msgs s (Q q)"
proof -
  let ?m = "mem (heap s)"
  define m' where "m' = ?m(n + 4 := ptfree s)"
  note t = t(1)[folded m'_def] t(2-4)
  have fr: "pool_chain (pnext ?m) (ptfree s) F" "distinct F" "\<forall>a \<in> set F. 8 dvd a"
    using ok by (auto simp: ports_ok_def)
  have hold: "port_holds s q (Q q)" "distinct (Q q)" "set (Q q) \<inter> set F = {}" "\<forall>a \<in> set (Q q). 8 dvd a"
    if "allocated s q" for q using ok that by (auto simp: ports_ok_def)
  have dj: "set (Q q) \<inter> set (Q r) = {}" if "allocated s q" "allocated s r" "q \<noteq> r" for q r
    using ok that unfolding ports_ok_def by blast
  have al: "allocated t q = allocated s q" for q by (simp add: allocated_def t(4))
  have hp: "pthead (porttab s p) = n" "n \<noteq> NULL" "pool_chain (pnext ?m) (?m (n + 4)) ns"
    "pttail (porttab s p) = last (n # ns)" "n \<notin> set ns" "8 dvd n" "n \<notin> set F" "set ns \<inter> set F = {}" "distinct ns"
    "\<forall>a \<in> set ns. 8 dvd a"
    using hold[OF p(1)] p(2) by (auto simp: port_holds_def)
  have same: "pool_chain (pnext m') x xs = pool_chain (pnext ?m) x xs" if "n \<notin> set xs" for x xs
    by (rule pool_chain_cong) (use that in \<open>auto simp: m'_def\<close>)
  have msgs: "m' a = ?m a" if "8 dvd a" for a using aligned_apart[OF hp(6) that] by (simp add: m'_def)
  have nx: "m' (n + 4) = ptfree s" by (simp add: m'_def)
  have "pool_chain (pnext m') n (n # F)"
    using fr(1) hp(2,7) by (simp add: same nx)
  moreover have "port_holds t p ns"
    using hp(3,4,5) by (simp add: port_holds_def t same)
  moreover have "port_holds t q (Q q)" if q: "allocated s q" "q \<noteq> p" for q
  proof -
    have "n \<notin> set (Q q)" using dj[OF q(1) p(1) q(2)] p(2) by auto
    then show ?thesis using hold(1)[OF q(1)] q(2)
      by (simp add: port_holds_def t same)
  qed
  moreover have "set (Q q) \<inter> set (n # F) = {}" "set (Q q) \<inter> set ns = {}" if "allocated s q" "q \<noteq> p" for q
    using hold(3)[OF that(1)] dj[OF that(1) p(1) that(2)] p(2) by auto
  moreover have "0 \<le> ptnextid t" "ptnextid t < NPORTS" using ok t(3) by (simp_all add: ports_ok_def)
  ultimately show "ports_ok t (Q(p := ns)) (n # F)"
    using fr hold dj hp unfolding ports_ok_def al t(1,2) by auto
  show "port_msgs t ns = tl (port_msgs s (Q p))"
    using hp(10) msgs by (simp add: port_msgs_def t p(2))
  show "port_msgs t (Q q) = port_msgs s (Q q)" if q: "allocated s q" "q \<noteq> p"
    using hold(4)[OF q(1)] msgs by (simp add: port_msgs_def t)
qed

lemma signal_effect:
  assumes "kok s L" "\<not> isbadsem i" "sstate (semtab s i) = S_USED" "scount (semtab s i) < INT_MAX"
  shows "\<exists>t L'. signal i s = Some (OK, t) \<and> kok t L' \<and>
    semtab t = (semtab s)(i := (semtab s i)\<lparr>scount := scount (semtab s i) + 1\<rparr>) \<and>
    (\<forall>p \<in> set (take 1 (L (semq s i))). prstate (proctab t p) \<in> {PR_CURR, PR_READY}) \<and>
    heap t = heap s \<and> porttab t = porttab s \<and> ptfree t = ptfree s \<and> ptnextid t = ptnextid s"
proof (cases "L (semq s i)")
  case Nil
  have i: "0 \<le> i" "i < NSEM" using assms(2) by (auto simp: isbadsem_def)
  have "0 \<le> scount (semtab s i)"
    using semq_ok(4)[OF kokD(1)[OF assms(1)] i] assms(3) Nil by (simp add: sem_ok_def)
  then show ?thesis
    using signal_none[OF assms(1-3) _ assms(4)] Nil
    by (intro exI[of _ "upd_sem i (\<lambda>e. e\<lparr>scount := scount e + 1\<rparr>) s"] exI[of _ L]) simp
next
  case (Cons p ps)
  have i: "0 \<le> i" "i < NSEM" using assms(2) by (auto simp: isbadsem_def)
  have neg: "scount (semtab s i) < 0"
    using semq_ok(4)[OF kokD(1)[OF assms(1)] i] assms(3) Cons by (auto simp: sem_ok_def)
  obtain qt t where t: "signal i s = Some (OK, t)"
    "made_ready ((upd_sem i (\<lambda>e. e\<lparr>scount := scount e + 1\<rparr>) s)\<lparr>queuetab := qt\<rparr>) (L(semq s i := ps)) p t"
    using signal_wakes[OF assms(1-3) neg Cons] by blast
  note m = made_readyD[OF t(2)]
  obtain L' where "kok t L'" using m(1) by blast
  then show ?thesis using t(1) m(2) Cons sched_eqD[OF m(3)] by (intro exI[of _ t] exI[of _ L']) auto
qed

section \<open>Creating a port\<close>

definition port_free :: "kst \<Rightarrow> int \<Rightarrow> bool" where
  "port_free s p \<longleftrightarrow> ptstate (porttab s p) = PT_FREE"

definition port_adv :: "kst \<Rightarrow> kst" where
  "port_adv s = s\<lparr>ptnextid := (ptnextid s + 1) mod NPORTS\<rparr>"

definition port_claim :: "kst \<Rightarrow> kst" where
  "port_claim s = upd_pt (ptnextid s) (\<lambda>e. e\<lparr>ptstate := PT_ALLOC\<rparr>) (port_adv s)"

lemma port_wrap:
  "0 \<le> x \<Longrightarrow> x < NPORTS \<Longrightarrow> (if x + 1 \<ge> NPORTS then 0 else x + 1) = (x + 1) mod NPORTS"
  by (cases "x + 1 = NPORTS") auto

interpretation port_scan: slot_scan ptcreate_iter NPORTS "\<lambda>s. 0 \<le> ptnextid s \<and> ptnextid s < NPORTS"
  ptnextid port_free port_adv port_claim
proof unfold_locales
  show "0 < NPORTS" by (simp add: NPORTS_def)
  show "ptcreate_iter (NPORTS, s) = Some (Inr (SYSERR, s))" for s by (simp add: ptcreate_iter_def)
  show "ptcreate_iter (i, s) = Some (Inr (ptnextid s, port_claim s))"
    if "0 \<le> ptnextid s \<and> ptnextid s < NPORTS" "i < NPORTS" "port_free s (ptnextid s)" for s i
    using that port_wrap[of "ptnextid s"] by (simp add: ptcreate_iter_def port_claim_def port_adv_def port_free_def Let_def)
  show "ptcreate_iter (i, s) = Some (Inl (i + 1, port_adv s))"
    if "0 \<le> ptnextid s \<and> ptnextid s < NPORTS" "i < NPORTS" "\<not> port_free s (ptnextid s)" for s i
    using that port_wrap[of "ptnextid s"] by (simp add: ptcreate_iter_def port_adv_def port_free_def Let_def)
qed (simp_all add: port_adv_def port_free_def fun_eq_iff NPORTS_def)

lemma port_adv_many:
  assumes "0 \<le> ptnextid s" "ptnextid s < NPORTS"
  shows "(port_adv ^^ k) s = s\<lparr>ptnextid := (ptnextid s + int k) mod NPORTS\<rparr>"
  using assms by (induction k) (simp_all add: port_adv_def mod_simps add_ac)

lemma ptcreate_scan:
  assumes "0 \<le> ptnextid s" "ptnextid s < NPORTS"
  shows "(\<exists>p n. 0 \<le> p \<and> p < NPORTS \<and> port_free s p \<and> 0 \<le> n \<and> n < NPORTS \<and>
      c_loop ptcreate_iter (0, s) = Some (p, upd_pt p (\<lambda>e. e\<lparr>ptstate := PT_ALLOC\<rparr>) (s\<lparr>ptnextid := n\<rparr>))) \<or>
    ((\<forall>p. 0 \<le> p \<and> p < NPORTS \<longrightarrow> \<not> port_free s p) \<and> c_loop ptcreate_iter (0, s) = Some (SYSERR, s))"
proof -
  note many = port_adv_many[OF assms]
  have all: "(port_adv ^^ nat NPORTS) s = s" unfolding many using assms by (simp add: NPORTS_def)
  have claim: "port_claim (s\<lparr>ptnextid := p\<rparr>) =
      upd_pt p (\<lambda>e. e\<lparr>ptstate := PT_ALLOC\<rparr>) (s\<lparr>ptnextid := (p + 1) mod NPORTS\<rparr>)" for p
    by (simp add: port_claim_def port_adv_def upd_pt_def)
  have r: "0 \<le> (p + 1) mod NPORTS \<and> (p + 1) mod NPORTS < NPORTS" for p by (simp add: NPORTS_def)
  have g: "0 \<le> ptnextid s \<and> ptnextid s < NPORTS" using assms by simp
  from port_scan.scan[of s, OF g] show ?thesis
  proof (elim disjE exE conjE)
    fix p k assume p: "0 \<le> p" "p < NPORTS" "port_free s p" and k: "ptnextid ((port_adv ^^ k) s) = p"
      and e: "c_loop ptcreate_iter (0, s) = Some (p, port_claim ((port_adv ^^ k) s))"
    have "(port_adv ^^ k) s = s\<lparr>ptnextid := p\<rparr>" using k unfolding many by simp
    then have "c_loop ptcreate_iter (0, s) =
        Some (p, upd_pt p (\<lambda>e. e\<lparr>ptstate := PT_ALLOC\<rparr>) (s\<lparr>ptnextid := (p + 1) mod NPORTS\<rparr>))"
      using e claim by simp
    then show ?thesis using p r[of p] by blast
  qed (simp add: all)
qed

lemma ports_ok_new:
  assumes ok: "ports_ok s Q F" and p: "port_free s p" and n: "0 \<le> n" "n < NPORTS"
    and t: "heap t = heap s" "ptfree t = ptfree s" "ptnextid t = n" "porttab t = (porttab s)(p := e)"
      "pthead e = NULL" "pttail e = NULL"
  shows "ports_ok t (Q(p := [])) F"
proof -
  have "\<not> allocated s p" using p by (simp add: port_free_def allocated_def)
  then have al: "allocated t q \<Longrightarrow> q = p \<or> allocated s q" for q by (auto simp: allocated_def t(4) split: if_splits)
  have "port_holds t q ((Q(p := [])) q)" if "allocated t q" for q
    using ok al[OF that] t by (auto simp: ports_ok_def port_holds_def)
  then show ?thesis using ok al n t(1-3) unfolding ports_ok_def by (auto dest!: al) blast+
qed

lemma ptcreate_ok:
  assumes "kok s L" "ports_ok s Q F" "0 \<le> c" "c < 65536"
    and p: "\<exists>p. 0 \<le> p \<and> p < NPORTS \<and> port_free s p"
    and "sem_free s a" "sem_free s b" "a \<noteq> b" "0 \<le> a" "a < NSEM" "0 \<le> b" "b < NSEM"
  shows "\<exists>p i j t. ptcreate c s = Some (p, t) \<and> port_free s p \<and> allocated t p \<and> kok t L \<and> ports_ok t (Q(p := [])) F \<and>
    ptssem (porttab t p) = i \<and> ptrsem (porttab t p) = j \<and> i \<noteq> j \<and> sem_free s i \<and> sem_free s j \<and>
    \<not> isbadsem i \<and> \<not> isbadsem j \<and>
    semtab t i = (semtab s i)\<lparr>sstate := S_USED, scount := c\<rparr> \<and> semtab t j = (semtab s j)\<lparr>sstate := S_USED, scount := 0\<rparr>"
proof -
  have g: "0 \<le> ptnextid s" "ptnextid s < NPORTS" using assms(2) by (simp_all add: ports_ok_def)
  define s1 where "s1 p n = upd_pt p (\<lambda>e. e\<lparr>ptstate := PT_ALLOC\<rparr>) (s\<lparr>ptnextid := n\<rparr>)" for p n
  obtain p n where p: "0 \<le> p" "p < NPORTS" "port_free s p" "0 \<le> n" "n < NPORTS"
    "c_loop ptcreate_iter (0, s) = Some (p, s1 p n)"
    using ptcreate_scan[OF g] p unfolding s1_def by blast
  have k1: "kok (s1 p n) L" unfolding s1_def by (intro kok_ports(1) kok_ports(3) assms(1))
  have f1: "semtab (s1 p n) = semtab s" "heap (s1 p n) = heap s" by (simp_all add: s1_def)
  have c: "c \<le> INT_MAX" using assms(4) by simp
  obtain i u where i: "0 \<le> i" "i < NSEM" "sem_free s i" "semcreate c (s1 p n) = Some (i, u)" "kok u L"
    "semtab u = (semtab s)(i := (semtab s i)\<lparr>sstate := S_USED, scount := c\<rparr>)"
    "u = (s1 p n)\<lparr>semtab := semtab u, nextsem := nextsem u\<rparr>"
    using semcreate_ok[OF k1 assms(3) c] assms(6,9,10) unfolding sem_free_def f1 by blast
  define v where "v = upd_pt p (\<lambda>e. e\<lparr>ptssem := i\<rparr>) u"
  have kv: "kok v L" unfolding v_def by (rule kok_ports(1)[OF i(5)])
  have fv: "semtab v = semtab u" by (simp add: v_def)
  have "\<exists>x. 0 \<le> x \<and> x < NSEM \<and> sem_free v x"
    using assms(6-12) i(6) fv by (cases "i = a") (auto simp: sem_free_def)
  then obtain j w where j: "0 \<le> j" "j < NSEM" "sem_free v j" "semcreate 0 v = Some (j, w)" "kok w L"
    "semtab w = (semtab v)(j := (semtab v j)\<lparr>sstate := S_USED, scount := 0\<rparr>)"
    "w = v\<lparr>semtab := semtab w, nextsem := nextsem w\<rparr>"
    using semcreate_ok[OF kv, of 0] by auto
  define t where "t = upd_pt p (\<lambda>e. e\<lparr>ptrsem := j, pthead := NULL, pttail := NULL,
            ptseq := i32 (ptseq e + 1), ptmaxcnt := u16 c\<rparr>) w"
  have ij: "i \<noteq> j" "sem_free s j" using j(3) fv i(6) by (auto simp: sem_free_def split: if_splits)
  have fu: "heap u = heap s" "ptfree u = ptfree s" "ptnextid u = n" "porttab u = (porttab s)(p := (porttab s p)\<lparr>ptstate := PT_ALLOC\<rparr>)"
    by (subst i(7), simp add: s1_def)+
  have fw: "heap w = heap s" "ptfree w = ptfree s" "ptnextid w = n" "porttab w = porttab v"
    by (subst j(7), simp add: v_def fu)+
  have ft: "heap t = heap s" "ptfree t = ptfree s" "ptnextid t = n"
    "porttab t = (porttab s)(p := (porttab s p)\<lparr>ptstate := PT_ALLOC, ptssem := i, ptrsem := j, pthead := NULL, pttail := NULL,
            ptseq := i32 (ptseq (porttab s p) + 1), ptmaxcnt := u16 c\<rparr>)"
    by (simp_all add: t_def fw v_def fu)
  have "p \<noteq> SYSERR" using p(1) by simp
  then have "ptcreate c s = Some (p, t)"
    using assms(3) p(6) i(4) j(4) by (simp add: ptcreate_def t_def v_def Let_def)
  moreover have "kok t L" unfolding t_def by (rule kok_ports(1)[OF j(5)])
  moreover have "ports_ok t (Q(p := [])) F"
    using ports_ok_new[OF assms(2) p(3-5) ft] by simp
  moreover have "semtab t = semtab w" by (simp add: t_def)
  ultimately show ?thesis using p(1-3) i(1-3,6) ij j(1,2,6) fv ft(4)
    by (intro exI[of _ p] exI[of _ i] exI[of _ j] exI[of _ t]) (simp add: allocated_def isbadsem_def)
qed

section \<open>A state with two ports\<close>

text \<open>Port 0 is empty and process 2 waits to receive from it; port 1 holds one message and process 2
  is a sender that waits on it. One node is free.\<close>

definition port_demo :: kst where
  "port_demo = demo\<lparr>heap := demo_heap\<lparr>mem := (mem demo_heap)(20000 := 7)\<rparr>, ptfree := 20008,
     porttab := (porttab demo)(0 := \<lparr>ptssem = 1, ptrsem = 0, ptstate = PT_ALLOC, ptmaxcnt = 2, ptseq = 1, pthead = 0, pttail = 0\<rparr>,
       1 := \<lparr>ptssem = 0, ptrsem = 1, ptstate = PT_ALLOC, ptmaxcnt = 1, ptseq = 1, pthead = 20000, pttail = 20000\<rparr>)\<rparr>"

definition port_demo_nodes :: "int \<Rightarrow> int list" where
  "port_demo_nodes = (\<lambda>_. [])(1 := [20000])"

lemma port_demo_allocated: "allocated port_demo p \<longleftrightarrow> p = 0 \<or> p = 1"
  by (auto simp: allocated_def port_demo_def demo_def NPORTS_def)

lemma port_demo_ok: "kok port_demo demo_lists" "ports_ok port_demo port_demo_nodes [20008]"
proof -
  show "kok port_demo demo_lists" by (rule kok_congD[OF demo_kok]) (simp_all add: port_demo_def)
  show "ports_ok port_demo port_demo_nodes [20008]"
    unfolding ports_ok_def port_demo_allocated
    by (auto simp: port_demo_nodes_def port_holds_def port_demo_def demo_heap_def NULL_def NPORTS_def demo_def)
qed

lemma port_demo_sems:
  "allocated port_demo 0" "allocated port_demo 1" "\<not> isbadsem 0" "\<not> isbadsem 1"
  "ptssem (porttab port_demo 0) = 1" "ptrsem (porttab port_demo 0) = 0"
  "ptssem (porttab port_demo 1) = 0" "ptrsem (porttab port_demo 1) = 1"
  "sstate (semtab port_demo 0) = S_USED" "sstate (semtab port_demo 1) = S_USED"
  "scount (semtab port_demo 0) = -1" "scount (semtab port_demo 1) = 2"
  "demo_lists (semq port_demo 0) = [2]"
proof -
  show "allocated port_demo 0" "allocated port_demo 1" by (simp_all add: port_demo_allocated)
  show "\<not> isbadsem 0" "\<not> isbadsem 1" by (simp_all add: isbadsem_def NSEM_def)
  have "semq port_demo 0 = 100" by (simp add: semq_def port_demo_def demo_sem_def)
  then show "demo_lists (semq port_demo 0) = [2]" by (simp add: demo_lists_def)
qed (simp_all add: port_demo_def demo_sem_def)

section \<open>Properties\<close>

text \<open>C22: ptsend on a port with room takes a node from the free list, appends the message to the
  port's messages, leaves every other port alone, and releases a process that waits to receive.\<close>

theorem ptsend_contract:
  assumes "kok s L" and "ports_ok s Q (f # fs)" and "allocated s p"
    and "ptssem (porttab s p) = i" "ptrsem (porttab s p) = j" "i \<noteq> j"
    and "\<not> isbadsem i" "sstate (semtab s i) = S_USED" "0 < scount (semtab s i)"
    and "\<not> isbadsem j" "sstate (semtab s j) = S_USED" "scount (semtab s j) < INT_MAX"
  shows "\<exists>t L'. ptsend p msg s = Some (Ret OK, t) \<and> kok t L' \<and> ports_ok t (Q(p := Q p @ [f])) fs \<and>
    port_msgs t (Q p @ [f]) = port_msgs s (Q p) @ [msg] \<and>
    (\<forall>q. allocated s q \<and> q \<noteq> p \<longrightarrow> port_msgs t (Q q) = port_msgs s (Q q)) \<and>
    scount (semtab t i) = scount (semtab s i) - 1 \<and> scount (semtab t j) = scount (semtab s j) + 1 \<and>
    (\<forall>x \<in> set (take 1 (L (semq s j))). prstate (proctab t x) \<in> {PR_CURR, PR_READY})"
proof -
  define s1 where "s1 = upd_sem i (\<lambda>e. e\<lparr>scount := scount e - 1\<rparr>) s"
  note w = wait_available[OF assms(1,7-9), folded s1_def]
  let ?m = "mem (heap s)" and ?e = "porttab s p"
  have e: "ptstate ?e = PT_ALLOC" "\<not> isbadport p" using assms(3) by (simp_all add: allocated_def isbadport_def)
  have f: "ptfree s = f" "f \<noteq> NULL" "8 dvd f" using assms(2) by (simp_all add: ports_ok_def)
  have f4: "f + 4 \<noteq> NULL" using f(3) aligned_apart[of f 0] by (simp add: NULL_def)
  have h: "port_holds s p (Q p)" "\<forall>a \<in> set (Q p). 8 dvd a" using assms(2,3) by (simp_all add: ports_ok_def)
  have tl: "pttail ?e = (if Q p = [] then NULL else last (Q p))" using h by (simp add: port_holds_def)
  have l4: "last (Q p) + 4 \<noteq> NULL" "last (Q p) \<noteq> NULL" if "Q p \<noteq> []"
    using that h aligned_apart[of "last (Q p)" 0] chain_nonnull[of "pnext ?m" _ "Q p" "last (Q p)"]
    by (auto simp: NULL_def port_holds_def)
  have s1: "heap s1 = heap s" "porttab s1 = porttab s" "ptfree s1 = ptfree s" "ptnextid s1 = ptnextid s"
    "currpid s1 = currpid s" "semtab s1 = (semtab s)(i := (semtab s i)\<lparr>scount := scount (semtab s i) - 1\<rparr>)"
    by (simp_all add: s1_def)
  define u where "u = upd_pt p (\<lambda>e. e\<lparr>pthead := if Q p = [] then f else pthead ?e, pttail := f\<rparr>)
    (s1\<lparr>ptfree := ?m (f + 4), heap := (heap s)\<lparr>mem := push_mem ?m f msg (Q p)\<rparr>\<rparr>)"
  have ku: "kok u L" unfolding u_def by (intro kok_ports(1) kok_memory kok_ports(2) w(2))
  have fu: "mem (heap u) = push_mem ?m f msg (Q p)" "ptfree u = ?m (f + 4)" "ptnextid u = ptnextid s"
    "porttab u = (porttab s)(p := ?e\<lparr>pthead := if Q p = [] then f else pthead ?e, pttail := f\<rparr>)"
    "semtab u = semtab s1" "currpid u = currpid s"
    by (simp_all add: u_def s1)
  have sj: "sstate (semtab u j) = S_USED" "scount (semtab u j) < INT_MAX"
    using assms(6,11,12) fu(5) s1(6) by simp_all
  obtain t L' where t: "signal j u = Some (OK, t)" "kok t L'"
    "semtab t = (semtab u)(j := (semtab u j)\<lparr>scount := scount (semtab u j) + 1\<rparr>)"
    "\<forall>x \<in> set (take 1 (L (semq u j))). prstate (proctab t x) \<in> {PR_CURR, PR_READY}"
    "heap t = heap u" "porttab t = porttab u" "ptfree t = ptfree u" "ptnextid t = ptnextid u"
    using signal_effect[OF ku assms(10) sj] by blast
  have "ptsend_rest p (ptseq ?e) msg s1 = Some (Ret OK, t)"
  proof (cases "Q p = []")
    case True
    have "u = upd_pt p (\<lambda>e. e\<lparr>pthead := f, pttail := f\<rparr>)
        (s1\<lparr>ptfree := ?m (f + 4), heap := (heap s)\<lparr>mem := ?m(f + 4 := NULL, f := msg)\<rparr>\<rparr>)"
      by (simp add: u_def True push_mem_def Let_def)
    then show ?thesis using e(1) f f4 tl True assms(5) t(1) s1
      by (simp add: ptsend_rest_def Let_def del: fun_upd_apply) (simp add: upd_pt_def)
  next
    case False
    have "u = upd_pt p (\<lambda>e. e\<lparr>pttail := f\<rparr>)
        (s1\<lparr>ptfree := ?m (f + 4), heap := (heap s)\<lparr>mem := ?m(f + 4 := NULL, f := msg, last (Q p) + 4 := f)\<rparr>\<rparr>)"
      by (simp add: u_def False push_mem_def Let_def upd_pt_def s1)
    then show ?thesis using e(1) f f4 tl False assms(5) t(1) s1 l4
      by (simp add: ptsend_rest_def Let_def del: fun_upd_apply) (simp add: upd_pt_def)
  qed
  then have "ptsend p msg s = Some (Ret OK, t)"
    using e w(1) assms(4) s1(5) by (simp add: ptsend_def then_call_def)
  moreover note p = ports_ok_push[OF assms(2,3) fu(1,2,4,3)]
  have "ports_ok t (Q(p := Q p @ [f])) fs" using p(1) ports_ok_cong[OF t(5-8)] by simp
  moreover have "port_msgs t ns = port_msgs u ns" for ns by (simp add: port_msgs_def t(5))
  moreover have "semq u j = semq s j" using fu(5) s1(6) by (simp add: semq_def)
  moreover have "scount (semtab t i) = scount (semtab s i) - 1" "scount (semtab t j) = scount (semtab s j) + 1"
    using t(3) fu(5) s1(6) assms(6) by simp_all
  ultimately show ?thesis using t(2,4) p(2,3) by metis
qed

theorem ptsend_contract_witness:
  "\<exists>t. ptsend 0 9 port_demo = Some (Ret OK, t) \<and> port_msgs t [20008] = [9] \<and> port_msgs t [20000] = [7] \<and>
    prstate (proctab t 2) \<in> {PR_CURR, PR_READY}"
proof -
  have q: "port_demo_nodes 0 = []" "port_demo_nodes 1 = [20000]" by (simp_all add: port_demo_nodes_def)
  have m: "port_msgs port_demo [20000] = [7]" "port_msgs port_demo [] = []" by (simp_all add: port_msgs_def port_demo_def)
  obtain t where t: "ptsend 0 9 port_demo = Some (Ret OK, t)" "port_msgs t [20008] = [9]"
    "\<forall>q. allocated port_demo q \<and> q \<noteq> 0 \<longrightarrow> port_msgs t (port_demo_nodes q) = port_msgs port_demo (port_demo_nodes q)"
    "prstate (proctab t 2) \<in> {PR_CURR, PR_READY}"
    using ptsend_contract[OF port_demo_ok(1,2), of 0 1 0 9] port_demo_sems q m by auto
  then show ?thesis using t(3)[rule_format, of 1] port_demo_sems(2) q m by auto
qed

text \<open>C23: ptrecv on a port that holds messages returns the oldest one, puts its node back on the free
  list, leaves every other port alone, and releases a process that waits to send.\<close>

theorem ptrecv_contract:
  assumes "kok s L" and "ports_ok s Q F" and "allocated s p" "Q p = n # ns"
    and "ptssem (porttab s p) = i" "ptrsem (porttab s p) = j" "i \<noteq> j"
    and "\<not> isbadsem i" "sstate (semtab s i) = S_USED" "scount (semtab s i) < INT_MAX"
    and "\<not> isbadsem j" "sstate (semtab s j) = S_USED" "0 < scount (semtab s j)"
  shows "\<exists>t L'. ptrecv p s = Some (Ret (hd (port_msgs s (Q p))), t) \<and> kok t L' \<and> ports_ok t (Q(p := ns)) (n # F) \<and>
    port_msgs t ns = tl (port_msgs s (Q p)) \<and>
    (\<forall>q. allocated s q \<and> q \<noteq> p \<longrightarrow> port_msgs t (Q q) = port_msgs s (Q q)) \<and>
    scount (semtab t i) = scount (semtab s i) + 1 \<and> scount (semtab t j) = scount (semtab s j) - 1 \<and>
    (\<forall>x \<in> set (take 1 (L (semq s i))). prstate (proctab t x) \<in> {PR_CURR, PR_READY})"
proof -
  define s1 where "s1 = upd_sem j (\<lambda>e. e\<lparr>scount := scount e - 1\<rparr>) s"
  note w = wait_available[OF assms(1,11-13), folded s1_def]
  let ?m = "mem (heap s)" and ?e = "porttab s p"
  have e: "ptstate ?e = PT_ALLOC" "\<not> isbadport p" using assms(3) by (simp_all add: allocated_def isbadport_def)
  have h: "pthead ?e = n" "n \<noteq> NULL" "pttail ?e = last (n # ns)" "n \<notin> set ns" "8 dvd n"
    using assms(2,3,4) by (auto simp: ports_ok_def port_holds_def)
  have n4: "n + 4 \<noteq> NULL" using h(5) aligned_apart[of n 0] by (simp add: NULL_def)
  have one: "n = last (n # ns) \<longleftrightarrow> ns = []" using h(4) last_in_set[of ns] by auto
  have s1: "heap s1 = heap s" "porttab s1 = porttab s" "ptfree s1 = ptfree s" "ptnextid s1 = ptnextid s"
    "currpid s1 = currpid s" "semtab s1 = (semtab s)(j := (semtab s j)\<lparr>scount := scount (semtab s j) - 1\<rparr>)"
    by (simp_all add: s1_def)
  define x where "x = (if pthead ?e = pttail ?e then upd_pt p (\<lambda>e. e\<lparr>pthead := NULL, pttail := NULL\<rparr>) s1
    else upd_pt p (\<lambda>e. e\<lparr>pthead := ?m (n + 4)\<rparr>) s1)"
  have c: "(pthead ?e = pttail ?e) = (ns = [])" using h(1,3) one by simp
  have fx: "heap x = heap s" "ptfree x = ptfree s" "ptnextid x = ptnextid s" "semtab x = semtab s1"
    "porttab x = (porttab s)(p := ?e\<lparr>pthead := if ns = [] then NULL else ?m (n + 4), pttail := if ns = [] then NULL else pttail ?e\<rparr>)"
    by (simp_all add: x_def s1 c)
  have kx: "kok x L" unfolding x_def using kok_ports(1)[OF w(2)] by simp
  define u where "u = x\<lparr>heap := (heap s)\<lparr>mem := ?m(n + 4 := ptfree s)\<rparr>, ptfree := n\<rparr>"
  have ku: "kok u L" unfolding u_def by (intro kok_ports(2) kok_memory kx)
  have nil: "ns = [] \<Longrightarrow> ?m (n + 4) = NULL" using assms(2,3,4) by (auto simp: ports_ok_def port_holds_def)
  have fu: "mem (heap u) = ?m(n + 4 := ptfree s)" "ptfree u = n" "ptnextid u = ptnextid s"
    "porttab u = (porttab s)(p := ?e\<lparr>pthead := ?m (n + 4), pttail := if ns = [] then NULL else pttail ?e\<rparr>)"
    "semtab u = semtab s1"
    using nil by (simp_all add: u_def fx)
  have si: "sstate (semtab u i) = S_USED" "scount (semtab u i) < INT_MAX"
    using assms(7,9,10) fu(5) s1(6) by simp_all
  obtain t L' where t: "signal i u = Some (OK, t)" "kok t L'"
    "semtab t = (semtab u)(i := (semtab u i)\<lparr>scount := scount (semtab u i) + 1\<rparr>)"
    "\<forall>x \<in> set (take 1 (L (semq u i))). prstate (proctab t x) \<in> {PR_CURR, PR_READY}"
    "heap t = heap u" "porttab t = porttab u" "ptfree t = ptfree u" "ptnextid t = ptnextid u"
    using signal_effect[OF ku assms(8) si] by blast
  have "ptrecv_rest p (ptseq ?e) s1 = Some (Ret (?m n), t)"
  proof (cases "ns = []")
    case True
    have q: "pttail ?e = n" using True h(3) by simp
    have "x = upd_pt p (\<lambda>e. e\<lparr>pthead := NULL, pttail := NULL\<rparr>) s1" using c True by (simp add: x_def)
    then show ?thesis using e(1) h(1,2) n4 assms(5) t(1) s1 q unfolding u_def
      by (simp add: ptrecv_rest_def Let_def)
  next
    case False
    have q: "n \<noteq> pttail ?e" using False h(3) one by simp
    have "x = upd_pt p (\<lambda>e. e\<lparr>pthead := ?m (n + 4)\<rparr>) s1" using c False by (simp add: x_def)
    then show ?thesis using e(1) h(1,2) n4 assms(5) t(1) s1 q unfolding u_def
      by (simp add: ptrecv_rest_def Let_def)
  qed
  then have "ptrecv p s = Some (Ret (?m n), t)"
    using e w(1) assms(6) s1(5) by (simp add: ptrecv_def then_call_def)
  moreover have "hd (port_msgs s (Q p)) = ?m n" by (simp add: port_msgs_def assms(4))
  moreover note p = ports_ok_pop[OF assms(2-4) fu(1-4)]
  have "ports_ok t (Q(p := ns)) (n # F)" using p(1) ports_ok_cong[OF t(5-8)] by simp
  moreover have "port_msgs t ms = port_msgs u ms" for ms by (simp add: port_msgs_def t(5))
  moreover have "semq u i = semq s i" using fu(5) s1(6) by (simp add: semq_def)
  moreover have "scount (semtab t i) = scount (semtab s i) + 1" "scount (semtab t j) = scount (semtab s j) - 1"
    using t(3) fu(5) s1(6) assms(7) by simp_all
  ultimately show ?thesis using t(2,4) p(2,3) by metis
qed

theorem ptrecv_contract_witness:
  "\<exists>t. ptrecv 1 port_demo = Some (Ret 7, t) \<and> ports_ok t (\<lambda>_. []) [20000, 20008] \<and>
    prstate (proctab t 2) \<in> {PR_CURR, PR_READY}"
proof -
  have u: "(port_demo_nodes)(1 := []) = (\<lambda>_. [])" by (simp add: port_demo_nodes_def fun_eq_iff)
  have q: "port_demo_nodes 1 = [20000]" by (simp add: port_demo_nodes_def)
  have m: "port_msgs port_demo [20000] = [7]" by (simp add: port_msgs_def port_demo_def)
  show ?thesis
    using ptrecv_contract[OF port_demo_ok(1,2), of 1 20000 "[]" 0 1] port_demo_sems u q m by auto
qed

end
