(* ===== verification/C_Strings.thy ===== *)
theory C_Strings
  imports Xinu_Prelude
begin

text \<open>
  The string and memory routines of lib/ over a byte memory: an address is an int, a char is a
  byte (char is unsigned on ARM), a C string is the bytes from its address up to the first null
  byte. A routine that looks for the end of a string that has none does not return: its value is
  None.
\<close>

type_synonym bmem = "int \<Rightarrow> int"

section \<open>Numbers\<close>

definition abs_c :: "int \<Rightarrow> int" where
  "abs_c arg = (if arg < 0 then i32 (- arg) else arg)"

definition labs :: "int \<Rightarrow> int" where
  "labs arg = (if arg < 0 then i32 (- arg) else arg)"

definition srand :: "int \<Rightarrow> int" where
  "srand x = u32 x"

text \<open>rand takes and returns the static variable randx.\<close>

definition rand :: "int \<Rightarrow> int \<times> int" where
  "rand randx = (let randx = u32 (randx * 1103515245 + 12345) in (randx div 65536 mod 32768, randx))"

definition atoi_skip :: "bmem \<Rightarrow> int \<times> int \<Rightarrow> (int \<times> int + int \<times> int) option" where
  "atoi_skip m = (\<lambda>(p, f). Some
     (if m p = 32 \<or> m p = 9 then Inl (p + 1, f)
      else if m p = 45 then Inr (p + 1, f + 1)
      else if m p = 43 then Inr (p + 1, f)
      else Inr (p, f)))"

definition atoi_digits :: "bmem \<Rightarrow> int \<times> int \<Rightarrow> (int \<times> int + int) option" where
  "atoi_digits m = (\<lambda>(p, n). Some
     (if 48 \<le> m p \<and> m p \<le> 57 then Inl (p + 1, i32 (n * 10 + m p - 48)) else Inr n))"

definition atoi :: "bmem \<Rightarrow> int \<Rightarrow> int option" where
  "atoi m p = do {
     (p, f) \<leftarrow> c_loop (atoi_skip m) (p, 0);
     n \<leftarrow> c_loop (atoi_digits m) (p, 0);
     Some (if f \<noteq> 0 then i32 (- n) else n) }"

definition atol :: "bmem \<Rightarrow> int \<Rightarrow> int option" where
  "atol m p = do {
     (p, f) \<leftarrow> c_loop (atoi_skip m) (p, 0);
     n \<leftarrow> c_loop (atoi_digits m) (p, 0);
     Some (if f \<noteq> 0 then i32 (- n) else n) }"

section \<open>Memory\<close>

definition bzero :: "int \<Rightarrow> int \<Rightarrow> bmem \<Rightarrow> bmem option" where
  "bzero p len m =
     (if len \<le> 0 then Some m
      else c_loop (\<lambda>(pch, n, m).
        let m = m(pch := 0) in
        Some (if n - 1 \<noteq> 0 then Inl (pch + 1, n - 1, m) else Inr m)) (p, len, m))"

definition memset :: "int \<Rightarrow> int \<Rightarrow> int \<Rightarrow> bmem \<Rightarrow> (int \<times> bmem) option" where
  "memset s c n m = c_loop (\<lambda>(i, cp, m). Some
     (if i < n then Inl (i + 1, cp + 1, m(cp := u8 c)) else Inr (s, m))) (0, s, m)"

definition memcpy :: "int \<Rightarrow> int \<Rightarrow> int \<Rightarrow> bmem \<Rightarrow> (int \<times> bmem) option" where
  "memcpy s ct n m = c_loop (\<lambda>(i, dst, src, m). Some
     (if i < n then Inl (i + 1, dst + 1, src + 1, m(dst := m src)) else Inr (s, m))) (0 :: int, s, ct, m)"

definition memcmp :: "int \<Rightarrow> int \<Rightarrow> int \<Rightarrow> bmem \<Rightarrow> int option" where
  "memcmp s1 s2 n m = c_loop (\<lambda>(c1, c2, n). Some
     (if n > 0 then (if m c1 \<noteq> m c2 then Inr (m c1 - m c2) else Inl (c1 + 1, c2 + 1, n - 1)) else Inr 0))
     (s1, s2, n)"

text \<open>memchr does not look at its third parameter.\<close>

definition memchr :: "int \<Rightarrow> int \<Rightarrow> int \<Rightarrow> bmem \<Rightarrow> int option" where
  "memchr cs c n m = c_loop (\<lambda>cp. Some
     (if m cp \<noteq> 0 then (if m cp = u8 c then Inr cp else Inl (cp + 1)) else Inr 0)) cs"

section \<open>Strings\<close>

definition strlen :: "int \<Rightarrow> bmem \<Rightarrow> int option" where
  "strlen str m = c_loop (\<lambda>(str, len). Some
     (if m str \<noteq> 0 then Inl (str + 1, i32 (len + 1)) else Inr len)) (str, 0)"

definition strnlen :: "int \<Rightarrow> int \<Rightarrow> bmem \<Rightarrow> int option" where
  "strnlen s len m = c_loop (\<lambda>(s, n). Some
     (if m s \<noteq> 0 \<and> u32 n < len then Inl (s + 1, n + 1) else Inr n)) (s, 0)"

definition strcpy_iter :: "int \<times> int \<times> bmem \<Rightarrow> (int \<times> int \<times> bmem + int \<times> bmem) option" where
  "strcpy_iter = (\<lambda>(tar, src, m).
     let c = m src; m = m(tar := c) in
     Some (if c \<noteq> 0 then Inl (tar + 1, src + 1, m) else Inr (0, m)))"

definition strcpy :: "int \<Rightarrow> int \<Rightarrow> bmem \<Rightarrow> (int \<times> bmem) option" where
  "strcpy tar src m = c_loop strcpy_iter (tar, src, m)"

definition strncpy_pad :: "int \<Rightarrow> int \<times> int \<times> bmem \<Rightarrow> (int \<times> int \<times> bmem + bmem) option" where
  "strncpy_pad n = (\<lambda>(i, s1, m). Some
     (if i + 1 < n then Inl (i + 1, s1 + 1, m(s1 := 0)) else Inr m))"

definition strncpy_iter :: "int \<Rightarrow> int \<times> int \<times> int \<times> bmem \<Rightarrow> (int \<times> int \<times> int \<times> bmem + bmem) option" where
  "strncpy_iter n = (\<lambda>(i, s1, s2, m).
     if i < n then
       (let c = m s2; m = m(s1 := c) in
        if c = 0 then map_option Inr (c_loop (strncpy_pad n) (i, s1 + 1, m))
        else Some (Inl (i + 1, s1 + 1, s2 + 1, m)))
     else Some (Inr m))"

definition strncpy :: "int \<Rightarrow> int \<Rightarrow> int \<Rightarrow> bmem \<Rightarrow> (int \<times> bmem) option" where
  "strncpy s1 s2 n m = do { m \<leftarrow> c_loop (strncpy_iter n) (0, s1, s2, m); Some (s1, m) }"

definition strncat_iter :: "int \<times> int \<times> int \<times> bmem \<Rightarrow> (int \<times> int \<times> int \<times> bmem + bmem) option" where
  "strncat_iter = (\<lambda>(s1, s2, n, m).
     let c = m s2; m = m(s1 := c) in
     Some (if c \<noteq> 0
           then (if n - 1 < 0 then Inr (m(s1 := 0)) else Inl (s1 + 1, s2 + 1, n - 1, m))
           else Inr m))"

definition strncat :: "int \<Rightarrow> int \<Rightarrow> int \<Rightarrow> bmem \<Rightarrow> (int \<times> bmem) option" where
  "strncat s1 s2 n m = do {
     e \<leftarrow> c_loop (\<lambda>s1. Some (if m s1 \<noteq> 0 then Inl (s1 + 1) else Inr s1)) s1;
     m \<leftarrow> c_loop strncat_iter (e, s2, n, m);
     Some (s1, m) }"

definition strcmp :: "int \<Rightarrow> int \<Rightarrow> bmem \<Rightarrow> int option" where
  "strcmp str1 str2 m = c_loop (\<lambda>(str1, str2). Some
     (if m str1 = m str2 then (if m str1 = 0 then Inr 0 else Inl (str1 + 1, str2 + 1))
      else Inr (if m str1 < m str2 then -1 else 1))) (str1, str2)"

definition strncmp :: "int \<Rightarrow> int \<Rightarrow> int \<Rightarrow> bmem \<Rightarrow> int option" where
  "strncmp s1 s2 n m = c_loop (\<lambda>(s1, s2, n). Some
     (if n - 1 \<ge> 0 \<and> m s1 = m s2
      then (if m s1 = 0 then Inr 0 else Inl (s1 + 1, s2 + 1, n - 1))
      else Inr (if n - 1 < 0 then 0 else m s1 - m s2))) (s1, s2, n)"

definition strchr :: "int \<Rightarrow> int \<Rightarrow> bmem \<Rightarrow> int option" where
  "strchr s c m = c_loop (\<lambda>s. Some
     (if m s \<noteq> 0 then (if m s = u8 c then Inr s else Inl (s + 1))
      else Inr (if u8 c = m s then s else 0))) s"

definition strrchr :: "int \<Rightarrow> int \<Rightarrow> bmem \<Rightarrow> int option" where
  "strrchr s c m = c_loop (\<lambda>(s, r). Some
     (if m s \<noteq> 0 then Inl (s + 1, if m s = u8 c then s else r)
      else Inr (if u8 c = m s then s else r))) (s, 0)"

definition strstr_match :: "bmem \<Rightarrow> int \<times> int \<Rightarrow> (int \<times> int + int) option" where
  "strstr_match m = (\<lambda>(cq, cr). Some
     (if m cq \<noteq> 0 \<and> m cr \<noteq> 0 then (if m cq \<noteq> m cr then Inr cr else Inl (cq + 1, cr + 1))
      else Inr cr))"

definition strstr :: "int \<Rightarrow> int \<Rightarrow> bmem \<Rightarrow> int option" where
  "strstr cs ct m = c_loop (\<lambda>cs.
     if m cs \<noteq> 0 then
       (if m cs = m ct then do {
          cr \<leftarrow> c_loop (strstr_match m) (cs, ct);
          Some (if m cr = 0 then Inr cs else Inl (cs + 1)) }
        else Some (Inl (cs + 1)))
     else Some (Inr 0)) cs"

section \<open>C strings as lists\<close>

text \<open>The element of an array, and an array that holds the string cs.\<close>

definition elem_at :: "'a list \<Rightarrow> nat \<Rightarrow> 'a option" where
  "elem_at xs k = (if k < length xs then Some (xs ! k) else None)"

definition cname :: "int list \<Rightarrow> int list \<Rightarrow> bool" where
  "cname cs a \<longleftrightarrow> 0 \<notin> set cs \<and> (\<exists>r. a = cs @ 0 # r)"

text \<open>The list of the bytes of a C string.\<close>

fun cstr :: "bmem \<Rightarrow> int \<Rightarrow> int list \<Rightarrow> bool" where
  "cstr m p [] \<longleftrightarrow> m p = 0"
| "cstr m p (c # cs) \<longleftrightarrow> m p = c \<and> c \<noteq> 0 \<and> cstr m (p + 1) cs"

lemma cstr_unique: "cstr m p cs \<Longrightarrow> cstr m p ds \<Longrightarrow> cs = ds"
  by (induction cs arbitrary: p ds; case_tac ds; auto)

lemma cstr_frame:
  "cstr m p cs \<Longrightarrow> (\<And>x. p \<le> x \<Longrightarrow> x \<le> p + int (length cs) \<Longrightarrow> m' x = m x) \<Longrightarrow> cstr m' p cs"
  by (induction cs arbitrary: p) auto

lemma cstr_append:
  "cstr m p (cs @ ds) \<longleftrightarrow> (\<forall>i < length cs. m (p + int i) = cs ! i \<and> cs ! i \<noteq> 0) \<and> cstr m (p + int (length cs)) ds"
  by (induction cs arbitrary: p) (auto simp: nth_Cons less_Suc_eq_0_disj algebra_simps split: nat.splits)

lemma strlen_loop:
  assumes "cstr m p cs" "0 \<le> l" "l + int (length cs) \<le> INT_MAX"
  shows "c_loop (\<lambda>(str, len). Some (if m str \<noteq> 0 then Inl (str + 1, i32 (len + 1)) else Inr len)) (p, l)
    = Some (l + int (length cs))"
  using assms
proof (induction cs arbitrary: p l)
  case Nil
  then show ?case by (subst c_loop_Inr) auto
next
  case (Cons c cs)
  then have "i32 (l + 1) = l + 1" by (simp add: i32_id)
  then show ?case using Cons.IH[of "p + 1" "l + 1"] Cons.prems by (subst c_loop_Inl) auto
qed

lemma strlen_ok: "cstr m p cs \<Longrightarrow> int (length cs) \<le> INT_MAX \<Longrightarrow> strlen p m = Some (int (length cs))"
  using strlen_loop[of m p cs 0] by (simp add: strlen_def)

text \<open>The memory with a list of bytes stored at an address.\<close>

definition put :: "bmem \<Rightarrow> int \<Rightarrow> int list \<Rightarrow> bmem" where
  "put m a bs = (\<lambda>x. if a \<le> x \<and> x < a + int (length bs) then bs ! nat (x - a) else m x)"

lemma put_Nil [simp]: "put m a [] = m"
  by (simp add: put_def fun_eq_iff)

lemma put_Cons: "put m a (b # bs) = put (m(a := b)) (a + 1) bs"
proof
  fix x
  have "nat (x - a) = Suc (nat (x - (a + 1)))" if "a < x" using that by simp
  then show "put m a (b # bs) x = put (m(a := b)) (a + 1) bs x" by (auto simp: put_def)
qed

lemma put_out: "x < a \<or> a + int (length bs) \<le> x \<Longrightarrow> put m a bs x = m x"
  by (auto simp: put_def)

lemma put_in: "i < length bs \<Longrightarrow> put m a bs (a + int i) = bs ! i"
  by (simp add: put_def)

lemma cstr_put: "0 \<notin> set cs \<Longrightarrow> cstr (put m a (cs @ [0])) a cs"
proof (induction cs arbitrary: m a)
  case Nil
  then show ?case by (simp add: put_def)
next
  case (Cons c cs)
  have "put (m(a := c)) (a + 1) (cs @ [0]) a = c" by (subst put_out) auto
  then show ?case using Cons by (simp add: put_Cons)
qed

lemma cstr_nonzero: "cstr m p cs \<Longrightarrow> 0 \<notin> set cs"
  by (induction cs arbitrary: p) auto

text \<open>A forward copy between these addresses does not overwrite what it has still to read.\<close>

definition apart :: "int \<Rightarrow> int \<Rightarrow> nat \<Rightarrow> bool" where
  "apart tar src n \<longleftrightarrow> tar \<le> src \<or> src + int n < tar"

lemma apart_step: "apart tar src (Suc n) \<Longrightarrow> apart (tar + 1) (src + 1) n"
  by (auto simp: apart_def)

lemma cstr_step:
  assumes "cstr m src (c # cs)" "apart tar src (Suc (length cs))"
  shows "cstr (m(tar := v)) (src + 1) cs"
  using cstr_frame[of m "src + 1" cs "m(tar := v)"] assms by (auto simp: apart_def)

lemma strcpy_ok:
  assumes "cstr m src cs" "apart tar src (length cs)"
  shows "strcpy tar src m = Some (0, put m tar (cs @ [0]))"
  using assms unfolding strcpy_def
proof (induction cs arbitrary: m tar src)
  case Nil
  then have "strcpy_iter (tar, src, m) = Some (Inr (0, m(tar := 0)))" by (simp add: strcpy_iter_def)
  then show ?case by (simp add: c_loop_Inr put_Cons del: fun_upd_apply)
next
  case (Cons c cs)
  have s: "cstr (m(tar := c)) (src + 1) cs" using cstr_step[OF Cons.prems(1)] Cons.prems(2) by simp
  have a: "apart (tar + 1) (src + 1) (length cs)" using apart_step Cons.prems(2) by simp
  have "strcpy_iter (tar, src, m) = Some (Inl (tar + 1, src + 1, m(tar := c)))"
    using Cons.prems(1) by (simp add: strcpy_iter_def)
  then show ?case using Cons.IH[OF s a] by (simp add: c_loop_Inl put_Cons del: fun_upd_apply)
qed

lemma strncpy_pad_ok:
  assumes "i \<le> n - 1"
  shows "c_loop (strncpy_pad n) (i, p, m) = Some (put m p (replicate (nat (n - 1 - i)) 0))"
  using assms
proof (induction "nat (n - 1 - i)" arbitrary: i p m)
  case 0
  then show ?case by (subst c_loop_Inr) (auto simp: strncpy_pad_def)
next
  case (Suc k)
  have k: "k = nat (n - 1 - (i + 1))" "nat (n - 1 - i) = Suc k" "i + 1 \<le> n - 1" using Suc.hyps(2) by auto
  have "c_loop (strncpy_pad n) (i, p, m) = c_loop (strncpy_pad n) (i + 1, p + 1, m(p := 0))"
    using k by (intro c_loop_Inl) (simp add: strncpy_pad_def)
  then show ?case using Suc.hyps(1)[OF k(1,3), of "p + 1" "m(p := 0)"] k by (simp add: put_Cons)
qed

lemma strncpy_loop:
  assumes "cstr m p2 cs" "apart p1 p2 (length cs)" "0 \<le> i" "i \<le> n"
  shows "c_loop (strncpy_iter n) (i, p1, p2, m) =
    Some (put m p1 (take (nat (n - i)) (cs @ replicate (nat (n - i)) 0)))"
  using assms
proof (induction cs arbitrary: i p1 p2 m)
  case Nil
  show ?case
  proof (cases "i < n")
    case True
    then have r: "nat (n - i) = Suc (nat (n - 1 - i))" by simp
    have "strncpy_iter n (i, p1, p2, m) = Some (Inr (put (m(p1 := 0)) (p1 + 1) (replicate (nat (n - 1 - i)) 0)))"
      using True Nil strncpy_pad_ok[of i n "p1 + 1" "m(p1 := 0)"] by (simp add: strncpy_iter_def del: fun_upd_apply)
    then show ?thesis using r by (simp add: c_loop_Inr put_Cons del: fun_upd_apply)
  next
    case False
    then have "strncpy_iter n (i, p1, p2, m) = Some (Inr m)" by (simp add: strncpy_iter_def)
    then show ?thesis using False by (simp add: c_loop_Inr)
  qed
next
  case (Cons c cs)
  show ?case
  proof (cases "i < n")
    case True
    then have r: "nat (n - i) = Suc (nat (n - (i + 1)))" by simp
    have s: "cstr (m(p1 := c)) (p2 + 1) cs" using cstr_step[OF Cons.prems(1)] Cons.prems(2) by simp
    have a: "apart (p1 + 1) (p2 + 1) (length cs)" using apart_step Cons.prems(2) by simp
    have t: "take k (cs @ replicate (Suc k) (0 :: int)) = take k (cs @ replicate k 0)" for k
      by (simp del: replicate_Suc add: min_def)
    have "strncpy_iter n (i, p1, p2, m) = Some (Inl (i + 1, p1 + 1, p2 + 1, m(p1 := c)))"
      using True Cons.prems(1) by (simp add: strncpy_iter_def)
    then show ?thesis
      using Cons.IH[OF s a, of "i + 1"] True Cons.prems(3) r t[of "nat (n - (i + 1))"]
      by (simp add: c_loop_Inl put_Cons del: fun_upd_apply replicate_Suc)
  next
    case False
    then have "strncpy_iter n (i, p1, p2, m) = Some (Inr m)" by (simp add: strncpy_iter_def)
    then show ?thesis using False by (simp add: c_loop_Inr)
  qed
qed

lemma strncpy_ok:
  assumes "cstr m s2 cs" "apart s1 s2 (length cs)" "0 \<le> n"
  shows "strncpy s1 s2 n m = Some (s1, put m s1 (take (nat n) (cs @ replicate (nat n) 0)))"
  using strncpy_loop[OF assms(1,2), of 0 n] assms(3) unfolding strncpy_def by simp

lemma str_end:
  assumes "cstr m p cs"
  shows "c_loop (\<lambda>s1. Some (if m s1 \<noteq> 0 then Inl (s1 + 1) else Inr s1)) p = Some (p + int (length cs))"
  using assms
proof (induction cs arbitrary: p)
  case Nil
  then show ?case by (subst c_loop_Inr) auto
next
  case (Cons c cs)
  then show ?case using Cons.IH[of "p + 1"] by (subst c_loop_Inl) auto
qed

lemma strncat_loop:
  assumes "cstr m p2 cs" "apart p1 p2 (length cs)" "0 \<le> n"
  shows "c_loop strncat_iter (p1, p2, n, m) = Some (put m p1 (take (nat n) cs @ [0]))"
  using assms
proof (induction cs arbitrary: n p1 p2 m)
  case Nil
  then have "strncat_iter (p1, p2, n, m) = Some (Inr (m(p1 := 0)))" by (simp add: strncat_iter_def)
  then show ?case by (simp add: c_loop_Inr put_Cons del: fun_upd_apply)
next
  case (Cons c cs)
  show ?case
  proof (cases "n = 0")
    case True
    then have "strncat_iter (p1, p2, n, m) = Some (Inr (m(p1 := 0)))"
      using Cons.prems(1) by (simp add: strncat_iter_def)
    then show ?thesis using True by (simp add: c_loop_Inr put_Cons del: fun_upd_apply)
  next
    case False
    then have r: "nat n = Suc (nat (n - 1))" using Cons.prems(3) by simp
    have s: "cstr (m(p1 := c)) (p2 + 1) cs" using cstr_step[OF Cons.prems(1)] Cons.prems(2) by simp
    have a: "apart (p1 + 1) (p2 + 1) (length cs)" using apart_step Cons.prems(2) by simp
    have "strncat_iter (p1, p2, n, m) = Some (Inl (p1 + 1, p2 + 1, n - 1, m(p1 := c)))"
      using False Cons.prems by (simp add: strncat_iter_def)
    then show ?thesis
      using Cons.IH[OF s a, of "n - 1"] False Cons.prems(3) r
      by (simp add: c_loop_Inl put_Cons del: fun_upd_apply)
  qed
qed

lemma strncat_ok:
  assumes "cstr m s1 as" "cstr m s2 bs" "apart (s1 + int (length as)) s2 (length bs)" "0 \<le> n"
  shows "strncat s1 s2 n m = Some (s1, put m (s1 + int (length as)) (take (nat n) bs @ [0]))"
  using strncat_loop[OF assms(2,3,4)] str_end[OF assms(1)] unfolding strncat_def by simp

lemma strncat_string:
  assumes "cstr m s1 as" "0 \<notin> set bs"
  shows "cstr (put m (s1 + int (length as)) (bs @ [0])) s1 (as @ bs)"
  using assms
proof (induction as arbitrary: s1)
  case Nil
  then show ?case using cstr_put by simp
next
  case (Cons c cs)
  have e: "s1 + int (length (c # cs)) = s1 + 1 + int (length cs)" by simp
  have "put m (s1 + 1 + int (length cs)) (bs @ [0]) s1 = m s1" by (rule put_out) simp
  then show ?case using Cons.IH[of "s1 + 1"] Cons.prems unfolding e by simp
qed

section \<open>Comparison and search\<close>

fun str_order :: "int list \<Rightarrow> int list \<Rightarrow> int" where
  "str_order [] [] = 0"
| "str_order [] (b # bs) = -1"
| "str_order (a # as) [] = 1"
| "str_order (a # as) (b # bs) = (if a = b then str_order as bs else if a < b then -1 else 1)"

lemma strcmp_ok:
  assumes "cstr m p cs" "cstr m q ds" "\<forall>c \<in> set cs \<union> set ds. 0 \<le> c"
  shows "strcmp p q m = Some (str_order cs ds)"
  using assms unfolding strcmp_def
proof (induction cs ds arbitrary: p q rule: str_order.induct)
  case (4 a as b bs)
  show ?case
  proof (cases "a = b")
    case True
    then show ?thesis using 4(1)[of "p + 1" "q + 1"] 4(2-4) by (subst c_loop_Inl) auto
  next
    case False
    then show ?thesis using 4(2-4) by (subst c_loop_Inr) auto
  qed
next
  case (2 b bs)
  then show ?case by (subst c_loop_Inr) (auto simp: order_less_le)
next
  case (3 a as)
  then show ?case by (subst c_loop_Inr) (auto simp: order_less_le)
qed (subst c_loop_Inr, auto)

lemma str_order_eq: "str_order cs ds = 0 \<longleftrightarrow> cs = ds"
  by (induction cs ds rule: str_order.induct) auto

lemma str_order_less: "str_order cs ds < 0 \<longleftrightarrow> (cs, ds) \<in> lexord {(x, y). x < y}"
  by (induction cs ds rule: str_order.induct) auto

lemma strstr_match_ok:
  assumes "cstr m p cs" "cstr m q ds"
  shows "\<exists>cr. c_loop (strstr_match m) (p, q) = Some cr \<and> (m cr = 0 \<longleftrightarrow> take (length ds) cs = ds)"
  using assms
proof (induction cs ds arbitrary: p q rule: str_order.induct)
  case (4 a as b bs)
  show ?case
  proof (cases "a = b")
    case True
    have "c_loop (strstr_match m) (p, q) = c_loop (strstr_match m) (p + 1, q + 1)"
      using 4(2,3) True by (intro c_loop_Inl) (auto simp: strstr_match_def)
    then show ?thesis using 4(1)[OF True, of "p + 1" "q + 1"] 4(2,3) True by auto
  next
    case False
    have "c_loop (strstr_match m) (p, q) = Some q"
      using 4(2,3) False by (intro c_loop_Inr) (auto simp: strstr_match_def)
    then show ?thesis using 4(3) False by auto
  qed
qed (auto intro!: exI[of _ q for q] c_loop_Inr simp: strstr_match_def)

text \<open>The least position at which one string occurs in another.\<close>

fun first_occurrence :: "int list \<Rightarrow> int list \<Rightarrow> nat option" where
  "first_occurrence ds [] = None"
| "first_occurrence ds (c # cs) =
     (if ds \<noteq> [] \<and> take (length ds) (c # cs) = ds then Some 0 else map_option Suc (first_occurrence ds cs))"

lemma first_occurrence_None:
  "first_occurrence ds cs = None \<longleftrightarrow> ds = [] \<or> (\<forall>i. take (length ds) (drop i cs) \<noteq> ds)"
proof (induction cs)
  case (Cons c cs)
  have "(\<forall>i. take (length ds) (drop i (c # cs)) \<noteq> ds) \<longleftrightarrow>
      take (length ds) (c # cs) \<noteq> ds \<and> (\<forall>i. take (length ds) (drop i cs) \<noteq> ds)"
    by (metis drop0 drop_Suc_Cons not0_implies_Suc)
  then show ?case using Cons by auto
qed auto

lemma first_occurrence_Some:
  "first_occurrence ds cs = Some i \<Longrightarrow> take (length ds) (drop i cs) = ds \<and>
     (\<forall>j < i. take (length ds) (drop j cs) \<noteq> ds)"
proof (induction cs arbitrary: i)
  case (Cons c cs)
  show ?case
  proof (cases "ds \<noteq> [] \<and> take (length ds) (c # cs) = ds")
    case True
    then show ?thesis using Cons.prems by auto
  next
    case False
    then obtain k where k: "first_occurrence ds cs = Some k" "i = Suc k" using Cons.prems by auto
    have "ds \<noteq> []" using k(1) first_occurrence_None[of ds cs] by auto
    then have "take (length ds) (c # cs) \<noteq> ds" using False by blast
    then have "take (length ds) (drop j (c # cs)) \<noteq> ds" if "j < i" for j
      using Cons.IH[OF k(1)] that k(2) by (cases j) auto
    then show ?thesis using Cons.IH[OF k(1)] k(2) by simp
  qed
qed simp

lemma strstr_ok:
  assumes "cstr m p cs" "cstr m q ds"
  shows "strstr p q m = Some (case first_occurrence ds cs of None \<Rightarrow> 0 | Some i \<Rightarrow> p + int i)"
  using assms unfolding strstr_def
proof (induction cs arbitrary: p)
  case Nil
  then show ?case by (subst c_loop_Inr) auto
next
  case (Cons c cs)
  obtain cr where cr: "c_loop (strstr_match m) (p, q) = Some cr" "m cr = 0 \<longleftrightarrow> take (length ds) (c # cs) = ds"
    using strstr_match_ok[OF Cons.prems] by blast
  have q: "m q = (case ds of [] \<Rightarrow> 0 | d # _ \<Rightarrow> d)" using Cons.prems(2) by (cases ds) auto
  show ?case
  proof (cases "ds \<noteq> [] \<and> take (length ds) (c # cs) = ds")
    case True
    then obtain d ds' where ds: "ds = d # ds'" by (cases ds) auto
    then have "c = d" using True by auto
    then show ?thesis using True cr q ds Cons.prems(1) by (subst c_loop_Inr) auto
  next
    case False
    have n: "first_occurrence ds (c # cs) = map_option Suc (first_occurrence ds cs)"
    unfolding first_occurrence.simps by (rule if_not_P[OF False])
    have "m p = m q \<Longrightarrow> m cr \<noteq> 0" using cr(2) False q Cons.prems(1) by (cases ds) auto
    then show ?thesis
      using Cons.IH[of "p + 1"] Cons.prems cr(1) n
      by (subst c_loop_Inl[where t = "p + 1"]) (auto split: option.splits)
  qed
qed

section \<open>Properties\<close>

text \<open>Strcpy, strncpy and strncat between areas where a forward copy does not overtake itself:
  strcpy writes the string and its null byte; strncpy writes exactly n bytes, the string cut off
  or padded with null bytes; strncat appends at most n characters and always a null byte, so the
  result is a string again. No other byte changes.\<close>

theorem string_copies:
  assumes "cstr m src cs" and "apart tar src (length cs)" and "0 \<le> n"
    and "cstr m s1 as" "apart (s1 + int (length as)) src (length cs)"
  shows "strcpy tar src m = Some (0, put m tar (cs @ [0])) \<and> cstr (put m tar (cs @ [0])) tar cs \<and>
    strncpy tar src n m = Some (tar, put m tar (take (nat n) (cs @ replicate (nat n) 0))) \<and>
    strncat s1 src n m = Some (s1, put m (s1 + int (length as)) (take (nat n) cs @ [0])) \<and>
    cstr (put m (s1 + int (length as)) (take (nat n) cs @ [0])) s1 (as @ take (nat n) cs)"
proof -
  have nz: "0 \<notin> set cs" using cstr_nonzero[OF assms(1)] .
  then have "0 \<notin> set (take (nat n) cs)" using in_set_takeD by fastforce
  then show ?thesis
    using strcpy_ok[OF assms(1,2)] cstr_put[OF nz] strncpy_ok[OF assms(1-3)]
      strncat_ok[OF assms(4,1,5,3)] strncat_string[OF assms(4)] by simp
qed

theorem string_copies_witness:
  "strncat 10 30 1 (put (put (\<lambda>_. 0) 10 [97, 98]) 30 [99, 100]) =
     Some (10, put (put (put (\<lambda>_. 0) 10 [97, 98]) 30 [99, 100]) 12 [99, 0])"
  using string_copies[of "put (put (\<lambda>_. 0) 10 [97, 98]) 30 [99, 100]" 30 "[99, 100]" 50 1 10 "[97, 98]"]
  by (simp add: put_def apart_def)

text \<open>C17: strcmp returns zero exactly for equal strings and a negative value exactly when the first
  is smaller in the lexicographic order of its bytes; strstr returns the address of the first
  occurrence of a nonempty string, and the null pointer when there is none or the string looked
  for is empty.\<close>

theorem string_compare_search:
  assumes "cstr m p cs" and "cstr m q ds" and "\<forall>c \<in> set cs \<union> set ds. 0 \<le> c"
  shows "(\<exists>r. strcmp p q m = Some r \<and> (r = 0 \<longleftrightarrow> cs = ds) \<and> (r < 0 \<longleftrightarrow> (cs, ds) \<in> lexord {(x, y). x < y})) \<and>
    (\<exists>r. strstr p q m = Some r \<and>
       (if ds = [] \<or> (\<forall>i. take (length ds) (drop i cs) \<noteq> ds) then r = 0
        else \<exists>i. r = p + int i \<and> take (length ds) (drop i cs) = ds \<and>
          (\<forall>j < i. take (length ds) (drop j cs) \<noteq> ds)))"
proof
  show "\<exists>r. strcmp p q m = Some r \<and> (r = 0 \<longleftrightarrow> cs = ds) \<and> (r < 0 \<longleftrightarrow> (cs, ds) \<in> lexord {(x, y). x < y})"
    using strcmp_ok[OF assms] str_order_eq[of cs ds] str_order_less[of cs ds] by simp
  show "\<exists>r. strstr p q m = Some r \<and>
       (if ds = [] \<or> (\<forall>i. take (length ds) (drop i cs) \<noteq> ds) then r = 0
        else \<exists>i. r = p + int i \<and> take (length ds) (drop i cs) = ds \<and>
          (\<forall>j < i. take (length ds) (drop j cs) \<noteq> ds))"
    using strstr_ok[OF assms(1,2)] first_occurrence_None[of ds cs] first_occurrence_Some[of ds cs]
    by (cases "first_occurrence ds cs") auto
qed

theorem string_compare_search_witness:
  "\<exists>i. strstr 10 30 (put (put (\<lambda>_. 0) 10 [97, 98, 97, 99]) 30 [97, 99]) = Some (10 + int i) \<and>
    take 2 (drop i [97, 98, 97, 99]) = [97, 99 :: int]"
proof -
  let ?m = "put (put (\<lambda>_. 0) 10 [97, 98, 97, 99]) 30 [97, 99]"
  have s: "cstr ?m 10 [97, 98, 97, 99]" "cstr ?m 30 [97, 99]" by (simp_all add: put_def)
  have "take (length [97, 99 :: int]) (drop 2 [97, 98, 97, 99 :: int]) = [97, 99 :: int]" by simp
  then have n: "\<not> ([97, 99 :: int] = [] \<or> (\<forall>i. take (length [97, 99 :: int]) (drop i [97, 98, 97, 99 :: int]) \<noteq> [97, 99]))"
    by blast
  from string_compare_search[OF s] n obtain i where "strstr 10 30 ?m = Some (10 + int i)"
    "take (length [97, 99 :: int]) (drop i [97, 98, 97, 99 :: int]) = [97, 99]"
    unfolding if_not_P[OF n] by auto
  then show ?thesis by (auto simp: numeral_2_eq_2)
qed

end
