(* ===== verification/Devices.thy ===== *)
theory Devices
  imports Kernel_Demo C_Strings
begin

text \<open>
  Device-independent input and output (system/init.c, open.c, close.c, read.c, write.c, getc.c,
  putc.c, seek.c, control.c, getdev.c, ioerr.c, ionull.c) over the device switch table of
  system/conf.c. A table entry names its driver functions by a constructor; the drivers other than
  ioerr and ionull are a parameter, drv, which takes the name of the function, the table entry and
  the arguments of the call.
\<close>

section \<open>The device switch table\<close>

datatype driver = Ioerr | Ionull
  | Ttyinit | Ttyread | Ttywrite | Ttygetc | Ttyputc | Ttycontrol | Ttyhandler
  | Naminit | Namopen
  | Raminit | Ramopen | Ramclose | Ramread | Ramwrite
  | Lfsinit | Lfsopen
  | Lflinit | Lflclose | Lflread | Lflwrite | Lflseek | Lflgetc | Lflputc | Lflcontrol
  | UartInit | UartRead | UartWrite | UartGetc | UartPutc | UartControl | UartInterrupt
  | LoopbackInit | LoopbackOpen | LoopbackClose | LoopbackRead | LoopbackWrite | LoopbackGetc
  | LoopbackPutc | LoopbackControl

record dentry =
  dvnum :: int
  dvminor :: int
  dvname :: string
  dvinit :: driver
  dvopen :: driver
  dvclose :: driver
  dvread :: driver
  dvwrite :: driver
  dvseek :: driver
  dvgetc :: driver
  dvputc :: driver
  dvcntl :: driver
  dvcsr :: int
  dvintr :: driver
  dvirq :: int

definition CONSOLE :: int where "CONSOLE = 0"
definition NULLDEV :: int where "NULLDEV = 1"
definition NAMESPACE :: int where "NAMESPACE = 2"
definition RAM0 :: int where "RAM0 = 3"
definition LFILESYS :: int where "LFILESYS = 4"
definition LFILE0 :: int where "LFILE0 = 5"
definition Nlfl :: int where "Nlfl = 6"
definition DEVNAMLEN :: int where "DEVNAMLEN = 16"

definition devtab :: "dentry list" where
  "devtab = [
     \<lparr>dvnum = 0, dvminor = 0, dvname = ''CONSOLE'',
      dvinit = Ttyinit, dvopen = Ionull, dvclose = Ionull,
      dvread = Ttyread, dvwrite = Ttywrite, dvseek = Ioerr,
      dvgetc = Ttygetc, dvputc = Ttyputc, dvcntl = Ttycontrol,
      dvcsr = 0, dvintr = Ttyhandler, dvirq = 72\<rparr>,
     \<lparr>dvnum = 1, dvminor = 0, dvname = ''NULLDEV'',
      dvinit = Ionull, dvopen = Ionull, dvclose = Ionull,
      dvread = Ionull, dvwrite = Ionull, dvseek = Ioerr,
      dvgetc = Ionull, dvputc = Ionull, dvcntl = Ioerr,
      dvcsr = 0, dvintr = Ioerr, dvirq = 0\<rparr>,
     \<lparr>dvnum = 2, dvminor = 0, dvname = ''NAMESPACE'',
      dvinit = Naminit, dvopen = Namopen, dvclose = Ioerr,
      dvread = Ioerr, dvwrite = Ioerr, dvseek = Ioerr,
      dvgetc = Ioerr, dvputc = Ioerr, dvcntl = Ioerr,
      dvcsr = 0, dvintr = Ioerr, dvirq = 0\<rparr>,
     \<lparr>dvnum = 3, dvminor = 0, dvname = ''RAM0'',
      dvinit = Raminit, dvopen = Ramopen, dvclose = Ramclose,
      dvread = Ramread, dvwrite = Ramwrite, dvseek = Ioerr,
      dvgetc = Ioerr, dvputc = Ioerr, dvcntl = Ioerr,
      dvcsr = 0, dvintr = Ionull, dvirq = 0\<rparr>,
     \<lparr>dvnum = 4, dvminor = 0, dvname = ''LFILESYS'',
      dvinit = Lfsinit, dvopen = Lfsopen, dvclose = Ioerr,
      dvread = Ioerr, dvwrite = Ioerr, dvseek = Ioerr,
      dvgetc = Ioerr, dvputc = Ioerr, dvcntl = Ioerr,
      dvcsr = 0, dvintr = Ionull, dvirq = 0\<rparr>,
     \<lparr>dvnum = 5, dvminor = 0, dvname = ''LFILE0'',
      dvinit = Lflinit, dvopen = Ioerr, dvclose = Lflclose,
      dvread = Lflread, dvwrite = Lflwrite, dvseek = Lflseek,
      dvgetc = Lflgetc, dvputc = Lflputc, dvcntl = Lflcontrol,
      dvcsr = 0, dvintr = Ionull, dvirq = 0\<rparr>,
     \<lparr>dvnum = 6, dvminor = 1, dvname = ''LFILE1'',
      dvinit = Lflinit, dvopen = Ioerr, dvclose = Lflclose,
      dvread = Lflread, dvwrite = Lflwrite, dvseek = Lflseek,
      dvgetc = Lflgetc, dvputc = Lflputc, dvcntl = Lflcontrol,
      dvcsr = 0, dvintr = Ionull, dvirq = 0\<rparr>,
     \<lparr>dvnum = 7, dvminor = 2, dvname = ''LFILE2'',
      dvinit = Lflinit, dvopen = Ioerr, dvclose = Lflclose,
      dvread = Lflread, dvwrite = Lflwrite, dvseek = Lflseek,
      dvgetc = Lflgetc, dvputc = Lflputc, dvcntl = Lflcontrol,
      dvcsr = 0, dvintr = Ionull, dvirq = 0\<rparr>,
     \<lparr>dvnum = 8, dvminor = 3, dvname = ''LFILE3'',
      dvinit = Lflinit, dvopen = Ioerr, dvclose = Lflclose,
      dvread = Lflread, dvwrite = Lflwrite, dvseek = Lflseek,
      dvgetc = Lflgetc, dvputc = Lflputc, dvcntl = Lflcontrol,
      dvcsr = 0, dvintr = Ionull, dvirq = 0\<rparr>,
     \<lparr>dvnum = 9, dvminor = 4, dvname = ''LFILE4'',
      dvinit = Lflinit, dvopen = Ioerr, dvclose = Lflclose,
      dvread = Lflread, dvwrite = Lflwrite, dvseek = Lflseek,
      dvgetc = Lflgetc, dvputc = Lflputc, dvcntl = Lflcontrol,
      dvcsr = 0, dvintr = Ionull, dvirq = 0\<rparr>,
     \<lparr>dvnum = 10, dvminor = 5, dvname = ''LFILE5'',
      dvinit = Lflinit, dvopen = Ioerr, dvclose = Lflclose,
      dvread = Lflread, dvwrite = Lflwrite, dvseek = Lflseek,
      dvgetc = Lflgetc, dvputc = Lflputc, dvcntl = Lflcontrol,
      dvcsr = 0, dvintr = Ionull, dvirq = 0\<rparr>,
     \<lparr>dvnum = 11, dvminor = 0, dvname = ''SERIAL0'',
      dvinit = UartInit, dvopen = Ionull, dvclose = Ionull,
      dvread = UartRead, dvwrite = UartWrite, dvseek = Ioerr,
      dvgetc = UartGetc, dvputc = UartPutc, dvcntl = UartControl,
      dvcsr = 0x101f1000, dvintr = UartInterrupt, dvirq = 12\<rparr>,
     \<lparr>dvnum = 12, dvminor = 0, dvname = ''LOOP0'',
      dvinit = LoopbackInit, dvopen = LoopbackOpen, dvclose = LoopbackClose,
      dvread = LoopbackRead, dvwrite = LoopbackWrite, dvseek = Ioerr,
      dvgetc = LoopbackGetc, dvputc = LoopbackPutc, dvcntl = LoopbackControl,
      dvcsr = 0, dvintr = Ioerr, dvirq = 0\<rparr>]"

section \<open>Operations\<close>

datatype dvargs = NoArgs | OpenArgs int int | BufArgs int int | SeekArgs int | PutArgs int | CntlArgs int int int

definition ioerr :: int where "ioerr = SYSERR"
definition ionull :: int where "ionull = OK"

type_synonym drivers = "driver \<Rightarrow> dentry \<Rightarrow> dvargs \<Rightarrow> kst \<Rightarrow> (int \<times> kst) option"

text \<open>A call through a pointer of the table.\<close>

definition dvcall :: "drivers \<Rightarrow> driver \<Rightarrow> dentry \<Rightarrow> dvargs \<Rightarrow> kst \<Rightarrow> (int \<times> kst) option" where
  "dvcall drv f devptr args s =
     (if f = Ioerr then Some (ioerr, s) else if f = Ionull then Some (ionull, s) else drv f devptr args s)"

definition init :: "drivers \<Rightarrow> int \<Rightarrow> kst \<Rightarrow> (int \<times> kst) option" where
  "init drv descrp s =
     (if isbaddev descrp then Some (SYSERR, s)
      else let devptr = devtab ! nat descrp in dvcall drv (dvinit devptr) devptr NoArgs s)"

definition open_dev :: "drivers \<Rightarrow> int \<Rightarrow> int \<Rightarrow> int \<Rightarrow> kst \<Rightarrow> (int \<times> kst) option" where
  "open_dev drv descrp name mode s =
     (if isbaddev descrp then Some (SYSERR, s)
      else let devptr = devtab ! nat descrp in dvcall drv (dvopen devptr) devptr (OpenArgs name mode) s)"

definition read :: "drivers \<Rightarrow> int \<Rightarrow> int \<Rightarrow> int \<Rightarrow> kst \<Rightarrow> (int \<times> kst) option" where
  "read drv descrp buffer count s =
     (if isbaddev descrp then Some (SYSERR, s)
      else let devptr = devtab ! nat descrp in dvcall drv (dvread devptr) devptr (BufArgs buffer count) s)"

definition write_dev :: "drivers \<Rightarrow> int \<Rightarrow> int \<Rightarrow> int \<Rightarrow> kst \<Rightarrow> (int \<times> kst) option" where
  "write_dev drv descrp buffer count s =
     (if isbaddev descrp then Some (SYSERR, s)
      else let devptr = devtab ! nat descrp in dvcall drv (dvwrite devptr) devptr (BufArgs buffer count) s)"

definition seek :: "drivers \<Rightarrow> int \<Rightarrow> int \<Rightarrow> kst \<Rightarrow> (int \<times> kst) option" where
  "seek drv descrp pos s =
     (if isbaddev descrp then Some (SYSERR, s)
      else let devptr = devtab ! nat descrp in dvcall drv (dvseek devptr) devptr (SeekArgs pos) s)"

definition getc :: "drivers \<Rightarrow> int \<Rightarrow> kst \<Rightarrow> (int \<times> kst) option" where
  "getc drv descrp s =
     (if isbaddev descrp then Some (SYSERR, s)
      else let devptr = devtab ! nat descrp in dvcall drv (dvgetc devptr) devptr NoArgs s)"

definition putc :: "drivers \<Rightarrow> int \<Rightarrow> int \<Rightarrow> kst \<Rightarrow> (int \<times> kst) option" where
  "putc drv descrp ch s =
     (if isbaddev descrp then Some (SYSERR, s)
      else let devptr = devtab ! nat descrp in dvcall drv (dvputc devptr) devptr (PutArgs ch) s)"

definition control :: "drivers \<Rightarrow> int \<Rightarrow> int \<Rightarrow> int \<Rightarrow> int \<Rightarrow> kst \<Rightarrow> (int \<times> kst) option" where
  "control drv descrp func arg1 arg2 s =
     (if isbaddev descrp then Some (SYSERR, s)
      else let devptr = devtab ! nat descrp in dvcall drv (dvcntl devptr) devptr (CntlArgs func arg1 arg2) s)"

text \<open>close with the close functions of the table.\<close>

definition close_dev :: "drivers \<Rightarrow> int \<Rightarrow> kst \<Rightarrow> (int \<times> kst) option" where
  "close_dev drv = close (\<lambda>descrp. let devptr = devtab ! nat descrp in dvcall drv (dvclose devptr) devptr NoArgs)"

text \<open>lit gives the address at which the linker has put a string literal.\<close>

definition getdev :: "(string \<Rightarrow> int) \<Rightarrow> int \<Rightarrow> bmem \<Rightarrow> int option" where
  "getdev lit devname m = c_loop (\<lambda>id.
     if id < NDEVS then do {
       r \<leftarrow> strncmp devname (lit (dvname (devtab ! nat id))) DEVNAMLEN m;
       Some (if r \<noteq> 0 then Inr id else Inl (id + 1)) }
     else Some (Inr SYSERR)) 0"

section \<open>Comparing a prefix\<close>

lemma strncmp_ok:
  assumes "cstr m p cs" "cstr m q ds" "0 \<le> n"
  shows "\<exists>r. strncmp p q n m = Some r \<and> (r = 0 \<longleftrightarrow> take (nat n) cs = take (nat n) ds)"
  using assms
proof (induction "nat n" arbitrary: n p q cs ds)
  case 0
  then show ?case unfolding strncmp_def by (subst c_loop_Inr) auto
next
  case (Suc k)
  have k: "k = nat (n - 1)" "0 \<le> n - 1" "nat n = Suc k" "0 < n" using Suc.hyps(2) Suc.prems(3) by simp_all
  note IH = Suc.hyps(1)[OF k(1) _ _ k(2)]
  show ?case
  proof (cases "m p = m q \<and> m p \<noteq> 0")
    case True
    then obtain c cs' ds' where c: "cs = c # cs'" "ds = c # ds'"
      using Suc.prems(1,2) by (cases cs; cases ds) auto
    have "strncmp p q n m = strncmp (p + 1) (q + 1) (n - 1) m"
      using k(4) True unfolding strncmp_def by (subst c_loop_Inl[where t = "(p + 1, q + 1, n - 1)"]) auto
    then show ?thesis using IH[of "p + 1" cs' "q + 1" ds'] Suc.prems c k by simp
  next
    case False
    then have "strncmp p q n m = Some (m p - m q)"
      using k(4) unfolding strncmp_def by (subst c_loop_Inr) auto
    then show ?thesis using Suc.prems(1,2) k(3) False by (cases cs; cases ds) auto
  qed
qed

section \<open>Properties\<close>

lemma devtab_row: "0 \<le> d \<Longrightarrow> d < NDEVS \<Longrightarrow> dvnum (devtab ! nat d) = d"
proof -
  assume d: "0 \<le> d" "d < NDEVS"
  have "\<forall>i < 13. dvnum (devtab ! i) = int i" by (simp add: devtab_def All_less_Suc eval_nat_numeral)
  moreover have "nat d < 13" using d by (simp add: NDEVS_def nat_less_iff)
  ultimately show ?thesis using d by simp
qed

text \<open>The entries that an operation reaches without a driver.\<close>

lemma dvcall_simps [simp]:
  "dvcall drv Ioerr e a s = Some (SYSERR, s)" "dvcall drv Ionull e a s = Some (OK, s)"
  by (simp_all add: dvcall_def ioerr_def ionull_def)

lemma local_file_row:
  assumes "0 \<le> i" "i < Nlfl"
  shows "devtab ! nat (LFILE0 + i) = (devtab ! 5)\<lparr>dvnum := 5 + i, dvminor := i, dvname := ''LFILE'' @ [''012345'' ! nat i]\<rparr>"
proof -
  have "\<forall>i < 6. devtab ! (5 + i) =
      (devtab ! 5)\<lparr>dvnum := 5 + int i, dvminor := int i, dvname := ''LFILE'' @ [''012345'' ! i]\<rparr>"
    by (simp add: devtab_def All_less_Suc eval_nat_numeral)
  moreover have "nat i < 6" "nat (LFILE0 + i) = 5 + nat i" using assms by (simp_all add: Nlfl_def LFILE0_def nat_less_iff)
  ultimately show ?thesis using assms by simp
qed

lemma bad_device:
  assumes "isbaddev d"
  shows "init drv d s = Some (SYSERR, s)" "open_dev drv d a b s = Some (SYSERR, s)"
    "close_dev drv d s = Some (SYSERR, s)" "read drv d a b s = Some (SYSERR, s)"
    "write_dev drv d a b s = Some (SYSERR, s)" "seek drv d a s = Some (SYSERR, s)"
    "getc drv d s = Some (SYSERR, s)" "putc drv d a s = Some (SYSERR, s)" "control drv d a b c s = Some (SYSERR, s)"
  using assms
  by (simp_all add: init_def open_dev_def close_dev_def close_def read_def write_dev_def seek_def getc_def putc_def control_def)

lemma no_transfer:
  assumes "d \<in> {NAMESPACE, LFILESYS}"
  shows "close_dev drv d s = Some (SYSERR, s)" "read drv d a b s = Some (SYSERR, s)"
    "write_dev drv d a b s = Some (SYSERR, s)" "getc drv d s = Some (SYSERR, s)"
    "putc drv d a s = Some (SYSERR, s)" "control drv d a b c s = Some (SYSERR, s)"
  using assms
  by (auto simp: close_dev_def close_def read_def write_dev_def getc_def putc_def control_def NAMESPACE_def LFILESYS_def
        isbaddev_def NDEVS_def devtab_def)

lemma null_device:
  "init drv NULLDEV s = Some (OK, s)" "open_dev drv NULLDEV a b s = Some (OK, s)"
  "close_dev drv NULLDEV s = Some (OK, s)" "read drv NULLDEV a b s = Some (OK, s)"
  "write_dev drv NULLDEV a b s = Some (OK, s)" "getc drv NULLDEV s = Some (OK, s)"
  "putc drv NULLDEV a s = Some (OK, s)" "control drv NULLDEV a b c s = Some (SYSERR, s)"
  by (simp_all add: init_def open_dev_def close_dev_def close_def read_def write_dev_def getc_def putc_def control_def
        isbaddev_def NDEVS_def NULLDEV_def devtab_def)

lemma seek_other:
  assumes d: "\<not> (LFILE0 \<le> d \<and> d < LFILE0 + Nlfl)"
  shows "seek drv d a s = Some (SYSERR, s)"
proof (cases "isbaddev d")
  case False
  have "\<forall>i < 13. i < 5 \<or> 11 \<le> i \<longrightarrow> dvseek (devtab ! i) = Ioerr"
    by (simp add: devtab_def All_less_Suc eval_nat_numeral)
  moreover have "nat d < 13" "nat d < 5 \<or> 11 \<le> nat d"
    using False d by (auto simp: isbaddev_def NDEVS_def LFILE0_def Nlfl_def)
  ultimately have "dvseek (devtab ! nat d) = Ioerr" by blast
  then show ?thesis by (simp add: seek_def)
qed (simp add: bad_device)

lemma local_file_device:
  assumes i: "0 \<le> i" "i < Nlfl"
  shows "open_dev drv (LFILE0 + i) a b s = Some (SYSERR, s)"
    "\<exists>e. dvminor e = i \<and> read drv (LFILE0 + i) a b s = drv Lflread e (BufArgs a b) s \<and>
        write_dev drv (LFILE0 + i) a b s = drv Lflwrite e (BufArgs a b) s \<and>
        seek drv (LFILE0 + i) a s = drv Lflseek e (SeekArgs a) s \<and>
        close_dev drv (LFILE0 + i) s = drv Lflclose e NoArgs s"
proof -
  have nb: "\<not> isbaddev (LFILE0 + i)" using i by (simp add: isbaddev_def NDEVS_def LFILE0_def Nlfl_def)
  define e where "e = devtab ! nat (LFILE0 + i)"
  have "dvopen (devtab ! 5) = Ioerr" "dvread (devtab ! 5) = Lflread" "dvwrite (devtab ! 5) = Lflwrite"
    "dvseek (devtab ! 5) = Lflseek" "dvclose (devtab ! 5) = Lflclose" by (simp_all add: devtab_def)
  then have e: "dvopen e = Ioerr" "dvread e = Lflread" "dvwrite e = Lflwrite" "dvseek e = Lflseek" "dvclose e = Lflclose"
    "dvminor e = i" unfolding e_def local_file_row[OF i] by simp_all
  show "open_dev drv (LFILE0 + i) a b s = Some (SYSERR, s)"
    using nb e by (simp add: open_dev_def e_def[symmetric])
  show "\<exists>e. dvminor e = i \<and> read drv (LFILE0 + i) a b s = drv Lflread e (BufArgs a b) s \<and>
        write_dev drv (LFILE0 + i) a b s = drv Lflwrite e (BufArgs a b) s \<and>
        seek drv (LFILE0 + i) a s = drv Lflseek e (SeekArgs a) s \<and>
        close_dev drv (LFILE0 + i) s = drv Lflclose e NoArgs s"
    using nb e by (intro exI[of _ e]) (simp add: read_def write_dev_def seek_def close_dev_def close_def e_def[symmetric] dvcall_def)
qed



text \<open>Getdev tests the comparison the wrong way round: it returns the first device whose name
  differs from the name asked for. So it finds device 0 for every name but CONSOLE, and device 1,
  the null device, for CONSOLE; it never fails.\<close>

theorem getdev_inverted:
  assumes "cstr m devname cs" and "cstr m (lit ''CONSOLE'') (map of_char ''CONSOLE'')"
    and "cstr m (lit ''NULLDEV'') (map of_char ''NULLDEV'')"
  shows "getdev lit devname m = Some (if take 16 cs = map of_char ''CONSOLE'' then NULLDEV else CONSOLE)"
proof -
  let ?it = "\<lambda>id. if id < NDEVS then do {
       r \<leftarrow> strncmp devname (lit (dvname (devtab ! nat id))) DEVNAMLEN m;
       Some (if r \<noteq> 0 then Inr id else Inl (id + 1)) }
     else Some (Inr SYSERR)"
  obtain r where r: "strncmp devname (lit ''CONSOLE'') DEVNAMLEN m = Some r"
    "r = 0 \<longleftrightarrow> take 16 cs = take 16 (map of_char ''CONSOLE'')"
    using strncmp_ok[OF assms(1) assms(2), of DEVNAMLEN] by (auto simp: DEVNAMLEN_def)
  obtain q where q: "strncmp devname (lit ''NULLDEV'') DEVNAMLEN m = Some q"
    "q = 0 \<longleftrightarrow> take 16 cs = take 16 (map of_char ''NULLDEV'')"
    using strncmp_ok[OF assms(1) assms(3), of DEVNAMLEN] by (auto simp: DEVNAMLEN_def)
  have nm: "dvname (devtab ! nat 0) = ''CONSOLE''" "dvname (devtab ! nat 1) = ''NULLDEV''" by (simp_all add: devtab_def)
  show ?thesis
  proof (cases "r = 0")
    case True
    then have "?it 0 = Some (Inl 1)" using r(1) nm(1) by (simp add: NDEVS_def)
    moreover have "q \<noteq> 0" using True r(2) q(2) by auto
    then have "?it 1 = Some (Inr 1)" using q(1) nm(2) by (simp add: NDEVS_def)
    ultimately show ?thesis using True r(2) unfolding getdev_def by (simp add: c_loop_Inl c_loop_Inr NULLDEV_def)
  next
    case False
    then have "?it 0 = Some (Inr 0)" using r(1) nm(1) by (simp add: NDEVS_def)
    then show ?thesis using False r(2) unfolding getdev_def by (simp add: c_loop_Inr CONSOLE_def)
  qed
qed

theorem getdev_inverted_witness:
  "\<exists>m lit. cstr m 100 (map of_char ''RAM0'') \<and> getdev lit 100 m = Some CONSOLE \<and>
    getdev lit (lit ''CONSOLE'') m = Some NULLDEV"
proof -
  define m where "m = put (put (put (\<lambda>_. 0) 100 (map of_char ''RAM0'' @ [0])) 200 (map of_char ''CONSOLE'' @ [0]))
    300 (map of_char ''NULLDEV'' @ [0])"
  define lit where "lit x = (if x = ''CONSOLE'' then 200 else 300 :: int)" for x
  have m: "cstr m 100 (map of_char ''RAM0'')" "cstr m (lit ''CONSOLE'') (map of_char ''CONSOLE'')"
    "cstr m (lit ''NULLDEV'') (map of_char ''NULLDEV'')"
    by (simp_all add: m_def lit_def put_Cons)
  have "take 16 (map of_char ''RAM0'') \<noteq> map of_char ''CONSOLE''" by simp
  then show ?thesis
    using getdev_inverted[OF m] getdev_inverted[OF m(2,2,3)] m(1) by (intro exI[of _ m] exI[of _ lit]) simp
qed

end
