(* ===== verification/Shell.thy ===== *)
theory Shell
  imports C_Strings
begin

text \<open>
  The command interpreter (shell/lexan.c, the parsing and look-up part of shell/shell.c,
  include/shell.h). The input line is the list of its bytes, a pointer into it is the rest of the
  line, and reading past its end is a fault; the token buffer and the token arrays are the lists of
  what has been stored so far.
\<close>

section \<open>Lexical analysis\<close>

definition SHELL_MAXTOK :: int where "SHELL_MAXTOK = 32"
definition SHELL_BUFLEN :: int where "SHELL_BUFLEN = 129"

definition SH_NEWLINE :: int where "SH_NEWLINE = 10"
definition SH_AMPER :: int where "SH_AMPER = 38"
definition SH_BLANK :: int where "SH_BLANK = 32"
definition SH_TAB :: int where "SH_TAB = 9"
definition SH_SQUOTE :: int where "SH_SQUOTE = 39"
definition SH_DQUOTE :: int where "SH_DQUOTE = 34"
definition SH_LESS :: int where "SH_LESS = 60"
definition SH_GREATER :: int where "SH_GREATER = 62"
abbreviation NULLCH :: int where "NULLCH \<equiv> 0"

datatype toktype = SH_TOK_AMPER | SH_TOK_LESS | SH_TOK_GREATER | SH_TOK_OTHER

lemmas sh_chars = SH_NEWLINE_def SH_AMPER_def SH_BLANK_def SH_TAB_def SH_SQUOTE_def SH_DQUOTE_def SH_LESS_def SH_GREATER_def

text \<open>Skip whitespace before a token.\<close>

fun lexan_skip :: "int list \<Rightarrow> int list option" where
  "lexan_skip [] = None"
| "lexan_skip (c # p) = (if c = SH_BLANK \<or> c = SH_TAB then lexan_skip p else Some (c # p))"

text \<open>Copy a quoted string; the result is the character that ended it and what follows that.\<close>

fun lexan_quoted :: "int \<Rightarrow> int list \<Rightarrow> int list \<Rightarrow> (int \<times> int list \<times> int list) option" where
  "lexan_quoted quote [] tokbuf = None"
| "lexan_quoted quote (ch # p) tokbuf =
     (if ch \<noteq> quote \<and> ch \<noteq> SH_NEWLINE \<and> ch \<noteq> NULLCH then lexan_quoted quote p (tokbuf @ [ch])
      else Some (ch, p, tokbuf))"

text \<open>Copy the rest of a token that is not quoted.\<close>

fun lexan_word :: "int list \<Rightarrow> int list \<Rightarrow> (int \<times> int list \<times> int list) option" where
  "lexan_word [] tokbuf = None"
| "lexan_word (ch # p) tokbuf =
     (if ch \<noteq> SH_NEWLINE \<and> ch \<noteq> NULLCH \<and> ch \<noteq> SH_LESS \<and> ch \<noteq> SH_GREATER \<and> ch \<noteq> SH_BLANK \<and> ch \<noteq> SH_TAB \<and>
        ch \<noteq> SH_AMPER \<and> ch \<noteq> SH_SQUOTE \<and> ch \<noteq> SH_DQUOTE
      then lexan_word p (tokbuf @ [ch]) else Some (ch, ch # p, tokbuf))"

text \<open>What lexan returns and leaves in its arguments; tlen is set only on success.\<close>

record lexed =
  lx_ret :: int
  lx_tlen :: "int option"
  lx_tokbuf :: "int list"
  lx_tok :: "int list"
  lx_toktyp :: "toktype list"

definition lexan_iter :: "int list \<times> int \<times> int list \<times> int list \<times> toktype list \<Rightarrow>
    ((int list \<times> int \<times> int list \<times> int list \<times> toktype list) + lexed) option" where
  "lexan_iter = (\<lambda>(p, ntok, tokbuf, tok, toktyp).
     let syserr = (\<lambda>tokbuf tok toktyp. Some (Inr \<lparr>lx_ret = SYSERR, lx_tlen = None, lx_tokbuf = tokbuf, lx_tok = tok, lx_toktyp = toktyp\<rparr>));
         done = Some (Inr \<lparr>lx_ret = ntok, lx_tlen = Some (int (length tokbuf)), lx_tokbuf = tokbuf, lx_tok = tok, lx_toktyp = toktyp\<rparr>) in
     case p of [] \<Rightarrow> None
     | c # _ \<Rightarrow>
       if c = NULLCH \<or> c = SH_NEWLINE then done
       else if ntok \<ge> SHELL_MAXTOK then syserr tokbuf tok toktyp
       else do {
         p \<leftarrow> lexan_skip p;
         let ch = hd p;
         if ch = SH_NEWLINE \<or> ch = NULLCH then done
         else do {
           let tok = tok @ [int (length tokbuf)];
           if ch = SH_AMPER then Some (Inl (tl p, ntok + 1, tokbuf @ [ch, NULLCH], tok, toktyp @ [SH_TOK_AMPER]))
           else if ch = SH_LESS then Some (Inl (tl p, ntok + 1, tokbuf @ [ch, NULLCH], tok, toktyp @ [SH_TOK_LESS]))
           else if ch = SH_GREATER then Some (Inl (tl p, ntok + 1, tokbuf @ [ch, NULLCH], tok, toktyp @ [SH_TOK_GREATER]))
           else do {
             let toktyp = toktyp @ [SH_TOK_OTHER];
             if ch = SH_SQUOTE \<or> ch = SH_DQUOTE then do {
               let quote = ch;
               (ch, p, tokbuf) \<leftarrow> lexan_quoted quote (tl p) tokbuf;
               if ch \<noteq> quote then syserr tokbuf tok toktyp
               else Some (Inl (p, ntok + 1, tokbuf @ [NULLCH], tok, toktyp)) }
             else do {
               (ch, p, tokbuf) \<leftarrow> lexan_word (tl p) (tokbuf @ [ch]);
               if ch = SH_SQUOTE \<or> ch = SH_DQUOTE \<or> ch = SH_LESS \<or> ch = SH_GREATER then syserr tokbuf tok toktyp
               else Some (Inl (p, ntok + 1, tokbuf @ [NULLCH], tok, toktyp)) } } } })"

definition lexan :: "int list \<Rightarrow> lexed option" where
  "lexan line = c_loop lexan_iter (line, 0, [], [], [])"

section \<open>Parsing a command line\<close>

text \<open>The redirection at the end of the tokens; the code holds it twice, one copy after the other
  (the first copy need not test for a second redirection of the same kind, as both names are NULL
  there). A name is its index in tokbuf, None is NULL.\<close>

definition shell_redirect :: "int list \<Rightarrow> toktype list \<Rightarrow> int \<times> int \<times> int option \<times> int option \<Rightarrow>
    (int \<times> int \<times> int option \<times> int option) option" where
  "shell_redirect tok toktyp = (\<lambda>(ntok, tlen, inname, outname).
     if ntok \<ge> 3 \<and> (toktyp ! nat (ntok - 2) = SH_TOK_LESS \<or> toktyp ! nat (ntok - 2) = SH_TOK_GREATER) then
       if toktyp ! nat (ntok - 1) \<noteq> SH_TOK_OTHER then None
       else if toktyp ! nat (ntok - 2) = SH_TOK_LESS then
         if inname \<noteq> None then None
         else Some (ntok - 2, tok ! nat (ntok - 2), Some (tok ! nat (ntok - 1)), outname)
       else
         if outname \<noteq> None then None
         else Some (ntok - 2, tok ! nat (ntok - 2), inname, Some (tok ! nat (ntok - 1)))
     else Some (ntok, tlen, inname, outname))"

datatype shell_line = Syntax_error | Empty_line
  | Command (c_ntok: int) (c_tlen: int) (c_in: "int option") (c_out: "int option") (c_backgnd: bool)

definition shell_parse :: "lexed \<Rightarrow> shell_line" where
  "shell_parse x =
     (if lx_ret x = SYSERR then Syntax_error
      else if lx_ret x = 0 then Empty_line
      else
        let ntok = lx_ret x; tlen = the (lx_tlen x); toktyp = lx_toktyp x; tok = lx_tok x;
            backgnd = (toktyp ! nat (ntok - 1) = SH_TOK_AMPER);
            ntok = (if backgnd then ntok - 1 else ntok);
            tlen = (if backgnd then tlen - 2 else tlen) in
        case Option.bind (shell_redirect tok toktyp (ntok, tlen, None, None)) (shell_redirect tok toktyp) of
          None \<Rightarrow> Syntax_error
        | Some (ntok, tlen, inname, outname) \<Rightarrow>
            if ntok = 0 \<or> list_ex (\<lambda>y. y \<noteq> SH_TOK_OTHER) (take (nat ntok) toktyp) then Syntax_error
            else Command ntok tlen inname outname backgnd)"

section \<open>Termination and bounds of the analysis\<close>

definition line_end :: "int \<Rightarrow> bool" where
  "line_end c \<longleftrightarrow> c = NULLCH \<or> c = SH_NEWLINE"

definition terminated :: "int list \<Rightarrow> bool" where
  "terminated p \<longleftrightarrow> (\<exists>c \<in> set p. line_end c)"

text \<open>The number of characters before the end of the line.\<close>

definition line_len :: "int list \<Rightarrow> nat" where
  "line_len p = length (takeWhile (\<lambda>c. \<not> line_end c) p)"

lemma line_simps [simp]:
  "\<not> terminated []" "terminated (c # p) \<longleftrightarrow> line_end c \<or> terminated p"
  "line_len [] = 0" "line_len (c # p) = (if line_end c then 0 else Suc (line_len p))"
  by (auto simp: terminated_def line_len_def)

lemma lexan_skip_total:
  "terminated p \<Longrightarrow> \<exists>c q. lexan_skip p = Some (c # q) \<and> terminated (c # q) \<and> line_len (c # q) \<le> line_len p \<and>
    c \<noteq> SH_BLANK \<and> c \<noteq> SH_TAB"
proof (induction p)
  case (Cons c p)
  show ?case
  proof (cases "c = SH_BLANK \<or> c = SH_TAB")
    case True
    then have e: "lexan_skip (c # p) = lexan_skip p" "\<not> line_end c" by (auto simp: line_end_def sh_chars)
    then obtain d q where "lexan_skip p = Some (d # q)" "terminated (d # q)" "line_len (d # q) \<le> line_len p"
      "d \<noteq> SH_BLANK" "d \<noteq> SH_TAB" using Cons by auto
    then show ?thesis unfolding e(1) using e(2) by (intro exI[of _ d] exI[of _ q]) simp
  next
    case False
    then show ?thesis using Cons.prems by (intro exI[of _ c] exI[of _ p]) simp
  qed
qed simp

lemma lexan_quoted_total:
  assumes "terminated p" "\<not> line_end q"
  shows "\<exists>c r tb'. lexan_quoted q p tb = Some (c, r, tb') \<and> (c = q \<or> line_end c) \<and>
    (c = q \<longrightarrow> terminated r \<and> length tb' + Suc (line_len r) = length tb + line_len p) \<and>
    length tb \<le> length tb' \<and> length tb' \<le> length tb + line_len p"
  using assms
proof (induction q p tb rule: lexan_quoted.induct)
  case (2 q c p tb)
  show ?case
  proof (cases "c \<noteq> q \<and> c \<noteq> SH_NEWLINE \<and> c \<noteq> NULLCH")
    case True
    then have "terminated p" using 2(2) by (simp add: line_end_def)
    then show ?thesis using 2(1)[OF True] 2(3) True by (fastforce simp: line_end_def)
  next
    case False
    then show ?thesis using 2(2,3) by (auto simp: line_end_def)
  qed
qed simp

lemma lexan_word_total:
  "terminated p \<Longrightarrow> \<exists>c r tb'. lexan_word p tb = Some (c, c # r, tb') \<and> terminated (c # r) \<and>
    length tb' + line_len (c # r) = length tb + line_len p \<and> length tb \<le> length tb'"
proof (induction p tb rule: lexan_word.induct)
  case (2 c p tb)
  show ?case
  proof (cases "c \<noteq> SH_NEWLINE \<and> c \<noteq> NULLCH \<and> c \<noteq> SH_LESS \<and> c \<noteq> SH_GREATER \<and> c \<noteq> SH_BLANK \<and> c \<noteq> SH_TAB \<and>
        c \<noteq> SH_AMPER \<and> c \<noteq> SH_SQUOTE \<and> c \<noteq> SH_DQUOTE")
    case True
    then have "terminated p" using 2(2) by (simp add: line_end_def)
    then show ?thesis using 2(1)[OF True] True by (fastforce simp: line_end_def)
  next
    case False
    have "lexan_word (c # p) tb = Some (c, c # p, tb)" using False by (simp only: lexan_word.simps if_False)
    then show ?thesis using 2(2) by blast
  qed
qed simp

definition lex_inv :: "nat \<Rightarrow> int list \<times> int \<times> int list \<times> int list \<times> toktype list \<Rightarrow> bool" where
  "lex_inv n = (\<lambda>(p, ntok, tb, tok, ty). terminated p \<and> 0 \<le> ntok \<and> ntok \<le> SHELL_MAXTOK \<and>
     length tok = nat ntok \<and> length ty = nat ntok \<and> length tb + line_len p \<le> n + nat ntok \<and>
     (\<forall>i \<in> set tok. 0 \<le> i \<and> i < int (length tb)))"

text \<open>What may be said of every result, errors included.\<close>

definition lex_result :: "nat \<Rightarrow> lexed \<Rightarrow> bool" where
  "lex_result n r \<longleftrightarrow> length (lx_tokbuf r) \<le> n + 32 \<and> length (lx_tok r) \<le> 32 \<and> length (lx_toktyp r) \<le> 32 \<and>
     (lx_ret r = SYSERR \<or> 0 \<le> lx_ret r \<and> lx_ret r \<le> 32 \<and> lx_tlen r = Some (int (length (lx_tokbuf r))) \<and>
        length (lx_tok r) = nat (lx_ret r) \<and> length (lx_toktyp r) = nat (lx_ret r) \<and>
        (\<forall>i \<in> set (lx_tok r). 0 \<le> i \<and> i < int (length (lx_tokbuf r))))"

lemma lexan_step:
  assumes "lex_inv n (p, ntok, tb, tok, ty)"
  shows "(\<exists>u. lexan_iter (p, ntok, tb, tok, ty) = Some (Inl u) \<and> lex_inv n u \<and> line_len (fst u) < line_len p) \<or>
    (\<exists>r. lexan_iter (p, ntok, tb, tok, ty) = Some (Inr r) \<and> lex_result n r)"
proof -
  let ?f = "lexan_iter (p, ntok, tb, tok, ty)"
  have a: "terminated p" "0 \<le> ntok" "ntok \<le> 32" "length tok = nat ntok" "length ty = nat ntok"
    "length tb + line_len p \<le> n + nat ntok" "\<forall>i \<in> set tok. 0 \<le> i \<and> i < int (length tb)"
    using assms by (simp_all add: lex_inv_def SHELL_MAXTOK_def)
  have n32: "nat ntok \<le> 32" using a(3) by simp
  have m: "\<not> ntok \<ge> SHELL_MAXTOK \<longleftrightarrow> ntok < 32" by (simp add: SHELL_MAXTOK_def not_le)
  obtain c p' where p: "p = c # p'" using a(1) by (cases p) auto
  have fin: "lex_result n \<lparr>lx_ret = ntok, lx_tlen = Some (int (length tb)), lx_tokbuf = tb, lx_tok = tok, lx_toktyp = ty\<rparr>"
    using a n32 by (simp add: lex_result_def)
  have bad: "lex_result n \<lparr>lx_ret = SYSERR, lx_tlen = None, lx_tokbuf = tb', lx_tok = tok', lx_toktyp = ty'\<rparr>"
    if "length tb' \<le> n + 32" "length tok' \<le> 32" "length ty' \<le> 32" for tb' tok' ty'
    using that by (simp add: lex_result_def)
  show ?thesis
  proof (cases "line_end c")
    case True
    then have "?f = Some (Inr \<lparr>lx_ret = ntok, lx_tlen = Some (int (length tb)), lx_tokbuf = tb, lx_tok = tok, lx_toktyp = ty\<rparr>)"
      by (auto simp: lexan_iter_def p line_end_def)
    then show ?thesis using fin by blast
  next
    case nl: False
    show ?thesis
    proof (cases "ntok < 32")
      case False
      then have "?f = Some (Inr \<lparr>lx_ret = SYSERR, lx_tlen = None, lx_tokbuf = tb, lx_tok = tok, lx_toktyp = ty\<rparr>)"
        using nl m by (auto simp: lexan_iter_def p line_end_def)
      then show ?thesis using bad[of tb tok ty] a n32 by auto
    next
      case True
      obtain ch q where q: "lexan_skip p = Some (ch # q)" "terminated (ch # q)" "line_len (ch # q) \<le> line_len p"
        "ch \<noteq> SH_BLANK" "ch \<noteq> SH_TAB" using lexan_skip_total[OF a(1)] by blast
      have lp: "0 < line_len p" using nl by (simp add: p)
      let ?tok = "tok @ [int (length tb)]"
      have inv: "lex_inv n (r, ntok + 1, tb', ?tok, ty @ [k])"
        if "terminated r" "length tb' + line_len r \<le> Suc (length tb + line_len p)" "length tb < length tb'" for r tb' k
        using a that True by (auto simp: lex_inv_def SHELL_MAXTOK_def nat_add_distrib)
      show ?thesis
      proof (cases "line_end ch")
        case e: True
        then have "?f = Some (Inr \<lparr>lx_ret = ntok, lx_tlen = Some (int (length tb)), lx_tokbuf = tb, lx_tok = tok, lx_toktyp = ty\<rparr>)"
          using nl m q(1) True by (auto simp: lexan_iter_def p line_end_def)
        then show ?thesis using fin by blast
      next
        case ne: False
        have tq: "terminated q" "Suc (line_len q) \<le> line_len p" using q(2,3) ne by simp_all
        note f = lexan_iter_def p line_end_def
        consider (sp) "ch \<in> {SH_AMPER, SH_LESS, SH_GREATER}" | (qu) "ch = SH_SQUOTE \<or> ch = SH_DQUOTE"
          | (w) "ch \<notin> {SH_AMPER, SH_LESS, SH_GREATER}" "\<not> (ch = SH_SQUOTE \<or> ch = SH_DQUOTE)" by blast
        then show ?thesis
        proof cases
          case sp
          define k where "k = (if ch = SH_AMPER then SH_TOK_AMPER else if ch = SH_LESS then SH_TOK_LESS else SH_TOK_GREATER)"
          have "?f = Some (Inl (q, ntok + 1, tb @ [ch, NULLCH], ?tok, ty @ [k]))"
            using sp nl ne m True q(1) unfolding k_def by (auto simp: f Let_def)
          moreover have "lex_inv n (q, ntok + 1, tb @ [ch, NULLCH], ?tok, ty @ [k])"
            using tq by (intro inv) auto
          ultimately show ?thesis using tq by auto
        next
          case qu
          then have nc: "\<not> line_end ch" "ch \<notin> {SH_AMPER, SH_LESS, SH_GREATER}" using ne by (auto simp: sh_chars)
          obtain d r tb' where r: "lexan_quoted ch q tb = Some (d, r, tb')" "d = ch \<or> line_end d"
            "d = ch \<Longrightarrow> terminated r \<and> length tb' + Suc (line_len r) = length tb + line_len q"
            "length tb \<le> length tb'" "length tb' \<le> length tb + line_len q"
            using lexan_quoted_total[OF tq(1) nc(1)] by blast
          show ?thesis
          proof (cases "d = ch")
            case d: True
            have "?f = Some (Inl (r, ntok + 1, tb' @ [NULLCH], ?tok, ty @ [SH_TOK_OTHER]))"
              using qu nc nl ne m True q(1) r(1) d by (auto simp: f Let_def)
            moreover have "lex_inv n (r, ntok + 1, tb' @ [NULLCH], ?tok, ty @ [SH_TOK_OTHER])"
              using r(3)[OF d] r(4) tq by (intro inv) auto
            ultimately show ?thesis using r(3)[OF d] r(4) tq by (intro disjI1 exI) auto
          next
            case d: False
            have "?f = Some (Inr \<lparr>lx_ret = SYSERR, lx_tlen = None, lx_tokbuf = tb', lx_tok = ?tok, lx_toktyp = ty @ [SH_TOK_OTHER]\<rparr>)"
              using qu nc nl ne m True q(1) r(1) d by (auto simp: f Let_def)
            moreover have "lex_result n \<lparr>lx_ret = SYSERR, lx_tlen = None, lx_tokbuf = tb', lx_tok = ?tok, lx_toktyp = ty @ [SH_TOK_OTHER]\<rparr>"
              using r(5) tq a True by (intro bad) auto
            ultimately show ?thesis by blast
          qed
        next
          case w
          obtain d r tb' where r: "lexan_word q (tb @ [ch]) = Some (d, d # r, tb')" "terminated (d # r)"
            "length tb' + line_len (d # r) = length (tb @ [ch]) + line_len q" "length (tb @ [ch]) \<le> length tb'"
            using lexan_word_total[OF tq(1)] by blast
          show ?thesis
          proof (cases "d = SH_SQUOTE \<or> d = SH_DQUOTE \<or> d = SH_LESS \<or> d = SH_GREATER")
            case d: False
            have "?f = Some (Inl (d # r, ntok + 1, tb' @ [NULLCH], ?tok, ty @ [SH_TOK_OTHER]))"
              using w nl ne m True q(1) r(1) d by (auto simp: f Let_def)
            moreover have "lex_inv n (d # r, ntok + 1, tb' @ [NULLCH], ?tok, ty @ [SH_TOK_OTHER])"
              using r(2-4) tq(2) by (intro inv) (simp_all del: line_simps)
            moreover have "line_len (d # r) < line_len p" using r(3,4) tq(2) by (simp del: line_simps)
            ultimately show ?thesis
              by (intro disjI1 exI[of _ "(d # r, ntok + 1, tb' @ [NULLCH], ?tok, ty @ [SH_TOK_OTHER])"]) (simp del: line_simps)
          next
            case d: True
            have "?f = Some (Inr \<lparr>lx_ret = SYSERR, lx_tlen = None, lx_tokbuf = tb', lx_tok = ?tok, lx_toktyp = ty @ [SH_TOK_OTHER]\<rparr>)"
              using w nl ne m True q(1) r(1) d by (auto simp: f Let_def)
            moreover have "lex_result n \<lparr>lx_ret = SYSERR, lx_tlen = None, lx_tokbuf = tb', lx_tok = ?tok, lx_toktyp = ty @ [SH_TOK_OTHER]\<rparr>"
              using r(3,4) tq(2) a True by (intro bad) (simp_all del: line_simps)
            ultimately show ?thesis by blast
          qed
        qed
      qed
    qed
  qed
qed

lemma lexan_total:
  assumes "terminated line"
  shows "\<exists>r. lexan line = Some r \<and> lex_result (line_len line) r"
  unfolding lexan_def
proof (rule c_loop_total[where P = "lex_inv (line_len line)" and m = "\<lambda>u. line_len (fst u)"])
  show "lex_inv (line_len line) (line, 0, [], [], [])" using assms by (simp add: lex_inv_def SHELL_MAXTOK_def)
next
  fix u assume u: "lex_inv (line_len line) u"
  obtain p ntok tb tok ty where e: "u = (p, ntok, tb, tok, ty)" by (metis prod_cases5)
  show "(\<exists>t. lexan_iter u = Some (Inl t) \<and> lex_inv (line_len line) t \<and> line_len (fst t) < line_len (fst u)) \<or>
      (\<exists>r. lexan_iter u = Some (Inr r) \<and> lex_result (line_len line) r)"
    using lexan_step u unfolding e fst_conv by blast
qed

section \<open>Tokens and their text\<close>

datatype token = Word "int list" | Quoted int "int list" | Amp | Less | Greater

fun token_text :: "token \<Rightarrow> int list" where
  "token_text (Word w) = w"
| "token_text (Quoted q w) = w"
| "token_text Amp = [SH_AMPER]"
| "token_text Less = [SH_LESS]"
| "token_text Greater = [SH_GREATER]"

fun token_typ :: "token \<Rightarrow> toktype" where
  "token_typ Amp = SH_TOK_AMPER"
| "token_typ Less = SH_TOK_LESS"
| "token_typ Greater = SH_TOK_GREATER"
| "token_typ _ = SH_TOK_OTHER"

fun render :: "token \<Rightarrow> int list" where
  "render (Quoted q w) = q # w @ [q]"
| "render t = token_text t"

definition special :: "int \<Rightarrow> bool" where
  "special c \<longleftrightarrow> c \<in> {SH_NEWLINE, NULLCH, SH_LESS, SH_GREATER, SH_BLANK, SH_TAB, SH_AMPER, SH_SQUOTE, SH_DQUOTE}"

fun token_ok :: "token \<Rightarrow> bool" where
  "token_ok (Word w) \<longleftrightarrow> w \<noteq> [] \<and> (\<forall>c \<in> set w. \<not> special c)"
| "token_ok (Quoted q w) \<longleftrightarrow> (q = SH_SQUOTE \<or> q = SH_DQUOTE) \<and> (\<forall>c \<in> set w. c \<noteq> q \<and> c \<noteq> SH_NEWLINE \<and> c \<noteq> NULLCH)"
| "token_ok _ \<longleftrightarrow> True"

definition blanks :: "int list \<Rightarrow> bool" where
  "blanks b \<longleftrightarrow> b \<noteq> [] \<and> set b \<subseteq> {SH_BLANK, SH_TAB}"

fun line_of :: "(int list \<times> token) list \<Rightarrow> int list" where
  "line_of [] = [SH_NEWLINE]"
| "line_of ((b, t) # ts) = b @ render t @ line_of ts"

fun buf_of :: "token list \<Rightarrow> int list" where
  "buf_of [] = []"
| "buf_of (t # ts) = token_text t @ NULLCH # buf_of ts"

fun starts_of :: "int \<Rightarrow> token list \<Rightarrow> int list" where
  "starts_of k [] = []"
| "starts_of k (t # ts) = k # starts_of (k + int (length (token_text t)) + 1) ts"

lemma lexan_skip_ok: "set b \<subseteq> {SH_BLANK, SH_TAB} \<Longrightarrow> c \<noteq> SH_BLANK \<Longrightarrow> c \<noteq> SH_TAB \<Longrightarrow> lexan_skip (b @ c # r) = Some (c # r)"
  by (induction b) auto

lemma lexan_quoted_ok:
  "\<forall>c \<in> set w. c \<noteq> q \<and> c \<noteq> SH_NEWLINE \<and> c \<noteq> NULLCH \<Longrightarrow> lexan_quoted q (w @ q # r) tb = Some (q, r, tb @ w)"
  by (induction w arbitrary: tb) auto

lemma lexan_word_ok:
  "\<forall>c \<in> set w. \<not> special c \<Longrightarrow> special d \<Longrightarrow> lexan_word (w @ d # r) tb = Some (d, d # r, tb @ w)"
  by (induction w arbitrary: tb) (auto simp: special_def)

lemma lexan_token:
  assumes "token_ok t" "blanks b" "n < SHELL_MAXTOK" "d = SH_NEWLINE \<or> d = SH_BLANK \<or> d = SH_TAB"
  shows "lexan_iter (b @ render t @ d # r, n, tb, tok, ty) =
    Some (Inl (d # r, n + 1, tb @ token_text t @ [NULLCH], tok @ [int (length tb)], ty @ [token_typ t]))"
proof -
  obtain c b' where b: "b = c # b'" "c = SH_BLANK \<or> c = SH_TAB" "set b \<subseteq> {SH_BLANK, SH_TAB}"
    using assms(2) by (cases b) (auto simp: blanks_def)
  have c: "c \<noteq> NULLCH" "c \<noteq> SH_NEWLINE" using b(2) by (auto simp: sh_chars)
  have n: "\<not> n \<ge> SHELL_MAXTOK" using assms(3) by simp
  have skip: "lexan_skip (b @ x # y) = Some (x # y)" if "x \<noteq> SH_BLANK" "x \<noteq> SH_TAB" for x y
    using lexan_skip_ok[OF b(3) that] .
  have it: "lexan_iter (b @ x # y, n, tb, tok, ty) = (
      if x = SH_NEWLINE \<or> x = NULLCH then Some (Inr \<lparr>lx_ret = n, lx_tlen = Some (int (length tb)), lx_tokbuf = tb, lx_tok = tok, lx_toktyp = ty\<rparr>)
      else if x = SH_AMPER then Some (Inl (y, n + 1, tb @ [x, NULLCH], tok @ [int (length tb)], ty @ [SH_TOK_AMPER]))
      else if x = SH_LESS then Some (Inl (y, n + 1, tb @ [x, NULLCH], tok @ [int (length tb)], ty @ [SH_TOK_LESS]))
      else if x = SH_GREATER then Some (Inl (y, n + 1, tb @ [x, NULLCH], tok @ [int (length tb)], ty @ [SH_TOK_GREATER]))
      else lexan_iter (b @ x # y, n, tb, tok, ty))" if "x \<noteq> SH_BLANK" "x \<noteq> SH_TAB" for x y
    using skip[OF that, of y] c n b(1) by (auto simp: lexan_iter_def Let_def)
  show ?thesis
  proof (cases t)
    case (Word w)
    then obtain x w' where w: "w = x # w'" "\<not> special x" "\<forall>c \<in> set w'. \<not> special c" using assms(1) by (cases w) auto
    have x: "x \<noteq> SH_BLANK" "x \<noteq> SH_TAB" "x \<noteq> SH_NEWLINE" "x \<noteq> NULLCH" "x \<noteq> SH_AMPER" "x \<noteq> SH_LESS" "x \<noteq> SH_GREATER"
      "x \<noteq> SH_SQUOTE" "x \<noteq> SH_DQUOTE" using w(2) by (simp_all add: special_def)
    have d: "special d" "\<not> (d = SH_SQUOTE \<or> d = SH_DQUOTE \<or> d = SH_LESS \<or> d = SH_GREATER)"
      using assms(4) by (auto simp: special_def sh_chars)
    show ?thesis
      using skip[OF x(1,2), of "w' @ d # r"] lexan_word_ok[OF w(3) d(1), of r "tb @ [x]"] x c n b(1) d(2)
      by (simp add: lexan_iter_def Let_def Word w(1))
  next
    case (Quoted q w)
    then have q: "q = SH_SQUOTE \<or> q = SH_DQUOTE" "\<forall>c \<in> set w. c \<noteq> q \<and> c \<noteq> SH_NEWLINE \<and> c \<noteq> NULLCH"
      using assms(1) by auto
    have x: "q \<noteq> SH_BLANK" "q \<noteq> SH_TAB" "q \<noteq> SH_NEWLINE" "q \<noteq> NULLCH" "q \<noteq> SH_AMPER" "q \<noteq> SH_LESS" "q \<noteq> SH_GREATER"
      using q(1) by (auto simp: sh_chars)
    show ?thesis
      using skip[OF x(1,2), of "w @ q # d # r"] lexan_quoted_ok[OF q(2), of "d # r" tb] x c n b(1) q(1)
      by (simp add: lexan_iter_def Let_def Quoted)
  next
    case Amp
    then show ?thesis using it[of SH_AMPER "d # r"] by (simp add: sh_chars)
  next
    case Less
    then show ?thesis using it[of SH_LESS "d # r"] by (simp add: sh_chars)
  next
    case Greater
    then show ?thesis using it[of SH_GREATER "d # r"] by (simp add: sh_chars)
  qed
qed

lemma line_of_head:
  assumes "\<forall>(b, t) \<in> set ts. blanks b"
  shows "\<exists>d r. line_of ts = d # r \<and> (d = SH_NEWLINE \<or> d = SH_BLANK \<or> d = SH_TAB)"
proof (cases ts)
  case (Cons x ts')
  then obtain b t where "x = (b, t)" "blanks b" using assms by (cases x) auto
  then show ?thesis using Cons by (cases b) (auto simp: blanks_def)
qed simp

lemma lexan_tokens:
  assumes "\<forall>(b, t) \<in> set ts. blanks b \<and> token_ok t" "n + int (length ts) \<le> SHELL_MAXTOK"
  shows "c_loop lexan_iter (line_of ts, n, tb, tok, ty) = Some \<lparr>lx_ret = n + int (length ts),
    lx_tlen = Some (int (length (tb @ buf_of (map snd ts)))), lx_tokbuf = tb @ buf_of (map snd ts),
    lx_tok = tok @ starts_of (int (length tb)) (map snd ts), lx_toktyp = ty @ map (token_typ \<circ> snd) ts\<rparr>"
  using assms
proof (induction ts arbitrary: n tb tok ty)
  case Nil
  then show ?case by (subst c_loop_Inr) (auto simp: lexan_iter_def)
next
  case (Cons x ts)
  obtain b t where x: "x = (b, t)" by (cases x)
  have a: "blanks b" "token_ok t" "\<forall>(b, t) \<in> set ts. blanks b \<and> token_ok t" using Cons.prems(1) x by auto
  obtain d r where d: "line_of ts = d # r" "d = SH_NEWLINE \<or> d = SH_BLANK \<or> d = SH_TAB"
    using line_of_head[of ts] a(3) by fast
  have n: "n < SHELL_MAXTOK" "n + 1 + int (length ts) \<le> SHELL_MAXTOK" using Cons.prems(2) by simp_all
  have st: "lexan_iter (line_of (x # ts), n, tb, tok, ty) =
      Some (Inl (line_of ts, n + 1, tb @ token_text t @ [NULLCH], tok @ [int (length tb)], ty @ [token_typ t]))"
    using lexan_token[OF a(2,1) n(1) d(2)] d(1) x by simp
  show ?case unfolding c_loop_Inl[where f = lexan_iter, OF st] Cons.IH[OF a(3) n(2)]
    by (simp add: x algebra_simps)
qed

section \<open>The command table\<close>

text \<open>The QEMU configuration; the table gives each command name and whether it is built in.\<close>

definition cmdtab :: "(string \<times> bool) list" where
  "cmdtab = [(''argecho'', True), (''cat'', False), (''clear'', True), (''date'', False), (''devdump'', False),
     (''echo'', False), (''exit'', True), (''help'', False), (''kill'', True), (''memdump'', False),
     (''memstat'', False), (''ps'', False), (''sleep'', False), (''uptime'', False), (''hello'', False),
     (''process_ring'', False), (''prodcons'', False), (''fstest'', False), (''create_example'', False),
     (''polling_example'', False), (''semaphore_example'', False), (''message_example'', False),
     (''arg_example'', False), (''?'', False)]"

definition ncmd :: nat where "ncmd = length cmdtab"

text \<open>The comparison of a command name, up to its null, with the first token; the result is whether
  they are the same string.\<close>

fun cmd_same :: "int list \<Rightarrow> int list \<Rightarrow> bool option" where
  "cmd_same src [] = None"
| "cmd_same [] (c # cmp) = Some (c = NULLCH)"
| "cmd_same (s # src) (c # cmp) = (if c \<noteq> s then Some False else cmd_same src cmp)"

definition cmd_lookup :: "int list \<Rightarrow> nat option" where
  "cmd_lookup tokbuf = c_loop (\<lambda>j.
     if j < ncmd then do {
       same \<leftarrow> cmd_same (map of_char (fst (cmdtab ! j))) tokbuf;
       Some (if same then Inr j else Inl (j + 1)) }
     else Some (Inr j)) 0"

text \<open>What the shell does with a line: report an error and prompt again, call a built-in command with
  the token starts as its argument vector, or create a process for the command.\<close>

datatype shell_action = Prompt_again | Report_syntax | Report_not_found | Report_builtin
  | Call_builtin nat "int list"
  | Spawn nat int int "int option" "int option" bool

definition shell_dispatch :: "lexed \<Rightarrow> shell_action option" where
  "shell_dispatch x = (case shell_parse x of
     Syntax_error \<Rightarrow> Some Report_syntax
   | Empty_line \<Rightarrow> Some Prompt_again
   | Command ntok tlen inname outname backgnd \<Rightarrow> do {
       j \<leftarrow> cmd_lookup (lx_tokbuf x);
       if j \<ge> ncmd then Some Report_not_found
       else if snd (cmdtab ! j) then
         if inname \<noteq> None \<or> outname \<noteq> None \<or> backgnd then Some Report_builtin
         else Some (Call_builtin j (take (nat ntok) (lx_tok x)))
       else Some (Spawn j ntok tlen inname outname backgnd) })"

lemma cmd_same_ok: "NULLCH \<notin> set w \<Longrightarrow> cmd_same src (w @ NULLCH # r) = Some (src = w)" if "NULLCH \<notin> set src"
  using that
proof (induction src arbitrary: w)
  case Nil
  then show ?case by (cases w) auto
next
  case (Cons s src)
  then show ?case by (cases w) auto
qed

lemma cmdtab_names: "j < ncmd \<Longrightarrow> NULLCH \<notin> set (map of_char (fst (cmdtab ! j)))"
proof -
  have "\<forall>j < 24. (0 :: int) \<notin> set (map of_char (fst (cmdtab ! j)))"
    by (simp add: cmdtab_def All_less_Suc eval_nat_numeral)
  moreover have "ncmd = 24" by (simp add: ncmd_def cmdtab_def)
  ultimately show "j < ncmd \<Longrightarrow> NULLCH \<notin> set (map of_char (fst (cmdtab ! j)))" by simp
qed

text \<open>The first command of the given name, or the length of the table.\<close>

fun first_name :: "int list \<Rightarrow> string list \<Rightarrow> nat" where
  "first_name w [] = 0"
| "first_name w (n # ns) = (if map of_char n = w then 0 else Suc (first_name w ns))"

lemma cmd_lookup_ok:
  assumes "NULLCH \<notin> set w"
  shows "cmd_lookup (w @ NULLCH # r) = Some (first_name w (map fst cmdtab))"
proof -
  let ?it = "\<lambda>j. if j < ncmd then do {
       same \<leftarrow> cmd_same (map of_char (fst (cmdtab ! j))) (w @ NULLCH # r);
       Some (if same then Inr j else Inl (j + 1)) }
     else Some (Inr j)"
  have "c_loop ?it j = Some (j + first_name w (map fst (drop j cmdtab)))" if "j \<le> ncmd" for j
    using that
  proof (induction "ncmd - j" arbitrary: j)
    case 0
    then show ?case by (subst c_loop_Inr) (auto simp: ncmd_def)
  next
    case (Suc k)
    then have j: "j < ncmd" by simp
    have d: "drop j cmdtab = cmdtab ! j # drop (Suc j) cmdtab"
      using j by (simp add: Cons_nth_drop_Suc ncmd_def)
    have s: "cmd_same (map of_char (fst (cmdtab ! j))) (w @ NULLCH # r) = Some (map of_char (fst (cmdtab ! j)) = w)"
      using cmd_same_ok[OF cmdtab_names[OF j] assms] .
    show ?case
    proof (cases "map of_char (fst (cmdtab ! j)) = w")
      case True
      then have "?it j = Some (Inr j)" using j s by simp
      then show ?thesis unfolding d using True by (simp add: c_loop_Inr)
    next
      case False
      then have "?it j = Some (Inl (Suc j))" using j s by simp
      moreover have "c_loop ?it (Suc j) = Some (Suc j + first_name w (map fst (drop (Suc j) cmdtab)))"
        using Suc.hyps(1)[of "Suc j"] Suc.hyps(2) j by simp
      ultimately show ?thesis unfolding d using False by (simp add: c_loop_Inl)
    qed
  qed
  from this[of 0] show ?thesis by (simp add: cmd_lookup_def ncmd_def)
qed

section \<open>Redirection\<close>

lemma starts_of_append:
  "starts_of k (ts @ us) = starts_of k ts @ starts_of (k + int (length (buf_of ts))) us"
  by (induction ts arbitrary: k) (simp_all add: algebra_simps)

lemma buf_of_append: "buf_of (ts @ us) = buf_of ts @ buf_of us"
  by (induction ts) simp_all

lemma starts_of_length [simp]: "length (starts_of k ts) = length ts"
  by (induction ts arbitrary: k) simp_all

definition arg :: "token \<Rightarrow> bool" where
  "arg t \<longleftrightarrow> token_typ t = SH_TOK_OTHER"

definition lexed_of :: "token list \<Rightarrow> lexed" where
  "lexed_of ts = \<lparr>lx_ret = int (length ts), lx_tlen = Some (int (length (buf_of ts))), lx_tokbuf = buf_of ts,
     lx_tok = starts_of 0 ts, lx_toktyp = map token_typ ts\<rparr>"

lemma redirect_none:
  assumes "ws \<noteq> []" "\<forall>t \<in> set ws. arg t"
  shows "shell_redirect tok (map token_typ (ws @ us)) (int (length ws), l, inn, out) = Some (int (length ws), l, inn, out)"
proof -
  have "map token_typ (ws @ us) ! nat (int (length ws) - 2) = SH_TOK_OTHER" if "3 \<le> length ws"
  proof -
    have "nat (int (length ws) - 2) = length ws - 2" "length ws - 2 < length ws" using that by simp_all
    then show ?thesis using assms(2) by (simp add: nth_append arg_def)
  qed
  then show ?thesis by (auto simp: shell_redirect_def)
qed

lemma redirect_one:
  assumes "1 \<le> length vs" "arg f" "d = Less \<and> inn = None \<or> d = Greater \<and> out = None"
  shows "shell_redirect (starts_of 0 (vs @ [d, f] @ us)) (map token_typ (vs @ [d, f] @ us)) (int (length vs) + 2, l, inn, out) =
    Some (int (length vs), int (length (buf_of vs)),
      if d = Less then Some (int (length (buf_of (vs @ [d])))) else inn,
      if d = Greater then Some (int (length (buf_of (vs @ [d])))) else out)"
proof -
  have n: "nat (int (length vs) + 2 - 2) = length vs" "nat (int (length vs) + 2 - 1) = Suc (length vs)" by simp_all
  have y: "map token_typ (vs @ [d, f] @ us) ! length vs = token_typ d"
    "map token_typ (vs @ [d, f] @ us) ! Suc (length vs) = SH_TOK_OTHER"
    using assms(2) by (simp_all add: nth_append arg_def)
  have s: "starts_of 0 (vs @ [d, f] @ us) ! length vs = int (length (buf_of vs))"
    "starts_of 0 (vs @ [d, f] @ us) ! Suc (length vs) = int (length (buf_of (vs @ [d])))"
    by (simp_all add: starts_of_append nth_append buf_of_append)
  show ?thesis unfolding shell_redirect_def prod.case n y s using assms(1,3) by auto
qed

definition redirections :: "token list \<Rightarrow> token option \<Rightarrow> token option \<Rightarrow> token list" where
  "redirections ws inn out = ws @ (case inn of None \<Rightarrow> [] | Some f \<Rightarrow> [Less, f]) @ (case out of None \<Rightarrow> [] | Some f \<Rightarrow> [Greater, f])"

definition name_at :: "token list \<Rightarrow> token option \<Rightarrow> int option" where
  "name_at ts = map_option (\<lambda>_. int (length (buf_of ts)))"

lemma redirect_both:
  assumes "ws \<noteq> []" "\<forall>t \<in> set ws. arg t" "pred_option arg inn" "pred_option arg out"
  shows "Option.bind (shell_redirect (starts_of 0 (redirections ws inn out @ us)) (map token_typ (redirections ws inn out @ us))
      (int (length (redirections ws inn out)), int (length (buf_of (redirections ws inn out))), None, None))
      (shell_redirect (starts_of 0 (redirections ws inn out @ us)) (map token_typ (redirections ws inn out @ us))) =
    Some (int (length ws), int (length (buf_of ws)), name_at (ws @ [Less]) inn, name_at (redirections ws inn None @ [Greater]) out)"
proof -
  have l: "1 \<le> length ws" using assms(1) by (cases ws) auto
  show ?thesis
  proof (cases inn; cases out)
    assume e: "inn = None" "out = None"
    note r = redirect_none[OF assms(1,2), of "starts_of 0 (ws @ us)" us]
    have "redirections ws inn out = ws" by (simp add: redirections_def e)
    then show ?thesis by (simp only: r bind.bind_lunit) (simp add: e name_at_def)
  next
    fix g assume e: "inn = None" "out = Some g"
    have a: "arg g" using assms(4) e by simp
    have x: "redirections ws inn out = ws @ [Greater, g]" "redirections ws inn None = ws" by (simp_all add: redirections_def e)
    have n: "int (length (ws @ [Greater, g])) = int (length ws) + 2" by simp
    have c: "(ws @ [Greater, g]) @ us = ws @ [Greater, g] @ us" by simp
    have r: "shell_redirect (starts_of 0 (ws @ [Greater, g] @ us)) (map token_typ (ws @ [Greater, g] @ us))
        (int (length ws) + 2, int (length (buf_of (ws @ [Greater, g]))), None, None) =
      Some (int (length ws), int (length (buf_of ws)), None, Some (int (length (buf_of (ws @ [Greater])))))"
      using redirect_one[OF l a, of Greater None None us] by simp
    note q = redirect_none[OF assms(1,2), of "starts_of 0 (ws @ [Greater, g] @ us)" "[Greater, g] @ us"]
    show ?thesis unfolding x n c r bind.bind_lunit q by (simp add: e name_at_def)
  next
    fix f assume e: "inn = Some f" "out = None"
    have a: "arg f" using assms(3) e by simp
    have x: "redirections ws inn out = ws @ [Less, f]" "redirections ws inn None = ws @ [Less, f]" by (simp_all add: redirections_def e)
    have n: "int (length (ws @ [Less, f])) = int (length ws) + 2" by simp
    have c: "(ws @ [Less, f]) @ us = ws @ [Less, f] @ us" by simp
    have r: "shell_redirect (starts_of 0 (ws @ [Less, f] @ us)) (map token_typ (ws @ [Less, f] @ us))
        (int (length ws) + 2, int (length (buf_of (ws @ [Less, f]))), None, None) =
      Some (int (length ws), int (length (buf_of ws)), Some (int (length (buf_of (ws @ [Less])))), None)"
      using redirect_one[OF l a, of Less None None us] by simp
    note q = redirect_none[OF assms(1,2), of "starts_of 0 (ws @ [Less, f] @ us)" "[Less, f] @ us"]
    show ?thesis unfolding x n c r bind.bind_lunit q by (simp add: e name_at_def)
  next
    fix f g assume e: "inn = Some f" "out = Some g"
    have a: "arg f" "arg g" using assms(3,4) e by simp_all
    let ?v = "ws @ [Less, f]"
    have x: "redirections ws inn out = ?v @ [Greater, g]" "redirections ws inn None = ?v" by (simp_all add: redirections_def e)
    have n: "int (length (?v @ [Greater, g])) = int (length ?v) + 2" "int (length ?v) = int (length ws) + 2" by simp_all
    have c: "(?v @ [Greater, g]) @ us = ?v @ [Greater, g] @ us" "?v @ [Greater, g] @ us = ws @ [Less, f] @ [Greater, g] @ us" by simp_all
    have l2: "1 \<le> length ?v" by simp
    have r1: "shell_redirect (starts_of 0 (?v @ [Greater, g] @ us)) (map token_typ (?v @ [Greater, g] @ us))
        (int (length ?v) + 2, int (length (buf_of (?v @ [Greater, g]))), None, None) =
      Some (int (length ?v), int (length (buf_of ?v)), None, Some (int (length (buf_of (?v @ [Greater])))))"
      using redirect_one[OF l2 a(2), of Greater None None us] by simp
    have r2: "shell_redirect (starts_of 0 (ws @ [Less, f] @ [Greater, g] @ us)) (map token_typ (ws @ [Less, f] @ [Greater, g] @ us))
        (int (length ws) + 2, int (length (buf_of ?v)), None, Some (int (length (buf_of (?v @ [Greater]))))) =
      Some (int (length ws), int (length (buf_of ws)), Some (int (length (buf_of (ws @ [Less])))), Some (int (length (buf_of (?v @ [Greater])))))"
      using redirect_one[OF l a(1), of Less None "Some (int (length (buf_of (?v @ [Greater]))))" "[Greater, g] @ us"] by simp
    show ?thesis unfolding x n(1) c(1) r1 bind.bind_lunit unfolding n(2) c(2) r2 by (simp add: e name_at_def)
  qed
qed

lemma shell_parse_ok:
  assumes "ws \<noteq> []" "\<forall>t \<in> set ws. arg t" "pred_option arg inn" "pred_option arg out"
  shows "shell_parse (lexed_of (redirections ws inn out @ (if bg then [Amp] else []))) =
    Command (int (length ws)) (int (length (buf_of ws))) (name_at (ws @ [Less]) inn) (name_at (redirections ws inn None @ [Greater]) out) bg"
proof -
  let ?r = "redirections ws inn out"
  define us where "us = (if bg then [Amp] else [])"
  have ne: "?r \<noteq> []" using assms(1) by (simp add: redirections_def)
  have la: "arg (last ?r)" using assms by (cases inn; cases out) (auto simp: redirections_def)
  have b: "map token_typ (?r @ us) ! nat (int (length (?r @ us)) - 1) = SH_TOK_AMPER \<longleftrightarrow> bg"
  proof (cases bg)
    case True
    then show ?thesis by (simp add: nth_append us_def)
  next
    case False
    have "nat (int (length ?r) - 1) = length ?r - 1" using ne by (cases ?r) auto
    then have "map token_typ ?r ! nat (int (length ?r) - 1) = token_typ (last ?r)"
      using ne by (simp add: last_conv_nth)
    then show ?thesis using False la by (simp add: arg_def us_def)
  qed
  have n: "(if bg then int (length (?r @ us)) - 1 else int (length (?r @ us))) = int (length ?r)"
    "(if bg then int (length (buf_of (?r @ us))) - 2 else int (length (buf_of (?r @ us)))) = int (length (buf_of ?r))"
    by (simp_all add: buf_of_append us_def)
  have o: "\<not> list_ex (\<lambda>y. y \<noteq> SH_TOK_OTHER) (take (nat (int (length ws))) (map token_typ (?r @ us)))"
    using assms(2) by (simp add: redirections_def list_ex_iff arg_def take_map)
  have z: "int (length (?r @ us)) \<noteq> SYSERR" "int (length (?r @ us)) \<noteq> 0" "int (length ws) \<noteq> 0"
    using ne assms(1) length_greater_0_conv[of ?r] by (simp_all del: length_greater_0_conv)
  show ?thesis
    unfolding us_def[symmetric] shell_parse_def lexed_of_def lexed.simps Let_def option.sel b n
    using z o redirect_both[OF assms, of us] by (simp only: if_False option.case prod.case simp_thms)
qed

section \<open>Properties\<close>

text \<open>C25: on a line that ends in a newline or a null within a tty buffer, lexan returns, and whatever
  the line holds it stores at most SHELL_BUFLEN + SHELL_MAXTOK bytes in tokbuf and at most
  SHELL_MAXTOK entries in tok and toktyp, the sizes of the shell's arrays; on success every token
  start lies within the text stored.\<close>

theorem lexan_bounds:
  assumes "terminated line" "int (line_len line) \<le> SHELL_BUFLEN"
  shows "\<exists>r. lexan line = Some r \<and> int (length (lx_tokbuf r)) \<le> SHELL_BUFLEN + SHELL_MAXTOK \<and>
    int (length (lx_tok r)) \<le> SHELL_MAXTOK \<and> int (length (lx_toktyp r)) \<le> SHELL_MAXTOK \<and>
    (lx_ret r \<noteq> SYSERR \<longrightarrow> 0 \<le> lx_ret r \<and> length (lx_tok r) = nat (lx_ret r) \<and>
       lx_tlen r = Some (int (length (lx_tokbuf r))) \<and> (\<forall>i \<in> set (lx_tok r). 0 \<le> i \<and> i < int (length (lx_tokbuf r))))"
  using lexan_total[OF assms(1)] assms(2) by (auto simp: lex_result_def SHELL_BUFLEN_def SHELL_MAXTOK_def)

theorem lexan_bounds_witness:
  "\<exists>r. lexan [99, 97, 116, 32, 60, 102, 10] = Some r \<and> length (lx_tokbuf r) \<le> 161"
proof -
  have "terminated [99, 97, 116, 32, 60, 102, 10 :: int]" "int (line_len [99, 97, 116, 32, 60, 102, 10]) \<le> SHELL_BUFLEN"
    by (simp_all add: line_end_def sh_chars SHELL_BUFLEN_def)
  then show ?thesis using lexan_bounds by (fastforce simp: SHELL_BUFLEN_def SHELL_MAXTOK_def)
qed

text \<open>C26: the shell understands what it documents. A line typed as a command with its arguments (plain
  or quoted), an optional input file, an optional output file and an optional ampersand, each token
  after blanks, is taken apart into exactly these: the right number of words, the files' places in
  the token buffer, the background flag; and the command that runs is the first of the table with
  that name, as a built-in or as a new process.\<close>

theorem shell_understands:
  fixes bs :: "int list list"
  assumes "ts = redirections (w # ws) inn out @ (if bg then [Amp] else [])" "length ts \<le> 32" "length bs = length ts"
    and "\<forall>b \<in> set bs. blanks b" "\<forall>t \<in> set ts. token_ok t" "\<forall>t \<in> set (w # ws). arg t"
    and "pred_option arg inn" "pred_option arg out" "NULLCH \<notin> set (token_text w)"
  shows "\<exists>x. lexan (line_of (zip bs ts)) = Some x \<and>
    lx_tokbuf x = buf_of ts \<and> shell_dispatch x = (
      let j = first_name (token_text w) (map fst cmdtab);
        n = int (length (w # ws)); i = name_at ((w # ws) @ [Less]) inn; outp = name_at (redirections (w # ws) inn None @ [Greater]) out in
      if j \<ge> ncmd then Some Report_not_found
      else if snd (cmdtab ! j) then
        if inn \<noteq> None \<or> out \<noteq> None \<or> bg then Some Report_builtin else Some (Call_builtin j (starts_of 0 (w # ws)))
      else Some (Spawn j n (int (length (buf_of (w # ws)))) i outp bg))"
proof -
  have z: "\<forall>(b, t) \<in> set (zip bs ts). blanks b \<and> token_ok t"
    using assms(4,5) by (auto dest: set_zip_leftD set_zip_rightD)
  have m: "map snd (zip bs ts) = ts" "map (token_typ \<circ> snd) (zip bs ts) = map token_typ ts" "length (zip bs ts) = length ts"
    using assms(3) by (simp_all add: map_map[symmetric] del: map_map)
  have "lexan (line_of (zip bs ts)) = Some (lexed_of ts)"
    using lexan_tokens[OF z, of 0 "[]" "[]" "[]"] assms(2) m
    by (simp add: lexan_def lexed_of_def SHELL_MAXTOK_def)
  moreover have p: "shell_parse (lexed_of ts) = Command (int (length (w # ws))) (int (length (buf_of (w # ws))))
      (name_at ((w # ws) @ [Less]) inn) (name_at (redirections (w # ws) inn None @ [Greater]) out) bg"
    unfolding assms(1) by (rule shell_parse_ok) (use assms(6-8) in auto)
  have b: "\<exists>r. buf_of ts = token_text w @ NULLCH # r" unfolding assms(1) by (simp add: redirections_def)
  then have l: "cmd_lookup (lx_tokbuf (lexed_of ts)) = Some (first_name (token_text w) (map fst cmdtab))"
    using cmd_lookup_ok[OF assms(9)] by (auto simp: lexed_of_def)
  have s: "take (nat (int (length (w # ws)))) (lx_tok (lexed_of ts)) = starts_of 0 (w # ws)"
    unfolding assms(1) nat_int by (simp add: lexed_of_def redirections_def starts_of_append)
  have nn: "name_at ts' o' = None \<longleftrightarrow> o' = None" for ts' o' by (simp add: name_at_def)
  have "shell_dispatch (lexed_of ts) = (
      let j = first_name (token_text w) (map fst cmdtab);
        n = int (length (w # ws)); i = name_at ((w # ws) @ [Less]) inn; outp = name_at (redirections (w # ws) inn None @ [Greater]) out in
      if j \<ge> ncmd then Some Report_not_found
      else if snd (cmdtab ! j) then
        if inn \<noteq> None \<or> out \<noteq> None \<or> bg then Some Report_builtin else Some (Call_builtin j (starts_of 0 (w # ws)))
      else Some (Spawn j n (int (length (buf_of (w # ws)))) i outp bg))"
    unfolding shell_dispatch_def p shell_line.case l bind.bind_lunit s nn Let_def ..
  moreover have "lx_tokbuf (lexed_of ts) = buf_of ts" by (simp add: lexed_of_def)
  ultimately show ?thesis by blast
qed


theorem shell_understands_witness:
  "\<exists>x. lexan (map of_char '' cat < in > out &'' @ [10]) = Some x \<and> shell_dispatch x = Some (Spawn 1 1 4 (Some 6) (Some 11) True)"
proof -
  let ?w = "Word (map of_char ''cat'')" and ?f = "Word (map of_char ''in'')" and ?g = "Word (map of_char ''out'')"
  let ?ts = "redirections [?w] (Some ?f) (Some ?g) @ (if True then [Amp] else [])"
  have ts: "?ts = [?w, Less, ?f, Greater, ?g, Amp]" by (simp add: redirections_def)
  have h: "?ts = ?ts" "length ?ts \<le> 32" "length (replicate 6 [SH_BLANK]) = length ?ts"
    "\<forall>b \<in> set (replicate 6 [SH_BLANK]). blanks b" "\<forall>t \<in> set ?ts. token_ok t" "\<forall>t \<in> set [?w]. arg t"
    "pred_option arg (Some ?f)" "pred_option arg (Some ?g)" "NULLCH \<notin> set (token_text ?w)"
    unfolding ts by (simp_all add: blanks_def arg_def special_def sh_chars)
  have l: "line_of (zip (replicate 6 [SH_BLANK]) ?ts) =
      map of_char '' cat'' @ map of_char '' <'' @ map of_char '' in'' @ map of_char '' >'' @ map of_char '' out'' @ map of_char '' &'' @ [10]"
    unfolding ts by (simp add: eval_nat_numeral sh_chars)
  have j: "first_name (token_text ?w) (map fst cmdtab) = 1" "ncmd = 24" "snd (cmdtab ! 1) = False"
    by (simp_all add: cmdtab_def ncmd_def)
  have n: "name_at ([?w] @ [Less]) (Some ?f) = Some 6" "name_at (redirections [?w] (Some ?f) None @ [Greater]) (Some ?g) = Some 11"
    "int (length (buf_of [?w])) = 4"
    by (simp_all add: name_at_def redirections_def)
  show ?thesis using shell_understands[OF h] unfolding l Let_def j n by auto
qed

end
