(* ===== verification/C_Numbers.thy ===== *)
theory C_Numbers
  imports C_Strings
begin

text \<open>
  Character classes (include/ctype.h, lib/ctype_.c) and the conversions strtol and strtoul of
  lib/strtol.c, which also return the end pointer they store. A character outside the table is a
  fault.
\<close>

section \<open>Character classes\<close>

definition CT_U :: int where "CT_U = 1"
definition CT_L :: int where "CT_L = 2"
definition CT_N :: int where "CT_N = 4"
definition CT_S :: int where "CT_S = 8"
definition CT_P :: int where "CT_P = 16"
definition CT_C :: int where "CT_C = 32"
definition CT_X :: int where "CT_X = 64"

definition ctype_table :: "int list" where
  "ctype_table = [
     0,
     CT_C, CT_C, CT_C, CT_C, CT_C, CT_C, CT_C, CT_C,
     CT_C, CT_S, CT_S, CT_S, CT_S, CT_S, CT_C, CT_C,
     CT_C, CT_C, CT_C, CT_C, CT_C, CT_C, CT_C, CT_C,
     CT_C, CT_C, CT_C, CT_C, CT_C, CT_C, CT_C, CT_C,
     CT_S, CT_P, CT_P, CT_P, CT_P, CT_P, CT_P, CT_P,
     CT_P, CT_P, CT_P, CT_P, CT_P, CT_P, CT_P, CT_P,
     CT_N, CT_N, CT_N, CT_N, CT_N, CT_N, CT_N, CT_N,
     CT_N, CT_N, CT_P, CT_P, CT_P, CT_P, CT_P, CT_P,
     CT_P, CT_U + CT_X, CT_U + CT_X, CT_U + CT_X, CT_U + CT_X, CT_U + CT_X, CT_U + CT_X, CT_U,
     CT_U, CT_U, CT_U, CT_U, CT_U, CT_U, CT_U, CT_U,
     CT_U, CT_U, CT_U, CT_U, CT_U, CT_U, CT_U, CT_U,
     CT_U, CT_U, CT_U, CT_P, CT_P, CT_P, CT_P, CT_P,
     CT_P, CT_L + CT_X, CT_L + CT_X, CT_L + CT_X, CT_L + CT_X, CT_L + CT_X, CT_L + CT_X, CT_L,
     CT_L, CT_L, CT_L, CT_L, CT_L, CT_L, CT_L, CT_L,
     CT_L, CT_L, CT_L, CT_L, CT_L, CT_L, CT_L, CT_L,
     CT_L, CT_L, CT_L, CT_P, CT_P, CT_P, CT_P, CT_C]"

text \<open>The flag is one of the powers of two above.\<close>

definition ctype_flag :: "int \<Rightarrow> int \<Rightarrow> bool option" where
  "ctype_flag flag c =
     (if -1 \<le> c \<and> c \<le> 127 then Some (ctype_table ! nat (c + 1) div flag mod 2 = 1) else None)"

definition isupper :: "int \<Rightarrow> bool option" where "isupper c = ctype_flag CT_U c"
definition islower :: "int \<Rightarrow> bool option" where "islower c = ctype_flag CT_L c"
definition isdigit :: "int \<Rightarrow> bool option" where "isdigit c = ctype_flag CT_N c"
definition isspace :: "int \<Rightarrow> bool option" where "isspace c = ctype_flag CT_S c"

definition isalpha :: "int \<Rightarrow> bool option" where
  "isalpha c = do { u \<leftarrow> isupper c; l \<leftarrow> islower c; Some (u \<or> l) }"

section \<open>Conversion\<close>

definition strto_skip :: "bmem \<Rightarrow> int \<Rightarrow> (int + int \<times> int) option" where
  "strto_skip m s = do {
     let c = m s;
     b \<leftarrow> isspace c;
     Some (if b then Inl (s + 1) else Inr (c, s + 1)) }"

definition strto_sign :: "bmem \<Rightarrow> int \<times> int \<Rightarrow> bool \<times> int \<times> int" where
  "strto_sign m = (\<lambda>(c, s).
     if c = 45 then (True, m s, s + 1) else if c = 43 then (False, m s, s + 1) else (False, c, s))"

definition strto_base :: "bmem \<Rightarrow> int \<Rightarrow> int \<times> int \<Rightarrow> int \<times> int \<times> int" where
  "strto_base m base = (\<lambda>(c, s).
     let (base, c, s) =
       (if (base = 0 \<or> base = 16) \<and> c = 48 \<and> (m s = 120 \<or> m s = 88) then (16, m (s + 1), s + 2)
        else if (base = 0 \<or> base = 2) \<and> c = 48 \<and> (m s = 98 \<or> m s = 66) then (2, m (s + 1), s + 2)
        else (base, c, s));
       base = (if base = 0 then (if c = 48 then 8 else 10) else base)
     in (base, c, s))"

definition strto_digit :: "int \<Rightarrow> int option option" where
  "strto_digit c = do {
     d \<leftarrow> isdigit c;
     if d then Some (Some (c - 48))
     else do {
       a \<leftarrow> isalpha c;
       if a then do { u \<leftarrow> isupper c; Some (Some (c - (if u then 55 else 87))) }
       else Some None } }"

definition strto_iter :: "bmem \<Rightarrow> int \<Rightarrow> int \<Rightarrow> int \<Rightarrow> int \<times> int \<times> int \<times> int \<Rightarrow>
    (int \<times> int \<times> int \<times> int + int \<times> int \<times> int) option" where
  "strto_iter m base cutoff cutlim = (\<lambda>(c, s, acc, any). do {
     d \<leftarrow> strto_digit c;
     case d of
       None \<Rightarrow> Some (Inr (s, acc, any))
     | Some c \<Rightarrow>
         if c \<ge> base then Some (Inr (s, acc, any))
         else if any < 0 \<or> acc > cutoff \<or> acc = cutoff \<and> c > cutlim
         then Some (Inl (m s, s + 1, acc, -1))
         else Some (Inl (m s, s + 1, u32 (u32 (acc * base) + c), 1)) })"

definition strtol :: "bmem \<Rightarrow> int \<Rightarrow> int \<Rightarrow> (int \<times> int) option" where
  "strtol m nptr base = do {
     (c, s) \<leftarrow> c_loop (strto_skip m) nptr;
     let (neg, c, s) = strto_sign m (c, s);
     let (base, c, s) = strto_base m base (c, s);
     let cutoff = (if neg then 2147483648 else 2147483647);
     let cutlim = cutoff mod u32 base;
     let cutoff = cutoff div u32 base;
     (s, acc, any) \<leftarrow> c_loop (strto_iter m base cutoff cutlim) (c, s, 0, 0);
     let acc = (if any < 0 then (if neg then INT_MIN else INT_MAX) else if neg then u32 (- acc) else acc);
     Some (i32 acc, if any \<noteq> 0 then s - 1 else nptr) }"

definition strtoul :: "bmem \<Rightarrow> int \<Rightarrow> int \<Rightarrow> (int \<times> int) option" where
  "strtoul m nptr base = do {
     (c, s) \<leftarrow> c_loop (strto_skip m) nptr;
     let (neg, c, s) = strto_sign m (c, s);
     let (base, c, s) = strto_base m base (c, s);
     let cutoff = 4294967295 div u32 base;
     let cutlim = 4294967295 mod u32 base;
     (s, acc, any) \<leftarrow> c_loop (strto_iter m base cutoff cutlim) (c, s, 0, 0);
     let acc = (if any < 0 then 4294967295 else if neg then u32 (- acc) else acc);
     Some (acc, if any \<noteq> 0 then s - 1 else nptr) }"

section \<open>The character table\<close>

definition digit_val :: "int \<Rightarrow> int option" where
  "digit_val c = (if 48 \<le> c \<and> c \<le> 57 then Some (c - 48)
     else if 65 \<le> c \<and> c \<le> 90 then Some (c - 55)
     else if 97 \<le> c \<and> c \<le> 122 then Some (c - 87) else None)"

lemma ctype_scan: "list_all (\<lambda>c. strto_digit c = Some (digit_val c) \<and>
    isspace c = Some (9 \<le> c \<and> c \<le> 13 \<or> c = 32)) [0..127]"
  by code_simp

lemma ctype_ok:
  assumes "0 \<le> c" "c \<le> 127"
  shows "strto_digit c = Some (digit_val c)" "isspace c = Some (9 \<le> c \<and> c \<le> 13 \<or> c = 32)"
  using ctype_scan assms by (simp_all add: list_all_iff)

section \<open>Conversion of a digit string\<close>

definition horner :: "int \<Rightarrow> int \<Rightarrow> int list \<Rightarrow> int" where
  "horner base acc ds = foldl (\<lambda>v d. v * base + d) acc ds"

lemma horner_simps [simp]:
  "horner base acc [] = acc" "horner base acc (d # ds) = horner base (acc * base + d) ds"
  by (simp_all add: horner_def)

lemma horner_ge:
  "0 \<le> acc \<Longrightarrow> 1 \<le> base \<Longrightarrow> \<forall>d\<in>set ds. 0 \<le> d \<Longrightarrow> acc \<le> horner base acc ds"
proof (induction ds arbitrary: acc)
  case (Cons d ds)
  have "acc * 1 \<le> acc * base" using Cons.prems by (intro mult_left_mono) auto
  then show ?case using Cons.IH[of "acc * base + d"] Cons.prems by simp
qed simp

text \<open>What strtol and strtoul compute, digit by digit: the limit is tested without overflow.\<close>

fun convert :: "int \<Rightarrow> int \<Rightarrow> int \<times> int \<Rightarrow> int list \<Rightarrow> int \<times> int" where
  "convert base limit (acc, any) [] = (acc, any)"
| "convert base limit (acc, any) (d # ds) =
     (if any < 0 \<or> acc * base + d > limit then convert base limit (acc, -1) ds
      else convert base limit (acc * base + d, 1) ds)"

lemma convert_stuck: "any < 0 \<Longrightarrow> ds \<noteq> [] \<Longrightarrow> convert base limit (acc, any) ds = (acc, -1)"
proof (induction ds arbitrary: any)
  case (Cons d ds)
  then show ?case by (cases ds) auto
qed simp

lemma convert_horner:
  assumes "0 \<le> acc" "1 \<le> base" "\<forall>d\<in>set ds. 0 \<le> d" "0 \<le> any" "acc \<le> limit"
  shows "if horner base acc ds \<le> limit
    then convert base limit (acc, any) ds = (horner base acc ds, if ds = [] then any else 1)
    else snd (convert base limit (acc, any) ds) = -1"
  using assms
proof (induction ds arbitrary: acc any)
  case (Cons d ds)
  let ?a = "acc * base + d"
  have a: "0 \<le> ?a" using Cons.prems by simp
  show ?case
  proof (cases "?a \<le> limit")
    case True
    then show ?thesis using Cons.IH[of ?a 1] Cons.prems a by (auto split: if_splits)
  next
    case False
    have "?a \<le> horner base ?a ds" using horner_ge[OF a Cons.prems(2)] Cons.prems(3) by simp
    moreover have "convert base limit (acc, -1) ds = (acc, -1)" using convert_stuck[of "-1" ds] by (cases ds) auto
    ultimately show ?thesis using False by simp
  qed
qed simp

lemma cutoff_test:
  fixes base acc d limit :: int
  assumes "0 < base" "0 \<le> acc" "0 \<le> d" "d < base" "0 \<le> limit"
  shows "acc > limit div base \<or> acc = limit div base \<and> d > limit mod base \<longleftrightarrow> acc * base + d > limit"
proof -
  define q where "q = limit div base"
  define r where "r = limit mod base"
  have l: "limit = q * base + r" unfolding q_def r_def by (simp only: div_mult_mod_eq)
  have r: "0 \<le> r" "r < base" unfolding r_def using assms(1) by simp_all
  have "acc > q \<or> acc = q \<and> d > r \<longleftrightarrow> acc * base + d > q * base + r"
  proof -
    consider "acc < q" | "acc = q" | "acc > q" by linarith
    then show ?thesis
    proof cases
      case 1
      then have "(acc + 1) * base \<le> q * base" using assms(1) by (intro mult_right_mono) auto
      then show ?thesis using 1 r assms(4) by (simp add: algebra_simps)
    next
      case 3
      then have "(q + 1) * base \<le> acc * base" using assms(1) by (intro mult_right_mono) auto
      then show ?thesis using 3 r assms(3) by (simp add: algebra_simps)
    qed simp
  qed
  then show ?thesis unfolding q_def[symmetric] r_def[symmetric] using l by simp
qed

lemma strto_step:
  assumes c: "0 \<le> c" "c \<le> 127" "digit_val c = Some d" "d < base"
    and b: "2 \<le> base" "0 \<le> acc" "acc \<le> limit" "limit < 4294967296"
  shows "strto_iter m base (limit div base) (limit mod base) (c, s, acc, any) =
    Some (Inl (m s, s + 1, if any < 0 \<or> acc * base + d > limit then (acc, -1) else (acc * base + d, 1)))"
proof -
  have d: "0 \<le> d" using c(3) by (auto simp: digit_val_def split: if_splits)
  have t: "(any < 0 \<or> acc > limit div base \<or> acc = limit div base \<and> d > limit mod base) \<longleftrightarrow>
      (any < 0 \<or> acc * base + d > limit)"
    using cutoff_test[of base acc d limit] b d c(4) by auto
  have m: "0 \<le> acc * base" using b by simp
  have u: "u32 (u32 (acc * base) + d) = acc * base + d" if "\<not> acc * base + d > limit"
    using that b d m by (simp add: u32_id)
  show ?thesis
    using c ctype_ok(1)[OF c(1,2)] t u by (auto simp: strto_iter_def)
qed

lemma strto_loop:
  assumes "\<forall>i < length cs. m (p + int i) = cs ! i" "\<forall>c \<in> set cs. 0 \<le> c \<and> c \<le> 127"
    and "map digit_val cs = map Some ds" "\<forall>d \<in> set ds. d < base"
    and "m (p + int (length cs)) = e" "0 \<le> e" "e \<le> 127" "case digit_val e of None \<Rightarrow> True | Some d \<Rightarrow> base \<le> d"
    and b: "2 \<le> base" "0 \<le> acc" "acc \<le> limit" "limit < 4294967296"
  shows "c_loop (strto_iter m base (limit div base) (limit mod base)) (m p, p + 1, acc, any) =
    Some (p + 1 + int (length cs), convert base limit (acc, any) ds)"
  using assms
proof (induction cs arbitrary: p ds acc any)
  case Nil
  then have "strto_iter m base (limit div base) (limit mod base) (m p, p + 1, acc, any) = Some (Inr (p + 1, acc, any))"
    using ctype_ok(1)[of e] by (auto simp: strto_iter_def split: option.splits)
  then show ?case using Nil by (simp add: c_loop_Inr)
next
  case (Cons c cs)
  obtain d ds' where ds: "ds = d # ds'" "digit_val c = Some d" "map digit_val cs = map Some ds'"
    using Cons.prems(3) by (cases ds) auto
  have mp: "m p = c" using Cons.prems(1) by force
  let ?n = "if any < 0 \<or> acc * base + d > limit then (acc, -1) else (acc * base + d, 1)"
  have d0: "0 \<le> d" using ds(2) by (auto simp: digit_val_def split: if_splits)
  have st: "strto_iter m base (limit div base) (limit mod base) (m p, p + 1, acc, any) =
      Some (Inl (m (p + 1), p + 1 + 1, ?n))"
    using strto_step[of c d base acc limit m "p + 1" any] Cons.prems ds mp by auto
  have m': "\<forall>i < length cs. m (p + 1 + int i) = cs ! i"
  proof (intro allI impI)
    fix i assume "i < length cs"
    then have "m (p + int (Suc i)) = (c # cs) ! Suc i" using Cons.prems(1) by (metis length_Cons not_less_eq)
    then show "m (p + 1 + int i) = cs ! i" by (simp add: algebra_simps)
  qed
  have "0 \<le> fst ?n" "fst ?n \<le> limit" using b Cons.prems d0 by auto
  then have "c_loop (strto_iter m base (limit div base) (limit mod base)) (m (p + 1), p + 1 + 1, fst ?n, snd ?n) =
      Some (p + 1 + 1 + int (length cs), convert base limit (fst ?n, snd ?n) ds')"
    using Cons.IH[OF m' _ ds(3), of "fst ?n" "snd ?n"] Cons.prems ds by (auto simp: algebra_simps)
  then have "c_loop (strto_iter m base (limit div base) (limit mod base)) (m (p + 1), p + 1 + 1, ?n) =
      Some (p + 1 + 1 + int (length cs), convert base limit ?n ds')"
    by (metis prod.collapse)
  moreover have "convert base limit (acc, any) ds = convert base limit ?n ds'" using ds(1) by auto
  ultimately show ?case unfolding c_loop_Inl[of "strto_iter m base (limit div base) (limit mod base)", OF st]
    by (simp add: algebra_simps)
qed

lemma skip_loop:
  assumes "\<forall>i < length ws. m (p + int i) = ws ! i" "\<forall>c \<in> set ws. 9 \<le> c \<and> c \<le> 13 \<or> c = 32"
    and "m (p + int (length ws)) = e" "0 \<le> e" "e \<le> 127" "\<not> (9 \<le> e \<and> e \<le> 13 \<or> e = 32)"
  shows "c_loop (strto_skip m) p = Some (e, p + int (length ws) + 1)"
  using assms
proof (induction ws arbitrary: p)
  case Nil
  then have "strto_skip m p = Some (Inr (e, p + 1))" using ctype_ok(2)[of e] by (simp add: strto_skip_def)
  then show ?case by (simp add: c_loop_Inr)
next
  case (Cons c ws)
  have mp: "m p = c" using Cons.prems(1) by force
  have m': "\<forall>i < length ws. m (p + 1 + int i) = ws ! i"
  proof (intro allI impI)
    fix i assume "i < length ws"
    then have "m (p + int (Suc i)) = (c # ws) ! Suc i" using Cons.prems(1) by (metis length_Cons not_less_eq)
    then show "m (p + 1 + int i) = ws ! i" by (simp add: algebra_simps)
  qed
  have "0 \<le> c" "c \<le> 127" "9 \<le> c \<and> c \<le> 13 \<or> c = 32" using Cons.prems(2) by auto
  then have "strto_skip m p = Some (Inl (p + 1))" using ctype_ok(2)[of c] mp by (simp add: strto_skip_def)
  then show ?case
    using Cons.IH[OF m'] Cons.prems(2-6) by (simp add: c_loop_Inl algebra_simps)
qed

definition clamp :: "bool \<Rightarrow> int \<Rightarrow> int" where
  "clamp neg v = (if neg then (if v \<le> 2147483648 then - v else INT_MIN)
     else (if v \<le> 2147483647 then v else INT_MAX))"

text \<open>What strtol skips in front of the digits.\<close>

definition blank :: "int \<Rightarrow> bool" where
  "blank c \<longleftrightarrow> 9 \<le> c \<and> c \<le> 13 \<or> c = 32"

lemma strtol_ok:
  assumes str: "cstr m p (ws @ sg @ cs @ rest)" and ch: "\<forall>c \<in> set (ws @ sg @ cs @ rest). 0 \<le> c \<and> c \<le> 127"
    and ws: "\<forall>c \<in> set ws. blank c" and sg: "sg \<in> {[], [45], [43]}"
    and cs: "cs \<noteq> []" "map digit_val cs = map Some ds" "\<forall>d \<in> set ds. d < base"
    and rest: "rest \<noteq> [] \<longrightarrow> (case digit_val (hd rest) of None \<Rightarrow> True | Some d \<Rightarrow> base \<le> d)"
    and base: "3 \<le> base" "base \<le> 36" "base \<noteq> 16"
  shows "strtol m p base = Some (clamp (sg = [45]) (horner base 0 ds), p + int (length (ws @ sg @ cs)))"
proof -
  let ?q = "p + int (length ws)"
  let ?r = "?q + int (length sg)"
  let ?e = "?r + int (length cs)"
  have w: "\<forall>i < length ws. m (p + int i) = ws ! i" "cstr m ?q (sg @ cs @ rest)"
    using str by (simp_all add: cstr_append)
  have r: "cstr m ?r (cs @ rest)" using w(2) by (simp add: cstr_append)
  have c: "\<forall>i < length cs. m (?r + int i) = cs ! i" "cstr m ?e rest" using r by (simp_all add: cstr_append)
  have me: "m ?e = (case rest of [] \<Rightarrow> 0 | d # _ \<Rightarrow> d)" using c(2) by (cases rest) auto
  have e: "0 \<le> m ?e" "m ?e \<le> 127" "case digit_val (m ?e) of None \<Rightarrow> True | Some d \<Rightarrow> base \<le> d"
    using me ch rest by (auto simp: digit_val_def split: list.splits)
  obtain x xs where cx: "cs = x # xs" using cs(1) by (cases cs) auto
  have mr: "m ?r = x" using c(1) cx by force
  have x: "0 \<le> x" "x \<le> 127" "\<not> blank x" "x \<noteq> 45" "x \<noteq> 43"
    using cs(2) cx ch by (auto simp: digit_val_def blank_def split: if_splits)
  have hq: "m ?q = (case sg of [] \<Rightarrow> x | s # _ \<Rightarrow> s)" using w(2) cx sg by auto
  have sk: "c_loop (strto_skip m) p = Some (m ?q, ?q + 1)"
    by (rule skip_loop[OF w(1)]) (use ws sg hq x in \<open>auto simp: blank_def\<close>)
  have sn: "strto_sign m (m ?q, ?q + 1) = (sg = [45], x, ?r + 1)"
    using sg hq mr x by (auto simp: strto_sign_def algebra_simps)
  have bs: "strto_base m base (x, ?r + 1) = (base, x, ?r + 1)" using base by (simp add: strto_base_def)
  let ?lim = "if sg = [45] then 2147483648 else 2147483647 :: int"
  have ub: "u32 base = base" using base by (simp add: u32_id)
  have lp: "c_loop (strto_iter m base (?lim div base) (?lim mod base)) (x, ?r + 1, 0, 0) =
      Some (?e + 1, convert base ?lim (0, 0) ds)"
    using strto_loop[OF c(1) _ cs(2,3) refl e, of 0 ?lim 0] ch base mr by (auto simp: algebra_simps)
  have dn: "\<forall>d\<in>set ds. 0 \<le> d" "ds \<noteq> []"
  proof -
    have "\<forall>d \<in> set (map Some ds). d = None \<or> 0 \<le> the d"
      unfolding cs(2)[symmetric] by (auto simp: digit_val_def)
    then show "\<forall>d\<in>set ds. 0 \<le> d" by auto
    show "ds \<noteq> []" using cs(1,2) by auto
  qed
  let ?v = "horner base 0 ds" and ?cv = "convert base ?lim (0, 0) ds"
  have v: "0 \<le> ?v" using horner_ge[of 0 base ds] dn base by simp
  have cv: "if ?v \<le> ?lim then ?cv = (?v, 1) else snd ?cv = -1"
    using convert_horner[of 0 base ds 0 ?lim] dn base by simp
  have neg: "i32 (u32 (- n)) = - n" if "0 \<le> n" "n \<le> 2147483648" for n
  proof -
    have "(u32 (- n) + 2147483648) mod 4294967296 = (- n + 2147483648) mod 4294967296"
      unfolding u32_def by (simp add: mod_simps)
    also have "\<dots> = - n + 2147483648" using that by simp
    finally show ?thesis by (simp add: i32_def)
  qed
  obtain acc any where ca: "?cv = (acc, any)" by (cases ?cv)
  have "strtol m p base = Some (i32 (if any < 0 then (if sg = [45] then INT_MIN else INT_MAX)
      else if sg = [45] then u32 (- acc) else acc), if any \<noteq> 0 then ?e + 1 - 1 else p)"
    using sk sn bs lp ca ub by (simp add: strtol_def Let_def)
  moreover have "i32 (if any < 0 then (if sg = [45] then INT_MIN else INT_MAX)
      else if sg = [45] then u32 (- acc) else acc) = clamp (sg = [45]) ?v" "any \<noteq> 0"
    using cv ca v neg[of ?v] by (auto simp: clamp_def i32_id split: if_splits)
  ultimately show ?thesis by simp
qed

section \<open>Properties\<close>



end
