(* ===== verification/C_Sort.thy ===== *)
theory C_Sort
  imports Xinu_Prelude "HOL-Library.Multiset"
begin

text \<open>
  lib/qsort.c: a quicksort that keeps the elements equal to the pivot in a block in the middle. The
  array is the list of its elements, a pointer into it an element index; the byte loops of qsexc
  and qstexc exchange whole elements. An access outside the array is a fault.
\<close>

section \<open>The sort\<close>

definition at :: "'a list \<Rightarrow> nat \<Rightarrow> 'a option" where
  "at xs i = (if i < length xs then Some (xs ! i) else None)"

definition qsexc :: "nat \<Rightarrow> nat \<Rightarrow> 'a list \<Rightarrow> 'a list option" where
  "qsexc i j xs = do {
     c \<leftarrow> at xs i;
     d \<leftarrow> at xs j;
     Some (xs[i := d, j := c]) }"

definition qstexc :: "nat \<Rightarrow> nat \<Rightarrow> nat \<Rightarrow> 'a list \<Rightarrow> 'a list option" where
  "qstexc i j k xs = do {
     c \<leftarrow> at xs i;
     d \<leftarrow> at xs k;
     let xs = xs[i := d];
     e \<leftarrow> at xs j;
     let xs = xs[k := e];
     Some (xs[j := c]) }"

text \<open>The state of the partition loop; at_loop says that control is at the label loop.\<close>

type_synonym 'a part = "bool \<times> 'a list \<times> nat \<times> nat \<times> nat \<times> nat"

definition qs_iter :: "('a \<Rightarrow> 'a \<Rightarrow> int) \<Rightarrow> 'a part \<Rightarrow> ('a part + 'a list \<times> nat \<times> nat) option" where
  "qs_iter qscmp = (\<lambda>(at_loop, xs, i, j, lp, hp).
     if \<not> at_loop then
       if i < lp then do {
         x \<leftarrow> at xs i;
         y \<leftarrow> at xs lp;
         let c = qscmp x y;
         if c = 0 then do { xs \<leftarrow> qsexc i (lp - 1) xs; Some (Inl (False, xs, i, j, lp - 1, hp)) }
         else if c < 0 then Some (Inl (False, xs, i + 1, j, lp, hp))
         else Some (Inl (True, xs, i, j, lp, hp)) }
       else Some (Inl (True, xs, i, j, lp, hp))
     else if j > hp then do {
       x \<leftarrow> at xs hp;
       y \<leftarrow> at xs j;
       let c = qscmp x y;
       if c = 0 then do { xs \<leftarrow> qsexc (hp + 1) j xs; Some (Inl (True, xs, i, j, lp, hp + 1)) }
       else if c > 0 then
         if i = lp then do {
           xs \<leftarrow> qstexc i (hp + 1) j xs;
           Some (Inl (True, xs, lp + 1, j, lp + 1, hp + 1)) }
         else do { xs \<leftarrow> qsexc i j xs; Some (Inl (False, xs, i + 1, j - 1, lp, hp)) }
       else Some (Inl (True, xs, i, j - 1, lp, hp)) }
     else if i = lp then Some (Inr (xs, lp, hp))
     else do {
       xs \<leftarrow> qstexc j (lp - 1) i xs;
       Some (Inl (False, xs, i, hp - 1, lp - 1, hp - 1)) })"

text \<open>One part is sorted by a recursive call, the other by going back to start.\<close>

partial_function (option) qs1 :: "('a \<Rightarrow> 'a \<Rightarrow> int) \<Rightarrow> 'a list \<Rightarrow> nat \<Rightarrow> nat \<Rightarrow> 'a list option" where
  "qs1 qscmp xs a l =
     (if l - a \<le> 1 then Some xs
      else Option.bind (c_loop (qs_iter qscmp) (False, xs, a, l - 1, a + (l - a) div 2, a + (l - a) div 2))
        (\<lambda>(xs, lp, hp).
          if lp - a \<ge> l - hp then Option.bind (qs1 qscmp xs (hp + 1) l) (\<lambda>xs. qs1 qscmp xs a lp)
          else Option.bind (qs1 qscmp xs a lp) (\<lambda>xs. qs1 qscmp xs (hp + 1) l)))"

definition qsort :: "('a \<Rightarrow> 'a \<Rightarrow> int) \<Rightarrow> 'a list \<Rightarrow> 'a list option" where
  "qsort fc xs = qs1 fc xs 0 (length xs)"

section \<open>Rearrangements of a part of the array\<close>

definition rearranged :: "nat \<Rightarrow> nat \<Rightarrow> 'a list \<Rightarrow> 'a list \<Rightarrow> bool" where
  "rearranged a l xs ys \<longleftrightarrow> length ys = length xs \<and> mset ys = mset xs \<and>
     (\<forall>k. k < a \<or> l \<le> k \<longrightarrow> k < length xs \<longrightarrow> ys ! k = xs ! k) \<and>
     (\<forall>k. a \<le> k \<and> k < l \<longrightarrow> (\<exists>k'. a \<le> k' \<and> k' < l \<and> ys ! k = xs ! k'))"

lemma rearranged_refl [simp]: "rearranged a l xs xs"
  by (auto simp: rearranged_def)

lemma rearranged_trans: "rearranged a l xs ys \<Longrightarrow> rearranged a l ys zs \<Longrightarrow> rearranged a l xs zs"
proof -
  assume h: "rearranged a l xs ys" "rearranged a l ys zs"
  have "\<exists>k'. a \<le> k' \<and> k' < l \<and> zs ! k = xs ! k'" if k: "a \<le> k" "k < l" for k
  proof -
    obtain m where m: "a \<le> m" "m < l" "zs ! k = ys ! m" using h(2) k unfolding rearranged_def by blast
    obtain n where "a \<le> n" "n < l" "ys ! m = xs ! n" using h(1) m(1,2) unfolding rearranged_def by blast
    then show ?thesis using m(3) by auto
  qed
  then show ?thesis using h by (auto simp: rearranged_def)
qed

lemma rearranged_mono:
  assumes "rearranged b m xs ys" "a \<le> b" "m \<le> l" "l \<le> length xs"
  shows "rearranged a l xs ys"
proof -
  have "\<exists>k'. a \<le> k' \<and> k' < l \<and> ys ! k = xs ! k'" if "a \<le> k" "k < l" for k
  proof (cases "b \<le> k \<and> k < m")
    case True
    then obtain k' where "b \<le> k'" "k' < m" "ys ! k = xs ! k'" using assms(1) unfolding rearranged_def by blast
    then show ?thesis using assms by (intro exI[of _ k']) simp
  next
    case False
    then have "ys ! k = xs ! k" using assms that by (auto simp: rearranged_def not_le not_less)
    then show ?thesis using that by blast
  qed
  then show ?thesis using assms by (auto simp: rearranged_def)
qed

lemma rearranged_keeps:
  assumes "rearranged a l xs ys" "l \<le> length xs" "\<And>k. b \<le> k \<Longrightarrow> k < m \<Longrightarrow> P (xs ! k)" "b \<le> a" "l \<le> m" "m \<le> length xs"
    "b \<le> k" "k < m"
  shows "P (ys ! k)"
proof (cases "a \<le> k \<and> k < l")
  case True
  then obtain k' where "a \<le> k'" "k' < l" "ys ! k = xs ! k'" using assms(1) unfolding rearranged_def by blast
  then show ?thesis using assms by simp
next
  case False
  then have "ys ! k = xs ! k" using assms(1,6,8) by (auto simp: rearranged_def not_le not_less)
  then show ?thesis using assms(3,7,8) by simp
qed

lemma qsexc_ok:
  assumes "i < length xs" "j < length xs"
  shows "qsexc i j xs = Some (xs[i := xs ! j, j := xs ! i])" "mset (xs[i := xs ! j, j := xs ! i]) = mset xs"
  using assms mset_swap[of j xs i] by (simp_all add: qsexc_def at_def)

lemma exchange_rearranged:
  assumes "a \<le> i" "i < l" "a \<le> j" "j < l" "l \<le> length xs"
  shows "rearranged a l xs (xs[i := xs ! j, j := xs ! i])"
proof -
  have "\<exists>k'. a \<le> k' \<and> k' < l \<and> xs[i := xs ! j, j := xs ! i] ! k = xs ! k'" if "a \<le> k" "k < l" for k
    using assms that by (cases "k = j"; cases "k = i") (auto simp: nth_list_update)
  then show ?thesis using assms qsexc_ok(2)[of i xs j] by (auto simp: rearranged_def nth_list_update)
qed

text \<open>The three-way exchange.\<close>

lemma qstexc_ok:
  assumes "i < length xs" "j < length xs" "k < length xs" "i \<noteq> j" "i \<noteq> k"
  shows "qstexc i j k xs = Some (xs[i := xs ! k, k := xs ! j, j := xs ! i])"
  using assms by (simp add: qstexc_def at_def Let_def nth_list_update)

lemma rotation_rearranged:
  assumes "a \<le> i" "i < l" "a \<le> j" "j < l" "a \<le> k" "k < l" "l \<le> length xs" "i \<noteq> j" "i \<noteq> k"
  shows "rearranged a l xs (xs[i := xs ! k, k := xs ! j, j := xs ! i])"
proof -
  let ?y = "xs[i := xs ! k, k := xs ! i]"
  have "xs[i := xs ! k, k := xs ! j, j := xs ! i] = ?y[k := ?y ! j, j := ?y ! k]"
    using assms by (intro nth_equalityI) (auto simp: nth_list_update)
  moreover have "rearranged a l xs ?y" using assms by (intro exchange_rearranged)
  moreover have "rearranged a l ?y (?y[k := ?y ! j, j := ?y ! k])" using assms by (intro exchange_rearranged) simp_all
  ultimately show ?thesis using rearranged_trans by metis
qed

section \<open>The partition\<close>

definition compares :: "('a \<Rightarrow> 'a \<Rightarrow> int) \<Rightarrow> ('a \<Rightarrow> 'b :: linorder) \<Rightarrow> bool" where
  "compares fc f \<longleftrightarrow> (\<forall>x y. (fc x y = 0 \<longleftrightarrow> f x = f y) \<and> (fc x y < 0 \<longleftrightarrow> f x < f y))"

lemma comparesD:
  assumes "compares fc f"
  shows "fc x y = 0 \<longleftrightarrow> f x = f y" "fc x y < 0 \<longleftrightarrow> f x < f y" "fc x y > 0 \<longleftrightarrow> f y < f x"
proof -
  show e: "fc x y = 0 \<longleftrightarrow> f x = f y" and s: "fc x y < 0 \<longleftrightarrow> f x < f y" using assms by (simp_all add: compares_def)
  have "fc x y > 0 \<longleftrightarrow> \<not> (fc x y < 0 \<or> fc x y = 0)" by auto
  also have "\<dots> \<longleftrightarrow> \<not> (f x < f y \<or> f x = f y)" by (simp only: e s)
  also have "\<dots> \<longleftrightarrow> f y < f x" by auto
  finally show "fc x y > 0 \<longleftrightarrow> f y < f x" .
qed

definition part_inv :: "('a \<Rightarrow> 'b :: linorder) \<Rightarrow> 'a list \<Rightarrow> nat \<Rightarrow> nat \<Rightarrow> 'b \<Rightarrow> 'a part \<Rightarrow> bool" where
  "part_inv f xs0 a l v = (\<lambda>(at_loop, xs, i, j, lp, hp).
     rearranged a l xs0 xs \<and> a \<le> i \<and> i \<le> lp \<and> lp \<le> hp \<and> hp \<le> j \<and> j < l \<and> l \<le> length xs0 \<and>
     (\<forall>k. a \<le> k \<and> k < i \<longrightarrow> f (xs ! k) < v) \<and> (\<forall>k. lp \<le> k \<and> k \<le> hp \<longrightarrow> f (xs ! k) = v) \<and>
     (\<forall>k. j < k \<and> k < l \<longrightarrow> v < f (xs ! k)) \<and> (at_loop \<and> i < lp \<longrightarrow> v < f (xs ! i)))"

fun part_measure :: "'a part \<Rightarrow> nat" where
  "part_measure (at_loop, xs, i, j, lp, hp) = 2 * ((lp - i) + (j - hp)) + (if at_loop then 0 else 1)"

definition parted :: "('a \<Rightarrow> 'b :: linorder) \<Rightarrow> 'a list \<Rightarrow> nat \<Rightarrow> nat \<Rightarrow> 'b \<Rightarrow> 'a list \<times> nat \<times> nat \<Rightarrow> bool" where
  "parted f xs0 a l v = (\<lambda>(xs, lp, hp). rearranged a l xs0 xs \<and> a \<le> lp \<and> lp \<le> hp \<and> hp < l \<and>
     (\<forall>k. a \<le> k \<and> k < lp \<longrightarrow> f (xs ! k) < v) \<and> (\<forall>k. lp \<le> k \<and> k \<le> hp \<longrightarrow> f (xs ! k) = v) \<and>
     (\<forall>k. hp < k \<and> k < l \<longrightarrow> v < f (xs ! k)))"

lemma qs_step:
  assumes c: "compares fc f" and inv: "part_inv f xs0 a l v u"
  shows "(\<exists>t. qs_iter fc u = Some (Inl t) \<and> part_inv f xs0 a l v t \<and> part_measure t < part_measure u) \<or>
    (\<exists>r. qs_iter fc u = Some (Inr r) \<and> parted f xs0 a l v r)"
proof -
  obtain al xs i j lp hp where u: "u = (al, xs, i, j, lp, hp)" by (cases u)
  note I = inv[unfolded part_inv_def u prod.case]
  have r: "rearranged a l xs0 xs" and len: "length xs = length xs0" using I by (auto simp: rearranged_def)
  have b: "a \<le> i" "i \<le> lp" "lp \<le> hp" "hp \<le> j" "j < l" "l \<le> length xs" using I len by auto
  have lt: "f (xs ! k) < v" if "a \<le> k" "k < i" for k using I that by blast
  have eq: "f (xs ! k) = v" if "lp \<le> k" "k \<le> hp" for k using I that by blast
  have gt: "v < f (xs ! k)" if "j < k" "k < l" for k using I that by blast
  have big: "v < f (xs ! i)" if "al" "i < lp" using I that by blast
  have inl: "?thesis" if "qs_iter fc u = Some (Inl t)" "part_inv f xs0 a l v t" "part_measure t < part_measure u" for t
    using that by blast
  have piv: "f (xs ! lp) = v" "f (xs ! hp) = v" using eq b by simp_all
  show ?thesis
  proof (cases al)
    case False
    show ?thesis
    proof (cases "i < lp")
      case left: True
      have at: "at xs i = Some (xs ! i)" "at xs lp = Some (xs ! lp)" using left b by (simp_all add: at_def)
      consider (e) "f (xs ! i) = v" | (s) "f (xs ! i) < v" | (g) "v < f (xs ! i)" by fastforce
      then show ?thesis
      proof cases
        case e
        let ?y = "xs[i := xs ! (lp - 1), lp - 1 := xs ! i]"
        have "qs_iter fc u = Some (Inl (False, ?y, i, j, lp - 1, hp))"
          using False left at e piv comparesD(1)[OF c] qsexc_ok(1)[of i xs "lp - 1"] b by (simp add: qs_iter_def u Let_def)
        moreover have "rearranged a l xs0 ?y"
          using rearranged_trans[OF r exchange_rearranged[of a i l "lp - 1" xs]] left b by simp
        then have "part_inv f xs0 a l v (False, ?y, i, j, lp - 1, hp)"
          using left b lt eq gt e I unfolding part_inv_def by (auto simp: nth_list_update)
        ultimately show ?thesis using left False by (intro inl) (auto simp: u)
      next
        case s
        have "qs_iter fc u = Some (Inl (False, xs, i + 1, j, lp, hp))"
          using False left at s piv comparesD(1,2)[OF c] by (simp add: qs_iter_def u Let_def order_less_imp_not_eq)
        moreover have "part_inv f xs0 a l v (False, xs, i + 1, j, lp, hp)"
          using left b lt eq gt s I r unfolding part_inv_def by (auto simp: less_Suc_eq)
        ultimately show ?thesis using left False by (intro inl) (auto simp: u)
      next
        case g
        then have n: "fc (xs ! i) (xs ! lp) \<noteq> 0" "\<not> fc (xs ! i) (xs ! lp) < 0" using piv comparesD[OF c] by auto
        have "qs_iter fc u = Some (Inl (True, xs, i, j, lp, hp))"
          using False left at n by (simp add: qs_iter_def u Let_def)
        moreover have "part_inv f xs0 a l v (True, xs, i, j, lp, hp)" using I g r unfolding part_inv_def by simp
        ultimately show ?thesis using False by (intro inl) (auto simp: u)
      qed
    next
      case nl: False
      have "qs_iter fc u = Some (Inl (True, xs, i, j, lp, hp))" using False nl by (simp add: qs_iter_def u)
      moreover have "part_inv f xs0 a l v (True, xs, i, j, lp, hp)" using I nl r unfolding part_inv_def by simp
      ultimately show ?thesis using False by (intro inl) (auto simp: u)
    qed
  next
    case al: True
    show ?thesis
    proof (cases "hp < j")
      case right: True
      have at: "at xs hp = Some (xs ! hp)" "at xs j = Some (xs ! j)" using right b by (simp_all add: at_def)
      consider (e) "f (xs ! j) = v" | (s) "f (xs ! j) < v" | (g) "v < f (xs ! j)" by fastforce
      then show ?thesis
      proof cases
        case e
        let ?y = "xs[hp + 1 := xs ! j, j := xs ! (hp + 1)]"
        have "qs_iter fc u = Some (Inl (True, ?y, i, j, lp, hp + 1))"
          using al right at e piv comparesD(1)[OF c] qsexc_ok(1)[of "hp + 1" xs j] b by (simp add: qs_iter_def u Let_def)
        moreover have "rearranged a l xs0 ?y"
          using rearranged_trans[OF r exchange_rearranged[of a "hp + 1" l j xs]] right b by simp
        then have "part_inv f xs0 a l v (True, ?y, i, j, lp, hp + 1)"
          using right b lt eq gt e I big al unfolding part_inv_def by (auto simp: nth_list_update le_Suc_eq)
        ultimately show ?thesis using right al by (intro inl) (auto simp: u)
      next
        case s
        then have n: "fc (xs ! hp) (xs ! j) \<noteq> 0" "fc (xs ! hp) (xs ! j) > 0" using piv comparesD[OF c] by auto
        show ?thesis
        proof (cases "i = lp")
          case eqi: True
          let ?y = "xs[i := xs ! j, j := xs ! (hp + 1), hp + 1 := xs ! i]"
          have q: "qstexc i (hp + 1) j xs = Some ?y" using right b eqi by (intro qstexc_ok) simp_all
          have "qs_iter fc u = Some (Inl (True, ?y, lp + 1, j, lp + 1, hp + 1))"
            using al right at n q eqi by (simp add: qs_iter_def u Let_def)
          moreover have "rearranged a l xs0 ?y"
            using rearranged_trans[OF r rotation_rearranged[of a i l "hp + 1" j xs]] right b eqi by simp
          then have "part_inv f xs0 a l v (True, ?y, lp + 1, j, lp + 1, hp + 1)"
            using right b lt eq gt s I eqi piv unfolding part_inv_def by (auto simp: nth_list_update le_Suc_eq less_Suc_eq)
          ultimately show ?thesis using right al eqi by (intro inl) (auto simp: u)
        next
          case nei: False
          let ?y = "xs[i := xs ! j, j := xs ! i]"
          have "qs_iter fc u = Some (Inl (False, ?y, i + 1, j - 1, lp, hp))"
            using al right at n nei qsexc_ok(1)[of i xs j] b by (simp add: qs_iter_def u Let_def)
          moreover have "rearranged a l xs0 ?y"
            using rearranged_trans[OF r exchange_rearranged[of a i l j xs]] right b nei by simp
          then have "part_inv f xs0 a l v (False, ?y, i + 1, j - 1, lp, hp)"
            using right b lt eq gt s I nei big al unfolding part_inv_def
            by (auto simp: nth_list_update less_Suc_eq)
          ultimately show ?thesis using right al nei b by (intro inl) (auto simp: u)
        qed
      next
        case g
        then have n: "fc (xs ! hp) (xs ! j) \<noteq> 0" "\<not> fc (xs ! hp) (xs ! j) > 0" using piv comparesD[OF c] by auto
        have "qs_iter fc u = Some (Inl (True, xs, i, j - 1, lp, hp))"
          using al right at n by (simp add: qs_iter_def u Let_def)
        moreover have "v < f (xs ! k)" if "j - 1 < k" "k < l" for k
          using that g gt[of k] by (cases "k = j") auto
        moreover have "hp \<le> j - 1" "j - 1 < l" using right b by linarith+
        ultimately have "part_inv f xs0 a l v (True, xs, i, j - 1, lp, hp)"
          using b lt eq r big al len unfolding part_inv_def by simp
        moreover have "qs_iter fc u = Some (Inl (True, xs, i, j - 1, lp, hp))"
          using al right at n by (simp add: qs_iter_def u Let_def)
        ultimately show ?thesis using right al by (intro inl) (auto simp: u)
      qed
    next
      case nr: False
      then have j: "j = hp" using b by simp
      show ?thesis
      proof (cases "i = lp")
        case True
        have "qs_iter fc u = Some (Inr (xs, lp, hp))" using al nr True by (simp add: qs_iter_def u)
        moreover have "parted f xs0 a l v (xs, lp, hp)" using I True j b r unfolding parted_def by auto
        ultimately show ?thesis by blast
      next
        case False
        then have il: "i < lp" using b by simp
        define y where "y = xs[hp := xs ! i, i := xs ! (lp - 1), lp - 1 := xs ! hp]"
        have q: "qstexc j (lp - 1) i xs = Some y" unfolding j y_def using il b by (intro qstexc_ok) simp_all
        have "qs_iter fc u = Some (Inl (False, y, i, hp - 1, lp - 1, hp - 1))"
          using al nr False q by (simp add: qs_iter_def u)
        moreover have "rearranged a l xs0 y"
          using rearranged_trans[OF r rotation_rearranged[of a hp l "lp - 1" i xs]] il b by (simp add: y_def)
        moreover have "f (y ! k) < v" if "a \<le> k" "k < i" for k using that il b lt by (simp add: y_def)
        moreover have "f (y ! k) = v" if "lp - 1 \<le> k" "k \<le> hp - 1" for k
        proof (cases "k = lp - 1")
          case True
          then show ?thesis using il b piv(2) by (simp add: y_def)
        next
          case False
          then have "k \<noteq> i" "k \<noteq> hp" "lp \<le> k" "k \<le> hp" using that il b by auto
          then show ?thesis using False eq by (simp add: y_def)
        qed
        moreover have "v < f (y ! k)" if "hp - 1 < k" "k < l" for k
        proof (cases "k = hp")
          case True
          then show ?thesis using il b big[OF al il] by (simp add: y_def)
        next
          case False
          then have "k \<noteq> i" "k \<noteq> lp - 1" "j < k" using that il b j by auto
          then show ?thesis using False gt that by (simp add: y_def)
        qed
        moreover have "i \<le> lp - 1" "lp - 1 \<le> hp - 1" "hp - 1 < l" using il b by linarith+
        ultimately have "part_inv f xs0 a l v (False, y, i, hp - 1, lp - 1, hp - 1)"
          using b len unfolding part_inv_def by simp
        moreover have "qs_iter fc u = Some (Inl (False, y, i, hp - 1, lp - 1, hp - 1))"
          using al nr False q by (simp add: qs_iter_def u)
        ultimately show ?thesis using il al b j by (intro inl) (auto simp: u)
      qed
    qed
  qed
qed

lemma partition_ok:
  assumes c: "compares fc f" and r: "a + 1 < l" "l \<le> length xs"
  shows "\<exists>ys lp hp. c_loop (qs_iter fc) (False, xs, a, l - 1, a + (l - a) div 2, a + (l - a) div 2) = Some (ys, lp, hp) \<and>
    parted f xs a l (f (xs ! (a + (l - a) div 2))) (ys, lp, hp)"
proof -
  let ?m = "a + (l - a) div 2" and ?v = "f (xs ! (a + (l - a) div 2))"
  have m: "a \<le> ?m" "?m \<le> l - 1" "l - 1 < l" using r by linarith+
  have i0: "part_inv f xs a l ?v (False, xs, a, l - 1, ?m, ?m)" using m r by (auto simp: part_inv_def)
  have "\<exists>r. c_loop (qs_iter fc) (False, xs, a, l - 1, ?m, ?m) = Some r \<and> parted f xs a l ?v r"
    by (rule c_loop_total[where P = "part_inv f xs a l ?v" and m = part_measure, OF i0 qs_step[OF c]])
  then show ?thesis by (auto simp: split_paired_Ex)
qed

section \<open>Correctness\<close>

definition sorted_part :: "('a \<Rightarrow> 'b :: linorder) \<Rightarrow> nat \<Rightarrow> nat \<Rightarrow> 'a list \<Rightarrow> bool" where
  "sorted_part f a l xs \<longleftrightarrow> (\<forall>k k'. a \<le> k \<and> k \<le> k' \<and> k' < l \<longrightarrow> f (xs ! k) \<le> f (xs ! k'))"

lemma sorted_part_same:
  assumes "sorted_part f a l xs" "\<And>k. a \<le> k \<Longrightarrow> k < l \<Longrightarrow> ys ! k = xs ! k"
  shows "sorted_part f a l ys"
  using assms unfolding sorted_part_def by (metis le_less_trans le_trans)

text \<open>Sorting the two outer parts of a partitioned array sorts it.\<close>

lemma sorted_join:
  assumes p: "parted f xs a l v (ys, lp, hp)" "l \<le> length xs"
    and r: "rearranged a lp ys us \<and> rearranged (hp + 1) l us zs \<and> sorted_part f a lp us \<and> sorted_part f (hp + 1) l zs \<or>
      rearranged (hp + 1) l ys us \<and> rearranged a lp us zs \<and> sorted_part f (hp + 1) l us \<and> sorted_part f a lp zs"
  shows "rearranged a l xs zs \<and> sorted_part f a l zs"
proof -
  have b: "a \<le> lp" "lp \<le> hp" "hp < l" and ry: "rearranged a l xs ys" and
    lt: "\<And>k. a \<le> k \<Longrightarrow> k < lp \<Longrightarrow> f (ys ! k) < v" and eq: "\<And>k. lp \<le> k \<Longrightarrow> k \<le> hp \<Longrightarrow> f (ys ! k) = v"
    and gt: "\<And>k. hp + 1 \<le> k \<Longrightarrow> k < l \<Longrightarrow> v < f (ys ! k)"
    using p(1) by (auto simp: parted_def)
  have ly: "length ys = length xs" using ry by (simp add: rearranged_def)
  have lu: "length us = length xs" "length zs = length xs" using r ly by (auto simp: rearranged_def)
  have q: "lp \<le> length ys" "l \<le> length ys" "lp \<le> length us" "l \<le> length us" using b p(2) ly lu by simp_all
  have yz: "rearranged a l ys zs"
  proof -
    have x: "rearranged a l ws ws'" if "rearranged a lp ws ws'" "length ws = length xs" for ws ws'
      by (rule rearranged_mono[OF that(1)]) (use that(2) b p(2) in simp_all)
    have y: "rearranged a l ws ws'" if "rearranged (hp + 1) l ws ws'" "length ws = length xs" for ws ws'
      by (rule rearranged_mono[OF that(1)]) (use that(2) b p(2) in simp_all)
    show ?thesis using r x y rearranged_trans ly lu by blast
  qed
  have mid: "zs ! k = ys ! k" if k: "lp \<le> k" "k \<le> hp" for k
  proof -
    have "k < length xs" "k < length ys" "k < length us" using k b p(2) ly lu by simp_all
    then show ?thesis using r k b unfolding rearranged_def by auto
  qed
  have low: "f (zs ! k) < v" if k: "a \<le> k" "k < lp" for k
    using r
  proof (elim disjE conjE)
    assume h: "rearranged a lp ys us" "rearranged (hp + 1) l us zs"
    have "f (us ! k) < v" by (rule rearranged_keeps[OF h(1) q(1), where b = a and m = lp]) (use lt k q in simp_all)
    moreover have "zs ! k = us ! k" using h(2) k b q by (simp add: rearranged_def)
    ultimately show ?thesis by simp
  next
    assume h: "rearranged (hp + 1) l ys us" "rearranged a lp us zs"
    have "f (us ! k) < v" if "a \<le> k" "k < lp" for k
    proof -
      have "us ! k = ys ! k" using h(1) that b q by (simp add: rearranged_def)
      then show ?thesis using lt that by simp
    qed
    then show ?thesis by (rule rearranged_keeps[OF h(2) q(3), where b = a and m = lp]) (use k q in simp_all)
  qed
  have high: "v < f (zs ! k)" if k: "hp + 1 \<le> k" "k < l" for k
    using r
  proof (elim disjE conjE)
    assume h: "rearranged a lp ys us" "rearranged (hp + 1) l us zs"
    have "v < f (us ! k)" if "hp + 1 \<le> k" "k < l" for k
    proof -
      have "us ! k = ys ! k" using h(1) that b q by (simp add: rearranged_def)
      then show ?thesis using gt that by simp
    qed
    then show ?thesis by (rule rearranged_keeps[OF h(2) q(4), where b = "hp + 1" and m = l]) (use k q in simp_all)
  next
    assume h: "rearranged (hp + 1) l ys us" "rearranged a lp us zs"
    have "v < f (us ! k)" by (rule rearranged_keeps[OF h(1) q(2), where b = "hp + 1" and m = l]) (use gt k q in simp_all)
    moreover have "zs ! k = us ! k" using h(2) k b q by (simp add: rearranged_def)
    ultimately show ?thesis by simp
  qed
  have sl: "sorted_part f a lp zs"
    using r
  proof (elim disjE conjE)
    assume h: "rearranged (hp + 1) l us zs" "sorted_part f a lp us"
    then show ?thesis using b q by (intro sorted_part_same[OF h(2)]) (simp add: rearranged_def)
  qed
  have sr: "sorted_part f (hp + 1) l zs"
    using r
  proof (elim disjE conjE)
    assume h: "rearranged a lp us zs" "sorted_part f (hp + 1) l us"
    then show ?thesis using b q by (intro sorted_part_same[OF h(2)]) (simp add: rearranged_def)
  qed
  have "f (zs ! k) \<le> f (zs ! k')" if k: "a \<le> k" "k \<le> k'" "k' < l" for k k'
  proof -
    consider "k' < lp" | "k < lp" "lp \<le> k'" "k' \<le> hp" | "k < lp" "hp < k'" | "lp \<le> k" "k' \<le> hp"
      | "lp \<le> k" "k \<le> hp" "hp < k'" | "hp < k" using k by linarith
    then show ?thesis
    proof cases
      case 1 then show ?thesis using sl k by (simp add: sorted_part_def)
    next
      case 2 then show ?thesis using low[of k] mid[of k'] eq[of k'] k by (simp add: less_imp_le)
    next
      case 3 then show ?thesis using low[of k] high[of k'] k by (simp add: less_imp_le order.strict_trans)
    next
      case 4 then show ?thesis using mid[of k] mid[of k'] eq[of k] eq[of k'] k by simp
    next
      case 5 then show ?thesis using mid[of k] eq[of k] high[of k'] k by (simp add: less_imp_le)
    next
      case 6 then show ?thesis using sr k by (simp add: sorted_part_def)
    qed
  qed
  then have "sorted_part f a l zs" by (simp add: sorted_part_def)
  then show ?thesis using rearranged_trans[OF ry yz] by blast
qed

lemma qs1_ok:
  assumes "compares fc f" "l \<le> length xs"
  shows "\<exists>ys. qs1 fc xs a l = Some ys \<and> rearranged a l xs ys \<and> sorted_part f a l ys"
  using assms(2)
proof (induction "l - a" arbitrary: xs a l rule: less_induct)
  case less
  show ?case
  proof (cases "l - a \<le> 1")
    case True
    then have "qs1 fc xs a l = Some xs" by (subst qs1.simps) simp
    moreover have "sorted_part f a l xs" unfolding sorted_part_def
    proof (intro allI impI)
      fix k k' assume "a \<le> k \<and> k \<le> k' \<and> k' < l"
      then have "k = k'" using True by linarith
      then show "f (xs ! k) \<le> f (xs ! k')" by simp
    qed
    ultimately show ?thesis by simp
  next
    case False
    then have al: "a + 1 < l" by simp
    let ?m = "a + (l - a) div 2"
    obtain ys lp hp where p: "c_loop (qs_iter fc) (False, xs, a, l - 1, ?m, ?m) = Some (ys, lp, hp)"
      "parted f xs a l (f (xs ! ?m)) (ys, lp, hp)" using partition_ok[OF assms(1) al less.prems] by blast
    have b: "a \<le> lp" "lp \<le> hp" "hp < l" "length ys = length xs" using p(2) by (auto simp: parted_def rearranged_def)
    have sm: "lp - a < l - a" "l - (hp + 1) < l - a" using b by linarith+
    have sort: "\<exists>vs. qs1 fc us a lp = Some vs \<and> rearranged a lp us vs \<and> sorted_part f a lp vs"
      "\<exists>vs. qs1 fc us (hp + 1) l = Some vs \<and> rearranged (hp + 1) l us vs \<and> sorted_part f (hp + 1) l vs"
      if "length us = length xs" for us
      using less.hyps[OF sm(1), of us] less.hyps[OF sm(2), of us] that b less.prems by simp_all
    show ?thesis
    proof (cases "l - hp \<le> lp - a")
      case True
      obtain us where u: "qs1 fc ys (hp + 1) l = Some us" "rearranged (hp + 1) l ys us" "sorted_part f (hp + 1) l us"
        using sort(2)[OF b(4)] by blast
      have lu: "length us = length xs" using u(2) b(4) by (simp add: rearranged_def)
      obtain zs where z: "qs1 fc us a lp = Some zs" "rearranged a lp us zs" "sorted_part f a lp zs" using sort(1)[OF lu] by blast
      have "qs1 fc xs a l = Some zs" using False p(1) True u(1) z(1) by (subst qs1.simps) simp
      then show ?thesis using sorted_join[OF p(2) less.prems] u z by blast
    next
      case False
      obtain us where u: "qs1 fc ys a lp = Some us" "rearranged a lp ys us" "sorted_part f a lp us"
        using sort(1)[OF b(4)] by blast
      have lu: "length us = length xs" using u(2) b(4) by (simp add: rearranged_def)
      obtain zs where z: "qs1 fc us (hp + 1) l = Some zs" "rearranged (hp + 1) l us zs" "sorted_part f (hp + 1) l zs"
        using sort(2)[OF lu] by blast
      have "qs1 fc xs a l = Some zs" using \<open>\<not> l - a \<le> 1\<close> p(1) False u(1) z(1) by (subst qs1.simps) simp
      then show ?thesis using sorted_join[OF p(2) less.prems] u z by blast
    qed
  qed
qed

section \<open>Properties\<close>

text \<open>C18: with a comparison that orders the elements by a key, qsort returns on every array, and the
  result is the same elements in ascending order of the key.\<close>

theorem qsort_sorts:
  assumes "compares fc f"
  shows "\<exists>ys. qsort fc xs = Some ys \<and> mset ys = mset xs \<and> sorted (map f ys)"
proof -
  obtain ys where y: "qsort fc xs = Some ys" "rearranged 0 (length xs) xs ys" "sorted_part f 0 (length xs) ys"
    using qs1_ok[OF assms, of "length xs" xs 0] by (auto simp: qsort_def)
  have "sorted (map f ys)"
    using y(2,3) by (simp add: sorted_iff_nth_mono sorted_part_def rearranged_def)
  then show ?thesis using y(1,2) by (auto simp: rearranged_def)
qed

theorem qsort_sorts_witness:
  "\<exists>ys. qsort (\<lambda>x y. x - y) [5, 3, 9, 3, 1 :: int] = Some ys \<and> mset ys = {#1, 3, 3, 5, 9#} \<and> sorted ys"
proof -
  have "compares (\<lambda>x y. x - y) (\<lambda>x :: int. x)" by (auto simp: compares_def)
  then show ?thesis using qsort_sorts[of "\<lambda>x y. x - y" "\<lambda>x. x" "[5, 3, 9, 3, 1 :: int]"] by (auto simp: add_mset_commute)
qed

end
