(* ===== verification/C_Print.thy ===== *)
theory C_Print
  imports C_Numbers "HOL-Library.Signed_Division"
begin

text \<open>
  Formatted output (lib/doprnt.c, fdoprnt.c, sprintf.c): the format string and the strings it prints
  are bytes in memory, the argument list is a list of words, and each character goes to an output
  function, which may itself write to memory. The local array of 20 characters in which a number is
  converted keeps its contents from one conversion to the next; a store past its end is a fault, and
  so is an argument that is not there.
\<close>

section \<open>Digits\<close>

text \<open>The characters temp[1], temp[2], ... from the least significant digit on.\<close>

primrec digits :: "nat \<Rightarrow> (int \<Rightarrow> int) \<Rightarrow> (int \<Rightarrow> int) \<Rightarrow> int \<Rightarrow> int list" where
  "digits 0 dig nxt num = []"
| "digits (Suc n) dig nxt num = u8 (dig num) # digits n dig nxt (nxt num)"

text \<open>The end of each of the routines: leading zeros are dropped, but for one, and the array is
  copied backwards, with its null byte.\<close>

fun last_digit :: "int list \<Rightarrow> nat \<Rightarrow> nat" where
  "last_digit temp i = (if i = 0 then 0 else if temp ! i = 48 then last_digit temp (i - 1) else i)"

definition prt_copy :: "int list \<Rightarrow> int list" where
  "prt_copy temp =
     (let i = last_digit temp (length temp - 1); i = (if i = 0 then i + 1 else i)
      in rev (take (i + 1) temp))"

definition hex_lower :: "int list" where
  "hex_lower = [48, 49, 50, 51, 52, 53, 54, 55, 56, 57, 97, 98, 99, 100, 101, 102]"

definition hex_upper :: "int list" where
  "hex_upper = [48, 49, 50, 51, 52, 53, 54, 55, 56, 57, 65, 66, 67, 68, 69, 70]"

definition prtl10 :: "int \<Rightarrow> int list" where
  "prtl10 num = prt_copy (0 # digits 10 (\<lambda>num. num smod 10 + 48) (\<lambda>num. num sdiv 10) num)"

definition prtl8 :: "int \<Rightarrow> int list" where
  "prtl8 num =
     (let temp = 0 # digits 11 (\<lambda>num. num mod 8 + 48) (\<lambda>num. num div 8) num;
          temp = temp[11 := and (temp ! 11) 51]
      in prt_copy temp)"

definition prtl16 :: "int \<Rightarrow> int list" where
  "prtl16 num = prt_copy (0 # digits 8 (\<lambda>num. hex_lower ! nat (num mod 16)) (\<lambda>num. num div 16) num)"

definition prtX16 :: "int \<Rightarrow> int list" where
  "prtX16 num = prt_copy (0 # digits 8 (\<lambda>num. hex_upper ! nat (num mod 16)) (\<lambda>num. num div 16) num)"

definition prtl2 :: "int \<Rightarrow> int list" where
  "prtl2 num = prt_copy (0 # digits 32 (\<lambda>num. if num smod 2 = 0 then 48 else 49) (\<lambda>num. num div 2) num)"

section \<open>The parts of a conversion\<close>

definition va_arg :: "int list \<Rightarrow> (int \<times> int list) option" where
  "va_arg ap = (case ap of [] \<Rightarrow> None | a # ap \<Rightarrow> Some (a, ap))"

definition str_put :: "nat \<Rightarrow> int list \<Rightarrow> int list \<Rightarrow> int list option" where
  "str_put off cs str =
     (if off + length cs \<le> length str then Some (take off str @ cs @ drop (off + length cs) str) else None)"

definition fmt_number :: "bmem \<Rightarrow> int \<times> int \<Rightarrow> (int \<times> int) option" where
  "fmt_number m = c_loop (\<lambda>(n, fmt). Some
     (if 48 \<le> m fmt \<and> m fmt \<le> 57 then Inl (i32 (n * 10 + m fmt - 48), fmt + 1) else Inr (n, fmt)))"

definition fmt_width :: "bmem \<Rightarrow> int \<Rightarrow> int list \<Rightarrow> (int \<times> int \<times> int list) option" where
  "fmt_width m fmt ap =
     (if m fmt = 42 then do { (n, ap) \<leftarrow> va_arg ap; Some (i32 n, fmt + 1, ap) }
      else do { (n, fmt) \<leftarrow> fmt_number m (0, fmt); Some (n, fmt, ap) })"

record fspec =
  leftjust :: bool
  fill :: int
  fmin :: int
  fmax :: int
  sign :: int

definition fmt_spec :: "bmem \<Rightarrow> int \<Rightarrow> int list \<Rightarrow> (fspec \<times> int \<times> int list) option" where
  "fmt_spec m fmt ap = do {
     let left = (m fmt = 45);
     let fmt = (if left then fmt + 1 else fmt);
     let (fl, fmt) = (if m fmt = 48 then (48, fmt + 1) else (32, fmt));
     (mn, fmt, ap) \<leftarrow> fmt_width m fmt ap;
     (mx, fmt, ap) \<leftarrow> (if m fmt = 46 then fmt_width m (fmt + 1) ap else Some (0, fmt, ap));
     Some (\<lparr>leftjust = left, fill = fl, fmin = mn, fmax = mx, sign = 0\<rparr>, fmt, ap) }"

text \<open>What str points to after the switch.\<close>

datatype strp = Local | Text int | Null_text

definition null_text :: "int list" where
  "null_text = [40, 110, 117, 108, 108, 41, 0]"

definition str_at :: "bmem \<Rightarrow> int list \<Rightarrow> strp \<Rightarrow> int \<Rightarrow> int option" where
  "str_at m str p i =
     (case p of
        Local \<Rightarrow> if i < int (length str) then Some (str ! nat i) else None
      | Text a \<Rightarrow> Some (m (a + i))
      | Null_text \<Rightarrow> if i < int (length null_text) then Some (null_text ! nat i) else None)"

type_synonym 'o put_fun = "int \<Rightarrow> bmem \<times> 'o \<Rightarrow> (bmem \<times> 'o) option"

definition unsigned_loop :: "int \<Rightarrow> (int \<times> int) option" where
  "unsigned_loop larg = c_while (\<lambda>(larg, digit1). larg < 0)
     (\<lambda>(larg, digit1). Some (i32 (larg - 1000000000), u8 (digit1 + 1))) (larg, 0)"

text \<open>The conversions that _doprnt and _fdoprnt share; the result names the string to print and
  carries the local array, the field specification and the remaining arguments.\<close>

definition fmt_convert ::
  "'o put_fun \<Rightarrow> int \<Rightarrow> fspec \<Rightarrow> int list \<Rightarrow> int list \<Rightarrow> bmem \<times> 'o \<Rightarrow>
     (strp \<times> int list \<times> fspec \<times> int list \<times> bmem \<times> 'o) option" where
  "fmt_convert func f sp str ap u =
     (if f = 99 then do {
        (a, ap) \<leftarrow> va_arg ap;
        str \<leftarrow> str_put 0 [u8 a, 0] str;
        Some (Local, str, sp\<lparr>fmax := 0, fill := 32\<rparr>, ap, u) }
      else if f = 115 then do {
        (a, ap) \<leftarrow> va_arg ap;
        Some (if a = 0 then Null_text else Text a, str, sp\<lparr>fill := 32\<rparr>, ap, u) }
      else if f = 100 then do {
        (a, ap) \<leftarrow> va_arg ap;
        let larg = i32 a;
        let (sg, larg) = (if larg < 0 then (45, i32 (- larg)) else (0, larg));
        str \<leftarrow> str_put 0 (prtl10 larg) str;
        Some (Local, str, sp\<lparr>sign := sg\<rparr>, ap, u) }
      else if f = 117 then do {
        (a, ap) \<leftarrow> va_arg ap;
        (larg, digit1) \<leftarrow> unsigned_loop (i32 a);
        str \<leftarrow> str_put 0 (prtl10 larg) str;
        Some (Local, str[0 := u8 (str ! 0 + digit1)], sp\<lparr>fmax := 0\<rparr>, ap, u) }
      else if f = 111 then do {
        (a, ap) \<leftarrow> va_arg ap;
        str \<leftarrow> str_put 0 (prtl8 (i32 a)) str;
        Some (Local, str, sp\<lparr>fmax := 0\<rparr>, ap, u) }
      else if f = 88 then do {
        (a, ap) \<leftarrow> va_arg ap;
        str \<leftarrow> str_put 0 (prtX16 (i32 a)) str;
        Some (Local, str, sp\<lparr>fmax := 0\<rparr>, ap, u) }
      else if f = 120 then do {
        (a, ap) \<leftarrow> va_arg ap;
        str \<leftarrow> str_put 0 (prtl16 (i32 a)) str;
        Some (Local, str, sp\<lparr>fmax := 0\<rparr>, ap, u) }
      else if f = 98 then do {
        (a, ap) \<leftarrow> va_arg ap;
        str \<leftarrow> str_put 0 (prtl2 (i32 a)) str;
        Some (Local, str, sp\<lparr>fmax := 0\<rparr>, ap, u) }
      else do {
        u \<leftarrow> func f u;
        Some (Local, str, sp, ap, u) })"

text \<open>_doprnt also has H and h, which print two words as one number.\<close>

definition wide_convert ::
  "'o put_fun \<Rightarrow> int \<Rightarrow> fspec \<Rightarrow> int list \<Rightarrow> int list \<Rightarrow> bmem \<times> 'o \<Rightarrow>
     (strp \<times> int list \<times> fspec \<times> int list \<times> bmem \<times> 'o) option" where
  "wide_convert func f sp str ap u =
     (if f = 72 \<or> f = 104 then do {
        let prt = (if f = 72 then prtX16 else prtl16);
        (a, ap) \<leftarrow> va_arg ap;
        str \<leftarrow> str_put 0 (prt (i32 a)) str;
        (a, ap) \<leftarrow> va_arg ap;
        str \<leftarrow> str_put 8 (prt (i32 a)) str;
        Some (Local, str, sp\<lparr>fmax := 0\<rparr>, ap, u) }
      else fmt_convert func f sp str ap u)"

section \<open>Writing a field\<close>

definition str_length :: "bmem \<Rightarrow> int list \<Rightarrow> strp \<Rightarrow> int option" where
  "str_length m str p = c_loop (\<lambda>n. do {
     c \<leftarrow> str_at m str p n;
     Some (if c \<noteq> 0 then Inl (n + 1) else Inr n) }) 0"

primrec put_fill :: "'o put_fun \<Rightarrow> int \<Rightarrow> nat \<Rightarrow> bmem \<times> 'o \<Rightarrow> (bmem \<times> 'o) option" where
  "put_fill func c 0 u = Some u"
| "put_fill func c (Suc n) u = do { u \<leftarrow> func c u; put_fill func c n u }"

primrec put_str :: "'o put_fun \<Rightarrow> int list \<Rightarrow> strp \<Rightarrow> nat \<Rightarrow> int \<Rightarrow> bmem \<times> 'o \<Rightarrow> (bmem \<times> 'o) option" where
  "put_str func str p 0 i u = Some u"
| "put_str func str p (Suc n) i u = do {
     c \<leftarrow> str_at (fst u) str p i;
     u \<leftarrow> func c u;
     put_str func str p n (i + 1) u }"

definition MAXSTR :: int where "MAXSTR = 80"

definition put_field ::
  "'o put_fun \<Rightarrow> fspec \<Rightarrow> int list \<Rightarrow> strp \<Rightarrow> bmem \<times> 'o \<Rightarrow> (bmem \<times> 'o) option" where
  "put_field func sp str p u = do {
     len \<leftarrow> str_length (fst u) str p;
     let mn = (if fmin sp > MAXSTR \<or> fmin sp < 0 then 0 else fmin sp);
     let mx = (if fmax sp > MAXSTR \<or> fmax sp < 0 then 0 else fmax sp);
     let len = (if mx \<noteq> 0 \<and> len > mx then mx else len);
     let leading = (if mx \<noteq> 0 \<or> mn \<noteq> 0
                    then (if mn \<noteq> 0 then mn - len else 0) - (if sign sp = 45 then 1 else 0)
                    else 0);
     u \<leftarrow> (if sign sp = 45 \<and> fill sp = 48 then func (sign sp) u else Some u);
     u \<leftarrow> (if \<not> leftjust sp then put_fill func (fill sp) (nat leading) u else Some u);
     u \<leftarrow> (if sign sp = 45 \<and> fill sp = 32 then func (sign sp) u else Some u);
     u \<leftarrow> put_str func str p (nat len) 0 u;
     (if leftjust sp then put_fill func (fill sp) (nat leading) u else Some u) }"

section \<open>The formatting loop\<close>

text \<open>Copying the format string up to the next percent sign; None is the end of the string.\<close>

definition fmt_echo :: "'o put_fun \<Rightarrow> int \<times> bmem \<times> 'o \<Rightarrow> (int option \<times> bmem \<times> 'o) option" where
  "fmt_echo func = c_loop (\<lambda>(fmt, u).
     let c = fst u fmt in
     if c = 37 then Some (Inr (Some (fmt + 1), u))
     else if c = 0 then Some (Inr (None, u))
     else do { u \<leftarrow> func c u; Some (Inl (fmt + 1, u)) })"

definition doprnt_iter ::
  "('o put_fun \<Rightarrow> int \<Rightarrow> fspec \<Rightarrow> int list \<Rightarrow> int list \<Rightarrow> bmem \<times> 'o \<Rightarrow>
     (strp \<times> int list \<times> fspec \<times> int list \<times> bmem \<times> 'o) option) \<Rightarrow>
   'o put_fun \<Rightarrow> int \<times> int list \<times> int list \<times> bmem \<times> 'o \<Rightarrow>
     (int \<times> int list \<times> int list \<times> bmem \<times> 'o + bmem \<times> 'o) option" where
  "doprnt_iter conv func = (\<lambda>(fmt, ap, str, u). do {
     (q, u) \<leftarrow> fmt_echo func (fmt, u);
     case q of
       None \<Rightarrow> Some (Inr u)
     | Some fmt \<Rightarrow>
         if fst u fmt = 37 then do { u \<leftarrow> func 37 u; Some (Inl (fmt + 1, ap, str, u)) }
         else do {
           (sp, fmt, ap) \<leftarrow> fmt_spec (fst u) fmt ap;
           let f = fst u fmt;
           if f = 0 then do { u \<leftarrow> func 37 u; Some (Inr u) }
           else do {
             (p, str, sp, ap, u) \<leftarrow> conv func f sp str ap u;
             u \<leftarrow> put_field func sp str p u;
             Some (Inl (fmt + 1, ap, str, u)) } } })"

text \<open>The parameter str is what the local array holds on entry.\<close>

definition doprnt :: "'o put_fun \<Rightarrow> int list \<Rightarrow> int \<Rightarrow> int list \<Rightarrow> bmem \<times> 'o \<Rightarrow> (bmem \<times> 'o) option" where
  "doprnt func str fmt ap u = c_loop (doprnt_iter wide_convert func) (fmt, ap, str, u)"

definition fdoprnt :: "'o put_fun \<Rightarrow> int list \<Rightarrow> int \<Rightarrow> int list \<Rightarrow> bmem \<times> 'o \<Rightarrow> (bmem \<times> 'o) option" where
  "fdoprnt func str fmt ap u = c_loop (doprnt_iter fmt_convert func) (fmt, ap, str, u)"

text \<open>sprintf: the pointer s moves through the output string; str here is the output string and
  local the array of _fdoprnt.\<close>

definition sprntf :: "int put_fun" where
  "sprntf ac = (\<lambda>(m, s). Some (m(s := u8 ac), s + 1))"

definition sprintf :: "int list \<Rightarrow> int \<Rightarrow> int \<Rightarrow> int list \<Rightarrow> bmem \<Rightarrow> (int \<times> bmem) option" where
  "sprintf local str fmt ap m = do {
     (m, s) \<leftarrow> fdoprnt sprntf local fmt ap (m, str);
     Some (str, m(s := 0)) }"

section \<open>What the digit routines compute\<close>

function radix :: "int \<Rightarrow> int \<Rightarrow> int list" where
  "radix b n = (if n < b \<or> b < 2 then [n] else radix b (n div b) @ [n mod b])"
  by pat_completeness auto
termination
proof (relation "measure (\<lambda>(b, n). nat n)")
  fix b n :: int
  assume "\<not> (n < b \<or> b < 2)"
  then have "n div b < n" "0 < n" by (auto intro: int_div_less_self)
  then show "((b, n div b), (b, n)) \<in> measure (\<lambda>(b, n). nat n)" by simp
qed simp

declare radix.simps [simp del]

primrec low_digits :: "nat \<Rightarrow> int \<Rightarrow> int \<Rightarrow> int list" where
  "low_digits 0 b n = []"
| "low_digits (Suc k) b n = (n mod b) # low_digits k b (n div b)"

lemma length_low_digits [simp]: "length (low_digits k b n) = k"
  by (induction k arbitrary: n) auto

lemma low_digits_snoc:
  assumes "0 < b"
  shows "low_digits (Suc k) b n = low_digits k b n @ [n div b ^ k mod b]"
proof (induction k arbitrary: n)
  case (Suc k)
  have "n div b div b ^ k = n div b ^ Suc k" using assms by (simp add: zdiv_zmult2_eq)
  then show ?case using Suc[of "n div b"] by simp
qed simp

lemma low_digits_mod:
  assumes "0 < b"
  shows "low_digits k b (n mod b ^ k) = low_digits k b n"
proof (induction k arbitrary: n)
  case (Suc k)
  have a: "n mod b ^ Suc k mod b = n mod b" by (simp add: mod_mod_cancel)
  have "n mod (b * b ^ k) = b * (n div b mod b ^ k) + n mod b"
    using assms by (intro zmod_zmult2_eq) simp
  then have c: "n mod b ^ Suc k div b = n div b mod b ^ k" using assms by simp
  show ?case using Suc[of "n div b"] a c by simp
qed simp

lemma digits_low:
  assumes "\<And>n. P n \<Longrightarrow> u8 (dig n) = ch (n mod b) \<and> nxt n = n div b \<and> P (nxt n)" "P n"
  shows "digits k dig nxt n = map ch (low_digits k b n)"
  using assms(2)
proof (induction k arbitrary: n)
  case (Suc k)
  from assms(1)[OF Suc.prems] have n: "u8 (dig n) = ch (n mod b)" "nxt n = n div b" "P (n div b)" by auto
  show ?case using Suc.IH[OF n(3)] n(1,2) by simp
qed simp

lemma div_lt_bound: "0 < b \<Longrightarrow> n < b * c \<Longrightarrow> n div b < (c :: int)"
proof -
  assume "0 < b" "n < b * c"
  moreover have "b * (n div b) \<le> n"
    using \<open>0 < b\<close> mult_div_mod_eq[of b n] pos_mod_sign[of b n] by linarith
  ultimately have "b * (n div b) < b * c" by linarith
  then show ?thesis using \<open>0 < b\<close> by simp
qed

lemma div_ge_bound: "0 < b \<Longrightarrow> b * c \<le> n \<Longrightarrow> (c :: int) \<le> n div b"
  using zdiv_mono1[of "b * c" n b] by simp

lemma radix_low:
  assumes "2 \<le> b" "0 \<le> n" "n < b ^ Suc k" "k = 0 \<or> b ^ k \<le> n"
  shows "rev (low_digits (Suc k) b n) = radix b n"
  using assms(2-)
proof (induction k arbitrary: n)
  case 0
  then show ?case using assms(1) by (simp add: radix.simps)
next
  case (Suc k)
  have "n div b < b ^ Suc k"
    by (rule div_lt_bound) (use Suc.prems(2) assms(1) in auto)
  moreover have "b ^ k \<le> n div b"
    by (rule div_ge_bound) (use Suc.prems(3) assms(1) in auto)
  ultimately have "rev (low_digits (Suc k) b (n div b)) = radix b (n div b)"
    using Suc.IH Suc.prems assms(1) by (simp add: pos_imp_zdiv_nonneg_iff)
  moreover have "b \<le> n"
  proof -
    have "b ^ 1 \<le> b ^ Suc k" using assms(1) by (intro power_increasing) auto
    then show ?thesis using Suc.prems(3) by simp
  qed
  ultimately show ?case using assms(1) by (simp add: radix.simps[of b n])
qed

lemma last_digit_append: "i < length xs \<Longrightarrow> last_digit (xs @ ys) i = last_digit xs i"
  by (induction xs i rule: last_digit.induct) (simp add: nth_append)

declare last_digit.simps [simp del]

lemma prt_copy_zero: "2 \<le> length temp \<Longrightarrow> prt_copy (temp @ [48]) = prt_copy temp"
proof -
  assume t: "2 \<le> length temp"
  have "last_digit (temp @ [48]) (length temp) = last_digit (temp @ [48]) (length temp - 1)"
    using t by (subst last_digit.simps) (auto simp: nth_append)
  also have "\<dots> = last_digit temp (length temp - 1)" using t by (intro last_digit_append) simp
  finally have l: "last_digit (temp @ [48]) (length temp) = last_digit temp (length temp - 1)" .
  have "last_digit temp i \<le> i" for i
    by (induction temp i rule: last_digit.induct) (subst last_digit.simps, auto)
  from this[of "length temp - 1"] have "last_digit temp (length temp - 1) < length temp" using t by linarith
  then show ?thesis using t l by (simp add: prt_copy_def Let_def)
qed

lemma prt_copy_digit: "c \<noteq> 48 \<Longrightarrow> temp \<noteq> [] \<Longrightarrow> prt_copy (temp @ [c]) = c # rev temp"
  by (simp add: prt_copy_def Let_def last_digit.simps[of _ "length temp"])

text \<open>A number below b ^ k, converted digit by digit and copied, comes out in base b.\<close>

lemma prt_copy_low:
  assumes b: "2 \<le> b" and ch: "\<And>d. 0 \<le> d \<Longrightarrow> d < b \<Longrightarrow> ch d = 48 \<longleftrightarrow> d = 0"
    and n: "0 \<le> n" "n < b ^ Suc k"
  shows "prt_copy (0 # map ch (low_digits (Suc k) b n)) = map ch (radix b n) @ [0]"
  using n
proof (induction k)
  case 0
  then have "low_digits (Suc 0) b n = [n]" "radix b n = [n]" by (simp_all add: radix.simps)
  moreover have "prt_copy [0, c] = [c, 0]" for c
    by (simp add: prt_copy_def Let_def last_digit.simps[of _ "Suc 0"] last_digit.simps[of _ 0])
  ultimately show ?case by simp
next
  case (Suc k)
  let ?ds = "low_digits (Suc k) b n"
  have sn: "low_digits (Suc (Suc k)) b n = ?ds @ [n div b ^ Suc k mod b]"
    using b low_digits_snoc[of b "Suc k" n] by simp
  show ?case
  proof (cases "n < b ^ Suc k")
    case True
    then have "n div b ^ Suc k = 0" using Suc.prems by simp
    then have "map ch (low_digits (Suc (Suc k)) b n) = map ch ?ds @ [48]" using sn ch[of 0] b by simp
    moreover have "prt_copy ((0 # map ch ?ds) @ [48]) = prt_copy (0 # map ch ?ds)"
      by (rule prt_copy_zero) simp
    ultimately show ?thesis using Suc.IH True Suc.prems by simp
  next
    case False
    then have ge: "b ^ Suc k \<le> n" by simp
    have p: "0 < b ^ Suc k" using b by simp
    have "1 \<le> n div b ^ Suc k" using div_ge_bound[OF p, of 1 n] ge by simp
    moreover have "n div b ^ Suc k < b" by (rule div_lt_bound[OF p]) (use Suc.prems in \<open>simp add: mult.commute\<close>)
    ultimately have c: "ch (n div b ^ Suc k mod b) \<noteq> 48" using ch[of "n div b ^ Suc k"] by simp
    have "prt_copy ((0 # map ch ?ds) @ [ch (n div b ^ Suc k mod b)]) =
        ch (n div b ^ Suc k mod b) # rev (0 # map ch ?ds)"
      by (rule prt_copy_digit[OF c]) simp
    moreover have "rev (low_digits (Suc (Suc k)) b n) = radix b n"
      by (rule radix_low[OF b Suc.prems]) (use ge in simp)
    then have r: "radix b n = rev (?ds @ [n div b ^ Suc k mod b])" by (simp only: sn)
    ultimately show ?thesis unfolding sn r by (simp add: rev_map)
  qed
qed


section \<open>Each routine prints its base\<close>

lemma prtl10_ok:
  assumes "0 \<le> n" "n \<le> INT_MAX"
  shows "prtl10 n = map (\<lambda>d. d + 48) (radix 10 n) @ [0]"
proof -
  have "digits 10 (\<lambda>n. n smod 10 + 48) (\<lambda>n. n sdiv 10) n = map (\<lambda>d. d + 48) (low_digits 10 10 n)"
  proof (rule digits_low[where P = "\<lambda>n. 0 \<le> n"])
    fix k :: int assume k: "0 \<le> k"
    then have "k smod 10 = k mod 10" "k sdiv 10 = k div 10"
      by (auto simp: signed_divide_int_def signed_modulo_int_def sgn_if)
    moreover have "0 \<le> k mod 10" "k mod 10 < 10" by simp_all
    ultimately show "u8 (k smod 10 + 48) = k mod 10 + 48 \<and> k sdiv 10 = k div 10 \<and> 0 \<le> k sdiv 10"
      using k by (simp add: u8_def pos_imp_zdiv_nonneg_iff)
  qed (rule assms(1))
  moreover have "prt_copy (0 # map (\<lambda>d. d + 48) (low_digits (Suc 9) 10 n)) = map (\<lambda>d. d + 48) (radix 10 n) @ [0]"
    by (rule prt_copy_low) (use assms in auto)
  ultimately show ?thesis by (simp add: prtl10_def del: low_digits.simps)
qed

definition ascii_digit :: "int list \<Rightarrow> int \<Rightarrow> bool" where
  "ascii_digit tab d \<longleftrightarrow> 0 \<le> tab ! nat d \<and> tab ! nat d < 256 \<and> (tab ! nat d = 48 \<longleftrightarrow> d = 0)"

lemma hex_tables: "\<forall>d \<in> {0..<16}. ascii_digit hex_lower d \<and> ascii_digit hex_upper d"
proof -
  have "list_all (\<lambda>d. ascii_digit hex_lower d \<and> ascii_digit hex_upper d) [0..15]" by code_simp
  then show ?thesis by (auto simp: list_all_iff)
qed

lemma low_digits_u32:
  assumes "0 < b" "4294967296 dvd b ^ k \<or> b ^ k dvd 4294967296" "b ^ k \<le> 4294967296"
  shows "low_digits k b (u32 n) = low_digits k b n"
proof -
  have "b ^ k dvd 4294967296" using assms by (metis dvd_refl zdvd_imp_le order_antisym zero_less_numeral zero_less_power)
  then have "u32 n mod b ^ k = n mod b ^ k" unfolding u32_def by (rule mod_mod_cancel)
  then show ?thesis using low_digits_mod[OF assms(1), of k "u32 n"] low_digits_mod[OF assms(1), of k n] by simp
qed

lemma prt_hex:
  assumes "\<forall>d \<in> {0..<16}. ascii_digit tab d"
  shows "prt_copy (0 # digits 8 (\<lambda>n. tab ! nat (n mod 16)) (\<lambda>n. n div 16) n) =
    map (\<lambda>d. tab ! nat d) (radix 16 (u32 n)) @ [0]"
proof -
  have "digits 8 (\<lambda>n. tab ! nat (n mod 16)) (\<lambda>n. n div 16) n = map (\<lambda>d. tab ! nat d) (low_digits 8 16 n)"
    by (rule digits_low[where P = "\<lambda>n. True"]) (use assms in \<open>auto simp: u8_id ascii_digit_def\<close>)
  also have "low_digits 8 16 n = low_digits (Suc 7) 16 (u32 n)" by (simp add: low_digits_u32)
  finally have "digits 8 (\<lambda>n. tab ! nat (n mod 16)) (\<lambda>n. n div 16) n =
      map (\<lambda>d. tab ! nat d) (low_digits (Suc 7) 16 (u32 n))" .
  moreover have "prt_copy (0 # map (\<lambda>d. tab ! nat d) (low_digits (Suc 7) 16 (u32 n))) =
      map (\<lambda>d. tab ! nat d) (radix 16 (u32 n)) @ [0]"
    by (rule prt_copy_low) (use assms u32_range[of n] in \<open>auto simp: ascii_digit_def\<close>)
  ultimately show ?thesis by simp
qed

lemma prtl16_ok: "prtl16 n = map (\<lambda>d. hex_lower ! nat d) (radix 16 (u32 n)) @ [0]"
  unfolding prtl16_def by (rule prt_hex) (use hex_tables in blast)

lemma prtX16_ok: "prtX16 n = map (\<lambda>d. hex_upper ! nat d) (radix 16 (u32 n)) @ [0]"
  unfolding prtX16_def by (rule prt_hex) (use hex_tables in blast)

lemma prtl2_ok: "prtl2 n = map (\<lambda>d. d + 48) (radix 2 (u32 n)) @ [0]"
proof -
  have "digits 32 (\<lambda>n. if n smod 2 = 0 then 48 else 49) (\<lambda>n. n div 2) n = map (\<lambda>d. d + 48) (low_digits 32 2 n)"
  proof (rule digits_low[where P = "\<lambda>n. True"])
    fix n :: int
    have "n smod 2 = 0 \<longleftrightarrow> n mod 2 = 0"
      by (simp add: signed_modulo_int_def sgn_if abs_if) presburger
    moreover have "n mod 2 = 0 \<or> n mod 2 = 1" by presburger
    ultimately show "u8 (if n smod 2 = 0 then 48 else 49) = n mod 2 + 48 \<and> n div 2 = n div 2 \<and> True"
      by (auto simp: u8_def)
  qed simp
  also have "low_digits 32 2 n = low_digits (Suc 31) 2 (u32 n)" by (simp add: low_digits_u32)
  finally have "digits 32 (\<lambda>n. if n smod 2 = 0 then 48 else 49) (\<lambda>n. n div 2) n =
      map (\<lambda>d. d + 48) (low_digits (Suc 31) 2 (u32 n))" .
  moreover have "prt_copy (0 # map (\<lambda>d. d + 48) (low_digits (Suc 31) 2 (u32 n))) =
      map (\<lambda>d. d + 48) (radix 2 (u32 n)) @ [0]"
    by (rule prt_copy_low) (use u32_range[of n] in auto)
  ultimately show ?thesis by (simp add: prtl2_def)
qed


text \<open>The top digit in base 8 has only two bits: the mask takes away the sign that the shifts of a
  negative number leave there.\<close>

lemma prtl8_ok: "prtl8 n = map (\<lambda>d. d + 48) (radix 8 (u32 n)) @ [0]"
proof -
  have dg: "digits 11 (\<lambda>n. n mod 8 + 48) (\<lambda>n. n div 8) n = map (\<lambda>d. d + 48) (low_digits 11 8 n)"
  proof (rule digits_low[where P = "\<lambda>n. True"])
    fix n :: int
    have "0 \<le> n mod 8" "n mod 8 < 8" by simp_all
    then show "u8 (n mod 8 + 48) = n mod 8 + 48 \<and> n div 8 = n div 8 \<and> True" by (simp add: u8_id)
  qed simp
  have sn: "low_digits 11 8 x = low_digits 10 8 x @ [x div 1073741824 mod 8]" for x
    using low_digits_snoc[of 8 10 x] by simp
  have lo: "low_digits 10 8 (u32 n) = low_digits 10 8 n" by (simp add: low_digits_u32)
  have u: "0 \<le> u32 n div 1073741824" "u32 n div 1073741824 < 4"
    using u32_range[of n] by (simp_all add: pos_imp_zdiv_nonneg_iff)
  have "n div 1073741824 mod 4 = u32 n div 1073741824"
  proof -
    have "u32 n = 1073741824 * (n div 1073741824 mod 4) + n mod 1073741824"
      unfolding u32_def using zmod_zmult2_eq[of 4 n 1073741824] by simp
    then show ?thesis by simp
  qed
  moreover have "and (x mod 8 + 48) 51 = x mod 4 + 48" for x :: int
  proof -
    have "\<forall>y \<in> {0..<8 :: int}. and (y + 48) 51 = y mod 4 + 48"
    proof -
      have "list_all (\<lambda>y. and (y + 48) 51 = y mod 4 + 48) [0..7 :: int]" by code_simp
      then show ?thesis by (auto simp: list_all_iff)
    qed
    moreover have "x mod 8 mod 4 = x mod 4" by (simp add: mod_mod_cancel)
    moreover have "x mod 8 \<in> {0..<8}" by simp
    ultimately show ?thesis by metis
  qed
  ultimately have top: "and (n div 1073741824 mod 8 + 48) 51 = u32 n div 1073741824 mod 8 + 48" using u by simp
  have "(0 # map (\<lambda>d. d + 48) (low_digits 11 8 n))[11 := and ((0 # map (\<lambda>d. d + 48) (low_digits 11 8 n)) ! 11) 51] =
      0 # map (\<lambda>d. d + 48) (low_digits 11 8 (u32 n))"
    unfolding sn lo by (simp add: nth_append list_update_append top)
  then have "prtl8 n = prt_copy (0 # map (\<lambda>d. d + 48) (low_digits (Suc 10) 8 (u32 n)))"
    by (simp add: prtl8_def dg Let_def del: low_digits.simps)
  also have "\<dots> = map (\<lambda>d. d + 48) (radix 8 (u32 n)) @ [0]"
    by (rule prt_copy_low) (use u32_range[of n] in auto)
  finally show ?thesis .
qed

lemma unsigned_loop_ok:
  assumes "INT_MIN \<le> n" "n \<le> INT_MAX"
  shows "\<exists>l d. unsigned_loop n = Some (l, d) \<and> 0 \<le> l \<and> l \<le> INT_MAX \<and> u32 n = l + d * 1000000000 \<and>
    0 \<le> d \<and> (d \<noteq> 0 \<longrightarrow> 1000000000 \<le> l)"
proof -
  have st: "c_while (\<lambda>(larg, digit1). larg < 0) (\<lambda>(larg, digit1). Some (i32 (larg - 1000000000), u8 (digit1 + 1))) (x, k) =
      c_while (\<lambda>(larg, digit1). larg < 0) (\<lambda>(larg, digit1). Some (i32 (larg - 1000000000), u8 (digit1 + 1)))
        (if x - 1000000000 < INT_MIN then x - 1000000000 + 4294967296 else x - 1000000000, k + 1)"
    if "INT_MIN \<le> x" "x < 0" "0 \<le> k" "k < 4" for x k
  proof -
    have "i32 (x - 1000000000) = (if x - 1000000000 < INT_MIN then x - 1000000000 + 4294967296 else x - 1000000000)"
    proof (cases "x - 1000000000 < INT_MIN")
      case True
      have "(x - 1000000000 + 2147483648) mod 4294967296 = (x - 1000000000 + 2147483648 + 4294967296) mod 4294967296"
        by (rule mod_add_self2[symmetric])
      also have "\<dots> = x - 1000000000 + 2147483648 + 4294967296" using True that by (intro mod_pos_pos_trivial) auto
      finally show ?thesis using True by (simp add: i32_def)
    next
      case False
      then show ?thesis using that by (simp add: i32_id)
    qed
    moreover have "u8 (k + 1) = k + 1" using that by (simp add: u8_id)
    ultimately show ?thesis using that by (subst c_while_step) auto
  qed
  have nn: "u32 n = n + 4294967296" if "n < 0"
  proof -
    have "n mod 4294967296 = (n + 4294967296) mod 4294967296" by simp
    also have "\<dots> = n + 4294967296" using that assms by (intro mod_pos_pos_trivial) auto
    finally show ?thesis by (simp add: u32_def)
  qed
  consider "0 \<le> n" | "n < -1147483648" | "-1147483648 \<le> n" "n < -147483648" | "-147483648 \<le> n" "n < 0" by linarith
  then show ?thesis
  proof cases
    case 1
    then show ?thesis using assms by (simp add: unsigned_loop_def c_while_stop u32_id)
  next
    case 2
    then show ?thesis using assms nn by (simp add: unsigned_loop_def st c_while_stop)
  next
    case 3
    then show ?thesis using assms nn by (simp add: unsigned_loop_def st c_while_stop)
  next
    case 4
    then show ?thesis using assms nn by (simp add: unsigned_loop_def st c_while_stop)
  qed
qed

lemma unsigned_text:
  assumes "INT_MIN \<le> n" "n \<le> INT_MAX" "unsigned_loop n = Some (l, d)"
  shows "(prtl10 l)[0 := u8 (prtl10 l ! 0 + d)] = map (\<lambda>d. d + 48) (radix 10 (u32 n)) @ [0]"
proof -
  from unsigned_loop_ok[OF assms(1,2)] assms(3)
  have l: "0 \<le> l" "l \<le> INT_MAX" "u32 n = l + d * 1000000000" "0 \<le> d" "d \<noteq> 0 \<longrightarrow> 1000000000 \<le> l" by auto
  show ?thesis
  proof (cases "d = 0")
    case True
    have "radix 10 l \<noteq> []" by (subst radix.simps) simp
    moreover have "0 \<le> hd (radix 10 l) \<and> hd (radix 10 l) < 10" if "0 \<le> l" for l
      using that by (induction "10 :: int" l rule: radix.induct) (subst (1 2) radix.simps, auto simp: hd_append radix.simps)
    from this[OF l(1)] have "u8 (hd (radix 10 l) + 48) = hd (radix 10 l) + 48" by (simp add: u8_id)
    ultimately show ?thesis using True l(1-3) by (cases "radix 10 l") (simp_all add: prtl10_ok)
  next
    case False
    have top: "radix 10 x = x div 1000000000 # rev (low_digits 9 10 x)" if "1000000000 \<le> x" "x < 10000000000" for x
    proof -
      have "rev (low_digits (Suc 9) 10 x) = radix 10 x" by (rule radix_low) (use that in auto)
      moreover have "x div 1000000000 < 10" using that by (intro div_lt_bound) auto
      ultimately show ?thesis using low_digits_snoc[of 10 9 x] that by (simp add: pos_imp_zdiv_nonneg_iff del: low_digits.simps)
    qed
    have lx: "1000000000 \<le> l" "l < 10000000000" using l False by auto
    have ux: "1000000000 \<le> u32 n" "u32 n < 10000000000" using l lx u32_range[of n] by auto
    have "low_digits 9 10 (u32 n) = low_digits 9 10 l"
      using low_digits_mod[of 10 9 l] low_digits_mod[of 10 9 "u32 n"] l(3) by simp
    moreover have "u32 n div 1000000000 = l div 1000000000 + d" using l(3) by simp
    moreover have "0 \<le> l div 1000000000" "u32 n div 1000000000 < 10"
      using l(1) ux by (auto simp: pos_imp_zdiv_nonneg_iff intro: div_lt_bound)
    ultimately show ?thesis
      unfolding prtl10_ok[OF l(1,2)] top[OF lx] top[OF ux] using l(4) by (simp add: u8_id)
  qed
qed


end
