(* ===== verification/Print_Spec.thy ===== *)
theory Print_Spec imports C_Print
begin

text \<open>
  What a format string means: a list of pieces, each with the characters that stand for it in the
  format, the arguments it takes and the text it prints. _fdoprnt and sprintf are shown to print the
  text of the pieces, and a number printed by sprintf is read back by strtol.
\<close>

section \<open>Pieces of a format\<close>

datatype conversion = Dec int | Unsigned int | Octal int | Hex_lower int | Hex_upper int | Chr int
  | Str int "int list" | Null_str

datatype piece = Plain int | Percent | Fld bool bool nat nat conversion

definition num_text :: "int \<Rightarrow> int \<Rightarrow> int list" where
  "num_text b n = map (\<lambda>d. d + 48) (radix b n)"

definition width_text :: "nat \<Rightarrow> int list" where
  "width_text w = (if w = 0 then [] else num_text 10 (int w))"

fun conv_char :: "conversion \<Rightarrow> int" where
  "conv_char (Dec _) = 100" | "conv_char (Unsigned _) = 117" | "conv_char (Octal _) = 111"
| "conv_char (Hex_lower _) = 120" | "conv_char (Hex_upper _) = 88" | "conv_char (Chr _) = 99"
| "conv_char (Str _ _) = 115" | "conv_char Null_str = 115"

fun conv_arg :: "conversion \<Rightarrow> int" where
  "conv_arg (Dec a) = a" | "conv_arg (Unsigned a) = a" | "conv_arg (Octal a) = a"
| "conv_arg (Hex_lower a) = a" | "conv_arg (Hex_upper a) = a" | "conv_arg (Chr a) = a"
| "conv_arg (Str a _) = a" | "conv_arg Null_str = 0"

fun conv_text :: "conversion \<Rightarrow> int list" where
  "conv_text (Dec a) = num_text 10 \<bar>i32 a\<bar>"
| "conv_text (Unsigned a) = num_text 10 (u32 a)"
| "conv_text (Octal a) = num_text 8 (u32 a)"
| "conv_text (Hex_lower a) = map (\<lambda>d. hex_lower ! nat d) (radix 16 (u32 a))"
| "conv_text (Hex_upper a) = map (\<lambda>d. hex_upper ! nat d) (radix 16 (u32 a))"
| "conv_text (Chr a) = (if u8 a = 0 then [] else [u8 a])"
| "conv_text (Str a cs) = cs"
| "conv_text Null_str = butlast null_text"

fun conv_sign :: "conversion \<Rightarrow> int list" where
  "conv_sign (Dec a) = (if i32 a < 0 then [45] else [])"
| "conv_sign _ = []"

text \<open>A precision cuts the text of d and s; c and s are never filled with zeros.\<close>

fun cuts :: "conversion \<Rightarrow> bool" where
  "cuts (Dec _) = True" | "cuts (Str _ _) = True" | "cuts Null_str = True" | "cuts _ = False"

fun zero_fills :: "conversion \<Rightarrow> bool" where
  "zero_fills (Chr _) = False" | "zero_fills (Str _ _) = False" | "zero_fills Null_str = False"
| "zero_fills _ = True"

definition layout :: "bool \<Rightarrow> bool \<Rightarrow> nat \<Rightarrow> nat \<Rightarrow> int list \<Rightarrow> int list \<Rightarrow> int list" where
  "layout left zero w p sg cs =
     (let w = (if w > 80 then 0 else w); p = (if p > 80 then 0 else p);
          cs = (if p = 0 then cs else take p cs);
          pad = replicate (w - (length sg + length cs)) (if zero then 48 else 32)
      in (if zero then sg else []) @ (if left then [] else pad) @ (if zero then [] else sg) @ cs @
         (if left then pad else []))"

fun piece_format :: "piece \<Rightarrow> int list" where
  "piece_format (Plain c) = [c]"
| "piece_format Percent = [37, 37]"
| "piece_format (Fld left zero w p cv) =
     [37] @ (if left then [45] else []) @ (if zero then [48] else []) @ width_text w @
     (if p = 0 then [] else 46 # width_text p) @ [conv_char cv]"

fun piece_args :: "piece \<Rightarrow> int list" where
  "piece_args (Fld left zero w p cv) = [conv_arg cv]"
| "piece_args _ = []"

fun piece_text :: "piece \<Rightarrow> int list" where
  "piece_text (Plain c) = [c]"
| "piece_text Percent = [37]"
| "piece_text (Fld left zero w p cv) =
     layout left (zero \<and> zero_fills cv) w (if cuts cv then p else 0) (conv_sign cv) (conv_text cv)"

text \<open>What a piece needs of the memory: the strings it prints, at addresses in A.\<close>

fun piece_ok :: "bmem \<Rightarrow> int set \<Rightarrow> piece \<Rightarrow> bool" where
  "piece_ok m A (Plain c) \<longleftrightarrow> c \<noteq> 37 \<and> c \<noteq> 0"
| "piece_ok m A Percent \<longleftrightarrow> True"
| "piece_ok m A (Fld left zero w p cv) \<longleftrightarrow> int w \<le> INT_MAX \<and> int p \<le> INT_MAX \<and>
     (case cv of Dec a \<Rightarrow> i32 a \<noteq> INT_MIN
      | Str a cs \<Rightarrow> a \<noteq> 0 \<and> cstr m a cs \<and> {a..a + int (length cs)} \<subseteq> A
      | _ \<Rightarrow> True)"

definition format_of :: "piece list \<Rightarrow> int list" where
  "format_of ps = concat (map piece_format ps)"

definition args_of :: "piece list \<Rightarrow> int list" where
  "args_of ps = concat (map piece_args ps)"

definition text_of :: "piece list \<Rightarrow> int list" where
  "text_of ps = concat (map piece_text ps)"

section \<open>The output function\<close>

primrec put_all :: "'o put_fun \<Rightarrow> int list \<Rightarrow> bmem \<times> 'o \<Rightarrow> (bmem \<times> 'o) option" where
  "put_all func [] u = Some u"
| "put_all func (c # cs) u = do { u \<leftarrow> func c u; put_all func cs u }"

text \<open>The output function takes all of the text, and leaves the bytes at the addresses A alone.\<close>

primrec sinks :: "'o put_fun \<Rightarrow> int set \<Rightarrow> bmem \<Rightarrow> int list \<Rightarrow> bmem \<times> 'o \<Rightarrow> bool" where
  "sinks func A m [] u \<longleftrightarrow> (\<forall>a\<in>A. fst u a = m a)"
| "sinks func A m (c # cs) u \<longleftrightarrow> (\<forall>a\<in>A. fst u a = m a) \<and> (\<exists>v. func c u = Some v \<and> sinks func A m cs v)"

lemma sinks_agree: "sinks func A m cs u \<Longrightarrow> a \<in> A \<Longrightarrow> fst u a = m a"
  by (cases cs) auto

lemma put_all_append: "put_all func (xs @ ys) u = Option.bind (put_all func xs u) (put_all func ys)"
  by (induction xs arbitrary: u) (auto split: bind_split)

lemma sinks_append:
  "sinks func A m (xs @ ys) u \<longleftrightarrow> sinks func A m xs u \<and> (\<exists>v. put_all func xs u = Some v \<and> sinks func A m ys v)"
proof (induction xs arbitrary: u)
  case Nil
  then show ?case using sinks_agree by fastforce
qed auto

lemma sinks_Cons: "sinks func A m (c # cs) u \<Longrightarrow> \<exists>v. func c u = Some v \<and> sinks func A m cs v"
  by simp

lemma put_fill_all: "put_fill func c n u = put_all func (replicate n c) u"
  by (induction n arbitrary: u) (auto split: bind_split)

section \<open>Numbers in base b\<close>

lemma radix_nonempty [simp]: "radix b n \<noteq> []"
  by (subst radix.simps) simp

lemma radix_digits: "0 \<le> n \<Longrightarrow> 2 \<le> b \<Longrightarrow> \<forall>d \<in> set (radix b n). 0 \<le> d \<and> d < b"
proof (induction b n rule: radix.induct)
  case (1 b n)
  then show ?case by (subst radix.simps) (auto simp: pos_imp_zdiv_nonneg_iff)
qed

lemma horner_append: "horner b acc (xs @ ys) = horner b (horner b acc xs) ys"
  by (simp add: horner_def)

lemma horner_radix: "0 \<le> n \<Longrightarrow> 2 \<le> b \<Longrightarrow> horner b 0 (radix b n) = n"
proof (induction b n rule: radix.induct)
  case (1 b n)
  show ?case
  proof (cases "n < b")
    case True
    then show ?thesis by (simp add: radix.simps)
  next
    case False
    then have "horner b 0 (radix b (n div b)) = n div b" using 1 by (simp add: pos_imp_zdiv_nonneg_iff)
    then show ?thesis using False 1 by (simp add: radix.simps[of b n] horner_append)
  qed
qed

lemma radix_hd: "0 < n \<Longrightarrow> 2 \<le> b \<Longrightarrow> hd (radix b n) \<noteq> 0"
proof (induction b n rule: radix.induct)
  case (1 b n)
  show ?case
  proof (cases "n < b")
    case True
    then show ?thesis using 1 by (simp add: radix.simps)
  next
    case False
    then have "0 < n div b" using 1 by (simp add: pos_imp_zdiv_pos_iff)
    then show ?thesis using False 1 by (simp add: radix.simps[of b n])
  qed
qed

lemma radix_length: "0 \<le> n \<Longrightarrow> 2 \<le> b \<Longrightarrow> n < b ^ Suc k \<Longrightarrow> length (radix b n) \<le> Suc k"
proof (induction k arbitrary: n)
  case 0
  then show ?case by (simp add: radix.simps)
next
  case (Suc k)
  show ?case
  proof (cases "n < b")
    case True
    then show ?thesis by (simp add: radix.simps)
  next
    case False
    have "n div b < b ^ Suc k" by (rule div_lt_bound) (use Suc.prems in auto)
    then show ?thesis using Suc False by (simp add: radix.simps[of b n] pos_imp_zdiv_nonneg_iff)
  qed
qed

section \<open>Reading a field specification\<close>

lemma fmt_number_ok:
  assumes "cstr m p (map (\<lambda>d. d + 48) ds @ c # rest)" "\<forall>d \<in> set ds. 0 \<le> d \<and> d < 10" "\<not> (48 \<le> c \<and> c \<le> 57)"
    and "0 \<le> acc" "horner 10 acc ds \<le> INT_MAX"
  shows "fmt_number m (acc, p) = Some (horner 10 acc ds, p + int (length ds))"
  using assms
proof (induction ds arbitrary: acc p)
  case Nil
  then show ?case unfolding fmt_number_def by (subst c_loop_Inr) auto
next
  case (Cons d ds)
  have "acc * 10 + d \<le> horner 10 (acc * 10 + d) ds" using Cons.prems by (intro horner_ge) auto
  then have e: "i32 (acc * 10 + (d + 48) - 48) = acc * 10 + d" using Cons.prems by (simp add: i32_id)
  have "fmt_number m (acc, p) = fmt_number m (acc * 10 + d, p + 1)"
    unfolding fmt_number_def by (subst c_loop_Inl) (use Cons.prems e in auto)
  then show ?case using Cons.IH[of "p + 1" "acc * 10 + d"] Cons.prems by simp
qed

lemma fmt_width_ok:
  assumes "cstr m p (width_text w @ c # rest)" "\<not> (48 \<le> c \<and> c \<le> 57)" "c \<noteq> 42" "int w \<le> INT_MAX"
  shows "fmt_width m p ap = Some (int w, p + int (length (width_text w)), ap)"
proof (cases "w = 0")
  case True
  then show ?thesis using assms fmt_number_ok[of m p "[]" c rest 0] by (simp add: fmt_width_def width_text_def)
next
  case False
  have d: "\<forall>d \<in> set (radix 10 (int w)). 0 \<le> d \<and> d < 10" by (rule radix_digits) auto
  have "m p = hd (radix 10 (int w)) + 48"
    using assms(1) False by (cases "radix 10 (int w)") (auto simp: width_text_def num_text_def)
  moreover have "0 \<le> hd (radix 10 (int w))" using d by simp
  ultimately have "m p \<noteq> 42" by linarith
  moreover have "fmt_number m (0, p) = Some (int w, p + int (length (radix 10 (int w))))"
    using fmt_number_ok[of m p "radix 10 (int w)" c rest 0] assms False d
    by (simp add: width_text_def num_text_def horner_radix)
  ultimately show ?thesis using False by (simp add: fmt_width_def width_text_def num_text_def)
qed

lemma conv_char_range: "88 \<le> conv_char cv" "conv_char cv \<le> 120"
  by (cases cv; simp)+

lemma width_text_hd:
  assumes "cstr m p (width_text w @ c # rest)"
  shows "if w = 0 then m p = c else 48 < m p \<and> m p < 58"
proof (cases "w = 0")
  case True
  then show ?thesis using assms by (simp add: width_text_def)
next
  case False
  have "m p = hd (radix 10 (int w)) + 48"
    using assms False by (cases "radix 10 (int w)") (auto simp: width_text_def num_text_def)
  moreover have "\<forall>d \<in> set (radix 10 (int w)). 0 \<le> d \<and> d < 10" by (rule radix_digits) auto
  moreover have "hd (radix 10 (int w)) \<noteq> 0" using False by (intro radix_hd) auto
  moreover have "hd (radix 10 (int w)) \<in> set (radix 10 (int w))" by simp
  ultimately have "0 < hd (radix 10 (int w))" "hd (radix 10 (int w)) < 10" by (metis order_le_less, metis)
  then show ?thesis using \<open>m p = _\<close> False by simp
qed

lemma width_text_ge: "d \<in> set (width_text w) \<Longrightarrow> 48 \<le> d"
  using radix_digits[of "int w" 10] by (auto simp: width_text_def num_text_def split: if_splits)

definition spec_text :: "bool \<Rightarrow> bool \<Rightarrow> nat \<Rightarrow> nat \<Rightarrow> int list" where
  "spec_text left zero w p =
     (if left then [45] else []) @ (if zero then [48] else []) @ width_text w @ (if p = 0 then [] else 46 # width_text p)"

lemma fmt_spec_ok:
  assumes str: "cstr m q (spec_text left zero w p @ conv_char cv # rest)" and w: "int w \<le> INT_MAX" "int p \<le> INT_MAX"
  shows "fmt_spec m q ap = Some (\<lparr>leftjust = left, fill = (if zero then 48 else 32), fmin = int w, fmax = int p, sign = 0\<rparr>,
    q + int (length (spec_text left zero w p)), ap)"
proof -
  let ?c = "conv_char cv"
  let ?P = "(if p = 0 then [] else 46 # width_text p) @ ?c # rest"
  have c: "\<not> (48 \<le> ?c \<and> ?c \<le> 57)" "?c \<noteq> 42" "?c \<noteq> 45" "?c \<noteq> 48" "?c \<noteq> 46" using conv_char_range[of cv] by auto
  obtain d ds where P: "?P = d # ds" by (cases "p = 0") auto
  have d: "\<not> (48 \<le> d \<and> d \<le> 57)" "d \<noteq> 42" "d \<noteq> 45" "d \<noteq> 48" "d = 46 \<longleftrightarrow> p \<noteq> 0"
    using P c by (auto split: if_splits)
  let ?q1 = "q + (if left then 1 else 0)"
  let ?q2 = "?q1 + (if zero then 1 else 0)"
  let ?q3 = "?q2 + int (length (width_text w))"
  have s1: "cstr m ?q1 ((if zero then [48] else []) @ width_text w @ ?P)"
    using str by (cases left) (auto simp: spec_text_def)
  then have s2: "cstr m ?q2 (width_text w @ d # ds)" unfolding P by (cases zero) auto
  have s3: "cstr m ?q3 ?P" using s2 unfolding P by (simp only: cstr_append)
  have h2: "if w = 0 then m ?q2 = d else 48 < m ?q2 \<and> m ?q2 < 58" by (rule width_text_hd[OF s2])
  have z: "m ?q1 = 48 \<longleftrightarrow> zero" using s1 h2 d by (cases zero) (auto split: if_splits)
  have l: "m q = 45 \<longleftrightarrow> left"
  proof (cases left)
    case True
    then show ?thesis using str by (simp add: spec_text_def)
  next
    case False
    then have "m q \<noteq> 45" using s1 h2 d by (cases zero) (auto split: if_splits)
    then show ?thesis using False by simp
  qed
  have f3: "fmt_width m ?q2 ap = Some (int w, ?q3, ap)"
    by (rule fmt_width_ok[OF s2 d(1,2) w(1)])
  have m3: "m ?q3 = 46 \<longleftrightarrow> p \<noteq> 0" using s3 c by (cases "p = 0") auto
  have f4: "(if m ?q3 = 46 then fmt_width m (?q3 + 1) ap else Some (0, ?q3, ap)) =
      Some (int p, ?q3 + int (length (if p = 0 then [] else 46 # width_text p)), ap)"
  proof (cases "p = 0")
    case False
    then have "cstr m (?q3 + 1) (width_text p @ ?c # rest)" using s3 by simp
    from fmt_width_ok[OF this c(1,2) w(2)] show ?thesis using m3 False by simp
  qed (use m3 in simp)
  define q1 where "q1 = ?q1"
  define q2 where "q2 = q1 + (if zero then 1 else 0)"
  define q3 where "q3 = q2 + int (length (width_text w))"
  have a: "(if left then q + 1 else q) = q1" by (simp add: q1_def)
  have b: "(if m q1 = 48 then (48, q1 + 1) else (32, q1)) = (if zero then 48 else 32, q2)"
    using z by (simp add: q1_def q2_def)
  have e: "fmt_width m q2 ap = Some (int w, q3, ap)" using f3 by (simp add: q1_def q2_def q3_def)
  have f: "(if m q3 = 46 then fmt_width m (q3 + 1) ap else Some (0, q3, ap)) =
      Some (int p, q3 + int (length (if p = 0 then [] else 46 # width_text p)), ap)"
    using f4 by (simp only: q1_def q2_def q3_def)
  have g: "q3 + int (length (if p = 0 then [] else 46 # width_text p)) = q + int (length (spec_text left zero w p))"
    by (simp add: q1_def q2_def q3_def spec_text_def)
  show ?thesis unfolding fmt_spec_def Let_def l a b prod.case e bind.bind_lunit f g ..
qed

section \<open>Converting and writing one field\<close>

text \<open>The pointer p denotes the text cs.\<close>

definition denotes :: "bmem \<Rightarrow> int list \<Rightarrow> strp \<Rightarrow> int list \<Rightarrow> bool" where
  "denotes m str p cs \<longleftrightarrow> 0 \<notin> set cs \<and> (\<forall>i < length cs. str_at m str p (int i) = Some (cs ! i)) \<and>
     str_at m str p (int (length cs)) = Some 0"

lemma str_length_ok:
  assumes "denotes m str p cs"
  shows "str_length m str p = Some (int (length cs))"
proof -
  have "c_loop (\<lambda>n. do { c \<leftarrow> str_at m str p n; Some (if c \<noteq> 0 then Inl (n + 1) else Inr n) }) (int i) = Some (int (length cs))"
    if "i \<le> length cs" for i
    using that
  proof (induction "length cs - i" arbitrary: i)
    case 0
    then have "i = length cs" by simp
    then show ?case using assms by (subst c_loop_Inr) (auto simp: denotes_def)
  next
    case (Suc k)
    then have i: "i < length cs" by simp
    then have "cs ! i \<noteq> 0" using assms by (auto simp: denotes_def in_set_conv_nth)
    moreover have "str_at m str p (int i) = Some (cs ! i)" using i assms by (simp add: denotes_def)
    ultimately have "(do { c \<leftarrow> str_at m str p (int i); Some (if c \<noteq> 0 then Inl (int i + 1) else Inr (int i)) }) =
        (Some (Inl (int (Suc i))) :: (int + int) option)" by (simp add: add.commute)
    moreover have "k = length cs - Suc i" "Suc i \<le> length cs" using Suc.hyps(2) i by auto
    ultimately show ?case using Suc.hyps(1)[of "Suc i"] by (subst c_loop_Inl) auto
  qed
  from this[of 0] show ?thesis by (simp add: str_length_def)
qed

lemma put_str_ok:
  assumes "\<And>mm i. (\<forall>a\<in>A. mm a = m a) \<Longrightarrow> i < length cs \<Longrightarrow> str_at mm str p (int (k + i)) = Some (cs ! i)"
    and "sinks func A m cs u"
  shows "put_str func str p (length cs) (int k) u = put_all func cs u"
  using assms
proof (induction cs arbitrary: k u)
  case (Cons c cs)
  from Cons.prems(2) obtain v where v: "func c u = Some v" "sinks func A m cs v" "\<forall>a\<in>A. fst u a = m a" by auto
  have "str_at (fst u) str p (int k) = Some c" using Cons.prems(1)[of "fst u" 0] v(3) by simp
  moreover have "put_str func str p (length cs) (int (Suc k)) v = put_all func cs v"
  proof (rule Cons.IH[OF _ v(2)])
    fix x :: bmem and i assume "\<forall>a\<in>A. x a = m a" "i < length cs"
    then show "str_at x str p (int (Suc k + i)) = Some (cs ! i)" using Cons.prems(1)[of x "Suc i"] by simp
  qed
  ultimately show ?case using v(1) by (simp add: add.commute)
qed simp

text \<open>This does not depend on the bytes outside A.\<close>

definition stable :: "int set \<Rightarrow> bmem \<Rightarrow> int list \<Rightarrow> strp \<Rightarrow> int list \<Rightarrow> bool" where
  "stable A m str p cs \<longleftrightarrow> (\<forall>mm. (\<forall>a\<in>A. mm a = m a) \<longrightarrow> denotes mm str p cs)"

lemma str_put_ok:
  assumes "length cs \<le> 19" "0 \<notin> set cs" "length str = 20"
  shows "\<exists>str'. str_put 0 (cs @ [0]) str = Some str' \<and> length str' = 20 \<and> take (length cs) str' = cs \<and>
    stable A m str' Local cs"
  using assms by (auto simp: str_put_def stable_def denotes_def str_at_def nth_append)

lemma num_text_ok:
  assumes "0 \<le> n" "2 \<le> b" "n < b ^ Suc k" "k \<le> 10"
  shows "length (num_text b n) \<le> 19" "0 \<notin> set (num_text b n)"
proof -
  show "length (num_text b n) \<le> 19" using radix_length[OF assms(1-3)] assms(4) by (simp add: num_text_def)
  show "0 \<notin> set (num_text b n)" using radix_digits[OF assms(1,2)] by (force simp: num_text_def)
qed

lemma hex_text_ok:
  assumes "\<forall>d \<in> {0..<16}. 48 \<le> tab ! nat d"
  shows "length (map (\<lambda>d. tab ! nat d) (radix 16 (u32 a))) \<le> 19"
    "(0 :: int) \<notin> set (map (\<lambda>d. tab ! nat d) (radix 16 (u32 a)))"
proof -
  have "length (radix 16 (u32 a)) \<le> Suc 7" by (rule radix_length) (use u32_range[of a] in auto)
  then show "length (map (\<lambda>d. tab ! nat d) (radix 16 (u32 a))) \<le> 19" by simp
  have "\<forall>d \<in> set (radix 16 (u32 a)). 0 \<le> d \<and> d < 16" by (rule radix_digits) (use u32_range[of a] in auto)
  then show "(0 :: int) \<notin> set (map (\<lambda>d. tab ! nat d) (radix 16 (u32 a)))" using assms by force
qed

lemma hex_48: "\<forall>d \<in> {0..<16}. 48 \<le> hex_lower ! nat d" "\<forall>d \<in> {0..<16}. 48 \<le> hex_upper ! nat d"
proof -
  have "list_all (\<lambda>d. 48 \<le> hex_lower ! nat d \<and> 48 \<le> hex_upper ! nat d) [0..15]" by code_simp
  then show "\<forall>d \<in> {0..<16}. 48 \<le> hex_lower ! nat d" "\<forall>d \<in> {0..<16}. 48 \<le> hex_upper ! nat d"
    by (auto simp: list_all_iff)
qed

lemma u32_i32: "u32 (i32 a) = u32 a"
  by (simp add: u32_def i32_def mod_simps)

lemma stable_str:
  assumes "cstr m a cs" "{a..a + int (length cs)} \<subseteq> A"
  shows "stable A m str (Text a) cs"
proof -
  have "denotes mm str (Text a) cs" if mm: "\<forall>x\<in>A. mm x = m x" for mm
  proof -
    have "cstr mm a cs" by (rule cstr_frame[OF assms(1)]) (use assms(2) mm in auto)
    then have "cstr mm a (cs @ [])" "0 \<notin> set cs" by (simp_all add: cstr_nonzero)
    then show ?thesis unfolding cstr_append by (simp add: denotes_def str_at_def)
  qed
  then show ?thesis by (simp add: stable_def)
qed

definition conv_spec :: "conversion \<Rightarrow> fspec \<Rightarrow> fspec" where
  "conv_spec cv sp = sp\<lparr>fill := (if zero_fills cv then fill sp else 32),
     fmax := (if cuts cv then fmax sp else 0), sign := (if conv_sign cv = [] then 0 else 45)\<rparr>"

lemma dec_text:
  assumes "i32 a \<noteq> INT_MIN"
  shows "(if i32 a < 0 then (45, i32 (- i32 a)) else (0, i32 a)) = (if conv_sign (Dec a) = [] then 0 else 45, \<bar>i32 a\<bar>)"
    "0 \<le> \<bar>i32 a\<bar>" "\<bar>i32 a\<bar> \<le> INT_MAX"
  using i32_range[of a] assms by (auto simp: i32_id)

lemma fmt_convert_ok:
  assumes ok: "piece_ok m A (Fld left zero w p cv)" and str: "length str = 20" and sp: "sign sp = 0"
  shows "\<exists>pt str'. fmt_convert func (conv_char cv) sp str (conv_arg cv # ap) u =
      Some (pt, str', conv_spec cv sp, ap, u) \<and> length str' = 20 \<and> stable A m str' pt (conv_text cv)"
proof (cases cv)
  case (Dec a)
  have d: "i32 a \<noteq> INT_MIN" using ok Dec by simp
  have r: "length (num_text 10 \<bar>i32 a\<bar>) \<le> 19" "0 \<notin> set (num_text 10 \<bar>i32 a\<bar>)"
    using num_text_ok[of "\<bar>i32 a\<bar>" 10 9] dec_text(3)[OF d] by simp_all
  obtain str' where "str_put 0 (num_text 10 \<bar>i32 a\<bar> @ [0]) str = Some str'" "length str' = 20"
    "stable A m str' Local (num_text 10 \<bar>i32 a\<bar>)" using str_put_ok[OF r str] by blast
  then show ?thesis using Dec sp prtl10_ok[OF dec_text(2,3)[OF d]] unfolding fmt_convert_def
    by (simp add: va_arg_def dec_text(1)[OF d, simplified] Let_def num_text_def conv_spec_def)
next
  case (Unsigned a)
  obtain l d where ld: "unsigned_loop (i32 a) = Some (l, d)" "0 \<le> l" "l \<le> INT_MAX"
    using unsigned_loop_ok[of "i32 a"] i32_range[of a] by blast
  have t: "(prtl10 l)[0 := u8 (prtl10 l ! 0 + d)] = num_text 10 (u32 a) @ [0]"
    using unsigned_text[OF i32_range(1) i32_range(2) ld(1)] by (simp add: num_text_def u32_i32)
  have r: "length (num_text 10 (u32 a)) \<le> 19" "0 \<notin> set (num_text 10 (u32 a))"
    using num_text_ok[of "u32 a" 10 9] u32_range[of a] by simp_all
  have r1: "length (num_text 10 l) \<le> 19" "0 \<notin> set (num_text 10 l)" using num_text_ok[of l 10 9] ld by simp_all
  have pl: "prtl10 l = num_text 10 l @ [0]" using prtl10_ok[OF ld(2,3)] by (simp add: num_text_def)
  have len: "length (num_text 10 l) = length (num_text 10 (u32 a))" "num_text 10 l \<noteq> []"
    using arg_cong[OF t, of length] pl by (simp_all add: num_text_def)
  have e: "str_put 0 (prtl10 l) str = Some (prtl10 l @ drop (Suc (length (num_text 10 l))) str)"
    using r1 str pl by (simp add: str_put_def)
  have "(prtl10 l @ drop (Suc (length (num_text 10 l))) str)[0 := u8 ((prtl10 l @ drop (Suc (length (num_text 10 l))) str) ! 0 + d)] =
      (num_text 10 (u32 a) @ [0]) @ drop (Suc (length (num_text 10 (u32 a)))) str"
    unfolding t[symmetric] using len pl by (simp add: list_update_append nth_append)
  moreover have "str_put 0 (num_text 10 (u32 a) @ [0]) str = Some ((num_text 10 (u32 a) @ [0]) @ drop (Suc (length (num_text 10 (u32 a)))) str)"
    using r str by (simp add: str_put_def)
  ultimately show ?thesis using Unsigned sp e ld str_put_ok[OF r str, of A m] unfolding fmt_convert_def
    by (simp add: va_arg_def conv_spec_def)
next
  case (Octal a)
  have r: "length (num_text 8 (u32 a)) \<le> 19" "0 \<notin> set (num_text 8 (u32 a))"
    using num_text_ok[of "u32 a" 8 10] u32_range[of a] by simp_all
  have "prtl8 (i32 a) = num_text 8 (u32 a) @ [0]" by (simp add: prtl8_ok num_text_def u32_i32)
  then show ?thesis using Octal sp str_put_ok[OF r str, of A m] unfolding fmt_convert_def
    by (auto simp: va_arg_def conv_spec_def)
next
  case (Hex_lower a)
  show ?thesis using Hex_lower sp str_put_ok[OF hex_text_ok[OF hex_48(1)] str, of a A m] unfolding fmt_convert_def
    by (auto simp: va_arg_def conv_spec_def prtl16_ok u32_i32)
next
  case (Hex_upper a)
  show ?thesis using Hex_upper sp str_put_ok[OF hex_text_ok[OF hex_48(2)] str, of a A m] unfolding fmt_convert_def
    by (auto simp: va_arg_def conv_spec_def prtX16_ok u32_i32)
next
  case (Chr a)
  have "str_put 0 [u8 a, 0] str = Some ([u8 a, 0] @ drop (Suc (Suc 0)) str)" using str by (simp add: str_put_def)
  moreover have "stable A m ([u8 a, 0] @ drop (Suc (Suc 0)) str) Local (conv_text (Chr a))"
    by (simp add: stable_def denotes_def str_at_def)
  ultimately show ?thesis using Chr str sp unfolding fmt_convert_def
    by (simp add: va_arg_def conv_spec_def)
next
  case (Str a cs)
  then show ?thesis using ok str sp stable_str[of m a cs A str] unfolding fmt_convert_def
    by (simp add: va_arg_def conv_spec_def)
next
  case Null_str
  have "stable A m str Null_text (butlast null_text)"
    by (simp add: stable_def denotes_def str_at_def null_text_def nth_Cons' less_Suc_eq numeral_eq_Suc)
  then show ?thesis using Null_str str sp unfolding fmt_convert_def by (simp add: va_arg_def conv_spec_def)
qed


definition sign_text :: "fspec \<Rightarrow> int list" where
  "sign_text sp = (if sign sp = 45 then [45] else [])"

lemma stable_take: "stable A m str p cs \<Longrightarrow> \<forall>a\<in>A. mm a = m a \<Longrightarrow> i < length cs \<Longrightarrow> str_at mm str p (int i) = Some (cs ! i)"
  by (auto simp: stable_def denotes_def)

lemma field_pad:
  assumes "sl = (if b then 1 else 0)"
  shows "nat (if int pp \<noteq> 0 \<or> int ww \<noteq> 0
      then (if int ww \<noteq> 0 then int ww - int l else 0) - (if b then 1 else 0) else 0) = ww - (sl + l)"
  using assms by (cases b; cases "ww = 0"; cases "pp = 0"; simp; arith)

lemma put_field_ok:
  assumes st: "stable A m str pt cs" and sp: "fmin sp = int w" "fmax sp = int p" "fill sp = 32 \<or> fill sp = 48"
    and sk: "sinks func A m (layout (leftjust sp) (fill sp = 48) w p (sign_text sp) cs) u"
  shows "put_field func sp str pt u = put_all func (layout (leftjust sp) (fill sp = 48) w p (sign_text sp) cs) u"
proof -
  define ww where "ww = (if w > 80 then 0 else w)"
  define pp where "pp = (if p > 80 then 0 else p)"
  define ts where "ts = (if pp = 0 then cs else take pp cs)"
  define sg where "sg = sign_text sp"
  define pad where "pad = replicate (ww - (length sg + length ts)) (fill sp)"
  define z where "z = (fill sp = 48)"
  define pre where "pre = (if z then sg else []) @ (if leftjust sp then [] else pad) @ (if z then [] else sg)"
  have lay: "layout (leftjust sp) (fill sp = 48) w p (sign_text sp) cs = pre @ ts @ (if leftjust sp then pad else [])"
    using sp(3) by (auto simp: layout_def Let_def ww_def pp_def ts_def sg_def pad_def z_def pre_def)
  have "str_length (fst u) str pt = Some (int (length cs))"
    using st sinks_agree[OF sk] by (intro str_length_ok) (auto simp: stable_def)
  moreover have "(if fmin sp > MAXSTR \<or> fmin sp < 0 then 0 else fmin sp) = int ww" using sp by (simp add: ww_def MAXSTR_def)
  moreover have "(if fmax sp > MAXSTR \<or> fmax sp < 0 then 0 else fmax sp) = int pp" using sp by (simp add: pp_def MAXSTR_def)
  moreover have "(if int pp \<noteq> 0 \<and> int (length cs) > int pp then int pp else int (length cs)) = int (length ts)"
    by (simp add: ts_def)
  moreover have "replicate (nat (if int pp \<noteq> 0 \<or> int ww \<noteq> 0
      then (if int ww \<noteq> 0 then int ww - int (length ts) else 0) - (if sign sp = 45 then 1 else 0) else 0)) (fill sp) = pad"
    unfolding pad_def by (rule arg_cong[where f = "\<lambda>n. replicate n (fill sp)"], rule field_pad)
      (simp add: sg_def sign_text_def)
  ultimately have pf: "put_field func sp str pt u = do {
      u \<leftarrow> (if sign sp = 45 \<and> fill sp = 48 then func (sign sp) u else Some u);
      u \<leftarrow> (if \<not> leftjust sp then put_all func pad u else Some u);
      u \<leftarrow> (if sign sp = 45 \<and> fill sp = 32 then func (sign sp) u else Some u);
      u \<leftarrow> put_str func str pt (length ts) 0 u;
      (if leftjust sp then put_all func pad u else Some u) }"
    unfolding put_field_def put_fill_all Let_def by (simp only: bind.bind_lunit nat_int)
  have one: "(if b then func c v else Some v) = put_all func (if b then [c] else []) v" for b c and v :: "bmem \<times> 'a"
    by (simp split: bind_split)
  have many: "(if b then put_all func xs v else Some v) = put_all func (if b then xs else []) v" for b xs and v :: "bmem \<times> 'a"
    by simp
  have sgs: "(if sign sp = 45 \<and> fill sp = 48 then [sign sp] else []) = (if z then sg else [])"
    "(if sign sp = 45 \<and> fill sp = 32 then [sign sp] else []) = (if z then [] else sg)"
    using sp(3) by (auto simp: sg_def sign_text_def z_def)
  from sk obtain v where v: "put_all func pre u = Some v" "sinks func A m ts v"
    unfolding lay sinks_append by auto
  have ps: "put_str func str pt (length ts) (int 0) v = put_all func ts v"
  proof (rule put_str_ok[OF _ v(2)])
    fix mm :: bmem and i assume "\<forall>a\<in>A. mm a = m a" "i < length ts"
    then show "str_at mm str pt (int (0 + i)) = Some (ts ! i)"
      using stable_take[OF st, of mm i] by (simp add: ts_def split: if_splits)
  qed
  have "put_field func sp str pt u = do {
      v \<leftarrow> put_all func pre u;
      u \<leftarrow> put_str func str pt (length ts) 0 v;
      put_all func (if leftjust sp then pad else []) u }"
    unfolding pf one many sgs pre_def put_all_append by (simp add: if_distrib cong: if_cong)
  then show ?thesis unfolding lay put_all_append v(1) using ps by (simp add: put_all_append)
qed

section \<open>The whole format\<close>

lemma doprnt_same:
  "doprnt_iter conv func x = doprnt_iter conv func y \<Longrightarrow> c_loop (doprnt_iter conv func) x = c_loop (doprnt_iter conv func) y"
  by (subst (1 2) c_loop.simps) simp

lemma fmt_echo_plain:
  "fst u q \<noteq> 37 \<Longrightarrow> fst u q \<noteq> 0 \<Longrightarrow> fmt_echo func (q, u) = Option.bind (func (fst u q) u) (\<lambda>u. fmt_echo func (q + 1, u))"
  unfolding fmt_echo_def by (subst c_loop.simps) (auto simp: Let_def split: bind_split)

lemma fmt_echo_end: "fst u q = 0 \<Longrightarrow> fmt_echo func (q, u) = Some (None, u)"
  unfolding fmt_echo_def by (subst c_loop_Inr) (auto simp: Let_def)

lemma fmt_echo_percent: "fst u q = 37 \<Longrightarrow> fmt_echo func (q, u) = Some (Some (q + 1), u)"
  unfolding fmt_echo_def by (subst c_loop_Inr) (auto simp: Let_def)

lemma doprnt_field:
  assumes str: "cstr m q (37 # spec_text left zero w p @ conv_char cv # rest)"
    and ag: "\<forall>x\<in>{q..q + int (length (37 # spec_text left zero w p @ conv_char cv # rest))}. fst u x = m x"
    and ok: "piece_ok m A (Fld left zero w p cv)" and len: "length loc = 20"
    and sk: "sinks func A m (piece_text (Fld left zero w p cv)) u"
  shows "\<exists>loc'. length loc' = 20 \<and> doprnt_iter fmt_convert func (q, conv_arg cv # ap, loc, u) =
    map_option (\<lambda>u. Inl (q + int (length (piece_format (Fld left zero w p cv))), ap, loc', u))
      (put_all func (piece_text (Fld left zero w p cv)) u)"
proof -
  let ?sp = "\<lparr>leftjust = left, fill = (if zero then 48 else 32), fmin = int w, fmax = int p, sign = 0\<rparr>"
  let ?e = "q + 1 + int (length (spec_text left zero w p))"
  have u: "cstr (fst u) q (37 # spec_text left zero w p @ conv_char cv # rest)"
    by (rule cstr_frame[OF str]) (use ag in auto)
  then have u1: "cstr (fst u) (q + 1) (spec_text left zero w p @ conv_char cv # rest)" by simp
  then have ue: "fst u ?e = conv_char cv" unfolding cstr_append by simp
  have f: "fmt_spec (fst u) (q + 1) (conv_arg cv # ap) = Some (?sp, ?e, conv_arg cv # ap)"
    using fmt_spec_ok[OF u1] ok by simp
  have n37: "fst u (q + 1) \<noteq> 37"
  proof
    assume a: "fst u (q + 1) = 37"
    obtain c cs where s: "spec_text left zero w p @ conv_char cv # rest = c # cs" by (cases "spec_text left zero w p") auto
    then have "c = 37" using u1 a by simp
    moreover have "c \<noteq> 37"
    proof -
      have "\<forall>d \<in> set (spec_text left zero w p). d \<noteq> 37"
        by (auto simp: spec_text_def dest!: width_text_ge split: if_splits)
      then show ?thesis using s conv_char_range(1)[of cv] by (cases "spec_text left zero w p") auto
    qed
    ultimately show False by simp
  qed
  obtain pt loc' where cv: "fmt_convert func (conv_char cv) ?sp loc (conv_arg cv # ap) u = Some (pt, loc', conv_spec cv ?sp, ap, u)"
    "length loc' = 20" "stable A m loc' pt (conv_text cv)"
    using fmt_convert_ok[OF ok len, of ?sp func ap u] by auto
  have lay: "piece_text (Fld left zero w p cv) = layout (leftjust (conv_spec cv ?sp)) (fill (conv_spec cv ?sp) = 48) w
      (if cuts cv then p else 0) (sign_text (conv_spec cv ?sp)) (conv_text cv)"
    by (cases cv) (simp_all add: conv_spec_def sign_text_def)
  have pf: "put_field func (conv_spec cv ?sp) loc' pt u = put_all func (piece_text (Fld left zero w p cv)) u"
    unfolding lay by (rule put_field_ok[OF cv(3)]) (use sk lay in \<open>auto simp: conv_spec_def\<close>)
  have c0: "conv_char cv \<noteq> 0" using conv_char_range(1)[of cv] by simp
  have "fst u q = 37" using u by simp
  then have "doprnt_iter fmt_convert func (q, conv_arg cv # ap, loc, u) =
      Option.bind (put_field func (conv_spec cv ?sp) loc' pt u) (\<lambda>u. Some (Inl (?e + 1, ap, loc', u)))"
    unfolding doprnt_iter_def by (simp add: fmt_echo_percent n37 f ue c0 cv(1) Let_def)
  moreover have "?e + 1 = q + int (length (piece_format (Fld left zero w p cv)))" by (simp add: spec_text_def)
  ultimately have "doprnt_iter fmt_convert func (q, conv_arg cv # ap, loc, u) =
    map_option (\<lambda>u. Inl (q + int (length (piece_format (Fld left zero w p cv))), ap, loc', u))
      (put_all func (piece_text (Fld left zero w p cv)) u)"
    unfolding pf by (simp add: map_conv_bind_option comp_def)
  then show ?thesis using cv(2) by blast
qed

lemma fdoprnt_loop:
  assumes "cstr m q (format_of ps)" "{q..q + int (length (format_of ps))} \<subseteq> A" "\<forall>x \<in> set ps. piece_ok m A x"
    and "length loc = 20" "sinks func A m (text_of ps) u"
  shows "c_loop (doprnt_iter fmt_convert func) (q, args_of ps, loc, u) = put_all func (text_of ps) u"
  using assms
proof (induction ps arbitrary: q loc u)
  case Nil
  then have "fst u q = 0" using sinks_agree[OF Nil.prems(5), of q] by (simp add: format_of_def)
  then show ?case by (subst c_loop_Inr) (auto simp: doprnt_iter_def fmt_echo_end text_of_def)
next
  case (Cons x ps)
  let ?q = "q + int (length (piece_format x))"
  have fm: "format_of (x # ps) = piece_format x @ format_of ps" by (simp add: format_of_def)
  have ar: "args_of (x # ps) = piece_args x @ args_of ps" by (simp add: args_of_def)
  have tx: "text_of (x # ps) = piece_text x @ text_of ps" by (simp add: text_of_def)
  have ag: "\<forall>y\<in>{q..q + int (length (format_of (x # ps)))}. fst u y = m y"
    using sinks_agree[OF Cons.prems(5)] Cons.prems(2) by blast
  have q: "cstr m ?q (format_of ps)" using Cons.prems(1) unfolding fm cstr_append by blast
  have A: "{?q..?q + int (length (format_of ps))} \<subseteq> A" using Cons.prems(2) unfolding fm by auto
  from Cons.prems(5) obtain v where v: "put_all func (piece_text x) u = Some v" "sinks func A m (text_of ps) v"
    "sinks func A m (piece_text x) u" unfolding tx sinks_append by auto
  have IH: "c_loop (doprnt_iter fmt_convert func) (?q, args_of ps, loc', v) = put_all func (text_of ps) v"
    if "length loc' = 20" for loc'
    by (rule Cons.IH[OF q A _ that v(2)]) (use Cons.prems(3) in simp)
  have goal: "put_all func (text_of (x # ps)) u = put_all func (text_of ps) v"
    unfolding tx put_all_append v(1) by simp
  show ?case
  proof (cases x)
    case (Plain c)
    then have c: "fst u q = c" "c \<noteq> 37" "c \<noteq> 0" using Cons.prems(1)[unfolded fm] Cons.prems(3) ag by auto
    have "func c u = Some v" using v(1) Plain by (simp split: bind_split_asm)
    then have "fmt_echo func (q, u) = fmt_echo func (q + 1, v)" using c by (simp add: fmt_echo_plain)
    then have "doprnt_iter fmt_convert func (q, args_of ps, loc, u) = doprnt_iter fmt_convert func (q + 1, args_of ps, loc, v)"
      by (simp add: doprnt_iter_def)
    from doprnt_same[OF this] show ?thesis using IH[OF Cons.prems(4)] goal Plain ar by simp
  next
    case Percent
    have c: "fst u q = 37" "fst u (q + 1) = 37" using Cons.prems(1)[unfolded fm] Percent ag[unfolded fm] by auto
    have "func 37 u = Some v" using v(1) Percent by (simp split: bind_split_asm)
    then have "doprnt_iter fmt_convert func (q, args_of ps, loc, u) = Some (Inl (q + 2, args_of ps, loc, v))"
      using c by (simp add: doprnt_iter_def fmt_echo_percent)
    from c_loop_Inl[where f = "doprnt_iter fmt_convert func", OF this]
    show ?thesis using IH[OF Cons.prems(4)] goal Percent ar by simp
  next
    case (Fld left zero w p cv)
    have "piece_format x @ format_of ps = 37 # spec_text left zero w p @ conv_char cv # format_of ps"
      by (simp add: Fld spec_text_def)
    note pf = fm[unfolded this]
    obtain loc' where l: "length loc' = 20" "doprnt_iter fmt_convert func (q, conv_arg cv # args_of ps, loc, u) =
        Some (Inl (?q, args_of ps, loc', v))"
      using doprnt_field[OF Cons.prems(1)[unfolded pf] ag[unfolded pf] _ Cons.prems(4), of A func "args_of ps"]
        Cons.prems(3) v(1,3) Fld by auto
    from c_loop_Inl[where f = "doprnt_iter fmt_convert func", OF l(2)]
    show ?thesis using IH[OF l(1)] goal Fld ar by simp
  qed
qed

section \<open>sprintf\<close>

lemma sprntf_sinks:
  "A \<inter> {s..<s + int (length T)} = {} \<Longrightarrow> (\<forall>a\<in>A. mm a = m a) \<Longrightarrow> sinks sprntf A m T (mm, s)"
proof (induction T arbitrary: mm s)
  case (Cons c T)
  have s: "A \<inter> {s + 1..<s + 1 + int (length T)} = {}" "s \<notin> A" using Cons.prems(1) by auto
  then have "sinks sprntf A m T (mm(s := u8 c), s + 1)" using Cons.prems(2) by (intro Cons.IH) auto
  moreover have "sprntf c (mm, s) = Some (mm(s := u8 c), s + 1)" by (simp add: sprntf_def)
  ultimately show ?case using Cons.prems(2) by auto
qed simp

lemma sprntf_all: "put_all sprntf T (m, s) = Some (put m s (map u8 T), s + int (length T))"
  by (induction T arbitrary: m s) (simp_all add: sprntf_def put_Cons)

lemma put_snoc: "(put m s T)(s + int (length T) := c) = put m s (T @ [c])"
  by (induction T arbitrary: m s) (simp_all add: put_Cons add.assoc[symmetric])

lemma sprintf_ok:
  assumes "cstr m fmt (format_of ps)" "{fmt..fmt + int (length (format_of ps))} \<subseteq> A" "\<forall>x \<in> set ps. piece_ok m A x"
    and "length loc = 20" "A \<inter> {str..<str + int (length (text_of ps))} = {}"
  shows "sprintf loc str fmt (args_of ps) m = Some (str, put m str (map u8 (text_of ps) @ [0]))"
proof -
  have "sinks sprntf A m (text_of ps) (m, str)" by (rule sprntf_sinks[OF assms(5)]) simp
  from fdoprnt_loop[OF assms(1-4) this] show ?thesis
    using put_snoc[of m str "map u8 (text_of ps)" 0] by (simp add: sprintf_def fdoprnt_def sprntf_all)
qed

lemma layout_right: "layout False zero w 0 sg cs =
  (let pad = replicate ((if w > 80 then 0 else w) - (length sg + length cs)) (if zero then 48 else 32)
   in if zero then sg @ pad @ cs else pad @ sg @ cs)"
  by (simp add: layout_def Let_def)

lemma horner_zeros: "horner b 0 (replicate k 0 @ ds) = horner b 0 ds"
  by (induction k) auto

lemma u8_text: "\<forall>d \<in> set ds. 0 \<le> d \<and> d < 10 \<Longrightarrow> map u8 (map (\<lambda>d. d + 48) ds) = map (\<lambda>d. d + 48) ds"
  by (induction ds) (auto simp: u8_id)

lemma radix_length_ge: "2 \<le> b \<Longrightarrow> b ^ k \<le> n \<Longrightarrow> k < length (radix b n)"
proof (induction k arbitrary: n)
  case (Suc k)
  have "b ^ k \<le> n div b" by (rule div_ge_bound) (use Suc.prems in auto)
  moreover have "b \<le> n"
  proof -
    have "b * 1 \<le> b * b ^ k" using Suc.prems(1) by (intro mult_left_mono) auto
    then show ?thesis using Suc.prems(2) by simp
  qed
  ultimately show ?case using Suc by (simp add: radix.simps[of b n])
qed (simp add: Suc_le_eq)

lemma fmt_spec_bare:
  assumes "cstr m q (conv_char cv # rest)"
  shows "fmt_spec m q ap = Some (\<lparr>leftjust = False, fill = 32, fmin = 0, fmax = 0, sign = 0\<rparr>, q, ap)"
  using fmt_spec_ok[of m q False False 0 0 cv rest ap] assms by (simp add: spec_text_def width_text_def)

lemma binary_overrun:
  assumes "cstr m fmt [37, 98]" "524288 \<le> u32 n" "length loc = 20"
  shows "fdoprnt func loc fmt [n] (m, out) = None"
proof -
  have c: "m fmt = 37" "m (fmt + 1) = 98" "m (2 + fmt) = 0" using assms(1) by (auto simp: add.commute)
  have "fmt_spec m (fmt + 1) [n] = Some (\<lparr>leftjust = False, fill = 32, fmin = 0, fmax = 0, sign = 0\<rparr>, fmt + 1, [n])"
  proof -
    have "fmt_number m (0, fmt + 1) = Some (0, fmt + 1)"
      unfolding fmt_number_def by (subst c_loop_Inr) (use c in auto)
    then show ?thesis using c by (simp add: fmt_spec_def fmt_width_def)
  qed
  moreover have "19 < length (radix 2 (u32 n))" by (rule radix_length_ge) (use assms(2) in auto)
  then have "str_put 0 (prtl2 (i32 n)) loc = None" using assms(3) by (simp add: str_put_def prtl2_ok u32_i32)
  ultimately have "doprnt_iter fmt_convert func (fmt, [n], loc, m, out) = None"
    using c by (simp add: doprnt_iter_def fmt_echo_percent fmt_convert_def va_arg_def)
  then show ?thesis unfolding fdoprnt_def by (rule c_loop_None)
qed

lemma smallest_long:
  assumes str: "cstr m fmt [37, 100]" and apart: "str + 12 \<le> fmt \<or> fmt + 2 < str" and loc: "length loc = 20"
  shows "sprintf loc str fmt [INT_MIN] m = Some (str, put m str [45, 46, 47, 44, 41, 44, 40, 45, 42, 44, 40, 0])"
proof -
  let ?ds = "[46, 47, 44, 41, 44, 40, 45, 42, 44, 40] :: int list"
  let ?A = "{fmt..fmt + 2}"
  let ?sp = "\<lparr>leftjust = False, fill = 32, fmin = 0, fmax = 0, sign = 45\<rparr>"
  have c: "m fmt = 37" "m (fmt + 1) = 100" "m (2 + fmt) = 0" using str by (auto simp: add.commute)
  have sp: "fmt_spec m (fmt + 1) [INT_MIN] = Some (\<lparr>leftjust = False, fill = 32, fmin = 0, fmax = 0, sign = 0\<rparr>, fmt + 1, [INT_MIN])"
    using fmt_spec_bare[of m "fmt + 1" "Dec 0" "[]"] c by (simp add: add.commute)
  have p: "prtl10 INT_MIN = ?ds @ [0]" by code_simp
  obtain loc' where l: "str_put 0 (?ds @ [0]) loc = Some loc'" "stable ?A m loc' Local ?ds"
    using str_put_ok[of ?ds loc ?A m] loc by auto
  have cv: "fmt_convert sprntf 100 \<lparr>leftjust = False, fill = 32, fmin = 0, fmax = 0, sign = 0\<rparr> loc [INT_MIN] (m, str) =
      Some (Local, loc', ?sp, [], m, str)"
  proof -
    have "i32 (-2147483648) = -2147483648" "i32 2147483648 = -2147483648" by (simp_all add: i32_def)
    then show ?thesis unfolding fmt_convert_def using l(1) p by (simp add: va_arg_def)
  qed
  have lay: "layout (leftjust ?sp) (fill ?sp = 48) 0 0 (sign_text ?sp) ?ds = 45 # ?ds"
    by (simp add: layout_def sign_text_def)
  have sk: "sinks sprntf ?A m (layout (leftjust ?sp) (fill ?sp = 48) 0 0 (sign_text ?sp) ?ds) (m, str)"
    unfolding lay by (rule sprntf_sinks) (use apart in auto)
  let ?m = "put m str (45 # ?ds)"
  have pf: "put_field sprntf ?sp loc' Local (m, str) = Some (?m, str + 11)"
  proof -
    have "put_field sprntf ?sp loc' Local (m, str) = put_all sprntf (45 # ?ds) (m, str)"
      using put_field_ok[OF l(2) _ _ _ sk] unfolding lay by simp
    then show ?thesis by (simp add: sprntf_all u8_def del: put_all.simps)
  qed
  have "doprnt_iter fmt_convert sprntf (fmt, [INT_MIN], loc, m, str) = Some (Inl (fmt + 2, [], loc', ?m, str + 11))"
    using c sp cv pf by (simp add: doprnt_iter_def fmt_echo_percent)
  moreover have "?m (fmt + 2) = 0" using c(3) apart by (subst put_out) (auto simp: add.commute)
  then have "doprnt_iter fmt_convert sprntf (fmt + 2, [], loc', ?m, str + 11) = Some (Inr (?m, str + 11))"
    by (simp add: doprnt_iter_def fmt_echo_end)
  ultimately have "fdoprnt sprntf loc fmt [INT_MIN] (m, str) = Some (?m, str + 11)"
    unfolding fdoprnt_def by (simp add: c_loop_Inl[where f = "doprnt_iter fmt_convert sprntf"] c_loop_Inr[where f = "doprnt_iter fmt_convert sprntf"])
  then show ?thesis using put_snoc[of m str "45 # ?ds" 0] by (simp add: sprintf_def)
qed

lemma digit_val_text: "\<forall>d \<in> set ds. 0 \<le> d \<and> d < 10 \<Longrightarrow> map digit_val (map (\<lambda>d. d + 48) ds) = map Some ds"
  by (induction ds) (auto simp: digit_val_def)

section \<open>Properties\<close>

text \<open>C19: _fdoprnt prints what its format says: for a format string that is the concatenation of
  plain characters, %% and fields (flags - and 0, a width, a precision and one of d, u, o, x, X, c,
  s), and the arguments the fields take in their order, the characters that go to the output function
  are the texts of the pieces, each number in its base without leading zeros, padded and cut as the
  field says. The output function must not overwrite the format or the strings while they are read,
  and a d must not be given the smallest long.\<close>

theorem fdoprnt_prints:
  assumes "cstr m fmt (format_of ps)" and "{fmt..fmt + int (length (format_of ps))} \<subseteq> A"
    and "\<forall>x \<in> set ps. piece_ok m A x" and "length loc = 20" and "sinks func A m (text_of ps) u"
  shows "fdoprnt func loc fmt (args_of ps) u = put_all func (text_of ps) u"
  unfolding fdoprnt_def by (rule fdoprnt_loop[OF assms])

theorem fdoprnt_prints_witness:
  "map_option (\<lambda>(m, s). map m [1000..1008]) (fdoprnt sprntf (replicate 20 7) 100 [-42, 500]
     (put (put (\<lambda>_. 0) 100 (format_of [Plain 97, Fld True False 4 0 (Dec (-42)), Fld False False 0 2 (Str 500 [120, 121, 122])]))
        500 [120, 121, 122], 1000)) = Some [97, 45, 52, 50, 32, 120, 121, 0, 0]"
proof -
  let ?ps = "[Plain 97, Fld True False 4 0 (Dec (-42)), Fld False False 0 2 (Str 500 [120, 121, 122])]"
  let ?m = "put (put (\<lambda>_. 0) 100 (format_of ?ps)) 500 [120, 121, 122] :: bmem"
  have f: "format_of ?ps = [97, 37, 45, 52, 100, 37, 46, 50, 115]" by code_simp
  have t: "text_of ?ps = [97, 45, 52, 50, 32, 120, 121]" by code_simp
  have a: "args_of ?ps = [-42, 500]" by code_simp
  let ?A = "{100..109} \<union> {500..503}"
  have c: "cstr ?m 100 (format_of ?ps)" unfolding f by (simp add: put_def)
  have ok: "\<forall>x \<in> set ?ps. piece_ok ?m ?A x" by (simp add: put_def i32_def f)
  have sk: "sinks sprntf ?A ?m (text_of ?ps) (?m, 1000)" by (rule sprntf_sinks) (auto simp: t)
  have "fdoprnt sprntf (replicate 20 7) 100 (args_of ?ps) (?m, 1000) = put_all sprntf (text_of ?ps) (?m, 1000)"
    by (rule fdoprnt_prints[OF c _ ok _ sk]) (auto simp: f)
  then show ?thesis unfolding a t sprntf_all f by (simp add: put_def upto_rec1 u8_def)
qed

text \<open>C20: a number printed by sprintf with %d, in any width, filled with blanks or zeros, is read
  back by strtol, which stops at the end of the string.\<close>

theorem sprintf_strtol:
  assumes n: "INT_MIN < n" "n \<le> INT_MAX" and w: "int w \<le> INT_MAX" and loc: "length loc = 20"
    and fmt: "cstr m fmt (format_of [Fld False zero w 0 (Dec n)])"
    and apart: "str + 100 \<le> fmt \<or> fmt + int (length (format_of [Fld False zero w 0 (Dec n)])) < str"
  shows "\<exists>m' len. sprintf loc str fmt [n] m = Some (str, m') \<and> strlen str m' = Some (int len) \<and> len \<le> 80 \<and>
    strtol m' str 10 = Some (n, str + int len)"
proof -
  let ?ps = "[Fld False zero w 0 (Dec n)]"
  let ?A = "{fmt..fmt + int (length (format_of ?ps))}"
  define ds where "ds = radix 10 \<bar>n\<bar>"
  define sg where "sg = (if n < 0 then [45] else [] :: int list)"
  define k where "k = (if w > 80 then 0 else w) - (length sg + length ds)"
  define ws where "ws = (if zero then [] else replicate k 32 :: int list)"
  define zs where "zs = (if zero then replicate k 0 else [] :: int list)"
  define T where "T = ws @ sg @ map (\<lambda>d. d + 48) (zs @ ds)"
  have i: "i32 n = n" using n by (simp add: i32_id)
  have d: "\<forall>d \<in> set ds. 0 \<le> d \<and> d < 10" unfolding ds_def by (rule radix_digits) auto
  have dz: "\<forall>d \<in> set (zs @ ds). 0 \<le> d \<and> d < 10" using d by (auto simp: zs_def)
  have "length ds \<le> Suc 9" unfolding ds_def by (rule radix_length) (use n in auto)
  then have len: "length T \<le> 80" by (auto simp: T_def ws_def zs_def k_def sg_def)
  have tx: "text_of ?ps = T"
    by (auto simp: text_of_def layout_right Let_def i T_def ws_def zs_def k_def sg_def ds_def num_text_def)
  have u8T: "map u8 T = T" using u8_text[OF dz] by (auto simp: T_def ws_def sg_def u8_def)
  have "args_of ?ps = [n]" by (simp add: args_of_def)
  moreover have "piece_ok m ?A (Fld False zero w 0 (Dec n))" using n w i by simp
  moreover have "?A \<inter> {str..<str + int (length (text_of ?ps))} = {}" using apart len tx by auto
  ultimately have sp: "sprintf loc str fmt [n] m = Some (str, put m str (T @ [0]))"
    using sprintf_ok[OF fmt, of ?A loc str] loc tx u8T by simp
  have small: "\<forall>d \<in> set (zs @ ds). 0 \<le> d + 48 \<and> d + 48 \<le> 127 \<and> d + 48 \<noteq> 0"
  proof
    fix d assume "d \<in> set (zs @ ds)"
    then have "0 \<le> d \<and> d < 10" using dz by blast
    then show "0 \<le> d + 48 \<and> d + 48 \<le> 127 \<and> d + 48 \<noteq> 0" by simp
  qed
  then have nz: "0 \<notin> set T" by (auto simp: T_def ws_def sg_def)
  let ?m = "put m str (T @ [0])"
  have cs: "cstr ?m str T" by (rule cstr_put[OF nz])
  then have "strlen str ?m = Some (int (length T))" using len by (intro strlen_ok) auto
  moreover have "strtol ?m str 10 = Some (clamp (sg = [45]) (horner 10 0 (zs @ ds)),
      str + int (length (ws @ sg @ map (\<lambda>d. d + 48) (zs @ ds))))"
  proof (rule strtol_ok[where rest = "[]"])
    show "cstr ?m str (ws @ sg @ map (\<lambda>d. d + 48) (zs @ ds) @ [])" using cs by (simp add: T_def)
    show "\<forall>c\<in>set (ws @ sg @ map (\<lambda>d. d + 48) (zs @ ds) @ []). 0 \<le> c \<and> c \<le> 127"
      using small by (auto simp: ws_def sg_def)
    show "map digit_val (map (\<lambda>d. d + 48) (zs @ ds)) = map Some (zs @ ds)" using dz by (rule digit_val_text)
    show "\<forall>d\<in>set (zs @ ds). d < 10" using dz by blast
  qed (auto simp: ws_def blank_def sg_def ds_def)
  moreover have "clamp (sg = [45]) (horner 10 0 (zs @ ds)) = n"
    using n by (auto simp: zs_def horner_zeros ds_def horner_radix clamp_def sg_def)
  moreover have "length T = length (ws @ sg @ map (\<lambda>d. d + 48) (zs @ ds))" by (simp add: T_def)
  ultimately show ?thesis using sp len by (intro exI[of _ ?m] exI[of _ "length T"]) simp
qed

theorem sprintf_strtol_witness:
  "\<exists>m' len. sprintf (replicate 20 0) 1000 100 [-42] (put (\<lambda>_. 0) 100 [37, 48, 55, 100]) = Some (1000, m') \<and>
     strtol m' 1000 10 = Some (-42, 1000 + int len)"
proof -
  have f: "format_of [Fld False True 7 0 (Dec (-42))] = [37, 48, 55, 100]" by code_simp
  have "cstr (put (\<lambda>_. 0) 100 [37, 48, 55, 100]) 100 (format_of [Fld False True 7 0 (Dec (-42))])"
    unfolding f by (simp add: put_def)
  from sprintf_strtol[OF _ _ _ _ this, of "replicate 20 0" 1000] show ?thesis by (auto simp: f)
qed

text \<open>Two conversions go wrong. %b writes past the end of the local array of 20 characters for
  every number of 20 binary digits or more, and %d prints the smallest long without its digits,
  since the negated number is negative again.\<close>

theorem print_limits:
  assumes "cstr m fmt [37, 98]" and "524288 \<le> u32 n" and "length loc = 20"
    and "cstr m' fmt' [37, 100]" and "str + 12 \<le> fmt' \<or> fmt' + 2 < str"
  shows "fdoprnt func loc fmt [n] (m, out) = None \<and>
    sprintf loc str fmt' [INT_MIN] m' = Some (str, put m' str [45, 46, 47, 44, 41, 44, 40, 45, 42, 44, 40, 0])"
  by (rule conjI[OF binary_overrun[OF assms(1-3)] smallest_long[OF assms(4,5,3)]])

theorem print_limits_witness:
  "fdoprnt sprntf (replicate 20 0) 100 [-1] (put (\<lambda>_. 0) 100 [37, 98], 200 :: int) = None \<and>
   sprintf (replicate 20 0) 300 100 [INT_MIN] (put (\<lambda>_. 0) 100 [37, 100]) =
     Some (300, put (put (\<lambda>_. 0) 100 [37, 100]) 300 [45, 46, 47, 44, 41, 44, 40, 45, 42, 44, 40, 0])"
proof -
  have "cstr (put (\<lambda>_. 0) 100 [37, 98]) 100 [37, 98]" "cstr (put (\<lambda>_. 0) 100 [37, 100]) 100 [37, 100]"
    by (simp_all add: put_def)
  from print_limits[OF this(1) _ _ this(2), of "-1" "replicate 20 0" 300 sprntf 200] show ?thesis
    by (simp add: u32_def)
qed

end
