(* ===== verification/Net_State.thy ===== *)
theory Net_State
  imports Buffer_Pools C_Strings
begin

text \<open>
  The state of the network stack (include/net.h, udp.h, icmp.h, arp.h, ip.h): the kernel state, the
  contents of the packet buffers, the tables of the protocols. A packet is named by the address of
  its buffer; the union of the UDP and ICMP parts of struct netpacket is one array of bytes, from
  which both read their fields in the byte order of the machine (ARM, little endian).
\<close>

section \<open>Byte order\<close>

definition htons :: "int \<Rightarrow> int" where
  "htons x = or (and 255 (drop_bit 8 x)) (push_bit 8 (and 255 x))"

definition htonl :: "int \<Rightarrow> int" where
  "htonl x = u32 (or (or (and (drop_bit 24 x) 255) (and (drop_bit 8 x) 65280))
                     (or (and (push_bit 8 x) 16711680) (and (push_bit 24 x) 4278190080)))"

definition ntohs :: "int \<Rightarrow> int" where
  "ntohs x = or (and 255 (drop_bit 8 x)) (push_bit 8 (and 255 x))"

definition ntohl :: "int \<Rightarrow> int" where
  "ntohl x = u32 (or (or (and (drop_bit 24 x) 255) (and (drop_bit 8 x) 65280))
                     (or (and (push_bit 8 x) 16711680) (and (push_bit 24 x) 4278190080)))"

section \<open>Packets\<close>

definition ETH_HDR_LEN :: int where "ETH_HDR_LEN = 14"
definition ETH_ARP :: int where "ETH_ARP = 2054"
definition ETH_IP :: int where "ETH_IP = 2048"
definition ETH_IPv6 :: int where "ETH_IPv6 = 34525"
definition IP_BCAST :: int where "IP_BCAST = 4294967295"
definition IP_ICMP :: int where "IP_ICMP = 1"
definition IP_UDP :: int where "IP_UDP = 17"
definition IP_HDR_LEN :: int where "IP_HDR_LEN = 20"
definition IP_OQSIZ :: int where "IP_OQSIZ = 8"

record netpacket =
  net_ethdst :: "int list"
  net_ethsrc :: "int list"
  net_ethtype :: int
  net_ipvh :: int
  net_iptos :: int
  net_iplen :: int
  net_ipid :: int
  net_ipfrag :: int
  net_ipttl :: int
  net_ipproto :: int
  net_ipcksum :: int
  net_ipsrc :: int
  net_ipdst :: int
  net_data :: "int \<Rightarrow> int"

text \<open>The bytes behind the IP header: 8 of the UDP or ICMP header and 1472 of payload. An access past
  them leaves the packet.\<close>

definition NET_DATA :: int where "NET_DATA = 1480"

definition get8 :: "int \<Rightarrow> netpacket \<Rightarrow> int option" where
  "get8 i p = (if 0 \<le> i \<and> i < NET_DATA then Some (net_data p i) else None)"

definition set8 :: "int \<Rightarrow> int \<Rightarrow> netpacket \<Rightarrow> netpacket option" where
  "set8 i v p = (if 0 \<le> i \<and> i < NET_DATA then Some (p\<lparr>net_data := (net_data p)(i := u8 v)\<rparr>) else None)"

definition get16 :: "int \<Rightarrow> netpacket \<Rightarrow> int" where
  "get16 i p = net_data p i + 256 * net_data p (i + 1)"

definition set16 :: "int \<Rightarrow> int \<Rightarrow> netpacket \<Rightarrow> netpacket" where
  "set16 i v p = p\<lparr>net_data := (net_data p)(i := u8 v, i + 1 := u8 (v div 256))\<rparr>"

definition net_udpsport :: "netpacket \<Rightarrow> int" where "net_udpsport = get16 0"
definition net_udpdport :: "netpacket \<Rightarrow> int" where "net_udpdport = get16 2"
definition net_udplen :: "netpacket \<Rightarrow> int" where "net_udplen = get16 4"
definition net_ictype :: "netpacket \<Rightarrow> int" where "net_ictype p = net_data p 0"
definition net_iccksum :: "netpacket \<Rightarrow> int" where "net_iccksum = get16 2"
definition net_icident :: "netpacket \<Rightarrow> int" where "net_icident = get16 4"
definition net_icseq :: "netpacket \<Rightarrow> int" where "net_icseq = get16 6"

record arppacket =
  arp_ethdst :: "int list"
  arp_ethsrc :: "int list"
  arp_ethtype :: int
  arp_htype :: int
  arp_ptype :: int
  arp_hlen :: int
  arp_plen :: int
  arp_op :: int
  arp_sndha :: "int list"
  arp_sndpa :: int
  arp_tarha :: "int list"
  arp_tarpa :: int

section \<open>Tables\<close>

record network =
  ipucast :: int
  ipbcast :: int
  ipmask :: int
  ipprefix :: int
  iprouter :: int
  ipvalid :: bool
  ethucast :: "int list"
  ethbcast :: "int list"

definition UDP_SLOTS :: int where "UDP_SLOTS = 6"
definition UDP_QSIZ :: int where "UDP_QSIZ = 8"
definition UDP_HDR_LEN :: int where "UDP_HDR_LEN = 8"

datatype udstate_t = UDP_FREE | UDP_USED | UDP_RECV

record udpentry =
  udstate :: udstate_t
  udremip :: int
  udremport :: int
  udlocport :: int
  udhead :: int
  udtail :: int
  udcount :: int
  udpid :: int
  udqueue :: "int \<Rightarrow> int"

definition ICMP_SLOTS :: int where "ICMP_SLOTS = 10"
definition ICMP_QSIZ :: int where "ICMP_QSIZ = 8"
definition ICMP_HDR_LEN :: int where "ICMP_HDR_LEN = 8"
definition ICMP_ECHOREPLY :: int where "ICMP_ECHOREPLY = 0"
definition ICMP_ECHOREQST :: int where "ICMP_ECHOREQST = 8"

datatype icstate_t = ICMP_FREE | ICMP_USED | ICMP_RECV

record icmpentry =
  icstate :: icstate_t
  icremip :: int
  ichead :: int
  ictail :: int
  iccount :: int
  icpid :: int
  icqueue :: "int \<Rightarrow> int"

definition ARP_SIZ :: int where "ARP_SIZ = 16"
definition ARP_RETRY :: nat where "ARP_RETRY = 3"
definition ARP_TIMEOUT :: int where "ARP_TIMEOUT = 300"
definition ARP_HTYPE :: int where "ARP_HTYPE = 1"
definition ARP_PTYPE :: int where "ARP_PTYPE = 2048"
definition ARP_OP_REQ :: int where "ARP_OP_REQ = 1"
definition ARP_OP_RPLY :: int where "ARP_OP_RPLY = 2"

datatype arstate_t = AR_FREE | AR_PENDING | AR_RESOLVED

record arpentry =
  arstate :: arstate_t
  arpaddr :: int
  arpid :: int
  arhaddr :: "int list"

record iqentry =
  iqhead :: int
  iqtail :: int
  iqsem :: int
  iqbuf :: "int \<Rightarrow> int"

text \<open>ubuf is the memory of the callers' buffers; the last three fields are the static IDENT counters
  of udp_send, udp_sendto and icmp_mkpkt.\<close>

record netst =
  kern :: kst
  NetData :: network
  netbufpool :: int
  pkts :: "int \<Rightarrow> netpacket"
  arppkts :: "int \<Rightarrow> arppacket"
  udptab :: "int \<Rightarrow> udpentry"
  icmptab :: "int \<Rightarrow> icmpentry"
  arpcache :: "int \<Rightarrow> arpentry"
  ipoqueue :: iqentry
  ubuf :: bmem
  udp_ident :: int
  udpto_ident :: int
  ipident :: int

definition upd_pkt :: "int \<Rightarrow> (netpacket \<Rightarrow> netpacket) \<Rightarrow> netst \<Rightarrow> netst" where
  "upd_pkt a f n = n\<lparr>pkts := (pkts n)(a := f (pkts n a))\<rparr>"

definition upd_udp :: "int \<Rightarrow> (udpentry \<Rightarrow> udpentry) \<Rightarrow> netst \<Rightarrow> netst" where
  "upd_udp i f n = n\<lparr>udptab := (udptab n)(i := f (udptab n i))\<rparr>"

definition upd_icmp :: "int \<Rightarrow> (icmpentry \<Rightarrow> icmpentry) \<Rightarrow> netst \<Rightarrow> netst" where
  "upd_icmp i f n = n\<lparr>icmptab := (icmptab n)(i := f (icmptab n i))\<rparr>"

definition upd_arp :: "int \<Rightarrow> (arpentry \<Rightarrow> arpentry) \<Rightarrow> netst \<Rightarrow> netst" where
  "upd_arp i f n = n\<lparr>arpcache := (arpcache n)(i := f (arpcache n i))\<rparr>"

section \<open>Kernel calls from the network stack\<close>

definition kcall_net :: "(kst \<Rightarrow> (int \<times> kst) option) \<Rightarrow> netst \<Rightarrow> (int \<times> netst) option" where
  "kcall_net f n = do { (r, s) \<leftarrow> f (kern n); Some (r, n\<lparr>kern := s\<rparr>) }"

definition kblock_net :: "(kst \<Rightarrow> (outcome \<times> kst) option) \<Rightarrow> netst \<Rightarrow> (outcome \<times> netst) option" where
  "kblock_net f n = do { (r, s) \<leftarrow> f (kern n); Some (r, n\<lparr>kern := s\<rparr>) }"

text \<open>What follows a call runs at once if the caller still runs, and otherwise when it is next
  chosen.\<close>

definition then_net :: "netst \<Rightarrow> (netst \<Rightarrow> (outcome \<times> netst) option) \<Rightarrow> netst \<Rightarrow> (outcome \<times> netst) option" where
  "then_net n rest t = (if currpid (kern t) = currpid (kern n) then rest t else Some (Blocked, t))"

definition free_pkt :: "int \<Rightarrow> netst \<Rightarrow> (int \<times> netst) option" where
  "free_pkt p = kcall_net (freebuf p)"

definition free_ret :: "int \<Rightarrow> int \<Rightarrow> netst \<Rightarrow> (outcome \<times> netst) option" where
  "free_ret p r n = do { (_, n) \<leftarrow> free_pkt p n; Some (Ret r, n) }"

text \<open>A frame handed to the Ethernet device. The driver is a parameter of the functions that send.\<close>

datatype frame = Ip_frame netpacket int | Arp_frame arppacket

type_synonym ethdev = "frame \<Rightarrow> netst \<Rightarrow> (outcome \<times> netst) option"

section \<open>Byte order, in numbers\<close>

lemma or_shift: "0 \<le> a \<Longrightarrow> a < 2 ^ k \<Longrightarrow> or a (push_bit k b) = a + push_bit k (b :: int)"
proof -
  assume a: "0 \<le> a" "a < 2 ^ k"
  then have t: "take_bit k a = a" by (simp add: take_bit_int_eq_self)
  have "a + push_bit k b = or a (push_bit k b)"
    by (rule disjunctive_add) (metis t bit_take_bit_iff bit_push_bit_iff linorder_not_le)
  then show ?thesis by simp
qed

lemma and_255: "and 255 x = x mod (256 :: int)" "and x 255 = x mod (256 :: int)"
proof -
  have "and (mask 8) x = take_bit 8 x" by (simp add: take_bit_eq_mask and.commute)
  then show "and 255 x = x mod 256" by (simp add: mask_eq_exp_minus_1 take_bit_eq_mod)
  then show "and x 255 = x mod 256" by (simp add: and.commute)
qed

lemma htons_num: "htons x = x div 256 mod 256 + 256 * (x mod 256)"
proof -
  have "htons x = or (x div 256 mod 256) (push_bit 8 (x mod 256))"
    by (simp add: htons_def and_255 drop_bit_eq_div)
  also have "\<dots> = x div 256 mod 256 + push_bit 8 (x mod 256)" by (rule or_shift) auto
  finally show ?thesis by (simp add: push_bit_eq_mult)
qed

lemma ntohs_htons [simp]: "ntohs = htons"
  by (simp add: fun_eq_iff ntohs_def htons_def)

lemma ntohl_htonl [simp]: "ntohl = htonl"
  by (simp add: fun_eq_iff ntohl_def htonl_def)

lemma htons_range: "0 \<le> htons x" "htons x < 65536"
proof -
  have "0 \<le> x div 256 mod 256" "x div 256 mod 256 < 256" "0 \<le> x mod 256" "x mod 256 < 256" by simp_all
  then show "0 \<le> htons x" "htons x < 65536" unfolding htons_num by linarith+
qed

lemma htons_htons: "0 \<le> x \<Longrightarrow> x < 65536 \<Longrightarrow> htons (htons x) = x"
proof -
  assume x: "0 \<le> x" "x < 65536"
  define a where "a = x mod 256"
  define b where "b = x div 256"
  have "x = a + 256 * b" by (simp add: a_def b_def)
  have ab: "0 \<le> a" "a < 256" "0 \<le> b" "b < 256"
    using x by (auto simp: a_def b_def pos_imp_zdiv_nonneg_iff)
  have h: "htons (c + 256 * d) = d + 256 * c" if "0 \<le> c" "c < 256" "0 \<le> d" "d < 256" for c d
    using that by (simp add: htons_num)
  show ?thesis using h[of a b] h[of b a] ab \<open>x = a + 256 * b\<close> by simp
qed

lemma and_shift: "and y (push_bit k 255) = push_bit k (drop_bit k y mod (256 :: int))"
proof -
  have "and y (push_bit k 255) = push_bit k (and (drop_bit k y) 255)"
    by (rule bit_eqI) (auto simp: bit_simps)
  then show ?thesis by (simp add: and_255)
qed

text \<open>An address as its four bytes.\<close>

definition quad :: "int \<Rightarrow> int \<Rightarrow> int \<Rightarrow> int \<Rightarrow> int" where
  "quad a b c d = d + 256 * c + 65536 * b + 16777216 * a"

lemma quad_bytes:
  assumes "0 \<le> x" "x < 4294967296"
  obtains a b c d where "x = quad a b c d" "0 \<le> a" "a < 256" "0 \<le> b" "b < 256" "0 \<le> c" "c < 256" "0 \<le> d" "d < 256"
proof
  show "x = quad (x div 16777216) (x div 65536 mod 256) (x div 256 mod 256) (x mod 256)"
  proof -
    have "x = 256 * (x div 256) + x mod 256" by simp
    moreover have "x div 256 = 256 * (x div 65536) + x div 256 mod 256"
      using div_mult_mod_eq[of "x div 256" 256] by (simp add: zdiv_zmult2_eq[symmetric])
    moreover have "x div 65536 = 256 * (x div 16777216) + x div 65536 mod 256"
      using div_mult_mod_eq[of "x div 65536" 256] by (simp add: zdiv_zmult2_eq[symmetric])
    ultimately show ?thesis unfolding quad_def by linarith
  qed
qed (use assms in \<open>auto simp: pos_imp_zdiv_nonneg_iff\<close>)

lemma htonl_num: "htonl x = quad (x mod 256) (x div 256 mod 256) (x div 65536 mod 256) (x div 16777216 mod 256)"
proof -
  let ?A = "x div 16777216 mod 256" and ?B = "x div 65536 mod 256" and ?C = "x div 256 mod 256" and ?D = "x mod 256"
  have r: "0 \<le> ?A" "?A < 256" "0 \<le> ?B" "?B < 256" "0 \<le> ?C" "?C < 256" "0 \<le> ?D" "?D < 256" by simp_all
  have A: "and (drop_bit 24 x) 255 = ?A" by (simp add: and_255 drop_bit_eq_div)
  have B: "and (drop_bit 8 x) 65280 = push_bit 8 ?B"
    using and_shift[of "drop_bit 8 x" 8] by (simp add: drop_bit_eq_div push_bit_eq_mult zdiv_zmult2_eq[symmetric])
  have C: "and (push_bit 8 x) 16711680 = push_bit 16 ?C"
    using and_shift[of "push_bit 8 x" 16] by (simp add: drop_bit_eq_div push_bit_eq_mult zdiv_zmult2_eq)
  have D: "and (push_bit 24 x) 4278190080 = push_bit 24 ?D"
    using and_shift[of "push_bit 24 x" 24] by (simp add: drop_bit_eq_div push_bit_eq_mult)
  have sum: "u32 (or (or a (push_bit 8 b)) (or (push_bit 16 c) (push_bit 24 d))) = quad d c b a"
    if r: "0 \<le> a" "a < 256" "0 \<le> b" "b < 256" "0 \<le> c" "c < 256" "0 \<le> d" "d < 256" for a b c d
  proof -
    have ab: "or a (push_bit 8 b) = a + 256 * b" using or_shift[of a 8 b] r by (simp add: push_bit_eq_mult)
    have cd: "or c (push_bit 8 d) = c + 256 * d" using or_shift[of c 8 d] r by (simp add: push_bit_eq_mult)
    have "or (push_bit 16 c) (push_bit 24 d) = push_bit 16 (c + 256 * d)"
      using push_bit_or[of 16 c "push_bit 8 d"] unfolding push_bit_push_bit cd by simp
    moreover have "or (a + 256 * b) (push_bit 16 (c + 256 * d)) = (a + 256 * b) + 65536 * (c + 256 * d)"
      using or_shift[of "a + 256 * b" 16 "c + 256 * d"] r by (simp add: push_bit_eq_mult)
    moreover have "(a + 256 * b) + 65536 * (c + 256 * d) = quad d c b a" by (simp add: quad_def)
    moreover have "0 \<le> quad d c b a" "quad d c b a < 4294967296" using r by (simp_all add: quad_def)
    ultimately show ?thesis unfolding ab by (simp add: u32_id)
  qed
  show ?thesis unfolding htonl_def A B C D by (rule sum) (rule r)+
qed

lemma htonl_quad:
  assumes "0 \<le> a" "a < 256" "0 \<le> b" "b < 256" "0 \<le> c" "c < 256" "0 \<le> d" "d < 256"
  shows "htonl (quad a b c d) = quad d c b a"
proof -
  have q: "quad w x y z mod 256 = z" "quad w x y z div 256 = quad 0 w x y" if "0 \<le> z" "z < 256" for w x y z
  proof -
    have "quad w x y z = z + quad 0 w x y * 256" by (simp add: quad_def)
    then show "quad w x y z mod 256 = z" "quad w x y z div 256 = quad 0 w x y" using that by simp_all
  qed
  have "quad 0 0 0 a = a" by (simp add: quad_def)
  moreover have "x div 65536 = x div 256 div 256" "x div 16777216 = x div 256 div 256 div 256" for x :: int
    by (simp_all add: zdiv_zmult2_eq[symmetric])
  ultimately show ?thesis using assms unfolding htonl_num by (simp add: q)
qed

lemma htonl_htonl: "0 \<le> x \<Longrightarrow> x < 4294967296 \<Longrightarrow> htonl (htonl x) = x"
  by (rule quad_bytes[of x]) (auto simp: htonl_quad)

lemma htonl_range: "0 \<le> htonl x" "htonl x < 4294967296"
  unfolding htonl_def by (rule u32_range)+

end
