(* ===== verification/Net_Packets.thy ===== *)
theory Net_Packets
  imports Net_State
begin

text \<open>
  Byte order conversion and checksums of packets (net/net.c, ip.c, udp.c, icmp.c, arp.c), and the
  parts of ip_out and ip_in that work on one packet: what ip_out puts on the wire, ip_in accepts
  and turns back into the packet.
\<close>

section \<open>Conversion\<close>

definition eth_hton :: "netpacket \<Rightarrow> netpacket" where
  "eth_hton p = p\<lparr>net_ethtype := htons (net_ethtype p)\<rparr>"

definition eth_ntoh :: "netpacket \<Rightarrow> netpacket" where
  "eth_ntoh p = p\<lparr>net_ethtype := ntohs (net_ethtype p)\<rparr>"

definition ip_ntoh :: "netpacket \<Rightarrow> netpacket" where
  "ip_ntoh p = p\<lparr>net_iplen := ntohs (net_iplen p), net_ipid := ntohs (net_ipid p),
     net_ipfrag := ntohs (net_ipfrag p), net_ipsrc := ntohl (net_ipsrc p), net_ipdst := ntohl (net_ipdst p)\<rparr>"

definition ip_hton :: "netpacket \<Rightarrow> netpacket" where
  "ip_hton p = p\<lparr>net_iplen := htons (net_iplen p), net_ipid := htons (net_ipid p),
     net_ipfrag := htons (net_ipfrag p), net_ipsrc := htonl (net_ipsrc p), net_ipdst := htonl (net_ipdst p)\<rparr>"

definition udp_ntoh :: "netpacket \<Rightarrow> netpacket" where
  "udp_ntoh p =
     (let p = set16 0 (ntohs (net_udpsport p)) p; p = set16 2 (ntohs (net_udpdport p)) p
      in set16 4 (ntohs (net_udplen p)) p)"

definition udp_hton :: "netpacket \<Rightarrow> netpacket" where
  "udp_hton p =
     (let p = set16 0 (htons (net_udpsport p)) p; p = set16 2 (htons (net_udpdport p)) p
      in set16 4 (htons (net_udplen p)) p)"

definition icmp_hton :: "netpacket \<Rightarrow> netpacket" where
  "icmp_hton p =
     (let p = set16 2 (htons (net_iccksum p)) p; p = set16 4 (htons (net_icident p)) p
      in set16 6 (htons (net_icseq p)) p)"

definition icmp_ntoh :: "netpacket \<Rightarrow> netpacket" where
  "icmp_ntoh p =
     (let p = set16 2 (ntohs (net_iccksum p)) p; p = set16 4 (ntohs (net_icident p)) p
      in set16 6 (ntohs (net_icseq p)) p)"

definition arp_ntoh :: "arppacket \<Rightarrow> arppacket" where
  "arp_ntoh p = p\<lparr>arp_htype := ntohs (arp_htype p), arp_ptype := ntohs (arp_ptype p), arp_op := ntohs (arp_op p),
     arp_sndpa := ntohl (arp_sndpa p), arp_tarpa := ntohl (arp_tarpa p)\<rparr>"

definition arp_hton :: "arppacket \<Rightarrow> arppacket" where
  "arp_hton p = p\<lparr>arp_htype := htons (arp_htype p), arp_ptype := htons (arp_ptype p), arp_op := htons (arp_op p),
     arp_sndpa := htonl (arp_sndpa p), arp_tarpa := htonl (arp_tarpa p)\<rparr>"

section \<open>Checksums\<close>

text \<open>The ten 16-bit words from net_ipvh on, as the machine reads them.\<close>

definition ip_words :: "netpacket \<Rightarrow> int list" where
  "ip_words p = [net_ipvh p + 256 * net_iptos p, net_iplen p, net_ipid p, net_ipfrag p,
     net_ipttl p + 256 * net_ipproto p, net_ipcksum p,
     net_ipsrc p mod 65536, net_ipsrc p div 65536, net_ipdst p mod 65536, net_ipdst p div 65536]"

definition ipcksum :: "netpacket \<Rightarrow> int" where
  "ipcksum p =
     (let cksum = foldl (\<lambda>cksum word. u32 (cksum + htons word)) 0 (ip_words p);
          cksum = u32 (cksum + drop_bit 16 cksum);
          cksum = and 65535 (not cksum);
          cksum = (if cksum = 65535 then 0 else cksum)
      in and 65535 cksum)"

text \<open>The message starts at net_ictype, byte 0 of the data.\<close>

primrec sum_words :: "nat \<Rightarrow> int \<Rightarrow> int \<Rightarrow> netpacket \<Rightarrow> int option" where
  "sum_words 0 i cksum p = Some cksum"
| "sum_words (Suc k) i cksum p = do {
     a \<leftarrow> get8 i p;
     b \<leftarrow> get8 (i + 1) p;
     sum_words k (i + 2) (u32 (cksum + ntohs (a + 256 * b))) p }"

definition icmp_cksum :: "int \<Rightarrow> netpacket \<Rightarrow> int option" where
  "icmp_cksum buflen p = do {
     let scount = nat (buflen div 2);
     cksum \<leftarrow> sum_words scount 0 0 p;
     cksum \<leftarrow> (if buflen mod 2 \<noteq> 0 then do {
               a \<leftarrow> get8 (2 * int scount) p;
               Some (u32 (cksum + push_bit 8 a)) }
             else Some cksum);
     let cksum = u32 (cksum + drop_bit 16 cksum);
     Some (and 65535 (not cksum)) }"

section \<open>One packet through ip_out and ip_in\<close>

text \<open>The packet that ip_out writes to the device.\<close>

definition ip_out_packet :: "netpacket \<Rightarrow> netpacket option" where
  "ip_out_packet p = do {
     p \<leftarrow> (if net_ipproto p = IP_UDP then Some (udp_hton (set16 6 0 p))
           else if net_ipproto p = IP_ICMP then do {
             let p = set16 2 0 (icmp_hton p);
             cksum \<leftarrow> icmp_cksum (net_iplen p - IP_HDR_LEN) p;
             Some (set16 2 (and 65535 (htons cksum)) p) }
           else Some p);
     let p = (ip_hton p)\<lparr>net_ipcksum := 0\<rparr>;
     let p = p\<lparr>net_ipcksum := and 65535 (htons (ipcksum p))\<rparr>;
     Some (eth_hton p) }"

text \<open>The tests and conversions of ip_in: the packet afterwards, and whether it is kept.\<close>

definition ip_in_packet :: "netpacket \<Rightarrow> (netpacket \<times> bool) option" where
  "ip_in_packet p =
     (if ipcksum p \<noteq> 0 then Some (p, False)
      else
        let p = ip_ntoh p in
        if net_ipvh p \<noteq> 69 then Some (p, False)
        else if net_ipproto p = IP_UDP then Some (udp_ntoh p, True)
        else if net_ipproto p = IP_ICMP then do {
          let icmplen = net_iplen p - IP_HDR_LEN;
          c \<leftarrow> icmp_cksum icmplen p;
          if c \<noteq> 0 then Some (p, False) else Some (icmp_ntoh p, True) }
        else Some (p, True))"

section \<open>Sums and their folding\<close>

definition fold16 :: "int \<Rightarrow> int" where
  "fold16 s = (s mod 65536 + s div 65536) mod 65536"

lemma and_65535: "and 65535 x = x mod (65536 :: int)"
proof -
  have "and (mask 16) x = take_bit 16 x" by (simp add: take_bit_eq_mask and.commute)
  then show ?thesis by (simp add: mask_eq_exp_minus_1 take_bit_eq_mod)
qed

lemma not_mod: "(- x - 1) mod 65536 = 65535 - x mod (65536 :: int)"
proof -
  have e: "- y - 1 = (65535 - r) + (- q - 1) * 65536" if "65536 * q + r = y" for y q r :: int using that by simp
  have "- x - 1 = (65535 - x mod 65536) + (- (x div 65536) - 1) * 65536" by (rule e) simp
  then have "(- x - 1) mod 65536 = (65535 - x mod 65536) mod 65536" by (simp only: mod_mult_self1)
  moreover have "0 \<le> x mod 65536" "x mod 65536 < 65536" by simp_all
  ultimately show ?thesis by simp
qed

lemma and_not: "and 65535 (not x) = 65535 - x mod (65536 :: int)"
  by (simp only: and_65535 not_eq_complement not_mod)

lemma fold_step:
  assumes "0 \<le> s" "s \<le> INT_MAX"
  shows "and 65535 (not (u32 (s + drop_bit 16 s))) = 65535 - fold16 s"
proof -
  have "0 \<le> s div 65536" using assms by (simp add: pos_imp_zdiv_nonneg_iff)
  moreover have "s div 65536 \<le> s" using calculation mult_div_mod_eq[of 65536 s] pos_mod_sign[of 65536 s] by linarith
  ultimately have "u32 (s + drop_bit 16 s) = s + s div 65536" using assms by (simp add: drop_bit_eq_div u32_id)
  moreover have "(s + s div 65536) mod 65536 = fold16 s" by (simp add: fold16_def mod_simps)
  ultimately show ?thesis by (simp only: and_not)
qed

lemma mod_div_sum:
  assumes "0 \<le> r" "r < 65536"
  shows "(r + q * 65536) mod 65536 = (r :: int)" "(r + q * 65536) div 65536 = q"
  using assms by simp_all

text \<open>A sum with one more word, the complement of the folded sum.\<close>

lemma fold_complement:
  assumes s: "0 \<le> s" and h: "s div 65536 < 32768"
  shows "fold16 (s + (65535 - fold16 s)) = (if s mod 65536 + s div 65536 < 65536 then 65535 else 0)"
proof -
  define l where "l = s mod 65536"
  define k where "k = s div 65536"
  have sl: "s = 65536 * k + l" by (simp add: l_def k_def)
  have l: "0 \<le> l" "l < 65536" by (simp_all add: l_def)
  have k: "0 \<le> k" "k < 32768" using s h by (simp_all add: k_def pos_imp_zdiv_nonneg_iff)
  define x where "x = s + (65535 - fold16 s)"
  have f: "fold16 x = (r + q) mod 65536" if "x = r + q * 65536" "0 \<le> r" "r < 65536" for r q
    unfolding fold16_def that(1) mod_div_sum[OF that(2,3)] ..
  show ?thesis
  proof (cases "l + k < 65536")
    case True
    then have "fold16 s = l + k" using l k by (simp add: fold16_def l_def k_def)
    then have "fold16 x = ((65535 - k) + k) mod 65536" using sl k by (intro f) (auto simp: x_def)
    then show ?thesis using True by (simp add: x_def l_def k_def)
  next
    case False
    have "(l + k) mod 65536 = (l + k - 65536) mod 65536" by (simp only: minus_mod_self2)
    also have "\<dots> = l + k - 65536" using False l k by (intro mod_pos_pos_trivial) auto
    finally have "fold16 s = l + k - 65536" by (simp add: fold16_def l_def k_def)
    then have "fold16 x = ((65535 - k) + (k + 1)) mod 65536" using sl k by (intro f) (auto simp: x_def)
    then show ?thesis using False by (simp add: x_def l_def k_def)
  qed
qed

section \<open>The IP header on the wire\<close>

definition ip_sum :: "netpacket \<Rightarrow> int" where
  "ip_sum p = sum_list (map htons (ip_words p))"

definition complement16 :: "int \<Rightarrow> int" where
  "complement16 s = (if fold16 s = 0 then 0 else 65535 - fold16 s)"

lemma sum_htons: "0 \<le> sum_list (map htons ws)" "sum_list (map htons ws) \<le> 65535 * int (length ws)"
proof (induction ws)
  case (Cons w ws)
  { case 1 then show ?case using Cons(1) htons_range(1)[of w] by simp }
  { case 2 then show ?case using Cons(2) htons_range(2)[of w] by (simp add: algebra_simps) }
qed simp_all

lemma foldl_htons:
  assumes "0 \<le> c" "c + 65535 * int (length ws) \<le> INT_MAX"
  shows "foldl (\<lambda>cksum word. u32 (cksum + htons word)) c ws = c + sum_list (map htons ws)"
  using assms
proof (induction ws arbitrary: c)
  case (Cons w ws)
  have h: "0 \<le> htons w" "htons w < 65536" by (rule htons_range)+
  then have "u32 (c + htons w) = c + htons w" using Cons.prems by (simp add: u32_id)
  then show ?case using Cons.IH[of "c + htons w"] Cons.prems h by simp
qed simp

lemma fold16_range: "0 \<le> fold16 s" "fold16 s < 65536"
  by (simp_all add: fold16_def)

lemma ip_sum_range: "0 \<le> ip_sum p" "ip_sum p \<le> 655350"
  using sum_htons[of "ip_words p"] by (simp_all add: ip_sum_def ip_words_def)

lemma ipcksum_sum: "ipcksum p = complement16 (ip_sum p)"
proof -
  have s: "foldl (\<lambda>cksum word. u32 (cksum + htons word)) 0 (ip_words p) = ip_sum p"
    unfolding ip_sum_def by (subst foldl_htons) (simp_all add: ip_words_def)
  have "0 \<le> ip_sum p" "ip_sum p \<le> INT_MAX" using ip_sum_range[of p] by simp_all
  note f = fold_step[OF this]
  show ?thesis unfolding ipcksum_def s Let_def f complement16_def using fold16_range[of "ip_sum p"]
    by (simp add: and_65535)
qed

lemma complement16_range: "0 \<le> complement16 s" "complement16 s < 65536"
  using fold16_range[of s] by (simp_all add: complement16_def)

lemma complement16_check:
  assumes "0 \<le> s" "s div 65536 < 32768"
  shows "complement16 (s + complement16 s) = 0"
proof (cases "fold16 s = 0")
  case True
  then show ?thesis by (simp add: complement16_def)
next
  case False
  then have "complement16 s = 65535 - fold16 s" by (simp add: complement16_def)
  then have "fold16 (s + complement16 s) = 65535 \<or> fold16 (s + complement16 s) = 0"
    using fold_complement[OF assms] by (simp split: if_splits)
  then show ?thesis by (auto simp: complement16_def)
qed

lemma ip_seal:
  assumes "net_ipcksum p = 0"
  shows "ipcksum (p\<lparr>net_ipcksum := and 65535 (htons (ipcksum p))\<rparr>) = 0"
proof -
  let ?c = "ipcksum p"
  have c: "0 \<le> ?c" "?c < 65536" using complement16_range unfolding ipcksum_sum by auto
  have h: "and 65535 (htons ?c) = htons ?c" using htons_range[of ?c] by (simp add: and_65535)
  have "htons 0 = 0" by (simp add: htons_num)
  then have "ip_sum (p\<lparr>net_ipcksum := htons ?c\<rparr>) = ip_sum p + ?c"
    using assms htons_htons[OF c] by (simp add: ip_sum_def ip_words_def)
  moreover have "ip_sum p div 65536 < 32768" using ip_sum_range(2)[of p] by (simp add: div_less_iff_less_mult)
  ultimately show ?thesis unfolding h using complement16_check[OF ip_sum_range(1)] by (simp add: ipcksum_sum)
qed

section \<open>The transport headers\<close>

definition swap16 :: "int \<Rightarrow> netpacket \<Rightarrow> netpacket" where
  "swap16 i p = p\<lparr>net_data := (net_data p)(i := net_data p (i + 1), i + 1 := net_data p i)\<rparr>"

definition bytes_ok :: "netpacket \<Rightarrow> bool" where
  "bytes_ok p \<longleftrightarrow> (\<forall>i. 0 \<le> net_data p i \<and> net_data p i < 256)"

lemma set16_swap: "bytes_ok p \<Longrightarrow> set16 i (htons (get16 i p)) p = swap16 i p"
proof -
  assume "bytes_ok p"
  then have r: "0 \<le> net_data p i" "net_data p i < 256" "0 \<le> net_data p (i + 1)" "net_data p (i + 1) < 256"
    by (auto simp: bytes_ok_def)
  then have "htons (get16 i p) = net_data p (i + 1) + 256 * net_data p i" by (simp add: htons_num get16_def)
  then show ?thesis using r by (simp add: set16_def swap16_def u8_def)
qed

lemma bytes_ok_swap [simp]: "bytes_ok p \<Longrightarrow> bytes_ok (swap16 i p)"
  by (simp add: bytes_ok_def swap16_def)

lemma bytes_ok_set16 [simp]: "bytes_ok p \<Longrightarrow> bytes_ok (set16 i v p)"
  by (auto simp: bytes_ok_def set16_def u8_def)

lemma udp_swap: "bytes_ok p \<Longrightarrow> udp_hton p = swap16 4 (swap16 2 (swap16 0 p))"
  "bytes_ok p \<Longrightarrow> udp_ntoh p = swap16 4 (swap16 2 (swap16 0 p))"
  by (simp_all add: udp_hton_def udp_ntoh_def Let_def net_udpsport_def net_udpdport_def net_udplen_def set16_swap)

lemma icmp_swap: "bytes_ok p \<Longrightarrow> icmp_hton p = swap16 6 (swap16 4 (swap16 2 p))"
  "bytes_ok p \<Longrightarrow> icmp_ntoh p = swap16 6 (swap16 4 (swap16 2 p))"
  by (simp_all add: icmp_hton_def icmp_ntoh_def Let_def net_iccksum_def net_icident_def net_icseq_def set16_swap)


lemma swap16_frame [simp]:
  "net_ethtype (swap16 i p) = net_ethtype p" "net_iplen (swap16 i p) = net_iplen p" "net_ipid (swap16 i p) = net_ipid p"
  "net_ipfrag (swap16 i p) = net_ipfrag p" "net_ipsrc (swap16 i p) = net_ipsrc p" "net_ipdst (swap16 i p) = net_ipdst p"
  "net_ipproto (swap16 i p) = net_ipproto p" "net_ipvh (swap16 i p) = net_ipvh p" "net_ipcksum (swap16 i p) = net_ipcksum p"
  by (simp_all add: swap16_def)

lemma set16_frame [simp]:
  "net_ethtype (set16 i v p) = net_ethtype p" "net_iplen (set16 i v p) = net_iplen p" "net_ipid (set16 i v p) = net_ipid p"
  "net_ipfrag (set16 i v p) = net_ipfrag p" "net_ipsrc (set16 i v p) = net_ipsrc p" "net_ipdst (set16 i v p) = net_ipdst p"
  "net_ipproto (set16 i v p) = net_ipproto p" "net_ipvh (set16 i v p) = net_ipvh p" "net_ipcksum (set16 i v p) = net_ipcksum p"
  by (simp_all add: set16_def)

lemma swap16_cksum: "swap16 i (p\<lparr>net_ipcksum := c\<rparr>) = (swap16 i p)\<lparr>net_ipcksum := c\<rparr>"
  by (simp add: swap16_def)

definition header_ok :: "netpacket \<Rightarrow> bool" where
  "header_ok p \<longleftrightarrow> 0 \<le> net_ethtype p \<and> net_ethtype p < 65536 \<and> 0 \<le> net_iplen p \<and> net_iplen p < 65536 \<and>
     0 \<le> net_ipid p \<and> net_ipid p < 65536 \<and> 0 \<le> net_ipfrag p \<and> net_ipfrag p < 65536 \<and>
     0 \<le> net_ipsrc p \<and> net_ipsrc p < 4294967296 \<and> 0 \<le> net_ipdst p \<and> net_ipdst p < 4294967296"

text \<open>The tail of ip_out, and what eth_ntoh and the head of ip_in make of its result.\<close>

definition ip_finish :: "netpacket \<Rightarrow> netpacket" where
  "ip_finish p = (let p = (ip_hton p)\<lparr>net_ipcksum := 0\<rparr> in eth_hton (p\<lparr>net_ipcksum := and 65535 (htons (ipcksum p))\<rparr>))"

lemma ip_finish_ok:
  assumes "header_ok p"
  shows "\<exists>c. ipcksum (eth_ntoh (ip_finish p)) = 0 \<and> ip_ntoh (eth_ntoh (ip_finish p)) = p\<lparr>net_ipcksum := c\<rparr>"
proof -
  define p2 where "p2 = (ip_hton p)\<lparr>net_ipcksum := 0\<rparr>"
  define c where "c = and 65535 (htons (ipcksum p2))"
  have "eth_ntoh (ip_finish p) = p2\<lparr>net_ipcksum := c\<rparr>"
    using assms by (simp add: ip_finish_def Let_def eth_hton_def eth_ntoh_def htons_htons header_ok_def p2_def c_def ip_hton_def)
  moreover have "ipcksum (p2\<lparr>net_ipcksum := c\<rparr>) = 0" unfolding c_def by (rule ip_seal) (simp add: p2_def)
  moreover have "ip_ntoh (p2\<lparr>net_ipcksum := c\<rparr>) = p\<lparr>net_ipcksum := c\<rparr>"
    using assms by (simp add: ip_ntoh_def p2_def ip_hton_def htons_htons htonl_htonl header_ok_def)
  ultimately show ?thesis by auto
qed

lemma udp_round: "bytes_ok p \<Longrightarrow> udp_ntoh ((udp_hton p)\<lparr>net_ipcksum := c\<rparr>) = p\<lparr>net_ipcksum := c\<rparr>"
proof -
  assume b: "bytes_ok p"
  have "bytes_ok ((udp_hton p)\<lparr>net_ipcksum := c\<rparr>)" using b by (simp add: udp_swap) (simp add: bytes_ok_def swap16_def)
  then show ?thesis using b by (simp add: udp_swap) (simp add: swap16_def fun_upd_twist fun_eq_iff)
qed


section \<open>The ICMP checksum\<close>

text \<open>The sum over a message of len bytes, in host order.\<close>

definition icmp_sum :: "int \<Rightarrow> netpacket \<Rightarrow> int" where
  "icmp_sum len p = (\<Sum>j<nat (len div 2). htons (get16 (2 * int j) p)) +
     (if len mod 2 \<noteq> 0 then 256 * net_data p (2 * int (nat (len div 2))) else 0)"

lemma sum_words_ok:
  assumes "0 \<le> i" "i + 2 * int k \<le> NET_DATA" "0 \<le> c" "c + 65535 * int k \<le> INT_MAX"
  shows "sum_words k i c p = Some (c + (\<Sum>j<k. htons (get16 (i + 2 * int j) p)))"
  using assms
proof (induction k arbitrary: i c)
  case (Suc k)
  have h: "0 \<le> htons (get16 i p)" "htons (get16 i p) < 65536" by (rule htons_range)+
  then have "u32 (c + htons (get16 i p)) = c + htons (get16 i p)" using Suc.prems by (simp add: u32_id)
  moreover have "get8 i p = Some (net_data p i)" "get8 (i + 1) p = Some (net_data p (i + 1))"
    using Suc.prems by (simp_all add: get8_def NET_DATA_def)
  moreover have "sum_words k (i + 2) (c + htons (get16 i p)) p =
      Some (c + htons (get16 i p) + (\<Sum>j<k. htons (get16 (i + 2 + 2 * int j) p)))"
    using Suc.prems h by (intro Suc.IH) auto
  moreover have "(\<Sum>j<Suc k. htons (get16 (i + 2 * int j) p)) =
      htons (get16 i p) + (\<Sum>j<k. htons (get16 (i + 2 + 2 * int j) p))"
    by (subst sum.lessThan_Suc_shift) (simp add: algebra_simps)
  ultimately show ?case by (simp add: get16_def)
qed simp

lemma icmp_sum_range:
  assumes "bytes_ok p" "0 \<le> len" "len \<le> NET_DATA"
  shows "0 \<le> icmp_sum len p" "icmp_sum len p \<le> 65535 * 741"
proof -
  have "0 \<le> (\<Sum>j<k. htons (get16 (2 * int j) p))" for k by (rule sum_nonneg) (use htons_range in auto)
  moreover have "(\<Sum>j<k. htons (get16 (2 * int j) p)) \<le> (\<Sum>j<k. 65535)" for k
    by (rule sum_mono) (use htons_range(2) in \<open>force simp: less_eq_iff_succ_less\<close>)
  ultimately have s: "0 \<le> (\<Sum>j<k. htons (get16 (2 * int j) p)) \<and> (\<Sum>j<k. htons (get16 (2 * int j) p)) \<le> 65535 * int k" for k
    by (simp add: mult.commute)
  have "int (nat (len div 2)) \<le> 740" using assms by (simp add: NET_DATA_def)
  moreover have "0 \<le> net_data p x \<and> net_data p x < 256" for x using assms(1) by (simp add: bytes_ok_def)
  ultimately show "0 \<le> icmp_sum len p" "icmp_sum len p \<le> 65535 * 741"
    using s[of "nat (len div 2)"] unfolding icmp_sum_def by (smt (verit))+
qed

lemma icmp_cksum_ok:
  assumes p: "bytes_ok p" and len: "0 \<le> len" "len \<le> NET_DATA"
  shows "icmp_cksum len p = Some (65535 - fold16 (icmp_sum len p))"
proof -
  let ?k = "nat (len div 2)"
  have k: "2 * int ?k \<le> len" using len by simp
  have s: "sum_words ?k 0 0 p = Some (\<Sum>j<?k. htons (get16 (2 * int j) p))"
    using sum_words_ok[of 0 ?k 0 p] k len by (simp add: NET_DATA_def)
  have r: "0 \<le> icmp_sum len p" "icmp_sum len p \<le> INT_MAX" using icmp_sum_range[OF assms] by simp_all
  have "(if len mod 2 \<noteq> 0 then do { a \<leftarrow> get8 (2 * int ?k) p; Some (u32 ((\<Sum>j<?k. htons (get16 (2 * int j) p)) + push_bit 8 a)) }
      else Some (\<Sum>j<?k. htons (get16 (2 * int j) p))) = Some (icmp_sum len p)"
  proof (cases "len mod 2 = 0")
    case True
    then show ?thesis by (simp add: icmp_sum_def)
  next
    case False
    then have "2 * (len div 2) < len" by presburger
    then have "2 * int ?k < len" using len by simp
    then show ?thesis using False len r by (simp add: get8_def icmp_sum_def push_bit_eq_mult u32_id)
  qed
  then show ?thesis unfolding icmp_cksum_def Let_def s bind.bind_lunit by (simp only: bind.bind_lunit fold_step[OF r])
qed

lemma get16_set16: "get16 i (set16 j v p) = (if i = j then u16 v else if i + 1 < j \<or> j + 1 < i then get16 i p else get16 i (set16 j v p))"
  by (auto simp: get16_def set16_def u8_def u16_def zmod_zmult2_eq[of 256 v 256, simplified])

text \<open>Storing a checksum in the zero field adds it to the sum.\<close>

lemma icmp_sum_store:
  assumes z: "get16 2 p = 0" and c: "0 \<le> c" "c < 65536" and len: "4 \<le> len"
  shows "icmp_sum len (set16 2 (htons c) p) = icmp_sum len p + c"
proof -
  let ?k = "nat (len div 2)" and ?q = "set16 2 (htons c) p"
  have k: "Suc 0 \<in> {..<?k}" using len by auto
  have g: "get16 (2 * int j) ?q = (if j = Suc 0 then htons c else get16 (2 * int j) p)" for j
  proof -
    have "2 * int j = 2 \<longleftrightarrow> j = Suc 0" by auto
    moreover have "2 * int j + 1 < 2 \<or> 2 + 1 < 2 * int j" if "j \<noteq> Suc 0" using that by presburger
    ultimately show ?thesis using htons_range[of c] by (subst get16_set16) (auto simp: u16_id)
  qed
  have "(\<Sum>j<?k. htons (get16 (2 * int j) ?q)) = htons (htons c) + (\<Sum>j\<in>{..<?k} - {Suc 0}. htons (get16 (2 * int j) ?q))"
    using sum.remove[OF finite_lessThan k, of "\<lambda>j. htons (get16 (2 * int j) ?q)"] g[of "Suc 0"] by simp
  moreover have "(\<Sum>j<?k. htons (get16 (2 * int j) p)) = htons 0 + (\<Sum>j\<in>{..<?k} - {Suc 0}. htons (get16 (2 * int j) p))"
    using sum.remove[OF finite_lessThan k, of "\<lambda>j. htons (get16 (2 * int j) p)"] z by simp
  moreover have "(\<Sum>j\<in>{..<?k} - {Suc 0}. htons (get16 (2 * int j) ?q)) = (\<Sum>j\<in>{..<?k} - {Suc 0}. htons (get16 (2 * int j) p))"
    by (rule sum.cong) (auto simp: g)
  moreover have "htons 0 = 0" by (simp add: htons_num)
  moreover have "net_data ?q (2 * int ?k) = net_data p (2 * int ?k)" using k by (simp add: set16_def)
  ultimately show ?thesis using htons_htons[OF c] by (simp add: icmp_sum_def)
qed


lemma get16_frame: "net_data q = net_data p \<Longrightarrow> get16 i q = get16 i p"
  by (simp add: get16_def)

lemma icmp_sum_frame: "net_data q = net_data p \<Longrightarrow> icmp_sum len q = icmp_sum len p"
proof -
  assume h: "net_data q = net_data p"
  then have "get16 i q = get16 i p" for i by (rule get16_frame)
  then show ?thesis by (simp add: icmp_sum_def h)
qed

lemma icmp_round:
  assumes b: "bytes_ok p" and c: "0 \<le> c" "c < 65536"
  shows "icmp_ntoh ((set16 2 (htons c) (set16 2 0 (icmp_hton p)))\<lparr>net_ipcksum := x\<rparr>) = (set16 2 c p)\<lparr>net_ipcksum := x\<rparr>"
proof -
  let ?q = "(set16 2 (htons c) (set16 2 0 (icmp_hton p)))\<lparr>net_ipcksum := x\<rparr>"
  have bq: "bytes_ok ?q" using b by (auto simp: icmp_swap bytes_ok_def swap16_def set16_def u8_def)
  have u: "u8 (htons c) = u8 (c div 256)" "u8 (htons c div 256) = u8 c"
    using c by (simp_all add: htons_num u8_def)
  show ?thesis unfolding icmp_swap(2)[OF bq]
    by (simp add: icmp_swap(1)[OF b]) (simp add: swap16_def set16_def u fun_eq_iff)
qed

section \<open>Property\<close>

text \<open>C91: a datagram survives the wire: what ip_out writes for a packet with fields in their ranges, the
  receiving ip_in, after eth_ntoh, turns back into the same packet, up to the checksum fields, and
  keeps. This holds for UDP and for other protocols without exception (ip_out and ip_in agree on the
  header checksum although both fold the carry only once); for ICMP it holds exactly when folding
  the sum of the message once leaves no second carry: otherwise the receiver drops the packet.\<close>

definition no_second_carry :: "int \<Rightarrow> bool" where
  "no_second_carry s \<longleftrightarrow> s mod 65536 + s div 65536 < 65536"

theorem ip_wire:
  assumes "header_ok p" "bytes_ok p" "net_ipvh p = 69"
    and "net_ipproto p = IP_ICMP \<Longrightarrow> 24 \<le> net_iplen p \<and> net_iplen p \<le> 1500"
  shows "\<exists>q r kept. ip_out_packet p = Some q \<and> ip_in_packet (eth_ntoh q) = Some (r, kept) \<and>
    (kept \<longleftrightarrow> (net_ipproto p = IP_ICMP \<longrightarrow> no_second_carry (icmp_sum (net_iplen p - 20) (set16 2 0 (icmp_hton p))))) \<and>
    (kept \<longrightarrow> (\<exists>x c. r = (if net_ipproto p = IP_UDP then set16 6 0 p
        else if net_ipproto p = IP_ICMP then set16 2 c p else p)\<lparr>net_ipcksum := x\<rparr>))"
proof -
  have fin: "(let p = (ip_hton q)\<lparr>net_ipcksum := 0\<rparr>; p = p\<lparr>net_ipcksum := and 65535 (htons (ipcksum p))\<rparr> in Some (eth_hton p)) =
      Some (ip_finish q)" for q by (simp add: ip_finish_def Let_def)
  show ?thesis
  proof (cases "net_ipproto p = IP_ICMP")
    case False
    define p1 where "p1 = (if net_ipproto p = IP_UDP then udp_hton (set16 6 0 p) else p)"
    have out: "ip_out_packet p = Some (ip_finish p1)"
      using False fin by (simp add: ip_out_packet_def p1_def)
    have b: "bytes_ok (set16 6 0 p)" using assms(2) by simp
    have h: "header_ok p1" "net_ipvh p1 = 69" "net_ipproto p1 = net_ipproto p"
      using assms(1,3) udp_swap(1)[OF b] by (simp_all add: p1_def header_ok_def)
    obtain x where x: "ipcksum (eth_ntoh (ip_finish p1)) = 0" "ip_ntoh (eth_ntoh (ip_finish p1)) = p1\<lparr>net_ipcksum := x\<rparr>"
      using ip_finish_ok[OF h(1)] by blast
    have "ip_in_packet (eth_ntoh (ip_finish p1)) =
        Some ((if net_ipproto p = IP_UDP then set16 6 0 p else p)\<lparr>net_ipcksum := x\<rparr>, True)"
      unfolding ip_in_packet_def Let_def x using h False udp_round[OF b, of x]
      by (simp add: p1_def)
    then show ?thesis using out False by auto
  next
    case True
    define p0 where "p0 = set16 2 0 (icmp_hton p)"
    define len where "len = net_iplen p - 20"
    have len: "4 \<le> len" "0 \<le> len" "len \<le> NET_DATA" using assms(4)[OF True] by (auto simp: len_def NET_DATA_def)
    have p0: "bytes_ok p0" "net_ipproto p0 = IP_ICMP" "net_ipvh p0 = 69" "net_iplen p0 = net_iplen p" "header_ok p0" "get16 2 p0 = 0"
      using assms(1-3) True by (simp_all add: p0_def icmp_swap header_ok_def) (simp add: get16_def set16_def u8_def)
    define s where "s = icmp_sum len p0"
    have s: "0 \<le> s" "s \<le> 65535 * 741" using icmp_sum_range[OF p0(1) len(2,3)] by (simp_all add: s_def)
    define c where "c = 65535 - fold16 s"
    have c: "0 \<le> c" "c < 65536" using fold16_range[of s] by (auto simp: c_def)
    have ck: "icmp_cksum (net_iplen p - IP_HDR_LEN) p0 = Some c"
      using icmp_cksum_ok[OF p0(1) len(2,3)] by (simp add: c_def s_def len_def IP_HDR_LEN_def)
    define p1 where "p1 = set16 2 (htons c) p0"
    have hc: "and 65535 (htons c) = htons c" using htons_range[of c] by (simp add: and_65535)
    have ne: "IP_ICMP \<noteq> IP_UDP" by (simp add: IP_ICMP_def IP_UDP_def)
    have out: "ip_out_packet p = Some (ip_finish p1)"
      using True ne ck p0(4) fin[of p1] by (simp add: ip_out_packet_def Let_def p0_def[symmetric] hc p1_def[symmetric])
    have p1: "header_ok p1" "net_ipvh p1 = 69" "net_ipproto p1 = IP_ICMP" "net_iplen p1 = net_iplen p" "bytes_ok p1"
      using p0 by (simp_all add: p1_def header_ok_def)
    obtain x where x: "ipcksum (eth_ntoh (ip_finish p1)) = 0" "ip_ntoh (eth_ntoh (ip_finish p1)) = p1\<lparr>net_ipcksum := x\<rparr>"
      using ip_finish_ok[OF p1(1)] by blast
    have "icmp_sum len (p1\<lparr>net_ipcksum := x\<rparr>) = icmp_sum len p1" by (rule icmp_sum_frame) simp
    also have "\<dots> = s + c" using icmp_sum_store[OF p0(6) c len(1)] by (simp add: p1_def s_def)
    finally have sum1: "icmp_sum len (p1\<lparr>net_ipcksum := x\<rparr>) = s + c" .
    have "bytes_ok (p1\<lparr>net_ipcksum := x\<rparr>)" using p1(5) by (simp add: bytes_ok_def)
    then have rc: "icmp_cksum (net_iplen p - IP_HDR_LEN) (p1\<lparr>net_ipcksum := x\<rparr>) = Some (65535 - fold16 (s + c))"
      using icmp_cksum_ok[of "p1\<lparr>net_ipcksum := x\<rparr>" len] len sum1 by (simp add: len_def IP_HDR_LEN_def)
    have "s div 65536 < 32768" using s by (simp add: div_less_iff_less_mult)
    then have f: "fold16 (s + c) = (if no_second_carry s then 65535 else 0)"
      using fold_complement[OF s(1)] by (simp add: c_def no_second_carry_def)
    have rnd: "icmp_ntoh (p1\<lparr>net_ipcksum := x\<rparr>) = (set16 2 c p)\<lparr>net_ipcksum := x\<rparr>"
      unfolding p1_def p0_def by (rule icmp_round[OF assms(2) c])
    have "ip_in_packet (eth_ntoh (ip_finish p1)) =
        (if no_second_carry s then Some ((set16 2 c p)\<lparr>net_ipcksum := x\<rparr>, True) else Some (p1\<lparr>net_ipcksum := x\<rparr>, False))"
      unfolding ip_in_packet_def Let_def x using p1 ne rc f rnd by simp
    then show ?thesis using out True ne by (auto simp: s_def len_def p0_def)
  qed
qed


text \<open>A ping whose identifier and sequence number add up to a second carry.\<close>

definition lost_ping :: netpacket where
  "lost_ping = \<lparr>net_ethdst = [1, 2, 3, 4, 5, 6], net_ethsrc = [6, 5, 4, 3, 2, 1], net_ethtype = 2048, net_ipvh = 69,
     net_iptos = 0, net_iplen = 28, net_ipid = 1, net_ipfrag = 0, net_ipttl = 255, net_ipproto = 1, net_ipcksum = 0,
     net_ipsrc = 167772161, net_ipdst = 167772162,
     net_data = (\<lambda>_. 0)(0 := 8, 4 := 255, 5 := 255, 6 := 0, 7 := 248)\<rparr>"

theorem ip_wire_witness:
  "\<exists>q r. ip_out_packet lost_ping = Some q \<and> ip_in_packet (eth_ntoh q) = Some (r, False)"
proof -
  have h: "header_ok lost_ping" "bytes_ok lost_ping" "net_ipvh lost_ping = 69" "net_ipproto lost_ping = IP_ICMP"
    "24 \<le> net_iplen lost_ping \<and> net_iplen lost_ping \<le> 1500"
    by (simp_all add: lost_ping_def header_ok_def bytes_ok_def IP_ICMP_def)
  have "icmp_sum (net_iplen lost_ping - 20) (set16 2 0 (icmp_hton lost_ping)) = 131071" by code_simp
  then have "\<not> no_second_carry (icmp_sum (net_iplen lost_ping - 20) (set16 2 0 (icmp_hton lost_ping)))"
    by (simp add: no_second_carry_def)
  with ip_wire[OF h(1-3) h(5)] h(4) show ?thesis by auto
qed

end
