(* ===== verification/Ring_Buffer.thy ===== *)
theory Ring_Buffer
  imports Xinu_Prelude
begin

text \<open>
  Bounded first-in first-out queues. The locale states what a client expects of one, a session is any
  sequence of insertions and removals, and a circular buffer (an array, the index of the oldest
  element and the number of elements) provides it.
\<close>

section \<open>The contract\<close>

datatype 'a queue_op = Put_op 'a | Get_op

text \<open>What a session does to a list: None when it puts into a full queue or takes from an empty one.\<close>

fun list_session :: "nat \<Rightarrow> 'a queue_op list \<Rightarrow> 'a list \<Rightarrow> ('a list \<times> 'a list) option" where
  "list_session cap [] xs = Some ([], xs)"
| "list_session cap (Put_op x # ops) xs = (if length xs < cap then list_session cap ops (xs @ [x]) else None)"
| "list_session cap (Get_op # ops) [] = None"
| "list_session cap (Get_op # ops) (x # xs) = map_option (\<lambda>(out, ys). (x # out, ys)) (list_session cap ops xs)"

fun session :: "('a \<Rightarrow> 's \<Rightarrow> 's option) \<Rightarrow> ('s \<Rightarrow> ('a \<times> 's) option) \<Rightarrow> 'a queue_op list \<Rightarrow> 's \<Rightarrow> ('a list \<times> 's) option" where
  "session enq deq [] s = Some ([], s)"
| "session enq deq (Put_op x # ops) s = do { s \<leftarrow> enq x s; session enq deq ops s }"
| "session enq deq (Get_op # ops) s = do { (x, s) \<leftarrow> deq s; (out, s) \<leftarrow> session enq deq ops s; Some (x # out, s) }"

locale fifo =
  fixes good :: "'s \<Rightarrow> bool" and items :: "'s \<Rightarrow> 'a list" and cap :: nat
    and enq :: "'a \<Rightarrow> 's \<Rightarrow> 's option" and deq :: "'s \<Rightarrow> ('a \<times> 's) option"
  assumes enq_ok: "good s \<Longrightarrow> length (items s) < cap \<Longrightarrow> \<exists>t. enq x s = Some t \<and> good t \<and> items t = items s @ [x]"
    and deq_ok: "good s \<Longrightarrow> items s = x # xs \<Longrightarrow> \<exists>t. deq s = Some (x, t) \<and> good t \<and> items t = xs"
begin

lemma session_ok:
  "good s \<Longrightarrow> list_session cap ops (items s) = Some (out, ys) \<Longrightarrow>
     \<exists>t. session enq deq ops s = Some (out, t) \<and> good t \<and> items t = ys"
proof (induction ops arbitrary: s out)
  case (Cons op ops)
  show ?case
  proof (cases op)
    case (Put_op x)
    then have l: "length (items s) < cap" "list_session cap ops (items s @ [x]) = Some (out, ys)"
      using Cons.prems(2) by (simp_all split: if_splits)
    obtain t where "enq x s = Some t" "good t" "items t = items s @ [x]" using enq_ok[OF Cons.prems(1) l(1)] by blast
    then show ?thesis using Cons.IH[of t out] l(2) Put_op by simp
  next
    case Get_op
    then obtain x xs out' where x: "items s = x # xs" "list_session cap ops xs = Some (out', ys)" "out = x # out'"
      using Cons.prems(2) by (cases "items s") auto
    obtain t where "deq s = Some (x, t)" "good t" "items t = xs" using deq_ok[OF Cons.prems(1) x(1)] by blast
    then show ?thesis using Cons.IH[of t out'] x Get_op by auto
  qed
qed simp

end

section \<open>Circular buffers\<close>

text \<open>The elements of a circular buffer of the given size, oldest first.\<close>

definition ring_items :: "int \<Rightarrow> (int \<Rightarrow> 'a) \<Rightarrow> int \<Rightarrow> int \<Rightarrow> 'a list" where
  "ring_items sz buf head count = map (\<lambda>i. buf ((head + int i) mod sz)) [0..<nat count]"

definition ring_ok :: "int \<Rightarrow> int \<Rightarrow> int \<Rightarrow> int \<Rightarrow> bool" where
  "ring_ok sz head tail count \<longleftrightarrow>
     0 \<le> head \<and> head < sz \<and> 0 \<le> count \<and> count \<le> sz \<and> tail = (head + count) mod sz"

lemma ring_length [simp]: "length (ring_items sz buf head count) = nat count"
  by (simp add: ring_items_def)

lemma ring_tail_range: "ring_ok sz head tail count \<Longrightarrow> 0 \<le> tail \<and> tail < sz"
  by (auto simp: ring_ok_def)

lemma ring_wrap: "0 \<le> x \<Longrightarrow> x < sz \<Longrightarrow> (if x + 1 \<ge> sz then 0 else x + 1) = (x + 1) mod (sz :: int)"
proof -
  assume x: "0 \<le> x" "x < sz"
  show ?thesis
  proof (cases "x + 1 < sz")
    case True
    then show ?thesis using x by simp
  next
    case False
    then have "x + 1 = sz" using x by simp
    then show ?thesis by simp
  qed
qed

lemma ring_mod_less:
  assumes "0 \<le> a" "a < b" "b < sz" shows "(head + a) mod sz \<noteq> (head + b) mod (sz :: int)"
proof
  assume "(head + a) mod sz = (head + b) mod sz"
  then have "sz dvd (head + b) - (head + a)" by (metis mod_eq_dvd_iff)
  moreover have "0 < (head + b) - (head + a)" "(head + b) - (head + a) < sz" using assms by simp_all
  ultimately show False using zdvd_imp_le by fastforce
qed

lemma ring_put:
  assumes "ring_ok sz head tail count" "count < sz"
  shows "ring_items sz (buf(tail := x)) head (count + 1) = ring_items sz buf head count @ [x]"
    "ring_ok sz head (if tail + 1 \<ge> sz then 0 else tail + 1) (count + 1)"
proof -
  have t: "tail = (head + count) mod sz" "0 \<le> count" "0 \<le> tail" "tail < sz"
    using assms(1) ring_tail_range[OF assms(1)] by (auto simp: ring_ok_def)
  define f where "f = buf(tail := x)"
  have old: "f ((head + int i) mod sz) = buf ((head + int i) mod sz)" if "i < nat count" for i
    using ring_mod_less[of "int i" count sz head] that t assms(2) by (auto simp: f_def)
  have new: "f ((head + count) mod sz) = x" using t(1) by (simp add: f_def)
  have n: "nat (count + 1) = Suc (nat count)" using t(2) by simp
  have "ring_items sz f head (count + 1) = ring_items sz buf head count @ [x]"
    unfolding ring_items_def n by (simp add: old new t(2))
  then show "ring_items sz (buf(tail := x)) head (count + 1) = ring_items sz buf head count @ [x]"
    by (simp only: f_def)
  show "ring_ok sz head (if tail + 1 \<ge> sz then 0 else tail + 1) (count + 1)"
    unfolding ring_wrap[OF t(3,4)] using assms t(1) by (simp add: ring_ok_def mod_simps algebra_simps)
qed

lemma ring_get:
  assumes "ring_ok sz head tail count" "0 < count"
  shows "ring_items sz buf head count = buf head # ring_items sz buf (if head + 1 \<ge> sz then 0 else head + 1) (count - 1)"
    "ring_ok sz (if head + 1 \<ge> sz then 0 else head + 1) tail (count - 1)"
proof -
  have h: "0 \<le> head" "head < sz" "tail = (head + count) mod sz" using assms(1) by (auto simp: ring_ok_def)
  have n: "nat count = Suc (nat (count - 1))" using assms(2) by simp
  have "((head + 1) mod sz + int i) mod sz = (head + int (Suc i)) mod sz" for i
    by (simp add: mod_simps algebra_simps)
  then show "ring_items sz buf head count = buf head # ring_items sz buf (if head + 1 \<ge> sz then 0 else head + 1) (count - 1)"
    unfolding ring_wrap[OF h(1,2)] ring_items_def n using h(1,2)
    by (simp add: upt_conv_Cons map_Suc_upt[symmetric] del: upt_Suc)
  show "ring_ok sz (if head + 1 \<ge> sz then 0 else head + 1) tail (count - 1)"
    unfolding ring_wrap[OF h(1,2)] using assms h by (simp add: ring_ok_def mod_simps)
qed

lemma ring_empty: "0 < sz \<Longrightarrow> ring_ok sz 0 0 0"
  by (simp add: ring_ok_def)

end
