(* ===== verification/Net_Udp.thy ===== *)
theory Net_Udp
  imports Net_Packets Ring_Buffer
begin

text \<open>
  The UDP endpoint table (net/udp.c: udp_init, udp_in, udp_register, udp_recv, udp_recvaddr,
  udp_release) and the IP output queue (ip_enqueue of net/ip.c). An endpoint holds a circular queue of
  packets; an index outside it is a fault. Where a receiver waits for a packet, the rest of the call
  runs when it is next scheduled.
\<close>

section \<open>The circular queue of an endpoint\<close>

definition udp_put :: "int \<Rightarrow> udpentry \<Rightarrow> udpentry option" where
  "udp_put p e =
     (if 0 \<le> udtail e \<and> udtail e < UDP_QSIZ
      then Some (e\<lparr>udcount := udcount e + 1, udqueue := (udqueue e)(udtail e := p),
        udtail := (if udtail e + 1 \<ge> UDP_QSIZ then 0 else udtail e + 1)\<rparr>)
      else None)"

definition udp_get :: "udpentry \<Rightarrow> (int \<times> udpentry) option" where
  "udp_get e =
     (if 0 \<le> udhead e \<and> udhead e < UDP_QSIZ
      then Some (udqueue e (udhead e), e\<lparr>udhead := (if udhead e + 1 \<ge> UDP_QSIZ then 0 else udhead e + 1),
        udcount := udcount e - 1\<rparr>)
      else None)"

definition set_udp :: "int \<Rightarrow> udpentry \<Rightarrow> netst \<Rightarrow> netst" where
  "set_udp i e = upd_udp i (\<lambda>_. e)"

section \<open>Operations\<close>

definition udp_init :: "netst \<Rightarrow> netst" where
  "udp_init n = fold (\<lambda>i. upd_udp i (\<lambda>e. e\<lparr>udstate := UDP_FREE\<rparr>)) [0..UDP_SLOTS - 1] n"

definition udp_match :: "udpentry \<Rightarrow> netpacket \<Rightarrow> bool" where
  "udp_match e p \<longleftrightarrow> net_udpdport p = udlocport e \<and> (udremport e = 0 \<or> net_udpsport p = udremport e) \<and>
     (udremip e = 0 \<or> net_ipsrc p = udremip e)"

definition udp_in_iter :: "int \<Rightarrow> netst \<Rightarrow> int \<Rightarrow> (int + outcome \<times> netst) option" where
  "udp_in_iter p n i =
     (if i < UDP_SLOTS then
        let e = udptab n i in
        if udstate e \<noteq> UDP_FREE \<and> udp_match e (pkts n p) \<and> udcount e < UDP_QSIZ then do {
          e \<leftarrow> udp_put p e;
          if udstate e = UDP_RECV then do {
            (_, n) \<leftarrow> kcall_net (send (udpid e) OK) (set_udp i (e\<lparr>udstate := UDP_USED\<rparr>) n);
            Some (Inr (Ret OK, n)) }
          else Some (Inr (Ret OK, set_udp i e n)) }
        else Some (Inl (i + 1))
      else do { r \<leftarrow> free_ret p OK n; Some (Inr r) })"

definition udp_in :: "int \<Rightarrow> netst \<Rightarrow> (outcome \<times> netst) option" where
  "udp_in p n = c_loop (udp_in_iter p n) 0"

definition udp_same :: "int \<Rightarrow> int \<Rightarrow> int \<Rightarrow> udpentry \<Rightarrow> bool" where
  "udp_same remip remport locport e \<longleftrightarrow> remport = udremport e \<and> locport = udlocport e \<and> remip = udremip e"

definition udp_register :: "int \<Rightarrow> int \<Rightarrow> int \<Rightarrow> netst \<Rightarrow> int \<times> netst" where
  "udp_register remip remport locport n =
     (if \<exists>slot \<in> set [0..UDP_SLOTS - 1]. udstate (udptab n slot) \<noteq> UDP_FREE \<and> udp_same remip remport locport (udptab n slot)
      then (SYSERR, n)
      else
        case find (\<lambda>slot. udstate (udptab n slot) = UDP_FREE) [0..UDP_SLOTS - 1] of
          None \<Rightarrow> (SYSERR, n)
        | Some slot \<Rightarrow> (slot, upd_udp slot (\<lambda>e. e\<lparr>udlocport := locport, udremport := remport, udremip := remip,
            udcount := 0, udtail := 0, udhead := 0, udpid := -1, udstate := UDP_USED\<rparr>) n))"

text \<open>Copying the payload, which starts at byte 8 of the data, to the caller's buffer.\<close>

primrec udp_copy :: "nat \<Rightarrow> int \<Rightarrow> int \<Rightarrow> netpacket \<Rightarrow> bmem \<Rightarrow> bmem option" where
  "udp_copy 0 i buff pkt m = Some m"
| "udp_copy (Suc k) i buff pkt m = do {
     c \<leftarrow> get8 (8 + i) pkt;
     udp_copy k (i + 1) buff pkt (m(buff + i := c)) }"

definition udp_copy_out :: "int \<Rightarrow> int \<Rightarrow> int \<Rightarrow> netst \<Rightarrow> (outcome \<times> netst) option" where
  "udp_copy_out p buff len n = do {
     let msglen = net_udplen (pkts n p) - UDP_HDR_LEN;
     let msglen = (if len < msglen then len else msglen);
     m \<leftarrow> udp_copy (nat msglen) 0 buff (pkts n p) (ubuf n);
     free_ret p msglen (n\<lparr>ubuf := m\<rparr>) }"

definition udp_take :: "int \<Rightarrow> int \<Rightarrow> int \<Rightarrow> netst \<Rightarrow> (outcome \<times> netst) option" where
  "udp_take slot buff len n = do {
     (p, e) \<leftarrow> udp_get (udptab n slot);
     udp_copy_out p buff len (set_udp slot e n) }"

text \<open>Both calls wait in the same way; what differs is how the packet is taken.\<close>

definition udp_woken :: "int \<Rightarrow> (netst \<Rightarrow> (outcome \<times> netst) option) \<Rightarrow> int \<Rightarrow> netst \<Rightarrow> (outcome \<times> netst) option" where
  "udp_woken slot get msg n =
     (let n = upd_udp slot (\<lambda>e. e\<lparr>udstate := UDP_USED\<rparr>) n in
      if msg = u32 TIMEOUT then Some (Ret TIMEOUT, n)
      else if msg \<noteq> OK then Some (Ret SYSERR, n)
      else get n)"

definition udp_wait :: "int \<Rightarrow> (netst \<Rightarrow> (outcome \<times> netst) option) \<Rightarrow> int \<Rightarrow> netst \<Rightarrow> (outcome \<times> netst) option" where
  "udp_wait slot get timeout n =
     (if slot < 0 \<or> slot \<ge> UDP_SLOTS then Some (Ret SYSERR, n)
      else if udstate (udptab n slot) \<noteq> UDP_USED then Some (Ret SYSERR, n)
      else if udcount (udptab n slot) = 0 then do {
        let n = upd_udp slot (\<lambda>e. e\<lparr>udstate := UDP_RECV, udpid := currpid (kern n)\<rparr>) n;
        (_, n) \<leftarrow> kcall_net recvclr n;
        (r, n) \<leftarrow> kblock_net (recvtime (i32 timeout)) n;
        case r of Blocked \<Rightarrow> Some (Blocked, n) | Ret msg \<Rightarrow> udp_woken slot get msg n }
      else get n)"

definition udp_recv :: "int \<Rightarrow> int \<Rightarrow> int \<Rightarrow> int \<Rightarrow> netst \<Rightarrow> (outcome \<times> netst) option" where
  "udp_recv slot buff len timeout n = udp_wait slot (udp_take slot buff len) timeout n"

definition udp_recv_rest :: "int \<Rightarrow> int \<Rightarrow> int \<Rightarrow> netst \<Rightarrow> (outcome \<times> netst) option" where
  "udp_recv_rest slot buff len n = (case recvtime_rest (kern n) of (msg, s) \<Rightarrow>
     udp_woken slot (udp_take slot buff len) msg (n\<lparr>kern := s\<rparr>))"

definition udp_take_addr :: "int \<Rightarrow> int \<Rightarrow> int \<Rightarrow> int \<Rightarrow> int \<Rightarrow> netst \<Rightarrow> (outcome \<times> netst) option" where
  "udp_take_addr slot remip remport buff len n = do {
     (p, e) \<leftarrow> udp_get (udptab n slot);
     let n = set_udp slot e n;
     let a = net_ipsrc (pkts n p);
     let m = put (ubuf n) remip [u8 a, u8 (a div 256), u8 (a div 65536), u8 (a div 16777216)];
     let q = net_udpsport (pkts n p);
     let m = put m remport [u8 q, u8 (q div 256)];
     udp_copy_out p buff len (n\<lparr>ubuf := m\<rparr>) }"

definition udp_recvaddr :: "int \<Rightarrow> int \<Rightarrow> int \<Rightarrow> int \<Rightarrow> int \<Rightarrow> int \<Rightarrow> netst \<Rightarrow> (outcome \<times> netst) option" where
  "udp_recvaddr slot remip remport buff len timeout n =
     udp_wait slot (udp_take_addr slot remip remport buff len) timeout n"

definition udp_recvaddr_rest :: "int \<Rightarrow> int \<Rightarrow> int \<Rightarrow> int \<Rightarrow> int \<Rightarrow> netst \<Rightarrow> (outcome \<times> netst) option" where
  "udp_recvaddr_rest slot remip remport buff len n = (case recvtime_rest (kern n) of (msg, s) \<Rightarrow>
     udp_woken slot (udp_take_addr slot remip remport buff len) msg (n\<lparr>kern := s\<rparr>))"

definition udp_drain :: "int \<Rightarrow> netst \<Rightarrow> (netst + netst) option" where
  "udp_drain slot n =
     (if udcount (udptab n slot) > 0 then do {
        (p, e) \<leftarrow> udp_get (udptab n slot);
        (_, n) \<leftarrow> free_pkt p (set_udp slot e n);
        Some (Inl n) }
      else Some (Inr n))"

definition udp_release :: "int \<Rightarrow> netst \<Rightarrow> (int \<times> netst) option" where
  "udp_release slot n =
     (if slot < 0 \<or> slot \<ge> UDP_SLOTS then Some (SYSERR, n)
      else if udstate (udptab n slot) = UDP_FREE then Some (SYSERR, n)
      else do {
        (_, n) \<leftarrow> kcall_net (resched_cntl DEFER_START) n;
        n \<leftarrow> c_loop (udp_drain slot) n;
        let n = upd_udp slot (\<lambda>e. e\<lparr>udstate := UDP_FREE\<rparr>) n;
        (_, n) \<leftarrow> kcall_net (resched_cntl DEFER_STOP) n;
        Some (OK, n) })"

section \<open>The IP output queue\<close>

definition ip_enqueue :: "int \<Rightarrow> netst \<Rightarrow> (int \<times> netst) option" where
  "ip_enqueue p n =
     (let q = ipoqueue n in
      if semcount (iqsem q) (kern n) \<ge> IP_OQSIZ then do {
        (_, n) \<leftarrow> free_pkt p n;
        Some (SYSERR, n) }
      else if 0 \<le> iqtail q \<and> iqtail q < IP_OQSIZ then do {
        let q = q\<lparr>iqbuf := (iqbuf q)(iqtail q := p), iqtail := (if iqtail q + 1 \<ge> IP_OQSIZ then 0 else iqtail q + 1)\<rparr>;
        (_, n) \<leftarrow> kcall_net (signal (iqsem q)) (n\<lparr>ipoqueue := q\<rparr>);
        Some (OK, n) }
      else None)"

section \<open>What an endpoint holds\<close>

definition udp_good :: "udpentry \<Rightarrow> bool" where
  "udp_good e \<longleftrightarrow> ring_ok UDP_QSIZ (udhead e) (udtail e) (udcount e)"

definition udp_items :: "udpentry \<Rightarrow> int list" where
  "udp_items e = ring_items UDP_QSIZ (udqueue e) (udhead e) (udcount e)"

lemma udp_put_ok:
  assumes "udp_good e" "udcount e < UDP_QSIZ"
  shows "\<exists>f. udp_put p e = Some f \<and> udp_good f \<and> udp_items f = udp_items e @ [p] \<and> udstate f = udstate e \<and>
    udremip f = udremip e \<and> udremport f = udremport e \<and> udlocport f = udlocport e \<and> udpid f = udpid e"
  using ring_put[of UDP_QSIZ "udhead e" "udtail e" "udcount e"] ring_tail_range[of UDP_QSIZ "udhead e" "udtail e" "udcount e"] assms
  by (auto simp: udp_put_def udp_good_def udp_items_def)

lemma udp_get_ok:
  assumes "udp_good e" "udp_items e = p # ps"
  shows "\<exists>f. udp_get e = Some (p, f) \<and> udp_good f \<and> udp_items f = ps \<and> udstate f = udstate e \<and>
    udremip f = udremip e \<and> udremport f = udremport e \<and> udlocport f = udlocport e \<and> udpid f = udpid e"
proof -
  have "length (udp_items e) \<noteq> 0" using assms(2) by simp
  then have c: "0 < udcount e" by (simp add: udp_items_def)
  have r: "ring_ok UDP_QSIZ (udhead e) (udtail e) (udcount e)" using assms(1) by (simp add: udp_good_def)
  then have "0 \<le> udhead e" "udhead e < UDP_QSIZ" by (auto simp: ring_ok_def)
  then show ?thesis using ring_get(1)[OF r c, where buf = "udqueue e"] ring_get(2)[OF r c] assms(2)
    by (auto simp: udp_get_def udp_good_def udp_items_def)
qed

interpretation udp_ring: fifo udp_good udp_items 8 udp_put udp_get
proof
  fix e :: udpentry and p :: int
  assume "udp_good e" "length (udp_items e) < 8"
  then have "udcount e < UDP_QSIZ" by (simp add: udp_items_def UDP_QSIZ_def)
  then show "\<exists>t. udp_put p e = Some t \<and> udp_good t \<and> udp_items t = udp_items e @ [p]"
    using udp_put_ok[OF \<open>udp_good e\<close>] by blast
next
  fix e :: udpentry and p :: int and ps
  assume "udp_good e" "udp_items e = p # ps"
  then show "\<exists>t. udp_get e = Some (p, t) \<and> udp_good t \<and> udp_items t = ps" using udp_get_ok by blast
qed

section \<open>Arrival\<close>

definition udp_accepts :: "netst \<Rightarrow> int \<Rightarrow> int \<Rightarrow> bool" where
  "udp_accepts n p i \<longleftrightarrow> udstate (udptab n i) \<noteq> UDP_FREE \<and> udp_match (udptab n i) (pkts n p) \<and>
     udcount (udptab n i) < UDP_QSIZ"

lemma udp_in_scan:
  assumes "0 \<le> j" "j \<le> i" "i \<le> UDP_SLOTS" "\<forall>k. j \<le> k \<and> k < i \<longrightarrow> \<not> udp_accepts n p k"
  shows "c_loop (udp_in_iter p n) j = c_loop (udp_in_iter p n) i"
  using assms
proof (induction "nat (i - j)" arbitrary: j)
  case (Suc k)
  then have j: "j < i" by simp
  have "udp_in_iter p n j = Some (Inl (j + 1))"
    using Suc.prems j by (auto simp: udp_in_iter_def udp_accepts_def Let_def)
  then show ?case using Suc.hyps(1)[of "j + 1"] Suc.prems Suc.hyps(2) j by (simp add: c_loop_Inl)
qed simp

text \<open>The endpoint after the packet has been put in, and the kernel after the receiver has been told.\<close>

lemma udp_in_ok:
  assumes i: "0 \<le> i" "i < UDP_SLOTS" "udp_accepts n p i" "\<forall>j. 0 \<le> j \<and> j < i \<longrightarrow> \<not> udp_accepts n p j"
    and g: "udp_good (udptab n i)"
    and k: "udstate (udptab n i) = UDP_RECV \<Longrightarrow> \<exists>r. send (udpid (udptab n i)) OK (kern n) = Some (r, k)"
      "udstate (udptab n i) \<noteq> UDP_RECV \<Longrightarrow> k = kern n"
  shows "\<exists>e. udp_in p n = Some (Ret OK, n\<lparr>udptab := (udptab n)(i := e), kern := k\<rparr>) \<and> udp_good e \<and>
    udp_items e = udp_items (udptab n i) @ [p] \<and> udstate e = UDP_USED \<and> udremip e = udremip (udptab n i) \<and>
    udremport e = udremport (udptab n i) \<and> udlocport e = udlocport (udptab n i)"
proof -
  have sc: "udp_in p n = c_loop (udp_in_iter p n) i"
    unfolding udp_in_def by (rule udp_in_scan) (use i in auto)
  obtain f where f: "udp_put p (udptab n i) = Some f" "udp_good f" "udp_items f = udp_items (udptab n i) @ [p]"
    "udstate f = udstate (udptab n i)" "udremip f = udremip (udptab n i)" "udremport f = udremport (udptab n i)"
    "udlocport f = udlocport (udptab n i)" "udpid f = udpid (udptab n i)"
    using udp_put_ok[OF g, of p] i(3) by (auto simp: udp_accepts_def)
  show ?thesis
  proof (cases "udstate (udptab n i) = UDP_RECV")
    case True
    let ?e = "f\<lparr>udstate := UDP_USED\<rparr>"
    obtain r where "send (udpid (udptab n i)) OK (kern n) = Some (r, k)" using k(1)[OF True] by blast
    then have "udp_in_iter p n i = Some (Inr (Ret OK, n\<lparr>udptab := (udptab n)(i := ?e), kern := k\<rparr>))"
      using i f True by (simp add: udp_in_iter_def udp_accepts_def Let_def kcall_net_def set_udp_def upd_udp_def)
    then show ?thesis unfolding sc by (subst c_loop_Inr) (use f in \<open>auto simp: udp_good_def udp_items_def\<close>)
  next
    case False
    then have "udstate f = UDP_USED" using i(3) f(4) by (cases "udstate f") (auto simp: udp_accepts_def)
    moreover have "udp_in_iter p n i = Some (Inr (Ret OK, n\<lparr>udptab := (udptab n)(i := f), kern := k\<rparr>))"
      using i f False k(2) by (simp add: udp_in_iter_def udp_accepts_def Let_def set_udp_def upd_udp_def)
    ultimately show ?thesis unfolding sc by (subst c_loop_Inr) (use f in auto)
  qed
qed

lemma udp_in_drop:
  assumes "\<forall>j. 0 \<le> j \<and> j < UDP_SLOTS \<longrightarrow> \<not> udp_accepts n p j"
  shows "udp_in p n = free_ret p OK n"
proof -
  have "udp_in p n = c_loop (udp_in_iter p n) UDP_SLOTS"
    unfolding udp_in_def by (rule udp_in_scan) (use assms in \<open>auto simp: UDP_SLOTS_def\<close>)
  also have "\<dots> = free_ret p OK n" by (subst c_loop.simps) (auto simp: udp_in_iter_def split: bind_split)
  finally show ?thesis .
qed

section \<open>Reception\<close>

definition payload :: "netpacket \<Rightarrow> int \<Rightarrow> int list" where
  "payload p k = map (\<lambda>i. net_data p (8 + int i)) [0..<nat k]"

lemma udp_copy_ok:
  assumes "0 \<le> i" "8 + i + int k \<le> NET_DATA"
  shows "udp_copy k i buff p m = Some (put m (buff + i) (map (\<lambda>j. net_data p (8 + i + int j)) [0..<k]))"
  using assms
proof (induction k arbitrary: i m)
  case (Suc k)
  have "get8 (8 + i) p = Some (net_data p (8 + i))" using Suc.prems by (simp add: get8_def)
  moreover have "map (\<lambda>j. net_data p (8 + i + int j)) [0..<Suc k] =
      net_data p (8 + i) # map (\<lambda>j. net_data p (8 + (i + 1) + int j)) [0..<k]"
    by (simp add: upt_conv_Cons map_Suc_upt[symmetric] algebra_simps del: upt_Suc)
  moreover define m' where "m' = m(buff + i := net_data p (8 + i))"
  moreover have "udp_copy k (i + 1) buff p m' =
      Some (put m' (buff + (i + 1)) (map (\<lambda>j. net_data p (8 + (i + 1) + int j)) [0..<k]))"
    by (rule Suc.IH) (use Suc.prems in auto)
  ultimately show ?case by (simp only: udp_copy.simps bind.bind_lunit put_Cons m'_def[symmetric] add.assoc)
qed simp

text \<open>The oldest packet of a non-empty queue is copied out and its buffer freed.\<close>

lemma udp_take_ok:
  assumes g: "udp_good (udptab n slot)" "udp_items (udptab n slot) = p # ps"
    and len: "net_udplen (pkts n p) \<le> NET_DATA"
    and fr: "freebuf p (kern n) = Some (r, k)"
  shows "\<exists>e. udp_take slot buff len n =
      Some (Ret (min len (net_udplen (pkts n p) - 8)),
        n\<lparr>udptab := (udptab n)(slot := e), ubuf := put (ubuf n) buff (payload (pkts n p) (min len (net_udplen (pkts n p) - 8))), kern := k\<rparr>) \<and>
    udp_good e \<and> udp_items e = ps \<and> udstate e = udstate (udptab n slot) \<and> udremip e = udremip (udptab n slot) \<and>
    udremport e = udremport (udptab n slot) \<and> udlocport e = udlocport (udptab n slot)"
proof -
  obtain f where f: "udp_get (udptab n slot) = Some (p, f)" "udp_good f" "udp_items f = ps"
    "udstate f = udstate (udptab n slot)" "udremip f = udremip (udptab n slot)" "udremport f = udremport (udptab n slot)"
    "udlocport f = udlocport (udptab n slot)" using udp_get_ok[OF g] by blast
  define c where "c = min len (net_udplen (pkts n p) - 8)"
  have "8 + int (nat c) \<le> NET_DATA" using len by (auto simp: c_def NET_DATA_def)
  then have cp: "udp_copy (nat c) 0 buff (pkts n p) (ubuf n) = Some (put (ubuf n) buff (payload (pkts n p) c))"
    using udp_copy_ok[of 0 "nat c" buff "pkts n p" "ubuf n"] by (simp add: payload_def)
  have m: "(if len < net_udplen (pkts n p) - 8 then len else net_udplen (pkts n p) - 8) = c" by (simp add: c_def)
  have "udp_take slot buff len n = Some (Ret c, n\<lparr>udptab := (udptab n)(slot := f), ubuf := put (ubuf n) buff (payload (pkts n p) c), kern := k\<rparr>)"
    unfolding udp_take_def f(1) using cp fr m
    by (simp add: udp_copy_out_def Let_def UDP_HDR_LEN_def set_udp_def upd_udp_def free_ret_def free_pkt_def kcall_net_def)
  then show ?thesis using f(2-) by (auto simp: c_def)
qed

end
