(* ===== verification/Net_Icmp.thy ===== *)
theory Net_Icmp
  imports Net_Udp
begin

text \<open>
  ICMP echo (net/icmp.c): the table of processes that wait for replies, and the replies to requests.
  icmp_mkpkt takes a packet buffer, for which it may have to wait; the rest of its callers then runs
  when they are next scheduled.
\<close>

section \<open>The circular queue of a slot\<close>

text \<open>Insertion wraps at ICMP_QSIZ, removal at ICMP_SLOTS; the array has ICMP_QSIZ elements.\<close>

definition icmp_put :: "int \<Rightarrow> icmpentry \<Rightarrow> icmpentry option" where
  "icmp_put p e =
     (if 0 \<le> ictail e \<and> ictail e < ICMP_QSIZ
      then Some (e\<lparr>iccount := i32 (iccount e + 1), icqueue := (icqueue e)(ictail e := p),
        ictail := (if ictail e + 1 \<ge> ICMP_QSIZ then 0 else ictail e + 1)\<rparr>)
      else None)"

definition icmp_get :: "icmpentry \<Rightarrow> (int \<times> icmpentry) option" where
  "icmp_get e =
     (if 0 \<le> ichead e \<and> ichead e < ICMP_QSIZ
      then Some (icqueue e (ichead e), e\<lparr>ichead := (if ichead e + 1 \<ge> ICMP_SLOTS then 0 else ichead e + 1),
        iccount := i32 (iccount e - 1)\<rparr>)
      else None)"

definition set_icmp :: "int \<Rightarrow> icmpentry \<Rightarrow> netst \<Rightarrow> netst" where
  "set_icmp i e = upd_icmp i (\<lambda>_. e)"

section \<open>Registration\<close>

definition icmp_init :: "netst \<Rightarrow> netst" where
  "icmp_init n = fold (\<lambda>i. upd_icmp i (\<lambda>e. e\<lparr>icstate := ICMP_FREE\<rparr>)) [0..ICMP_SLOTS - 1] n"

definition icmp_register_iter :: "int \<Rightarrow> netst \<Rightarrow> int \<times> int \<Rightarrow> (int \<times> int + int option) option" where
  "icmp_register_iter remip n = (\<lambda>(i, freeslot). Some
     (if i < ICMP_SLOTS then
        (if icstate (icmptab n i) = ICMP_FREE then Inl (i + 1, if freeslot = -1 then i else freeslot)
         else if icremip (icmptab n i) = remip then Inr None
         else Inl (i + 1, freeslot))
      else Inr (if freeslot = -1 then None else Some freeslot)))"

definition icmp_register :: "int \<Rightarrow> netst \<Rightarrow> (int \<times> netst) option" where
  "icmp_register remip n = do {
     r \<leftarrow> c_loop (icmp_register_iter remip n) (0, -1);
     case r of
       None \<Rightarrow> Some (SYSERR, n)
     | Some slot \<Rightarrow> Some (slot, upd_icmp slot (\<lambda>e. e\<lparr>icstate := ICMP_USED, icremip := remip, iccount := 0,
         ictail := 0, ichead := 0, icpid := -1\<rparr>) n) }"

definition icmp_drain :: "int \<Rightarrow> netst \<Rightarrow> (netst + netst) option" where
  "icmp_drain slot n =
     (if iccount (icmptab n slot) > 0 then do {
        (p, e) \<leftarrow> icmp_get (icmptab n slot);
        (_, n) \<leftarrow> free_pkt p (set_icmp slot e n);
        Some (Inl n) }
      else Some (Inr n))"

definition icmp_release :: "int \<Rightarrow> netst \<Rightarrow> (int \<times> netst) option" where
  "icmp_release icmpid n =
     (if icmpid < 0 \<or> icmpid \<ge> ICMP_SLOTS then Some (SYSERR, n)
      else if icstate (icmptab n icmpid) \<noteq> ICMP_USED then Some (SYSERR, n)
      else do {
        (_, n) \<leftarrow> kcall_net (resched_cntl DEFER_START) n;
        n \<leftarrow> c_loop (icmp_drain icmpid) n;
        let n = upd_icmp icmpid (\<lambda>e. e\<lparr>icstate := ICMP_FREE\<rparr>) n;
        (_, n) \<leftarrow> kcall_net (resched_cntl DEFER_STOP) n;
        Some (OK, n) })"

section \<open>Making a packet\<close>

text \<open>Copying the payload behind the 8 bytes of the header; src reads the source.\<close>

primrec data_copy :: "nat \<Rightarrow> int \<Rightarrow> (int \<Rightarrow> int option) \<Rightarrow> netpacket \<Rightarrow> netpacket option" where
  "data_copy 0 i src p = Some p"
| "data_copy (Suc k) i src p = do {
     c \<leftarrow> src i;
     p \<leftarrow> set8 (8 + i) c p;
     data_copy k (i + 1) src p }"

definition icmp_fill :: "int \<Rightarrow> int \<Rightarrow> int \<Rightarrow> int \<Rightarrow> (int \<Rightarrow> int option) \<Rightarrow> int \<Rightarrow> netst \<Rightarrow> netpacket \<Rightarrow> netpacket option" where
  "icmp_fill remip type ident seq src len n p =
     (let p = p\<lparr>net_ethsrc := ethucast (NetData n), net_ethtype := 2048, net_ipvh := 69, net_iptos := 0,
          net_iplen := u16 (IP_HDR_LEN + ICMP_HDR_LEN + len), net_ipid := u16 (ipident n), net_ipfrag := 0,
          net_ipttl := 255, net_ipproto := IP_ICMP, net_ipcksum := 0, net_ipsrc := ipucast (NetData n), net_ipdst := remip\<rparr>;
        p = p\<lparr>net_data := (net_data p)(0 := u8 type, 1 := 0)\<rparr>;
        p = set16 6 seq (set16 4 ident (set16 2 0 p))
      in data_copy (nat len) 0 src p)"

text \<open>The part of icmp_mkpkt after getbuf, with the address that getbuf returned; a failed getbuf is a
  panic, after which nothing runs.\<close>

definition icmp_mkpkt_rest ::
  "int \<Rightarrow> int \<Rightarrow> int \<Rightarrow> int \<Rightarrow> (int \<Rightarrow> int option) \<Rightarrow> int \<Rightarrow>
     (int \<Rightarrow> netst \<Rightarrow> (outcome \<times> netst) option) \<Rightarrow> int \<Rightarrow> netst \<Rightarrow> (outcome \<times> netst) option" where
  "icmp_mkpkt_rest remip type ident seq src len k a n =
     (if i32 a = SYSERR then Some (Blocked, n\<lparr>kern := (kern n)\<lparr>halted := True\<rparr>\<rparr>)
      else do {
        p \<leftarrow> icmp_fill remip type ident seq src len n (pkts n a);
        k a (n\<lparr>pkts := (pkts n)(a := p), ipident := u32 (ipident n + 1)\<rparr>) })"

definition icmp_mkpkt ::
  "int \<Rightarrow> int \<Rightarrow> int \<Rightarrow> int \<Rightarrow> (int \<Rightarrow> int option) \<Rightarrow> int \<Rightarrow>
     (int \<Rightarrow> netst \<Rightarrow> (outcome \<times> netst) option) \<Rightarrow> netst \<Rightarrow> (outcome \<times> netst) option" where
  "icmp_mkpkt remip type ident seq src len k n = do {
     (r, n) \<leftarrow> kblock_net (getbuf (netbufpool n)) n;
     case r of Blocked \<Rightarrow> Some (Blocked, n) | Ret a \<Rightarrow> icmp_mkpkt_rest remip type ident seq src len k a n }"

section \<open>Packets that arrive\<close>

definition icmp_in :: "int \<Rightarrow> netst \<Rightarrow> (outcome \<times> netst) option" where
  "icmp_in p n =
     (let pkt = pkts n p in
      if net_ictype pkt \<noteq> ICMP_ECHOREPLY \<and> net_ictype pkt \<noteq> ICMP_ECHOREQST then free_ret p OK n
      else if net_ictype pkt = ICMP_ECHOREQST then
        icmp_mkpkt (net_ipsrc pkt) ICMP_ECHOREPLY (net_icident pkt) (net_icseq pkt) (\<lambda>i. get8 (8 + i) pkt)
          (net_iplen pkt - IP_HDR_LEN - ICMP_HDR_LEN)
          (\<lambda>a n. do { (_, t) \<leftarrow> ip_enqueue a n; then_net n (free_ret p OK) t }) n
      else
        let slot = net_icident pkt in
        if slot < 0 \<or> slot \<ge> ICMP_SLOTS then free_ret p OK n
        else if icstate (icmptab n slot) = ICMP_FREE \<or> net_ipsrc pkt \<noteq> icremip (icmptab n slot) then free_ret p OK n
        else do {
          e \<leftarrow> icmp_put p (icmptab n slot);
          if icstate e = ICMP_RECV then do {
            (_, n) \<leftarrow> kcall_net (send (icpid e) OK) (set_icmp slot (e\<lparr>icstate := ICMP_USED\<rparr>) n);
            Some (Ret OK, n) }
          else Some (Ret OK, set_icmp slot e n) })"

primrec icmp_copy :: "nat \<Rightarrow> int \<Rightarrow> int \<Rightarrow> netpacket \<Rightarrow> bmem \<Rightarrow> bmem option" where
  "icmp_copy 0 i buff pkt m = Some m"
| "icmp_copy (Suc k) i buff pkt m = do {
     c \<leftarrow> get8 (8 + i) pkt;
     icmp_copy k (i + 1) buff pkt (m(buff + i := c)) }"

text \<open>The loop counter is the result: the smaller of the two lengths, but not below 0.\<close>

definition icmp_take :: "int \<Rightarrow> int \<Rightarrow> int \<Rightarrow> netst \<Rightarrow> (outcome \<times> netst) option" where
  "icmp_take slot buff len n = do {
     (p, e) \<leftarrow> icmp_get (icmptab n slot);
     let n = set_icmp slot e n;
     let datalen = net_iplen (pkts n p) - IP_HDR_LEN - ICMP_HDR_LEN;
     let k = nat (if len < datalen then len else datalen);
     m \<leftarrow> icmp_copy k 0 buff (pkts n p) (ubuf n);
     free_ret p (int k) (n\<lparr>ubuf := m\<rparr>) }"

definition icmp_woken :: "int \<Rightarrow> int \<Rightarrow> int \<Rightarrow> int \<Rightarrow> netst \<Rightarrow> (outcome \<times> netst) option" where
  "icmp_woken slot buff len msg n =
     (let n = upd_icmp slot (\<lambda>e. e\<lparr>icstate := ICMP_USED\<rparr>) n in
      if msg = u32 TIMEOUT then Some (Ret TIMEOUT, n)
      else if msg \<noteq> OK then Some (Ret SYSERR, n)
      else icmp_take slot buff len n)"

definition icmp_recv :: "int \<Rightarrow> int \<Rightarrow> int \<Rightarrow> int \<Rightarrow> netst \<Rightarrow> (outcome \<times> netst) option" where
  "icmp_recv icmpid buff len timeout n =
     (if icmpid < 0 \<or> icmpid \<ge> ICMP_SLOTS then Some (Ret SYSERR, n)
      else if icstate (icmptab n icmpid) \<noteq> ICMP_USED then Some (Ret SYSERR, n)
      else if iccount (icmptab n icmpid) = 0 then do {
        let n = upd_icmp icmpid (\<lambda>e. e\<lparr>icstate := ICMP_RECV, icpid := currpid (kern n)\<rparr>) n;
        (_, n) \<leftarrow> kcall_net recvclr n;
        (r, n) \<leftarrow> kblock_net (recvtime (i32 timeout)) n;
        case r of Blocked \<Rightarrow> Some (Blocked, n) | Ret msg \<Rightarrow> icmp_woken icmpid buff len msg n }
      else icmp_take icmpid buff len n)"

definition icmp_recv_rest :: "int \<Rightarrow> int \<Rightarrow> int \<Rightarrow> netst \<Rightarrow> (outcome \<times> netst) option" where
  "icmp_recv_rest icmpid buff len n = (case recvtime_rest (kern n) of (msg, s) \<Rightarrow>
     icmp_woken icmpid buff len msg (n\<lparr>kern := s\<rparr>))"

end
