(* ===== verification/Net_Arp.thy ===== *)
theory Net_Arp
  imports Net_Icmp
begin

text \<open>
  Address resolution (net/arp.c): the cache of hardware addresses, requests for the ones that are not
  in it, and replies. A request is repeated up to ARP_RETRY times; while the answer is awaited, the
  rest of the call is suspended.
\<close>

section \<open>The cache\<close>

definition arp_init :: "netst \<Rightarrow> netst" where
  "arp_init n = fold (\<lambda>i. upd_arp i (\<lambda>e. e\<lparr>arstate := AR_FREE\<rparr>)) [1..ARP_SIZ - 1] n"

text \<open>The slot that the search for an address stops at, ARP_SIZ when there is none.\<close>

definition arp_search :: "int \<Rightarrow> netst \<Rightarrow> int option" where
  "arp_search a n = c_loop (\<lambda>i. Some
     (if i < ARP_SIZ then
        (if arstate (arpcache n i) = AR_FREE then Inl (i + 1)
         else if arpaddr (arpcache n i) = a then Inr i else Inl (i + 1))
      else Inr ARP_SIZ)) 0"

definition arp_first :: "arstate_t \<Rightarrow> netst \<Rightarrow> int option" where
  "arp_first st n = c_loop (\<lambda>slot. Some
     (if slot < ARP_SIZ then (if arstate (arpcache n slot) = st then Inr slot else Inl (slot + 1))
      else Inr ARP_SIZ)) 0"

definition arp_clear :: arpentry where
  "arp_clear = \<lparr>arstate = AR_FREE, arpaddr = 0, arpid = 0, arhaddr = [0, 0, 0, 0, 0, 0]\<rparr>"

definition arp_alloc :: "netst \<Rightarrow> (int \<times> netst) option" where
  "arp_alloc n = do {
     slot \<leftarrow> arp_first AR_FREE n;
     if slot < ARP_SIZ then Some (slot, upd_arp slot (\<lambda>_. arp_clear) n)
     else do {
       slot \<leftarrow> arp_first AR_RESOLVED n;
       if slot < ARP_SIZ then Some (slot, upd_arp slot (\<lambda>_. arp_clear) n)
       else Some (SYSERR, n) } }"

section \<open>Resolving an address\<close>

text \<open>The caller gives the packet whose destination address is to be filled in.\<close>

definition set_mac :: "int \<Rightarrow> int list \<Rightarrow> netst \<Rightarrow> netst" where
  "set_mac p mac = upd_pkt p (\<lambda>q. q\<lparr>net_ethdst := mac\<rparr>)"

definition arp_request :: "int \<Rightarrow> netst \<Rightarrow> arppacket" where
  "arp_request nxthop n =
     (let p = arp_hton \<lparr>arp_ethdst = ethbcast (NetData n), arp_ethsrc = ethucast (NetData n), arp_ethtype = ETH_ARP,
          arp_htype = ARP_HTYPE, arp_ptype = ARP_PTYPE, arp_hlen = 6, arp_plen = 4, arp_op = ARP_OP_REQ,
          arp_sndha = ethucast (NetData n), arp_sndpa = ipucast (NetData n),
          arp_tarha = [0, 0, 0, 0, 0, 0], arp_tarpa = nxthop\<rparr>
      in p\<lparr>arp_ethtype := htons (arp_ethtype p)\<rparr>)"

definition arp_found :: "int \<Rightarrow> int \<Rightarrow> netst \<Rightarrow> (outcome \<times> netst) option" where
  "arp_found slot p n = Some (Ret OK, set_mac p (arhaddr (arpcache n slot)) n)"

text \<open>The request is sent k more times; the answers of recvtime are int32.\<close>

fun arp_try :: "ethdev \<Rightarrow> int \<Rightarrow> int \<Rightarrow> arppacket \<Rightarrow> nat \<Rightarrow> netst \<Rightarrow> (outcome \<times> netst) option" where
  "arp_try dev slot p apkt 0 n = Some (Ret TIMEOUT, upd_arp slot (\<lambda>e. e\<lparr>arstate := AR_FREE\<rparr>) n)"
| "arp_try dev slot p apkt (Suc k) n = do {
     (r, n) \<leftarrow> dev (Arp_frame apkt) n;
     case r of
       Blocked \<Rightarrow> Some (Blocked, n)
     | Ret _ \<Rightarrow> do {
         (r, n) \<leftarrow> kblock_net (recvtime ARP_TIMEOUT) n;
         case r of
           Blocked \<Rightarrow> Some (Blocked, n)
         | Ret msg \<Rightarrow>
             if i32 msg = TIMEOUT then arp_try dev slot p apkt k n
             else if i32 msg = SYSERR then Some (Ret SYSERR, n)
             else arp_found slot p n } }"

text \<open>After a wait that was suspended, with k tries left.\<close>

definition arp_resume :: "ethdev \<Rightarrow> int \<Rightarrow> int \<Rightarrow> arppacket \<Rightarrow> nat \<Rightarrow> netst \<Rightarrow> (outcome \<times> netst) option" where
  "arp_resume dev slot p apkt k n = (case recvtime_rest (kern n) of (msg, s) \<Rightarrow>
     let n = n\<lparr>kern := s\<rparr> in
     if i32 msg = TIMEOUT then arp_try dev slot p apkt k n
     else if i32 msg = SYSERR then Some (Ret SYSERR, n)
     else arp_found slot p n)"

definition arp_resolve :: "ethdev \<Rightarrow> int \<Rightarrow> int \<Rightarrow> netst \<Rightarrow> (outcome \<times> netst) option" where
  "arp_resolve dev nxthop p n =
     (if nxthop = IP_BCAST \<or> nxthop = ipbcast (NetData n) then Some (Ret OK, set_mac p (ethbcast (NetData n)) n)
      else do {
        i \<leftarrow> arp_search nxthop n;
        if i < ARP_SIZ \<and> arstate (arpcache n i) = AR_RESOLVED then Some (Ret OK, set_mac p (arhaddr (arpcache n i)) n)
        else if i < ARP_SIZ \<and> arstate (arpcache n i) = AR_PENDING then Some (Ret SYSERR, n)
        else do {
          (slot, n) \<leftarrow> arp_alloc n;
          if slot = SYSERR then Some (Ret SYSERR, n)
          else do {
            let n = upd_arp slot (\<lambda>e. e\<lparr>arstate := AR_PENDING, arpaddr := nxthop, arpid := currpid (kern n)\<rparr>) n;
            let apkt = arp_request nxthop n;
            (_, n) \<leftarrow> kcall_net recvclr n;
            arp_try dev slot p apkt ARP_RETRY n } } })"

section \<open>Packets that arrive\<close>

definition arp_reply :: "arppacket \<Rightarrow> netst \<Rightarrow> arppacket" where
  "arp_reply q n =
     (let p = arp_hton \<lparr>arp_ethdst = arp_sndha q, arp_ethsrc = ethucast (NetData n), arp_ethtype = ETH_ARP,
          arp_htype = ARP_HTYPE, arp_ptype = ARP_PTYPE, arp_hlen = 6, arp_plen = 4, arp_op = ARP_OP_RPLY,
          arp_sndha = ethucast (NetData n), arp_sndpa = ipucast (NetData n),
          arp_tarha = arp_sndha q, arp_tarpa = arp_sndpa q\<rparr>
      in p\<lparr>arp_ethtype := htons (arp_ethtype p)\<rparr>)"

definition arp_answer :: "ethdev \<Rightarrow> int \<Rightarrow> netst \<Rightarrow> (outcome \<times> netst) option" where
  "arp_answer dev p n = do {
     (r, n) \<leftarrow> dev (Arp_frame (arp_reply (arppkts n p) n)) n;
     case r of Blocked \<Rightarrow> Some (Blocked, n) | Ret _ \<Rightarrow> free_ret p OK n }"

text \<open>The part of arp_in after the sender has been looked up, and its waiting process told.\<close>

definition arp_in_rest :: "ethdev \<Rightarrow> int \<Rightarrow> bool \<Rightarrow> netst \<Rightarrow> (outcome \<times> netst) option" where
  "arp_in_rest dev p found n =
     (let q = arppkts n p in
      if arp_op q = ARP_OP_RPLY then free_ret p OK n
      else if \<not> ipvalid (NetData n) \<or> arp_tarpa q \<noteq> ipucast (NetData n) then free_ret p OK n
      else if found then arp_answer dev p n
      else do {
        (slot, n) \<leftarrow> arp_alloc n;
        if slot = SYSERR then free_ret p OK n
        else arp_answer dev p (upd_arp slot (\<lambda>e. e\<lparr>arpaddr := arp_sndpa q, arhaddr := arp_sndha q,
          arstate := AR_RESOLVED\<rparr>) n) })"

definition arp_in :: "ethdev \<Rightarrow> int \<Rightarrow> netst \<Rightarrow> (outcome \<times> netst) option" where
  "arp_in dev p n =
     (let n = n\<lparr>arppkts := (arppkts n)(p := arp_ntoh (arppkts n p))\<rparr>; q = arppkts n p in
      if arp_htype q \<noteq> ARP_HTYPE \<or> arp_ptype q \<noteq> ARP_PTYPE then free_ret p OK n
      else do {
        slot \<leftarrow> arp_search (arp_sndpa q) n;
        if slot < ARP_SIZ then do {
          let n = upd_arp slot (\<lambda>e. e\<lparr>arhaddr := arp_sndha q\<rparr>) n;
          if arstate (arpcache n slot) = AR_PENDING then do {
            let n = upd_arp slot (\<lambda>e. e\<lparr>arstate := AR_RESOLVED\<rparr>) n;
            (_, t) \<leftarrow> kcall_net (send (arpid (arpcache n slot)) OK) n;
            then_net n (arp_in_rest dev p True) t }
          else arp_in_rest dev p True n }
        else arp_in_rest dev p False n })"

end
