(* ===== verification/Net_Ip.thy ===== *)
theory Net_Ip
  imports Net_Arp
begin

text \<open>
  The IP layer and what runs on it (net/ip.c, net.c, the sending part of udp.c and icmp.c): delivery
  of packets that arrive, routing of packets that leave, the output queue and the processes netin and
  ipout. The Ethernet driver is a parameter, dev; a call that is suspended inside goes on in the part
  that its name ends with.
\<close>

section \<open>Sending\<close>

definition ip_out_rest :: "int \<Rightarrow> int \<Rightarrow> netst \<Rightarrow> (outcome \<times> netst) option" where
  "ip_out_rest p retval n = do {
     (_, n) \<leftarrow> free_pkt p n;
     Some (Ret (if retval = SYSERR then SYSERR else OK), n) }"

definition ip_out :: "ethdev \<Rightarrow> int \<Rightarrow> netst \<Rightarrow> (outcome \<times> netst) option" where
  "ip_out dev p n = do {
     let pktlen = net_iplen (pkts n p) + ETH_HDR_LEN;
     q \<leftarrow> ip_out_packet (pkts n p);
     (r, n) \<leftarrow> dev (Ip_frame q pktlen) (n\<lparr>pkts := (pkts n)(p := q)\<rparr>);
     case r of Blocked \<Rightarrow> Some (Blocked, n) | Ret retval \<Rightarrow> ip_out_rest p retval n }"

definition ip_local :: "int \<Rightarrow> netst \<Rightarrow> (outcome \<times> netst) option" where
  "ip_local p n =
     (if net_ipproto (pkts n p) = IP_UDP then udp_in p n
      else if net_ipproto (pkts n p) = IP_ICMP then icmp_in p n
      else free_ret p OK n)"

definition next_hop :: "int \<Rightarrow> netst \<Rightarrow> int" where
  "next_hop dest n = (if and dest (ipmask (NetData n)) = ipprefix (NetData n) then dest else iprouter (NetData n))"

text \<open>After arp_resolve: an error frees the packet.\<close>

definition ip_send_rest :: "ethdev \<Rightarrow> int \<Rightarrow> int \<Rightarrow> netst \<Rightarrow> (outcome \<times> netst) option" where
  "ip_send_rest dev p retval n = (if retval \<noteq> OK then free_ret p SYSERR n else ip_out dev p n)"

definition ip_send :: "ethdev \<Rightarrow> int \<Rightarrow> netst \<Rightarrow> (outcome \<times> netst) option" where
  "ip_send dev p n =
     (let dest = net_ipdst (pkts n p) in
      if and dest 4278190080 = 2130706432 \<or> dest = ipucast (NetData n) then do {
        (r, n) \<leftarrow> ip_local p n;
        Some (if r = Blocked then Blocked else Ret OK, n) }
      else if dest = IP_BCAST \<or> dest = ipbcast (NetData n) then
        ip_out dev p (set_mac p (ethbcast (NetData n)) n)
      else
        let nxthop = next_hop dest n in
        if nxthop = 0 then free_ret p SYSERR n
        else do {
          (r, n) \<leftarrow> arp_resolve dev nxthop p n;
          case r of Blocked \<Rightarrow> Some (Blocked, n) | Ret retval \<Rightarrow> ip_send_rest dev p retval n })"

section \<open>Receiving\<close>

definition ip_in :: "int \<Rightarrow> netst \<Rightarrow> (outcome \<times> netst) option" where
  "ip_in p n = do {
     (q, kept) \<leftarrow> ip_in_packet (pkts n p);
     let n = n\<lparr>pkts := (pkts n)(p := q)\<rparr>;
     if \<not> kept then free_ret p OK n
     else if net_ipdst q = IP_BCAST then ip_local p n
     else if \<not> ipvalid (NetData n) then (if net_ipproto q = IP_UDP then ip_local p n else free_ret p OK n)
     else if net_ipdst q = ipucast (NetData n) \<or> net_ipdst q = ipbcast (NetData n) \<or> net_ipdst q = IP_BCAST
     then ip_local p n
     else free_ret p OK n }"

text \<open>One turn of netin, after the read into the buffer p has returned: the frame that was read is in
  pkts or arppkts.\<close>

definition netin_frame :: "ethdev \<Rightarrow> int \<Rightarrow> frame \<Rightarrow> netst \<Rightarrow> (outcome \<times> netst) option" where
  "netin_frame dev p f n =
     (case f of
        Ip_frame q len \<Rightarrow>
          let q = eth_ntoh q; n = n\<lparr>pkts := (pkts n)(p := q)\<rparr> in
          if net_ethtype q = ETH_IP then ip_in p n else free_ret p OK n
      | Arp_frame q \<Rightarrow>
          let q = q\<lparr>arp_ethtype := ntohs (arp_ethtype q)\<rparr>; n = n\<lparr>arppkts := (arppkts n)(p := q)\<rparr> in
          if arp_ethtype q = ETH_ARP then arp_in dev p n else free_ret p OK n)"

section \<open>The output process\<close>

definition ipq_take :: "netst \<Rightarrow> (int \<times> netst) option" where
  "ipq_take n =
     (let q = ipoqueue n in
      if 0 \<le> iqhead q \<and> iqhead q < IP_OQSIZ
      then Some (iqbuf q (iqhead q), n\<lparr>ipoqueue := q\<lparr>iqhead := (if iqhead q + 1 \<ge> IP_OQSIZ then 0 else iqhead q + 1)\<rparr>\<rparr>)
      else None)"

definition ipout_resolved :: "ethdev \<Rightarrow> int \<Rightarrow> int \<Rightarrow> netst \<Rightarrow> (outcome \<times> netst) option" where
  "ipout_resolved dev p retval n = (if retval \<noteq> OK then free_ret p OK n else ip_out dev p n)"

text \<open>The body of the loop of ipout after the wait for a packet.\<close>

definition ipout_rest :: "ethdev \<Rightarrow> netst \<Rightarrow> (outcome \<times> netst) option" where
  "ipout_rest dev n = do {
     (p, n) \<leftarrow> ipq_take n;
     let n = upd_pkt p (\<lambda>q. q\<lparr>net_ethsrc := ethucast (NetData n)\<rparr>) n;
     let destip = net_ipdst (pkts n p);
     if destip = IP_BCAST \<or> destip = ipbcast (NetData n) then free_ret p OK n
     else if destip = ipucast (NetData n) then ip_local p n
     else
       let nxthop = next_hop destip n in
       if nxthop = 0 then free_ret p OK n
       else do {
         (r, n) \<leftarrow> arp_resolve dev nxthop p n;
         case r of Blocked \<Rightarrow> Some (Blocked, n) | Ret retval \<Rightarrow> ipout_resolved dev p retval n } }"

definition ipout :: "ethdev \<Rightarrow> netst \<Rightarrow> (outcome \<times> netst) option" where
  "ipout dev n = do {
     (_, t) \<leftarrow> kcall_net (wait (iqsem (ipoqueue n))) n;
     then_net n (ipout_rest dev) t }"

section \<open>Datagrams\<close>

definition udp_fill :: "int \<Rightarrow> int \<Rightarrow> int \<Rightarrow> int \<Rightarrow> (int \<Rightarrow> int option) \<Rightarrow> int \<Rightarrow> netst \<Rightarrow> netpacket \<Rightarrow> netpacket option" where
  "udp_fill remip remport locport ident src len n p =
     (let p = p\<lparr>net_ethsrc := ethucast (NetData n), net_ethtype := 2048, net_ipvh := 69, net_iptos := 0,
          net_iplen := u16 (42 + len - ETH_HDR_LEN), net_ipid := ident, net_ipfrag := 0,
          net_ipttl := 255, net_ipproto := IP_UDP, net_ipcksum := 0, net_ipsrc := ipucast (NetData n), net_ipdst := remip\<rparr>;
        p = set16 6 0 (set16 4 (u16 (UDP_HDR_LEN + len)) (set16 2 remport (set16 0 locport p)))
      in data_copy (nat len) 0 src p)"

text \<open>The ends of udp_send and udp_sendto, with the address that getbuf returned. The result of
  ip_send is ignored.\<close>

definition udp_transmit :: "ethdev \<Rightarrow> int \<Rightarrow> netpacket \<Rightarrow> netst \<Rightarrow> (outcome \<times> netst) option" where
  "udp_transmit dev a p n = do {
     (r, n) \<leftarrow> ip_send dev a (n\<lparr>pkts := (pkts n)(a := p)\<rparr>);
     Some (if r = Blocked then Blocked else Ret OK, n) }"

definition udp_send_rest :: "ethdev \<Rightarrow> int \<Rightarrow> int \<Rightarrow> int \<Rightarrow> int \<Rightarrow> int \<Rightarrow> int \<Rightarrow> netst \<Rightarrow> (outcome \<times> netst) option" where
  "udp_send_rest dev remip remport locport buff len a n =
     (if i32 a = SYSERR then Some (Ret SYSERR, n)
      else do {
        p \<leftarrow> udp_fill remip remport locport (udp_ident n) (\<lambda>i. Some (ubuf n (buff + i))) len n (pkts n a);
        udp_transmit dev a p (n\<lparr>udp_ident := u16 (udp_ident n + 1)\<rparr>) })"

definition udp_send :: "ethdev \<Rightarrow> int \<Rightarrow> int \<Rightarrow> int \<Rightarrow> netst \<Rightarrow> (outcome \<times> netst) option" where
  "udp_send dev slot buff len n =
     (if slot < 0 \<or> slot \<ge> UDP_SLOTS then Some (Ret SYSERR, n)
      else
        let e = udptab n slot in
        if udstate e = UDP_FREE then Some (Ret SYSERR, n)
        else if udremip e = 0 then Some (Ret SYSERR, n)
        else do {
          (r, n) \<leftarrow> kblock_net (getbuf (netbufpool n)) n;
          case r of Blocked \<Rightarrow> Some (Blocked, n)
          | Ret a \<Rightarrow> udp_send_rest dev (udremip e) (udremport e) (udlocport e) buff len a n })"

text \<open>udp_sendto reads the local port only after it has the buffer.\<close>

definition udp_sendto_rest :: "ethdev \<Rightarrow> int \<Rightarrow> int \<Rightarrow> int \<Rightarrow> int \<Rightarrow> int \<Rightarrow> int \<Rightarrow> netst \<Rightarrow> (outcome \<times> netst) option" where
  "udp_sendto_rest dev slot remip remport buff len a n =
     (if i32 a = SYSERR then Some (Ret SYSERR, n)
      else do {
        p \<leftarrow> udp_fill remip remport (udlocport (udptab n slot)) (udpto_ident n) (\<lambda>i. Some (ubuf n (buff + i))) len n (pkts n a);
        udp_transmit dev a p (n\<lparr>udpto_ident := u16 (udpto_ident n + 1)\<rparr>) })"

definition udp_sendto :: "ethdev \<Rightarrow> int \<Rightarrow> int \<Rightarrow> int \<Rightarrow> int \<Rightarrow> int \<Rightarrow> netst \<Rightarrow> (outcome \<times> netst) option" where
  "udp_sendto dev slot remip remport buff len n =
     (if slot < 0 \<or> slot \<ge> UDP_SLOTS then Some (Ret SYSERR, n)
      else if udstate (udptab n slot) = UDP_FREE then Some (Ret SYSERR, n)
      else do {
        (r, n) \<leftarrow> kblock_net (getbuf (netbufpool n)) n;
        case r of Blocked \<Rightarrow> Some (Blocked, n)
        | Ret a \<Rightarrow> udp_sendto_rest dev slot remip remport buff len a n })"

definition icmp_send :: "ethdev \<Rightarrow> int \<Rightarrow> int \<Rightarrow> int \<Rightarrow> int \<Rightarrow> int \<Rightarrow> int \<Rightarrow> netst \<Rightarrow> (outcome \<times> netst) option" where
  "icmp_send dev remip type ident seq buf len n =
     icmp_mkpkt remip type ident seq (\<lambda>i. Some (ubuf n (buf + i))) len (ip_send dev) n"

end
