(* ===== verification/Net_Delivery.thy ===== *)
theory Net_Delivery
  imports Net_Ip
begin

text \<open>
  A datagram on its way: what udp_send hands to the Ethernet device, what the receiving host makes of
  it, and what its receiver gets.
\<close>

section \<open>A datagram as it is filled in\<close>

lemma data_copy_ok:
  assumes "0 \<le> i" "8 + i + int k \<le> NET_DATA" "\<And>j. i \<le> j \<Longrightarrow> j < i + int k \<Longrightarrow> src j = Some (c j)"
  shows "\<exists>q. data_copy k i src p = Some q \<and> q = p\<lparr>net_data := net_data q\<rparr> \<and>
    (\<forall>x. net_data q x = (if 8 + i \<le> x \<and> x < 8 + i + int k then u8 (c (x - 8)) else net_data p x))"
  using assms
proof (induction k arbitrary: i p)
  case (Suc k)
  let ?p = "p\<lparr>net_data := (net_data p)(8 + i := u8 (c i))\<rparr>"
  have sp: "set8 (8 + i) (c i) p = Some ?p" using Suc.prems by (simp add: set8_def)
  obtain q where q: "data_copy k (i + 1) src ?p = Some q" "q = ?p\<lparr>net_data := net_data q\<rparr>"
    "\<forall>x. net_data q x = (if 8 + (i + 1) \<le> x \<and> x < 8 + (i + 1) + int k then u8 (c (x - 8)) else net_data ?p x)"
    using Suc.IH[of "i + 1" ?p] Suc.prems by auto
  have "?p\<lparr>net_data := net_data q\<rparr> = p\<lparr>net_data := net_data q\<rparr>" by simp
  with q(2) have "q = p\<lparr>net_data := net_data q\<rparr>" by (rule trans)
  moreover have "data_copy (Suc k) i src p = Some q" using q(1) sp Suc.prems(3)[of i] by simp
  moreover have "net_data q x = (if 8 + i \<le> x \<and> x < 8 + i + int (Suc k) then u8 (c (x - 8)) else net_data p x)" for x
    using q(3)[rule_format, of x] by auto
  ultimately show ?case by blast
qed simp

definition in16 :: "int \<Rightarrow> bool" where "in16 x \<longleftrightarrow> 0 \<le> x \<and> x < 65536"
definition in32 :: "int \<Rightarrow> bool" where "in32 x \<longleftrightarrow> 0 \<le> x \<and> x < 4294967296"

lemma get_set16: "in16 v \<Longrightarrow> get16 i (set16 i v p) = v"
  by (simp add: get16_set16 in16_def u16_id)

lemma get16_data: "(\<And>x. i \<le> x \<Longrightarrow> x \<le> i + 1 \<Longrightarrow> net_data q x = net_data p x) \<Longrightarrow> get16 i q = get16 i p"
  by (simp add: get16_def)

lemma udp_fill_ok:
  assumes r: "in32 remip" "in16 remport" "in16 locport" "in16 ident" "in32 (ipucast (NetData n))"
    and len: "0 \<le> len" "len \<le> 1472" and src: "\<And>j. src j = Some (c j)" and b: "bytes_ok p0"
  shows "\<exists>p. udp_fill remip remport locport ident src len n p0 = Some p \<and> header_ok p \<and> bytes_ok p \<and>
    net_ipvh p = 69 \<and> net_ipproto p = IP_UDP \<and> net_ethtype p = ETH_IP \<and> net_iplen p = 28 + len \<and>
    net_ipsrc p = ipucast (NetData n) \<and> net_ipdst p = remip \<and> net_udpsport p = locport \<and> net_udpdport p = remport \<and>
    net_udplen p = 8 + len \<and> payload p len = map (\<lambda>i. u8 (c (int i))) [0..<nat len]"
proof -
  define p1 where "p1 = p0\<lparr>net_ethsrc := ethucast (NetData n), net_ethtype := 2048, net_ipvh := 69, net_iptos := 0,
          net_iplen := u16 (42 + len - ETH_HDR_LEN), net_ipid := ident, net_ipfrag := 0,
          net_ipttl := 255, net_ipproto := IP_UDP, net_ipcksum := 0, net_ipsrc := ipucast (NetData n), net_ipdst := remip\<rparr>"
  define p2 where "p2 = set16 6 0 (set16 4 (u16 (UDP_HDR_LEN + len)) (set16 2 remport (set16 0 locport p1)))"
  have "bytes_ok p1" using b by (simp add: p1_def bytes_ok_def)
  then have b2: "bytes_ok p2" by (simp add: p2_def)
  obtain p where p: "data_copy (nat len) 0 src p2 = Some p" "p = p2\<lparr>net_data := net_data p\<rparr>"
    "\<forall>x. net_data p x = (if 8 \<le> x \<and> x < 8 + len then u8 (c (x - 8)) else net_data p2 x)"
    using data_copy_ok[of 0 "nat len" src c p2] len src by (auto simp: NET_DATA_def)
  have u: "u16 (28 + len) = 28 + len" "u16 (8 + len) = 8 + len" using len by (simp_all add: u16_id)
  have hd: "net_ethtype p = 2048" "net_ipvh p = 69" "net_iplen p = 28 + len" "net_ipid p = ident" "net_ipfrag p = 0"
    "net_ipproto p = IP_UDP" "net_ipsrc p = ipucast (NetData n)" "net_ipdst p = remip"
    by (subst p(2), simp add: p2_def p1_def ETH_HDR_LEN_def u)+
  have g: "get16 i p = get16 i p2" if "0 \<le> i" "i \<le> 6" for i using p(3) that by (intro get16_data) auto
  have "in16 (8 + len)" using len by (simp add: in16_def)
  then have f: "get16 0 p2 = locport" "get16 2 p2 = remport" "get16 4 p2 = 8 + len"
    using r by (simp_all add: p2_def UDP_HDR_LEN_def u get16_set16 in16_def u16_id)
  have "bytes_ok p" using b2 p(3) u8_range by (simp add: bytes_ok_def)
  moreover have "payload p len = map (\<lambda>i. u8 (c (int i))) [0..<nat len]" using p(3) len by (auto simp: payload_def)
  moreover have "udp_fill remip remport locport ident src len n p0 = Some p"
    using p(1) by (simp add: udp_fill_def Let_def p2_def p1_def)
  ultimately show ?thesis using hd g f r len
    by (simp add: header_ok_def in16_def in32_def ETH_IP_def net_udpsport_def net_udpdport_def net_udplen_def)
qed

section \<open>Routing\<close>

text \<open>The next hop for the address is known and in the cache.\<close>

definition route_known :: "netst \<Rightarrow> int \<Rightarrow> int list \<Rightarrow> bool" where
  "route_known n dest mac \<longleftrightarrow>
     and dest 4278190080 \<noteq> 2130706432 \<and> dest \<noteq> ipucast (NetData n) \<and> dest \<noteq> IP_BCAST \<and> dest \<noteq> ipbcast (NetData n) \<and>
     next_hop dest n \<noteq> 0 \<and> next_hop dest n \<noteq> IP_BCAST \<and> next_hop dest n \<noteq> ipbcast (NetData n) \<and>
     (\<exists>i < ARP_SIZ. arp_search (next_hop dest n) n = Some i \<and> arstate (arpcache n i) = AR_RESOLVED \<and> arhaddr (arpcache n i) = mac)"

lemma ip_send_known:
  assumes "route_known n (net_ipdst (pkts n p)) mac"
  shows "ip_send dev p n = ip_out dev p (set_mac p mac n)"
proof -
  obtain i where "i < ARP_SIZ" "arp_search (next_hop (net_ipdst (pkts n p)) n) n = Some i"
    "arstate (arpcache n i) = AR_RESOLVED" "arhaddr (arpcache n i) = mac" using assms by (auto simp: route_known_def)
  then have "arp_resolve dev (next_hop (net_ipdst (pkts n p)) n) p n = Some (Ret OK, set_mac p mac n)"
    using assms by (simp add: arp_resolve_def route_known_def)
  then show ?thesis using assms by (simp add: ip_send_def Let_def route_known_def ip_send_rest_def)
qed


section \<open>From one host to the other\<close>

text \<open>The endpoint i of the host m is the first one that takes a datagram with these addresses and
  ports.\<close>

definition listens :: "netst \<Rightarrow> int \<Rightarrow> int \<Rightarrow> int \<Rightarrow> int \<Rightarrow> bool" where
  "listens m i srcip srcport dstport \<longleftrightarrow>
     (let e = udptab m i in udstate e \<noteq> UDP_FREE \<and> udlocport e = dstport \<and> (udremport e = 0 \<or> udremport e = srcport) \<and>
       (udremip e = 0 \<or> udremip e = srcip) \<and> udcount e < UDP_QSIZ)"

definition first_listener :: "netst \<Rightarrow> int \<Rightarrow> int \<Rightarrow> int \<Rightarrow> int \<Rightarrow> bool" where
  "first_listener m i srcip srcport dstport \<longleftrightarrow> 0 \<le> i \<and> i < UDP_SLOTS \<and> listens m i srcip srcport dstport \<and>
     (\<forall>j. 0 \<le> j \<and> j < i \<longrightarrow> \<not> listens m j srcip srcport dstport)"

lemma udp_send_frame:
  assumes r: "in32 remip" "in16 remport" "in16 locport" "in16 (udp_ident n)" "in32 (ipucast (NetData n))"
    and len: "0 \<le> len" "len \<le> 1472" and b: "bytes_ok (pkts n a)" and a: "i32 a \<noteq> SYSERR"
    and rt: "route_known n remip mac"
  shows "\<exists>p q n1. (\<forall>dev. udp_send_rest dev remip remport locport buff len a n = (do {
        (r, n2) \<leftarrow> dev (Ip_frame q (42 + len)) n1;
        (r, n2) \<leftarrow> (case r of Blocked \<Rightarrow> Some (Blocked, n2) | Ret v \<Rightarrow> ip_out_rest a v n2);
        Some (if r = Blocked then Blocked else Ret OK, n2) })) \<and>
      net_ethdst q = mac \<and> ip_out_packet p = Some q \<and> header_ok p \<and> bytes_ok p \<and>
      net_ipvh p = 69 \<and> net_ipproto p = IP_UDP \<and> net_ethtype p = ETH_IP \<and>
      net_ipsrc p = ipucast (NetData n) \<and> net_ipdst p = remip \<and> net_udpsport p = locport \<and> net_udpdport p = remport \<and>
      net_udplen p = 8 + len \<and> payload p len = map (\<lambda>i. u8 (ubuf n (buff + int i))) [0..<nat len]"
proof -
  obtain p0 where p0: "udp_fill remip remport locport (udp_ident n) (\<lambda>i. Some (ubuf n (buff + i))) len n (pkts n a) = Some p0"
    "header_ok p0" "bytes_ok p0" "net_ipvh p0 = 69" "net_ipproto p0 = IP_UDP" "net_ethtype p0 = ETH_IP" "net_iplen p0 = 28 + len"
    "net_ipsrc p0 = ipucast (NetData n)" "net_ipdst p0 = remip" "net_udpsport p0 = locport" "net_udpdport p0 = remport"
    "net_udplen p0 = 8 + len" "payload p0 len = map (\<lambda>i. u8 (ubuf n (buff + int i))) [0..<nat len]"
    using udp_fill_ok[OF r len, of "\<lambda>i. Some (ubuf n (buff + i))" "\<lambda>i. ubuf n (buff + i)", OF refl b] by blast
  define p where "p = p0\<lparr>net_ethdst := mac\<rparr>"
  have p: "header_ok p" "bytes_ok p" "net_ipvh p = 69" "net_ipproto p = IP_UDP" "net_ethtype p = ETH_IP" "net_iplen p = 28 + len"
    "net_ipsrc p = ipucast (NetData n)" "net_ipdst p = remip" "net_udpsport p = locport" "net_udpdport p = remport"
    "net_udplen p = 8 + len" "payload p len = map (\<lambda>i. u8 (ubuf n (buff + int i))) [0..<nat len]"
    using p0(2-) by (simp_all add: p_def header_ok_def bytes_ok_def net_udpsport_def net_udpdport_def net_udplen_def get16_def payload_def)
  obtain q where q: "ip_out_packet p = Some q" using ip_wire[OF p(1-3)] p(4) by (auto simp: IP_UDP_def IP_ICMP_def)
  have mac: "net_ethdst q = mac"
    using q p(4) by (auto simp: ip_out_packet_def Let_def p_def eth_hton_def ip_hton_def udp_hton_def set16_def)
  let ?n = "n\<lparr>udp_ident := u16 (udp_ident n + 1), pkts := (pkts n)(a := p0)\<rparr>"
  let ?n1 = "(set_mac a mac ?n)\<lparr>pkts := (pkts (set_mac a mac ?n))(a := q)\<rparr>"
  have nx: "next_hop d ?n = next_hop d n" for d by (simp add: next_hop_def)
  have sr: "arp_search d ?n = arp_search d n" for d by (simp add: arp_search_def cong: if_cong)
  have "route_known ?n (net_ipdst (pkts ?n a)) mac" using rt p0(9) unfolding route_known_def nx sr by simp
  then have "ip_send dev a ?n = ip_out dev a (set_mac a mac ?n)" for dev by (rule ip_send_known)
  moreover have "pkts (set_mac a mac ?n) a = p" by (simp add: set_mac_def upd_pkt_def p_def)
  ultimately have "ip_send dev a ?n = (do {
      (r, n2) \<leftarrow> dev (Ip_frame q (42 + len)) ?n1;
      case r of Blocked \<Rightarrow> Some (Blocked, n2) | Ret v \<Rightarrow> ip_out_rest a v n2 })" for dev
    using q p(6) by (simp add: ip_out_def Let_def ETH_HDR_LEN_def add.commute)
  then have "udp_send_rest dev remip remport locport buff len a n = (do {
        (r, n2) \<leftarrow> dev (Ip_frame q (42 + len)) ?n1;
        (r, n2) \<leftarrow> (case r of Blocked \<Rightarrow> Some (Blocked, n2) | Ret v \<Rightarrow> ip_out_rest a v n2);
        Some (if r = Blocked then Blocked else Ret OK, n2) })" for dev
    using a p0(1) by (simp add: udp_send_rest_def udp_transmit_def case_prod_unfold)
  then show ?thesis using mac q p by blast
qed

lemma udp_arrives:
  assumes q: "ip_out_packet p = Some q" and p: "header_ok p" "bytes_ok p" "net_ipvh p = 69" "net_ipproto p = IP_UDP"
    "net_ethtype p = ETH_IP"
    and m: "ipvalid (NetData m)" "net_ipdst p = ipucast (NetData m)"
    and fl: "first_listener m i (net_ipsrc p) (net_udpsport p) (net_udpdport p)" and g: "udp_good (udptab m i)"
    and st: "udstate (udptab m i) = UDP_USED"
  shows "\<exists>e r. netin_frame dev a (Ip_frame q l) m = Some (Ret OK, m\<lparr>pkts := (pkts m)(a := r), udptab := (udptab m)(i := e)\<rparr>) \<and>
    udp_good e \<and> udp_items e = udp_items (udptab m i) @ [a] \<and> udstate e = UDP_USED \<and>
    net_udplen r = net_udplen p \<and> net_ipsrc r = net_ipsrc p \<and> net_udpsport r = net_udpsport p \<and> (\<forall>k. payload r k = payload p k)"
proof -
  have "IP_UDP \<noteq> IP_ICMP" by (simp add: IP_UDP_def IP_ICMP_def)
  then obtain r x where r: "ip_in_packet (eth_ntoh q) = Some (r, True)" "r = (set16 6 0 p)\<lparr>net_ipcksum := x\<rparr>"
    using ip_wire[OF p(1-3)] p(4) q by auto
  have ty: "net_ethtype (eth_ntoh q) = ETH_IP"
    using q p(4,5) by (auto simp: ip_out_packet_def Let_def eth_ntoh_def eth_hton_def ip_hton_def udp_hton_def htons_htons ETH_IP_def)
  let ?me = "m\<lparr>pkts := (pkts m)(a := eth_ntoh q)\<rparr>"
  let ?m = "m\<lparr>pkts := (pkts m)(a := r)\<rparr>"
  have rf: "net_ipproto r = IP_UDP" "net_ipdst r = ipucast (NetData m)" "net_ipsrc r = net_ipsrc p"
    "net_udpsport r = net_udpsport p" "net_udpdport r = net_udpdport p" "net_udplen r = net_udplen p"
    using p(4) m(2) by (simp_all add: r(2) net_udpsport_def net_udpdport_def net_udplen_def get16_def set16_def)
  have pl: "payload r k = payload p k" for k by (simp add: payload_def r(2) set16_def)
  have "netin_frame dev a (Ip_frame q l) m = ip_in a ?me" using ty by (simp add: netin_frame_def Let_def)
  also have "\<dots> = ip_local a ?m" using r(1) rf m(1) by (simp add: ip_in_def Let_def)
  also have "\<dots> = udp_in a ?m" using rf by (simp add: ip_local_def)
  finally have ni: "netin_frame dev a (Ip_frame q l) m = udp_in a ?m" .
  have acc: "udp_accepts ?m a j \<longleftrightarrow> listens m j (net_ipsrc p) (net_udpsport p) (net_udpdport p)" for j
    using rf by (auto simp: udp_accepts_def listens_def udp_match_def Let_def)
  have "\<exists>e. udp_in a ?m = Some (Ret OK, ?m\<lparr>udptab := (udptab ?m)(i := e), kern := kern ?m\<rparr>) \<and> udp_good e \<and>
    udp_items e = udp_items (udptab ?m i) @ [a] \<and> udstate e = UDP_USED \<and> udremip e = udremip (udptab ?m i) \<and>
    udremport e = udremport (udptab ?m i) \<and> udlocport e = udlocport (udptab ?m i)"
    by (rule udp_in_ok) (use fl g st in \<open>auto simp: acc first_listener_def\<close>)
  then show ?thesis using ni rf pl by auto
qed


section \<open>Property\<close>

text \<open>C29: a datagram sent with udp_send reaches the process that listens for it on the other host. When
  the route of the sender is in its cache, udp_send (after it has its buffer a) hands one frame to
  the Ethernet device; the other host, whose address is the destination, puts the frame it reads
  (into the buffer b) into the queue of its first matching endpoint, and udp_recv there returns the
  number of bytes that fit and stores the bytes that were sent.\<close>

theorem udp_end_to_end:
  assumes "in32 remip" "in16 remport" "in16 locport" "in16 (udp_ident n)" "in32 (ipucast (NetData n))"
    and "0 \<le> len" "len \<le> 1472" and "bytes_ok (pkts n a)" and "i32 a \<noteq> SYSERR" and "route_known n remip mac"
    and bytes: "\<forall>i. 0 \<le> ubuf n i \<and> ubuf n i < 256"
    and m: "ipvalid (NetData m)" "ipucast (NetData m) = remip"
    and fl: "first_listener m i (ipucast (NetData n)) locport remport" and g: "udp_good (udptab m i)"
    and e: "udstate (udptab m i) = UDP_USED" "udp_items (udptab m i) = []"
    and fr: "freebuf b (kern m) = Some (x, k)"
  shows "\<exists>q n1 m1 m2.
    (\<forall>dev n2 y k2. dev (Ip_frame q (42 + len)) n1 = Some (Ret OK, n2) \<longrightarrow> freebuf a (kern n2) = Some (y, k2) \<longrightarrow>
       udp_send_rest dev remip remport locport buff len a n = Some (Ret OK, n2\<lparr>kern := k2\<rparr>)) \<and>
    netin_frame dev' b (Ip_frame q (42 + len)) m = Some (Ret OK, m1) \<and>
    udp_recv i buff' len' t m1 = Some (Ret (min len' len), m2) \<and>
    (\<forall>j. 0 \<le> j \<and> j < min len' len \<longrightarrow> ubuf m2 (buff' + j) = ubuf n (buff + j))"
proof -
  obtain p q n1 where pq: "\<forall>dev. udp_send_rest dev remip remport locport buff len a n = (do {
        (r, n2) \<leftarrow> dev (Ip_frame q (42 + len)) n1;
        (r, n2) \<leftarrow> (case r of Blocked \<Rightarrow> Some (Blocked, n2) | Ret v \<Rightarrow> ip_out_rest a v n2);
        Some (if r = Blocked then Blocked else Ret OK, n2) })"
      "ip_out_packet p = Some q" "header_ok p" "bytes_ok p"
      "net_ipvh p = 69" "net_ipproto p = IP_UDP" "net_ethtype p = ETH_IP"
      "net_ipsrc p = ipucast (NetData n)" "net_ipdst p = remip" "net_udpsport p = locport" "net_udpdport p = remport"
      "net_udplen p = 8 + len" "payload p len = map (\<lambda>i. u8 (ubuf n (buff + int i))) [0..<nat len]"
    using udp_send_frame[OF assms(1-10), of buff] by blast
  have send: "udp_send_rest dev remip remport locport buff len a n = Some (Ret OK, n2\<lparr>kern := k2\<rparr>)"
    if "dev (Ip_frame q (42 + len)) n1 = Some (Ret OK, n2)" "freebuf a (kern n2) = Some (y, k2)" for dev n2 y k2
    unfolding pq(1)[rule_format] using that by (simp add: ip_out_rest_def free_pkt_def kcall_net_def)
  obtain f r where fr': "netin_frame dev' b (Ip_frame q (42 + len)) m = Some (Ret OK, m\<lparr>pkts := (pkts m)(b := r), udptab := (udptab m)(i := f)\<rparr>)"
    "udp_good f" "udp_items f = [b]" "udstate f = UDP_USED" "net_udplen r = 8 + len" "\<forall>k. payload r k = payload p k"
    using udp_arrives[OF pq(2-7) m(1) _ _ g e(1), of dev' b "42 + len"] pq(8-12) m(2) fl e(2) by auto
  let ?m1 = "m\<lparr>pkts := (pkts m)(b := r), udptab := (udptab m)(i := f)\<rparr>"
  let ?c = "min len' len"
  let ?u = "put (ubuf m) buff' (payload r ?c)"
  have i: "\<not> i < 0" "\<not> i \<ge> UDP_SLOTS" using fl by (simp_all add: first_listener_def)
  have nz: "udcount f \<noteq> 0" using fr'(3) by (auto simp: udp_items_def ring_items_def)
  have u1: "udp_recv i buff' len' t ?m1 = udp_take i buff' len' ?m1"
    using i nz fr'(4) by (simp add: udp_recv_def udp_wait_def)
  have pl: "payload r ?c = payload (pkts ?m1 b) (min len' (net_udplen (pkts ?m1 b) - 8))" using fr'(5) by simp
  have "\<exists>g. udp_take i buff' len' ?m1 = Some (Ret ?c, ?m1\<lparr>udptab := (udptab ?m1)(i := g), ubuf := ?u, kern := k\<rparr>)"
    using udp_take_ok[of ?m1 i b "[]" x k buff' len'] fr'(2,3,5) fr assms(7) by (simp add: NET_DATA_def) blast
  then obtain g where rc: "udp_recv i buff' len' t ?m1 = Some (Ret ?c, ?m1\<lparr>udptab := (udptab ?m1)(i := g), ubuf := ?u, kern := k\<rparr>)"
    unfolding u1 by blast
  have "?u (buff' + j) = ubuf n (buff + j)" if j: "0 \<le> j" "j < ?c" for j
  proof -
    have l: "nat j < nat ?c" "nat j < nat len" using j by auto
    have "?u (buff' + int (nat j)) = payload r ?c ! nat j" by (rule put_in) (use l in \<open>simp add: payload_def\<close>)
    also have "\<dots> = net_data r (8 + int (nat j))" using l by (simp add: payload_def)
    also have "\<dots> = payload r len ! nat j" using l by (simp add: payload_def)
    also have "\<dots> = payload p len ! nat j" using fr'(6) by simp
    also have "\<dots> = ubuf n (buff + j)" unfolding pq(13) using l j bytes by (simp add: u8_id)
    finally show ?thesis using j by simp
  qed
  then show ?thesis using send fr'(1) rc by (intro exI[of _ q] exI[of _ n1] exI[of _ ?m1] exI[of _ "?m1\<lparr>udptab := (udptab ?m1)(i := g), ubuf := ?u, kern := k\<rparr>"]) simp
qed

text \<open>Two hosts on one network, 10.0.0.1 and 10.0.0.2; each knows the other's Ethernet address and has an
  endpoint on port 7.\<close>

definition demo_kern :: kst where
  "demo_kern = demo\<lparr>nbpools := 1, buftab := (\<lambda>_. \<lparr>bpnext = 0, bpsem = 1, bpsize = 1536\<rparr>)\<rparr>"

definition demo_host :: "int \<Rightarrow> int \<Rightarrow> netst" where
  "demo_host me you = \<lparr>kern = demo_kern,
     NetData = \<lparr>ipucast = me, ipbcast = 167772415, ipmask = 4294967040, ipprefix = 167772160, iprouter = 167772414,
       ipvalid = True, ethucast = [2, 0, 0, 0, 0, me mod 256], ethbcast = [255, 255, 255, 255, 255, 255]\<rparr>,
     netbufpool = 0,
     pkts = (\<lambda>_. \<lparr>net_ethdst = [], net_ethsrc = [], net_ethtype = 0, net_ipvh = 0, net_iptos = 0, net_iplen = 0, net_ipid = 0,
       net_ipfrag = 0, net_ipttl = 0, net_ipproto = 0, net_ipcksum = 0, net_ipsrc = 0, net_ipdst = 0, net_data = (\<lambda>_. 0)\<rparr>),
     arppkts = (\<lambda>_. \<lparr>arp_ethdst = [], arp_ethsrc = [], arp_ethtype = 0, arp_htype = 0, arp_ptype = 0, arp_hlen = 0, arp_plen = 0,
       arp_op = 0, arp_sndha = [], arp_sndpa = 0, arp_tarha = [], arp_tarpa = 0\<rparr>),
     udptab = (\<lambda>i. \<lparr>udstate = (if i = 0 then UDP_USED else UDP_FREE), udremip = 0, udremport = 0, udlocport = 7, udhead = 0,
       udtail = 0, udcount = 0, udpid = -1, udqueue = (\<lambda>_. 0)\<rparr>),
     icmptab = (\<lambda>_. \<lparr>icstate = ICMP_FREE, icremip = 0, ichead = 0, ictail = 0, iccount = 0, icpid = -1, icqueue = (\<lambda>_. 0)\<rparr>),
     arpcache = (\<lambda>i. \<lparr>arstate = (if i = 3 then AR_RESOLVED else AR_FREE), arpaddr = you, arpid = -1,
       arhaddr = [2, 0, 0, 0, 0, you mod 256]\<rparr>),
     ipoqueue = \<lparr>iqhead = 0, iqtail = 0, iqsem = 0, iqbuf = (\<lambda>_. 0)\<rparr>,
     ubuf = (\<lambda>i. i mod 256), udp_ident = 65535, udpto_ident = 0, ipident = 0\<rparr>"

lemma demo_host_route: "route_known (demo_host 167772161 167772162) 167772162 [2, 0, 0, 0, 0, 2]"
proof -
  have "arp_search 167772162 (demo_host 167772161 167772162) = Some 3" by code_simp
  moreover have "next_hop 167772162 (demo_host 167772161 167772162) = 167772162" by code_simp
  ultimately show ?thesis by (auto simp: route_known_def demo_host_def IP_BCAST_def ARP_SIZ_def intro!: exI[of _ 3])
qed

lemma demo_host_free: "\<exists>x k. freebuf 8004 (kern (demo_host 167772162 167772161)) = Some (x, k)"
proof -
  have "freebuf 8004 demo_kern \<noteq> None" by code_simp
  then show ?thesis by (auto simp: demo_host_def)
qed

theorem udp_end_to_end_witness:
  "\<exists>q m1 m2. netin_frame (\<lambda>_ n. Some (Ret OK, n)) 8004 (Ip_frame q 47) (demo_host 167772162 167772161) = Some (Ret OK, m1) \<and>
    udp_recv 0 500 100 1000 m1 = Some (Ret 5, m2) \<and> (\<forall>j. 0 \<le> j \<and> j < 5 \<longrightarrow> ubuf m2 (500 + j) = 66 + j)"
proof -
  let ?n = "demo_host 167772161 167772162" and ?m = "demo_host 167772162 167772161"
  obtain x k where fr: "freebuf 8004 (kern ?m) = Some (x, k)" using demo_host_free by blast
  have fl: "first_listener ?m 0 (ipucast (NetData ?n)) 7 7"
    by (auto simp: first_listener_def listens_def demo_host_def UDP_SLOTS_def UDP_QSIZ_def)
  have g: "udp_good (udptab ?m 0)" by code_simp
  have r: "in32 167772162" "in16 7" "in16 (udp_ident ?n)" "in32 (ipucast (NetData ?n))" "0 \<le> (5::int)" "(5::int) \<le> 1472"
    "bytes_ok (pkts ?n 9000)" "i32 9000 \<noteq> SYSERR" "\<forall>i. 0 \<le> ubuf ?n i \<and> ubuf ?n i < 256" "ipvalid (NetData ?m)"
    "ipucast (NetData ?m) = 167772162" "udstate (udptab ?m 0) = UDP_USED" "udp_items (udptab ?m 0) = []"
    by (simp_all add: demo_host_def in32_def in16_def bytes_ok_def i32_def udp_items_def ring_items_def)
  note e = udp_end_to_end[of 167772162 7 7 ?n 5 9000 _ ?m 0 8004 x k 66 "\<lambda>_ n. Some (Ret OK, n)" 500 100 1000,
      OF r(1) r(2) r(2) r(3) r(4) r(5) r(6) r(7) r(8) demo_host_route r(9) r(10) r(11) fl g r(12) r(13) fr]
  obtain q m1 m2 where d: "netin_frame (\<lambda>_ n. Some (Ret OK, n)) 8004 (Ip_frame q (42 + 5)) ?m = Some (Ret OK, m1)"
    "udp_recv 0 500 100 1000 m1 = Some (Ret (min 100 5), m2)"
    "\<forall>j. 0 \<le> j \<and> j < min 100 5 \<longrightarrow> ubuf m2 (500 + j) = ubuf ?n (66 + j)" using e by (elim exE conjE) blast
  have "ubuf ?n (66 + j) = 66 + j" if "0 \<le> j" "j < 5" for j using that by (simp add: demo_host_def)
  then show ?thesis using d by (intro exI[of _ q] exI[of _ m1] exI[of _ m2]) simp
qed

end
