(* ===== verification/Arp_Exchange.thy ===== *)
theory Arp_Exchange
  imports Net_Delivery
begin

text \<open>
  The ARP cache (Net_Arp): no address is in it twice, whatever packets arrive and whatever calls are
  made, and two hosts that do not know each other find each other's Ethernet addresses.
\<close>

section \<open>Searching the cache\<close>

text \<open>The entry i is in use, for the address a.\<close>

definition arp_match :: "int \<Rightarrow> netst \<Rightarrow> int \<Rightarrow> bool" where
  "arp_match a n i \<longleftrightarrow> arstate (arpcache n i) \<noteq> AR_FREE \<and> arpaddr (arpcache n i) = a"

lemma arp_search_cases:
  obtains (hit) i where "arp_search a n = Some i" "0 \<le> i" "i < ARP_SIZ" "arp_match a n i" "\<forall>j. 0 \<le> j \<and> j < i \<longrightarrow> \<not> arp_match a n j"
  | (miss) "arp_search a n = Some ARP_SIZ" "\<forall>j. 0 \<le> j \<and> j < ARP_SIZ \<longrightarrow> \<not> arp_match a n j"
proof -
  have e: "(if arstate (arpcache n i) = AR_FREE then Inl (i + 1) else if arpaddr (arpcache n i) = a then Inr i else Inl (i + 1)) =
      (if arp_match a n i then Inr i else Inl (i + 1))" for i by (simp add: arp_match_def)
  have "0 \<le> ARP_SIZ" by (simp add: ARP_SIZ_def)
  from scan_first[OF this, of "arp_match a n"] show ?thesis
    using hit miss unfolding arp_search_def e by (auto simp: order_le_less)
qed

lemma arp_first_cases:
  obtains (hit) i where "arp_first st n = Some i" "0 \<le> i" "i < ARP_SIZ" "arstate (arpcache n i) = st"
  | (miss) "arp_first st n = Some ARP_SIZ" "\<forall>j. 0 \<le> j \<and> j < ARP_SIZ \<longrightarrow> arstate (arpcache n j) \<noteq> st"
proof -
  have "0 \<le> ARP_SIZ" by (simp add: ARP_SIZ_def)
  from scan_first[OF this, of "\<lambda>i. arstate (arpcache n i) = st"] show ?thesis
    using hit miss unfolding arp_first_def by (auto simp: order_le_less)
qed

text \<open>arp_alloc fails only if every entry is pending, and otherwise clears one that is not.\<close>

lemma arp_alloc_cases:
  obtains (slot) i where "arp_alloc n = Some (i, upd_arp i (\<lambda>_. arp_clear) n)" "0 \<le> i" "i < ARP_SIZ" "arstate (arpcache n i) \<noteq> AR_PENDING"
  | (full) "arp_alloc n = Some (SYSERR, n)" "\<forall>j. 0 \<le> j \<and> j < ARP_SIZ \<longrightarrow> arstate (arpcache n j) = AR_PENDING"
proof (cases rule: arp_first_cases[where st = AR_FREE and n = n])
  case (hit i)
  then show ?thesis using slot[of i] by (simp add: arp_alloc_def)
next
  case fr: miss
  show ?thesis
  proof (cases rule: arp_first_cases[where st = AR_RESOLVED and n = n])
    case (hit i)
    then show ?thesis using slot[of i] fr by (simp add: arp_alloc_def)
  next
    case miss
    have "arstate (arpcache n j) = AR_PENDING" if "0 \<le> j" "j < ARP_SIZ" for j
      using that fr(2) miss(2) by (cases "arstate (arpcache n j)") auto
    then show ?thesis using full fr(1) miss(1) by (simp add: arp_alloc_def)
  qed
qed

section \<open>One entry for each address\<close>

definition arp_ok :: "netst \<Rightarrow> bool" where
  "arp_ok n \<longleftrightarrow> (\<forall>i j. 0 \<le> i \<and> i < ARP_SIZ \<and> 0 \<le> j \<and> j < ARP_SIZ \<and> i \<noteq> j \<and> arstate (arpcache n i) \<noteq> AR_FREE \<and>
     arstate (arpcache n j) \<noteq> AR_FREE \<longrightarrow> arpaddr (arpcache n i) \<noteq> arpaddr (arpcache n j))"

lemma arp_ok_cong: "arpcache t = arpcache n \<Longrightarrow> arp_ok t = arp_ok n"
  by (simp add: arp_ok_def)

lemma arp_ok_upd:
  assumes ok: "arp_ok n"
    and e: "arstate (g (arpcache n i)) = AR_FREE \<or> (\<forall>j. 0 \<le> j \<and> j < ARP_SIZ \<and> j \<noteq> i \<longrightarrow> \<not> arp_match (arpaddr (g (arpcache n i))) n j)"
  shows "arp_ok (upd_arp i g n)"
  unfolding arp_ok_def
proof (intro allI impI)
  fix x y
  assume h: "0 \<le> x \<and> x < ARP_SIZ \<and> 0 \<le> y \<and> y < ARP_SIZ \<and> x \<noteq> y \<and> arstate (arpcache (upd_arp i g n) x) \<noteq> AR_FREE \<and>
    arstate (arpcache (upd_arp i g n) y) \<noteq> AR_FREE"
  show "arpaddr (arpcache (upd_arp i g n) x) \<noteq> arpaddr (arpcache (upd_arp i g n) y)"
  proof (cases "x = i")
    case True
    then show ?thesis using h e by (simp add: upd_arp_def arp_match_def) metis
  next
    case x: False
    show ?thesis
    proof (cases "y = i")
      case True
      then show ?thesis using h e x by (simp add: upd_arp_def arp_match_def) metis
    next
      case False
      then show ?thesis using h x ok by (simp add: upd_arp_def arp_ok_def)
    qed
  qed
qed

lemma arp_ok_others:
  assumes "arp_ok n" "arp_match a n i" "0 \<le> i" "i < ARP_SIZ" "0 \<le> j" "j < ARP_SIZ" "j \<noteq> i"
  shows "\<not> arp_match a n j"
  using assms unfolding arp_ok_def arp_match_def by metis

lemma arp_alloc_ok:
  assumes ok: "arp_ok n" and al: "arp_alloc n = Some (i, t)"
  shows "arp_ok t" "\<not> arp_match a n j \<Longrightarrow> \<not> arp_match a t j" "arpcache t = arpcache n \<or> arpcache t = (arpcache n)(i := arp_clear)"
proof -
  have "arp_ok t \<and> (\<not> arp_match a n j \<longrightarrow> \<not> arp_match a t j) \<and> (arpcache t = arpcache n \<or> arpcache t = (arpcache n)(i := arp_clear))"
  proof (cases rule: arp_alloc_cases[of n])
    case (slot k)
    then have t: "t = upd_arp i (\<lambda>_. arp_clear) n" using al by simp
    have "arp_ok (upd_arp i (\<lambda>_. arp_clear) n)" by (rule arp_ok_upd[OF ok]) (simp add: arp_clear_def)
    then show ?thesis unfolding t by (simp add: arp_match_def upd_arp_def arp_clear_def)
  qed (use ok al in simp)
  then show "arp_ok t" "\<not> arp_match a n j \<Longrightarrow> \<not> arp_match a t j" "arpcache t = arpcache n \<or> arpcache t = (arpcache n)(i := arp_clear)"
    by blast+
qed

text \<open>A new entry for an address that is not in the cache.\<close>

lemma arp_enter_ok:
  assumes "arp_ok n" "\<forall>j. 0 \<le> j \<and> j < ARP_SIZ \<longrightarrow> \<not> arp_match a n j" "arp_alloc n = Some (i, t)" "\<And>e. arpaddr (g e) = a"
  shows "arp_ok (upd_arp i g t)"
  by (rule arp_ok_upd) (use assms arp_alloc_ok[OF assms(1,3)] in auto)

section \<open>The calls keep the cache in order\<close>

text \<open>The Ethernet driver has no access to the cache.\<close>

definition cache_kept :: "ethdev \<Rightarrow> bool" where
  "cache_kept dev \<longleftrightarrow> (\<forall>f n r t. dev f n = Some (r, t) \<longrightarrow> arpcache t = arpcache n)"

lemma cache_keptD: "cache_kept dev \<Longrightarrow> dev f n = Some (r, t) \<Longrightarrow> arpcache t = arpcache n"
  by (simp add: cache_kept_def)

lemma kcall_net_cache:
  "kcall_net f n = Some (r, t) \<Longrightarrow> arpcache t = arpcache n"
  "kblock_net g n = Some (q, t) \<Longrightarrow> arpcache t = arpcache n"
  "free_ret p v n = Some (q, t) \<Longrightarrow> arpcache t = arpcache n"
  by (auto simp: kcall_net_def kblock_net_def free_ret_def free_pkt_def split: bind_splits)

lemma arp_answer_cache: "cache_kept dev \<Longrightarrow> arp_answer dev p n = Some (r, t) \<Longrightarrow> arpcache t = arpcache n"
  by (auto simp: arp_answer_def kcall_net_cache(3) dest: cache_keptD split: bind_splits outcome.splits)

lemma arp_in_rest_ok:
  assumes d: "cache_kept dev" and ok: "arp_ok n" and r: "arp_in_rest dev p found n = Some (r, t)"
    and nf: "\<not> found \<Longrightarrow> \<forall>j. 0 \<le> j \<and> j < ARP_SIZ \<longrightarrow> \<not> arp_match (arp_sndpa (arppkts n p)) n j"
  shows "arp_ok t"
proof (cases "arpcache t = arpcache n")
  case True
  then show ?thesis using ok arp_ok_cong by blast
next
  case False
  let ?q = "arppkts n p"
  have nfo: "\<not> found" using False r d by (auto simp: arp_in_rest_def Let_def kcall_net_cache(3) arp_answer_cache split: if_splits)
  obtain i u where al: "arp_alloc n = Some (i, u)" by (cases rule: arp_alloc_cases[of n]) blast+
  let ?g = "\<lambda>e :: arpentry. e\<lparr>arpaddr := arp_sndpa ?q, arhaddr := arp_sndha ?q, arstate := AR_RESOLVED\<rparr>"
  have "i = SYSERR \<Longrightarrow> arpcache u = arpcache n" using al by (cases rule: arp_alloc_cases[of n]) auto
  then have "arp_answer dev p (upd_arp i ?g u) = Some (r, t)"
    using False r nfo al by (auto simp: arp_in_rest_def Let_def kcall_net_cache(3) split: if_splits)
  then have "arpcache t = arpcache (upd_arp i ?g u)" by (rule arp_answer_cache[OF d])
  moreover have "arp_ok (upd_arp i ?g u)" by (rule arp_enter_ok[OF ok nf[OF nfo] al]) simp
  ultimately show ?thesis using arp_ok_cong by blast
qed

lemma arp_in_ok:
  assumes d: "cache_kept dev" and ok: "arp_ok n" and r: "arp_in dev p n = Some (r, t)"
  shows "arp_ok t"
proof -
  define m where "m = n\<lparr>arppkts := (arppkts n)(p := arp_ntoh (arppkts n p))\<rparr>"
  let ?q = "arppkts m p"
  have okm: "arp_ok m" using ok arp_ok_cong[of m n] by (simp add: m_def)
  have u: "arp_ok (upd_arp i g m)" if "arp_match (arp_sndpa ?q) m i" "\<And>e. arpaddr (g e) = arpaddr e" "0 \<le> i" "i < ARP_SIZ" for i g
    by (rule arp_ok_upd[OF okm]) (use that arp_ok_others[OF okm that(1)] in \<open>auto simp: arp_match_def\<close>)
  show ?thesis
  proof (cases "arp_htype ?q \<noteq> ARP_HTYPE \<or> arp_ptype ?q \<noteq> ARP_PTYPE")
    case True
    then have "free_ret p OK m = Some (r, t)" using r by (simp add: arp_in_def m_def Let_def)
    then show ?thesis using kcall_net_cache(3) arp_ok_cong okm by blast
  next
    case False
    show ?thesis
    proof (cases rule: arp_search_cases[of "arp_sndpa ?q" m])
      case miss
      then have "arp_in_rest dev p False m = Some (r, t)" using r False by (simp add: arp_in_def m_def Let_def)
      then show ?thesis using arp_in_rest_ok[OF d okm] miss(2) by blast
    next
      case (hit i)
      define m1 where "m1 = upd_arp i (\<lambda>e. e\<lparr>arhaddr := arp_sndha ?q\<rparr>) m"
      define m2 where "m2 = upd_arp i (\<lambda>e. e\<lparr>arstate := AR_RESOLVED\<rparr>) m1"
      have ok1: "arp_ok m1" unfolding m1_def by (rule u[OF hit(4) _ hit(2,3)]) simp
      have m2: "m2 = upd_arp i (\<lambda>e. e\<lparr>arhaddr := arp_sndha ?q, arstate := AR_RESOLVED\<rparr>) m" by (simp add: m2_def m1_def upd_arp_def)
      have ok2: "arp_ok m2" unfolding m2 by (rule u[OF hit(4) _ hit(2,3)]) simp
      have st: "arstate (arpcache m1 i) = arstate (arpcache m i)" by (simp add: m1_def upd_arp_def)
      show ?thesis
      proof (cases "arstate (arpcache m i) = AR_PENDING")
        case False
        have "arp_in_rest dev p True m1 = Some (r, t)"
          using r hit(1,3) \<open>\<not> (arp_htype ?q \<noteq> ARP_HTYPE \<or> arp_ptype ?q \<noteq> ARP_PTYPE)\<close> False st
          by (simp add: arp_in_def m_def[symmetric] Let_def m1_def[symmetric])
        then show ?thesis using arp_in_rest_ok[OF d ok1] by blast
      next
        case True
        obtain x v where v: "kcall_net (send (arpid (arpcache m2 i)) OK) m2 = Some (x, v)" "then_net m2 (arp_in_rest dev p True) v = Some (r, t)"
          using r hit(1,3) \<open>\<not> (arp_htype ?q \<noteq> ARP_HTYPE \<or> arp_ptype ?q \<noteq> ARP_PTYPE)\<close> True st
          by (auto simp: arp_in_def m_def[symmetric] Let_def m1_def[symmetric] m2_def[symmetric] split: bind_splits)
        have "arp_ok v" using arp_ok_cong[OF kcall_net_cache(1)[OF v(1)]] ok2 by simp
        then show ?thesis using v(2) arp_in_rest_ok[OF d, of v p True] by (auto simp: then_net_def split: if_splits)
      qed
    qed
  qed
qed

lemma arp_try_ok:
  assumes "cache_kept dev" "arp_ok n" "arp_try dev slot p apkt k n = Some (r, t)"
  shows "arp_ok t"
  using assms(2,3)
proof (induction k arbitrary: n)
  case 0
  then show ?case using arp_ok_upd[OF 0(1), of "\<lambda>e. e\<lparr>arstate := AR_FREE\<rparr>" slot] by simp
next
  case (Suc k)
  obtain q n1 where d: "dev (Arp_frame apkt) n = Some (q, n1)" using Suc.prems(2) by (auto split: bind_splits)
  have ok1: "arp_ok n1" using arp_ok_cong[OF cache_keptD[OF assms(1) d]] Suc.prems(1) by simp
  show ?case
  proof (cases q)
    case Blocked
    then show ?thesis using Suc.prems(2) d ok1 by simp
  next
    case (Ret w)
    obtain z n2 where rt: "kblock_net (recvtime ARP_TIMEOUT) n1 = Some (z, n2)"
      using Suc.prems(2) d Ret by (auto split: bind_splits)
    have ok2: "arp_ok n2" using arp_ok_cong[OF kcall_net_cache(2)[OF rt]] ok1 by simp
    have "arp_ok (set_mac p mac n2)" for mac using arp_ok_cong[of "set_mac p mac n2" n2] ok2 by (simp add: set_mac_def upd_pkt_def)
    then show ?thesis using Suc d Ret rt ok2 by (auto simp: arp_found_def split: outcome.splits if_splits)
  qed
qed

lemma arp_resolve_ok:
  assumes d: "cache_kept dev" and ok: "arp_ok n" and r: "arp_resolve dev nxthop p n = Some (r, t)"
  shows "arp_ok t"
proof -
  have sm: "arp_ok (set_mac p mac n)" for mac using arp_ok_cong[of "set_mac p mac n" n] ok by (simp add: set_mac_def upd_pkt_def)
  show ?thesis
  proof (cases "nxthop = IP_BCAST \<or> nxthop = ipbcast (NetData n)")
    case True
    then show ?thesis using r sm by (auto simp: arp_resolve_def)
  next
    case nb: False
    show ?thesis
    proof (cases rule: arp_search_cases[of nxthop n])
      case (hit i)
      then have "arstate (arpcache n i) \<noteq> AR_FREE" by (simp add: arp_match_def)
      then show ?thesis using r nb hit sm ok by (cases "arstate (arpcache n i)") (auto simp: arp_resolve_def)
    next
      case miss
      obtain i u where al: "arp_alloc n = Some (i, u)" by (cases rule: arp_alloc_cases[of n]) blast+
      let ?g = "\<lambda>e :: arpentry. e\<lparr>arstate := AR_PENDING, arpaddr := nxthop, arpid := currpid (kern u)\<rparr>"
      have oku: "arp_ok u" using arp_alloc_ok(1)[OF ok al] .
      have okv: "arp_ok (upd_arp i ?g u)" by (rule arp_enter_ok[OF ok miss(2) al]) simp
      show ?thesis
      proof (cases "i = SYSERR")
        case True
        then show ?thesis using r nb miss(1) al oku by (simp add: arp_resolve_def)
      next
        case False
        obtain x v where v: "kcall_net recvclr (upd_arp i ?g u) = Some (x, v)"
          "arp_try dev i p (arp_request nxthop (upd_arp i ?g u)) ARP_RETRY v = Some (r, t)"
          using r nb miss(1) al False by (auto simp: arp_resolve_def Let_def split: bind_splits)
        have "arp_ok v" using arp_ok_cong[OF kcall_net_cache(1)[OF v(1)]] okv by simp
        then show ?thesis using arp_try_ok[OF d _ v(2)] by blast
      qed
    qed
  qed
qed

lemma arp_resume_ok:
  assumes d: "cache_kept dev" and ok: "arp_ok n" and r: "arp_resume dev slot p apkt k n = Some (r, t)"
  shows "arp_ok t"
proof -
  obtain msg s where m: "recvtime_rest (kern n) = (msg, s)" by fastforce
  have ok1: "arp_ok (n\<lparr>kern := s\<rparr>)" using arp_ok_cong[of "n\<lparr>kern := s\<rparr>" n] ok by simp
  have "arp_ok (set_mac p mac (n\<lparr>kern := s\<rparr>))" for mac
    using arp_ok_cong[of "set_mac p mac (n\<lparr>kern := s\<rparr>)" n] ok by (simp add: set_mac_def upd_pkt_def)
  then show ?thesis using r m ok1 arp_try_ok[OF d ok1] by (auto simp: arp_resume_def Let_def arp_found_def split: if_splits)
qed

text \<open>C31: no address is in the ARP cache twice: neither an ARP packet that arrives, nor a look-up of
  an address, nor its continuation after a wait or a timeout makes two entries in use for one
  address, whichever of them were in the cache before.\<close>

theorem arp_cache_distinct:
  assumes "cache_kept dev" "arp_ok n"
  shows "(\<forall>p r t. arp_in dev p n = Some (r, t) \<longrightarrow> arp_ok t) \<and>
    (\<forall>p r t. arp_in_rest dev p True n = Some (r, t) \<longrightarrow> arp_ok t) \<and>
    (\<forall>nxthop p r t. arp_resolve dev nxthop p n = Some (r, t) \<longrightarrow> arp_ok t) \<and>
    (\<forall>slot p apkt k r t. arp_resume dev slot p apkt k n = Some (r, t) \<longrightarrow> arp_ok t)"
  using arp_in_ok[OF assms] arp_in_rest_ok[OF assms, of _ True] arp_resolve_ok[OF assms] arp_resume_ok[OF assms] by blast

section \<open>A request and its answer\<close>

definition arp_wire :: "arppacket \<Rightarrow> arppacket" where
  "arp_wire p = (let q = arp_hton p in q\<lparr>arp_ethtype := htons (arp_ethtype q)\<rparr>)"

definition arp_fields_ok :: "arppacket \<Rightarrow> bool" where
  "arp_fields_ok p \<longleftrightarrow> arp_ethtype p = ETH_ARP \<and> arp_htype p = ARP_HTYPE \<and> arp_ptype p = ARP_PTYPE \<and> in16 (arp_op p) \<and>
     in32 (arp_sndpa p) \<and> in32 (arp_tarpa p)"

text \<open>What netin does with an ARP frame depends on the packet that was sent, not on its byte order.\<close>

lemma arp_arrives:
  assumes "arp_fields_ok p"
  shows "netin_frame dev b (Arp_frame (arp_wire p)) n = (let m = n\<lparr>arppkts := (arppkts n)(b := p)\<rparr> in do {
      slot \<leftarrow> arp_search (arp_sndpa p) m;
      if slot < ARP_SIZ then do {
        let m1 = upd_arp slot (\<lambda>e. e\<lparr>arhaddr := arp_sndha p\<rparr>) m;
        if arstate (arpcache m1 slot) = AR_PENDING then do {
          let m2 = upd_arp slot (\<lambda>e. e\<lparr>arstate := AR_RESOLVED\<rparr>) m1;
          (_, t) \<leftarrow> kcall_net (send (arpid (arpcache m2 slot)) OK) m2;
          then_net m2 (arp_in_rest dev b True) t }
        else arp_in_rest dev b True m1 }
      else arp_in_rest dev b False m })"
proof -
  let ?w = "(arp_wire p)\<lparr>arp_ethtype := ntohs (arp_ethtype (arp_wire p))\<rparr>"
  have e: "arp_ethtype ?w = ETH_ARP"
    using assms by (simp add: arp_wire_def Let_def arp_hton_def htons_htons arp_fields_ok_def ETH_ARP_def)
  have n: "arp_ntoh ?w = p"
    using assms by (cases p) (simp add: arp_wire_def Let_def arp_hton_def arp_ntoh_def htons_htons htonl_htonl arp_fields_ok_def
      ETH_ARP_def ARP_HTYPE_def ARP_PTYPE_def in16_def in32_def)
  have "netin_frame dev b (Arp_frame (arp_wire p)) n = arp_in dev b (n\<lparr>arppkts := (arppkts n)(b := ?w)\<rparr>)"
    using e by (simp add: netin_frame_def Let_def)
  also have "\<dots> = (let m = n\<lparr>arppkts := (arppkts n)(b := p)\<rparr> in do {
      slot \<leftarrow> arp_search (arp_sndpa p) m;
      if slot < ARP_SIZ then do {
        let m1 = upd_arp slot (\<lambda>e. e\<lparr>arhaddr := arp_sndha p\<rparr>) m;
        if arstate (arpcache m1 slot) = AR_PENDING then do {
          let m2 = upd_arp slot (\<lambda>e. e\<lparr>arstate := AR_RESOLVED\<rparr>) m1;
          (_, t) \<leftarrow> kcall_net (send (arpid (arpcache m2 slot)) OK) m2;
          then_net m2 (arp_in_rest dev b True) t }
        else arp_in_rest dev b True m1 }
      else arp_in_rest dev b False m })"
    using assms n by (simp add: arp_in_def arp_fields_ok_def Let_def cong: if_cong)
  finally show ?thesis .
qed

text \<open>The packets that arp_resolve and arp_in make, in host order.\<close>

definition arp_question :: "int \<Rightarrow> network \<Rightarrow> arppacket" where
  "arp_question a d = \<lparr>arp_ethdst = ethbcast d, arp_ethsrc = ethucast d, arp_ethtype = ETH_ARP,
     arp_htype = ARP_HTYPE, arp_ptype = ARP_PTYPE, arp_hlen = 6, arp_plen = 4, arp_op = ARP_OP_REQ,
     arp_sndha = ethucast d, arp_sndpa = ipucast d, arp_tarha = [0, 0, 0, 0, 0, 0], arp_tarpa = a\<rparr>"

definition arp_statement :: "arppacket \<Rightarrow> network \<Rightarrow> arppacket" where
  "arp_statement q d = \<lparr>arp_ethdst = arp_sndha q, arp_ethsrc = ethucast d, arp_ethtype = ETH_ARP,
     arp_htype = ARP_HTYPE, arp_ptype = ARP_PTYPE, arp_hlen = 6, arp_plen = 4, arp_op = ARP_OP_RPLY,
     arp_sndha = ethucast d, arp_sndpa = ipucast d, arp_tarha = arp_sndha q, arp_tarpa = arp_sndpa q\<rparr>"

lemma arp_request_wire: "arp_request a n = arp_wire (arp_question a (NetData n))"
  by (simp add: arp_request_def arp_wire_def arp_question_def)

lemma arp_reply_wire: "arp_reply q n = arp_wire (arp_statement q (NetData n))"
  by (simp add: arp_reply_def arp_wire_def arp_statement_def)

lemma question_ok: "in32 a \<Longrightarrow> in32 (ipucast d) \<Longrightarrow> arp_fields_ok (arp_question a d)"
  by (simp add: arp_fields_ok_def arp_question_def in16_def ARP_OP_REQ_def)

lemma statement_ok: "in32 (arp_sndpa q) \<Longrightarrow> in32 (ipucast d) \<Longrightarrow> arp_fields_ok (arp_statement q d)"
  by (simp add: arp_fields_ok_def arp_statement_def in16_def ARP_OP_RPLY_def)

text \<open>The host m that is asked for answers, and it then knows the host that asks.\<close>

lemma arp_asked:
  assumes r: "in32 (ipucast d)" "in32 (ipucast (NetData m))" and v: "ipvalid (NetData m)"
    and np: "\<forall>i. 0 \<le> i \<and> i < ARP_SIZ \<and> arp_match (ipucast d) m i \<longrightarrow> arstate (arpcache m i) = AR_RESOLVED"
    and room: "\<exists>i. 0 \<le> i \<and> i < ARP_SIZ \<and> arstate (arpcache m i) \<noteq> AR_PENDING"
  shows "\<exists>m1 i. netin_frame dev b (Arp_frame (arp_wire (arp_question (ipucast (NetData m)) d))) m = (do {
      (r, t) \<leftarrow> dev (Arp_frame (arp_wire (arp_statement (arp_question (ipucast (NetData m)) d) (NetData m)))) m1;
      case r of Blocked \<Rightarrow> Some (Blocked, t) | Ret _ \<Rightarrow> free_ret b OK t }) \<and>
    0 \<le> i \<and> i < ARP_SIZ \<and> arstate (arpcache m1 i) = AR_RESOLVED \<and> arpaddr (arpcache m1 i) = ipucast d \<and>
    arhaddr (arpcache m1 i) = ethucast d"
proof -
  let ?q = "arp_question (ipucast (NetData m)) d" and ?m = "m\<lparr>arppkts := (arppkts m)(b := arp_question (ipucast (NetData m)) d)\<rparr>"
  have s: "arp_sndpa ?q = ipucast d" "arp_sndha ?q = ethucast d" "arp_tarpa ?q = ipucast (NetData m)" "arp_op ?q \<noteq> ARP_OP_RPLY"
    by (simp_all add: arp_question_def ARP_OP_REQ_def ARP_OP_RPLY_def)
  have am: "arp_match a ?m = arp_match a m" for a by (simp add: arp_match_def fun_eq_iff)
  have an: "arp_answer dev b t = (do {
      (r, t) \<leftarrow> dev (Arp_frame (arp_wire (arp_statement ?q (NetData m)))) t;
      case r of Blocked \<Rightarrow> Some (Blocked, t) | Ret _ \<Rightarrow> free_ret b OK t })" if "arppkts t b = ?q" "NetData t = NetData m" for t
    using that by (simp add: arp_answer_def arp_reply_wire)
  show ?thesis
  proof (cases rule: arp_search_cases[of "ipucast d" ?m])
    case (hit i)
    let ?t = "upd_arp i (\<lambda>e. e\<lparr>arhaddr := ethucast d\<rparr>) ?m"
    have st: "arstate (arpcache m i) = AR_RESOLVED" "arpaddr (arpcache m i) = ipucast d" using np hit by (auto simp: am arp_match_def)
    have "netin_frame dev b (Arp_frame (arp_wire ?q)) m = arp_in_rest dev b True ?t"
      using arp_arrives[OF question_ok[OF r(2,1)], of dev b m] hit(1,3) st by (simp add: s Let_def upd_arp_def)
    also have "\<dots> = arp_answer dev b ?t" using s v by (simp add: arp_in_rest_def Let_def upd_arp_def)
    finally show ?thesis using an[of ?t] hit(2,3) st by (intro exI[of _ ?t] exI[of _ i]) (simp add: upd_arp_def)
  next
    case miss
    then have ms: "netin_frame dev b (Arp_frame (arp_wire ?q)) m = arp_in_rest dev b False ?m"
      using arp_arrives[OF question_ok[OF r(2,1)], of dev b m] by (simp add: s Let_def)
    show ?thesis
    proof (cases rule: arp_alloc_cases[of ?m])
      case full
      then show ?thesis using room by auto
    next
      case (slot i)
      let ?t = "upd_arp i (\<lambda>e. e\<lparr>arpaddr := ipucast d, arhaddr := ethucast d, arstate := AR_RESOLVED\<rparr>) (upd_arp i (\<lambda>_. arp_clear) ?m)"
      have "arp_in_rest dev b False ?m = arp_answer dev b ?t"
        using s v slot(1,2) by (simp add: arp_in_rest_def Let_def)
      then show ?thesis using ms an[of ?t] slot(2,3) by (intro exI[of _ ?t] exI[of _ i]) (simp add: upd_arp_def)
    qed
  qed
qed

text \<open>The host u that has asked for the address of d, and still waits, takes the answer.\<close>

lemma arp_answered:
  assumes r: "in32 (ipucast d)" "in32 (arp_sndpa q)"
    and p: "arp_search (ipucast d) u = Some i" "i < ARP_SIZ" "arstate (arpcache u i) = AR_PENDING"
  shows "netin_frame dev b (Arp_frame (arp_wire (arp_statement q d))) u =
    (let u1 = upd_arp i (\<lambda>e. e\<lparr>arhaddr := ethucast d, arstate := AR_RESOLVED\<rparr>) (u\<lparr>arppkts := (arppkts u)(b := arp_statement q d)\<rparr>)
     in do { (_, t) \<leftarrow> kcall_net (send (arpid (arpcache u i)) OK) u1; then_net u1 (arp_in_rest dev b True) t })"
proof -
  let ?p = "arp_statement q d" and ?m = "u\<lparr>arppkts := (arppkts u)(b := arp_statement q d)\<rparr>"
  have "arp_search (ipucast d) ?m = Some i" using p(1) by (simp add: arp_search_def cong: if_cong)
  moreover have "arp_sndpa ?p = ipucast d" "arp_sndha ?p = ethucast d" by (simp_all add: arp_statement_def)
  ultimately show ?thesis using arp_arrives[OF statement_ok[OF r(2,1)], of dev b u] p(2,3) by (simp add: Let_def upd_arp_def)
qed

text \<open>The host n that looks for a enters it as pending and asks for it.\<close>

lemma arp_asks:
  assumes b: "a \<noteq> IP_BCAST" "a \<noteq> ipbcast (NetData n)" and no: "\<forall>i. 0 \<le> i \<and> i < ARP_SIZ \<longrightarrow> \<not> arp_match a n i"
    and room: "\<exists>i. 0 \<le> i \<and> i < ARP_SIZ \<and> arstate (arpcache n i) \<noteq> AR_PENDING"
  shows "\<exists>i n1. (\<forall>p dev. arp_resolve dev a p n = (do {
      (_, t) \<leftarrow> kcall_net recvclr n1; arp_try dev i p (arp_wire (arp_question a (NetData n))) ARP_RETRY t })) \<and>
    kern n1 = kern n \<and> arp_search a n1 = Some i \<and> 0 \<le> i \<and> i < ARP_SIZ \<and> arstate (arpcache n1 i) = AR_PENDING \<and>
    arpid (arpcache n1 i) = currpid (kern n)"
proof -
  have ms: "arp_search a n = Some ARP_SIZ" by (cases rule: arp_search_cases[of a n]) (use no in auto)
  show ?thesis
  proof (cases rule: arp_alloc_cases[of n])
    case full
    then show ?thesis using room by auto
  next
    case (slot i)
    let ?n = "upd_arp i (\<lambda>e. e\<lparr>arstate := AR_PENDING, arpaddr := a, arpid := currpid (kern n)\<rparr>) (upd_arp i (\<lambda>_. arp_clear) n)"
    have d: "NetData ?n = NetData n" "kern ?n = kern n" by (simp_all add: upd_arp_def)
    have "arp_match a ?n j \<longleftrightarrow> j = i" if "0 \<le> j" "j < ARP_SIZ" for j using no that by (auto simp: arp_match_def upd_arp_def)
    then have "arp_search a ?n = Some i"
      by (cases rule: arp_search_cases[of a ?n]) (use slot(2,3) in auto)
    moreover have "arp_resolve dev a p n = (do {
        (_, t) \<leftarrow> kcall_net recvclr ?n; arp_try dev i p (arp_wire (arp_question a (NetData n))) ARP_RETRY t })" for p dev
      using b ms slot(1,2) d by (simp add: arp_resolve_def Let_def arp_request_wire) (simp add: upd_arp_def)
    ultimately show ?thesis using slot(2,3) d by (intro exI[of _ i] exI[of _ ?n]) (simp add: upd_arp_def)
  qed
qed

text \<open>C30: two hosts on one network find each other by ARP. A host n that looks for the address of m,
  which it does not know, enters it in its cache as pending and sends a request q until it is answered;
  the host m answers the request with a reply, and then has the addresses of n in its cache; when n reads
  the reply and the entry is still there, it enters the Ethernet address of m and sends a message to the
  process that waits, and that process returns with the Ethernet address of m filled in.\<close>

theorem arp_exchange:
  assumes r: "in32 (ipucast (NetData n))" "in32 (ipucast (NetData m))"
    and a: "a = ipucast (NetData m)" "a \<noteq> IP_BCAST" "a \<noteq> ipbcast (NetData n)"
    and n: "\<forall>i. 0 \<le> i \<and> i < ARP_SIZ \<longrightarrow> \<not> arp_match a n i" "\<exists>i. 0 \<le> i \<and> i < ARP_SIZ \<and> arstate (arpcache n i) \<noteq> AR_PENDING"
    and m: "ipvalid (NetData m)" "\<exists>i. 0 \<le> i \<and> i < ARP_SIZ \<and> arstate (arpcache m i) \<noteq> AR_PENDING"
      "\<forall>i. 0 \<le> i \<and> i < ARP_SIZ \<and> arp_match (ipucast (NetData n)) m i \<longrightarrow> arstate (arpcache m i) = AR_RESOLVED"
  shows "\<exists>q rep slot n1. (\<forall>dev p. arp_resolve dev a p n = (do { (_, t) \<leftarrow> kcall_net recvclr n1; arp_try dev slot p q ARP_RETRY t })) \<and>
    (\<forall>dev b. \<exists>m1 j. netin_frame dev b (Arp_frame q) m = (do {
        (r, t) \<leftarrow> dev (Arp_frame rep) m1;
        case r of Blocked \<Rightarrow> Some (Blocked, t) | Ret _ \<Rightarrow> free_ret b OK t }) \<and>
      0 \<le> j \<and> j < ARP_SIZ \<and> arstate (arpcache m1 j) = AR_RESOLVED \<and> arpaddr (arpcache m1 j) = ipucast (NetData n) \<and>
      arhaddr (arpcache m1 j) = ethucast (NetData n)) \<and>
    (\<forall>dev b u. arpcache u = arpcache n1 \<longrightarrow> (\<exists>u1. netin_frame dev b (Arp_frame rep) u = (do {
        (_, t) \<leftarrow> kcall_net (send (currpid (kern n)) OK) u1; then_net u1 (arp_in_rest dev b True) t }) \<and>
      kern u1 = kern u \<and> arstate (arpcache u1 slot) = AR_RESOLVED \<and> arhaddr (arpcache u1 slot) = ethucast (NetData m))) \<and>
    (\<forall>dev p k v s. arhaddr (arpcache v slot) = ethucast (NetData m) \<and> recvtime_rest (kern v) = (OK, s) \<longrightarrow>
      arp_resume dev slot p q k v = Some (Ret OK, set_mac p (ethucast (NetData m)) (v\<lparr>kern := s\<rparr>)))"
proof -
  obtain i n1 where i: "\<And>p dev. arp_resolve dev a p n = (do {
      (_, t) \<leftarrow> kcall_net recvclr n1; arp_try dev i p (arp_wire (arp_question a (NetData n))) ARP_RETRY t })"
    "arp_search a n1 = Some i" "i < ARP_SIZ" "arstate (arpcache n1 i) = AR_PENDING" "arpid (arpcache n1 i) = currpid (kern n)"
    using arp_asks[OF a(2,3) n] by blast
  let ?rep = "arp_statement (arp_question a (NetData n)) (NetData m)"
  have B: "\<exists>m1 j. netin_frame dev b (Arp_frame (arp_wire (arp_question a (NetData n)))) m = (do {
        (r, t) \<leftarrow> dev (Arp_frame (arp_wire ?rep)) m1;
        case r of Blocked \<Rightarrow> Some (Blocked, t) | Ret _ \<Rightarrow> free_ret b OK t }) \<and>
      0 \<le> j \<and> j < ARP_SIZ \<and> arstate (arpcache m1 j) = AR_RESOLVED \<and> arpaddr (arpcache m1 j) = ipucast (NetData n) \<and>
      arhaddr (arpcache m1 j) = ethucast (NetData n)" for dev b
    using arp_asked[OF r m(1,3,2), of dev b] a(1) by simp
  have C: "\<exists>u1. netin_frame dev b (Arp_frame (arp_wire ?rep)) u = (do {
        (_, t) \<leftarrow> kcall_net (send (currpid (kern n)) OK) u1; then_net u1 (arp_in_rest dev b True) t }) \<and>
      kern u1 = kern u \<and> arstate (arpcache u1 i) = AR_RESOLVED \<and> arhaddr (arpcache u1 i) = ethucast (NetData m)"
    if u: "arpcache u = arpcache n1" for dev b u
  proof -
    have q: "in32 (arp_sndpa (arp_question a (NetData n)))" using r(1) by (simp add: arp_question_def)
    have s: "arp_search (ipucast (NetData m)) u = Some i" using i(2) a(1) u by (simp add: arp_search_def cong: if_cong)
    have ad: "arpid (arpcache u i) = currpid (kern n)" "arstate (arpcache u i) = AR_PENDING" using i(4,5) u by simp_all
    show ?thesis
      using arp_answered[OF r(2) q s i(3) ad(2), of dev b] ad(1) by (simp add: Let_def) (force simp: upd_arp_def)
  qed
  have D: "arp_resume dev i p q k v = Some (Ret OK, set_mac p (ethucast (NetData m)) (v\<lparr>kern := s\<rparr>))"
    if "arhaddr (arpcache v i) = ethucast (NetData m)" "recvtime_rest (kern v) = (OK, s)" for dev p k v s q
    using that by (simp add: arp_resume_def Let_def arp_found_def i32_def)
  show ?thesis
    by (intro exI[of _ "arp_wire (arp_question a (NetData n))"] exI[of _ "arp_wire ?rep"] exI[of _ i] exI[of _ n1] conjI)
      (use i(1) B C D in blast)+
qed

theorem arp_exchange_witness:
  "\<exists>q rep m1. netin_frame (\<lambda>_ _. None) 8004 (Arp_frame q) (demo_host 167772162 0) = None \<and>
    netin_frame (\<lambda>f n. if f = Arp_frame rep then Some (Blocked, n) else None) 8004 (Arp_frame q) (demo_host 167772162 0) = Some (Blocked, m1) \<and>
    (\<exists>j. arpaddr (arpcache m1 j) = 167772161 \<and> arhaddr (arpcache m1 j) = [2, 0, 0, 0, 0, 1])"
proof -
  let ?n = "demo_host 167772161 0" and ?m = "demo_host 167772162 0"
  have c: "\<forall>i. 0 \<le> i \<and> i < ARP_SIZ \<longrightarrow> \<not> arp_match 167772162 ?n i" "\<exists>i. 0 \<le> i \<and> i < ARP_SIZ \<and> arstate (arpcache ?n i) \<noteq> AR_PENDING"
    "\<exists>i. 0 \<le> i \<and> i < ARP_SIZ \<and> arstate (arpcache ?m i) \<noteq> AR_PENDING"
    "\<forall>i. 0 \<le> i \<and> i < ARP_SIZ \<and> arp_match (ipucast (NetData ?n)) ?m i \<longrightarrow> arstate (arpcache ?m i) = AR_RESOLVED"
    by (auto simp: demo_host_def arp_match_def ARP_SIZ_def intro: exI[of _ 0])
  have r: "in32 (ipucast (NetData ?n))" "in32 (ipucast (NetData ?m))" "167772162 = ipucast (NetData ?m)" "167772162 \<noteq> IP_BCAST"
    "167772162 \<noteq> ipbcast (NetData ?n)" "ipvalid (NetData ?m)" "ipucast (NetData ?n) = 167772161" "ethucast (NetData ?n) = [2, 0, 0, 0, 0, 1]"
    by (simp_all add: demo_host_def in32_def IP_BCAST_def)
  obtain q rep where q: "\<forall>dev b. \<exists>m1 j. netin_frame dev b (Arp_frame q) ?m = (do {
        (r, t) \<leftarrow> dev (Arp_frame rep) m1;
        case r of Blocked \<Rightarrow> Some (Blocked, t) | Ret _ \<Rightarrow> free_ret b OK t }) \<and>
      0 \<le> j \<and> j < ARP_SIZ \<and> arstate (arpcache m1 j) = AR_RESOLVED \<and> arpaddr (arpcache m1 j) = ipucast (NetData ?n) \<and>
      arhaddr (arpcache m1 j) = ethucast (NetData ?n)"
    using arp_exchange[OF r(1-5) c(1,2) r(6) c(3,4)] by (elim exE conjE) blast
  have "netin_frame (\<lambda>_ _. None) 8004 (Arp_frame q) ?m = None" using q[rule_format, of "\<lambda>_ _. None" 8004] by auto
  moreover obtain m1 j where "netin_frame (\<lambda>f n. if f = Arp_frame rep then Some (Blocked, n) else None) 8004 (Arp_frame q) ?m = Some (Blocked, m1)"
    "arpaddr (arpcache m1 j) = 167772161" "arhaddr (arpcache m1 j) = [2, 0, 0, 0, 0, 1]"
    using q[rule_format, of "\<lambda>f n. if f = Arp_frame rep then Some (Blocked, n) else None" 8004] r(7,8) by auto
  ultimately show ?thesis by blast
qed

theorem arp_cache_distinct_witness:
  "\<exists>r t. arp_resolve (\<lambda>_ n. Some (Blocked, n)) 167772163 8004 (demo_host 167772161 167772162) = Some (r, t) \<and> arp_ok t"
proof -
  let ?n = "demo_host 167772161 167772162" and ?d = "\<lambda>_ n. Some (Blocked, n)"
  have "arp_resolve ?d 167772163 8004 ?n \<noteq> None" by code_simp
  then obtain r t where rt: "arp_resolve ?d 167772163 8004 ?n = Some (r, t)" by fastforce
  have "arp_ok ?n" by (simp add: arp_ok_def demo_host_def)
  moreover have "cache_kept ?d" by (simp add: cache_kept_def)
  ultimately have "arp_ok t" using arp_cache_distinct[of ?d ?n] rt by blast
  then show ?thesis using rt by blast
qed

end
