(* ===== verification/Icmp_Queue.thy ===== *)
theory Icmp_Queue
  imports Net_Delivery
begin

text \<open>
  The packet queue of an ICMP slot (Net_Icmp): its two ends wrap at different lengths.
\<close>

section \<open>The queue of a slot after eight replies\<close>

text \<open>One reply is put in by icmp_in and taken out by icmp_recv.\<close>

definition icmp_turn :: "icmpentry option \<Rightarrow> int \<Rightarrow> icmpentry option" where
  "icmp_turn r p = do { e \<leftarrow> r; e \<leftarrow> icmp_put p e; (_, e) \<leftarrow> icmp_get e; Some e }"

lemma icmp_turn_ok:
  assumes "0 \<le> ichead f" "ichead f < 8" "0 \<le> ictail f" "ictail f < 8" "iccount f = 0"
  shows "\<exists>g. icmp_turn (Some f) p = Some g \<and> ichead g = ichead f + 1 \<and> ictail g = (if ictail f = 7 then 0 else ictail f + 1) \<and>
    iccount g = 0 \<and> icstate g = icstate f \<and> icremip g = icremip f"
  using assms by (simp add: icmp_turn_def icmp_put_def icmp_get_def ICMP_QSIZ_def ICMP_SLOTS_def i32_def)

lemma icmp_turns:
  assumes "ichead e = 0" "ictail e = 0" "iccount e = 0" "length ps \<le> 8"
  shows "\<exists>f. foldl icmp_turn (Some e) ps = Some f \<and> ichead f = int (length ps) \<and>
    ictail f = (if length ps = 8 then 0 else int (length ps)) \<and> iccount f = 0 \<and> icstate f = icstate e \<and> icremip f = icremip e"
  using assms(4)
proof (induction ps rule: rev_induct)
  case Nil
  then show ?case using assms by simp
next
  case (snoc p ps)
  then obtain f where "foldl icmp_turn (Some e) ps = Some f" "ichead f = int (length ps)" "ictail f = int (length ps)" "iccount f = 0"
    "icstate f = icstate e" "icremip f = icremip e" by auto
  then show ?case using snoc.prems icmp_turn_ok[of f p] by auto
qed

text \<open>C32: the queue of an ICMP slot has ICMP_QSIZ places, but the calls that take packets out wrap
  their index at ICMP_SLOTS, which is greater: when eight replies have been received one after the other,
  the next icmp_recv for which a reply is there, and icmp_release, access an element past the end of the
  array.\<close>

theorem icmp_ninth_reply:
  assumes i: "0 \<le> i" "i < ICMP_SLOTS" and e: "icstate e = ICMP_USED" "ichead e = 0" "ictail e = 0" "iccount e = 0"
    and ps: "length ps = 8"
  shows "\<exists>f g. foldl icmp_turn (Some e) ps = Some f \<and> icmp_put p f = Some g \<and>
    (\<forall>n buff len timeout. icmptab n i = g \<longrightarrow> icmp_recv i buff len timeout n = None)"
proof -
  obtain f where f: "foldl icmp_turn (Some e) ps = Some f" "ichead f = 8" "ictail f = 0" "iccount f = 0" "icstate f = ICMP_USED"
    using icmp_turns[OF e(2-4), of ps] ps e(1) by auto
  obtain g where g: "icmp_put p f = Some g" "ichead g = 8" "iccount g = 1" "icstate g = ICMP_USED"
    using f by (auto simp: icmp_put_def ICMP_QSIZ_def i32_def)
  have "icmp_get g = None" using g(2) by (simp add: icmp_get_def ICMP_QSIZ_def)
  then have "icmp_recv i buff len timeout n = None" if "icmptab n i = g" for n buff len timeout
    using that i g(3,4) by (simp add: icmp_recv_def icmp_take_def)
  then show ?thesis using f(1) g(1) by blast
qed

theorem icmp_ninth_reply_witness:
  "\<exists>f g. foldl icmp_turn (Some \<lparr>icstate = ICMP_USED, icremip = 167772162, ichead = 0, ictail = 0, iccount = 0, icpid = -1,
      icqueue = (\<lambda>_. 0)\<rparr>) [100, 101, 102, 103, 104, 105, 106, 107] = Some f \<and> icmp_put 108 f = Some g \<and>
    icmp_recv 2 500 56 1000 ((demo_host 167772161 167772162)\<lparr>icmptab := (\<lambda>_. g)\<rparr>) = None"
proof -
  let ?e = "\<lparr>icstate = ICMP_USED, icremip = 167772162, ichead = 0, ictail = 0, iccount = 0, icpid = -1, icqueue = (\<lambda>_. 0)\<rparr>"
  have "0 \<le> (2::int)" "2 < ICMP_SLOTS" "icstate ?e = ICMP_USED" "ichead ?e = 0" "ictail ?e = 0" "iccount ?e = 0"
    "length [100, 101, 102, 103, 104, 105, 106, 107 :: int] = 8" by (simp_all add: ICMP_SLOTS_def)
  from icmp_ninth_reply[OF this, of 108] show ?thesis by auto
qed

end
