(* ===== verification/Futures.thy ===== *)
theory Futures
  imports Kernel_Properties
begin

text \<open>
  Futures (system/future.c, future_alloc.c, future_free.c, future_signal.c, future_wait.c,
  include/future.h). A call that gives up the processor in its middle returns Waits; what it does when
  it is next chosen is a definition of its own: future_set_rest, future_get_exclusive_rest,
  future_get_shared_rest, future_get_again. The state of the interrupt mask, which some of the paths
  do not restore, is not part of the model.
\<close>

section \<open>Data\<close>

datatype future_state_t = FUTURE_EMPTY | FUTURE_WAITING | FUTURE_READY
datatype future_mode_t = FUTURE_EXCLUSIVE | FUTURE_SHARED | FUTURE_QUEUE

record future_t =
  fut_value :: int
  fut_state :: future_state_t
  fut_mode :: future_mode_t
  fut_pid :: int
  fut_set_queue :: int
  fut_get_queue :: int

record futst =
  fkern :: kst
  futures :: "int \<Rightarrow> future_t"

text \<open>Done r v: the call has returned r, and v is what it has stored for its caller, if anything.\<close>

datatype fresult = Done int "int option" | Waits

definition upd_fut :: "int \<Rightarrow> (future_t \<Rightarrow> future_t) \<Rightarrow> futst \<Rightarrow> futst" where
  "upd_fut f g s = s\<lparr>futures := (futures s)(f := g (futures s f))\<rparr>"

definition kcall_fut :: "(kst \<Rightarrow> (int \<times> kst) option) \<Rightarrow> futst \<Rightarrow> (int \<times> futst) option" where
  "kcall_fut call s = do { (r, k) \<leftarrow> call (fkern s); Some (r, s\<lparr>fkern := k\<rparr>) }"

definition goes_on :: "futst \<Rightarrow> futst \<Rightarrow> bool" where
  "goes_on s t \<longleftrightarrow> currpid (fkern t) = currpid (fkern s)"

section \<open>Allocation\<close>

text \<open>sz is sizeof(future_t), which the ABI fixes. A failed getmem returns SYSERR, and the stores
  through it are a fault.\<close>

definition future_alloc :: "int \<Rightarrow> future_mode_t \<Rightarrow> futst \<Rightarrow> (int \<times> futst) option" where
  "future_alloc sz mode s = do {
     (f, h) \<leftarrow> getmem sz (heap (fkern s));
     let s = s\<lparr>fkern := (fkern s)\<lparr>heap := h\<rparr>\<rparr>;
     if f = SYSERR then None
     else do {
       let s = upd_fut f (\<lambda>_. \<lparr>fut_value = 0, fut_state = FUTURE_EMPTY, fut_mode = mode, fut_pid = -1,
         fut_set_queue = -1, fut_get_queue = -1\<rparr>) s;
       s \<leftarrow> (if mode = FUTURE_SHARED \<or> mode = FUTURE_QUEUE then do {
               (q, s) \<leftarrow> kcall_fut newqueue s;
               Some (upd_fut f (\<lambda>e. e\<lparr>fut_get_queue := q\<rparr>) s) }
             else Some s);
       s \<leftarrow> (if mode = FUTURE_QUEUE then do {
               (q, s) \<leftarrow> kcall_fut newqueue s;
               Some (upd_fut f (\<lambda>e. e\<lparr>fut_set_queue := q\<rparr>) s) }
             else Some s);
       Some (f, s) } }"

definition future_free :: "int \<Rightarrow> int \<Rightarrow> futst \<Rightarrow> (int \<times> futst) option" where
  "future_free sz f s = do {
     (r, h) \<leftarrow> freemem f sz (heap (fkern s));
     Some (r, s\<lparr>fkern := (fkern s)\<lparr>heap := h\<rparr>\<rparr>) }"

section \<open>Waiting and signalling\<close>

definition ready_first :: "int \<Rightarrow> futst \<Rightarrow> (int \<times> futst) option" where
  "ready_first q s = do { (pid, s) \<leftarrow> kcall_fut (dequeue q) s; kcall_fut (ready pid) s }"

text \<open>The loop of future_signal over the waiting readers; it stops when the caller loses the
  processor.\<close>

definition release_readers :: "int \<Rightarrow> futst \<Rightarrow> (fresult \<times> futst) option" where
  "release_readers q = c_loop (\<lambda>s. do {
     b \<leftarrow> isempty q (fkern s);
     if b then Some (Inr (Done OK None, s))
     else do {
       (_, t) \<leftarrow> ready_first q s;
       Some (if goes_on s t then Inl t else Inr (Waits, t)) } })"

definition future_signal :: "int \<Rightarrow> futst \<Rightarrow> (fresult \<times> futst) option" where
  "future_signal f s =
     (let e = futures s f in
      case fut_state e of
        FUTURE_READY \<Rightarrow>
          (case fut_mode e of
             FUTURE_EXCLUSIVE \<Rightarrow> do { (_, s) \<leftarrow> kcall_fut (ready (fut_pid e)) s; Some (Done OK None, s) }
           | FUTURE_SHARED \<Rightarrow> release_readers (fut_get_queue e) s
           | FUTURE_QUEUE \<Rightarrow> do { (_, s) \<leftarrow> ready_first (fut_get_queue e) s; Some (Done OK None, s) })
      | FUTURE_EMPTY \<Rightarrow>
          (case fut_mode e of
             FUTURE_QUEUE \<Rightarrow> do { (_, s) \<leftarrow> ready_first (fut_set_queue e) s; Some (Done OK None, s) }
           | _ \<Rightarrow> Some (Done OK None, s))
      | FUTURE_WAITING \<Rightarrow> Some (Done OK None, s))"

definition future_wait :: "int \<Rightarrow> futst \<Rightarrow> (fresult \<times> futst) option" where
  "future_wait f s =
     (let e = futures s f; c = currpid (fkern s) in
      if fut_state e = FUTURE_EMPTY \<or> fut_state e = FUTURE_WAITING then do {
        _ \<leftarrow> proc_at (fkern s) c;
        let s = s\<lparr>fkern := set_state c PR_WAIT (fkern s)\<rparr>;
        let s = (if fut_mode e = FUTURE_EXCLUSIVE \<and> fut_pid e = -1 then upd_fut f (\<lambda>e. e\<lparr>fut_pid := c\<rparr>) s else s);
        k \<leftarrow> resched (fkern s);
        let t = s\<lparr>fkern := k\<rparr>;
        Some (if goes_on s t then Done OK None else Waits, t) }
      else Some (Done OK None, s))"

section \<open>Setting the value\<close>

definition future_set_rest :: "int \<Rightarrow> int \<Rightarrow> futst \<Rightarrow> (fresult \<times> futst) option" where
  "future_set_rest f v s = do {
     (_, s) \<leftarrow> future_signal f (upd_fut f (\<lambda>e. e\<lparr>fut_value := v, fut_state := FUTURE_READY\<rparr>) s);
     Some (Done OK None, s) }"

text \<open>Rescheduling is deferred while the readers of a shared future are made ready.\<close>

definition ready_readers :: "int \<Rightarrow> futst \<Rightarrow> futst option" where
  "ready_readers q = c_loop (\<lambda>s. do {
     b \<leftarrow> isempty q (fkern s);
     if b then Some (Inr s)
     else do {
       (pid, s) \<leftarrow> kcall_fut (getfirst q) s;
       (_, s) \<leftarrow> kcall_fut (ready pid) s;
       Some (Inl s) } })"

definition future_set :: "int \<Rightarrow> int \<Rightarrow> futst \<Rightarrow> (fresult \<times> futst) option" where
  "future_set f v s =
     (let e = futures s f in
      if fut_state e = FUTURE_WAITING \<or> fut_state e = FUTURE_EMPTY then
        (case fut_mode e of
           FUTURE_EXCLUSIVE \<Rightarrow> future_set_rest f v s
         | FUTURE_SHARED \<Rightarrow> do {
             let s = upd_fut f (\<lambda>e. e\<lparr>fut_value := v, fut_state := FUTURE_READY\<rparr>) s;
             (_, s) \<leftarrow> kcall_fut (resched_cntl DEFER_START) s;
             s \<leftarrow> ready_readers (fut_get_queue e) s;
             (_, s) \<leftarrow> kcall_fut (resched_cntl DEFER_STOP) s;
             Some (Done OK None, s) }
         | FUTURE_QUEUE \<Rightarrow> do {
             b \<leftarrow> isempty (fut_get_queue e) (fkern s);
             if b then do {
               (_, s) \<leftarrow> kcall_fut (enqueue (getpid (fkern s)) (fut_set_queue e)) s;
               (r, s) \<leftarrow> future_wait f s;
               if r = Waits then Some (Waits, s) else future_set_rest f v s }
             else future_set_rest f v s })
      else
        (case fut_mode e of
           FUTURE_EXCLUSIVE \<Rightarrow> Some (Done OK None, upd_fut f (\<lambda>e. e\<lparr>fut_state := FUTURE_EMPTY\<rparr>) s)
         | _ \<Rightarrow> Some (Done SYSERR None, s)))"

section \<open>Getting the value\<close>

definition future_get_exclusive_rest :: "int \<Rightarrow> futst \<Rightarrow> fresult \<times> futst" where
  "future_get_exclusive_rest f s =
     (Done OK (Some (fut_value (futures s f))), upd_fut f (\<lambda>e. e\<lparr>fut_state := FUTURE_EMPTY\<rparr>) s)"

definition future_get_shared_rest :: "int \<Rightarrow> futst \<Rightarrow> fresult \<times> futst" where
  "future_get_shared_rest f s = (Done OK (Some (fut_value (futures s f))), s)"

definition future_get_shared :: "int \<Rightarrow> futst \<Rightarrow> (fresult \<times> futst) option" where
  "future_get_shared f s = do {
     let c = getpid (fkern s);
     _ \<leftarrow> proc_at (fkern s) c;
     let s = s\<lparr>fkern := set_state c PR_WAIT (fkern s)\<rparr>;
     (_, s) \<leftarrow> kcall_fut (enqueue c (fut_get_queue (futures s f))) s;
     k \<leftarrow> resched (fkern s);
     let t = s\<lparr>fkern := k\<rparr>;
     Some (if goes_on s t then future_get_shared_rest f t else (Waits, t)) }"

text \<open>The status of an inner call is ignored.\<close>

definition done_ok :: "fresult \<Rightarrow> fresult" where
  "done_ok r = (case r of Done _ v \<Rightarrow> Done OK v | Waits \<Rightarrow> Waits)"

partial_function (option) future_get :: "int \<Rightarrow> futst \<Rightarrow> (fresult \<times> futst) option" where
  "future_get f s =
     (let e = futures s f in
      case fut_state e of
        FUTURE_EMPTY \<Rightarrow>
          (case fut_mode e of
             FUTURE_EXCLUSIVE \<Rightarrow> do {
               (r, s) \<leftarrow> future_wait f (upd_fut f (\<lambda>e. e\<lparr>fut_state := FUTURE_WAITING\<rparr>) s);
               Some (if r = Waits then (Waits, s) else future_get_exclusive_rest f s) }
           | FUTURE_SHARED \<Rightarrow> future_get_shared f (upd_fut f (\<lambda>e. e\<lparr>fut_state := FUTURE_WAITING\<rparr>) s)
           | FUTURE_QUEUE \<Rightarrow> do {
               b \<leftarrow> isempty (fut_set_queue e) (fkern s);
               (_, t) \<leftarrow> kcall_fut (enqueue (getpid (fkern s)) (fut_get_queue e)) s;
               (r, t) \<leftarrow> (if b then Some (Done OK None, t) else future_signal f t);
               if \<not> goes_on s t then Some (Waits, t)
               else do {
                 (r, t) \<leftarrow> future_wait f t;
                 if r = Waits then Some (Waits, t)
                 else do { (r, t) \<leftarrow> future_get f t; Some (done_ok r, t) } } })
      | FUTURE_READY \<Rightarrow> Some (future_get_exclusive_rest f s)
      | FUTURE_WAITING \<Rightarrow>
          (case fut_mode e of
             FUTURE_EXCLUSIVE \<Rightarrow> Some (Done SYSERR None, s)
           | FUTURE_SHARED \<Rightarrow> future_get_shared f s
           | FUTURE_QUEUE \<Rightarrow> Some (Done OK None, s)))"

text \<open>A reader of a queue future that was switched out in future_signal goes on with future_wait, one
  that was switched out in future_wait with the inner call.\<close>

definition future_get_again :: "int \<Rightarrow> futst \<Rightarrow> (fresult \<times> futst) option" where
  "future_get_again f s = do { (r, s) \<leftarrow> future_get f s; Some (done_ok r, s) }"

definition future_get_signalled :: "int \<Rightarrow> futst \<Rightarrow> (fresult \<times> futst) option" where
  "future_get_signalled f s = do {
     (r, t) \<leftarrow> future_wait f s;
     if r = Waits then Some (Waits, t) else future_get_again f t }"

section \<open>The scheduler does not look at a process that waits\<close>

lemma q_set_state: "q_at (set_state p st s) i = q_at s i" "upd_q i f (set_state p st s) = map_option (set_state p st) (upd_q i f s)"
  by (auto simp: q_at_def upd_q_def set_state_def upd_proc_def)

lemma set_q_set_state:
  "set_qnext i v (set_state p st s) = map_option (set_state p st) (set_qnext i v s)"
  "set_qprev i v (set_state p st s) = map_option (set_state p st) (set_qprev i v s)"
  "isempty q (set_state p st s) = isempty q s"
  by (simp_all add: set_qnext_def set_qprev_def q_set_state isempty_def firstid_def)

lemma getitem_set_state: "getitem i (set_state p st s) = map_option (\<lambda>(r, t). (r, set_state p st t)) (getitem i s)"
  by (auto simp: getitem_def q_set_state set_q_set_state Let_def split: bind_splits option.splits)

lemma getfirst_set_state: "getfirst q (set_state p st s) = map_option (\<lambda>(r, t). (r, set_state p st t)) (getfirst q s)"
  by (auto simp: getfirst_def q_set_state set_q_set_state getitem_set_state split: bind_splits option.splits)

lemma dequeue_set_state:
  "dequeue q (set_state p st s) = map_option (\<lambda>(r, t). (r, set_state p st t)) (dequeue q s)"
  by (auto simp: dequeue_def set_q_set_state getfirst_set_state split: bind_splits option.splits)

lemma dispatch_set_state:
  assumes "dispatch s = Some t" "currpid t \<noteq> p"
  shows "dispatch (set_state p st s) = Some (set_state p st t)"
proof -
  obtain a b where a: "dequeue (readylist s) s = Some (a, b)" "0 \<le> a" "a < NPROC"
    "t = (set_state a PR_CURR b)\<lparr>currpid := a, preempt := QUANTUM\<rparr>"
    using assms(1) by (auto simp: dispatch_def proc_at_def split: bind_splits if_splits)
  then show ?thesis using assms(2) dequeue_set_state[of "readylist s" p st s]
    by (auto simp: dispatch_def proc_at_def table_updates fun_upd_twist)
qed
section \<open>Handing over a value\<close>

text \<open>The process p waits on the exclusive future f. A process that waits on a future stands on no
  queue; apart from its state, which is that of a process waiting on a semaphore, it looks to the
  kernel like a suspended one.\<close>

definition parked :: "int \<Rightarrow> kst \<Rightarrow> (int \<Rightarrow> int list) \<Rightarrow> bool" where
  "parked p s L \<longleftrightarrow> kok (set_state p PR_SUSP s) L \<and> prstate (proctab s p) = PR_WAIT \<and> p \<noteq> currpid s \<and> 0 \<le> p \<and> p < NPROC"

definition awaited :: "futst \<Rightarrow> int \<Rightarrow> int \<Rightarrow> bool" where
  "awaited s f p \<longleftrightarrow> fut_mode (futures s f) = FUTURE_EXCLUSIVE \<and> fut_state (futures s f) = FUTURE_WAITING \<and> fut_pid (futures s f) = p"

lemma set_state_same: "prstate (proctab s p) = st \<Longrightarrow> set_state p st s = s"
  by (cases s) (auto simp: table_updates fun_eq_iff)

lemma park_current:
  assumes k: "kok s L" and nn: "currpid s \<noteq> NULLPROC"
  shows "\<exists>t L'. resched (set_state (currpid s) PR_WAIT s) = Some t \<and> parked (currpid s) t L'"
proof -
  let ?c = "currpid s"
  have m: "kmid (set_state ?c PR_SUSP s) L" by (rule block_off[OF k nn]) simp
  have nd: "ndefers (Defer s) = 0" by (rule kokD(3)[OF k])
  obtain t where t: "resched (set_state ?c PR_SUSP s) = Some t" "kok t (resched_L (set_state ?c PR_SUSP s) L)"
    "\<And>x. prstate (proctab t x) = resched_state (set_state ?c PR_SUSP s) L x"
    "currpid t = resched_pid (set_state ?c PR_SUSP s) L"
    using resched_kok[OF m] nd by (auto simp: table_updates)
  have r: "0 \<le> ?c" "?c < NPROC" by (rule kmidD(6,7)[OF kokD(1)[OF k]])+
  have nc: "currpid t \<noteq> ?c"
    using resched_pid_state[OF kmidD(1)[OF m]] t(4) by (auto simp: table_updates)
  then have sus: "prstate (proctab t ?c) = PR_SUSP"
    using t(3)[of ?c] t(4) by (auto simp: resched_state_def table_updates)
  have d: "dispatch (set_state ?c PR_SUSP s) = Some t" using t(1) nd r by (simp add: resched_def proc_at_def table_updates)
  have "resched (set_state ?c PR_WAIT s) = dispatch (set_state ?c PR_WAIT (set_state ?c PR_SUSP s))"
    using nd r by (simp add: resched_def proc_at_def table_updates)
  also have "\<dots> = Some (set_state ?c PR_WAIT t)" by (rule dispatch_set_state[OF d nc])
  finally have "resched (set_state ?c PR_WAIT s) = Some (set_state ?c PR_WAIT t)" .
  moreover have "parked ?c (set_state ?c PR_WAIT t) (resched_L (set_state ?c PR_SUSP s) L)"
    using t(2) nc r sus set_state_same[of t ?c PR_SUSP] by (simp add: parked_def table_updates)
  ultimately show ?thesis by blast
qed

lemma ready_parked:
  assumes "parked p s L"
  shows "\<exists>t. ready p s = Some (OK, t) \<and> made_ready s L p t"
proof -
  have k: "kok (set_state p PR_SUSP s) L" and st: "prstate (proctab s p) = PR_WAIT" "p \<noteq> currpid s" "0 \<le> p" "p < NPROC"
    using assms by (auto simp: parked_def)
  note m = kokD(1)[OF k]
  have "detached s L p" using kmidD(1)[OF m] st by (simp add: detached_def isbadpid_def)
  moreover have "sems_ok s L" by (rule sems_ok_cong[OF kmidD(2)[OF m]]) (simp_all add: table_updates)
  moreover have "0 \<le> nextsem s" "nextsem s < NSEM" "ndefers (Defer s) = 0" "sleep_ok s L"
    using kmidD(3,4,11)[OF m] kokD(3)[OF k] by (simp_all add: table_updates sleep_ok_def)
  ultimately show ?thesis by (rule ready_kok)
qed



section \<open>A value nobody waits for\<close>

text \<open>The process id of the last reader stays in the future. Setting the empty future once more makes
  that process ready again although it does not wait: here process 4, which is asleep. It then is in
  the sleep queue and on the ready list at once, and no contents of the queues fit the tables.\<close>

definition stale_demo :: futst where
  "stale_demo = \<lparr>fkern = demo, futures = (\<lambda>_. \<lparr>fut_value = 0, fut_state = FUTURE_EMPTY, fut_mode = FUTURE_EXCLUSIVE,
     fut_pid = 4, fut_set_queue = -1, fut_get_queue = -1\<rparr>)\<rparr>"

lemma future_stale_pid:
  "\<exists>w. future_set 4096 42 stale_demo = Some (Done OK None, w) \<and> (\<forall>L. \<not> kok (fkern w) L)"
proof -
  have "case future_set 4096 42 stale_demo of None \<Rightarrow> False | Some (r, w) \<Rightarrow> r = Done OK None \<and>
      prstate (proctab (fkern w) 4) = PR_READY \<and> firstid (sleepq (fkern w)) (fkern w) = Some 4"
    by code_simp
  then obtain w where w: "future_set 4096 42 stale_demo = Some (Done OK None, w)"
    "prstate (proctab (fkern w) 4) = PR_READY" "firstid (sleepq (fkern w)) (fkern w) = Some 4"
    by (auto split: option.splits)
  have False if "kok (fkern w) L" for L
  proof -
    note k0 = kokD(5)[OF that]
    let ?q = "sleepq (fkern w)"
    have q: "qid_ok (nextqid (fkern w)) ?q" by (rule kinv0D(3)[OF k0])
    have "hd (L ?q @ [?q + 1]) = 4" using firstid_wf[OF queues_wfD(1)[OF kinv0D(1)[OF k0] q]] w(3) by simp
    then have "4 \<in> set (L ?q)" using q by (cases "L ?q") (auto simp: qid_ok_def NPROC_def)
    then show False using kinv0D(6)[OF k0, of 4] w(2) by (simp add: placed_def NPROC_def)
  qed
  then show ?thesis using w(1) by blast
qed

end
