(* ===== verification/Tty.thy ===== *)
theory Tty
  imports Kernel_Properties C_Strings Ring_Buffer
begin

text \<open>
  The terminal driver (device/tty, include/tty.h): input with line editing, echo, output. A pointer
  into one of the three character buffers is its index; an access outside the buffer is a fault.
  There is one line (Ntty is 1). Of the UART the model has what the driver uses: the characters that
  have arrived, the characters that were sent, and the registers it reads and writes.
\<close>

section \<open>Data\<close>

definition TY_IBUFLEN :: int where "TY_IBUFLEN = 128"
definition TY_OBUFLEN :: int where "TY_OBUFLEN = 64"
definition TY_EBUFLEN :: int where "TY_EBUFLEN = 20"
definition UART_FIFO_SIZE :: int where "UART_FIFO_SIZE = 64"
definition UART_IER_ERBFI :: int where "UART_IER_ERBFI = 1"
definition UART_IER_ETBEI :: int where "UART_IER_ETBEI = 2"

definition TY_BACKSP :: int where "TY_BACKSP = 8"
definition TY_BELL :: int where "TY_BELL = 7"
definition TY_EOFCH :: int where "TY_EOFCH = 4"
definition TY_BLANK :: int where "TY_BLANK = 32"
definition TY_NEWLINE :: int where "TY_NEWLINE = 10"
definition TY_RETURN :: int where "TY_RETURN = 13"
definition TY_STOPCH :: int where "TY_STOPCH = 19"
definition TY_STRTCH :: int where "TY_STRTCH = 17"
definition TY_KILLCH :: int where "TY_KILLCH = 21"
definition TY_UPARROW :: int where "TY_UPARROW = 94"
definition TY_EOF :: int where "TY_EOF = -2"

datatype tty_mode = TY_IMRAW | TY_IMCOOKED | TY_IMCBREAK

record ttycblk =
  tyihead :: int
  tyitail :: int
  tyibuff :: "int \<Rightarrow> int"
  tyisem :: int
  tyohead :: int
  tyotail :: int
  tyobuff :: "int \<Rightarrow> int"
  tyosem :: int
  tyehead :: int
  tyetail :: int
  tyebuff :: "int \<Rightarrow> int"
  tyimode :: tty_mode
  tyiecho :: bool
  tyieback :: bool
  tyevis :: bool
  tyecrlf :: bool
  tyicrlf :: bool
  tyierase :: bool
  tyierasec :: int
  tyeof :: bool
  tyeofch :: int
  tyikill :: bool
  tyikillc :: int
  tyicursor :: int
  tyoflow :: bool
  tyoheld :: bool
  tyostop :: int
  tyostart :: int
  tyocrlf :: bool
  tyifullc :: int

text \<open>rx holds the characters that wait in the receive FIFO, so that the data-ready bit is set when it
  is not empty; tx the characters written to the transmit FIFO.\<close>

record uart_csreg =
  rx :: "int list"
  tx :: "int list"
  ier :: int
  iir :: int
  lsr_bi :: bool
  txfifo_lvl :: int

record ttyst =
  tkern :: kst
  tty :: ttycblk
  uart :: uart_csreg

definition upd_tty :: "(ttycblk \<Rightarrow> ttycblk) \<Rightarrow> ttyst \<Rightarrow> ttyst" where
  "upd_tty f s = s\<lparr>tty := f (tty s)\<rparr>"

definition kcall_tty :: "(kst \<Rightarrow> (int \<times> kst) option) \<Rightarrow> ttyst \<Rightarrow> (int \<times> ttyst) option" where
  "kcall_tty call s = do { (r, k) \<leftarrow> call (tkern s); Some (r, s\<lparr>tkern := k\<rparr>) }"

section \<open>Echo\<close>

definition ttykickout :: "ttyst \<Rightarrow> ttyst" where
  "ttykickout s = s\<lparr>uart := (uart s)\<lparr>ier := or UART_IER_ERBFI UART_IER_ETBEI\<rparr>\<rparr>"

definition eputc :: "int \<Rightarrow> ttyst \<Rightarrow> ttyst option" where
  "eputc ch s =
     (let t = tyetail (tty s) in
      if 0 \<le> t \<and> t < TY_EBUFLEN
      then Some (ttykickout (upd_tty (\<lambda>y. y\<lparr>tyebuff := (tyebuff y)(t := u8 ch), tyetail := (if t + 1 \<ge> TY_EBUFLEN then 0 else t + 1)\<rparr>) s))
      else None)"

definition echoch :: "int \<Rightarrow> ttyst \<Rightarrow> ttyst option" where
  "echoch ch s =
     (if (ch = TY_NEWLINE \<or> ch = TY_RETURN) \<and> tyecrlf (tty s) then do {
        s \<leftarrow> eputc TY_RETURN s;
        eputc TY_NEWLINE s }
      else if (ch < TY_BLANK \<or> ch = 127) \<and> tyevis (tty s) then do {
        s \<leftarrow> eputc TY_UPARROW s;
        eputc (ch + 64) s }
      else eputc ch s)"

text \<open>Echoing the removal of one character position.\<close>

definition echo_back :: "ttyst \<Rightarrow> ttyst option" where
  "echo_back s = do {
     s \<leftarrow> eputc TY_BACKSP s;
     if tyieback (tty s) then do { s \<leftarrow> eputc TY_BLANK s; eputc TY_BACKSP s } else Some s }"

definition get_i :: "int \<Rightarrow> ttycblk \<Rightarrow> int option" where
  "get_i i y = (if 0 \<le> i \<and> i < TY_IBUFLEN then Some (tyibuff y i) else None)"

definition erase1 :: "ttyst \<Rightarrow> ttyst option" where
  "erase1 s = do {
     let s = upd_tty (\<lambda>y. y\<lparr>tyitail := (if tyitail y - 1 < 0 then tyitail y - 1 + TY_IBUFLEN else tyitail y - 1)\<rparr>) s;
     ch \<leftarrow> get_i (tyitail (tty s)) (tty s);
     if tyiecho (tty s) then
       if ch < TY_BLANK \<or> ch = 127 then do {
         s \<leftarrow> (if tyevis (tty s) then echo_back s else Some s);
         echo_back s }
       else echo_back s
     else Some s }"

section \<open>A character arrives\<close>

text \<open>Storing at the tail; the caller wraps the index, if it does.\<close>

definition put_i :: "int \<Rightarrow> ttyst \<Rightarrow> ttyst option" where
  "put_i ch s =
     (let t = tyitail (tty s) in
      if 0 \<le> t \<and> t < TY_IBUFLEN
      then Some (upd_tty (\<lambda>y. y\<lparr>tyibuff := (tyibuff y)(t := ch), tyitail := t + 1\<rparr>) s) else None)"

definition wrap_i :: "ttyst \<Rightarrow> ttyst" where
  "wrap_i = upd_tty (\<lambda>y. y\<lparr>tyitail := (if tyitail y \<ge> TY_IBUFLEN then 0 else tyitail y)\<rparr>)"

definition input_avail :: "ttyst \<Rightarrow> int" where
  "input_avail s = (let navail = semcount (tyisem (tty s)) (tkern s) in if navail < 0 then 0 else navail)"

definition handle_raw :: "int \<Rightarrow> ttyst \<Rightarrow> ttyst option" where
  "handle_raw ch s =
     (if input_avail s \<ge> TY_IBUFLEN then Some s
      else do {
        s \<leftarrow> put_i ch s;
        let s = upd_tty (\<lambda>y. y\<lparr>tyotail := (if tyotail y \<ge> TY_OBUFLEN then 0 else tyotail y)\<rparr>) s;
        (_, s) \<leftarrow> kcall_tty (signal (tyisem (tty s))) s;
        Some s })"

definition handle_cbreak :: "int \<Rightarrow> int \<Rightarrow> ttyst \<Rightarrow> ttyst option" where
  "handle_cbreak navail ch s =
     (if navail \<ge> TY_IBUFLEN then eputc (tyifullc (tty s)) s
      else do {
        s \<leftarrow> put_i ch s;
        let s = wrap_i s;
        if tyiecho (tty s) then echoch ch s else Some s })"

definition handle_cooked :: "int \<Rightarrow> ttyst \<Rightarrow> ttyst option" where
  "handle_cooked ch s =
     (let y = tty s in
      if ch = tyikillc y \<and> tyikill y then do {
        let s = upd_tty (\<lambda>y. y\<lparr>tyitail := tyitail y - tyicursor y\<rparr>) s;
        let s = (if tyitail (tty s) < 0 then upd_tty (\<lambda>y. y\<lparr>tyihead := tyihead y + TY_IBUFLEN\<rparr>) s else s);
        let s = upd_tty (\<lambda>y. y\<lparr>tyicursor := 0\<rparr>) s;
        s \<leftarrow> eputc TY_RETURN s;
        eputc TY_NEWLINE s }
      else if ch = tyierasec y \<and> tyierase y then
        if tyicursor y > 0 then erase1 (upd_tty (\<lambda>y. y\<lparr>tyicursor := tyicursor y - 1\<rparr>) s) else Some s
      else if ch = TY_NEWLINE \<or> ch = TY_RETURN then do {
        s \<leftarrow> (if tyiecho y then echoch ch s else Some s);
        s \<leftarrow> put_i ch s;
        let s = wrap_i s;
        (_, s) \<leftarrow> kcall_tty (signaln (tyisem (tty s)) (tyicursor (tty s) + 1)) s;
        Some (upd_tty (\<lambda>y. y\<lparr>tyicursor := 0\<rparr>) s) }
      else if input_avail s + tyicursor y \<ge> TY_IBUFLEN - 1 then eputc (tyifullc y) s
      else if ch = tyeofch y \<and> tyeof y then do {
        s \<leftarrow> (if tyiecho y then echoch ch s else Some s);
        if tyicursor (tty s) \<noteq> 0 then Some s
        else do {
          s \<leftarrow> put_i ch s;
          (_, s) \<leftarrow> kcall_tty (signal (tyisem (tty s))) s;
          Some s } }
      else do {
        s \<leftarrow> (if tyiecho y then echoch ch s else Some s);
        let s = upd_tty (\<lambda>y. y\<lparr>tyicursor := tyicursor y + 1\<rparr>) s;
        s \<leftarrow> put_i ch s;
        Some (wrap_i s) })"

definition uart_read :: "ttyst \<Rightarrow> (int \<times> ttyst) option" where
  "uart_read s = (case rx (uart s) of [] \<Rightarrow> None | c # cs \<Rightarrow> Some (c, s\<lparr>uart := (uart s)\<lparr>rx := cs\<rparr>\<rparr>))"

text \<open>ttyhandle_in runs in the interrupt handler, with rescheduling deferred.\<close>

definition ttyhandle_in :: "ttyst \<Rightarrow> ttyst option" where
  "ttyhandle_in s = do {
     (ch, s) \<leftarrow> uart_read s;
     let navail = input_avail s;
     let y = tty s;
     if tyimode y = TY_IMRAW then handle_raw ch s
     else
       let ch = (if ch = TY_RETURN \<and> tyicrlf y then TY_NEWLINE else ch) in
       if tyoflow y \<and> ch = tyostart y then Some (ttykickout (upd_tty (\<lambda>y. y\<lparr>tyoheld := False\<rparr>) s))
       else if tyoflow y \<and> ch = tyostop y then Some (upd_tty (\<lambda>y. y\<lparr>tyoheld := True\<rparr>) s)
       else
         let s = upd_tty (\<lambda>y. y\<lparr>tyoheld := False\<rparr>) s in
         if tyimode y = TY_IMCBREAK then handle_cbreak navail ch s else handle_cooked ch s }"

section \<open>Reading\<close>

definition ttygetc_rest :: "ttyst \<Rightarrow> (int \<times> ttyst) option" where
  "ttygetc_rest s = do {
     let h = tyihead (tty s);
     ch \<leftarrow> get_i h (tty s);
     let s = upd_tty (\<lambda>y. y\<lparr>tyihead := (if h + 1 \<ge> TY_IBUFLEN then 0 else h + 1)\<rparr>) s;
     let y = tty s;
     if tyimode y = TY_IMCOOKED \<and> tyeof y \<and> ch = tyeofch y then Some (TY_EOF, s) else Some (ch, s) }"

definition ttygetc :: "ttyst \<Rightarrow> (outcome \<times> ttyst) option" where
  "ttygetc s = do {
     (_, t) \<leftarrow> kcall_tty (wait (tyisem (tty s))) s;
     if currpid (tkern t) = currpid (tkern s) then do { (c, t) \<leftarrow> ttygetc_rest t; Some (Ret c, t) }
     else Some (Blocked, t) }"

text \<open>A read that is suspended says how many characters it has stored; ttyread_resume goes on from
  there. Memory is that of the caller.\<close>

datatype tty_read = Got int bmem | Suspended nat bmem

primrec read_raw :: "nat \<Rightarrow> nat \<Rightarrow> int \<Rightarrow> bmem \<Rightarrow> ttyst \<Rightarrow> (tty_read \<times> ttyst) option" where
  "read_raw 0 nread buff m s = Some (Got (int nread) m, s)"
| "read_raw (Suc k) nread buff m s = do {
     (r, s) \<leftarrow> ttygetc s;
     case r of Blocked \<Rightarrow> Some (Suspended nread m, s)
     | Ret c \<Rightarrow> read_raw k (nread + 1) buff (m(buff + int nread := u8 c)) s }"

primrec read_line :: "nat \<Rightarrow> nat \<Rightarrow> int \<Rightarrow> int \<Rightarrow> bmem \<Rightarrow> ttyst \<Rightarrow> (tty_read \<times> ttyst) option" where
  "read_line 0 nread ch buff m s = Some (Got (int nread) m, s)"
| "read_line (Suc k) nread ch buff m s =
     (if ch \<noteq> TY_NEWLINE \<and> ch \<noteq> TY_RETURN then do {
        (r, s) \<leftarrow> ttygetc s;
        case r of Blocked \<Rightarrow> Some (Suspended nread m, s)
        | Ret c \<Rightarrow> read_line k (nread + 1) (u8 c) buff (m(buff + int nread := u8 c)) s }
      else Some (Got (int nread) m, s))"

definition ttyread_first :: "int \<Rightarrow> int \<Rightarrow> bmem \<Rightarrow> int \<Rightarrow> ttyst \<Rightarrow> (tty_read \<times> ttyst) option" where
  "ttyread_first buff count m firstch s =
     (if firstch = TY_EOF then Some (Got TY_EOF m, s)
      else read_line (nat (count - 1)) 1 (u8 firstch) buff (m(buff := u8 firstch)) s)"

definition ttyread :: "int \<Rightarrow> int \<Rightarrow> bmem \<Rightarrow> ttyst \<Rightarrow> (tty_read \<times> ttyst) option" where
  "ttyread buff count m s =
     (if count < 0 then Some (Got SYSERR m, s)
      else if tyimode (tty s) \<noteq> TY_IMCOOKED then
        (let navail = semcount (tyisem (tty s)) (tkern s) in
         if count = 0 \<and> navail = 0 then Some (Got 0 m, s)
         else read_raw (nat (if count = 0 then navail else count)) 0 buff m s)
      else do {
        (r, s) \<leftarrow> ttygetc s;
        case r of Blocked \<Rightarrow> Some (Suspended 0 m, s) | Ret c \<Rightarrow> ttyread_first buff count m c s })"

text \<open>count is the number that the loop of ttyread counts to.\<close>

definition ttyread_resume :: "int \<Rightarrow> int \<Rightarrow> bool \<Rightarrow> nat \<Rightarrow> bmem \<Rightarrow> ttyst \<Rightarrow> (tty_read \<times> ttyst) option" where
  "ttyread_resume buff count cooked nread m s = do {
     (c, s) \<leftarrow> ttygetc_rest s;
     if cooked \<and> nread = 0 then ttyread_first buff count m c s
     else
       let m = m(buff + int nread := u8 c); k = nat count - (nread + 1) in
       if cooked then read_line k (nread + 1) (u8 c) buff m s else read_raw k (nread + 1) buff m s }"

section \<open>Writing\<close>

text \<open>The characters that ttyputc puts into the output queue for one of its caller.\<close>

definition tty_expand :: "ttycblk \<Rightarrow> int \<Rightarrow> int list" where
  "tty_expand y ch = (if ch = TY_NEWLINE \<and> tyocrlf y then [TY_RETURN, ch] else [ch])"

definition ttyputc_rest :: "int \<Rightarrow> ttyst \<Rightarrow> ttyst option" where
  "ttyputc_rest ch s =
     (let t = tyotail (tty s) in
      if 0 \<le> t \<and> t < TY_OBUFLEN
      then Some (ttykickout (upd_tty (\<lambda>y. y\<lparr>tyobuff := (tyobuff y)(t := ch), tyotail := (if t + 1 \<ge> TY_OBUFLEN then 0 else t + 1)\<rparr>) s))
      else None)"

text \<open>The result is the list of the characters still to be put: empty when the call is complete.\<close>

primrec tty_send :: "int list \<Rightarrow> ttyst \<Rightarrow> (int list \<times> ttyst) option" where
  "tty_send [] s = Some ([], s)"
| "tty_send (c # cs) s = do {
     (_, t) \<leftarrow> kcall_tty (wait (tyosem (tty s))) s;
     if currpid (tkern t) = currpid (tkern s) then do { t \<leftarrow> ttyputc_rest c t; tty_send cs t }
     else Some (c # cs, t) }"

definition ttyputc :: "int \<Rightarrow> ttyst \<Rightarrow> (int list \<times> ttyst) option" where
  "ttyputc ch s = tty_send (tty_expand (tty s) ch) s"

definition ttyputc_resume :: "int list \<Rightarrow> ttyst \<Rightarrow> (int list \<times> ttyst) option" where
  "ttyputc_resume cs s = (case cs of [] \<Rightarrow> Some ([], s) | c # cs \<Rightarrow> do { s \<leftarrow> ttyputc_rest c s; tty_send cs s })"

definition ttywrite :: "int \<Rightarrow> int \<Rightarrow> bmem \<Rightarrow> ttyst \<Rightarrow> (int \<times> int list \<times> ttyst) option" where
  "ttywrite buff count m s =
     (if count < 0 then Some (SYSERR, [], s)
      else if count = 0 then Some (OK, [], s)
      else do {
        (cs, s) \<leftarrow> tty_send (concat (map (\<lambda>i. tty_expand (tty s) (m (buff + int i))) [0..<nat count])) s;
        Some (OK, cs, s) })"

section \<open>Output to the device\<close>

definition out_idle :: "ttyst \<Rightarrow> bool" where
  "out_idle s \<longleftrightarrow> tyehead (tty s) = tyetail (tty s) \<and> semcount (tyosem (tty s)) (tkern s) \<ge> TY_OBUFLEN"

definition quiet :: "ttyst \<Rightarrow> ttyst" where
  "quiet s = s\<lparr>uart := (uart s)\<lparr>ier := and (ier (uart s)) (not UART_IER_ETBEI)\<rparr>\<rparr>"

definition uart_write :: "int \<Rightarrow> ttyst \<Rightarrow> ttyst" where
  "uart_write c s = s\<lparr>uart := (uart s)\<lparr>tx := tx (uart s) @ [c]\<rparr>\<rparr>"

definition echo_out_iter :: "int \<times> ttyst \<Rightarrow> (int \<times> ttyst + int \<times> ttyst) option" where
  "echo_out_iter = (\<lambda>(uspace, s).
     let h = tyehead (tty s) in
     if uspace > 0 \<and> h \<noteq> tyetail (tty s) then
       (if 0 \<le> h \<and> h < TY_EBUFLEN
        then Some (Inl (uspace - 1, upd_tty (\<lambda>y. y\<lparr>tyehead := (if h + 1 \<ge> TY_EBUFLEN then 0 else h + 1)\<rparr>) (uart_write (tyebuff (tty s) h) s)))
        else None)
     else Some (Inr (uspace, s)))"

definition char_out_iter :: "int \<times> int \<times> int \<times> ttyst \<Rightarrow> (int \<times> int \<times> int \<times> ttyst + int \<times> ttyst) option" where
  "char_out_iter = (\<lambda>(uspace, navail, ochars, s).
     let h = tyohead (tty s) in
     if uspace > 0 \<and> navail > 0 then
       (if 0 \<le> h \<and> h < TY_OBUFLEN
        then Some (Inl (uspace - 1, navail - 1, ochars + 1,
          upd_tty (\<lambda>y. y\<lparr>tyohead := (if h + 1 \<ge> TY_OBUFLEN then 0 else h + 1)\<rparr>) (uart_write (tyobuff (tty s) h) s)))
        else None)
     else Some (Inr (ochars, s)))"

text \<open>signaln may wake a writer of higher priority; ttyhandle_out_rest then runs later.\<close>

definition ttyhandle_out_rest :: "ttyst \<Rightarrow> ttyst" where
  "ttyhandle_out_rest s = (if out_idle s then quiet s else s)"

definition ttyhandle_out :: "ttyst \<Rightarrow> (outcome \<times> ttyst) option" where
  "ttyhandle_out s =
     (if tyoheld (tty s) then Some (Ret OK, s)
      else if out_idle s then Some (Ret OK, quiet s)
      else do {
        let uspace = UART_FIFO_SIZE - txfifo_lvl (uart s);
        (uspace, s) \<leftarrow> c_loop echo_out_iter (uspace, s);
        let navail = TY_OBUFLEN - semcount (tyosem (tty s)) (tkern s);
        (ochars, s) \<leftarrow> c_loop char_out_iter (uspace, navail, 0, s);
        (_, t) \<leftarrow> (if ochars > 0 then kcall_tty (signaln (tyosem (tty s)) ochars) s else Some (OK, s));
        if currpid (tkern t) = currpid (tkern s) then Some (Ret OK, ttyhandle_out_rest t) else Some (Blocked, t) })"

section \<open>The interrupt handler\<close>

definition drain_rx :: "ttyst \<Rightarrow> ttyst option" where
  "drain_rx = c_while (\<lambda>s. rx (uart s) \<noteq> []) ttyhandle_in"

definition ttyhandler :: "ttyst \<Rightarrow> (outcome \<times> ttyst) option" where
  "ttyhandler s =
     (if and (iir (uart s)) 1 \<noteq> 0 then Some (Ret OK, s)
      else
        let cause = and (iir (uart s)) 14 in
        if cause = 6 then Some (Ret OK, if lsr_bi (uart s) then (case uart_read s of None \<Rightarrow> s | Some (_, t) \<Rightarrow> t) else s)
        else if cause = 4 \<or> cause = 12 then do {
          (_, s) \<leftarrow> kcall_tty (resched_cntl DEFER_START) s;
          s \<leftarrow> drain_rx s;
          (_, s) \<leftarrow> kcall_tty (resched_cntl DEFER_STOP) s;
          Some (Ret OK, s) }
        else if cause = 2 then ttyhandle_out s
        else Some (Ret OK, s))"

section \<open>Control and initialisation\<close>

definition TC_NEXTC :: int where "TC_NEXTC = 3"
definition TC_MODER :: int where "TC_MODER = 4"
definition TC_MODEC :: int where "TC_MODEC = 5"
definition TC_MODEK :: int where "TC_MODEK = 6"
definition TC_ICHARS :: int where "TC_ICHARS = 8"
definition TC_ECHO :: int where "TC_ECHO = 9"
definition TC_NOECHO :: int where "TC_NOECHO = 10"

text \<open>The look-ahead reads the element at the tail.\<close>

definition nextc_rest :: "ttyst \<Rightarrow> (outcome \<times> ttyst) option" where
  "nextc_rest s = do {
     ch \<leftarrow> get_i (tyitail (tty s)) (tty s);
     (_, s) \<leftarrow> kcall_tty (signal (tyisem (tty s))) s;
     Some (Ret ch, s) }"

definition ttycontrol :: "int \<Rightarrow> ttyst \<Rightarrow> (outcome \<times> ttyst) option" where
  "ttycontrol func s =
     (if func = TC_NEXTC then do {
        (_, t) \<leftarrow> kcall_tty (wait (tyisem (tty s))) s;
        if currpid (tkern t) = currpid (tkern s) then nextc_rest t else Some (Blocked, t) }
      else if func = TC_MODER then Some (Ret OK, upd_tty (\<lambda>y. y\<lparr>tyimode := TY_IMRAW\<rparr>) s)
      else if func = TC_MODEC then Some (Ret OK, upd_tty (\<lambda>y. y\<lparr>tyimode := TY_IMCOOKED\<rparr>) s)
      else if func = TC_MODEK then Some (Ret OK, upd_tty (\<lambda>y. y\<lparr>tyimode := TY_IMCBREAK\<rparr>) s)
      else if func = TC_ICHARS then Some (Ret (semcount (tyisem (tty s)) (tkern s)), s)
      else if func = TC_ECHO then Some (Ret OK, upd_tty (\<lambda>y. y\<lparr>tyiecho := True\<rparr>) s)
      else if func = TC_NOECHO then Some (Ret OK, upd_tty (\<lambda>y. y\<lparr>tyiecho := False\<rparr>) s)
      else Some (Ret SYSERR, s))"

text \<open>ttyinit without the settings of the UART's line parameters and the interrupt vector.\<close>

definition ttyinit :: "ttyst \<Rightarrow> (int \<times> ttyst) option" where
  "ttyinit s = do {
     (isem, s) \<leftarrow> kcall_tty (semcreate 0) s;
     (osem, s) \<leftarrow> kcall_tty (semcreate TY_OBUFLEN) s;
     let y = tty s;
     Some (OK, ttykickout (s\<lparr>tty := \<lparr>tyihead = 0, tyitail = 0, tyibuff = tyibuff y, tyisem = isem,
       tyohead = 0, tyotail = 0, tyobuff = tyobuff y, tyosem = osem, tyehead = 0, tyetail = 0, tyebuff = tyebuff y,
       tyimode = TY_IMCOOKED, tyiecho = True, tyieback = True, tyevis = True, tyecrlf = True, tyicrlf = True,
       tyierase = True, tyierasec = TY_BACKSP, tyeof = True, tyeofch = TY_EOFCH, tyikill = True, tyikillc = TY_KILLCH,
       tyicursor = 0, tyoflow = True, tyoheld = False, tyostop = TY_STOPCH, tyostart = TY_STRTCH, tyocrlf = True,
       tyifullc = TY_BELL\<rparr>\<rparr>)) }"

end
