(* ===== verification/Blocking.thy ===== *)
theory Blocking
  imports Kernel_Properties
begin

text \<open>
  Code that calls wait and signal in its middle. The caller may be switched out there and goes on
  when it is next chosen, in the state of that time. A run of such code is either done, or at a
  switch, where it has the state that it left behind and the rest of its code.
\<close>

datatype ('a, 's) act = Done 'a 's | Switch 's "'s \<Rightarrow> ('a, 's) act option"

primrec act_bind :: "('a, 's) act \<Rightarrow> ('a \<Rightarrow> 's \<Rightarrow> ('b, 's) act option) \<Rightarrow> ('b, 's) act option" where
  "act_bind (Done a s) f = f a s"
| "act_bind (Switch s k) f = Some (Switch s (\<lambda>t. Option.bind (map_option (\<lambda>m. act_bind m f) (k t)) id))"

definition andthen :: "('a, 's) act option \<Rightarrow> ('a \<Rightarrow> 's \<Rightarrow> ('b, 's) act option) \<Rightarrow> ('b, 's) act option" where
  "andthen m f = Option.bind m (\<lambda>r. act_bind r f)"

lemma andthen_Done [simp]: "andthen (Some (Done a s)) f = f a s"
  by (simp add: andthen_def)

lemma andthen_None [simp]: "andthen None f = None"
  by (simp add: andthen_def)

lemma andthen_Switch [simp]: "andthen (Some (Switch s k)) f = Some (Switch s (\<lambda>t. andthen (k t) f))"
  by (simp add: andthen_def fun_eq_iff bind_map_option comp_def)

text \<open>Where the caller is still the current process after a call of the kernel, it goes on at once.\<close>

definition kernel_call :: "('s \<Rightarrow> kst) \<Rightarrow> ((kst \<Rightarrow> kst) \<Rightarrow> 's \<Rightarrow> 's) \<Rightarrow> (kst \<Rightarrow> (int \<times> kst) option) \<Rightarrow> 's \<Rightarrow> (int, 's) act option" where
  "kernel_call kern upd call s = do {
     (r, k) \<leftarrow> call (kern s);
     let t = upd (\<lambda>_. k) s;
     Some (if currpid k = currpid (kern s) then Done r t else Switch t (\<lambda>s. Some (Done r s))) }"

section \<open>Semaphores with nobody waiting\<close>

lemma signaln_count:
  assumes "0 \<le> n" "0 \<le> scount (semtab s i)" "scount (semtab s i) + n \<le> INT_MAX"
  shows "c_while (\<lambda>(count, s). count > 0) (signaln_body i) (n, s) = Some (0, upd_sem i (\<lambda>e. e\<lparr>scount := scount e + n\<rparr>) s)"
  using assms
proof (induction "nat n" arbitrary: n s)
  case 0
  then have "n = 0" by simp
  moreover have "upd_sem i (\<lambda>e. e\<lparr>scount := scount e + 0\<rparr>) s = s" by (rule upd_sem_same)
  ultimately show ?case by (simp add: c_while_stop)
next
  case (Suc k)
  let ?t = "upd_sem i (\<lambda>e. e\<lparr>scount := scount e + 1\<rparr>) s"
  have n: "0 < n" using Suc.hyps(2) by simp
  have b: "signaln_body i (n, s) = Some (n - 1, ?t)"
    using Suc.prems n by (simp add: signaln_body_def sem_inc_eq)
  have "c_while (\<lambda>(count, s). count > 0) (signaln_body i) (n, s) = c_while (\<lambda>(count, s). count > 0) (signaln_body i) (n - 1, ?t)"
    by (rule c_while_step) (use n b in simp_all)
  also have "\<dots> = Some (0, upd_sem i (\<lambda>e. e\<lparr>scount := scount e + (n - 1)\<rparr>) ?t)"
    by (rule Suc.hyps(1)) (use Suc.hyps(2) Suc.prems n in \<open>simp_all add: upd_sem_def\<close>)
  also have "upd_sem i (\<lambda>e. e\<lparr>scount := scount e + (n - 1)\<rparr>) ?t = upd_sem i (\<lambda>e. e\<lparr>scount := scount e + n\<rparr>) s"
    by (simp add: upd_sem_comp)
  finally show ?case .
qed

lemma signaln_free:
  assumes "\<not> isbadsem i" "sstate (semtab s i) = S_USED" "0 \<le> n" "0 \<le> scount (semtab s i)" "scount (semtab s i) + n \<le> INT_MAX"
    "0 < ndefers (Defer s)" "ndefers (Defer s) < INT_MAX"
  shows "signaln i n s = Some (OK, upd_sem i (\<lambda>e. e\<lparr>scount := scount e + n\<rparr>) s)"
proof -
  let ?d = "s\<lparr>Defer := (Defer s)\<lparr>ndefers := ndefers (Defer s) + 1\<rparr>\<rparr>"
  have st: "resched_cntl DEFER_START s = Some (OK, ?d)"
    using assms(6,7) by (simp add: resched_cntl_def i32_id)
  have lp: "c_while (\<lambda>(count, s). count > 0) (signaln_body i) (n, ?d) = Some (0, upd_sem i (\<lambda>e. e\<lparr>scount := scount e + n\<rparr>) ?d)"
    by (rule signaln_count) (use assms in simp_all)
  have "resched_cntl DEFER_STOP (upd_sem i (\<lambda>e. e\<lparr>scount := scount e + n\<rparr>) ?d) = Some (OK, upd_sem i (\<lambda>e. e\<lparr>scount := scount e + n\<rparr>) s)"
    using assms(6) by (simp add: resched_cntl_def DEFER_START_def DEFER_STOP_def upd_sem_def)
  then show ?thesis using assms(1-3) st lp by (simp add: signaln_def)
qed

lemma signal_free:
  assumes "\<not> isbadsem i" "sstate (semtab s i) = S_USED" "0 \<le> scount (semtab s i)" "scount (semtab s i) < INT_MAX"
  shows "signal i s = Some (OK, upd_sem i (\<lambda>e. e\<lparr>scount := scount e + 1\<rparr>) s)"
  using assms by (simp add: signal_def sem_inc_eq)

lemma wait_free:
  assumes "\<not> isbadsem i" "sstate (semtab s i) = S_USED" "0 < scount (semtab s i)" "scount (semtab s i) \<le> INT_MAX"
  shows "wait i s = Some (OK, upd_sem i (\<lambda>e. e\<lparr>scount := scount e - 1\<rparr>) s)"
proof -
  have "upd_sem i (\<lambda>e. e\<lparr>scount := i32 (scount e - 1)\<rparr>) s = upd_sem i (\<lambda>e. e\<lparr>scount := scount e - 1\<rparr>) s"
    using assms(3,4) by (simp add: upd_sem_def i32_id)
  then show ?thesis using assms by (simp add: wait_def Let_def upd_sem_def i32_id)
qed

section \<open>Mutual exclusion\<close>

text \<open>A semaphore that nobody holds, and the state in which it is held.\<close>

definition mutex_ok :: "int \<Rightarrow> kst \<Rightarrow> bool" where
  "mutex_ok m k \<longleftrightarrow> \<not> isbadsem m \<and> sstate (semtab k m) = S_USED \<and> scount (semtab k m) = 1"

definition locked :: "int \<Rightarrow> kst \<Rightarrow> kst" where
  "locked m k = upd_sem m (\<lambda>e. e\<lparr>scount := 0\<rparr>) k"

lemma wait_mutex:
  assumes "mutex_ok m k" shows "wait m k = Some (OK, locked m k)"
proof -
  have "upd_sem m (\<lambda>e. e\<lparr>scount := scount e - 1\<rparr>) k = locked m k"
    using assms by (simp add: locked_def upd_sem_def mutex_ok_def)
  then show ?thesis using wait_free[of m k] assms by (simp add: mutex_ok_def)
qed

lemma signal_mutex:
  assumes "mutex_ok m k" shows "signal m (locked m k) = Some (OK, k)"
proof -
  have "upd_sem m (\<lambda>e. e\<lparr>scount := scount e + 1\<rparr>) (locked m k) = k"
    using assms by (simp add: locked_def upd_sem_def mutex_ok_def fun_upd_idem)
  then show ?thesis using signal_free[of m "locked m k"] assms by (simp add: mutex_ok_def locked_def upd_sem_def)
qed

lemma locked_simps [simp]: "currpid (locked m k) = currpid k" "m' \<noteq> m \<Longrightarrow> mutex_ok m' (locked m k) = mutex_ok m' k"
  by (simp_all add: locked_def upd_sem_def mutex_ok_def)

end
