(* ===== verification/Tty_Lines.thy ===== *)
theory Tty_Lines
  imports Tty Blocking
begin

text \<open>The terminal driver against a line editor. edit is the editor: what is ready to be read and the
  line under construction, and what each character typed does to them. tty_rel relates the driver's
  circular input buffer, its cursor and its input semaphore to that pair; each branch of
  ttyhandle_in keeps the relation, hence so does the interrupt handler that drains the receive FIFO,
  and ttyread returns the first finished line.\<close>

section \<open>Echo leaves the rest alone\<close>

text \<open>What remains of the state when the echo buffer and the interrupt enable register are forgotten.\<close>

definition unechoed :: "ttyst \<Rightarrow> kst \<times> ttycblk \<times> int list" where
  "unechoed s = (tkern s, (tty s)\<lparr>tyetail := 0, tyebuff := (\<lambda>_. 0)\<rparr>, rx (uart s))"

definition echo_ok :: "ttyst \<Rightarrow> bool" where
  "echo_ok s \<longleftrightarrow> 0 \<le> tyetail (tty s) \<and> tyetail (tty s) < TY_EBUFLEN"

definition echoes :: "ttyst \<Rightarrow> ttyst \<Rightarrow> bool" where
  "echoes s t \<longleftrightarrow> unechoed t = unechoed s \<and> echo_ok t"

lemma eputc_ok: "echo_ok s \<Longrightarrow> \<exists>t. eputc c s = Some t \<and> echoes s t"
  by (simp add: eputc_def echo_ok_def echoes_def unechoed_def ttykickout_def upd_tty_def Let_def TY_EBUFLEN_def)

lemma echoes_trans: "echoes s t \<Longrightarrow> echoes t u \<Longrightarrow> echoes s u"
  by (simp add: echoes_def)

lemma echoes_refl: "echo_ok s \<Longrightarrow> echoes s s"
  by (simp add: echoes_def)

lemma eputc2_ok:
  assumes "echo_ok s" shows "\<exists>t. (do { s \<leftarrow> eputc c s; eputc d s }) = Some t \<and> echoes s t"
proof -
  obtain t where t: "eputc c s = Some t" "echoes s t" using eputc_ok[OF assms] by blast
  moreover obtain u where "eputc d t = Some u" "echoes t u" using eputc_ok[of t d] t(2) by (auto simp: echoes_def)
  ultimately show ?thesis using echoes_trans by auto
qed

lemma echoch_ok: "echo_ok s \<Longrightarrow> \<exists>t. echoch c s = Some t \<and> echoes s t"
  using eputc2_ok eputc_ok unfolding echoch_def by simp

lemma echo_back_ok:
  assumes "echo_ok s" shows "\<exists>t. echo_back s = Some t \<and> echoes s t"
proof -
  obtain t where t: "eputc TY_BACKSP s = Some t" "echoes s t" using eputc_ok[OF assms] by blast
  obtain u where "(do { s \<leftarrow> eputc TY_BLANK t; eputc TY_BACKSP s }) = Some u" "echoes t u"
    using eputc2_ok[of t] t(2) by (auto simp: echoes_def)
  then show ?thesis using t echoes_trans by (auto simp: echo_back_def)
qed

lemma echoesD:
  assumes "echoes s t"
  shows "tkern t = tkern s" "rx (uart t) = rx (uart s)" "tyihead (tty t) = tyihead (tty s)" "tyitail (tty t) = tyitail (tty s)"
    "tyibuff (tty t) = tyibuff (tty s)" "tyisem (tty t) = tyisem (tty s)" "tyicursor (tty t) = tyicursor (tty s)"
    "echo_ok t" "(tty t)\<lparr>tyetail := 0, tyebuff := (\<lambda>_. 0)\<rparr> = (tty s)\<lparr>tyetail := 0, tyebuff := (\<lambda>_. 0)\<rparr>"
proof -
  have e: "tkern t = tkern s" "rx (uart t) = rx (uart s)" "echo_ok t"
    "(tty t)\<lparr>tyetail := 0, tyebuff := (\<lambda>_. 0)\<rparr> = (tty s)\<lparr>tyetail := 0, tyebuff := (\<lambda>_. 0)\<rparr>"
    using assms by (simp_all add: echoes_def unechoed_def)
  then show "tkern t = tkern s" "rx (uart t) = rx (uart s)" "echo_ok t"
    "(tty t)\<lparr>tyetail := 0, tyebuff := (\<lambda>_. 0)\<rparr> = (tty s)\<lparr>tyetail := 0, tyebuff := (\<lambda>_. 0)\<rparr>" by blast+
  show "tyihead (tty t) = tyihead (tty s)" using arg_cong[OF e(4), of tyihead] by simp
  show "tyitail (tty t) = tyitail (tty s)" using arg_cong[OF e(4), of tyitail] by simp
  show "tyibuff (tty t) = tyibuff (tty s)" using arg_cong[OF e(4), of tyibuff] by simp
  show "tyisem (tty t) = tyisem (tty s)" using arg_cong[OF e(4), of tyisem] by simp
  show "tyicursor (tty t) = tyicursor (tty s)" using arg_cong[OF e(4), of tyicursor] by simp
qed

section \<open>The line editor\<close>

text \<open>What the driver makes of a character, with the settings of ttyinit: xs are the characters that can
  be read, l is the line that is being typed.\<close>

definition edit :: "int list \<times> int list \<Rightarrow> int \<Rightarrow> int list \<times> int list" where
  "edit = (\<lambda>(xs, l) c.
     let ch = (if c = TY_RETURN then TY_NEWLINE else c) in
     if ch = TY_STRTCH \<or> ch = TY_STOPCH then (xs, l)
     else if ch = TY_KILLCH then (xs, [])
     else if ch = TY_BACKSP then (xs, butlast l)
     else if ch = TY_NEWLINE then (xs @ l @ [TY_NEWLINE], [])
     else if length xs + length l \<ge> 127 then (xs, l)
     else if ch = TY_EOFCH then (if l = [] then (xs @ [TY_EOFCH], []) else (xs, l))
     else (xs, l @ [ch]))"

text \<open>Where the driver does what the editor says: a line that is killed does not reach around the end of
  the buffer, an end-of-file mark is not its last element, and there is room for a newline. h is the
  index of the next character to be read.\<close>

definition sane :: "int \<Rightarrow> int list \<times> int list \<Rightarrow> int \<Rightarrow> bool" where
  "sane h = (\<lambda>(xs, l) c. 0 \<le> c \<and> c < 256 \<and>
     (let tail = (h + int (length xs) + int (length l)) mod TY_IBUFLEN in
      (c = TY_KILLCH \<longrightarrow> int (length l) \<le> tail) \<and> (c = TY_EOFCH \<longrightarrow> l = [] \<longrightarrow> tail < TY_IBUFLEN - 1) \<and>
      (c = TY_NEWLINE \<or> c = TY_RETURN \<longrightarrow> length xs + length l < 128)))"

fun typed_ok :: "int \<Rightarrow> int list \<times> int list \<Rightarrow> int list \<Rightarrow> bool" where
  "typed_ok h e [] = True"
| "typed_ok h e (c # cs) = (sane h e c \<and> typed_ok h (edit e c) cs)"

text \<open>The settings that ttyinit makes; echo may be on or off.\<close>

definition plain_modes :: "ttycblk \<Rightarrow> bool" where
  "plain_modes y \<longleftrightarrow> tyimode y = TY_IMCOOKED \<and> tyicrlf y \<and> tyierase y \<and> tyierasec y = TY_BACKSP \<and> tyeof y \<and>
     tyeofch y = TY_EOFCH \<and> tyikill y \<and> tyikillc y = TY_KILLCH \<and> tyoflow y \<and> tyostop y = TY_STOPCH \<and> tyostart y = TY_STRTCH"

definition tty_rel :: "ttyst \<Rightarrow> int list \<Rightarrow> int list \<Rightarrow> bool" where
  "tty_rel s xs l \<longleftrightarrow> plain_modes (tty s) \<and> echo_ok s \<and>
     ring_ok TY_IBUFLEN (tyihead (tty s)) (tyitail (tty s)) (int (length xs) + int (length l)) \<and>
     ring_items TY_IBUFLEN (tyibuff (tty s)) (tyihead (tty s)) (int (length xs) + int (length l)) = xs @ l \<and>
     tyicursor (tty s) = int (length l) \<and> \<not> isbadsem (tyisem (tty s)) \<and>
     sstate (semtab (tkern s) (tyisem (tty s))) = S_USED \<and> scount (semtab (tkern s) (tyisem (tty s))) = int (length xs)"

lemma plain_modes_cong:
  assumes "y\<lparr>tyetail := 0, tyebuff := (\<lambda>_. 0)\<rparr> = z\<lparr>tyetail := 0, tyebuff := (\<lambda>_. 0)\<rparr>"
  shows "plain_modes y = plain_modes z"
proof -
  have "plain_modes y = plain_modes (y\<lparr>tyetail := 0, tyebuff := (\<lambda>_. 0)\<rparr>)" "plain_modes z = plain_modes (z\<lparr>tyetail := 0, tyebuff := (\<lambda>_. 0)\<rparr>)"
    by (simp_all add: plain_modes_def)
  then show ?thesis using assms by simp
qed

lemma tty_rel_echoes:
  assumes "echoes s t" "tty_rel s xs l"
  shows "tty_rel t xs l"
  using echoesD[OF assms(1)] plain_modes_cong[OF echoesD(9)[OF assms(1)]] assms(2) by (simp add: tty_rel_def)

lemma tty_rel_update:
  "tty_rel (upd_tty (\<lambda>y. y\<lparr>tyoheld := b\<rparr>) s) xs l = tty_rel s xs l"
  "tty_rel (ttykickout s) xs l = tty_rel s xs l"
  "tty_rel (s\<lparr>uart := u\<rparr>) xs l = tty_rel s xs l"
  by (simp_all add: tty_rel_def upd_tty_def ttykickout_def plain_modes_def echo_ok_def)

text \<open>Of the kernel only the count of the input semaphore changes.\<close>

definition only_count :: "ttyst \<Rightarrow> ttyst \<Rightarrow> bool" where
  "only_count s t \<longleftrightarrow> (\<exists>n. tkern t = upd_sem (tyisem (tty s)) (\<lambda>e. e\<lparr>scount := n\<rparr>) (tkern s)) \<and>
     tyihead (tty t) = tyihead (tty s) \<and> tyisem (tty t) = tyisem (tty s) \<and> rx (uart t) = rx (uart s)"

lemma upd_sem_id: "upd_sem i (\<lambda>e. e\<lparr>scount := scount (semtab k i)\<rparr>) k = k"
  by (cases k) (auto simp: upd_sem_def fun_eq_iff)

lemma only_count_same:
  "tkern t = tkern s \<Longrightarrow> tyihead (tty t) = tyihead (tty s) \<Longrightarrow> tyisem (tty t) = tyisem (tty s) \<Longrightarrow> rx (uart t) = rx (uart s) \<Longrightarrow> only_count s t"
  unfolding only_count_def using upd_sem_id[of "tyisem (tty s)" "tkern s"] by metis

lemma only_count_trans: "only_count s t \<Longrightarrow> only_count t u \<Longrightarrow> only_count s u"
  by (auto simp: only_count_def upd_sem_comp)

lemma only_count_echoes: "echoes s t \<Longrightarrow> only_count s t"
  by (rule only_count_same) (simp_all add: echoesD)

lemma tty_relD:
  assumes "tty_rel s xs l"
  shows "plain_modes (tty s)" "echo_ok s" "tyicursor (tty s) = int (length l)" "input_avail s = int (length xs)"
    "0 \<le> tyitail (tty s)" "tyitail (tty s) < 128" "length xs + length l \<le> 128" "0 \<le> tyihead (tty s)" "tyihead (tty s) < 128"
    "tyitail (tty s) = (tyihead (tty s) + (int (length xs) + int (length l))) mod 128"
proof -
  show "plain_modes (tty s)" "echo_ok s" "tyicursor (tty s) = int (length l)" using assms by (simp_all add: tty_rel_def)
  show "input_avail s = int (length xs)" using assms by (simp add: tty_rel_def input_avail_def semcount_def)
  have r: "ring_ok 128 (tyihead (tty s)) (tyitail (tty s)) (int (length xs) + int (length l))"
    using assms by (simp add: tty_rel_def TY_IBUFLEN_def)
  show "0 \<le> tyitail (tty s)" "tyitail (tty s) < 128" using ring_tail_range[OF r] by simp_all
  show "length xs + length l \<le> 128" "0 \<le> tyihead (tty s)" "tyihead (tty s) < 128"
    "tyitail (tty s) = (tyihead (tty s) + (int (length xs) + int (length l))) mod 128"
    using r by (simp_all add: ring_ok_def)
qed

text \<open>A character is put behind the line.\<close>

lemma put_rel:
  assumes r: "tty_rel s xs l" and n: "length xs + length l < 128"
  shows "\<exists>t. put_i ch s = Some t \<and> only_count s (wrap_i t) \<and> tty_rel (upd_tty (\<lambda>y. y\<lparr>tyicursor := tyicursor y + 1\<rparr>) (wrap_i t)) xs (l @ [ch]) \<and>
    tyicursor (tty (wrap_i t)) = int (length l) \<and> tkern (wrap_i t) = tkern s \<and> (tyitail (tty s) < 127 \<longrightarrow> wrap_i t = t)"
proof -
  let ?y = "tty s" and ?n = "int (length xs) + int (length l)"
  note d = tty_relD[OF r]
  define w where "w = (if tyitail ?y + 1 \<ge> TY_IBUFLEN then 0 else tyitail ?y + 1)"
  define t where "t = upd_tty (\<lambda>y. y\<lparr>tyibuff := (tyibuff y)(tyitail y := ch), tyitail := tyitail y + 1\<rparr>) s"
  have p: "put_i ch s = Some t" using d(5,6) by (simp add: put_i_def t_def TY_IBUFLEN_def Let_def upd_tty_def)
  have ro: "ring_ok TY_IBUFLEN (tyihead ?y) (tyitail ?y) ?n" "?n < TY_IBUFLEN"
    "ring_items TY_IBUFLEN (tyibuff ?y) (tyihead ?y) ?n = xs @ l"
    using r n by (simp_all add: tty_rel_def TY_IBUFLEN_def)
  have wt: "wrap_i t = upd_tty (\<lambda>y. y\<lparr>tyibuff := (tyibuff y)(tyitail y := ch), tyitail := w\<rparr>) s"
    by (simp add: wrap_i_def t_def upd_tty_def w_def)
  have len: "int (length xs) + int (length (l @ [ch])) = ?n + 1" by simp
  have "tty_rel (upd_tty (\<lambda>y. y\<lparr>tyicursor := tyicursor y + 1\<rparr>) (wrap_i t)) xs (l @ [ch])"
    using r ring_put(1)[OF ro(1,2), of "tyibuff ?y" ch] ring_put(2)[OF ro(1,2)] ro(3) unfolding tty_rel_def len wt
    by (simp add: upd_tty_def w_def plain_modes_def echo_ok_def)
  moreover have "only_count s (wrap_i t)" by (rule only_count_same) (simp_all add: wt upd_tty_def)
  moreover have "tyitail (tty s) < 127 \<longrightarrow> wrap_i t = t" by (simp add: wrap_i_def t_def upd_tty_def TY_IBUFLEN_def)
  ultimately show ?thesis using p d(3) by (intro exI[of _ t]) (simp add: wt upd_tty_def)
qed

text \<open>Committing the line: it can be read from now on.\<close>

lemma commit_rel:
  assumes "tty_rel s xs l" "tkern u = upd_sem (tyisem (tty s)) (\<lambda>e. e\<lparr>scount := scount e + int (length l)\<rparr>) (tkern s)"
    "tty u = (tty s)\<lparr>tyicursor := 0\<rparr>"
  shows "tty_rel u (xs @ l) []"
  using assms unfolding tty_rel_def by (simp add: plain_modes_def echo_ok_def upd_sem_def)

lemma ring_shorter:
  assumes "ring_items sz buf h n = xs @ ys" "int (length xs) = m" "m \<le> n"
  shows "ring_items sz buf h m = xs"
proof -
  have "ring_items sz buf h m = take (nat m) (ring_items sz buf h n)"
    using assms(3) by (simp add: ring_items_def take_map min_def)
  then show ?thesis using assms(1,2) by auto
qed

text \<open>The line loses its end.\<close>

lemma cut_rel:
  assumes r: "tty_rel s xs (l @ m)" and t: "t = (tyihead (tty s) + int (length xs) + int (length l)) mod TY_IBUFLEN"
  shows "tty_rel (upd_tty (\<lambda>y. y\<lparr>tyitail := t, tyicursor := int (length l)\<rparr>) s) xs l"
proof -
  let ?y = "tty s"
  have f: "ring_ok TY_IBUFLEN (tyihead ?y) (tyitail ?y) (int (length xs) + int (length (l @ m)))"
    "ring_items TY_IBUFLEN (tyibuff ?y) (tyihead ?y) (int (length xs) + int (length (l @ m))) = xs @ l @ m"
    using r by (simp_all add: tty_rel_def)
  have "ring_items TY_IBUFLEN (tyibuff ?y) (tyihead ?y) (int (length xs) + int (length l)) = xs @ l"
    by (rule ring_shorter[of _ _ _ "int (length xs) + int (length (l @ m))" _ m]) (use f(2) in simp_all)
  moreover have "ring_ok TY_IBUFLEN (tyihead ?y) t (int (length xs) + int (length l))"
    using f(1) t by (simp add: ring_ok_def algebra_simps)
  ultimately show ?thesis using r by (simp add: tty_rel_def upd_tty_def plain_modes_def echo_ok_def)
qed

definition cooks :: "int \<Rightarrow> ttyst \<Rightarrow> int list \<Rightarrow> int list \<Rightarrow> bool" where
  "cooks ch s xs l \<longleftrightarrow> (\<exists>t. handle_cooked ch s = Some t \<and> tty_rel t xs l \<and> only_count s t)"

lemma only_count_upd:
  "only_count s t \<Longrightarrow> (\<And>y. tyihead (f y) = tyihead y) \<Longrightarrow> (\<And>y. tyisem (f y) = tyisem y) \<Longrightarrow> only_count s (upd_tty f t)"
  "only_count (upd_tty f s) t \<Longrightarrow> (\<And>y. tyihead (f y) = tyihead y) \<Longrightarrow> (\<And>y. tyisem (f y) = tyisem y) \<Longrightarrow> only_count s t"
  by (auto simp: only_count_def upd_tty_def)

lemma cook_kill:
  assumes r: "tty_rel s xs l" and w: "int (length l) \<le> tyitail (tty s)"
  shows "cooks TY_KILLCH s xs []"
proof -
  note d = tty_relD[OF r]
  let ?s = "upd_tty (\<lambda>y. y\<lparr>tyitail := tyitail (tty s) - int (length l), tyicursor := 0\<rparr>) s"
  have e: "tyitail (tty s) - int (length l) = (tyihead (tty s) + int (length xs) + int (length ([] :: int list))) mod TY_IBUFLEN"
  proof -
    have "tyitail (tty s) - int (length l) = (tyitail (tty s) - int (length l)) mod 128" using w d(6) by simp
    also have "\<dots> = (tyihead (tty s) + int (length xs)) mod 128" unfolding d(10) by (simp add: mod_simps)
    finally show ?thesis by (simp add: TY_IBUFLEN_def)
  qed
  have c: "tty_rel ?s xs []" using cut_rel[of s xs "[]" l, OF _ e] r by simp
  obtain t where t: "(do { s \<leftarrow> eputc TY_RETURN ?s; eputc TY_NEWLINE s }) = Some t" "echoes ?s t"
    using eputc2_ok[OF tty_relD(2)[OF c]] by blast
  have "handle_cooked TY_KILLCH s = Some t"
    using t(1) d(1,3) w by (simp add: handle_cooked_def plain_modes_def Let_def upd_tty_def)
  moreover have "only_count s t" by (rule only_count_upd(2)[OF only_count_echoes[OF t(2)]]) simp_all
  ultimately show ?thesis using tty_rel_echoes[OF t(2) c] by (auto simp: cooks_def)
qed

lemma cook_erase:
  assumes r: "tty_rel s xs l"
  shows "cooks TY_BACKSP s xs (butlast l)"
proof (cases l rule: rev_cases)
  case Nil
  then show ?thesis using r tty_relD(1,3)[OF r] only_count_same[of s s]
    by (simp add: cooks_def handle_cooked_def plain_modes_def Let_def TY_BACKSP_def TY_KILLCH_def)
next
  case (snoc m c)
  note d = tty_relD[OF r]
  define w where "w = (if tyitail (tty s) - 1 < 0 then tyitail (tty s) - 1 + TY_IBUFLEN else tyitail (tty s) - 1)"
  have "w = (tyitail (tty s) - 1) mod 128" using d(5,6) unfolding w_def TY_IBUFLEN_def
    by (cases "tyitail (tty s) = 0") simp_all
  also have "\<dots> = (tyihead (tty s) + int (length xs) + int (length m)) mod TY_IBUFLEN"
    unfolding d(10) by (simp add: mod_simps snoc TY_IBUFLEN_def algebra_simps)
  finally have w: "w = (tyihead (tty s) + int (length xs) + int (length m)) mod TY_IBUFLEN" .
  let ?s = "upd_tty (\<lambda>y. y\<lparr>tyitail := w, tyicursor := int (length m)\<rparr>) s"
  have c: "tty_rel ?s xs m" using cut_rel[of s xs m "[c]", OF _ w] r snoc by simp
  have g: "\<exists>ch. get_i w (tty ?s) = Some ch" using w by (simp add: get_i_def TY_IBUFLEN_def)
  have e: "erase1 (upd_tty (\<lambda>y. y\<lparr>tyicursor := tyicursor y - 1\<rparr>) s) = (do {
      ch \<leftarrow> get_i w (tty ?s);
      if tyiecho (tty ?s) then
        if ch < TY_BLANK \<or> ch = 127 then do {
          s \<leftarrow> (if tyevis (tty ?s) then echo_back ?s else Some ?s);
          echo_back s }
        else echo_back ?s
      else Some ?s })"
  proof -
    have "upd_tty (\<lambda>y. y\<lparr>tyitail := (if tyitail y - 1 < 0 then tyitail y - 1 + TY_IBUFLEN else tyitail y - 1)\<rparr>)
        (upd_tty (\<lambda>y. y\<lparr>tyicursor := tyicursor y - 1\<rparr>) s) = ?s"
      using d(3) snoc by (simp add: upd_tty_def w_def)
    moreover have "tyitail (tty ?s) = w" by (simp add: upd_tty_def)
    ultimately show ?thesis unfolding erase1_def Let_def by (simp only:)
  qed
  obtain u where u: "echo_back ?s = Some u" "echoes ?s u" using echo_back_ok[OF tty_relD(2)[OF c]] by blast
  obtain v where v: "echo_back u = Some v" "echoes u v" using echo_back_ok[of u] u(2) by (auto simp: echoes_def)
  have "\<exists>t. erase1 (upd_tty (\<lambda>y. y\<lparr>tyicursor := tyicursor y - 1\<rparr>) s) = Some t \<and> echoes ?s t"
    using g u v echoes_trans[OF u(2) v(2)] echoes_refl[OF tty_relD(2)[OF c]] unfolding e by auto
  then obtain t where t: "erase1 (upd_tty (\<lambda>y. y\<lparr>tyicursor := tyicursor y - 1\<rparr>) s) = Some t" "echoes ?s t" by blast
  have "handle_cooked TY_BACKSP s = Some t"
    using t(1) d(1,3) snoc by (simp add: handle_cooked_def plain_modes_def Let_def TY_BACKSP_def TY_KILLCH_def)
  moreover have "only_count s t" by (rule only_count_upd(2)[OF only_count_echoes[OF t(2)]]) simp_all
  ultimately show ?thesis using tty_rel_echoes[OF t(2) c] snoc by (auto simp: cooks_def)
qed

lemma cook_echo:
  assumes "echo_ok s"
  shows "\<exists>t. (if tyiecho (tty s) then echoch ch s else Some s) = Some t \<and> echoes s t"
  using echoch_ok[OF assms, of ch] echoes_refl[OF assms] by simp

lemma char_neq:
  "TY_NEWLINE \<noteq> TY_KILLCH" "TY_NEWLINE \<noteq> TY_BACKSP" "TY_EOFCH \<noteq> TY_KILLCH" "TY_EOFCH \<noteq> TY_BACKSP" "TY_EOFCH \<noteq> TY_NEWLINE"
  "TY_EOFCH \<noteq> TY_RETURN" "TY_RETURN \<noteq> TY_NEWLINE" "TY_KILLCH \<noteq> TY_BACKSP" "TY_RETURN \<noteq> TY_KILLCH" "TY_RETURN \<noteq> TY_BACKSP"
  by (simp_all add: TY_NEWLINE_def TY_KILLCH_def TY_BACKSP_def TY_EOFCH_def TY_RETURN_def)

lemma cook_newline:
  assumes r: "tty_rel s xs l" and n: "length xs + length l < 128" and nd: "0 < ndefers (Defer (tkern s))" "ndefers (Defer (tkern s)) < INT_MAX"
  shows "cooks TY_NEWLINE s (xs @ l @ [TY_NEWLINE]) []"
proof -
  obtain u where u: "(if tyiecho (tty s) then echoch TY_NEWLINE s else Some s) = Some u" "echoes s u"
    using cook_echo[OF tty_relD(2)[OF r]] by blast
  have ru: "tty_rel u xs l" by (rule tty_rel_echoes[OF u(2) r])
  obtain t where t: "put_i TY_NEWLINE u = Some t" "only_count u (wrap_i t)"
    "tty_rel (upd_tty (\<lambda>y. y\<lparr>tyicursor := tyicursor y + 1\<rparr>) (wrap_i t)) xs (l @ [TY_NEWLINE])"
    "tyicursor (tty (wrap_i t)) = int (length l)" "tkern (wrap_i t) = tkern u"
    using put_rel[OF ru n, of TY_NEWLINE] by blast
  let ?i = "tyisem (tty (wrap_i t))" and ?k = "tkern u"
  have i: "?i = tyisem (tty u)" using t(2) by (simp add: only_count_def)
  have sf: "\<not> isbadsem ?i" "sstate (semtab ?k ?i) = S_USED" "scount (semtab ?k ?i) = int (length xs)"
    using ru i by (simp_all add: tty_rel_def)
  define k where "k = upd_sem ?i (\<lambda>e. e\<lparr>scount := scount e + (int (length l) + 1)\<rparr>) ?k"
  have sg: "signaln ?i (tyicursor (tty (wrap_i t)) + 1) (tkern (wrap_i t)) = Some (OK, k)"
    unfolding t(4,5) k_def by (rule signaln_free) (use sf nd n echoesD(1)[OF u(2)] in simp_all)
  let ?v = "upd_tty (\<lambda>y. y\<lparr>tyicursor := 0\<rparr>) ((wrap_i t)\<lparr>tkern := k\<rparr>)"
  have "handle_cooked TY_NEWLINE s = Some ?v"
    using tty_relD(1)[OF r] char_neq
    by (simp add: handle_cooked_def plain_modes_def Let_def u(1) t(1) sg kcall_tty_def del: if_split)
  moreover have "tty_rel ?v (xs @ (l @ [TY_NEWLINE])) []"
    by (rule commit_rel[OF t(3)]) (simp_all add: upd_tty_def k_def t(5) add.commute)
  moreover have "only_count (wrap_i t) ?v"
    unfolding only_count_def k_def by (auto simp: upd_tty_def t(5) sf(3) upd_sem_def intro!: exI[of _ "int (length xs) + (int (length l) + 1)"])
  then have "only_count s ?v" using only_count_trans only_count_echoes[OF u(2)] t(2) by blast
  ultimately show ?thesis by (auto simp: cooks_def)
qed

lemma cook_eof:
  assumes r: "tty_rel s xs l" and n: "length xs + length l < 127" and w: "l = [] \<Longrightarrow> tyitail (tty s) < 127"
  shows "cooks TY_EOFCH s (if l = [] then xs @ [TY_EOFCH] else xs) l"
proof -
  obtain u where u: "(if tyiecho (tty s) then echoch TY_EOFCH s else Some s) = Some u" "echoes s u"
    using cook_echo[OF tty_relD(2)[OF r]] by blast
  have ru: "tty_rel u xs l" by (rule tty_rel_echoes[OF u(2) r])
  have room: "\<not> input_avail s + tyicursor (tty s) \<ge> TY_IBUFLEN - 1" using tty_relD(3,4)[OF r] n by (simp add: TY_IBUFLEN_def)
  show ?thesis
  proof (cases "l = []")
    case False
    then have "handle_cooked TY_EOFCH s = Some u"
      using tty_relD(1,3)[OF r] tty_relD(3)[OF ru] char_neq room
      by (simp add: handle_cooked_def plain_modes_def Let_def u(1) del: if_split)
    then show ?thesis using ru False only_count_echoes[OF u(2)] by (auto simp: cooks_def)
  next
    case True
    have n': "length xs + length l < 128" using n by simp
    have tl: "tyitail (tty u) < 127" using w[OF True] echoesD(4)[OF u(2)] by simp
    obtain t where t: "put_i TY_EOFCH u = Some t" "only_count u t"
      "tty_rel (upd_tty (\<lambda>y. y\<lparr>tyicursor := tyicursor y + 1\<rparr>) t) xs (l @ [TY_EOFCH])" "tyicursor (tty t) = 0" "tkern t = tkern u"
      using put_rel[OF ru n', of TY_EOFCH] tl True by auto
    let ?i = "tyisem (tty t)" and ?k = "tkern u"
    have i: "?i = tyisem (tty u)" using t(2) by (simp add: only_count_def)
    have sf: "\<not> isbadsem ?i" "sstate (semtab ?k ?i) = S_USED" "scount (semtab ?k ?i) = int (length xs)"
      using ru i by (simp_all add: tty_rel_def)
    define k where "k = upd_sem ?i (\<lambda>e. e\<lparr>scount := scount e + 1\<rparr>) ?k"
    have sg: "signal ?i (tkern t) = Some (OK, k)"
      unfolding t(5) k_def by (rule signal_free) (use sf n in simp_all)
    let ?v = "t\<lparr>tkern := k\<rparr>"
    have "tyicursor (tty u) = 0" using tty_relD(3)[OF ru] True by simp
    then have "handle_cooked TY_EOFCH s = Some ?v"
      using tty_relD(1,3)[OF r] char_neq room
      by (simp add: handle_cooked_def plain_modes_def Let_def u(1) t(1) sg kcall_tty_def del: if_split)
    moreover have "tty_rel ?v (xs @ (l @ [TY_EOFCH])) []"
      by (rule commit_rel[OF t(3)]) (use t(4) True in \<open>simp_all add: upd_tty_def k_def t(5)\<close>)
    moreover have "only_count t ?v"
      unfolding only_count_def k_def by (auto simp: t(5) sf(3) upd_sem_def intro!: exI[of _ "int (length xs) + 1"])
    then have "only_count s ?v" using only_count_trans only_count_echoes[OF u(2)] t(2) by blast
    ultimately show ?thesis using True by (auto simp: cooks_def)
  qed
qed

lemma cook_full:
  assumes r: "tty_rel s xs l" and n: "length xs + length l \<ge> 127"
    and ch: "ch \<noteq> TY_KILLCH" "ch \<noteq> TY_BACKSP" "ch \<noteq> TY_NEWLINE" "ch \<noteq> TY_RETURN"
  shows "cooks ch s xs l"
proof -
  obtain u where u: "eputc (tyifullc (tty s)) s = Some u" "echoes s u" using eputc_ok[OF tty_relD(2)[OF r]] by blast
  have "input_avail s + tyicursor (tty s) \<ge> TY_IBUFLEN - 1" using tty_relD(3,4)[OF r] n by (simp add: TY_IBUFLEN_def)
  then have "handle_cooked ch s = Some u"
    using tty_relD(1)[OF r] ch by (simp add: handle_cooked_def plain_modes_def Let_def u(1) del: if_split)
  then show ?thesis using tty_rel_echoes[OF u(2) r] only_count_echoes[OF u(2)] by (auto simp: cooks_def)
qed

lemma cook_char:
  assumes r: "tty_rel s xs l" and n: "length xs + length l < 127"
    and ch: "ch \<noteq> TY_KILLCH" "ch \<noteq> TY_BACKSP" "ch \<noteq> TY_NEWLINE" "ch \<noteq> TY_RETURN" "ch \<noteq> TY_EOFCH"
  shows "cooks ch s xs (l @ [ch])"
proof -
  obtain u where u: "(if tyiecho (tty s) then echoch ch s else Some s) = Some u" "echoes s u"
    using cook_echo[OF tty_relD(2)[OF r]] by blast
  have ru: "tty_rel u xs l" by (rule tty_rel_echoes[OF u(2) r])
  have room: "\<not> input_avail s + tyicursor (tty s) \<ge> TY_IBUFLEN - 1" using tty_relD(3,4)[OF r] n by (simp add: TY_IBUFLEN_def)
  have n': "length xs + length l < 128" using n by simp
  let ?up = "upd_tty (\<lambda>y. y\<lparr>tyicursor := tyicursor y + 1\<rparr>)"
  obtain t where t: "put_i ch u = Some t" "only_count u (wrap_i t)" "tty_rel (?up (wrap_i t)) xs (l @ [ch])"
    using put_rel[OF ru n', of ch] by blast
  have p: "put_i ch (?up u) = Some (?up t)" using t(1) by (auto simp: put_i_def Let_def upd_tty_def split: if_splits)
  have wr: "wrap_i (?up t) = ?up (wrap_i t)" by (simp add: wrap_i_def upd_tty_def)
  have "handle_cooked ch s = Some (?up (wrap_i t))"
    using tty_relD(1)[OF r] ch room by (simp add: handle_cooked_def plain_modes_def Let_def u(1) p wr del: if_split)
  moreover have "only_count s (?up (wrap_i t))"
    by (rule only_count_upd(1)[OF only_count_trans[OF only_count_echoes[OF u(2)] t(2)]]) simp_all
  ultimately show ?thesis using t(3) by (auto simp: cooks_def)
qed

section \<open>A character, and a string of them\<close>

lemma handle_in_ok:
  assumes r: "tty_rel s xs l" and c: "rx (uart s) = c # cs" "sane (tyihead (tty s)) (xs, l) c"
    and nd: "0 < ndefers (Defer (tkern s))" "ndefers (Defer (tkern s)) < INT_MAX"
  shows "\<exists>t. ttyhandle_in s = Some t \<and> tty_rel t (fst (edit (xs, l) c)) (snd (edit (xs, l) c)) \<and> only_count (s\<lparr>uart := (uart s)\<lparr>rx := cs\<rparr>\<rparr>) t"
proof -
  let ?s = "s\<lparr>uart := (uart s)\<lparr>rx := cs\<rparr>\<rparr>"
  define s1 where "s1 = upd_tty (\<lambda>y. y\<lparr>tyoheld := False\<rparr>) ?s"
  define ch where "ch = (if c = TY_RETURN then TY_NEWLINE else c)"
  have r1: "tty_rel s1 xs l" using r by (simp add: s1_def tty_rel_update)
  have m: "plain_modes (tty s)" by (rule tty_relD(1)[OF r])
  have oc: "only_count s1 t \<Longrightarrow> only_count ?s t" for t unfolding s1_def by (rule only_count_upd(2)[where f = "\<lambda>y. y\<lparr>tyoheld := False\<rparr>"]) simp_all
  have hd1: "tyihead (tty s1) = tyihead (tty s)" "tkern s1 = tkern s" by (simp_all add: s1_def upd_tty_def)
  note d = tty_relD[OF r1]
  show ?thesis
  proof (cases "ch = TY_STRTCH \<or> ch = TY_STOPCH")
    case True
    have o: "only_count ?s (ttykickout (upd_tty (\<lambda>y. y\<lparr>tyoheld := b\<rparr>) ?s))" "only_count ?s (upd_tty (\<lambda>y. y\<lparr>tyoheld := b\<rparr>) ?s)" for b
      by (rule only_count_same; simp add: ttykickout_def upd_tty_def)+
    have "edit (xs, l) c = (xs, l)" using True by (simp add: edit_def ch_def Let_def)
    moreover have "ttyhandle_in s = Some (if ch = TY_STRTCH then ttykickout (upd_tty (\<lambda>y. y\<lparr>tyoheld := False\<rparr>) ?s)
        else upd_tty (\<lambda>y. y\<lparr>tyoheld := True\<rparr>) ?s)"
      using m True c(1) by (cases "ch = TY_STRTCH") (simp_all add: ttyhandle_in_def uart_read_def Let_def plain_modes_def ch_def[symmetric])
    ultimately show ?thesis using r o by (simp add: tty_rel_update)
  next
    case False
    have h: "ttyhandle_in s = handle_cooked ch s1"
      using m False c(1) by (simp add: ttyhandle_in_def uart_read_def Let_def plain_modes_def ch_def[symmetric] s1_def)
    have nr: "ch \<noteq> TY_RETURN" using char_neq(7) by (simp add: ch_def)
    have tl: "tyitail (tty s1) = (tyihead (tty s) + int (length xs) + int (length l)) mod TY_IBUFLEN"
      using d(10) hd1(1) by (simp add: TY_IBUFLEN_def add.assoc)
    have e: "edit (xs, l) c =
       (if ch = TY_KILLCH then (xs, []) else if ch = TY_BACKSP then (xs, butlast l)
        else if ch = TY_NEWLINE then (xs @ l @ [TY_NEWLINE], [])
        else if length xs + length l \<ge> 127 then (xs, l)
        else if ch = TY_EOFCH then (if l = [] then (xs @ [TY_EOFCH], []) else (xs, l))
        else (xs, l @ [ch]))"
      using False by (simp add: edit_def ch_def Let_def)
    have sn: "(ch = TY_KILLCH \<longrightarrow> int (length l) \<le> tyitail (tty s1)) \<and> (ch = TY_EOFCH \<longrightarrow> l = [] \<longrightarrow> tyitail (tty s1) < 127) \<and>
        (ch = TY_NEWLINE \<longrightarrow> length xs + length l < 128)"
      using c(2) tl char_neq by (auto simp: sane_def ch_def Let_def TY_IBUFLEN_def split: if_splits)
    have "cooks ch s1 (fst (edit (xs, l) c)) (snd (edit (xs, l) c))"
    proof -
      consider "ch = TY_KILLCH" | "ch = TY_BACKSP" | "ch = TY_NEWLINE" |
        "ch \<noteq> TY_KILLCH \<and> ch \<noteq> TY_BACKSP \<and> ch \<noteq> TY_NEWLINE \<and> length xs + length l \<ge> 127" |
        "ch = TY_EOFCH \<and> length xs + length l < 127" |
        "ch \<noteq> TY_KILLCH \<and> ch \<noteq> TY_BACKSP \<and> ch \<noteq> TY_NEWLINE \<and> ch \<noteq> TY_EOFCH \<and> length xs + length l < 127"
        by linarith
      then show ?thesis
      proof cases
        case 1
        then show ?thesis using cook_kill[OF r1] sn e by simp
      next
        case 2
        then show ?thesis using cook_erase[OF r1] e char_neq by simp
      next
        case 3
        then show ?thesis using cook_newline[OF r1] sn e nd hd1(2) char_neq by simp
      next
        case 4
        then show ?thesis using cook_full[OF r1 _ _ _ _ nr] e by simp
      next
        case 5
        then show ?thesis using cook_eof[OF r1] sn e char_neq by auto
      next
        case 6
        then show ?thesis using cook_char[OF r1 _ _ _ _ nr] e by simp
      qed
    qed
    then show ?thesis using h oc by (auto simp: cooks_def)
  qed
qed

lemma drain_ok:
  assumes "tty_rel s xs l" "rx (uart s) = cs" "typed_ok (tyihead (tty s)) (xs, l) cs"
    and "0 < ndefers (Defer (tkern s))" "ndefers (Defer (tkern s)) < INT_MAX"
  shows "\<exists>t. drain_rx s = Some t \<and> tty_rel t (fst (foldl edit (xs, l) cs)) (snd (foldl edit (xs, l) cs)) \<and>
    only_count (s\<lparr>uart := (uart s)\<lparr>rx := []\<rparr>\<rparr>) t"
  using assms
proof (induction cs arbitrary: s xs l)
  case Nil
  then have "drain_rx s = Some s" by (simp add: drain_rx_def c_while_stop)
  moreover have "only_count (s\<lparr>uart := (uart s)\<lparr>rx := []\<rparr>\<rparr>) s" by (rule only_count_same) (simp_all add: Nil.prems(2))
  ultimately show ?case using Nil.prems by simp
next
  case (Cons c cs)
  obtain xs' l' where e: "edit (xs, l) c = (xs', l')" by fastforce
  obtain t where t: "ttyhandle_in s = Some t" "tty_rel t xs' l'" "only_count (s\<lparr>uart := (uart s)\<lparr>rx := cs\<rparr>\<rparr>) t"
    using handle_in_ok[OF Cons.prems(1,2) _ Cons.prems(4,5)] Cons.prems(3) e by auto
  have f: "rx (uart t) = cs" "tyihead (tty t) = tyihead (tty s)" "Defer (tkern t) = Defer (tkern s)"
    using t(3) by (auto simp: only_count_def upd_sem_def)
  obtain u where u: "drain_rx t = Some u" "tty_rel u (fst (foldl edit (xs', l') cs)) (snd (foldl edit (xs', l') cs))"
    "only_count (t\<lparr>uart := (uart t)\<lparr>rx := []\<rparr>\<rparr>) u"
    using Cons.IH[OF t(2) f(1)] f Cons.prems(3-5) e by auto
  have "drain_rx s = drain_rx t"
    unfolding drain_rx_def by (rule c_while_step) (use Cons.prems(2) t(1) in simp_all)
  moreover have "only_count (s\<lparr>uart := (uart s)\<lparr>rx := []\<rparr>\<rparr>) u"
  proof (rule only_count_trans[OF _ u(3)])
    show "only_count (s\<lparr>uart := (uart s)\<lparr>rx := []\<rparr>\<rparr>) (t\<lparr>uart := (uart t)\<lparr>rx := []\<rparr>\<rparr>)"
      using t(3) by (auto simp: only_count_def)
  qed
  ultimately show ?case using u(1,2) e by simp
qed

text \<open>The interrupt handler defers rescheduling while it empties the receive FIFO.\<close>

lemma handler_ok:
  assumes r: "tty_rel s xs l" and c: "rx (uart s) = cs" "typed_ok (tyihead (tty s)) (xs, l) cs"
    and i: "iir (uart s) = 4" and nd: "ndefers (Defer (tkern s)) = 0"
  shows "\<exists>t. ttyhandler s = Some (Ret OK, t) \<and> tty_rel t (fst (foldl edit (xs, l) cs)) (snd (foldl edit (xs, l) cs)) \<and>
    rx (uart t) = [] \<and> currpid (tkern t) = currpid (tkern s) \<and> (\<exists>n. tkern t =
      (upd_sem (tyisem (tty s)) (\<lambda>e. e\<lparr>scount := n\<rparr>) (tkern s))\<lparr>Defer := \<lparr>ndefers = 0, attempt = False\<rparr>\<rparr>)"
proof -
  let ?k = "(tkern s)\<lparr>Defer := \<lparr>ndefers = 1, attempt = False\<rparr>\<rparr>"
  let ?s = "s\<lparr>tkern := ?k\<rparr>"
  have st: "kcall_tty (resched_cntl DEFER_START) s = Some (OK, ?s)"
    using nd by (simp add: kcall_tty_def resched_cntl_def i32_def)
  have r1: "tty_rel ?s xs l" using r by (simp add: tty_rel_def echo_ok_def)
  obtain t where t: "drain_rx ?s = Some t" "tty_rel t (fst (foldl edit (xs, l) cs)) (snd (foldl edit (xs, l) cs))"
    "only_count (?s\<lparr>uart := (uart s)\<lparr>rx := []\<rparr>\<rparr>) t"
    using drain_ok[OF r1, of cs] c by auto
  obtain n where n: "tkern t = upd_sem (tyisem (tty s)) (\<lambda>e. e\<lparr>scount := n\<rparr>) ?k" "rx (uart t) = []"
    using t(3) by (auto simp: only_count_def)
  define k where "k = (tkern t)\<lparr>Defer := \<lparr>ndefers = 0, attempt = False\<rparr>\<rparr>"
  have "kcall_tty (resched_cntl DEFER_STOP) t = Some (OK, t\<lparr>tkern := k\<rparr>)"
    using n(1) by (simp add: kcall_tty_def resched_cntl_def DEFER_START_def DEFER_STOP_def k_def upd_sem_def)
  then have "ttyhandler s = Some (Ret OK, t\<lparr>tkern := k\<rparr>)" using st t(1) i by (simp add: ttyhandler_def)
  moreover have "tty_rel (t\<lparr>tkern := k\<rparr>) (fst (foldl edit (xs, l) cs)) (snd (foldl edit (xs, l) cs))"
    using t(2) by (simp add: tty_rel_def echo_ok_def k_def)
  moreover have "k = (upd_sem (tyisem (tty s)) (\<lambda>e. e\<lparr>scount := n\<rparr>) (tkern s))\<lparr>Defer := \<lparr>ndefers = 0, attempt = False\<rparr>\<rparr>"
    unfolding k_def n(1) by (simp add: upd_sem_def)
  ultimately show ?thesis using n(2) by (intro exI[of _ "t\<lparr>tkern := k\<rparr>"]) (auto simp: upd_sem_def)
qed

section \<open>Reading a line\<close>

lemma getc_ok:
  assumes r: "tty_rel s (c # xs) l"
  shows "\<exists>t. ttygetc s = Some (Ret (if c = TY_EOFCH then TY_EOF else c), t) \<and> tty_rel t xs l"
proof -
  let ?y = "tty s" and ?i = "tyisem (tty s)" and ?n = "int (length (c # xs)) + int (length l)"
  let ?h = "if tyihead ?y + 1 \<ge> TY_IBUFLEN then 0 else tyihead ?y + 1"
  have sf: "\<not> isbadsem ?i" "sstate (semtab (tkern s) ?i) = S_USED" "scount (semtab (tkern s) ?i) = int (length (c # xs))"
    using r by (simp_all add: tty_rel_def)
  have le: "length (c # xs) \<le> 128" using tty_relD(7)[OF r] by simp
  define k where "k = upd_sem ?i (\<lambda>e. e\<lparr>scount := scount e - 1\<rparr>) (tkern s)"
  have w: "wait ?i (tkern s) = Some (OK, k)" unfolding k_def by (rule wait_free) (use sf le in simp_all)
  have ro: "ring_ok TY_IBUFLEN (tyihead ?y) (tyitail ?y) ?n" "ring_items TY_IBUFLEN (tyibuff ?y) (tyihead ?y) ?n = (c # xs) @ l"
    using r unfolding tty_rel_def by blast+
  have np: "0 < ?n" by simp
  have g: "tyibuff ?y (tyihead ?y) = c" "ring_items TY_IBUFLEN (tyibuff ?y) ?h (?n - 1) = xs @ l" "ring_ok TY_IBUFLEN ?h (tyitail ?y) (?n - 1)"
    using ring_get(1)[OF ro(1) np, of "tyibuff ?y"] ring_get(2)[OF ro(1) np] ro(2) by simp_all
  let ?t = "(upd_tty (\<lambda>y. y\<lparr>tyihead := ?h\<rparr>) s)\<lparr>tkern := k\<rparr>"
  have m: "plain_modes ?y" by (rule tty_relD(1)[OF r])
  have "ttygetc s = Some (Ret (if c = TY_EOFCH then TY_EOF else c), ?t)"
    using w g(1) m tty_relD(8,9)[OF r]
    by (simp add: ttygetc_def kcall_tty_def ttygetc_rest_def Let_def get_i_def upd_tty_def plain_modes_def k_def TY_IBUFLEN_def upd_sem_def)
  moreover have "tty_rel ?t xs l"
    using r g(2,3) unfolding tty_rel_def by (simp add: upd_tty_def plain_modes_def echo_ok_def k_def upd_sem_def)
  ultimately show ?thesis by blast
qed

lemma read_line_ok:
  assumes "tty_rel s (ys @ TY_NEWLINE # zs) l" "\<forall>c \<in> set ys. 0 \<le> c \<and> c < 256 \<and> c \<notin> {TY_NEWLINE, TY_RETURN, TY_EOFCH}"
    and "length ys < k" "ch \<noteq> TY_NEWLINE" "ch \<noteq> TY_RETURN"
  shows "\<exists>t. read_line k nread ch buff m s =
      Some (Got (int (nread + length ys + 1)) (put m (buff + int nread) (ys @ [TY_NEWLINE])), t) \<and> tty_rel t zs l"
  using assms
proof (induction ys arbitrary: s k nread ch m)
  case Nil
  obtain j where k: "k = Suc j" using Nil.prems(3) by (cases k) auto
  obtain t where t: "ttygetc s = Some (Ret TY_NEWLINE, t)" "tty_rel t zs l" using getc_ok[of s TY_NEWLINE zs l] Nil.prems(1) char_neq(5) by auto
  have "read_line j (Suc nread) TY_NEWLINE buff m' t = Some (Got (int (Suc nread)) m', t)" for m' by (cases j) simp_all
  then show ?case using t Nil.prems(4,5) k by (auto simp: u8_id TY_NEWLINE_def put_Cons fun_eq_iff)
next
  case (Cons c ys)
  obtain j where k: "k = Suc j" using Cons.prems(3) by (cases k) auto
  obtain t where t: "ttygetc s = Some (Ret c, t)" "tty_rel t (ys @ TY_NEWLINE # zs) l"
    using getc_ok[of s c "ys @ TY_NEWLINE # zs" l] Cons.prems(1,2) by auto
  have c: "u8 c = c" using Cons.prems(2) by (simp add: u8_id)
  obtain u where u: "read_line j (Suc nread) c buff (m(buff + int nread := c)) t =
      Some (Got (int (Suc nread + length ys + 1)) (put (m(buff + int nread := c)) (buff + int (Suc nread)) (ys @ [TY_NEWLINE])), u)" "tty_rel u zs l"
    using Cons.IH[OF t(2), of j c "Suc nread"] Cons.prems(2,3) k by auto
  then show ?case using t(1) Cons.prems(4,5) k c by (simp add: put_Cons add.commute add.left_commute)
qed

text \<open>C34: the terminal driver edits lines. When characters have arrived and nobody waits for them, the
  interrupt handler takes them all; what can be read, and the line under construction, are then what
  the editor makes of them: erasing, killing the line, committing it at its end, flow control, the
  mark for end of file and a full buffer included. And when a line stands first among what can be read, ttyread
  returns it, with its newline, and leaves the rest.\<close>

theorem tty_lines:
  assumes r: "tty_rel s xs l" and c: "rx (uart s) = cs" "typed_ok (tyihead (tty s)) (xs, l) cs"
    and i: "iir (uart s) = 4" and nd: "ndefers (Defer (tkern s)) = 0"
  shows "\<exists>t xs' l'. ttyhandler s = Some (Ret OK, t) \<and> foldl edit (xs, l) cs = (xs', l') \<and> tty_rel t xs' l' \<and> rx (uart t) = [] \<and>
    currpid (tkern t) = currpid (tkern s) \<and>
    (\<forall>ys zs buff count m. xs' = ys @ TY_NEWLINE # zs \<and> (\<forall>c \<in> set ys. 0 \<le> c \<and> c < 256 \<and> c \<notin> {TY_NEWLINE, TY_RETURN, TY_EOFCH}) \<and>
       int (length ys) < count \<longrightarrow>
       (\<exists>u. ttyread buff count m t = Some (Got (int (length ys) + 1) (put m buff (ys @ [TY_NEWLINE])), u) \<and> tty_rel u zs l'))"
proof -
  obtain t where t: "ttyhandler s = Some (Ret OK, t)" "tty_rel t (fst (foldl edit (xs, l) cs)) (snd (foldl edit (xs, l) cs))"
    "rx (uart t) = []" "currpid (tkern t) = currpid (tkern s)"
    using handler_ok[OF assms] by blast
  obtain xs' l' where e: "foldl edit (xs, l) cs = (xs', l')" by fastforce
  have rt: "tty_rel t xs' l'" using t(2) e by simp
  have "\<exists>u. ttyread buff count m t = Some (Got (int (length ys) + 1) (put m buff (ys @ [TY_NEWLINE])), u) \<and> tty_rel u zs l'"
    if x: "xs' = ys @ TY_NEWLINE # zs" and b: "\<forall>c \<in> set ys. 0 \<le> c \<and> c < 256 \<and> c \<notin> {TY_NEWLINE, TY_RETURN, TY_EOFCH}"
      and n: "int (length ys) < count" for ys zs buff count m
  proof -
    have cooked: "tyimode (tty t) = TY_IMCOOKED" using tty_relD(1)[OF rt] by (simp add: plain_modes_def)
    show ?thesis
    proof (cases ys)
      case Nil
      obtain u where u: "ttygetc t = Some (Ret TY_NEWLINE, u)" "tty_rel u zs l'"
        using getc_ok[of t TY_NEWLINE zs l'] rt x Nil char_neq(5) by auto
      have "read_line k (Suc 0) TY_NEWLINE buff m' u = Some (Got 1 m', u)" for k m' by (cases k) simp_all
      then have "ttyread buff count m t = Some (Got 1 (m(buff := TY_NEWLINE)), u)"
        using u(1) cooked n Nil by (simp add: ttyread_def ttyread_first_def u8_def TY_NEWLINE_def TY_EOF_def)
      then show ?thesis using u(2) Nil by (simp add: put_Cons)
    next
      case (Cons c ws)
      have cb: "0 \<le> c" "c < 256" "c \<noteq> TY_EOFCH" "c \<noteq> TY_NEWLINE" "c \<noteq> TY_RETURN" using b Cons by auto
      obtain u where u: "ttygetc t = Some (Ret c, u)" "tty_rel u (ws @ TY_NEWLINE # zs) l'"
        using getc_ok[of t c "ws @ TY_NEWLINE # zs" l'] rt x Cons cb(3) by auto
      have lw: "length ws < nat (count - 1)" using n Cons by simp
      obtain v where v: "read_line (nat (count - 1)) 1 c buff (m(buff := c)) u =
          Some (Got (int (1 + length ws + 1)) (put (m(buff := c)) (buff + int 1) (ws @ [TY_NEWLINE])), v)" "tty_rel v zs l'"
        using read_line_ok[OF u(2) _ lw cb(4,5), of 1 buff "m(buff := c)"] b Cons by auto
      have "c \<noteq> TY_EOF" "u8 c = c" using cb(1,2) by (simp_all add: TY_EOF_def u8_id)
      then have "ttyread buff count m t = Some (Got (int (length ys) + 1) (put m buff (ys @ [TY_NEWLINE])), v)"
        using u(1) cooked n Cons v(1) by (simp add: ttyread_def ttyread_first_def put_Cons)
      then show ?thesis using v(2) by blast
    qed
  qed
  then show ?thesis using t rt e by (intro exI[of _ t] exI[of _ xs'] exI[of _ l']) auto
qed

text \<open>Someone types "lx", erases the x, and types "s" and return.\<close>

definition demo_tty :: ttyst where
  "demo_tty = \<lparr>tkern = demo\<lparr>semtab := (\<lambda>i. \<lparr>sstate = S_USED, scount = (if i = 3 then 0 else scount (demo_sem i)), squeue = squeue (demo_sem i)\<rparr>)\<rparr>,
     tty = \<lparr>tyihead = 126, tyitail = 126, tyibuff = (\<lambda>_. 0), tyisem = 3, tyohead = 0, tyotail = 0, tyobuff = (\<lambda>_. 0), tyosem = 4,
       tyehead = 0, tyetail = 0, tyebuff = (\<lambda>_. 0),
       tyimode = TY_IMCOOKED, tyiecho = True, tyieback = True, tyevis = True, tyecrlf = True, tyicrlf = True,
       tyierase = True, tyierasec = TY_BACKSP, tyeof = True, tyeofch = TY_EOFCH, tyikill = True, tyikillc = TY_KILLCH,
       tyicursor = 0, tyoflow = True, tyoheld = False, tyostop = TY_STOPCH, tyostart = TY_STRTCH, tyocrlf = True,
       tyifullc = TY_BELL\<rparr>,
     uart = \<lparr>rx = [108, 120, 8, 115, 13], tx = [], ier = 0, iir = 4, lsr_bi = False, txfifo_lvl = 0\<rparr>\<rparr>"

theorem tty_lines_witness:
  "\<exists>t u. ttyhandler demo_tty = Some (Ret OK, t) \<and>
    ttyread 1000 80 (\<lambda>_. 0) t = Some (Got 3 (put (\<lambda>_. 0) 1000 [108, 115, 10]), u)"
proof -
  have r: "tty_rel demo_tty [] []"
    by (simp add: tty_rel_def demo_tty_def plain_modes_def echo_ok_def ring_ok_def ring_items_def isbadsem_def NSEM_def TY_IBUFLEN_def TY_EBUFLEN_def)
  have c: "rx (uart demo_tty) = [108, 120, 8, 115, 13]" "iir (uart demo_tty) = 4" "ndefers (Defer (tkern demo_tty)) = 0"
    by (simp_all add: demo_tty_def)
  have ok: "typed_ok (tyihead (tty demo_tty)) ([], []) [108, 120, 8, 115, 13]" by code_simp
  have e: "foldl edit ([], []) [108, 120, 8, 115, 13] = ([108, 115, 10], [])" by code_simp
  obtain t where t: "ttyhandler demo_tty = Some (Ret OK, t)"
    "\<And>ys zs buff count m. [108, 115, 10] = ys @ TY_NEWLINE # zs \<and> (\<forall>c \<in> set ys. 0 \<le> c \<and> c < 256 \<and> c \<notin> {TY_NEWLINE, TY_RETURN, TY_EOFCH}) \<and>
       int (length ys) < count \<Longrightarrow>
       \<exists>u. ttyread buff count m t = Some (Got (int (length ys) + 1) (put m buff (ys @ [TY_NEWLINE])), u) \<and> tty_rel u zs []"
    using tty_lines[OF r c(1) ok c(2,3)] e by (elim exE conjE) auto
  have "\<exists>u. ttyread 1000 80 (\<lambda>_. 0) t = Some (Got (int (length [108, 115 :: int]) + 1) (put (\<lambda>_. 0) 1000 ([108, 115] @ [TY_NEWLINE])), u) \<and> tty_rel u [] []"
    by (rule t(2)) (simp add: TY_NEWLINE_def TY_RETURN_def TY_EOFCH_def)
  then show ?thesis using t(1) by (auto simp: TY_NEWLINE_def)
qed

end
