(* ===== verification/Ram_Disk.thy ===== *)
theory Ram_Disk
  imports Devices
begin

text \<open>
  The RAM disk (device/ram, include/ramdisk.h), and what a file system asks of a disk: sectors of 512
  bytes, read and written whole. An access outside the array of the RAM disk is a fault.
\<close>

definition RM_BLKSIZ :: int where "RM_BLKSIZ = 512"
definition RM_BLKS :: int where "RM_BLKS = 200"

text \<open>The bytes of Ram.disk by their index.\<close>

type_synonym ramdisk = bmem

definition hopeless :: "int list" where
  "hopeless = [104, 111, 112, 101, 108, 101, 115, 115]"

text \<open>memcpy copies forwards, so the second call repeats the first eight bytes over the disk.\<close>

definition raminit :: "ramdisk \<Rightarrow> (int \<times> ramdisk) option" where
  "raminit m = do {
     (_, m) \<leftarrow> memcpy 8 0 (RM_BLKSIZ * RM_BLKS - 8) (put m 0 hopeless);
     Some (OK, m) }"

definition ramopen :: "dentry \<Rightarrow> int" where
  "ramopen devptr = dvnum devptr"

definition ramclose :: int where
  "ramclose = OK"

definition ram_inside :: "int \<Rightarrow> bool" where
  "ram_inside bpos \<longleftrightarrow> 0 \<le> bpos \<and> bpos + RM_BLKSIZ \<le> RM_BLKSIZ * RM_BLKS"

text \<open>The result is the return value and the contents of the caller's buffer.\<close>

definition ramread :: "int \<Rightarrow> ramdisk \<Rightarrow> (int \<times> int list) option" where
  "ramread blk m =
     (let bpos = i32 (RM_BLKSIZ * blk) in
      if ram_inside bpos then Some (OK, map (\<lambda>i. m (bpos + int i)) [0..<512]) else None)"

definition ramwrite :: "int list \<Rightarrow> int \<Rightarrow> ramdisk \<Rightarrow> (int \<times> ramdisk) option" where
  "ramwrite buff blk m =
     (let bpos = i32 (RM_BLKSIZ * blk) in
      if ram_inside bpos \<and> length buff = 512 then Some (OK, put m bpos buff) else None)"

section \<open>The disk of a file system\<close>

text \<open>What the calls read, write and close do for a device number. A read that fails returns SYSERR and
  leaves the buffer as it was.\<close>

record 'd disk_driver =
  dread :: "int \<Rightarrow> int \<Rightarrow> 'd \<Rightarrow> (int \<times> int list) option"
  dwrite :: "int \<Rightarrow> int list \<Rightarrow> int \<Rightarrow> 'd \<Rightarrow> (int \<times> 'd) option"
  dclose :: "int \<Rightarrow> 'd \<Rightarrow> (int \<times> 'd) option"

definition ram_driver :: "ramdisk disk_driver" where
  "ram_driver = \<lparr>
     dread = (\<lambda>dev blk m. if dev = RAM0 then ramread blk m else Some (SYSERR, [])),
     dwrite = (\<lambda>dev buff blk m. if dev = RAM0 then ramwrite buff blk m else Some (SYSERR, m)),
     dclose = (\<lambda>dev m. Some (if dev = RAM0 then ramclose else SYSERR, m))\<rparr>"

text \<open>The contract of a disk with n sectors: content is what a sector holds, as bytes.\<close>

locale disk_contract =
  fixes dk :: "'d disk_driver" and dev :: int and n :: int and content :: "'d \<Rightarrow> int \<Rightarrow> int list" and ok :: "'d \<Rightarrow> bool"
  assumes read_sector: "ok d \<Longrightarrow> 0 \<le> b \<Longrightarrow> b < n \<Longrightarrow> dread dk dev b d = Some (OK, content d b)"
    and length_sector: "ok d \<Longrightarrow> 0 \<le> b \<Longrightarrow> b < n \<Longrightarrow> length (content d b) = 512"
    and write_sector: "ok d \<Longrightarrow> 0 \<le> b \<Longrightarrow> b < n \<Longrightarrow> length bs = 512 \<Longrightarrow>
      \<exists>e. dwrite dk dev bs b d = Some (OK, e) \<and> ok e \<and> (\<forall>c. 0 \<le> c \<and> c < n \<longrightarrow> content e c = (if c = b then bs else content d c))"
    and close_disk: "ok d \<Longrightarrow> \<exists>r e. dclose dk dev d = Some (r, e) \<and> ok e \<and> (\<forall>c. 0 \<le> c \<and> c < n \<longrightarrow> content e c = content d c)"

definition ram_sector :: "ramdisk \<Rightarrow> int \<Rightarrow> int list" where
  "ram_sector m b = map (\<lambda>i. m (RM_BLKSIZ * b + int i)) [0..<512]"

lemma ram_sector_put:
  assumes "length bs = 512" "0 \<le> b" "0 \<le> c"
  shows "ram_sector (put m (RM_BLKSIZ * b) bs) c = (if c = b then bs else ram_sector m c)"
proof (cases "c = b")
  case True
  have "ram_sector (put m (RM_BLKSIZ * b) bs) b = map ((!) bs) [0..<512]"
    using assms(1) by (simp add: ram_sector_def put_in)
  also have "\<dots> = bs" using map_nth[of bs] assms(1) by simp
  finally show ?thesis using True by simp
next
  case False
  have "put m (RM_BLKSIZ * b) bs (RM_BLKSIZ * c + int i) = m (RM_BLKSIZ * c + int i)" if "i < 512" for i
  proof (rule put_out)
    show "RM_BLKSIZ * c + int i < RM_BLKSIZ * b \<or> RM_BLKSIZ * b + int (length bs) \<le> RM_BLKSIZ * c + int i"
      using that False assms(1) unfolding RM_BLKSIZ_def by linarith
  qed
  then show ?thesis using False by (simp add: ram_sector_def)
qed

lemma ram_access:
  assumes "0 \<le> b" "b < RM_BLKS" shows "i32 (RM_BLKSIZ * b) = RM_BLKSIZ * b" "ram_inside (RM_BLKSIZ * b)"
  using assms by (simp_all add: RM_BLKSIZ_def RM_BLKS_def ram_inside_def i32_id)

interpretation ram: disk_contract ram_driver RAM0 RM_BLKS ram_sector "\<lambda>_. True"
  by unfold_locales
    (auto simp: ram_driver_def ramread_def ramwrite_def ram_access ram_sector_put, simp_all add: ram_sector_def)

end
