(* ===== verification/Byte_Layout.thy ===== *)
theory Byte_Layout
  imports C_Strings
begin

text \<open>
  Numbers as bytes in memory, little endian, as the structures of the file systems have them on disk,
  and what is read back from them.
\<close>

section \<open>Words and half words\<close>

definition le32 :: "int \<Rightarrow> int list" where
  "le32 x = [x mod 256, x div 256 mod 256, x div 65536 mod 256, x div 16777216 mod 256]"

definition rd32 :: "int list \<Rightarrow> nat \<Rightarrow> int" where
  "rd32 bs i = bs ! i + 256 * bs ! (i + 1) + 65536 * bs ! (i + 2) + 16777216 * bs ! (i + 3)"

definition le16 :: "int \<Rightarrow> int list" where
  "le16 x = [x mod 256, x div 256 mod 256]"

definition rd16 :: "int list \<Rightarrow> nat \<Rightarrow> int" where
  "rd16 bs i = bs ! i + 256 * bs ! (i + 1)"

lemma length_le32 [simp]: "length (le32 x) = 4"
  by (simp add: le32_def)

lemma bytes_of_word: "(x :: int) mod 256 + 256 * (x div 256 mod 256) + 65536 * (x div 65536 mod 256) + 16777216 * (x div 16777216 mod 256) = x mod 4294967296"
proof -
  define a where "a = x div 256 mod 16777216"
  define b where "b = x div 65536 mod 65536"
  have "x mod 4294967296 = 256 * a + x mod 256" unfolding a_def using zmod_zmult2_eq[of 16777216 x 256] by simp
  moreover have "a = 256 * b + x div 256 mod 256"
    unfolding a_def b_def using zmod_zmult2_eq[of 65536 "x div 256" 256] zdiv_zmult2_eq[of 256 x 256] by simp
  moreover have "b = 256 * (x div 16777216 mod 256) + x div 65536 mod 256"
    unfolding b_def using zmod_zmult2_eq[of 256 "x div 65536" 256] zdiv_zmult2_eq[of 256 x 65536] by simp
  moreover have "\<lbrakk>m = 256 * a + p; a = 256 * b + q; b = 256 * s + r\<rbrakk> \<Longrightarrow> p + 256 * q + 65536 * r + 16777216 * s = m" for m p q r s :: int
    by simp
  ultimately show ?thesis by blast
qed

lemma rd32_bytes: "rd32 ([a, b, c, d] @ r) 0 = a + 256 * b + 65536 * c + 16777216 * d"
  by (simp add: rd32_def)

lemma rd32_le32: "rd32 (le32 x @ r) 0 = u32 x"
  unfolding le32_def rd32_bytes u32_def by (rule bytes_of_word)

lemma rd32_skip: "length p \<le> i \<Longrightarrow> rd32 (p @ r) i = rd32 r (i - length p)"
  by (simp add: rd32_def nth_append Suc_diff_le)

lemma i32_u32: "i32 (u32 x) = i32 x"
  by (simp add: i32_def u32_def mod_add_left_eq)

lemma length_concat_le32: "length (concat (map le32 xs)) = 4 * length xs"
  by (induction xs) simp_all

lemma rd32_concat: "k < length xs \<Longrightarrow> rd32 (concat (map le32 xs) @ r) (4 * k) = u32 (xs ! k)"
proof (induction xs arbitrary: k)
  case (Cons x xs)
  then show ?case
  proof (cases k)
    case 0
    then show ?thesis using rd32_le32[of x "concat (map le32 xs) @ r"] by simp
  next
    case (Suc j)
    have "rd32 (le32 x @ concat (map le32 xs) @ r) (4 * k) = rd32 (concat (map le32 xs) @ r) (4 * j)"
      using rd32_skip[of "le32 x" "4 * k"] Suc by simp
    then show ?thesis using Cons Suc by simp
  qed
qed simp

lemma length_le16 [simp]: "length (le16 x) = 2"
  by (simp add: le16_def)

lemma rd16_le16: "rd16 (le16 x @ r) 0 = u16 x"
proof -
  have "x mod 65536 = 256 * (x div 256 mod 256) + x mod 256" using zmod_zmult2_eq[of 256 x 256] by simp
  then show ?thesis by (simp add: le16_def rd16_def u16_def)
qed

lemma rd16_skip: "length p \<le> i \<Longrightarrow> rd16 (p @ r) i = rd16 r (i - length p)"
  by (simp add: rd16_def nth_append Suc_diff_le)

lemma i16_u16: "i16 (u16 x) = i16 x"
  by (simp add: i16_def u16_def mod_add_left_eq)

end
