(* ===== verification/Lfs.thy ===== *)
theory Lfs
  imports Blocking Ram_Disk Byte_Layout
begin

text \<open>
  The local file system (device/lfs, include/lfilesys.h): a directory in sector 0, index blocks of
  72 bytes, seven to a sector, from sector 1 on, and data blocks. Sectors are lists of 512 bytes; the
  structures in them are laid out byte by byte as on the machine (little endian, with pragma pack).
  A pointer into lfdblock is an index, 512 being the position behind the block; a pointer to a
  directory entry is its index in the directory in memory. The disk is a parameter, dk: the calls
  read, write and close on a disk, which return without switching to another process. panic does
  not return.
\<close>

section \<open>Data\<close>

definition LF_MODE_R :: int where "LF_MODE_R = 1"
definition LF_MODE_W :: int where "LF_MODE_W = 2"
definition LF_MODE_RW :: int where "LF_MODE_RW = 3"
definition LF_MODE_N :: int where "LF_MODE_N = 4"
definition LF_MODE_O :: int where "LF_MODE_O = 8"
definition LF_BLKSIZ :: int where "LF_BLKSIZ = 512"
definition LF_NAME_LEN :: nat where "LF_NAME_LEN = 16"
definition LF_NUM_DIR_ENT :: nat where "LF_NUM_DIR_ENT = 20"
definition LF_INULL :: int where "LF_INULL = -1"
definition LF_DNULL :: int where "LF_DNULL = -1"
definition LF_IBLEN :: nat where "LF_IBLEN = 16"
definition LF_IDATA :: int where "LF_IDATA = 8192"
definition LF_IMASK :: int where "LF_IMASK = 0x1fff"
definition LF_DMASK :: int where "LF_DMASK = 0x1ff"
definition LF_AREA_IB :: int where "LF_AREA_IB = 1"
definition LF_AREA_DIR :: int where "LF_AREA_DIR = 0"
definition LF_CTL_TRUNC :: int where "LF_CTL_TRUNC = 2"
definition LF_EOF :: int where "LF_EOF = -2"
definition DFILL :: int where "DFILL = 43"

datatype lf_state = LF_FREE | LF_USED

record lfiblk =
  ib_next :: int
  ib_offset :: int
  ib_dba :: "int list"

record ldentry =
  ld_size :: int
  ld_ilist :: int
  ld_name :: "int list"

record lfdir =
  lfd_dfree :: int
  lfd_ifree :: int
  lfd_nfiles :: int
  lfd_files :: "ldentry list"
  lfd_padding :: "int list"

record lfdata =
  lf_dskdev :: int
  lf_mutex :: int
  lf_dir :: lfdir
  lf_dirpresent :: bool
  lf_dirdirty :: bool

record lflcblk =
  lfstate :: lf_state
  lfdev :: int
  lfmutex :: int
  lfdirptr :: "nat option"
  lfmode :: int
  lfpos :: int
  lfname :: "int list"
  lfinum :: int
  lfiblock :: lfiblk
  lfdnum :: int
  lfdblock :: "int list"
  lfbyte :: nat
  lfibdirty :: bool
  lfdbdirty :: bool

text \<open>lf_rubbish is what the stack holds where lfdbfree puts the unused part of its buffer.\<close>

record 'd lfst =
  lkern :: kst
  Lf_data :: lfdata
  lfltab :: "int \<Rightarrow> lflcblk"
  ldisk :: 'd
  lf_rubbish :: "int list"

definition ib2sect :: "int \<Rightarrow> int" where
  "ib2sect ib = ib div 7 + LF_AREA_IB"

definition ib2disp :: "int \<Rightarrow> int" where
  "ib2disp ib = (ib mod 7) * 72"

section \<open>Structures as bytes\<close>

definition enc_iblk :: "lfiblk \<Rightarrow> int list" where
  "enc_iblk b = le32 (ib_next b) @ le32 (ib_offset b) @ concat (map le32 (ib_dba b))"

definition dec_iblk :: "int list \<Rightarrow> lfiblk" where
  "dec_iblk bs = \<lparr>ib_next = i32 (rd32 bs 0), ib_offset = rd32 bs 4, ib_dba = map (\<lambda>k. i32 (rd32 bs (8 + 4 * k))) [0..<LF_IBLEN]\<rparr>"

definition enc_dent :: "ldentry \<Rightarrow> int list" where
  "enc_dent e = le32 (ld_size e) @ le32 (ld_ilist e) @ ld_name e"

definition dec_dent :: "int list \<Rightarrow> ldentry" where
  "dec_dent bs = \<lparr>ld_size = rd32 bs 0, ld_ilist = i32 (rd32 bs 4), ld_name = take LF_NAME_LEN (drop 8 bs)\<rparr>"

definition enc_dir :: "lfdir \<Rightarrow> int list" where
  "enc_dir d = le32 (lfd_dfree d) @ le32 (lfd_ifree d) @ le32 (lfd_nfiles d) @ concat (map enc_dent (lfd_files d)) @ lfd_padding d"

definition dec_dir :: "int list \<Rightarrow> lfdir" where
  "dec_dir bs = \<lparr>lfd_dfree = i32 (rd32 bs 0), lfd_ifree = i32 (rd32 bs 4), lfd_nfiles = i32 (rd32 bs 8),
     lfd_files = map (\<lambda>k. dec_dent (drop (12 + 24 * k) bs)) [0..<LF_NUM_DIR_ENT], lfd_padding = drop 492 bs\<rparr>"

section \<open>Access to the state\<close>

definition upd_lfl :: "int \<Rightarrow> (lflcblk \<Rightarrow> lflcblk) \<Rightarrow> 'd lfst \<Rightarrow> 'd lfst" where
  "upd_lfl i f s = s\<lparr>lfltab := (lfltab s)(i := f (lfltab s i))\<rparr>"

definition upd_lfd :: "(lfdata \<Rightarrow> lfdata) \<Rightarrow> 'd lfst \<Rightarrow> 'd lfst" where
  "upd_lfd f s = s\<lparr>Lf_data := f (Lf_data s)\<rparr>"

definition upd_dir :: "(lfdir \<Rightarrow> lfdir) \<Rightarrow> 'd lfst \<Rightarrow> 'd lfst" where
  "upd_dir f = upd_lfd (\<lambda>g. g\<lparr>lf_dir := f (lf_dir g)\<rparr>)"

definition the_dir :: "'d lfst \<Rightarrow> lfdir" where
  "the_dir s = lf_dir (Lf_data s)"

definition dirent :: "int \<Rightarrow> 'd lfst \<Rightarrow> ldentry option" where
  "dirent i s = Option.bind (lfdirptr (lfltab s i)) (elem_at (lfd_files (the_dir s)))"

definition upd_dirent :: "int \<Rightarrow> (ldentry \<Rightarrow> ldentry) \<Rightarrow> 'd lfst \<Rightarrow> 'd lfst option" where
  "upd_dirent i f s = do {
     k \<leftarrow> lfdirptr (lfltab s i);
     e \<leftarrow> elem_at (lfd_files (the_dir s)) k;
     Some (upd_dir (\<lambda>d. d\<lparr>lfd_files := (lfd_files d)[k := f e]\<rparr>) s) }"

definition lf_call :: "(kst \<Rightarrow> (int \<times> kst) option) \<Rightarrow> 'd lfst \<Rightarrow> (int, 'd lfst) act option" where
  "lf_call = kernel_call lkern lkern_update"

text \<open>Calls of write on the disk device; lf_write_dir writes the directory in memory.\<close>

definition lf_write :: "'d disk_driver \<Rightarrow> int list \<Rightarrow> int \<Rightarrow> 'd lfst \<Rightarrow> (int \<times> 'd lfst) option" where
  "lf_write dk bs blk s = do {
     (r, d) \<leftarrow> dwrite dk (lf_dskdev (Lf_data s)) bs blk (ldisk s);
     Some (r, s\<lparr>ldisk := d\<rparr>) }"

definition lf_write_dir :: "'d disk_driver \<Rightarrow> 'd lfst \<Rightarrow> 'd lfst option" where
  "lf_write_dir dk s = do {
     (_, s) \<leftarrow> lf_write dk (enc_dir (the_dir s)) LF_AREA_DIR s;
     Some s }"

definition lf_clean_dir :: "'d disk_driver \<Rightarrow> 'd lfst \<Rightarrow> 'd lfst option" where
  "lf_clean_dir dk s = do {
     s \<leftarrow> lf_write_dir dk s;
     Some (upd_lfd (\<lambda>g. g\<lparr>lf_dirdirty := False\<rparr>) s) }"

section \<open>Index blocks\<close>

text \<open>The local buffer is uninitialised when the read fails, so that its use is a fault.\<close>

definition lfibget :: "'d disk_driver \<Rightarrow> int \<Rightarrow> int \<Rightarrow> 'd \<Rightarrow> lfiblk option" where
  "lfibget dk diskdev inum d = do {
     _ \<leftarrow> (if inum < 0 then None else Some ());
     (r, dbuff) \<leftarrow> dread dk diskdev (ib2sect inum) d;
     if r = SYSERR then None
     else Some (dec_iblk (take 72 (drop (nat (ib2disp inum)) dbuff))) }"

definition lfibput :: "'d disk_driver \<Rightarrow> int \<Rightarrow> int \<Rightarrow> lfiblk \<Rightarrow> 'd \<Rightarrow> (int \<times> 'd) option" where
  "lfibput dk diskdev inum ibuff d = do {
     let diskblock = ib2sect inum;
     _ \<leftarrow> (if inum < 0 then None else Some ());
     (r, dbuff) \<leftarrow> dread dk diskdev diskblock d;
     if r = SYSERR then Some (SYSERR, d)
     else do {
       let p = nat (ib2disp inum);
       (_, d) \<leftarrow> dwrite dk diskdev (take p dbuff @ enc_iblk ibuff @ drop (p + 72) dbuff) diskblock d;
       Some (OK, d) } }"

definition lfibclear :: "int \<Rightarrow> lfiblk" where
  "lfibclear offset = \<lparr>ib_next = LF_INULL, ib_offset = u32 offset, ib_dba = replicate LF_IBLEN LF_DNULL\<rparr>"

definition lf_ibget :: "'d disk_driver \<Rightarrow> int \<Rightarrow> 'd lfst \<Rightarrow> lfiblk option" where
  "lf_ibget dk inum s = lfibget dk (lf_dskdev (Lf_data s)) inum (ldisk s)"

definition lf_ibput :: "'d disk_driver \<Rightarrow> int \<Rightarrow> lfiblk \<Rightarrow> 'd lfst \<Rightarrow> 'd lfst option" where
  "lf_ibput dk inum ib s = do {
     (_, d) \<leftarrow> lfibput dk (lf_dskdev (Lf_data s)) inum ib (ldisk s);
     Some (s\<lparr>ldisk := d\<rparr>) }"

definition lfiballoc :: "'d disk_driver \<Rightarrow> 'd lfst \<Rightarrow> (int \<times> 'd lfst) option" where
  "lfiballoc dk s = do {
     let ibnum = lfd_ifree (the_dir s);
     if ibnum = LF_INULL then None
     else do {
       iblock \<leftarrow> lf_ibget dk ibnum s;
       let s = upd_dir (\<lambda>d. d\<lparr>lfd_ifree := ib_next iblock\<rparr>) s;
       s \<leftarrow> lf_clean_dir dk s;
       Some (ibnum, s) } }"

section \<open>Data blocks\<close>

definition lfdballoc :: "'d disk_driver \<Rightarrow> 'd lfst \<Rightarrow> (int \<times> int list \<times> 'd lfst) option" where
  "lfdballoc dk s = do {
     let dnum = lfd_dfree (the_dir s);
     if dnum = LF_DNULL then None
     else do {
       (r, dbuff) \<leftarrow> dread dk (lf_dskdev (Lf_data s)) dnum (ldisk s);
       if r = SYSERR then None
       else do {
         let s = upd_dir (\<lambda>d. d\<lparr>lfd_dfree := i32 (rd32 dbuff 0)\<rparr>) s;
         s \<leftarrow> lf_clean_dir dk s;
         Some (dnum, replicate (nat LF_BLKSIZ) DFILL, s) } } }"

definition lfdbfree :: "'d disk_driver \<Rightarrow> int \<Rightarrow> 'd lfst \<Rightarrow> (int \<times> 'd lfst) option" where
  "lfdbfree dk dnum s = do {
     let buf = le32 (lfd_dfree (the_dir s)) @ lf_rubbish s;
     let s = upd_dir (\<lambda>d. d\<lparr>lfd_dfree := dnum\<rparr>) s;
     (_, s) \<leftarrow> lf_write dk buf dnum s;
     s \<leftarrow> lf_write_dir dk s;
     Some (OK, s) }"

definition lfflush :: "'d disk_driver \<Rightarrow> int \<Rightarrow> 'd lfst \<Rightarrow> (int \<times> 'd lfst) option" where
  "lfflush dk i s =
     (if lfstate (lfltab s i) = LF_FREE then Some (SYSERR, s)
      else do {
        s \<leftarrow> (if lf_dirdirty (Lf_data s) then lf_clean_dir dk s else Some s);
        s \<leftarrow> (if lfdbdirty (lfltab s i) then do {
               (_, s) \<leftarrow> lf_write dk (lfdblock (lfltab s i)) (lfdnum (lfltab s i)) s;
               Some (upd_lfl i (\<lambda>f. f\<lparr>lfdbdirty := False\<rparr>) s) }
             else Some s);
        s \<leftarrow> (if lfibdirty (lfltab s i) then do {
               s \<leftarrow> lf_ibput dk (lfinum (lfltab s i)) (lfiblock (lfltab s i)) s;
               Some (upd_lfl i (\<lambda>f. f\<lparr>lfibdirty := False\<rparr>) s) }
             else Some s);
        Some (OK, s) })"

section \<open>The block at the file position\<close>

text \<open>The index block in memory: none yet, or one behind the position.\<close>

definition setup_first :: "'d disk_driver \<Rightarrow> int \<Rightarrow> 'd lfst \<Rightarrow> 'd lfst option" where
  "setup_first dk i s = do {
     ld \<leftarrow> dirent i s;
     if lfinum (lfltab s i) = LF_INULL then
       if ld_ilist ld = LF_INULL then do {
         (ibnum, s) \<leftarrow> lfiballoc dk s;
         let s = upd_lfl i (\<lambda>f. f\<lparr>lfiblock := lfibclear 0\<rparr>) s;
         s \<leftarrow> upd_dirent i (\<lambda>e. e\<lparr>ld_ilist := ibnum\<rparr>) s;
         Some (upd_lfl i (\<lambda>f. f\<lparr>lfibdirty := True, lfinum := ibnum\<rparr>) s) }
       else do {
         ib \<leftarrow> lf_ibget dk (ld_ilist ld) s;
         Some (upd_lfl i (\<lambda>f. f\<lparr>lfiblock := ib, lfinum := ld_ilist ld\<rparr>) s) }
     else if lfpos (lfltab s i) < ib_offset (lfiblock (lfltab s i)) then do {
       ib \<leftarrow> lf_ibget dk (ld_ilist ld) s;
       Some (upd_lfl i (\<lambda>f. f\<lparr>lfiblock := ib, lfinum := ld_ilist ld\<rparr>) s) }
     else Some s }"

definition setup_behind :: "int \<Rightarrow> 'd lfst \<Rightarrow> bool" where
  "setup_behind i s \<longleftrightarrow> and (lfpos (lfltab s i)) (not LF_IMASK) > ib_offset (lfiblock (lfltab s i))"

definition setup_next :: "'d disk_driver \<Rightarrow> int \<Rightarrow> 'd lfst \<Rightarrow> 'd lfst option" where
  "setup_next dk i s = do {
     let ibnum = ib_next (lfiblock (lfltab s i));
     s \<leftarrow> (if ibnum = LF_INULL then do {
            (ibnum, s) \<leftarrow> lfiballoc dk s;
            let s = upd_lfl i (\<lambda>f. f\<lparr>lfiblock := (lfiblock f)\<lparr>ib_next := ibnum\<rparr>\<rparr>) s;
            s \<leftarrow> lf_ibput dk (lfinum (lfltab s i)) (lfiblock (lfltab s i)) s;
            Some (upd_lfl i (\<lambda>f. f\<lparr>lfinum := ibnum, lfiblock := lfibclear (u32 (ib_offset (lfiblock f) + LF_IDATA)),
              lfibdirty := True\<rparr>) s) }
          else do {
            ib \<leftarrow> lf_ibget dk ibnum s;
            Some (upd_lfl i (\<lambda>f. f\<lparr>lfiblock := ib, lfinum := ibnum\<rparr>) s) });
     Some (upd_lfl i (\<lambda>f. f\<lparr>lfdnum := LF_DNULL\<rparr>) s) }"

definition setup_data :: "'d disk_driver \<Rightarrow> int \<Rightarrow> 'd lfst \<Rightarrow> 'd lfst option" where
  "setup_data dk i s = do {
     let dindex = nat (drop_bit 9 (and (lfpos (lfltab s i)) LF_IMASK));
     dnum \<leftarrow> elem_at (ib_dba (lfiblock (lfltab s i))) dindex;
     s \<leftarrow> (if dnum = LF_DNULL then do {
            (dnum, dbuff, s) \<leftarrow> lfdballoc dk s;
            Some (upd_lfl i (\<lambda>f. f\<lparr>lfdblock := dbuff, lfiblock := (lfiblock f)\<lparr>ib_dba := (ib_dba (lfiblock f))[dindex := dnum]\<rparr>,
              lfibdirty := True, lfdnum := dnum\<rparr>) s) }
          else if dnum \<noteq> lfdnum (lfltab s i) then do {
            (r, dbuff) \<leftarrow> dread dk (lf_dskdev (Lf_data s)) dnum (ldisk s);
            Some (upd_lfl i (\<lambda>f. f\<lparr>lfdblock := (if r = SYSERR then lfdblock f else dbuff), lfdbdirty := False, lfdnum := dnum\<rparr>) s) }
          else Some s);
     Some (upd_lfl i (\<lambda>f. f\<lparr>lfbyte := nat (and (lfpos f) LF_DMASK)\<rparr>) s) }"

definition setup_locked :: "'d disk_driver \<Rightarrow> int \<Rightarrow> 'd lfst \<Rightarrow> 'd lfst option" where
  "setup_locked dk i s = do {
     s \<leftarrow> (if lfibdirty (lfltab s i) \<or> lfdbdirty (lfltab s i) then do { (_, s) \<leftarrow> lfflush dk i s; Some s } else Some s);
     s \<leftarrow> setup_first dk i s;
     s \<leftarrow> c_while (setup_behind i) (setup_next dk i) s;
     setup_data dk i s }"

definition lfsetup :: "'d disk_driver \<Rightarrow> int \<Rightarrow> 'd lfst \<Rightarrow> (int, 'd lfst) act option" where
  "lfsetup dk i s =
     andthen (lf_call (wait (lf_mutex (Lf_data s))) s) (\<lambda>_ s. do {
       s \<leftarrow> setup_locked dk i s;
       andthen (lf_call (signal (lf_mutex (Lf_data s))) s) (\<lambda>_ s. Some (Done OK s)) })"

section \<open>Reading, writing and seeking\<close>

text \<open>Leaving an operation: the file's mutex is released and r returned.\<close>

definition lfl_leave :: "int \<Rightarrow> 'a \<Rightarrow> 'd lfst \<Rightarrow> ('a, 'd lfst) act option" where
  "lfl_leave i r s = andthen (lf_call (signal (lfmutex (lfltab s i))) s) (\<lambda>_ s. Some (Done r s))"

definition lfl_enter :: "int \<Rightarrow> 'd lfst \<Rightarrow> (int, 'd lfst) act option" where
  "lfl_enter i s = lf_call (wait (lfmutex (lfltab s i))) s"

definition lfl_block :: "'d disk_driver \<Rightarrow> int \<Rightarrow> 'd lfst \<Rightarrow> (int, 'd lfst) act option" where
  "lfl_block dk i s = (if lfbyte (lfltab s i) \<ge> nat LF_BLKSIZ then lfsetup dk i s else Some (Done OK s))"

definition lflgetc :: "'d disk_driver \<Rightarrow> int \<Rightarrow> 'd lfst \<Rightarrow> (int, 'd lfst) act option" where
  "lflgetc dk i s =
     andthen (lfl_enter i s) (\<lambda>_ s.
       if lfstate (lfltab s i) \<noteq> LF_USED then lfl_leave i SYSERR s
       else do {
         ld \<leftarrow> dirent i s;
         if lfpos (lfltab s i) \<ge> ld_size ld then lfl_leave i LF_EOF s
         else andthen (lfl_block dk i s) (\<lambda>_ s. do {
           onebyte \<leftarrow> elem_at (lfdblock (lfltab s i)) (lfbyte (lfltab s i));
           lfl_leave i (and 255 onebyte) (upd_lfl i (\<lambda>f. f\<lparr>lfbyte := lfbyte f + 1, lfpos := u32 (lfpos f + 1)\<rparr>) s) }) })"

definition lflputc :: "'d disk_driver \<Rightarrow> int \<Rightarrow> int \<Rightarrow> 'd lfst \<Rightarrow> (int, 'd lfst) act option" where
  "lflputc dk i ch s =
     andthen (lfl_enter i s) (\<lambda>_ s.
       if lfstate (lfltab s i) \<noteq> LF_USED then lfl_leave i SYSERR s
       else do {
         ld \<leftarrow> dirent i s;
         if lfpos (lfltab s i) > ld_size ld then lfl_leave i SYSERR s
         else andthen (lfl_block dk i s) (\<lambda>_ s. do {
           ld \<leftarrow> dirent i s;
           s \<leftarrow> (if lfpos (lfltab s i) \<ge> ld_size ld then do {
                  s \<leftarrow> upd_dirent i (\<lambda>e. e\<lparr>ld_size := u32 (ld_size e + 1)\<rparr>) s;
                  Some (upd_lfd (\<lambda>g. g\<lparr>lf_dirdirty := True\<rparr>) s) }
                else Some s);
           _ \<leftarrow> elem_at (lfdblock (lfltab s i)) (lfbyte (lfltab s i));
           lfl_leave i OK (upd_lfl i (\<lambda>f. f\<lparr>lfdblock := (lfdblock f)[lfbyte f := ch], lfbyte := lfbyte f + 1,
             lfpos := u32 (lfpos f + 1), lfdbdirty := True\<rparr>) s) }) })"

text \<open>The loops of lflread and lflwrite; k characters are left. Memory is that of the caller.\<close>

primrec lflread_loop :: "'d disk_driver \<Rightarrow> int \<Rightarrow> nat \<Rightarrow> nat \<Rightarrow> int \<Rightarrow> bmem \<Rightarrow> 'd lfst \<Rightarrow> (int \<times> bmem, 'd lfst) act option" where
  "lflread_loop dk i 0 numread buff m s = Some (Done (int numread, m) s)"
| "lflread_loop dk i (Suc k) numread buff m s =
     andthen (lflgetc dk i s) (\<lambda>nxtbyte s.
       if nxtbyte = SYSERR then Some (Done (SYSERR, m) s)
       else if nxtbyte = LF_EOF then Some (Done (if numread = 0 then LF_EOF else int numread, m) s)
       else lflread_loop dk i k (numread + 1) buff (m(buff + int numread := and 255 nxtbyte)) s)"

definition lflread :: "'d disk_driver \<Rightarrow> int \<Rightarrow> int \<Rightarrow> int \<Rightarrow> bmem \<Rightarrow> 'd lfst \<Rightarrow> (int \<times> bmem, 'd lfst) act option" where
  "lflread dk i buff count m s =
     (if count < 0 then Some (Done (SYSERR, m) s) else lflread_loop dk i (nat count) 0 buff m s)"

primrec lflwrite_loop :: "'d disk_driver \<Rightarrow> int \<Rightarrow> nat \<Rightarrow> int \<Rightarrow> bmem \<Rightarrow> int \<Rightarrow> 'd lfst \<Rightarrow> (int, 'd lfst) act option" where
  "lflwrite_loop dk i 0 buff m count s = Some (Done count s)"
| "lflwrite_loop dk i (Suc k) buff m count s =
     andthen (lflputc dk i (m buff) s) (\<lambda>r s.
       if r = SYSERR then Some (Done SYSERR s) else lflwrite_loop dk i k (buff + 1) m count s)"

definition lflwrite :: "'d disk_driver \<Rightarrow> int \<Rightarrow> int \<Rightarrow> int \<Rightarrow> bmem \<Rightarrow> 'd lfst \<Rightarrow> (int, 'd lfst) act option" where
  "lflwrite dk i buff count m s =
     (if count < 0 then Some (Done SYSERR s) else lflwrite_loop dk i (nat count) buff m count s)"

definition lflseek :: "int \<Rightarrow> int \<Rightarrow> 'd lfst \<Rightarrow> (int, 'd lfst) act option" where
  "lflseek i offset s =
     andthen (lfl_enter i s) (\<lambda>_ s.
       if lfstate (lfltab s i) \<noteq> LF_USED then lfl_leave i SYSERR s
       else do {
         ld \<leftarrow> dirent i s;
         if offset > ld_size ld then lfl_leave i SYSERR s
         else lfl_leave i OK (upd_lfl i (\<lambda>f. f\<lparr>lfpos := offset, lfbyte := nat LF_BLKSIZ\<rparr>) s) })"

section \<open>Opening a file\<close>

text \<open>One pass of the loop of lfgetmode over the mode string.\<close>

definition lfgetmode_iter :: "bmem \<Rightarrow> int \<times> int \<Rightarrow> (int \<times> int + int) option" where
  "lfgetmode_iter m = (\<lambda>(mode, mbits).
     let ch = m mode in Some (
     if ch = 0 then Inr (if and mbits LF_MODE_RW = 0 then or mbits LF_MODE_RW else mbits)
     else if ch = 114 then (if and mbits LF_MODE_R \<noteq> 0 then Inr SYSERR else Inl (mode + 1, or mbits LF_MODE_R))
     else if ch = 119 then (if and mbits LF_MODE_W \<noteq> 0 then Inr SYSERR else Inl (mode + 1, or mbits LF_MODE_W))
     else if ch = 111 then (if and mbits LF_MODE_O \<noteq> 0 \<or> and mbits LF_MODE_N \<noteq> 0 then Inr SYSERR else Inl (mode + 1, or mbits LF_MODE_O))
     else if ch = 110 then (if and mbits LF_MODE_O \<noteq> 0 \<or> and mbits LF_MODE_N \<noteq> 0 then Inr SYSERR else Inl (mode + 1, or mbits LF_MODE_N))
     else Inr SYSERR))"

definition lfgetmode :: "int \<Rightarrow> bmem \<Rightarrow> int option" where
  "lfgetmode mode m = c_loop (lfgetmode_iter m) (mode, 0)"

text \<open>The index at which the name ends, LF_NAME_LEN when it is too long.\<close>

definition name_len :: "int \<Rightarrow> bmem \<Rightarrow> nat option" where
  "name_len name m = c_loop (\<lambda>i. Some (
     if i < LF_NAME_LEN then if m (name + int i) = 0 then Inr i else Inl (i + 1) else Inr i)) 0"

text \<open>The comparison of a name with the array cmp.\<close>

definition same_name :: "int \<Rightarrow> bmem \<Rightarrow> int list \<Rightarrow> bool option" where
  "same_name name m cmp = do {
     k \<leftarrow> c_loop (\<lambda>k. if m (name + int k) = 0 then Some (Inr k)
          else do { c \<leftarrow> elem_at cmp k; Some (if m (name + int k) \<noteq> c then Inr k else Inl (k + 1)) }) 0;
     if m (name + int k) = 0 then do { c \<leftarrow> elem_at cmp k; Some (c = 0) } else Some False }"

definition copy_name :: "int \<Rightarrow> bmem \<Rightarrow> int list \<Rightarrow> int list option" where
  "copy_name name m to = c_loop (\<lambda>(k, to). do {
     _ \<leftarrow> elem_at to k;
     let to = to[k := m (name + int k)];
     Some (if m (name + int k) \<noteq> 0 then Inl (k + 1, to) else Inr to) }) (0, to)"

text \<open>The search for a free pseudo-device; Inl SYSERR when the file is open already.\<close>

definition find_slave :: "int \<Rightarrow> bmem \<Rightarrow> 'd lfst \<Rightarrow> (int + int) option" where
  "find_slave name m s = c_loop (\<lambda>(i, lfnext).
     if i < Nlfl then
       if lfstate (lfltab s i) = LF_FREE then Some (Inl (i + 1, if lfnext = SYSERR then i else lfnext))
       else do { b \<leftarrow> same_name name m (lfname (lfltab s i)); Some (if b then Inr (Inl SYSERR) else Inl (i + 1, lfnext)) }
     else Some (Inr (Inr lfnext))) (0, SYSERR)"

definition find_file :: "int \<Rightarrow> bmem \<Rightarrow> 'd lfst \<Rightarrow> nat option option" where
  "find_file name m s = c_loop (\<lambda>i.
     if int i < lfd_nfiles (the_dir s) then do {
       e \<leftarrow> elem_at (lfd_files (the_dir s)) i;
       b \<leftarrow> same_name name m (ld_name e);
       Some (if b then Inr (Some i) else Inl (i + 1)) }
     else Some (Inr None)) 0"

text \<open>A new entry; the result is its index.\<close>

definition new_file :: "int \<Rightarrow> bmem \<Rightarrow> 'd lfst \<Rightarrow> (nat \<times> 'd lfst) option" where
  "new_file name m s = do {
     let n = lfd_nfiles (the_dir s);
     let k = nat n;
     e \<leftarrow> (if n < 0 then None else elem_at (lfd_files (the_dir s)) k);
     nm \<leftarrow> copy_name name m (ld_name e);
     Some (k, upd_dir (\<lambda>d. d\<lparr>lfd_nfiles := n + 1, lfd_files := (lfd_files d)[k := \<lparr>ld_size = 0, ld_ilist = LF_INULL, ld_name = nm\<rparr>]\<rparr>) s) }"

definition init_slave :: "int \<Rightarrow> nat \<Rightarrow> int \<Rightarrow> int \<Rightarrow> bmem \<Rightarrow> 'd lfst \<Rightarrow> 'd lfst option" where
  "init_slave lfnext k mbits name m s = do {
     nm \<leftarrow> copy_name name m (lfname (lfltab s lfnext));
     Some (upd_lfl lfnext (\<lambda>f. f\<lparr>lfstate := LF_USED, lfdirptr := Some k, lfmode := and mbits LF_MODE_RW, lfpos := 0,
       lfname := nm, lfinum := LF_INULL, lfdnum := LF_DNULL, lfbyte := nat LF_BLKSIZ, lfibdirty := False, lfdbdirty := False\<rparr>) s) }"

text \<open>With the directory's mutex held, up to its release: the result is the value returned.\<close>

definition lfsopen_locked :: "'d disk_driver \<Rightarrow> int \<Rightarrow> int \<Rightarrow> int \<Rightarrow> bmem \<Rightarrow> 'd lfst \<Rightarrow> (int \<times> 'd lfst) option" where
  "lfsopen_locked dk lfnext mbits name m s = do {
     (r, s) \<leftarrow> (if lf_dirpresent (Lf_data s) then Some (OK, s)
       else do {
         (r, bs) \<leftarrow> dread dk (lf_dskdev (Lf_data s)) LF_AREA_DIR (ldisk s);
         Some (if r = SYSERR then (SYSERR, s)
               else (OK, upd_lfd (\<lambda>g. g\<lparr>lf_dir := dec_dir bs, lf_dirpresent := True\<rparr>) s)) });
     if r = SYSERR then Some (SYSERR, s)
     else do {
       found \<leftarrow> find_file name m s;
       case found of
         None \<Rightarrow>
           if and mbits LF_MODE_O \<noteq> 0 then Some (SYSERR, s)
           else if lfd_nfiles (the_dir s) \<ge> int LF_NUM_DIR_ENT then Some (SYSERR, s)
           else do {
             (k, s) \<leftarrow> new_file name m s;
             s \<leftarrow> init_slave lfnext k mbits name m s;
             Some (lfdev (lfltab s lfnext), s) }
       | Some k \<Rightarrow>
           if and mbits LF_MODE_N \<noteq> 0 then Some (SYSERR, s)
           else do {
             s \<leftarrow> init_slave lfnext k mbits name m s;
             Some (lfdev (lfltab s lfnext), s) } } }"

definition lfsopen :: "'d disk_driver \<Rightarrow> int \<Rightarrow> int \<Rightarrow> bmem \<Rightarrow> 'd lfst \<Rightarrow> (int, 'd lfst) act option" where
  "lfsopen dk name mode m s = do {
     n \<leftarrow> name_len name m;
     if n \<ge> LF_NAME_LEN then Some (Done SYSERR s)
     else do {
       mbits \<leftarrow> lfgetmode mode m;
       if mbits = SYSERR then Some (Done SYSERR s)
       else do {
         r \<leftarrow> find_slave name m s;
         case r of
           Inl e \<Rightarrow> Some (Done e s)
         | Inr lfnext \<Rightarrow>
             if lfnext = SYSERR then Some (Done SYSERR s)
             else andthen (lf_call (wait (lf_mutex (Lf_data s))) s) (\<lambda>_ s. do {
               (r, s) \<leftarrow> lfsopen_locked dk lfnext mbits name m s;
               andthen (lf_call (signal (lf_mutex (Lf_data s))) s) (\<lambda>_ s. Some (Done r s)) }) } } }"

section \<open>Closing, truncation and control\<close>

definition lflclose :: "'d disk_driver \<Rightarrow> int \<Rightarrow> 'd lfst \<Rightarrow> (int, 'd lfst) act option" where
  "lflclose dk i s =
     andthen (lfl_enter i s) (\<lambda>_ s.
       if lfstate (lfltab s i) \<noteq> LF_USED then lfl_leave i SYSERR s
       else do {
         (_, s) \<leftarrow> (if lf_dirdirty (Lf_data s) \<or> lfdbdirty (lfltab s i) \<or> lfibdirty (lfltab s i) then lfflush dk i s else Some (OK, s));
         lfl_leave i OK (upd_lfl i (\<lambda>f. f\<lparr>lfstate := LF_FREE\<rparr>) s) })"

text \<open>Freeing the data blocks of one index block.\<close>

primrec free_data :: "'d disk_driver \<Rightarrow> int list \<Rightarrow> 'd lfst \<Rightarrow> 'd lfst option" where
  "free_data dk [] s = Some s"
| "free_data dk (nextdb # dbs) s = do {
     s \<leftarrow> (if nextdb \<noteq> LF_DNULL then do { (_, s) \<leftarrow> lfdbfree dk nextdb s; Some s } else Some s);
     free_data dk dbs s }"

definition lftruncate_iter :: "'d disk_driver \<Rightarrow> int \<Rightarrow> int \<times> 'd lfst \<Rightarrow> (int \<times> 'd lfst + 'd lfst) option" where
  "lftruncate_iter dk ifree = (\<lambda>(nextib, s).
     if nextib = ifree then Some (Inr s)
     else do {
       iblock \<leftarrow> lf_ibget dk nextib s;
       s \<leftarrow> free_data dk (ib_dba iblock) s;
       let iblock = \<lparr>ib_next = (if ib_next iblock = LF_INULL then ifree else ib_next iblock), ib_offset = 0,
         ib_dba = replicate LF_IBLEN LF_DNULL\<rparr>;
       s \<leftarrow> lf_ibput dk nextib iblock s;
       Some (Inl (ib_next iblock, s)) })"

definition lftruncate :: "'d disk_driver \<Rightarrow> int \<Rightarrow> 'd lfst \<Rightarrow> (int \<times> 'd lfst) option" where
  "lftruncate dk i s = do {
     ld \<leftarrow> dirent i s;
     if ld_size ld = 0 then Some (OK, s)
     else do {
       (_, s) \<leftarrow> (if lfibdirty (lfltab s i) \<or> lfdbdirty (lfltab s i) then lfflush dk i s else Some (OK, s));
       let s = upd_lfl i (\<lambda>f. f\<lparr>lfpos := 0, lfinum := LF_INULL, lfdnum := LF_DNULL, lfbyte := nat LF_BLKSIZ\<rparr>) s;
       let ifree = lfd_ifree (the_dir s);
       let firstib = ld_ilist ld;
       s \<leftarrow> upd_dirent i (\<lambda>e. e\<lparr>ld_ilist := LF_INULL, ld_size := 0\<rparr>) s;
       let s = upd_lfd (\<lambda>g. g\<lparr>lf_dirdirty := True\<rparr>) s;
       s \<leftarrow> c_loop (lftruncate_iter dk ifree) (firstib, s);
       let s = upd_dir (\<lambda>d. d\<lparr>lfd_ifree := firstib\<rparr>) s;
       Some (OK, upd_lfd (\<lambda>g. g\<lparr>lf_dirdirty := True\<rparr>) s) } }"

definition lflcontrol :: "'d disk_driver \<Rightarrow> int \<Rightarrow> int \<Rightarrow> 'd lfst \<Rightarrow> (int, 'd lfst) act option" where
  "lflcontrol dk i func s =
     andthen (lfl_enter i s) (\<lambda>_ s.
       if lfstate (lfltab s i) \<noteq> LF_USED then lfl_leave i SYSERR s
       else if func = LF_CTL_TRUNC then
         andthen (lf_call (wait (lf_mutex (Lf_data s))) s) (\<lambda>_ s. do {
           (retval, s) \<leftarrow> lftruncate dk i s;
           andthen (lf_call (signal (lf_mutex (Lf_data s))) s) (\<lambda>_ s. lfl_leave i retval s) })
       else lfl_leave i SYSERR s)"

section \<open>Initialisation\<close>

definition zero_iblk :: lfiblk where
  "zero_iblk = \<lparr>ib_next = 0, ib_offset = 0, ib_dba = replicate LF_IBLEN 0\<rparr>"

definition zero_dir :: lfdir where
  "zero_dir = \<lparr>lfd_dfree = 0, lfd_ifree = 0, lfd_nfiles = 0,
     lfd_files = replicate LF_NUM_DIR_ENT \<lparr>ld_size = 0, ld_ilist = 0, ld_name = replicate LF_NAME_LEN 0\<rparr>, lfd_padding = replicate 20 0\<rparr>"

definition lfsinit :: "'d lfst \<Rightarrow> (int \<times> 'd lfst) option" where
  "lfsinit s = do {
     (sem, k) \<leftarrow> semcreate 1 (lkern s);
     Some (OK, s\<lparr>lkern := k, Lf_data := \<lparr>lf_dskdev = RAM0, lf_mutex = sem, lf_dir = zero_dir, lf_dirpresent = False, lf_dirdirty = False\<rparr>\<rparr>) }"

definition lflinit :: "dentry \<Rightarrow> 'd lfst \<Rightarrow> (int \<times> 'd lfst) option" where
  "lflinit devptr s = do {
     (sem, k) \<leftarrow> semcreate 1 (lkern s);
     Some (OK, upd_lfl (dvminor devptr) (\<lambda>f. f\<lparr>lfstate := LF_FREE, lfdev := dvnum devptr, lfmutex := sem, lfdirptr := None, lfpos := 0,
       lfname := replicate LF_NAME_LEN 0, lfinum := LF_INULL, lfiblock := zero_iblk, lfdnum := 0,
       lfdblock := replicate (nat LF_BLKSIZ) 0, lfbyte := nat LF_BLKSIZ, lfibdirty := False, lfdbdirty := False\<rparr>) (s\<lparr>lkern := k\<rparr>)) }"

section \<open>Creating and checking a file system on a disk\<close>

text \<open>The unsigned and signed loop bounds are those of the code: lfiblks is signed, dblks unsigned.\<close>

definition create_iblks :: "'d disk_driver \<Rightarrow> int \<Rightarrow> int \<Rightarrow> 'd \<Rightarrow> 'd option" where
  "create_iblks dk disk lfiblks d = do {
     (i, d) \<leftarrow> c_while (\<lambda>(i, d). i < lfiblks - 1) (\<lambda>(i, d). do {
       (_, d) \<leftarrow> lfibput dk disk i ((lfibclear 0)\<lparr>ib_next := i + 1\<rparr>) d;
       Some (i + 1, d) }) (0, d);
     (_, d) \<leftarrow> lfibput dk disk i ((lfibclear 0)\<lparr>ib_next := LF_INULL\<rparr>) d;
     Some d }"

definition free_sector :: "int \<Rightarrow> int list" where
  "free_sector nextdb = le32 nextdb @ replicate 508 0"

definition create_dblks :: "'d disk_driver \<Rightarrow> int \<Rightarrow> int \<Rightarrow> int \<Rightarrow> 'd \<Rightarrow> 'd option" where
  "create_dblks dk disk dbindex dblks d = do {
     (_, dbindex, d) \<leftarrow> c_while (\<lambda>(i, dbindex, d). u32 i < u32 (dblks - 1)) (\<lambda>(i, dbindex, d). do {
       (_, d) \<leftarrow> dwrite dk disk (free_sector (dbindex + 1)) dbindex d;
       Some (i + 1, dbindex + 1, d) }) (0, dbindex, d);
     (_, d) \<leftarrow> dwrite dk disk (free_sector LF_DNULL) dbindex d;
     Some d }"

definition lfscreate :: "'d disk_driver \<Rightarrow> int \<Rightarrow> int \<Rightarrow> int \<Rightarrow> 'd \<Rightarrow> (int \<times> 'd) option" where
  "lfscreate dk disk lfiblks dsiz d = do {
     let sectors = dsiz div LF_BLKSIZ;
     let ibpersector = LF_BLKSIZ div 72;
     let ibsectors = u32 (lfiblks + (ibpersector - 1)) div ibpersector;
     let lfiblks = i32 (ibsectors * ibpersector);
     if ibsectors > sectors div 2 then Some (SYSERR, d)
     else do {
       let dbindex = i32 (ibsectors + 1);
       let dblks = u32 (sectors - ibsectors - 1);
       (retval, d) \<leftarrow> dwrite dk disk (enc_dir (zero_dir\<lparr>lfd_dfree := dbindex\<rparr>)) LF_AREA_DIR d;
       if retval = SYSERR then Some (SYSERR, d)
       else do {
         d \<leftarrow> create_iblks dk disk lfiblks d;
         d \<leftarrow> create_dblks dk disk dbindex dblks d;
         (_, d) \<leftarrow> dclose dk disk d;
         Some (OK, d) } } }"

text \<open>lfsckfmt walks along both free lists; the model returns the numbers that it prints.\<close>

definition lfsckfmt :: "'d disk_driver \<Rightarrow> int \<Rightarrow> 'd \<Rightarrow> (int \<times> int list) option" where
  "lfsckfmt dk disk d = do {
     (r, bs) \<leftarrow> dread dk disk LF_AREA_DIR d;
     if r = SYSERR then None
     else do {
       let dir = dec_dir bs;
       (lfiblks, _) \<leftarrow> c_while (\<lambda>(n, nextib). nextib \<noteq> LF_INULL) (\<lambda>(n, nextib). do {
         iblock \<leftarrow> lfibget dk disk nextib d;
         Some (n + 1, ib_next iblock) }) (0, lfd_ifree dir);
       let ibsectors = (lfiblks + 6) div 7;
       (dblks, _, _) \<leftarrow> c_while (\<lambda>(n, nextdb, dblock). nextdb \<noteq> LF_DNULL) (\<lambda>(n, nextdb, dblock). do {
         (r, bs) \<leftarrow> dread dk disk nextdb d;
         dblock \<leftarrow> (if r = SYSERR then dblock else Some bs);
         Some (n + 1, i32 (rd32 dblock 0), Some dblock) }) (0, lfd_dfree dir, None);
       Some (OK, [disk, lfd_ifree dir, lfiblks, ibsectors, lfd_dfree dir, dblks]) } }"

end
