(* ===== verification/Lfs_Disk.thy ===== *)
theory Lfs_Disk
  imports Lfs
begin

text \<open>
  Index blocks, data blocks and the directory as regions of the disk. ibs reads the disk as an array
  of index blocks, dat as an array of data blocks; each primitive of the file system changes one
  place of one of the two. The lemmas are about any disk that keeps the contract of Ram_Disk.
\<close>

section \<open>Structures and bytes\<close>

definition wf_iblk :: "lfiblk \<Rightarrow> bool" where
  "wf_iblk b \<longleftrightarrow> length (ib_dba b) = LF_IBLEN \<and> INT_MIN \<le> ib_next b \<and> ib_next b \<le> INT_MAX \<and>
     0 \<le> ib_offset b \<and> ib_offset b < 4294967296 \<and> (\<forall>x \<in> set (ib_dba b). INT_MIN \<le> x \<and> x \<le> INT_MAX)"

lemma length_enc_iblk: "length (ib_dba b) = LF_IBLEN \<Longrightarrow> length (enc_iblk b) = 72"
  by (simp add: enc_iblk_def length_concat_le32 LF_IBLEN_def)

lemma dec_enc_iblk:
  assumes "wf_iblk b" shows "dec_iblk (enc_iblk b) = b"
proof -
  have w: "length (ib_dba b) = 16" "\<And>x. x \<in> set (ib_dba b) \<Longrightarrow> i32 x = x" "i32 (ib_next b) = ib_next b" "u32 (ib_offset b) = ib_offset b"
    using assms by (auto simp: wf_iblk_def LF_IBLEN_def i32_id u32_id)
  let ?c = "concat (map le32 (ib_dba b))"
  have e: "enc_iblk b = le32 (ib_next b) @ le32 (ib_offset b) @ ?c" by (simp add: enc_iblk_def)
  have n: "i32 (rd32 (enc_iblk b) 0) = ib_next b" unfolding e by (simp add: rd32_le32 i32_u32 w)
  have o: "rd32 (enc_iblk b) 4 = ib_offset b"
    unfolding e using rd32_skip[of "le32 (ib_next b)" 4] rd32_le32 w(4) by simp
  have "i32 (rd32 (enc_iblk b) (8 + 4 * k)) = ib_dba b ! k" if k: "k < 16" for k
  proof -
    have "rd32 (enc_iblk b) (8 + 4 * k) = rd32 (?c @ []) (4 * k)"
      unfolding e using rd32_skip[of "le32 (ib_next b)" "8 + 4 * k"] rd32_skip[of "le32 (ib_offset b)" "4 + 4 * k"] by simp
    also have "\<dots> = u32 (ib_dba b ! k)" by (rule rd32_concat) (simp add: w k)
    finally show ?thesis using k w(1,2) by (simp add: i32_u32)
  qed
  then have "map (\<lambda>k. i32 (rd32 (enc_iblk b) (8 + 4 * k))) [0..<16] = ib_dba b"
    using w(1) by (intro nth_equalityI) simp_all
  then show ?thesis using n o by (simp add: dec_iblk_def LF_IBLEN_def)
qed

definition wf_dir :: "lfdir \<Rightarrow> bool" where
  "wf_dir d \<longleftrightarrow> length (lfd_files d) = LF_NUM_DIR_ENT \<and> (\<forall>e \<in> set (lfd_files d). length (ld_name e) = LF_NAME_LEN) \<and> length (lfd_padding d) = 20"

lemma length_enc_dents: "\<forall>e \<in> set es. length (ld_name e) = LF_NAME_LEN \<Longrightarrow> length (concat (map enc_dent es)) = 24 * length es"
  by (induction es) (simp_all add: enc_dent_def LF_NAME_LEN_def)

lemma length_enc_dir: "wf_dir d \<Longrightarrow> length (enc_dir d) = 512"
  by (simp add: wf_dir_def enc_dir_def length_enc_dents LF_NUM_DIR_ENT_def)

text \<open>Replacing one of the slots of 72 bytes in a sector.\<close>

lemma slot_replace:
  assumes "length xs = 512" "length e = 72" "i < 7" "j < (7 :: nat)"
  shows "take 72 (drop (72 * i) (take (72 * j) xs @ e @ drop (72 * j + 72) xs)) = (if i = j then e else take 72 (drop (72 * i) xs))"
proof -
  consider "i = j" | "i < j" | "j < i" by linarith
  then show ?thesis
  proof cases
    case 1
    then show ?thesis using assms by simp
  next
    case 2
    then have "72 * i + 72 \<le> 72 * j" by simp
    then have "take 72 (drop (72 * i) (take (72 * j) xs)) = take 72 (drop (72 * i) xs)"
      by (simp add: take_drop min_def)
    moreover have "length (drop (72 * i) (take (72 * j) xs)) \<ge> 72" using assms 2 by simp
    ultimately show ?thesis using 2 assms by simp
  next
    case 3
    define k where "k = i - Suc j"
    have k: "i = Suc j + k" using 3 by (simp add: k_def)
    have "drop (72 * i) (take (72 * j) xs @ e @ drop (72 * j + 72) xs) = drop (72 * i) xs"
      using assms by (simp add: k drop_append ac_simps)
    then show ?thesis using 3 by simp
  qed
qed

section \<open>The disk as two arrays\<close>

definition ibs :: "('d \<Rightarrow> int \<Rightarrow> int list) \<Rightarrow> int \<Rightarrow> 'd \<Rightarrow> int \<Rightarrow> lfiblk" where
  "ibs content ds d b = (if 0 \<le> b \<and> ib2sect b < ds then dec_iblk (take 72 (drop (nat (ib2disp b)) (content d (ib2sect b)))) else zero_iblk)"

definition dat :: "('d \<Rightarrow> int \<Rightarrow> int list) \<Rightarrow> int \<Rightarrow> int \<Rightarrow> 'd \<Rightarrow> int \<Rightarrow> int list" where
  "dat content ds n d c = (if ds \<le> c \<and> c < n then content d c else [])"

lemma ib2sect_pos: "0 \<le> b \<Longrightarrow> 1 \<le> ib2sect b"
  by (simp add: ib2sect_def LF_AREA_IB_def)

lemma ib2disp_nat: "nat (ib2disp b) = 72 * nat (b mod 7)"
  by (simp add: ib2disp_def nat_mult_distrib)

lemma slot_inj: "ib2sect b = ib2sect c \<Longrightarrow> b mod 7 = c mod 7 \<Longrightarrow> b = c"
  by (simp add: ib2sect_def LF_AREA_IB_def) (metis div_mult_mod_eq)

text \<open>The data area starts at sector ds.\<close>

definition valid_ib :: "int \<Rightarrow> int \<Rightarrow> bool" where
  "valid_ib ds b \<longleftrightarrow> 0 \<le> b \<and> ib2sect b < ds"

locale lfs_disk = disk_contract +
  assumes size32: "n \<le> 4194304"
begin

abbreviation "ib_of \<equiv> ibs content"
abbreviation "dat_of ds \<equiv> dat content ds n"

lemma lfibget_ok:
  assumes "ok d" "valid_ib ds b" and data_start: "1 \<le> ds" "ds \<le> n" shows "lfibget dk dev b d = Some (ib_of ds d b)"
proof -
  have "dread dk dev (ib2sect b) d = Some (OK, content d (ib2sect b))"
    using assms ib2sect_pos[of b] data_start by (intro read_sector) (simp_all add: valid_ib_def)
  then show ?thesis using assms by (simp add: lfibget_def ibs_def valid_ib_def)
qed

lemma lfibput_ok:
  assumes d: "ok d" and b: "valid_ib ds b" and ib: "wf_iblk ib" and data_start: "1 \<le> ds" "ds \<le> n"
  shows "\<exists>e. lfibput dk dev b ib d = Some (OK, e) \<and> ok e \<and> ib_of ds e = (ib_of ds d)(b := ib) \<and> dat_of ds e = dat_of ds d \<and> content e 0 = content d 0"
proof -
  let ?c = "ib2sect b" and ?p = "72 * nat (b mod 7)"
  have c: "0 \<le> ?c" "?c < n" "?c < ds" using b ib2sect_pos[of b] data_start by (simp_all add: valid_ib_def)
  note l = length_sector[OF d c(1,2)]
  have le: "length (enc_iblk ib) = 72" using ib by (intro length_enc_iblk) (simp add: wf_iblk_def)
  define bs where "bs = take ?p (content d ?c) @ enc_iblk ib @ drop (?p + 72) (content d ?c)"
  have lb: "length bs = 512" using l le by (simp add: bs_def)
  obtain e where e: "dwrite dk dev bs ?c d = Some (OK, e)" "ok e"
    "\<forall>x. 0 \<le> x \<and> x < n \<longrightarrow> content e x = (if x = ?c then bs else content d x)"
    using write_sector[OF d c(1,2) lb] by blast
  have "lfibput dk dev b ib d = Some (OK, e)"
    using read_sector[OF d c(1,2)] b e(1) by (simp add: lfibput_def Let_def valid_ib_def ib2disp_nat bs_def)
  moreover have "ib_of ds e x = ((ib_of ds d)(b := ib)) x" for x
  proof (cases "0 \<le> x \<and> ib2sect x < ds")
    case True
    then have x: "0 \<le> ib2sect x" "ib2sect x < n" using ib2sect_pos[of x] data_start by simp_all
    have s: "nat (x mod 7) < 7" "nat (b mod 7) < 7" by (simp_all add: nat_less_iff)
    have "take 72 (drop (72 * nat (x mod 7)) (content e (ib2sect x))) =
       (if x = b then enc_iblk ib else take 72 (drop (72 * nat (x mod 7)) (content d (ib2sect x))))"
    proof (cases "ib2sect x = ?c")
      case True
      have "nat (x mod 7) = nat (b mod 7) \<longleftrightarrow> x = b" using slot_inj[OF True] by auto
      moreover have "content e (ib2sect x) = bs" "content d (ib2sect x) = content d ?c" using e(3) x True by simp_all
      ultimately show ?thesis using slot_replace[OF l le s] unfolding bs_def by presburger
    next
      case False
      then show ?thesis using e(3) x by auto
    qed
    then show ?thesis using True dec_enc_iblk[OF ib] by (simp add: ibs_def ib2disp_nat)
  next
    case False
    then show ?thesis using b by (auto simp: ibs_def valid_ib_def)
  qed
  moreover have "dat_of ds e x = dat_of ds d x" for x
    using e(3) c(1,3) by (auto simp: dat_def)
  moreover have "content e 0 = content d 0" using e(3) c(2) ib2sect_pos[of b] b by (auto simp: valid_ib_def)
  ultimately show ?thesis using e(2) by (intro exI[of _ e]) (auto simp: fun_eq_iff)
qed

lemma data_read:
  assumes "ok d" "ds \<le> c" "c < n" and data_start: "1 \<le> ds" "ds \<le> n" shows "dread dk dev c d = Some (OK, dat_of ds d c)" "length (dat_of ds d c) = 512"
  using read_sector[of d c] length_sector[of d c] assms data_start by (simp_all add: dat_def)

lemma data_write:
  assumes "ok d" "ds \<le> c" "c < n" "length bs = 512" and data_start: "1 \<le> ds" "ds \<le> n"
  shows "\<exists>e. dwrite dk dev bs c d = Some (OK, e) \<and> ok e \<and> dat_of ds e = (dat_of ds d)(c := bs) \<and> ib_of ds e = ib_of ds d \<and> content e 0 = content d 0"
proof -
  have c0: "0 \<le> c" using assms data_start by simp
  obtain e where e: "dwrite dk dev bs c d = Some (OK, e)" "ok e" "\<forall>x. 0 \<le> x \<and> x < n \<longrightarrow> content e x = (if x = c then bs else content d x)"
    using write_sector[OF assms(1) c0 assms(3,4)] by blast
  have "dat_of ds e x = ((dat_of ds d)(c := bs)) x" for x using e(3) assms data_start by (auto simp: dat_def)
  moreover have "ib_of ds e x = ib_of ds d x" for x
  proof (cases "0 \<le> x \<and> ib2sect x < ds")
    case True
    then have "content e (ib2sect x) = content d (ib2sect x)" using e(3) ib2sect_pos[of x] data_start assms(2) by auto
    then show ?thesis by (simp add: ibs_def)
  qed (auto simp: ibs_def)
  moreover have "content e 0 = content d 0" using e(3) assms(2,3) data_start by auto
  ultimately show ?thesis using e(1,2) by (intro exI[of _ e]) (auto simp: fun_eq_iff)
qed

lemma dir_write:
  assumes "ok d" "length bs = 512" and data_start: "1 \<le> ds" "ds \<le> n"
  shows "\<exists>e. dwrite dk dev bs LF_AREA_DIR d = Some (OK, e) \<and> ok e \<and> dat_of ds e = dat_of ds d \<and> ib_of ds e = ib_of ds d \<and> content e 0 = bs"
proof -
  have n: "(0::int) < n" using data_start by simp
  obtain e where e: "dwrite dk dev bs 0 d = Some (OK, e)" "ok e" "\<forall>x. 0 \<le> x \<and> x < n \<longrightarrow> content e x = (if x = 0 then bs else content d x)"
    using write_sector[OF assms(1) _ n assms(2)] by blast
  have "dat_of ds e x = dat_of ds d x" for x using e(3) data_start by (auto simp: dat_def)
  moreover have "ib_of ds e x = ib_of ds d x" for x
  proof (cases "0 \<le> x \<and> ib2sect x < ds")
    case True
    then have "content e (ib2sect x) = content d (ib2sect x)" using e(3) ib2sect_pos[of x] data_start by auto
    then show ?thesis by (simp add: ibs_def)
  qed (auto simp: ibs_def)
  moreover have "content e 0 = bs" using e(3) n by auto
  ultimately show ?thesis using e(1,2) by (intro exI[of _ e]) (auto simp: fun_eq_iff LF_AREA_DIR_def)
qed

end

interpretation ram_fs: lfs_disk ram_driver RAM0 RM_BLKS ram_sector "\<lambda>_. True"
  by unfold_locales (simp add: RM_BLKS_def)

end
