(* ===== verification/Lfs_Rep.thy ===== *)
theory Lfs_Rep
  imports Lfs_Disk
begin

text \<open>
  What an open file of the local file system contains. lfs_rep relates the state to the lists of the
  file's index blocks and data blocks, the two free lists and the file's bytes. The blocks in memory
  count as part of the disk until they are written.
\<close>

section \<open>The representation\<close>

text \<open>The index block number j of a file with index blocks ns and data blocks db.\<close>

definition ibl :: "int list \<Rightarrow> int list \<Rightarrow> nat \<Rightarrow> lfiblk" where
  "ibl ns db j = \<lparr>ib_next = (if j + 1 < length ns then ns ! (j + 1) else LF_INULL), ib_offset = 8192 * int j,
     ib_dba = map (\<lambda>k. if 16 * j + k < length db then db ! (16 * j + k) else LF_DNULL) [0..<LF_IBLEN]\<rparr>"

primrec links :: "(int \<Rightarrow> int) \<Rightarrow> int \<Rightarrow> int list \<Rightarrow> bool" where
  "links nxt a [] \<longleftrightarrow> a = -1"
| "links nxt a (b # bs) \<longleftrightarrow> a = b \<and> links nxt (nxt b) bs"

definition next_db :: "(int \<Rightarrow> int list) \<Rightarrow> int \<Rightarrow> int" where
  "next_db da c = i32 (rd32 (da c) 0)"

definition fits :: "int \<Rightarrow> int \<Rightarrow> int list \<Rightarrow> int list \<Rightarrow> int list \<Rightarrow> int list \<Rightarrow> bool" where
  "fits n ds ns db fi fd \<longleftrightarrow> 1 \<le> ds \<and> ds \<le> n \<and> distinct (ns @ fi) \<and> (\<forall>b \<in> set ns \<union> set fi. valid_ib ds b) \<and>
     distinct (db @ fd) \<and> (\<forall>c \<in> set db \<union> set fd. ds \<le> c \<and> c < n) \<and> length db \<le> 16 * length ns \<and> 16 * length ns \<le> length db + 16"

definition free_ok :: "(int \<Rightarrow> lfiblk) \<Rightarrow> (int \<Rightarrow> int list) \<Rightarrow> lfdir \<Rightarrow> int list \<Rightarrow> int list \<Rightarrow> bool" where
  "free_ok ib da dir fi fd \<longleftrightarrow> links (\<lambda>b. ib_next (ib b)) (lfd_ifree dir) fi \<and> links (next_db da) (lfd_dfree dir) fd"

definition index_ok :: "(int \<Rightarrow> lfiblk) \<Rightarrow> lflcblk \<Rightarrow> int list \<Rightarrow> int list \<Rightarrow> bool" where
  "index_ok ib f ns db \<longleftrightarrow> (lfinum f = LF_INULL \<and> \<not> lfibdirty f \<or> lfinum f \<in> set ns) \<and>
     (\<forall>j < length ns. (if lfinum f = ns ! j then lfiblock f else ib (ns ! j)) = ibl ns db j) \<and>
     (\<not> lfibdirty f \<longrightarrow> (\<forall>j < length ns. ib (ns ! j) = ibl ns db j))"

definition data_ok :: "(int \<Rightarrow> int list) \<Rightarrow> lflcblk \<Rightarrow> int list \<Rightarrow> int list \<Rightarrow> bool" where
  "data_ok da f db xs \<longleftrightarrow> (lfdnum f = LF_DNULL \<and> \<not> lfdbdirty f \<or> lfdnum f \<in> set db) \<and> length (lfdblock f) = 512 \<and>
     length xs \<le> 512 * length db \<and> (\<forall>x \<in> set xs. 0 \<le> x \<and> x < 256) \<and>
     (\<forall>q < length xs. xs ! q = (if lfdnum f = db ! (q div 512) then lfdblock f else da (db ! (q div 512))) ! (q mod 512)) \<and>
     (\<not> lfdbdirty f \<longrightarrow> (\<forall>q < length xs. xs ! q = da (db ! (q div 512)) ! (q mod 512)))"

definition first_ib :: "int list \<Rightarrow> int" where
  "first_ib ns = (case ns of [] \<Rightarrow> LF_INULL | b # _ \<Rightarrow> b)"

definition entry_ok :: "int \<Rightarrow> int list \<Rightarrow> int list \<Rightarrow> 'd lfst \<Rightarrow> bool" where
  "entry_ok i ns xs s \<longleftrightarrow> wf_dir (the_dir s) \<and> (\<exists>e. dirent i s = Some e \<and> ld_size e = int (length xs) \<and> ld_ilist e = first_ib ns)"

definition lfs_rep :: "('d \<Rightarrow> int \<Rightarrow> int list) \<Rightarrow> int \<Rightarrow> int \<Rightarrow> ('d \<Rightarrow> bool) \<Rightarrow> int \<Rightarrow> int \<Rightarrow> int list \<Rightarrow> int list \<Rightarrow>
    int list \<Rightarrow> int list \<Rightarrow> int list \<Rightarrow> 'd lfst \<Rightarrow> bool" where
  "lfs_rep content n dev ok ds i ns db fi fd xs s \<longleftrightarrow>
     ok (ldisk s) \<and> lf_dskdev (Lf_data s) = dev \<and> length (lf_rubbish s) = 508 \<and> lfstate (lfltab s i) = LF_USED \<and>
     fits n ds ns db fi fd \<and> entry_ok i ns xs s \<and>
     free_ok (ibs content ds (ldisk s)) (dat content ds n (ldisk s)) (the_dir s) fi fd \<and>
     index_ok (ibs content ds (ldisk s)) (lfltab s i) ns db \<and> data_ok (dat content ds n (ldisk s)) (lfltab s i) db xs"

text \<open>What a step on file i leaves alone: the kernel, the other files and everything on disk that is
  neither the file's nor free.\<close>

definition stays :: "int \<Rightarrow> 'd lfst \<Rightarrow> 'd lfst \<Rightarrow> bool" where
  "stays i s t \<longleftrightarrow> lkern t = lkern s \<and> lf_rubbish t = lf_rubbish s \<and> lf_dskdev (Lf_data t) = lf_dskdev (Lf_data s) \<and>
     lf_mutex (Lf_data t) = lf_mutex (Lf_data s) \<and> lf_dirpresent (Lf_data t) = lf_dirpresent (Lf_data s) \<and>
     lfd_nfiles (the_dir t) = lfd_nfiles (the_dir s) \<and> length (lfd_files (the_dir t)) = length (lfd_files (the_dir s)) \<and>
     (\<forall>k. lfdirptr (lfltab s i) \<noteq> Some k \<longrightarrow> lfd_files (the_dir t) ! k = lfd_files (the_dir s) ! k) \<and>
     (\<forall>k. ld_name (lfd_files (the_dir t) ! k) = ld_name (lfd_files (the_dir s) ! k)) \<and>
     (\<forall>j. j \<noteq> i \<longrightarrow> lfltab t j = lfltab s j) \<and> lfdev (lfltab t i) = lfdev (lfltab s i) \<and> lfmutex (lfltab t i) = lfmutex (lfltab s i) \<and>
     lfdirptr (lfltab t i) = lfdirptr (lfltab s i) \<and> lfmode (lfltab t i) = lfmode (lfltab s i) \<and> lfname (lfltab t i) = lfname (lfltab s i)"

definition frame :: "('d \<Rightarrow> int \<Rightarrow> int list) \<Rightarrow> int \<Rightarrow> int \<Rightarrow> int \<Rightarrow> int set \<Rightarrow> int set \<Rightarrow> 'd lfst \<Rightarrow> 'd lfst \<Rightarrow> bool" where
  "frame content n ds i I D s t \<longleftrightarrow> stays i s t \<and> (\<forall>b. b \<notin> I \<longrightarrow> ibs content ds (ldisk t) b = ibs content ds (ldisk s) b) \<and>
     (\<forall>c. c \<notin> D \<longrightarrow> dat content ds n (ldisk t) c = dat content ds n (ldisk s) c)"

lemma stays_refl: "stays i s s"
  by (simp add: stays_def)

lemma stays_trans: "stays i s t \<Longrightarrow> stays i t u \<Longrightarrow> stays i s u"
  by (auto simp: stays_def)

lemma frame_refl: "frame content n ds i I D s s"
  by (simp add: frame_def stays_refl)

lemma frame_trans: "frame content n ds i I D s t \<Longrightarrow> frame content n ds i I D t u \<Longrightarrow> frame content n ds i I D s u"
  by (auto simp: frame_def intro: stays_trans)

section \<open>Small facts\<close>

lemma links_cong: "(\<And>b. b \<in> set bs \<Longrightarrow> f b = g b) \<Longrightarrow> links f a bs = links g a bs"
  by (induction bs arbitrary: a) auto

lemma links_first: "links f a (b # bs) \<Longrightarrow> a = b \<and> links f (f b) bs"
  by simp

lemma upd_lfl_simps [simp]:
  "lkern (upd_lfl i f s) = lkern s" "Lf_data (upd_lfl i f s) = Lf_data s" "ldisk (upd_lfl i f s) = ldisk s"
  "lf_rubbish (upd_lfl i f s) = lf_rubbish s" "lfltab (upd_lfl i f s) j = (if j = i then f (lfltab s i) else lfltab s j)"
  "the_dir (upd_lfl i f s) = the_dir s"
  by (simp_all add: upd_lfl_def the_dir_def)

lemma upd_lfl_cong: "f (lfltab s i) = g (lfltab s i) \<Longrightarrow> upd_lfl i f s = upd_lfl i g s"
  by (simp add: upd_lfl_def)

lemma upd_lfd_simps [simp]:
  "lkern (upd_lfd f s) = lkern s" "Lf_data (upd_lfd f s) = f (Lf_data s)" "ldisk (upd_lfd f s) = ldisk s"
  "lf_rubbish (upd_lfd f s) = lf_rubbish s" "lfltab (upd_lfd f s) = lfltab s"
  by (simp_all add: upd_lfd_def)

lemma upd_dir_simps [simp]:
  "lkern (upd_dir f s) = lkern s" "ldisk (upd_dir f s) = ldisk s" "lf_rubbish (upd_dir f s) = lf_rubbish s"
  "lfltab (upd_dir f s) = lfltab s" "the_dir (upd_dir f s) = f (the_dir s)"
  "lf_dskdev (Lf_data (upd_dir f s)) = lf_dskdev (Lf_data s)" "lf_mutex (Lf_data (upd_dir f s)) = lf_mutex (Lf_data s)"
  "lf_dirpresent (Lf_data (upd_dir f s)) = lf_dirpresent (Lf_data s)" "lf_dirdirty (Lf_data (upd_dir f s)) = lf_dirdirty (Lf_data s)"
  by (simp_all add: upd_dir_def the_dir_def)

lemma the_dir_ldisk [simp]: "the_dir (s\<lparr>ldisk := e\<rparr>) = the_dir s" "the_dir (s\<lparr>lkern := k\<rparr>) = the_dir s"
  by (simp_all add: the_dir_def)

lemma the_dir_dirdirty [simp]: "the_dir (upd_lfd (\<lambda>g. g\<lparr>lf_dirdirty := b\<rparr>) s) = the_dir s"
  by (simp add: the_dir_def upd_lfd_def)

lemma dirent_cong: "lfdirptr (lfltab t i) = lfdirptr (lfltab s i) \<Longrightarrow> lfd_files (the_dir t) = lfd_files (the_dir s) \<Longrightarrow> dirent i t = dirent i s"
  by (simp add: dirent_def)

lemma entry_ok_cong:
  "lfdirptr (lfltab t i) = lfdirptr (lfltab s i) \<Longrightarrow> lfd_files (the_dir t) = lfd_files (the_dir s) \<Longrightarrow>
   lfd_padding (the_dir t) = lfd_padding (the_dir s) \<Longrightarrow> entry_ok i ns xs t = entry_ok i ns xs s"
  by (simp add: entry_ok_def dirent_cong[of t i s] wf_dir_def)

text \<open>Changing a file's entry.\<close>

lemma upd_dirent_ok:
  assumes "entry_ok i ns xs s" "dirent i s = Some e"
    "\<And>x. ld_name (f x) = ld_name x"
  shows "\<exists>t. upd_dirent i f s = Some t \<and> wf_dir (the_dir t) \<and> dirent i t = Some (f e) \<and> stays i s t \<and> lfltab t = lfltab s \<and> ldisk t = ldisk s \<and>
    lfd_ifree (the_dir t) = lfd_ifree (the_dir s) \<and> lfd_dfree (the_dir t) = lfd_dfree (the_dir s) \<and> lf_dirdirty (Lf_data t) = lf_dirdirty (Lf_data s)"
proof -
  obtain k where k: "lfdirptr (lfltab s i) = Some k" "elem_at (lfd_files (the_dir s)) k = Some e"
    using assms(2) by (auto simp: dirent_def split: bind_splits)
  then have kl: "k < length (lfd_files (the_dir s))" "lfd_files (the_dir s) ! k = e" by (auto simp: elem_at_def split: if_splits)
  let ?t = "upd_dir (\<lambda>d. d\<lparr>lfd_files := (lfd_files d)[k := f e]\<rparr>) s"
  have w: "wf_dir (the_dir s)" using assms(1) by (simp add: entry_ok_def)
  have "upd_dirent i f s = Some ?t" using k by (simp add: upd_dirent_def)
  moreover have "wf_dir (the_dir ?t)"
    using w kl assms(3) nth_mem[OF kl(1)] by (auto simp: wf_dir_def dest: subsetD[OF set_update_subset_insert])
  moreover have "dirent i ?t = Some (f e)" using k(1) kl by (simp add: dirent_def elem_at_def)
  moreover have "stays i s ?t"
    using k(1) kl assms(3) by (auto simp: stays_def nth_list_update)
  ultimately show ?thesis by (intro exI[of _ ?t]) simp
qed

lemma fits_pos: "fits n ds ns db fi fd \<Longrightarrow> b \<in> set ns \<union> set fi \<Longrightarrow> 0 \<le> b"
  by (auto simp: fits_def valid_ib_def)

lemma fits_len:
  assumes "fits n ds ns db fi fd" shows "int (length db) \<le> n"
proof -
  have "0 \<le> c \<and> c < n" if "c \<in> set db" for c
  proof -
    have "1 \<le> ds" "ds \<le> c" "c < n" using assms that by (simp_all add: fits_def)
    then show ?thesis by simp
  qed
  then have "set db \<subseteq> {0..<n}" by auto
  moreover have "distinct db" using assms by (simp add: fits_def)
  ultimately have "length db \<le> nat n" by (rule distinct_le_card[rotated])
  moreover have "1 \<le> ds" "ds \<le> n" using assms by (simp_all add: fits_def)
  ultimately show ?thesis by linarith
qed

lemma ib_bound: "valid_ib ds b \<Longrightarrow> ds \<le> 4194304 \<Longrightarrow> b \<le> INT_MAX"
  unfolding valid_ib_def ib2sect_def LF_AREA_IB_def by linarith

lemma wf_ibl:
  assumes f: "fits n ds ns db fi fd" and n: "n \<le> 4194304" and j: "j < length ns"
  shows "wf_iblk (ibl ns db j)"
proof -
  have ds: "ds \<le> 4194304" using f n by (simp add: fits_def)
  have "16 * j \<le> length db" using f j by (auto simp: fits_def)
  then have "8192 * int j \<le> 512 * n" using fits_len[OF f] by linarith
  then have "8192 * int j < 4294967296" using n by linarith
  moreover have "j + 1 < length ns \<Longrightarrow> 0 \<le> ns ! (j + 1) \<and> ns ! (j + 1) \<le> INT_MAX"
    using f ib_bound[OF _ ds, of "ns ! (j + 1)"] nth_mem[of "j + 1" ns] by (simp add: fits_def valid_ib_def)
  moreover have "\<And>k. k < length db \<Longrightarrow> INT_MIN \<le> db ! k \<and> db ! k \<le> INT_MAX"
  proof -
    fix k assume "k < length db"
    then have "db ! k \<in> set db" by simp
    then have "1 \<le> ds" "ds \<le> db ! k" "db ! k < n" using f by (simp_all add: fits_def)
    then show "INT_MIN \<le> db ! k \<and> db ! k \<le> INT_MAX" using n by simp
  qed
  ultimately show ?thesis by (auto simp: wf_iblk_def ibl_def LF_INULL_def LF_DNULL_def)
qed

end
