(* ===== verification/Lfs_Setup.thy ===== *)
theory Lfs_Setup
  imports Lfs_Rep
begin

text \<open>
  lfflush, the two allocations and lfsetup: they keep the representation and, at the end of lfsetup,
  the block at the file position is in memory.
\<close>

section \<open>Positions\<close>

lemma and_not_mask: "and (int p) (not LF_IMASK) = 8192 * (int p div 8192)"
proof -
  have "LF_IMASK = mask 13" by (simp add: LF_IMASK_def mask_eq_exp_minus_1)
  moreover have "and (int p) (not (mask 13)) = push_bit 13 (drop_bit 13 (int p))"
    by (rule bit_eqI) (auto simp: bit_simps)
  ultimately show ?thesis by (simp add: push_bit_eq_mult drop_bit_eq_div)
qed

lemma block_index: "nat (drop_bit 9 (and (int p) LF_IMASK)) = p div 512 mod 16"
proof -
  have m: "LF_IMASK = mask 13" by (simp add: LF_IMASK_def mask_eq_exp_minus_1)
  have "drop_bit 9 (and (int p) LF_IMASK) = int p mod 8192 div 512"
    unfolding m take_bit_eq_mask[symmetric] take_bit_eq_mod drop_bit_eq_div by simp
  also have "\<dots> = int (p mod 8192 div 512)" by (simp add: zmod_int zdiv_int)
  finally show ?thesis using mod_mult2_eq[of p 512 16] by simp
qed

lemma byte_index: "nat (and (int p) LF_DMASK) = p mod 512"
proof -
  have m: "LF_DMASK = mask 9" by (simp add: LF_DMASK_def mask_eq_exp_minus_1)
  show ?thesis unfolding m take_bit_eq_mask[symmetric] take_bit_eq_mod by (simp add: nat_mod_distrib)
qed

section \<open>Writing back\<close>

lemma data_ok_write:
  assumes "data_ok da f db xs" shows "data_ok (da(lfdnum f := lfdblock f)) (f\<lparr>lfdbdirty := False\<rparr>) db xs"
  using assms by (auto simp: data_ok_def)

lemma data_okI:
  assumes "lfdnum f = LF_DNULL \<and> \<not> lfdbdirty f \<or> lfdnum f \<in> set db" "length (lfdblock f) = 512"
    "length xs \<le> 512 * length db" "\<forall>x \<in> set xs. 0 \<le> x \<and> x < 256"
    "\<forall>q < length xs. xs ! q = (if lfdnum f = db ! (q div 512) then lfdblock f else da (db ! (q div 512))) ! (q mod 512)"
    "\<not> lfdbdirty f \<longrightarrow> (\<forall>q < length xs. xs ! q = da (db ! (q div 512)) ! (q mod 512))"
  shows "data_ok da f db xs"
  using assms unfolding data_ok_def by blast

lemma data_ok_drop:
  assumes "data_ok da f db xs" "\<not> lfdbdirty f" "LF_DNULL \<notin> set db"
  shows "data_ok da (f\<lparr>lfdnum := LF_DNULL\<rparr>) db xs"
proof -
  have "LF_DNULL \<noteq> db ! (q div 512)" if "q < length xs" for q
  proof
    assume e: "LF_DNULL = db ! (q div 512)"
    have "length xs \<le> 512 * length db" using assms(1) by (simp add: data_ok_def)
    then have "q div 512 < length db" using that by (simp add: less_mult_imp_div_less mult.commute)
    then show False using e assms(3) nth_mem by metis
  qed
  note ne = this
  have d: "\<forall>q < length xs. xs ! q = da (db ! (q div 512)) ! (q mod 512)" using assms(1,2) unfolding data_ok_def by blast
  have l: "length (lfdblock f) = 512" "length xs \<le> 512 * length db" "\<forall>x \<in> set xs. 0 \<le> x \<and> x < 256"
    using assms(1) by (simp_all add: data_ok_def)
  show ?thesis
  proof (rule data_okI)
    show "\<forall>q < length xs. xs ! q = (if lfdnum (f\<lparr>lfdnum := LF_DNULL\<rparr>) = db ! (q div 512) then lfdblock (f\<lparr>lfdnum := LF_DNULL\<rparr>)
        else da (db ! (q div 512))) ! (q mod 512)"
    proof (intro allI impI)
      fix q assume q: "q < length xs"
      show "xs ! q = (if lfdnum (f\<lparr>lfdnum := LF_DNULL\<rparr>) = db ! (q div 512) then lfdblock (f\<lparr>lfdnum := LF_DNULL\<rparr>)
        else da (db ! (q div 512))) ! (q mod 512)" using ne[OF q] d[rule_format, OF q] by simp
    qed
  qed (use l d assms(2) in \<open>simp_all\<close>)
qed

lemma index_ok_write:
  assumes "index_ok ib f ns db" "lfinum f \<in> set ns" shows "index_ok (ib(lfinum f := lfiblock f)) (f\<lparr>lfibdirty := False\<rparr>) ns db"
  using assms by (auto simp: index_ok_def)

lemma index_ok_other [simp]:
  "index_ok ib (f\<lparr>lfdbdirty := b\<rparr>) ns db = index_ok ib f ns db" "index_ok ib (f\<lparr>lfdnum := d\<rparr>) ns db = index_ok ib f ns db"
  "index_ok ib (f\<lparr>lfdblock := bs\<rparr>) ns db = index_ok ib f ns db" "index_ok ib (f\<lparr>lfbyte := y\<rparr>) ns db = index_ok ib f ns db"
  "index_ok ib (f\<lparr>lfpos := p\<rparr>) ns db = index_ok ib f ns db"
  by (simp_all add: index_ok_def)

lemma data_ok_other [simp]:
  "data_ok da (f\<lparr>lfibdirty := b\<rparr>) db xs = data_ok da f db xs" "data_ok da (f\<lparr>lfinum := c\<rparr>) db xs = data_ok da f db xs"
  "data_ok da (f\<lparr>lfiblock := x\<rparr>) db xs = data_ok da f db xs" "data_ok da (f\<lparr>lfbyte := y\<rparr>) db xs = data_ok da f db xs"
  "data_ok da (f\<lparr>lfpos := p\<rparr>) db xs = data_ok da f db xs"
  by (simp_all add: data_ok_def)

lemma data_ok_cong: "lfdnum f = lfdnum g \<Longrightarrow> lfdblock f = lfdblock g \<Longrightarrow> lfdbdirty f = lfdbdirty g \<Longrightarrow> data_ok da f db xs = data_ok da g db xs"
  unfolding data_ok_def by presburger

lemma index_ok_cong: "lfinum f = lfinum g \<Longrightarrow> lfiblock f = lfiblock g \<Longrightarrow> lfibdirty f = lfibdirty g \<Longrightarrow> index_ok ib f ns db = index_ok ib g ns db"
  unfolding index_ok_def by presburger

lemma free_ok_data:
  "c \<notin> set fd \<Longrightarrow> free_ok ib (da(c := bs)) dir fi fd = free_ok ib da dir fi fd"
  unfolding free_ok_def by (subst links_cong[of fd "next_db (da(c := bs))" "next_db da"]) (auto simp: next_db_def)

lemma free_ok_index:
  "b \<notin> set fi \<Longrightarrow> free_ok (ib(b := x)) da dir fi fd = free_ok ib da dir fi fd"
  unfolding free_ok_def by (subst links_cong[of fi "\<lambda>b'. ib_next ((ib(b := x)) b')" "\<lambda>b. ib_next (ib b)"]) auto

context lfs_disk
begin

abbreviation "rep \<equiv> lfs_rep content n dev ok"
abbreviation "framed \<equiv> frame content n"

lemma rep_geometry: "rep ds i ns db fi fd xs s \<Longrightarrow> 1 \<le> ds \<and> ds \<le> n \<and> ok (ldisk s) \<and> lf_dskdev (Lf_data s) = dev \<and> wf_dir (the_dir s)"
  by (simp add: lfs_rep_def fits_def entry_ok_def)

lemma write_dir_ok:
  assumes "ok (ldisk s)" "lf_dskdev (Lf_data s) = dev" "wf_dir (the_dir s)" "1 \<le> ds" "ds \<le> n"
  shows "\<exists>e. lf_write_dir dk s = Some (s\<lparr>ldisk := e\<rparr>) \<and> ok e \<and> ib_of ds e = ib_of ds (ldisk s) \<and> dat_of ds e = dat_of ds (ldisk s) \<and>
    content e 0 = enc_dir (the_dir s)"
  using dir_write[OF assms(1) length_enc_dir[OF assms(3)] assms(4,5)] assms(2)
  by (auto simp: lf_write_dir_def lf_write_def)

lemma clean_dir_ok:
  assumes "ok (ldisk s)" "lf_dskdev (Lf_data s) = dev" "wf_dir (the_dir s)" "1 \<le> ds" "ds \<le> n"
  shows "\<exists>e. lf_clean_dir dk s = Some (upd_lfd (\<lambda>g. g\<lparr>lf_dirdirty := False\<rparr>) (s\<lparr>ldisk := e\<rparr>)) \<and> ok e \<and>
    ib_of ds e = ib_of ds (ldisk s) \<and> dat_of ds e = dat_of ds (ldisk s) \<and> content e 0 = enc_dir (the_dir s)"
  using write_dir_ok[OF assms] by (auto simp: lf_clean_dir_def)

lemma flush_dir:
  assumes r: "rep ds i ns db fi fd xs s"
  shows "\<exists>t. (if lf_dirdirty (Lf_data s) then lf_clean_dir dk s else Some s) = Some t \<and> rep ds i ns db fi fd xs t \<and>
    framed ds i I D s t \<and> lfltab t = lfltab s \<and> the_dir t = the_dir s \<and>
    (lf_dirdirty (Lf_data s) \<longrightarrow> content (ldisk t) 0 = enc_dir (the_dir s))"
proof (cases "lf_dirdirty (Lf_data s)")
  case True
  note g = rep_geometry[OF r]
  obtain e where e: "lf_clean_dir dk s = Some (upd_lfd (\<lambda>g. g\<lparr>lf_dirdirty := False\<rparr>) (s\<lparr>ldisk := e\<rparr>))" "ok e"
    "ib_of ds e = ib_of ds (ldisk s)" "dat_of ds e = dat_of ds (ldisk s)" "content e 0 = enc_dir (the_dir s)"
    using clean_dir_ok[of s ds] g by blast
  let ?t = "upd_lfd (\<lambda>g. g\<lparr>lf_dirdirty := False\<rparr>) (s\<lparr>ldisk := e\<rparr>)"
  have "entry_ok i ns xs ?t = entry_ok i ns xs s" by (rule entry_ok_cong) simp_all
  then have "rep ds i ns db fi fd xs ?t" using r e by (simp add: lfs_rep_def)
  moreover have "framed ds i I D s ?t" using e(3,4) by (simp add: frame_def stays_def)
  ultimately show ?thesis using e(1,5) True by auto
next
  case False
  then show ?thesis using r frame_refl by auto
qed

lemma flush_data:
  assumes r: "rep ds i ns db fi fd xs s"
  shows "\<exists>t. (if lfdbdirty (lfltab s i) then do {
               (_, s) \<leftarrow> lf_write dk (lfdblock (lfltab s i)) (lfdnum (lfltab s i)) s;
               Some (upd_lfl i (\<lambda>f. f\<lparr>lfdbdirty := False\<rparr>) s) } else Some s) = Some t \<and> rep ds i ns db fi fd xs t \<and>
    framed ds i (set ns \<union> set fi) (set db \<union> set fd) s t \<and> lfltab t i = (lfltab s i)\<lparr>lfdbdirty := False\<rparr> \<and>
    the_dir t = the_dir s \<and> content (ldisk t) 0 = content (ldisk s) 0"
proof (cases "lfdbdirty (lfltab s i)")
  case True
  let ?f = "lfltab s i"
  note g = rep_geometry[OF r]
  have c: "lfdnum ?f \<in> set db" "length (lfdblock ?f) = 512" using r True by (auto simp: lfs_rep_def data_ok_def)
  then have cb: "ds \<le> lfdnum ?f" "lfdnum ?f < n" "lfdnum ?f \<notin> set fd" using r by (auto simp: lfs_rep_def fits_def)
  obtain e where e: "dwrite dk dev (lfdblock ?f) (lfdnum ?f) (ldisk s) = Some (OK, e)" "ok e"
    "dat_of ds e = (dat_of ds (ldisk s))(lfdnum ?f := lfdblock ?f)" "ib_of ds e = ib_of ds (ldisk s)" "content e 0 = content (ldisk s) 0"
    using data_write[OF _ cb(1,2) c(2)] g by blast
  let ?t = "upd_lfl i (\<lambda>f. f\<lparr>lfdbdirty := False\<rparr>) (s\<lparr>ldisk := e\<rparr>)"
  have "entry_ok i ns xs ?t = entry_ok i ns xs s" by (rule entry_ok_cong) simp_all
  moreover have "data_ok (dat_of ds e) ((lfltab s i)\<lparr>lfdbdirty := False\<rparr>) db xs"
    unfolding e(3) by (rule data_ok_write) (use r in \<open>simp add: lfs_rep_def\<close>)
  ultimately have "rep ds i ns db fi fd xs ?t" using r e(2-4) cb(3) by (simp add: lfs_rep_def free_ok_data)
  moreover have "framed ds i (set ns \<union> set fi) (set db \<union> set fd) s ?t" using e(3,4) c(1) by (auto simp: frame_def stays_def)
  ultimately show ?thesis using e(1,5) g True by (auto simp: lf_write_def)
next
  case False
  then show ?thesis using r frame_refl by auto
qed

lemma ibput_ok:
  assumes "ok (ldisk s)" "lf_dskdev (Lf_data s) = dev" "valid_ib ds b" "wf_iblk ib" "1 \<le> ds" "ds \<le> n"
  shows "\<exists>e. lf_ibput dk b ib s = Some (s\<lparr>ldisk := e\<rparr>) \<and> ok e \<and> ib_of ds e = (ib_of ds (ldisk s))(b := ib) \<and> dat_of ds e = dat_of ds (ldisk s) \<and>
    content e 0 = content (ldisk s) 0"
  using lfibput_ok[OF assms(1,3,4,5,6)] assms(2) by (auto simp: lf_ibput_def)

lemma flush_index:
  assumes r: "rep ds i ns db fi fd xs s"
  shows "\<exists>t. (if lfibdirty (lfltab s i) then do {
               s \<leftarrow> lf_ibput dk (lfinum (lfltab s i)) (lfiblock (lfltab s i)) s;
               Some (upd_lfl i (\<lambda>f. f\<lparr>lfibdirty := False\<rparr>) s) } else Some s) = Some t \<and> rep ds i ns db fi fd xs t \<and>
    framed ds i (set ns \<union> set fi) (set db \<union> set fd) s t \<and> lfltab t i = (lfltab s i)\<lparr>lfibdirty := False\<rparr> \<and>
    the_dir t = the_dir s \<and> content (ldisk t) 0 = content (ldisk s) 0"
proof (cases "lfibdirty (lfltab s i)")
  case True
  let ?f = "lfltab s i"
  note g = rep_geometry[OF r]
  have f: "fits n ds ns db fi fd" "index_ok (ib_of ds (ldisk s)) ?f ns db" using r by (simp_all add: lfs_rep_def)
  have c: "lfinum ?f \<in> set ns" using f(2) True by (auto simp: index_ok_def)
  then obtain j where j: "j < length ns" "ns ! j = lfinum ?f" by (auto simp: in_set_conv_nth)
  then have "lfiblock ?f = ibl ns db j" using f(2) by (auto simp: index_ok_def)
  then have w: "wf_iblk (lfiblock ?f)" using wf_ibl[OF f(1) size32 j(1)] by simp
  have v: "valid_ib ds (lfinum ?f)" "lfinum ?f \<notin> set fi" using f(1) c by (auto simp: fits_def)
  obtain e where e: "lf_ibput dk (lfinum ?f) (lfiblock ?f) s = Some (s\<lparr>ldisk := e\<rparr>)" "ok e"
    "ib_of ds e = (ib_of ds (ldisk s))(lfinum ?f := lfiblock ?f)" "dat_of ds e = dat_of ds (ldisk s)" "content e 0 = content (ldisk s) 0"
    using ibput_ok[OF _ _ v(1) w] g by blast
  let ?t = "upd_lfl i (\<lambda>f. f\<lparr>lfibdirty := False\<rparr>) (s\<lparr>ldisk := e\<rparr>)"
  have "entry_ok i ns xs ?t = entry_ok i ns xs s" by (rule entry_ok_cong) simp_all
  moreover have "index_ok (ib_of ds e) (?f\<lparr>lfibdirty := False\<rparr>) ns db"
    unfolding e(3) by (rule index_ok_write[OF f(2) c])
  ultimately have "rep ds i ns db fi fd xs ?t" using r e(2-4) v(2) by (simp add: lfs_rep_def free_ok_index)
  moreover have "framed ds i (set ns \<union> set fi) (set db \<union> set fd) s ?t" using e(3,4) c(1) by (auto simp: frame_def stays_def)
  ultimately show ?thesis using e(1,5) True by auto
next
  case False
  then show ?thesis using r frame_refl by auto
qed

lemma flush_ok:
  assumes r: "rep ds i ns db fi fd xs s"
  shows "\<exists>t. lfflush dk i s = Some (OK, t) \<and> rep ds i ns db fi fd xs t \<and>
    framed ds i (set ns \<union> set fi) (set db \<union> set fd) s t \<and> lfltab t i = (lfltab s i)\<lparr>lfdbdirty := False, lfibdirty := False\<rparr> \<and>
    the_dir t = the_dir s \<and> (lf_dirdirty (Lf_data s) \<longrightarrow> content (ldisk t) 0 = enc_dir (the_dir s))"
proof -
  let ?I = "set ns \<union> set fi" and ?D = "set db \<union> set fd"
  obtain t where t: "(if lf_dirdirty (Lf_data s) then lf_clean_dir dk s else Some s) = Some t" "rep ds i ns db fi fd xs t"
    "framed ds i ?I ?D s t" "lfltab t = lfltab s" "the_dir t = the_dir s" "lf_dirdirty (Lf_data s) \<longrightarrow> content (ldisk t) 0 = enc_dir (the_dir s)"
    using flush_dir[OF r] by blast
  obtain u where u: "(if lfdbdirty (lfltab t i) then do {
               (_, s) \<leftarrow> lf_write dk (lfdblock (lfltab t i)) (lfdnum (lfltab t i)) t;
               Some (upd_lfl i (\<lambda>f. f\<lparr>lfdbdirty := False\<rparr>) s) } else Some t) = Some u" "rep ds i ns db fi fd xs u"
    "framed ds i ?I ?D t u" "lfltab u i = (lfltab t i)\<lparr>lfdbdirty := False\<rparr>" "the_dir u = the_dir t" "content (ldisk u) 0 = content (ldisk t) 0"
    using flush_data[OF t(2)] by blast
  obtain v where v: "(if lfibdirty (lfltab u i) then do {
               s \<leftarrow> lf_ibput dk (lfinum (lfltab u i)) (lfiblock (lfltab u i)) u;
               Some (upd_lfl i (\<lambda>f. f\<lparr>lfibdirty := False\<rparr>) s) } else Some u) = Some v" "rep ds i ns db fi fd xs v"
    "framed ds i ?I ?D u v" "lfltab v i = (lfltab u i)\<lparr>lfibdirty := False\<rparr>" "the_dir v = the_dir u" "content (ldisk v) 0 = content (ldisk u) 0"
    using flush_index[OF u(2)] by blast
  have st: "lfstate (lfltab s i) \<noteq> LF_FREE" using r by (simp add: lfs_rep_def)
  have "lfflush dk i s = Some (OK, v)"
    unfolding lfflush_def using st t(1) u(1) v(1) by (simp del: if_split cong: if_cong)
  then show ?thesis using v t(4-6) u(4-6) frame_trans[OF frame_trans[OF t(3) u(3)] v(3)] by auto
qed

end

end
