(* ===== verification/Lfs_Position.thy ===== *)
theory Lfs_Position
  imports Lfs_Setup
begin

text \<open>
  lfsetup brings the block at the file position into memory: it finds or allocates the index block,
  then the data block.
\<close>

section \<open>The index blocks of a file that grows\<close>

lemma ibl_append:
  "j < length ns \<Longrightarrow> ibl (ns @ [b]) db j = (ibl ns db j)\<lparr>ib_next := (if j + 1 = length ns then b else ib_next (ibl ns db j))\<rparr>"
  by (auto simp: ibl_def nth_append)

lemma ibl_new: "length db \<le> 16 * length ns \<Longrightarrow> ibl (ns @ [b]) db (length ns) = (lfibclear (8192 * int (length ns)))\<lparr>ib_offset := 8192 * int (length ns)\<rparr>"
  by (simp add: ibl_def lfibclear_def map_replicate_trivial[symmetric] cong: map_cong)

lemma ibl_data:
  assumes "length db < 16 * length ns"
  shows "ibl ns (db @ [c]) j = (if j = length db div 16
    then (ibl ns db j)\<lparr>ib_dba := (ib_dba (ibl ns db j))[length db mod 16 := c]\<rparr> else ibl ns db j)"
proof -
  have "map (\<lambda>k. if 16 * j + k < length (db @ [c]) then (db @ [c]) ! (16 * j + k) else LF_DNULL) [0..<LF_IBLEN] =
    (if j = length db div 16 then (map (\<lambda>k. if 16 * j + k < length db then db ! (16 * j + k) else LF_DNULL) [0..<LF_IBLEN])[length db mod 16 := c]
     else map (\<lambda>k. if 16 * j + k < length db then db ! (16 * j + k) else LF_DNULL) [0..<LF_IBLEN])" (is "?l = ?r")
  proof (rule nth_equalityI)
    fix k assume "k < length ?l"
    then have k: "k < 16" by (simp add: LF_IBLEN_def)
    have e: "16 * j + k = length db \<longleftrightarrow> j = length db div 16 \<and> k = length db mod 16"
    proof
      assume a: "16 * j + k = length db"
      have "(16 * j + k) div 16 = j" "(16 * j + k) mod 16 = k" using k by simp_all
      then show "j = length db div 16 \<and> k = length db mod 16" using a by simp
    qed (metis mult_div_mod_eq)
    show "?l ! k = ?r ! k" using k e by (auto simp: LF_IBLEN_def nth_append nth_list_update)
  qed simp
  then show ?thesis by (auto simp: ibl_def)
qed

lemma index_cur: "index_ok ib f ns db \<Longrightarrow> j < length ns \<Longrightarrow> lfinum f = ns ! j \<Longrightarrow> lfiblock f = ibl ns db j"
  unfolding index_ok_def by presburger

lemma fits_db: "fits n ds ns db fi fd \<Longrightarrow> c \<in> set db \<union> set fd \<Longrightarrow> 1 \<le> ds \<and> ds \<le> c \<and> c < n"
  by (simp add: fits_def)

context lfs_disk
begin

section \<open>Allocation\<close>

lemma iballoc_ok:
  assumes r: "rep ds i ns db (b # fi) fd xs s"
  shows "\<exists>t. lfiballoc dk s = Some (b, t) \<and> lfltab t = lfltab s \<and> ok (ldisk t) \<and> ib_of ds (ldisk t) = ib_of ds (ldisk s) \<and>
    dat_of ds (ldisk t) = dat_of ds (ldisk s) \<and> the_dir t = (the_dir s)\<lparr>lfd_ifree := ib_next (ib_of ds (ldisk s) b)\<rparr> \<and> stays i s t"
proof -
  note g = rep_geometry[OF r]
  have v: "valid_ib ds b" "lfd_ifree (the_dir s) = b" using r by (auto simp: lfs_rep_def fits_def free_ok_def)
  then have b: "b \<noteq> LF_INULL" by (simp add: valid_ib_def LF_INULL_def)
  have get: "lf_ibget dk b s = Some (ib_of ds (ldisk s) b)" using lfibget_ok[OF _ v(1)] g by (simp add: lf_ibget_def)
  let ?s = "upd_dir (\<lambda>d. d\<lparr>lfd_ifree := ib_next (ib_of ds (ldisk s) b)\<rparr>) s"
  have w: "wf_dir (the_dir ?s)" using g by (simp add: wf_dir_def)
  obtain e where e: "lf_clean_dir dk ?s = Some (upd_lfd (\<lambda>g. g\<lparr>lf_dirdirty := False\<rparr>) (?s\<lparr>ldisk := e\<rparr>))" "ok e"
    "ib_of ds e = ib_of ds (ldisk s)" "dat_of ds e = dat_of ds (ldisk s)"
    using clean_dir_ok[OF _ _ w, of ds] g by auto
  let ?t = "upd_lfd (\<lambda>g. g\<lparr>lf_dirdirty := False\<rparr>) (?s\<lparr>ldisk := e\<rparr>)"
  have "lfiballoc dk s = Some (b, ?t)" using v(2) b get e(1) by (simp add: lfiballoc_def Let_def)
  moreover have "stays i s ?t" by (simp add: stays_def)
  ultimately show ?thesis using e(2-4) by (intro exI[of _ ?t]) simp
qed

lemma dballoc_ok:
  assumes r: "rep ds i ns db fi (c # fd) xs s"
  shows "\<exists>t. lfdballoc dk s = Some (c, replicate 512 DFILL, t) \<and> lfltab t = lfltab s \<and> ok (ldisk t) \<and> ib_of ds (ldisk t) = ib_of ds (ldisk s) \<and>
    dat_of ds (ldisk t) = dat_of ds (ldisk s) \<and> the_dir t = (the_dir s)\<lparr>lfd_dfree := next_db (dat_of ds (ldisk s)) c\<rparr> \<and> stays i s t"
proof -
  note g = rep_geometry[OF r]
  have v: "ds \<le> c" "c < n" "lfd_dfree (the_dir s) = c" using r by (auto simp: lfs_rep_def fits_def free_ok_def)
  then have c: "c \<noteq> LF_DNULL" using g by (simp add: LF_DNULL_def)
  have get: "dread dk dev c (ldisk s) = Some (OK, dat_of ds (ldisk s) c)" using data_read[OF _ v(1,2)] g by blast
  let ?s = "upd_dir (\<lambda>d. d\<lparr>lfd_dfree := next_db (dat_of ds (ldisk s)) c\<rparr>) s"
  have w: "wf_dir (the_dir ?s)" using g by (simp add: wf_dir_def)
  obtain e where e: "lf_clean_dir dk ?s = Some (upd_lfd (\<lambda>g. g\<lparr>lf_dirdirty := False\<rparr>) (?s\<lparr>ldisk := e\<rparr>))" "ok e"
    "ib_of ds e = ib_of ds (ldisk s)" "dat_of ds e = dat_of ds (ldisk s)"
    using clean_dir_ok[OF _ _ w, of ds] g by auto
  let ?t = "upd_lfd (\<lambda>g. g\<lparr>lf_dirdirty := False\<rparr>) (?s\<lparr>ldisk := e\<rparr>)"
  have "lfdballoc dk s = Some (c, replicate 512 DFILL, ?t)"
    using v(3) c get e(1) g by (simp add: lfdballoc_def Let_def next_db_def LF_BLKSIZ_def)
  moreover have "stays i s ?t" by (simp add: stays_def)
  ultimately show ?thesis using e(2-4) by (intro exI[of _ ?t]) simp
qed

section \<open>The first index block\<close>

lemma index_ok_load:
  assumes "index_ok ib f ns db" "\<not> lfibdirty f" "j < length ns"
  shows "index_ok ib (f\<lparr>lfiblock := ib (ns ! j), lfinum := ns ! j\<rparr>) ns db"
  using assms by (auto simp: index_ok_def) metis+

lemma ibget_ok:
  assumes r: "rep ds i ns db fi fd xs s" and j: "j < length ns"
  shows "lf_ibget dk (ns ! j) s = Some (ib_of ds (ldisk s) (ns ! j))"
proof -
  note g = rep_geometry[OF r]
  have "valid_ib ds (ns ! j)" using r j by (auto simp: lfs_rep_def fits_def)
  then show ?thesis using lfibget_ok[of "ldisk s" ds] g by (simp add: lf_ibget_def)
qed

lemma load_ok:
  assumes r: "rep ds i ns db fi fd xs s" and j: "j < length ns" and c: "\<not> lfibdirty (lfltab s i)"
  shows "rep ds i ns db fi fd xs (upd_lfl i (\<lambda>f. f\<lparr>lfiblock := ib_of ds (ldisk s) (ns ! j), lfinum := ns ! j\<rparr>) s)"
    "framed ds i I D s (upd_lfl i (\<lambda>f. f\<lparr>lfiblock := ib_of ds (ldisk s) (ns ! j), lfinum := ns ! j\<rparr>) s)"
proof -
  let ?t = "upd_lfl i (\<lambda>f. f\<lparr>lfiblock := ib_of ds (ldisk s) (ns ! j), lfinum := ns ! j\<rparr>) s"
  have "entry_ok i ns xs ?t = entry_ok i ns xs s" by (rule entry_ok_cong) simp_all
  then show "rep ds i ns db fi fd xs ?t" using r index_ok_load[OF _ c j] by (simp add: lfs_rep_def)
  show "framed ds i I D s ?t" by (simp add: frame_def stays_def)
qed

lemma first_ib_nth: "ns \<noteq> [] \<Longrightarrow> first_ib ns = ns ! 0"
  by (cases ns) (simp_all add: first_ib_def)

lemma rep_entry:
  assumes "rep ds i ns db fi fd xs s"
  obtains e where "dirent i s = Some e" "ld_size e = int (length xs)" "ld_ilist e = first_ib ns"
  using assms by (auto simp: lfs_rep_def entry_ok_def)

lemma setup_first_new:
  assumes r: "rep ds i [] db (b # fi) fd xs s" and c: "\<not> lfdbdirty (lfltab s i)" "\<not> lfibdirty (lfltab s i)"
  shows "\<exists>t. setup_first dk i s = Some t \<and> rep ds i [b] db fi fd xs t \<and> framed ds i (insert b (set fi)) (set db \<union> set fd) s t \<and>
    lfinum (lfltab t i) = b \<and> \<not> lfdbdirty (lfltab t i) \<and> lfpos (lfltab t i) = lfpos (lfltab s i) \<and> xs = []"
proof -
  have f: "fits n ds [] db (b # fi) fd" "index_ok (ib_of ds (ldisk s)) (lfltab s i) [] db" "data_ok (dat_of ds (ldisk s)) (lfltab s i) db xs"
    using r by (simp_all add: lfs_rep_def)
  then have e: "db = []" "xs = []" "lfinum (lfltab s i) = LF_INULL" by (auto simp: fits_def data_ok_def index_ok_def)
  obtain d where d: "dirent i s = Some d" "ld_size d = int (length xs)" "ld_ilist d = first_ib []" using rep_entry[OF r] by blast
  obtain t where t: "lfiballoc dk s = Some (b, t)" "lfltab t = lfltab s" "ok (ldisk t)" "ib_of ds (ldisk t) = ib_of ds (ldisk s)"
    "dat_of ds (ldisk t) = dat_of ds (ldisk s)" "the_dir t = (the_dir s)\<lparr>lfd_ifree := ib_next (ib_of ds (ldisk s) b)\<rparr>" "stays i s t"
    using iballoc_ok[OF r] by blast
  let ?u = "upd_lfl i (\<lambda>f. f\<lparr>lfiblock := lfibclear 0\<rparr>) t"
  have du: "dirent i ?u = Some d" using d(1) t(2,6) dirent_cong[of ?u i s] by simp
  have eu: "entry_ok i [] xs ?u" using r t(2,6) entry_ok_cong[of ?u i s] by (simp add: lfs_rep_def)
  obtain v where v: "upd_dirent i (\<lambda>e. e\<lparr>ld_ilist := b\<rparr>) ?u = Some v" "wf_dir (the_dir v)" "dirent i v = Some (d\<lparr>ld_ilist := b\<rparr>)" "stays i ?u v"
    "lfltab v = lfltab ?u" "ldisk v = ldisk ?u" "lfd_ifree (the_dir v) = lfd_ifree (the_dir ?u)" "lfd_dfree (the_dir v) = lfd_dfree (the_dir ?u)"
    using upd_dirent_ok[OF eu du, of "\<lambda>e. e\<lparr>ld_ilist := b\<rparr>"] by auto
  let ?t = "upd_lfl i (\<lambda>f. f\<lparr>lfibdirty := True, lfinum := b\<rparr>) v"
  have st: "setup_first dk i s = Some ?t"
    using d(1,3) e(3) t(1) v(1) by (simp add: setup_first_def first_ib_def)
  have fb: "\<not> (b = LF_INULL)" using f(1) by (simp add: fits_def valid_ib_def LF_INULL_def)
  have su: "stays i t ?u" by (simp add: stays_def)
  have sv: "stays i v ?t" by (simp add: stays_def)
  have sy: "stays i s ?t" by (rule stays_trans[OF stays_trans[OF stays_trans[OF t(7) su] v(4)] sv])
  have lf: "lfltab ?t i = (lfltab s i)\<lparr>lfiblock := lfibclear 0, lfibdirty := True, lfinum := b\<rparr>" using v(5) t(2) by simp
  have "entry_ok i [b] xs ?t"
    using v(2,3) d(2) dirent_cong[of ?t i v] by (simp add: entry_ok_def first_ib_def)
  moreover have "fits n ds [b] db fi fd" using f(1) e(1) by (auto simp: fits_def)
  moreover have "free_ok (ib_of ds (ldisk s)) (dat_of ds (ldisk s)) (the_dir ?t) fi fd"
    using r v(7,8) t(6) by (simp add: lfs_rep_def free_ok_def)
  moreover have "index_ok (ib_of ds (ldisk s)) (lfltab ?t i) [b] db"
    using e(1) v(5) t(2) by (simp add: index_ok_def ibl_def lfibclear_def u32_def map_replicate_trivial)
  moreover have "data_ok (dat_of ds (ldisk s)) (lfltab ?t i) db xs" using f(3) v(5) t(2) by simp
  ultimately have "rep ds i [b] db fi fd xs ?t"
    using r v(6) t(3-5) sy lf unfolding lfs_rep_def by (simp add: stays_def)
  moreover have "framed ds i (insert b (set fi)) (set db \<union> set fd) s ?t" using sy v(6) t(4,5) by (simp add: frame_def)
  ultimately show ?thesis using st lf e(2) c(1) by (intro exI[of _ ?t]) simp
qed

lemma setup_first_ok:
  assumes r: "rep ds i ns db fi fd xs s" and c: "\<not> lfdbdirty (lfltab s i)" "\<not> lfibdirty (lfltab s i)"
    and p: "lfpos (lfltab s i) = int p" "p \<le> length xs" and fi: "ns = [] \<longrightarrow> fi \<noteq> []"
  shows "\<exists>t ns' fi' j. setup_first dk i s = Some t \<and> rep ds i ns' db fi' fd xs t \<and> set ns' \<union> set fi' = set ns \<union> set fi \<and>
    length ns' + length fi' = length ns + length fi \<and> framed ds i (set ns \<union> set fi) (set db \<union> set fd) s t \<and> lfinum (lfltab t i) = ns' ! j \<and>
    j < length ns' \<and> 8192 * j \<le> p \<and> (lfibdirty (lfltab t i) \<longrightarrow> p < 8192 * (j + 1)) \<and> \<not> lfdbdirty (lfltab t i) \<and> lfpos (lfltab t i) = int p"
proof (cases "ns = []")
  case True
  then obtain b bs where b: "fi = b # bs" using fi by (cases fi) auto
  obtain t where t: "setup_first dk i s = Some t" "rep ds i [b] db bs fd xs t" "framed ds i (insert b (set bs)) (set db \<union> set fd) s t"
    "lfinum (lfltab t i) = b" "\<not> lfdbdirty (lfltab t i)" "lfpos (lfltab t i) = lfpos (lfltab s i)" "xs = []"
    using setup_first_new[of ds i db b bs fd xs s] r c True b by blast
  then show ?thesis using True b p by (intro exI[of _ t] exI[of _ "[b]"] exI[of _ bs] exI[of _ 0]) simp
next
  case False
  obtain d where d: "dirent i s = Some d" "ld_ilist d = ns ! 0" using rep_entry[OF r] first_ib_nth[OF False] by metis
  have n0: "0 < length ns" using False by simp
  have f: "fits n ds ns db fi fd" "index_ok (ib_of ds (ldisk s)) (lfltab s i) ns db" using r by (simp_all add: lfs_rep_def)
  then have nn: "ns ! 0 \<noteq> LF_INULL" using fits_pos[OF f(1), of "ns ! 0"] nth_mem[OF n0] by (auto simp: LF_INULL_def)
  define t where "t = upd_lfl i (\<lambda>f. f\<lparr>lfiblock := ib_of ds (ldisk s) (ns ! 0), lfinum := ns ! 0\<rparr>) s"
  note get = ibget_ok[OF r n0] and ld = load_ok[OF r n0 c(2), folded t_def]
  have t: "lfinum (lfltab t i) = ns ! 0" "\<not> lfibdirty (lfltab t i)" "\<not> lfdbdirty (lfltab t i)" "lfpos (lfltab t i) = int p"
    using c p(1) by (simp_all add: t_def)
  show ?thesis
  proof (cases "lfinum (lfltab s i) = LF_INULL")
    case True
    then have "setup_first dk i s = Some t" using d nn get by (simp add: setup_first_def t_def)
    then show ?thesis using ld t n0 by (intro exI[of _ t] exI[of _ ns] exI[of _ fi] exI[of _ 0]) simp
  next
    case no: False
    then have "lfinum (lfltab s i) \<in> set ns" using f(2) by (auto simp: index_ok_def)
    then obtain j where j: "j < length ns" "lfinum (lfltab s i) = ns ! j" by (metis in_set_conv_nth)
    then have "lfiblock (lfltab s i) = ibl ns db j" using f(2) by (auto simp: index_ok_def)
    then have o: "ib_offset (lfiblock (lfltab s i)) = 8192 * int j" by (simp add: ibl_def)
    show ?thesis
    proof (cases "p < 8192 * j")
      case True
      then have "int p < 8192 * int j" by linarith
      then have "setup_first dk i s = Some t" using d no get o p(1) by (simp add: setup_first_def t_def)
      then show ?thesis using ld t n0 by (intro exI[of _ t] exI[of _ ns] exI[of _ fi] exI[of _ 0]) simp
    next
      case False
      then have "\<not> int p < 8192 * int j" by linarith
      then have "setup_first dk i s = Some s" using d no o p(1) by (simp add: setup_first_def)
      then show ?thesis using r j False c p(1) frame_refl by (intro exI[of _ s] exI[of _ ns] exI[of _ fi] exI[of _ j]) simp
    qed
  qed
qed

section \<open>The next index blocks\<close>

lemma rep_data_dropped:
  assumes r: "rep ds i ns db fi fd xs s" and c: "\<not> lfdbdirty (lfltab s i)"
  shows "rep ds i ns db fi fd xs (upd_lfl i (\<lambda>f. f\<lparr>lfdnum := LF_DNULL\<rparr>) s)"
    "framed ds i I D s (upd_lfl i (\<lambda>f. f\<lparr>lfdnum := LF_DNULL\<rparr>) s)"
proof -
  let ?t = "upd_lfl i (\<lambda>f. f\<lparr>lfdnum := LF_DNULL\<rparr>) s"
  have f: "fits n ds ns db fi fd" "data_ok (dat_of ds (ldisk s)) (lfltab s i) db xs" using r by (simp_all add: lfs_rep_def)
  have "LF_DNULL \<notin> set db" using fits_db[OF f(1), of LF_DNULL] by (auto simp: LF_DNULL_def)
  then have "data_ok (dat_of ds (ldisk s)) ((lfltab s i)\<lparr>lfdnum := LF_DNULL\<rparr>) db xs" using data_ok_drop[OF f(2) c] by blast
  moreover have "entry_ok i ns xs ?t = entry_ok i ns xs s" by (rule entry_ok_cong) simp_all
  ultimately show "rep ds i ns db fi fd xs ?t" using r by (simp add: lfs_rep_def)
  show "framed ds i I D s ?t" by (simp add: frame_def stays_def)
qed

text \<open>A new index block is appended: the last one is written back with its link, the new one is in memory.\<close>

lemma index_ok_append:
  assumes x: "index_ok ib f ns db" and l: "length ns = Suc j" "lfinum f = ns ! j" "distinct ns" "b \<notin> set ns"
    and c: "\<not> lfibdirty f" and d: "length db \<le> 16 * length ns" and o: "8192 * int (length ns) < 4294967296"
  shows "index_ok (ib(ns ! j := (lfiblock f)\<lparr>ib_next := b\<rparr>)) (f\<lparr>lfinum := b, lfiblock := lfibclear (8192 * int (length ns)), lfibdirty := True\<rparr>) (ns @ [b]) db"
proof -
  let ?f = "f\<lparr>lfinum := b, lfiblock := lfibclear (8192 * int (length ns)), lfibdirty := True\<rparr>"
  let ?ib = "ib(ns ! j := (lfiblock f)\<lparr>ib_next := b\<rparr>)"
  have j: "lfiblock f = ibl ns db j" "\<And>k. k < length ns \<Longrightarrow> ib (ns ! k) = ibl ns db k"
    using x l(1,2) c by (auto simp: index_ok_def)
  have "(if lfinum ?f = (ns @ [b]) ! k then lfiblock ?f else ?ib ((ns @ [b]) ! k)) = ibl (ns @ [b]) db k" if k: "k < length (ns @ [b])" for k
  proof (cases "k = length ns")
    case True
    then show ?thesis using ibl_new[OF d, of b] o by (simp add: lfibclear_def u32_id)
  next
    case False
    then have k: "k < length ns" using k by simp
    then have "b \<noteq> ns ! k" using l(4) by auto
    moreover have "ns ! k = ns ! j \<longleftrightarrow> k = j" using l(1,3) k by (simp add: nth_eq_iff_index_eq)
    ultimately show ?thesis using k l(1) j ibl_append[OF k, of b db] by (auto simp: nth_append)
  qed
  then show ?thesis by (simp add: index_ok_def)
qed

lemma setup_next_new:
  assumes r: "rep ds i ns db (b # fi) fd xs s" and c: "\<not> lfdbdirty (lfltab s i)" "\<not> lfibdirty (lfltab s i)"
    and j: "length ns = Suc j" "lfinum (lfltab s i) = ns ! j" and full: "16 * length ns = length db"
  shows "\<exists>t. setup_next dk i s = Some t \<and> rep ds i (ns @ [b]) db fi fd xs t \<and> framed ds i (set ns \<union> insert b (set fi)) (set db \<union> set fd) s t \<and>
    lfinum (lfltab t i) = b \<and> \<not> lfdbdirty (lfltab t i) \<and> lfpos (lfltab t i) = lfpos (lfltab s i)"
proof -
  note g = rep_geometry[OF r]
  have f: "fits n ds ns db (b # fi) fd" "index_ok (ib_of ds (ldisk s)) (lfltab s i) ns db" "data_ok (dat_of ds (ldisk s)) (lfltab s i) db xs"
    using r by (simp_all add: lfs_rep_def)
  have jl: "j < length ns" using j(1) by simp
  have cur: "lfiblock (lfltab s i) = ibl ns db j" by (rule index_cur[OF f(2) jl j(2)])
  have b: "b \<notin> set ns" "distinct ns" "valid_ib ds b" "valid_ib ds (ns ! j)" "ns ! j \<notin> set fi" "b \<notin> set fi"
    using f(1) nth_mem[OF jl] by (auto simp: fits_def)
  have off: "8192 * int (length ns) < 4294967296" using fits_len[OF f(1)] full size32 by linarith
  obtain t where t: "lfiballoc dk s = Some (b, t)" "lfltab t = lfltab s" "ok (ldisk t)" "ib_of ds (ldisk t) = ib_of ds (ldisk s)"
    "dat_of ds (ldisk t) = dat_of ds (ldisk s)" "the_dir t = (the_dir s)\<lparr>lfd_ifree := ib_next (ib_of ds (ldisk s) b)\<rparr>" "stays i s t"
    using iballoc_ok[OF r] by blast
  define ib where "ib = (lfiblock (lfltab s i))\<lparr>ib_next := b\<rparr>"
  let ?u = "upd_lfl i (\<lambda>f. f\<lparr>lfiblock := (lfiblock f)\<lparr>ib_next := b\<rparr>\<rparr>) t"
  have w: "wf_iblk ib"
  proof -
    have "wf_iblk (ibl ns db j)" by (rule wf_ibl[OF f(1) size32 jl])
    moreover have "0 \<le> b" "b \<le> INT_MAX" using b(3) ib_bound[OF b(3)] g size32 by (auto simp: valid_ib_def)
    ultimately show ?thesis by (simp add: ib_def cur wf_iblk_def)
  qed
  have dev: "lf_dskdev (Lf_data ?u) = dev" using t(7) g by (simp add: stays_def)
  obtain e where e: "lf_ibput dk (ns ! j) ib ?u = Some (?u\<lparr>ldisk := e\<rparr>)" "ok e"
    "ib_of ds e = (ib_of ds (ldisk s))(ns ! j := ib)" "dat_of ds e = dat_of ds (ldisk s)"
    using ibput_ok[of ?u ds "ns ! j" ib] dev b(4) w g t(3-5) by auto
  define v where "v = upd_lfl i (\<lambda>f. f\<lparr>lfinum := b, lfiblock := lfibclear (8192 * int (length ns)), lfibdirty := True\<rparr>) (?u\<lparr>ldisk := e\<rparr>)"
  have lv: "lfltab v i = (lfltab s i)\<lparr>lfinum := b, lfiblock := lfibclear (8192 * int (length ns)), lfibdirty := True\<rparr>"
    using t(2) by (simp add: v_def)
  have ov: "ib_offset (lfiblock (lfltab s i)) + LF_IDATA = 8192 * int (length ns)" by (simp add: cur ibl_def LF_IDATA_def j(1))
  have nx: "ib_next (lfiblock (lfltab s i)) = LF_INULL" by (simp add: cur ibl_def j(1))
  have vu: "v = upd_lfl i (\<lambda>f. f\<lparr>lfinum := b, lfiblock := lfibclear (u32 (ib_offset (lfiblock f) + LF_IDATA)), lfibdirty := True\<rparr>) (?u\<lparr>ldisk := e\<rparr>)"
    unfolding v_def by (rule upd_lfl_cong) (use ov off t(2) in \<open>simp add: u32_id\<close>)
  have st: "setup_next dk i s = Some (upd_lfl i (\<lambda>f. f\<lparr>lfdnum := LF_DNULL\<rparr>) v)"
    unfolding vu using nx t(1,2) e(1) j(2) by (simp add: setup_next_def Let_def ib_def)
  have sv: "stays i s v" using t(7) t(2) by (simp add: v_def stays_def)
  have dv: "the_dir v = the_dir t" "ldisk v = e" by (simp_all add: v_def)
  have "entry_ok i (ns @ [b]) xs v"
  proof -
    obtain d where d: "dirent i s = Some d" "ld_size d = int (length xs)" "ld_ilist d = first_ib ns" using rep_entry[OF r] by blast
    have "dirent i v = Some d" using d(1) dirent_cong[of v i s] lv dv t(6) by simp
    moreover have "first_ib (ns @ [b]) = first_ib ns" using j(1) by (cases ns) (simp_all add: first_ib_def)
    ultimately show ?thesis using d g dv t(6) by (simp add: entry_ok_def wf_dir_def)
  qed
  moreover have "fits n ds (ns @ [b]) db fi fd" using f(1) full by (auto simp: fits_def)
  moreover have "free_ok (ib_of ds e) (dat_of ds (ldisk s)) (the_dir v) fi fd"
    unfolding e(3) free_ok_index[OF b(5)] using r dv(1) t(6) by (simp add: lfs_rep_def free_ok_def)
  moreover have "index_ok (ib_of ds e) (lfltab v i) (ns @ [b]) db"
    unfolding e(3) lv ib_def by (rule index_ok_append[OF f(2) j b(2,1) c(2) _ off]) (use full in simp)
  moreover have "data_ok (dat_of ds (ldisk s)) (lfltab v i) db xs" using f(3) by (simp add: lv)
  moreover have "length (lf_rubbish v) = 508" "lfstate (lfltab v i) = LF_USED" "lf_dskdev (Lf_data v) = dev"
    using r sv lv by (simp_all add: lfs_rep_def stays_def)
  ultimately have rv: "rep ds i (ns @ [b]) db fi fd xs v" using e(2,4) dv by (simp add: lfs_rep_def)
  have fv: "framed ds i (set ns \<union> insert b (set fi)) (set db \<union> set fd) s v" using sv e(3,4) dv jl by (auto simp: frame_def)
  have cv: "\<not> lfdbdirty (lfltab v i)" using c lv by simp
  show ?thesis using st rep_data_dropped[OF rv cv] frame_trans[OF fv] lv c by (intro exI[of _ "upd_lfl i (\<lambda>f. f\<lparr>lfdnum := LF_DNULL\<rparr>) v"]) simp
qed

lemma setup_next_old:
  assumes r: "rep ds i ns db fi fd xs s" and c: "\<not> lfdbdirty (lfltab s i)" "\<not> lfibdirty (lfltab s i)"
    and j: "Suc j < length ns" "lfinum (lfltab s i) = ns ! j"
  shows "\<exists>t. setup_next dk i s = Some t \<and> rep ds i ns db fi fd xs t \<and> framed ds i I D s t \<and>
    lfinum (lfltab t i) = ns ! Suc j \<and> \<not> lfdbdirty (lfltab t i) \<and> \<not> lfibdirty (lfltab t i) \<and> lfpos (lfltab t i) = lfpos (lfltab s i)"
proof -
  have f: "fits n ds ns db fi fd" "index_ok (ib_of ds (ldisk s)) (lfltab s i) ns db" using r by (simp_all add: lfs_rep_def)
  have cur: "lfiblock (lfltab s i) = ibl ns db j" using index_cur[OF f(2) _ j(2)] j(1) by simp
  have nn: "ns ! Suc j \<noteq> LF_INULL" using fits_pos[OF f(1), of "ns ! Suc j"] nth_mem[OF j(1)] by (auto simp: LF_INULL_def)
  have nx: "ib_next (lfiblock (lfltab s i)) = ns ! Suc j" using j by (simp add: cur ibl_def)
  define t where "t = upd_lfl i (\<lambda>f. f\<lparr>lfiblock := ib_of ds (ldisk s) (ns ! Suc j), lfinum := ns ! Suc j\<rparr>) s"
  note ld = load_ok[OF r j(1) c(2), folded t_def]
  have l: "\<not> lfdbdirty (lfltab t i)" "\<not> lfibdirty (lfltab t i)" "lfinum (lfltab t i) = ns ! Suc j" "lfpos (lfltab t i) = lfpos (lfltab s i)"
    using c by (simp_all add: t_def)
  have "setup_next dk i s = Some (upd_lfl i (\<lambda>f. f\<lparr>lfdnum := LF_DNULL\<rparr>) t)"
    using nx nn ibget_ok[OF r j(1)] by (simp add: setup_next_def Let_def t_def)
  then show ?thesis using rep_data_dropped[OF ld(1) l(1)] frame_trans[OF ld(2)] l
    by (intro exI[of _ "upd_lfl i (\<lambda>f. f\<lparr>lfdnum := LF_DNULL\<rparr>) t"]) simp
qed

lemma behind_iff: "lfpos (lfltab s i) = int p \<Longrightarrow> lfiblock (lfltab s i) = ibl ns db j \<Longrightarrow> setup_behind i s \<longleftrightarrow> j < p div 8192"
  by (auto simp: setup_behind_def and_not_mask ibl_def)

lemma setup_loop:
  assumes "rep ds i ns db fi fd xs s" "lfpos (lfltab s i) = int p" "p \<le> length xs" "p < 8192 * (length ns + length fi)"
    "lfinum (lfltab s i) = ns ! j" "j < length ns" "8192 * j \<le> p" "lfibdirty (lfltab s i) \<longrightarrow> p < 8192 * (j + 1)" "\<not> lfdbdirty (lfltab s i)"
  shows "\<exists>t ns' fi'. c_while (setup_behind i) (setup_next dk i) s = Some t \<and> rep ds i ns' db fi' fd xs t \<and>
    set ns' \<union> set fi' = set ns \<union> set fi \<and> length ns' + length fi' = length ns + length fi \<and>
    framed ds i (set ns \<union> set fi) (set db \<union> set fd) s t \<and> lfinum (lfltab t i) = ns' ! (p div 8192) \<and> p div 8192 < length ns' \<and>
    \<not> lfdbdirty (lfltab t i) \<and> lfpos (lfltab t i) = int p"
  using assms
proof (induction "p div 8192 - j" arbitrary: s ns fi j rule: less_induct)
  case less
  have f: "fits n ds ns db fi fd" "index_ok (ib_of ds (ldisk s)) (lfltab s i) ns db" "data_ok (dat_of ds (ldisk s)) (lfltab s i) db xs"
    using less.prems(1) by (simp_all add: lfs_rep_def)
  have b: "setup_behind i s \<longleftrightarrow> j < p div 8192" by (rule behind_iff[OF less.prems(2) index_cur[OF f(2) less.prems(6,5)]])
  show ?case
  proof (cases "j < p div 8192")
    case False
    then have "j = p div 8192" using less.prems(7) by (simp add: less_eq_div_iff_mult_less_eq mult.commute antisym)
    moreover have "c_while (setup_behind i) (setup_next dk i) s = Some s" using b False by (simp add: c_while_stop)
    ultimately show ?thesis using less.prems frame_refl by (intro exI[of _ s] exI[of _ ns] exI[of _ fi]) simp
  next
    case True
    then have p: "8192 * (j + 1) \<le> p" by (simp add: less_eq_div_iff_mult_less_eq[symmetric] mult.commute Suc_le_eq)
    then have c: "\<not> lfibdirty (lfltab s i)" using less.prems(8) by simp
    have "\<exists>t ns' fi'. setup_next dk i s = Some t \<and> rep ds i ns' db fi' fd xs t \<and> set ns' \<union> set fi' = set ns \<union> set fi \<and>
      length ns' + length fi' = length ns + length fi \<and> framed ds i (set ns \<union> set fi) (set db \<union> set fd) s t \<and>
      lfinum (lfltab t i) = ns' ! Suc j \<and> Suc j < length ns' \<and> (lfibdirty (lfltab t i) \<longrightarrow> p < 8192 * (Suc j + 1)) \<and>
      \<not> lfdbdirty (lfltab t i) \<and> lfpos (lfltab t i) = int p"
    proof (cases "Suc j < length ns")
      case True
      obtain t where "setup_next dk i s = Some t" "rep ds i ns db fi fd xs t" "framed ds i (set ns \<union> set fi) (set db \<union> set fd) s t"
        "lfinum (lfltab t i) = ns ! Suc j" "\<not> lfdbdirty (lfltab t i)" "\<not> lfibdirty (lfltab t i)" "lfpos (lfltab t i) = lfpos (lfltab s i)"
        using setup_next_old[OF less.prems(1,9) c True less.prems(5)] by blast
      then show ?thesis using True less.prems(2) by (intro exI[of _ t] exI[of _ ns] exI[of _ fi]) simp
    next
      case False
      then have l: "length ns = Suc j" using less.prems(6) by simp
      have "length xs \<le> 512 * length db" "length db \<le> 16 * length ns" using f by (simp_all add: data_ok_def fits_def)
      then have full: "16 * length ns = length db" "p = 8192 * length ns" using p l less.prems(3) by simp_all
      then obtain b bs where fi: "fi = b # bs" using less.prems(4) by (cases fi) auto
      obtain t where "setup_next dk i s = Some t" "rep ds i (ns @ [b]) db bs fd xs t" "framed ds i (set ns \<union> insert b (set bs)) (set db \<union> set fd) s t"
        "lfinum (lfltab t i) = b" "\<not> lfdbdirty (lfltab t i)" "lfpos (lfltab t i) = lfpos (lfltab s i)"
        using setup_next_new[of ds i ns db b bs fd xs s j] less.prems(1,5,9) c l full(1) fi by auto
      then show ?thesis using less.prems(2) l full(2) fi
        by (intro exI[of _ t] exI[of _ "ns @ [b]"] exI[of _ bs]) (simp add: nth_append)
    qed
    then obtain t ns' fi' where t: "setup_next dk i s = Some t" "rep ds i ns' db fi' fd xs t" "set ns' \<union> set fi' = set ns \<union> set fi"
      "length ns' + length fi' = length ns + length fi" "framed ds i (set ns \<union> set fi) (set db \<union> set fd) s t"
      "lfinum (lfltab t i) = ns' ! Suc j" "Suc j < length ns'" "lfibdirty (lfltab t i) \<longrightarrow> p < 8192 * (Suc j + 1)"
      "\<not> lfdbdirty (lfltab t i)" "lfpos (lfltab t i) = int p" by blast
    have m: "p div 8192 - Suc j < p div 8192 - j" using True by simp
    obtain u ns2 fi2 where u: "c_while (setup_behind i) (setup_next dk i) t = Some u" "rep ds i ns2 db fi2 fd xs u"
      "set ns2 \<union> set fi2 = set ns' \<union> set fi'" "length ns2 + length fi2 = length ns' + length fi'"
      "framed ds i (set ns' \<union> set fi') (set db \<union> set fd) t u" "lfinum (lfltab u i) = ns2 ! (p div 8192)" "p div 8192 < length ns2"
      "\<not> lfdbdirty (lfltab u i)" "lfpos (lfltab u i) = int p"
      using less.hyps[OF m t(2,10) less.prems(3) _ t(6,7) _ t(8,9)] t(4) less.prems(4) p by (auto simp del: Un_iff)
    have "c_while (setup_behind i) (setup_next dk i) s = Some u" using c_while_step[of "setup_behind i" s] b True t(1) u(1) by simp
    moreover have "framed ds i (set ns \<union> set fi) (set db \<union> set fd) s u" using frame_trans[OF t(5)] u(5) t(3) by simp
    ultimately show ?thesis using u t(3,4) by (intro exI[of _ u] exI[of _ ns2] exI[of _ fi2]) simp
  qed
qed

end

section \<open>The data block\<close>

lemma data_pos: "q < length xs \<Longrightarrow> length xs \<le> 512 * length db \<Longrightarrow> q div 512 < length db"
  by (simp add: less_mult_imp_div_less mult.commute)

lemma data_ok_load:
  assumes d: "data_ok da f db xs" and c: "\<not> lfdbdirty f" and b: "b < length db" "length (da (db ! b)) = 512"
  shows "data_ok da (f\<lparr>lfdblock := da (db ! b), lfdbdirty := False, lfdnum := db ! b\<rparr>) db xs"
proof (rule data_okI)
  let ?f = "f\<lparr>lfdblock := da (db ! b), lfdbdirty := False, lfdnum := db ! b\<rparr>"
  have x: "\<forall>q < length xs. xs ! q = da (db ! (q div 512)) ! (q mod 512)" using d c unfolding data_ok_def by blast
  then show "\<not> lfdbdirty ?f \<longrightarrow> (\<forall>q < length xs. xs ! q = da (db ! (q div 512)) ! (q mod 512))" by blast
  show "\<forall>q < length xs. xs ! q = (if lfdnum ?f = db ! (q div 512) then lfdblock ?f else da (db ! (q div 512))) ! (q mod 512)"
    using x by auto
qed (use d b in \<open>simp_all add: data_ok_def\<close>)

lemma data_ok_append:
  assumes d: "data_ok da f db xs" and c: "\<not> lfdbdirty f" "c \<notin> set db" and l: "length bs = 512"
  shows "data_ok da (f\<lparr>lfdblock := bs, lfdnum := c\<rparr>) (db @ [c]) xs"
proof (rule data_okI)
  let ?f = "f\<lparr>lfdblock := bs, lfdnum := c\<rparr>"
  have x: "\<forall>q < length xs. xs ! q = da (db ! (q div 512)) ! (q mod 512)" using d c unfolding data_ok_def by blast
  have dl: "length xs \<le> 512 * length db" using d by (simp add: data_ok_def)
  have n: "(db @ [c]) ! (q div 512) = db ! (q div 512) \<and> db ! (q div 512) \<noteq> c" if "q < length xs" for q
    using data_pos[OF that dl] c(2) nth_mem by (fastforce simp: nth_append)
  then show "\<not> lfdbdirty ?f \<longrightarrow> (\<forall>q < length xs. xs ! q = da ((db @ [c]) ! (q div 512)) ! (q mod 512))" using x by simp
  show "\<forall>q < length xs. xs ! q = (if lfdnum ?f = (db @ [c]) ! (q div 512) then lfdblock ?f else da ((db @ [c]) ! (q div 512))) ! (q mod 512)"
    using x n by auto
  show "\<forall>x \<in> set xs. 0 \<le> x \<and> x < 256" "length xs \<le> 512 * length (db @ [c])" using d by (simp_all add: data_ok_def)
qed (use l c in simp_all)

lemma index_ok_data:
  assumes x: "index_ok ib f ns db" and j: "lfinum f = ns ! (length db div 16)" and l: "length db < 16 * length ns" and d: "distinct ns"
  shows "index_ok ib (f\<lparr>lfiblock := (lfiblock f)\<lparr>ib_dba := (ib_dba (lfiblock f))[length db mod 16 := c]\<rparr>, lfibdirty := True\<rparr>) ns (db @ [c])"
proof -
  let ?f = "f\<lparr>lfiblock := (lfiblock f)\<lparr>ib_dba := (ib_dba (lfiblock f))[length db mod 16 := c]\<rparr>, lfibdirty := True\<rparr>"
  have jl: "length db div 16 < length ns" using l by (simp add: less_mult_imp_div_less mult.commute)
  have cur: "lfiblock f = ibl ns db (length db div 16)" by (rule index_cur[OF x jl j])
  have "(if lfinum ?f = ns ! k then lfiblock ?f else ib (ns ! k)) = ibl ns (db @ [c]) k" if k: "k < length ns" for k
  proof -
    have "lfinum ?f = ns ! k \<longleftrightarrow> k = length db div 16" using j d jl k by (auto simp: nth_eq_iff_index_eq)
    moreover have "k \<noteq> length db div 16 \<Longrightarrow> ib (ns ! k) = ibl ns db k"
      using x k j d jl by (auto simp: index_ok_def nth_eq_iff_index_eq)
    ultimately show ?thesis using ibl_data[OF l, of c k] cur by simp
  qed
  then show ?thesis using j jl by (simp add: index_ok_def)
qed

context lfs_disk
begin

lemma setup_data_old:
  assumes r: "rep ds i ns db fi fd xs s" and p: "lfpos (lfltab s i) = int p" and b: "p div 512 < length db"
    and j: "lfinum (lfltab s i) = ns ! (p div 8192)" "p div 8192 < length ns" and c: "\<not> lfdbdirty (lfltab s i)"
  shows "\<exists>t. setup_data dk i s = Some t \<and> rep ds i ns db fi fd xs t \<and> framed ds i I D s t \<and> lfbyte (lfltab t i) = p mod 512 \<and>
    lfdnum (lfltab t i) = db ! (p div 512) \<and> lfpos (lfltab t i) = int p"
proof -
  note g = rep_geometry[OF r]
  have f: "fits n ds ns db fi fd" "index_ok (ib_of ds (ldisk s)) (lfltab s i) ns db" "data_ok (dat_of ds (ldisk s)) (lfltab s i) db xs"
    using r by (simp_all add: lfs_rep_def)
  let ?c = "db ! (p div 512)"
  have cur: "lfiblock (lfltab s i) = ibl ns db (p div 8192)" by (rule index_cur[OF f(2) j(2,1)])
  have bb: "16 * (p div 8192) + p div 512 mod 16 = p div 512" using div_mult2_eq[of p 512 16] mult_div_mod_eq[of 16 "p div 512"] by simp
  have el: "elem_at (ib_dba (lfiblock (lfltab s i))) (p div 512 mod 16) = Some ?c"
    using b bb by (simp add: cur ibl_def elem_at_def LF_IBLEN_def)
  have cc: "ds \<le> ?c" "?c < n" "?c \<noteq> LF_DNULL" using fits_db[OF f(1), of ?c] nth_mem[OF b] by (auto simp: LF_DNULL_def)
  note rd = data_read[OF _ cc(1,2)]
  define u where "u = (if ?c \<noteq> lfdnum (lfltab s i)
    then upd_lfl i (\<lambda>f. f\<lparr>lfdblock := dat_of ds (ldisk s) ?c, lfdbdirty := False, lfdnum := ?c\<rparr>) s else s)"
  let ?t = "upd_lfl i (\<lambda>f. f\<lparr>lfbyte := nat (and (lfpos f) LF_DMASK)\<rparr>) u"
  have st: "setup_data dk i s = Some ?t"
    unfolding setup_data_def p block_index Let_def using el cc(3) rd(1)[of "ldisk s"] g by (simp add: u_def)
  have pu: "lfpos (lfltab u i) = int p" "lfdnum (lfltab u i) = ?c" using p by (simp_all add: u_def)
  have "data_ok (dat_of ds (ldisk s)) (lfltab u i) db xs"
    using f(3) data_ok_load[OF f(3) c b] rd(2)[of "ldisk s"] g by (simp add: u_def)
  moreover have "index_ok (ib_of ds (ldisk s)) (lfltab u i) ns db" using f(2) by (simp add: u_def)
  moreover have "entry_ok i ns xs ?t = entry_ok i ns xs s" by (rule entry_ok_cong) (simp_all add: u_def)
  moreover have "lfstate (lfltab u i) = lfstate (lfltab s i)" "ldisk u = ldisk s" "the_dir u = the_dir s" "Lf_data u = Lf_data s" "lf_rubbish u = lf_rubbish s"
    by (simp_all add: u_def)
  ultimately have "rep ds i ns db fi fd xs ?t" using r by (simp add: lfs_rep_def)
  moreover have "framed ds i I D s ?t" by (simp add: frame_def stays_def u_def)
  ultimately show ?thesis using st pu by (intro exI[of _ ?t]) (simp add: byte_index)
qed

lemma setup_data_new:
  assumes r: "rep ds i ns db fi (c # fd) xs s" and p: "lfpos (lfltab s i) = int p" and b: "p div 512 = length db"
    and j: "lfinum (lfltab s i) = ns ! (p div 8192)" "p div 8192 < length ns" and cl: "\<not> lfdbdirty (lfltab s i)"
  shows "\<exists>t. setup_data dk i s = Some t \<and> rep ds i ns (db @ [c]) fi fd xs t \<and> framed ds i I D s t \<and> lfbyte (lfltab t i) = p mod 512 \<and>
    lfdnum (lfltab t i) = c \<and> lfpos (lfltab t i) = int p"
proof -
  note g = rep_geometry[OF r]
  have f: "fits n ds ns db fi (c # fd)" "index_ok (ib_of ds (ldisk s)) (lfltab s i) ns db" "data_ok (dat_of ds (ldisk s)) (lfltab s i) db xs"
    using r by (simp_all add: lfs_rep_def)
  have cur: "lfiblock (lfltab s i) = ibl ns db (p div 8192)" by (rule index_cur[OF f(2) j(2,1)])
  have bb: "p div 8192 = length db div 16" "p div 512 mod 16 = length db mod 16" using div_mult2_eq[of p 512 16] b by simp_all
  have len: "length db < 16 * length ns" using j(2) unfolding bb(1) by (simp add: div_less_iff_less_mult mult.commute)
  have "16 * (length db div 16) + length db mod 16 = length db" by simp
  then have el: "elem_at (ib_dba (lfiblock (lfltab s i))) (length db mod 16) = Some LF_DNULL"
    by (simp add: cur bb(1) ibl_def elem_at_def LF_IBLEN_def)
  obtain t where t: "lfdballoc dk s = Some (c, replicate 512 DFILL, t)" "lfltab t = lfltab s" "ok (ldisk t)" "ib_of ds (ldisk t) = ib_of ds (ldisk s)"
    "dat_of ds (ldisk t) = dat_of ds (ldisk s)" "the_dir t = (the_dir s)\<lparr>lfd_dfree := next_db (dat_of ds (ldisk s)) c\<rparr>" "stays i s t"
    using dballoc_ok[OF r] by blast
  define u where "u = upd_lfl i (\<lambda>f. f\<lparr>lfdblock := replicate 512 DFILL, lfiblock := (lfiblock f)\<lparr>ib_dba := (ib_dba (lfiblock f))[length db mod 16 := c]\<rparr>,
              lfibdirty := True, lfdnum := c\<rparr>) t"
  let ?t = "upd_lfl i (\<lambda>f. f\<lparr>lfbyte := nat (and (lfpos f) LF_DMASK)\<rparr>) u"
  have st: "setup_data dk i s = Some ?t"
    unfolding setup_data_def p block_index Let_def bb(2) using el t(1) by (simp add: u_def)
  have lu: "lfltab u i = (lfltab s i)\<lparr>lfdblock := replicate 512 DFILL, lfiblock := (lfiblock (lfltab s i))\<lparr>ib_dba := (ib_dba (lfiblock (lfltab s i)))[length db mod 16 := c]\<rparr>,
              lfibdirty := True, lfdnum := c\<rparr>" using t(2) by (simp add: u_def)
  have cd: "c \<notin> set db" "distinct ns" using f(1) by (auto simp: fits_def)
  have fn: "fits n ds ns (db @ [c]) fi fd" using f(1) len by (auto simp: fits_def)
  have dn: "data_ok (dat_of ds (ldisk s)) (lfltab u i) (db @ [c]) xs"
    by (rule iffD1[OF data_ok_cong data_ok_append[OF f(3) cl cd(1), of "replicate 512 DFILL"]]) (simp_all add: lu)
  have xn: "index_ok (ib_of ds (ldisk s)) (lfltab u i) ns (db @ [c])"
    by (rule iffD1[OF index_ok_cong index_ok_data[OF f(2) _ len cd(2), of c]]) (use j(1) bb(1) in \<open>simp_all add: lu\<close>)
  have su: "stays i s ?t" using t(2,7) by (simp add: u_def stays_def)
  have en: "entry_ok i ns xs ?t"
  proof -
    have "entry_ok i ns xs ?t = entry_ok i ns xs s" by (rule entry_ok_cong) (simp_all add: u_def t(2,6))
    then show ?thesis using r by (simp add: lfs_rep_def)
  qed
  have fr: "free_ok (ib_of ds (ldisk s)) (dat_of ds (ldisk s)) (the_dir u) fi fd"
    using r t(6) by (simp add: lfs_rep_def free_ok_def u_def)
  have dk: "ldisk u = ldisk t" by (simp add: u_def)
  have "length (lf_rubbish ?t) = 508" "lfstate (lfltab u i) = LF_USED" "lf_dskdev (Lf_data ?t) = dev"
    using r su lu by (simp_all add: lfs_rep_def stays_def)
  then have "rep ds i ns (db @ [c]) fi fd xs ?t" using fn dn xn en fr t(3-5) dk by (simp add: lfs_rep_def)
  moreover have "framed ds i I D s ?t" using su t(4,5) dk by (simp add: frame_def)
  ultimately show ?thesis using st p lu by (intro exI[of _ ?t]) (simp add: byte_index)
qed

section \<open>The whole of lfsetup\<close>

text \<open>There must be a free index block or data block when a new one is needed.\<close>

definition room :: "nat \<Rightarrow> int list \<Rightarrow> int list \<Rightarrow> int list \<Rightarrow> int list \<Rightarrow> bool" where
  "room p ns db fi fd \<longleftrightarrow> p < 8192 * (length ns + length fi) \<and> p < 512 * (length db + length fd)"

lemma setup_locked_ok:
  assumes r: "rep ds i ns db fi fd xs s" and p: "lfpos (lfltab s i) = int p" "p \<le> length xs" "room p ns db fi fd"
  shows "\<exists>t ns' db' fi' fd'. setup_locked dk i s = Some t \<and> rep ds i ns' db' fi' fd' xs t \<and>
    set ns' \<union> set fi' = set ns \<union> set fi \<and> length ns' + length fi' = length ns + length fi \<and>
    set db' \<union> set fd' = set db \<union> set fd \<and> length db' + length fd' = length db + length fd \<and>
    framed ds i (set ns \<union> set fi) (set db \<union> set fd) s t \<and> lfbyte (lfltab t i) = p mod 512 \<and> p div 512 < length db' \<and>
    lfdnum (lfltab t i) = db' ! (p div 512) \<and> lfpos (lfltab t i) = int p"
proof -
  let ?I = "set ns \<union> set fi" and ?D = "set db \<union> set fd"
  obtain t where t: "(if lfibdirty (lfltab s i) \<or> lfdbdirty (lfltab s i) then do { (_, s) \<leftarrow> lfflush dk i s; Some s } else Some s) = Some t"
    "rep ds i ns db fi fd xs t" "framed ds i ?I ?D s t" "\<not> lfdbdirty (lfltab t i)" "\<not> lfibdirty (lfltab t i)" "lfpos (lfltab t i) = int p"
  proof (cases "lfibdirty (lfltab s i) \<or> lfdbdirty (lfltab s i)")
    case True
    obtain t where "lfflush dk i s = Some (OK, t)" "rep ds i ns db fi fd xs t" "framed ds i ?I ?D s t"
      "lfltab t i = (lfltab s i)\<lparr>lfdbdirty := False, lfibdirty := False\<rparr>" using flush_ok[OF r] by blast
    then show thesis using that[of t] True p(1) by simp
  next
    case False
    then show thesis using that[of s] r p(1) frame_refl[of content n ds i ?I ?D s] by simp
  qed
  have fi: "ns = [] \<longrightarrow> fi \<noteq> []" using p(3) by (auto simp: room_def)
  obtain u ns1 fi1 j where u: "setup_first dk i t = Some u" "rep ds i ns1 db fi1 fd xs u" "set ns1 \<union> set fi1 = ?I"
    "length ns1 + length fi1 = length ns + length fi" "framed ds i ?I ?D t u" "lfinum (lfltab u i) = ns1 ! j"
    "j < length ns1" "8192 * j \<le> p" "lfibdirty (lfltab u i) \<longrightarrow> p < 8192 * (j + 1)" "\<not> lfdbdirty (lfltab u i)" "lfpos (lfltab u i) = int p"
    using setup_first_ok[OF t(2,4,5,6) p(2) fi] by blast
  have l1: "p < 8192 * (length ns1 + length fi1)" using p(3) u(4) by (simp add: room_def)
  obtain v ns2 fi2 where v: "c_while (setup_behind i) (setup_next dk i) u = Some v" "rep ds i ns2 db fi2 fd xs v" "set ns2 \<union> set fi2 = ?I"
    "length ns2 + length fi2 = length ns + length fi" "framed ds i ?I ?D u v" "lfinum (lfltab v i) = ns2 ! (p div 8192)" "p div 8192 < length ns2"
    "\<not> lfdbdirty (lfltab v i)" "lfpos (lfltab v i) = int p"
    using setup_loop[OF u(2,11) p(2) l1 u(6-10)] u(3,4) by (auto simp del: Un_iff)
  have fv: "framed ds i ?I ?D s v" by (rule frame_trans[OF frame_trans[OF t(3) u(5)] v(5)])
  have run: "setup_locked dk i s = setup_data dk i v"
    unfolding setup_locked_def using t(1) u(1) v(1) by (simp del: if_split cong: if_cong)
  have dl: "length xs \<le> 512 * length db" using v(2) by (simp add: lfs_rep_def data_ok_def)
  show ?thesis
  proof (cases "p div 512 < length db")
    case True
    obtain w where "setup_data dk i v = Some w" "rep ds i ns2 db fi2 fd xs w" "framed ds i ?I ?D v w" "lfbyte (lfltab w i) = p mod 512"
      "lfdnum (lfltab w i) = db ! (p div 512)" "lfpos (lfltab w i) = int p"
      using setup_data_old[OF v(2,9) True v(6-8)] by blast
    then show ?thesis using run v(3,4) frame_trans[OF fv] True
      by (intro exI[of _ w] exI[of _ ns2] exI[of _ db] exI[of _ fi2] exI[of _ fd]) simp
  next
    case False
    have "p \<le> 512 * length db" using p(2) dl by simp
    then have b: "p div 512 = length db" using False div_le_mono[of p "512 * length db" 512] by simp
    then have "fd \<noteq> []" using p(3) by (cases fd) (auto simp: room_def div_less_iff_less_mult[symmetric] mult.commute)
    then obtain c cs where c: "fd = c # cs" by (cases fd) auto
    obtain w where "setup_data dk i v = Some w" "rep ds i ns2 (db @ [c]) fi2 cs xs w" "framed ds i ?I ?D v w" "lfbyte (lfltab w i) = p mod 512"
      "lfdnum (lfltab w i) = c" "lfpos (lfltab w i) = int p"
      using setup_data_new[of ds i ns2 db fi2 c cs xs v p] v b c by blast
    then show ?thesis using run v(3,4) frame_trans[OF fv] b c
      by (intro exI[of _ w] exI[of _ ns2] exI[of _ "db @ [c]"] exI[of _ fi2] exI[of _ cs]) (simp add: nth_append)
  qed
qed

end

end
