(* ===== verification/Lfs_Files.thy ===== *)
theory Lfs_Files
  imports Lfs_Position
begin

text \<open>
  The operations on an open file against a file that is a list of bytes with a position. They are
  applied when nobody else holds the two mutexes; the kernel's state is then the same afterwards.
\<close>

section \<open>Files\<close>

text \<open>I and D are the index blocks and the data blocks that belong to the file or to nobody. The byte
  pointer is behind the block, or at the position in the block that is in memory.\<close>

definition file_rel :: "('d \<Rightarrow> int \<Rightarrow> int list) \<Rightarrow> int \<Rightarrow> int \<Rightarrow> ('d \<Rightarrow> bool) \<Rightarrow> int \<Rightarrow> int \<Rightarrow> int set \<Rightarrow> int set \<Rightarrow> int list \<Rightarrow> nat \<Rightarrow> 'd lfst \<Rightarrow> bool" where
  "file_rel content n dev ok ds i I D xs p s \<longleftrightarrow> (\<exists>ns db fi fd.
     lfs_rep content n dev ok ds i ns db fi fd xs s \<and> I = set ns \<union> set fi \<and> D = set db \<union> set fd \<and>
     lfpos (lfltab s i) = int p \<and> p \<le> length xs \<and>
     (lfbyte (lfltab s i) = 512 \<or>
      lfbyte (lfltab s i) = p mod 512 \<and> p div 512 < length db \<and> lfdnum (lfltab s i) = db ! (p div 512)))"

text \<open>The block at the position is in memory.\<close>

definition at_block :: "('d \<Rightarrow> int \<Rightarrow> int list) \<Rightarrow> int \<Rightarrow> int \<Rightarrow> ('d \<Rightarrow> bool) \<Rightarrow> int \<Rightarrow> int \<Rightarrow> int set \<Rightarrow> int set \<Rightarrow> int list \<Rightarrow> nat \<Rightarrow> 'd lfst \<Rightarrow> bool" where
  "at_block content n dev ok ds i I D xs p s \<longleftrightarrow> (\<exists>ns db fi fd.
     lfs_rep content n dev ok ds i ns db fi fd xs s \<and> I = set ns \<union> set fi \<and> D = set db \<union> set fd \<and>
     lfpos (lfltab s i) = int p \<and> p \<le> length xs \<and>
     lfbyte (lfltab s i) = p mod 512 \<and> p div 512 < length db \<and> lfdnum (lfltab s i) = db ! (p div 512))"

definition mutexes :: "int \<Rightarrow> 'd lfst \<Rightarrow> bool" where
  "mutexes i s \<longleftrightarrow> mutex_ok (lf_mutex (Lf_data s)) (lkern s) \<and> mutex_ok (lfmutex (lfltab s i)) (lkern s) \<and>
     lf_mutex (Lf_data s) \<noteq> lfmutex (lfltab s i)"

lemma lf_lock: "mutex_ok m (lkern s) \<Longrightarrow> lf_call (wait m) s = Some (Done OK (s\<lparr>lkern := locked m (lkern s)\<rparr>))"
  by (simp add: lf_call_def kernel_call_def wait_mutex)

lemma lf_unlock:
  "lkern s = locked m k \<Longrightarrow> mutex_ok m k \<Longrightarrow> lf_call (signal m) s = Some (Done OK (s\<lparr>lkern := k\<rparr>))"
  by (simp add: lf_call_def kernel_call_def signal_mutex)

lemma fits_card:
  assumes "fits n ds ns db fi fd"
  shows "card (set ns \<union> set fi) = length ns + length fi" "card (set db \<union> set fd) = length db + length fd"
  using assms distinct_card[of "ns @ fi"] distinct_card[of "db @ fd"] by (simp_all add: fits_def)

lemma lfs_rep_lkern [simp]: "lfs_rep content n dev ok ds i ns db fi fd xs (s\<lparr>lkern := k\<rparr>) = lfs_rep content n dev ok ds i ns db fi fd xs s"
  by (simp add: lfs_rep_def entry_ok_def dirent_def)

lemma upd_lfl_lkern: "upd_lfl i f (s\<lparr>lkern := k\<rparr>) = (upd_lfl i f s)\<lparr>lkern := k\<rparr>"
  by (simp add: upd_lfl_def)

text \<open>A step between two states that apart from the kernel's state are as in frame.\<close>

lemma frame_lkern: "frame content n ds i I D (s\<lparr>lkern := k\<rparr>) t \<Longrightarrow> frame content n ds i I D s (t\<lparr>lkern := lkern s\<rparr>)"
  by (simp add: frame_def stays_def)

lemma mutexes_frame: "mutexes i s \<Longrightarrow> frame content n ds i I D s t \<Longrightarrow> mutexes i t"
  by (simp add: mutexes_def frame_def stays_def)

lemma data_ok_byte: "data_ok da f db xs \<Longrightarrow> q < length xs \<Longrightarrow> lfdnum f = db ! (q div 512) \<Longrightarrow> lfdblock f ! (q mod 512) = xs ! q"
  unfolding data_ok_def by presburger

lemma data_ok_put:
  assumes d: "data_ok da f db xs" and p: "p \<le> length xs" "p div 512 < length db" "lfdnum f = db ! (p div 512)"
    and db: "distinct db" and ch: "0 \<le> ch" "ch < 256"
  shows "data_ok da (f\<lparr>lfdblock := (lfdblock f)[p mod 512 := ch], lfdbdirty := True\<rparr>) db (take p xs @ ch # drop (Suc p) xs)"
proof (rule data_okI)
  let ?f = "f\<lparr>lfdblock := (lfdblock f)[p mod 512 := ch], lfdbdirty := True\<rparr>" and ?xs = "take p xs @ ch # drop (Suc p) xs"
  have l: "length (lfdblock f) = 512" "length xs \<le> 512 * length db" using d by (simp_all add: data_ok_def)
  have px: "p < 512 * length db" using p(2) by (simp add: div_less_iff_less_mult mult.commute)
  show len: "length ?xs \<le> 512 * length db" using l(2) p(1) px by (cases "Suc p \<le> length xs") auto
  show "\<forall>q < length ?xs. ?xs ! q = (if lfdnum ?f = db ! (q div 512) then lfdblock ?f else da (db ! (q div 512))) ! (q mod 512)"
  proof (intro allI impI)
    fix q assume q: "q < length ?xs"
    show "?xs ! q = (if lfdnum ?f = db ! (q div 512) then lfdblock ?f else da (db ! (q div 512))) ! (q mod 512)"
    proof (cases "q = p")
      case True
      then show ?thesis using p l by (simp add: nth_append)
    next
      case False
      have qx: "q < length xs" "?xs ! q = xs ! q" using q False p(1) by (auto simp: nth_append min_def split: if_splits)
      have qd: "q div 512 < length db" using data_pos[OF qx(1) l(2)] .
      have old: "xs ! q = (if lfdnum f = db ! (q div 512) then lfdblock f else da (db ! (q div 512))) ! (q mod 512)"
        using d qx(1) unfolding data_ok_def by blast
      have ne: "p mod 512 \<noteq> q mod 512" if "lfdnum f = db ! (q div 512)"
      proof
        assume "p mod 512 = q mod 512"
        with that have e: "lfdnum f = db ! (q div 512)" "q mod 512 = p mod 512" by simp_all
        then have "q div 512 = p div 512" using p(2,3) qd db by (simp add: nth_eq_iff_index_eq)
        then show False using e(2) False mult_div_mod_eq[of 512 q] mult_div_mod_eq[of 512 p] by simp
      qed
      show ?thesis
      proof (cases "lfdnum f = db ! (q div 512)")
        case True
        then show ?thesis using old qx(2) ne by simp
      next
        case False
        then show ?thesis using old qx(2) by simp
      qed
    qed
  qed
  show "lfdnum ?f = LF_DNULL \<and> \<not> lfdbdirty ?f \<or> lfdnum ?f \<in> set db" using p(2,3) by simp
  show "length (lfdblock ?f) = 512" using l by simp
  show "\<forall>x \<in> set ?xs. 0 \<le> x \<and> x < 256"
    using d ch by (auto simp: data_ok_def dest: in_set_takeD in_set_dropD)
qed simp

text \<open>A byte put at position p, bytes written from position p on, the result of a read of c bytes.\<close>

definition put_byte :: "nat \<Rightarrow> int \<Rightarrow> int list \<Rightarrow> int list" where
  "put_byte p ch xs = take p xs @ ch # drop (Suc p) xs"

definition write_at :: "nat \<Rightarrow> int list \<Rightarrow> int list \<Rightarrow> int list" where
  "write_at p bs xs = take p xs @ bs @ drop (p + length bs) xs"

definition read_result :: "nat \<Rightarrow> int list \<Rightarrow> nat \<Rightarrow> int" where
  "read_result p xs c = (if c = 0 then 0 else if p = length xs then LF_EOF else int (min c (length xs - p)))"

context lfs_disk
begin

abbreviation "filed \<equiv> file_rel content n dev ok"
abbreviation "blocked \<equiv> at_block content n dev ok"

lemma setup_ok:
  assumes r: "filed ds i I D xs p s" and m: "mutex_ok (lf_mutex (Lf_data s)) (lkern s)" and p: "p < 8192 * card I" "p < 512 * card D"
  shows "\<exists>t. lfsetup dk i s = Some (Done OK t) \<and> blocked ds i I D xs p t \<and> framed ds i I D s t"
proof -
  let ?m = "lf_mutex (Lf_data s)"
  obtain ns db fi fd where f: "rep ds i ns db fi fd xs s" "I = set ns \<union> set fi" "D = set db \<union> set fd" "lfpos (lfltab s i) = int p" "p \<le> length xs"
    using r by (auto simp: file_rel_def)
  have fit: "fits n ds ns db fi fd" using f(1) by (simp add: lfs_rep_def)
  have rm: "room p ns db fi fd" using p fits_card[OF fit] f(2,3) by (simp add: room_def)
  let ?s = "s\<lparr>lkern := locked ?m (lkern s)\<rparr>"
  obtain t ns' db' fi' fd' where t: "setup_locked dk i ?s = Some t" "rep ds i ns' db' fi' fd' xs t" "set ns' \<union> set fi' = I" "set db' \<union> set fd' = D"
    "framed ds i I D ?s t" "lfbyte (lfltab t i) = p mod 512" "p div 512 < length db'" "lfdnum (lfltab t i) = db' ! (p div 512)" "lfpos (lfltab t i) = int p"
    using setup_locked_ok[of ds i ns db fi fd xs ?s p] f rm by auto
  have k: "lkern t = locked ?m (lkern s)" "lf_mutex (Lf_data t) = ?m" using t(5) by (simp_all add: frame_def stays_def)
  have "lfsetup dk i s = Some (Done OK (t\<lparr>lkern := lkern s\<rparr>))"
    using lf_lock[OF m] t(1) lf_unlock[OF k(1) m] k(2) by (simp add: lfsetup_def)
  moreover have "blocked ds i I D xs p (t\<lparr>lkern := lkern s\<rparr>)"
    unfolding at_block_def
    by (rule exI[of _ ns'], rule exI[of _ db'], rule exI[of _ fi'], rule exI[of _ fd']) (use t f(5) in simp)
  ultimately show ?thesis using frame_lkern[OF t(5)] by blast
qed

lemma block_ok:
  assumes r: "filed ds i I D xs p s" and m: "mutex_ok (lf_mutex (Lf_data s)) (lkern s)" and p: "p < 8192 * card I" "p < 512 * card D"
  shows "\<exists>t. lfl_block dk i s = Some (Done OK t) \<and> blocked ds i I D xs p t \<and> framed ds i I D s t"
proof (cases "lfbyte (lfltab s i) = 512")
  case True
  then show ?thesis using setup_ok[OF assms] by (simp add: lfl_block_def LF_BLKSIZ_def)
next
  case False
  then have "blocked ds i I D xs p s" "lfbyte (lfltab s i) < 512" using r by (auto simp: file_rel_def at_block_def)
  then show ?thesis using frame_refl by (auto simp: lfl_block_def LF_BLKSIZ_def)
qed

lemma leave_ok:
  assumes "lkern s = locked (lfmutex (lfltab s i)) k" "mutex_ok (lfmutex (lfltab s i)) k"
  shows "lfl_leave i r s = Some (Done r (s\<lparr>lkern := k\<rparr>))"
  using lf_unlock[OF assms] by (simp add: lfl_leave_def)

text \<open>After a byte: the position and the byte pointer move on.\<close>

lemma byte_moved:
  assumes "p div 512 < length db" "d = db ! (p div 512)"
  shows "Suc (p mod 512) = 512 \<or> Suc (p mod 512) = Suc p mod 512 \<and> Suc p div 512 < length db \<and> d = db ! (Suc p div 512)"
proof (cases "Suc (p mod 512) = 512")
  case False
  then have "Suc p mod 512 = Suc (p mod 512)" by (simp add: mod_Suc)
  moreover have "Suc p div 512 = p div 512" using False by (simp add: div_Suc mod_Suc)
  ultimately show ?thesis using assms by simp
qed simp

lemma file_entry:
  assumes "filed ds i I D xs p s"
  obtains e where "dirent i s = Some e" "ld_size e = int (length xs)" "lfstate (lfltab s i) = LF_USED" "lfpos (lfltab s i) = int p" "p \<le> length xs"
  using assms by (auto simp: file_rel_def lfs_rep_def entry_ok_def)

section \<open>One byte\<close>

lemma enter_ok: "mutexes i s \<Longrightarrow> lfl_enter i s = Some (Done OK (s\<lparr>lkern := locked (lfmutex (lfltab s i)) (lkern s)\<rparr>))"
  by (simp add: lfl_enter_def lf_lock mutexes_def)

lemma filed_lkern: "filed ds i I D xs p (s\<lparr>lkern := k\<rparr>) = filed ds i I D xs p s"
  by (simp add: file_rel_def)

lemma dirent_lkern [simp]: "dirent i (s\<lparr>lkern := k\<rparr>) = dirent i s"
  by (simp add: dirent_def)

text \<open>Entering, going on with g, leaving with the result r: what remains to be shown of the part in between.\<close>

lemma section_ok:
  assumes m: "mutexes i s"
    and g: "\<And>u. u = s\<lparr>lkern := locked (lfmutex (lfltab s i)) (lkern s)\<rparr> \<Longrightarrow> \<exists>t. g u = lfl_leave i r t \<and> framed ds i I D u t \<and> P t"
    and P: "\<And>t k. P (t\<lparr>lkern := k\<rparr>) = P t"
  shows "\<exists>t. andthen (lfl_enter i s) (\<lambda>_. g) = Some (Done r t) \<and> framed ds i I D s t \<and> P t"
proof -
  let ?m = "lfmutex (lfltab s i)"
  let ?u = "s\<lparr>lkern := locked ?m (lkern s)\<rparr>"
  obtain t where t: "g ?u = lfl_leave i r t" "framed ds i I D ?u t" "P t" using g[OF refl] by blast
  have k: "lkern t = locked (lfmutex (lfltab t i)) (lkern s)" "lfmutex (lfltab t i) = ?m" using t(2) by (simp_all add: frame_def stays_def)
  have "lfl_leave i r t = Some (Done r (t\<lparr>lkern := lkern s\<rparr>))" by (rule leave_ok[OF k(1)]) (use m k(2) in \<open>simp add: mutexes_def\<close>)
  then show ?thesis using enter_ok[OF m] t frame_lkern[OF t(2)] P by (intro exI[of _ "t\<lparr>lkern := lkern s\<rparr>"]) simp
qed

lemma getc_eof:
  assumes r: "filed ds i I D xs p s" and m: "mutexes i s" and p: "p = length xs"
  shows "lflgetc dk i s = Some (Done LF_EOF s)"
proof -
  obtain e where e: "dirent i s = Some e" "ld_size e = int (length xs)" "lfstate (lfltab s i) = LF_USED" "lfpos (lfltab s i) = int p"
    using file_entry[OF r] by blast
  have "lfl_leave i LF_EOF (s\<lparr>lkern := locked (lfmutex (lfltab s i)) (lkern s)\<rparr>) = Some (Done LF_EOF s)"
    using leave_ok[of "s\<lparr>lkern := locked (lfmutex (lfltab s i)) (lkern s)\<rparr>" i "lkern s"] m by (simp add: mutexes_def)
  then show ?thesis using enter_ok[OF m] e p by (simp add: lflgetc_def)
qed

lemma blocked_read:
  assumes b: "blocked ds i I D xs p t" and p: "p < length xs"
  shows "elem_at (lfdblock (lfltab t i)) (lfbyte (lfltab t i)) = Some (xs ! p)" "and 255 (xs ! p) = xs ! p"
    "filed ds i I D xs (Suc p) (upd_lfl i (\<lambda>f. f\<lparr>lfbyte := lfbyte f + 1, lfpos := u32 (lfpos f + 1)\<rparr>) t)"
proof -
  obtain ns db fi fd where f: "rep ds i ns db fi fd xs t" "I = set ns \<union> set fi" "D = set db \<union> set fd" "lfpos (lfltab t i) = int p"
    "lfbyte (lfltab t i) = p mod 512" "p div 512 < length db" "lfdnum (lfltab t i) = db ! (p div 512)" using b by (auto simp: at_block_def)
  have d: "data_ok (dat_of ds (ldisk t)) (lfltab t i) db xs" "fits n ds ns db fi fd" using f(1) by (simp_all add: lfs_rep_def)
  have l: "length (lfdblock (lfltab t i)) = 512" "length xs \<le> 512 * length db" "\<forall>x \<in> set xs. 0 \<le> x \<and> x < 256" using d(1) by (simp_all add: data_ok_def)
  then have l34: "0 \<le> xs ! p" "xs ! p < 256" using nth_mem[OF p] by simp_all
  show "elem_at (lfdblock (lfltab t i)) (lfbyte (lfltab t i)) = Some (xs ! p)"
    using data_ok_byte[OF d(1) p f(7)] l(1) f(5) by (simp add: elem_at_def)
  have "and 255 (xs ! p) = take_bit 8 (xs ! p)" by (simp add: take_bit_eq_mask and.commute mask_eq_exp_minus_1)
  then show "and 255 (xs ! p) = xs ! p" using l34 by (simp add: take_bit_int_eq_self)
  let ?t = "upd_lfl i (\<lambda>f. f\<lparr>lfbyte := lfbyte f + 1, lfpos := u32 (lfpos f + 1)\<rparr>) t"
  have "entry_ok i ns xs ?t = entry_ok i ns xs t" by (rule entry_ok_cong) simp_all
  then have "rep ds i ns db fi fd xs ?t" using f(1) by (simp add: lfs_rep_def)
  moreover have "u32 (int p + 1) = int (Suc p)" using p l(2) fits_len[OF d(2)] size32 by (simp add: u32_id)
  ultimately show "filed ds i I D xs (Suc p) ?t"
    unfolding file_rel_def using f(2-5) byte_moved[OF f(6,7)] p
    by (intro exI[of _ ns] exI[of _ db] exI[of _ fi] exI[of _ fd]) simp
qed

lemma filed_room:
  assumes r: "filed ds i I D xs p s" and p: "p < length xs"
  shows "p < 8192 * card I" "p < 512 * card D"
proof -
  obtain ns db fi fd where f: "rep ds i ns db fi fd xs s" "I = set ns \<union> set fi" "D = set db \<union> set fd" using r by (auto simp: file_rel_def)
  have d: "data_ok (dat_of ds (ldisk s)) (lfltab s i) db xs" "fits n ds ns db fi fd" using f(1) by (simp_all add: lfs_rep_def)
  have "length xs \<le> 512 * length db" "length db \<le> 16 * length ns" using d by (simp_all add: data_ok_def fits_def)
  then show "p < 8192 * card I" "p < 512 * card D" using p fits_card[OF d(2)] f(2,3) by simp_all
qed

lemma getbyte_ok:
  assumes r: "filed ds i I D xs p s" and m: "mutexes i s" and p: "p < length xs"
  shows "\<exists>t. lflgetc dk i s = Some (Done (xs ! p) t) \<and> framed ds i I D s t \<and> filed ds i I D xs (Suc p) t"
  unfolding lflgetc_def
proof (rule section_ok[OF m])
  fix u assume u: "u = s\<lparr>lkern := locked (lfmutex (lfltab s i)) (lkern s)\<rparr>"
  have ru: "filed ds i I D xs p u" using r by (simp add: u filed_lkern)
  obtain e where e: "dirent i u = Some e" "ld_size e = int (length xs)" "lfstate (lfltab u i) = LF_USED" "lfpos (lfltab u i) = int p"
    using file_entry[OF ru] by blast
  have mu: "mutex_ok (lf_mutex (Lf_data u)) (lkern u)" using m by (simp add: u mutexes_def)
  obtain v where v: "lfl_block dk i u = Some (Done OK v)" "blocked ds i I D xs p v" "framed ds i I D u v"
    using block_ok[OF ru mu filed_room[OF ru p]] by blast
  note b = blocked_read[OF v(2) p]
  let ?t = "upd_lfl i (\<lambda>f. f\<lparr>lfbyte := lfbyte f + 1, lfpos := u32 (lfpos f + 1)\<rparr>) v"
  have "framed ds i I D v ?t" by (simp add: frame_def stays_def)
  then have "framed ds i I D u ?t" by (rule frame_trans[OF v(3)])
  then show "\<exists>t. (if lfstate (lfltab u i) \<noteq> LF_USED then lfl_leave i SYSERR u
       else do {
         ld \<leftarrow> dirent i u;
         if lfpos (lfltab u i) \<ge> ld_size ld then lfl_leave i LF_EOF u
         else andthen (lfl_block dk i u) (\<lambda>_ s. do {
           onebyte \<leftarrow> elem_at (lfdblock (lfltab s i)) (lfbyte (lfltab s i));
           lfl_leave i (and 255 onebyte) (upd_lfl i (\<lambda>f. f\<lparr>lfbyte := lfbyte f + 1, lfpos := u32 (lfpos f + 1)\<rparr>) s) }) }) = lfl_leave i (xs ! p) t \<and>
      framed ds i I D u t \<and> filed ds i I D xs (Suc p) t"
    using e p v(1) b by (intro exI[of _ ?t]) simp
qed (simp add: filed_lkern)

text \<open>Writing a byte over another one, or behind the last one.\<close>

lemma put_byte_length: "p \<le> length xs \<Longrightarrow> Suc p \<le> length (put_byte p b xs)"
  by (auto simp: put_byte_def min_def)

lemma blocked_grow:
  assumes b: "blocked ds i I D xs p v" and ch: "0 \<le> ch" "ch < 256"
  shows "\<exists>u. (do { ld \<leftarrow> dirent i v;
       (if lfpos (lfltab v i) \<ge> ld_size ld then do {
          s \<leftarrow> upd_dirent i (\<lambda>e. e\<lparr>ld_size := u32 (ld_size e + 1)\<rparr>) v;
          Some (upd_lfd (\<lambda>g. g\<lparr>lf_dirdirty := True\<rparr>) s) } else Some v) }) = Some u \<and>
     elem_at (lfdblock (lfltab u i)) (lfbyte (lfltab u i)) \<noteq> None \<and>
     framed ds i I D v (upd_lfl i (\<lambda>f. f\<lparr>lfdblock := (lfdblock f)[lfbyte f := ch], lfbyte := lfbyte f + 1,
             lfpos := u32 (lfpos f + 1), lfdbdirty := True\<rparr>) u) \<and>
     filed ds i I D (put_byte p ch xs) (Suc p) (upd_lfl i (\<lambda>f. f\<lparr>lfdblock := (lfdblock f)[lfbyte f := ch], lfbyte := lfbyte f + 1,
             lfpos := u32 (lfpos f + 1), lfdbdirty := True\<rparr>) u) \<and> (length xs \<le> p \<longrightarrow> lf_dirdirty (Lf_data u))"
proof -
  obtain ns db fi fd where f: "rep ds i ns db fi fd xs v" "I = set ns \<union> set fi" "D = set db \<union> set fd" "lfpos (lfltab v i) = int p" "p \<le> length xs"
    "lfbyte (lfltab v i) = p mod 512" "p div 512 < length db" "lfdnum (lfltab v i) = db ! (p div 512)" using b by (auto simp: at_block_def)
  have d: "data_ok (dat_of ds (ldisk v)) (lfltab v i) db xs" "fits n ds ns db fi fd" "entry_ok i ns xs v" using f(1) by (simp_all add: lfs_rep_def)
  obtain e where e: "dirent i v = Some e" "ld_size e = int (length xs)" "ld_ilist e = first_ib ns" using rep_entry[OF f(1)] by blast
  have l: "length (lfdblock (lfltab v i)) = 512" "length xs \<le> 512 * length db" using d(1) by (simp_all add: data_ok_def)
  have sz: "u32 (int (length xs) + 1) = int (length xs) + 1" "u32 (int p + 1) = int (Suc p)"
    using l(2) f(5) fits_len[OF d(2)] size32 by (simp_all add: u32_id)
  obtain u where u: "(if p \<ge> length xs then do {
          s \<leftarrow> upd_dirent i (\<lambda>e. e\<lparr>ld_size := u32 (ld_size e + 1)\<rparr>) v;
          Some (upd_lfd (\<lambda>g. g\<lparr>lf_dirdirty := True\<rparr>) s) } else Some v) = Some u" "wf_dir (the_dir u)"
    "dirent i u = Some (if p \<ge> length xs then e\<lparr>ld_size := int (length xs) + 1\<rparr> else e)" "stays i v u" "lfltab u = lfltab v" "ldisk u = ldisk v"
    "lfd_ifree (the_dir u) = lfd_ifree (the_dir v)" "lfd_dfree (the_dir u) = lfd_dfree (the_dir v)" "length xs \<le> p \<longrightarrow> lf_dirdirty (Lf_data u)"
  proof (cases "p \<ge> length xs")
    case True
    obtain t where t: "upd_dirent i (\<lambda>e. e\<lparr>ld_size := u32 (ld_size e + 1)\<rparr>) v = Some t" "wf_dir (the_dir t)"
      "dirent i t = Some (e\<lparr>ld_size := u32 (ld_size e + 1)\<rparr>)" "stays i v t" "lfltab t = lfltab v" "ldisk t = ldisk v"
      "lfd_ifree (the_dir t) = lfd_ifree (the_dir v)" "lfd_dfree (the_dir t) = lfd_dfree (the_dir v)"
      using upd_dirent_ok[OF d(3) e(1), of "\<lambda>e. e\<lparr>ld_size := u32 (ld_size e + 1)\<rparr>"] by auto
    let ?u = "upd_lfd (\<lambda>g. g\<lparr>lf_dirdirty := True\<rparr>) t"
    have "stays i t ?u" by (simp add: stays_def)
    moreover have "dirent i ?u = dirent i t" by (rule dirent_cong) simp_all
    ultimately show thesis using that[of ?u] t True e(2) sz(1) stays_trans[OF t(4)] by simp
  next
    case False
    then show thesis using that[of v] e(1) d(3) stays_refl[of i v] by (simp add: entry_ok_def)
  qed
  let ?t = "upd_lfl i (\<lambda>f. f\<lparr>lfdblock := (lfdblock f)[lfbyte f := ch], lfbyte := lfbyte f + 1, lfpos := u32 (lfpos f + 1), lfdbdirty := True\<rparr>) u"
  let ?xs = "put_byte p ch xs"
  have lt: "lfltab ?t i = (lfltab v i)\<lparr>lfdblock := (lfdblock (lfltab v i))[p mod 512 := ch], lfbyte := Suc (p mod 512), lfpos := int (Suc p), lfdbdirty := True\<rparr>"
    using u(5) f(4,6) sz(2) by simp
  have "length ?xs = (if p \<ge> length xs then Suc (length xs) else length xs)" using f(5) by (auto simp: put_byte_def min_def)
  moreover have "dirent i ?t = dirent i u" by (rule dirent_cong) simp_all
  ultimately have en: "entry_ok i ns ?xs ?t" using u(2,3) e(2,3) by (simp add: entry_ok_def)
  have dn: "data_ok (dat_of ds (ldisk v)) (lfltab ?t i) db ?xs"
  proof -
    have "distinct db" using d(2) by (simp add: fits_def)
    from data_ok_put[OF d(1) f(5,7,8) this ch] show ?thesis
      unfolding put_byte_def by (rule iffD1[OF data_ok_cong, rotated -1]) (simp_all add: u(5) f(6))
  qed
  have ix: "index_ok (ib_of ds (ldisk v)) (lfltab ?t i) ns db" using f(1) lt by (simp add: lfs_rep_def)
  have st: "stays i v ?t" using u(4,5) by (simp add: stays_def)
  have fr: "free_ok (ib_of ds (ldisk v)) (dat_of ds (ldisk v)) (the_dir ?t) fi fd" using f(1) u(7,8) by (simp add: lfs_rep_def free_ok_def)
  have "lf_dskdev (Lf_data ?t) = dev" "length (lf_rubbish ?t) = 508" "lfstate (lfltab ?t i) = LF_USED"
    using f(1) st lt by (simp_all add: lfs_rep_def stays_def)
  then have "rep ds i ns db fi fd ?xs ?t" using f(1) en dn ix fr u(6) by (simp add: lfs_rep_def)
  then have "filed ds i I D ?xs (Suc p) ?t"
    unfolding file_rel_def lt using f(2,3) byte_moved[OF f(7,8)] put_byte_length[OF f(5)]
    by - (rule exI[of _ ns], rule exI[of _ db], rule exI[of _ fi], rule exI[of _ fd], simp)
  moreover have "framed ds i I D v ?t" using st u(6) by (simp add: frame_def)
  moreover have "elem_at (lfdblock (lfltab u i)) (lfbyte (lfltab u i)) \<noteq> None" using l(1) f(6) u(5) by (simp add: elem_at_def)
  moreover have "lfpos (lfltab v i) \<ge> ld_size e \<longleftrightarrow> p \<ge> length xs" using f(4) e(2) by simp
  ultimately show ?thesis using e(1) u(1,9) by (intro exI[of _ u]) (simp del: if_split cong: if_cong)
qed

lemma putc_ok:
  assumes r: "filed ds i I D xs p s" and m: "mutexes i s" and p: "p < 8192 * card I" "p < 512 * card D" and ch: "0 \<le> ch" "ch < 256"
  shows "\<exists>t. lflputc dk i ch s = Some (Done OK t) \<and> framed ds i I D s t \<and> filed ds i I D (put_byte p ch xs) (Suc p) t \<and> (length xs \<le> p \<longrightarrow> lf_dirdirty (Lf_data t))"
  unfolding lflputc_def
proof (rule section_ok[OF m, where P = "\<lambda>t. filed ds i I D (put_byte p ch xs) (Suc p) t \<and> (length xs \<le> p \<longrightarrow> lf_dirdirty (Lf_data t))"])
  fix u assume u: "u = s\<lparr>lkern := locked (lfmutex (lfltab s i)) (lkern s)\<rparr>"
  have ru: "filed ds i I D xs p u" using r by (simp add: u filed_lkern)
  obtain e where e: "dirent i u = Some e" "ld_size e = int (length xs)" "lfstate (lfltab u i) = LF_USED" "lfpos (lfltab u i) = int p" "p \<le> length xs"
    using file_entry[OF ru] by blast
  have mu: "mutex_ok (lf_mutex (Lf_data u)) (lkern u)" using m by (simp add: u mutexes_def)
  obtain v where v: "lfl_block dk i u = Some (Done OK v)" "blocked ds i I D xs p v" "framed ds i I D u v" using block_ok[OF ru mu p] by blast
  obtain w where w: "(do { ld \<leftarrow> dirent i v;
       (if lfpos (lfltab v i) \<ge> ld_size ld then do {
          s \<leftarrow> upd_dirent i (\<lambda>e. e\<lparr>ld_size := u32 (ld_size e + 1)\<rparr>) v;
          Some (upd_lfd (\<lambda>g. g\<lparr>lf_dirdirty := True\<rparr>) s) } else Some v) }) = Some w"
    "elem_at (lfdblock (lfltab w i)) (lfbyte (lfltab w i)) \<noteq> None"
    "framed ds i I D v (upd_lfl i (\<lambda>f. f\<lparr>lfdblock := (lfdblock f)[lfbyte f := ch], lfbyte := lfbyte f + 1, lfpos := u32 (lfpos f + 1), lfdbdirty := True\<rparr>) w)"
    "filed ds i I D (put_byte p ch xs) (Suc p) (upd_lfl i (\<lambda>f. f\<lparr>lfdblock := (lfdblock f)[lfbyte f := ch], lfbyte := lfbyte f + 1, lfpos := u32 (lfpos f + 1), lfdbdirty := True\<rparr>) w)"
    "length xs \<le> p \<longrightarrow> lf_dirdirty (Lf_data w)"
    using blocked_grow[OF v(2) ch] by blast
  let ?t = "upd_lfl i (\<lambda>f. f\<lparr>lfdblock := (lfdblock f)[lfbyte f := ch], lfbyte := lfbyte f + 1, lfpos := u32 (lfpos f + 1), lfdbdirty := True\<rparr>) w"
  obtain ld where ld: "dirent i v = Some ld" using w(1) by (auto split: bind_splits)
  obtain b where b: "elem_at (lfdblock (lfltab w i)) (lfbyte (lfltab w i)) = Some b" using w(2) by blast
  have "\<not> lfpos (lfltab u i) > ld_size e" using e by simp
  then show "\<exists>t. (if lfstate (lfltab u i) \<noteq> LF_USED then lfl_leave i SYSERR u
       else do {
         ld \<leftarrow> dirent i u;
         if lfpos (lfltab u i) > ld_size ld then lfl_leave i SYSERR u
         else andthen (lfl_block dk i u) (\<lambda>_ s. do {
           ld \<leftarrow> dirent i s;
           s \<leftarrow> (if lfpos (lfltab s i) \<ge> ld_size ld then do {
                  s \<leftarrow> upd_dirent i (\<lambda>e. e\<lparr>ld_size := u32 (ld_size e + 1)\<rparr>) s;
                  Some (upd_lfd (\<lambda>g. g\<lparr>lf_dirdirty := True\<rparr>) s) }
                else Some s);
           _ \<leftarrow> elem_at (lfdblock (lfltab s i)) (lfbyte (lfltab s i));
           lfl_leave i OK (upd_lfl i (\<lambda>f. f\<lparr>lfdblock := (lfdblock f)[lfbyte f := ch], lfbyte := lfbyte f + 1,
             lfpos := u32 (lfpos f + 1), lfdbdirty := True\<rparr>) s) }) }) = lfl_leave i OK t \<and>
      framed ds i I D u t \<and> filed ds i I D (put_byte p ch xs) (Suc p) t \<and> (length xs \<le> p \<longrightarrow> lf_dirdirty (Lf_data t))"
    using e(1,3) v(1) w(1) ld b w(4,5) frame_trans[OF v(3) w(3)] by (intro exI[of _ ?t]) (simp del: if_split cong: if_cong)
qed (simp add: filed_lkern)

section \<open>Seeking\<close>

lemma seek_ok:
  assumes r: "filed ds i I D xs p s" and m: "mutexes i s" and k: "k \<le> length xs"
  shows "\<exists>t. lflseek i (int k) s = Some (Done OK t) \<and> framed ds i I D s t \<and> filed ds i I D xs k t"
  unfolding lflseek_def
proof (rule section_ok[OF m])
  fix u assume u: "u = s\<lparr>lkern := locked (lfmutex (lfltab s i)) (lkern s)\<rparr>"
  have ru: "filed ds i I D xs p u" using r by (simp add: u filed_lkern)
  obtain e where e: "dirent i u = Some e" "ld_size e = int (length xs)" "lfstate (lfltab u i) = LF_USED"
    using file_entry[OF ru] by blast
  let ?t = "upd_lfl i (\<lambda>f. f\<lparr>lfpos := int k, lfbyte := nat LF_BLKSIZ\<rparr>) u"
  obtain ns db fi fd where f: "rep ds i ns db fi fd xs u" "I = set ns \<union> set fi" "D = set db \<union> set fd" using ru by (auto simp: file_rel_def)
  have "entry_ok i ns xs ?t = entry_ok i ns xs u" by (rule entry_ok_cong) simp_all
  then have "rep ds i ns db fi fd xs ?t" using f(1) by (simp add: lfs_rep_def)
  then have "filed ds i I D xs k ?t" unfolding file_rel_def using f(2,3) k
    by (intro exI[of _ ns] exI[of _ db] exI[of _ fi] exI[of _ fd]) (simp add: LF_BLKSIZ_def)
  moreover have "framed ds i I D u ?t" by (simp add: frame_def stays_def)
  ultimately show "\<exists>t. (if lfstate (lfltab u i) \<noteq> LF_USED then lfl_leave i SYSERR u
       else do {
         ld \<leftarrow> dirent i u;
         if int k > ld_size ld then lfl_leave i SYSERR u
         else lfl_leave i OK (upd_lfl i (\<lambda>f. f\<lparr>lfpos := int k, lfbyte := nat LF_BLKSIZ\<rparr>) u) }) = lfl_leave i OK t \<and>
      framed ds i I D u t \<and> filed ds i I D xs k t"
    using e k by (intro exI[of _ ?t]) simp
qed (simp add: filed_lkern)

lemma seek_beyond:
  assumes r: "filed ds i I D xs p s" and m: "mutexes i s" and k: "int (length xs) < k"
  shows "\<exists>t. lflseek i k s = Some (Done SYSERR t) \<and> framed ds i I D s t \<and> filed ds i I D xs p t"
  unfolding lflseek_def
proof (rule section_ok[OF m])
  fix u assume u: "u = s\<lparr>lkern := locked (lfmutex (lfltab s i)) (lkern s)\<rparr>"
  have ru: "filed ds i I D xs p u" using r by (simp add: u filed_lkern)
  obtain e where e: "dirent i u = Some e" "ld_size e = int (length xs)" "lfstate (lfltab u i) = LF_USED"
    using file_entry[OF ru] by blast
  then show "\<exists>t. (if lfstate (lfltab u i) \<noteq> LF_USED then lfl_leave i SYSERR u
       else do {
         ld \<leftarrow> dirent i u;
         if k > ld_size ld then lfl_leave i SYSERR u
         else lfl_leave i OK (upd_lfl i (\<lambda>f. f\<lparr>lfpos := k, lfbyte := nat LF_BLKSIZ\<rparr>) u) }) = lfl_leave i SYSERR t \<and>
      framed ds i I D u t \<and> filed ds i I D xs p t"
    using k ru frame_refl by (intro exI[of _ u]) simp
qed (simp add: filed_lkern)

section \<open>Reading and writing strings of bytes\<close>

text \<open>What lflread returns with count c at position p.\<close>

lemma put_byte_in: "p < length xs \<Longrightarrow> drop p xs = xs ! p # drop (Suc p) xs"
  by (simp add: Cons_nth_drop_Suc)

lemma filed_byte: "filed ds i I D xs p s \<Longrightarrow> x \<in> set xs \<Longrightarrow> 0 \<le> x \<and> x < 256"
  unfolding file_rel_def lfs_rep_def data_ok_def by blast

lemma and255: assumes "0 \<le> x" "x < 256" shows "and 255 x = (x :: int)"
proof -
  have "and 255 x = take_bit 8 x" by (simp add: take_bit_eq_mask and.commute mask_eq_exp_minus_1)
  then show ?thesis using assms by (simp add: take_bit_int_eq_self)
qed

lemma read_loop:
  assumes "filed ds i I D xs p s" "mutexes i s"
  shows "\<exists>t. lflread_loop dk i c k buff m s = Some (Done
      (if c \<le> length xs - p then int (k + c) else if k + (length xs - p) = 0 then LF_EOF else int (k + (length xs - p)),
       put m (buff + int k) (take c (drop p xs))) t) \<and>
    framed ds i I D s t \<and> filed ds i I D xs (p + min c (length xs - p)) t"
  using assms
proof (induction c arbitrary: k m s p)
  case 0
  then show ?case using frame_refl by auto
next
  case (Suc c)
  have le: "p \<le> length xs" using file_entry[OF Suc.prems(1)] by blast
  show ?case
  proof (cases "p = length xs")
    case True
    have "lflread_loop dk i (Suc c) k buff m s = Some (Done (if k = 0 then LF_EOF else int k, m) s)"
      using getc_eof[OF Suc.prems True] by (simp add: LF_EOF_def)
    then show ?thesis using True Suc.prems frame_refl by auto
  next
    case False
    then have p: "p < length xs" using le by simp
    obtain t where t: "lflgetc dk i s = Some (Done (xs ! p) t)" "framed ds i I D s t" "filed ds i I D xs (Suc p) t"
      using getbyte_ok[OF Suc.prems p] by blast
    have x: "0 \<le> xs ! p" "xs ! p < 256" using filed_byte[OF Suc.prems(1) nth_mem[OF p]] by auto
    obtain u where u: "lflread_loop dk i c (k + 1) buff (m(buff + int k := xs ! p)) t = Some (Done
      (if c \<le> length xs - Suc p then int (k + 1 + c) else if k + 1 + (length xs - Suc p) = 0 then LF_EOF else int (k + 1 + (length xs - Suc p)),
       put (m(buff + int k := xs ! p)) (buff + int (k + 1)) (take c (drop (Suc p) xs))) u)"
      "framed ds i I D t u" "filed ds i I D xs (Suc p + min c (length xs - Suc p)) u"
      using Suc.IH[OF t(3) mutexes_frame[OF Suc.prems(2) t(2)]] by blast
    have "lflread_loop dk i (Suc c) k buff m s = lflread_loop dk i c (k + 1) buff (m(buff + int k := xs ! p)) t"
      using t(1) x and255[OF x] by (simp add: LF_EOF_def)
    moreover have "take (Suc c) (drop p xs) = xs ! p # take c (drop (Suc p) xs)" by (simp add: put_byte_in[OF p])
    ultimately have "lflread_loop dk i (Suc c) k buff m s = Some (Done
      (if Suc c \<le> length xs - p then int (k + Suc c) else if k + (length xs - p) = 0 then LF_EOF else int (k + (length xs - p)),
       put m (buff + int k) (take (Suc c) (drop p xs))) u)"
      using u(1) p by (auto simp: put_Cons add.assoc add.commute add.left_commute)
    moreover have "filed ds i I D xs (p + min (Suc c) (length xs - p)) u" 
    proof -
      have "Suc p + min c (length xs - Suc p) = p + min (Suc c) (length xs - p)" using p by auto
      then show ?thesis using u(3) by argo
    qed
    ultimately show ?thesis using frame_trans[OF t(2) u(2)] by blast
  qed
qed

lemma read_ok:
  assumes r: "filed ds i I D xs p s" and m: "mutexes i s"
  shows "\<exists>t. lflread dk i buff (int c) m s = Some (Done (read_result p xs c, put m buff (take c (drop p xs))) t) \<and>
    framed ds i I D s t \<and> filed ds i I D xs (p + min c (length xs - p)) t"
proof -
  have "p \<le> length xs" using file_entry[OF r] by blast
  then have "(if c \<le> length xs - p then int (0 + c) else if 0 + (length xs - p) = 0 then LF_EOF else int (0 + (length xs - p))) = read_result p xs c"
    by (auto simp: read_result_def)
  then show ?thesis using read_loop[OF r m, of c 0 buff m] by (simp add: lflread_def)
qed

lemma write_at_Cons: "p \<le> length xs \<Longrightarrow> write_at (Suc p) bs (put_byte p b xs) = write_at p (b # bs) xs"
  by (simp add: write_at_def put_byte_def min_def add.commute)

lemma write_loop:
  assumes "filed ds i I D xs p s" "mutexes i s" "p + length bs \<le> 8192 * card I" "p + length bs \<le> 512 * card D"
    "\<forall>b \<in> set bs. 0 \<le> b \<and> b < 256" "\<And>j. j < length bs \<Longrightarrow> m (buff + int j) = bs ! j"
  shows "\<exists>t. lflwrite_loop dk i (length bs) buff m count s = Some (Done count t) \<and> framed ds i I D s t \<and>
    filed ds i I D (write_at p bs xs) (p + length bs) t \<and> (length xs < p + length bs \<longrightarrow> lf_dirdirty (Lf_data t))"
  using assms
proof (induction bs arbitrary: s p xs buff)
  case Nil
  have "p \<le> length xs" using file_entry[OF Nil.prems(1)] by blast
  then show ?case using Nil frame_refl by (auto simp: write_at_def)
next
  case (Cons b bs)
  have le: "p \<le> length xs" using file_entry[OF Cons.prems(1)] by blast
  have b: "m buff = b" using Cons.prems(6)[of 0] by simp
  obtain t where t: "lflputc dk i b s = Some (Done OK t)" "framed ds i I D s t" "filed ds i I D (put_byte p b xs) (Suc p) t"
    "length xs \<le> p \<longrightarrow> lf_dirdirty (Lf_data t)"
    using putc_ok[OF Cons.prems(1,2), of b] Cons.prems(3-5) by auto
  have m: "m (buff + 1 + int j) = bs ! j" if "j < length bs" for j
    using Cons.prems(6)[of "Suc j"] that by (simp add: add.assoc)
  obtain u where u: "lflwrite_loop dk i (length bs) (buff + 1) m count t = Some (Done count u)" "framed ds i I D t u"
    "filed ds i I D (write_at (Suc p) bs (put_byte p b xs)) (Suc p + length bs) u"
    "length (put_byte p b xs) < Suc p + length bs \<longrightarrow> lf_dirdirty (Lf_data u)"
    using Cons.IH[OF t(3) mutexes_frame[OF Cons.prems(2) t(2)] _ _ _ m] Cons.prems(3-5) by auto
  have "length xs < p + length (b # bs) \<longrightarrow> lf_dirdirty (Lf_data u)"
  proof (cases bs)
    case Nil
    then show ?thesis using u(1) t(4) by auto
  next
    case (Cons c cs)
    then show ?thesis using u(4) le by (cases "length xs = p") (auto simp: put_byte_def min_def)
  qed
  then show ?case using b t(1) u(1-3) frame_trans[OF t(2) u(2)] write_at_Cons[OF le] by (intro exI[of _ u]) simp
qed

lemma write_ok:
  assumes "filed ds i I D xs p s" "mutexes i s" "p + length bs \<le> 8192 * card I" "p + length bs \<le> 512 * card D"
    "\<forall>b \<in> set bs. 0 \<le> b \<and> b < 256" "\<And>j. j < length bs \<Longrightarrow> m (buff + int j) = bs ! j"
  shows "\<exists>t. lflwrite dk i buff (int (length bs)) m s = Some (Done (int (length bs)) t) \<and> framed ds i I D s t \<and>
    filed ds i I D (write_at p bs xs) (p + length bs) t \<and> (length xs < p + length bs \<longrightarrow> lf_dirdirty (Lf_data t))"
  using write_loop[OF assms] by (simp add: lflwrite_def)

end

end
