(* ===== verification/Lfs_Truncate.thy ===== *)
theory Lfs_Truncate
  imports Lfs_Files
begin

text \<open>
  Truncation: the data blocks of a file go to the front of the list of free data blocks, one after
  the other, and the chain of its index blocks, cleared, to the front of the list of free index blocks.
\<close>

section \<open>The blocks of a file\<close>

definition some_blocks :: "int list \<Rightarrow> int list" where
  "some_blocks dba = filter (\<lambda>c. c \<noteq> LF_DNULL) dba"

lemma some_blocks_ibl:
  assumes "LF_DNULL \<notin> set db" shows "some_blocks (ib_dba (ibl ns db j)) = take 16 (drop (16 * j) db)"
proof -
  have m: "map (\<lambda>k. if 16 * j + k < length db then db ! (16 * j + k) else LF_DNULL) [0..<16] =
    take 16 (drop (16 * j) db) @ replicate (16 - length (drop (16 * j) db)) LF_DNULL"
    by (rule nth_equalityI) (auto simp: nth_append)
  have "filter (\<lambda>c. c \<noteq> LF_DNULL) (take 16 (drop (16 * j) db)) = take 16 (drop (16 * j) db)"
    using assms by (auto simp: filter_id_conv dest!: in_set_takeD in_set_dropD)
  then show ?thesis unfolding some_blocks_def ibl_def LF_IBLEN_def by (simp add: m[unfolded if_distrib] m)
qed

lemma concat_chunks: "concat (map (\<lambda>j. take 16 (drop (16 * j) db)) [0..<k]) = take (16 * k) db"
proof (induction k)
  case (Suc k)
  have "take (16 * k) db @ take 16 (drop (16 * k) db) = take (16 * k + 16) db" by (simp add: take_add)
  then show ?case using Suc by (simp add: add.commute)
qed simp

primrec ichain :: "(int \<Rightarrow> lfiblk) \<Rightarrow> (int \<times> int list) list \<Rightarrow> bool" where
  "ichain ib [] \<longleftrightarrow> True"
| "ichain ib (x # bl) \<longleftrightarrow> ib_next (ib (fst x)) = first_ib (map fst bl) \<and> ib_dba (ib (fst x)) = snd x \<and> ichain ib bl"

lemma ichain_cong: "(\<And>b. b \<in> fst ` set bl \<Longrightarrow> f b = g b) \<Longrightarrow> ichain f bl = ichain g bl"
  by (induction bl) auto

definition file_blocks :: "int list \<Rightarrow> int list \<Rightarrow> nat \<Rightarrow> (int \<times> int list) list" where
  "file_blocks ns db k = map (\<lambda>j. (ns ! j, ib_dba (ibl ns db j))) [k..<length ns]"

lemma file_blocks_Cons: "k < length ns \<Longrightarrow> file_blocks ns db k = (ns ! k, ib_dba (ibl ns db k)) # file_blocks ns db (Suc k)"
  by (simp add: file_blocks_def upt_conv_Cons)

lemma map_fst_file_blocks: "map fst (file_blocks ns db k) = drop k ns"
  by (auto simp: file_blocks_def intro: nth_equalityI)

lemma ichain_file:
  assumes "\<forall>j < length ns. ib (ns ! j) = ibl ns db j" "k \<le> length ns"
  shows "ichain ib (file_blocks ns db k)"
  using assms(2)
proof (induction "length ns - k" arbitrary: k)
  case 0
  then show ?case by (simp add: file_blocks_def)
next
  case (Suc d)
  then have k: "k < length ns" by simp
  have "first_ib (drop (Suc k) ns) = ib_next (ibl ns db k)"
    by (cases "Suc k < length ns") (simp_all add: ibl_def first_ib_def Cons_nth_drop_Suc[symmetric])
  then show ?case using Suc k assms(1) by (simp add: file_blocks_Cons map_fst_file_blocks)
qed

lemma freed_blocks:
  assumes "LF_DNULL \<notin> set db" "length db \<le> 16 * length ns"
  shows "concat (map (some_blocks \<circ> snd) (file_blocks ns db 0)) = db"
  using assms by (simp add: file_blocks_def comp_def some_blocks_ibl concat_chunks)

lemma same_dir: "\<exists>a. d = d\<lparr>lfd_dfree := a\<rparr>"
  by (rule exI[of _ "lfd_dfree d"]) simp

context lfs_disk
begin

text \<open>What freeing blocks keeps: ib is the array of index blocks, da that of data blocks.\<close>

definition ready :: "int \<Rightarrow> _ \<Rightarrow> bool" where
  "ready ds s \<longleftrightarrow> ok (ldisk s) \<and> lf_dskdev (Lf_data s) = dev \<and> wf_dir (the_dir s) \<and> length (lf_rubbish s) = 508 \<and> 1 \<le> ds \<and> ds \<le> n"

lemma links_range:
  assumes "links nxt a fd" "\<forall>c \<in> set fd. ds \<le> c \<and> c < n" "1 \<le> ds"
  shows "i32 a = a"
proof -
  have "a = -1 \<or> a \<in> set fd" using assms(1) by (cases fd) auto
  then show ?thesis
  proof
    assume "a \<in> set fd"
    then have "1 \<le> a" "a < 4194304" using assms(2,3) size32 by force+
    then show ?thesis by (simp add: i32_id)
  qed (simp add: i32_id)
qed

lemma dbfree_ok:
  assumes s: "ready ds s" and c: "ds \<le> c" "c < n" "c \<notin> set fd" and fd: "\<forall>c \<in> set fd. ds \<le> c \<and> c < n"
    and l: "links (next_db (dat_of ds (ldisk s))) (lfd_dfree (the_dir s)) fd"
  shows "\<exists>t. lfdbfree dk c s = Some (OK, t) \<and> ready ds t \<and> links (next_db (dat_of ds (ldisk t))) (lfd_dfree (the_dir t)) (c # fd) \<and>
    ib_of ds (ldisk t) = ib_of ds (ldisk s) \<and> (\<forall>x. x \<noteq> c \<longrightarrow> dat_of ds (ldisk t) x = dat_of ds (ldisk s) x) \<and>
    the_dir t = (the_dir s)\<lparr>lfd_dfree := c\<rparr> \<and> stays i s t \<and> lfltab t = lfltab s"
proof -
  let ?bs = "le32 (lfd_dfree (the_dir s)) @ lf_rubbish s"
  let ?s = "upd_dir (\<lambda>d. d\<lparr>lfd_dfree := c\<rparr>) s"
  have g: "ok (ldisk s)" "lf_dskdev (Lf_data s) = dev" "1 \<le> ds" "ds \<le> n" "length ?bs = 512" using s by (simp_all add: ready_def)
  obtain e where e: "dwrite dk dev ?bs c (ldisk s) = Some (OK, e)" "ok e" "dat_of ds e = (dat_of ds (ldisk s))(c := ?bs)" "ib_of ds e = ib_of ds (ldisk s)"
    using data_write[OF g(1) c(1,2) g(5) g(3,4)] by blast
  have w: "wf_dir (the_dir (?s\<lparr>ldisk := e\<rparr>))" using s by (simp add: ready_def wf_dir_def)
  obtain h where h: "lf_write_dir dk (?s\<lparr>ldisk := e\<rparr>) = Some (?s\<lparr>ldisk := h\<rparr>)" "ok h" "ib_of ds h = ib_of ds e" "dat_of ds h = dat_of ds e"
    using write_dir_ok[OF _ _ w g(3,4)] e(2) g(2) by auto
  let ?t = "?s\<lparr>ldisk := h\<rparr>"
  have "lfdbfree dk c s = Some (OK, ?t)" using e(1) h(1) g(2) by (simp add: lfdbfree_def lf_write_def Let_def)
  moreover have "ready ds ?t" using s h(2) by (simp add: ready_def wf_dir_def)
  moreover have "links (next_db (dat_of ds h)) c (c # fd)"
  proof -
    have "next_db (dat_of ds h) c = lfd_dfree (the_dir s)"
      using links_range[OF l fd g(3)] h(4) e(3) by (simp add: next_db_def rd32_le32 i32_u32)
    moreover have "links (next_db (dat_of ds h)) a fd = links (next_db (dat_of ds (ldisk s))) a fd" for a
      by (rule links_cong) (use h(4) e(3) c(3) in \<open>auto simp: next_db_def\<close>)
    ultimately show ?thesis using l by simp
  qed
  moreover have "stays i s ?t" by (simp add: stays_def)
  ultimately show ?thesis using h(3,4) e(3,4) by (intro exI[of _ ?t]) simp
qed

lemma free_data_ok:
  assumes "ready ds s" "\<forall>c \<in> set (some_blocks dba) \<union> set fd. ds \<le> c \<and> c < n" "distinct (some_blocks dba @ fd)"
    "links (next_db (dat_of ds (ldisk s))) (lfd_dfree (the_dir s)) fd"
  shows "\<exists>t. free_data dk dba s = Some t \<and> ready ds t \<and>
    links (next_db (dat_of ds (ldisk t))) (lfd_dfree (the_dir t)) (rev (some_blocks dba) @ fd) \<and>
    ib_of ds (ldisk t) = ib_of ds (ldisk s) \<and> (\<forall>x. x \<notin> set (some_blocks dba) \<longrightarrow> dat_of ds (ldisk t) x = dat_of ds (ldisk s) x) \<and>
    (\<exists>a. the_dir t = (the_dir s)\<lparr>lfd_dfree := a\<rparr>) \<and> stays i s t \<and> lfltab t = lfltab s"
  using assms
proof (induction dba arbitrary: s fd)
  case Nil
  then show ?case using stays_refl[of i s] same_dir[of "the_dir s"] by (intro exI[of _ s]) (auto simp: some_blocks_def)
next
  case (Cons c dba)
  show ?case
  proof (cases "c = LF_DNULL")
    case True
    then show ?thesis using Cons.IH[OF Cons.prems(1), of fd] Cons.prems by (auto simp: some_blocks_def)
  next
    case False
    then have b: "some_blocks (c # dba) = c # some_blocks dba" by (simp add: some_blocks_def)
    obtain t where t: "lfdbfree dk c s = Some (OK, t)" "ready ds t" "links (next_db (dat_of ds (ldisk t))) (lfd_dfree (the_dir t)) (c # fd)"
      "ib_of ds (ldisk t) = ib_of ds (ldisk s)" "\<forall>x. x \<noteq> c \<longrightarrow> dat_of ds (ldisk t) x = dat_of ds (ldisk s) x"
      "the_dir t = (the_dir s)\<lparr>lfd_dfree := c\<rparr>" "stays i s t" "lfltab t = lfltab s"
      using dbfree_ok[of ds s c fd i] Cons.prems b by auto
    obtain u where u: "free_data dk dba t = Some u" "ready ds u"
      "links (next_db (dat_of ds (ldisk u))) (lfd_dfree (the_dir u)) (rev (some_blocks dba) @ c # fd)"
      "ib_of ds (ldisk u) = ib_of ds (ldisk t)" "\<forall>x. x \<notin> set (some_blocks dba) \<longrightarrow> dat_of ds (ldisk u) x = dat_of ds (ldisk t) x"
      "\<exists>a. the_dir u = (the_dir t)\<lparr>lfd_dfree := a\<rparr>" "stays i t u" "lfltab u = lfltab t"
      using Cons.IH[OF t(2) _ _ t(3)] Cons.prems(2,3) b by auto
    have "free_data dk (c # dba) s = Some u" using t(1) u(1) False by simp
    moreover have "\<exists>a. the_dir u = (the_dir s)\<lparr>lfd_dfree := a\<rparr>" using u(6) unfolding t(6) by auto
    moreover have "\<forall>x. x \<notin> set (some_blocks (c # dba)) \<longrightarrow> dat_of ds (ldisk u) x = dat_of ds (ldisk s) x" using t(5) u(5) b by simp
    ultimately show ?thesis using u(2,3,4,8) t(4,8) stays_trans[OF t(7) u(7)] b by (intro exI[of _ u]) simp
  qed
qed

section \<open>The walk along the index blocks\<close>

lemma first_ib_range:
  assumes "\<forall>b \<in> set bs. valid_ib ds b" "ds \<le> n"
  shows "INT_MIN \<le> first_ib bs" "first_ib bs \<le> INT_MAX"
  using assms ib_bound[of ds] size32 by (cases bs; auto simp: first_ib_def LF_INULL_def valid_ib_def)+

lemma links_head: "links nxt a bs \<Longrightarrow> a = first_ib bs"
  by (cases bs) (simp_all add: first_ib_def LF_INULL_def)

lemma truncate_loop:
  assumes "ready ds s" "distinct (map fst bl @ fi)" "\<forall>b \<in> fst ` set bl \<union> set fi. valid_ib ds b"
    "ichain (ib_of ds (ldisk s)) bl" "links (\<lambda>b. ib_next (ib_of ds (ldisk s) b)) ifree fi"
    "distinct (concat (map (some_blocks \<circ> snd) bl) @ fd)"
    "\<forall>c \<in> set (concat (map (some_blocks \<circ> snd) bl)) \<union> set fd. ds \<le> c \<and> c < n"
    "links (next_db (dat_of ds (ldisk s))) (lfd_dfree (the_dir s)) fd"
  shows "\<exists>t fd'. c_loop (lftruncate_iter dk ifree) (if bl = [] then ifree else fst (hd bl), s) = Some t \<and> ready ds t \<and>
    links (\<lambda>b. ib_next (ib_of ds (ldisk t) b)) (if bl = [] then ifree else fst (hd bl)) (map fst bl @ fi) \<and>
    distinct fd' \<and> set fd' = set (concat (map (some_blocks \<circ> snd) bl)) \<union> set fd \<and>
    links (next_db (dat_of ds (ldisk t))) (lfd_dfree (the_dir t)) fd' \<and>
    (\<forall>b. b \<notin> fst ` set bl \<longrightarrow> ib_of ds (ldisk t) b = ib_of ds (ldisk s) b) \<and>
    (\<forall>c. c \<notin> set (concat (map (some_blocks \<circ> snd) bl)) \<longrightarrow> dat_of ds (ldisk t) c = dat_of ds (ldisk s) c) \<and>
    (\<exists>a. the_dir t = (the_dir s)\<lparr>lfd_dfree := a\<rparr>) \<and> stays i s t \<and> lfltab t = lfltab s"
  using assms
proof (induction bl arbitrary: s fd)
  case Nil
  have "c_loop (lftruncate_iter dk ifree) (ifree, s) = Some s" by (rule c_loop_Inr) (simp add: lftruncate_iter_def)
  then show ?case using Nil.prems stays_refl[of i s] same_dir[of "the_dir s"] by (intro exI[of _ s] exI[of _ fd]) auto
next
  case (Cons x bl)
  obtain b dba where x: "x = (b, dba)" by (cases x)
  let ?next = "if bl = [] then ifree else fst (hd bl)"
  have v: "valid_ib ds b" "b \<notin> fst ` set bl" "b \<notin> set fi" using Cons.prems(2,3) x by auto
  have g: "1 \<le> ds" "ds \<le> n" "ok (ldisk s)" "lf_dskdev (Lf_data s) = dev" using Cons.prems(1) by (simp_all add: ready_def)
  have ne: "b \<noteq> ifree" using links_head[OF Cons.prems(5)] v by (cases fi) (auto simp: first_ib_def LF_INULL_def valid_ib_def)
  have get: "lf_ibget dk b s = Some (ib_of ds (ldisk s) b)" using lfibget_ok[OF g(3) v(1) g(1,2)] g(4) by (simp add: lf_ibget_def)
  have cur: "ib_next (ib_of ds (ldisk s) b) = first_ib (map fst bl)" "ib_dba (ib_of ds (ldisk s) b) = dba" using Cons.prems(4) x by simp_all
  have fn: "(if ib_next (ib_of ds (ldisk s) b) = LF_INULL then ifree else ib_next (ib_of ds (ldisk s) b)) = ?next"
    using cur(1) Cons.prems(3) by (cases bl) (auto simp: first_ib_def valid_ib_def LF_INULL_def)
  obtain t where t: "free_data dk dba s = Some t" "ready ds t"
    "links (next_db (dat_of ds (ldisk t))) (lfd_dfree (the_dir t)) (rev (some_blocks dba) @ fd)"
    "ib_of ds (ldisk t) = ib_of ds (ldisk s)" "\<forall>x. x \<notin> set (some_blocks dba) \<longrightarrow> dat_of ds (ldisk t) x = dat_of ds (ldisk s) x"
    "\<exists>a. the_dir t = (the_dir s)\<lparr>lfd_dfree := a\<rparr>" "stays i s t" "lfltab t = lfltab s"
  proof -
    have "set (some_blocks dba) \<union> set fd \<subseteq> set (concat (map (some_blocks \<circ> snd) (x # bl))) \<union> set fd" using x by auto
    then have "\<forall>c \<in> set (some_blocks dba) \<union> set fd. ds \<le> c \<and> c < n" using Cons.prems(7) by blast
    moreover have "distinct (some_blocks dba @ fd)" using Cons.prems(6) x by (auto simp: comp_def)
    ultimately show thesis using free_data_ok[OF Cons.prems(1) _ _ Cons.prems(8), of dba i] that by blast
  qed
  define ib where "ib = \<lparr>ib_next = ?next, ib_offset = 0, ib_dba = replicate LF_IBLEN LF_DNULL\<rparr>"
  have "?next = first_ib (map fst bl @ fi)" using links_head[OF Cons.prems(5)] by (cases bl) (simp_all add: first_ib_def)
  then have w: "wf_iblk ib"
    using first_ib_range[of "map fst bl @ fi" ds] Cons.prems(3) g(2) by (auto simp: ib_def wf_iblk_def LF_DNULL_def)
  obtain e where e: "lf_ibput dk b ib t = Some (t\<lparr>ldisk := e\<rparr>)" "ok e" "ib_of ds e = (ib_of ds (ldisk t))(b := ib)" "dat_of ds e = dat_of ds (ldisk t)"
    using ibput_ok[of t ds b ib] t(2) v(1) w by (auto simp: ready_def)
  let ?u = "t\<lparr>ldisk := e\<rparr>"
  have step: "lftruncate_iter dk ifree (b, s) = Some (Inl (?next, ?u))"
    using ne get t(1) cur(2) fn e(1) by (simp add: lftruncate_iter_def Let_def ib_def cong: if_cong)
  have ru: "ready ds ?u" using t(2) e(2) by (simp add: ready_def)
  have "ichain (ib_of ds (ldisk ?u)) bl = ichain (ib_of ds (ldisk s)) bl"
    by (rule ichain_cong) (use v(2) e(3) t(4) in auto)
  then have ic: "ichain (ib_of ds (ldisk ?u)) bl" using Cons.prems(4) by simp
  have "links (\<lambda>b. ib_next (ib_of ds (ldisk ?u) b)) ifree fi = links (\<lambda>b. ib_next (ib_of ds (ldisk s) b)) ifree fi"
    by (rule links_cong) (use v(3) e(3) t(4) in auto)
  then have lk: "links (\<lambda>b. ib_next (ib_of ds (ldisk ?u) b)) ifree fi" using Cons.prems(5) by simp
  have fdl: "links (next_db (dat_of ds (ldisk ?u))) (lfd_dfree (the_dir ?u)) (rev (some_blocks dba) @ fd)" using t(3) e(4) by simp
  have h2: "distinct (map fst bl @ fi)" "\<And>y. y \<in> fst ` set bl \<union> set fi \<Longrightarrow> valid_ib ds y" using Cons.prems(2,3) by auto
  then have h3: "\<forall>b \<in> fst ` set bl \<union> set fi. valid_ib ds b" by blast
  note h2 = h2(1)
  have h6: "distinct (concat (map (some_blocks \<circ> snd) bl) @ rev (some_blocks dba) @ fd)" using Cons.prems(6) x by (auto simp: comp_def)
  have "set (concat (map (some_blocks \<circ> snd) bl)) \<union> set (rev (some_blocks dba) @ fd) \<subseteq> set (concat (map (some_blocks \<circ> snd) (x # bl))) \<union> set fd"
    using x by auto
  then have h7: "\<forall>c \<in> set (concat (map (some_blocks \<circ> snd) bl)) \<union> set (rev (some_blocks dba) @ fd). ds \<le> c \<and> c < n" using Cons.prems(7) by blast
  obtain w fd' where w: "c_loop (lftruncate_iter dk ifree) (?next, ?u) = Some w" "ready ds w"
    "links (\<lambda>b. ib_next (ib_of ds (ldisk w) b)) ?next (map fst bl @ fi)"
    "distinct fd'" "set fd' = set (concat (map (some_blocks \<circ> snd) bl)) \<union> set (rev (some_blocks dba) @ fd)"
    "links (next_db (dat_of ds (ldisk w))) (lfd_dfree (the_dir w)) fd'"
    "\<forall>b. b \<notin> fst ` set bl \<longrightarrow> ib_of ds (ldisk w) b = ib_of ds (ldisk ?u) b"
    "\<forall>c. c \<notin> set (concat (map (some_blocks \<circ> snd) bl)) \<longrightarrow> dat_of ds (ldisk w) c = dat_of ds (ldisk ?u) c"
    "\<exists>a. the_dir w = (the_dir ?u)\<lparr>lfd_dfree := a\<rparr>" "stays i ?u w" "lfltab w = lfltab ?u"
    using Cons.IH[OF ru h2 h3 ic lk h6 h7 fdl] by blast
  have run: "c_loop (lftruncate_iter dk ifree) (b, s) = Some w" using c_loop_Inl[of "lftruncate_iter dk ifree", OF step] w(1) by simp
  have "ib_next (ib_of ds (ldisk w) b) = ?next" using w(7) v(2) e(3) by (simp add: ib_def)
  then have l2: "links (\<lambda>b. ib_next (ib_of ds (ldisk w) b)) b (map fst (x # bl) @ fi)" using w(3) x by simp
  have ibo: "\<forall>c. c \<notin> fst ` set (x # bl) \<longrightarrow> ib_of ds (ldisk w) c = ib_of ds (ldisk s) c" using w(7) e(3) t(4) x by auto
  have dao: "\<forall>c. c \<notin> set (concat (map (some_blocks \<circ> snd) (x # bl))) \<longrightarrow> dat_of ds (ldisk w) c = dat_of ds (ldisk s) c"
    using w(8) e(4) t(5) x by simp
  have dir: "\<exists>a. the_dir w = (the_dir s)\<lparr>lfd_dfree := a\<rparr>" using w(9) t(6) by auto
  have su: "stays i t ?u" by (simp add: stays_def)
  have sy: "stays i s w" by (rule stays_trans[OF stays_trans[OF t(7) su] w(10)])
  have sf: "set fd' = set (concat (map (some_blocks \<circ> snd) (x # bl))) \<union> set fd" using w(5) x by auto
  show ?case using run w(2,4,6,11) l2 ibo dao dir sy sf t(8) x by (intro exI[of _ w] exI[of _ fd']) simp
qed

section \<open>lftruncate\<close>

lemma rep_ready: "rep ds i ns db fi fd xs s \<Longrightarrow> ready ds s"
  by (simp add: ready_def lfs_rep_def fits_def entry_ok_def)

lemma truncate_file:
  assumes r: "rep ds i ns db fi fd xs s" and cl: "\<not> lfdbdirty (lfltab s i)" "\<not> lfibdirty (lfltab s i)" and x: "xs \<noteq> []"
    and I: "I = set ns \<union> set fi" and D: "D = set db \<union> set fd" and e: "dirent i s = Some ld"
  shows "\<exists>t. (do {
       let s = upd_lfl i (\<lambda>f. f\<lparr>lfpos := 0, lfinum := LF_INULL, lfdnum := LF_DNULL, lfbyte := nat LF_BLKSIZ\<rparr>) s;
       let ifree = lfd_ifree (the_dir s);
       let firstib = ld_ilist ld;
       s \<leftarrow> upd_dirent i (\<lambda>e. e\<lparr>ld_ilist := LF_INULL, ld_size := 0\<rparr>) s;
       let s = upd_lfd (\<lambda>g. g\<lparr>lf_dirdirty := True\<rparr>) s;
       s \<leftarrow> c_loop (lftruncate_iter dk ifree) (firstib, s);
       let s = upd_dir (\<lambda>d. d\<lparr>lfd_ifree := firstib\<rparr>) s;
       Some (OK, upd_lfd (\<lambda>g. g\<lparr>lf_dirdirty := True\<rparr>) s) }) = Some (OK, t) \<and> framed ds i I D s t \<and> filed ds i I D [] 0 t"
proof -
  note g = rep_geometry[OF r]
  have f: "fits n ds ns db fi fd" "index_ok (ib_of ds (ldisk s)) (lfltab s i) ns db" "data_ok (dat_of ds (ldisk s)) (lfltab s i) db xs"
    "free_ok (ib_of ds (ldisk s)) (dat_of ds (ldisk s)) (the_dir s) fi fd" "entry_ok i ns xs s" using r by (simp_all add: lfs_rep_def)
  have ld: "ld_ilist ld = first_ib ns" using f(5) e by (simp add: entry_ok_def)
  have "db \<noteq> []" using f(3) x by (auto simp: data_ok_def)
  then have nn: "ns \<noteq> []" using f(1) by (auto simp: fits_def)
  have dn: "LF_DNULL \<notin> set db" using fits_db[OF f(1), of LF_DNULL] by (auto simp: LF_DNULL_def)
  let ?f = "\<lambda>f. f\<lparr>lfpos := 0, lfinum := LF_INULL, lfdnum := LF_DNULL, lfbyte := nat LF_BLKSIZ\<rparr>"
  let ?s = "upd_lfl i ?f s"
  have es: "entry_ok i ns xs ?s" using f(5) entry_ok_cong[of ?s i s ns xs] by simp
  have ds: "dirent i ?s = Some ld" using e dirent_cong[of ?s i s] by simp
  obtain u where u: "upd_dirent i (\<lambda>e. e\<lparr>ld_ilist := LF_INULL, ld_size := 0\<rparr>) ?s = Some u" "wf_dir (the_dir u)"
    "dirent i u = Some (ld\<lparr>ld_ilist := LF_INULL, ld_size := 0\<rparr>)" "stays i ?s u" "lfltab u = lfltab ?s" "ldisk u = ldisk ?s"
    "lfd_ifree (the_dir u) = lfd_ifree (the_dir ?s)" "lfd_dfree (the_dir u) = lfd_dfree (the_dir ?s)"
    using upd_dirent_ok[OF es ds, of "\<lambda>e. e\<lparr>ld_ilist := LF_INULL, ld_size := 0\<rparr>"] by auto
  let ?u = "upd_lfd (\<lambda>g. g\<lparr>lf_dirdirty := True\<rparr>) u"
  let ?bl = "file_blocks ns db 0"
  have bl0: "map fst ?bl = ns" "?bl = (ns ! 0, ib_dba (ibl ns db 0)) # file_blocks ns db (Suc 0)"
    using nn map_fst_file_blocks[of ns db 0] file_blocks_Cons[of 0 ns db] by simp_all
  have blc: "concat (map (some_blocks \<circ> snd) ?bl) = db" by (rule freed_blocks[OF dn]) (use f(1) in \<open>simp add: fits_def\<close>)
  have bl: "map fst ?bl = ns" "?bl \<noteq> []" "fst (hd ?bl) = first_ib ns" "concat (map (some_blocks \<circ> snd) ?bl) = db" "fst ` set ?bl = set ns"
    using bl0(1) blc first_ib_nth[OF nn] arg_cong[OF bl0(1), of set] unfolding set_map by (simp_all add: bl0(2))
  have du: "stays i s ?u" using u(4) by (simp add: stays_def)
  have ru: "ready ds ?u"
    using u(2,6) du rep_ready[OF r] by (simp add: ready_def stays_def)
  have p2: "distinct (map fst ?bl @ fi)" "\<forall>b \<in> fst ` set ?bl \<union> set fi. valid_ib ds b" using f(1) bl(1,5) by (simp_all add: fits_def)
  have p3: "ichain (ib_of ds (ldisk ?u)) ?bl" using ichain_file[of ns "ib_of ds (ldisk s)" db 0] f(2) cl(2) u(6) by (simp add: index_ok_def)
  have p4: "links (\<lambda>b. ib_next (ib_of ds (ldisk ?u) b)) (lfd_ifree (the_dir s)) fi" using f(4) u(6) by (simp add: free_ok_def)
  have p5: "distinct (concat (map (some_blocks \<circ> snd) ?bl) @ fd)" "\<forall>c \<in> set (concat (map (some_blocks \<circ> snd) ?bl)) \<union> set fd. ds \<le> c \<and> c < n"
    using f(1) unfolding bl(4) by (simp_all add: fits_def)
  have p6: "links (next_db (dat_of ds (ldisk ?u))) (lfd_dfree (the_dir ?u)) fd" using f(4) u(6,8) by (simp add: free_ok_def)
  obtain t fd' where t: "c_loop (lftruncate_iter dk (lfd_ifree (the_dir s))) (first_ib ns, ?u) = Some t" "ready ds t"
    "links (\<lambda>b. ib_next (ib_of ds (ldisk t) b)) (first_ib ns) (ns @ fi)" "distinct fd'" "set fd' = set db \<union> set fd"
    "links (next_db (dat_of ds (ldisk t))) (lfd_dfree (the_dir t)) fd'"
    "\<forall>b. b \<notin> set ns \<longrightarrow> ib_of ds (ldisk t) b = ib_of ds (ldisk ?u) b" "\<forall>c. c \<notin> set db \<longrightarrow> dat_of ds (ldisk t) c = dat_of ds (ldisk ?u) c"
    "\<exists>a. the_dir t = (the_dir ?u)\<lparr>lfd_dfree := a\<rparr>" "stays i ?u t" "lfltab t = lfltab ?u"
    using truncate_loop[OF ru p2 p3 p4 p5 p6, of i] unfolding bl(1,3,4,5) using bl(2) by auto
  define v where "v = upd_lfd (\<lambda>g. g\<lparr>lf_dirdirty := True\<rparr>) (upd_dir (\<lambda>d. d\<lparr>lfd_ifree := first_ib ns\<rparr>) t)"
  have lv: "lfltab v i = ?f (lfltab s i)" using t(11) u(5) by (simp add: v_def)
  have sv: "stays i t v" by (simp add: v_def stays_def)
  have st: "stays i s v" by (rule stays_trans[OF stays_trans[OF du t(10)] sv])
  have dv: "the_dir v = (the_dir t)\<lparr>lfd_ifree := first_ib ns\<rparr>" "ldisk v = ldisk t" by (simp_all add: v_def)
  have dl: "dirent i v = Some (ld\<lparr>ld_ilist := LF_INULL, ld_size := 0\<rparr>)"
    using u(3) t(9,11) dv(1) dirent_cong[of v i u] by (auto simp: v_def)
  have "entry_ok i [] [] v" using dl t(2) dv(1) by (simp add: entry_ok_def first_ib_def ready_def wf_dir_def)
  moreover have "fits n ds [] [] (ns @ fi) fd'" using f(1) t(4,5) by (auto simp: fits_def)
  moreover have "free_ok (ib_of ds (ldisk v)) (dat_of ds (ldisk v)) (the_dir v) (ns @ fi) fd'" using t(3,6) dv by (simp add: free_ok_def)
  moreover have "index_ok (ib_of ds (ldisk v)) (lfltab v i) [] []" using cl lv by (simp add: index_ok_def)
  moreover have "data_ok (dat_of ds (ldisk v)) (lfltab v i) [] []" using cl lv f(3) by (simp add: data_ok_def)
  moreover have "length (lf_rubbish v) = 508" "lfstate (lfltab v i) = LF_USED" "lf_dskdev (Lf_data v) = dev" "ok (ldisk v)"
    using r st lv t(2) dv(2) by (simp_all add: lfs_rep_def stays_def ready_def)
  ultimately have "rep ds i [] [] (ns @ fi) fd' [] v" by (simp add: lfs_rep_def)
  then have "filed ds i I D [] 0 v" unfolding file_rel_def using I D t(5) lv
    by - (rule exI[of _ "[]"], rule exI[of _ "[]"], rule exI[of _ "ns @ fi"], rule exI[of _ fd'], simp add: LF_BLKSIZ_def)
  moreover have "framed ds i I D s v" using st t(7,8) u(6) dv(2) I D by (simp add: frame_def)
  moreover have "upd_dirent i (\<lambda>e. e\<lparr>ld_ilist := LF_INULL, ld_size := 0\<rparr>) ?s = Some u" by (rule u(1))
  ultimately show ?thesis using t(1) ld by (intro exI[of _ v]) (simp add: Let_def v_def)
qed

lemma truncate_ok:
  assumes r: "filed ds i I D xs p s"
  shows "\<exists>t. lftruncate dk i s = Some (OK, t) \<and> framed ds i I D s t \<and> filed ds i I D [] 0 t"
proof -
  obtain ns db fi fd where f: "rep ds i ns db fi fd xs s" "I = set ns \<union> set fi" "D = set db \<union> set fd" "lfpos (lfltab s i) = int p" "p \<le> length xs"
    using r by (auto simp: file_rel_def)
  obtain e where e: "dirent i s = Some e" "ld_size e = int (length xs)" using rep_entry[OF f(1)] by blast
  show ?thesis
  proof (cases "xs = []")
    case True
    then have "lftruncate dk i s = Some (OK, s)" using e by (simp add: lftruncate_def)
    then show ?thesis using r True f(5) frame_refl by auto
  next
    case False
    obtain t where t: "(if lfibdirty (lfltab s i) \<or> lfdbdirty (lfltab s i) then lfflush dk i s else Some (OK, s)) = Some (OK, t)"
      "rep ds i ns db fi fd xs t" "framed ds i I D s t" "\<not> lfdbdirty (lfltab t i)" "\<not> lfibdirty (lfltab t i)"
    proof (cases "lfibdirty (lfltab s i) \<or> lfdbdirty (lfltab s i)")
      case True
      obtain t where "lfflush dk i s = Some (OK, t)" "rep ds i ns db fi fd xs t" "framed ds i I D s t"
        "lfltab t i = (lfltab s i)\<lparr>lfdbdirty := False, lfibdirty := False\<rparr>" using flush_ok[OF f(1)] f(2,3) by blast
      then show thesis using that[of t] True by simp
    next
      case False
      then show thesis using that[of s] f(1) frame_refl[of content n ds i I D s] by simp
    qed
    obtain ld where ld: "dirent i t = Some ld" using rep_entry[OF t(2)] by blast
    have same: "ld_ilist e = ld_ilist ld" using f(1) t(2) e(1) ld by (auto simp: lfs_rep_def entry_ok_def)
    show ?thesis
      using truncate_file[OF t(2,4,5) False f(2,3) ld] t(1) e False frame_trans[OF t(3)]
      by (auto simp: lftruncate_def same simp del: if_split cong: if_cong)
  qed
qed

lemma control_truncate:
  assumes r: "filed ds i I D xs p s" and m: "mutexes i s"
  shows "\<exists>t. lflcontrol dk i LF_CTL_TRUNC s = Some (Done OK t) \<and> framed ds i I D s t \<and> filed ds i I D [] 0 t"
  unfolding lflcontrol_def
proof (rule section_ok[OF m])
  fix u assume u: "u = s\<lparr>lkern := locked (lfmutex (lfltab s i)) (lkern s)\<rparr>"
  have ru: "filed ds i I D xs p u" using r by (simp add: u filed_lkern)
  have us: "lfstate (lfltab u i) = LF_USED" using file_entry[OF ru] by blast
  have mu: "mutex_ok (lf_mutex (Lf_data u)) (lkern u)" using m by (simp add: u mutexes_def)
  let ?v = "u\<lparr>lkern := locked (lf_mutex (Lf_data u)) (lkern u)\<rparr>"
  obtain w where w: "lftruncate dk i ?v = Some (OK, w)" "framed ds i I D ?v w" "filed ds i I D [] 0 w"
    using truncate_ok[of ds i I D xs p ?v] ru by (auto simp: filed_lkern)
  have k: "lkern w = locked (lf_mutex (Lf_data u)) (lkern u)" "lf_mutex (Lf_data w) = lf_mutex (Lf_data u)" using w(2) by (simp_all add: frame_def stays_def)
  show "\<exists>t. (if lfstate (lfltab u i) \<noteq> LF_USED then lfl_leave i SYSERR u
       else if LF_CTL_TRUNC = LF_CTL_TRUNC then
         andthen (lf_call (wait (lf_mutex (Lf_data u))) u) (\<lambda>_ s. do {
           (retval, s) \<leftarrow> lftruncate dk i s;
           andthen (lf_call (signal (lf_mutex (Lf_data s))) s) (\<lambda>_ s. lfl_leave i retval s) })
       else lfl_leave i SYSERR u) = lfl_leave i OK t \<and> framed ds i I D u t \<and> filed ds i I D [] 0 t"
    using us lf_lock[OF mu] w(1,3) lf_unlock[OF k(1) mu] k(2) frame_lkern[OF w(2)]
    by (intro exI[of _ "w\<lparr>lkern := lkern u\<rparr>"]) (simp add: filed_lkern)
qed (simp add: filed_lkern)

end

end
