(* ===== verification/Lfs_Create.thy ===== *)
theory Lfs_Create
  imports Lfs_Truncate
begin

text \<open>
  A new file system and a new file: lfscreate leaves a directory without files and both free lists on
  the disk; lfsopen finds them there and gives an empty file that owns nothing yet.
\<close>

section \<open>A counting loop\<close>

lemma c_for:
  assumes "k \<le> N" "P k s"
    and step: "\<And>k s. k < N \<Longrightarrow> P k s \<Longrightarrow> \<exists>t. body (int k, s) = Some (int (Suc k), t) \<and> P (Suc k) t"
    and test: "\<And>k s. k \<le> N \<Longrightarrow> b (int k, s) \<longleftrightarrow> k < N"
  shows "\<exists>t. c_while b body (int k, s) = Some (int N, t) \<and> P N t"
  using assms(1,2)
proof (induction "N - k" arbitrary: k s)
  case 0
  then show ?case using test[of k s] by (auto simp: c_while_stop)
next
  case (Suc d)
  then have k: "k < N" by simp
  obtain t where t: "body (int k, s) = Some (int (Suc k), t)" "P (Suc k) t" using step[OF k Suc.prems(2)] by blast
  have d: "d = N - Suc k" "Suc k \<le> N" using Suc.hyps(2) k by simp_all
  obtain u where u: "c_while b body (int (Suc k), t) = Some (int N, u)" "P N u" using Suc.hyps(1)[OF d t(2)] by blast
  have "b (int k, s)" using test[of k s] k by simp
  then show ?case using c_while_step[of b "(int k, s)" body, OF _ t(1)] u by auto
qed

lemma links_upt:
  assumes "a \<le> b" "\<And>k. a \<le> k \<Longrightarrow> k < b \<Longrightarrow> nxt (int k) = (if Suc k < b then int (Suc k) else -1)"
  shows "links nxt (if a < b then int a else -1) (map int [a..<b])"
  using assms
proof (induction "b - a" arbitrary: a)
  case (Suc d)
  then have a: "a < b" "Suc a \<le> b" "d = b - Suc a" by simp_all
  have "links nxt (if Suc a < b then int (Suc a) else -1) (map int [Suc a..<b])" using Suc.hyps(1)[OF a(3,2)] Suc.prems(2) by simp
  moreover have "nxt (int a) = (if Suc a < b then int (Suc a) else -1)" using Suc.prems(2)[of a] a(1) by simp
  ultimately show ?case using a(1) by (simp add: upt_conv_Cons)
qed simp

section \<open>The directory on disk\<close>

definition wf_dir_words :: "lfdir \<Rightarrow> bool" where
  "wf_dir_words d \<longleftrightarrow> wf_dir d \<and> i32 (lfd_dfree d) = lfd_dfree d \<and> i32 (lfd_ifree d) = lfd_ifree d \<and> i32 (lfd_nfiles d) = lfd_nfiles d \<and>
     (\<forall>e \<in> set (lfd_files d). u32 (ld_size e) = ld_size e \<and> i32 (ld_ilist e) = ld_ilist e)"

lemma dec_enc_dent:
  assumes "length (ld_name e) = LF_NAME_LEN" "u32 (ld_size e) = ld_size e" "i32 (ld_ilist e) = ld_ilist e"
  shows "dec_dent (enc_dent e @ r) = e"
proof -
  have "rd32 (enc_dent e @ r) 4 = u32 (ld_ilist e)"
    using rd32_skip[of "le32 (ld_size e)" 4 "le32 (ld_ilist e) @ ld_name e @ r"] rd32_le32[of "ld_ilist e"] by (simp add: enc_dent_def)
  moreover have "rd32 (enc_dent e @ r) 0 = u32 (ld_size e)" by (simp add: enc_dent_def rd32_le32)
  ultimately show ?thesis using assms by (simp add: dec_dent_def enc_dent_def i32_u32)
qed

lemma drop_enc_dents:
  "\<forall>e \<in> set es. length (ld_name e) = LF_NAME_LEN \<Longrightarrow> k < length es \<Longrightarrow>
   \<exists>q. drop (24 * k) (concat (map enc_dent es) @ r) = enc_dent (es ! k) @ q"
proof (induction es arbitrary: k)
  case (Cons e es)
  show ?case
  proof (cases k)
    case 0
    then show ?thesis by (intro exI[of _ "concat (map enc_dent es) @ r"]) simp
  next
    case (Suc j)
    have "length (enc_dent e) = 24" using Cons.prems(1) by (simp add: enc_dent_def LF_NAME_LEN_def)
    then have "drop (24 * k) (enc_dent e @ concat (map enc_dent es) @ r) = drop (24 * j) (concat (map enc_dent es) @ r)"
      using Suc by simp
    then show ?thesis using Cons.IH[of j] Cons.prems Suc by simp
  qed
qed simp

lemma dec_enc_dir:
  assumes "wf_dir_words d" shows "dec_dir (enc_dir d) = d"
proof -
  have w: "length (lfd_files d) = 20" "\<forall>e \<in> set (lfd_files d). length (ld_name e) = LF_NAME_LEN" "length (lfd_padding d) = 20"
    "i32 (lfd_dfree d) = lfd_dfree d" "i32 (lfd_ifree d) = lfd_ifree d" "i32 (lfd_nfiles d) = lfd_nfiles d"
    "\<And>e. e \<in> set (lfd_files d) \<Longrightarrow> u32 (ld_size e) = ld_size e \<and> i32 (ld_ilist e) = ld_ilist e"
    using assms by (auto simp: wf_dir_words_def wf_dir_def LF_NUM_DIR_ENT_def)
  let ?f = "concat (map enc_dent (lfd_files d)) @ lfd_padding d"
  have e: "enc_dir d = le32 (lfd_dfree d) @ le32 (lfd_ifree d) @ le32 (lfd_nfiles d) @ ?f" by (simp add: enc_dir_def)
  have r: "rd32 (enc_dir d) 0 = u32 (lfd_dfree d)" "rd32 (enc_dir d) 4 = u32 (lfd_ifree d)" "rd32 (enc_dir d) 8 = u32 (lfd_nfiles d)"
    unfolding e using rd32_le32 rd32_skip[of "le32 (lfd_dfree d)" 4] rd32_skip[of "le32 (lfd_dfree d)" 8] rd32_skip[of "le32 (lfd_ifree d)" 4]
    by simp_all
  have dent: "dec_dent (drop (12 + 24 * k) (enc_dir d)) = lfd_files d ! k" if k: "k < 20" for k
  proof -
    obtain q where q: "drop (24 * k) ?f = enc_dent (lfd_files d ! k) @ q" using drop_enc_dents[OF w(2)] k w(1) by auto
    have "drop 12 (enc_dir d) = ?f" by (simp add: e)
    then have "drop (12 + 24 * k) (enc_dir d) = enc_dent (lfd_files d ! k) @ q" using q by (metis add.commute drop_drop)
    then show ?thesis using dec_enc_dent[of "lfd_files d ! k" q] w k by simp
  qed
  have "map (\<lambda>k. dec_dent (drop (12 + 24 * k) (enc_dir d))) [0..<20] = lfd_files d"
    by (rule nth_equalityI) (simp_all add: w(1) dent)
  moreover have "drop 492 (enc_dir d) = lfd_padding d" using length_enc_dents[OF w(2)] w(1) by (simp add: e)
  ultimately show ?thesis using r w(4-6) by (simp add: dec_dir_def LF_NUM_DIR_ENT_def i32_u32)
qed

definition new_dir :: "int \<Rightarrow> lfdir" where
  "new_dir dbindex = zero_dir\<lparr>lfd_dfree := dbindex\<rparr>"

lemma wf_new_dir: "0 \<le> b \<Longrightarrow> b \<le> INT_MAX \<Longrightarrow> wf_dir_words (new_dir b)"
  by (simp add: wf_dir_words_def wf_dir_def new_dir_def zero_dir_def LF_NUM_DIR_ENT_def LF_NAME_LEN_def i32_id u32_id)

section \<open>lfscreate\<close>

text \<open>An empty file system with N index blocks and the data blocks from ds to sectors - 1.\<close>

definition empty_fs :: "('d \<Rightarrow> int \<Rightarrow> int list) \<Rightarrow> int \<Rightarrow> int \<Rightarrow> nat \<Rightarrow> nat \<Rightarrow> 'd \<Rightarrow> bool" where
  "empty_fs content n ds N sectors d \<longleftrightarrow> content d 0 = enc_dir (new_dir ds) \<and>
     links (\<lambda>b. ib_next (ibs content ds d b)) 0 (map int [0..<N]) \<and>
     links (next_db (dat content ds n d)) ds (map int [nat ds..<sectors])"

context lfs_disk
begin

lemma create_iblks_ok:
  assumes d: "ok d" and N: "0 < N" "\<forall>k < N. valid_ib ds (int k)" and g: "1 \<le> ds" "ds \<le> n"
  shows "\<exists>e. create_iblks dk dev (int N) d = Some e \<and> ok e \<and> content e 0 = content d 0 \<and>
    (\<forall>k < N. ib_next (ib_of ds e (int k)) = (if Suc k < N then int (Suc k) else -1)) \<and> dat_of ds e = dat_of ds d"
proof -
  define P where "P k e \<longleftrightarrow> ok e \<and> content e 0 = content d 0 \<and> (\<forall>j < k. ib_next (ib_of ds e (int j)) = int (Suc j)) \<and> dat_of ds e = dat_of ds d"
    for k :: nat and e
  let ?body = "\<lambda>(i, d). do { (_, d) \<leftarrow> lfibput dk dev i ((lfibclear 0)\<lparr>ib_next := i + 1\<rparr>) d; Some (i + 1, d) }"
  let ?M = "N - 1"
  have small: "int k \<le> 2147483000" if "k < N" for k
    using N(2) that ib_bound[of ds "int k"] g size32 by (force simp: valid_ib_def ib2sect_def LF_AREA_IB_def)
  have wf: "wf_iblk ((lfibclear 0)\<lparr>ib_next := x\<rparr>)" if "-1 \<le> x" "x \<le> INT_MAX" for x
    using that by (simp add: wf_iblk_def lfibclear_def u32_def LF_IBLEN_def LF_DNULL_def)
  have "\<exists>t. c_while (\<lambda>(i, d). i < int N - 1) ?body (int 0, d) = Some (int ?M, t) \<and> P ?M t"
  proof (rule c_for)
    show "P 0 d" using d by (simp add: P_def)
  next
    fix k e assume k: "k < ?M" and p: "P k e"
    have v1: "valid_ib ds (int k)" using N(2) k by simp
    have "int k + 1 \<le> 2147483000" using small[of "Suc k"] k by simp
    then have v2: "wf_iblk ((lfibclear 0)\<lparr>ib_next := int k + 1\<rparr>)" by (intro wf) simp_all
    note v = v1 v2
    obtain f where f: "lfibput dk dev (int k) ((lfibclear 0)\<lparr>ib_next := int k + 1\<rparr>) e = Some (OK, f)" "ok f"
      "ib_of ds f = (ib_of ds e)(int k := (lfibclear 0)\<lparr>ib_next := int k + 1\<rparr>)" "dat_of ds f = dat_of ds e" "content f 0 = content e 0"
      using lfibput_ok[OF _ v g, of e] p by (auto simp: P_def)
    have "P (Suc k) f" using p f(2-5) by (auto simp: P_def less_Suc_eq)
    then show "\<exists>t. ?body (int k, e) = Some (int (Suc k), t) \<and> P (Suc k) t" using f(1) by (simp add: add.commute)
  qed (use N(1) in auto)
  then obtain t where t: "c_while (\<lambda>(i, d). i < int N - 1) ?body (0, d) = Some (int ?M, t)" "P ?M t" by auto
  have v1: "valid_ib ds (int ?M)" by (rule N(2)[rule_format]) (use N(1) in simp)
  have v2: "wf_iblk ((lfibclear 0)\<lparr>ib_next := LF_INULL\<rparr>)" by (intro wf) (simp_all add: LF_INULL_def)
  note v = v1 v2
  obtain f where f: "lfibput dk dev (int ?M) ((lfibclear 0)\<lparr>ib_next := LF_INULL\<rparr>) t = Some (OK, f)" "ok f"
    "ib_of ds f = (ib_of ds t)(int ?M := (lfibclear 0)\<lparr>ib_next := LF_INULL\<rparr>)" "dat_of ds f = dat_of ds t" "content f 0 = content t 0"
    using lfibput_ok[OF _ v g, of t] t(2) by (auto simp: P_def)
  have "create_iblks dk dev (int N) d = Some f" unfolding create_iblks_def using t(1) f(1) by simp
  moreover have "ib_next (ib_of ds f (int k)) = (if Suc k < N then int (Suc k) else -1)" if "k < N" for k
    using that t(2) f(3) N(1) by (auto simp: P_def LF_INULL_def)
  ultimately show ?thesis using f(2,4,5) t(2) by (auto simp: P_def)
qed

lemma create_dblks_ok:
  assumes d: "ok d" and s: "nat ds < sectors" "int sectors \<le> n" and g: "1 \<le> ds" "ds \<le> n"
  shows "\<exists>e. create_dblks dk dev ds (int sectors - ds) d = Some e \<and> ok e \<and> content e 0 = content d 0 \<and> ib_of ds e = ib_of ds d \<and>
    (\<forall>k. nat ds \<le> k \<and> k < sectors \<longrightarrow> next_db (dat_of ds e) (int k) = (if Suc k < sectors then int (Suc k) else -1))"
proof -
  let ?N = "sectors - nat ds - 1"
  define P where "P k x \<longleftrightarrow> fst x = ds + int k \<and> ok (snd x) \<and> content (snd x) 0 = content d 0 \<and> ib_of ds (snd x) = ib_of ds d \<and>
    (\<forall>j. nat ds \<le> j \<and> j < nat ds + k \<longrightarrow> next_db (dat_of ds (snd x)) (int j) = int (Suc j))" for k :: nat and x
  let ?body = "\<lambda>(i, dbindex, d). do { (_, d) \<leftarrow> dwrite dk dev (free_sector (dbindex + 1)) dbindex d; Some (i + 1, dbindex + 1, d) }"
  have nx: "next_db da c = i32 x" if "da c = free_sector x" for da c x
    using that by (simp add: next_db_def free_sector_def rd32_le32 i32_u32)
  have len: "length (free_sector x) = 512" for x by (simp add: free_sector_def)
  have "\<exists>t. c_while (\<lambda>(i, dbindex, d). u32 i < u32 (int sectors - ds - 1)) ?body (int 0, ds, d) = Some (int ?N, t) \<and> P ?N t"
  proof (rule c_for)
    show "P 0 (ds, d)" using d by (simp add: P_def)
  next
    fix k x assume k: "k < ?N" and p: "P k x"
    let ?c = "ds + int k"
    have c: "ds \<le> ?c" "?c < n" "?c + 1 \<le> INT_MAX" using k s g size32 by auto
    have "ok (snd x)" using p by (simp add: P_def)
    from data_write[OF this c(1,2) len g] obtain f where f: "dwrite dk dev (free_sector (?c + 1)) ?c (snd x) = Some (OK, f)" "ok f"
      "dat_of ds f = (dat_of ds (snd x))(?c := free_sector (?c + 1))" "ib_of ds f = ib_of ds (snd x)" "content f 0 = content (snd x) 0" by blast
    have "P (Suc k) (?c + 1, f)" unfolding P_def
    proof (intro conjI allI impI)
      fix j assume j: "nat ds \<le> j \<and> j < nat ds + Suc k"
      show "next_db (dat_of ds (snd (?c + 1, f))) (int j) = int (Suc j)"
      proof (cases "int j = ?c")
        case True
        then show ?thesis using nx[of "dat_of ds f" "int j" "?c + 1"] f(3) c(3) g by (simp add: i32_id)
      next
        case False
        then have "j < nat ds + k" using j g by auto
        then show ?thesis using False p j f(3) by (simp add: P_def next_db_def)
      qed
    qed (use p f in \<open>simp_all add: P_def\<close>)
    then show "\<exists>t. ?body (int k, x) = Some (int (Suc k), t) \<and> P (Suc k) t" using f(1) p by (cases x) (simp add: P_def add.commute)
  next
    fix k and x :: "int \<times> _" assume "k \<le> ?N"
    then have "u32 (int k) = int k" "u32 (int sectors - ds - 1) = int ?N" using s g size32 by (auto simp: u32_id)
    then show "(case (int k, x) of (i, dbindex, d) \<Rightarrow> u32 i < u32 (int sectors - ds - 1)) \<longleftrightarrow> k < ?N" by (cases x) simp
  qed simp
  then obtain x where x: "c_while (\<lambda>(i, dbindex, d). u32 i < u32 (int sectors - ds - 1)) ?body (0, ds, d) = Some (int ?N, x)" "P ?N x" by auto
  obtain t where t: "x = (int sectors - 1, t)" using x(2) s g by (cases x) (auto simp: P_def)
  have c: "ds \<le> int sectors - 1" "int sectors - 1 < n" using s g by auto
  have "ok t" using x(2) t by (simp add: P_def)
  from data_write[OF this c len g] obtain f where f: "dwrite dk dev (free_sector LF_DNULL) (int sectors - 1) t = Some (OK, f)" "ok f"
    "dat_of ds f = (dat_of ds t)(int sectors - 1 := free_sector LF_DNULL)" "ib_of ds f = ib_of ds t" "content f 0 = content t 0" by blast
  have "create_dblks dk dev ds (int sectors - ds) d = Some f" unfolding create_dblks_def using x(1) t f(1) by simp
  moreover have "next_db (dat_of ds f) (int k) = (if Suc k < sectors then int (Suc k) else -1)" if k: "nat ds \<le> k" "k < sectors" for k
  proof (cases "Suc k < sectors")
    case True
    then have "int k \<noteq> int sectors - 1" "k < nat ds + ?N" using k by auto
    then show ?thesis using True x(2) t f(3) k by (simp add: P_def next_db_def)
  next
    case False
    then have "int k = int sectors - 1" using k by auto
    then show ?thesis using False nx[of "dat_of ds f" "int k" LF_DNULL] f(3) by (simp add: LF_DNULL_def i32_id)
  qed
  ultimately show ?thesis using f(2,4,5) x(2) t by (auto simp: P_def)
qed

text \<open>lfscreate with lfiblks index blocks asked for, which fill ib sectors, on a disk of dsiz bytes.\<close>

lemma lfscreate_ok:
  assumes d: "ok d" and l: "0 < lfiblks" "lfiblks < 4194304" and z: "dsiz div 512 = int sectors" "int sectors \<le> n"
    and b: "ib = (lfiblks + 6) div 7" "2 * ib \<le> int sectors" "ib + 1 < int sectors"
  shows "\<exists>e. lfscreate dk dev lfiblks dsiz d = Some (OK, e) \<and> ok e \<and> empty_fs content n (ib + 1) (nat (7 * ib)) sectors e"
proof -
  let ?ds = "ib + 1" and ?N = "nat (7 * ib)"
  have ib: "1 \<le> ib" "ib < 4194304" using b l by auto
  have g: "1 \<le> ?ds" "?ds \<le> n" using ib b z by simp_all
  have w: "wf_dir (zero_dir\<lparr>lfd_dfree := ?ds\<rparr>)" using wf_new_dir[of ?ds] ib by (simp add: wf_dir_words_def new_dir_def)
  obtain e where e: "dwrite dk dev (enc_dir (zero_dir\<lparr>lfd_dfree := ?ds\<rparr>)) LF_AREA_DIR d = Some (OK, e)" "ok e"
    "content e 0 = enc_dir (zero_dir\<lparr>lfd_dfree := ?ds\<rparr>)" using dir_write[OF d length_enc_dir[OF w] g] by blast
  have N: "0 < ?N" "int ?N = 7 * ib" "\<forall>k < ?N. valid_ib ?ds (int k)" using ib by (auto simp: valid_ib_def ib2sect_def LF_AREA_IB_def)
  obtain f where f: "create_iblks dk dev (int ?N) e = Some f" "ok f" "content f 0 = content e 0"
    "\<forall>k < ?N. ib_next (ib_of ?ds f (int k)) = (if Suc k < ?N then int (Suc k) else -1)" using create_iblks_ok[OF e(2) N(1,3) g] by blast
  have sec: "nat ?ds < sectors" using b(3) ib by linarith
  obtain h where h: "create_dblks dk dev ?ds (int sectors - ?ds) f = Some h" "ok h" "content h 0 = content f 0" "ib_of ?ds h = ib_of ?ds f"
    "\<forall>k. nat ?ds \<le> k \<and> k < sectors \<longrightarrow> next_db (dat_of ?ds h) (int k) = (if Suc k < sectors then int (Suc k) else -1)"
    using create_dblks_ok[OF f(2) sec z(2) g] by blast
  obtain r c where c: "dclose dk dev h = Some (r, c)" "ok c" "\<forall>x. 0 \<le> x \<and> x < n \<longrightarrow> content c x = content h x" using close_disk[OF h(2)] by blast
  have same: "ib_of ?ds c = ib_of ?ds h" "dat_of ?ds c = dat_of ?ds h" "content c 0 = content h 0"
    using c(3) g by (auto simp: ibs_def dat_def fun_eq_iff dest: ib2sect_pos)
  have "u32 (lfiblks + 6) div 7 = ib" using l b(1) by (simp add: u32_id)
  moreover have "i32 (ib * 7) = int ?N" "i32 ?ds = ?ds" using ib N(2) by (simp_all add: i32_id)
  moreover have "u32 (int sectors - ib - 1) = int sectors - ?ds" using b(3) z(2) size32 ib by (simp add: u32_id)
  moreover have "\<not> ib > int sectors div 2" using b(2) by simp
  ultimately have "lfscreate dk dev lfiblks dsiz d = Some (OK, c)"
    using z(1) e(1) f(1) h(1) c(1) by (simp add: lfscreate_def Let_def LF_BLKSIZ_def)
  moreover have "links (\<lambda>b. ib_next (ib_of ?ds c b)) 0 (map int [0..<?N])"
    using links_upt[of 0 ?N "\<lambda>b. ib_next (ib_of ?ds c b)"] f(4) h(4) same(1) N(1) by simp
  moreover have "links (next_db (dat_of ?ds c)) ?ds (map int [nat ?ds..<sectors])"
    using links_upt[of "nat ?ds" sectors "next_db (dat_of ?ds c)"] h(5) same(2) sec g by simp
  ultimately show ?thesis using c(2) same(3) h(3) f(3) e(3) by (simp add: empty_fs_def new_dir_def)
qed

end

end
