(* ===== verification/Lfs_Open.thy ===== *)
theory Lfs_Open
  imports Lfs_Create
begin

text \<open>
  lfsopen finds a file by its name or makes a new entry. The file then has the contents that the disk
  holds for it.
\<close>

section \<open>Names\<close>

definition name_into :: "int list \<Rightarrow> int list \<Rightarrow> int list" where
  "name_into cs a = cs @ 0 # drop (Suc (length cs)) a"

lemma cname_into: "0 \<notin> set cs \<Longrightarrow> cname cs (name_into cs a)"
  by (simp add: cname_def name_into_def)

lemma length_name_into: "length cs < length a \<Longrightarrow> length (name_into cs a) = length a"
  by (simp add: name_into_def)

lemma name_len_ok:
  assumes "cstr m name cs" "length cs < LF_NAME_LEN" shows "name_len name m = Some (length cs)"
proof -
  let ?f = "\<lambda>i. Some (if i < LF_NAME_LEN then if m (name + int i) = 0 then Inr i else Inl (i + 1) else Inr i)"
  have "c_loop ?f k = Some (k + length cs)" if "cstr m (name + int k) cs" "k + length cs < LF_NAME_LEN" for k
    using that
  proof (induction cs arbitrary: k)
    case Nil
    then show ?case by (intro c_loop_Inr) simp
  next
    case (Cons c cs)
    have "c_loop ?f k = c_loop ?f (Suc k)" using Cons.prems by (intro c_loop_Inl) auto
    then show ?case using Cons.IH[of "Suc k"] Cons.prems by (simp add: ac_simps)
  qed
  from this[of 0] show ?thesis using assms by (simp add: name_len_def)
qed

lemma copy_name_ok:
  assumes "cstr m name cs" "length cs < length a" shows "copy_name name m a = Some (name_into cs a)"
proof -
  let ?f = "\<lambda>(k, to). do { _ \<leftarrow> elem_at to k; let to = to[k := m (name + int k)];
     Some (if m (name + int k) \<noteq> 0 then Inl (k + 1, to) else Inr to) }"
  have "c_loop ?f (k, b) = Some (take k b @ cs @ 0 # drop (Suc (k + length cs)) b)"
    if "cstr m (name + int k) cs" "k + length cs < length b" for k b
    using that
  proof (induction cs arbitrary: k b)
    case Nil
    then have "?f (k, b) = Some (Inr (b[k := 0]))" by (simp add: elem_at_def)
    then show ?case using Nil c_loop_Inr[of ?f "(k, b)"] by (simp add: upd_conv_take_nth_drop)
  next
    case (Cons c cs)
    then have "?f (k, b) = Some (Inl (Suc k, b[k := c]))" by (simp add: elem_at_def)
    then have "c_loop ?f (k, b) = c_loop ?f (Suc k, b[k := c])" by (rule c_loop_Inl)
    moreover have "take (Suc k) (b[k := c]) = take k b @ [c]" using Cons.prems(2) by (simp add: take_Suc_conv_app_nth)
    ultimately show ?case using Cons.IH[of "Suc k" "b[k := c]"] Cons.prems by (simp add: ac_simps)
  qed
  from this[of 0 a] show ?thesis using assms by (simp add: copy_name_def name_into_def)
qed

lemma same_name_loop:
  assumes "cstr m (name + int k) cs" "drop k a = ds @ 0 # r" "0 \<notin> set ds"
  shows "\<exists>j c. c_loop (\<lambda>k. if m (name + int k) = 0 then Some (Inr k)
      else do { c \<leftarrow> elem_at a k; Some (if m (name + int k) \<noteq> c then Inr k else Inl (k + 1)) }) k = Some j \<and>
    elem_at a j = Some c \<and> (m (name + int j) = 0 \<and> c = 0 \<longleftrightarrow> cs = ds)"
  using assms
proof (induction cs arbitrary: k ds)
  case Nil
  have "k < length a" using Nil.prems(2) by (metis drop_all leI list.distinct(1) append_is_Nil_conv)
  moreover have "a ! k = hd (ds @ 0 # r)" using Nil.prems(2) calculation by (metis hd_drop_conv_nth)
  ultimately show ?case using Nil.prems by (cases ds) (auto simp: c_loop_Inr elem_at_def)
next
  case (Cons c cs)
  let ?f = "\<lambda>k. if m (name + int k) = 0 then Some (Inr k)
      else do { c \<leftarrow> elem_at a k; Some (if m (name + int k) \<noteq> c then Inr k else Inl (k + 1)) }"
  have k: "k < length a" using Cons.prems(2) by (metis drop_all leI list.distinct(1) append_is_Nil_conv)
  have ak: "a ! k = hd (ds @ 0 # r)" using Cons.prems(2) k by (metis hd_drop_conv_nth)
  have c: "m (name + int k) = c" "c \<noteq> 0" "cstr m (name + int (Suc k)) cs" using Cons.prems(1) by (simp_all add: add.assoc add.commute[of 1])
  show ?case
  proof (cases "a ! k = c")
    case True
    then obtain ds' where ds: "ds = c # ds'" using ak c(2) by (cases ds) auto
    have "drop (Suc k) a = ds' @ 0 # r" using Cons.prems(2) ds by (metis append_Cons drop_Suc list.sel(3) tl_drop)
    then obtain j d where j: "c_loop ?f (Suc k) = Some j" "elem_at a j = Some d" "m (name + int j) = 0 \<and> d = 0 \<longleftrightarrow> cs = ds'"
      using Cons.IH[OF c(3), of ds'] Cons.prems(3) ds by auto
    have "?f k = Some (Inl (Suc k))" using c True k by (simp add: elem_at_def)
    then have "c_loop ?f k = c_loop ?f (Suc k)" by (rule c_loop_Inl)
    then show ?thesis using j ds by auto
  next
    case False
    then have "?f k = Some (Inr k)" using c k by (simp add: elem_at_def)
    then have "c_loop ?f k = Some k" by (rule c_loop_Inr)
    moreover have "c # cs \<noteq> ds" using ak False by (cases ds) auto
    ultimately show ?thesis using c k by (auto simp: elem_at_def)
  qed
qed

lemma same_name_ok:
  assumes "cstr m name cs" "cname ds a" shows "same_name name m a = Some (cs = ds)"
proof -
  obtain r where a: "a = ds @ 0 # r" "0 \<notin> set ds" using assms(2) by (auto simp: cname_def)
  obtain j c where j: "c_loop (\<lambda>k. if m (name + int k) = 0 then Some (Inr k)
      else do { c \<leftarrow> elem_at a k; Some (if m (name + int k) \<noteq> c then Inr k else Inl (k + 1)) }) 0 = Some j"
    "elem_at a j = Some c" "m (name + int j) = 0 \<and> c = 0 \<longleftrightarrow> cs = ds"
    using same_name_loop[of m name 0 cs a ds r] assms(1) a by auto
  then show ?thesis by (auto simp: same_name_def)
qed

section \<open>The searches\<close>

text \<open>i is the first free pseudo-device and no open file is called cs.\<close>

definition slave_for :: "int list \<Rightarrow> int \<Rightarrow> 'd lfst \<Rightarrow> bool" where
  "slave_for cs i s \<longleftrightarrow> 0 \<le> i \<and> i < Nlfl \<and> lfstate (lfltab s i) = LF_FREE \<and> (\<forall>j. 0 \<le> j \<and> j < i \<longrightarrow> lfstate (lfltab s j) \<noteq> LF_FREE) \<and>
     (\<forall>j. 0 \<le> j \<and> j < Nlfl \<and> lfstate (lfltab s j) \<noteq> LF_FREE \<longrightarrow> (\<exists>ds. ds \<noteq> cs \<and> cname ds (lfname (lfltab s j))))"

lemma find_slave_ok:
  assumes n: "cstr m name cs" and i: "slave_for cs i s" shows "find_slave name m s = Some (Inr i)"
proof -
  let ?f = "\<lambda>(i, lfnext). if i < Nlfl then
       if lfstate (lfltab s i) = LF_FREE then Some (Inl (i + 1, if lfnext = SYSERR then i else lfnext))
       else do { b \<leftarrow> same_name name m (lfname (lfltab s i)); Some (if b then Inr (Inl SYSERR) else Inl (i + 1, lfnext)) }
     else Some (Inr (Inr lfnext))"
  let ?P = "\<lambda>(j, l). 0 \<le> j \<and> j \<le> Nlfl \<and> l = (if i < j then i else SYSERR)"
  have "\<exists>r. c_loop ?f (0, SYSERR) = Some r \<and> r = Inr i"
  proof (rule c_loop_total[where P = ?P and m = "\<lambda>(j, l). nat (Nlfl - j)"])
    show "?P (0, SYSERR)" using i by (simp add: slave_for_def Nlfl_def)
  next
    fix x assume "?P x"
    then obtain j l where x: "x = (j, l)" "0 \<le> j" "j \<le> Nlfl" "l = (if i < j then i else SYSERR)" by (cases x) auto
    consider (free) "j < Nlfl" "lfstate (lfltab s j) = LF_FREE" | (used) "j < Nlfl" "lfstate (lfltab s j) \<noteq> LF_FREE" | (last) "j = Nlfl"
      using x(3) by fastforce
    then show "(\<exists>t. ?f x = Some (Inl t) \<and> ?P t \<and> (case t of (j, l) \<Rightarrow> nat (Nlfl - j)) < (case x of (j, l) \<Rightarrow> nat (Nlfl - j))) \<or>
      (\<exists>r. ?f x = Some (Inr r) \<and> r = Inr i)"
    proof cases
      case free
      then have "i \<le> j" using i x(2) by (force simp: slave_for_def)
      then show ?thesis using free x i by (auto simp: slave_for_def)
    next
      case used
      then obtain ds where ds: "ds \<noteq> cs" "cname ds (lfname (lfltab s j))" using i x(2) unfolding slave_for_def by blast
      have "same_name name m (lfname (lfltab s j)) = Some False" using same_name_ok[OF n ds(2)] ds(1) by simp
      moreover have "j \<noteq> i" using used(2) i by (auto simp: slave_for_def)
      ultimately show ?thesis using used x by auto
    next
      case last
      then show ?thesis using x i by (simp add: slave_for_def)
    qed
  qed
  then show ?thesis by (simp add: find_slave_def)
qed

text \<open>The first k files of a directory have other names.\<close>

definition others :: "int list \<Rightarrow> nat \<Rightarrow> lfdir \<Rightarrow> bool" where
  "others cs k d \<longleftrightarrow> k \<le> length (lfd_files d) \<and> (\<forall>j < k. \<exists>ds. ds \<noteq> cs \<and> cname ds (ld_name (lfd_files d ! j)))"

lemma find_file_ok:
  assumes n: "cstr m name cs" and k: "others cs k (the_dir s)"
    and e: "int k = lfd_nfiles (the_dir s) \<and> r = None \<or>
      int k < lfd_nfiles (the_dir s) \<and> k < length (lfd_files (the_dir s)) \<and> cname cs (ld_name (lfd_files (the_dir s) ! k)) \<and> r = Some k"
  shows "find_file name m s = Some r"
proof -
  let ?f = "\<lambda>i. if int i < lfd_nfiles (the_dir s) then do {
       e \<leftarrow> elem_at (lfd_files (the_dir s)) i;
       b \<leftarrow> same_name name m (ld_name e);
       Some (if b then Inr (Some i) else Inl (i + 1)) }
     else Some (Inr None)"
  have "\<exists>x. c_loop ?f 0 = Some x \<and> x = r"
  proof (rule c_loop_total[where P = "\<lambda>j. j \<le> k" and m = "\<lambda>j. k - j"])
    fix j assume j: "j \<le> k"
    show "(\<exists>t. ?f j = Some (Inl t) \<and> t \<le> k \<and> k - t < k - j) \<or> (\<exists>x. ?f j = Some (Inr x) \<and> x = r)"
    proof (cases "j = k")
      case True
      then show ?thesis using e same_name_ok[OF n] by (auto simp: elem_at_def)
    next
      case False
      then have jk: "j < k" "int j < lfd_nfiles (the_dir s)" "j < length (lfd_files (the_dir s))" using j e k by (auto simp: others_def)
      then obtain ds where ds: "ds \<noteq> cs" "cname ds (ld_name (lfd_files (the_dir s) ! j))" using k unfolding others_def by blast
      then show ?thesis using jk same_name_ok[OF n ds(2)] by (simp add: elem_at_def)
    qed
  qed simp
  then show ?thesis by (simp add: find_file_def)
qed

section \<open>lfsopen\<close>

text \<open>The directory is in memory, or else is read from the disk.\<close>

definition directory :: "('d \<Rightarrow> int \<Rightarrow> int list) \<Rightarrow> lfdir \<Rightarrow> 'd lfst \<Rightarrow> bool" where
  "directory content d s \<longleftrightarrow> wf_dir_words d \<and> (if lf_dirpresent (Lf_data s) then the_dir s = d else content (ldisk s) 0 = enc_dir d)"

definition opened :: "int \<Rightarrow> nat \<Rightarrow> int \<Rightarrow> int list \<Rightarrow> lfdir \<Rightarrow> 'd lfst \<Rightarrow> 'd lfst" where
  "opened i k mbits cs d s = upd_lfl i (\<lambda>f. f\<lparr>lfstate := LF_USED, lfdirptr := Some k, lfmode := and mbits LF_MODE_RW, lfpos := 0,
     lfname := name_into cs (lfname f), lfinum := LF_INULL, lfdnum := LF_DNULL, lfbyte := 512, lfibdirty := False, lfdbdirty := False\<rparr>)
     (upd_lfd (\<lambda>g. g\<lparr>lf_dir := d, lf_dirpresent := True\<rparr>) s)"

definition with_file :: "int list \<Rightarrow> lfdir \<Rightarrow> lfdir" where
  "with_file cs d = (let k = nat (lfd_nfiles d) in d\<lparr>lfd_nfiles := lfd_nfiles d + 1,
     lfd_files := (lfd_files d)[k := \<lparr>ld_size = 0, ld_ilist = LF_INULL, ld_name = name_into cs (ld_name (lfd_files d ! k))\<rparr>]\<rparr>)"

lemma opened_simps [simp]:
  "lkern (opened i k mbits cs d s) = lkern s" "ldisk (opened i k mbits cs d s) = ldisk s" "lf_rubbish (opened i k mbits cs d s) = lf_rubbish s"
  "the_dir (opened i k mbits cs d s) = d" "lf_dskdev (Lf_data (opened i k mbits cs d s)) = lf_dskdev (Lf_data s)"
  "lf_mutex (Lf_data (opened i k mbits cs d s)) = lf_mutex (Lf_data s)" "lf_dirdirty (Lf_data (opened i k mbits cs d s)) = lf_dirdirty (Lf_data s)"
  "lfdev (lfltab (opened i k mbits cs d s) j) = lfdev (lfltab s j)" "lfmutex (lfltab (opened i k mbits cs d s) j) = lfmutex (lfltab s j)"
  by (simp_all add: opened_def the_dir_def)

lemma opened_lkern: "opened i k mbits cs d (s\<lparr>lkern := x\<rparr>) = (opened i k mbits cs d s)\<lparr>lkern := x\<rparr>"
  by (simp add: opened_def upd_lfl_def upd_lfd_def)

lemma mutexes_opened [simp]: "mutexes i (opened i k mbits cs d s) = mutexes i s"
  by (simp add: mutexes_def)

lemma wf_with_file:
  assumes "wf_dir_words d" "0 \<le> lfd_nfiles d" "lfd_nfiles d < 20" "length cs < LF_NAME_LEN"
  shows "wf_dir_words (with_file cs d)"
proof -
  have w: "wf_dir d" "length (lfd_files d) = 20" using assms(1) by (simp_all add: wf_dir_words_def wf_dir_def LF_NUM_DIR_ENT_def)
  then have "lfd_files d ! nat (lfd_nfiles d) \<in> set (lfd_files d)" using assms(2,3) by (intro nth_mem) simp
  then have "length (name_into cs (ld_name (lfd_files d ! nat (lfd_nfiles d)))) = LF_NAME_LEN"
    using w(1) assms(4) by (subst length_name_into) (auto simp: wf_dir_def)
  then show ?thesis using assms(1-3)
    by (auto simp: wf_dir_words_def wf_dir_def with_file_def Let_def i32_id u32_id LF_INULL_def dest!: subsetD[OF set_update_subset_insert])
qed

lemma init_slave_ok:
  assumes "cstr m name cs" "length cs < length (lfname (lfltab s i))"
  shows "init_slave i k mbits name m (upd_lfd (\<lambda>g. g\<lparr>lf_dir := d, lf_dirpresent := True\<rparr>) s) = Some (opened i k mbits cs d s)"
  using copy_name_ok[OF assms] by (simp add: init_slave_def opened_def LF_BLKSIZ_def upd_lfl_def)

text \<open>What the caller brings: a name, a valid mode, a free pseudo-device and the directory's mutex.\<close>

definition can_open :: "bmem \<Rightarrow> int \<Rightarrow> int \<Rightarrow> int list \<Rightarrow> int \<Rightarrow> int \<Rightarrow> 'd lfst \<Rightarrow> bool" where
  "can_open m name mode cs mbits i s \<longleftrightarrow> cstr m name cs \<and> length cs < LF_NAME_LEN \<and> lfgetmode mode m = Some mbits \<and> mbits \<noteq> SYSERR \<and>
     slave_for cs i s \<and> length (lfname (lfltab s i)) = LF_NAME_LEN \<and> mutex_ok (lf_mutex (Lf_data s)) (lkern s)"

context lfs_disk
begin

lemma read_directory:
  assumes "directory content d s" "ok (ldisk s)" "lf_dskdev (Lf_data s) = dev" "1 \<le> n"
  shows "(if lf_dirpresent (Lf_data s) then Some (OK, s)
       else do {
         (r, bs) \<leftarrow> dread dk (lf_dskdev (Lf_data s)) LF_AREA_DIR (ldisk s);
         Some (if r = SYSERR then (SYSERR, s)
               else (OK, upd_lfd (\<lambda>g. g\<lparr>lf_dir := dec_dir bs, lf_dirpresent := True\<rparr>) s)) }) =
    Some (OK, upd_lfd (\<lambda>g. g\<lparr>lf_dir := d, lf_dirpresent := True\<rparr>) s)"
proof (cases "lf_dirpresent (Lf_data s)")
  case True
  then have "lf_dir (Lf_data s) = d" using assms(1) by (simp add: directory_def the_dir_def)
  then have "upd_lfd (\<lambda>g. g\<lparr>lf_dir := d, lf_dirpresent := True\<rparr>) s = s" using True by (simp add: upd_lfd_def)
  then show ?thesis using True by simp
next
  case False
  have "dec_dir (content (ldisk s) 0) = d" using assms(1) False dec_enc_dir by (simp add: directory_def)
  then show ?thesis using False read_sector[OF assms(2), of 0] assms(3,4) by (simp add: LF_AREA_DIR_def)
qed

lemma open_ends:
  assumes c: "can_open m name mode cs mbits i s"
    and l: "\<And>k. lfsopen_locked dk i mbits name m (s\<lparr>lkern := k\<rparr>) = Some (r, t\<lparr>lkern := k\<rparr>)" and t: "lkern t = lkern s" "lf_mutex (Lf_data t) = lf_mutex (Lf_data s)"
  shows "lfsopen dk name mode m s = Some (Done r t)"
proof -
  let ?m = "lf_mutex (Lf_data s)"
  have i: "slave_for cs i s" "cstr m name cs" "length cs < LF_NAME_LEN" "mutex_ok ?m (lkern s)" using c by (simp_all add: can_open_def)
  have "lf_call (signal ?m) (t\<lparr>lkern := locked ?m (lkern s)\<rparr>) = Some (Done OK t)"
    using lf_unlock[of "t\<lparr>lkern := locked ?m (lkern s)\<rparr>" ?m "lkern s"] i(4) t(1) by simp
  then show ?thesis
    using name_len_ok[OF i(2,3)] find_slave_ok[OF i(2,1)] c i(1) lf_lock[OF i(4)] l t(2)
    by (simp add: lfsopen_def can_open_def slave_for_def)
qed

lemma locked_start:
  assumes "directory content d s" "ok (ldisk s)" "lf_dskdev (Lf_data s) = dev" "1 \<le> n"
  shows "lfsopen_locked dk i mbits name m s = (let s = upd_lfd (\<lambda>g. g\<lparr>lf_dir := d, lf_dirpresent := True\<rparr>) s in do {
       found \<leftarrow> find_file name m s;
       case found of
         None \<Rightarrow>
           if and mbits LF_MODE_O \<noteq> 0 then Some (SYSERR, s)
           else if lfd_nfiles (the_dir s) \<ge> int LF_NUM_DIR_ENT then Some (SYSERR, s)
           else do {
             (k, s) \<leftarrow> new_file name m s;
             s \<leftarrow> init_slave i k mbits name m s;
             Some (lfdev (lfltab s i), s) }
       | Some k \<Rightarrow>
           if and mbits LF_MODE_N \<noteq> 0 then Some (SYSERR, s)
           else do {
             s \<leftarrow> init_slave i k mbits name m s;
             Some (lfdev (lfltab s i), s) } })"
  unfolding lfsopen_locked_def read_directory[OF assms] by (simp add: Let_def)

lemma directory_lkern [simp]: "directory content d (s\<lparr>lkern := k\<rparr>) = directory content d s"
  by (simp add: directory_def)

lemma open_found:
  assumes c: "can_open m name mode cs mbits i s" and d: "directory content d s" "ok (ldisk s)" "lf_dskdev (Lf_data s) = dev" "1 \<le> n"
    and o: "others cs k d" "int k < lfd_nfiles d" "k < length (lfd_files d)" "cname cs (ld_name (lfd_files d ! k))" and mb: "and mbits LF_MODE_N = 0"
  shows "lfsopen dk name mode m s = Some (Done (lfdev (lfltab s i)) (opened i k mbits cs d s))"
proof (rule open_ends[OF c])
  fix x
  let ?s = "s\<lparr>lkern := x\<rparr>"
  let ?u = "upd_lfd (\<lambda>g. g\<lparr>lf_dir := d, lf_dirpresent := True\<rparr>) ?s"
  have n: "cstr m name cs" "length cs < length (lfname (lfltab ?s i))" using c by (simp_all add: can_open_def)
  have td: "the_dir ?u = d" by (simp add: the_dir_def)
  have "find_file name m ?u = Some (Some k)" using find_file_ok[OF n(1), of k ?u "Some k"] o by (simp add: td)
  moreover have "init_slave i k mbits name m ?u = Some (opened i k mbits cs d ?s)" by (rule init_slave_ok[OF n])
  ultimately show "lfsopen_locked dk i mbits name m ?s = Some (lfdev (lfltab s i), (opened i k mbits cs d s)\<lparr>lkern := x\<rparr>)"
    using locked_start[of d ?s] d mb by (simp add: Let_def opened_lkern)
qed simp_all

lemma open_made:
  assumes c: "can_open m name mode cs mbits i s" and d: "directory content d s" "ok (ldisk s)" "lf_dskdev (Lf_data s) = dev" "1 \<le> n"
    and o: "others cs (nat (lfd_nfiles d)) d" "0 \<le> lfd_nfiles d" "lfd_nfiles d < 20" and mb: "and mbits LF_MODE_O = 0"
  shows "lfsopen dk name mode m s = Some (Done (lfdev (lfltab s i)) (opened i (nat (lfd_nfiles d)) mbits cs (with_file cs d) s))"
proof (rule open_ends[OF c])
  fix x
  let ?s = "s\<lparr>lkern := x\<rparr>" and ?k = "nat (lfd_nfiles d)"
  let ?u = "upd_lfd (\<lambda>g. g\<lparr>lf_dir := d, lf_dirpresent := True\<rparr>) ?s"
  have n: "cstr m name cs" "length cs < length (lfname (lfltab ?s i))" "length cs < LF_NAME_LEN" using c by (simp_all add: can_open_def)
  have w: "length (lfd_files d) = 20" "\<forall>e \<in> set (lfd_files d). length (ld_name e) = LF_NAME_LEN"
    using d(1) by (simp_all add: directory_def wf_dir_words_def wf_dir_def LF_NUM_DIR_ENT_def)
  then have k: "?k < length (lfd_files d)" using o(3) by simp
  then have ln: "length cs < length (ld_name (lfd_files d ! ?k))" using w(2) n(3) nth_mem by fastforce
  have td: "the_dir ?u = d" by (simp add: the_dir_def)
  have "find_file name m ?u = Some None" using find_file_ok[OF n(1), of ?k ?u None] o by (simp add: td)
  moreover have "new_file name m ?u = Some (?k, upd_lfd (\<lambda>g. g\<lparr>lf_dir := with_file cs d, lf_dirpresent := True\<rparr>) ?s)"
    using copy_name_ok[OF n(1) ln] k o(2) unfolding new_file_def td
    by (simp add: elem_at_def with_file_def upd_dir_def upd_lfd_def Let_def)
  moreover have "init_slave i ?k mbits name m (upd_lfd (\<lambda>g. g\<lparr>lf_dir := with_file cs d, lf_dirpresent := True\<rparr>) ?s) =
    Some (opened i ?k mbits cs (with_file cs d) ?s)" by (rule init_slave_ok[OF n(1,2)])
  ultimately show "lfsopen_locked dk i mbits name m ?s = Some (lfdev (lfltab s i), (opened i ?k mbits cs (with_file cs d) s)\<lparr>lkern := x\<rparr>)"
    using locked_start[of d ?s] d mb o(3) td by (simp add: Let_def opened_lkern LF_NUM_DIR_ENT_def)
qed simp_all

end

end
