(* ===== verification/Lfs_Durable.thy ===== *)
theory Lfs_Durable
  imports Lfs_Open
begin

text \<open>
  What is on the disk after lflclose, and what lfsopen makes of it: a file keeps its bytes.
\<close>

section \<open>Files on disk\<close>

definition stored :: "('d \<Rightarrow> int \<Rightarrow> int list) \<Rightarrow> int \<Rightarrow> int \<Rightarrow> int set \<Rightarrow> int set \<Rightarrow> nat \<Rightarrow> int list \<Rightarrow> lfdir \<Rightarrow> 'd \<Rightarrow> bool" where
  "stored content n ds I D k xs dir d \<longleftrightarrow> (\<exists>ns db fi fd. fits n ds ns db fi fd \<and> I = set ns \<union> set fi \<and> D = set db \<union> set fd \<and>
     k < length (lfd_files dir) \<and> ld_size (lfd_files dir ! k) = int (length xs) \<and> ld_ilist (lfd_files dir ! k) = first_ib ns \<and>
     free_ok (ibs content ds d) (dat content ds n d) dir fi fd \<and> (\<forall>j < length ns. ibs content ds d (ns ! j) = ibl ns db j) \<and>
     length xs \<le> 512 * length db \<and> (\<forall>x \<in> set xs. 0 \<le> x \<and> x < 256) \<and>
     (\<forall>q < length xs. xs ! q = dat content ds n d (db ! (q div 512)) ! (q mod 512)))"

text \<open>The state before lfsopen: the disk's device, the stack, a block of memory for the file.\<close>

definition lf_set_up :: "int \<Rightarrow> int \<Rightarrow> 'd lfst \<Rightarrow> bool" where
  "lf_set_up dev i s \<longleftrightarrow> lf_dskdev (Lf_data s) = dev \<and> length (lf_rubbish s) = 508 \<and> length (lfdblock (lfltab s i)) = 512"

context lfs_disk
begin

lemma opened_filed:
  assumes s: "stored content n ds I D k xs d (ldisk s)" and u: "lf_set_up dev i s" "ok (ldisk s)" "wf_dir d"
  shows "filed ds i I D xs 0 (opened i k mbits cs d s)"
proof -
  obtain ns db fi fd where f: "fits n ds ns db fi fd" "I = set ns \<union> set fi" "D = set db \<union> set fd"
    "k < length (lfd_files d)" "ld_size (lfd_files d ! k) = int (length xs)" "ld_ilist (lfd_files d ! k) = first_ib ns"
    "free_ok (ib_of ds (ldisk s)) (dat_of ds (ldisk s)) d fi fd" "\<forall>j < length ns. ib_of ds (ldisk s) (ns ! j) = ibl ns db j"
    "length xs \<le> 512 * length db" "\<forall>x \<in> set xs. 0 \<le> x \<and> x < 256"
    and b: "\<forall>q < length xs. xs ! q = dat_of ds (ldisk s) (db ! (q div 512)) ! (q mod 512)" using s unfolding stored_def by blast
  let ?t = "opened i k mbits cs d s"
  have dn: "LF_DNULL \<noteq> db ! (q div 512)" if q: "q < length xs" for q
  proof -
    have "q div 512 < length db" using q f(9) by (simp add: less_mult_imp_div_less mult.commute)
    then have "db ! (q div 512) \<in> set db" by simp
    then show ?thesis using fits_db[OF f(1)] by (force simp: LF_DNULL_def)
  qed
  have lt: "lfltab ?t i = (lfltab s i)\<lparr>lfstate := LF_USED, lfdirptr := Some k, lfmode := and mbits LF_MODE_RW, lfpos := 0,
     lfname := name_into cs (lfname (lfltab s i)), lfinum := LF_INULL, lfdnum := LF_DNULL, lfbyte := 512, lfibdirty := False, lfdbdirty := False\<rparr>"
    by (simp add: opened_def)
  have "data_ok (dat_of ds (ldisk s)) (lfltab ?t i) db xs"
  proof (rule data_okI)
    show "\<forall>q < length xs. xs ! q = (if lfdnum (lfltab ?t i) = db ! (q div 512) then lfdblock (lfltab ?t i)
        else dat_of ds (ldisk s) (db ! (q div 512))) ! (q mod 512)"
    proof (intro allI impI)
      fix q assume q: "q < length xs"
      show "xs ! q = (if lfdnum (lfltab ?t i) = db ! (q div 512) then lfdblock (lfltab ?t i)
        else dat_of ds (ldisk s) (db ! (q div 512))) ! (q mod 512)" using dn[OF q] b[rule_format, OF q] by (simp add: lt)
    qed
    show "\<not> lfdbdirty (lfltab ?t i) \<longrightarrow> (\<forall>q < length xs. xs ! q = dat_of ds (ldisk s) (db ! (q div 512)) ! (q mod 512))" using b by blast
  qed (use f(9,10) u(1) in \<open>simp_all add: lt lf_set_up_def\<close>)
  moreover have "index_ok (ib_of ds (ldisk s)) (lfltab ?t i) ns db"
    using f(8) fits_pos[OF f(1)] nth_mem by (force simp: index_ok_def lt LF_INULL_def)
  moreover have "entry_ok i ns xs ?t" using f(4-6) u(3) by (simp add: entry_ok_def dirent_def lt elem_at_def)
  ultimately have "rep ds i ns db fi fd xs ?t" using f(1,7) u(1,2) by (simp add: lfs_rep_def lf_set_up_def) (simp add: lt)
  then show ?thesis unfolding file_rel_def using f(2,3) by (auto simp: lt)
qed

text \<open>A file that has just been made on an empty file system owns no block.\<close>

lemma made_stored:
  assumes e: "empty_fs content n ds N sectors d" and g: "1 \<le> ds" "ds \<le> n" "int sectors \<le> n" "\<forall>k < N. valid_ib ds (int k)"
  shows "stored content n ds (int ` {0..<N}) (int ` {nat ds..<sectors}) 0 [] (with_file cs (new_dir ds)) d"
proof -
  have "fits n ds [] [] (map int [0..<N]) (map int [nat ds..<sectors])"
    using g by (auto simp: fits_def distinct_map inj_on_def)
  moreover have "free_ok (ib_of ds d) (dat_of ds d) (with_file cs (new_dir ds)) (map int [0..<N]) (map int [nat ds..<sectors])"
    using e by (simp add: empty_fs_def free_ok_def with_file_def new_dir_def zero_dir_def Let_def)
  ultimately show ?thesis
    unfolding stored_def
    by - (rule exI[of _ "[]"], rule exI[of _ "[]"], rule exI[of _ "map int [0..<N]"], rule exI[of _ "map int [nat ds..<sectors]"],
        simp add: with_file_def new_dir_def zero_dir_def Let_def first_ib_def LF_NUM_DIR_ENT_def)
qed

section \<open>Closing\<close>

lemma flushed_stored:
  assumes r: "rep ds i ns db fi fd xs s" and c: "\<not> lfdbdirty (lfltab s i)" "\<not> lfibdirty (lfltab s i)" and k: "lfdirptr (lfltab s i) = Some k"
  shows "stored content n ds (set ns \<union> set fi) (set db \<union> set fd) k xs (the_dir s) (ldisk s)"
proof -
  have f: "fits n ds ns db fi fd" "entry_ok i ns xs s" "free_ok (ib_of ds (ldisk s)) (dat_of ds (ldisk s)) (the_dir s) fi fd"
    "index_ok (ib_of ds (ldisk s)) (lfltab s i) ns db" "data_ok (dat_of ds (ldisk s)) (lfltab s i) db xs" using r by (simp_all add: lfs_rep_def)
  have "k < length (lfd_files (the_dir s))" "ld_size (lfd_files (the_dir s) ! k) = int (length xs)" "ld_ilist (lfd_files (the_dir s) ! k) = first_ib ns"
    using f(2) k by (auto simp: entry_ok_def dirent_def elem_at_def split: if_splits)
  moreover have "\<forall>j < length ns. ib_of ds (ldisk s) (ns ! j) = ibl ns db j" using f(4) c(2) unfolding index_ok_def by blast
  moreover have "length xs \<le> 512 * length db" "\<forall>x \<in> set xs. 0 \<le> x \<and> x < 256"
    "\<forall>q < length xs. xs ! q = dat_of ds (ldisk s) (db ! (q div 512)) ! (q mod 512)" using f(5) c(1) unfolding data_ok_def by blast+
  ultimately show ?thesis unfolding stored_def using f(1,3) by blast
qed

lemma close_ok:
  assumes r: "filed ds i I D xs p s" and m: "mutexes i s" and k: "lfdirptr (lfltab s i) = Some k" and y: "lf_dirdirty (Lf_data s)"
  shows "\<exists>t. lflclose dk i s = Some (Done OK t) \<and> framed ds i I D s t \<and>
    stored content n ds I D k xs (the_dir s) (ldisk t) \<and> content (ldisk t) 0 = enc_dir (the_dir s) \<and> ok (ldisk t)"
  unfolding lflclose_def
proof (rule section_ok[OF m])
  fix u assume u: "u = s\<lparr>lkern := locked (lfmutex (lfltab s i)) (lkern s)\<rparr>"
  have ru: "filed ds i I D xs p u" using r by (simp add: u filed_lkern)
  have us: "lfstate (lfltab u i) = LF_USED" using file_entry[OF ru] by blast
  obtain ns db fi fd where f: "rep ds i ns db fi fd xs u" "I = set ns \<union> set fi" "D = set db \<union> set fd" using ru by (auto simp: file_rel_def)
  obtain t where t: "lfflush dk i u = Some (OK, t)" "rep ds i ns db fi fd xs t" "framed ds i I D u t"
    "lfltab t i = (lfltab u i)\<lparr>lfdbdirty := False, lfibdirty := False\<rparr>" "the_dir t = the_dir u" "content (ldisk t) 0 = enc_dir (the_dir u)"
    using flush_ok[OF f(1)] f(2,3) y by (auto simp: u)
  have "stored content n ds I D k xs (the_dir t) (ldisk t)"
    unfolding f(2,3) by (rule flushed_stored[OF t(2)]) (use t(4) k in \<open>simp_all add: u\<close>)
  moreover have "framed ds i I D u (upd_lfl i (\<lambda>f. f\<lparr>lfstate := LF_FREE\<rparr>) t)" using t(3) by (simp add: frame_def stays_def)
  moreover have "ok (ldisk t)" using t(2) by (simp add: lfs_rep_def)
  ultimately show "\<exists>t. (if lfstate (lfltab u i) \<noteq> LF_USED then lfl_leave i SYSERR u
       else do {
         (_, s) \<leftarrow> (if lf_dirdirty (Lf_data u) \<or> lfdbdirty (lfltab u i) \<or> lfibdirty (lfltab u i) then lfflush dk i u else Some (OK, u));
         lfl_leave i OK (upd_lfl i (\<lambda>f. f\<lparr>lfstate := LF_FREE\<rparr>) s) }) = lfl_leave i OK t \<and>
      framed ds i I D u t \<and> stored content n ds I D k xs (the_dir s) (ldisk t) \<and> content (ldisk t) 0 = enc_dir (the_dir s) \<and> ok (ldisk t)"
    using us y t(1,5,6) by (intro exI[of _ "upd_lfl i (\<lambda>f. f\<lparr>lfstate := LF_FREE\<rparr>) t"]) (simp add: u)
qed simp

lemma words_kept:
  assumes w: "wf_dir_words (the_dir s)" and f: "framed ds i I D s t" and r: "filed ds i I D' xs p t"
  shows "wf_dir_words (the_dir t)"
proof -
  obtain ns db fi fd where g: "rep ds i ns db fi fd xs t" using r by (auto simp: file_rel_def)
  have a: "fits n ds ns db fi fd" "entry_ok i ns xs t" "free_ok (ib_of ds (ldisk t)) (dat_of ds (ldisk t)) (the_dir t) fi fd" "length xs \<le> 512 * length db"
    using g by (simp_all add: lfs_rep_def data_ok_def)
  obtain e where e: "dirent i t = Some e" "ld_size e = int (length xs)" "ld_ilist e = first_ib ns" using a(2) by (auto simp: entry_ok_def)
  then obtain k where k: "lfdirptr (lfltab t i) = Some k" "k < length (lfd_files (the_dir t))" "lfd_files (the_dir t) ! k = e"
    by (auto simp: dirent_def elem_at_def split: bind_splits if_splits)
  have v: "1 \<le> ds" "ds \<le> n" "\<forall>b \<in> set ns. valid_ib ds b" "\<forall>b \<in> set fi. valid_ib ds b" "\<forall>c \<in> set fd. ds \<le> c \<and> c < n"
    using a(1) by (auto simp: fits_def)
  have "i32 (lfd_dfree (the_dir t)) = lfd_dfree (the_dir t)"
    by (rule links_range[OF _ v(5,1), where nxt = "next_db (dat_of ds (ldisk t))"]) (use a(3) in \<open>simp add: free_ok_def\<close>)
  moreover have "lfd_ifree (the_dir t) = first_ib fi" using links_head[of _ "lfd_ifree (the_dir t)" fi] a(3) unfolding free_ok_def by blast
  then have "i32 (lfd_ifree (the_dir t)) = lfd_ifree (the_dir t)" using first_ib_range[OF v(4,2)] by (simp add: i32_id)
  moreover have st: "stays i s t" using f by (simp add: frame_def)
  then have dp: "lfdirptr (lfltab s i) = Some k" using k(1) by (simp add: stays_def)
  have "\<forall>j. lfdirptr (lfltab s i) \<noteq> Some j \<longrightarrow> lfd_files (the_dir t) ! j = lfd_files (the_dir s) ! j" using st by (simp add: stays_def)
  then have other: "\<And>j. j \<noteq> k \<Longrightarrow> lfd_files (the_dir t) ! j = lfd_files (the_dir s) ! j" unfolding dp by simp
  have "lfd_nfiles (the_dir t) = lfd_nfiles (the_dir s)" "length (lfd_files (the_dir t)) = length (lfd_files (the_dir s))"
    using st by (simp_all add: stays_def)
  note same = this other
  moreover have "u32 (ld_size x) = ld_size x \<and> i32 (ld_ilist x) = ld_ilist x" if "x \<in> set (lfd_files (the_dir t))" for x
  proof -
    obtain j where j: "j < length (lfd_files (the_dir t))" "x = lfd_files (the_dir t) ! j" using \<open>x \<in> _\<close> by (auto simp: in_set_conv_nth)
    show ?thesis
    proof (cases "j = k")
      case True
      have "int (length xs) < 4294967296" using a(4) fits_len[OF a(1)] size32 by linarith
      then show ?thesis using True j k(3) e first_ib_range[OF v(3,2)] by (simp add: u32_id i32_id)
    next
      case False
      then have "x \<in> set (lfd_files (the_dir s))" using same j by (metis nth_mem)
      then show ?thesis using w by (simp add: wf_dir_words_def)
    qed
  qed
  ultimately show ?thesis using w a(2) by (simp add: wf_dir_words_def entry_ok_def)
qed

section \<open>A file is written, and read after a restart\<close>

lemma words_with_file: "1 \<le> ds \<Longrightarrow> ds \<le> n \<Longrightarrow> length cs < LF_NAME_LEN \<Longrightarrow> wf_dir_words (with_file cs (new_dir ds))"
  using wf_new_dir[of ds] size32 by (intro wf_with_file) (simp_all add: new_dir_def zero_dir_def)

lemma keep_ok:
  assumes e: "empty_fs content n ds N sectors (ldisk s)" and g: "1 \<le> ds" "ds \<le> n" "int sectors \<le> n" "\<forall>k < N. valid_ib ds (int k)"
    and s: "lf_set_up dev i s" "ok (ldisk s)" "\<not> lf_dirpresent (Lf_data s)" "mutexes i s"
    and c: "can_open m name mode cs mbits i s" and mb: "and mbits LF_MODE_O = 0"
    and bs: "bs \<noteq> []" "length bs \<le> 8192 * N" "length bs \<le> 512 * (sectors - nat ds)" "\<forall>b \<in> set bs. 0 \<le> b \<and> b < 256"
      "\<And>j. j < length bs \<Longrightarrow> m' (buff + int j) = bs ! j"
  shows "\<exists>t. andthen (lfsopen dk name mode m s) (\<lambda>_ s. andthen (lflwrite dk i buff (int (length bs)) m' s) (\<lambda>_ s. lflclose dk i s)) = Some (Done OK t) \<and>
    ok (ldisk t) \<and> (\<exists>d. stored content n ds (int ` {0..<N}) (int ` {nat ds..<sectors}) 0 bs d (ldisk t) \<and>
      content (ldisk t) 0 = enc_dir d \<and> wf_dir_words d \<and> lfd_nfiles d = 1 \<and> cname cs (ld_name (lfd_files d ! 0)))"
proof -
  let ?I = "int ` {0..<N}" and ?D = "int ` {nat ds..<sectors}" and ?d = "with_file cs (new_dir ds)"
  let ?t = "opened i 0 mbits cs ?d s"
  have cs: "length cs < LF_NAME_LEN" "cstr m name cs" using c by (simp_all add: can_open_def)
  have z: "0 \<notin> set cs" using cs(2) by (induction m name cs rule: cstr.induct) auto
  have wn: "wf_dir_words (new_dir ds)" using wf_new_dir[of ds] g size32 by simp
  have w: "wf_dir_words ?d" by (rule words_with_file[OF g(1,2) cs(1)])
  have op: "lfsopen dk name mode m s = Some (Done (lfdev (lfltab s i)) ?t)"
    using open_made[OF c _ s(2), of "new_dir ds"] e s(1,3) g wn mb
    by (simp add: directory_def empty_fs_def lf_set_up_def others_def new_dir_def zero_dir_def)
  have ft: "filed ds i ?I ?D [] 0 ?t"
    by (rule opened_filed[OF made_stored[OF e g] s(1,2)]) (use w in \<open>simp add: wf_dir_words_def\<close>)
  have mt: "mutexes i ?t" using s(4) by simp
  have card: "card ?I = N" "card ?D = sectors - nat ds" by (simp_all add: card_image)
  obtain u where u: "lflwrite dk i buff (int (length bs)) m' ?t = Some (Done (int (length bs)) u)" "framed ds i ?I ?D ?t u"
    "filed ds i ?I ?D bs (length bs) u" "lf_dirdirty (Lf_data u)"
    using write_ok[OF ft mt, of bs m' buff] bs by (auto simp: card write_at_def)
  have pt: "lfdirptr (lfltab ?t i) = Some 0" by (simp add: opened_def)
  then have pu: "lfdirptr (lfltab u i) = Some 0" using u(2) by (simp add: frame_def stays_def)
  obtain v where v: "lflclose dk i u = Some (Done OK v)" "stored content n ds ?I ?D 0 bs (the_dir u) (ldisk v)"
    "content (ldisk v) 0 = enc_dir (the_dir u)" "ok (ldisk v)"
    using close_ok[OF u(3) mutexes_frame[OF mt u(2)] pu u(4)] by blast
  have "wf_dir_words (the_dir u)" by (rule words_kept[OF _ u(2,3)]) (use w in simp)
  moreover have "lfd_nfiles (the_dir u) = 1" "ld_name (lfd_files (the_dir u) ! 0) = ld_name (lfd_files ?d ! 0)"
    using u(2) by (simp_all add: frame_def stays_def with_file_def new_dir_def zero_dir_def Let_def)
  moreover have "ld_name (lfd_files ?d ! 0) = name_into cs (replicate LF_NAME_LEN 0)"
    by (simp add: with_file_def new_dir_def zero_dir_def Let_def LF_NUM_DIR_ENT_def)
  ultimately show ?thesis using op u(1) v cname_into[OF z] by (intro exI[of _ v]) auto
qed

lemma fetch_ok:
  assumes d: "stored content n ds I D 0 bs d (ldisk s)" "content (ldisk s) 0 = enc_dir d" "wf_dir_words d" "lfd_nfiles d = 1"
      "cname cs (ld_name (lfd_files d ! 0))"
    and s: "lf_set_up dev i s" "ok (ldisk s)" "\<not> lf_dirpresent (Lf_data s)" "mutexes i s"
    and c: "can_open m name mode cs mbits i s" and mb: "and mbits LF_MODE_N = 0" and bs: "bs \<noteq> []"
  shows "\<exists>t. andthen (lfsopen dk name mode m s) (\<lambda>_ s. lflread dk i buff (int (length bs)) m' s) = Some (Done (int (length bs), put m' buff bs) t)"
proof -
  let ?t = "opened i 0 mbits cs d s"
  have g: "1 \<le> ds" "ds \<le> n" using d(1) by (auto simp: stored_def fits_def)
  have k: "0 < length (lfd_files d)" using d(3) by (simp add: wf_dir_words_def wf_dir_def LF_NUM_DIR_ENT_def)
  have op: "lfsopen dk name mode m s = Some (Done (lfdev (lfltab s i)) ?t)"
    using open_found[OF c _ s(2), of d 0] d(2-5) s(1,3) g k mb by (simp add: directory_def lf_set_up_def others_def)
  have ft: "filed ds i I D bs 0 ?t" by (rule opened_filed[OF d(1) s(1,2)]) (use d(3) in \<open>simp add: wf_dir_words_def\<close>)
  obtain u where "lflread dk i buff (int (length bs)) m' ?t = Some (Done (read_result 0 bs (length bs), put m' buff bs) u)"
    using read_ok[OF ft, of buff "length bs" m'] s(4) by auto
  then show ?thesis using op bs by (simp add: read_result_def)
qed

end

end
