(* ===== verification/Lfs_Sessions.thy ===== *)
theory Lfs_Sessions
  imports Lfs_Durable
begin

text \<open>
  What a program sees of an open file: a list of bytes and a position. Every sequence of reads, writes,
  seeks and truncations is refined by the calls of the driver, and a file that is written and closed is
  found again after a restart, with the same bytes.
\<close>

section \<open>Sessions\<close>

datatype file_op = Get nat | Put "int list" | Seek nat | Truncate

text \<open>The abstract file: the answer of an operation and the bytes that it delivers.\<close>

fun spec_op :: "file_op \<Rightarrow> int list \<times> nat \<Rightarrow> (int \<times> int list) \<times> int list \<times> nat" where
  "spec_op (Get c) (xs, p) = ((read_result p xs c, take c (drop p xs)), xs, p + min c (length xs - p))"
| "spec_op (Put bs) (xs, p) = ((int (length bs), []), write_at p bs xs, p + length bs)"
| "spec_op (Seek k) (xs, p) = (if k \<le> length xs then ((OK, []), xs, k) else ((SYSERR, []), xs, p))"
| "spec_op Truncate (xs, p) = ((OK, []), [], 0)"

primrec spec_ops :: "file_op list \<Rightarrow> int list \<times> nat \<Rightarrow> (int \<times> int list) list \<times> int list \<times> nat" where
  "spec_ops [] x = ([], x)"
| "spec_ops (a # ops) x = (let (r, y) = spec_op a x; (rs, z) = spec_ops ops y in (r # rs, z))"

text \<open>Writes are of bytes and stay within the blocks that the file and the free lists have.\<close>

fun op_fits :: "nat \<Rightarrow> nat \<Rightarrow> file_op \<Rightarrow> int list \<times> nat \<Rightarrow> bool" where
  "op_fits ni nd (Put bs) (xs, p) \<longleftrightarrow> (\<forall>b \<in> set bs. 0 \<le> b \<and> b < 256) \<and> p + length bs \<le> 8192 * ni \<and> p + length bs \<le> 512 * nd"
| "op_fits ni nd _ _ \<longleftrightarrow> True"

primrec ops_fit :: "nat \<Rightarrow> nat \<Rightarrow> file_op list \<Rightarrow> int list \<times> nat \<Rightarrow> bool" where
  "ops_fit ni nd [] x \<longleftrightarrow> True"
| "ops_fit ni nd (a # ops) x \<longleftrightarrow> op_fits ni nd a x \<and> ops_fit ni nd ops (snd (spec_op a x))"

text \<open>The calls, with a buffer at address 0; what a read leaves there is delivered.\<close>

primrec run_op :: "'d disk_driver \<Rightarrow> int \<Rightarrow> file_op \<Rightarrow> 'd lfst \<Rightarrow> (int \<times> int list, 'd lfst) act option" where
  "run_op dk i (Get c) s = andthen (lflread dk i 0 (int c) (\<lambda>_. 0) s) (\<lambda>(r, m) s. Some (Done (r, map (\<lambda>k. m (int k)) [0..<nat r]) s))"
| "run_op dk i (Put bs) s = andthen (lflwrite dk i 0 (int (length bs)) (put (\<lambda>_. 0) 0 bs) s) (\<lambda>r s. Some (Done (r, []) s))"
| "run_op dk i (Seek k) s = andthen (lflseek i (int k) s) (\<lambda>r s. Some (Done (r, []) s))"
| "run_op dk i Truncate s = andthen (lflcontrol dk i LF_CTL_TRUNC s) (\<lambda>r s. Some (Done (r, []) s))"

primrec run_ops :: "'d disk_driver \<Rightarrow> int \<Rightarrow> file_op list \<Rightarrow> 'd lfst \<Rightarrow> ((int \<times> int list) list, 'd lfst) act option" where
  "run_ops dk i [] s = Some (Done [] s)"
| "run_ops dk i (a # ops) s = andthen (run_op dk i a s) (\<lambda>r s. andthen (run_ops dk i ops s) (\<lambda>rs s. Some (Done (r # rs) s)))"

lemma read_back: "length bs = k \<Longrightarrow> map (\<lambda>j. put m 0 bs (int j)) [0..<k] = bs"
  by (rule nth_equalityI) (simp_all add: put_def)

context lfs_disk
begin

lemma op_ok:
  assumes r: "filed ds i I D xs p s" and m: "mutexes i s" and a: "op_fits (card I) (card D) a (xs, p)"
  shows "\<exists>t. run_op dk i a s = Some (Done (fst (spec_op a (xs, p))) t) \<and> framed ds i I D s t \<and>
    filed ds i I D (fst (snd (spec_op a (xs, p)))) (snd (snd (spec_op a (xs, p)))) t"
proof (cases a)
  case (Get c)
  have p: "p \<le> length xs" using file_entry[OF r] by blast
  obtain t where t: "lflread dk i 0 (int c) (\<lambda>_. 0) s = Some (Done (read_result p xs c, put (\<lambda>_. 0) 0 (take c (drop p xs))) t)"
    "framed ds i I D s t" "filed ds i I D xs (p + min c (length xs - p)) t" using read_ok[OF r m, of 0 c "\<lambda>_. 0"] by blast
  have "length (take c (drop p xs)) = nat (read_result p xs c)" using p by (auto simp: read_result_def LF_EOF_def)
  then show ?thesis using t read_back[of "take c (drop p xs)"] by (simp add: Get)
next
  case (Put bs)
  have "put (\<lambda>_. 0) 0 bs (0 + int j) = bs ! j" if "j < length bs" for j using that by (simp add: put_def)
  then show ?thesis using write_ok[OF r m, of bs "put (\<lambda>_. 0) 0 bs" 0] a by (auto simp: Put)
next
  case (Seek k)
  then show ?thesis using seek_ok[OF r m, of k] seek_beyond[OF r m, of "int k"] by (cases "k \<le> length xs") auto
next
  case Truncate
  then show ?thesis using control_truncate[OF r m] by auto
qed

lemma ops_ok:
  assumes "filed ds i I D xs p s" "mutexes i s" "ops_fit (card I) (card D) ops (xs, p)"
  shows "\<exists>t. run_ops dk i ops s = Some (Done (fst (spec_ops ops (xs, p))) t) \<and> framed ds i I D s t \<and>
    filed ds i I D (fst (snd (spec_ops ops (xs, p)))) (snd (snd (spec_ops ops (xs, p)))) t"
  using assms
proof (induction ops arbitrary: xs p s)
  case Nil
  then show ?case using frame_refl by auto
next
  case (Cons a ops)
  obtain x ys q where y: "spec_op a (xs, p) = (x, ys, q)" by (metis prod.collapse)
  obtain t where t: "run_op dk i a s = Some (Done x t)" "framed ds i I D s t" "filed ds i I D ys q t"
    using op_ok[OF Cons.prems(1,2), of a] Cons.prems(3) y by auto
  obtain u where u: "run_ops dk i ops t = Some (Done (fst (spec_ops ops (ys, q))) u)" "framed ds i I D t u"
    "filed ds i I D (fst (snd (spec_ops ops (ys, q)))) (snd (snd (spec_ops ops (ys, q)))) u"
    using Cons.IH[OF t(3) mutexes_frame[OF Cons.prems(2) t(2)]] Cons.prems(3) y by auto
  show ?case using t u frame_trans[OF t(2) u(2)] y by (auto simp: Let_def split: prod.splits)
qed

end

section \<open>On the RAM disk\<close>

text \<open>
  C41: on the RAM disk, every sequence of reads, writes, seeks and truncations of an open file answers
  and delivers what the abstract file of bytes does, as long as the writes fit the disk; apart from the
  file's blocks, the free blocks and its own entries nothing changes.
\<close>

theorem lfs_session:
  assumes "file_rel ram_sector RM_BLKS RAM0 (\<lambda>_. True) ds i I D xs p s" "mutexes i s" "ops_fit (card I) (card D) ops (xs, p)"
  shows "\<exists>t. run_ops ram_driver i ops s = Some (Done (fst (spec_ops ops (xs, p))) t) \<and>
    file_rel ram_sector RM_BLKS RAM0 (\<lambda>_. True) ds i I D (fst (snd (spec_ops ops (xs, p)))) (snd (snd (spec_ops ops (xs, p)))) t \<and>
    frame ram_sector RM_BLKS ds i I D s t"
  using ram_fs.ops_ok[OF assms] by blast

text \<open>A disk with a new file system, and the state in which a process opens its first file.\<close>

lemma create_ram:
  assumes "lfscreate ram_driver RAM0 lfiblks dsiz d = Some (OK, e)" "0 < lfiblks" "lfiblks < 4194304"
    "(lfiblks + 6) div 7 + 1 < dsiz div 512" "dsiz div 512 \<le> RM_BLKS"
  shows "empty_fs ram_sector RM_BLKS ((lfiblks + 6) div 7 + 1) (nat (7 * ((lfiblks + 6) div 7))) (nat (dsiz div 512)) e"
proof -
  let ?ib = "(lfiblks + 6) div 7"
  have z: "dsiz div 512 = int (nat (dsiz div 512))" "int (nat (dsiz div 512)) \<le> RM_BLKS" using assms(2,4,5) by linarith+
  have "u32 (lfiblks + 6) div 7 = ?ib" using assms(2,3) by (simp add: u32_id)
  then have "2 * ?ib \<le> int (nat (dsiz div 512))"
    using assms(1) z(1) by (auto simp: lfscreate_def Let_def LF_BLKSIZ_def split: if_splits)
  then show ?thesis using ram_fs.lfscreate_ok[where d = d and lfiblks = lfiblks and dsiz = dsiz and sectors = "nat (dsiz div 512)" and ib = ?ib] assms z by auto
qed

definition lf_demo :: "ramdisk \<Rightarrow> ramdisk lfst" where
  "lf_demo d = \<lparr>lkern = demo\<lparr>semtab := (\<lambda>i. \<lparr>sstate = S_USED, scount = 1, squeue = 100 + 2 * i\<rparr>)\<rparr>,
     Lf_data = \<lparr>lf_dskdev = RAM0, lf_mutex = 3, lf_dir = zero_dir, lf_dirpresent = False, lf_dirdirty = False\<rparr>,
     lfltab = (\<lambda>i. \<lparr>lfstate = LF_FREE, lfdev = LFILE0 + i, lfmutex = 4 + i, lfdirptr = None, lfmode = 0, lfpos = 0,
       lfname = replicate LF_NAME_LEN 0, lfinum = LF_INULL, lfiblock = zero_iblk, lfdnum = 0, lfdblock = replicate 512 0,
       lfbyte = 512, lfibdirty = False, lfdbdirty = False\<rparr>),
     ldisk = d, lf_rubbish = replicate 508 0\<rparr>"

text \<open>The name index.txt at address 16, the mode rw at 8.\<close>

definition lf_demo_mem :: bmem where
  "lf_demo_mem = put (put (\<lambda>_. 0) 16 [105, 110, 100, 101, 120, 46, 116, 120, 116]) 8 [114, 119]"

lemma lf_demo_opens: "can_open lf_demo_mem 16 8 [105, 110, 100, 101, 120, 46, 116, 120, 116] 3 0 (lf_demo d)"
proof -
  have "cstr lf_demo_mem 16 [105, 110, 100, 101, 120, 46, 116, 120, 116]" "lfgetmode 8 lf_demo_mem = Some 3" by code_simp+
  then show ?thesis
    by (simp add: can_open_def slave_for_def lf_demo_def Nlfl_def LF_NAME_LEN_def mutex_ok_def isbadsem_def NSEM_def)
qed

lemma lf_demo_set: "lf_set_up RAM0 0 (lf_demo d)" "mutexes 0 (lf_demo d)" "\<not> lf_dirpresent (Lf_data (lf_demo d))" "ldisk (lf_demo d) = d"
  by (simp_all add: lf_set_up_def lf_demo_def mutexes_def mutex_ok_def isbadsem_def NSEM_def)

lemma demo_disk:
  "\<exists>e. lfscreate ram_driver RAM0 7 102400 d = Some (OK, e) \<and> empty_fs ram_sector RM_BLKS 2 7 200 e"
  using ram_fs.lfscreate_ok[where d = d and lfiblks = 7 and dsiz = 102400 and sectors = 200 and ib = 1] by (simp add: RM_BLKS_def)

lemma valid_ram: "0 \<le> ib \<Longrightarrow> \<forall>k < nat (7 * ib). valid_ib (ib + 1) (int k)"
  by (auto simp: valid_ib_def ib2sect_def LF_AREA_IB_def)

lemma lfs_session_witness:
  "\<exists>e t. lfscreate ram_driver RAM0 7 102400 (\<lambda>_. 0) = Some (OK, e) \<and>
    andthen (lfsopen ram_driver 16 8 lf_demo_mem (lf_demo e)) (\<lambda>_. run_ops ram_driver 0 [Put [1, 2, 3], Seek 1, Get 5, Seek 9, Truncate, Get 1]) =
      Some (Done [(3, []), (OK, []), (2, [2, 3]), (SYSERR, []), (OK, []), (LF_EOF, [])] t)"
proof -
  let ?cs = "[105, 110, 100, 101, 120, 46, 116, 120, 116] :: int list"
  let ?ops = "[Put [1, 2, 3], Seek 1, Get 5, Seek 9, Truncate, Get 1]"
  obtain e where e: "lfscreate ram_driver RAM0 7 102400 (\<lambda>_. 0) = Some (OK, e)" "empty_fs ram_sector RM_BLKS 2 7 200 e"
    using demo_disk by blast
  let ?t = "opened 0 0 3 ?cs (with_file ?cs (new_dir 2)) (lf_demo e)"
  let ?I = "int ` {0..<7::nat}" and ?D = "int ` {2..<200::nat}"
  have w: "wf_dir_words (new_dir 2)" using wf_new_dir[of 2] by simp
  have wf: "wf_dir_words (with_file ?cs (new_dir 2))"
    by (rule ram_fs.words_with_file) (simp_all add: RM_BLKS_def LF_NAME_LEN_def)
  have st: "stored ram_sector RM_BLKS 2 ?I ?D 0 [] (with_file ?cs (new_dir 2)) e"
    using ram_fs.made_stored[OF e(2), of ?cs] valid_ram[of 1] by (simp add: RM_BLKS_def)
  have ft: "file_rel ram_sector RM_BLKS RAM0 (\<lambda>_. True) 2 0 ?I ?D [] 0 ?t"
    by (rule ram_fs.opened_filed) (use st wf lf_demo_set[of e] in \<open>simp_all add: wf_dir_words_def\<close>)
  have op: "\<exists>r. lfsopen ram_driver 16 8 lf_demo_mem (lf_demo e) = Some (Done r ?t)"
    using ram_fs.open_made[OF lf_demo_opens, of "new_dir 2"] e(2) w lf_demo_set[of e]
    by (simp add: directory_def empty_fs_def lf_set_up_def others_def new_dir_def zero_dir_def RM_BLKS_def LF_MODE_O_def)
  have "card ?I = 7" "card ?D = 198" by (simp_all add: card_image)
  then obtain u where "run_ops ram_driver 0 ?ops ?t = Some (Done (fst (spec_ops ?ops ([], 0))) u)"
    using lfs_session[OF ft, of ?ops] lf_demo_set(2)[of e] by (auto simp: write_at_def)
  moreover have "fst (spec_ops ?ops ([], 0)) = [(3, []), (OK, []), (2, [2, 3]), (SYSERR, []), (OK, []), (LF_EOF, [])]"
    by (simp add: write_at_def read_result_def)
  ultimately show ?thesis using e(1) op by auto
qed

section \<open>A file survives\<close>

definition keep_file :: "'d disk_driver \<Rightarrow> int \<Rightarrow> int \<Rightarrow> int \<Rightarrow> int \<Rightarrow> int \<Rightarrow> bmem \<Rightarrow> 'd lfst \<Rightarrow> (int, 'd lfst) act option" where
  "keep_file dk i name mode buff len m s = andthen (lfsopen dk name mode m s) (\<lambda>_ s. andthen (lflwrite dk i buff len m s) (\<lambda>_ s. lflclose dk i s))"

definition fetch_file :: "'d disk_driver \<Rightarrow> int \<Rightarrow> int \<Rightarrow> int \<Rightarrow> int \<Rightarrow> int \<Rightarrow> bmem \<Rightarrow> 'd lfst \<Rightarrow> (int \<times> bmem, 'd lfst) act option" where
  "fetch_file dk i name mode buff len m s = andthen (lfsopen dk name mode m s) (\<lambda>_ s. lflread dk i buff len m s)"

text \<open>The state of a started system that has not yet looked at its disk.\<close>

definition starts :: "int \<Rightarrow> bmem \<Rightarrow> int \<Rightarrow> int \<Rightarrow> int list \<Rightarrow> int \<Rightarrow> 'd lfst \<Rightarrow> bool" where
  "starts i m name mode cs mbits s \<longleftrightarrow> lf_set_up RAM0 i s \<and> \<not> lf_dirpresent (Lf_data s) \<and> mutexes i s \<and> can_open m name mode cs mbits i s"

text \<open>
  C42: on a RAM disk on which lfscreate has made a file system, a file that a process opens, writes and
  closes is there after a restart: from any state that has the same disk and no directory in memory,
  opening the same name without asking for a new file and reading gives exactly the bytes written.
\<close>

theorem lfs_round_trip:
  assumes c: "lfscreate ram_driver RAM0 lfiblks dsiz d = Some (OK, ldisk s)" "0 < lfiblks" "lfiblks < 4194304"
      "ib = (lfiblks + 6) div 7" "ib + 1 < dsiz div 512" "dsiz div 512 \<le> RM_BLKS"
    and s: "starts i m name mode cs mbits s" "and mbits LF_MODE_O = 0"
    and bs: "bs \<noteq> []" "length bs \<le> 8192 * nat (7 * ib)" "length bs \<le> 512 * (nat (dsiz div 512) - nat (ib + 1))"
      "\<forall>b \<in> set bs. 0 \<le> b \<and> b < 256" "\<forall>j < length bs. m (buff + int j) = bs ! j"
  shows "\<exists>t. keep_file ram_driver i name mode buff (int (length bs)) m s = Some (Done OK t) \<and>
    (\<forall>i' m' name' mode' mbits' buff' s'. ldisk s' = ldisk t \<and> starts i' m' name' mode' cs mbits' s' \<and> and mbits' LF_MODE_N = 0 \<longrightarrow>
      (\<exists>u. fetch_file ram_driver i' name' mode' buff' (int (length bs)) m' s' = Some (Done (int (length bs), put m' buff' bs) u)))"
proof -
  have e: "empty_fs ram_sector RM_BLKS (ib + 1) (nat (7 * ib)) (nat (dsiz div 512)) (ldisk s)"
    using create_ram[OF c(1-3)] c(4-6) by simp
  have g: "0 \<le> ib" "1 \<le> ib + 1" "ib + 1 \<le> RM_BLKS" "int (nat (dsiz div 512)) \<le> RM_BLKS" using c(2,4-6) by auto
  obtain t D where t: "keep_file ram_driver i name mode buff (int (length bs)) m s = Some (Done OK t)"
    and D: "stored ram_sector RM_BLKS (ib + 1) (int ` {0..<nat (7 * ib)}) (int ` {nat (ib + 1)..<nat (dsiz div 512)}) 0 bs D (ldisk t)"
      "ram_sector (ldisk t) 0 = enc_dir D" "wf_dir_words D" "lfd_nfiles D = 1" "cname cs (ld_name (lfd_files D ! 0))"
    using ram_fs.keep_ok[OF e g(2-4) valid_ram[OF g(1)], of i m name mode cs mbits bs m buff] s bs by (auto simp: keep_file_def starts_def)
  have "\<exists>u. fetch_file ram_driver i' name' mode' buff' (int (length bs)) m' s' = Some (Done (int (length bs), put m' buff' bs) u)"
    if "ldisk s' = ldisk t" "starts i' m' name' mode' cs mbits' s'" "and mbits' LF_MODE_N = 0" for i' m' name' mode' mbits' buff' s'
    using ram_fs.fetch_ok[of "ib + 1" _ _ bs D s' cs i' m' name' mode' mbits' buff' m'] D that bs(1) by (auto simp: fetch_file_def starts_def)
  then show ?thesis using t by blast
qed

lemma lfs_round_trip_witness:
  "\<exists>e t u. lfscreate ram_driver RAM0 7 102400 (\<lambda>_. 0) = Some (OK, e) \<and>
    keep_file ram_driver 0 16 8 16 9 lf_demo_mem (lf_demo e) = Some (Done OK t) \<and>
    fetch_file ram_driver 0 16 8 100 9 lf_demo_mem (lf_demo (ldisk t)) =
      Some (Done (9, put lf_demo_mem 100 [105, 110, 100, 101, 120, 46, 116, 120, 116]) u)"
proof -
  let ?cs = "[105, 110, 100, 101, 120, 46, 116, 120, 116] :: int list"
  obtain e where e: "lfscreate ram_driver RAM0 7 102400 (\<lambda>_. 0) = Some (OK, e)" using demo_disk by blast
  have st: "starts 0 lf_demo_mem 16 8 ?cs 3 (lf_demo x)" for x using lf_demo_set lf_demo_opens by (simp add: starts_def)
  have b: "\<forall>j < length ?cs. lf_demo_mem (16 + int j) = ?cs ! j" by (simp add: lf_demo_mem_def put_def)
  have "\<exists>t. keep_file ram_driver 0 16 8 16 (int (length ?cs)) lf_demo_mem (lf_demo e) = Some (Done OK t) \<and>
    (\<forall>i' m' name' mode' mbits' buff' s'. ldisk s' = ldisk t \<and> starts i' m' name' mode' ?cs mbits' s' \<and> and mbits' LF_MODE_N = 0 \<longrightarrow>
      (\<exists>u. fetch_file ram_driver i' name' mode' buff' (int (length ?cs)) m' s' = Some (Done (int (length ?cs), put m' buff' ?cs) u)))"
    by (rule lfs_round_trip[where lfiblks = 7 and dsiz = 102400 and d = "\<lambda>_. 0" and ib = 1, OF _ _ _ _ _ _ st _ _ _ _ _ b])
      (use e lf_demo_set(4)[of e] in \<open>simp_all add: RM_BLKS_def LF_MODE_O_def\<close>)
  then obtain t where t: "keep_file ram_driver 0 16 8 16 (int (length ?cs)) lf_demo_mem (lf_demo e) = Some (Done OK t)"
    "\<And>i' m' name' mode' mbits' buff' s'. ldisk s' = ldisk t \<and> starts i' m' name' mode' ?cs mbits' s' \<and> and mbits' LF_MODE_N = 0 \<Longrightarrow>
      \<exists>u. fetch_file ram_driver i' name' mode' buff' (int (length ?cs)) m' s' = Some (Done (int (length ?cs), put m' buff' ?cs) u)" by blast
  have n: "and 3 LF_MODE_N = 0" by (simp add: LF_MODE_N_def)
  show ?thesis using e t(1) t(2)[of "lf_demo (ldisk t)" 0 lf_demo_mem 16 8 3 100] st n lf_demo_set(4) by simp
qed

end
