(* ===== verification/Names.thy ===== *)
theory Names
  imports Devices
begin

text \<open>
  The name space (device/nam, include/name.h): a table of prefixes, each with a replacement and a
  device. A string is given by its characters: a function from an index to the character there, None
  behind the end of the array that holds it. Local arrays hold what was on the stack (tmpname, tmpstr);
  a name in memory is an address, as in the string library.
\<close>

section \<open>The code\<close>

definition NM_PRELEN :: int where "NM_PRELEN = 64"
definition NM_REPLLEN :: int where "NM_REPLLEN = 96"
definition NM_MAXLEN :: int where "NM_MAXLEN = 256"
definition NNAMES :: int where "NNAMES = 40"
definition RFILESYS :: int where "RFILESYS = SYSERR"

record nmentry =
  nprefix :: "int list"
  nreplace :: "int list"
  ndevice :: int

record namst =
  nametab :: "nmentry list"
  nnames :: int

type_synonym chars = "nat \<Rightarrow> int option"

definition in_mem :: "bmem \<Rightarrow> int \<Rightarrow> chars" where
  "in_mem m p = (\<lambda>k. Some (m (p + int k)))"

definition literal :: "string \<Rightarrow> chars" where
  "literal str = elem_at (map of_char str @ [0])"

definition namlen :: "chars \<Rightarrow> int \<Rightarrow> int option" where
  "namlen name maxlen = c_loop (\<lambda>i.
     if i < maxlen then do { c \<leftarrow> name (nat i); Some (if c = 0 then Inr (i + 1) else Inl (i + 1)) }
     else Some (Inr SYSERR)) 0"

text \<open>The loops that copy a counted number of characters, from index i of the source to index j.\<close>

primrec copy_chars :: "chars \<Rightarrow> nat \<Rightarrow> nat \<Rightarrow> nat \<Rightarrow> int list \<Rightarrow> int list option" where
  "copy_chars from 0 i j to = Some to"
| "copy_chars from (Suc n) i j to = do { c \<leftarrow> from i; _ \<leftarrow> elem_at to j; copy_chars from n (i + 1) (j + 1) (to[j := c]) }"

definition mount :: "chars \<Rightarrow> chars \<Rightarrow> int \<Rightarrow> namst \<Rightarrow> (int \<times> namst) option" where
  "mount prefix replace device s = do {
     psiz \<leftarrow> namlen prefix NM_PRELEN;
     rsiz \<leftarrow> namlen replace NM_REPLLEN;
     if psiz = SYSERR \<or> rsiz = SYSERR \<or> isbaddev device \<or> nnames s \<ge> NNAMES then Some (SYSERR, s)
     else do {
       let k = nat (nnames s);
       e \<leftarrow> (if nnames s < 0 then None else elem_at (nametab s) k);
       np \<leftarrow> copy_chars prefix (nat psiz) 0 0 (nprefix e);
       nr \<leftarrow> copy_chars replace (nat rsiz) 0 0 (nreplace e);
       Some (OK, s\<lparr>nametab := (nametab s)[k := \<lparr>nprefix = np, nreplace = nr, ndevice = device\<rparr>], nnames := nnames s + 1\<rparr>) } }"

text \<open>How far a prefix agrees with a name.\<close>

definition prefix_len :: "int list \<Rightarrow> int list \<Rightarrow> nat option" where
  "prefix_len pre name = c_loop (\<lambda>plen. do {
     p \<leftarrow> elem_at pre plen;
     if p = 0 then Some (Inr plen)
     else do { c \<leftarrow> elem_at name plen; Some (if p \<noteq> c then Inr plen else Inl (plen + 1)) } }) 0"

text \<open>The length of the name is kept in a char.\<close>

definition namrepl_entry :: "nmentry \<Rightarrow> int list \<Rightarrow> int list \<Rightarrow> (int \<times> int list) option option" where
  "namrepl_entry e name newname = do {
     plen \<leftarrow> prefix_len (nprefix e) name;
     p \<leftarrow> elem_at (nprefix e) plen;
     if p \<noteq> 0 then Some None
     else do {
       n \<leftarrow> namlen (elem_at name) NM_MAXLEN;
       r \<leftarrow> namlen (elem_at (nreplace e)) NM_MAXLEN;
       let olen = u8 n;
       let rlen = r - 1;
       let remain = olen - int plen;
       if rlen + remain > NM_MAXLEN then Some (Some (SYSERR, newname))
       else do {
         newname \<leftarrow> copy_chars (elem_at (nreplace e)) (nat rlen) 0 0 newname;
         newname \<leftarrow> copy_chars (elem_at name) (nat remain) plen (nat rlen) newname;
         Some (Some (ndevice e, newname)) } } }"

definition namrepl :: "int list \<Rightarrow> int list \<Rightarrow> namst \<Rightarrow> (int \<times> int list) option" where
  "namrepl name newname s = c_loop (\<lambda>i.
     if int i < nnames s then do {
       e \<leftarrow> elem_at (nametab s) i;
       r \<leftarrow> namrepl_entry e name newname;
       Some (case r of None \<Rightarrow> Inl (i + 1) | Some x \<Rightarrow> Inr x) }
     else Some (Inr (SYSERR, newname))) (0::nat)"

definition namcpy :: "int list \<Rightarrow> chars \<Rightarrow> int \<Rightarrow> (int \<times> int list) option" where
  "namcpy newname oldname buflen = c_loop (\<lambda>(cnt, new).
     if int cnt < buflen then do {
       c \<leftarrow> oldname cnt;
       _ \<leftarrow> elem_at new cnt;
       Some (if c = 0 then Inr (OK, new[cnt := c]) else Inl (cnt + 1, new[cnt := c])) }
     else Some (Inr (SYSERR, new))) (0, newname)"

definition nammap :: "chars \<Rightarrow> int list \<Rightarrow> int \<Rightarrow> int list \<Rightarrow> namst \<Rightarrow> (int \<times> int list) option" where
  "nammap name newname namdev tmpname s = do {
     (r, tmpname) \<leftarrow> namcpy tmpname name NM_MAXLEN;
     if r = SYSERR then Some (SYSERR, newname)
     else c_loop (\<lambda>(iter, newname).
       if iter < nnames s then do {
         (newdev, newname) \<leftarrow> namrepl tmpname newname s;
         if newdev \<noteq> namdev then do {
           _ \<leftarrow> namcpy tmpname (elem_at newname) NM_MAXLEN;
           Some (Inr (newdev, newname)) }
         else Some (Inl (iter + 1, newname)) }
       else Some (Inr (SYSERR, newname))) (0, newname) }"

text \<open>open_call is the call of open on the device found.\<close>

definition namopen :: "(int \<Rightarrow> int list \<Rightarrow> int \<Rightarrow> 'a \<Rightarrow> (int \<times> 'a) option) \<Rightarrow> dentry \<Rightarrow> chars \<Rightarrow> int \<Rightarrow>
    int list \<Rightarrow> int list \<Rightarrow> namst \<Rightarrow> 'a \<Rightarrow> (int \<times> 'a) option" where
  "namopen open_call devptr name mode newname tmpname s x = do {
     (newdev, newname) \<leftarrow> nammap name newname (dvnum devptr) tmpname s;
     if newdev = SYSERR then Some (SYSERR, x) else open_call newdev newname mode x }"

text \<open>The name under which a device is mounted: its own in lower case, behind the prefix.\<close>

definition lower_name :: "chars \<Rightarrow> nat \<Rightarrow> int list \<Rightarrow> (int \<times> int list) option" where
  "lower_name nptr tptr tmpstr = c_loop (\<lambda>(len, k, tmpstr).
     if len + 1 < NM_MAXLEN then do {
       ch \<leftarrow> nptr k;
       let ch = (if 65 \<le> ch \<and> ch \<le> 90 then ch + 32 else ch);
       _ \<leftarrow> elem_at tmpstr (tptr + k);
       let tmpstr = tmpstr[tptr + k := ch];
       Some (if ch = 0 then Inr (len + 1, tmpstr) else Inl (len + 1, k + 1, tmpstr)) }
     else Some (Inr (len + 1, tmpstr))) (int tptr, 0, tmpstr)"

definition naminit_dev :: "dentry \<Rightarrow> int list \<Rightarrow> namst \<Rightarrow> (int list \<times> namst) option" where
  "naminit_dev devptr tmpstr s = do {
     tmpstr \<leftarrow> copy_chars (literal ''/dev/'') 6 0 0 tmpstr;
     (len, tmpstr) \<leftarrow> lower_name (literal (dvname devptr)) 5 tmpstr;
     if len > NM_MAXLEN then Some (tmpstr, s)
     else do {
       (_, s) \<leftarrow> mount (elem_at tmpstr) (literal '''') (dvnum devptr) s;
       Some (tmpstr, s) } }"

primrec naminit_devs :: "dentry list \<Rightarrow> int list \<Rightarrow> namst \<Rightarrow> namst option" where
  "naminit_devs [] tmpstr s = Some s"
| "naminit_devs (d # ds) tmpstr s = do { (tmpstr, s) \<leftarrow> naminit_dev d tmpstr s; naminit_devs ds tmpstr s }"

definition naminit :: "int list \<Rightarrow> namst \<Rightarrow> (int \<times> namst) option" where
  "naminit tmpstr s = do {
     let s = s\<lparr>nnames := 0\<rparr>;
     s \<leftarrow> naminit_devs (take (nat NDEVS) devtab) tmpstr s;
     (_, s) \<leftarrow> mount (literal ''/dev/null'') (literal '''') NULLDEV s;
     (_, s) \<leftarrow> mount (literal ''/remote/'') (literal ''remote:'') RFILESYS s;
     (_, s) \<leftarrow> mount (literal ''/local/'') (literal '''') LFILESYS s;
     (_, s) \<leftarrow> mount (literal ''/dev/'') (literal '''') SYSERR s;
     (_, s) \<leftarrow> mount (literal ''~/'') (literal '''') LFILESYS s;
     (_, s) \<leftarrow> mount (literal ''/'') (literal ''root:'') RFILESYS s;
     (_, s) \<leftarrow> mount (literal '''') (literal '''') LFILESYS s;
     Some (OK, s) }"

section \<open>Strings\<close>

definition reads :: "chars \<Rightarrow> int list \<Rightarrow> bool" where
  "reads rd cs \<longleftrightarrow> (\<forall>k < length cs. rd k = Some (cs ! k) \<and> cs ! k \<noteq> 0) \<and> rd (length cs) = Some 0"

lemma reads_mem: "cstr m p cs \<Longrightarrow> reads (in_mem m p) cs"
proof (induction cs arbitrary: p)
  case (Cons c cs)
  then have "reads (in_mem m (p + 1)) cs" by simp
  moreover have "in_mem m (p + 1) k = in_mem m p (Suc k)" for k by (simp add: in_mem_def add.commute add.left_commute)
  ultimately show ?case using Cons.prems by (auto simp: reads_def in_mem_def nth_Cons less_Suc_eq_0_disj split: nat.split)
qed (simp add: reads_def in_mem_def)

lemma reads_array: "cname cs a \<Longrightarrow> reads (elem_at a) cs"
  by (auto simp: cname_def reads_def elem_at_def nth_append) (metis nth_mem)

lemma reads_literal: "0 \<notin> set (map of_char str :: int list) \<Longrightarrow> reads (literal str) (map of_char str)"
  unfolding literal_def by (rule reads_array) (auto simp: cname_def)

lemma namlen_ok:
  assumes "reads rd cs" shows "namlen rd maxlen = Some (if int (length cs) < maxlen then int (length cs) + 1 else SYSERR)"
proof -
  let ?f = "\<lambda>i. if i < maxlen then do { c \<leftarrow> rd (nat i); Some (if c = 0 then Inr (i + 1) else Inl (i + 1)) } else Some (Inr SYSERR)"
  let ?r = "if int (length cs) < maxlen then int (length cs) + 1 else SYSERR"
  have "\<exists>r. c_loop ?f 0 = Some r \<and> r = ?r"
  proof (rule c_loop_total[where P = "\<lambda>i. 0 \<le> i \<and> i \<le> int (length cs)" and m = "\<lambda>i. length cs - nat i"])
    fix i :: int assume i: "0 \<le> i \<and> i \<le> int (length cs)"
    show "(\<exists>t. ?f i = Some (Inl t) \<and> (0 \<le> t \<and> t \<le> int (length cs)) \<and> length cs - nat t < length cs - nat i) \<or> (\<exists>r. ?f i = Some (Inr r) \<and> r = ?r)"
    proof (cases "i = int (length cs)")
      case True
      then show ?thesis using assms by (auto simp: reads_def)
    next
      case False
      then have k: "nat i < length cs" using i by linarith
      then have "rd (nat i) = Some (cs ! nat i)" "cs ! nat i \<noteq> 0" using assms by (simp_all add: reads_def)
      then show ?thesis using k i by auto
    qed
  qed simp
  then show ?thesis by (simp add: namlen_def)
qed

lemma copy_chars_ok:
  "(\<And>k. k < length xs \<Longrightarrow> from (i + k) = Some (xs ! k)) \<Longrightarrow> j + length xs \<le> length a \<Longrightarrow>
   copy_chars from (length xs) i j a = Some (take j a @ xs @ drop (j + length xs) a)"
proof (induction xs arbitrary: i j a)
  case (Cons x xs)
  have "from i = Some x" using Cons.prems(1)[of 0] by simp
  moreover have "copy_chars from (length xs) (i + 1) (j + 1) (a[j := x]) = Some (take (j + 1) (a[j := x]) @ xs @ drop (j + 1 + length xs) (a[j := x]))"
    by (rule Cons.IH) (use Cons.prems(1)[of "Suc _"] Cons.prems(2) in simp_all)
  moreover have "take (j + 1) (a[j := x]) = take j a @ [x]" using Cons.prems(2) by (simp add: take_Suc_conv_app_nth)
  ultimately show ?case using Cons.prems(2) by (simp add: elem_at_def)
qed simp

lemma reads_nth: "reads rd cs \<Longrightarrow> k < length (cs @ [0]) \<Longrightarrow> rd k = Some ((cs @ [0]) ! k)"
  by (auto simp: reads_def nth_append less_Suc_eq)

lemma reads_nonzero: "reads rd cs \<Longrightarrow> 0 \<notin> set cs"
  by (metis reads_def in_set_conv_nth)

lemma namcpy_total:
  assumes "\<And>k. int k < n \<Longrightarrow> rd k \<noteq> None" "n \<le> int (length new)"
  shows "\<exists>r a. namcpy new rd n = Some (r, a)"
proof -
  have "\<exists>r. namcpy new rd n = Some r \<and> True" unfolding namcpy_def
  proof (rule c_loop_total[where P = "\<lambda>(cnt, a). length a = length new" and m = "\<lambda>(cnt, a). nat n - cnt"])
    fix s :: "nat \<times> int list" assume "case s of (cnt, a) \<Rightarrow> length a = length new"
    then obtain cnt a where s: "s = (cnt, a)" "length a = length new" by (cases s) auto
    show "(\<exists>t. (case s of (cnt, new) \<Rightarrow> if int cnt < n then do { c \<leftarrow> rd cnt; _ \<leftarrow> elem_at new cnt;
        Some (if c = 0 then Inr (OK, new[cnt := c]) else Inl (cnt + 1, new[cnt := c])) } else Some (Inr (SYSERR, new))) = Some (Inl t) \<and>
        (case t of (cnt, a) \<Rightarrow> length a = length new) \<and> (case t of (cnt, a) \<Rightarrow> nat n - cnt) < (case s of (cnt, a) \<Rightarrow> nat n - cnt)) \<or>
      (\<exists>r. (case s of (cnt, new) \<Rightarrow> if int cnt < n then do { c \<leftarrow> rd cnt; _ \<leftarrow> elem_at new cnt;
        Some (if c = 0 then Inr (OK, new[cnt := c]) else Inl (cnt + 1, new[cnt := c])) } else Some (Inr (SYSERR, new))) = Some (Inr r) \<and> True)"
    proof (cases "int cnt < n")
      case True
      then obtain c where "rd cnt = Some c" using assms(1) by blast
      moreover have "cnt < length a" using True assms(2) s(2) by simp
      ultimately show ?thesis using True s by (auto simp: elem_at_def)
    qed (simp add: s)
  qed simp
  then show ?thesis by auto
qed

lemma namcpy_ok:
  assumes r: "reads rd cs" and n: "int (length cs) < n" "n \<le> int (length new)"
  shows "namcpy new rd n = Some (OK, cs @ 0 # drop (Suc (length cs)) new)"
proof -
  let ?f = "\<lambda>(cnt, new). if int cnt < n then do { c \<leftarrow> rd cnt; _ \<leftarrow> elem_at new cnt;
       Some (if c = 0 then Inr (OK, new[cnt := c]) else Inl (cnt + 1, new[cnt := c])) } else Some (Inr (SYSERR, new))"
  have "c_loop ?f (k, a) = Some (OK, take k a @ drop k cs @ 0 # drop (Suc (length cs)) a)" if "k \<le> length cs" "length a = length new" for k a
    using that
  proof (induction "length cs - k" arbitrary: k a)
    case 0
    then have k: "k = length cs" by simp
    then have "?f (k, a) = Some (Inr (OK, a[k := 0]))" using r n 0 by (simp add: reads_def elem_at_def)
    then have "c_loop ?f (k, a) = Some (OK, a[k := 0])" by (rule c_loop_Inr)
    moreover have "k < length a" using k n 0 by simp
    ultimately show ?case using k by (simp add: upd_conv_take_nth_drop)
  next
    case (Suc d)
    then have k: "k < length cs" "k < length a" using n by simp_all
    then have "?f (k, a) = Some (Inl (Suc k, a[k := cs ! k]))" using r n Suc by (simp add: reads_def elem_at_def)
    then have "c_loop ?f (k, a) = c_loop ?f (Suc k, a[k := cs ! k])" by (rule c_loop_Inl)
    moreover have "c_loop ?f (Suc k, a[k := cs ! k]) = Some (OK, take (Suc k) (a[k := cs ! k]) @ drop (Suc k) cs @ 0 # drop (Suc (length cs)) (a[k := cs ! k]))"
      by (rule Suc.hyps(1)) (use Suc k in simp_all)
    moreover have "take (Suc k) (a[k := cs ! k]) = take k a @ [cs ! k]" using k by (simp add: take_Suc_conv_app_nth)
    ultimately show ?case using k by (simp add: Cons_nth_drop_Suc)
  qed
  from this[of 0 new] show ?thesis by (simp add: namcpy_def)
qed

lemma namcpy_long:
  assumes r: "reads rd cs" and n: "n \<le> int (length cs)" "0 \<le> n" "n \<le> int (length new)"
  shows "\<exists>a. namcpy new rd n = Some (SYSERR, a)"
proof -
  have "\<exists>x. namcpy new rd n = Some x \<and> fst x = SYSERR" unfolding namcpy_def
  proof (rule c_loop_total[where P = "\<lambda>(cnt, a). int cnt \<le> n \<and> length a = length new" and m = "\<lambda>(cnt, a). nat n - cnt"])
    fix s :: "nat \<times> int list" assume "case s of (cnt, a) \<Rightarrow> int cnt \<le> n \<and> length a = length new"
    then obtain cnt a where s: "s = (cnt, a)" "int cnt \<le> n" "length a = length new" by (cases s) auto
    show "(\<exists>t. (case s of (cnt, new) \<Rightarrow> if int cnt < n then do { c \<leftarrow> rd cnt; _ \<leftarrow> elem_at new cnt;
        Some (if c = 0 then Inr (OK, new[cnt := c]) else Inl (cnt + 1, new[cnt := c])) } else Some (Inr (SYSERR, new))) = Some (Inl t) \<and>
        (case t of (cnt, a) \<Rightarrow> int cnt \<le> n \<and> length a = length new) \<and> (case t of (cnt, a) \<Rightarrow> nat n - cnt) < (case s of (cnt, a) \<Rightarrow> nat n - cnt)) \<or>
      (\<exists>r. (case s of (cnt, new) \<Rightarrow> if int cnt < n then do { c \<leftarrow> rd cnt; _ \<leftarrow> elem_at new cnt;
        Some (if c = 0 then Inr (OK, new[cnt := c]) else Inl (cnt + 1, new[cnt := c])) } else Some (Inr (SYSERR, new))) = Some (Inr r) \<and> fst r = SYSERR)"
    proof (cases "int cnt < n")
      case True
      then have k: "cnt < length cs" "cnt < length a" using n s(3) by simp_all
      then have "rd cnt = Some (cs ! cnt)" "cs ! cnt \<noteq> 0" using r by (simp_all add: reads_def)
      then show ?thesis using True k s by (auto simp: elem_at_def)
    qed (simp add: s)
  qed (use n in simp)
  then show ?thesis by auto
qed

section \<open>The table as a list of triples\<close>

type_synonym mapping3 = "int list \<times> int list \<times> int"

definition entry_is :: "mapping3 \<Rightarrow> nmentry \<Rightarrow> bool" where
  "entry_is = (\<lambda>(pre, rep, d) e. cname pre (nprefix e) \<and> cname rep (nreplace e) \<and> ndevice e = d)"

definition names_ok :: "mapping3 list \<Rightarrow> namst \<Rightarrow> bool" where
  "names_ok ents s \<longleftrightarrow> length (nametab s) = 40 \<and> nnames s = int (length ents) \<and> length ents \<le> 40 \<and>
     (\<forall>e \<in> set (nametab s). length (nprefix e) = 64 \<and> length (nreplace e) = 96) \<and>
     (\<forall>i < length ents. entry_is (ents ! i) (nametab s ! i))"

definition mountable :: "int list \<Rightarrow> int list \<Rightarrow> int \<Rightarrow> mapping3 list \<Rightarrow> bool" where
  "mountable pre rep d ents \<longleftrightarrow> length pre < 64 \<and> length rep < 96 \<and> \<not> isbaddev d \<and> length ents < 40"

lemma mount_error:
  assumes "names_ok ents s" "reads p pre" "reads r rep" "\<not> mountable pre rep d ents"
  shows "mount p r d s = Some (SYSERR, s)"
  using assms namlen_ok[OF assms(2)] namlen_ok[OF assms(3)]
  by (auto simp: mount_def mountable_def names_ok_def NM_PRELEN_def NM_REPLLEN_def NNAMES_def)

lemma mount_ok:
  assumes s: "names_ok ents s" and r: "reads p pre" "reads r rep" and m: "mountable pre rep d ents"
  shows "\<exists>t. mount p r d s = Some (OK, t) \<and> names_ok (ents @ [(pre, rep, d)]) t"
proof -
  let ?k = "length ents" and ?e = "nametab s ! length ents"
  have k: "?k < length (nametab s)" "nnames s = int ?k" using s m by (simp_all add: names_ok_def mountable_def)
  then have l: "length (nprefix ?e) = 64" "length (nreplace ?e) = 96" using s nth_mem by (auto simp: names_ok_def)
  have p: "namlen p 64 = Some (int (length pre) + 1)" "namlen r 96 = Some (int (length rep) + 1)"
    using namlen_ok[OF r(1)] namlen_ok[OF r(2)] m by (simp_all add: mountable_def)
  let ?np = "pre @ 0 # drop (Suc (length pre)) (nprefix ?e)" and ?nr = "rep @ 0 # drop (Suc (length rep)) (nreplace ?e)"
  have c: "copy_chars p (length (pre @ [0])) 0 0 (nprefix ?e) = Some ?np" "copy_chars r (length (rep @ [0])) 0 0 (nreplace ?e) = Some ?nr"
    using copy_chars_ok[of "pre @ [0]" p 0 0 "nprefix ?e"] copy_chars_ok[of "rep @ [0]" r 0 0 "nreplace ?e"] reads_nth[OF r(1)] reads_nth[OF r(2)] l m
    by (simp_all add: mountable_def)
  have n: "nat (int (length pre) + 1) = length (pre @ [0])" "nat (int (length rep) + 1) = length (rep @ [0])" by simp_all
  let ?t = "s\<lparr>nametab := (nametab s)[?k := \<lparr>nprefix = ?np, nreplace = ?nr, ndevice = d\<rparr>], nnames := nnames s + 1\<rparr>"
  have "mount p r d s = Some (OK, ?t)"
    unfolding mount_def NM_PRELEN_def NM_REPLLEN_def p using m k c n
    by (simp add: mountable_def NNAMES_def elem_at_def Let_def del: length_append)
  moreover have "names_ok (ents @ [(pre, rep, d)]) ?t"
    using s k l m reads_nonzero[OF r(1)] reads_nonzero[OF r(2)]
    by (auto simp: names_ok_def mountable_def nth_append nth_list_update entry_is_def cname_def dest!: subsetD[OF set_update_subset_insert])
  ultimately show ?thesis by blast
qed

section \<open>Looking a name up\<close>

lemma prefix_len_ok:
  assumes "cname pre a" "cname cs b"
  shows "\<exists>k p. prefix_len a b = Some k \<and> elem_at a k = Some p \<and> (p = 0 \<longleftrightarrow> take (length pre) cs = pre) \<and> (p = 0 \<longrightarrow> k = length pre)"
proof -
  have r: "reads (elem_at a) pre" "reads (elem_at b) cs" using assms by (simp_all add: reads_array)
  let ?f = "\<lambda>plen. do { p \<leftarrow> elem_at a plen; if p = 0 then Some (Inr plen)
     else do { c \<leftarrow> elem_at b plen; Some (if p \<noteq> c then Inr plen else Inl (plen + 1)) } }"
  let ?Q = "\<lambda>k. \<exists>p. elem_at a k = Some p \<and> (p = 0 \<longleftrightarrow> take (length pre) cs = pre) \<and> (p = 0 \<longrightarrow> k = length pre)"
  have "\<exists>k. c_loop ?f 0 = Some k \<and> ?Q k"
  proof (rule c_loop_total[where P = "\<lambda>k. k \<le> length pre \<and> k \<le> length cs \<and> take k cs = take k pre" and m = "\<lambda>k. length pre - k"])
    fix k assume k: "k \<le> length pre \<and> k \<le> length cs \<and> take k cs = take k pre"
    show "(\<exists>t. ?f k = Some (Inl t) \<and> (t \<le> length pre \<and> t \<le> length cs \<and> take t cs = take t pre) \<and> length pre - t < length pre - k) \<or>
      (\<exists>r. ?f k = Some (Inr r) \<and> ?Q r)"
    proof (cases "k = length pre")
      case True
      then show ?thesis using r(1) k by (simp add: reads_def)
    next
      case False
      then have p: "k < length pre" "elem_at a k = Some (pre ! k)" "pre ! k \<noteq> 0" using r(1) k by (simp_all add: reads_def)
      show ?thesis
      proof (cases "k < length cs")
        case True
        then have c: "elem_at b k = Some (cs ! k)" using r(2) by (simp add: reads_def)
        show ?thesis
        proof (cases "pre ! k = cs ! k")
          case eq: True
          then have "take (Suc k) cs = take (Suc k) pre" using k p(1) True by (simp add: take_Suc_conv_app_nth)
          moreover have "?f k = Some (Inl (Suc k))" using eq c p by simp
          ultimately show ?thesis using p(1) True by (intro disjI1 exI[of _ "Suc k"]) simp
        next
          case ne: False
          have "take (length pre) cs \<noteq> pre"
          proof
            assume "take (length pre) cs = pre"
            then have "pre ! k = take (length pre) cs ! k" by simp
            then show False using ne p(1) by simp
          qed
          moreover have "?f k = Some (Inr k)" using ne c p by simp
          ultimately show ?thesis using p by (intro disjI2 exI[of _ k]) simp
        qed
      next
        case nk: False
        have "k = length cs" using nk conjunct1[OF conjunct2[OF k]] by simp
        then have "elem_at b k = Some 0" using r(2) by (simp add: reads_def)
        moreover have "length (take (length pre) cs) \<noteq> length pre" using nk p(1) by simp
        then have "take (length pre) cs \<noteq> pre" by metis
        moreover have "?f k = Some (Inr k)" using calculation(1) p by simp
        ultimately show ?thesis using p by (intro disjI2 exI[of _ k]) simp
      qed
    qed
  qed simp
  then show ?thesis by (auto simp: prefix_len_def)
qed

text \<open>The name that a triple makes of cs, and whether the buffer has room for it.\<close>

definition replaced :: "mapping3 \<Rightarrow> int list \<Rightarrow> int list" where
  "replaced = (\<lambda>(pre, rep, d) cs. rep @ drop (length pre) cs)"

definition name_target :: "mapping3 list \<Rightarrow> int list \<Rightarrow> mapping3 option" where
  "name_target ents cs = find (\<lambda>(pre, rep, d). take (length pre) cs = pre) ents"

lemma namrepl_entry_ok:
  assumes e: "entry_is (pre, rep, d) e" "length (nreplace e) = 96" and c: "cname cs name" "length cs < 255" and n: "length new = 256"
  shows "\<exists>new'. namrepl_entry e name new = Some (if take (length pre) cs \<noteq> pre then None
      else if length (replaced (pre, rep, d) cs) < 256 then Some (d, new') else Some (SYSERR, new)) \<and>
    length new' = 256 \<and> (length (replaced (pre, rep, d) cs) < 256 \<longrightarrow> cname (replaced (pre, rep, d) cs) new')"
proof -
  let ?x = "replaced (pre, rep, d) cs"
  have f: "cname pre (nprefix e)" "cname rep (nreplace e)" "ndevice e = d" using e(1) by (simp_all add: entry_is_def)
  obtain k p where k: "prefix_len (nprefix e) name = Some k" "elem_at (nprefix e) k = Some p" "p = 0 \<longleftrightarrow> take (length pre) cs = pre" "p = 0 \<longrightarrow> k = length pre"
    using prefix_len_ok[OF f(1) c(1)] by blast
  have rr: "reads (elem_at (nreplace e)) rep" "reads (elem_at name) cs" using f(2) c(1) by (simp_all add: reads_array)
  have lr: "length rep < 96" using f(2) e(2) by (auto simp: cname_def)
  have nl: "namlen (elem_at name) NM_MAXLEN = Some (int (length cs) + 1)" "namlen (elem_at (nreplace e)) NM_MAXLEN = Some (int (length rep) + 1)"
    using namlen_ok[OF rr(1)] namlen_ok[OF rr(2)] c(2) lr by (simp_all add: NM_MAXLEN_def)
  have nz: "0 \<notin> set ?x" using f(2) c(1) by (auto simp: cname_def replaced_def dest: in_set_dropD)
  show ?thesis
  proof (cases "take (length pre) cs = pre \<and> length ?x < 256")
    case True
    then have kp: "k = length pre" "p = 0" using k(3,4) by simp_all
    have le: "length pre \<le> length cs" using True by (metis length_take min.cobounded1)
    have u: "u8 (int (length cs) + 1) = int (length cs) + 1" using c(2) by (simp add: u8_id)
    have fit: "length rep + (length cs + 1 - length pre) \<le> 256" using True le by (simp add: replaced_def Suc_diff_le)
    let ?a = "rep @ drop (length rep) new" and ?rest = "drop (length pre) cs @ [0]"
    have 1: "copy_chars (elem_at (nreplace e)) (length rep) 0 0 new = Some ?a"
      using copy_chars_ok[of rep "elem_at (nreplace e)" 0 0 new] rr(1) lr n by (simp add: reads_def)
    have 2: "copy_chars (elem_at name) (length ?rest) (length pre) (length rep) ?a = Some (take (length rep) ?a @ ?rest @ drop (length rep + length ?rest) ?a)"
    proof (rule copy_chars_ok)
      fix j assume j: "j < length ?rest"
      then have "elem_at name (length pre + j) = Some ((cs @ [0]) ! (length pre + j))" by (intro reads_nth[OF rr(2)]) (use le in simp)
      moreover have "(cs @ [0]) ! (length pre + j) = ?rest ! j" using j le by (auto simp: nth_append)
      ultimately show "elem_at name (length pre + j) = Some (?rest ! j)" by simp
    qed (use fit le n in simp)
    have ln: "nat (int (length cs) + 1 - int (length pre)) = length ?rest" using le by simp
    let ?new = "?x @ 0 # drop (Suc (length ?x)) new"
    have "take (length rep) ?a @ ?rest @ drop (length rep + length ?rest) ?a = ?new" by (simp add: replaced_def add.commute)
    moreover have "\<not> int (length rep) + (int (length cs) + 1 - int (length pre)) > 256" using fit le by linarith
    ultimately have "namrepl_entry e name new = Some (Some (d, ?new))"
      unfolding namrepl_entry_def k(1) nl using k(2) kp u 1 2 ln f(3)
      by (simp add: Let_def NM_MAXLEN_def del: length_append)
    then show ?thesis using True nz n by (intro exI[of _ ?new]) (simp add: cname_def)
  next
    case False
    have "namrepl_entry e name new = Some (if take (length pre) cs \<noteq> pre then None else Some (SYSERR, new))"
    proof (cases "take (length pre) cs = pre")
      case True
      then have le: "length pre \<le> length cs" by (metis length_take min.cobounded1)
      have "u8 (int (length cs) + 1) = int (length cs) + 1" using c(2) by (simp add: u8_id)
      moreover have "\<not> length ?x < 256" using True False by simp
      then have "255 < int (length rep) + (int (length cs) - int (length pre))" using le by (simp add: replaced_def)
      ultimately show ?thesis unfolding namrepl_entry_def k(1) nl using k(2-4) True le by (simp add: Let_def NM_MAXLEN_def replaced_def)
    next
      case ne: False
      then show ?thesis unfolding namrepl_entry_def using k(1-3) by simp
    qed
    then show ?thesis using False n nz
      by (intro exI[of _ "if length ?x < 256 then ?x @ 0 # drop (Suc (length ?x)) new else new"]) (auto simp: cname_def)
  qed
qed

lemma find_first:
  "i < length xs \<Longrightarrow> \<forall>j < i. \<not> P (xs ! j) \<Longrightarrow> P (xs ! i) \<Longrightarrow> find P xs = Some (xs ! i)"
proof (induction xs arbitrary: i)
  case (Cons x xs)
  then show ?case
  proof (cases i)
    case (Suc k)
    then have "\<not> P x" "\<forall>j < k. \<not> P (xs ! j)" using Cons.prems(2) by force+
    then show ?thesis using Cons Suc by simp
  qed simp
qed simp

lemma namrepl_ok:
  assumes s: "names_ok ents s" and c: "cname cs name" "length cs < 255" and n: "length new = 256"
  shows "\<exists>new'. namrepl name new s = Some (case name_target ents cs of None \<Rightarrow> (SYSERR, new)
      | Some e \<Rightarrow> if length (replaced e cs) < 256 then (snd (snd e), new') else (SYSERR, new)) \<and> length new' = 256 \<and>
    (\<forall>e. name_target ents cs = Some e \<and> length (replaced e cs) < 256 \<longrightarrow> cname (replaced e cs) new')"
proof -
  let ?f = "\<lambda>i. if int i < nnames s then do { e \<leftarrow> elem_at (nametab s) i; r \<leftarrow> namrepl_entry e name new;
       Some (case r of None \<Rightarrow> Inl (i + 1) | Some x \<Rightarrow> Inr x) } else Some (Inr (SYSERR, new))"
  let ?R = "\<lambda>x. \<exists>new'. x = (case name_target ents cs of None \<Rightarrow> (SYSERR, new)
      | Some e \<Rightarrow> if length (replaced e cs) < 256 then (snd (snd e), new') else (SYSERR, new)) \<and> length new' = 256 \<and>
    (\<forall>e. name_target ents cs = Some e \<and> length (replaced e cs) < 256 \<longrightarrow> cname (replaced e cs) new')"
  let ?M = "\<lambda>(pre, rep, d :: int). take (length pre) cs = pre"
  have "\<exists>x. c_loop ?f 0 = Some x \<and> ?R x"
  proof (rule c_loop_total[where P = "\<lambda>i. i \<le> length ents \<and> (\<forall>j < i. \<not> ?M (ents ! j))" and m = "\<lambda>i. length ents - i"])
    fix i assume i: "i \<le> length ents \<and> (\<forall>j < i. \<not> ?M (ents ! j))"
    show "(\<exists>t. ?f i = Some (Inl t) \<and> (t \<le> length ents \<and> (\<forall>j < t. \<not> ?M (ents ! j))) \<and> length ents - t < length ents - i) \<or>
      (\<exists>r. ?f i = Some (Inr r) \<and> ?R r)"
    proof (cases "i = length ents")
      case True
      then have "name_target ents cs = None" using i by (auto simp: name_target_def find_None_iff in_set_conv_nth)
      then show ?thesis using True s n by (auto simp: names_ok_def)
    next
      case False
      then have l: "i < length ents" "i < length (nametab s)" "int i < nnames s" using i s by (auto simp: names_ok_def)
      obtain pre rep d where e: "ents ! i = (pre, rep, d)" by (cases "ents ! i") auto
      have en: "entry_is (pre, rep, d) (nametab s ! i)" "length (nreplace (nametab s ! i)) = 96"
        using s l e nth_mem by (auto simp: names_ok_def)
      obtain new' where nw: "namrepl_entry (nametab s ! i) name new = Some (if take (length pre) cs \<noteq> pre then None
          else if length (replaced (pre, rep, d) cs) < 256 then Some (d, new') else Some (SYSERR, new))"
        "length new' = 256" "length (replaced (pre, rep, d) cs) < 256 \<longrightarrow> cname (replaced (pre, rep, d) cs) new'"
        using namrepl_entry_ok[OF en c n] by blast
      show ?thesis
      proof (cases "take (length pre) cs = pre")
        case True
        have "name_target ents cs = Some (ents ! i)" unfolding name_target_def by (rule find_first) (use l i e True in auto)
        then show ?thesis using True l nw n e by (auto simp: elem_at_def)
      next
        case ne: False
        then have "\<forall>j < Suc i. \<not> ?M (ents ! j)" using i e by (auto simp: less_Suc_eq)
        then show ?thesis using ne l nw(1) by (simp add: elem_at_def)
      qed
    qed
  qed simp
  then show ?thesis by (auto simp: namrepl_def)
qed

text \<open>What nammap answers.\<close>

definition name_result :: "mapping3 list \<Rightarrow> int \<Rightarrow> int list \<Rightarrow> int" where
  "name_result ents namdev cs = (if length cs < 256 then
     (case name_target ents cs of None \<Rightarrow> SYSERR
      | Some e \<Rightarrow> if length (replaced e cs) < 256 \<and> snd (snd e) \<noteq> namdev then snd (snd e) else SYSERR)
     else SYSERR)"

lemma nammap_ok:
  assumes s: "names_ok ents s" and c: "reads name cs" "length cs < 255" and n: "length new = 256" "length tmp = 256" and d: "namdev \<noteq> SYSERR"
  shows "\<exists>new'. nammap name new namdev tmp s = Some (name_result ents namdev cs, new') \<and>
    (name_result ents namdev cs \<noteq> SYSERR \<longrightarrow> (\<exists>e. name_target ents cs = Some e \<and> cname (replaced e cs) new'))"
proof -
  let ?tmp = "cs @ 0 # drop (Suc (length cs)) tmp"
  have t: "namcpy tmp name NM_MAXLEN = Some (OK, ?tmp)" using namcpy_ok[OF c(1), of NM_MAXLEN tmp] c(2) n(2) by (simp add: NM_MAXLEN_def)
  have tc: "cname cs ?tmp" "length ?tmp = 256" using reads_nonzero[OF c(1)] c(2) n(2) by (simp_all add: cname_def)
  let ?f = "\<lambda>(iter, newname). if iter < nnames s then do {
         (newdev, newname) \<leftarrow> namrepl ?tmp newname s;
         if newdev \<noteq> namdev then do { _ \<leftarrow> namcpy ?tmp (elem_at newname) NM_MAXLEN; Some (Inr (newdev, newname)) }
         else Some (Inl (iter + 1, newname)) }
       else Some (Inr (SYSERR, newname))"
  let ?R = "\<lambda>x. fst x = name_result ents namdev cs \<and>
    (name_result ents namdev cs \<noteq> SYSERR \<longrightarrow> (\<exists>e. name_target ents cs = Some e \<and> cname (replaced e cs) (snd x)))"
  let ?P = "\<lambda>(iter, a :: int list). length a = 256 \<and> 0 \<le> iter \<and> iter \<le> nnames s \<and> (iter < nnames s \<or> name_result ents namdev cs = SYSERR)"
  have "\<exists>x. c_loop ?f (0, new) = Some x \<and> ?R x"
  proof (rule c_loop_total[where P = ?P and m = "\<lambda>(iter, a). nat (nnames s - iter)"])
    have "ents = [] \<Longrightarrow> name_result ents namdev cs = SYSERR" by (simp add: name_result_def name_target_def)
    then show "?P (0, new)" using n s by (auto simp: names_ok_def)
  next
    fix x assume "?P x"
    then obtain iter a where x: "x = (iter, a)" "length a = 256" "0 \<le> iter" "iter \<le> nnames s" "iter < nnames s \<or> name_result ents namdev cs = SYSERR" by (cases x) auto
    show "(\<exists>t. ?f x = Some (Inl t) \<and> ?P t \<and> (case t of (iter, a) \<Rightarrow> nat (nnames s - iter)) < (case x of (iter, a) \<Rightarrow> nat (nnames s - iter))) \<or>
      (\<exists>r. ?f x = Some (Inr r) \<and> ?R r)"
    proof (cases "iter < nnames s")
      case True
      obtain a' where a: "namrepl ?tmp a s = Some (case name_target ents cs of None \<Rightarrow> (SYSERR, a)
          | Some e \<Rightarrow> if length (replaced e cs) < 256 then (snd (snd e), a') else (SYSERR, a))" "length a' = 256"
        "\<forall>e. name_target ents cs = Some e \<and> length (replaced e cs) < 256 \<longrightarrow> cname (replaced e cs) a'"
        using namrepl_ok[OF s tc(1) c(2) x(2)] by blast
      have cp: "\<exists>r z. namcpy ?tmp (elem_at b) NM_MAXLEN = Some (r, z)" if "length b = 256" for b
        by (rule namcpy_total) (use that tc(2) in \<open>simp_all add: elem_at_def NM_MAXLEN_def\<close>)
      obtain r1 z1 r2 z2 where cps: "namcpy ?tmp (elem_at a) NM_MAXLEN = Some (r1, z1)" "namcpy ?tmp (elem_at a') NM_MAXLEN = Some (r2, z2)"
        using cp[OF x(2)] cp[OF a(2)] by blast
      show ?thesis
      proof (cases "name_target ents cs")
        case None
        then show ?thesis using True x(1) a(1) cps(1) c(2) d by (simp add: name_result_def)
      next
        case (Some e)
        show ?thesis
        proof (cases "length (replaced e cs) < 256")
          case fit: True
          show ?thesis
          proof (cases "snd (snd e) = namdev")
            case True
            have "name_result ents namdev cs = SYSERR" using Some True by (simp add: name_result_def)
            then show ?thesis using \<open>iter < nnames s\<close> x a Some fit True by auto
          next
            case False
            have "cname (replaced e cs) a'" using a(3) Some fit by blast
            then show ?thesis using False True x(1) a(1) Some fit cps(2) c(2) by (simp add: name_result_def)
          qed
        next
          case False
          then show ?thesis using True x(1) a(1) Some cps(1) c(2) d by (simp add: name_result_def)
        qed
      qed
    qed (use x in simp)
  qed
  then show ?thesis using t by (auto simp: nammap_def)
qed

section \<open>The table of a started system\<close>

definition lower_char :: "int \<Rightarrow> int" where
  "lower_char ch = (if 65 \<le> ch \<and> ch \<le> 90 then ch + 32 else ch)"

lemma lower_char_zero: "lower_char c = 0 \<longleftrightarrow> c = 0"
  by (simp add: lower_char_def)

lemma lower_name_ok:
  assumes r: "reads rd cs" and l: "p + length cs + 1 \<le> length a" "p + length cs + 1 < 256"
  shows "lower_name rd p a = Some (int (p + length cs) + 1, take p a @ map lower_char cs @ 0 # drop (Suc (p + length cs)) a)"
proof -
  let ?f = "\<lambda>(len, k, tmpstr). if len + 1 < NM_MAXLEN then do {
       ch \<leftarrow> rd k;
       let ch = (if 65 \<le> ch \<and> ch \<le> 90 then ch + 32 else ch);
       _ \<leftarrow> elem_at tmpstr (p + k);
       let tmpstr = tmpstr[p + k := ch];
       Some (if ch = 0 then Inr (len + 1, tmpstr) else Inl (len + 1, k + 1, tmpstr)) }
     else Some (Inr (len + 1, tmpstr))"
  have "c_loop ?f (int (p + k), k, b) = Some (int (p + length cs) + 1, take (p + k) b @ map lower_char (drop k cs) @ 0 # drop (Suc (p + length cs)) b)"
    if "k \<le> length cs" "length b = length a" for k b
    using that
  proof (induction "length cs - k" arbitrary: k b)
    case 0
    then have k: "k = length cs" by simp
    then have "?f (int (p + k), k, b) = Some (Inr (int (p + k) + 1, b[p + k := 0]))"
      using r l 0 by (simp add: reads_def elem_at_def NM_MAXLEN_def)
    then have "c_loop ?f (int (p + k), k, b) = Some (int (p + k) + 1, b[p + k := 0])" by (rule c_loop_Inr)
    moreover have "p + k < length b" using k l 0 by simp
    ultimately show ?case using k by (simp add: upd_conv_take_nth_drop)
  next
    case (Suc d)
    then have k: "k < length cs" "p + k < length b" using l by simp_all
    let ?c = "lower_char (cs ! k)"
    have c: "rd k = Some (cs ! k)" "?c \<noteq> 0" using r k by (simp_all add: reads_def lower_char_zero)
    then have "?f (int (p + k), k, b) = Some (Inl (int (p + Suc k), Suc k, b[p + k := ?c]))"
      using k l by (simp add: elem_at_def NM_MAXLEN_def lower_char_def Let_def)
    then have "c_loop ?f (int (p + k), k, b) = c_loop ?f (int (p + Suc k), Suc k, b[p + k := ?c])" by (rule c_loop_Inl)
    moreover have "c_loop ?f (int (p + Suc k), Suc k, b[p + k := ?c]) = Some (int (p + length cs) + 1,
        take (p + Suc k) (b[p + k := ?c]) @ map lower_char (drop (Suc k) cs) @ 0 # drop (Suc (p + length cs)) (b[p + k := ?c]))"
      by (rule Suc.hyps(1)) (use Suc k in simp_all)
    moreover have "take (p + Suc k) (b[p + k := ?c]) = take (p + k) b @ [?c]" using k by (simp add: take_Suc_conv_app_nth)
    moreover have "map lower_char (drop k cs) = ?c # map lower_char (drop (Suc k) cs)" using k by (simp add: Cons_nth_drop_Suc[symmetric])
    ultimately show ?case using k by simp
  qed
  from this[of 0 a] show ?thesis by (simp add: lower_name_def)
qed

definition slash_dev :: "int list" where
  "slash_dev = map of_char ''/dev/''"

definition dev_entry :: "dentry \<Rightarrow> mapping3" where
  "dev_entry d = (slash_dev @ map lower_char (map of_char (dvname d)), [], dvnum d)"

definition good_device :: "dentry \<Rightarrow> bool" where
  "good_device d \<longleftrightarrow> length (dvname d) < 16 \<and> 0 \<notin> set (map of_char (dvname d) :: int list) \<and> \<not> isbaddev (dvnum d)"

lemma good_devices: "\<forall>d \<in> set devtab. good_device d"
  by (simp add: devtab_def good_device_def isbaddev_def NDEVS_def)

lemma reads_empty: "reads (literal '''') []"
  using reads_literal[of "''''"] by simp

lemma naminit_dev_ok:
  assumes d: "good_device d" and s: "names_ok ents s" "length ents < 40" and a: "length a = 256"
  shows "\<exists>b t. naminit_dev d a s = Some (b, t) \<and> length b = 256 \<and> names_ok (ents @ [dev_entry d]) t"
proof -
  let ?n = "map of_char (dvname d) :: int list" and ?dev = "slash_dev"
  have dev: "reads (literal ''/dev/'') ?dev" "length ?dev = 5" "0 \<notin> set ?dev"
    using reads_literal[of "''/dev/''"] by (simp_all add: slash_dev_def)
  let ?a = "?dev @ 0 # drop 6 a"
  have "copy_chars (literal ''/dev/'') (length (?dev @ [0])) 0 0 a = Some (take 0 a @ (?dev @ [0]) @ drop (0 + length (?dev @ [0])) a)"
    by (rule copy_chars_ok) (use reads_nth[OF dev(1)] dev(2) a in simp_all)
  then have c: "copy_chars (literal ''/dev/'') 6 0 0 a = Some ?a" using dev(2) by (simp add: eval_nat_numeral)
  have n: "reads (literal (dvname d)) ?n" "length ?n < 16" using d reads_literal by (simp_all add: good_device_def)
  let ?b = "?dev @ map lower_char ?n @ 0 # drop (Suc (5 + length ?n)) ?a"
  have l: "lower_name (literal (dvname d)) 5 ?a = Some (int (5 + length ?n) + 1, ?b)"
    using lower_name_ok[OF n(1), of 5 ?a] n(2) a dev(2) by simp
  have lb: "length ?b = 256" using n(2) a dev(2) by simp
  have z: "0 \<notin> set (?dev @ map lower_char ?n)"
  proof -
    have "0 \<notin> set ?n" using d by (simp add: good_device_def)
    then have "0 \<notin> lower_char ` set ?n" using lower_char_zero by (metis imageE)
    then show ?thesis using dev(3) by (simp only: set_append set_map Un_iff) simp
  qed
  have "cname (?dev @ map lower_char ?n) ?b" unfolding cname_def using z by (intro conjI) simp_all
  then have rb: "reads (elem_at ?b) (?dev @ map lower_char ?n)" by (rule reads_array)
  have "mountable (?dev @ map lower_char ?n) [] (dvnum d) ents" using n(2) dev(2) d s(2) by (simp add: mountable_def good_device_def)
  from mount_ok[OF s(1) rb reads_empty this] obtain t where t: "mount (elem_at ?b) (literal '''') (dvnum d) s = Some (OK, t)"
    "names_ok (ents @ [dev_entry d]) t" by (auto simp: dev_entry_def)
  have "naminit_dev d a s = Some (?b, t)" unfolding naminit_dev_def c using l t(1) n(2) by (simp add: NM_MAXLEN_def)
  then show ?thesis using lb t(2) by blast
qed

lemma naminit_devs_ok:
  "\<forall>d \<in> set ds. good_device d \<Longrightarrow> names_ok ents s \<Longrightarrow> length ents + length ds \<le> 40 \<Longrightarrow> length a = 256 \<Longrightarrow>
   \<exists>t. naminit_devs ds a s = Some t \<and> names_ok (ents @ map dev_entry ds) t"
proof (induction ds arbitrary: ents s a)
  case (Cons d ds)
  then obtain b t where t: "naminit_dev d a s = Some (b, t)" "length b = 256" "names_ok (ents @ [dev_entry d]) t"
    using naminit_dev_ok[of d ents s a] by auto
  obtain u where "naminit_devs ds b t = Some u" "names_ok ((ents @ [dev_entry d]) @ map dev_entry ds) u"
    using Cons.IH[OF _ t(3) _ t(2)] Cons.prems by auto
  then show ?case using t(1) by auto
qed auto

definition std_names :: "mapping3 list" where
  "std_names = map dev_entry devtab @ [(map of_char ''/dev/null'', [], NULLDEV), (map of_char ''/local/'', [], LFILESYS),
     (map of_char ''~/'', [], LFILESYS), ([], [], LFILESYS)]"

lemma naminit_ok:
  assumes s: "length (nametab s) = 40" "\<forall>e \<in> set (nametab s). length (nprefix e) = 64 \<and> length (nreplace e) = 96" and a: "length a = 256"
  shows "\<exists>t. naminit a s = Some (OK, t) \<and> names_ok std_names t"
proof -
  let ?d = "map dev_entry devtab"
  have ld: "length devtab = 13" by (simp add: devtab_def)
  have s0: "names_ok [] (s\<lparr>nnames := 0\<rparr>)" using s by (simp add: names_ok_def)
  obtain t where t: "naminit_devs devtab a (s\<lparr>nnames := 0\<rparr>) = Some t" "names_ok ?d t"
    using naminit_devs_ok[OF good_devices s0 _ a] ld by auto
  have str: "reads (literal ''/dev/null'') (map of_char ''/dev/null'')" "reads (literal ''/remote/'') (map of_char ''/remote/'')"
    "reads (literal ''remote:'') (map of_char ''remote:'')" "reads (literal ''/local/'') (map of_char ''/local/'')"
    "reads (literal ''/dev/'') (map of_char ''/dev/'')" "reads (literal ''~/'') (map of_char ''~/'')" "reads (literal ''/'') (map of_char ''/'')"
    "reads (literal ''root:'') (map of_char ''root:'')" by (rule reads_literal, simp)+
  let ?e1 = "(map of_char ''/dev/null'', [], NULLDEV) :: mapping3" and ?e2 = "(map of_char ''/local/'', [], LFILESYS) :: mapping3"
    and ?e3 = "(map of_char ''~/'', [], LFILESYS) :: mapping3" and ?e4 = "([], [], LFILESYS) :: mapping3"
  note defs = mountable_def isbaddev_def NDEVS_def NULLDEV_def LFILESYS_def RFILESYS_def ld
  obtain t1 where t1: "mount (literal ''/dev/null'') (literal '''') NULLDEV t = Some (OK, t1)" "names_ok (?d @ [?e1]) t1"
    using mount_ok[OF t(2) str(1) reads_empty, of NULLDEV] by (auto simp: defs)
  have m2: "mount (literal ''/remote/'') (literal ''remote:'') RFILESYS t1 = Some (SYSERR, t1)"
    by (rule mount_error[OF t1(2) str(2,3)]) (simp add: defs)
  obtain t2 where t2: "mount (literal ''/local/'') (literal '''') LFILESYS t1 = Some (OK, t2)" "names_ok ((?d @ [?e1]) @ [?e2]) t2"
    using mount_ok[OF t1(2) str(4) reads_empty, of LFILESYS] by (auto simp: defs)
  have m3: "mount (literal ''/dev/'') (literal '''') SYSERR t2 = Some (SYSERR, t2)"
    by (rule mount_error[OF t2(2) str(5) reads_empty]) (simp add: defs)
  obtain t3 where t3: "mount (literal ''~/'') (literal '''') LFILESYS t2 = Some (OK, t3)" "names_ok (((?d @ [?e1]) @ [?e2]) @ [?e3]) t3"
    using mount_ok[OF t2(2) str(6) reads_empty, of LFILESYS] by (auto simp: defs)
  have m4: "mount (literal ''/'') (literal ''root:'') RFILESYS t3 = Some (SYSERR, t3)"
    by (rule mount_error[OF t3(2) str(7,8)]) (simp add: defs)
  obtain t4 where t4: "mount (literal '''') (literal '''') LFILESYS t3 = Some (OK, t4)" "names_ok ((((?d @ [?e1]) @ [?e2]) @ [?e3]) @ [?e4]) t4"
    using mount_ok[OF t3(2) reads_empty reads_empty, of LFILESYS] by (auto simp: defs)
  have "take (nat NDEVS) devtab = devtab" by (simp add: ld NDEVS_def)
  then have "naminit a s = Some (OK, t4)" using t(1) t1(1) m2 t2(1) m3 t3(1) m4 t4(1) by (simp add: naminit_def)
  then show ?thesis using t4(2) by (auto simp: std_names_def)
qed

text \<open>
  C43: after naminit, whatever the table held before, the name space maps a name of at most 254
  characters as the list std_names says: the first prefix that it has decides on the device and is
  taken off. The devices of the table are there under /dev/ and their names in lower case; /local/
  and ~/ name local files, and so does every other name, also under /dev/, /remote/ and /, since the
  mounts of those prefixes on a device that does not exist fail. A name that leads to the name space
  itself gives an error.
\<close>

theorem name_space:
  assumes "length (nametab s) = 40" "\<forall>e \<in> set (nametab s). length (nprefix e) = 64 \<and> length (nreplace e) = 96" "length tmpstr = 256"
    and "cstr m name cs" "length cs < 255" "length newname = 256" "length tmpname = 256"
  shows "\<exists>t new. naminit tmpstr s = Some (OK, t) \<and>
    nammap (in_mem m name) newname NAMESPACE tmpname t = Some (name_result std_names NAMESPACE cs, new) \<and>
    (name_result std_names NAMESPACE cs \<noteq> SYSERR \<longrightarrow> (\<exists>e. name_target std_names cs = Some e \<and> cname (replaced e cs) new))"
proof -
  obtain t where t: "naminit tmpstr s = Some (OK, t)" "names_ok std_names t" using naminit_ok[OF assms(1-3)] by blast
  show ?thesis using t(1) nammap_ok[OF t(2) reads_mem[OF assms(4)] assms(5-7), of NAMESPACE] by (auto simp: NAMESPACE_def)
qed

definition blank_names :: namst where
  "blank_names = \<lparr>nametab = replicate 40 \<lparr>nprefix = replicate 64 0, nreplace = replicate 96 0, ndevice = 0\<rparr>, nnames = 0\<rparr>"

lemma name_space_witness:
  "\<exists>t new. naminit (replicate 256 0) blank_names = Some (OK, t) \<and>
    nammap (in_mem (put (\<lambda>_. 0) 50 (map of_char ''/local/a.txt'')) 50) (replicate 256 0) NAMESPACE (replicate 256 0) t = Some (LFILESYS, new) \<and>
    cname (map of_char ''a.txt'') new"
proof -
  let ?cs = "map of_char ''/local/a.txt'' :: int list" and ?m = "put (\<lambda>_. 0) 50 (map of_char ''/local/a.txt'')"
  have c: "cstr ?m 50 ?cs" by code_simp
  have b: "length (nametab blank_names) = 40" "\<forall>e \<in> set (nametab blank_names). length (nprefix e) = 64 \<and> length (nreplace e) = 96"
    by (simp_all add: blank_names_def)
  have r: "name_target std_names ?cs = Some (map of_char ''/local/'', [], LFILESYS)" by code_simp
  have e: "name_result std_names NAMESPACE ?cs = LFILESYS" "replaced (map of_char ''/local/'', [], LFILESYS) ?cs = map of_char ''a.txt''" "LFILESYS \<noteq> SYSERR"
    by code_simp+
  show ?thesis
    using name_space[OF b, of "replicate 256 0" ?m 50 ?cs "replicate 256 0" "replicate 256 0"] c e r by auto
qed

end
