(* ===== verification/Loopback.thy ===== *)
theory Loopback
  imports Blocking Devices Ring_Buffer
begin

text \<open>
  The loopback device (device/loopback, include/loopback.h): a buffer whose fill count is the count of
  a semaphore. Characters are bytes. An index outside the buffer is a fault.
\<close>

unbundle bit_operations_syntax

section \<open>The code\<close>

definition LOOP_BUFFER :: int where "LOOP_BUFFER = 1024"
definition LOOP_CTRL_SET_FLAG :: int where "LOOP_CTRL_SET_FLAG = 1"
definition LOOP_CTRL_CLR_FLAG :: int where "LOOP_CTRL_CLR_FLAG = 2"
definition LOOP_NONBLOCK :: int where "LOOP_NONBLOCK = 1"
definition LOOP_EOF :: int where "LOOP_EOF = -2"

datatype loop_state = LOOP_STATE_FREE | LOOP_STATE_ALLOC

record loopback =
  lb_state :: loop_state
  lb_index :: int
  lb_flags :: int
  lb_sem :: int
  lb_buffer :: "int \<Rightarrow> int"

record lbst =
  lbkern :: kst
  looptab :: "int \<Rightarrow> loopback"

definition upd_lb :: "int \<Rightarrow> (loopback \<Rightarrow> loopback) \<Rightarrow> lbst \<Rightarrow> lbst" where
  "upd_lb i f s = s\<lparr>looptab := (looptab s)(i := f (looptab s i))\<rparr>"

definition lb_call :: "(kst \<Rightarrow> (int \<times> kst) option) \<Rightarrow> lbst \<Rightarrow> (int, lbst) act option" where
  "lb_call = kernel_call lbkern lbkern_update"

definition loopbackInit :: "dentry \<Rightarrow> lbst \<Rightarrow> int \<times> lbst" where
  "loopbackInit devptr s = (OK, upd_lb (dvminor devptr) (\<lambda>b. b\<lparr>lb_state := LOOP_STATE_FREE, lb_index := 0\<rparr>) s)"

definition loopbackOpen :: "dentry \<Rightarrow> lbst \<Rightarrow> (int \<times> lbst) option" where
  "loopbackOpen devptr s = do {
     let i = dvminor devptr;
     if lb_state (looptab s i) \<noteq> LOOP_STATE_FREE then Some (SYSERR, s)
     else do {
       (sem, k) \<leftarrow> semcreate 0 (lbkern s);
       let s = upd_lb i (\<lambda>b. b\<lparr>lb_sem := sem\<rparr>) (s\<lparr>lbkern := k\<rparr>);
       if sem = SYSERR then Some (SYSERR, s)
       else Some (OK, upd_lb i (\<lambda>b. b\<lparr>lb_buffer := (\<lambda>_. 0), lb_flags := 0, lb_state := LOOP_STATE_ALLOC\<rparr>) s) } }"

definition loopbackClose :: "dentry \<Rightarrow> lbst \<Rightarrow> (int, lbst) act option" where
  "loopbackClose devptr s =
     (let i = dvminor devptr in
      if lb_state (looptab s i) \<noteq> LOOP_STATE_ALLOC then Some (Done SYSERR s)
      else andthen (lb_call (semdelete (lb_sem (looptab s i))) s) (\<lambda>_ s.
        Some (Done OK (upd_lb i (\<lambda>b. b\<lparr>lb_state := LOOP_STATE_FREE\<rparr>) s))))"

definition in_buffer :: "int \<Rightarrow> unit option" where
  "in_buffer i = (if 0 \<le> i \<and> i < LOOP_BUFFER then Some () else None)"

definition loopbackGetc :: "dentry \<Rightarrow> lbst \<Rightarrow> (int, lbst) act option" where
  "loopbackGetc devptr s =
     (let i = dvminor devptr; b = looptab s i in
      if lb_flags b AND LOOP_NONBLOCK = LOOP_NONBLOCK \<and> semcount (lb_sem b) (lbkern s) \<le> 0 then Some (Done LOOP_EOF s)
      else andthen (lb_call (wait (lb_sem b)) s) (\<lambda>_ s. do {
        let b = looptab s i;
        _ \<leftarrow> in_buffer (lb_index b);
        Some (Done (lb_buffer b (lb_index b)) (upd_lb i (\<lambda>b. b\<lparr>lb_index := (lb_index b + 1) mod LOOP_BUFFER\<rparr>) s)) }))"

text \<open>The remainder of C has the sign of the dividend.\<close>

definition rem_buffer :: "int \<Rightarrow> int" where
  "rem_buffer x = (if x < 0 then - ((- x) mod LOOP_BUFFER) else x mod LOOP_BUFFER)"

definition loopbackPutc :: "dentry \<Rightarrow> int \<Rightarrow> lbst \<Rightarrow> (int, lbst) act option" where
  "loopbackPutc devptr ch s = do {
     let m = dvminor devptr;
     let n = semcount (lb_sem (looptab s m)) (lbkern s);
     if LOOP_BUFFER \<le> n then Some (Done SYSERR s)
     else do {
       let i = rem_buffer (lb_index (looptab s m) + n);
       _ \<leftarrow> in_buffer i;
       let s = upd_lb m (\<lambda>b. b\<lparr>lb_buffer := (lb_buffer b)(i := ch)\<rparr>) s;
       andthen (lb_call (signal (lb_sem (looptab s m))) s) (\<lambda>_ s. Some (Done (u8 ch) s)) } }"

text \<open>The loops of loopbackRead and loopbackWrite: k characters are left, n are done.\<close>

primrec loop_read :: "dentry \<Rightarrow> nat \<Rightarrow> nat \<Rightarrow> int \<Rightarrow> bmem \<Rightarrow> lbst \<Rightarrow> (int \<times> bmem, lbst) act option" where
  "loop_read devptr 0 n buf m s = Some (Done (int n, m) s)"
| "loop_read devptr (Suc k) n buf m s = andthen (loopbackGetc devptr s) (\<lambda>ret s.
     if ret = LOOP_EOF then Some (Done (int n, m) s) else loop_read devptr k (n + 1) buf (m(buf + int n := ret)) s)"

definition loopbackRead :: "dentry \<Rightarrow> int \<Rightarrow> nat \<Rightarrow> bmem \<Rightarrow> lbst \<Rightarrow> (int \<times> bmem, lbst) act option" where
  "loopbackRead devptr buf len m s =
     (if lb_state (looptab s (dvminor devptr)) \<noteq> LOOP_STATE_ALLOC then Some (Done (SYSERR, m) s)
      else loop_read devptr len 0 buf m s)"

primrec loop_write :: "dentry \<Rightarrow> nat \<Rightarrow> nat \<Rightarrow> int \<Rightarrow> bmem \<Rightarrow> lbst \<Rightarrow> (int, lbst) act option" where
  "loop_write devptr 0 n buf m s = Some (Done (int n) s)"
| "loop_write devptr (Suc k) n buf m s = andthen (loopbackPutc devptr (m (buf + int n)) s) (\<lambda>r s.
     if r = SYSERR then Some (Done (if n = 0 then SYSERR else int n) s) else loop_write devptr k (n + 1) buf m s)"

definition loopbackWrite :: "dentry \<Rightarrow> int \<Rightarrow> nat \<Rightarrow> bmem \<Rightarrow> lbst \<Rightarrow> (int, lbst) act option" where
  "loopbackWrite devptr buf len m s =
     (if lb_state (looptab s (dvminor devptr)) \<noteq> LOOP_STATE_ALLOC then Some (Done SYSERR s)
      else loop_write devptr len 0 buf m s)"

definition loopbackControl :: "dentry \<Rightarrow> int \<Rightarrow> int \<Rightarrow> lbst \<Rightarrow> int \<times> lbst" where
  "loopbackControl devptr func arg1 s =
     (let i = dvminor devptr; fl = lb_flags (looptab s i) in
      if lb_state (looptab s i) \<noteq> LOOP_STATE_ALLOC then (SYSERR, s)
      else if func = LOOP_CTRL_SET_FLAG then (fl, upd_lb i (\<lambda>b. b\<lparr>lb_flags := fl OR arg1\<rparr>) s)
      else if func = LOOP_CTRL_CLR_FLAG then (fl AND arg1, upd_lb i (\<lambda>b. b\<lparr>lb_flags := fl AND NOT arg1\<rparr>) s)
      else (SYSERR, s))"

section \<open>The device as a queue\<close>

text \<open>The device LOOP0 of the device table; it is open and nobody waits for it.\<close>

definition loop0 :: dentry where
  "loop0 = devtab ! 12"

lemma minor_loop0 [simp]: "dvminor loop0 = 0"
  by (simp add: loop0_def devtab_def)

abbreviation lb_count :: "lbst \<Rightarrow> int" where
  "lb_count s \<equiv> scount (semtab (lbkern s) (lb_sem (looptab s 0)))"

definition lb_good :: "lbst \<Rightarrow> bool" where
  "lb_good s \<longleftrightarrow> lb_state (looptab s 0) = LOOP_STATE_ALLOC \<and> \<not> isbadsem (lb_sem (looptab s 0)) \<and>
     sstate (semtab (lbkern s) (lb_sem (looptab s 0))) = S_USED \<and> 0 \<le> lb_index (looptab s 0) \<and> lb_index (looptab s 0) < 1024 \<and>
     0 \<le> lb_count s \<and> lb_count s \<le> 1024"

definition lb_items :: "lbst \<Rightarrow> int list" where
  "lb_items s = ring_items 1024 (lb_buffer (looptab s 0)) (lb_index (looptab s 0)) (lb_count s)"

definition is_byte :: "int \<Rightarrow> bool" where
  "is_byte c \<longleftrightarrow> 0 \<le> c \<and> c < 256"

lemma lb_semcount: "lb_good s \<Longrightarrow> semcount (lb_sem (looptab s 0)) (lbkern s) = lb_count s"
  by (simp add: lb_good_def semcount_def)

lemma lb_length: "lb_good s \<Longrightarrow> int (length (lb_items s)) = lb_count s"
  by (simp add: lb_good_def lb_items_def)

lemma putc_full: "lb_good s \<Longrightarrow> lb_count s = 1024 \<Longrightarrow> loopbackPutc loop0 ch s = Some (Done SYSERR s)"
  by (simp add: loopbackPutc_def lb_semcount LOOP_BUFFER_def)

lemma putc_room:
  assumes g: "lb_good s" and c: "lb_count s < 1024"
  shows "\<exists>t. loopbackPutc loop0 ch s = Some (Done (u8 ch) t) \<and> lb_good t \<and> lb_items t = lb_items s @ [ch] \<and> lb_flags (looptab t 0) = lb_flags (looptab s 0)"
proof -
  let ?b = "looptab s 0" and ?m = "lb_sem (looptab s 0)"
  let ?i = "(lb_index ?b + lb_count s) mod 1024"
  let ?u = "upd_lb 0 (\<lambda>b. b\<lparr>lb_buffer := (lb_buffer b)(?i := ch)\<rparr>) s"
  let ?k = "upd_sem ?m (\<lambda>e. e\<lparr>scount := scount e + 1\<rparr>) (lbkern s)"
  let ?t = "?u\<lparr>lbkern := ?k\<rparr>"
  have sg: "signal ?m (lbkern s) = Some (OK, ?k)" by (rule signal_free) (use g c in \<open>simp_all add: lb_good_def\<close>)
  have i: "rem_buffer (lb_index ?b + lb_count s) = ?i" "in_buffer ?i = Some ()"
    using g by (simp_all add: rem_buffer_def in_buffer_def LOOP_BUFFER_def lb_good_def)
  have "lb_call (signal ?m) ?u = Some (Done OK ?t)" using sg by (simp add: lb_call_def kernel_call_def upd_lb_def upd_sem_def)
  then have "loopbackPutc loop0 ch s = Some (Done (u8 ch) ?t)"
    using c i by (simp add: loopbackPutc_def lb_semcount[OF g] LOOP_BUFFER_def Let_def upd_lb_def)
  moreover have "lb_good ?t" using g c by (simp add: lb_good_def upd_lb_def upd_sem_def)
  moreover have "lb_items ?t = lb_items s @ [ch]"
  proof -
    have r: "ring_ok 1024 (lb_index ?b) ?i (lb_count s)" using g by (simp add: ring_ok_def lb_good_def)
    have "lb_items ?t = ring_items 1024 ((lb_buffer ?b)(?i := ch)) (lb_index ?b) (lb_count s + 1)" by (simp add: lb_items_def upd_lb_def upd_sem_def)
    then show ?thesis using ring_put(1)[OF r c] by (simp add: lb_items_def)
  qed
  ultimately show ?thesis by (intro exI[of _ ?t]) (simp add: upd_lb_def)
qed

lemma getc_item:
  assumes g: "lb_good s" and x: "lb_items s = x # xs"
  shows "\<exists>t. loopbackGetc loop0 s = Some (Done x t) \<and> lb_good t \<and> lb_items t = xs \<and> lb_flags (looptab t 0) = lb_flags (looptab s 0)"
proof -
  let ?b = "looptab s 0" and ?m = "lb_sem (looptab s 0)"
  have c: "0 < lb_count s" "lb_count s \<le> INT_MAX" using lb_length[OF g] x g by (auto simp: lb_good_def)
  let ?k = "upd_sem ?m (\<lambda>e. e\<lparr>scount := scount e - 1\<rparr>) (lbkern s)"
  let ?u = "s\<lparr>lbkern := ?k\<rparr>"
  let ?t = "upd_lb 0 (\<lambda>b. b\<lparr>lb_index := (lb_index b + 1) mod LOOP_BUFFER\<rparr>) ?u"
  have "wait ?m (lbkern s) = Some (OK, ?k)" by (rule wait_free) (use g c in \<open>simp_all add: lb_good_def\<close>)
  then have w: "lb_call (wait ?m) s = Some (Done OK ?u)" by (simp add: lb_call_def kernel_call_def upd_sem_def)
  have h: "0 \<le> lb_index ?b" "lb_index ?b < 1024" using g by (simp_all add: lb_good_def)
  have r: "ring_ok 1024 (lb_index ?b) ((lb_index ?b + lb_count s) mod 1024) (lb_count s)" using g by (simp add: ring_ok_def lb_good_def)
  note rg = ring_get(1)[OF r c(1), of "lb_buffer ?b"]
  have y: "x = lb_buffer ?b (lb_index ?b)" "xs = ring_items 1024 (lb_buffer ?b) ((lb_index ?b + 1) mod 1024) (lb_count s - 1)"
    using x rg ring_wrap[OF h] by (simp_all add: lb_items_def)
  have "loopbackGetc loop0 s = Some (Done x ?t)"
    using w c(1) h y(1) by (simp add: loopbackGetc_def Let_def lb_semcount[OF g] in_buffer_def LOOP_BUFFER_def)
  moreover have "lb_good ?t" using g c(1) by (simp add: lb_good_def upd_lb_def upd_sem_def LOOP_BUFFER_def)
  moreover have "lb_items ?t = xs" using y(2) by (simp add: lb_items_def upd_lb_def upd_sem_def LOOP_BUFFER_def)
  ultimately show ?thesis by (intro exI[of _ ?t]) (simp add: upd_lb_def)
qed

lemma getc_empty:
  assumes "lb_good s" "lb_items s = []" "lb_flags (looptab s 0) AND LOOP_NONBLOCK = LOOP_NONBLOCK"
  shows "loopbackGetc loop0 s = Some (Done LOOP_EOF s)"
proof -
  have "lb_count s = 0" using lb_length[OF assms(1)] assms(2) by simp
  then show ?thesis using assms(3) by (simp add: loopbackGetc_def Let_def lb_semcount[OF assms(1)])
qed

text \<open>As a bounded queue: putc and getc where they neither fail nor wait.\<close>

definition lb_put :: "int \<Rightarrow> lbst \<Rightarrow> lbst option" where
  "lb_put ch s = (case loopbackPutc loop0 ch s of Some (Done r t) \<Rightarrow> Some t | _ \<Rightarrow> None)"

definition lb_get :: "lbst \<Rightarrow> (int \<times> lbst) option" where
  "lb_get s = (case loopbackGetc loop0 s of Some (Done r t) \<Rightarrow> Some (r, t) | _ \<Rightarrow> None)"

interpretation loop_queue: fifo lb_good lb_items 1024 lb_put lb_get
proof
  fix s :: lbst and x :: int
  assume g: "lb_good s" "length (lb_items s) < 1024"
  then have "lb_count s < 1024" using lb_length[OF g(1)] by simp
  then show "\<exists>t. lb_put x s = Some t \<and> lb_good t \<and> lb_items t = lb_items s @ [x]"
    using putc_room[OF g(1), of x] by (auto simp: lb_put_def)
next
  fix s :: lbst and x :: int and xs
  assume "lb_good s" "lb_items s = x # xs"
  then show "\<exists>t. lb_get s = Some (x, t) \<and> lb_good t \<and> lb_items t = xs"
    using getc_item[of s x xs] by (auto simp: lb_get_def)
qed

section \<open>Reading and writing\<close>

lemma loop_write_ok:
  assumes "lb_good s" "\<And>j. j < k \<Longrightarrow> m (buf + int (n + j)) = bs ! j \<and> is_byte (bs ! j)" "length bs = k"
  shows "\<exists>t. loop_write loop0 k n buf m s = Some (Done (let w = min k (1024 - length (lb_items s)) in if n + w = 0 \<and> k \<noteq> 0 then SYSERR else int (n + w)) t) \<and>
    lb_good t \<and> lb_items t = lb_items s @ take (1024 - length (lb_items s)) bs \<and> lb_flags (looptab t 0) = lb_flags (looptab s 0)"
  using assms
proof (induction k arbitrary: n s bs)
  case (Suc k)
  then obtain b cs where bs: "bs = b # cs" by (cases bs) auto
  have b: "m (buf + int n) = b" "is_byte b" using Suc.prems(2)[of 0] bs by simp_all
  show ?case
  proof (cases "lb_count s < 1024")
    case True
    obtain t where t: "loopbackPutc loop0 b s = Some (Done (u8 b) t)" "lb_good t" "lb_items t = lb_items s @ [b]" "lb_flags (looptab t 0) = lb_flags (looptab s 0)"
      using putc_room[OF Suc.prems(1) True] by blast
    have u: "u8 b \<noteq> SYSERR" using b(2) by (simp add: is_byte_def u8_id)
    have l: "length (lb_items s) < 1024" using True lb_length[OF Suc.prems(1)] by simp
    have "m (buf + int (n + 1 + j)) = cs ! j \<and> is_byte (cs ! j)" if "j < k" for j using Suc.prems(2)[of "Suc j"] that bs by (simp add: add.assoc)
    then obtain v where v: "loop_write loop0 k (n + 1) buf m t = Some (Done (let w = min k (1024 - length (lb_items t)) in if n + 1 + w = 0 \<and> k \<noteq> 0 then SYSERR else int (n + 1 + w)) v)"
      "lb_good v" "lb_items v = lb_items t @ take (1024 - length (lb_items t)) cs" "lb_flags (looptab v 0) = lb_flags (looptab t 0)"
      using Suc.IH[OF t(2), of "n + 1" cs] Suc.prems(3) bs by auto
    have "take (1024 - length (lb_items s)) bs = b # take (1024 - length (lb_items t)) cs" using l t(3) bs by (simp add: take_Cons')
    moreover have "n + min (Suc k) (1024 - length (lb_items s)) = n + 1 + min k (1024 - length (lb_items t))" using l t(3) by auto
    ultimately show ?thesis using t u v b(1) by (intro exI[of _ v]) (simp add: Let_def)
  next
    case False
    then have c: "lb_count s = 1024" using Suc.prems(1) by (simp add: lb_good_def)
    then have "length (lb_items s) = 1024" using lb_length[OF Suc.prems(1)] by simp
    then show ?thesis using putc_full[OF Suc.prems(1) c] Suc.prems(1) by simp
  qed
qed simp

lemma lb_bytes_tail: "\<forall>b \<in> set (lb_items s). is_byte b \<Longrightarrow> lb_items s = x # xs \<Longrightarrow> x \<noteq> LOOP_EOF"
  by (auto simp: is_byte_def LOOP_EOF_def)

lemma loop_read_ok:
  assumes "lb_good s" "\<forall>b \<in> set (lb_items s). is_byte b"
    "k \<le> length (lb_items s) \<or> lb_flags (looptab s 0) AND LOOP_NONBLOCK = LOOP_NONBLOCK"
  shows "\<exists>t. loop_read loop0 k n buf m s = Some (Done (int (n + min k (length (lb_items s))), put m (buf + int n) (take k (lb_items s))) t) \<and>
    lb_good t \<and> lb_items t = drop k (lb_items s)"
  using assms
proof (induction k arbitrary: n s m)
  case (Suc k)
  show ?case
  proof (cases "lb_items s")
    case Nil
    then show ?thesis using getc_empty[OF Suc.prems(1) Nil] Suc.prems by simp
  next
    case (Cons x xs)
    obtain t where t: "loopbackGetc loop0 s = Some (Done x t)" "lb_good t" "lb_items t = xs" "lb_flags (looptab t 0) = lb_flags (looptab s 0)"
      using getc_item[OF Suc.prems(1) Cons] by blast
    have "x \<noteq> LOOP_EOF" by (rule lb_bytes_tail[OF Suc.prems(2) Cons])
    moreover have p: "\<forall>b \<in> set (lb_items t). is_byte b" "k \<le> length (lb_items t) \<or> lb_flags (looptab t 0) AND LOOP_NONBLOCK = LOOP_NONBLOCK"
      using Suc.prems(2,3) Cons t(3,4) by simp_all
    from Suc.IH[OF t(2) p, of "n + 1" "m(buf + int n := x)"] obtain u where u: "loop_read loop0 k (n + 1) buf (m(buf + int n := x)) t =
        Some (Done (int (n + 1 + min k (length xs)), put (m(buf + int n := x)) (buf + int (n + 1)) (take k xs)) u)" "lb_good u" "lb_items u = drop k xs"
      unfolding t(3) by blast
    ultimately show ?thesis using t(1) Cons by (intro exI[of _ u]) (simp add: put_Cons ac_simps)
  qed
qed simp

text \<open>
  C44: the open loopback device is a queue of at most 1024 bytes. Any sequence of putc and getc that
  neither fills it up nor takes from it when empty delivers the bytes in order; a write appends as many
  bytes as there is room for (SYSERR when there is none at all), and a read then takes the oldest ones,
  stopping at the end of what is there when the device does not wait.
\<close>

theorem loopback_queue:
  assumes "lb_good s" "\<forall>b \<in> set (lb_items s). is_byte b"
    "\<forall>j < length bs. m (buf + int j) = bs ! j" "\<forall>b \<in> set bs. is_byte b"
    and "queue = lb_items s @ take (1024 - length (lb_items s)) bs"
    and "k \<le> length queue \<or> lb_flags (looptab s 0) AND LOOP_NONBLOCK = LOOP_NONBLOCK"
  shows "(\<forall>ops out ys. list_session 1024 ops (lb_items s) = Some (out, ys) \<longrightarrow>
      (\<exists>t. session lb_put lb_get ops s = Some (out, t) \<and> lb_good t \<and> lb_items t = ys)) \<and>
    (\<exists>t u. loopbackWrite loop0 buf (length bs) m s =
        Some (Done (if bs \<noteq> [] \<and> length (lb_items s) = 1024 then SYSERR else int (length queue - length (lb_items s))) t) \<and>
      loopbackRead loop0 buf' k m' t = Some (Done (int (min k (length queue)), put m' buf' (take k queue)) u) \<and>
      lb_good u \<and> lb_items u = drop k queue)"
proof (rule conjI)
  show "\<forall>ops out ys. list_session 1024 ops (lb_items s) = Some (out, ys) \<longrightarrow>
      (\<exists>t. session lb_put lb_get ops s = Some (out, t) \<and> lb_good t \<and> lb_items t = ys)"
    using loop_queue.session_ok[OF assms(1)] by blast
  have len: "length (lb_items s) \<le> 1024" using lb_length[OF assms(1)] assms(1) by (simp add: lb_good_def)
  have "\<And>j. j < length bs \<Longrightarrow> m (buf + int (0 + j)) = bs ! j \<and> is_byte (bs ! j)" using assms(3,4) by simp
  from loop_write_ok[OF assms(1) this refl] obtain t where t: "loop_write loop0 (length bs) 0 buf m s =
      Some (Done (let w = min (length bs) (1024 - length (lb_items s)) in if 0 + w = 0 \<and> length bs \<noteq> 0 then SYSERR else int (0 + w)) t)"
    "lb_good t" "lb_items t = queue" "lb_flags (looptab t 0) = lb_flags (looptab s 0)" using assms(5) by auto
  have lq: "length queue - length (lb_items s) = min (length bs) (1024 - length (lb_items s))" by (simp add: assms(5))
  have w: "loopbackWrite loop0 buf (length bs) m s =
      Some (Done (if bs \<noteq> [] \<and> length (lb_items s) = 1024 then SYSERR else int (length queue - length (lb_items s))) t)"
    using t(1) assms(1) len unfolding lq by (auto simp: loopbackWrite_def lb_good_def Let_def min_def split: if_splits)
  have "\<forall>b \<in> set (lb_items t). is_byte b" using assms(2,4,5) t(3) by (auto dest: in_set_takeD)
  moreover have "k \<le> length (lb_items t) \<or> lb_flags (looptab t 0) AND LOOP_NONBLOCK = LOOP_NONBLOCK" using assms(6) t(3,4) by simp
  ultimately obtain u where u: "loop_read loop0 k 0 buf' m' t = Some (Done (int (0 + min k (length (lb_items t))), put m' (buf' + int 0) (take k (lb_items t))) u)"
    "lb_good u" "lb_items u = drop k (lb_items t)" using loop_read_ok[OF t(2)] by blast
  then show "\<exists>t u. loopbackWrite loop0 buf (length bs) m s =
        Some (Done (if bs \<noteq> [] \<and> length (lb_items s) = 1024 then SYSERR else int (length queue - length (lb_items s))) t) \<and>
      loopbackRead loop0 buf' k m' t = Some (Done (int (min k (length queue)), put m' buf' (take k queue)) u) \<and>
      lb_good u \<and> lb_items u = drop k queue"
    using w t(2,3) by (intro exI[of _ t] exI[of _ u]) (simp add: loopbackRead_def lb_good_def)
qed

definition lb_demo :: lbst where
  "lb_demo = \<lparr>lbkern = demo\<lparr>semtab := (\<lambda>i. \<lparr>sstate = S_USED, scount = 2, squeue = 100 + 2 * i\<rparr>)\<rparr>,
     looptab = (\<lambda>_. \<lparr>lb_state = LOOP_STATE_ALLOC, lb_index = 1023, lb_flags = 0, lb_sem = 5, lb_buffer = (\<lambda>i. if i = 1023 then 7 else 8)\<rparr>)\<rparr>"

lemma loopback_queue_witness:
  "\<exists>t u. loopbackWrite loop0 40 3 (put (\<lambda>_. 0) 40 [65, 66, 67]) lb_demo = Some (Done 3 t) \<and>
    loopbackRead loop0 80 4 (\<lambda>_. 0) t = Some (Done (4, put (\<lambda>_. 0) 80 [7, 8, 65, 66]) u) \<and> lb_items u = [67]"
proof -
  have g: "lb_good lb_demo" by (simp add: lb_good_def lb_demo_def isbadsem_def NSEM_def)
  have i: "lb_items lb_demo = [7, 8]" by (simp add: lb_items_def lb_demo_def ring_items_def upt_rec numeral_2_eq_2)
  have b: "\<forall>b \<in> set (lb_items lb_demo). is_byte b" "\<forall>b \<in> set [65, 66, 67 :: int]. is_byte b"
    "\<forall>j < length [65, 66, 67 :: int]. put (\<lambda>_. 0) 40 [65, 66, 67] (40 + int j) = [65, 66, 67] ! j"
    by (simp_all add: i is_byte_def put_def)
  have q: "[7, 8, 65, 66, 67] = lb_items lb_demo @ take (1024 - length (lb_items lb_demo)) [65, 66, 67]" by (simp add: i)
  show ?thesis using loopback_queue[OF g b(1,3,2) q, of 4 80 "\<lambda>_. 0"] by (auto simp: i numeral_3_eq_3)
qed

section \<open>A reader that waits\<close>

text \<open>
  On a device that has just been opened, a reader waits, as it should; the count of the semaphore
  is then -1, and the next character written is stored one place before the place where the reader
  will look. At the start of the buffer this is in front of the array.
\<close>

theorem loopback_waiting_reader:
  assumes "kok (lbkern s) L" "currpid (lbkern s) \<noteq> NULLPROC" "looptab s 0 = b\<lparr>lb_state := LOOP_STATE_FREE, lb_index := 0\<rparr>"
    and "loopbackOpen loop0 s = Some (OK, t)"
  shows "\<exists>u k. loopbackGetc loop0 t = Some (Switch u k) \<and> semcount (lb_sem (looptab u 0)) (lbkern u) = -1 \<and> loopbackPutc loop0 ch u = None"
proof -
  have st: "lb_state (looptab s 0) = LOOP_STATE_FREE" "lb_index (looptab s 0) = 0" using assms(3) by simp_all
  obtain i k where i: "0 \<le> i" "i < NSEM" "semcreate 0 (lbkern s) = Some (i, k)" "kok k L"
      "semtab k = (semtab (lbkern s))(i := (semtab (lbkern s) i)\<lparr>sstate := S_USED, scount := 0\<rparr>)" "currpid k = currpid (lbkern s)"
    using semcreate_ok[OF assms(1), of 0] assms(4) st(1) by (auto simp: loopbackOpen_def Let_def)
  then have t: "lbkern t = k" "lb_sem (looptab t 0) = i" "lb_index (looptab t 0) = 0" "lb_flags (looptab t 0) = 0"
    using assms(4) st by (auto simp: loopbackOpen_def Let_def upd_lb_def)
  have b: "\<not> isbadsem i" "sstate (semtab k i) = S_USED" "scount (semtab k i) \<le> 0" "scount (semtab k i) = 0" using i(1,2,5) by (simp_all add: isbadsem_def)
  obtain w L' where w: "wait i k = Some (OK, w)" "semtab w = (semtab k)(i := (semtab k i)\<lparr>scount := scount (semtab k i) - 1\<rparr>)" "currpid w \<noteq> currpid k"
    using wait_blocked_contract[OF i(4) b(1-3)] assms(2) i(6) by auto
  let ?u = "t\<lparr>lbkern := w\<rparr>"
  obtain f where f: "loopbackGetc loop0 t = Some (Switch ?u f)"
    using w(1,3) t by (simp add: loopbackGetc_def Let_def LOOP_NONBLOCK_def lb_call_def kernel_call_def)
  have c: "semcount (lb_sem (looptab ?u 0)) (lbkern ?u) = -1" using b w(2) t(2) by (simp add: semcount_def)
  then have "loopbackPutc loop0 ch ?u = None" using t(3) by (simp add: loopbackPutc_def Let_def LOOP_BUFFER_def rem_buffer_def in_buffer_def)
  then show ?thesis using f c by blast
qed

lemma loopback_waiting_reader_witness:
  "\<exists>t u k. loopbackOpen loop0 \<lparr>lbkern = demo, looptab = (\<lambda>_. (looptab lb_demo 0)\<lparr>lb_state := LOOP_STATE_FREE, lb_index := 0\<rparr>)\<rparr> = Some (OK, t) \<and>
    loopbackGetc loop0 t = Some (Switch u k) \<and> loopbackPutc loop0 65 u = None"
proof -
  let ?s = "\<lparr>lbkern = demo, looptab = (\<lambda>_. (looptab lb_demo 0)\<lparr>lb_state := LOOP_STATE_FREE, lb_index := 0\<rparr>)\<rparr>"
  have "sem_free demo 2" by (simp add: sem_free_def demo_sem_def)
  then obtain i k where i: "0 \<le> i" "semcreate 0 demo = Some (i, k)" using semcreate_ok[OF demo_kok, of 0] by (force simp: NSEM_def)
  then obtain t where t: "loopbackOpen loop0 ?s = Some (OK, t)" by (simp add: loopbackOpen_def Let_def upd_lb_def)
  show ?thesis using t loopback_waiting_reader[OF _ _ _ t, of demo_lists "looptab lb_demo 0" 65] demo_kok by (auto simp: NULLPROC_def)
qed

end
