(* ===== verification/Fs.thy ===== *)
theory Fs
  imports Heap Byte_Layout
begin

text \<open>
  The simple file system in memory (system/bs.c, system/fs.c, include/fs.h). The block device is the
  memory that bs_mkdev gets from the heap; raw is what the bytes of that memory held before. An
  inode is 64 bytes on the device, struct fsystem 604. A pointer to a directory entry is its index;
  fsd_addr is the address of the array of entries, below the heap. The pointers dirent_ptr and
  filetable_ptr are set before each use, so they are not part of the state. Messages are left out.
\<close>

unbundle bit_operations_syntax

section \<open>Data\<close>

definition O_CREAT :: int where "O_CREAT = 11"
definition FILENAMELEN :: nat where "FILENAMELEN = 32"
definition INODEBLOCKS :: nat where "INODEBLOCKS = 12"
definition INODEDIRECTBLOCKS :: int where "INODEDIRECTBLOCKS = 10"
definition DIRECTORY_SIZE :: nat where "DIRECTORY_SIZE = 16"
definition MDEV_BLOCK_SIZE :: int where "MDEV_BLOCK_SIZE = 512"
definition MDEV_NUM_BLOCKS :: int where "MDEV_NUM_BLOCKS = 512"
definition DEFAULT_NUM_INODES :: int where "DEFAULT_NUM_INODES = 128"
definition INODE_TYPE_FILE :: int where "INODE_TYPE_FILE = 1"
definition NUM_FD :: int where "NUM_FD = 16"
definition SB_BLK :: int where "SB_BLK = 0"
definition BM_BLK :: int where "BM_BLK = 1"
definition FIRST_INODE_BLOCK :: int where "FIRST_INODE_BLOCK = 2"

datatype fstate = FSTATE_CLOSED | FSTATE_OPEN

record inode =
  in_id :: int
  in_type :: int
  in_nlink :: int
  in_device :: int
  in_size :: int
  in_blocks :: "int list"

record filetable =
  ft_state :: fstate
  ft_fileptr :: int
  ft_de :: nat
  ft_in :: inode

record fdirent =
  inode_num :: int
  fname :: "int list"

record fdirectory =
  numentries :: int
  entries :: "fdirent list"

record fsystem =
  nblocks :: int
  blocksz :: int
  ninodes :: int
  inodes_used :: int
  freemaskbytes :: int
  freemask_ptr :: int
  root_dir :: fdirectory

record fsst =
  fheap :: hst
  raw :: bmem
  dev0_numblocks :: int
  dev0_blocksize :: int
  dev0_blocks :: bmem
  dev0_bytes :: int
  fsd :: fsystem
  freemask :: "int list"
  block_cache :: "int list"
  oft :: "filetable list"
  next_open_fd :: int
  next_free_data_block :: int
  next_free_inode :: int
  fsd_addr :: int

definition enc_inode :: "inode \<Rightarrow> int list" where
  "enc_inode n = le32 (in_id n) @ le16 (in_type n) @ le16 (in_nlink n) @ le32 (in_device n) @ le32 (in_size n) @ concat (map le32 (in_blocks n))"

definition dec_inode :: "int list \<Rightarrow> inode" where
  "dec_inode bs = \<lparr>in_id = i32 (rd32 bs 0), in_type = i16 (rd16 bs 4), in_nlink = i16 (rd16 bs 6), in_device = i32 (rd32 bs 8),
     in_size = i32 (rd32 bs 12), in_blocks = map (\<lambda>k. i32 (rd32 bs (16 + 4 * k))) [0..<INODEBLOCKS]\<rparr>"

definition enc_fsystem :: "fsystem \<Rightarrow> int list" where
  "enc_fsystem f = concat (map le32 [nblocks f, blocksz f, ninodes f, inodes_used f, freemaskbytes f, freemask_ptr f, numentries (root_dir f)]) @
     concat (map (\<lambda>e. le32 (inode_num e) @ fname e) (entries (root_dir f)))"

definition at_index :: "'a list \<Rightarrow> int \<Rightarrow> 'a option" where
  "at_index xs i = (if i < 0 then None else elem_at xs (nat i))"

section \<open>The block store\<close>

definition bs_mkdev :: "int \<Rightarrow> int \<Rightarrow> int \<Rightarrow> fsst \<Rightarrow> (int \<times> fsst) option" where
  "bs_mkdev dev blocksize numblocks s =
     (if dev \<noteq> 0 then Some (SYSERR, s)
      else do {
        let s = s\<lparr>dev0_blocksize := (if blocksize \<noteq> 0 then blocksize else MDEV_BLOCK_SIZE)\<rparr>;
        let s = s\<lparr>dev0_numblocks := (if numblocks \<noteq> 0 then numblocks else MDEV_NUM_BLOCKS)\<rparr>;
        let n = u32 (dev0_numblocks s * dev0_blocksize s);
        (a, h) \<leftarrow> getmem n (fheap s);
        let s = s\<lparr>fheap := h, dev0_blocks := (\<lambda>i. raw s (a + i)), dev0_bytes := n\<rparr>;
        if a = u32 SYSERR then Some (SYSERR, s) else Some (OK, s) })"

text \<open>An access of len bytes outside the device is a fault; bytes are copied one by one, so none is
  touched when len is negative.\<close>

definition bs_place :: "int \<Rightarrow> int \<Rightarrow> int \<Rightarrow> fsst \<Rightarrow> int option" where
  "bs_place block offset len s =
     (let a = i32 (block * dev0_blocksize s) + offset in
      if len \<le> 0 \<or> 0 \<le> a \<and> a + len \<le> dev0_bytes s then Some a else None)"

definition bs_bread :: "int \<Rightarrow> int \<Rightarrow> int \<Rightarrow> int \<Rightarrow> fsst \<Rightarrow> (int \<times> int list) option" where
  "bs_bread dev block offset len s =
     (if dev \<noteq> 0 then Some (SYSERR, [])
      else if offset \<ge> dev0_blocksize s then Some (SYSERR, [])
      else do { a \<leftarrow> bs_place block offset len s; Some (OK, map (\<lambda>k. dev0_blocks s (a + int k)) [0..<nat len]) })"

definition bs_bwrite :: "int \<Rightarrow> int \<Rightarrow> int \<Rightarrow> int list \<Rightarrow> fsst \<Rightarrow> (int \<times> fsst) option" where
  "bs_bwrite dev block offset bytes s =
     (if dev \<noteq> 0 then Some (SYSERR, s)
      else if offset \<ge> dev0_blocksize s then Some (SYSERR, s)
      else do { a \<leftarrow> bs_place block offset (int (length bytes)) s; Some (OK, s\<lparr>dev0_blocks := put (dev0_blocks s) a bytes\<rparr>) })"

section \<open>Inodes\<close>

text \<open>The number of inodes in a block is computed without sign; with a block smaller than an inode
  the code divides by zero.\<close>

definition INODES_PER_BLOCK :: "fsst \<Rightarrow> int option" where
  "INODES_PER_BLOCK s = (let n = u32 (blocksz (fsd s)) div 64 in if n = 0 then None else Some n)"

definition NUM_INODE_BLOCKS :: "fsst \<Rightarrow> int option" where
  "NUM_INODE_BLOCKS s = do {
     p \<leftarrow> INODES_PER_BLOCK s;
     let n = u32 (ninodes (fsd s));
     Some (if n mod p = 0 then n div p else n div p + 1) }"

definition FIRST_DATA_BLOCK :: "fsst \<Rightarrow> int option" where
  "FIRST_DATA_BLOCK s = map_option (\<lambda>n. i32 (2 + n)) (NUM_INODE_BLOCKS s)"

definition fs_fileblock_to_diskblock :: "int \<Rightarrow> int \<Rightarrow> int \<Rightarrow> fsst \<Rightarrow> int option" where
  "fs_fileblock_to_diskblock dev fd fileblock s =
     (if fileblock \<ge> int INODEBLOCKS - 2 then Some SYSERR
      else do { f \<leftarrow> at_index (oft s) fd; at_index (in_blocks (ft_in f)) fileblock })"

text \<open>The block of an inode and its offset there.\<close>

definition inode_place :: "int \<Rightarrow> fsst \<Rightarrow> (int \<times> nat) option" where
  "inode_place inode_number s = do {
     p \<leftarrow> INODES_PER_BLOCK s;
     Some (i32 (u32 inode_number div p + FIRST_INODE_BLOCK), nat (64 * (u32 inode_number mod p))) }"

text \<open>Reading a block into block_cache, whose size is 512.\<close>

definition cache_block :: "int \<Rightarrow> fsst \<Rightarrow> fsst option" where
  "cache_block bl s =
     (if blocksz (fsd s) > 512 then None
      else do { (_, bs) \<leftarrow> bs_bread 0 bl 0 (blocksz (fsd s)) s;
                Some (s\<lparr>block_cache := bs @ drop (length bs) (block_cache s)\<rparr>) })"

definition fs_get_inode_by_num :: "int \<Rightarrow> int \<Rightarrow> fsst \<Rightarrow> (int \<times> inode option \<times> fsst) option" where
  "fs_get_inode_by_num dev inode_number s =
     (if dev \<noteq> 0 \<or> inode_number > ninodes (fsd s) then Some (SYSERR, None, s)
      else do {
        (bl, off) \<leftarrow> inode_place inode_number s;
        s \<leftarrow> cache_block bl s;
        if off + 64 > 512 then None
        else Some (OK, Some (dec_inode (take 64 (drop off (block_cache s)))), s) })"

definition fs_put_inode_by_num :: "int \<Rightarrow> int \<Rightarrow> inode \<Rightarrow> fsst \<Rightarrow> (int \<times> fsst) option" where
  "fs_put_inode_by_num dev inode_number ino s =
     (if dev \<noteq> 0 \<or> inode_number > ninodes (fsd s) then Some (SYSERR, s)
      else do {
        (bl, off) \<leftarrow> inode_place inode_number s;
        s \<leftarrow> cache_block bl s;
        if off + 64 > 512 then None
        else do {
          let s = s\<lparr>block_cache := take off (block_cache s) @ enc_inode ino @ drop (off + 64) (block_cache s)\<rparr>;
          (_, s) \<leftarrow> bs_bwrite 0 bl 0 (take (nat (blocksz (fsd s))) (block_cache s)) s;
          Some (OK, s) } })"

section \<open>The bit mask of free blocks\<close>

definition fs_setmaskbit :: "int \<Rightarrow> fsst \<Rightarrow> fsst option" where
  "fs_setmaskbit b s = do {
     x \<leftarrow> at_index (freemask s) (b div 8);
     Some (s\<lparr>freemask := (freemask s)[nat (b div 8) := x OR drop_bit (nat (b mod 8)) 0x80]\<rparr>) }"

definition fs_getmaskbit :: "int \<Rightarrow> fsst \<Rightarrow> int option" where
  "fs_getmaskbit b s = do {
     x \<leftarrow> at_index (freemask s) (b div 8);
     Some (drop_bit 7 (push_bit (nat (b mod 8)) x AND 0x80)) }"

definition fs_clearmaskbit :: "int \<Rightarrow> fsst \<Rightarrow> fsst option" where
  "fs_clearmaskbit b s = do {
     x \<leftarrow> at_index (freemask s) (b div 8);
     let invb = NOT (drop_bit (nat (b mod 8)) 0x80) AND 0xFF;
     Some (s\<lparr>freemask := (freemask s)[nat (b div 8) := x AND invb]\<rparr>) }"

section \<open>Making a file system\<close>

definition round_up8 :: "int \<Rightarrow> int option" where
  "round_up8 i = c_while (\<lambda>i. i mod 8 \<noteq> 0) (\<lambda>i. Some (i + 1)) i"

definition fs_mkfs :: "int \<Rightarrow> int \<Rightarrow> fsst \<Rightarrow> (int \<times> fsst) option" where
  "fs_mkfs dev num_inodes s =
     (if dev \<noteq> 0 then Some (SYSERR, s)
      else do {
        let s = s\<lparr>fsd := (fsd s)\<lparr>nblocks := dev0_numblocks s, blocksz := dev0_blocksize s,
          ninodes := (if num_inodes < 1 then DEFAULT_NUM_INODES else num_inodes)\<rparr>\<rparr>;
        i \<leftarrow> round_up8 (nblocks (fsd s));
        let s = s\<lparr>fsd := (fsd s)\<lparr>freemaskbytes := i div 8\<rparr>\<rparr>;
        (a, h) \<leftarrow> getmem (u32 (freemaskbytes (fsd s))) (fheap s);
        let s = s\<lparr>fheap := h, fsd := (fsd s)\<lparr>freemask_ptr := a\<rparr>\<rparr>;
        if a = u32 SYSERR then Some (SYSERR, s)
        else do {
          let s = s\<lparr>freemask := replicate (nat (freemaskbytes (fsd s))) 0, fsd := (fsd s)\<lparr>inodes_used := 0\<rparr>\<rparr>;
          s \<leftarrow> fs_setmaskbit SB_BLK s;
          (_, s) \<leftarrow> bs_bwrite 0 SB_BLK 0 (enc_fsystem (fsd s)) s;
          s \<leftarrow> fs_setmaskbit BM_BLK s;
          (_, s) \<leftarrow> bs_bwrite 0 BM_BLK 0 (freemask s) s;
          Some (1, s) } })"

section \<open>Opening, creating and closing\<close>

text \<open>Whether strncmp finds no difference between an array and a string in the first n characters, and
  the n characters that strncpy makes of a string.\<close>

primrec same_chars :: "nat \<Rightarrow> int list \<Rightarrow> bmem \<Rightarrow> int \<Rightarrow> bool" where
  "same_chars 0 a m p = True"
| "same_chars (Suc n) a m p = (case a of [] \<Rightarrow> True | c # cs \<Rightarrow> c = m p \<and> (c = 0 \<or> same_chars n cs m (p + 1)))"

primrec name_chars :: "nat \<Rightarrow> bmem \<Rightarrow> int \<Rightarrow> int list" where
  "name_chars 0 m p = []"
| "name_chars (Suc n) m p = (if m p = 0 then replicate (Suc n) 0 else m p # name_chars n m (p + 1))"

definition find_dirent :: "bmem \<Rightarrow> int \<Rightarrow> fsst \<Rightarrow> nat option" where
  "find_dirent m filename s =
     List.find (\<lambda>i. same_chars FILENAMELEN (fname (entries (root_dir (fsd s)) ! i)) m filename) [0..<DIRECTORY_SIZE]"

text \<open>The search for a closed entry of the file table: i counts the tries.\<close>

definition find_fd_iter :: "int \<times> fsst \<Rightarrow> (int \<times> fsst + fsst) option" where
  "find_fd_iter = (\<lambda>(i, s).
     if i < NUM_FD then do {
       f \<leftarrow> at_index (oft s) (next_open_fd s);
       if ft_state f = FSTATE_CLOSED then Some (Inr s)
       else Some (Inl (i + 1, s\<lparr>next_open_fd := (if next_open_fd s + 1 \<ge> NUM_FD then 0 else next_open_fd s + 1)\<rparr>)) }
     else Some (Inr s))"

definition find_fd :: "fsst \<Rightarrow> fsst option" where
  "find_fd s = c_loop find_fd_iter (0, s)"

definition upd_fd :: "int \<Rightarrow> (filetable \<Rightarrow> filetable) \<Rightarrow> fsst \<Rightarrow> fsst" where
  "upd_fd fd f s = s\<lparr>oft := (oft s)[nat fd := f (oft s ! nat fd)]\<rparr>"

definition set_inode :: "int \<Rightarrow> inode option \<Rightarrow> fsst \<Rightarrow> fsst" where
  "set_inode fd r s = (case r of None \<Rightarrow> s | Some n \<Rightarrow> upd_fd fd (\<lambda>f. f\<lparr>ft_in := n\<rparr>) s)"

definition fs_open :: "bmem \<Rightarrow> int \<Rightarrow> int \<Rightarrow> fsst \<Rightarrow> (int \<times> fsst) option" where
  "fs_open m filename flags s =
     (if 0 \<le> flags \<and> flags \<le> 2 then
        case find_dirent m filename s of
          None \<Rightarrow> Some (SYSERR, s)
        | Some d \<Rightarrow> do {
            s \<leftarrow> find_fd s;
            let fd = next_open_fd s;
            f \<leftarrow> at_index (oft s) fd;
            if ft_state f \<noteq> FSTATE_CLOSED then Some (SYSERR, s)
            else do {
              let s = upd_fd fd (\<lambda>f. f\<lparr>ft_state := FSTATE_OPEN, ft_fileptr := 0, ft_de := d\<rparr>) s;
              (_, r, s) \<leftarrow> fs_get_inode_by_num 0 (inode_num (entries (root_dir (fsd s)) ! d)) s;
              Some (fd, set_inode fd r s) } }
      else Some (SYSERR, s))"

definition fs_close :: "int \<Rightarrow> fsst \<Rightarrow> (int \<times> fsst) option" where
  "fs_close fd s = do {
     f \<leftarrow> at_index (oft s) fd;
     if ft_state f = FSTATE_OPEN then do {
       let s = upd_fd fd (\<lambda>f. f\<lparr>ft_state := FSTATE_CLOSED\<rparr>) s;
       (_, h) \<leftarrow> freemem (fsd_addr s + 36 * int (ft_de f)) 36 (fheap s);
       Some (OK, s\<lparr>fheap := h\<rparr>) }
     else Some (SYSERR, s) }"

text \<open>The search for an inode whose number says that it is not in use.\<close>

definition find_inode_iter :: "int \<Rightarrow> int \<times> fsst \<Rightarrow> (int \<times> fsst + fsst) option" where
  "find_inode_iter fd = (\<lambda>(i, s).
     if i < ninodes (fsd s) then do {
       (_, r, s) \<leftarrow> fs_get_inode_by_num 0 (next_free_inode s) s;
       let s = set_inode fd r s;
       f \<leftarrow> at_index (oft s) fd;
       if in_id (ft_in f) < 0 \<or> in_id (ft_in f) \<ge> ninodes (fsd s) then Some (Inr s)
       else Some (Inl (i + 1, s\<lparr>next_free_inode := (if next_free_inode s + 1 \<ge> ninodes (fsd s) then 0 else next_free_inode s + 1)\<rparr>)) }
     else Some (Inr s))"

definition upd_dir_entry :: "nat \<Rightarrow> fdirent \<Rightarrow> fsst \<Rightarrow> fsst" where
  "upd_dir_entry k e s = s\<lparr>fsd := (fsd s)\<lparr>root_dir := (root_dir (fsd s))\<lparr>entries := (entries (root_dir (fsd s)))[k := e]\<rparr>\<rparr>\<rparr>"

text \<open>The rest of fs_create, with an entry of the file table and one of the directory.\<close>

definition create_file :: "int \<Rightarrow> nat \<Rightarrow> int list \<Rightarrow> fsst \<Rightarrow> (int \<times> fsst) option" where
  "create_file fd d name s = do {
     let s = upd_fd fd (\<lambda>f. f\<lparr>ft_state := FSTATE_OPEN, ft_fileptr := 0, ft_de := d\<rparr>) s;
     s \<leftarrow> c_loop (find_inode_iter fd) (0, s);
     let i = next_free_inode s;
     let s = upd_fd fd (\<lambda>f. f\<lparr>ft_in := (ft_in f)\<lparr>in_id := i, in_type := INODE_TYPE_FILE, in_nlink := 0, in_device := 0, in_size := 0\<rparr>\<rparr>) s;
     let s = upd_dir_entry d \<lparr>inode_num = i, fname = name\<rparr> s;
     let s = s\<lparr>fsd := (fsd s)\<lparr>inodes_used := inodes_used (fsd s) + 1\<rparr>\<rparr>;
     (_, s) \<leftarrow> fs_put_inode_by_num 0 i (ft_in (oft s ! nat fd)) s;
     Some (fd, s) }"

definition fs_create :: "bmem \<Rightarrow> int \<Rightarrow> int \<Rightarrow> fsst \<Rightarrow> (int \<times> fsst) option" where
  "fs_create m filename mode s =
     (if mode \<noteq> O_CREAT then Some (SYSERR, s)
      else do {
        n \<leftarrow> strlen filename m;
        if n > int FILENAMELEN then Some (SYSERR, s)
        else if find_dirent m filename s \<noteq> None then Some (SYSERR, s)
        else do {
          let k = numentries (root_dir (fsd s));
          _ \<leftarrow> at_index (entries (root_dir (fsd s))) k;
          let d = nat k;
          let s = s\<lparr>fsd := (fsd s)\<lparr>root_dir := (root_dir (fsd s))\<lparr>numentries := k + 1\<rparr>\<rparr>\<rparr>;
          let name = name_chars (FILENAMELEN - 1) m filename @ [0];
          let s = upd_dir_entry d \<lparr>inode_num = -1, fname = name\<rparr> s;
          s \<leftarrow> find_fd s;
          let fd = next_open_fd s;
          f \<leftarrow> at_index (oft s) fd;
          if ft_state f \<noteq> FSTATE_CLOSED then Some (SYSERR, s)
          else create_file fd d name s } })"

section \<open>Moving, reading and writing\<close>

text \<open>fs_seek assigns the new offset to the pointer filetable_ptr, not to the position of the file.\<close>

definition fs_seek :: "int \<Rightarrow> int \<Rightarrow> fsst \<Rightarrow> (int \<times> fsst) option" where
  "fs_seek fd offset s = do {
     f \<leftarrow> at_index (oft s) fd;
     if ft_state f = FSTATE_OPEN then
       (let offset = i32 (offset + ft_fileptr f) in
        if offset < 0 then Some (SYSERR, s)
        else if offset \<ge> in_size (ft_in f) \<or> offset \<ge> MDEV_BLOCK_SIZE * INODEDIRECTBLOCKS then Some (SYSERR, s)
        else Some (offset, s))
     else Some (SYSERR, s) }"

text \<open>The disk block at the position of the file.\<close>

definition file_block :: "filetable \<Rightarrow> int option" where
  "file_block f = at_index (in_blocks (ft_in f)) (ft_fileptr f div MDEV_BLOCK_SIZE)"

definition fs_read_iter :: "int \<Rightarrow> int \<Rightarrow> int \<Rightarrow> int \<times> int \<times> bmem \<times> fsst \<Rightarrow>
    (int \<times> int \<times> bmem \<times> fsst + int \<times> bmem \<times> fsst) option" where
  "fs_read_iter fd buf nbytescopy = (\<lambda>(nbytes, transferredbytes, m, s).
     if nbytes > 0 then do {
       f \<leftarrow> at_index (oft s) fd;
       blocknumber \<leftarrow> file_block f;
       let len = (if nbytes < MDEV_BLOCK_SIZE then nbytes else MDEV_BLOCK_SIZE);
       if blocknumber = -1 then Some (Inr (nbytescopy, m, s))
       else do {
         (r, bs) \<leftarrow> bs_bread 0 blocknumber 0 len s;
         let m = put m (buf + transferredbytes) bs;
         if r \<noteq> OK then Some (Inr (SYSERR, m, s))
         else Some (Inl (nbytes - len, transferredbytes + len, m, upd_fd fd (\<lambda>f. f\<lparr>ft_fileptr := ft_fileptr f + len\<rparr>) s)) } }
     else Some (Inr (nbytescopy, m, s)))"

definition fs_read :: "int \<Rightarrow> int \<Rightarrow> int \<Rightarrow> bmem \<Rightarrow> fsst \<Rightarrow> (int \<times> bmem \<times> fsst) option" where
  "fs_read fd buf nbytes m s = do {
     f \<leftarrow> at_index (oft s) fd;
     if nbytes < 0 then Some (SYSERR, m, s)
     else if ft_state f \<noteq> FSTATE_OPEN then Some (SYSERR, m, s)
     else if i32 (nbytes + ft_fileptr f) \<ge> MDEV_BLOCK_SIZE * INODEDIRECTBLOCKS then Some (SYSERR, m, s)
     else do {
       blocknumber \<leftarrow> file_block f;
       let offsetnumber = ft_fileptr f mod MDEV_BLOCK_SIZE;
       let len = (if nbytes < MDEV_BLOCK_SIZE - offsetnumber then nbytes else MDEV_BLOCK_SIZE - offsetnumber);
       (_, bs) \<leftarrow> bs_bread 0 blocknumber offsetnumber len s;
       c_loop (fs_read_iter fd buf nbytes) (nbytes, 0, put m buf bs, s) } }"

text \<open>The search for a free data block; mb is the variable m, which has no value at first.\<close>

definition find_block_iter :: "int \<Rightarrow> int \<times> int option \<times> fsst \<Rightarrow> (int \<times> int option \<times> fsst + int option \<times> fsst) option" where
  "find_block_iter first = (\<lambda>(i, mb, s).
     if i < nblocks (fsd s) then do {
       b \<leftarrow> fs_getmaskbit (next_free_data_block s) s;
       if b = 0 then Some (Inr (Some b, s))
       else Some (Inl (i + 1, Some b,
         s\<lparr>next_free_data_block := (if next_free_data_block s + 1 \<ge> MDEV_NUM_BLOCKS then first else next_free_data_block s + 1)\<rparr>)) }
     else Some (Inr (mb, s)))"

definition find_block :: "int option \<Rightarrow> fsst \<Rightarrow> (int option \<times> fsst) option" where
  "find_block mb s = do { first \<leftarrow> FIRST_DATA_BLOCK s; c_loop (find_block_iter first) (first, mb, s) }"

definition take_block :: "int \<Rightarrow> fsst \<Rightarrow> fsst option" where
  "take_block fd s = do {
     s \<leftarrow> fs_setmaskbit (next_free_data_block s) s;
     s \<leftarrow> fs_setmaskbit BM_BLK s;
     (_, s) \<leftarrow> bs_bwrite 0 BM_BLK 0 (freemask s) s;
     f \<leftarrow> at_index (oft s) fd;
     _ \<leftarrow> file_block f;
     Some (upd_fd fd (\<lambda>f. f\<lparr>ft_in := (ft_in f)\<lparr>in_blocks := (in_blocks (ft_in f))[nat (ft_fileptr f div MDEV_BLOCK_SIZE) := next_free_data_block s]\<rparr>\<rparr>) s) }"

definition chars_at :: "bmem \<Rightarrow> int \<Rightarrow> int \<Rightarrow> int list" where
  "chars_at m p n = map (\<lambda>k. m (p + int k)) [0..<nat n]"

definition fs_write_iter :: "int \<Rightarrow> int \<Rightarrow> bmem \<Rightarrow> int \<times> int \<times> int option \<times> fsst \<Rightarrow>
    (int \<times> int \<times> int option \<times> fsst + int option \<times> fsst) option" where
  "fs_write_iter fd buf m = (\<lambda>(nbytes, transferredbytes, mb, s).
     if nbytes > 0 then do {
       (mb, s) \<leftarrow> find_block mb s;
       b \<leftarrow> mb;
       if b \<noteq> 0 then Some (Inr (Some SYSERR, s))
       else do {
         s \<leftarrow> take_block fd s;
         f \<leftarrow> at_index (oft s) fd;
         blocknumber \<leftarrow> file_block f;
         let len = (if nbytes < MDEV_BLOCK_SIZE then nbytes else MDEV_BLOCK_SIZE);
         (r, s) \<leftarrow> bs_bwrite 0 blocknumber 0 (chars_at m (buf + transferredbytes) len) s;
         if r \<noteq> OK then Some (Inr (Some SYSERR, s))
         else Some (Inl (nbytes - len, transferredbytes + len, mb, upd_fd fd (\<lambda>f. f\<lparr>ft_fileptr := ft_fileptr f + len\<rparr>) s)) } }
     else Some (Inr (None, s)))"

definition fs_write :: "int \<Rightarrow> int \<Rightarrow> int \<Rightarrow> bmem \<Rightarrow> fsst \<Rightarrow> (int \<times> fsst) option" where
  "fs_write fd buf nbytes m s = do {
     f \<leftarrow> at_index (oft s) fd;
     if nbytes < 0 then Some (SYSERR, s)
     else if ft_state f \<noteq> FSTATE_OPEN then Some (SYSERR, s)
     else if i32 (nbytes + ft_fileptr f) \<ge> MDEV_BLOCK_SIZE * INODEDIRECTBLOCKS then Some (SYSERR, s)
     else do {
       blocknumber \<leftarrow> file_block f;
       let offsetnumber = ft_fileptr f mod MDEV_BLOCK_SIZE;
       let len = (if nbytes < MDEV_BLOCK_SIZE - offsetnumber then nbytes else MDEV_BLOCK_SIZE - offsetnumber);
       (r, s) \<leftarrow> bs_bwrite 0 blocknumber offsetnumber (chars_at m buf len) s;
       if r \<noteq> OK then Some (SYSERR, s)
       else do {
         let s = upd_fd fd (\<lambda>f. f\<lparr>ft_fileptr := ft_fileptr f + len\<rparr>) s;
         (r, s) \<leftarrow> c_loop (fs_write_iter fd buf m) (nbytes - len, len, None, s);
         if r \<noteq> None then Some (SYSERR, s)
         else do {
           let n = ft_in (oft s ! nat fd);
           (_, s) \<leftarrow> fs_put_inode_by_num 0 (in_id n) n s;
           Some (nbytes, s) } } } }"

end
