(* ===== verification/Fs_Files.thy ===== *)
theory Fs_Files
  imports Fs
begin

text \<open>
  What the simple file system keeps: inodes as they are stored on the device, the search of the file
  table, the first block of a file, and what happens with its second block.
\<close>

section \<open>The invariant\<close>

definition fs_ok :: "fsst \<Rightarrow> bool" where
  "fs_ok s \<longleftrightarrow> dev0_blocksize s = 512 \<and> blocksz (fsd s) = 512 \<and> length (block_cache s) = 512 \<and>
     0 < ninodes (fsd s) \<and> 2 + (ninodes (fsd s) + 7) div 8 \<le> dev0_numblocks s \<and> dev0_numblocks s \<le> 512 \<and>
     dev0_bytes s = 512 * dev0_numblocks s \<and> length (oft s) = 16 \<and> 0 \<le> next_open_fd s \<and> next_open_fd s < 16"

definition inode_ok :: "inode \<Rightarrow> bool" where
  "inode_ok n \<longleftrightarrow> i32 (in_id n) = in_id n \<and> i16 (in_type n) = in_type n \<and> i16 (in_nlink n) = in_nlink n \<and>
     i32 (in_device n) = in_device n \<and> i32 (in_size n) = in_size n \<and> length (in_blocks n) = 12 \<and>
     (\<forall>b \<in> set (in_blocks n). i32 b = b)"

text \<open>The inode that the device holds under a number.\<close>

definition inode_at :: "int \<Rightarrow> fsst \<Rightarrow> inode" where
  "inode_at i s = dec_inode (chars_at (dev0_blocks s) (1024 + 64 * i) 64)"

section \<open>Inodes as bytes\<close>

lemma length_enc_inode: "length (in_blocks n) = 12 \<Longrightarrow> length (enc_inode n) = 64"
  by (simp add: enc_inode_def length_concat_le32)

lemma dec_enc_inode:
  assumes "inode_ok n"
  shows "dec_inode (enc_inode n) = n"
proof -
  note ok = assms[unfolded inode_ok_def]
  define r where "r = concat (map le32 (in_blocks n))"
  have e: "enc_inode n = le32 (in_id n) @ le16 (in_type n) @ le16 (in_nlink n) @ le32 (in_device n) @ le32 (in_size n) @ r"
    by (simp add: enc_inode_def r_def)
  have b: "rd32 (enc_inode n) (16 + 4 * k) = u32 (in_blocks n ! k)" if "k < 12" for k
    using rd32_concat[of k "in_blocks n" "[]"] ok that by (simp add: e rd32_skip r_def)
  have "map (\<lambda>k. i32 (rd32 (enc_inode n) (16 + 4 * k))) [0..<INODEBLOCKS] = in_blocks n"
    using ok b by (intro nth_equalityI) (auto simp: INODEBLOCKS_def i32_u32)
  moreover have "rd32 (enc_inode n) 0 = u32 (in_id n)" by (simp add: e rd32_le32)
  moreover have "rd16 (enc_inode n) 4 = u16 (in_type n)" by (simp add: e rd16_skip rd16_le16)
  moreover have "rd16 (enc_inode n) 6 = u16 (in_nlink n)" by (simp add: e rd16_skip rd16_le16)
  moreover have "rd32 (enc_inode n) 8 = u32 (in_device n)" by (simp add: e rd32_skip rd32_le32)
  moreover have "rd32 (enc_inode n) 12 = u32 (in_size n)" by (simp add: e rd32_skip rd32_le32)
  ultimately show ?thesis using ok by (simp add: dec_inode_def i32_u32 i16_u16)
qed

section \<open>The device\<close>

lemma chars_at_length [simp]: "length (chars_at m p n) = nat n"
  by (simp add: chars_at_def)

lemma chars_at_nth: "k < nat n \<Longrightarrow> chars_at m p n ! k = m (p + int k)"
  by (simp add: chars_at_def)

lemma chars_at_put_same: "nat n = length cs \<Longrightarrow> chars_at (put m p cs) p n = cs"
  by (intro nth_equalityI) (auto simp: chars_at_nth put_in)

lemma chars_at_put_other: "p + n \<le> a \<or> a + int (length cs) \<le> p \<Longrightarrow> chars_at (put m a cs) p n = chars_at m p n"
  by (intro nth_equalityI) (auto simp: chars_at_nth intro!: put_out)

lemma put_put: "length cs = length ds \<Longrightarrow> put (put m a cs) a ds = put m a ds"
  by (auto simp: put_def fun_eq_iff)

lemma bs_place_ok:
  assumes "fs_ok s" "0 \<le> b" "b < dev0_numblocks s" "0 \<le> off" "off + len \<le> 512"
  shows "bs_place b off len s = Some (512 * b + off)"
proof -
  have "i32 (b * 512) = b * 512" using assms by (intro i32_id) (auto simp: fs_ok_def)
  then show ?thesis using assms by (auto simp: bs_place_def fs_ok_def Let_def)
qed

lemma bs_bread_ok:
  assumes "fs_ok s" "0 \<le> b" "b < dev0_numblocks s" "0 \<le> off" "off < 512" "off + len \<le> 512"
  shows "bs_bread 0 b off len s = Some (OK, chars_at (dev0_blocks s) (512 * b + off) len)"
  using assms bs_place_ok[OF assms(1-4,6)] by (auto simp: bs_bread_def fs_ok_def chars_at_def)

lemma bs_bwrite_ok:
  assumes "fs_ok s" "0 \<le> b" "b < dev0_numblocks s" "0 \<le> off" "off < 512" "off + int (length cs) \<le> 512"
  shows "bs_bwrite 0 b off cs s = Some (OK, s\<lparr>dev0_blocks := put (dev0_blocks s) (512 * b + off) cs\<rparr>)"
  using assms bs_place_ok[OF assms(1-4,6)] by (auto simp: bs_bwrite_def fs_ok_def)

section \<open>Reading and writing inodes\<close>

lemma inode_block:
  assumes "fs_ok s" "0 \<le> i" "i < ninodes (fsd s)"
  shows "inode_place i s = Some (i div 8 + 2, nat (64 * (i mod 8)))"
    and "i div 8 + 2 < dev0_numblocks s" and "64 * (i mod 8) \<le> 448"
proof -
  have n: "ninodes (fsd s) < 4096" and b: "i div 8 + 2 < dev0_numblocks s" using assms(2,3) assms(1)[unfolded fs_ok_def] by linarith+
  then have u: "u32 i = i" using assms by (intro u32_id) auto
  have "i32 (i div 8 + 2) = i div 8 + 2" using assms n by (intro i32_id) auto
  then show "inode_place i s = Some (i div 8 + 2, nat (64 * (i mod 8)))"
    using assms(1) u by (simp add: inode_place_def INODES_PER_BLOCK_def FIRST_INODE_BLOCK_def fs_ok_def u32_def Let_def)
  show "i div 8 + 2 < dev0_numblocks s" by (rule b)
  show "64 * (i mod 8) \<le> 448" by simp
qed

lemma inode_addr: "512 * (i div 8 + 2) + 64 * (i mod 8) = 1024 + 64 * (i :: int)"
proof -
  have "8 * q + r = i \<Longrightarrow> 512 * (q + 2) + 64 * r = 1024 + 64 * i" for q r :: int by simp
  then show ?thesis using mult_div_mod_eq[of 8 i] by blast
qed

definition cached :: "int \<Rightarrow> fsst \<Rightarrow> fsst" where
  "cached i s = s\<lparr>block_cache := chars_at (dev0_blocks s) (512 * (i div 8 + 2)) 512\<rparr>"

lemma cache_block_ok:
  assumes "fs_ok s" "0 \<le> i" "i < ninodes (fsd s)"
  shows "cache_block (i div 8 + 2) s = Some (cached i s)"
proof -
  have "0 \<le> i div 8 + 2" using assms(2) by simp
  from bs_bread_ok[OF assms(1) this inode_block(2)[OF assms], of 0 512] show ?thesis
    using assms(1) by (simp add: cache_block_def fs_ok_def cached_def)
qed

lemma cached_inode:
  assumes "0 \<le> i"
  shows "take 64 (drop (nat (64 * (i mod 8))) (chars_at m (512 * (i div 8 + 2)) 512)) = chars_at m (1024 + 64 * i) 64"
proof (rule nth_equalityI)
  have b: "64 * (i mod 8) \<le> 448" "0 \<le> 64 * (i mod 8)" by simp_all
  then show "length (take 64 (drop (nat (64 * (i mod 8))) (chars_at m (512 * (i div 8 + 2)) 512))) = length (chars_at m (1024 + 64 * i) 64)"
    by simp
  fix k assume k: "k < length (take 64 (drop (nat (64 * (i mod 8))) (chars_at m (512 * (i div 8 + 2)) 512)))"
  have a: "512 * (i div 8 + 2) + (64 * (i mod 8) + int k) = 1024 + 64 * i + int k"
    by (simp only: add.assoc[symmetric] inode_addr)
  show "take 64 (drop (nat (64 * (i mod 8))) (chars_at m (512 * (i div 8 + 2)) 512)) ! k = chars_at m (1024 + 64 * i) 64 ! k"
    using k b by (simp add: chars_at_nth a del: distrib_left_numeral)
qed

lemma fs_get_inode_ok:
  assumes "fs_ok s" "0 \<le> i" "i < ninodes (fsd s)"
  shows "fs_get_inode_by_num 0 i s = Some (OK, Some (inode_at i s), cached i s)"
proof -
  have b: "nat (64 * (i mod 8)) + 64 \<le> 512" using inode_block(3)[OF assms] by linarith
  have c: "block_cache (cached i s) = chars_at (dev0_blocks s) (512 * (i div 8 + 2)) 512" by (simp add: cached_def)
  show ?thesis
    unfolding fs_get_inode_by_num_def inode_block(1)[OF assms] bind.bind_lunit prod.case cache_block_ok[OF assms] c cached_inode[OF assms(2)]
    using assms(3) b by (simp add: inode_at_def)
qed

text \<open>Writing an inode changes its 64 bytes and nothing else on the device.\<close>

lemma put_window:
  assumes "length cs = 64" "0 \<le> i"
  shows "put m (512 * (i div 8 + 2)) (take (nat (64 * (i mod 8))) (chars_at m (512 * (i div 8 + 2)) 512) @ cs @
      drop (nat (64 * (i mod 8)) + 64) (chars_at m (512 * (i div 8 + 2)) 512)) = put m (1024 + 64 * i) cs"
proof
  fix x
  define B where "B = 512 * (i div 8 + 2)"
  define off where "off = nat (64 * (i mod 8))"
  have o: "off \<le> 448" "int off = 64 * (i mod 8)" unfolding off_def by linarith+
  have a: "1024 + 64 * i = B + int off" using inode_addr[of i] o(2) unfolding B_def by simp
  have "put m B (take off (chars_at m B 512) @ cs @ drop (off + 64) (chars_at m B 512)) x = put m (B + int off) cs x"
  proof (cases "B \<le> x \<and> x < B + 512")
    case True
    define k where "k = nat (x - B)"
    have k: "x = B + int k" "k < 512" using True by (auto simp: k_def)
    consider "k < off" | "off \<le> k" "k < off + 64" | "off + 64 \<le> k" by linarith
    then show ?thesis
    proof cases
      case 1
      then show ?thesis using k o(1) assms(1) by (simp add: put_def nth_append chars_at_nth)
    next
      case 2
      then have "nat (int k - int off) = k - off" "k - off < 64" by linarith+
      then show ?thesis using k o(1) assms(1) 2 by (simp add: put_def nth_append)
    next
      case 3
      then have "\<not> k - off < 64" by linarith
      then show ?thesis using k o(1) assms(1) 3 by (simp add: put_def nth_append chars_at_nth)
    qed
  next
    case False
    then show ?thesis using o(1) assms(1) by (auto simp: put_def)
  qed
  then show "put m (512 * (i div 8 + 2)) (take (nat (64 * (i mod 8))) (chars_at m (512 * (i div 8 + 2)) 512) @ cs @
      drop (nat (64 * (i mod 8)) + 64) (chars_at m (512 * (i div 8 + 2)) 512)) x = put m (1024 + 64 * i) cs x"
    unfolding a B_def[symmetric] off_def[symmetric] .
qed

lemma fs_put_inode_ok:
  assumes "fs_ok s" "0 \<le> i" "i < ninodes (fsd s)" "length (in_blocks n) = 12"
  obtains cb where "fs_put_inode_by_num 0 i n s =
    Some (OK, s\<lparr>block_cache := cb, dev0_blocks := put (dev0_blocks s) (1024 + 64 * i) (enc_inode n)\<rparr>)" "length cb = 512"
proof -
  define off where "off = nat (64 * (i mod 8))"
  define B where "B = 512 * (i div 8 + 2)"
  have o: "off \<le> 448" unfolding off_def using inode_block(3)[OF assms(1-3)] by linarith
  have i: "0 \<le> i div 8 + 2" using assms(2) by simp
  define cb where "cb = take off (chars_at (dev0_blocks s) B 512) @ enc_inode n @ drop (off + 64) (chars_at (dev0_blocks s) B 512)"
  have l: "length cb = 512" using o length_enc_inode[OF assms(4)] by (simp add: cb_def)
  define t where "t = s\<lparr>block_cache := cb\<rparr>"
  have t: "fs_ok t" "dev0_numblocks t = dev0_numblocks s" "dev0_blocks t = dev0_blocks s" "blocksz (fsd t) = 512" "block_cache t = cb"
    using assms(1) l by (auto simp: t_def fs_ok_def)
  have c: "(cached i s)\<lparr>block_cache := take off (block_cache (cached i s)) @ enc_inode n @ drop (off + 64) (block_cache (cached i s))\<rparr> = t"
    by (simp add: cached_def t_def cb_def B_def)
  have w: "bs_bwrite 0 (i div 8 + 2) 0 cb t = Some (OK, t\<lparr>dev0_blocks := put (dev0_blocks s) B cb\<rparr>)"
    using bs_bwrite_ok[OF t(1) i, of 0 cb] inode_block(2)[OF assms(1-3)] l t by (simp add: B_def)
  have p: "put (dev0_blocks s) B cb = put (dev0_blocks s) (1024 + 64 * i) (enc_inode n)"
    unfolding cb_def B_def off_def by (rule put_window[OF length_enc_inode[OF assms(4)] assms(2)])
  have "\<not> off + 64 > 512" "\<not> i > ninodes (fsd s)" using o assms(3) by linarith+
  then have "fs_put_inode_by_num 0 i n s = Some (OK, t\<lparr>dev0_blocks := put (dev0_blocks s) B cb\<rparr>)"
    unfolding fs_put_inode_by_num_def inode_block(1)[OF assms(1-3)] bind.bind_lunit prod.case cache_block_ok[OF assms(1-3)] Let_def
      off_def[symmetric] c
    using t w l by simp
  then show thesis using that l unfolding p t_def by simp
qed

section \<open>Names\<close>

text \<open>The comparison and the copy of a name are those of the string library.\<close>

lemma strncmp_same_chars:
  "\<exists>r. strncmp a p (int n) m = Some r \<and> (r = 0 \<longleftrightarrow> same_chars n (chars_at m a (int n)) m p)"
proof (induction n arbitrary: a p)
  case 0
  then show ?case by (simp add: strncmp_def c_loop_Inr)
next
  case (Suc n)
  have "[0..<Suc n] = 0 # map Suc [0..<n]" by (simp add: upt_conv_Cons map_Suc_upt del: upt_Suc)
  then have c: "chars_at m a (int (Suc n)) = m a # chars_at m (a + 1) (int n)"
    by (simp add: chars_at_def add.assoc nat_add_distrib del: upt_Suc)
  show ?case
  proof (cases "m a = m p \<and> m a \<noteq> 0")
    case True
    then have "strncmp a p (int (Suc n)) m = strncmp (a + 1) (p + 1) (int n) m"
      by (simp add: strncmp_def c_loop_Inl)
    then show ?thesis using Suc[of "a + 1" "p + 1"] c True by simp
  next
    case False
    then have "strncmp a p (int (Suc n)) m = Some (m a - m p)" unfolding strncmp_def by (intro c_loop_Inr) auto
    then show ?thesis using c False by auto
  qed
qed

lemma name_chars_strncpy:
  assumes "cstr m p cs"
  shows "name_chars n m p = take n (cs @ replicate n 0)"
  using assms
proof (induction n arbitrary: p cs)
  case (Suc n)
  show ?case
  proof (cases cs)
    case Nil
    then show ?thesis using Suc.prems by simp
  next
    case (Cons c ds)
    then have "m p = c" "c \<noteq> 0" "cstr m (p + 1) ds" using Suc.prems by (auto simp: cstr.simps)
    then show ?thesis using Suc.IH[of "p + 1" ds] Cons by (simp flip: replicate_Suc)
  qed
qed simp

section \<open>The file table\<close>

lemma find_fd_from:
  assumes "length (oft s) = 16" "0 \<le> next_open_fd s" "next_open_fd s < 16" "i + int k < 16"
    "ft_state (oft s ! nat ((next_open_fd s + int k) mod 16)) = FSTATE_CLOSED"
  shows "\<exists>p. c_loop find_fd_iter (i, s) = Some (s\<lparr>next_open_fd := p\<rparr>) \<and> 0 \<le> p \<and> p < 16 \<and> ft_state (oft s ! nat p) = FSTATE_CLOSED"
  using assms
proof (induction k arbitrary: i s)
  case 0
  then have "find_fd_iter (i, s) = Some (Inr s)"
    by (simp add: find_fd_iter_def NUM_FD_def at_index_def elem_at_def nat_less_iff)
  then show ?case using 0 by (intro exI[of _ "next_open_fd s"]) (simp add: c_loop_Inr)
next
  case (Suc k)
  note p = Suc.prems(2,3)
  show ?case
  proof (cases "ft_state (oft s ! nat (next_open_fd s)) = FSTATE_CLOSED")
    case True
    then have "find_fd_iter (i, s) = Some (Inr s)"
      using Suc.prems by (simp add: find_fd_iter_def NUM_FD_def at_index_def elem_at_def nat_less_iff)
    then show ?thesis using True p by (intro exI[of _ "next_open_fd s"]) (simp add: c_loop_Inr)
  next
    case False
    define q where "q = (if next_open_fd s + 1 \<ge> 16 then 0 else next_open_fd s + 1)"
    have q: "0 \<le> q" "q < 16" "(q + int k) mod 16 = (next_open_fd s + int (Suc k)) mod 16"
      using p by (cases "next_open_fd s = 15"; simp add: q_def ac_simps)+
    have "find_fd_iter (i, s) = Some (Inl (i + 1, s\<lparr>next_open_fd := q\<rparr>))"
      using Suc.prems(1,4) p False by (simp add: find_fd_iter_def NUM_FD_def at_index_def elem_at_def nat_less_iff q_def)
    moreover have "\<exists>r. c_loop find_fd_iter (i + 1, s\<lparr>next_open_fd := q\<rparr>) = Some (s\<lparr>next_open_fd := q\<rparr>\<lparr>next_open_fd := r\<rparr>) \<and>
        0 \<le> r \<and> r < 16 \<and> ft_state (oft (s\<lparr>next_open_fd := q\<rparr>) ! nat r) = FSTATE_CLOSED"
      using Suc.prems(1,4,5) q by (intro Suc.IH) auto
    ultimately show ?thesis by (auto simp: c_loop_Inl)
  qed
qed

lemma find_fd_ok:
  assumes "fs_ok s" "0 \<le> i" "i < 16" "ft_state (oft s ! nat i) = FSTATE_CLOSED"
  obtains p where "find_fd s = Some (s\<lparr>next_open_fd := p\<rparr>)" "0 \<le> p" "p < 16" "ft_state (oft s ! nat p) = FSTATE_CLOSED"
proof -
  note ok = assms(1)[unfolded fs_ok_def]
  define k where "k = nat ((i - next_open_fd s) mod 16)"
  have k: "int k = (i - next_open_fd s) mod 16" "int k < 16" by (simp_all add: k_def)
  have "(next_open_fd s + int k) mod 16 = i" using assms(2,3) unfolding k(1) by (simp add: mod_simps)
  then show thesis using find_fd_from[of s 0 k] ok k(2) assms(4) that unfolding find_fd_def by auto
qed

text \<open>Opening a file takes a closed entry and copies the inode that the device holds.\<close>

definition fd_opened :: "nat \<Rightarrow> inode \<Rightarrow> filetable" where
  "fd_opened d n = \<lparr>ft_state = FSTATE_OPEN, ft_fileptr = 0, ft_de = d, ft_in = n\<rparr>"

lemma fs_open_ok:
  assumes ok: "fs_ok s" and fl: "0 \<le> flags" "flags \<le> 2" and d: "find_dirent m name s = Some d"
    and i: "inode_num (entries (root_dir (fsd s)) ! d) = i" "0 \<le> i" "i < ninodes (fsd s)"
    and c: "0 \<le> j" "j < 16" "ft_state (oft s ! nat j) = FSTATE_CLOSED"
  obtains p cb where "fs_open m name flags s =
      Some (p, s\<lparr>next_open_fd := p, block_cache := cb, oft := (oft s)[nat p := fd_opened d (inode_at i s)]\<rparr>)"
    "length cb = 512" "0 \<le> p" "p < 16" "ft_state (oft s ! nat p) = FSTATE_CLOSED"
proof -
  obtain p where p: "find_fd s = Some (s\<lparr>next_open_fd := p\<rparr>)" "0 \<le> p" "p < 16" "ft_state (oft s ! nat p) = FSTATE_CLOSED"
    by (rule find_fd_ok[OF ok c])
  have l: "length (oft s) = 16" using ok by (simp add: fs_ok_def)
  define t where "t = upd_fd p (\<lambda>f. f\<lparr>ft_state := FSTATE_OPEN, ft_fileptr := 0, ft_de := d\<rparr>) (s\<lparr>next_open_fd := p\<rparr>)"
  have t: "fs_ok t" "fsd t = fsd s" "dev0_blocks t = dev0_blocks s" using ok p by (auto simp: t_def upd_fd_def fs_ok_def)
  have g: "fs_get_inode_by_num 0 i t = Some (OK, Some (inode_at i s), cached i t)"
    using fs_get_inode_ok[of t i] t i by (simp add: inode_at_def)
  have op: "f\<lparr>ft_state := FSTATE_OPEN, ft_fileptr := 0, ft_de := d, ft_in := n\<rparr> = fd_opened d n" for f n
    by (cases f) (simp add: fd_opened_def)
  have e: "set_inode p (Some (inode_at i s)) (cached i t) =
      s\<lparr>next_open_fd := p, block_cache := chars_at (dev0_blocks s) (512 * (i div 8 + 2)) 512, oft := (oft s)[nat p := fd_opened d (inode_at i s)]\<rparr>"
    using p l op by (simp add: set_inode_def upd_fd_def cached_def t_def nat_less_iff)
  have "fs_open m name flags s = Some (p, set_inode p (Some (inode_at i s)) (cached i t))"
  proof -
    have a: "at_index (oft s) p = Some (oft s ! nat p)" using p(2,3) l by (simp add: at_index_def elem_at_def nat_less_iff)
    have u: "upd_fd p (\<lambda>f. f\<lparr>ft_state := FSTATE_OPEN, ft_fileptr := 0, ft_de := d\<rparr>) (s\<lparr>next_open_fd := p\<rparr>) = t" by (simp only: t_def)
    have f: "0 \<le> flags \<and> flags \<le> 2" using fl by simp
    show ?thesis
      unfolding fs_open_def Let_def d p(1) bind.bind_lunit option.case if_P[OF f]
      by (simp add: a p(4) u t(2) i(1) g)
  qed
  from this[unfolded e] show thesis by (rule that) (use p in simp_all)
qed

section \<open>Reading and writing the first block\<close>

text \<open>A file whose entry of the file table is fd, at its start, with a first block behind the inodes.\<close>

definition at_start :: "int \<Rightarrow> fsst \<Rightarrow> bool" where
  "at_start fd s \<longleftrightarrow> 0 \<le> fd \<and> fd < 16 \<and> ft_state (oft s ! nat fd) = FSTATE_OPEN \<and> ft_fileptr (oft s ! nat fd) = 0 \<and>
     length (in_blocks (ft_in (oft s ! nat fd))) = 12 \<and>
     2 + (ninodes (fsd s) + 7) div 8 \<le> in_blocks (ft_in (oft s ! nat fd)) ! 0 \<and>
     in_blocks (ft_in (oft s ! nat fd)) ! 0 < dev0_numblocks s"

lemma at_start_block:
  assumes "fs_ok s" "at_start fd s"
  shows "at_index (oft s) fd = Some (oft s ! nat fd)"
    and "file_block (oft s ! nat fd) = Some (in_blocks (ft_in (oft s ! nat fd)) ! 0)"
    and "2 \<le> in_blocks (ft_in (oft s ! nat fd)) ! 0"
  using assms by (auto simp: at_start_def fs_ok_def at_index_def elem_at_def file_block_def nat_less_iff)

lemma fs_write_first:
  assumes ok: "fs_ok s" and st: "at_start fd s" and n: "0 \<le> n" "n \<le> 512"
    and i: "0 \<le> in_id (ft_in (oft s ! nat fd))" "in_id (ft_in (oft s ! nat fd)) < ninodes (fsd s)"
  obtains cb where "fs_write fd buf n m s = Some (n, s\<lparr>block_cache := cb,
      dev0_blocks := put (put (dev0_blocks s) (512 * in_blocks (ft_in (oft s ! nat fd)) ! 0) (chars_at m buf n))
        (1024 + 64 * in_id (ft_in (oft s ! nat fd))) (enc_inode (ft_in (oft s ! nat fd))),
      oft := (oft s)[nat fd := (oft s ! nat fd)\<lparr>ft_fileptr := n\<rparr>]\<rparr>)" "length cb = 512"
proof -
  define f where "f = oft s ! nat fd"
  define b where "b = in_blocks (ft_in f) ! 0"
  note d = st[unfolded at_start_def, folded f_def, folded b_def]
  have l: "length (oft s) = 16" using ok by (simp add: fs_ok_def)
  have b: "0 \<le> b" "b < dev0_numblocks s" using at_start_block(3)[OF ok st] d by (simp_all add: b_def f_def)
  define t where "t = s\<lparr>dev0_blocks := put (dev0_blocks s) (512 * b) (chars_at m buf n)\<rparr>"
  have w: "bs_bwrite 0 b 0 (chars_at m buf n) s = Some (OK, t)"
    using bs_bwrite_ok[OF ok b, of 0 "chars_at m buf n"] n by (simp add: t_def)
  define u where "u = t\<lparr>oft := (oft s)[nat fd := f\<lparr>ft_fileptr := n\<rparr>]\<rparr>"
  have u: "upd_fd fd (\<lambda>f. f\<lparr>ft_fileptr := ft_fileptr f + n\<rparr>) t = u" "fs_ok u" "fsd u = fsd s"
      "ft_in (oft u ! nat fd) = ft_in f"
    using ok d l by (auto simp: u_def t_def upd_fd_def f_def fs_ok_def nat_less_iff)
  obtain cb where p: "fs_put_inode_by_num 0 (in_id (ft_in f)) (ft_in f) u = Some (OK, u\<lparr>block_cache := cb,
      dev0_blocks := put (dev0_blocks u) (1024 + 64 * in_id (ft_in f)) (enc_inode (ft_in f))\<rparr>)" "length cb = 512"
    using fs_put_inode_ok[OF u(2), of "in_id (ft_in f)" "ft_in f"] i d u(3) by (auto simp: f_def)
  have lp: "c_loop (fs_write_iter fd buf m) (0, n, None, u) = Some (None, u)"
    by (rule c_loop_Inr) (simp add: fs_write_iter_def)
  have q: "\<not> i32 (n + ft_fileptr f) \<ge> MDEV_BLOCK_SIZE * INODEDIRECTBLOCKS"
    using n d by (simp add: i32_id MDEV_BLOCK_SIZE_def INODEDIRECTBLOCKS_def)
  have len: "(if n < MDEV_BLOCK_SIZE - ft_fileptr f mod MDEV_BLOCK_SIZE then n else MDEV_BLOCK_SIZE - ft_fileptr f mod MDEV_BLOCK_SIZE) = n"
    using n d by (simp add: MDEV_BLOCK_SIZE_def)
  have fb: "at_index (oft s) fd = Some f" "file_block f = Some b" using at_start_block[OF ok st] by (simp_all only: f_def b_def)
  have "ft_fileptr f mod MDEV_BLOCK_SIZE = 0" using d by simp
  then have "fs_write fd buf n m s = Some (n, u\<lparr>block_cache := cb,
      dev0_blocks := put (dev0_blocks u) (1024 + 64 * in_id (ft_in f)) (enc_inode (ft_in f))\<rparr>)"
    unfolding fs_write_def fb bind.bind_lunit Let_def len
    using n(1) d q w lp p(1) u(1,4) by simp
  then have "fs_write fd buf n m s = Some (n, s\<lparr>block_cache := cb,
      dev0_blocks := put (put (dev0_blocks s) (512 * b) (chars_at m buf n)) (1024 + 64 * in_id (ft_in f)) (enc_inode (ft_in f)),
      oft := (oft s)[nat fd := f\<lparr>ft_fileptr := n\<rparr>]\<rparr>)"
    by (simp add: u_def t_def)
  from this[unfolded b_def f_def] p(2) show thesis by (rule that)
qed

lemma fs_read_first:
  assumes ok: "fs_ok s" and st: "at_start fd s" and n: "0 < n" "n \<le> 512"
  shows "fs_read fd buf n m s = Some (n, put m buf (chars_at (dev0_blocks s) (512 * in_blocks (ft_in (oft s ! nat fd)) ! 0) n),
      s\<lparr>oft := (oft s)[nat fd := (oft s ! nat fd)\<lparr>ft_fileptr := n\<rparr>]\<rparr>)"
proof -
  define f where "f = oft s ! nat fd"
  define b where "b = in_blocks (ft_in f) ! 0"
  define bs where "bs = chars_at (dev0_blocks s) (512 * b) n"
  note d = st[unfolded at_start_def, folded f_def, folded b_def]
  have b: "0 \<le> b" "b < dev0_numblocks s" using at_start_block(3)[OF ok st] d by (simp_all add: b_def f_def)
  have r: "bs_bread 0 b 0 n s = Some (OK, bs)" using bs_bread_ok[OF ok b, of 0 n] n by (simp add: bs_def)
  have q: "\<not> i32 (n + ft_fileptr f) \<ge> MDEV_BLOCK_SIZE * INODEDIRECTBLOCKS"
    using n d by (simp add: i32_id MDEV_BLOCK_SIZE_def INODEDIRECTBLOCKS_def)
  have len: "(if n < MDEV_BLOCK_SIZE - ft_fileptr f mod MDEV_BLOCK_SIZE then n else MDEV_BLOCK_SIZE - ft_fileptr f mod MDEV_BLOCK_SIZE) = n"
    "(if n < MDEV_BLOCK_SIZE then n else MDEV_BLOCK_SIZE) = n"
    using n d by (simp_all add: MDEV_BLOCK_SIZE_def)
  define u where "u = s\<lparr>oft := (oft s)[nat fd := f\<lparr>ft_fileptr := n\<rparr>]\<rparr>"
  have u: "upd_fd fd (\<lambda>f. f\<lparr>ft_fileptr := ft_fileptr f + n\<rparr>) s = u" using d by (simp add: u_def upd_fd_def f_def)
  have fb: "at_index (oft s) fd = Some f" "file_block f = Some b" using at_start_block[OF ok st] by (simp_all only: f_def b_def)
  have pp: "put (put m buf bs) buf bs = put m buf bs" by (rule put_put) simp
  have b1: "b \<noteq> -1" using b(1) by simp
  have "fs_read_iter fd buf n (n, 0, put m buf bs, s) = Some (Inl (0, n, put m buf bs, u))"
    unfolding fs_read_iter_def prod.case if_P[OF n(1)] fb bind.bind_lunit Let_def len(2) if_not_P[OF b1] r
    by (simp add: pp u)
  moreover have "fs_read_iter fd buf n (0, n, put m buf bs, u) = Some (Inr (n, put m buf bs, u))" by (simp add: fs_read_iter_def)
  ultimately have lp: "c_loop (fs_read_iter fd buf n) (n, 0, put m buf bs, s) = Some (n, put m buf bs, u)"
    by (simp add: c_loop_Inl c_loop_Inr)
  have "ft_fileptr f mod MDEV_BLOCK_SIZE = 0" using d by simp
  then have "fs_read fd buf n m s = Some (n, put m buf bs, u)"
    unfolding fs_read_def fb bind.bind_lunit Let_def len(1) using n(1) d q r lp by simp
  then show ?thesis by (simp add: bs_def b_def f_def u_def)
qed

section \<open>The bit mask\<close>

text \<open>Bit b of the mask, the highest bit of a byte first.\<close>

definition mask_bit :: "int \<Rightarrow> fsst \<Rightarrow> bool" where
  "mask_bit b s = bit (freemask s ! nat (b div 8)) (7 - nat (b mod 8))"

lemma bit_0x80: "bit (128 :: int) n \<longleftrightarrow> n = 7"
  using bit_exp_iff[of 7 n, where 'a = int] by auto

lemma mask_get:
  assumes "k \<le> 7"
  shows "drop_bit 7 (push_bit k x) AND 1 = (of_bool (bit x (7 - k)) :: int)"
proof -
  have "drop_bit 7 (push_bit k x) AND 1 = (of_bool (odd (drop_bit 7 (push_bit k x))) :: int)"
    by (simp only: and_one_eq mod2_eq_if) simp
  also have "odd (drop_bit 7 (push_bit k x)) = bit (push_bit k x) 7" by (simp only: bit_iff_odd_drop_bit)
  also have "\<dots> = bit x (7 - k)" using assms by (simp add: bit_push_bit_iff)
  finally show ?thesis .
qed

lemma mask_byte:
  assumes "k \<le> 7"
  shows "bit (drop_bit k (128 :: int)) n \<longleftrightarrow> n = 7 - k"
  using assms unfolding bit_drop_bit_eq comp_def bit_0x80 by auto

lemma mask_other: "n \<le> 7 \<Longrightarrow> bit (255 :: int) n"
  using bit_mask_iff[of 8 n, where 'a = int] by (simp add: mask_eq_exp_minus_1)

lemma mask_ok:
  assumes "0 \<le> b" "b < 8 * int (length (freemask s))"
  shows "fs_getmaskbit b s = Some (of_bool (mask_bit b s))"
    and "fs_setmaskbit b s = Some (s\<lparr>freemask := (freemask s)[nat (b div 8) := freemask s ! nat (b div 8) OR drop_bit (nat (b mod 8)) 128]\<rparr>)"
    and "fs_clearmaskbit b s =
      Some (s\<lparr>freemask := (freemask s)[nat (b div 8) := freemask s ! nat (b div 8) AND (NOT (drop_bit (nat (b mod 8)) 128) AND 255)]\<rparr>)"
proof -
  have "nat (b div 8) < length (freemask s)" "nat (b mod 8) \<le> 7" "0 \<le> b div 8" using assms by (linarith, linarith, simp)
  then show "fs_getmaskbit b s = Some (of_bool (mask_bit b s))"
    and "fs_setmaskbit b s = Some (s\<lparr>freemask := (freemask s)[nat (b div 8) := freemask s ! nat (b div 8) OR drop_bit (nat (b mod 8)) 128]\<rparr>)"
    and "fs_clearmaskbit b s =
      Some (s\<lparr>freemask := (freemask s)[nat (b div 8) := freemask s ! nat (b div 8) AND (NOT (drop_bit (nat (b mod 8)) 128) AND 255)]\<rparr>)"
    by (simp_all add: fs_getmaskbit_def fs_setmaskbit_def fs_clearmaskbit_def at_index_def elem_at_def mask_get mask_bit_def)
qed

lemma mask_index:
  assumes "0 \<le> b" "0 \<le> (c :: int)"
  shows "nat (c div 8) = nat (b div 8) \<and> 7 - nat (c mod 8) = 7 - nat (b mod 8) \<longleftrightarrow> c = b"
proof
  assume a: "nat (c div 8) = nat (b div 8) \<and> 7 - nat (c mod 8) = 7 - nat (b mod 8)"
  have "nat x \<le> 7" if "x < 8" for x using that by linarith
  then have "nat (c mod 8) \<le> 7" "nat (b mod 8) \<le> 7" by simp_all
  then have "nat (c mod 8) = nat (b mod 8)" using conjunct2[OF a] by arith
  then have "c mod 8 = b mod 8" using eq_nat_nat_iff[of "c mod 8" "b mod 8"] by simp
  moreover have "c div 8 = b div 8" using a assms by (simp add: eq_nat_nat_iff)
  ultimately show "c = b" by (metis mult_div_mod_eq)
qed simp

lemma mask_set_bit:
  assumes "0 \<le> b" "b < 8 * int (length (freemask s))" "fs_setmaskbit b s = Some t" "0 \<le> c" "c < 8 * int (length (freemask s))"
  shows "mask_bit c t \<longleftrightarrow> c = b \<or> mask_bit c s"
proof -
  have k: "nat (b mod 8) \<le> 7" "nat (b div 8) < length (freemask s)" using assms(1,2) by linarith+
  have t: "t = s\<lparr>freemask := (freemask s)[nat (b div 8) := freemask s ! nat (b div 8) OR drop_bit (nat (b mod 8)) 128]\<rparr>"
    using mask_ok(2)[OF assms(1,2)] assms(3) by simp
  show ?thesis using mask_index[OF assms(1,4)] k
    by (cases "nat (c div 8) = nat (b div 8)") (auto simp: mask_bit_def t bit_or_iff mask_byte)
qed

lemma mask_clear_bit:
  assumes "0 \<le> b" "b < 8 * int (length (freemask s))" "fs_clearmaskbit b s = Some t" "0 \<le> c" "c < 8 * int (length (freemask s))"
  shows "mask_bit c t \<longleftrightarrow> c \<noteq> b \<and> mask_bit c s"
proof -
  have k: "nat (b mod 8) \<le> 7" "nat (b div 8) < length (freemask s)" using assms(1,2) by linarith+
  have t: "t = s\<lparr>freemask := (freemask s)[nat (b div 8) := freemask s ! nat (b div 8) AND (NOT (drop_bit (nat (b mod 8)) 128) AND 255)]\<rparr>"
    using mask_ok(3)[OF assms(1,2)] assms(3) by simp
  show ?thesis using mask_index[OF assms(1,4)] k
    by (cases "nat (c div 8) = nat (b div 8)") (auto simp: mask_bit_def t bit_and_iff bit_not_iff mask_byte mask_other)
qed

section \<open>A new file system\<close>

lemma length_enc_fsystem:
  assumes "length (entries (root_dir f)) = 16" "\<forall>e \<in> set (entries (root_dir f)). length (fname e) = 32"
  shows "length (enc_fsystem f) = 604"
proof -
  have l: "length (concat (map (\<lambda>e. le32 (inode_num e) @ fname e) es)) = 36 * length es"
    if "\<forall>e \<in> set es. length (fname e) = 32" for es
    using that by (induction es) simp_all
  show ?thesis using assms l[OF assms(2)] by (simp add: enc_fsystem_def length_concat_le32 del: length_concat)
qed

definition new_mask :: "int list" where
  "new_mask = 192 # replicate 63 0"

lemma new_mask_bits:
  assumes "freemask s = new_mask"
  shows "fs_getmaskbit 0 s = Some 1" "fs_getmaskbit 1 s = Some 1" "fs_getmaskbit 2 s = Some 0"
  using assms by (simp_all add: fs_getmaskbit_def at_index_def elem_at_def new_mask_def)

text \<open>Only the first two blocks are marked in the mask of a new file system.\<close>

lemma fs_mkfs_ok:
  assumes d: "dev0_blocksize s = 512" "dev0_numblocks s = 512" "dev0_bytes s = 262144"
    and e: "length (entries (root_dir (fsd s))) = 16" "\<forall>e \<in> set (entries (root_dir (fsd s))). length (fname e) = 32"
    and g: "getmem 64 (fheap s) = Some (a, h)" "a \<noteq> u32 SYSERR" and k: "1 \<le> k"
  obtains D fsd' where "fs_mkfs 0 k s = Some (1, s\<lparr>fheap := h, freemask := new_mask, dev0_blocks := D, fsd := fsd'\<rparr>)"
    "nblocks fsd' = 512" "blocksz fsd' = 512" "ninodes fsd' = k"
proof -
  have r: "round_up8 512 = Some 512" unfolding round_up8_def by (rule c_while_stop) simp
  define F where "F = (fsd s)\<lparr>nblocks := 512, blocksz := 512, ninodes := k, freemaskbytes := 64, freemask_ptr := a, inodes_used := 0\<rparr>"
  have l: "length (enc_fsystem F) = 604" using e by (intro length_enc_fsystem) (simp_all add: F_def)
  define D1 where "D1 = put (dev0_blocks s) 0 (enc_fsystem F)"
  define s0 where "s0 = s\<lparr>fheap := h, freemask := replicate 64 0, fsd := F\<rparr>"
  define s1 where "s1 = s\<lparr>fheap := h, freemask := 128 # replicate 63 0, fsd := F\<rparr>"
  define s2 where "s2 = s\<lparr>fheap := h, freemask := new_mask, dev0_blocks := D1, fsd := F\<rparr>"
  have r0: "replicate 64 (0 :: int) = 0 # replicate 63 0" by (simp flip: replicate_Suc)
  have m1: "fs_setmaskbit SB_BLK s0 = Some s1"
    by (simp add: s0_def s1_def r0 fs_setmaskbit_def SB_BLK_def at_index_def elem_at_def)
  have m2: "fs_setmaskbit BM_BLK (s1\<lparr>dev0_blocks := D1\<rparr>) = Some s2"
    by (simp add: s1_def s2_def fs_setmaskbit_def BM_BLK_def at_index_def elem_at_def new_mask_def)
  have w1: "bs_bwrite 0 SB_BLK 0 (enc_fsystem F) s1 = Some (OK, s1\<lparr>dev0_blocks := D1\<rparr>)"
    using d l by (simp add: bs_bwrite_def bs_place_def s1_def SB_BLK_def D1_def i32_id Let_def)
  have w2: "bs_bwrite 0 BM_BLK 0 new_mask s2 = Some (OK, s2\<lparr>dev0_blocks := put D1 512 new_mask\<rparr>)"
    using d by (simp add: bs_bwrite_def bs_place_def s2_def BM_BLK_def i32_id Let_def new_mask_def)
  have F: "s1\<lparr>fsd := F\<rparr> = s1" "fsd s1 = F" "freemask s2 = new_mask" by (simp_all add: s1_def s2_def)
  have "fs_mkfs 0 k s = Some (1, s2\<lparr>dev0_blocks := put D1 512 new_mask\<rparr>)"
    using d k r g m1 m2 w1 w2 F by (simp add: fs_mkfs_def Let_def u32_def s0_def F_def[symmetric])
  moreover have "s2\<lparr>dev0_blocks := X\<rparr> = s\<lparr>fheap := h, freemask := new_mask, dev0_blocks := X, fsd := F\<rparr>" for X by (simp add: s2_def)
  ultimately have "fs_mkfs 0 k s = Some (1, s\<lparr>fheap := h, freemask := new_mask, dev0_blocks := put D1 512 new_mask, fsd := F\<rparr>)" by simp
  then show thesis by (rule that) (simp_all add: F_def)
qed

section \<open>Properties\<close>

text \<open>A file system for the witnesses: sixteen entries with the name a and inode 3, one open file whose
  first block is 10, sixteen inodes.\<close>

definition demo_inode :: inode where
  "demo_inode = \<lparr>in_id = 3, in_type = 1, in_nlink = 0, in_device = 0, in_size = 0, in_blocks = replicate 12 10\<rparr>"

definition demo_fs :: fsst where
  "demo_fs = \<lparr>fheap = \<lparr>mem = (\<lambda>_. 0)(8 := 4096, 4100 := 8192), memlist = 8, minheap = 4096, maxheap = 12288\<rparr>,
     raw = (\<lambda>_. 0), dev0_numblocks = 512, dev0_blocksize = 512, dev0_blocks = (\<lambda>_. 0), dev0_bytes = 262144,
     fsd = \<lparr>nblocks = 512, blocksz = 512, ninodes = 16, inodes_used = 1, freemaskbytes = 64, freemask_ptr = 0,
       root_dir = \<lparr>numentries = 1, entries = replicate 16 \<lparr>inode_num = 3, fname = 97 # replicate 31 0\<rparr>\<rparr>\<rparr>,
     freemask = new_mask, block_cache = replicate 512 0,
     oft = fd_opened 0 demo_inode # replicate 15 ((fd_opened 0 demo_inode)\<lparr>ft_state := FSTATE_CLOSED\<rparr>),
     next_open_fd = 0, next_free_data_block = 0, next_free_inode = 0, fsd_addr = 100\<rparr>"

lemma demo_fs_ok: "fs_ok demo_fs" "at_start 0 demo_fs" "inode_ok demo_inode" "ft_in (oft demo_fs ! 0) = demo_inode"
  by (simp_all add: fs_ok_def demo_fs_def at_start_def fd_opened_def demo_inode_def inode_ok_def i32_def i16_def)

text \<open>The inode table of the simple file system: an inode written under a number is read back, and the inodes under the other
  numbers are still there.\<close>

lemma inode_table:
  assumes "fs_ok s" "inode_ok n" "0 \<le> i" "i < ninodes (fsd s)" "0 \<le> j" "j < ninodes (fsd s)"
  shows "\<exists>s' s''. fs_put_inode_by_num 0 i n s = Some (OK, s') \<and> fs_ok s' \<and>
    fs_get_inode_by_num 0 j s' = Some (OK, Some (if j = i then n else inode_at j s), s'')"
proof -
  have l: "length (in_blocks n) = 12" using assms(2) by (simp add: inode_ok_def)
  obtain cb where p: "fs_put_inode_by_num 0 i n s =
    Some (OK, s\<lparr>block_cache := cb, dev0_blocks := put (dev0_blocks s) (1024 + 64 * i) (enc_inode n)\<rparr>)" "length cb = 512"
    by (rule fs_put_inode_ok[OF assms(1,3,4) l])
  define t where "t = s\<lparr>block_cache := cb, dev0_blocks := put (dev0_blocks s) (1024 + 64 * i) (enc_inode n)\<rparr>"
  have t: "fs_ok t" "fsd t = fsd s" using assms(1) p(2) by (auto simp: t_def fs_ok_def)
  have "j \<noteq> i \<Longrightarrow> 1024 + 64 * j + 64 \<le> 1024 + 64 * i \<or> 1024 + 64 * i + 64 \<le> 1024 + 64 * j" by linarith
  then have "inode_at j t = (if j = i then n else inode_at j s)"
    using length_enc_inode[OF l] dec_enc_inode[OF assms(2)]
    by (auto simp: inode_at_def t_def chars_at_put_same chars_at_put_other)
  then show ?thesis using fs_get_inode_ok[of t j] t assms(5,6) p(1) unfolding t_def[symmetric] by auto
qed

lemma inode_table_witness:
  "\<exists>s' s''. fs_put_inode_by_num 0 3 demo_inode demo_fs = Some (OK, s') \<and> fs_ok s' \<and>
    fs_get_inode_by_num 0 3 s' = Some (OK, Some demo_inode, s'')"
  using inode_table[OF demo_fs_ok(1,3), of 3 3] by (simp add: demo_fs_def)



text \<open>A new file system hands out for data a block that holds inodes: after fs_mkfs only the blocks 0
  and 1 are marked and the search of fs_write starts at block 0, so the first block that it finds is
  block 2, the block of inode 0, before FIRST_DATA_BLOCK.\<close>

lemma first_data_is_inodes:
  assumes "dev0_blocksize s = 512" "dev0_numblocks s = 512" "dev0_bytes s = 262144"
    and "length (entries (root_dir (fsd s))) = 16" "\<forall>e \<in> set (entries (root_dir (fsd s))). length (fname e) = 32"
    and "getmem 64 (fheap s) = Some (a, h)" "a \<noteq> u32 SYSERR" and k: "1 \<le> k" "k \<le> 1024" and n: "next_free_data_block s = 0"
  shows "\<exists>s' b. fs_mkfs 0 k s = Some (1, s') \<and> find_block None s' = Some (Some 0, s'\<lparr>next_free_data_block := b\<rparr>) \<and>
    inode_place 0 s' = Some (b, 0) \<and> (\<forall>first. FIRST_DATA_BLOCK s' = Some first \<longrightarrow> b < first)"
proof -
  obtain D F where m: "fs_mkfs 0 k s = Some (1, s\<lparr>fheap := h, freemask := new_mask, dev0_blocks := D, fsd := F\<rparr>)"
    and F: "nblocks F = 512" "blocksz F = 512" "ninodes F = k"
    by (rule fs_mkfs_ok[OF assms(1-7) k(1)])
  define t where "t = s\<lparr>fheap := h, freemask := new_mask, dev0_blocks := D, fsd := F\<rparr>"
  define u where "u j = t\<lparr>next_free_data_block := j\<rparr>" for j
  have t: "fsd t = F" "u 0 = t" "next_free_data_block (u j) = j" "fsd (u j) = F" "freemask (u j) = new_mask" for j
    using n by (simp_all add: t_def u_def)
  define first where "first = 2 + (if k mod 8 = 0 then k div 8 else k div 8 + 1)"
  have "2 < first \<and> first \<le> 130" using k unfolding first_def by presburger
  then have f1: "2 < first" "first \<le> 130" by simp_all
  have f: "FIRST_DATA_BLOCK t = Some first"
    using F k t(1) f1 by (auto simp: FIRST_DATA_BLOCK_def NUM_INODE_BLOCKS_def INODES_PER_BLOCK_def u32_id Let_def first_def i32_id)
  have step: "j < 2 \<Longrightarrow> 0 \<le> j \<Longrightarrow> i < 512 \<Longrightarrow> find_block_iter first (i, x, u j) = Some (Inl (i + 1, Some 1, u (j + 1)))" for i j x
    using new_mask_bits[OF t(5)[of j]] F t(3,4)[of j] by (cases "j = 0"; cases "j = 1") (auto simp: find_block_iter_def MDEV_NUM_BLOCKS_def u_def)
  have fin: "i < 512 \<Longrightarrow> find_block_iter first (i, x, u 2) = Some (Inr (Some 0, u 2))" for i x
    using new_mask_bits[OF t(5)[of 2]] F t(3,4)[of 2] by (simp add: find_block_iter_def)
  have "c_loop (find_block_iter first) (first, None, u 0) = Some (Some 0, u 2)"
    using f1 step[of 0 first None] step[of 1 "first + 1" "Some 1"] fin[of "first + 1 + 1" "Some 1"]
    by (simp add: c_loop_Inl c_loop_Inr)
  then have "find_block None t = Some (Some 0, t\<lparr>next_free_data_block := 2\<rparr>)" using f t(2) by (simp add: find_block_def u_def)
  moreover have "inode_place 0 t = Some (2, 0)"
    using F t(1) by (simp add: inode_place_def INODES_PER_BLOCK_def FIRST_INODE_BLOCK_def u32_def i32_id Let_def)
  ultimately show ?thesis using m f f1(1) unfolding t_def[symmetric] by auto
qed

lemma first_data_is_inodes_witness:
  "\<exists>s' b. fs_mkfs 0 16 demo_fs = Some (1, s') \<and> find_block None s' = Some (Some 0, s'\<lparr>next_free_data_block := b\<rparr>) \<and>
    inode_place 0 s' = Some (b, 0) \<and> (\<forall>first. FIRST_DATA_BLOCK s' = Some first \<longrightarrow> b < first)"
proof -
  define h where "h = fheap demo_fs"
  have "getmem_iter 64 h (8, 4096) = Some (Inr (4096, sub_total 64 (set_mlength 4160 (8192 - 64) (set_mnext 4160 0 (set_mnext 8 4160 h)))))"
    by (simp add: getmem_iter_def h_def demo_fs_def NULL_def mlength_def mnext_def u32_def set_mnext_def set_mlength_def Let_def)
  then have g: "getmem 64 h = Some (4096, sub_total 64 (set_mlength 4160 (8192 - 64) (set_mnext 4160 0 (set_mnext 8 4160 h))))"
    by (simp add: getmem_def roundmb_def u32_def Let_def c_loop_Inr h_def demo_fs_def mnext_def)
  show ?thesis
    by (rule first_data_is_inodes[OF _ _ _ _ _ g[unfolded h_def]]) (simp_all add: demo_fs_def u32_def)
qed

end
