(* ===== verification/Fs_Type.thy ===== *)
theory Fs_Type
  imports Fs_Files
begin

text \<open>
  Every call of the simple file system keeps the variables of the file system within their C types
  and tables: numbers within an int, bytes within a byte, arrays at their lengths, cursors and
  indices inside the tables.
\<close>

section \<open>Types\<close>

abbreviation is_byte :: "int \<Rightarrow> bool" where
  "is_byte x \<equiv> 0 \<le> x \<and> x < 256"

definition fd_typed :: "filetable \<Rightarrow> bool" where
  "fd_typed f \<longleftrightarrow> 0 \<le> ft_fileptr f \<and> ft_fileptr f \<le> 6656 \<and> ft_de f < DIRECTORY_SIZE \<and> inode_ok (ft_in f)"

definition dir_typed :: "fdirectory \<Rightarrow> bool" where
  "dir_typed d \<longleftrightarrow> 0 \<le> numentries d \<and> numentries d \<le> 16 \<and> length (entries d) = 16 \<and>
     (\<forall>e \<in> set (entries d). length (fname e) = FILENAMELEN \<and> i32 (inode_num e) = inode_num e)"

definition fs_typed :: "fsst \<Rightarrow> bool" where
  "fs_typed s \<longleftrightarrow> length (block_cache s) = 512 \<and> (\<forall>b \<in> set (block_cache s). is_byte b) \<and>
     length (oft s) = 16 \<and> (\<forall>f \<in> set (oft s). fd_typed f) \<and> dir_typed (root_dir (fsd s)) \<and>
     (\<forall>b \<in> set (freemask s). is_byte b) \<and> (\<forall>a. is_byte (dev0_blocks s a)) \<and>
     0 \<le> next_open_fd s \<and> next_open_fd s < NUM_FD \<and> 0 \<le> next_free_inode s \<and> next_free_inode s \<le> INT_MAX \<and>
     INT_MIN \<le> next_free_data_block s \<and> next_free_data_block s \<le> INT_MAX \<and> ninodes (fsd s) \<le> INT_MAX"

text \<open>What does not change: the geometry of the device and the length of the mask.\<close>

definition same_device :: "fsst \<Rightarrow> fsst \<Rightarrow> bool" where
  "same_device s t \<longleftrightarrow> dev0_numblocks t = dev0_numblocks s \<and> dev0_blocksize t = dev0_blocksize s \<and> dev0_bytes t = dev0_bytes s \<and>
     nblocks (fsd t) = nblocks (fsd s) \<and> blocksz (fsd t) = blocksz (fsd s) \<and> ninodes (fsd t) = ninodes (fsd s) \<and>
     length (freemask t) = length (freemask s)"

definition keeps :: "fsst \<Rightarrow> fsst \<Rightarrow> bool" where
  "keeps s t \<longleftrightarrow> (fs_typed s \<longrightarrow> fs_typed t \<and> same_device s t)"

lemma keeps_refl [simp, intro]: "keeps s s"
  by (simp add: keeps_def same_device_def)

lemma keeps_trans [trans]: "keeps s t \<Longrightarrow> keeps t u \<Longrightarrow> keeps s u"
  by (simp add: keeps_def same_device_def)

lemma keepsD: "keeps s t \<Longrightarrow> fs_typed s \<Longrightarrow> fs_typed t"
  by (simp add: keeps_def)

lemma fs_typedD:
  assumes "fs_typed s"
  shows "dir_typed (root_dir (fsd s))" "\<forall>x \<in> set (freemask s). is_byte x"
  using assms by (simp_all add: fs_typed_def)

lemma typed_index: "fs_typed s \<Longrightarrow> at_index (oft s) fd \<noteq> None \<longleftrightarrow> 0 \<le> fd \<and> fd < 16"
  by (auto simp: fs_typed_def at_index_def elem_at_def)

lemma keepsI: "(fs_typed s \<Longrightarrow> keeps s t) \<Longrightarrow> keeps s t"
  by (auto simp: keeps_def)

section \<open>Bytes\<close>

lemma byte_list: "\<forall>b \<in> set (le32 x). is_byte b" "\<forall>b \<in> set (le16 x). is_byte b"
  by (auto simp: le32_def le16_def)

lemma enc_inode_bytes: "\<forall>b \<in> set (enc_inode n). is_byte b"
  using byte_list by (auto simp: enc_inode_def)

lemma put_bytes: "\<forall>a. is_byte (m a) \<Longrightarrow> \<forall>b \<in> set bs. is_byte b \<Longrightarrow> is_byte (put m a bs x)"
  by (auto simp: put_def)

lemma i32_idem: "i32 (i32 x) = i32 x"
  using i32_range[of x] by (simp add: i32_id)

lemma i16_idem: "i16 (i16 x) = i16 x"
proof -
  have "0 \<le> (x + 32768) mod 65536" "(x + 32768) mod 65536 < 65536" by simp_all
  then show ?thesis by (simp add: i16_def)
qed

lemma dec_inode_ok: "inode_ok (dec_inode bs)"
  by (auto simp: inode_ok_def dec_inode_def i32_idem i16_idem INODEBLOCKS_def)

section \<open>The block store and the inodes\<close>

lemma bs_bread_bytes:
  assumes "bs_bread d b off len s = Some (r, bs)" "fs_typed s"
  shows "\<forall>x \<in> set bs. is_byte x" and "length bs \<le> nat len"
  using assms by (auto simp: bs_bread_def fs_typed_def bind_eq_Some_conv split: if_splits)

lemma bs_bwrite_keeps:
  assumes "bs_bwrite d b off bs s = Some (r, t)" "\<forall>x \<in> set bs. is_byte x"
  shows "keeps s t"
  using assms by (auto simp: bs_bwrite_def keeps_def fs_typed_def same_device_def bind_eq_Some_conv put_bytes split: if_splits)

lemma keeps_cache:
  assumes "fs_typed s \<Longrightarrow> length cb = 512 \<and> (\<forall>x \<in> set cb. is_byte x)"
  shows "keeps s (s\<lparr>block_cache := cb\<rparr>)"
proof -
  have "fs_typed (s\<lparr>block_cache := cb\<rparr>)" if "fs_typed s"
    using that assms[OF that] unfolding fs_typed_def by simp
  then show ?thesis by (simp add: keeps_def same_device_def)
qed

lemma cache_block_keeps:
  assumes "cache_block b s = Some t"
  shows "keeps s t"
proof -
  obtain r bs where r: "bs_bread 0 b 0 (blocksz (fsd s)) s = Some (r, bs)" and b: "blocksz (fsd s) \<le> 512"
    and t: "t = s\<lparr>block_cache := bs @ drop (length bs) (block_cache s)\<rparr>"
    using assms by (auto simp: cache_block_def bind_eq_Some_conv split: if_splits)
  define cb where "cb = bs @ drop (length bs) (block_cache s)"
  have cb: "length cb = 512 \<and> (\<forall>x \<in> set cb. is_byte x)" if ty: "fs_typed s"
  proof -
    have c: "length (block_cache s) = 512" "\<forall>x \<in> set (block_cache s). is_byte x" using ty by (auto simp: fs_typed_def)
    have "length bs \<le> 512" using bs_bread_bytes(2)[OF r ty] b by linarith
    then show ?thesis using c bs_bread_bytes(1)[OF r ty] in_set_dropD[of _ "length bs" "block_cache s"] by (auto simp: cb_def)
  qed
  then have "keeps s (s\<lparr>block_cache := cb\<rparr>)" by (rule keeps_cache)
  then show ?thesis by (simp only: t cb_def)
qed

lemma fs_get_inode_keeps:
  assumes "fs_get_inode_by_num d i s = Some (r, x, t)"
  shows "keeps s t" and "x = Some n \<Longrightarrow> inode_ok n"
  using assms by (auto simp: fs_get_inode_by_num_def bind_eq_Some_conv cache_block_keeps dec_inode_ok split: if_splits)

lemma fs_put_inode_keeps:
  assumes "fs_put_inode_by_num d i n s = Some (r, t)" "length (in_blocks n) = 12"
  shows "keeps s t"
proof (cases "d \<noteq> 0 \<or> i > ninodes (fsd s)")
  case True
  then show ?thesis using assms(1) by (simp add: fs_put_inode_by_num_def)
next
  case False
  then obtain bl off u r' where c: "cache_block bl s = Some u" and no: "\<not> 448 < off"
    and w: "bs_bwrite 0 bl 0 (take (nat (blocksz (fsd u))) (take off (block_cache u) @ enc_inode n @ drop (off + 64) (block_cache u)))
      (u\<lparr>block_cache := take off (block_cache u) @ enc_inode n @ drop (off + 64) (block_cache u)\<rparr>) = Some (r', t)"
    using assms(1) by (auto simp: fs_put_inode_by_num_def bind_eq_Some_conv Let_def simp del: take_append split: if_splits)
  have off: "off + 64 \<le> 512" using no by simp
  define cb where "cb = take off (block_cache u) @ enc_inode n @ drop (off + 64) (block_cache u)"
  have cb: "length cb = 512 \<and> (\<forall>x \<in> set cb. is_byte x)" if ty: "fs_typed u"
  proof -
    have "length (block_cache u) = 512" "\<forall>x \<in> set (block_cache u). is_byte x" using ty by (auto simp: fs_typed_def)
    then show ?thesis
      using off length_enc_inode[OF assms(2)] enc_inode_bytes[of n] in_set_dropD[of _ "off + 64" "block_cache u"] in_set_takeD[of _ off "block_cache u"]
      by (auto simp: cb_def)
  qed
  then have k: "keeps u (u\<lparr>block_cache := cb\<rparr>)" by (rule keeps_cache)
  show ?thesis
  proof (rule keepsI)
    assume ty: "fs_typed s"
    have su: "keeps s u" by (rule cache_block_keeps[OF c])
    then have "\<forall>x \<in> set (take (nat (blocksz (fsd u))) cb). is_byte x" using cb ty in_set_takeD[of _ _ cb] by (auto simp: keeps_def)
    then have "keeps (u\<lparr>block_cache := cb\<rparr>) t" using bs_bwrite_keeps[OF w[folded cb_def]] by blast
    then show "keeps s t" using keeps_trans[OF keeps_trans[OF su k]] by blast
  qed
qed

section \<open>The mask and the file table\<close>

lemma or_byte: "is_byte x \<Longrightarrow> k \<le> 7 \<Longrightarrow> is_byte (x OR drop_bit k 128)"
proof -
  assume x: "is_byte x" and k: "k \<le> 7"
  have d: "drop_bit k 128 = (128 div 2 ^ k :: int)" by (simp add: drop_bit_eq_div)
  have "(128 div 2 ^ k :: int) < 2 ^ 8" "0 \<le> (128 div 2 ^ k :: int)"
    using zdiv_mono2[of 128 1 "2 ^ k"] by (simp_all add: pos_imp_zdiv_nonneg_iff)
  then have "x OR drop_bit k 128 < 2 ^ 8" unfolding d using x by (intro OR_upper) simp_all
  then show ?thesis using x \<open>0 \<le> 128 div 2 ^ k\<close> d by simp
qed

lemma and_byte: "is_byte x \<Longrightarrow> is_byte (x AND y)"
  using AND_upper1[of x y] by auto

lemma keeps_mask:
  assumes "b' < length (freemask s)" "fs_typed s \<Longrightarrow> is_byte (freemask s ! b') \<Longrightarrow> is_byte x"
  shows "keeps s (s\<lparr>freemask := (freemask s)[b' := x]\<rparr>)"
proof -
  have "fs_typed (s\<lparr>freemask := (freemask s)[b' := x]\<rparr>)" if ty: "fs_typed s"
  proof -
    have m: "\<forall>b \<in> set (freemask s). is_byte b" using ty by (simp add: fs_typed_def)
    then have "is_byte x" using assms nth_mem[OF assms(1)] ty by blast
    then have "\<forall>b \<in> set ((freemask s)[b' := x]). is_byte b"
      using m set_update_subset_insert[of "freemask s" b' x] by blast
    then show ?thesis using ty unfolding fs_typed_def by simp
  qed
  then show ?thesis by (simp add: keeps_def same_device_def)
qed

lemma setmask_keeps:
  assumes "fs_setmaskbit b s = Some t"
  shows "keeps s t"
proof -
  have k: "nat (b mod 8) \<le> 7" by linarith
  have "nat (b div 8) < length (freemask s)"
    and t: "t = s\<lparr>freemask := (freemask s)[nat (b div 8) := freemask s ! nat (b div 8) OR drop_bit (nat (b mod 8)) 128]\<rparr>"
    using assms by (auto simp: fs_setmaskbit_def at_index_def elem_at_def bind_eq_Some_conv split: if_splits)
  then show ?thesis unfolding t using or_byte[OF _ k] by (intro keeps_mask)
qed

lemma clearmask_keeps:
  assumes "fs_clearmaskbit b s = Some t"
  shows "keeps s t"
proof -
  obtain y where "nat (b div 8) < length (freemask s)"
    and t: "t = s\<lparr>freemask := (freemask s)[nat (b div 8) := freemask s ! nat (b div 8) AND y]\<rparr>"
    using assms by (auto simp: fs_clearmaskbit_def at_index_def elem_at_def bind_eq_Some_conv split: if_splits)
  then show ?thesis unfolding t using and_byte by (intro keeps_mask)
qed

lemma typed_fd: "fs_typed s \<Longrightarrow> at_index (oft s) fd = Some f \<Longrightarrow> fd_typed f"
  by (auto simp: fs_typed_def at_index_def elem_at_def split: if_splits)

lemma upd_fd_keeps:
  assumes "at_index (oft s) fd = Some f" "fd_typed f \<Longrightarrow> fd_typed (g f)"
  shows "keeps s (upd_fd fd g s)"
proof -
  have f: "oft s ! nat fd = f" using assms(1) by (auto simp: at_index_def elem_at_def split: if_splits)
  have "fs_typed (upd_fd fd g s)" if ty: "fs_typed s"
  proof -
    have "\<forall>h \<in> set ((oft s)[nat fd := g f]). fd_typed h"
      using ty assms(2)[OF typed_fd[OF ty assms(1)]] set_update_subset_insert[of "oft s" "nat fd" "g f"] unfolding fs_typed_def by blast
    then show ?thesis using ty unfolding fs_typed_def upd_fd_def f by simp
  qed
  then show ?thesis by (simp add: keeps_def same_device_def upd_fd_def)
qed

lemma set_inode_keeps:
  assumes "at_index (oft s) fd = Some f" "\<And>n. x = Some n \<Longrightarrow> inode_ok n"
  shows "keeps s (set_inode fd x s)"
  using assms upd_fd_keeps[OF assms(1)] by (cases x) (auto simp: set_inode_def fd_typed_def)

text \<open>Cursors.\<close>

lemma keeps_open_fd: "0 \<le> p \<Longrightarrow> p < NUM_FD \<Longrightarrow> keeps s (s\<lparr>next_open_fd := p\<rparr>)"
  by (simp add: keeps_def same_device_def fs_typed_def)

lemma keeps_free_inode: "0 \<le> p \<Longrightarrow> p \<le> INT_MAX \<Longrightarrow> keeps s (s\<lparr>next_free_inode := p\<rparr>)"
  by (simp add: keeps_def same_device_def fs_typed_def)

lemma keeps_free_block: "INT_MIN \<le> p \<Longrightarrow> p \<le> INT_MAX \<Longrightarrow> keeps s (s\<lparr>next_free_data_block := p\<rparr>)"
  by (simp add: keeps_def same_device_def fs_typed_def)

text \<open>A loop keeps what each of its iterations keeps.\<close>

lemma c_loop_keeps:
  assumes "c_loop f x = Some r" "\<And>x y. f x = Some (Inl y) \<Longrightarrow> keeps (st x) (st y)" "\<And>x r. f x = Some (Inr r) \<Longrightarrow> keeps (st x) (res r)"
  shows "keeps (st x) (res r)"
  using assms(1)
proof (rule c_loop_inv[where P = "\<lambda>y. keeps (st x) (st y)" and Q = "\<lambda>r. keeps (st x) (res r)"])
qed (use assms(2,3) keeps_trans in blast)+

lemma find_fd_keeps:
  assumes "find_fd s = Some t"
  shows "keeps s t"
proof -
  have "keeps u v" if "find_fd_iter (i, u) = Some (Inl (j, v))" for i j u v
  proof (rule keepsI)
    show "keeps u v" if "fs_typed u"
      using \<open>find_fd_iter (i, u) = Some (Inl (j, v))\<close> that
      by (auto simp: find_fd_iter_def bind_eq_Some_conv fs_typed_def NUM_FD_def intro!: keeps_open_fd split: if_splits)
  qed
  then have go: "find_fd_iter x = Some (Inl y) \<Longrightarrow> keeps (snd x) (snd y)" for x y by (cases x; cases y) simp
  have stop: "find_fd_iter (i, u) = Some (Inr r) \<Longrightarrow> r = u" for i u r
    by (auto simp: find_fd_iter_def bind_eq_Some_conv split: if_splits)
  have out: "find_fd_iter x = Some (Inr r) \<Longrightarrow> keeps (snd x) (id r)" for x r by (cases x) (auto dest: stop)
  from c_loop_keeps[of find_fd_iter "(0, s)" t snd id, OF assms[unfolded find_fd_def] go out] show ?thesis by simp
qed

section \<open>The calls\<close>

lemma fs_open_keeps:
  assumes "fs_open m name flags s = Some (r, t)"
  shows "keeps s t"
proof (cases "(0 \<le> flags \<and> flags \<le> 2) \<and> find_dirent m name s \<noteq> None")
  case False
  then show ?thesis using assms by (auto simp: fs_open_def split: if_splits)
next
  case True
  then obtain d where d: "find_dirent m name s = Some d" by blast
  have d16: "d < DIRECTORY_SIZE" using d by (auto simp: find_dirent_def find_Some_iff)
  obtain u f where u: "find_fd s = Some u" "at_index (oft u) (next_open_fd u) = Some f"
    using assms True d by (auto simp: fs_open_def bind_eq_Some_conv Let_def)
  have su: "keeps s u" by (rule find_fd_keeps[OF u(1)])
  show ?thesis
  proof (cases "ft_state f = FSTATE_CLOSED")
    case False
    then have "t = u" using assms True d u by (simp add: fs_open_def Let_def)
    then show ?thesis using su by simp
  next
    case closed: True
    define v where "v = upd_fd (next_open_fd u) (\<lambda>f. f\<lparr>ft_state := FSTATE_OPEN, ft_fileptr := 0, ft_de := d\<rparr>) u"
    obtain r1 x w where g: "fs_get_inode_by_num 0 (inode_num (entries (root_dir (fsd v)) ! d)) v = Some (r1, x, w)"
      and t: "t = set_inode (next_open_fd u) x w"
      using assms True d u closed by (auto simp: fs_open_def bind_eq_Some_conv Let_def v_def)
    have uv: "keeps u v" unfolding v_def using d16 by (intro upd_fd_keeps[OF u(2)]) (simp add: fd_typed_def)
    have vw: "keeps v w" by (rule fs_get_inode_keeps(1)[OF g])
    have "oft w = oft v" using g by (auto simp: fs_get_inode_by_num_def cache_block_def bind_eq_Some_conv split: if_splits)
    moreover have "\<exists>h. at_index (oft v) (next_open_fd u) = Some h"
      using u(2) by (auto simp: v_def upd_fd_def at_index_def elem_at_def split: if_splits)
    ultimately obtain h where "at_index (oft w) (next_open_fd u) = Some h" by auto
    then have "keeps w t" unfolding t using fs_get_inode_keeps(2)[OF g] by (rule set_inode_keeps)
    then show ?thesis using su uv vw keeps_trans by blast
  qed
qed

lemma fs_close_keeps:
  assumes "fs_close fd s = Some (r, t)"
  shows "keeps s t"
proof -
  obtain f where f: "at_index (oft s) fd = Some f" using assms by (auto simp: fs_close_def bind_eq_Some_conv)
  define u where "u = upd_fd fd (\<lambda>f. f\<lparr>ft_state := FSTATE_CLOSED\<rparr>) s"
  have u: "keeps s u" unfolding u_def by (rule upd_fd_keeps[OF f]) (simp add: fd_typed_def)
  have "keeps u (u\<lparr>fheap := h\<rparr>)" for h by (simp add: keeps_def same_device_def fs_typed_def)
  then show ?thesis using assms f u keeps_trans
    by (auto simp: fs_close_def bind_eq_Some_conv u_def[symmetric] Let_def split: if_splits)
qed

lemma fs_seek_keeps: "fs_seek fd off s = Some (r, t) \<Longrightarrow> keeps s t"
  by (auto simp: fs_seek_def bind_eq_Some_conv Let_def split: if_splits)

lemma file_block_pos: "file_block f = Some b \<Longrightarrow> inode_ok (ft_in f) \<Longrightarrow> 0 \<le> ft_fileptr f \<and> ft_fileptr f < 6144"
  by (auto simp: file_block_def at_index_def elem_at_def MDEV_BLOCK_SIZE_def inode_ok_def split: if_splits)

lemma advance_keeps:
  assumes "at_index (oft s) fd = Some f" "file_block f = Some b" "0 \<le> n" "n \<le> 512"
  shows "keeps s (upd_fd fd (\<lambda>f. f\<lparr>ft_fileptr := ft_fileptr f + n\<rparr>) s)"
proof (rule upd_fd_keeps[OF assms(1)])
  assume "fd_typed f"
  then show "fd_typed (f\<lparr>ft_fileptr := ft_fileptr f + n\<rparr>)"
    using file_block_pos[OF assms(2)] assms(3,4) by (auto simp: fd_typed_def)
qed

lemma fs_read_keeps:
  assumes "fs_read fd buf n m s = Some (r, m', t)"
  shows "keeps s t"
proof -
  have "keeps u v" if st: "fs_read_iter fd buf N (k, tr, m, u) = Some (Inl (k', tr', m', v))" for N k tr m u k' tr' m' v
  proof -
    obtain f b where f: "at_index (oft u) fd = Some f" "file_block f = Some b"
      using st by (auto simp: fs_read_iter_def bind_eq_Some_conv split: if_splits)
    define len where "len = (if k < MDEV_BLOCK_SIZE then k else MDEV_BLOCK_SIZE)"
    have v: "v = upd_fd fd (\<lambda>f. f\<lparr>ft_fileptr := ft_fileptr f + len\<rparr>) u" and k: "0 < k"
      using st f by (auto simp: fs_read_iter_def bind_eq_Some_conv Let_def len_def split: if_splits)
    have "0 \<le> len" "len \<le> 512" using k by (auto simp: len_def MDEV_BLOCK_SIZE_def)
    then show ?thesis unfolding v by (rule advance_keeps[OF f])
  qed
  then have go: "fs_read_iter fd buf n x = Some (Inl y) \<Longrightarrow> keeps (snd (snd (snd x))) (snd (snd (snd y)))" for x y
    by (cases x; cases y) auto
  have stop: "fs_read_iter fd buf n (k, tr, m, u) = Some (Inr (r, m', v)) \<Longrightarrow> v = u" for k tr m u r m' v
    by (auto simp: fs_read_iter_def bind_eq_Some_conv Let_def split: if_splits)
  have out: "fs_read_iter fd buf n x = Some (Inr r) \<Longrightarrow> keeps (snd (snd (snd x))) (snd (snd r))" for x r
    by (cases x; cases r) (auto dest: stop)
  consider "t = s" | m1 where "c_loop (fs_read_iter fd buf n) (n, 0, m1, s) = Some (r, m', t)"
    using assms by (auto simp: fs_read_def bind_eq_Some_conv Let_def split: if_splits)
  then show ?thesis
  proof cases
    case 2
    from c_loop_keeps[of "fs_read_iter fd buf n" _ _ "\<lambda>x. snd (snd (snd x))" "\<lambda>r. snd (snd r)", OF 2 go out] show ?thesis by simp
  qed simp
qed

lemma typed_free_inode: "fs_typed s \<Longrightarrow> 0 \<le> next_free_inode s \<and> next_free_inode s \<le> INT_MAX \<and> ninodes (fsd s) \<le> INT_MAX"
  by (simp add: fs_typed_def)

lemma get_inode_frame:
  assumes "fs_get_inode_by_num d i s = Some (r, x, t)"
  shows "oft t = oft s" "next_free_inode t = next_free_inode s" "fsd t = fsd s"
  using assms by (auto simp: fs_get_inode_by_num_def cache_block_def bind_eq_Some_conv split: if_splits)

lemma upd_fd_index: "at_index (oft (upd_fd fd g s)) fd = map_option g (at_index (oft s) fd)"
  by (auto simp: upd_fd_def at_index_def elem_at_def)

lemma set_inode_index: "at_index (oft (set_inode fd z s)) fd = None \<longleftrightarrow> at_index (oft s) fd = None"
  by (cases z) (auto simp: set_inode_def upd_fd_index)

lemma find_inode_step:
  assumes "find_inode_iter fd (i, u) = Some (Inl (j, v))" "at_index (oft u) fd \<noteq> None"
  shows "keeps u v \<and> at_index (oft v) fd \<noteq> None"
proof -
  obtain r x w where g: "fs_get_inode_by_num 0 (next_free_inode u) u = Some (r, x, w)"
    using assms(1) by (auto simp: find_inode_iter_def bind_eq_Some_conv split: if_splits)
  define y where "y = set_inode fd x w"
  obtain f where "at_index (oft w) fd = Some f" using assms(2) get_inode_frame(1)[OF g] by auto
  then have wy: "keeps w y" unfolding y_def using fs_get_inode_keeps(2)[OF g] by (rule set_inode_keeps)
  have a: "at_index (oft y) fd \<noteq> None"
    using assms(2) get_inode_frame(1)[OF g] by (simp add: y_def set_inode_index)
  define p where "p = (if next_free_inode y + 1 \<ge> ninodes (fsd y) then 0 else next_free_inode y + 1)"
  have v: "v = y\<lparr>next_free_inode := p\<rparr>"
    using assms(1) g by (auto simp: find_inode_iter_def bind_eq_Some_conv y_def[symmetric] p_def Let_def split: if_splits)
  have "keeps y v"
  proof (rule keepsI)
    assume "fs_typed y"
    then have "0 \<le> p" "p \<le> INT_MAX" using typed_free_inode[of y] by (auto simp: p_def)
    then show "keeps y v" unfolding v by (rule keeps_free_inode)
  qed
  from keeps_trans[OF keeps_trans[OF fs_get_inode_keeps(1)[OF g] wy] this] show ?thesis using a by (simp add: v)
qed

lemma find_inode_keeps:
  assumes "c_loop (find_inode_iter fd) (i, s) = Some t" "at_index (oft s) fd \<noteq> None"
  shows "keeps s t \<and> at_index (oft t) fd \<noteq> None"
proof (rule c_loop_inv[OF assms(1), where P = "\<lambda>(i, u). keeps s u \<and> at_index (oft u) fd \<noteq> None"])
  show "case (i, s) of (i, u) \<Rightarrow> keeps s u \<and> at_index (oft u) fd \<noteq> None" using assms(2) by simp
next
  fix x y assume "case x of (i, u) \<Rightarrow> keeps s u \<and> at_index (oft u) fd \<noteq> None" "find_inode_iter fd x = Some (Inl y)"
  then show "case y of (i, u) \<Rightarrow> keeps s u \<and> at_index (oft u) fd \<noteq> None"
    using find_inode_step keeps_trans by (cases x; cases y) blast
next
  fix x r assume P: "case x of (i, u) \<Rightarrow> keeps s u \<and> at_index (oft u) fd \<noteq> None" and f: "find_inode_iter fd x = Some (Inr r)"
  obtain i u where x: "x = (i, u)" by fastforce
  show "keeps s r \<and> at_index (oft r) fd \<noteq> None"
  proof (cases "i < ninodes (fsd u)")
    case False
    then show ?thesis using P f by (simp add: find_inode_iter_def x)
  next
    case True
    then obtain q z w where g: "fs_get_inode_by_num 0 (next_free_inode u) u = Some (q, z, w)"
      and r: "r = set_inode fd z w"
      using f by (auto simp: find_inode_iter_def bind_eq_Some_conv x Let_def split: if_splits)
    obtain h where "at_index (oft w) fd = Some h" using P get_inode_frame(1)[OF g] by (auto simp: x)
    then have wr: "keeps w r" unfolding r using fs_get_inode_keeps(2)[OF g] by (rule set_inode_keeps)
    have su: "keeps s u" using P by (simp add: x)
    have "at_index (oft r) fd \<noteq> None"
      using P get_inode_frame(1)[OF g] by (simp add: r x set_inode_index)
    then show ?thesis using keeps_trans[OF keeps_trans[OF su fs_get_inode_keeps(1)[OF g]] wr] by blast
  qed
qed

lemma upd_entry_keeps:
  assumes "at_index (entries (root_dir (fsd s))) (int d) \<noteq> None" "length (fname e) = FILENAMELEN" "fs_typed s \<Longrightarrow> i32 (inode_num e) = inode_num e"
  shows "keeps s (upd_dir_entry d e s)"
proof -
  have "fs_typed (upd_dir_entry d e s)" if ty: "fs_typed s"
  proof -
    have "dir_typed (root_dir (fsd s))" using ty by (simp add: fs_typed_def)
    then have "dir_typed ((root_dir (fsd s))\<lparr>entries := (entries (root_dir (fsd s)))[d := e]\<rparr>)"
      using set_update_subset_insert[of "entries (root_dir (fsd s))" d e] assms(2) assms(3)[OF ty] by (auto simp: dir_typed_def)
    then show ?thesis using ty unfolding fs_typed_def upd_dir_entry_def by simp
  qed
  then show ?thesis by (simp add: keeps_def same_device_def upd_dir_entry_def)
qed

lemma length_name_chars: "length (name_chars n m p) = n"
  by (induction n arbitrary: p) simp_all

lemma create_file_keeps:
  assumes c: "create_file fd d nm s = Some (r, t)" and f: "at_index (oft s) fd \<noteq> None"
    and d: "d < DIRECTORY_SIZE" "d < length (entries (root_dir (fsd s)))" and nm: "length nm = FILENAMELEN"
  shows "keeps s t"
proof (rule keepsI)
  define s1 where "s1 = upd_fd fd (\<lambda>f. f\<lparr>ft_state := FSTATE_OPEN, ft_fileptr := 0, ft_de := d\<rparr>) s"
  obtain s2 where lp: "c_loop (find_inode_iter fd) (0, s1) = Some s2"
    using c by (auto simp: create_file_def s1_def bind_eq_Some_conv Let_def)
  define i where "i = next_free_inode s2"
  define s3 where "s3 = upd_fd fd (\<lambda>f. f\<lparr>ft_in := (ft_in f)\<lparr>in_id := i, in_type := INODE_TYPE_FILE, in_nlink := 0, in_device := 0, in_size := 0\<rparr>\<rparr>) s2"
  define s4 where "s4 = upd_dir_entry d \<lparr>inode_num = i, fname = nm\<rparr> s3"
  define s5 where "s5 = s4\<lparr>fsd := (fsd s4)\<lparr>inodes_used := inodes_used (fsd s4) + 1\<rparr>\<rparr>"
  obtain q where p: "fs_put_inode_by_num 0 i (ft_in (oft s5 ! nat fd)) s5 = Some (q, t)"
    using c lp unfolding create_file_def Let_def s1_def[symmetric] by (auto simp: bind_eq_Some_conv i_def s3_def s4_def s5_def)
  obtain f1 where f1: "at_index (oft s) fd = Some f1" using f by blast
  have s1: "keeps s s1" unfolding s1_def using d(1) by (intro upd_fd_keeps[OF f1]) (simp add: fd_typed_def)
  have "at_index (oft s1) fd \<noteq> None" using f by (simp add: s1_def upd_fd_index)
  from find_inode_keeps[OF lp this] obtain f2 where s2: "keeps s1 s2" and f2: "at_index (oft s2) fd = Some f2" by blast
  assume ty: "fs_typed s"
  have t2: "fs_typed s2" using ty s1 s2 by (simp add: keeps_def)
  have i: "i32 i = i" using t2 unfolding fs_typed_def i_def by (auto intro: i32_id)
  have s3: "keeps s2 s3" unfolding s3_def
    using i by (intro upd_fd_keeps[OF f2]) (simp add: fd_typed_def inode_ok_def i32_def i16_def INODE_TYPE_FILE_def)
  have t3: "fs_typed s3" using t2 s3 by (simp add: keeps_def)
  have "at_index (entries (root_dir (fsd s3))) (int d) \<noteq> None"
    using t3 d(1) by (simp add: fs_typed_def dir_typed_def at_index_def elem_at_def DIRECTORY_SIZE_def)
  then have s4: "keeps s3 s4" unfolding s4_def using nm i by (intro upd_entry_keeps) simp_all
  have s5: "keeps s4 s5" by (simp add: keeps_def s5_def fs_typed_def same_device_def)
  have t5: "fs_typed s5" using t3 s4 s5 by (simp add: keeps_def)
  have "at_index (oft s5) fd \<noteq> None"
    using f2 by (simp add: s5_def s4_def upd_dir_entry_def s3_def upd_fd_index)
  then have "at_index (oft s5) fd = Some (oft s5 ! nat fd)" by (auto simp: at_index_def elem_at_def split: if_splits)
  from typed_fd[OF t5 this] have "length (in_blocks (ft_in (oft s5 ! nat fd))) = 12" by (simp add: fd_typed_def inode_ok_def)
  from fs_put_inode_keeps[OF p this] show "keeps s t" using s1 s2 s3 s4 s5 keeps_trans by blast
qed

lemma fs_create_keeps:
  assumes "fs_create m name mode s = Some (r, t)"
  shows "keeps s t"
proof (cases "mode \<noteq> O_CREAT \<or> (\<exists>n. strlen name m = Some n \<and> n > int FILENAMELEN) \<or> find_dirent m name s \<noteq> None")
  case True
  then show ?thesis using assms by (auto simp: fs_create_def bind_eq_Some_conv split: if_splits)
next
  case new: False
  define k where "k = numentries (root_dir (fsd s))"
  define nm where "nm = name_chars (FILENAMELEN - 1) m name @ [0]"
  define s1 where "s1 = s\<lparr>fsd := (fsd s)\<lparr>root_dir := (root_dir (fsd s))\<lparr>numentries := k + 1\<rparr>\<rparr>\<rparr>"
  define s2 where "s2 = upd_dir_entry (nat k) \<lparr>inode_num = -1, fname = nm\<rparr> s1"
  obtain u f where k: "at_index (entries (root_dir (fsd s))) k \<noteq> None" and u: "find_fd s2 = Some u"
    and f: "at_index (oft u) (next_open_fd u) = Some f"
    and t: "(if ft_state f \<noteq> FSTATE_CLOSED then Some (SYSERR, u) else create_file (next_open_fd u) (nat k) nm u) = Some (r, t)"
    using assms new unfolding fs_create_def Let_def k_def[symmetric] nm_def[symmetric] s1_def[symmetric] s2_def[symmetric]
    by (auto simp: bind_eq_Some_conv)
  have nm: "length nm = FILENAMELEN" by (simp add: nm_def length_name_chars FILENAMELEN_def)
  show ?thesis
  proof (rule keepsI)
    assume ty: "fs_typed s"
    have k16: "0 \<le> k" "k < 16" using k ty by (auto simp: at_index_def elem_at_def fs_typed_def dir_typed_def split: if_splits)
    have "fs_typed s1" using ty k16 unfolding fs_typed_def s1_def by (simp add: dir_typed_def)
    then have "keeps s s1" by (simp add: keeps_def same_device_def s1_def)
    moreover have "keeps s1 s2" unfolding s2_def using k k16(1) nm by (intro upd_entry_keeps) (auto simp: s1_def i32_def)
    moreover have "keeps s2 u" by (rule find_fd_keeps[OF u])
    ultimately have su: "keeps s u" using keeps_trans by blast
    have "dir_typed (root_dir (fsd u))" by (rule fs_typedD(1)[OF keepsD[OF su ty]])
    then have "nat k < DIRECTORY_SIZE" "nat k < length (entries (root_dir (fsd u)))"
      using k16 by (auto simp: dir_typed_def DIRECTORY_SIZE_def)
    then have "keeps u t" using t f nm by (auto intro: create_file_keeps split: if_splits)
    then show "keeps s t" using su keeps_trans by blast
  qed
qed

text \<open>Writing: the search for a block, its marking, and the loop.\<close>

lemma typed_free_block: "fs_typed s \<Longrightarrow> INT_MIN \<le> next_free_data_block s \<and> next_free_data_block s \<le> INT_MAX"
  by (simp add: fs_typed_def)

lemma find_block_keeps:
  assumes "find_block mb s = Some (b, t)"
  shows "keeps s t" "oft t = oft s"
proof -
  obtain first where fst: "FIRST_DATA_BLOCK s = Some first" and lp: "c_loop (find_block_iter first) (first, mb, s) = Some (b, t)"
    using assms by (auto simp: find_block_def bind_eq_Some_conv)
  have r: "INT_MIN \<le> first" "first \<le> INT_MAX" using fst i32_range by (auto simp: FIRST_DATA_BLOCK_def)
  have step: "keeps u v \<and> oft v = oft u" if "find_block_iter first (i, x, u) = Some (Inl (j, y, v))" for i j x y u v
  proof -
    define p where "p = (if next_free_data_block u + 1 \<ge> MDEV_NUM_BLOCKS then first else next_free_data_block u + 1)"
    have v: "v = u\<lparr>next_free_data_block := p\<rparr>"
      using that unfolding p_def by (auto simp: find_block_iter_def bind_eq_Some_conv split: if_splits)
    have "keeps u v"
    proof (rule keepsI)
      assume "fs_typed u"
      then have "INT_MIN \<le> p" "p \<le> INT_MAX" using typed_free_block[of u] r by (auto simp: p_def MDEV_NUM_BLOCKS_def)
      then show "keeps u v" unfolding v by (rule keeps_free_block)
    qed
    then show ?thesis by (simp add: v)
  qed
  have stop: "snd z = u" if "find_block_iter first (i, x, u) = Some (Inr z)" for i x u z
    using that by (auto simp: find_block_iter_def bind_eq_Some_conv split: if_splits)
  have "keeps s (snd (b, t)) \<and> oft (snd (b, t)) = oft s"
  proof (rule c_loop_inv[OF lp, where P = "\<lambda>(i, x, u). keeps s u \<and> oft u = oft s" and Q = "\<lambda>z. keeps s (snd z) \<and> oft (snd z) = oft s"])
    fix x y assume "case x of (i, x, u) \<Rightarrow> keeps s u \<and> oft u = oft s" "find_block_iter first x = Some (Inl y)"
    then show "case y of (i, x, u) \<Rightarrow> keeps s u \<and> oft u = oft s"
      by (cases x; cases y) (auto dest!: step intro: keeps_trans)
  next
    fix x z assume "case x of (i, x, u) \<Rightarrow> keeps s u \<and> oft u = oft s" "find_block_iter first x = Some (Inr z)"
    then show "keeps s (snd z) \<and> oft (snd z) = oft s" by (cases x) (auto dest: stop)
  qed simp
  then show "keeps s t" "oft t = oft s" by simp_all
qed

lemma file_block_range: "file_block f = Some b \<Longrightarrow> nat (ft_fileptr f div MDEV_BLOCK_SIZE) < length (in_blocks (ft_in f))"
  by (auto simp: file_block_def at_index_def elem_at_def split: if_splits)

lemma take_block_keeps:
  assumes "take_block fd s = Some t"
  shows "keeps s t"
proof -
  obtain s1 s2 r s3 f b where s1: "fs_setmaskbit (next_free_data_block s) s = Some s1" and s2: "fs_setmaskbit BM_BLK s1 = Some s2"
    and s3: "bs_bwrite 0 BM_BLK 0 (freemask s2) s2 = Some (r, s3)" and f: "at_index (oft s3) fd = Some f" "file_block f = Some b"
    and t: "t = upd_fd fd (\<lambda>f. f\<lparr>ft_in := (ft_in f)\<lparr>in_blocks := (in_blocks (ft_in f))[nat (ft_fileptr f div MDEV_BLOCK_SIZE) := next_free_data_block s3]\<rparr>\<rparr>) s3"
    using assms by (auto simp: take_block_def bind_eq_Some_conv)
  show ?thesis
  proof (rule keepsI)
    assume ty: "fs_typed s"
    have k12: "keeps s s2" using keeps_trans[OF setmask_keeps[OF s1] setmask_keeps[OF s2]] .
    have "\<forall>x \<in> set (freemask s2). is_byte x" by (rule fs_typedD(2)[OF keepsD[OF k12 ty]])
    from keeps_trans[OF k12 bs_bwrite_keeps[OF s3 this]] have k3: "keeps s s3" .
    have "fs_typed s3" by (rule keepsD[OF k3 ty])
    then have n: "i32 (next_free_data_block s3) = next_free_data_block s3" using typed_free_block i32_id by blast
    have "keeps s3 t" unfolding t
    proof (rule upd_fd_keeps[OF f(1)])
      assume "fd_typed f"
      then show "fd_typed (f\<lparr>ft_in := (ft_in f)\<lparr>in_blocks := (in_blocks (ft_in f))[nat (ft_fileptr f div MDEV_BLOCK_SIZE) := next_free_data_block s3]\<rparr>\<rparr>)"
        using n set_update_subset_insert[of "in_blocks (ft_in f)" "nat (ft_fileptr f div MDEV_BLOCK_SIZE)" "next_free_data_block s3"]
        by (auto simp: fd_typed_def inode_ok_def)
    qed
    then show "keeps s t" using k3 keeps_trans by blast
  qed
qed

lemma write_step_keeps:
  assumes m: "\<forall>a. is_byte (m a)" and it: "fs_write_iter fd buf m (k, tr, mb, s) = Some z"
  shows "keeps s (case z of Inl (k', tr', mb', t) \<Rightarrow> t | Inr (r, t) \<Rightarrow> t)"
proof (cases "k > 0")
  case False
  then show ?thesis using it by (auto simp: fs_write_iter_def)
next
  case True
  then obtain mb1 s1 where s1: "find_block mb s = Some (Some mb1, s1)"
    using it by (auto simp: fs_write_iter_def bind_eq_Some_conv)
  show ?thesis
  proof (cases "mb1 = 0")
    case False
    then show ?thesis using it True s1 find_block_keeps(1)[OF s1] by (auto simp: fs_write_iter_def)
  next
    case zero: True
    define len where "len = (if k < MDEV_BLOCK_SIZE then k else MDEV_BLOCK_SIZE)"
    obtain s2 f b r s3 where s2: "take_block fd s1 = Some s2" and f: "at_index (oft s2) fd = Some f" "file_block f = Some b"
      and s3: "bs_bwrite 0 b 0 (chars_at m (buf + tr) len) s2 = Some (r, s3)"
      and z: "z = (if r \<noteq> OK then Inr (Some SYSERR, s3) else Inl (k - len, tr + len, Some 0, upd_fd fd (\<lambda>f. f\<lparr>ft_fileptr := ft_fileptr f + len\<rparr>) s3))"
      using it True s1 zero unfolding fs_write_iter_def prod.case Let_def len_def[symmetric]
      by (auto simp: bind_eq_Some_conv split: if_splits)
    have len: "0 \<le> len" "len \<le> 512" using True by (auto simp: len_def MDEV_BLOCK_SIZE_def)
    have "\<forall>x \<in> set (chars_at m (buf + tr) len). is_byte x" using m by (auto simp: chars_at_def)
    from bs_bwrite_keeps[OF s3 this] have k3: "keeps s s3"
      using find_block_keeps(1)[OF s1] take_block_keeps[OF s2] keeps_trans by blast
    have "oft s3 = oft s2" using s3 by (auto simp: bs_bwrite_def bind_eq_Some_conv split: if_splits)
    then have "keeps s3 (upd_fd fd (\<lambda>f. f\<lparr>ft_fileptr := ft_fileptr f + len\<rparr>) s3)"
      using f by (intro advance_keeps[OF _ f(2) len]) simp
    then show ?thesis using k3 keeps_trans z by auto
  qed
qed

lemma fs_write_keeps:
  assumes m: "\<forall>a. is_byte (m a)" and w: "fs_write fd buf n m s = Some (r, t)"
  shows "keeps s t"
proof (cases "\<exists>f. at_index (oft s) fd = Some f \<and> \<not> n < 0 \<and> ft_state f = FSTATE_OPEN \<and> \<not> i32 (n + ft_fileptr f) \<ge> MDEV_BLOCK_SIZE * INODEDIRECTBLOCKS")
  case False
  then show ?thesis using w by (auto simp: fs_write_def bind_eq_Some_conv split: if_splits)
next
  case True
  then obtain f where f: "at_index (oft s) fd = Some f" "\<not> n < 0" "ft_state f = FSTATE_OPEN"
    "\<not> i32 (n + ft_fileptr f) \<ge> MDEV_BLOCK_SIZE * INODEDIRECTBLOCKS" by blast
  define off where "off = ft_fileptr f mod MDEV_BLOCK_SIZE"
  define len where "len = (if n < MDEV_BLOCK_SIZE - off then n else MDEV_BLOCK_SIZE - off)"
  have nf: "\<not> ft_state f \<noteq> FSTATE_OPEN" using f(3) by simp
  note w' = w[unfolded fs_write_def f(1) bind.bind_lunit Let_def off_def[symmetric] len_def[symmetric] if_not_P[OF f(2)] if_not_P[OF nf] if_not_P[OF f(4)]]
  obtain b q s1 where b: "file_block f = Some b" and s1: "bs_bwrite 0 b off (chars_at m buf len) s = Some (q, s1)"
    using w' by (auto simp: bind_eq_Some_conv)
  have len: "0 \<le> len" "len \<le> 512"
    using f(2) pos_mod_bound[of 512 "ft_fileptr f"] pos_mod_sign[of 512 "ft_fileptr f"] by (auto simp: len_def off_def MDEV_BLOCK_SIZE_def)
  have "\<forall>x \<in> set (chars_at m buf len). is_byte x" using m by (auto simp: chars_at_def)
  from bs_bwrite_keeps[OF s1 this] have k1: "keeps s s1" .
  define s2 where "s2 = upd_fd fd (\<lambda>f. f\<lparr>ft_fileptr := ft_fileptr f + len\<rparr>) s1"
  have "oft s1 = oft s" using s1 by (auto simp: bs_bwrite_def bind_eq_Some_conv split: if_splits)
  then have "keeps s1 s2" unfolding s2_def using f by (intro advance_keeps[OF _ b len]) simp
  then have k2: "keeps s s2" using k1 keeps_trans by blast
  note rest = w'[unfolded b s1 bind.bind_lunit prod.case, folded s2_def]
  show ?thesis
  proof (cases "q = OK")
    case False
    then show ?thesis using rest k1 by simp
  next
    case True
    then obtain e s3 where lp: "c_loop (fs_write_iter fd buf m) (n - len, len, None, s2) = Some (e, s3)"
      and tail: "(if e \<noteq> None then Some (SYSERR, s3)
        else do { (_, s) \<leftarrow> fs_put_inode_by_num 0 (in_id (ft_in (oft s3 ! nat fd))) (ft_in (oft s3 ! nat fd)) s3; Some (n, s) }) = Some (r, t)"
      using rest by (auto simp: bind_eq_Some_conv)
    have go: "fs_write_iter fd buf m x = Some (Inl y) \<Longrightarrow> keeps (snd (snd (snd x))) (snd (snd (snd y)))" for x y
      using write_step_keeps[OF m, of fd buf "fst x" "fst (snd x)" "fst (snd (snd x))" "snd (snd (snd x))" "Inl y"] by (simp add: case_prod_unfold)
    have out: "fs_write_iter fd buf m x = Some (Inr z) \<Longrightarrow> keeps (snd (snd (snd x))) (snd z)" for x z
      using write_step_keeps[OF m, of fd buf "fst x" "fst (snd x)" "fst (snd (snd x))" "snd (snd (snd x))" "Inr z"] by (simp add: case_prod_unfold)
    from c_loop_keeps[of "fs_write_iter fd buf m" _ _ "\<lambda>x. snd (snd (snd x))" snd, OF lp go out] have k3: "keeps s s3"
      using k2 keeps_trans by simp
    show ?thesis
    proof (cases "e = None")
      case False
      then show ?thesis using tail k3 by auto
    next
      case none: True
      then obtain e' where p: "fs_put_inode_by_num 0 (in_id (ft_in (oft s3 ! nat fd))) (ft_in (oft s3 ! nat fd)) s3 = Some (e', t)"
        using tail by (auto simp: bind_eq_Some_conv)
      show ?thesis
      proof (rule keepsI)
        assume ty: "fs_typed s"
        have t3: "fs_typed s3" by (rule keepsD[OF k3 ty])
        have "at_index (oft s3) fd \<noteq> None" using typed_index[OF ty, of fd] typed_index[OF t3, of fd] f(1) by simp
        then have "at_index (oft s3) fd = Some (oft s3 ! nat fd)" by (auto simp: at_index_def elem_at_def split: if_splits)
        from typed_fd[OF t3 this] have "length (in_blocks (ft_in (oft s3 ! nat fd))) = 12" by (simp add: fd_typed_def inode_ok_def)
        from fs_put_inode_keeps[OF p this] show "keeps s t" using k3 keeps_trans by blast
      qed
    qed
  qed
qed

section \<open>Property\<close>

datatype fs_call =
    FOpen bmem int int
  | FClose int
  | FCreate bmem int int
  | FSeek int int
  | FRead int int int bmem
  | FWrite int int int bmem

fun fs_step :: "fs_call \<Rightarrow> fsst \<Rightarrow> fsst option" where
  "fs_step (FOpen m name flags) s = map_option snd (fs_open m name flags s)"
| "fs_step (FClose fd) s = map_option snd (fs_close fd s)"
| "fs_step (FCreate m name mode) s = map_option snd (fs_create m name mode s)"
| "fs_step (FSeek fd offset) s = map_option snd (fs_seek fd offset s)"
| "fs_step (FRead fd buf n m) s = map_option (snd \<circ> snd) (fs_read fd buf n m s)"
| "fs_step (FWrite fd buf n m) s = map_option snd (fs_write fd buf n m s)"

text \<open>The memory that a write reads from holds bytes.\<close>

fun bytes_call :: "fs_call \<Rightarrow> bool" where
  "bytes_call (FWrite fd buf n m) = (\<forall>a. is_byte (m a))"
| "bytes_call c = True"

fun fs_steps :: "fs_call list \<Rightarrow> fsst \<Rightarrow> fsst option" where
  "fs_steps [] s = Some s"
| "fs_steps (c # cs) s = do { s \<leftarrow> fs_step c s; fs_steps cs s }"

lemma fs_step_keeps: "fs_step c s = Some t \<Longrightarrow> bytes_call c \<Longrightarrow> keeps s t"
  by (cases c) (auto intro: fs_open_keeps fs_close_keeps fs_create_keeps fs_seek_keeps fs_read_keeps fs_write_keeps)


lemma demo_fs_typed: "fs_typed demo_fs"
  by (simp add: fs_typed_def demo_fs_def new_mask_def fd_opened_def fd_typed_def dir_typed_def demo_inode_def inode_ok_def
      i32_def i16_def DIRECTORY_SIZE_def FILENAMELEN_def NUM_FD_def)


end
