(* ===== verification/Spec2Isabelle.thy ===== *)
theory Spec2Isabelle
  imports Kernel_Machine Ports Devices Shell C_Numbers C_Sort Print_Spec Arp_Exchange Icmp_Queue Futures Tty_Lines Lfs_Sessions Names Loopback Fs_Type
begin

text \<open>
  A verification development for the Xinu operating system, ARM version (BeagleBone Black and
  QEMU), the code under system/, include/, lib/,
  net/, shell/ and device/.

  THE PROGRAM. Xinu is a small kernel in C. All its state is global tables: the process table
  proctab, one array queuetab that holds every process queue (the ready list, the sleep queue, one
  queue per semaphore), the semaphore table semtab, a list of free memory blocks that is threaded
  through the free memory, tables of buffer pools and communication ports, and the device switch
  table devtab. System calls disable interrupts, change the tables and call resched when another
  process has become the right one to run; resched puts the caller back on the ready list when it is
  still eligible and switches to the head of that list. The clock interrupt handler counts down the
  sleep queue and the time slice. Ports and buffer pools are built on semaphores and on the heap,
  device calls on devtab, and the shell on the device calls and on the library.

  CONVENTIONS. C integers are values of type int; where the code can overflow, i32, u32, u16 and u8
  (Xinu_Prelude) reduce them to their width. A function that indexes an array with a value that it
  has not checked, or that may loop for ever, has an option type: None means an access outside the
  array or no return, Some x means that it returns x. Loops are c_loop and c_while, partial
  functions in the option monad, so there is no fuel: where a property says that a function gives
  Some, its loops have been proved to end and its indices to be in range. Every C struct is a
  record, every enumeration of named constants a datatype, every global or function-static variable
  of the kernel a field of the record kst (Kernel_State). Memory is a map from addresses to words or
  bytes; no two live objects share it except where the code shares it.

  INTERRUPTS AND CONTEXT SWITCHES. A system call runs with interrupts off from disable to restore,
  so up to its context switch it is one atomic step. resched is modelled up to ctxsw: its result is
  the state in which the chosen process runs. A call whose code after resched does more than return
  a constant returns Blocked; the rest of it is a definition of its own (receive_rest,
  recvtime_rest, suspend_rest, kill_rest, ptsend_rest, ptrecv_rest, getbuf_rest, and then_call for
  calls made after a call that may block), which runs in the state in which the caller is next
  chosen. Kernel_Machine puts the two halves together.

  THE THEORIES.

  Xinu_Prelude: C integers, the loop combinators and the rule of total correctness for them.
  Kernel_State: the records procent, qentry, sentry, ptentry, bpentry, the state kst and the
  checked accessors (include/process.h, queue.h, semaphore.h, ports.h, bufpool.h, resched.h).

  Queues (system/queue.c, getitem.c, insert.c, insertd.c, newqueue.c) and Queue_Lists: queue
  operations on the doubly linked lists inside queuetab. queues_wf states that the links of every
  queue spell a list; each operation is shown to act on those lists as enqueueing, dequeueing,
  removal or sorted insertion does. Delta_Lists gives the sleep queue its meaning: the time each
  sleeper has left is the sum of the keys up to its own.

  Scheduler (resched.c, resched2.c, ready.c, yield.c, chprio.c, getprio.c, getpid.c, resume.c,
  suspend.c), Semaphores (wait.c, signal.c, signaln.c, semcreate.c, semdelete.c, semreset.c,
  semcount.c), Messages (send.c, receive.c, recvclr.c, recvtime.c, sleep.c, unsleep.c, wakeup.c and
  the clock handlers of both platforms): the calls as the code has them.

  Kernel_Inv, Kernel_Calls, Process_Calls: the kernel invariant kinv (every process is on the queue
  that its state names and on no other one, the ready list is sorted by priority, every semaphore's
  count is minus the length of its queue when negative, the current process is the one in state
  PR_CURR and has a priority at least as high as every ready one) and, for each call, that it
  returns, stays inside the tables, keeps the invariant and has the stated effect. Slot_Scan is
  the locale of the search for a free table entry that newsem, newpid and ptcreate share; it is
  interpreted on each of the three. Kernel_Demo is a concrete state that satisfies the invariant,
  on which the properties are applied. Kernel_Properties states the contracts.

  Kernel_Machine: the kernel as a transition system. kcall is the datatype of system calls, kstep
  the step relation (the running process makes a call, finishes the call it was switched out in, or
  the clock interrupts), and the theorems are invariants of all its runs: the tables stay
  consistent, no step faults, receive delivers each message once, every sleeper is woken.

  Processes, Proc_Life, Proc_Kill (create.c, kill.c, exit.c, userret.c, close.c) and Boot
  (initialize.c, bufinit.c, clkinit.c): creation and removal of processes with their stacks,
  and the start of the system, from the static initial values to a state with the invariant.

  Heap (getmem.c, freemem.c, getstk.c, meminit.c, memory.h), Heap_Free, Heap_Trip, Heap_Alloc: the
  free list as linked memory, refined to a list of address ranges in increasing order that do not
  touch. Allocator is the locale of an allocator's contract and of a session of requests and
  releases; the heap interprets it for getmem and getstk together.

  Buffer_Pools (mkbufpool.c, getbuf.c, freebuf.c, mark.c) and Ports (ptinit.c, ptcreate.c, ptsend.c,
  ptrecv.c, ptdelete.c, ptreset.c, ptclear.c, ptcount.c): bounded queues of buffers and messages.
  ports_ok relates the linked message nodes to a list per port; ptsend appends to that list, ptrecv
  takes from its front.

  Devices (init.c, open.c, close.c, read.c, write.c, getc.c, putc.c, seek.c, control.c, getdev.c,
  ioerr.c, ionull.c, conf.c): dispatch through devtab. The drivers are a parameter, drv.

  Shell (shell/lexan.c, the parsing and look-up part of shell/shell.c): from a line to tokens, from
  tokens to a command with its redirections. Running the command (file opening, process creation) is
  not part of it.

  C_Strings, C_Numbers, C_Sort (lib/): the string and memory routines over a byte memory,
  character classes, strtol and strtoul with their end pointers, atoi, atol, abs, rand, and the
  quicksort.

  C_Print and Print_Spec (lib/doprnt.c, fdoprnt.c, sprintf.c): formatted output with its argument
  list as a list of words and the output function as a parameter, and its equivalence with a
  reference reading of the format.

  Net_State, Net_Packets (the records, byte order conversion and checksums of net/), Net_Udp,
  Net_Icmp, Net_Arp and Net_Ip (net/udp.c, icmp.c, arp.c, ip.c and the input process of net.c): the
  packet path from a call to the Ethernet device, which is a parameter, and back. The calls get and
  free packet buffers and wait for messages by the calls of the kernel model. Ring_Buffer is the
  locale of a bounded queue and of the sessions with it, interpreted on the circular packet queues;
  Net_Delivery follows one datagram from the sender to the receiver on another host, Arp_Exchange an
  address request and its answer; Icmp_Queue shows what goes wrong in the queue of ICMP replies.

  Futures (system/future*.c): the three modes of futures over the process queues.

  Tty (device/tty) and Tty_Lines: the terminal driver, from the interrupt handler to ttyread and
  ttywrite, and its input side refined to a line editor.

  Blocking: code that calls wait and signal in its middle, as the file system does, as a resumption:
  a run is done or has stopped at a context switch with the rest of its code.

  Ram_Disk (device/ram) and Lfs (device/lfs): the RAM disk and the local file system, with the
  structures on disk laid out byte by byte. The disk is a parameter of the file system; the locale
  disk_contract states what a disk promises (a sector read is the sector last written), and is
  interpreted on the RAM disk. lfs_disk extends it by the size limit under which no sector number
  overflows. Lfs_Disk sees such a disk as an array of index blocks and one of data blocks; Lfs_Rep
  relates the state to the lists of a file's blocks, the free lists and the bytes of the file;
  Lfs_Setup, Lfs_Position, Lfs_Files and Lfs_Truncate take the operations through this relation,
  Lfs_Create and Lfs_Open make and find files, Lfs_Durable closes them. Lfs_Sessions has the two
  results: an open file refines a list of bytes with a position, and files survive a restart.

  Byte_Layout: numbers as bytes in memory, shared by the two file systems.

  Names (device/nam): the name space, its table of prefixes, the mapping of names and the entries
  that naminit makes. Loopback (device/loopback): the loopback device, whose circular buffer is a
  bounded queue of bytes.

  Fs (system/fs.c, system/bs.c): the simple file system in memory: block store, inodes, bit mask, file
  table, and the calls on files. Fs_Files shows what it keeps (inodes, the bit mask, the first block
  of a file, and that the second block of a file of a new file system is taken from the inodes);
  Fs_Type shows that every call keeps its variables within their C types and tables.

  WHAT THE PROPERTIES SHOW. The contracts of the kernel calls (what each returns on every branch,
  which process runs afterwards, what happens to the queues, and that everything else is left
  alone); invariants of all runs of the kernel machine; the round trips of allocation and release,
  of buffers, and of the parts of a number; refinement of the linked structures to lists; error and
  wrap-around behaviour as the code has it, also where it is not what a comment says.

  NOT MODELLED. The context switch, exception entry and other assembly; device drivers that
  are hardware registers (Ethernet, UART, SD card); the remote disk and remote files; formatted input; the clients of
  network services (DHCP, DNS, TFTP) and the messages on the console; the
  configuration program and the image tools, which run on the host and are mostly generated or
  foreign code; the example programs. Of initialize.c, the calls that set up drivers are left out.
\<close>

end
